(* ===== verification/Prelude.thy ===== *)
theory Prelude
  imports Main "HOL-Library.Word" "HOL-Library.List_Lexorder" "HOL-Library.Char_ord"
begin

text \<open>
  What the component theories share: the names of the machine types, the propagation of
  errors (Rust's \<open>?\<close> on a pure result and on a result beside a state), fixed-width
  byte readers and writers, decimal and hexadecimal printing, and two locales that several
  components interpret (\<open>guarded_machine\<close>, an invariant that every operation keeps,
  and \<open>hash_chain\<close>, records linked by SHA-256).
\<close>

unbundle bit_operations_syntax

named_theorems result_simps \<open>laws of the error-propagating combinators\<close>
named_theorems byte_simps \<open>lengths and values of fixed-width byte encodings\<close>

section \<open>Types\<close>

type_synonym u8 = "8 word"
type_synonym u16 = "16 word"
type_synonym u32 = "32 word"
type_synonym u64 = "64 word"
type_synonym bytes = "8 word list"
type_synonym digest = "256 word"

text \<open>
  Signed 64-bit times are integers; the places where the code does arithmetic on them say
  what happens at the ends of the range. \<open>sat_i64\<close> is the result of Rust's saturating
  operations, \<open>wrap_i64\<close> that of the plain operators of a release build.
\<close>

type_synonym i64 = int

definition i64_min :: int where "i64_min = - (2 ^ 63)"
definition i64_max :: int where "i64_max = 2 ^ 63 - 1"

definition sat_i64 :: "int \<Rightarrow> int" where
  "sat_i64 x = max i64_min (min i64_max x)"

definition wrap_i64 :: "int \<Rightarrow> int" where
  "wrap_i64 x = (x + 2 ^ 63) mod 2 ^ 64 - 2 ^ 63"

definition in_i64 :: "int \<Rightarrow> bool" where
  "in_i64 x \<longleftrightarrow> i64_min \<le> x \<and> x \<le> i64_max"

lemma sat_i64_id: "in_i64 x \<Longrightarrow> sat_i64 x = x"
  by (simp add: sat_i64_def in_i64_def)

lemma sat_i64_range: "in_i64 (sat_i64 x)"
  by (simp add: sat_i64_def in_i64_def i64_min_def i64_max_def)

lemma wrap_i64_id: "in_i64 x \<Longrightarrow> wrap_i64 x = x"
  by (simp add: wrap_i64_def in_i64_def i64_min_def i64_max_def)

lemma wrap_i64_range: "in_i64 (wrap_i64 x)"
proof -
  have "0 \<le> (x + 2 ^ 63) mod 2 ^ 64" "(x + 2 ^ 63) mod 2 ^ 64 < 2 ^ 64"
    by simp_all
  then show ?thesis
    by (simp add: wrap_i64_def in_i64_def i64_min_def i64_max_def)
qed

section \<open>Error propagation\<close>

text \<open>
  \<open>Inl\<close> is Rust's \<open>Err\<close>, \<open>Inr\<close> its \<open>Ok\<close>. \<open>ebind\<close> is \<open>?\<close> in a pure
  function; \<open>try_then\<close> is \<open>?\<close> in a method that has already changed its state, so the
  state reached at the error is kept.
\<close>

definition ebind :: "'e + 'a \<Rightarrow> ('a \<Rightarrow> 'e + 'b) \<Rightarrow> 'e + 'b" where
  "ebind r k = (case r of Inl e \<Rightarrow> Inl e | Inr x \<Rightarrow> k x)"

definition map_err :: "('e \<Rightarrow> 'f) \<Rightarrow> 'e + 'a \<Rightarrow> 'f + 'a" where
  "map_err f r = (case r of Inl e \<Rightarrow> Inl (f e) | Inr x \<Rightarrow> Inr x)"

definition ok_or :: "'e \<Rightarrow> 'a option \<Rightarrow> 'e + 'a" where
  "ok_or e r = (case r of None \<Rightarrow> Inl e | Some x \<Rightarrow> Inr x)"

definition try_then :: "('e + 'a) \<times> 's \<Rightarrow> ('a \<Rightarrow> 's \<Rightarrow> ('e + 'b) \<times> 's) \<Rightarrow> ('e + 'b) \<times> 's" where
  "try_then r k = (case r of (Inl e, s) \<Rightarrow> (Inl e, s) | (Inr x, s) \<Rightarrow> k x s)"

definition require :: "bool \<Rightarrow> 'e \<Rightarrow> 'e + unit" where
  "require b e = (if b then Inr () else Inl e)"

lemma ebind_simps [simp, result_simps]:
  "ebind (Inl e) k = Inl e"
  "ebind (Inr x) k = k x"
  by (simp_all add: ebind_def)

lemma ebind_eq_Inr: "ebind r k = Inr y \<longleftrightarrow> (\<exists>x. r = Inr x \<and> k x = Inr y)"
  by (cases r) simp_all

lemma ebind_eq_Inl: "ebind r k = Inl e \<longleftrightarrow> r = Inl e \<or> (\<exists>x. r = Inr x \<and> k x = Inl e)"
  by (cases r) auto

lemma map_err_simps [simp, result_simps]:
  "map_err f (Inl e) = Inl (f e)"
  "map_err f (Inr x) = Inr x"
  by (simp_all add: map_err_def)

lemma map_err_eq_Inr [simp]: "map_err f r = Inr y \<longleftrightarrow> r = Inr y"
  by (cases r) simp_all

lemma ok_or_simps [simp, result_simps]:
  "ok_or e None = Inl e"
  "ok_or e (Some x) = Inr x"
  by (simp_all add: ok_or_def)

lemma ok_or_eq_Inr [simp]: "ok_or e r = Inr y \<longleftrightarrow> r = Some y"
  by (cases r) simp_all

lemma try_then_simps [simp, result_simps]:
  "try_then (Inl e, s) k = (Inl e, s)"
  "try_then (Inr x, s) k = k x s"
  by (simp_all add: try_then_def)

lemma try_then_eq_Inr:
  "try_then r k = (Inr y, t) \<longleftrightarrow> (\<exists>x s. r = (Inr x, s) \<and> k x s = (Inr y, t))"
  by (cases r; cases "fst r") auto

lemma ebind_cong: "r = r' \<Longrightarrow> (\<And>x. r' = Inr x \<Longrightarrow> k x = k' x) \<Longrightarrow> ebind r k = ebind r' k'"
  by (cases r') simp_all

lemma try_then_cong:
  "r = r' \<Longrightarrow> (\<And>x s. r' = (Inr x, s) \<Longrightarrow> k x s = k' x s) \<Longrightarrow> try_then r k = try_then r' k'"
  by (auto simp: try_then_def split: prod.splits sum.splits)

lemma require_simps [simp, result_simps]:
  "require True e = Inr ()"
  "require False e = Inl e"
  by (simp_all add: require_def)

lemma require_eq_Inr [simp]: "require b e = Inr u \<longleftrightarrow> b"
  by (simp add: require_def)

section \<open>Fixed-width bytes\<close>

text \<open>
  \<open>to_le_bytes\<close>, \<open>to_be_bytes\<close>, \<open>from_le_bytes\<close> and \<open>from_be_bytes\<close> of Rust's integer types,
  over the value read as a natural number; the width is the first argument.
\<close>

primrec nat_to_le :: "nat \<Rightarrow> nat \<Rightarrow> bytes" where
  "nat_to_le 0 x = []"
| "nat_to_le (Suc n) x = of_nat (x mod 256) # nat_to_le n (x div 256)"

primrec le_to_nat :: "bytes \<Rightarrow> nat" where
  "le_to_nat [] = 0"
| "le_to_nat (b # bs) = unat b + 256 * le_to_nat bs"

definition nat_to_be :: "nat \<Rightarrow> nat \<Rightarrow> bytes" where
  "nat_to_be n x = rev (nat_to_le n x)"

definition be_to_nat :: "bytes \<Rightarrow> nat" where
  "be_to_nat bs = le_to_nat (rev bs)"

lemma length_nat_to_le [simp, byte_simps]: "length (nat_to_le n x) = n"
  by (induction n arbitrary: x) simp_all

lemma length_nat_to_be [simp, byte_simps]: "length (nat_to_be n x) = n"
  by (simp add: nat_to_be_def)

lemma unat_u8_bound: "unat (b :: u8) < 256"
  by (rule order_less_le_trans [OF unsigned_less]) simp

lemma unat_digest_bound: "unat (d :: digest) < 256 ^ 32"
  by (rule order_less_le_trans [OF unsigned_less]) simp

lemma unat_of_nat_byte: "unat (of_nat (x mod 256) :: u8) = x mod 256"
  by (simp add: unat_of_nat)

lemma le_to_nat_of_le [byte_simps]: "le_to_nat (nat_to_le n x) = x mod 256 ^ n"
proof (induction n arbitrary: x)
  case 0
  then show ?case by simp
next
  case (Suc n)
  have "x mod (256 * 256 ^ n) = 256 * (x div 256 mod 256 ^ n) + x mod 256"
    by (rule mod_mult2_eq)
  with Suc show ?case by (simp add: unat_of_nat_byte)
qed

lemma be_to_nat_of_be [byte_simps]: "be_to_nat (nat_to_be n x) = x mod 256 ^ n"
  by (simp add: be_to_nat_def nat_to_be_def le_to_nat_of_le)

lemma le_to_nat_bound: "le_to_nat bs < 256 ^ length bs"
proof (induction bs)
  case Nil
  then show ?case by simp
next
  case (Cons b bs)
  have "unat b < 256" by (rule unat_u8_bound)
  with Cons show ?case by simp
qed

lemma nat_to_le_of_nat: "nat_to_le (length bs) (le_to_nat bs) = bs"
proof (induction bs)
  case Nil
  then show ?case by simp
next
  case (Cons b bs)
  have "unat b < 256" by (rule unat_u8_bound)
  with Cons show ?case by simp
qed

text \<open>A fixed-width field determines a value that fits it.\<close>

lemma nat_to_be_inject: "x < 256 ^ n \<Longrightarrow> y < 256 ^ n \<Longrightarrow> nat_to_be n x = nat_to_be n y \<longleftrightarrow> x = y"
  by (metis be_to_nat_of_be mod_less)

text \<open>A 4-byte big-endian length (the cast to \<open>u32\<close> truncates) and the bytes.\<close>

definition len_prefixed :: "bytes \<Rightarrow> bytes" where
  "len_prefixed bs = nat_to_be 4 (length bs) @ bs"

lemma len_prefixed_append:
  assumes "length a < 2 ^ 32" "length b < 2 ^ 32"
  shows "len_prefixed a @ r = len_prefixed b @ s \<longleftrightarrow> a = b \<and> r = s"
proof
  assume "len_prefixed a @ r = len_prefixed b @ s"
  then have "nat_to_be 4 (length a) = nat_to_be 4 (length b)" and rest: "a @ r = b @ s"
    by (simp_all add: len_prefixed_def)
  then have "length a = length b" using assms by (simp add: nat_to_be_inject)
  with rest show "a = b \<and> r = s" by simp
qed simp

lemma len_prefixed_inject:
  "length a < 2 ^ 32 \<Longrightarrow> length b < 2 ^ 32 \<Longrightarrow> len_prefixed a = len_prefixed b \<longleftrightarrow> a = b"
  using len_prefixed_append [of a b "[]" "[]"] by simp

definition i64_be :: "i64 \<Rightarrow> bytes" where
  "i64_be x = nat_to_be 8 (nat (x mod 2 ^ 64))"

lemma length_i64_be [simp]: "length (i64_be x) = 8"
  by (simp add: i64_be_def)

lemma i64_be_inject: "in_i64 x \<Longrightarrow> in_i64 y \<Longrightarrow> i64_be x = i64_be y \<longleftrightarrow> x = y"
proof -
  assume r: "in_i64 x" "in_i64 y"
  have "nat (z mod 2 ^ 64) < 256 ^ 8" for z :: int by simp
  then have "i64_be x = i64_be y \<longleftrightarrow> nat (x mod 2 ^ 64) = nat (y mod 2 ^ 64)"
    unfolding i64_be_def by (intro nat_to_be_inject) blast+
  also have "\<dots> \<longleftrightarrow> x mod 2 ^ 64 = y mod 2 ^ 64"
    by (simp add: eq_nat_nat_iff)
  also have "\<dots> \<longleftrightarrow> x = y"
  proof
    assume "x mod 2 ^ 64 = y mod 2 ^ 64"
    then have "2 ^ 64 dvd (x - y)" by (simp add: mod_eq_dvd_iff)
    moreover have "\<bar>x - y\<bar> < 2 ^ 64"
      using r by (simp add: in_i64_def i64_min_def i64_max_def abs_less_iff)
    ultimately show "x = y" using zdvd_imp_le [of "2 ^ 64" "\<bar>x - y\<bar>"] by auto
  qed simp
  finally show ?thesis .
qed

section \<open>Digests and hash chains\<close>

text \<open>
  A SHA-256 digest is a 32-byte array (\<open>[u8; 32]\<close>), here a 256-bit word whose bytes are
  \<open>digest_bytes\<close>. The hash function itself is OpenSSL's, a parameter of every definition
  that hashes.
\<close>


definition digest_bytes :: "digest \<Rightarrow> bytes" where
  "digest_bytes d = nat_to_be 32 (unat d)"

lemma length_digest_bytes [simp, byte_simps]: "length (digest_bytes d) = 32"
  by (simp add: digest_bytes_def)

lemma digest_bytes_inject [simp]: "digest_bytes d = digest_bytes e \<longleftrightarrow> d = e"
proof
  assume "digest_bytes d = digest_bytes e"
  then have "be_to_nat (digest_bytes d) = be_to_nat (digest_bytes e)" by simp
  moreover have "unat w < 256 ^ 32" for w :: digest
    by (rule unat_digest_bound)
  ultimately have "unat d = unat e"
    by (simp add: digest_bytes_def byte_simps)
  then show "d = e" by (simp add: word_unat_eq_iff)
qed simp

text \<open>\<open>chain_head\<close> is the running hash after a list of records.\<close>

definition chain_head :: "(bytes \<Rightarrow> 'r \<Rightarrow> digest) \<Rightarrow> bytes \<Rightarrow> 'r list \<Rightarrow> bytes" where
  "chain_head link g rs = foldl (\<lambda>h r. digest_bytes (link h r)) g rs"

definition chain_inputs :: "(bytes \<Rightarrow> 'r \<Rightarrow> digest) \<Rightarrow> ('r \<Rightarrow> bytes) \<Rightarrow> bytes \<Rightarrow> 'r list \<Rightarrow> bytes set" where
  "chain_inputs link body g rs = (\<lambda>i. chain_head link g (take i rs) @ body (rs ! i)) ` {..<length rs}"

lemma chain_head_Nil [simp]: "chain_head link g [] = g"
  by (simp add: chain_head_def)

lemma chain_head_snoc [simp]:
  "chain_head link g (rs @ [r]) = digest_bytes (link (chain_head link g rs) r)"
  by (simp add: chain_head_def)

lemma chain_head_Cons:
  "chain_head link g (r # rs) = chain_head link (digest_bytes (link g r)) rs"
  by (simp add: chain_head_def)

lemma length_chain_head: "length (chain_head link g rs) = (if rs = [] then length g else 32)"
  by (cases rs rule: rev_cases) simp_all

lemma chain_inputs_snoc:
  "chain_inputs link body g (rs @ [r]) =
     insert (chain_head link g rs @ body r) (chain_inputs link body g rs)"
proof -
  have "{..<Suc n} = insert n {..<n}" for n :: nat by auto
  then show ?thesis by (auto simp: chain_inputs_def nth_append)
qed

text \<open>A condition on every record, its place and its predecessor, of a log that grows at its end.\<close>

lemma all_linked_snoc:
  "(\<forall>i < length (rs @ [r]). R i (if i = 0 then g else h ((rs @ [r]) ! (i - 1))) ((rs @ [r]) ! i)) \<longleftrightarrow>
   (\<forall>i < length rs. R i (if i = 0 then g else h (rs ! (i - 1))) (rs ! i)) \<and> R (length rs) (if rs = [] then g else h (last rs)) r"
proof -
  have old: "(rs @ [r]) ! i = rs ! i" "(rs @ [r]) ! (i - 1) = rs ! (i - 1)" if "i < length rs" for i
    using that less_imp_diff_less [OF that, of 1] by (simp_all add: nth_append)
  have new: "(rs @ [r]) ! length rs = r" "length rs \<noteq> 0 \<Longrightarrow> (rs @ [r]) ! (length rs - 1) = last rs"
    by (simp_all add: nth_append last_conv_nth)
  show ?thesis
    unfolding length_append_singleton All_less_Suc new(1) using old new(2) by (cases "rs = []") (simp_all add: conj_commute)
qed

text \<open>
  The interface of every hash-chained log of the program: the link hashes the previous
  hash followed by the record's own bytes. Where SHA-256 does not collide on the inputs
  two chains of equal length hash, equal heads mean equal contents.
\<close>

locale hash_chain =
  fixes link :: "bytes \<Rightarrow> 'r \<Rightarrow> digest"
    and sha :: "bytes \<Rightarrow> digest"
    and body :: "'r \<Rightarrow> bytes"
  assumes link_sha: "link h r = sha (h @ body r)"
begin

lemma head_determines:
  assumes "length rs = length rs'"
    and "chain_head link g rs = chain_head link g rs'"
    and "inj_on sha (chain_inputs link body g rs \<union> chain_inputs link body g rs')"
  shows "map body rs = map body rs'"
  using assms
proof (induction rs arbitrary: rs' rule: rev_induct)
  case Nil
  then show ?case by simp
next
  case (snoc r rs)
  then obtain ss s where rs': "rs' = ss @ [s]" and len: "length rs = length ss"
    by (cases rs' rule: rev_cases) auto
  let ?x = "chain_head link g rs @ body r" and ?y = "chain_head link g ss @ body s"
  have "link (chain_head link g rs) r = link (chain_head link g ss) s"
    using snoc.prems(2) by (simp add: rs')
  then have "sha ?x = sha ?y"
    unfolding link_sha [symmetric] .
  moreover have "?x \<in> chain_inputs link body g (rs @ [r])" "?y \<in> chain_inputs link body g rs'"
    by (simp_all add: rs' chain_inputs_snoc)
  ultimately have "?x = ?y"
    using inj_onD [OF snoc.prems(3)] by blast
  moreover have "length (chain_head link g rs) = length (chain_head link g ss)"
    using len by (cases rs; cases ss) (simp_all add: length_chain_head)
  ultimately have heads: "chain_head link g rs = chain_head link g ss" and "body r = body s"
    by simp_all
  have "inj_on sha (chain_inputs link body g rs \<union> chain_inputs link body g ss)"
    by (rule inj_on_subset [OF snoc.prems(3)]) (auto simp: rs' chain_inputs_snoc)
  with snoc.IH [OF len heads] \<open>body r = body s\<close> show ?case by (simp add: rs')
qed

lemma link_determines:
  assumes "link h r = link h' r'" and "length h = length h'"
    and "inj_on sha {h @ body r, h' @ body r'}"
  shows "h = h' \<and> body r = body r'"
proof -
  have "sha (h @ body r) = sha (h' @ body r')"
    using assms(1) unfolding link_sha [symmetric] .
  then have "h @ body r = h' @ body r'"
    using inj_onD [OF assms(3)] by blast
  with assms(2) show ?thesis by simp
qed

end

text \<open>The classification label that commands and measurement batches carry.\<close>

record label =
  marking :: string
  caveats :: "string list"

section \<open>Files\<close>

text \<open>
  What the operating system does with the open, the writes and the flush of one append to a
  file: everything, nothing (the open failed), or an error after some of the bytes reached it.
\<close>

datatype write_outcome = WriteOk | OpenFail | WriteFail nat

definition append_file :: "write_outcome \<Rightarrow> bytes \<Rightarrow> bytes \<Rightarrow> bool \<times> bytes" where
  "append_file w old new =
     (case w of WriteOk \<Rightarrow> (True, old @ new) | OpenFail \<Rightarrow> (False, old) | WriteFail n \<Rightarrow> (False, old @ take n new))"

section \<open>Machines that keep an invariant\<close>

text \<open>
  A component with operations \<open>step\<close>, a condition \<open>ok\<close> on the operations that are
  considered, and an invariant that each such operation keeps; runs then keep it.
\<close>

locale guarded_machine =
  fixes step :: "'s \<Rightarrow> 'e \<Rightarrow> 's"
    and ok :: "'e \<Rightarrow> bool"
    and inv :: "'s \<Rightarrow> bool"
  assumes step_inv: "inv s \<Longrightarrow> ok e \<Longrightarrow> inv (step s e)"
begin

lemma run_inv: "inv s \<Longrightarrow> list_all ok es \<Longrightarrow> inv (foldl step s es)"
  by (induction es arbitrary: s) (auto intro: step_inv)

lemma run_prefix_inv: "inv s \<Longrightarrow> list_all ok es \<Longrightarrow> inv (foldl step s (take n es))"
proof -
  assume "inv s" "list_all ok es"
  then have "list_all ok (take n es)" by (auto simp: list_all_iff dest: in_set_takeD)
  with \<open>inv s\<close> show ?thesis by (rule run_inv)
qed

end

section \<open>Text\<close>

text \<open>
  Rust strings are UTF-8 bytes; a HOL \<open>string\<close> is a list of bytes read as characters.
  \<open>show_nat\<close> and \<open>show_int\<close> are the decimal \<open>Display\<close> of integers, \<open>hex_encode\<close> the
  lower-case two-digit rendering the crates share.
\<close>

definition digit_char :: "nat \<Rightarrow> char" where
  "digit_char d = (if d < 10 then char_of (48 + d) else char_of (87 + d))"

function show_nat :: "nat \<Rightarrow> string" where
  "show_nat n = (if n < 10 then [digit_char n] else show_nat (n div 10) @ [digit_char (n mod 10)])"
  by pat_completeness auto
termination by (relation "measure id") auto

declare show_nat.simps [simp del]

definition show_int :: "int \<Rightarrow> string" where
  "show_int i = (if i < 0 then ''-'' @ show_nat (nat (- i)) else show_nat (nat i))"

definition show_bool :: "bool \<Rightarrow> string" where
  "show_bool b = (if b then ''true'' else ''false'')"

text \<open>
  \<open>{:?}\<close> of a string: quoted, with Rust's escapes of the quote, the backslash and the
  ASCII control characters (bytes above ASCII are passed on as they are).
\<close>

definition debug_char :: "char \<Rightarrow> string" where
  "debug_char c =
     (let n = (of_char c :: nat) in
      if c = CHR 0x22 then [CHR 0x5C, CHR 0x22]
      else if c = CHR 0x5C then [CHR 0x5C, CHR 0x5C]
      else if n = 0 then [CHR 0x5C, CHR ''0'']
      else if n = 9 then [CHR 0x5C, CHR ''t'']
      else if n = 10 then [CHR 0x5C, CHR ''n'']
      else if n = 13 then [CHR 0x5C, CHR ''r'']
      else if n < 16 then [CHR 0x5C] @ ''u{'' @ [digit_char n] @ ''}''
      else if n < 32 \<or> n = 127 then
        [CHR 0x5C] @ ''u{'' @ [digit_char (n div 16), digit_char (n mod 16)] @ ''}''
      else [c])"

definition debug_str :: "string \<Rightarrow> string" where
  "debug_str s = [CHR 0x22] @ concat (map debug_char s) @ [CHR 0x22]"

definition hex_encode :: "bytes \<Rightarrow> string" where
  "hex_encode bs = concat (map (\<lambda>b. [digit_char (unat b div 16), digit_char (unat b mod 16)]) bs)"

definition string_bytes :: "string \<Rightarrow> bytes" where
  "string_bytes s = map (\<lambda>c. of_nat (of_char c)) s"

fun join :: "string \<Rightarrow> string list \<Rightarrow> string" where
  "join sep [] = []"
| "join sep [x] = x"
| "join sep (x # xs) = x @ sep @ join sep xs"

fun split_on :: "char \<Rightarrow> string \<Rightarrow> string list" where
  "split_on c [] = [[]]"
| "split_on c (x # xs) =
     (if x = c then [] # split_on c xs
      else (case split_on c xs of [] \<Rightarrow> [[x]] | w # ws \<Rightarrow> (x # w) # ws))"

lemma split_on_nonempty [simp]: "split_on c xs \<noteq> []"
  by (induction xs) (auto split: list.splits)

lemma split_on_free: "c \<notin> set xs \<Longrightarrow> split_on c xs = [xs]"
  by (induction xs) auto

lemma split_on_append: "c \<notin> set xs \<Longrightarrow> split_on c (xs @ c # ys) = xs # split_on c ys"
  by (induction xs) auto

lemma split_on_join:
  "xs \<noteq> [] \<Longrightarrow> \<forall>x \<in> set xs. c \<notin> set x \<Longrightarrow> split_on c (join [c] xs) = xs"
  by (induction "[c]" xs rule: join.induct) (auto simp: split_on_free split_on_append)

lemma string_bytes_inject [simp]: "string_bytes s = string_bytes t \<longleftrightarrow> s = t"
proof -
  have "inj (\<lambda>c. of_nat (of_char c) :: u8)"
  proof (rule injI)
    fix c d :: char
    assume "(of_nat (of_char c) :: u8) = of_nat (of_char d)"
    then have "unat (of_nat (of_char c) :: u8) = unat (of_nat (of_char d) :: u8)" by simp
    then have "(of_char c :: nat) mod 256 = of_char d mod 256"
      by (simp add: unat_of_nat)
    then have "(of_char c :: nat) = of_char d" by simp
    then show "c = d" by simp
  qed
  then show ?thesis by (auto simp: string_bytes_def inj_map_eq_map)
qed

lemma length_string_bytes [simp]: "length (string_bytes s) = length s"
  by (simp add: string_bytes_def)

lemma of_char_digit:
  "d < 16 \<Longrightarrow> (of_char (digit_char d) :: nat) = (if d < 10 then 48 + d else 87 + d)"
  by (simp add: digit_char_def take_bit_eq_mod)

lemma digit_char_inject:
  assumes "a < 16" "b < 16"
  shows "digit_char a = digit_char b \<longleftrightarrow> a = b"
proof
  assume "digit_char a = digit_char b"
  then have "(if a < 10 then 48 + a else 87 + a) = (if b < 10 then 48 + b else 87 + b)"
    unfolding of_char_digit [OF assms(1), symmetric] of_char_digit [OF assms(2), symmetric] by simp
  with assms show "a = b" by (simp split: if_split_asm)
qed simp

lemma hex_encode_Cons:
  "hex_encode (b # bs) = digit_char (unat b div 16) # digit_char (unat b mod 16) # hex_encode bs"
  by (simp add: hex_encode_def)

lemma hex_encode_Nil [simp]: "hex_encode [] = []"
  by (simp add: hex_encode_def)

lemma hex_digits_inject:
  "digit_char (unat b div 16) = digit_char (unat c div 16) \<and>
   digit_char (unat b mod 16) = digit_char (unat c mod 16) \<longleftrightarrow> (b :: u8) = c"
proof -
  have div: "unat (x :: u8) div 16 < 16" for x
    by (rule div_less_iff_less_mult [THEN iffD2]) (use unat_u8_bound [of x] in auto)
  have "digit_char (unat b div 16) = digit_char (unat c div 16) \<longleftrightarrow> unat b div 16 = unat c div 16"
    by (rule digit_char_inject [OF div div])
  moreover have "digit_char (unat b mod 16) = digit_char (unat c mod 16) \<longleftrightarrow> unat b mod 16 = unat c mod 16"
    by (rule digit_char_inject) simp_all
  moreover have "m div 16 = n div 16 \<and> m mod 16 = n mod 16 \<longleftrightarrow> m = n" for m n :: nat
    by (metis div_mult_mod_eq)
  ultimately show ?thesis by (simp only: word_unat_eq_iff)
qed

lemma hex_encode_inject [simp]: "hex_encode bs = hex_encode cs \<longleftrightarrow> bs = cs"
proof (induction bs arbitrary: cs)
  case Nil
  then show ?case by (cases cs) (simp_all add: hex_encode_Cons)
next
  case (Cons b bs)
  show ?case
    by (cases cs) (simp_all add: hex_encode_Cons Cons conj_assoc [symmetric] hex_digits_inject)
qed

lemma length_hex_encode: "length (hex_encode bs) = 2 * length bs"
  by (induction bs) (simp_all add: hex_encode_def)

end
