(* ===== verification/BTree.thy ===== *)
theory BTree
  imports Prelude
begin

text \<open>
  Rust's \<open>BTreeMap\<close> and \<open>BTreeSet\<close>, which the services use wherever the order of
  iteration shows (a query answer, a snapshot, a directory listing). A map is its list of
  entries in the order it iterates them, by key; the laws the clients rely on are a locale,
  interpreted below on these operations.
\<close>

type_synonym ('k, 'v) btree = "('k \<times> 'v) list"

fun bt_insert :: "'k::linorder \<Rightarrow> 'v \<Rightarrow> ('k, 'v) btree \<Rightarrow> ('k, 'v) btree" where
  "bt_insert k v [] = [(k, v)]"
| "bt_insert k v ((k', v') # m) =
     (if k < k' then (k, v) # (k', v') # m
      else if k = k' then (k, v) # m
      else (k', v') # bt_insert k v m)"

definition bt_get :: "('k, 'v) btree \<Rightarrow> 'k \<Rightarrow> 'v option" where
  "bt_get m k = map_of m k"

definition bt_contains :: "('k, 'v) btree \<Rightarrow> 'k \<Rightarrow> bool" where
  "bt_contains m k \<longleftrightarrow> bt_get m k \<noteq> None"

text \<open>\<open>entry(k).or_insert(v)\<close>: the entry that is there stays.\<close>

definition bt_or_insert :: "'k::linorder \<Rightarrow> 'v \<Rightarrow> ('k, 'v) btree \<Rightarrow> ('k, 'v) btree" where
  "bt_or_insert k v m = (if bt_contains m k then m else bt_insert k v m)"

text \<open>\<open>*entry(k).or_insert(0) += 1\<close>.\<close>

definition bt_bump :: "'k::linorder \<Rightarrow> ('k, nat) btree \<Rightarrow> ('k, nat) btree" where
  "bt_bump k m = bt_insert k (case bt_get m k of None \<Rightarrow> 1 | Some n \<Rightarrow> Suc n) m"

definition bt_keys :: "('k, 'v) btree \<Rightarrow> 'k list" where
  "bt_keys m = map fst m"

definition bt_values :: "('k, 'v) btree \<Rightarrow> 'v list" where
  "bt_values m = map snd m"

definition bt_sorted :: "('k::linorder, 'v) btree \<Rightarrow> bool" where
  "bt_sorted m \<longleftrightarrow> sorted (map fst m) \<and> distinct (map fst m)"

text \<open>Collecting an iterator of entries into a map.\<close>

definition bt_of_list :: "('k::linorder \<times> 'v) list \<Rightarrow> ('k, 'v) btree" where
  "bt_of_list es = foldl (\<lambda>m e. bt_insert (fst e) (snd e) m) [] es"

section \<open>Laws\<close>

lemma bt_get_insert [simp]: "bt_get (bt_insert k v m) k' = (if k' = k then Some v else bt_get m k')"
  by (induction k v m rule: bt_insert.induct) (auto simp: bt_get_def)

lemma bt_get_Nil [simp]: "bt_get [] k = None"
  by (simp add: bt_get_def)

lemma set_keys_insert: "fst ` set (bt_insert k v m) = insert k (fst ` set m)"
  by (induction k v m rule: bt_insert.induct) auto

lemma bt_sorted_Nil [simp]: "bt_sorted []"
  by (simp add: bt_sorted_def)

lemma bt_sorted_Cons:
  "bt_sorted ((k, v) # m) \<longleftrightarrow> (\<forall>k' \<in> fst ` set m. k < k') \<and> bt_sorted m"
  by (auto simp: bt_sorted_def less_le)

lemma bt_sorted_insert: "bt_sorted m \<Longrightarrow> bt_sorted (bt_insert k v m)"
proof (induction k v m rule: bt_insert.induct)
  case (1 k v)
  then show ?case by (simp add: bt_sorted_def)
next
  case (2 k v k' v' m)
  then show ?case by (auto simp: bt_sorted_Cons set_keys_insert)
qed

lemma bt_get_or_insert [simp]:
  "bt_get (bt_or_insert k v m) k' =
     (if k' = k then (case bt_get m k of None \<Rightarrow> Some v | Some w \<Rightarrow> Some w) else bt_get m k')"
  by (auto simp: bt_or_insert_def bt_contains_def split: option.splits)

lemma bt_get_bump [simp]:
  "bt_get (bt_bump k m) k' =
     (if k' = k then Some (case bt_get m k of None \<Rightarrow> 1 | Some n \<Rightarrow> Suc n) else bt_get m k')"
  by (simp add: bt_bump_def)

lemma bt_get_SomeD: "bt_get m k = Some v \<Longrightarrow> (k, v) \<in> set m"
  by (simp add: bt_get_def map_of_SomeD)

lemma bt_get_eq_Some: "bt_sorted m \<Longrightarrow> bt_get m k = Some v \<longleftrightarrow> (k, v) \<in> set m"
  by (simp add: bt_get_def bt_sorted_def)

lemma bt_contains_iff: "bt_contains m k \<longleftrightarrow> k \<in> set (bt_keys m)"
  by (auto simp: bt_contains_def bt_get_def bt_keys_def map_of_eq_None_iff)

text \<open>Two sorted maps that answer every lookup alike are the same list of entries.\<close>

lemma bt_entries: "bt_sorted m \<Longrightarrow> m = map (\<lambda>k. (k, the (bt_get m k))) (bt_keys m)"
proof -
  assume "bt_sorted m"
  then have "(k, v) \<in> set m \<Longrightarrow> bt_get m k = Some v" for k v
    by (simp add: bt_get_eq_Some)
  then show ?thesis by (auto simp: bt_keys_def intro!: nth_equalityI) (metis nth_mem option.sel prod.collapse)
qed

lemma bt_ext:
  assumes "bt_sorted m" "bt_sorted m'" "\<And>k. bt_get m k = bt_get m' k"
  shows "m = m'"
proof -
  have "set (bt_keys m) = set (bt_keys m')"
    using assms(3) by (auto simp: bt_contains_iff [symmetric] bt_contains_def)
  then have "bt_keys m = bt_keys m'"
    using assms(1,2) by (intro sorted_distinct_set_unique) (simp_all add: bt_sorted_def bt_keys_def)
  then show ?thesis
    using bt_entries [OF assms(1)] bt_entries [OF assms(2)] assms(3) by simp
qed

lemma bt_insert_commute:
  assumes "bt_sorted m" "k \<noteq> k'"
  shows "bt_insert k v (bt_insert k' v' m) = bt_insert k' v' (bt_insert k v m)"
  by (rule bt_ext) (use assms in \<open>auto intro: bt_sorted_insert\<close>)

text \<open>
  What a client of an ordered map relies on: the abstract contents after each operation,
  and the order invariant that makes iteration deterministic.
\<close>

locale ordered_map =
  fixes insert :: "'k::linorder \<Rightarrow> 'v \<Rightarrow> 'm \<Rightarrow> 'm"
    and lookup :: "'m \<Rightarrow> 'k \<Rightarrow> 'v option"
    and keys :: "'m \<Rightarrow> 'k list"
    and empty :: 'm
    and invar :: "'m \<Rightarrow> bool"
  assumes lookup_empty: "lookup empty k = None"
    and lookup_insert: "lookup (insert k v m) k' = (if k' = k then Some v else lookup m k')"
    and invar_empty: "invar empty"
    and invar_insert: "invar m \<Longrightarrow> invar (insert k v m)"
    and keys_sorted: "invar m \<Longrightarrow> sorted (keys m) \<and> distinct (keys m)"
    and keys_lookup: "k \<in> set (keys m) \<longleftrightarrow> lookup m k \<noteq> None"
begin

lemma invar_inserts: "invar m \<Longrightarrow> invar (foldl (\<lambda>m e. insert (f e) (g e) m) m es)"
  by (induction es arbitrary: m) (auto intro: invar_insert)

lemma lookup_inserts_other:
  "k \<notin> f ` set es \<Longrightarrow> lookup (foldl (\<lambda>m e. insert (f e) (g e) m) m es) k = lookup m k"
  by (induction es arbitrary: m) (auto simp: lookup_insert)

lemma lookup_inserts_last:
  "k \<notin> f ` set post \<Longrightarrow> f e = k \<Longrightarrow>
   lookup (foldl (\<lambda>m e. insert (f e) (g e) m) m (pre @ e # post)) k = Some (g e)"
  by (simp add: lookup_inserts_other lookup_insert)

lemma keys_insert: "set (keys (insert k v m)) = Set.insert k (set (keys m))"
proof (rule set_eqI)
  fix x
  show "x \<in> set (keys (insert k v m)) \<longleftrightarrow> x \<in> Set.insert k (set (keys m))"
    by (simp add: keys_lookup lookup_insert)
qed

end

interpretation bt: ordered_map bt_insert bt_get bt_keys "[]" bt_sorted
proof unfold_locales
  show "sorted (bt_keys m) \<and> distinct (bt_keys m)" if "bt_sorted m" for m :: "('a, 'b) btree"
    using that by (simp add: bt_sorted_def bt_keys_def)
  show "k \<in> set (bt_keys m) \<longleftrightarrow> bt_get m k \<noteq> None" for k :: 'a and m :: "('a, 'b) btree"
    by (simp add: bt_contains_iff [symmetric] bt_contains_def)
qed (simp_all add: bt_sorted_insert)

lemma bt_sorted_of_list: "bt_sorted (bt_of_list es)"
  unfolding bt_of_list_def by (rule bt.invar_inserts) simp

lemma bt_sorted_or_insert: "bt_sorted m \<Longrightarrow> bt_sorted (bt_or_insert k v m)"
  by (simp add: bt_or_insert_def bt_sorted_insert)

lemma bt_sorted_bump: "bt_sorted m \<Longrightarrow> bt_sorted (bt_bump k m)"
  by (simp add: bt_bump_def bt_sorted_insert)

end
