(* ===== verification/Cdm_Time.thy ===== *)
theory Cdm_Time
  imports Prelude
begin

text \<open>
  \<open>crates/av-cdm/src/time.rs\<close>: nanoseconds on the TAI scale and the conversions to UTC
  (leap-second table), TT, GPS and GMAT's A.1 day count. A \<open>Tai\<close> is its \<open>i64\<close> field, here
  an integer; the plain operators of the code wrap (\<open>wrap_i64\<close>), \<open>i128\<close> arithmetic is
  exact. The two \<open>f64\<close> conversions (\<open>to_a1_mjd\<close>, \<open>from_a1_mjd\<close>) are not modelled.
\<close>

record leap_second_entry =
  tai_utc_offset_seconds :: i64
  utc_effective_unix_ns :: i64
  tai_effective_ns :: i64

text \<open>The table embedded at compile time, \<open>data/time/leap_seconds.json\<close>.\<close>

definition table :: "leap_second_entry list" where
  "table =
    [\<lparr>tai_utc_offset_seconds = 10, utc_effective_unix_ns = 63072000000000000, tai_effective_ns = 63072010000000000\<rparr>,
     \<lparr>tai_utc_offset_seconds = 11, utc_effective_unix_ns = 78796800000000000, tai_effective_ns = 78796811000000000\<rparr>,
     \<lparr>tai_utc_offset_seconds = 12, utc_effective_unix_ns = 94694400000000000, tai_effective_ns = 94694412000000000\<rparr>,
     \<lparr>tai_utc_offset_seconds = 13, utc_effective_unix_ns = 126230400000000000, tai_effective_ns = 126230413000000000\<rparr>,
     \<lparr>tai_utc_offset_seconds = 14, utc_effective_unix_ns = 157766400000000000, tai_effective_ns = 157766414000000000\<rparr>,
     \<lparr>tai_utc_offset_seconds = 15, utc_effective_unix_ns = 189302400000000000, tai_effective_ns = 189302415000000000\<rparr>,
     \<lparr>tai_utc_offset_seconds = 16, utc_effective_unix_ns = 220924800000000000, tai_effective_ns = 220924816000000000\<rparr>,
     \<lparr>tai_utc_offset_seconds = 17, utc_effective_unix_ns = 252460800000000000, tai_effective_ns = 252460817000000000\<rparr>,
     \<lparr>tai_utc_offset_seconds = 18, utc_effective_unix_ns = 283996800000000000, tai_effective_ns = 283996818000000000\<rparr>,
     \<lparr>tai_utc_offset_seconds = 19, utc_effective_unix_ns = 315532800000000000, tai_effective_ns = 315532819000000000\<rparr>,
     \<lparr>tai_utc_offset_seconds = 20, utc_effective_unix_ns = 362793600000000000, tai_effective_ns = 362793620000000000\<rparr>,
     \<lparr>tai_utc_offset_seconds = 21, utc_effective_unix_ns = 394329600000000000, tai_effective_ns = 394329621000000000\<rparr>,
     \<lparr>tai_utc_offset_seconds = 22, utc_effective_unix_ns = 425865600000000000, tai_effective_ns = 425865622000000000\<rparr>,
     \<lparr>tai_utc_offset_seconds = 23, utc_effective_unix_ns = 489024000000000000, tai_effective_ns = 489024023000000000\<rparr>,
     \<lparr>tai_utc_offset_seconds = 24, utc_effective_unix_ns = 567993600000000000, tai_effective_ns = 567993624000000000\<rparr>,
     \<lparr>tai_utc_offset_seconds = 25, utc_effective_unix_ns = 631152000000000000, tai_effective_ns = 631152025000000000\<rparr>,
     \<lparr>tai_utc_offset_seconds = 26, utc_effective_unix_ns = 662688000000000000, tai_effective_ns = 662688026000000000\<rparr>,
     \<lparr>tai_utc_offset_seconds = 27, utc_effective_unix_ns = 709948800000000000, tai_effective_ns = 709948827000000000\<rparr>,
     \<lparr>tai_utc_offset_seconds = 28, utc_effective_unix_ns = 741484800000000000, tai_effective_ns = 741484828000000000\<rparr>,
     \<lparr>tai_utc_offset_seconds = 29, utc_effective_unix_ns = 773020800000000000, tai_effective_ns = 773020829000000000\<rparr>,
     \<lparr>tai_utc_offset_seconds = 30, utc_effective_unix_ns = 820454400000000000, tai_effective_ns = 820454430000000000\<rparr>,
     \<lparr>tai_utc_offset_seconds = 31, utc_effective_unix_ns = 867715200000000000, tai_effective_ns = 867715231000000000\<rparr>,
     \<lparr>tai_utc_offset_seconds = 32, utc_effective_unix_ns = 915148800000000000, tai_effective_ns = 915148832000000000\<rparr>,
     \<lparr>tai_utc_offset_seconds = 33, utc_effective_unix_ns = 1136073600000000000, tai_effective_ns = 1136073633000000000\<rparr>,
     \<lparr>tai_utc_offset_seconds = 34, utc_effective_unix_ns = 1230768000000000000, tai_effective_ns = 1230768034000000000\<rparr>,
     \<lparr>tai_utc_offset_seconds = 35, utc_effective_unix_ns = 1341100800000000000, tai_effective_ns = 1341100835000000000\<rparr>,
     \<lparr>tai_utc_offset_seconds = 36, utc_effective_unix_ns = 1435708800000000000, tai_effective_ns = 1435708836000000000\<rparr>,
     \<lparr>tai_utc_offset_seconds = 37, utc_effective_unix_ns = 1483228800000000000, tai_effective_ns = 1483228837000000000\<rparr>]"

abbreviation tt_minus_tai_ns :: int where "tt_minus_tai_ns \<equiv> 32184000000"
abbreviation gps_minus_tai_ns :: int where "gps_minus_tai_ns \<equiv> 19000000000"
abbreviation a1_minus_tai_ns :: int where "a1_minus_tai_ns \<equiv> 34381700"
abbreviation ns_per_day :: int where "ns_per_day \<equiv> 86400000000000"
abbreviation gmat_mjd_at_unix_epoch_a1_ns :: int where
  "gmat_mjd_at_unix_epoch_a1_ns \<equiv> 914760000000000000"
abbreviation gmat_mjd_at_unix_epoch_a1_whole_days :: int where
  "gmat_mjd_at_unix_epoch_a1_whole_days \<equiv> 10587"
abbreviation gmat_mjd_at_unix_epoch_a1_ns_of_day :: int where
  "gmat_mjd_at_unix_epoch_a1_ns_of_day \<equiv> 43200000000000"

definition to_tt_nanos :: "i64 \<Rightarrow> i64" where
  "to_tt_nanos t = wrap_i64 (t + tt_minus_tai_ns)"

definition from_tt_nanos :: "i64 \<Rightarrow> i64" where
  "from_tt_nanos tt_ns = wrap_i64 (tt_ns - tt_minus_tai_ns)"

definition to_gps_nanos :: "i64 \<Rightarrow> i64" where
  "to_gps_nanos t = wrap_i64 (t - gps_minus_tai_ns)"

definition from_gps_nanos :: "i64 \<Rightarrow> i64" where
  "from_gps_nanos gps_ns = wrap_i64 (gps_ns + gps_minus_tai_ns)"

text \<open>
  \<open>div_euclid\<close> and \<open>rem_euclid\<close> by a positive divisor are HOL's \<open>div\<close> and \<open>mod\<close>.
\<close>

definition to_a1_mjd_parts :: "i64 \<Rightarrow> i64 \<times> i64" where
  "to_a1_mjd_parts t =
     (let d0 = t div ns_per_day;
          r0 = t mod ns_per_day;
          extra_ns = gmat_mjd_at_unix_epoch_a1_ns_of_day + a1_minus_tai_ns;
          r_total = r0 + extra_ns;
          (ns_of_day, carry) = (if ns_per_day \<le> r_total then (r_total - ns_per_day, 1) else (r_total, 0));
          whole_days = d0 + gmat_mjd_at_unix_epoch_a1_whole_days + carry
      in (whole_days, ns_of_day))"

text \<open>\<open>None\<close> is the panic, of the range assertion or of the conversion back to \<open>i64\<close>.\<close>

definition from_a1_mjd_parts :: "i64 \<Rightarrow> i64 \<Rightarrow> i64 option" where
  "from_a1_mjd_parts whole_days ns_of_day =
     (if \<not> (0 \<le> ns_of_day \<and> ns_of_day < ns_per_day) then None
      else
        let mjd0_ns = whole_days * ns_per_day + ns_of_day;
            offset = gmat_mjd_at_unix_epoch_a1_ns + a1_minus_tai_ns;
            tai_ns_128 = mjd0_ns - offset
        in if in_i64 tai_ns_128 then Some tai_ns_128 else None)"

text \<open>\<open>entries.iter().rev().find(p).unwrap_or(&entries[0])\<close>.\<close>

definition offset_where :: "(leap_second_entry \<Rightarrow> bool) \<Rightarrow> i64" where
  "offset_where p =
     tai_utc_offset_seconds (case find p (rev table) of Some e \<Rightarrow> e | None \<Rightarrow> table ! 0)"

definition to_utc_nanos :: "i64 \<Rightarrow> i64" where
  "to_utc_nanos t =
     (let offset = offset_where (\<lambda>e. tai_effective_ns e \<le> t)
      in wrap_i64 (t - offset * 1000000000))"

definition from_utc_nanos :: "i64 \<Rightarrow> i64" where
  "from_utc_nanos utc_ns =
     (let offset = offset_where (\<lambda>e. utc_effective_unix_ns e \<le> utc_ns)
      in wrap_i64 (utc_ns + offset * 1000000000))"

section \<open>Lemmas\<close>

lemma tt_round_trip: "in_i64 t \<Longrightarrow> from_tt_nanos (to_tt_nanos t) = t"
  by (simp add: from_tt_nanos_def to_tt_nanos_def wrap_i64_def in_i64_def i64_min_def i64_max_def
      mod_simps)

lemma table_entries_agree:
  "e \<in> set table \<Longrightarrow>
     tai_effective_ns e = utc_effective_unix_ns e + tai_utc_offset_seconds e * 1000000000"
  by (auto simp: table_def)

lemma table_offset_range: "e \<in> set table \<Longrightarrow> 10 \<le> tai_utc_offset_seconds e \<and> tai_utc_offset_seconds e \<le> 37"
  by (auto simp: table_def)

lemma offset_where_range: "10 \<le> offset_where p \<and> offset_where p \<le> 37"
proof -
  have "e \<in> set table" if "find p (rev table) = Some e" for e
    using that by (auto simp: find_Some_iff) (metis length_rev nth_mem set_rev)
  moreover have "table ! 0 \<in> set table" by (simp add: table_def)
  ultimately show ?thesis
    by (auto simp: offset_where_def table_offset_range split: option.splits)
qed

text \<open>The instants of an inserted leap second, which have no UTC count of their own.\<close>

definition in_leap_second :: "i64 \<Rightarrow> bool" where
  "in_leap_second t \<longleftrightarrow>
     list_ex (\<lambda>e. tai_effective_ns e - 1000000000 \<le> t \<and> t < tai_effective_ns e) (tl table)"

lemma find_rev_index:
  assumes "i < length xs" "P (xs ! i)" "\<And>j. i < j \<Longrightarrow> j < length xs \<Longrightarrow> \<not> P (xs ! j)"
  shows "find P (rev xs) = Some (xs ! i)"
  unfolding find_Some_iff
proof (intro exI [of _ "length xs - 1 - i"] conjI allI impI)
  fix j assume "j < length xs - 1 - i"
  then show "\<not> P (rev xs ! j)"
    using assms(1) by (simp add: rev_nth assms(3))
qed (use assms in \<open>simp_all add: rev_nth\<close>)

lemma offset_where_at:
  assumes "i < length table" "f (table ! i) \<le> (x::int)"
    and "\<And>j. i < j \<Longrightarrow> j < length table \<Longrightarrow> x < f (table ! j)"
  shows "offset_where (\<lambda>e. f e \<le> x) = tai_utc_offset_seconds (table ! i)"
proof -
  have "find (\<lambda>e. f e \<le> x) (rev table) = Some (table ! i)"
    by (rule find_rev_index) (use assms in \<open>auto simp: not_le\<close>)
  then show ?thesis by (simp add: offset_where_def)
qed

lemma offset_where_none:
  assumes "\<And>j. j < length table \<Longrightarrow> (x::int) < f (table ! j)"
  shows "offset_where (\<lambda>e. f e \<le> x) = 10"
proof -
  have "find (\<lambda>e. f e \<le> x) (rev table) = None"
    using assms by (auto simp: find_None_iff in_set_conv_nth not_le)
  then show ?thesis by (simp add: offset_where_def table_def)
qed

lemma length_table: "length table = 28" by (simp add: table_def)

lemma table_steps: 
  "list_all (\<lambda>i. tai_utc_offset_seconds (table ! i) = 10 + int i) [0..<28]"
  "list_all (\<lambda>i. utc_effective_unix_ns (table ! i) + 10000000000000000 < utc_effective_unix_ns (table ! Suc i)) [0..<27]"
  by (simp_all add: table_def upt_rec)

lemma table_offset: "i < 28 \<Longrightarrow> tai_utc_offset_seconds (table ! i) = 10 + int i"
  using table_steps(1) by (auto simp: list_all_iff)

lemma table_gap: "i < j \<Longrightarrow> j < 28 \<Longrightarrow>
   utc_effective_unix_ns (table ! i) + 10000000000000000 < utc_effective_unix_ns (table ! j)"
proof (induction j)
  case 0 then show ?case by simp
next
  case (Suc j)
  have "utc_effective_unix_ns (table ! j) + 10000000000000000 < utc_effective_unix_ns (table ! Suc j)"
    using table_steps(2) Suc.prems by (auto simp: list_all_iff)
  with Suc show ?case by (cases "i = j") auto
qed

lemma table_tai: "i < 28 \<Longrightarrow> tai_effective_ns (table ! i) = utc_effective_unix_ns (table ! i) + (10 + int i) * 1000000000"
  using table_entries_agree [of "table ! i"] by (simp add: table_offset length_table)

text \<open>Which entry is in force at \<open>x\<close> on a scale \<open>f\<close>: none before the first, else the last one reached.\<close>

lemma table_position:
  assumes mono: "\<And>i j. i < j \<Longrightarrow> j < 28 \<Longrightarrow> f (table ! i) < f (table ! j)"
  obtains "\<And>j. j < 28 \<Longrightarrow> (x::int) < f (table ! j)"
  | i where "i < 28" "f (table ! i) \<le> x" "\<And>j. i < j \<Longrightarrow> j < 28 \<Longrightarrow> x < f (table ! j)"
proof (cases "\<exists>i < 28. f (table ! i) \<le> x")
  case False
  then show thesis by (intro that(1)) (simp add: not_le)
next
  case True
  define i where "i = Max {i. i < 28 \<and> f (table ! i) \<le> x}"
  have fin: "finite {i. i < 28 \<and> f (table ! i) \<le> x}" by simp
  have "i \<in> {i. i < 28 \<and> f (table ! i) \<le> x}"
    unfolding i_def using True by (intro Max_in fin) auto
  moreover have "x < f (table ! j)" if "i < j" "j < 28" for j
    using Max_ge [OF fin, of j] that unfolding i_def [symmetric] by (auto simp: not_le [symmetric])
  ultimately show thesis by (intro that(2)) auto
qed

text \<open>
  A UTC count survives the conversion to TAI and back, whatever leap second is in
  force, unless adding the largest offset leaves the \<open>i64\<close> range.
\<close>

theorem utc_round_trip:
  assumes r: "in_i64 (u + 37000000000)" "in_i64 u"
  shows "to_utc_nanos (from_utc_nanos u) = u"
proof -
  obtain k where k: "offset_where (\<lambda>e. utc_effective_unix_ns e \<le> u) = 10 + k" "0 \<le> k" "k \<le> 27"
     and same: "offset_where (\<lambda>e. tai_effective_ns e \<le> u + (10 + k) * 1000000000) = 10 + k"
  proof (rule table_position [of utc_effective_unix_ns u])
    show "utc_effective_unix_ns (table ! i) < utc_effective_unix_ns (table ! j)" if "i < j" "j < 28" for i j
      using table_gap [OF that] by simp
  next
    assume none: "\<And>j. j < 28 \<Longrightarrow> u < utc_effective_unix_ns (table ! j)"
    show thesis
    proof (rule that [of 0])
      show "offset_where (\<lambda>e. utc_effective_unix_ns e \<le> u) = 10 + 0"
        using offset_where_none [of u utc_effective_unix_ns, unfolded length_table, OF none] by simp
      show "offset_where (\<lambda>e. tai_effective_ns e \<le> u + (10 + 0) * 1000000000) = 10 + 0"
        by (subst offset_where_none) (use none in \<open>fastforce simp: length_table table_tai\<close>)+
    qed simp_all
  next
    fix i assume i: "i < 28" "utc_effective_unix_ns (table ! i) \<le> u"
      "\<And>j. i < j \<Longrightarrow> j < 28 \<Longrightarrow> u < utc_effective_unix_ns (table ! j)"
    show thesis
    proof (rule that [of "int i"])
      show "offset_where (\<lambda>e. utc_effective_unix_ns e \<le> u) = 10 + int i"
        using i by (subst offset_where_at [of i]) (auto simp: length_table table_offset not_le)
      show "offset_where (\<lambda>e. tai_effective_ns e \<le> u + (10 + int i) * 1000000000) = 10 + int i"
        using i by (subst offset_where_at [of i]) (fastforce simp: length_table table_offset table_tai not_le)+
    qed (use i in simp_all)
  qed
  have "in_i64 (u + (10 + k) * 1000000000)" using r k by (simp add: in_i64_def)
  then have "from_utc_nanos u = u + (10 + k) * 1000000000"
    by (simp only: from_utc_nanos_def Let_def k(1) wrap_i64_id)
  then show ?thesis
    using r(2) unfolding to_utc_nanos_def Let_def by (simp only: same) (simp add: wrap_i64_id)
qed

theorem utc_round_trip_witness:
  "in_i64 (1483228800000000000 + 37000000000) \<and> in_i64 1483228800000000000 \<and>
   to_utc_nanos (from_utc_nanos 1483228800000000000) = 1483228800000000000"
  by (simp add: utc_round_trip in_i64_def i64_min_def i64_max_def)

text \<open>
  A TAI instant survives the conversion to UTC and back, except inside an inserted
  leap second, which comes back one second later (the post-insertion reading).
\<close>

theorem tai_round_trip:
  assumes r: "in_i64 (t - 37000000000)" "in_i64 (t + 1000000000)" "in_i64 t"
  shows "from_utc_nanos (to_utc_nanos t) = (if in_leap_second t then t + 1000000000 else t)"
proof -
  have tai_mono: "tai_effective_ns (table ! i) + 10000000000000000 < tai_effective_ns (table ! j)" if "i < j" "j < 28" for i j
    using table_gap [OF that] that by (simp add: table_tai)
  have leap: "in_leap_second t \<longleftrightarrow> (\<exists>j. 0 < j \<and> j < 28 \<and> tai_effective_ns (table ! j) - 1000000000 \<le> t \<and> t < tai_effective_ns (table ! j))"
  proof -
    have "(\<exists>j < length (tl table). P (tl table ! j)) \<longleftrightarrow> (\<exists>j. 0 < j \<and> j < 28 \<and> P (table ! j))" for P
    proof
      assume "\<exists>j < length (tl table). P (tl table ! j)"
      then obtain j where "j < length (tl table)" "P (tl table ! j)" by blast
      then show "\<exists>j. 0 < j \<and> j < 28 \<and> P (table ! j)"
        by (intro exI [of _ "Suc j"]) (auto simp: nth_tl length_table)
    next
      assume "\<exists>j. 0 < j \<and> j < 28 \<and> P (table ! j)"
      then obtain j where "0 < j" "j < 28" "P (table ! j)" by blast
      then show "\<exists>j < length (tl table). P (tl table ! j)"
        by (intro exI [of _ "j - 1"]) (auto simp: nth_tl length_table)
    qed
    then show ?thesis by (simp add: in_leap_second_def list_ex_length)
  qed
  obtain k where k: "offset_where (\<lambda>e. tai_effective_ns e \<le> t) = 10 + k" "0 \<le> k" "k \<le> 27"
     and u: "offset_where (\<lambda>e. utc_effective_unix_ns e \<le> t - (10 + k) * 1000000000) = (if in_leap_second t then 11 + k else 10 + k)"
  proof (rule table_position [of tai_effective_ns t])
    show "tai_effective_ns (table ! i) < tai_effective_ns (table ! j)" if "i < j" "j < 28" for i j
      using tai_mono [OF that] by simp
  next
    assume none: "\<And>j. j < 28 \<Longrightarrow> t < tai_effective_ns (table ! j)"
    have far: "t + 10000000000000000 < tai_effective_ns (table ! j)" if "0 < j" "j < 28" for j
      using none [of 0] tai_mono [OF that] by simp
    have "\<not> in_leap_second t"
    proof
      assume "in_leap_second t"
      then obtain j where j: "0 < j" "j < 28" "tai_effective_ns (table ! j) - 1000000000 \<le> t"
        unfolding leap by blast
      with far [of j] show False by simp
    qed
    moreover have "t - 10000000000 < utc_effective_unix_ns (table ! j)" if "j < 28" for j
      using none [of 0] far [of j] that by (cases "j = 0") (simp_all add: table_tai)
    ultimately show thesis
      using offset_where_none [of t tai_effective_ns, unfolded length_table, OF none]
        offset_where_none [of "t - 10000000000" utc_effective_unix_ns, unfolded length_table]
      by (intro that [of 0]) simp_all
  next
    fix i assume i: "i < 28" "tai_effective_ns (table ! i) \<le> t"
      "\<And>j. i < j \<Longrightarrow> j < 28 \<Longrightarrow> t < tai_effective_ns (table ! j)"
    have far: "t + 10000000000000000 < tai_effective_ns (table ! j)" if "Suc i < j" "j < 28" for j
      using i(3) [of "Suc i"] tai_mono [OF that] that by simp
    have leap_i: "in_leap_second t \<longleftrightarrow> Suc i < 28 \<and> tai_effective_ns (table ! Suc i) - 1000000000 \<le> t"
    proof
      assume "in_leap_second t"
      then obtain j where j: "0 < j" "j < 28" "tai_effective_ns (table ! j) - 1000000000 \<le> t" "t < tai_effective_ns (table ! j)"
        by (auto simp: leap)
      have "i < j"
        using tai_mono [of j i] i j by (cases i j rule: linorder_cases) auto
      moreover have "\<not> Suc i < j" using far [of j] j by auto
      ultimately have "j = Suc i" by simp
      with j show "Suc i < 28 \<and> tai_effective_ns (table ! Suc i) - 1000000000 \<le> t" by simp
    qed (use i in \<open>auto simp: leap\<close>)
    have later: "t - (10 + int i) * 1000000000 < utc_effective_unix_ns (table ! j)" if "Suc i < j" "j < 28" for j
      using far [OF that] that by (simp add: table_tai)
    show thesis
    proof (rule that [of "int i"])
      show "offset_where (\<lambda>e. tai_effective_ns e \<le> t) = 10 + int i"
        using i by (subst offset_where_at [of i]) (auto simp: length_table table_offset not_le)
      show "offset_where (\<lambda>e. utc_effective_unix_ns e \<le> t - (10 + int i) * 1000000000) = (if in_leap_second t then 11 + int i else 10 + int i)"
      proof (cases "in_leap_second t")
        case True
        then show ?thesis
          using later by (subst offset_where_at [of "Suc i"]) (auto simp: leap_i length_table table_offset table_tai not_le)
      next
        case False
        have "t - (10 + int i) * 1000000000 < utc_effective_unix_ns (table ! j)" if "i < j" "j < 28" for j
          using later [of j] False that by (cases "j = Suc i") (auto simp: leap_i table_tai)
        with False show ?thesis
          using i by (subst offset_where_at [of i]) (auto simp: length_table table_offset table_tai not_le)
      qed
    qed (use i in simp_all)
  qed
  have "in_i64 (t - (10 + k) * 1000000000)" using r k by (simp add: in_i64_def)
  then have utc: "to_utc_nanos t = t - (10 + k) * 1000000000"
    by (simp only: to_utc_nanos_def Let_def k(1) wrap_i64_id)
  show ?thesis
    using r unfolding utc from_utc_nanos_def Let_def u by (auto simp: wrap_i64_id add.commute [of _ t])
qed
theorem tai_round_trip_witness:
  "in_leap_second 1483228836500000000 \<and>
   from_utc_nanos (to_utc_nanos 1483228836500000000) = 1483228837500000000"
proof -
  have leap: "in_leap_second 1483228836500000000"
    by (simp add: in_leap_second_def table_def)
  have r: "in_i64 (1483228836500000000 - 37000000000)" "in_i64 (1483228836500000000 + 1000000000)"
    "in_i64 1483228836500000000"
    by (simp_all add: in_i64_def i64_min_def i64_max_def)
  show ?thesis using leap tai_round_trip [OF r] by simp
qed

text \<open>
  The exact A.1 day count: for every \<open>i64\<close> instant the nanosecond of day is in
  \<open>[0, 86400 s)\<close> (also before the epoch) and the inverse returns the instant itself.
\<close>

theorem a1_mjd_parts_round_trip:
  assumes "in_i64 t"
  shows "case to_a1_mjd_parts t of (days, ns) \<Rightarrow>
     0 \<le> ns \<and> ns < 86400000000000 \<and> from_a1_mjd_parts days ns = Some t"
proof -
  define d r where "d = t div ns_per_day" and "r = t mod ns_per_day"
  have t: "t = d * ns_per_day + r" and r: "0 \<le> r" "r < ns_per_day"
    by (simp_all add: d_def r_def)
  have "to_a1_mjd_parts t =
     (if ns_per_day \<le> r + 43200034381700 then (d + 10588, r + 43200034381700 - ns_per_day)
      else (d + 10587, r + 43200034381700))"
    by (simp add: to_a1_mjd_parts_def Let_def d_def r_def)
  then show ?thesis
    using assms r by (simp add: from_a1_mjd_parts_def t)
qed

theorem a1_mjd_parts_round_trip_witness:
  "in_i64 (- 1) \<and> to_a1_mjd_parts (- 1) = (10587, 43200034381699) \<and>
   from_a1_mjd_parts 10587 43200034381699 = Some (- 1)"
proof -
  have r: "in_i64 (- 1)" by (simp add: in_i64_def i64_min_def i64_max_def)
  have e: "to_a1_mjd_parts (- 1) = (10587, 43200034381699)"
    by (simp add: to_a1_mjd_parts_def)
  show ?thesis using r e a1_mjd_parts_round_trip [OF r] by simp
qed

end
