(* ===== verification/Path_Id.thy ===== *)
theory Path_Id
  imports Prelude
begin

text \<open>
  \<open>crates/av-cdm/src/path_id.rs\<close>: the check every identifier passes before it becomes a
  file-name component. The identifier is its UTF-8 bytes. The human-readable \<open>Display\<close> of
  the error is not modelled.
\<close>

abbreviation max_len :: nat where "max_len \<equiv> 128"

datatype path_id_error =
    Empty
  | TooLong nat
  | DisallowedByte nat u8
  | BadFirstByte u8

definition path_id_reason :: "path_id_error \<Rightarrow> string" where
  "path_id_reason e =
     (case e of
        Empty \<Rightarrow> ''empty''
      | TooLong _ \<Rightarrow> ''too_long''
      | DisallowedByte _ _ \<Rightarrow> ''disallowed_byte''
      | BadFirstByte _ \<Rightarrow> ''bad_first_byte'')"

definition is_ascii_alphanumeric :: "u8 \<Rightarrow> bool" where
  "is_ascii_alphanumeric b \<longleftrightarrow>
     (48 \<le> b \<and> b \<le> 57) \<or> (65 \<le> b \<and> b \<le> 90) \<or> (97 \<le> b \<and> b \<le> 122)"

definition allowed_byte :: "u8 \<Rightarrow> bool" where
  "allowed_byte b \<longleftrightarrow> is_ascii_alphanumeric b \<or> b = 46 \<or> b = 95 \<or> b = 45"

text \<open>\<open>iter().enumerate().find(p)\<close>, counting from \<open>i\<close>.\<close>

fun find_disallowed :: "nat \<Rightarrow> bytes \<Rightarrow> (nat \<times> u8) option" where
  "find_disallowed i [] = None"
| "find_disallowed i (b # bs) =
     (if \<not> allowed_byte b then Some (i, b) else find_disallowed (Suc i) bs)"

definition validate_path_component_id :: "string \<Rightarrow> path_id_error + string" where
  "validate_path_component_id ident =
     (let bs = string_bytes ident in
      case bs of
        [] \<Rightarrow> Inl Empty
      | first # _ \<Rightarrow>
          if max_len < length bs then Inl (TooLong (length bs))
          else
            case find_disallowed 0 bs of
              Some (index, byte) \<Rightarrow> Inl (DisallowedByte index byte)
            | None \<Rightarrow>
                if \<not> is_ascii_alphanumeric first then Inl (BadFirstByte first)
                else Inr ident)"

section \<open>Lemmas\<close>

lemma find_disallowed_None: "find_disallowed i bs = None \<longleftrightarrow> list_all allowed_byte bs"
  by (induction i bs rule: find_disallowed.induct) auto

lemma find_disallowed_Some:
  "find_disallowed i bs = Some (j, b) \<Longrightarrow>
   i \<le> j \<and> j - i < length bs \<and> bs ! (j - i) = b \<and> \<not> allowed_byte b \<and>
   list_all allowed_byte (take (j - i) bs)"
proof (induction i bs rule: find_disallowed.induct)
  case (2 i c bs)
  then show ?case
    by (cases "allowed_byte c") (auto simp: take_Cons' Suc_le_eq)
qed simp

lemma string_bytes_nth: "i < length s \<Longrightarrow> string_bytes s ! i = of_nat (of_char (s ! i))"
  by (simp add: string_bytes_def)

lemma of_char_byte: "unat (of_nat (of_char c) :: u8) = of_char c"
  by (simp add: unat_of_nat)

lemma string_byte_eq_iff: "(of_nat (of_char c) :: u8) = of_nat (of_char d) \<longleftrightarrow> c = d"
  by (metis of_char_byte of_char_eq_iff)

text \<open>The separators and the dot that a path traversal needs.\<close>

lemma allowed_not_slash:
  "allowed_byte b \<Longrightarrow> b \<noteq> 47 \<and> b \<noteq> 92 \<and> b \<noteq> 0 \<and> b \<noteq> 58"
  by (auto simp: allowed_byte_def is_ascii_alphanumeric_def word_le_nat_alt)

lemma validate_Inr_iff:
  "validate_path_component_id s = Inr t \<longleftrightarrow>
     t = s \<and> s \<noteq> [] \<and> length s \<le> max_len \<and> list_all allowed_byte (string_bytes s) \<and>
     is_ascii_alphanumeric (hd (string_bytes s))"
proof (cases s)
  case (Cons c cs)
  then have "string_bytes s = of_nat (of_char c) # string_bytes cs"
    by (simp add: string_bytes_def)
  then show ?thesis
    using find_disallowed_None [of 0 "string_bytes s"]
    by (auto simp: validate_path_component_id_def Let_def Cons split: option.splits if_splits)
qed (simp add: validate_path_component_id_def string_bytes_def)

text \<open>
  An identifier the check accepts is a safe file-name component: it is returned
  unchanged, has 1 to 128 bytes, holds no slash, backslash, colon or NUL, and does not
  begin with a dot (so it is neither \<open>.\<close> nor \<open>..\<close>).
\<close>

theorem validated_id_is_safe:
  assumes "validate_path_component_id s = Inr t"
  shows "t = s \<and> 1 \<le> length s \<and> length s \<le> 128 \<and>
    CHR ''/'' \<notin> set s \<and> CHR 0x5C \<notin> set s \<and> CHR '':'' \<notin> set s \<and> CHR 0x00 \<notin> set s \<and>
    hd s \<noteq> CHR ''.''"
proof -
  have s: "t = s" "s \<noteq> []" "length s \<le> 128" "list_all allowed_byte (string_bytes s)"
    "is_ascii_alphanumeric (hd (string_bytes s))"
    using assms unfolding validate_Inr_iff by simp_all
  have "of_nat (of_char c) \<noteq> (47 :: u8) \<and> of_nat (of_char c) \<noteq> (92 :: u8) \<and>
      of_nat (of_char c) \<noteq> (0 :: u8) \<and> of_nat (of_char c) \<noteq> (58 :: u8)" if "c \<in> set s" for c
    using s(4) that by (intro allowed_not_slash) (auto simp: list_all_iff string_bytes_def)
  then have "CHR ''/'' \<notin> set s" "CHR 0x5C \<notin> set s" "CHR '':'' \<notin> set s" "CHR 0x00 \<notin> set s"
    by force+
  moreover have "hd s \<noteq> CHR ''.''"
    using s(2,5) by (cases s) (auto simp: string_bytes_def is_ascii_alphanumeric_def word_le_nat_alt)
  moreover have "1 \<le> length s" using s(2) by (cases s) auto
  ultimately show ?thesis using s by simp
qed

theorem validated_id_is_safe_witness:
  "validate_path_component_id ''sat-1.a'' = Inr ''sat-1.a'' \<and> hd ''sat-1.a'' \<noteq> CHR ''.''"
proof -
  have v: "validate_path_component_id ''sat-1.a'' = Inr ''sat-1.a''"
    by (simp add: validate_path_component_id_def string_bytes_def allowed_byte_def
        is_ascii_alphanumeric_def)
  show ?thesis using v validated_id_is_safe [OF v] by simp
qed

end
