(* ===== verification/Command_State.thy ===== *)
theory Command_State
  imports Prelude
begin

text \<open>
  \<open>crates/av-command/src/state.rs\<close>: the command authority state machine. One function per
  edge; an illegal edge is a \<open>command_error\<close>. The message types are those of
  \<open>proto/altavista/v1/command.proto\<close>; enum fields are \<open>i32\<close> on the wire and in the
  message, so a field may hold a number that names no variant. A \<open>&dyn Clock\<close> argument is
  the time it reads, \<open>now\<close>.
\<close>

section \<open>Data\<close>

datatype command_state =
    Unspecified | Proposed | Checked | Authorized | Dispatched | Acked | Rejected | Expired | Failed

fun state_i32 :: "command_state \<Rightarrow> int" where
  "state_i32 Unspecified = 0"
| "state_i32 Proposed = 1"
| "state_i32 Checked = 2"
| "state_i32 Authorized = 3"
| "state_i32 Dispatched = 4"
| "state_i32 Acked = 5"
| "state_i32 Rejected = 6"
| "state_i32 Expired = 7"
| "state_i32 Failed = 8"

definition all_states :: "command_state list" where
  "all_states = [Unspecified, Proposed, Checked, Authorized, Dispatched, Acked, Rejected, Expired, Failed]"

definition state_try_from :: "int \<Rightarrow> command_state option" where
  "state_try_from i = find (\<lambda>s. state_i32 s = i) all_states"

datatype ack_level = AckUnspecified | AckEdge | AckAssetReceived | AckAssetExecuted

fun ack_i32 :: "ack_level \<Rightarrow> int" where
  "ack_i32 AckUnspecified = 0"
| "ack_i32 AckEdge = 1"
| "ack_i32 AckAssetReceived = 2"
| "ack_i32 AckAssetExecuted = 3"

definition ack_try_from :: "int \<Rightarrow> ack_level option" where
  "ack_try_from i = find (\<lambda>l. ack_i32 l = i) [AckUnspecified, AckEdge, AckAssetReceived, AckAssetExecuted]"

lemma ack_i32_inject: "ack_i32 a = ack_i32 b \<longleftrightarrow> a = b"
  by (cases a; cases b) simp_all

text \<open>The declared order of the levels, which \<open>ack\<close> compares by.\<close>

instantiation ack_level :: linorder
begin

definition less_eq_ack_level :: "ack_level \<Rightarrow> ack_level \<Rightarrow> bool" where
  "less_eq_ack_level a b \<longleftrightarrow> ack_i32 a \<le> ack_i32 b"

definition less_ack_level :: "ack_level \<Rightarrow> ack_level \<Rightarrow> bool" where
  "less_ack_level a b \<longleftrightarrow> ack_i32 a < ack_i32 b"

instance
  by standard (auto simp: less_eq_ack_level_def less_ack_level_def ack_i32_inject)

end

record command_transition =
  tr_state :: int
  tr_tai_ns :: i64
  tr_principal :: string
  tr_reason :: string
  tr_ack_level :: int
  tr_delegation_id :: string

record command =
  cmd_id :: string
  idempotency_key :: string
  entity_id :: string
  command_class :: string
  hazardous :: bool
  payload :: "bytes option"
  deadline_tai_ns :: i64
  not_before_tai_ns :: i64
  cmd_state :: int
  transitions :: "command_transition list"
  envelope_id :: string
  cmd_label :: "label option"
  provenance :: "bytes option"

datatype command_error =
    IllegalTransition command_state command_state
  | AlreadyStarted command_state
  | EnvelopeNotAllowed string
  | AckLevelNotIncreasing ack_level ack_level

definition state_error_code :: "command_error \<Rightarrow> string" where
  "state_error_code e =
     (case e of
        IllegalTransition _ _ \<Rightarrow> ''state_illegal_transition''
      | AlreadyStarted _ \<Rightarrow> ''state_already_started''
      | EnvelopeNotAllowed _ \<Rightarrow> ''state_envelope_not_allowed''
      | AckLevelNotIncreasing _ _ \<Rightarrow> ''state_ack_level_not_increasing'')"

section \<open>Edges\<close>

definition current_state :: "command \<Rightarrow> command_state" where
  "current_state c = (case state_try_from (cmd_state c) of Some s \<Rightarrow> s | None \<Rightarrow> Unspecified)"

definition require_one_of :: "command \<Rightarrow> command_state list \<Rightarrow> command_state \<Rightarrow> command_error + unit" where
  "require_one_of c legal_from to =
     (let from = current_state c in
      if from \<in> set legal_from then Inr () else Inl (IllegalTransition from to))"

definition push_transition ::
  "command \<Rightarrow> command_state \<Rightarrow> string \<Rightarrow> string \<Rightarrow> ack_level \<Rightarrow> string \<Rightarrow> i64 \<Rightarrow> command" where
  "push_transition c to who why ack delegation now =
     c\<lparr>transitions := transitions c @
          [\<lparr>tr_state = state_i32 to, tr_tai_ns = now, tr_principal = who, tr_reason = why,
            tr_ack_level = ack_i32 ack, tr_delegation_id = delegation\<rparr>],
       cmd_state := state_i32 to\<rparr>"

definition propose :: "command \<Rightarrow> string \<Rightarrow> string \<Rightarrow> i64 \<Rightarrow> command_error + command" where
  "propose c who why now =
     (if envelope_id c \<noteq> [] then Inl (EnvelopeNotAllowed (envelope_id c))
      else
        let from = current_state c in
        if from \<noteq> Unspecified \<or> transitions c \<noteq> [] then Inl (AlreadyStarted from)
        else Inr (push_transition c Proposed who why AckUnspecified [] now))"

definition check :: "command \<Rightarrow> string \<Rightarrow> string \<Rightarrow> i64 \<Rightarrow> command_error + command" where
  "check c who why now =
     ebind (require_one_of c [Proposed] Checked)
       (\<lambda>_. Inr (push_transition c Checked who why AckUnspecified [] now))"

definition authorize :: "command \<Rightarrow> string \<Rightarrow> string \<Rightarrow> string \<Rightarrow> i64 \<Rightarrow> command_error + command" where
  "authorize c who why delegation now =
     ebind (require_one_of c [Checked] Authorized)
       (\<lambda>_. Inr (push_transition c Authorized who why AckUnspecified delegation now))"

definition dispatch :: "command \<Rightarrow> string \<Rightarrow> string \<Rightarrow> i64 \<Rightarrow> command_error + command" where
  "dispatch c who why now =
     ebind (require_one_of c [Authorized] Dispatched)
       (\<lambda>_. Inr (push_transition c Dispatched who why AckUnspecified [] now))"

text \<open>The level of the last recorded transition, as \<open>ack\<close> reads it.\<close>

definition last_ack :: "command \<Rightarrow> ack_level" where
  "last_ack c =
     (if transitions c = [] then AckUnspecified
      else case ack_try_from (tr_ack_level (last (transitions c))) of
             Some l \<Rightarrow> l | None \<Rightarrow> AckUnspecified)"

definition ack :: "command \<Rightarrow> string \<Rightarrow> string \<Rightarrow> ack_level \<Rightarrow> i64 \<Rightarrow> command_error + command" where
  "ack c who why level now =
     ebind (require_one_of c [Dispatched, Acked] Acked)
       (\<lambda>_. if current_state c = Acked \<and> ack_i32 level \<le> ack_i32 (last_ack c)
            then Inl (AckLevelNotIncreasing (last_ack c) level)
            else Inr (push_transition c Acked who why level [] now))"

definition reject :: "command \<Rightarrow> string \<Rightarrow> string \<Rightarrow> i64 \<Rightarrow> command_error + command" where
  "reject c who why now =
     ebind (require_one_of c [Proposed, Checked] Rejected)
       (\<lambda>_. Inr (push_transition c Rejected who why AckUnspecified [] now))"

definition expire :: "command \<Rightarrow> string \<Rightarrow> string \<Rightarrow> i64 \<Rightarrow> command_error + command" where
  "expire c who why now =
     ebind (require_one_of c [Authorized, Dispatched] Expired)
       (\<lambda>_. Inr (push_transition c Expired who why AckUnspecified [] now))"

definition fail :: "command \<Rightarrow> string \<Rightarrow> string \<Rightarrow> i64 \<Rightarrow> command_error + command" where
  "fail c who why now =
     ebind (require_one_of c [Dispatched] Failed)
       (\<lambda>_. Inr (push_transition c Failed who why AckUnspecified [] now))"

lemmas edge_defs =
  check_def authorize_def dispatch_def ack_def reject_def expire_def fail_def

section \<open>The abstract machine\<close>

text \<open>
  The edge set the module documents, and a run of the machine: a fresh command proposed,
  then edge functions that succeeded.
\<close>

inductive edge :: "command_state \<Rightarrow> command_state \<Rightarrow> bool" where
  "edge Unspecified Proposed"
| "edge Proposed Checked"
| "edge Proposed Rejected"
| "edge Checked Authorized"
| "edge Checked Rejected"
| "edge Authorized Dispatched"
| "edge Authorized Expired"
| "edge Dispatched Acked"
| "edge Dispatched Failed"
| "edge Dispatched Expired"
| "edge Acked Acked"

inductive_simps edge_simps [simp]:
  "edge Unspecified t" "edge Proposed t" "edge Checked t" "edge Authorized t"
  "edge Dispatched t" "edge Acked t" "edge Rejected t" "edge Expired t" "edge Failed t"

inductive cmd_step :: "command \<Rightarrow> command \<Rightarrow> bool" where
  "check c p r now = Inr c' \<Longrightarrow> cmd_step c c'"
| "authorize c p r d now = Inr c' \<Longrightarrow> cmd_step c c'"
| "dispatch c p r now = Inr c' \<Longrightarrow> cmd_step c c'"
| "ack c p r l now = Inr c' \<Longrightarrow> cmd_step c c'"
| "reject c p r now = Inr c' \<Longrightarrow> cmd_step c c'"
| "expire c p r now = Inr c' \<Longrightarrow> cmd_step c c'"
| "fail c p r now = Inr c' \<Longrightarrow> cmd_step c c'"

inductive cmd_reachable :: "command \<Rightarrow> bool" where
  start: "propose c p r now = Inr c' \<Longrightarrow> cmd_reachable c'"
| step: "cmd_reachable c \<Longrightarrow> cmd_step c c' \<Longrightarrow> cmd_reachable c'"

section \<open>Lemmas\<close>

lemma state_try_from_i32 [simp]: "state_try_from (state_i32 s) = Some s"
  by (cases s) (simp_all add: state_try_from_def all_states_def)

lemma state_i32_inject [simp]: "state_i32 s = state_i32 t \<longleftrightarrow> s = t"
  by (metis option.inject state_try_from_i32)

lemma ack_try_from_i32 [simp]: "ack_try_from (ack_i32 l) = Some l"
  by (cases l) (simp_all add: ack_try_from_def)

lemma current_state_push [simp]: "current_state (push_transition c to p r l d now) = to"
  by (simp add: current_state_def push_transition_def)

lemma transitions_push:
  "transitions (push_transition c to p r l d now) = transitions c @
     [\<lparr>tr_state = state_i32 to, tr_tai_ns = now, tr_principal = p, tr_reason = r,
       tr_ack_level = ack_i32 l, tr_delegation_id = d\<rparr>]"
  by (simp add: push_transition_def)

lemma push_transition_frame [simp]:
  "cmd_id (push_transition c to p r l d now) = cmd_id c"
  "entity_id (push_transition c to p r l d now) = entity_id c"
  "command_class (push_transition c to p r l d now) = command_class c"
  "idempotency_key (push_transition c to p r l d now) = idempotency_key c"
  "hazardous (push_transition c to p r l d now) = hazardous c"
  "envelope_id (push_transition c to p r l d now) = envelope_id c"
  "cmd_state (push_transition c to p r l d now) = state_i32 to"
  by (simp_all add: push_transition_def)

lemma require_one_of_Inr [simp]:
  "require_one_of c ls to = Inr u \<longleftrightarrow> current_state c \<in> set ls"
  by (simp add: require_one_of_def Let_def)

lemma require_one_of_Inl [simp]:
  "require_one_of c ls to = Inl e \<longleftrightarrow>
     current_state c \<notin> set ls \<and> e = IllegalTransition (current_state c) to"
  by (auto simp: require_one_of_def Let_def)

text \<open>Each edge function: what it needs, and what it then returns.\<close>

lemma edge_Inr:
  "check c p r now = Inr c' \<longleftrightarrow>
     current_state c = Proposed \<and> c' = push_transition c Checked p r AckUnspecified [] now"
  "authorize c p r d now = Inr c' \<longleftrightarrow>
     current_state c = Checked \<and> c' = push_transition c Authorized p r AckUnspecified d now"
  "dispatch c p r now = Inr c' \<longleftrightarrow>
     current_state c = Authorized \<and> c' = push_transition c Dispatched p r AckUnspecified [] now"
  "reject c p r now = Inr c' \<longleftrightarrow>
     current_state c \<in> {Proposed, Checked} \<and> c' = push_transition c Rejected p r AckUnspecified [] now"
  "expire c p r now = Inr c' \<longleftrightarrow>
     current_state c \<in> {Authorized, Dispatched} \<and> c' = push_transition c Expired p r AckUnspecified [] now"
  "fail c p r now = Inr c' \<longleftrightarrow>
     current_state c = Dispatched \<and> c' = push_transition c Failed p r AckUnspecified [] now"
  "ack c p r l now = Inr c' \<longleftrightarrow>
     (current_state c = Dispatched \<or> current_state c = Acked \<and> last_ack c < l) \<and>
     c' = push_transition c Acked p r l [] now"
  by (auto simp: edge_defs ebind_eq_Inr less_ack_level_def not_le)

lemma propose_Inr:
  "propose c p r now = Inr c' \<longleftrightarrow>
     envelope_id c = [] \<and> current_state c = Unspecified \<and> transitions c = [] \<and>
     c' = push_transition c Proposed p r AckUnspecified [] now"
  by (auto simp: propose_def Let_def)

lemma cmd_stepE:
  assumes "cmd_step c c'"
  obtains to p r l d now where "c' = push_transition c to p r l d now" "edge (current_state c) to"
    "current_state c = Acked \<Longrightarrow> last_ack c < l" "to \<noteq> Acked \<Longrightarrow> l = AckUnspecified" "to \<noteq> Proposed"
  using assms by (cases rule: cmd_step.cases) (auto simp: edge_Inr, (fastforce intro: edge.intros)+)

section \<open>The recorded history\<close>

text \<open>
  A transition list read from state \<open>s\<close> with last level \<open>l\<close>: each entry names a variant,
  follows an edge, and a repeated acknowledgement raises the level. \<open>trace_end\<close> is where
  it leads, \<open>rank\<close> bounds how far a command can have come.
\<close>

fun trace_ok :: "command_state \<Rightarrow> ack_level \<Rightarrow> command_transition list \<Rightarrow> bool" where
  "trace_ok s l [] = True"
| "trace_ok s l (t # ts) =
     (case (state_try_from (tr_state t), ack_try_from (tr_ack_level t)) of
        (Some s', Some l') \<Rightarrow>
          edge s s' \<and> (s = Acked \<longrightarrow> l < l') \<and> (s' \<noteq> Acked \<longrightarrow> l' = AckUnspecified) \<and> trace_ok s' l' ts
      | _ \<Rightarrow> False)"

fun trace_end :: "command_state \<Rightarrow> ack_level \<Rightarrow> command_transition list \<Rightarrow> command_state \<times> ack_level" where
  "trace_end s l [] = (s, l)"
| "trace_end s l (t # ts) =
     (case (state_try_from (tr_state t), ack_try_from (tr_ack_level t)) of
        (Some s', Some l') \<Rightarrow> trace_end s' l' ts
      | _ \<Rightarrow> (s, l))"

definition history_ok :: "command \<Rightarrow> bool" where
  "history_ok c \<longleftrightarrow>
     transitions c \<noteq> [] \<and> trace_ok Unspecified AckUnspecified (transitions c) \<and>
     trace_end Unspecified AckUnspecified (transitions c) = (current_state c, last_ack c) \<and>
     cmd_state c = tr_state (last (transitions c))"

fun rank :: "command_state \<Rightarrow> ack_level \<Rightarrow> nat" where
  "rank Unspecified l = 0"
| "rank Proposed l = 1"
| "rank Checked l = 2"
| "rank Authorized l = 3"
| "rank Dispatched l = 4"
| "rank Acked l = 5 + nat (ack_i32 l)"
| "rank Rejected l = 5"
| "rank Expired l = 5"
| "rank Failed l = 5"

lemma rank_bound: "rank s l \<le> 8"
  by (cases s; cases l) simp_all

lemma rank_step: "edge s s' \<Longrightarrow> (s = Acked \<longrightarrow> l < l') \<Longrightarrow> rank s l < rank s' l'"
  by (erule edge.cases; cases l; cases l') (simp_all add: less_ack_level_def)

lemma trace_snoc:
  "trace_ok s l (ts @ [t]) \<longleftrightarrow>
     trace_ok s l ts \<and> (case trace_end s l ts of (s', l') \<Rightarrow> trace_ok s' l' [t])"
  "trace_ok s l ts \<Longrightarrow>
     trace_end s l (ts @ [t]) = (case trace_end s l ts of (s', l') \<Rightarrow> trace_end s' l' [t])"
  by (induction s l ts rule: trace_ok.induct) (auto split: option.splits)

lemma trace_length:
  "trace_ok s l ts \<Longrightarrow> trace_end s l ts = (s', l') \<Longrightarrow> rank s l + length ts \<le> rank s' l'"
proof (induction s l ts rule: trace_ok.induct)
  case (2 s l t ts)
  then obtain s1 l1 where t: "state_try_from (tr_state t) = Some s1" "ack_try_from (tr_ack_level t) = Some l1"
    by (auto split: option.splits)
  then have "rank s1 l1 + length ts \<le> rank s' l'" "rank s l < rank s1 l1"
    using 2 rank_step [of s s1 l l1] by auto
  then show ?case by simp
qed simp

lemma last_ack_push [simp]: "last_ack (push_transition c to p r l d now) = l"
  by (simp add: last_ack_def push_transition_def)

lemma history_ok_push:
  assumes "history_ok c" "edge (current_state c) to" "current_state c = Acked \<Longrightarrow> last_ack c < l"
    "to \<noteq> Acked \<Longrightarrow> l = AckUnspecified"
  shows "history_ok (push_transition c to p r l d now)"
  using assms by (simp add: history_ok_def transitions_push trace_snoc)

lemma reachable_history_ok: "cmd_reachable c \<Longrightarrow> history_ok c"
proof (induction rule: cmd_reachable.induct)
  case (start c p r now c')
  then show ?case
    by (auto simp: propose_Inr history_ok_def transitions_push state_try_from_def all_states_def
        ack_try_from_def)
next
  case (step c c')
  from step.hyps(2) show ?case
    by (rule cmd_stepE) (use step.IH in \<open>auto intro: history_ok_push\<close>)
qed

text \<open>Where a trace from each state can have passed.\<close>

definition states_of :: "command \<Rightarrow> int list" where
  "states_of c = map tr_state (transitions c)"

lemma states_of_push [simp]:
  "states_of (push_transition c to p r l d now) = states_of c @ [state_i32 to]"
  by (simp add: states_of_def transitions_push)

definition spine :: "command_state \<Rightarrow> int list" where
  "spine s =
     (case s of Unspecified \<Rightarrow> [] | Proposed \<Rightarrow> [1] | Checked \<Rightarrow> [1, 2] | Authorized \<Rightarrow> [1, 2, 3]
      | Dispatched \<Rightarrow> [1, 2, 3, 4] | Acked \<Rightarrow> [1, 2, 3, 4, 5] | Rejected \<Rightarrow> [1]
      | Expired \<Rightarrow> [1, 2, 3] | Failed \<Rightarrow> [1, 2, 3, 4, 8])"

definition on_spine :: "command \<Rightarrow> bool" where
  "on_spine c \<longleftrightarrow>
     (\<exists>rest. states_of c = spine (current_state c) @ rest \<and>
        (current_state c \<in> {Proposed, Checked, Authorized, Dispatched} \<longrightarrow> rest = [])) \<and>
     current_state c \<noteq> Unspecified"

lemma reachable_on_spine: "cmd_reachable c \<Longrightarrow> on_spine c"
proof (induction rule: cmd_reachable.induct)
  case (start c p r now c')
  then show ?case
    by (auto simp: propose_Inr on_spine_def spine_def) (simp add: states_of_def)
next
  case (step c c')
  from step.hyps(2) obtain to p r l d now
    where c': "c' = push_transition c to p r l d now" and e: "edge (current_state c) to"
      "to \<noteq> Proposed"
    by (rule cmd_stepE)
  from e(1) show ?case
    using step.IH e(2) by (cases rule: edge.cases) (auto simp: on_spine_def c' spine_def)
qed

section \<open>Properties\<close>

text \<open>
  Whatever edge functions run, the command moves along an edge of the documented set,
  exactly one transition is appended, its state is the command's new state, and nothing
  else of the command changes.
\<close>

theorem step_follows_edge:
  assumes "cmd_step c c'"
  shows "edge (current_state c) (current_state c') \<and>
    (\<exists>t. transitions c' = transitions c @ [t] \<and> tr_state t = state_i32 (current_state c') \<and>
      c' = c\<lparr>transitions := transitions c @ [t], cmd_state := tr_state t\<rparr>)"
  using assms by (rule cmd_stepE) (auto simp: push_transition_def current_state_def)

text \<open>
  Every refusal is typed: an edge function fails exactly where the machine has no edge
  to its target, naming both states, except that a repeated acknowledgement fails when its
  level does not rise.
\<close>

theorem refusals_are_typed:
  "(check c p r now = Inl e \<longleftrightarrow> \<not> edge (current_state c) Checked \<and> e = IllegalTransition (current_state c) Checked) \<and>
   (authorize c p r d now = Inl e \<longleftrightarrow> \<not> edge (current_state c) Authorized \<and> e = IllegalTransition (current_state c) Authorized) \<and>
   (dispatch c p r now = Inl e \<longleftrightarrow> \<not> edge (current_state c) Dispatched \<and> e = IllegalTransition (current_state c) Dispatched) \<and>
   (reject c p r now = Inl e \<longleftrightarrow> \<not> edge (current_state c) Rejected \<and> e = IllegalTransition (current_state c) Rejected) \<and>
   (expire c p r now = Inl e \<longleftrightarrow> \<not> edge (current_state c) Expired \<and> e = IllegalTransition (current_state c) Expired) \<and>
   (fail c p r now = Inl e \<longleftrightarrow> \<not> edge (current_state c) Failed \<and> e = IllegalTransition (current_state c) Failed) \<and>
   (ack c p r l now = Inl e \<longleftrightarrow>
      \<not> edge (current_state c) Acked \<and> e = IllegalTransition (current_state c) Acked \<or>
      current_state c = Acked \<and> l \<le> last_ack c \<and> e = AckLevelNotIncreasing (last_ack c) l)"
  by (cases "current_state c") (auto simp: edge_defs ebind_eq_Inl less_eq_ack_level_def)

text \<open>
  In every command the machine can reach, the recorded history is a path of the edge
  set from the start to the current state, acknowledgements rise strictly, and there are
  at most eight transitions: no sequence of calls makes a command's history grow further.
\<close>

theorem reachable_history:
  assumes "cmd_reachable c"
  shows "history_ok c \<and> length (transitions c) \<le> 8"
proof -
  have h: "history_ok c" using assms by (rule reachable_history_ok)
  then have "rank Unspecified AckUnspecified + length (transitions c) \<le> rank (current_state c) (last_ack c)"
    by (intro trace_length) (simp_all add: history_ok_def)
  with h rank_bound [of "current_state c" "last_ack c"] show ?thesis by simp
qed

text \<open>
  C3: a command that was handed over (dispatched, acknowledged or failed) was proposed,
  checked, authorized and dispatched, in this order and first in its history.
\<close>

theorem dispatched_was_authorized:
  assumes "cmd_reachable c" "current_state c \<in> {Dispatched, Acked, Failed}"
  shows "take 4 (states_of c) = map state_i32 [Proposed, Checked, Authorized, Dispatched]"
proof -
  from assms(1) have "on_spine c" by (rule reachable_on_spine)
  with assms(2) show ?thesis by (auto simp: on_spine_def spine_def)
qed

section \<open>Witnesses\<close>

definition sample_command :: command where
  "sample_command =
     \<lparr>cmd_id = ''c1'', idempotency_key = ''k1'', entity_id = ''sat'', command_class = ''burn'',
      hazardous = True, payload = None, deadline_tai_ns = 0, not_before_tai_ns = 0, cmd_state = 0,
      transitions = [], envelope_id = [], cmd_label = None, provenance = None\<rparr>"

definition sample_dispatched :: command where
  "sample_dispatched =
     push_transition
       (push_transition
         (push_transition
           (push_transition sample_command Proposed ''m'' ''r'' AckUnspecified [] 1)
           Checked ''policy'' ''r'' AckUnspecified [] 2)
         Authorized ''op'' ''r'' AckUnspecified ''d1'' 3)
       Dispatched ''gs'' ''r'' AckUnspecified [] 4"

lemma sample_dispatched_reachable: "cmd_reachable sample_dispatched"
proof -
  let ?p = "push_transition sample_command Proposed ''m'' ''r'' AckUnspecified [] 1"
  let ?c = "push_transition ?p Checked ''policy'' ''r'' AckUnspecified [] 2"
  let ?a = "push_transition ?c Authorized ''op'' ''r'' AckUnspecified ''d1'' 3"
  have "propose sample_command ''m'' ''r'' 1 = Inr ?p"
    by (simp add: propose_Inr sample_command_def current_state_def state_try_from_def all_states_def)
  then have "cmd_reachable ?p" by (rule cmd_reachable.start)
  moreover have "cmd_step ?p ?c"
    by (rule cmd_step.intros(1)) (simp add: edge_Inr)
  moreover have "cmd_step ?c ?a"
    by (rule cmd_step.intros(2)) (simp add: edge_Inr)
  moreover have "cmd_step ?a sample_dispatched"
    unfolding sample_dispatched_def by (rule cmd_step.intros(3)) (simp add: edge_Inr)
  ultimately show ?thesis by (blast intro: cmd_reachable.step)
qed

theorem step_follows_edge_witness:
  "edge (current_state sample_dispatched)
     (current_state (push_transition sample_dispatched Acked ''fsw'' ''r'' AckEdge [] 5))"
proof -
  have "ack sample_dispatched ''fsw'' ''r'' AckEdge 5 =
      Inr (push_transition sample_dispatched Acked ''fsw'' ''r'' AckEdge [] 5)"
    by (simp add: edge_Inr sample_dispatched_def)
  then have "cmd_step sample_dispatched (push_transition sample_dispatched Acked ''fsw'' ''r'' AckEdge [] 5)"
    by (rule cmd_step.intros(4))
  from step_follows_edge [OF this] show ?thesis by (rule conjunct1)
qed

theorem reachable_history_witness:
  "cmd_reachable sample_dispatched \<and> length (transitions sample_dispatched) \<le> 8"
  using sample_dispatched_reachable reachable_history [OF sample_dispatched_reachable] by simp

theorem dispatched_was_authorized_witness:
  "current_state sample_dispatched = Dispatched \<and> take 4 (states_of sample_dispatched) = [1, 2, 3, 4]"
proof -
  have s: "current_state sample_dispatched = Dispatched"
    by (simp add: sample_dispatched_def)
  then show ?thesis using dispatched_was_authorized [OF sample_dispatched_reachable] by simp
qed

end
