(* ===== verification/Command_Authz.thy ===== *)
theory Command_Authz
  imports BTree Command_State
begin

text \<open>
  \<open>crates/av-command/src/authz.rs\<close> and \<open>counters.rs\<close>: who may authorize a command (role or
  delegation, and a second factor for hazardous classes), which service credentials may
  drive it afterwards, and the counters every refusal lands in. The \<open>Display\<close> texts of the
  errors are not modelled; YAML parsing is the parameter \<open>from_yaml\<close>.
\<close>

section \<open>Counters\<close>

type_synonym counters = "(string, nat) btree"

definition counters_record :: "string \<Rightarrow> counters \<Rightarrow> counters" where
  "counters_record code m = bt_bump code m"

definition counters_get :: "string \<Rightarrow> counters \<Rightarrow> nat" where
  "counters_get code m = (case bt_get m code of None \<Rightarrow> 0 | Some n \<Rightarrow> n)"

section \<open>Roles and delegations\<close>

abbreviation wildcard :: string where "wildcard \<equiv> ''*''"

record role_binding =
  role :: string
  command_classes :: "string list"

record delegation =
  del_id :: string
  del_subject :: string
  del_command_classes :: "string list"
  del_entity_ids :: "string list"
  del_not_before_tai_ns :: i64
  del_expires_tai_ns :: i64
  granted_by :: string
  del_reason :: string

record authn_principal =
  sub :: string
  groups :: "string list"
  amr :: "string list"
  acr :: string
  issuer :: string
  audience :: string
  jti :: string
  issued_at_tai_ns :: i64
  expiry_tai_ns :: i64

type_synonym role_table = "role_binding list"
type_synonym delegation_table = "(string, delegation) btree"

definition role_table_from_config :: "(string, string list) btree \<Rightarrow> role_table" where
  "role_table_from_config roles = map (\<lambda>(r, classes). \<lparr>role = r, command_classes = classes\<rparr>) roles"

definition role_grants :: "role_table \<Rightarrow> string \<Rightarrow> string \<Rightarrow> bool" where
  "role_grants bindings r class =
     (case find (\<lambda>b. role b = r) bindings of
        None \<Rightarrow> False
      | Some b \<Rightarrow> list_ex (\<lambda>c. c = class \<or> c = wildcard) (command_classes b))"

definition granting_role :: "role_table \<Rightarrow> string list \<Rightarrow> string \<Rightarrow> string option" where
  "granting_role bindings gs class = find (\<lambda>g. role_grants bindings g class) gs"

definition delegation_table_from_delegations :: "delegation list \<Rightarrow> delegation_table" where
  "delegation_table_from_delegations ds = foldl (\<lambda>m d. bt_insert (del_id d) d m) [] ds"

definition delegations_get :: "delegation_table \<Rightarrow> string \<Rightarrow> delegation option" where
  "delegations_get t i = bt_get t i"

definition load_delegations_file ::
  "(string \<Rightarrow> 'y + delegation list) \<Rightarrow> string \<Rightarrow> 'y + delegation_table" where
  "load_delegations_file from_yaml yaml =
     ebind (from_yaml yaml) (\<lambda>ds. Inr (delegation_table_from_delegations ds))"

section \<open>Service roles\<close>

datatype service_rpc = RpcDispatch | RpcAck | RpcExpire | RpcFail

fun rpc_name :: "service_rpc \<Rightarrow> string" where
  "rpc_name RpcDispatch = ''dispatch''"
| "rpc_name RpcAck = ''ack''"
| "rpc_name RpcExpire = ''expire''"
| "rpc_name RpcFail = ''fail''"

fun rpc_ord :: "service_rpc \<Rightarrow> nat" where
  "rpc_ord RpcDispatch = 0"
| "rpc_ord RpcAck = 1"
| "rpc_ord RpcExpire = 2"
| "rpc_ord RpcFail = 3"

lemma rpc_ord_inject: "rpc_ord a = rpc_ord b \<longleftrightarrow> a = b"
  by (cases a; cases b) simp_all

text \<open>The derived order of the enum.\<close>

instantiation service_rpc :: linorder
begin

definition less_eq_service_rpc :: "service_rpc \<Rightarrow> service_rpc \<Rightarrow> bool" where
  "less_eq_service_rpc a b \<longleftrightarrow> rpc_ord a \<le> rpc_ord b"

definition less_service_rpc :: "service_rpc \<Rightarrow> service_rpc \<Rightarrow> bool" where
  "less_service_rpc a b \<longleftrightarrow> rpc_ord a < rpc_ord b"

instance
  by standard (auto simp: less_eq_service_rpc_def less_service_rpc_def rpc_ord_inject)

end

definition rpc_parse :: "string \<Rightarrow> service_rpc option" where
  "rpc_parse s =
     (if s = ''dispatch'' then Some RpcDispatch
      else if s = ''ack'' then Some RpcAck
      else if s = ''expire'' then Some RpcExpire
      else if s = ''fail'' then Some RpcFail
      else None)"

type_synonym service_role_table = "(string \<times> service_rpc list) list"

datatype service_role_config_error = UnknownRpc string string

fun parse_rpcs :: "string \<Rightarrow> string list \<Rightarrow> service_role_config_error + service_rpc list" where
  "parse_rpcs r [] = Inr []"
| "parse_rpcs r (x # xs) =
     ebind (ok_or (UnknownRpc r x) (rpc_parse x))
       (\<lambda>p. ebind (parse_rpcs r xs) (\<lambda>ps. Inr (p # ps)))"

fun service_role_table_from_config ::
  "(string, string list) btree \<Rightarrow> service_role_config_error + service_role_table" where
  "service_role_table_from_config [] = Inr []"
| "service_role_table_from_config ((r, rpcs) # rest) =
     ebind (parse_rpcs r rpcs)
       (\<lambda>parsed. ebind (service_role_table_from_config rest) (\<lambda>bs. Inr ((r, parsed) # bs)))"

definition service_role_grants :: "service_role_table \<Rightarrow> string \<Rightarrow> service_rpc \<Rightarrow> bool" where
  "service_role_grants bindings r rpc =
     (case find (\<lambda>b. fst b = r) bindings of None \<Rightarrow> False | Some b \<Rightarrow> rpc \<in> set (snd b))"

definition service_granting_role :: "service_role_table \<Rightarrow> string list \<Rightarrow> service_rpc \<Rightarrow> string option" where
  "service_granting_role bindings gs rpc = find (\<lambda>g. service_role_grants bindings g rpc) gs"

datatype overlapping_service_role_error = Overlap "string list"

definition check_service_roles_disjoint ::
  "(string, string list) btree \<Rightarrow> (string, string list) btree \<Rightarrow> overlapping_service_role_error + unit" where
  "check_service_roles_disjoint roles service_roles =
     (let overlapping = filter (\<lambda>k. bt_contains roles k) (bt_keys service_roles)
      in if overlapping = [] then Inr () else Inl (Overlap overlapping))"

datatype service_authz_error = ServiceRoleNotGranted "string list" service_rpc

definition service_authz_error_code :: "service_authz_error \<Rightarrow> string" where
  "service_authz_error_code e = (case e of ServiceRoleNotGranted _ _ \<Rightarrow> ''service_role_not_granted'')"

definition authorize_service_call ::
  "authn_principal \<Rightarrow> service_rpc \<Rightarrow> service_role_table \<Rightarrow> service_authz_error + string" where
  "authorize_service_call who rpc table =
     ok_or (ServiceRoleNotGranted (groups who) rpc) (service_granting_role table (groups who) rpc)"

section \<open>The profile's authority block\<close>

record profile_authz_config =
  roles :: "(string, string list) btree"
  cfg_mfa_amr_methods :: "string list"
  cfg_mfa_acr :: string
  delegations_path :: string
  service_roles :: "(string, string list) btree"

datatype 'y load_profile_authz_config_error =
    AuthzYaml 'y
  | OverlappingServiceRole overlapping_service_role_error
  | ServiceRoleConfig service_role_config_error

definition load_profile_authz_config ::
  "(string \<Rightarrow> 'y + profile_authz_config) \<Rightarrow> string \<Rightarrow>
     'y load_profile_authz_config_error + profile_authz_config" where
  "load_profile_authz_config from_yaml yaml =
     ebind (map_err AuthzYaml (from_yaml yaml)) (\<lambda>config.
     ebind (map_err OverlappingServiceRole
              (check_service_roles_disjoint (roles config) (service_roles config))) (\<lambda>_.
     ebind (map_err ServiceRoleConfig (service_role_table_from_config (service_roles config))) (\<lambda>_.
       Inr config)))"

section \<open>Authorization\<close>

datatype authz_error =
    RoleNotGranted "string list" string
  | DelegationNotFound string
  | DelegationSubjectMismatch string string string
  | DelegationClassNotCovered string string "string list"
  | DelegationEntityNotCovered string string "string list"
  | DelegationNotYetValid string i64 i64
  | DelegationExpired string i64 i64
  | MfaRequired string "string list" string "string list" string

definition authz_error_code :: "authz_error \<Rightarrow> string" where
  "authz_error_code e =
     (case e of
        RoleNotGranted _ _ \<Rightarrow> ''authz_role_not_granted''
      | DelegationNotFound _ \<Rightarrow> ''authz_delegation_not_found''
      | DelegationSubjectMismatch _ _ _ \<Rightarrow> ''authz_delegation_subject_mismatch''
      | DelegationClassNotCovered _ _ _ \<Rightarrow> ''authz_delegation_class_not_covered''
      | DelegationEntityNotCovered _ _ _ \<Rightarrow> ''authz_delegation_entity_not_covered''
      | DelegationNotYetValid _ _ _ \<Rightarrow> ''authz_delegation_not_yet_valid''
      | DelegationExpired _ _ _ \<Rightarrow> ''authz_delegation_expired''
      | MfaRequired _ _ _ _ _ \<Rightarrow> ''authz_mfa_required'')"

datatype authorized_via = ViaRole string | ViaDelegation string

datatype mfa_outcome = NotRequired | VerifiedAmr string | VerifiedAcr string

record authz_decision =
  via :: authorized_via
  mfa :: mfa_outcome

record authz_context =
  ctx_role_table :: role_table
  ctx_delegations :: delegation_table
  ctx_mfa_amr_methods :: "string list"
  ctx_mfa_acr :: string

definition covers :: "string list \<Rightarrow> string \<Rightarrow> bool" where
  "covers xs x \<longleftrightarrow> list_ex (\<lambda>c. c = x \<or> c = wildcard) xs"

definition authorize_via_delegation ::
  "authn_principal \<Rightarrow> command \<Rightarrow> string \<Rightarrow> authz_context \<Rightarrow> i64 \<Rightarrow> authz_error + authorized_via" where
  "authorize_via_delegation who c delegation_id ctx now =
     ebind (ok_or (DelegationNotFound delegation_id) (delegations_get (ctx_delegations ctx) delegation_id))
       (\<lambda>d.
         if del_subject d \<noteq> sub who
         then Inl (DelegationSubjectMismatch delegation_id (del_subject d) (sub who))
         else if \<not> covers (del_command_classes d) (command_class c)
         then Inl (DelegationClassNotCovered delegation_id (command_class c) (del_command_classes d))
         else if \<not> covers (del_entity_ids d) (entity_id c)
         then Inl (DelegationEntityNotCovered delegation_id (entity_id c) (del_entity_ids d))
         else if now < del_not_before_tai_ns d
         then Inl (DelegationNotYetValid delegation_id (del_not_before_tai_ns d) now)
         else if del_expires_tai_ns d \<le> now
         then Inl (DelegationExpired delegation_id (del_expires_tai_ns d) now)
         else Inr (ViaDelegation delegation_id))"

definition verify_mfa :: "authn_principal \<Rightarrow> command \<Rightarrow> authz_context \<Rightarrow> authz_error + mfa_outcome" where
  "verify_mfa who c ctx =
     (if hazardous c then
        case find (\<lambda>m. m \<in> set (amr who)) (ctx_mfa_amr_methods ctx) of
          Some method \<Rightarrow> Inr (VerifiedAmr method)
        | None \<Rightarrow>
            if ctx_mfa_acr ctx \<noteq> [] \<and> acr who = ctx_mfa_acr ctx then Inr (VerifiedAcr (acr who))
            else Inl (MfaRequired (command_class c) (ctx_mfa_amr_methods ctx) (ctx_mfa_acr ctx)
                        (amr who) (acr who))
      else Inr NotRequired)"

definition authorize_command ::
  "authn_principal \<Rightarrow> command \<Rightarrow> string \<Rightarrow> authz_context \<Rightarrow> i64 \<Rightarrow> authz_error + authz_decision" where
  "authorize_command who c delegation_id ctx now =
     ebind
       (if delegation_id = [] then
          ebind (ok_or (RoleNotGranted (groups who) (command_class c))
                   (granting_role (ctx_role_table ctx) (groups who) (command_class c)))
            (\<lambda>r. Inr (ViaRole r))
        else authorize_via_delegation who c delegation_id ctx now)
       (\<lambda>v. ebind (verify_mfa who c ctx) (\<lambda>m. Inr \<lparr>via = v, mfa = m\<rparr>))"

definition format_authz_reason :: "string \<Rightarrow> authz_decision \<Rightarrow> string" where
  "format_authz_reason class d =
     (let v = (case via d of
                 ViaRole r \<Rightarrow> ''role='' @ debug_str r
               | ViaDelegation i \<Rightarrow> ''delegation='' @ debug_str i);
          m = (case mfa d of
                 NotRequired \<Rightarrow> ''not_required''
               | VerifiedAmr method \<Rightarrow> ''amr='' @ debug_str method
               | VerifiedAcr val \<Rightarrow> ''acr='' @ debug_str val)
      in ''authorize: command_class='' @ debug_str class @ '' via='' @ v @ '' mfa='' @ m @
         '' (crate::authz)'')"

section \<open>Lemmas\<close>

lemma find_eq_None: "find P xs = None \<longleftrightarrow> \<not> list_ex P xs"
  by (induction xs) auto

lemma find_SomeD: "find P xs = Some x \<Longrightarrow> x \<in> set xs \<and> P x"
  by (induction xs) (auto split: if_splits)

lemma rpc_parse_name [simp]: "rpc_parse (rpc_name r) = Some r"
  by (cases r) (simp_all add: rpc_parse_def)

lemma rpc_name_of_parse: "rpc_parse s = Some r \<Longrightarrow> rpc_name r = s"
  by (auto simp: rpc_parse_def split: if_splits)

lemma service_roles_keys:
  "service_role_table_from_config cfg = Inr bs \<Longrightarrow> map fst bs = bt_keys cfg"
  by (induction cfg arbitrary: bs rule: service_role_table_from_config.induct)
    (auto simp: ebind_eq_Inr bt_keys_def)

lemma role_grants_key: "role_grants bindings r class \<Longrightarrow> r \<in> set (map role bindings)"
  by (auto simp: role_grants_def split: option.splits dest!: find_SomeD)

lemma service_role_grants_key: "service_role_grants bindings r rpc \<Longrightarrow> r \<in> set (map fst bindings)"
  by (auto simp: service_role_grants_def split: option.splits dest!: find_SomeD)

lemma roles_of_config: "map role (role_table_from_config cfg) = bt_keys cfg"
  by (simp add: role_table_from_config_def bt_keys_def case_prod_beta comp_def)

lemma disjoint_Inr:
  "check_service_roles_disjoint rs srs = Inr u \<longleftrightarrow> set (bt_keys rs) \<inter> set (bt_keys srs) = {}"
  by (auto simp: check_service_roles_disjoint_def Let_def filter_empty_conv bt_contains_iff)

lemma counters_get_record:
  "counters_get x (counters_record code m) = counters_get x m + (if x = code then 1 else 0)"
  by (simp add: counters_get_def counters_record_def split: option.splits)

section \<open>Properties\<close>

text \<open>
  The abstract rule: which principal may authorize a command, through which delegation, at
  what time.
\<close>

definition granted_by_role :: "authn_principal \<Rightarrow> command \<Rightarrow> authz_context \<Rightarrow> bool" where
  "granted_by_role who c ctx \<longleftrightarrow>
     (\<exists>g \<in> set (groups who). role_grants (ctx_role_table ctx) g (command_class c))"

definition granted_by_delegation :: "authn_principal \<Rightarrow> command \<Rightarrow> delegation option \<Rightarrow> i64 \<Rightarrow> bool" where
  "granted_by_delegation who c od now \<longleftrightarrow>
     (\<exists>d. od = Some d \<and> del_subject d = sub who \<and>
        (command_class c \<in> set (del_command_classes d) \<or> wildcard \<in> set (del_command_classes d)) \<and>
        (entity_id c \<in> set (del_entity_ids d) \<or> wildcard \<in> set (del_entity_ids d)) \<and>
        del_not_before_tai_ns d \<le> now \<and> now < del_expires_tai_ns d)"

definition second_factor :: "authn_principal \<Rightarrow> authz_context \<Rightarrow> bool" where
  "second_factor who ctx \<longleftrightarrow>
     set (amr who) \<inter> set (ctx_mfa_amr_methods ctx) \<noteq> {} \<or>
     ctx_mfa_acr ctx \<noteq> [] \<and> acr who = ctx_mfa_acr ctx"

lemma covers_iff: "covers xs x \<longleftrightarrow> x \<in> set xs \<or> wildcard \<in> set xs"
  by (auto simp: covers_def list_ex_iff)

lemma via_delegation_Inr:
  "(\<exists>v. authorize_via_delegation who c i ctx now = Inr v) \<longleftrightarrow>
     granted_by_delegation who c (delegations_get (ctx_delegations ctx) i) now"
  by (cases "delegations_get (ctx_delegations ctx) i")
    (auto simp: authorize_via_delegation_def granted_by_delegation_def covers_iff)

lemma verify_mfa_Inr: "(\<exists>m. verify_mfa who c ctx = Inr m) \<longleftrightarrow> (hazardous c \<longrightarrow> second_factor who ctx)"
  by (auto simp: verify_mfa_def second_factor_def find_eq_None list_ex_iff
      split: option.splits dest!: find_SomeD)

lemma granting_role_Some:
  "(\<exists>r. granting_role bindings gs class = Some r) \<longleftrightarrow> (\<exists>g \<in> set gs. role_grants bindings g class)"
  by (auto simp: granting_role_def list_ex_iff dest!: find_SomeD)
    (metis find_eq_None list_ex_iff not_Some_eq)

text \<open>
  C2: deny by default: authorization succeeds exactly when a role of the principal covers
  the class (no delegation named) or the named delegation was given to this subject for
  this class and entity and its half-open validity window holds now, and, for a hazardous
  command, a configured second factor is present.
\<close>

theorem authorize_command_exact:
  "(\<exists>d. authorize_command who c delegation_id ctx now = Inr d) \<longleftrightarrow>
     (if delegation_id = [] then granted_by_role who c ctx
      else granted_by_delegation who c (delegations_get (ctx_delegations ctx) delegation_id) now) \<and>
     (hazardous c \<longrightarrow> second_factor who ctx)"
proof -
  have "(\<exists>d. authorize_command who c delegation_id ctx now = Inr d) \<longleftrightarrow>
      (if delegation_id = []
       then \<exists>r. granting_role (ctx_role_table ctx) (groups who) (command_class c) = Some r
       else \<exists>v. authorize_via_delegation who c delegation_id ctx now = Inr v) \<and>
      (\<exists>m. verify_mfa who c ctx = Inr m)"
    by (auto simp: authorize_command_def ebind_eq_Inr)
  then show ?thesis
    by (simp only: granting_role_Some via_delegation_Inr verify_mfa_Inr granted_by_role_def)
qed

text \<open>
  Separation of duty: with a profile that loads, no group of any principal both grants
  a human authorization and drives a dispatched command, whatever the class and the call.
\<close>

theorem service_roles_never_authorize:
  assumes "load_profile_authz_config from_yaml yaml = Inr cfg"
    and "service_role_table_from_config (service_roles cfg) = Inr table"
    and "role_grants (role_table_from_config (roles cfg)) g class"
  shows "\<not> service_role_grants table g rpc"
proof
  assume "service_role_grants table g rpc"
  then have "g \<in> set (bt_keys (service_roles cfg))"
    using service_role_grants_key service_roles_keys [OF assms(2)] by metis
  moreover have "g \<in> set (bt_keys (roles cfg))"
    using role_grants_key [OF assms(3)] by (simp only: roles_of_config)
  moreover have "set (bt_keys (roles cfg)) \<inter> set (bt_keys (service_roles cfg)) = {}"
    using assms(1) by (auto simp: load_profile_authz_config_def ebind_eq_Inr disjoint_Inr)
  ultimately show False by blast
qed

definition sample_profile :: profile_authz_config where
  "sample_profile =
     \<lparr>roles = [(''operators'', [''burn''])], cfg_mfa_amr_methods = [''otp''], cfg_mfa_acr = [],
      delegations_path = [], service_roles = [(''ground'', [''dispatch''])]\<rparr>"

definition sample_operator :: authn_principal where
  "sample_operator =
     \<lparr>sub = ''alice'', groups = [''operators''], amr = [''pwd'', ''otp''], acr = [], issuer = ''idp'',
      audience = ''av'', jti = ''j1'', issued_at_tai_ns = 0, expiry_tai_ns = 100\<rparr>"

definition sample_context :: authz_context where
  "sample_context =
     \<lparr>ctx_role_table = role_table_from_config (roles sample_profile), ctx_delegations = [],
      ctx_mfa_amr_methods = [''otp''], ctx_mfa_acr = []\<rparr>"

lemma authorize_sample:
  assumes "groups who = [''operators'']" "set (amr who) \<inter> {''otp''} \<noteq> {}" "command_class c = ''burn''"
  shows "\<exists>d. authorize_command who c [] sample_context now = Inr d"
  using assms
  by (auto simp: authorize_command_def sample_context_def sample_profile_def role_table_from_config_def
      granting_role_def role_grants_def verify_mfa_def Let_def)

theorem authorize_command_exact_witness:
  "hazardous sample_command \<and>
   (\<exists>d. authorize_command sample_operator sample_command [] sample_context 5 = Inr d)"
  using authorize_command_exact [of sample_operator sample_command "[]" sample_context 5]
  by (simp add: sample_command_def sample_operator_def sample_context_def sample_profile_def
      granted_by_role_def second_factor_def role_grants_def role_table_from_config_def)

theorem service_roles_never_authorize_witness:
  "\<not> service_role_grants [(''ground'', [RpcDispatch])] ''operators'' RpcDispatch"
proof -
  let ?yaml = "\<lambda>_. Inr sample_profile :: string + profile_authz_config"
  have "load_profile_authz_config ?yaml ''p'' = Inr sample_profile"
    by (simp add: load_profile_authz_config_def sample_profile_def check_service_roles_disjoint_def
        bt_contains_def bt_get_def bt_keys_def rpc_parse_def)
  moreover have "service_role_table_from_config (service_roles sample_profile) =
      Inr [(''ground'', [RpcDispatch])]"
    by (simp add: sample_profile_def rpc_parse_def)
  moreover have "role_grants (role_table_from_config (roles sample_profile)) ''operators'' ''burn''"
    by (simp add: sample_profile_def role_table_from_config_def role_grants_def)
  ultimately show ?thesis by (rule service_roles_never_authorize)
qed

end
