(* ===== verification/Command_Policy.thy ===== *)
theory Command_Policy
  imports Command_State
begin

text \<open>
  \<open>crates/av-command/src/policy.rs\<close>: the policy bundle's hash, the canonical input document,
  the decision id and the resolution of the two Rego entry points into a decision. The Rego
  engine (regorus) and the JSON printer (serde\_json) are parameters; SHA-256 is the parameter
  \<open>sha\<close>. The directory walk that loads a bundle is not modelled.
\<close>

section \<open>Messages\<close>

record policy_input_rate =
  counts_by_class :: "(string \<times> nat) list"
  window_ns :: i64

record policy_input =
  pi_command_id :: string
  pi_entity_id :: string
  pi_command_class :: string
  pi_hazardous :: bool
  pi_envelope_id :: string
  pi_label :: "label option"
  pi_rate :: "policy_input_rate option"

record policy_decision =
  decision_id :: string
  allow :: bool
  policy_hash :: string
  reasons :: "string list"
  matched_rule_path :: string
  evaluated_tai_ns :: i64
  pd_input :: "policy_input option"

section \<open>Hashes and the canonical input\<close>

record policy_bundle =
  bundle_files :: "(string \<times> string) list"
  bundle_hash :: string

definition policy_preimage :: "(string \<times> bytes) list \<Rightarrow> bytes" where
  "policy_preimage files =
     concat (map (\<lambda>(path, bs). len_prefixed (string_bytes path) @ len_prefixed bs) files)"

definition compute_policy_hash :: "(bytes \<Rightarrow> digest) \<Rightarrow> (string \<times> bytes) list \<Rightarrow> string" where
  "compute_policy_hash sha files = hex_encode (digest_bytes (sha (policy_preimage files)))"

datatype json = JString string | JBool bool | JNumber int | JArray "json list" | JObject "(string \<times> json) list"

definition label_json :: "label \<Rightarrow> json" where
  "label_json l =
     JObject [(''caveats'', JArray (map JString (caveats l))), (''marking'', JString (marking l))]"

definition rate_json :: "policy_input_rate \<Rightarrow> json" where
  "rate_json r =
     JObject [(''counts_by_class'', JObject (map (\<lambda>(c, n). (c, JNumber (int n))) (counts_by_class r))),
              (''window_ns'', JNumber (window_ns r))]"

definition canonical_input_json :: "(json \<Rightarrow> string) \<Rightarrow> policy_input \<Rightarrow> string" where
  "canonical_input_json to_string i =
     to_string (JObject
       ([(''command_class'', JString (pi_command_class i)),
         (''command_id'', JString (pi_command_id i)),
         (''entity_id'', JString (pi_entity_id i)),
         (''envelope_id'', JString (pi_envelope_id i)),
         (''hazardous'', JBool (pi_hazardous i))] @
        (case pi_label i of None \<Rightarrow> [] | Some l \<Rightarrow> [(''label'', label_json l)]) @
        (case pi_rate i of None \<Rightarrow> [] | Some r \<Rightarrow> [(''rate'', rate_json r)])))"

definition decision_preimage :: "string \<Rightarrow> string \<Rightarrow> i64 \<Rightarrow> bytes" where
  "decision_preimage ph json evaluated =
     len_prefixed (string_bytes ph) @ len_prefixed (string_bytes json) @ i64_be evaluated"

definition compute_decision_id :: "(bytes \<Rightarrow> digest) \<Rightarrow> string \<Rightarrow> string \<Rightarrow> i64 \<Rightarrow> string" where
  "compute_decision_id sha ph json evaluated =
     hex_encode (digest_bytes (sha (decision_preimage ph json evaluated)))"

section \<open>Evaluation\<close>

datatype rego_value =
    RNull | RBool bool | RNumber int | RString string | RArray "rego_value list"
  | RSet "rego_value list" | RObject "(rego_value \<times> rego_value) list" | RUndefined

text \<open>
  What \<open>evaluate\<close> asks of the engine: the error of adding one more policy file, of
  attaching the empty data document, of setting the input, and the value (or error text) of
  a rule under the files and the input set.
\<close>

record rego_engine =
  add_policy :: "(string \<times> string) list \<Rightarrow> string \<times> string \<Rightarrow> string option"
  add_data :: "(string \<times> string) list \<Rightarrow> string option"
  set_input_json :: "string \<Rightarrow> string option"
  eval_rule :: "(string \<times> string) list \<Rightarrow> string \<Rightarrow> string \<Rightarrow> string + rego_value"

abbreviation allow_entrypoint :: string where "allow_entrypoint \<equiv> ''data.altavista.authority.allow''"
abbreviation deny_entrypoint :: string where "deny_entrypoint \<equiv> ''data.altavista.authority.deny''"

fun str_contains :: "string \<Rightarrow> string \<Rightarrow> bool" where
  "str_contains [] p \<longleftrightarrow> p = []"
| "str_contains (c # s) p \<longleftrightarrow> take (length p) (c # s) = p \<or> str_contains s p"

definition is_rule_not_defined :: "string \<Rightarrow> bool" where
  "is_rule_not_defined e = str_contains e ''not a valid rule path''"

fun describe_shape :: "rego_value \<Rightarrow> string" where
  "describe_shape RNull = ''null''"
| "describe_shape (RBool _) = ''a boolean''"
| "describe_shape (RNumber _) = ''a number''"
| "describe_shape (RString _) = ''a string''"
| "describe_shape (RArray _) = ''an array''"
| "describe_shape (RSet _) = ''a set''"
| "describe_shape (RObject _) = ''an object''"
| "describe_shape RUndefined = ''undefined''"

definition resolve_allow_rule :: "(string \<Rightarrow> string + rego_value) \<Rightarrow> string \<Rightarrow> bool \<times> string list" where
  "resolve_allow_rule eval path =
     (case eval path of
        Inr (RBool b) \<Rightarrow> (b, [])
      | Inr RUndefined \<Rightarrow> (False, [])
      | Inr other \<Rightarrow>
          (False, [''entry point '' @ path @ '' returned '' @ describe_shape other @ '', expected a boolean''])
      | Inl e \<Rightarrow>
          if is_rule_not_defined e then (False, [])
          else (False, [''entry point '' @ path @ '' failed to evaluate: '' @ e]))"

definition resolve_deny_rule :: "(string \<Rightarrow> string + rego_value) \<Rightarrow> string \<Rightarrow> string list" where
  "resolve_deny_rule eval path =
     (case eval path of
        Inr (RSet vs) \<Rightarrow>
          map (\<lambda>v. case v of RString s \<Rightarrow> s
                  | other \<Rightarrow> ''entry point '' @ path @
                      '' produced a set containing a non-string element: '' @ describe_shape other) vs
      | Inr RUndefined \<Rightarrow> []
      | Inr other \<Rightarrow>
          [''entry point '' @ path @ '' returned '' @ describe_shape other @ '', expected a set of strings'']
      | Inl e \<Rightarrow>
          if is_rule_not_defined e then []
          else [''entry point '' @ path @ '' failed to evaluate: '' @ e])"

fun add_policies :: "rego_engine \<Rightarrow> (string \<times> string) list \<Rightarrow> (string \<times> string) list \<Rightarrow> string option" where
  "add_policies eng added [] = None"
| "add_policies eng added (f # fs) =
     (case add_policy eng added f of
        Some e \<Rightarrow> Some (''policy file '' @ debug_str (fst f) @ '' failed to compile: '' @ e)
      | None \<Rightarrow> add_policies eng (added @ [f]) fs)"

definition setup_failure :: "rego_engine \<Rightarrow> policy_bundle \<Rightarrow> string \<Rightarrow> string option" where
  "setup_failure eng bundle json =
     (case add_policies eng [] (bundle_files bundle) of
        Some e \<Rightarrow> Some e
      | None \<Rightarrow>
          (case add_data eng (bundle_files bundle) of
             Some e \<Rightarrow> Some (''failed to attach the (empty) data document: '' @ e)
           | None \<Rightarrow>
               (case set_input_json eng json of
                  Some e \<Rightarrow> Some (''failed to set the policy input document: '' @ e)
                | None \<Rightarrow> None)))"

definition default_deny_reason :: string where
  "default_deny_reason =
     ''no rule at '' @ allow_entrypoint @
     '' matched this input (default-deny: a policy that does not allow is never treated as allow)''"

definition evaluate ::
  "(bytes \<Rightarrow> digest) \<Rightarrow> (json \<Rightarrow> string) \<Rightarrow> rego_engine \<Rightarrow> policy_bundle \<Rightarrow> policy_input \<Rightarrow> i64 \<Rightarrow>
     policy_decision" where
  "evaluate sha to_string eng bundle i now =
     (let json = canonical_input_json to_string i;
          did = compute_decision_id sha (bundle_hash bundle) json now
      in case setup_failure eng bundle json of
           Some why \<Rightarrow>
             \<lparr>decision_id = did, allow = False, policy_hash = bundle_hash bundle, reasons = [why],
              matched_rule_path = deny_entrypoint, evaluated_tai_ns = now, pd_input = Some i\<rparr>
         | None \<Rightarrow>
             let eval = eval_rule eng (bundle_files bundle) json;
                 (allowed, rs) = resolve_allow_rule eval allow_entrypoint;
                 rs = sort (rs @ resolve_deny_rule eval deny_entrypoint);
                 ok = allowed \<and> rs = [];
                 rs = (if \<not> ok \<and> rs = [] then [default_deny_reason] else rs)
             in \<lparr>decision_id = did, allow = ok, policy_hash = bundle_hash bundle, reasons = rs,
                 matched_rule_path = (if ok then allow_entrypoint else deny_entrypoint),
                 evaluated_tai_ns = now, pd_input = Some i\<rparr>)"

section \<open>Lemmas\<close>

lemma resolve_allow_True:
  "resolve_allow_rule ev path = (True, rs) \<longleftrightarrow> ev path = Inr (RBool True) \<and> rs = []"
  by (auto simp: resolve_allow_rule_def split: sum.splits rego_value.splits)

lemma resolve_deny_Nil:
  "resolve_deny_rule ev path = [] \<longleftrightarrow>
     ev path = Inr (RSet []) \<or> ev path = Inr RUndefined \<or> (\<exists>e. ev path = Inl e \<and> is_rule_not_defined e)"
  by (auto simp: resolve_deny_rule_def split: sum.splits rego_value.splits)

lemma decision_preimage_inject:
  assumes "length ph < 2 ^ 32" "length ph' < 2 ^ 32" "length j < 2 ^ 32" "length j' < 2 ^ 32"
    and "in_i64 t" "in_i64 t'"
  shows "decision_preimage ph j t = decision_preimage ph' j' t' \<longleftrightarrow> ph = ph' \<and> j = j' \<and> t = t'"
  using assms by (simp add: decision_preimage_def len_prefixed_append len_prefixed_inject i64_be_inject)

definition framable :: "(string \<times> bytes) list \<Rightarrow> bool" where
  "framable files \<longleftrightarrow> (\<forall>(path, bs) \<in> set files. length path < 2 ^ 32 \<and> length bs < 2 ^ 32)"

lemma policy_preimage_inject:
  "framable fs \<Longrightarrow> framable gs \<Longrightarrow> policy_preimage fs = policy_preimage gs \<Longrightarrow> fs = gs"
proof (induction fs arbitrary: gs)
  case Nil
  then show ?case
    by (cases gs) (auto simp: policy_preimage_def len_prefixed_def dest: arg_cong [of _ _ length])
next
  case (Cons f fs)
  show ?case
  proof (cases gs)
    case Nil
    with Cons.prems show ?thesis
      by (auto simp: policy_preimage_def len_prefixed_def split: prod.splits dest: arg_cong [of _ _ length])
  next
    case [simp]: (Cons g gs')
    obtain p b q c where [simp]: "f = (p, b)" "g = (q, c)" by (cases f; cases g)
    have "p = q \<and> b = c \<and> policy_preimage fs = policy_preimage gs'"
      using Cons.prems by (simp add: policy_preimage_def framable_def len_prefixed_append)
    with Cons.IH [of gs'] Cons.prems(1,2) show ?thesis by (simp add: framable_def)
  qed
qed

section \<open>Properties\<close>

text \<open>
  A decision allows only when the engine took every file, the data and the input, the
  allow entry point is exactly the boolean true and the deny entry point gives no reason:
  every error, undefined rule or value of another shape denies, and a denial always carries
  a reason.
\<close>

theorem evaluate_denies_by_default:
  "(allow (evaluate sha js eng b i now) \<longleftrightarrow>
      setup_failure eng b (canonical_input_json js i) = None \<and>
      eval_rule eng (bundle_files b) (canonical_input_json js i) allow_entrypoint = Inr (RBool True) \<and>
      resolve_deny_rule (eval_rule eng (bundle_files b) (canonical_input_json js i)) deny_entrypoint = []) \<and>
    (reasons (evaluate sha js eng b i now) = [] \<longleftrightarrow> allow (evaluate sha js eng b i now))"
proof (cases "setup_failure eng b (canonical_input_json js i)")
  case None
  let ?ev = "eval_rule eng (bundle_files b) (canonical_input_json js i)"
  obtain a rs where ar: "resolve_allow_rule ?ev allow_entrypoint = (a, rs)"
    by fastforce
  define ds where "ds = resolve_deny_rule ?ev deny_entrypoint"
  have sort: "sort xs = [] \<longleftrightarrow> xs = []" for xs :: "string list"
    by (metis set_empty set_sort)
  have a: "a \<and> rs = [] \<longleftrightarrow> ?ev allow_entrypoint = Inr (RBool True)"
    using resolve_allow_True [of ?ev allow_entrypoint rs] resolve_allow_True [of ?ev allow_entrypoint "[]"] ar
    by (cases a) auto
  have "allow (evaluate sha js eng b i now) \<longleftrightarrow> a \<and> sort (rs @ ds) = []"
    and "reasons (evaluate sha js eng b i now) = [] \<longleftrightarrow> a \<and> sort (rs @ ds) = []"
    by (auto simp: evaluate_def None ar Let_def ds_def)
  then show ?thesis using None a unfolding sort ds_def by auto
next
  case (Some e)
  then show ?thesis by (simp add: evaluate_def Let_def)
qed

text \<open>
  A decision id binds the decision to its evidence: two evaluations with the same id had
  the same policy hash, the same input document and the same time, where SHA-256 does not
  collide on the two preimages.
\<close>

theorem decision_id_binds:
  assumes "decision_id (evaluate sha js eng b i t) = decision_id (evaluate sha js eng' b' i' t')"
    and "inj_on sha {decision_preimage (bundle_hash b) (canonical_input_json js i) t,
                     decision_preimage (bundle_hash b') (canonical_input_json js i') t'}"
    and "length (bundle_hash b) < 2 ^ 32" "length (bundle_hash b') < 2 ^ 32"
    and "length (canonical_input_json js i) < 2 ^ 32" "length (canonical_input_json js i') < 2 ^ 32"
    and "in_i64 t" "in_i64 t'"
  shows "bundle_hash b = bundle_hash b' \<and> canonical_input_json js i = canonical_input_json js i' \<and> t = t'"
proof -
  have "decision_id (evaluate sha js e x y z) = compute_decision_id sha (bundle_hash x) (canonical_input_json js y) z"
    for e x y z by (simp add: evaluate_def Let_def split: option.splits prod.splits)
  with assms(1) have "sha (decision_preimage (bundle_hash b) (canonical_input_json js i) t) =
      sha (decision_preimage (bundle_hash b') (canonical_input_json js i') t')"
    by (simp add: compute_decision_id_def)
  with assms(2) have "decision_preimage (bundle_hash b) (canonical_input_json js i) t =
      decision_preimage (bundle_hash b') (canonical_input_json js i') t'"
    by (auto dest: inj_onD)
  with assms(3-) show ?thesis by (simp only: decision_preimage_inject)
qed

text \<open>
  The policy hash binds names, contents and order of the bundle's files: no byte can
  move from one file to another, or from a name to a body, under the same hash.
\<close>

theorem policy_hash_binds_files:
  assumes "compute_policy_hash sha fs = compute_policy_hash sha gs"
    and "framable fs" "framable gs"
    and "inj_on sha {policy_preimage fs, policy_preimage gs}"
  shows "fs = gs"
proof -
  have "sha (policy_preimage fs) = sha (policy_preimage gs)"
    using assms(1) by (simp add: compute_policy_hash_def)
  with assms(4) have "policy_preimage fs = policy_preimage gs"
    by (auto dest: inj_onD)
  with assms(2,3) show ?thesis by (rule policy_preimage_inject)
qed

section \<open>Witnesses\<close>

definition sample_engine :: rego_engine where
  "sample_engine =
     \<lparr>add_policy = (\<lambda>_ _. None), add_data = (\<lambda>_. None), set_input_json = (\<lambda>_. None),
      eval_rule = (\<lambda>_ _ path. if path = allow_entrypoint then Inr (RBool True) else Inr (RSet []))\<rparr>"

definition sample_bundle :: policy_bundle where
  "sample_bundle = \<lparr>bundle_files = [(''command.rego'', ''package altavista'')], bundle_hash = ''00''\<rparr>"

definition sample_input :: policy_input where
  "sample_input =
     \<lparr>pi_command_id = ''c1'', pi_entity_id = ''sat'', pi_command_class = ''burn'', pi_hazardous = True,
      pi_envelope_id = [], pi_label = None, pi_rate = None\<rparr>"

theorem evaluate_denies_by_default_witness:
  "allow (evaluate (\<lambda>_. 0) (\<lambda>_. ''j'') sample_engine sample_bundle sample_input 7)"
  using evaluate_denies_by_default [of "\<lambda>_. 0" "\<lambda>_. ''j''" sample_engine sample_bundle sample_input 7]
  by (simp add: sample_engine_def sample_bundle_def setup_failure_def resolve_deny_rule_def)

theorem decision_id_binds_witness:
  "\<exists>sha. decision_id (evaluate sha (\<lambda>_. ''j'') sample_engine sample_bundle sample_input 7) \<noteq>
     decision_id (evaluate sha (\<lambda>_. ''j'') sample_engine sample_bundle sample_input 8)"
proof -
  let ?j = "canonical_input_json (\<lambda>_. ''j'') sample_input"
  let ?p = "decision_preimage (bundle_hash sample_bundle) ?j 7"
    and ?q = "decision_preimage (bundle_hash sample_bundle) ?j 8"
  let ?sha = "\<lambda>bs. if bs = ?p then 0 else 1 :: digest"
  have len: "length (bundle_hash sample_bundle) < 2 ^ 32" "length ?j < 2 ^ 32" "in_i64 7" "in_i64 8"
    by (simp_all add: sample_bundle_def canonical_input_json_def in_i64_def i64_min_def i64_max_def)
  then have "?p \<noteq> ?q" by (simp add: decision_preimage_inject)
  then have "inj_on ?sha {?p, ?q}" by auto
  from decision_id_binds [OF _ this len(1) len(1) len(2) len(2) len(3) len(4)] show ?thesis
    by (intro exI [of _ ?sha]) fastforce
qed

theorem policy_hash_binds_files_witness:
  "\<exists>sha. compute_policy_hash sha [(''ab'', [1])] \<noteq> compute_policy_hash sha [(''a'', [98, 1])]"
proof -
  let ?p = "policy_preimage [(''ab'', [1])]" and ?q = "policy_preimage [(''a'', [98, 1])]"
  have fr: "framable [(''ab'', [1])]" "framable [(''a'', [98, 1])]"
    by (simp_all add: framable_def)
  then have "?p \<noteq> ?q" by (auto dest: policy_preimage_inject)
  then have "inj_on (\<lambda>bs. if bs = ?p then 0 else 1 :: digest) {?p, ?q}" by auto
  from policy_hash_binds_files [OF _ fr this] show ?thesis
    by (intro exI [of _ "\<lambda>bs. if bs = ?p then 0 else 1"]) fastforce
qed

end
