(* ===== verification/Command_Ledger.thy ===== *)
theory Command_Ledger
  imports BTree Command_Policy "HOL-Library.Multiset"
begin

text \<open>
  \<open>crates/av-command/src/ledger.rs\<close> and \<open>rate.rs\<close>: the hash-chained command ledger, one file of
  length-prefixed records per partition. The protobuf encoding (prost) is the parameters \<open>enc\<close>
  and \<open>dec\<close>, SHA-256 is \<open>sha\<close>; the directory is the map from file names to contents, in the
  order \<open>read_dir\<close> plus \<open>sort\<close> visits it, and a missing directory is the empty map. What one
  write of the operating system did is an argument of \<open>append\<close>.
\<close>

section \<open>Records\<close>

record command_proposal =
  prop_command :: "command option"
  rationale :: string
  evidence_ids :: "string list"

record ledger_record =
  lr_seq :: u64
  lr_partition :: string
  lr_prev_hash :: bytes
  lr_hash :: bytes
  lr_tai_ns :: i64
  lr_command_id :: string
  lr_transition :: "command_transition option"
  lr_decision :: "policy_decision option"
  lr_command_class :: string
  lr_idempotency_key :: string
  lr_command :: "command option"
  lr_proposal :: "command_proposal option"

definition genesis :: bytes where
  "genesis = string_bytes ''GENESIS''"

record chain_state =
  next_seq :: u64
  last_hash :: bytes

definition genesis_state :: chain_state where
  "genesis_state = \<lparr>next_seq = 1, last_hash = genesis\<rparr>"

datatype 'x ledger_error =
    ShortBody nat nat
  | Undecodable 'x
  | CommandStateMismatch int int string
  | CommandTransitionMismatch string
  | ProposalIdMismatch string string
  | ProposalNotOnProposed int string
  | WriteFault

section \<open>Frames\<close>

text \<open>
  One \<open>read_frame\<close>: end of file inside the four length bytes is a clean end, inside the body
  an error. \<open>for_frames\<close> is the loop \<open>while let Some(record) = read_frame(\&mut file)?\<close>.
\<close>

definition read_frame ::
  "(bytes \<Rightarrow> 'x + ledger_record) \<Rightarrow> bytes \<Rightarrow> 'x ledger_error + (ledger_record \<times> bytes) option" where
  "read_frame dec file =
     (if length file < 4 then Inr None
      else
        let len = be_to_nat (take 4 file); rest = drop 4 file in
        if length rest < len then Inl (ShortBody len (length rest))
        else ebind (map_err Undecodable (dec (take len rest)))
               (\<lambda>r. Inr (Some (r, drop len rest))))"

lemma read_frame_shorter: "read_frame dec file = Inr (Some (r, rest)) \<Longrightarrow> length rest < length file"
  by (auto simp: read_frame_def Let_def ebind_eq_Inr split: if_splits)

function for_frames ::
  "(bytes \<Rightarrow> 'x + ledger_record) \<Rightarrow> ('s \<Rightarrow> ledger_record \<Rightarrow> 's) \<Rightarrow> 's \<Rightarrow> bytes \<Rightarrow> 'x ledger_error + 's" where
  "for_frames dec f s file =
     (case read_frame dec file of
        Inl e \<Rightarrow> Inl e
      | Inr None \<Rightarrow> Inr s
      | Inr (Some (r, rest)) \<Rightarrow> for_frames dec f (f s r) rest)"
  by pat_completeness auto
termination
  by (relation "measure (\<lambda>(_, _, _, file). length file)") (auto dest: read_frame_shorter)

declare for_frames.simps [simp del]

definition frame :: "(ledger_record \<Rightarrow> bytes) \<Rightarrow> ledger_record \<Rightarrow> bytes" where
  "frame enc r = nat_to_be 4 (length (enc r)) @ enc r"

definition chain_link ::
  "(bytes \<Rightarrow> digest) \<Rightarrow> (ledger_record \<Rightarrow> bytes) \<Rightarrow> bytes \<Rightarrow> ledger_record \<Rightarrow> digest" where
  "chain_link sha enc prev r = sha (prev @ enc (r\<lparr>lr_prev_hash := [], lr_hash := []\<rparr>))"

definition compute_hash ::
  "(bytes \<Rightarrow> digest) \<Rightarrow> (ledger_record \<Rightarrow> bytes) \<Rightarrow> bytes \<Rightarrow> ledger_record \<Rightarrow> bytes" where
  "compute_hash sha enc prev r = digest_bytes (chain_link sha enc prev r)"

definition sanitize_partition_filename :: "(bytes \<Rightarrow> digest) \<Rightarrow> string \<Rightarrow> string" where
  "sanitize_partition_filename sha p = hex_encode (digest_bytes (sha (string_bytes p))) @ ''.ledger''"

section \<open>The ledger\<close>

type_synonym directory = "(string, bytes) btree"

record ledger =
  dir :: directory
  chains :: "(string, chain_state) btree"

definition open_ledger :: "directory \<Rightarrow> ledger" where
  "open_ledger d = \<lparr>dir = d, chains = []\<rparr>"

definition recover_chain_state ::
  "(bytes \<Rightarrow> 'x + ledger_record) \<Rightarrow> bytes option \<Rightarrow> 'x ledger_error + chain_state" where
  "recover_chain_state dec file =
     (case file of
        None \<Rightarrow> Inr genesis_state
      | Some bs \<Rightarrow>
          for_frames dec (\<lambda>_ r. \<lparr>next_seq = lr_seq r + 1, last_hash = lr_hash r\<rparr>) genesis_state bs)"

record command_meta =
  meta_partition :: string
  meta_command_id :: string
  meta_command_class :: string
  meta_idempotency_key :: string

definition check_self_evidence ::
  "command_meta \<Rightarrow> command_transition \<Rightarrow> command option \<Rightarrow> command_proposal option \<Rightarrow> 'x ledger_error + unit" where
  "check_self_evidence m tr co po =
     ebind
       (case co of
          None \<Rightarrow> Inr ()
        | Some c \<Rightarrow>
            if cmd_state c \<noteq> tr_state tr
            then Inl (CommandStateMismatch (cmd_state c) (tr_state tr) (meta_command_id m))
            else if transitions c = [] \<or> last (transitions c) \<noteq> tr
            then Inl (CommandTransitionMismatch (meta_command_id m))
            else Inr ())
       (\<lambda>_. case po of
          None \<Rightarrow> Inr ()
        | Some p \<Rightarrow>
            (let pid = (case prop_command p of Some c \<Rightarrow> cmd_id c | None \<Rightarrow> []) in
             if pid \<noteq> meta_command_id m then Inl (ProposalIdMismatch pid (meta_command_id m))
             else if tr_state tr \<noteq> state_i32 Proposed
             then Inl (ProposalNotOnProposed (tr_state tr) (meta_command_id m))
             else Inr ()))"

definition stamped ::
  "(bytes \<Rightarrow> digest) \<Rightarrow> (ledger_record \<Rightarrow> bytes) \<Rightarrow> chain_state \<Rightarrow> command_meta \<Rightarrow> command_transition \<Rightarrow>
     policy_decision option \<Rightarrow> command option \<Rightarrow> command_proposal option \<Rightarrow> i64 \<Rightarrow> ledger_record" where
  "stamped sha enc s m tr d co po now =
     (let r = \<lparr>lr_seq = next_seq s, lr_partition = meta_partition m, lr_prev_hash = [], lr_hash = [],
               lr_tai_ns = now, lr_command_id = meta_command_id m, lr_transition = Some tr,
               lr_decision = d, lr_command_class = meta_command_class m,
               lr_idempotency_key = meta_idempotency_key m, lr_command = co, lr_proposal = po\<rparr>
      in r\<lparr>lr_prev_hash := last_hash s, lr_hash := compute_hash sha enc (last_hash s) r\<rparr>)"

text \<open>The cached chain state of a partition, read from its file on first use.\<close>

definition chain_of ::
  "(bytes \<Rightarrow> digest) \<Rightarrow> (bytes \<Rightarrow> 'x + ledger_record) \<Rightarrow> string \<Rightarrow> ledger \<Rightarrow>
     ('x ledger_error + chain_state) \<times> ledger" where
  "chain_of sha dec p l =
     (case bt_get (chains l) p of
        Some s \<Rightarrow> (Inr s, l)
      | None \<Rightarrow>
          (case recover_chain_state dec (bt_get (dir l) (sanitize_partition_filename sha p)) of
             Inl e \<Rightarrow> (Inl e, l)
           | Inr s \<Rightarrow> (Inr s, l\<lparr>chains := bt_insert p s (chains l)\<rparr>)))"

definition ledger_append ::
  "(bytes \<Rightarrow> digest) \<Rightarrow> (ledger_record \<Rightarrow> bytes) \<Rightarrow> (bytes \<Rightarrow> 'x + ledger_record) \<Rightarrow> write_outcome \<Rightarrow>
     command_meta \<Rightarrow> command_transition \<Rightarrow> policy_decision option \<Rightarrow> command option \<Rightarrow>
     command_proposal option \<Rightarrow> i64 \<Rightarrow> ledger \<Rightarrow> ('x ledger_error + ledger_record) \<times> ledger" where
  "ledger_append sha enc dec w m tr d co po now l =
     try_then (check_self_evidence m tr co po, l) (\<lambda>_ l.
     try_then (chain_of sha dec (meta_partition m) l) (\<lambda>s l.
       let r = stamped sha enc s m tr d co po now;
           name = sanitize_partition_filename sha (meta_partition m);
           old = (case bt_get (dir l) name of None \<Rightarrow> [] | Some bs \<Rightarrow> bs);
           (ok, file) = append_file w old (frame enc r);
           l' = (if w = OpenFail then l else l\<lparr>dir := bt_insert name file (dir l)\<rparr>)
       in if ok then
            (Inr r, l'\<lparr>chains :=
               bt_insert (meta_partition m) \<lparr>next_seq = next_seq s + 1, last_hash = lr_hash r\<rparr> (chains l')\<rparr>)
          else (Inl WriteFault, l')))"

section \<open>Verification\<close>

datatype 'x verify_detail =
    NoLedgerFile | ChainIntact
  | BadFrame u64 "'x ledger_error"
  | SeqMismatch u64 u64
  | PartitionMismatch u64 string string
  | PrevHashMismatch u64
  | Tampered u64

record 'x chain_verification =
  cv_producer_id :: string
  cv_ok :: bool
  cv_checked :: u64
  cv_broken_at :: u64
  cv_detail :: "'x verify_detail"

function verify_loop ::
  "(bytes \<Rightarrow> digest) \<Rightarrow> (ledger_record \<Rightarrow> bytes) \<Rightarrow> (bytes \<Rightarrow> 'x + ledger_record) \<Rightarrow> string \<Rightarrow> bytes \<Rightarrow> u64 \<Rightarrow>
     u64 \<Rightarrow> bytes \<Rightarrow> 'x chain_verification" where
  "verify_loop sha enc dec p prev sq checked file =
     (let broken = (\<lambda>at d. \<lparr>cv_producer_id = p, cv_ok = False, cv_checked = checked,
                            cv_broken_at = at, cv_detail = d\<rparr>)
      in case read_frame dec file of
           Inl e \<Rightarrow> broken sq (BadFrame sq e)
         | Inr None \<Rightarrow>
             \<lparr>cv_producer_id = p, cv_ok = True, cv_checked = checked, cv_broken_at = 0,
              cv_detail = ChainIntact\<rparr>
         | Inr (Some (r, rest)) \<Rightarrow>
             if lr_seq r \<noteq> sq then broken (lr_seq r) (SeqMismatch sq (lr_seq r))
             else if lr_partition r \<noteq> p
             then broken (lr_seq r) (PartitionMismatch (lr_seq r) (lr_partition r) p)
             else if lr_prev_hash r \<noteq> prev then broken (lr_seq r) (PrevHashMismatch (lr_seq r))
             else if compute_hash sha enc prev r \<noteq> lr_hash r then broken (lr_seq r) (Tampered (lr_seq r))
             else verify_loop sha enc dec p (lr_hash r) (lr_seq r + 1) (checked + 1) rest)"
  by pat_completeness auto
termination
  by (relation "measure (\<lambda>(_, _, _, _, _, _, _, file). length file)") (auto dest: read_frame_shorter)

declare verify_loop.simps [simp del]

definition ledger_verify ::
  "(bytes \<Rightarrow> digest) \<Rightarrow> (ledger_record \<Rightarrow> bytes) \<Rightarrow> (bytes \<Rightarrow> 'x + ledger_record) \<Rightarrow> string \<Rightarrow> ledger \<Rightarrow>
     'x chain_verification" where
  "ledger_verify sha enc dec p l =
     (case bt_get (dir l) (sanitize_partition_filename sha p) of
        None \<Rightarrow>
          \<lparr>cv_producer_id = p, cv_ok = True, cv_checked = 0, cv_broken_at = 0, cv_detail = NoLedgerFile\<rparr>
      | Some file \<Rightarrow> verify_loop sha enc dec p genesis 1 0 file)"

section \<open>Scans\<close>

definition has_transition :: "command_state \<Rightarrow> ledger_record \<Rightarrow> bool" where
  "has_transition s r \<longleftrightarrow>
     (case lr_transition r of None \<Rightarrow> False | Some t \<Rightarrow> tr_state t = state_i32 s)"

definition count_proposed_by_class_in_window ::
  "(bytes \<Rightarrow> digest) \<Rightarrow> (bytes \<Rightarrow> 'x + ledger_record) \<Rightarrow> string \<Rightarrow> i64 \<Rightarrow> i64 \<Rightarrow> ledger \<Rightarrow>
     'x ledger_error + (string, nat) btree" where
  "count_proposed_by_class_in_window sha dec p as_of window l =
     (case bt_get (dir l) (sanitize_partition_filename sha p) of
        None \<Rightarrow> Inr []
      | Some file \<Rightarrow>
          let window_start = sat_i64 (as_of - window) in
          for_frames dec (\<lambda>counts r.
            if lr_tai_ns r \<le> window_start \<or> as_of < lr_tai_ns r then counts
            else if has_transition Proposed r then bt_bump (lr_command_class r) counts
            else counts) [] file)"

definition is_ledger_name :: "string \<Rightarrow> bool" where
  "is_ledger_name n \<longleftrightarrow> 7 < length n \<and> drop (length n - 7) n = ''.ledger''"

text \<open>Every ledger file of the directory in path order, each folded in turn.\<close>

fun for_files ::
  "('s \<Rightarrow> bytes \<Rightarrow> 'e + 's) \<Rightarrow> 's \<Rightarrow> (string \<times> bytes) list \<Rightarrow> 'e + 's" where
  "for_files f s [] = Inr s"
| "for_files f s ((n, bs) # es) =
     (if is_ledger_name n then ebind (f s bs) (\<lambda>s'. for_files f s' es) else for_files f s es)"

definition scan_dispatched_idempotency_keys ::
  "(bytes \<Rightarrow> 'x + ledger_record) \<Rightarrow> directory \<Rightarrow> 'x ledger_error + string set" where
  "scan_dispatched_idempotency_keys dec d =
     for_files (for_frames dec (\<lambda>keys r.
       if lr_idempotency_key r = [] then keys
       else if has_transition Dispatched r then insert (lr_idempotency_key r) keys
       else keys)) {} d"

definition scan_commands ::
  "(bytes \<Rightarrow> 'x + ledger_record) \<Rightarrow> directory \<Rightarrow> 'x ledger_error + (string, command) btree" where
  "scan_commands dec d =
     for_files (for_frames dec (\<lambda>m r.
       case lr_command r of None \<Rightarrow> m | Some c \<Rightarrow> bt_insert (lr_command_id r) c m)) [] d"

definition scan_proposals ::
  "(bytes \<Rightarrow> 'x + ledger_record) \<Rightarrow> directory \<Rightarrow> 'x ledger_error + (string, command_proposal) btree" where
  "scan_proposals dec d =
     for_files (for_frames dec (\<lambda>m r.
       case lr_proposal r of None \<Rightarrow> m | Some p \<Rightarrow> bt_or_insert (lr_command_id r) p m)) [] d"

definition scan_decisions ::
  "(bytes \<Rightarrow> 'x + ledger_record) \<Rightarrow> directory \<Rightarrow> 'x ledger_error + (string, policy_decision) btree" where
  "scan_decisions dec d =
     for_files (for_frames dec (\<lambda>m r.
       case lr_decision r of None \<Rightarrow> m | Some p \<Rightarrow> bt_or_insert (lr_command_id r) p m)) [] d"

record partition_summary =
  ps_partition :: string
  ps_chain_head :: string
  ps_records :: u64

definition summarize_file ::
  "(bytes \<Rightarrow> 'x + ledger_record) \<Rightarrow> partition_summary list \<Rightarrow> bytes \<Rightarrow> 'x ledger_error + partition_summary list" where
  "summarize_file dec out file =
     ebind
       (for_frames dec (\<lambda>(p, n, h) r.
          (case p of None \<Rightarrow> Some (lr_partition r) | Some q \<Rightarrow> Some q, lr_seq r, lr_hash r))
          (None, 0, genesis) file)
       (\<lambda>(p, n, h). case p of
          None \<Rightarrow> Inr out
        | Some q \<Rightarrow> Inr (out @ [\<lparr>ps_partition = q, ps_chain_head = hex_encode h, ps_records = n\<rparr>]))"

definition partitions ::
  "(bytes \<Rightarrow> 'x + ledger_record) \<Rightarrow> directory \<Rightarrow> 'x ledger_error + partition_summary list" where
  "partitions dec d = for_files (summarize_file dec) [] d"

section \<open>The records of a file\<close>

text \<open>
  A record that the wire format carries (its encoding decodes to it and its length fits the
  32-bit prefix), the records a file holds, and the chain those records must form.
\<close>

definition carried :: "(ledger_record \<Rightarrow> bytes) \<Rightarrow> (bytes \<Rightarrow> 'x + ledger_record) \<Rightarrow> ledger_record \<Rightarrow> bool" where
  "carried enc dec r \<longleftrightarrow> dec (enc r) = Inr r \<and> length (enc r) < 2 ^ 32"

definition frames :: "(ledger_record \<Rightarrow> bytes) \<Rightarrow> ledger_record list \<Rightarrow> bytes" where
  "frames enc rs = concat (map (frame enc) rs)"

definition records_of :: "(bytes \<Rightarrow> 'x + ledger_record) \<Rightarrow> bytes \<Rightarrow> 'x ledger_error + ledger_record list" where
  "records_of dec file = for_frames dec (\<lambda>rs r. rs @ [r]) [] file"

fun chained :: "(bytes \<Rightarrow> digest) \<Rightarrow> (ledger_record \<Rightarrow> bytes) \<Rightarrow> string \<Rightarrow> bytes \<Rightarrow> u64 \<Rightarrow> ledger_record list \<Rightarrow> bool" where
  "chained sha enc p prev sq [] \<longleftrightarrow> True"
| "chained sha enc p prev sq (r # rs) \<longleftrightarrow>
     lr_seq r = sq \<and> lr_partition r = p \<and> lr_prev_hash r = prev \<and> lr_hash r = compute_hash sha enc prev r \<and>
     chained sha enc p (lr_hash r) (sq + 1) rs"

definition file_of :: "(bytes \<Rightarrow> digest) \<Rightarrow> string \<Rightarrow> directory \<Rightarrow> bytes" where
  "file_of sha p d = (case bt_get d (sanitize_partition_filename sha p) of None \<Rightarrow> [] | Some bs \<Rightarrow> bs)"

definition state_after :: "(bytes \<Rightarrow> digest) \<Rightarrow> (ledger_record \<Rightarrow> bytes) \<Rightarrow> ledger_record list \<Rightarrow> chain_state" where
  "state_after sha enc rs =
     \<lparr>next_seq = 1 + of_nat (length rs), last_hash = chain_head (chain_link sha enc) genesis rs\<rparr>"

text \<open>The partition \<open>p\<close> of a ledger holds the records \<open>rs\<close>, on disk and in the cache.\<close>

definition holds ::
  "(bytes \<Rightarrow> digest) \<Rightarrow> (ledger_record \<Rightarrow> bytes) \<Rightarrow> (bytes \<Rightarrow> 'x + ledger_record) \<Rightarrow> string \<Rightarrow>
     ledger_record list \<Rightarrow> ledger \<Rightarrow> bool" where
  "holds sha enc dec p rs l \<longleftrightarrow>
     list_all (carried enc dec) rs \<and> chained sha enc p genesis 1 rs \<and>
     file_of sha p (dir l) = frames enc rs \<and>
     (\<forall>s. bt_get (chains l) p = Some s \<longrightarrow> s = state_after sha enc rs)"

section \<open>Lemmas\<close>

lemma frames_simps [simp]:
  "frames enc [] = []"
  "frames enc (r # rs) = frame enc r @ frames enc rs"
  "frames enc (rs @ rs') = frames enc rs @ frames enc rs'"
  by (simp_all add: frames_def)

lemma read_frame_frame [simp]:
  "carried enc dec r \<Longrightarrow> read_frame dec (frame enc r @ rest) = Inr (Some (r, rest))"
  by (simp add: read_frame_def frame_def carried_def be_to_nat_of_be Let_def)

lemma read_frame_short [simp]: "length tail < 4 \<Longrightarrow> read_frame dec tail = Inr None"
  by (simp add: read_frame_def)

lemma for_frames_unfold:
  "read_frame dec file = Inl e \<Longrightarrow> for_frames dec f s file = Inl e"
  "read_frame dec file = Inr None \<Longrightarrow> for_frames dec f s file = Inr s"
  "read_frame dec file = Inr (Some (r, rest)) \<Longrightarrow> for_frames dec f s file = for_frames dec f (f s r) rest"
  by (simp_all add: for_frames.simps)

lemma for_frames_end [simp]: "length tail < 4 \<Longrightarrow> for_frames dec f s tail = Inr s"
  by (subst for_frames.simps) simp

lemma for_frames_frames [simp]:
  "list_all (carried enc dec) rs \<Longrightarrow>
   for_frames dec f s (frames enc rs @ tail) = for_frames dec f (foldl f s rs) tail"
  by (induction rs arbitrary: s) (simp, subst for_frames.simps, simp)

lemma for_frames_all:
  "list_all (carried enc dec) rs \<Longrightarrow> for_frames dec f s (frames enc rs) = Inr (foldl f s rs)"
  using for_frames_frames [of enc dec rs f s "[]"] by simp

text \<open>Every loop over a file is a fold over the records it holds.\<close>

lemma for_frames_records:
  "for_frames dec f s file = ebind (for_frames dec (\<lambda>rs r. rs @ [r]) acc file)
     (\<lambda>rs. Inr (foldl f s (drop (length acc) rs))) \<and>
   (\<forall>rs. for_frames dec (\<lambda>rs r. rs @ [r]) acc file = Inr rs \<longrightarrow> take (length acc) rs = acc)"
proof (induction dec f s "file" arbitrary: acc rule: for_frames.induct)
  case (1 dec f s "file")
  show ?case
  proof (cases "read_frame dec file")
    case (Inl e)
    then show ?thesis by (simp add: for_frames_unfold)
  next
    case (Inr o1)
    show ?thesis
    proof (cases o1)
      case None
      with Inr show ?thesis by (simp add: for_frames_unfold)
    next
      case (Some x)
      obtain r rest where x: "x = (r, rest)" by (cases x)
      let ?g = "for_frames dec (\<lambda>rs r. rs @ [r])"
      have IH: "for_frames dec f (f s r) rest = ebind (?g (acc @ [r]) rest)
            (\<lambda>rs. Inr (foldl f (f s r) (drop (length (acc @ [r])) rs)))"
          "\<And>rs. ?g (acc @ [r]) rest = Inr rs \<Longrightarrow> take (length (acc @ [r])) rs = acc @ [r]"
        using 1 [OF Inr Some x [symmetric], of "acc @ [r]"] by auto
      have g: "?g acc file = ?g (acc @ [r]) rest" "for_frames dec f s file = for_frames dec f (f s r) rest"
        by (simp_all add: for_frames_unfold(3) Inr Some x)
      show ?thesis
      proof (cases "?g (acc @ [r]) rest")
        case (Inl e)
        then show ?thesis using IH(1) by (simp add: g)
      next
        case (Inr rs)
        then have t: "take (length (acc @ [r])) rs = acc @ [r]" by (rule IH(2))
        then have "rs = (acc @ [r]) @ drop (length (acc @ [r])) rs"
          by (metis append_take_drop_id)
        then have "drop (length acc) rs = r # drop (length (acc @ [r])) rs" "take (length acc) rs = acc"
          by (metis append.assoc append_Cons append_Nil append_eq_conv_conj)+
        then show ?thesis using IH(1) Inr by (simp add: g)
      qed
    qed
  qed
qed

lemma for_frames_fold: "for_frames dec f s file = ebind (records_of dec file) (\<lambda>rs. Inr (foldl f s rs))"
  using for_frames_records [of dec f s "file" "[]"] by (simp add: records_of_def)

lemma records_of_frames: "list_all (carried enc dec) rs \<Longrightarrow> records_of dec (frames enc rs) = Inr rs"
proof -
  have "foldl (\<lambda>rs r. rs @ [r]) acc rs = acc @ rs" for acc rs :: "ledger_record list"
    by (induction rs arbitrary: acc) simp_all
  then show "list_all (carried enc dec) rs \<Longrightarrow> records_of dec (frames enc rs) = Inr rs"
    by (simp add: records_of_def for_frames_all)
qed

interpretation ledger_chain: hash_chain "chain_link sha enc" sha "\<lambda>r. enc (r\<lparr>lr_prev_hash := [], lr_hash := []\<rparr>)"
  for sha enc
  by unfold_locales (simp add: chain_link_def)

lemma chained_snoc:
  "chained sha enc p prev sq (rs @ [r]) \<longleftrightarrow>
     chained sha enc p prev sq rs \<and> lr_seq r = sq + of_nat (length rs) \<and> lr_partition r = p \<and>
     lr_prev_hash r = chain_head (chain_link sha enc) prev rs \<and>
     lr_hash r = compute_hash sha enc (chain_head (chain_link sha enc) prev rs) r"
proof (induction rs arbitrary: prev sq)
  case Nil
  then show ?case by simp
next
  case (Cons x xs)
  have "digest_bytes (chain_link sha enc prev x) = compute_hash sha enc prev x"
    by (simp add: compute_hash_def)
  then show ?case by (auto simp: Cons.IH chain_head_Cons add.assoc)
qed

lemma frame_nonempty [simp]: "frame enc r \<noteq> []"
  by (simp add: frame_def flip: length_0_conv)

lemma frames_Nil_iff [simp]: "frames enc rs = [] \<longleftrightarrow> rs = []"
  by (cases rs) simp_all

lemma records_of_step:
  "read_frame dec file = Inr (Some (r, rest)) \<Longrightarrow>
   records_of dec file = ebind (records_of dec rest) (\<lambda>rs. Inr (r # rs))"
proof -
  have "foldl (\<lambda>rs r. rs @ [r]) acc rs = acc @ rs" for acc rs :: "ledger_record list"
    by (induction rs arbitrary: acc) simp_all
  then show "read_frame dec file = Inr (Some (r, rest)) \<Longrightarrow> ?thesis"
    using for_frames_fold [of dec "\<lambda>rs r. rs @ [r]" "[r]" rest]
    by (simp add: records_of_def for_frames_unfold(3))
qed

lemma recover_fold:
  "chained sha enc p genesis 1 rs \<Longrightarrow>
   foldl (\<lambda>_ r. \<lparr>next_seq = lr_seq r + 1, last_hash = lr_hash r\<rparr>) genesis_state rs = state_after sha enc rs"
  by (cases rs rule: rev_cases)
    (simp_all add: state_after_def genesis_state_def chained_snoc compute_hash_def add.assoc)

lemma recover_holds:
  assumes "list_all (carried enc dec) rs" "chained sha enc p genesis 1 rs"
    and "(case o1 of None \<Rightarrow> [] | Some bs \<Rightarrow> bs) = frames enc rs"
  shows "recover_chain_state dec o1 = Inr (state_after sha enc rs)"
proof (cases o1)
  case None
  with assms(3) have "frames enc rs = []" by simp
  then have "rs = []" by simp
  with None show ?thesis
    by (simp add: recover_chain_state_def state_after_def genesis_state_def)
next
  case (Some bs)
  with assms show ?thesis
    by (simp add: recover_chain_state_def for_frames_all recover_fold)
qed

lemma frames_inject:
  assumes "list_all (carried enc dec) rs" "list_all (carried enc dec) qs" "frames enc rs = frames enc qs"
  shows "rs = qs"
proof -
  have "Inr rs = records_of dec (frames enc rs)"
    by (rule records_of_frames [symmetric]) (rule assms)
  also have "\<dots> = Inr qs"
    unfolding assms(3) by (rule records_of_frames) (rule assms)
  finally show ?thesis by simp
qed

lemma holds_cached:
  assumes "holds sha enc dec p rs l" "holds sha enc dec q qs l"
  shows "holds sha enc dec q qs (l\<lparr>chains := bt_insert p (state_after sha enc rs) (chains l)\<rparr>)"
proof (cases "q = p")
  case True
  with assms have "qs = rs"
    by (intro frames_inject [of enc dec]) (simp_all add: holds_def)
  with assms(2) True show ?thesis by (simp add: holds_def)
next
  case False
  with assms(2) show ?thesis by (simp add: holds_def)
qed

lemma chain_of_holds:
  assumes "holds sha enc dec p rs l"
  obtains l' where "chain_of sha dec p l = (Inr (state_after sha enc rs), l')" "dir l' = dir l"
    "\<And>q qs. holds sha enc dec q qs l \<Longrightarrow> holds sha enc dec q qs l'"
proof (cases "bt_get (chains l) p")
  case (Some s)
  then have "s = state_after sha enc rs" using assms by (simp add: holds_def)
  with Some have "chain_of sha dec p l = (Inr (state_after sha enc rs), l)"
    by (simp add: chain_of_def)
  then show ?thesis by (rule that) simp_all
next
  case None
  have "recover_chain_state dec (bt_get (dir l) (sanitize_partition_filename sha p)) =
      Inr (state_after sha enc rs)"
    by (rule recover_holds [where p = p]) (use assms in \<open>simp_all add: holds_def file_of_def\<close>)
  then have "chain_of sha dec p l =
      (Inr (state_after sha enc rs), l\<lparr>chains := bt_insert p (state_after sha enc rs) (chains l)\<rparr>)"
    by (simp add: chain_of_def None)
  then show ?thesis by (rule that) (simp_all add: holds_cached [OF assms])
qed

lemma holds_reopened: "holds sha enc dec p rs l \<Longrightarrow> holds sha enc dec p rs (open_ledger (dir l))"
  by (simp add: holds_def open_ledger_def)

lemma holds_empty: "holds sha enc dec p [] (open_ledger [])"
  by (simp add: holds_def open_ledger_def file_of_def)

lemma sanitize_inject:
  "sanitize_partition_filename sha p = sanitize_partition_filename sha q \<longleftrightarrow>
     sha (string_bytes p) = sha (string_bytes q)"
  by (simp add: sanitize_partition_filename_def)

lemma stamped_chained:
  assumes "chained sha enc p genesis 1 rs" "meta_partition m = p"
  shows "chained sha enc p genesis 1 (rs @ [stamped sha enc (state_after sha enc rs) m tr d co po now])"
  using assms
  by (simp add: chained_snoc stamped_def state_after_def compute_hash_def chain_link_def Let_def)

lemma file_of_insert:
  "file_of sha q (bt_insert (sanitize_partition_filename sha p) bs d) =
     (if sha (string_bytes q) = sha (string_bytes p) then bs else file_of sha q d)"
  by (simp add: file_of_def sanitize_inject)

text \<open>What one append does to a partition that holds its records.\<close>

lemma append_holds:
  fixes dec :: "bytes \<Rightarrow> 'x + ledger_record"
  assumes h: "holds sha enc dec (meta_partition m) rs l"
    and ok: "(check_self_evidence m tr co po :: 'x ledger_error + unit) = Inr ()"
    and r: "r = stamped sha enc (state_after sha enc rs) m tr d co po now"
  obtains l' where
    "ledger_append sha enc dec w m tr d co po now l = ((if w = WriteOk then Inr r else Inl WriteFault), l')"
    "file_of sha (meta_partition m) (dir l') =
       snd (append_file w (frames enc rs) (frame enc r))"
    "w = WriteOk \<Longrightarrow> bt_get (chains l') (meta_partition m) =
       Some \<lparr>next_seq = 2 + of_nat (length rs), last_hash = lr_hash r\<rparr>"
    "\<And>q qs. sha (string_bytes q) \<noteq> sha (string_bytes (meta_partition m)) \<Longrightarrow>
       holds sha enc dec q qs l \<Longrightarrow> holds sha enc dec q qs l'"
    "w = OpenFail \<Longrightarrow> dir l' = dir l"
proof -
  let ?p = "meta_partition m"
  obtain l1 where c: "chain_of sha dec ?p l = (Inr (state_after sha enc rs), l1)" and d: "dir l1 = dir l"
    and o: "\<And>q qs. holds sha enc dec q qs l \<Longrightarrow> holds sha enc dec q qs l1"
    using chain_of_holds [OF h] by metis
  have old: "(case bt_get (dir l1) (sanitize_partition_filename sha ?p) of None \<Rightarrow> [] | Some bs \<Rightarrow> bs) = frames enc rs"
    using h by (simp add: holds_def file_of_def d)
  have seq: "next_seq (state_after sha enc rs) + 1 = 2 + of_nat (length rs)"
    by (simp add: state_after_def)
  let ?name = "sanitize_partition_filename sha ?p"
  let ?file = "snd (append_file w (frames enc rs) (frame enc r))"
  let ?l2 = "if w = OpenFail then l1 else l1\<lparr>dir := bt_insert ?name ?file (dir l1)\<rparr>"
  let ?l3 = "if w = WriteOk
    then ?l2\<lparr>chains := bt_insert ?p \<lparr>next_seq = 2 + of_nat (length rs), last_hash = lr_hash r\<rparr> (chains ?l2)\<rparr>
    else ?l2"
  have "ledger_append sha enc dec w m tr d co po now l = ((if w = WriteOk then Inr r else Inl WriteFault), ?l3)"
    by (cases w) (simp_all add: ledger_append_def ok c old Let_def append_file_def seq flip: r)
  moreover have "file_of sha ?p (dir ?l3) = ?file"
    using h by (cases w) (simp_all add: file_of_insert append_file_def holds_def d)
  moreover have "bt_get (chains ?l3) ?p = Some \<lparr>next_seq = 2 + of_nat (length rs), last_hash = lr_hash r\<rparr>"
    if "w = WriteOk" using that by simp
  moreover have "holds sha enc dec q qs ?l3"
    if "sha (string_bytes q) \<noteq> sha (string_bytes ?p)" "holds sha enc dec q qs l" for q qs
  proof -
    have "q \<noteq> ?p" using that(1) by auto
    with o [OF that(2)] that(1) show ?thesis
      by (cases w) (simp_all add: holds_def file_of_insert)
  qed
  moreover have "dir ?l3 = dir l" if "w = OpenFail" using that d by simp
  ultimately show ?thesis using that by blast
qed

lemma append_Inr_fields:
  assumes "ledger_append sha enc dec w m tr d co po now l = (Inr r, l')"
  shows "lr_transition r = Some tr \<and> lr_command r = co \<and> lr_decision r = d \<and> lr_proposal r = po \<and>
    lr_partition r = meta_partition m \<and> lr_command_id r = meta_command_id m \<and>
    lr_idempotency_key r = meta_idempotency_key m \<and> lr_command_class r = meta_command_class m"
proof -
  obtain s where "r = stamped sha enc s m tr d co po now"
    using assms by (cases w) (auto simp: ledger_append_def try_then_eq_Inr Let_def append_file_def)
  then show ?thesis by (simp add: stamped_def Let_def)
qed

lemma holds_appended:
  assumes "holds sha enc dec p rs l" "meta_partition m = p"
    and "r = stamped sha enc (state_after sha enc rs) m tr d co po now" "carried enc dec r"
    and "file_of sha p (dir l') = frames enc rs @ frame enc r"
    and "bt_get (chains l') p = Some \<lparr>next_seq = 2 + of_nat (length rs), last_hash = lr_hash r\<rparr>"
  shows "holds sha enc dec p (rs @ [r]) l'"
proof -
  have "chained sha enc p genesis 1 (rs @ [r])"
    unfolding assms(3) using assms(1,2) by (intro stamped_chained) (simp_all add: holds_def)
  moreover from this have "state_after sha enc (rs @ [r]) =
      \<lparr>next_seq = 2 + of_nat (length rs), last_hash = lr_hash r\<rparr>"
    by (simp add: state_after_def chained_snoc compute_hash_def)
  ultimately show ?thesis using assms by (simp add: holds_def)
qed

lemma append_Inr_stamped:
  assumes "holds sha enc dec (meta_partition m) rs l"
    and "ledger_append sha enc dec w m tr d co po now l = (Inr r, l')"
  shows "r = stamped sha enc (state_after sha enc rs) m tr d co po now"
proof -
  obtain l1 where "chain_of sha dec (meta_partition m) l = (Inr (state_after sha enc rs), l1)"
    using chain_of_holds [OF assms(1)] by metis
  with assms(2) show ?thesis
    by (cases w) (auto simp: ledger_append_def try_then_eq_Inr Let_def append_file_def)
qed

lemma append_succeeds:
  fixes dec :: "bytes \<Rightarrow> 'x + ledger_record"
  assumes "holds sha enc dec (meta_partition m) rs l"
    and "(check_self_evidence m tr co po :: 'x ledger_error + unit) = Inr ()"
  shows "\<exists>l'. ledger_append sha enc dec WriteOk m tr d co po now l =
    (Inr (stamped sha enc (state_after sha enc rs) m tr d co po now), l')"
proof -
  obtain l1 where "chain_of sha dec (meta_partition m) l = (Inr (state_after sha enc rs), l1)"
    using chain_of_holds [OF assms(1)] by metis
  with assms(2) show ?thesis by (simp add: ledger_append_def Let_def append_file_def)
qed

lemma append_dir:
  assumes "holds sha enc dec (meta_partition m) rs l"
    and "ledger_append sha enc dec w m tr d co po now l = (Inr r, l')"
  shows "dir l' = bt_insert (sanitize_partition_filename sha (meta_partition m)) (frames enc rs @ frame enc r) (dir l)"
proof -
  obtain l1 where c: "chain_of sha dec (meta_partition m) l = (Inr (state_after sha enc rs), l1)" "dir l1 = dir l"
    using chain_of_holds [OF assms(1)] by metis
  have "(case bt_get (dir l1) (sanitize_partition_filename sha (meta_partition m)) of None \<Rightarrow> [] | Some bs \<Rightarrow> bs) =
      frames enc rs"
    using assms(1) by (simp add: holds_def file_of_def c(2))
  with assms(2) c show ?thesis
    by (cases w) (auto simp: ledger_append_def try_then_eq_Inr Let_def append_file_def)
qed

text \<open>\<open>verify\<close> succeeds exactly on files whose records form the chain.\<close>

lemma verify_loop_exact:
  "(cv_ok (verify_loop sha enc dec p prev sq n file) \<longleftrightarrow>
      (\<exists>rs. records_of dec file = Inr rs \<and> chained sha enc p prev sq rs)) \<and>
   (\<forall>rs. records_of dec file = Inr rs \<and> chained sha enc p prev sq rs \<longrightarrow>
      cv_checked (verify_loop sha enc dec p prev sq n file) = n + of_nat (length rs))"
proof (induction sha enc dec p prev sq n "file" rule: verify_loop.induct)
  case (1 sha enc dec p prev sq n "file")
  show ?case
  proof (cases "read_frame dec file")
    case (Inl e)
    then show ?thesis by (simp add: verify_loop.simps records_of_def for_frames_unfold)
  next
    case (Inr o1)
    show ?thesis
    proof (cases o1)
      case None
      with Inr show ?thesis by (simp add: verify_loop.simps records_of_def for_frames_unfold)
    next
      case (Some x)
      obtain r rest where x: "x = (r, rest)" by (cases x)
      let ?good = "lr_seq r = sq \<and> lr_partition r = p \<and> lr_prev_hash r = prev \<and>
        compute_hash sha enc prev r = lr_hash r"
      have rec: "records_of dec file = ebind (records_of dec rest) (\<lambda>rs. Inr (r # rs))"
        using Inr Some x by (simp add: records_of_step)
      show ?thesis
      proof (cases ?good)
        case True
        have v: "verify_loop sha enc dec p prev sq n file =
            verify_loop sha enc dec p (lr_hash r) (lr_seq r + 1) (n + 1) rest"
          using Inr Some x True by (simp add: verify_loop.simps [of _ _ _ _ _ _ _ "file"])
        from 1 [OF refl Inr Some x [symmetric]] True
        have "(cv_ok (verify_loop sha enc dec p (lr_hash r) (lr_seq r + 1) (n + 1) rest) \<longleftrightarrow>
            (\<exists>rs. records_of dec rest = Inr rs \<and> chained sha enc p (lr_hash r) (lr_seq r + 1) rs)) \<and>
          (\<forall>rs. records_of dec rest = Inr rs \<and> chained sha enc p (lr_hash r) (lr_seq r + 1) rs \<longrightarrow>
            cv_checked (verify_loop sha enc dec p (lr_hash r) (lr_seq r + 1) (n + 1) rest) = n + 1 + of_nat (length rs))"
          by simp
        then show ?thesis using True by (auto simp: v rec ebind_eq_Inr add.assoc)
      next
        case False
        then have "\<not> cv_ok (verify_loop sha enc dec p prev sq n file)"
          using Inr Some x by (auto simp: verify_loop.simps [of _ _ _ _ _ _ _ "file"] Let_def)
        with False show ?thesis by (auto simp: rec ebind_eq_Inr)
      qed
    qed
  qed
qed

text \<open>Equal bodies along two chains from the same start are equal records.\<close>

abbreviation stripped :: "ledger_record \<Rightarrow> ledger_record" where
  "stripped r \<equiv> r\<lparr>lr_prev_hash := [], lr_hash := []\<rparr>"

lemma chained_bodies:
  assumes "chained sha enc p prev sq rs" "chained sha enc p prev sq rs'"
    and "map (\<lambda>r. enc (stripped r)) rs = map (\<lambda>r. enc (stripped r)) rs'"
    and "\<forall>r \<in> set rs \<union> set rs'. dec (enc (stripped r)) = Inr (stripped r)"
  shows "rs = rs'"
  using assms
proof (induction rs arbitrary: rs' prev sq)
  case Nil
  then show ?case by simp
next
  case (Cons r rs)
  then obtain r' ss where rs': "rs' = r' # ss" by (cases rs') auto
  have e: "enc (stripped r) = enc (stripped r')" using Cons.prems(3) by (simp add: rs')
  moreover have "dec (enc (stripped r)) = Inr (stripped r)" "dec (enc (stripped r')) = Inr (stripped r')"
    using Cons.prems(4) by (simp_all add: rs')
  ultimately have "stripped r = stripped r'" by (metis sum.inject(2))
  moreover have "lr_prev_hash r = lr_prev_hash r'" "lr_hash r = lr_hash r'"
    using Cons.prems(1,2) e by (simp_all add: rs' compute_hash_def chain_link_def)
  then have eqs: "stripped r = stripped r'" "lr_prev_hash r = lr_prev_hash r'" "lr_hash r = lr_hash r'"
    using \<open>stripped r = stripped r'\<close> by blast+
  have "(stripped r)\<lparr>lr_prev_hash := lr_prev_hash r, lr_hash := lr_hash r\<rparr> =
      (stripped r')\<lparr>lr_prev_hash := lr_prev_hash r', lr_hash := lr_hash r'\<rparr>"
    unfolding eqs ..
  then have "r = r'" by simp
  moreover have "rs = ss"
  proof (rule Cons.IH)
    show "chained sha enc p (lr_hash r) (sq + 1) rs"
      using Cons.prems(1) unfolding chained.simps by blast
    show "chained sha enc p (lr_hash r) (sq + 1) ss"
      using Cons.prems(2) unfolding rs' chained.simps \<open>r = r'\<close> by blast
  qed (use Cons.prems(3,4) in \<open>simp_all add: rs'\<close>)
  ultimately show ?case by (simp add: rs')
qed

subsection \<open>Torn writes and scans\<close>

lemma read_frame_torn:
  assumes "carried enc dec r" "4 \<le> n" "n < 4 + length (enc r)"
  shows "read_frame dec (take n (frame enc r)) = Inl (ShortBody (length (enc r)) (n - 4))"
proof -
  have "n - 4 < length (enc r)" using assms(2,3) by arith
  with assms show ?thesis by (simp add: read_frame_def frame_def carried_def be_to_nat_of_be Let_def)
qed

lemma file_recover:
  "bt_get d (sanitize_partition_filename sha p) = Some f \<Longrightarrow> for_frames dec
     (\<lambda>_ r. \<lparr>next_seq = lr_seq r + 1, last_hash = lr_hash r\<rparr>) genesis_state f = Inl e \<Longrightarrow>
   fst (chain_of sha dec p (open_ledger d)) = Inl e"
  by (simp add: chain_of_def open_ledger_def recover_chain_state_def)

text \<open>All records of the directory's ledger files, file after file.\<close>

fun all_records :: "(bytes \<Rightarrow> 'x + ledger_record) \<Rightarrow> directory \<Rightarrow> 'x ledger_error + ledger_record list" where
  "all_records dec [] = Inr []"
| "all_records dec ((n, bs) # es) =
     (if is_ledger_name n
      then ebind (records_of dec bs) (\<lambda>rs. ebind (all_records dec es) (\<lambda>rs'. Inr (rs @ rs')))
      else all_records dec es)"

lemma for_files_fold:
  "all_records dec d = Inr rs \<Longrightarrow> for_files (for_frames dec f) s d = Inr (foldl f s rs)"
proof (induction dec d arbitrary: s rs rule: all_records.induct)
  case (2 dec n bs es)
  then show ?case
    by (cases "is_ledger_name n") (auto simp: ebind_eq_Inr for_frames_fold)
qed simp

lemma sanitize_ledger_name [simp]: "is_ledger_name (sanitize_partition_filename sha p)"
  by (simp add: is_ledger_name_def sanitize_partition_filename_def length_hex_encode)

text \<open>The directory after one more record at the end of a partition's file.\<close>

lemma all_records_insert:
  assumes "bt_sorted d" "all_records dec d = Inr R" "is_ledger_name n"
    and "records_of dec (case bt_get d n of None \<Rightarrow> [] | Some bs \<Rightarrow> bs) = Inr rs"
    and "records_of dec f = Inr (rs @ [r])"
  shows "\<exists>R'. all_records dec (bt_insert n f d) = Inr R' \<and> mset R' = add_mset r (mset R)"
  using assms
proof (induction n f d arbitrary: R rule: bt_insert.induct)
  case (1 k v)
  then have "rs = []" by (simp add: records_of_def)
  with 1 show ?case by simp
next
  case P: (2 k v k' v' m)
  consider "k < k'" | "k = k'" | "\<not> k < k'" "k \<noteq> k'" by blast
  then show ?case
  proof cases
    case 1
    then have "bt_get ((k', v') # m) k = None"
      using P(2) by (auto simp: bt_sorted_Cons bt_get_def map_of_eq_None_iff)
    with P(5) have "rs = []" by (simp add: records_of_def)
    with 1 P(3,4,6) show ?thesis by simp
  next
    case [simp]: 2
    have "records_of dec v' = Inr rs" using P(5) by (simp add: bt_get_def)
    with P(3,4,6) show ?thesis by (auto simp: ebind_eq_Inr)
  next
    case 3
    have get: "bt_get ((k', v') # m) k = bt_get m k" using 3 by (simp add: bt_get_def)
    have "bt_sorted m" using P(2) by (simp add: bt_sorted_Cons)
    show ?thesis
    proof (cases "is_ledger_name k'")
      case True
      with P(3) obtain a b where "records_of dec v' = Inr a" "all_records dec m = Inr b" "R = a @ b"
        by (auto simp: ebind_eq_Inr)
      moreover obtain R' where "all_records dec (bt_insert k v m) = Inr R'" "mset R' = add_mset r (mset b)"
        using P(1) [OF 3 \<open>bt_sorted m\<close> \<open>all_records dec m = Inr b\<close> P(4)] P(5,6) by (auto simp: get)
      ultimately show ?thesis using 3 True by simp
    next
      case False
      then have "all_records dec m = Inr R" using P(3) by simp
      with P(1) [OF 3 \<open>bt_sorted m\<close> this P(4)] P(5,6) 3 False show ?thesis by (simp add: get)
    qed
  qed
qed

text \<open>Lookups in the three indexes: the last command, the first proposal and decision.\<close>

definition entries :: "(ledger_record \<Rightarrow> 'v option) \<Rightarrow> ledger_record list \<Rightarrow> (string \<times> 'v) list" where
  "entries g rs = List.map_filter (\<lambda>r. map_option (Pair (lr_command_id r)) (g r)) rs"

lemma entries_simps [simp]:
  "entries g [] = []"
  "entries g (r # rs) = (case g r of None \<Rightarrow> entries g rs | Some v \<Rightarrow> (lr_command_id r, v) # entries g rs)"
  by (simp_all add: entries_def map_filter_def split: option.splits)

lemma fold_last:
  "bt_get (foldl (\<lambda>m r. case g r of None \<Rightarrow> m | Some v \<Rightarrow> bt_insert (lr_command_id r) v m) m rs) i =
     (case map_of (rev (entries g rs)) i of None \<Rightarrow> bt_get m i | Some v \<Rightarrow> Some v)"
  by (induction rs arbitrary: m) (auto simp: map_add_def split: option.splits)

lemma fold_first:
  "bt_get (foldl (\<lambda>m r. case g r of None \<Rightarrow> m | Some v \<Rightarrow> bt_or_insert (lr_command_id r) v m) m rs) i =
     (case bt_get m i of None \<Rightarrow> map_of (entries g rs) i | Some v \<Rightarrow> Some v)"
  by (induction rs arbitrary: m) (auto split: option.splits)

definition dispatched_key :: "string \<Rightarrow> ledger_record \<Rightarrow> bool" where
  "dispatched_key k r \<longleftrightarrow> has_transition Dispatched r \<and> lr_idempotency_key r = k \<and> k \<noteq> []"

lemma fold_keys:
  "foldl (\<lambda>keys r. if lr_idempotency_key r = [] then keys
      else if has_transition Dispatched r then insert (lr_idempotency_key r) keys else keys) K rs =
   K \<union> {k. \<exists>r \<in> set rs. dispatched_key k r}"
  by (induction rs arbitrary: K) (auto simp: dispatched_key_def)

lemma fold_window:
  "bt_get (foldl (\<lambda>m r. if P r then m else if has_transition Proposed r then bt_bump (lr_command_class r) m else m) m rs) c =
     (let k = length (filter (\<lambda>r. \<not> P r \<and> has_transition Proposed r \<and> lr_command_class r = c) rs)
      in if k = 0 then bt_get m c else Some (k + (case bt_get m c of None \<Rightarrow> 0 | Some n \<Rightarrow> n)))"
  by (induction rs arbitrary: m) (auto simp: Let_def split: option.splits)

lemma window_counts:
  assumes "holds sha enc dec p rs l" "in_i64 (as_of - window)"
  shows "\<exists>m. count_proposed_by_class_in_window sha dec p as_of window l = Inr m \<and>
    (\<forall>c. (case bt_get m c of None \<Rightarrow> 0 | Some k \<Rightarrow> k) =
       length (filter (\<lambda>r. as_of - window < lr_tai_ns r \<and> lr_tai_ns r \<le> as_of \<and>
                            has_transition Proposed r \<and> lr_command_class r = c) rs))"
proof (cases "bt_get (dir l) (sanitize_partition_filename sha p)")
  case None
  with assms have "frames enc rs = []" by (simp add: holds_def file_of_def)
  then have "rs = []" by simp
  with None show ?thesis by (simp add: count_proposed_by_class_in_window_def)
next
  case (Some f)
  with assms have f: "f = frames enc rs" "list_all (carried enc dec) rs" by (simp_all add: holds_def file_of_def)
  show ?thesis
    using Some f(2)
    by (simp add: count_proposed_by_class_in_window_def f(1) for_frames_all fold_window sat_i64_id [OF assms(2)]
        Let_def not_le not_less conj_assoc cong: conj_cong)
qed

lemma append_record:
  fixes dec :: "bytes \<Rightarrow> 'x + ledger_record"
  assumes "holds sha enc dec (meta_partition m) rs l"
    and "ledger_append sha enc dec w m tr d co po now l = (Inr r, l')"
    and "carried enc dec r"
  shows "holds sha enc dec (meta_partition m) (rs @ [r]) l' \<and>
    lr_transition r = Some tr \<and> lr_command r = co \<and> lr_decision r = d \<and> lr_proposal r = po \<and>
    lr_tai_ns r = now \<and> lr_command_id r = meta_command_id m \<and>
    lr_idempotency_key r = meta_idempotency_key m \<and> lr_command_class r = meta_command_class m \<and>
    (\<forall>q qs. sha (string_bytes q) \<noteq> sha (string_bytes (meta_partition m)) \<and> holds sha enc dec q qs l \<longrightarrow>
       holds sha enc dec q qs l')"
proof -
  let ?r = "stamped sha enc (state_after sha enc rs) m tr d co po now"
  have ok: "(check_self_evidence m tr co po :: 'x ledger_error + unit) = Inr ()"
    using assms(2)
    by (cases "check_self_evidence m tr co po :: 'x ledger_error + unit") (simp_all add: ledger_append_def)
  from append_holds [OF assms(1) ok refl, of w d now] obtain l2 where
    a: "ledger_append sha enc dec w m tr d co po now l = ((if w = WriteOk then Inr ?r else Inl WriteFault), l2)"
    and f: "file_of sha (meta_partition m) (dir l2) = snd (append_file w (frames enc rs) (frame enc ?r))"
    and c: "w = WriteOk \<Longrightarrow> bt_get (chains l2) (meta_partition m) =
       Some \<lparr>next_seq = 2 + of_nat (length rs), last_hash = lr_hash ?r\<rparr>"
    and o: "\<And>q qs. sha (string_bytes q) \<noteq> sha (string_bytes (meta_partition m)) \<Longrightarrow>
       holds sha enc dec q qs l \<Longrightarrow> holds sha enc dec q qs l2"
    by metis
  have w: "w = WriteOk" and r: "r = ?r" and l: "l' = l2"
    using a assms(2) by (auto split: if_splits)
  have "holds sha enc dec (meta_partition m) (rs @ [r]) l'"
    using f c [OF w] assms(3)
    by (intro holds_appended [OF assms(1) refl]) (simp_all add: r l w append_file_def)
  then show ?thesis using o by (simp add: l) (simp add: r stamped_def Let_def)
qed

section \<open>Properties\<close>

text \<open>
  C33: an append that returns a record extends exactly its own partition by that record,
  in order and correctly chained, on disk and in the cache, and leaves every other partition
  (of another file) as it was; the record carries what the caller passed.
\<close>

theorem append_extends_chain:
  fixes dec :: "bytes \<Rightarrow> 'x + ledger_record"
  assumes "holds sha enc dec (meta_partition m) rs l"
    and "ledger_append sha enc dec w m tr d co po now l = (Inr r, l')"
    and "carried enc dec r"
  shows "holds sha enc dec (meta_partition m) (rs @ [r]) l' \<and>
    lr_transition r = Some tr \<and> lr_command r = co \<and> lr_decision r = d \<and> lr_proposal r = po \<and>
    lr_tai_ns r = now \<and> lr_command_id r = meta_command_id m \<and>
    lr_idempotency_key r = meta_idempotency_key m \<and> lr_command_class r = meta_command_class m \<and>
    (\<forall>q qs. sha (string_bytes q) \<noteq> sha (string_bytes (meta_partition m)) \<and> holds sha enc dec q qs l \<longrightarrow>
       holds sha enc dec q qs l')"
  using assms by (rule append_record)

text \<open>
  A restart is invisible to the chain: an append after the ledger was closed and opened
  again on the same directory writes the same record and leaves the same files as the append
  of the process that kept its chain state.
\<close>

theorem append_after_restart:
  fixes dec :: "bytes \<Rightarrow> 'x + ledger_record"
  assumes "holds sha enc dec (meta_partition m) rs l"
  shows "fst (ledger_append sha enc dec w m tr d co po now (open_ledger (dir l))) =
      fst (ledger_append sha enc dec w m tr d co po now l) \<and>
    dir (snd (ledger_append sha enc dec w m tr d co po now (open_ledger (dir l)))) =
      dir (snd (ledger_append sha enc dec w m tr d co po now l))"
proof (cases "check_self_evidence m tr co po :: 'x ledger_error + unit")
  case (Inl e)
  then show ?thesis by (simp add: ledger_append_def open_ledger_def)
next
  case (Inr u)
  obtain l1 where 1: "chain_of sha dec (meta_partition m) l = (Inr (state_after sha enc rs), l1)" "dir l1 = dir l"
    using chain_of_holds [OF assms] by metis
  obtain l2 where 2: "chain_of sha dec (meta_partition m) (open_ledger (dir l)) = (Inr (state_after sha enc rs), l2)"
      "dir l2 = dir l"
    using chain_of_holds [OF holds_reopened [OF assms]] by (metis open_ledger_def ledger.simps(1))
  show ?thesis
    by (cases w) (simp_all add: ledger_append_def Inr 1 2 Let_def append_file_def)
qed









text \<open>
  Tamper evidence: two files of the same partition that both verify, with as many
  records and the same last hash, hold the same records, unless SHA-256 collides on the
  inputs the two chains hash. No record can be edited, dropped or reordered under a kept
  head.
\<close>

theorem chain_head_determines_records:
  assumes "records_of dec f = Inr rs" "cv_ok (verify_loop sha enc dec p genesis 1 0 f)"
    and "records_of dec f' = Inr rs'" "cv_ok (verify_loop sha enc dec p genesis 1 0 f')"
    and "length rs = length rs'" "last_hash (state_after sha enc rs) = last_hash (state_after sha enc rs')"
    and "\<forall>r \<in> set rs \<union> set rs'. dec (enc (stripped r)) = Inr (stripped r)"
    and "inj_on sha (chain_inputs (chain_link sha enc) (\<lambda>r. enc (stripped r)) genesis rs \<union>
                     chain_inputs (chain_link sha enc) (\<lambda>r. enc (stripped r)) genesis rs')"
  shows "rs = rs'"
proof -
  have "chained sha enc p genesis 1 rs" "chained sha enc p genesis 1 rs'"
    using assms(1-4) verify_loop_exact [of sha enc dec p genesis 1 0] by auto
  moreover have "map (\<lambda>r. enc (stripped r)) rs = map (\<lambda>r. enc (stripped r)) rs'"
    using assms(6) by (intro ledger_chain.head_determines [OF assms(5) _ assms(8)]) (simp add: state_after_def)
  ultimately show ?thesis using assms(7) by (rule chained_bodies)
qed

text \<open>
  An append whose write failed is reported, and what it left is visible or harmless: less
  than the length prefix is read as the end of the file, a cut body is found by \<open>verify\<close> and
  by the recovery of a restarted ledger, and if all bytes arrived (the flush failed) the
  restarted ledger holds the record.
\<close>

theorem torn_append:
  fixes dec :: "bytes \<Rightarrow> 'x + ledger_record"
  assumes h: "holds sha enc dec (meta_partition m) rs l"
    and ok: "(check_self_evidence m tr co po :: 'x ledger_error + unit) = Inr ()"
    and r: "r = stamped sha enc (state_after sha enc rs) m tr d co po now" "carried enc dec r"
  shows "\<exists>l'. ledger_append sha enc dec (WriteFail n) m tr d co po now l = (Inl WriteFault, l') \<and>
    (n < 4 \<longrightarrow> records_of dec (file_of sha (meta_partition m) (dir l')) = Inr rs) \<and>
    (4 \<le> n \<and> n < 4 + length (enc r) \<longrightarrow>
       \<not> cv_ok (ledger_verify sha enc dec (meta_partition m) l') \<and>
       fst (chain_of sha dec (meta_partition m) (open_ledger (dir l'))) = Inl (ShortBody (length (enc r)) (n - 4))) \<and>
    (4 + length (enc r) \<le> n \<longrightarrow> holds sha enc dec (meta_partition m) (rs @ [r]) (open_ledger (dir l')))"
proof -
  let ?p = "meta_partition m"
  from append_holds [OF h ok r(1), of "WriteFail n"] obtain l' where
    a: "ledger_append sha enc dec (WriteFail n) m tr d co po now l = (Inl WriteFault, l')"
    and f: "file_of sha ?p (dir l') = frames enc rs @ take n (frame enc r)"
    by (simp add: append_file_def) metis
  have c: "list_all (carried enc dec) rs" "chained sha enc ?p genesis 1 rs" using h by (simp_all add: holds_def)
  have len: "length (frame enc r) = 4 + length (enc r)" by (simp add: frame_def)
  have "records_of dec (file_of sha ?p (dir l')) = Inr rs" if "n < 4"
  proof -
    have "foldl (\<lambda>rs r. rs @ [r]) acc xs = acc @ xs" for acc xs :: "ledger_record list"
      by (induction xs arbitrary: acc) simp_all
    then show ?thesis using that c(1) by (simp add: f records_of_def)
  qed
  moreover have "\<not> cv_ok (ledger_verify sha enc dec ?p l') \<and>
      fst (chain_of sha dec ?p (open_ledger (dir l'))) = Inl (ShortBody (length (enc r)) (n - 4))"
    if n: "4 \<le> n \<and> n < 4 + length (enc r)"
  proof -
    have e: "for_frames dec g s (file_of sha ?p (dir l')) = Inl (ShortBody (length (enc r)) (n - 4))" for g and s :: 's
      using c(1) n read_frame_torn [OF r(2), of n] by (simp add: f for_frames_unfold)
    have "file_of sha ?p (dir l') \<noteq> []" using n len by (simp add: f flip: length_0_conv)
    then have "bt_get (dir l') (sanitize_partition_filename sha ?p) = Some (file_of sha ?p (dir l'))"
      by (simp add: file_of_def split: option.splits)
    then have "fst (chain_of sha dec ?p (open_ledger (dir l'))) = Inl (ShortBody (length (enc r)) (n - 4))"
      by (rule file_recover) (rule e)
    moreover have "\<not> cv_ok (ledger_verify sha enc dec ?p l')"
    proof (cases "bt_get (dir l') (sanitize_partition_filename sha ?p)")
      case None
      with \<open>file_of sha ?p (dir l') \<noteq> []\<close> show ?thesis by (simp add: file_of_def)
    next
      case (Some g)
      then show ?thesis
        using verify_loop_exact [of sha enc dec ?p genesis 1 0 g] e [of "\<lambda>rs r. rs @ [r]" "[]"]
        by (simp add: ledger_verify_def file_of_def records_of_def)
    qed
    ultimately show ?thesis by blast
  qed
  moreover have "holds sha enc dec ?p (rs @ [r]) (open_ledger (dir l'))" if "4 + length (enc r) \<le> n"
  proof -
    have "chained sha enc ?p genesis 1 (rs @ [r])" unfolding r(1) using c(2) by (rule stamped_chained) simp
    then show ?thesis using that c r(2) f len by (simp add: holds_def open_ledger_def)
  qed
  ultimately show ?thesis using a by blast
qed

text \<open>
  The rate a policy sees is the number of commands of a class proposed in the half-open
  window that ends now, counted from the partition's own records.
\<close>

theorem window_counts_proposals:
  assumes "holds sha enc dec p rs l" "in_i64 (as_of - window)"
  shows "\<exists>m. count_proposed_by_class_in_window sha dec p as_of window l = Inr m \<and>
    (\<forall>c. (case bt_get m c of None \<Rightarrow> 0 | Some k \<Rightarrow> k) =
       length (filter (\<lambda>r. as_of - window < lr_tai_ns r \<and> lr_tai_ns r \<le> as_of \<and>
                            has_transition Proposed r \<and> lr_command_class r = c) rs))"
  using assms by (rule window_counts)

text \<open>
  What a restart reads back: from the records of all ledger files, the keys of dispatched
  records, the last command stored under each id, and the first proposal and first decision.
\<close>

theorem scans_exact:
  assumes "all_records dec d = Inr rs"
  shows "scan_dispatched_idempotency_keys dec d = Inr {k. \<exists>r \<in> set rs. dispatched_key k r} \<and>
    (\<exists>m. scan_commands dec d = Inr m \<and> (\<forall>i. bt_get m i = map_of (rev (entries lr_command rs)) i)) \<and>
    (\<exists>m. scan_proposals dec d = Inr m \<and> (\<forall>i. bt_get m i = map_of (entries lr_proposal rs) i)) \<and>
    (\<exists>m. scan_decisions dec d = Inr m \<and> (\<forall>i. bt_get m i = map_of (entries lr_decision rs) i))"
  unfolding scan_dispatched_idempotency_keys_def scan_commands_def scan_proposals_def scan_decisions_def
    for_files_fold [OF assms] fold_keys
  by (simp add: fold_last fold_first split: option.splits)

section \<open>Witnesses\<close>

text \<open>One record at the head of a partition, under a constant hash and a one-record codec.\<close>

definition sample_meta :: command_meta where
  "sample_meta =
     \<lparr>meta_partition = ''sat'', meta_command_id = ''c1'', meta_command_class = ''burn'', meta_idempotency_key = ''k1''\<rparr>"

definition sample_transition :: command_transition where
  "sample_transition =
     \<lparr>tr_state = 1, tr_tai_ns = 5, tr_principal = ''m'', tr_reason = ''r'', tr_ack_level = 0, tr_delegation_id = []\<rparr>"

definition sample_sha :: "bytes \<Rightarrow> digest" where "sample_sha bs = 0"

definition sample_enc :: "ledger_record \<Rightarrow> bytes" where
  "sample_enc r = (if lr_hash r = [] then [0] else [1])"

definition sample_record :: ledger_record where
  "sample_record =
     stamped sample_sha sample_enc (state_after sample_sha sample_enc []) sample_meta sample_transition None None None 5"

definition sample_dec :: "bytes \<Rightarrow> unit + ledger_record" where
  "sample_dec bs = Inr (if bs = [0] then stripped sample_record else sample_record)"

lemma sample_hash: "lr_hash sample_record \<noteq> []"
  by (simp add: sample_record_def stamped_def compute_hash_def Let_def flip: length_0_conv)

lemma sample_carried: "carried sample_enc sample_dec sample_record"
  by (simp add: carried_def sample_enc_def sample_dec_def sample_hash)

lemma sample_evidence: "check_self_evidence sample_meta sample_transition None None = Inr ()"
  by (simp add: check_self_evidence_def)

lemma sample_append:
  obtains l where
    "ledger_append sample_sha sample_enc sample_dec WriteOk sample_meta sample_transition None None None 5
       (open_ledger []) = (Inr sample_record, l)"
    "holds sample_sha sample_enc sample_dec ''sat'' [sample_record] l"
proof -
  have h: "holds sample_sha sample_enc sample_dec (meta_partition sample_meta) [] (open_ledger [])"
    by (rule holds_empty)
  from append_holds [OF h sample_evidence sample_record_def, of WriteOk] obtain l where
    "ledger_append sample_sha sample_enc sample_dec WriteOk sample_meta sample_transition None None None 5
       (open_ledger []) = (Inr sample_record, l)"
    "file_of sample_sha (meta_partition sample_meta) (dir l) = frame sample_enc sample_record"
    "bt_get (chains l) (meta_partition sample_meta) = Some \<lparr>next_seq = 2, last_hash = lr_hash sample_record\<rparr>"
    by (simp add: append_file_def) metis
  with holds_appended [OF h refl sample_record_def sample_carried] that show ?thesis
    by (simp add: sample_meta_def)
qed

theorem append_extends_chain_witness:
  "\<exists>l. ledger_append sample_sha sample_enc sample_dec WriteOk sample_meta sample_transition None None None 5
      (open_ledger []) = (Inr sample_record, l) \<and>
    holds sample_sha sample_enc sample_dec ''sat'' [sample_record] l"
proof -
  obtain l where l: "ledger_append sample_sha sample_enc sample_dec WriteOk sample_meta sample_transition
      None None None 5 (open_ledger []) = (Inr sample_record, l)"
    by (rule sample_append)
  have "holds sample_sha sample_enc sample_dec (meta_partition sample_meta) [] (open_ledger [])"
    by (rule holds_empty)
  from append_extends_chain [OF this l sample_carried] l show ?thesis
    by (auto simp: sample_meta_def)
qed

theorem append_after_restart_witness:
  "\<exists>l. holds sample_sha sample_enc sample_dec ''sat'' [sample_record] l \<and>
    fst (ledger_append sample_sha sample_enc sample_dec WriteOk sample_meta sample_transition None None None 6
           (open_ledger (dir l))) =
    fst (ledger_append sample_sha sample_enc sample_dec WriteOk sample_meta sample_transition None None None 6 l)"
proof -
  obtain l where l: "holds sample_sha sample_enc sample_dec ''sat'' [sample_record] l"
    by (rule sample_append)
  then have "holds sample_sha sample_enc sample_dec (meta_partition sample_meta) [sample_record] l"
    by (simp add: sample_meta_def)
  from append_after_restart [OF this] l show ?thesis by blast
qed


theorem chain_head_determines_records_witness:
  "\<exists>f. cv_ok (verify_loop sample_sha sample_enc sample_dec ''sat'' genesis 1 0 f) \<and> [sample_record] = [sample_record]"
proof -
  obtain l where l: "holds sample_sha sample_enc sample_dec ''sat'' [sample_record] l"
    by (rule sample_append)
  let ?f = "frames sample_enc [sample_record]"
  have r: "records_of sample_dec ?f = Inr [sample_record]"
    by (rule records_of_frames) (simp add: sample_carried)
  have v: "cv_ok (verify_loop sample_sha sample_enc sample_dec ''sat'' genesis 1 0 ?f)"
    using l r verify_loop_exact [of sample_sha sample_enc sample_dec "''sat''" genesis 1 0 ?f]
    by (auto simp: holds_def)
  have "[sample_record] = [sample_record]"
    by (rule chain_head_determines_records [OF r v r v])
      (simp_all add: sample_enc_def sample_dec_def chain_inputs_def sample_hash lessThan_Suc)
  with v show ?thesis by blast
qed

theorem torn_append_witness:
  "\<exists>l. ledger_append sample_sha sample_enc sample_dec (WriteFail 4) sample_meta sample_transition None None None 5
      (open_ledger []) = (Inl WriteFault, l) \<and>
    \<not> cv_ok (ledger_verify sample_sha sample_enc sample_dec ''sat'' l)"
proof -
  have h: "holds sample_sha sample_enc sample_dec (meta_partition sample_meta) [] (open_ledger [])"
    by (rule holds_empty)
  have "4 < 4 + length (sample_enc sample_record)" by (simp add: sample_enc_def)
  with torn_append [OF h sample_evidence sample_record_def sample_carried, of 4] show ?thesis
    by (auto simp: sample_meta_def)
qed

theorem window_counts_proposals_witness:
  "\<exists>l m. count_proposed_by_class_in_window sample_sha sample_dec ''sat'' 10 100 l = Inr m \<and> bt_get m ''burn'' = Some 1"
proof -
  obtain l where l: "holds sample_sha sample_enc sample_dec ''sat'' [sample_record] l"
    by (rule sample_append)
  have "in_i64 (10 - 100)" by (simp add: in_i64_def i64_min_def i64_max_def)
  moreover have "has_transition Proposed sample_record" "lr_tai_ns sample_record = 5"
      "lr_command_class sample_record = ''burn''"
    by (simp_all add: sample_record_def stamped_def has_transition_def sample_transition_def sample_meta_def Let_def)
  ultimately obtain m where "count_proposed_by_class_in_window sample_sha sample_dec ''sat'' 10 100 l = Inr m"
      "(case bt_get m ''burn'' of None \<Rightarrow> 0 | Some k \<Rightarrow> k) = 1"
    using window_counts_proposals [OF l, of 10 100] by fastforce
  then show ?thesis by (auto split: option.splits)
qed

theorem scans_exact_witness:
  "\<exists>r. scan_dispatched_idempotency_keys (\<lambda>_. Inr r :: unit + ledger_record)
     [(''a.ledger'', frame (\<lambda>_. [1]) r)] = Inr {''k1''}"
proof -
  let ?r = "sample_record\<lparr>lr_transition := Some (sample_transition\<lparr>tr_state := 4\<rparr>)\<rparr>"
  let ?dec = "\<lambda>_. Inr ?r :: unit + ledger_record"
  have "records_of ?dec (frames (\<lambda>_. [1]) [?r]) = Inr [?r]"
    by (rule records_of_frames) (simp add: carried_def)
  then have all: "all_records ?dec [(''a.ledger'', frame (\<lambda>_. [1]) ?r)] = Inr [?r]"
    by (simp add: is_ledger_name_def)
  have "lr_idempotency_key sample_record = ''k1''"
    by (simp add: sample_record_def stamped_def sample_meta_def Let_def)
  then have "{k. \<exists>r \<in> set [?r]. dispatched_key k r} = {''k1''}"
    by (auto simp: dispatched_key_def has_transition_def)
  with scans_exact [OF all] show ?thesis by (intro exI [of _ ?r]) (simp only:)
qed

end
