(* ===== verification/Command_Authority.thy ===== *)
theory Command_Authority
  imports Command_Ledger
begin

text \<open>
  \<open>crates/av-command/src/authority.rs\<close> and \<open>rate.rs\<close>: the check edge, which evaluates policy
  over a proposed command, moves it to CHECKED or REJECTED and appends the decision to the
  ledger, and the text form of a decision in a transition's reason. The clock is read four
  times, once per argument \<open>t\<close>.
\<close>

section \<open>The rate source\<close>

text \<open>
  The trait's contract, over the proposals a source knows of: counts are per class, over the
  half-open window that ends now.
\<close>

locale rate_source =
  fixes counts :: "'s \<Rightarrow> string \<Rightarrow> i64 \<Rightarrow> i64 \<Rightarrow> 'e + (string, nat) btree"
    and proposals :: "'s \<Rightarrow> string \<Rightarrow> (i64 \<times> string) list"
    and readable :: "'s \<Rightarrow> string \<Rightarrow> bool"
  assumes counts_window:
    "readable s p \<Longrightarrow> in_i64 (as_of - window) \<Longrightarrow>
     \<exists>m. counts s p as_of window = Inr m \<and>
       (\<forall>c. (case bt_get m c of None \<Rightarrow> 0 | Some k \<Rightarrow> k) =
          length (filter (\<lambda>(t, d). as_of - window < t \<and> t \<le> as_of \<and> d = c) (proposals s p)))"
begin

lemma counts_total: "readable s p \<Longrightarrow> in_i64 (as_of - window) \<Longrightarrow> \<exists>m. counts s p as_of window = Inr m"
  using counts_window by blast

lemma counts_monotone:
  assumes "readable s p" "in_i64 (as_of - w)" "in_i64 (as_of - w')" "w \<le> w'"
    and "counts s p as_of w = Inr m" "counts s p as_of w' = Inr m'"
  shows "(case bt_get m c of None \<Rightarrow> 0 | Some k \<Rightarrow> k) \<le> (case bt_get m' c of None \<Rightarrow> 0 | Some k \<Rightarrow> k)"
proof -
  have "length (filter (\<lambda>(t, d). as_of - w < t \<and> t \<le> as_of \<and> d = c) xs) \<le>
      length (filter (\<lambda>(t, d). as_of - w' < t \<and> t \<le> as_of \<and> d = c) xs)" for xs
    using assms(4) by (induction xs) (auto intro: le_SucI)
  then show ?thesis
    using counts_window [OF assms(1,2)] counts_window [OF assms(1,3)] assms(5,6) by auto
qed

end

definition ledger_counts_by_class ::
  "(bytes \<Rightarrow> digest) \<Rightarrow> (bytes \<Rightarrow> 'x + ledger_record) \<Rightarrow> ledger \<Rightarrow> string \<Rightarrow> i64 \<Rightarrow> i64 \<Rightarrow>
     'x ledger_error + (string, nat) btree" where
  "ledger_counts_by_class sha dec l p as_of window = count_proposed_by_class_in_window sha dec p as_of window l"

definition recorded_proposals ::
  "(bytes \<Rightarrow> digest) \<Rightarrow> (bytes \<Rightarrow> 'x + ledger_record) \<Rightarrow> ledger \<Rightarrow> string \<Rightarrow> (i64 \<times> string) list" where
  "recorded_proposals sha dec l p =
     (case records_of dec (file_of sha p (dir l)) of
        Inl e \<Rightarrow> []
      | Inr rs \<Rightarrow> map (\<lambda>r. (lr_tai_ns r, lr_command_class r)) (filter (has_transition Proposed) rs))"

interpretation ledger_rate: rate_source "ledger_counts_by_class sha dec" "recorded_proposals sha dec"
  "\<lambda>l p. \<exists>rs. holds sha enc dec p rs l"
  for sha enc dec
proof unfold_locales
  fix l p as_of window
  assume "\<exists>rs. holds sha enc dec p rs l" and w: "in_i64 (as_of - window)"
  then obtain rs where h: "holds sha enc dec p rs l" by blast
  then have "records_of dec (file_of sha p (dir l)) = Inr rs"
    using records_of_frames [of enc dec rs] by (simp add: holds_def)
  then have "length (filter (\<lambda>(t, d). as_of - window < t \<and> t \<le> as_of \<and> d = c) (recorded_proposals sha dec l p)) =
      length (filter (\<lambda>r. as_of - window < lr_tai_ns r \<and> lr_tai_ns r \<le> as_of \<and>
        has_transition Proposed r \<and> lr_command_class r = c) rs)" for c
    by (simp add: recorded_proposals_def filter_map comp_def conj_commute conj_left_commute)
  then show "\<exists>m. ledger_counts_by_class sha dec l p as_of window = Inr m \<and>
      (\<forall>c. (case bt_get m c of None \<Rightarrow> 0 | Some k \<Rightarrow> k) =
        length (filter (\<lambda>(t, d). as_of - window < t \<and> t \<le> as_of \<and> d = c) (recorded_proposals sha dec l p)))"
    using window_counts [OF h w] by (simp add: ledger_counts_by_class_def)
qed

section \<open>Reasons\<close>

definition format_reason :: "policy_decision \<Rightarrow> string" where
  "format_reason d =
     ''decision_id='' @ decision_id d @ '' policy_hash='' @ policy_hash d @ '' allow='' @ show_bool (allow d) @
     (if reasons d = [] then [] else '' reasons='' @ join ''|'' (reasons d))"

record parsed_reason =
  pr_decision_id :: string
  pr_policy_hash :: string
  pr_allow :: bool
  pr_reasons :: "string list"

fun split_once :: "string \<Rightarrow> string \<Rightarrow> (string \<times> string) option" where
  "split_once pat [] = (if pat = [] then Some ([], []) else None)"
| "split_once pat (c # s) =
     (if take (length pat) (c # s) = pat then Some ([], drop (length pat) (c # s))
      else map_option (\<lambda>(a, b). (c # a, b)) (split_once pat s))"

text \<open>\<open>split_whitespace\<close>, at ASCII white space: maximal runs of other characters.\<close>

definition is_space :: "char \<Rightarrow> bool" where
  "is_space c \<longleftrightarrow> (of_char c :: nat) \<in> {9, 10, 11, 12, 13, 32}"

fun split_whitespace :: "string \<Rightarrow> string list" where
  "split_whitespace [] = []"
| "split_whitespace (c # s) =
     (if is_space c then split_whitespace s
      else case s of
          [] \<Rightarrow> [[c]]
        | d # _ \<Rightarrow>
            if is_space d then [c] # split_whitespace s
            else (case split_whitespace s of [] \<Rightarrow> [[c]] | w # ws \<Rightarrow> (c # w) # ws))"

definition strip_prefix :: "string \<Rightarrow> string \<Rightarrow> string option" where
  "strip_prefix p s = (if take (length p) s = p then Some (drop (length p) s) else None)"

definition read_token ::
  "string option \<times> string option \<times> bool option \<Rightarrow> string \<Rightarrow> string option \<times> string option \<times> bool option" where
  "read_token acc token =
     (case acc of (did, ph, al) \<Rightarrow>
        case strip_prefix ''decision_id='' token of
          Some v \<Rightarrow> (Some v, ph, al)
        | None \<Rightarrow>
            (case strip_prefix ''policy_hash='' token of
               Some v \<Rightarrow> (did, Some v, al)
             | None \<Rightarrow>
                 (case strip_prefix ''allow='' token of
                    Some v \<Rightarrow> (did, ph, Some (v = ''true''))
                  | None \<Rightarrow> (did, ph, al))))"

definition parse_reason :: "string \<Rightarrow> parsed_reason option" where
  "parse_reason s =
     (let (head, tail) = (case split_once '' reasons='' s of
            Some (h, t) \<Rightarrow> (h, Some t) | None \<Rightarrow> (s, None));
          (did, ph, al) = foldl read_token (None, None, None) (split_whitespace head);
          rs = (case tail of Some t \<Rightarrow> split_on CHR ''|'' t | None \<Rightarrow> [])
      in case (did, ph, al) of
           (Some i, Some h, Some a) \<Rightarrow>
             Some \<lparr>pr_decision_id = i, pr_policy_hash = h, pr_allow = a, pr_reasons = rs\<rparr>
         | _ \<Rightarrow> None)"

section \<open>The check edge\<close>

abbreviation policy_principal :: string where "policy_principal \<equiv> ''policy''"

datatype 'x check_command_error = CheckState command_error | CheckIo "'x ledger_error"

record check_command_result =
  res_command :: command
  res_decision :: policy_decision

definition check_input :: "command \<Rightarrow> (string, nat) btree \<Rightarrow> i64 \<Rightarrow> policy_input" where
  "check_input c counts window =
     \<lparr>pi_command_id = cmd_id c, pi_entity_id = entity_id c, pi_command_class = command_class c,
      pi_hazardous = hazardous c, pi_envelope_id = envelope_id c, pi_label = cmd_label c,
      pi_rate = Some \<lparr>counts_by_class = counts, window_ns = window\<rparr>\<rparr>"

definition meta_of :: "command \<Rightarrow> command_meta" where
  "meta_of c =
     \<lparr>meta_partition = entity_id c, meta_command_id = cmd_id c, meta_command_class = command_class c,
      meta_idempotency_key = idempotency_key c\<rparr>"

text \<open>The environment a check runs in: hash, codec, JSON printer, engine and bundle.\<close>

record 'x check_env =
  env_sha :: "bytes \<Rightarrow> digest"
  env_enc :: "ledger_record \<Rightarrow> bytes"
  env_dec :: "bytes \<Rightarrow> 'x + ledger_record"
  env_json :: "json \<Rightarrow> string"
  env_engine :: rego_engine
  env_bundle :: policy_bundle
  env_window :: i64

definition decide :: "'x check_env \<Rightarrow> command \<Rightarrow> (string, nat) btree \<Rightarrow> i64 \<Rightarrow> policy_decision" where
  "decide env c counts t =
     evaluate (env_sha env) (env_json env) (env_engine env) (env_bundle env)
       (check_input c counts (env_window env)) t"

definition checked_or_rejected :: "command \<Rightarrow> policy_decision \<Rightarrow> i64 \<Rightarrow> command_error + command" where
  "checked_or_rejected c d t =
     (if allow d then check c policy_principal (format_reason d) t
      else reject c policy_principal (format_reason d) t)"

definition check_command ::
  "'x check_env \<Rightarrow> (string \<Rightarrow> i64 \<Rightarrow> i64 \<Rightarrow> 'x ledger_error + (string, nat) btree) \<Rightarrow> write_outcome \<Rightarrow>
     i64 \<Rightarrow> i64 \<Rightarrow> i64 \<Rightarrow> i64 \<Rightarrow> command \<Rightarrow> ledger \<Rightarrow>
     ('x check_command_error + check_command_result) \<times> ledger" where
  "check_command env rate w t1 t2 t3 t4 c l =
     try_then (map_err CheckIo (rate (entity_id c) t1 (env_window env)), l) (\<lambda>counts l.
     let d = decide env c counts t2 in
     try_then (map_err CheckState (checked_or_rejected c d t3), l) (\<lambda>c' l.
     case ledger_append (env_sha env) (env_enc env) (env_dec env) w (meta_of c') (last (transitions c'))
            (Some d) (Some c') None t4 l of
       (Inl e, l') \<Rightarrow> (Inl (CheckIo e), l')
     | (Inr r, l') \<Rightarrow> (Inr \<lparr>res_command = c', res_decision = d\<rparr>, l')))"

text \<open>The record a completed check adds to a partition that held \<open>rs\<close>.\<close>

definition check_record :: "'x check_env \<Rightarrow> ledger_record list \<Rightarrow> i64 \<Rightarrow> check_command_result \<Rightarrow> ledger_record" where
  "check_record env rs t res =
     stamped (env_sha env) (env_enc env) (state_after (env_sha env) (env_enc env) rs) (meta_of (res_command res))
       (last (transitions (res_command res))) (Some (res_decision res)) (Some (res_command res)) None t"

section \<open>Lemmas\<close>

lemma split_once_skip:
  "\<forall>c \<in> set a. c \<noteq> p \<Longrightarrow>
   split_once (p # ps) (a @ s) = map_option (\<lambda>(x, y). (a @ x, y)) (split_once (p # ps) s)"
  by (induction a; cases "split_once (p # ps) s") auto

lemma split_once_here: "p \<noteq> [] \<Longrightarrow> split_once p (p @ s) = Some ([], s)"
  by (cases p) simp_all

lemma split_whitespace_Cons:
  "is_space c \<Longrightarrow> split_whitespace (c # s) = split_whitespace s"
  "\<not> is_space c \<Longrightarrow> split_whitespace [c] = [[c]]"
  "\<not> is_space c \<Longrightarrow> is_space d \<Longrightarrow> split_whitespace (c # d # s) = [c] # split_whitespace s"
  "\<not> is_space c \<Longrightarrow> \<not> is_space d \<Longrightarrow> split_whitespace (d # s) = w # ws \<Longrightarrow>
   split_whitespace (c # d # s) = (c # w) # ws"
  by (simp_all del: split_whitespace.simps add: split_whitespace.simps(2) [of c] split_whitespace.simps(1)
      split_whitespace.simps(2) [of d])

declare split_whitespace.simps(2) [simp del]

lemma split_whitespace_append:
  "w \<noteq> [] \<Longrightarrow> \<forall>c \<in> set w. \<not> is_space c \<Longrightarrow> is_space b \<Longrightarrow>
   split_whitespace (w @ b # s) = w # split_whitespace s"
proof (induction w)
  case (Cons c w)
  then show ?case by (cases w) (simp_all add: split_whitespace_Cons)
qed simp

lemma split_whitespace_word:
  "w \<noteq> [] \<Longrightarrow> \<forall>c \<in> set w. \<not> is_space c \<Longrightarrow> split_whitespace w = [w]"
proof (induction w)
  case (Cons c w)
  then show ?case by (cases w) (simp_all add: split_whitespace_Cons)
qed simp

lemma strip_prefix_append [simp]: "strip_prefix p (p @ s) = Some s"
  by (simp add: strip_prefix_def)

definition plain_word :: "string \<Rightarrow> bool" where
  "plain_word w \<longleftrightarrow> (\<forall>c \<in> set w. \<not> is_space c)"

lemma plain_no_blank: "plain_word w \<Longrightarrow> \<forall>c \<in> set w. c \<noteq> CHR '' ''"
  by (auto simp: plain_word_def is_space_def)

text \<open>The head of a formatted reason: three words, and no \<open> reasons=\<close> among them.\<close>

definition reason_head :: "string \<Rightarrow> string \<Rightarrow> bool \<Rightarrow> string" where
  "reason_head i h a =
     (''decision_id='' @ i) @ CHR '' '' # (''policy_hash='' @ h) @ CHR '' '' # (''allow='' @ show_bool a)"

lemma format_reason_head:
  "format_reason d = reason_head (decision_id d) (policy_hash d) (allow d) @
     (if reasons d = [] then [] else '' reasons='' @ join ''|'' (reasons d))"
  by (simp add: format_reason_def reason_head_def)

lemma words_plain:
  "plain_word i \<Longrightarrow> plain_word (''decision_id='' @ i)"
  "plain_word i \<Longrightarrow> plain_word (''policy_hash='' @ i)"
  "plain_word (''allow='' @ show_bool a)"
  by (auto simp: plain_word_def is_space_def show_bool_def)

lemma head_words:
  assumes "plain_word i" "plain_word h"
  shows "split_whitespace (reason_head i h a) =
    [''decision_id='' @ i, ''policy_hash='' @ h, ''allow='' @ show_bool a]"
proof -
  have b: "is_space (CHR '' '')" by (simp add: is_space_def)
  have 1: "split_whitespace ((''decision_id='' @ i) @ CHR '' '' # s) = (''decision_id='' @ i) # split_whitespace s"
    and 2: "split_whitespace ((''policy_hash='' @ h) @ CHR '' '' # s) = (''policy_hash='' @ h) # split_whitespace s"
    for s
    by (rule split_whitespace_append [OF _ _ b], simp,
        use words_plain(1) [OF assms(1)] words_plain(2) [OF assms(2)] in \<open>simp only: plain_word_def\<close>)+
  have 3: "split_whitespace (''allow='' @ show_bool a) = [''allow='' @ show_bool a]"
    by (rule split_whitespace_word, simp, use words_plain(3) [of a] in \<open>simp only: plain_word_def\<close>)
  show ?thesis unfolding reason_head_def 1 2 3 ..
qed

lemma head_tokens:
  "foldl read_token (None, None, None) [''decision_id='' @ i, ''policy_hash='' @ h, ''allow='' @ show_bool a] =
     (Some i, Some h, Some a)"
  by (simp add: read_token_def strip_prefix_def show_bool_def)

lemma split_once_blank:
  "w \<noteq> [] \<Longrightarrow> hd w \<noteq> CHR ''r'' \<Longrightarrow>
   split_once '' reasons='' (CHR '' '' # w @ z) =
   map_option (\<lambda>(x, y). (CHR '' '' # x, y)) (split_once '' reasons='' (w @ z))"
  by (cases w) simp_all

lemma head_split:
  assumes "plain_word i" "plain_word h"
  shows "split_once '' reasons='' (reason_head i h a @ s) =
    map_option (\<lambda>(x, y). (reason_head i h a @ x, y)) (split_once '' reasons='' s)"
proof -
  define A B C where abc: "A = ''decision_id='' @ i" "B = ''policy_hash='' @ h" "C = ''allow='' @ show_bool a"
  have w: "plain_word A" "plain_word B" "plain_word C"
    using words_plain assms by (simp_all only: abc)
  have hd: "B \<noteq> []" "hd B \<noteq> CHR ''r''" "C \<noteq> []" "hd C \<noteq> CHR ''r''"
    by (simp_all add: abc)
  have skip: "split_once '' reasons='' (w @ z) = map_option (\<lambda>(x, y). (w @ x, y)) (split_once '' reasons='' z)"
    if "plain_word w" for w z
    using split_once_skip [of w] plain_no_blank [OF that] by blast
  have head: "reason_head i h a @ x = A @ CHR '' '' # B @ CHR '' '' # C @ x" for x
    by (simp add: reason_head_def abc)
  show ?thesis
    unfolding head skip [OF w(1)] split_once_blank [OF hd(1,2)] skip [OF w(2)]
      split_once_blank [OF hd(3,4)] skip [OF w(3)]
    by (cases "split_once '' reasons='' s") (simp_all del: split_once.simps add: case_prod_beta)
qed

lemma parse_reason_head:
  assumes "plain_word i" "plain_word h"
  shows "parse_reason (reason_head i h a) =
      Some \<lparr>pr_decision_id = i, pr_policy_hash = h, pr_allow = a, pr_reasons = []\<rparr>"
    and "parse_reason (reason_head i h a @ '' reasons='' @ t) =
      Some \<lparr>pr_decision_id = i, pr_policy_hash = h, pr_allow = a, pr_reasons = split_on CHR ''|'' t\<rparr>"
proof -
  have 1: "split_once '' reasons='' (reason_head i h a) = None"
    using head_split [OF assms, of a "[]"] by simp
  have "split_once '' reasons='' ('' reasons='' @ t) = Some ([], t)"
    by (rule split_once_here) simp
  then have 2: "split_once '' reasons='' (reason_head i h a @ '' reasons='' @ t) = Some (reason_head i h a, t)"
    unfolding head_split [OF assms] by (simp del: split_once.simps)
  show "parse_reason (reason_head i h a) =
      Some \<lparr>pr_decision_id = i, pr_policy_hash = h, pr_allow = a, pr_reasons = []\<rparr>"
    unfolding parse_reason_def 1 option.case prod.case Let_def head_words [OF assms] head_tokens ..
  show "parse_reason (reason_head i h a @ '' reasons='' @ t) =
      Some \<lparr>pr_decision_id = i, pr_policy_hash = h, pr_allow = a, pr_reasons = split_on CHR ''|'' t\<rparr>"
    unfolding parse_reason_def 2 option.case prod.case Let_def head_words [OF assms] head_tokens ..
qed

text \<open>A command that was checked or rejected is its own evidence for the ledger.\<close>

lemma decided_evidence:
  "checked_or_rejected c d t = Inr c' \<Longrightarrow> check_self_evidence m (last (transitions c')) (Some c') None = Inr ()"
  by (auto simp: checked_or_rejected_def edge_Inr check_self_evidence_def transitions_push split: if_splits)

lemma decided_state:
  "checked_or_rejected c d t = Inr c' \<longleftrightarrow>
     current_state c \<in> (if allow d then {Proposed} else {Proposed, Checked}) \<and>
     c' = push_transition c (if allow d then Checked else Rejected) policy_principal (format_reason d)
            AckUnspecified [] t"
  by (auto simp: checked_or_rejected_def edge_Inr)

lemma check_command_cases:
  assumes "check_command env rate w t1 t2 t3 t4 c l = (Inr res, l')"
  obtains counts r where "rate (entity_id c) t1 (env_window env) = Inr counts"
    "res_decision res = decide env c counts t2"
    "checked_or_rejected c (res_decision res) t3 = Inr (res_command res)"
    "ledger_append (env_sha env) (env_enc env) (env_dec env) w (meta_of (res_command res))
       (last (transitions (res_command res))) (Some (res_decision res)) (Some (res_command res)) None t4 l = (Inr r, l')"
  using assms
  by (auto simp: check_command_def try_then_eq_Inr Let_def map_err_def split: sum.splits prod.splits)

section \<open>Properties\<close>

text \<open>
  The reason text of a policy transition carries its decision: \<open>parse_reason\<close> gives back
  exactly what \<open>format_reason\<close> wrote, when the two ids hold no white space (they are
  hexadecimal) and no reason contains the separator.
\<close>

theorem reason_round_trip:
  assumes "plain_word (decision_id d)" "plain_word (policy_hash d)"
    and "\<forall>r \<in> set (reasons d). CHR ''|'' \<notin> set r"
  shows "parse_reason (format_reason d) =
    Some \<lparr>pr_decision_id = decision_id d, pr_policy_hash = policy_hash d, pr_allow = allow d,
          pr_reasons = reasons d\<rparr>"
proof (cases "reasons d = []")
  case True
  then show ?thesis
    unfolding format_reason_head by (simp only: parse_reason_head(1) [OF assms(1,2)] if_True append_Nil2 simp_thms)
next
  case False
  then have "split_on CHR ''|'' (join ''|'' (reasons d)) = reasons d"
    using assms(3) by (rule split_on_join)
  then show ?thesis
    unfolding format_reason_head using False by (simp only: parse_reason_head(2) [OF assms(1,2)] if_False)
qed

text \<open>
  The separator is not escaped: one reason that contains a vertical bar is read back as
  two, so parsing is not the inverse of formatting for every decision.
\<close>

theorem reason_bar_splits:
  assumes "plain_word (decision_id d)" "plain_word (policy_hash d)"
    and "reasons d = [x @ CHR ''|'' # y]" "CHR ''|'' \<notin> set x" "CHR ''|'' \<notin> set y"
  shows "map_option pr_reasons (parse_reason (format_reason d)) = Some [x, y]"
proof -
  have "split_on CHR ''|'' (x @ CHR ''|'' # y) = [x, y]"
    using assms(4,5) by (simp add: split_on_append split_on_free)
  then show ?thesis
    unfolding format_reason_head assms(3)
    by (simp only: parse_reason_head(2) [OF assms(1,2)] join.simps list.distinct if_False option.map parsed_reason.simps)
qed

text \<open>
  Allow or deny, a completed check is on the ledger: the command moves to CHECKED exactly
  when the decision allows and to REJECTED otherwise, its new transition's reason is the
  decision's, and the partition gains exactly the record of the decision, the command and
  that transition.
\<close>

theorem check_is_recorded:
  assumes "check_command env rate w t1 t2 t3 t4 c l = (Inr res, l')"
    and "holds (env_sha env) (env_enc env) (env_dec env) (entity_id c) rs l"
    and "carried (env_enc env) (env_dec env) (check_record env rs t4 res)"
  shows "current_state (res_command res) = (if allow (res_decision res) then Checked else Rejected) \<and>
    tr_reason (last (transitions (res_command res))) = format_reason (res_decision res) \<and>
    lr_decision (check_record env rs t4 res) = Some (res_decision res) \<and>
    lr_command (check_record env rs t4 res) = Some (res_command res) \<and>
    holds (env_sha env) (env_enc env) (env_dec env) (entity_id c) (rs @ [check_record env rs t4 res]) l'"
proof -
  from assms(1) obtain counts r where
    d: "checked_or_rejected c (res_decision res) t3 = Inr (res_command res)"
    and a: "ledger_append (env_sha env) (env_enc env) (env_dec env) w (meta_of (res_command res))
       (last (transitions (res_command res))) (Some (res_decision res)) (Some (res_command res)) None t4 l = (Inr r, l')"
    by (rule check_command_cases)
  have c': "res_command res = push_transition c (if allow (res_decision res) then Checked else Rejected)
      policy_principal (format_reason (res_decision res)) AckUnspecified [] t3"
    using d by (simp only: decided_state)
  have m: "meta_partition (meta_of (res_command res)) = entity_id c"
    by (simp add: meta_of_def c')
  have h: "holds (env_sha env) (env_enc env) (env_dec env) (meta_partition (meta_of (res_command res))) rs l"
    using assms(2) by (simp only: m)
  have r: "r = check_record env rs t4 res"
    unfolding check_record_def by (rule append_Inr_stamped [OF h a])
  have "holds (env_sha env) (env_enc env) (env_dec env) (entity_id c) (rs @ [check_record env rs t4 res]) l'"
    using append_record [OF h a] assms(3) unfolding r m by blast
  moreover have "current_state (res_command res) = (if allow (res_decision res) then Checked else Rejected)"
    unfolding c' by simp
  moreover have "tr_reason (last (transitions (res_command res))) = format_reason (res_decision res)"
    unfolding c' by (simp add: transitions_push)
  moreover have "lr_decision r = Some (res_decision res)" "lr_command r = Some (res_command res)"
    using append_Inr_fields [OF a] by simp_all
  ultimately show ?thesis unfolding r by blast
qed

text \<open>
  A check of a command that is already CHECKED is not always refused: when the policy now
  denies (the rate window moved on), the command is REJECTED and the call succeeds; only an
  allowing decision is refused as an illegal edge.
\<close>

theorem recheck_may_reject:
  assumes "current_state c = Checked" "rate (entity_id c) t1 (env_window env) = Inr counts"
    and "holds (env_sha env) (env_enc env) (env_dec env) (entity_id c) rs l"
  shows "if allow (decide env c counts t2)
    then check_command env rate WriteOk t1 t2 t3 t4 c l = (Inl (CheckState (IllegalTransition Checked Checked)), l)
    else (\<exists>res l'. check_command env rate WriteOk t1 t2 t3 t4 c l = (Inr res, l') \<and>
            current_state (res_command res) = Rejected)"
proof (cases "allow (decide env c counts t2)")
  case True
  then show ?thesis
    using assms(1,2) by (simp add: check_command_def checked_or_rejected_def check_def require_one_of_def Let_def)
next
  case False
  let ?d = "decide env c counts t2"
  let ?c = "push_transition c Rejected policy_principal (format_reason ?d) AckUnspecified [] t3"
  have d: "checked_or_rejected c ?d t3 = Inr ?c"
    using False assms(1) by (simp add: decided_state)
  have "meta_partition (meta_of ?c) = entity_id c" by (simp add: meta_of_def)
  with assms(3) have "holds (env_sha env) (env_enc env) (env_dec env) (meta_partition (meta_of ?c)) rs l"
    by simp
  from append_succeeds [OF this decided_evidence [OF d]] obtain r l' where
    "ledger_append (env_sha env) (env_enc env) (env_dec env) WriteOk (meta_of ?c) (last (transitions ?c))
       (Some ?d) (Some ?c) None t4 l = (Inr r, l')"
    by blast
  then have "check_command env rate WriteOk t1 t2 t3 t4 c l = (Inr \<lparr>res_command = ?c, res_decision = ?d\<rparr>, l')"
    using assms(2) d by (simp add: check_command_def Let_def)
  with False show ?thesis by simp
qed

section \<open>Witnesses\<close>

definition sample_decision :: policy_decision where
  "sample_decision =
     \<lparr>decision_id = ''ab12'', allow = False, policy_hash = ''cd34'', reasons = [''too fast'', ''no fuel''],
      matched_rule_path = deny_entrypoint, evaluated_tai_ns = 0, pd_input = None\<rparr>"

theorem reason_round_trip_witness:
  "parse_reason (format_reason sample_decision) =
     Some \<lparr>pr_decision_id = ''ab12'', pr_policy_hash = ''cd34'', pr_allow = False,
           pr_reasons = [''too fast'', ''no fuel'']\<rparr>"
  using reason_round_trip [of sample_decision]
  by (simp add: sample_decision_def plain_word_def is_space_def)

theorem reason_bar_splits_witness:
  "map_option pr_reasons (parse_reason (format_reason (sample_decision\<lparr>reasons := [''a|b'']\<rparr>))) =
     Some [''a'', ''b'']"
  by (rule reason_bar_splits) (simp_all add: sample_decision_def plain_word_def is_space_def)

definition sample_proposed :: command where
  "sample_proposed = push_transition sample_command Proposed ''m'' ''r'' AckUnspecified [] 1"

definition sample_env :: "(bytes \<Rightarrow> unit + ledger_record) \<Rightarrow> unit check_env" where
  "sample_env dec =
     \<lparr>env_sha = (\<lambda>_. 0), env_enc = (\<lambda>_. [1]), env_dec = dec, env_json = (\<lambda>_. []), env_engine = sample_engine,
      env_bundle = sample_bundle, env_window = 10\<rparr>"

definition denying_env :: "unit check_env" where
  "denying_env = (sample_env (\<lambda>_. Inl ()))\<lparr>env_engine := sample_engine\<lparr>eval_rule := (\<lambda>_ _ _. Inr RUndefined)\<rparr>\<rparr>"

lemma sample_env_allows: "allow (decide (sample_env dec) c counts t)"
  by (simp add: decide_def evaluate_def sample_env_def sample_engine_def sample_bundle_def setup_failure_def
      resolve_allow_rule_def resolve_deny_rule_def Let_def)

lemma denying_env_denies: "\<not> allow (decide denying_env c counts t)"
  by (simp add: decide_def evaluate_def denying_env_def sample_env_def sample_engine_def sample_bundle_def
      setup_failure_def resolve_allow_rule_def Let_def)

theorem check_is_recorded_witness:
  "\<exists>dec res l. check_command (sample_env dec) (\<lambda>_ _ _. Inr []) WriteOk 2 3 4 5 sample_proposed (open_ledger []) =
      (Inr res, l) \<and> current_state (res_command res) = Checked"
proof -
  let ?d = "decide (sample_env (\<lambda>_. Inl ())) sample_proposed [] 3"
  let ?c = "push_transition sample_proposed Checked policy_principal (format_reason ?d) AckUnspecified [] 4"
  let ?res = "\<lparr>res_command = ?c, res_decision = ?d\<rparr>"
  let ?r = "check_record (sample_env (\<lambda>_. Inl ())) [] 5 ?res"
  let ?env = "sample_env (\<lambda>_. Inr ?r)"
  have same: "decide ?env sample_proposed [] 3 = ?d" "check_record ?env [] 5 ?res = ?r"
    by (simp_all add: decide_def check_record_def sample_env_def)
  have d: "checked_or_rejected sample_proposed ?d 4 = Inr ?c"
    using sample_env_allows by (simp add: decided_state sample_proposed_def)
  have h: "holds (env_sha ?env) (env_enc ?env) (env_dec ?env) p [] (open_ledger [])" for p
    by (rule holds_empty)
  from append_succeeds [OF h decided_evidence [OF d]] obtain r l where
    "ledger_append (env_sha ?env) (env_enc ?env) (env_dec ?env) WriteOk (meta_of ?c) (last (transitions ?c))
       (Some ?d) (Some ?c) None 5 (open_ledger []) = (Inr r, l)"
    by blast
  then have c: "check_command ?env (\<lambda>_ _ _. Inr []) WriteOk 2 3 4 5 sample_proposed (open_ledger []) = (Inr ?res, l)"
    using d by (simp add: check_command_def same Let_def)
  have "carried (env_enc ?env) (env_dec ?env) (check_record ?env [] 5 ?res)"
    unfolding same by (simp add: carried_def sample_env_def)
  from check_is_recorded [OF c h this] c sample_env_allows show ?thesis by fastforce
qed

theorem recheck_may_reject_witness:
  "\<exists>res l. check_command denying_env (\<lambda>_ _ _. Inr []) WriteOk 2 3 4 5
      (push_transition sample_proposed Checked ''policy'' ''r'' AckUnspecified [] 2) (open_ledger []) = (Inr res, l) \<and>
    current_state (res_command res) = Rejected"
proof -
  let ?c = "push_transition sample_proposed Checked ''policy'' ''r'' AckUnspecified [] 2"
  have "holds (env_sha denying_env) (env_enc denying_env) (env_dec denying_env) (entity_id ?c) [] (open_ledger [])"
    by (rule holds_empty)
  from recheck_may_reject [of ?c "\<lambda>_ _ _. Inr []" 2 denying_env "[]" "[]" "open_ledger []" 3 4 5, OF _ _ this]
  show ?thesis by (simp add: denying_env_denies)
qed

end
