(* ===== verification/Command_Oidc.thy ===== *)
theory Command_Oidc
  imports Cdm_Time Command_Authz
begin

text \<open>
  \<open>crates/av-command/src/oidc.rs\<close>: verification of a compact JWS token against one configured
  issuer. base64url, JSON and the RSA verification (OpenSSL) are parameters, each with its
  error as text; a release build's arithmetic wraps.
\<close>

section \<open>Configuration and claims\<close>

datatype alg = Rs256

fun header_value :: "alg \<Rightarrow> string" where
  "header_value Rs256 = ''RS256''"

record 'k issuer_config =
  cfg_issuer :: string
  cfg_audience :: string
  public_key :: 'k
  allowed_algs :: "alg list"

definition from_public_key_pem ::
  "(bytes \<Rightarrow> string + 'k) \<Rightarrow> string \<Rightarrow> string \<Rightarrow> bytes \<Rightarrow> string + 'k issuer_config" where
  "from_public_key_pem parse_pem iss aud pem =
     ebind (parse_pem pem) (\<lambda>k.
       Inr \<lparr>cfg_issuer = iss, cfg_audience = aud, public_key = k, allowed_algs = [Rs256]\<rparr>)"

datatype audience_claim = One string | Many "string list"

fun into_vec :: "audience_claim \<Rightarrow> string list" where
  "into_vec (One s) = [s]"
| "into_vec (Many v) = v"

record raw_claims =
  cl_sub :: string
  cl_groups :: "string list"
  cl_amr :: "string list"
  cl_acr :: "string option"
  cl_iss :: string
  cl_aud :: "audience_claim option"
  cl_jti :: "string option"
  cl_iat :: "i64 option"
  cl_exp :: "i64 option"
  cl_nbf :: "i64 option"

datatype token_error =
    WrongSegmentCount nat
  | HeaderBase64Invalid string
  | PayloadBase64Invalid string
  | SignatureBase64Invalid string
  | HeaderJsonInvalid string
  | PayloadJsonInvalid string
  | AlgorithmNotAllowed string "alg list"
  | SignatureInvalid
  | CryptoBackend string
  | IssuerMismatch string string
  | AudienceMismatch "string list" string
  | MissingExpiry
  | TokenExpired i64 i64
  | NotYetValid i64 i64
  | MissingSubject
  | MissingIssuedAt

definition token_error_code :: "token_error \<Rightarrow> string" where
  "token_error_code e =
     (case e of
        WrongSegmentCount _ \<Rightarrow> ''token_wrong_segment_count''
      | HeaderBase64Invalid _ \<Rightarrow> ''token_header_base64_invalid''
      | PayloadBase64Invalid _ \<Rightarrow> ''token_payload_base64_invalid''
      | SignatureBase64Invalid _ \<Rightarrow> ''token_signature_base64_invalid''
      | HeaderJsonInvalid _ \<Rightarrow> ''token_header_json_invalid''
      | PayloadJsonInvalid _ \<Rightarrow> ''token_payload_json_invalid''
      | AlgorithmNotAllowed _ _ \<Rightarrow> ''token_algorithm_not_allowed''
      | SignatureInvalid \<Rightarrow> ''token_signature_invalid''
      | CryptoBackend _ \<Rightarrow> ''token_crypto_backend_error''
      | IssuerMismatch _ _ \<Rightarrow> ''token_issuer_mismatch''
      | AudienceMismatch _ _ \<Rightarrow> ''token_audience_mismatch''
      | MissingExpiry \<Rightarrow> ''token_missing_expiry''
      | TokenExpired _ _ \<Rightarrow> ''token_expired''
      | NotYetValid _ _ \<Rightarrow> ''token_not_yet_valid''
      | MissingSubject \<Rightarrow> ''token_missing_subject''
      | MissingIssuedAt \<Rightarrow> ''token_missing_issued_at'')"

section \<open>Verification\<close>

text \<open>The external functions a verification calls.\<close>

record 'k jose =
  b64_decode :: "string \<Rightarrow> string + bytes"
  header_from_json :: "bytes \<Rightarrow> string + string"
  claims_from_json :: "bytes \<Rightarrow> string + raw_claims"
  rsa_verify :: "'k \<Rightarrow> bytes \<Rightarrow> bytes \<Rightarrow> string + bool"

definition unix_seconds_to_tai_ns :: "i64 \<Rightarrow> i64" where
  "unix_seconds_to_tai_ns s = from_utc_nanos (sat_i64 (s * 1000000000))"

definition verify_rs256_signature :: "'k jose \<Rightarrow> bytes \<Rightarrow> bytes \<Rightarrow> 'k \<Rightarrow> token_error + unit" where
  "verify_rs256_signature ext signing_input signature key =
     (case rsa_verify ext key signing_input signature of
        Inr True \<Rightarrow> Inr ()
      | Inr False \<Rightarrow> Inl SignatureInvalid
      | Inl e \<Rightarrow> Inl (CryptoBackend e))"

text \<open>The claim checks, which run only on claims whose signature verified.\<close>

definition check_claims :: "'k issuer_config \<Rightarrow> i64 \<Rightarrow> raw_claims \<Rightarrow> token_error + authn_principal" where
  "check_claims config now cl =
     (if cl_iss cl \<noteq> cfg_issuer config then Inl (IssuerMismatch (cl_iss cl) (cfg_issuer config))
      else
        let aud_list = (case cl_aud cl of Some a \<Rightarrow> into_vec a | None \<Rightarrow> []) in
        if cfg_audience config \<notin> set aud_list then Inl (AudienceMismatch aud_list (cfg_audience config))
        else
          case cl_exp cl of
            None \<Rightarrow> Inl MissingExpiry
          | Some e \<Rightarrow>
              (let exp = unix_seconds_to_tai_ns e in
               if exp \<le> now then Inl (TokenExpired exp now)
               else
                 ebind
                   (case cl_nbf cl of
                      None \<Rightarrow> Inr ()
                    | Some n \<Rightarrow>
                        (let nbf = unix_seconds_to_tai_ns n in
                         if now < nbf then Inl (NotYetValid nbf now) else Inr ()))
                   (\<lambda>_. if cl_sub cl = [] then Inl MissingSubject
                     else
                       case cl_iat cl of
                         None \<Rightarrow> Inl MissingIssuedAt
                       | Some i \<Rightarrow>
                           Inr \<lparr>sub = cl_sub cl, groups = cl_groups cl, amr = cl_amr cl,
                                acr = (case cl_acr cl of Some a \<Rightarrow> a | None \<Rightarrow> []),
                                issuer = cl_iss cl, audience = cfg_audience config,
                                jti = (case cl_jti cl of Some j \<Rightarrow> j | None \<Rightarrow> []),
                                issued_at_tai_ns = unix_seconds_to_tai_ns i, expiry_tai_ns = exp\<rparr>)))"

definition oidc_verify :: "'k jose \<Rightarrow> string \<Rightarrow> 'k issuer_config \<Rightarrow> i64 \<Rightarrow> token_error + authn_principal" where
  "oidc_verify ext token config now =
     (let parts = split_on CHR ''.'' token in
      if length parts \<noteq> 3 then Inl (WrongSegmentCount (length parts))
      else
        let header_b64 = parts ! 0; payload_b64 = parts ! 1; signature_b64 = parts ! 2 in
          ebind (map_err HeaderBase64Invalid (b64_decode ext header_b64)) (\<lambda>header_bytes.
          ebind (map_err HeaderJsonInvalid (header_from_json ext header_bytes)) (\<lambda>a.
          if \<not> list_ex (\<lambda>g. header_value g = a) (allowed_algs config)
          then Inl (AlgorithmNotAllowed a (allowed_algs config))
          else
            ebind (map_err PayloadBase64Invalid (b64_decode ext payload_b64)) (\<lambda>payload_bytes.
            ebind (map_err PayloadJsonInvalid (claims_from_json ext payload_bytes)) (\<lambda>claims.
            ebind (map_err SignatureBase64Invalid (b64_decode ext signature_b64)) (\<lambda>signature.
            ebind (verify_rs256_signature ext (string_bytes (header_b64 @ ''.'' @ payload_b64)) signature
                     (public_key config)) (\<lambda>_.
              check_claims config now claims)))))))"

section \<open>Lemmas\<close>

lemma check_claims_Inr:
  "check_claims config now cl = Inr who \<longleftrightarrow>
     (\<exists>a e i. cl_iss cl = cfg_issuer config \<and> cl_aud cl = Some a \<and> cfg_audience config \<in> set (into_vec a) \<and>
        cl_exp cl = Some e \<and> now < unix_seconds_to_tai_ns e \<and>
        (\<forall>n. cl_nbf cl = Some n \<longrightarrow> unix_seconds_to_tai_ns n \<le> now) \<and>
        cl_sub cl \<noteq> [] \<and> cl_iat cl = Some i \<and>
        who = \<lparr>sub = cl_sub cl, groups = cl_groups cl, amr = cl_amr cl,
               acr = (case cl_acr cl of Some a \<Rightarrow> a | None \<Rightarrow> []),
               issuer = cfg_issuer config, audience = cfg_audience config,
               jti = (case cl_jti cl of Some j \<Rightarrow> j | None \<Rightarrow> []),
               issued_at_tai_ns = unix_seconds_to_tai_ns i, expiry_tai_ns = unix_seconds_to_tai_ns e\<rparr>)"
  by (cases "cl_aud cl"; cases "cl_exp cl"; cases "cl_nbf cl"; cases "cl_iat cl")
    (auto simp: check_claims_def Let_def)

lemma verify_signature_Inr:
  "verify_rs256_signature ext m s k = Inr u \<longleftrightarrow> rsa_verify ext k m s = Inr True"
  by (auto simp: verify_rs256_signature_def split: sum.splits bool.splits)

lemma three_parts: "length xs = 3 \<longleftrightarrow> (\<exists>a b c. xs = [a, b, c])"
  by (auto simp: numeral_3_eq_3 length_Suc_conv)

lemma oidc_verify_Inr:
  "oidc_verify ext token config now = Inr who \<longleftrightarrow>
     (\<exists>h p s hb a pb cl sg. split_on CHR ''.'' token = [h, p, s] \<and>
        b64_decode ext h = Inr hb \<and> header_from_json ext hb = Inr a \<and>
        (\<exists>g \<in> set (allowed_algs config). header_value g = a) \<and>
        b64_decode ext p = Inr pb \<and> claims_from_json ext pb = Inr cl \<and> b64_decode ext s = Inr sg \<and>
        rsa_verify ext (public_key config) (string_bytes (h @ ''.'' @ p)) sg = Inr True \<and>
        check_claims config now cl = Inr who)" (is "?l \<longleftrightarrow> ?r")
proof (cases "length (split_on CHR ''.'' token) = 3")
  case True
  then obtain h p s where "split_on CHR ''.'' token = [h, p, s]" unfolding three_parts by blast
  then show ?thesis
    by (simp add: oidc_verify_def ebind_eq_Inr verify_signature_Inr list_ex_iff) blast
next
  case False
  then have "\<not> ?r" by auto
  moreover have "\<not> ?l" using False by (simp add: oidc_verify_def Let_def)
  ultimately show ?thesis by blast
qed

lemma split_on_parts: "split_on c t = w # ws \<Longrightarrow> c \<notin> set w \<and> (case ws of [] \<Rightarrow> t = w | _ \<Rightarrow> \<exists>u. t = w @ c # u \<and> split_on c u = ws)"
proof (induction t arbitrary: w ws)
  case (Cons x xs)
  show ?case
  proof (cases "x = c")
    case True
    then show ?thesis using Cons.prems by (auto split: list.split)
  next
    case False
    obtain v vs where v: "split_on c xs = v # vs" by (cases "split_on c xs") auto
    with Cons.prems False have "w = x # v" "ws = vs" by simp_all
    then show ?thesis using Cons.IH [OF v] False by (auto split: list.splits)
  qed
qed (simp split: list.split)

lemma split_on_three:
  "split_on c t = [h, p, s] \<longleftrightarrow> t = h @ c # p @ c # s \<and> c \<notin> set h \<and> c \<notin> set p \<and> c \<notin> set s"
  by (auto simp: split_on_append split_on_free dest!: split_on_parts)

lemma rs256_allowed: "(\<exists>g \<in> set gs. header_value g = a) \<longleftrightarrow> a = ''RS256'' \<and> Rs256 \<in> set gs"
proof -
  have "g = Rs256" for g by (cases g) simp
  then show ?thesis by (metis header_value.simps)
qed

section \<open>Properties\<close>

text \<open>
  C9: a token yields a principal exactly when it is three segments joined by dots, its header names
  RS256 and the configuration allows it, the issuer's key verifies the signature over the first two
  segments as they stand in the token, and its claims are of this issuer, for this audience, with a subject, an
  issue time, an expiry after now and no later start (each in seconds of UTC, saturated in
  nanoseconds and put on the TAI scale); the principal is what those claims say.
\<close>

theorem oidc_verify_exact:
  "oidc_verify ext token config now = Inr who \<longleftrightarrow>
     (\<exists>h p s hb pb sg cl a e i.
        token = h @ ''.'' @ p @ ''.'' @ s \<and> CHR ''.'' \<notin> set h \<and> CHR ''.'' \<notin> set p \<and> CHR ''.'' \<notin> set s \<and>
        b64_decode ext h = Inr hb \<and> header_from_json ext hb = Inr ''RS256'' \<and> Rs256 \<in> set (allowed_algs config) \<and>
        b64_decode ext p = Inr pb \<and> claims_from_json ext pb = Inr cl \<and>
        b64_decode ext s = Inr sg \<and> rsa_verify ext (public_key config) (string_bytes (h @ ''.'' @ p)) sg = Inr True \<and>
        cl_iss cl = cfg_issuer config \<and>
        cl_aud cl = Some a \<and> (a = One (cfg_audience config) \<or> (\<exists>v. a = Many v \<and> cfg_audience config \<in> set v)) \<and>
        cl_exp cl = Some e \<and> now < from_utc_nanos (sat_i64 (e * 1000000000)) \<and>
        (cl_nbf cl = None \<or> (\<exists>n. cl_nbf cl = Some n \<and> from_utc_nanos (sat_i64 (n * 1000000000)) \<le> now)) \<and>
        cl_sub cl \<noteq> [] \<and> cl_iat cl = Some i \<and>
        who = \<lparr>sub = cl_sub cl, groups = cl_groups cl, amr = cl_amr cl,
               acr = (case cl_acr cl of Some c \<Rightarrow> c | None \<Rightarrow> []), issuer = cfg_issuer config, audience = cfg_audience config,
               jti = (case cl_jti cl of Some j \<Rightarrow> j | None \<Rightarrow> []),
               issued_at_tai_ns = from_utc_nanos (sat_i64 (i * 1000000000)),
               expiry_tai_ns = from_utc_nanos (sat_i64 (e * 1000000000))\<rparr>)"
proof -
  have aud: "x \<in> set (into_vec a) \<longleftrightarrow> a = One x \<or> (\<exists>v. a = Many v \<and> x \<in> set v)" for x a by (cases a) auto
  have nbf: "(\<forall>n. b = Some n \<longrightarrow> P n) \<longleftrightarrow> b = None \<or> (\<exists>n. b = Some n \<and> P n)" for b :: "i64 option" and P by (cases b) auto
  show ?thesis
    unfolding oidc_verify_Inr rs256_allowed check_claims_Inr split_on_three aud nbf unix_seconds_to_tai_ns_def append_Cons append_Nil
    by blast
qed

text \<open>
  What an accepted token means for the caller: the principal is of the configured issuer
  and audience, has a subject, and has not expired at the clock reading used.
\<close>

theorem accepted_principal:
  assumes "oidc_verify ext token config now = Inr who"
  shows "issuer who = cfg_issuer config \<and> audience who = cfg_audience config \<and> sub who \<noteq> [] \<and>
    now < expiry_tai_ns who \<and> length (split_on CHR ''.'' token) = 3"
proof -
  obtain cl where "check_claims config now cl = Inr who" and "length (split_on CHR ''.'' token) = 3"
    using assms unfolding oidc_verify_Inr by auto
  then show ?thesis by (auto simp: check_claims_Inr)
qed

text \<open>
  A not-before claim beyond the 64-bit nanosecond range does not hold a token back: the
  product saturates, the leap-second offset then wraps it far into the past, and the claim
  check accepts the token at every clock reading from 1970 on.
\<close>

theorem huge_nbf_is_accepted:
  assumes "9223372037 \<le> n" "0 \<le> now"
    and "check_claims config now cl = Inr who"
  shows "unix_seconds_to_tai_ns n < 0 \<and> check_claims config now (cl\<lparr>cl_nbf := Some n\<rparr>) = Inr who"
proof -
  let ?p = "\<lambda>e. utc_effective_unix_ns e \<le> i64_max"
  have sat: "sat_i64 (n * 1000000000) = i64_max"
    using assms(1) by (simp add: sat_i64_def i64_min_def i64_max_def min_def max_def)
  define k where "k = offset_where ?p * 1000000000"
  have k: "10000000000 \<le> k" "k \<le> 37000000000"
    using offset_where_range [of ?p] by (simp_all add: k_def)
  have "(i64_max + k + 2 ^ 63) mod 2 ^ 64 = (2 ^ 64 + (k - 1)) mod 2 ^ 64"
    by (simp add: i64_max_def algebra_simps)
  also have "\<dots> = (k - 1) mod 2 ^ 64" by (rule mod_add_self1)
  also have "\<dots> = k - 1" using k by (intro mod_pos_pos_trivial) simp_all
  finally have "wrap_i64 (i64_max + k) = k - 1 - 2 ^ 63"
    by (simp add: wrap_i64_def)
  then have "unix_seconds_to_tai_ns n = k - 1 - 2 ^ 63"
    by (simp add: unix_seconds_to_tai_ns_def sat from_utc_nanos_def k_def)
  with k have "unix_seconds_to_tai_ns n < 0" by simp
  with assms(2,3) show ?thesis by (auto simp: check_claims_Inr)
qed

section \<open>Witnesses\<close>

definition sample_issuer :: "unit issuer_config" where
  "sample_issuer = \<lparr>cfg_issuer = ''idp'', cfg_audience = ''av'', public_key = (), allowed_algs = [Rs256]\<rparr>"

definition sample_claims :: raw_claims where
  "sample_claims =
     \<lparr>cl_sub = ''alice'', cl_groups = [''operators''], cl_amr = [''otp''], cl_acr = None, cl_iss = ''idp'',
      cl_aud = Some (One ''av''), cl_jti = None, cl_iat = Some 0, cl_exp = Some 9000000000, cl_nbf = None\<rparr>"

definition sample_jose :: "unit jose" where
  "sample_jose =
     \<lparr>b64_decode = (\<lambda>s. Inr (string_bytes s)), header_from_json = (\<lambda>_. Inr ''RS256''),
      claims_from_json = (\<lambda>_. Inr sample_claims), rsa_verify = (\<lambda>_ _ _. Inr True)\<rparr>"

lemma sample_expiry: "1 < unix_seconds_to_tai_ns 9000000000"
proof -
  have "unix_seconds_to_tai_ns 9000000000 = wrap_i64 (9000000000000000000 +
      offset_where (\<lambda>e. utc_effective_unix_ns e \<le> 9000000000000000000) * 1000000000)"
    by (simp add: unix_seconds_to_tai_ns_def from_utc_nanos_def sat_i64_def i64_min_def i64_max_def)
  also have "\<dots> = 9000000000000000000 +
      offset_where (\<lambda>e. utc_effective_unix_ns e \<le> 9000000000000000000) * 1000000000"
    using offset_where_range [of "\<lambda>e. utc_effective_unix_ns e \<le> 9000000000000000000"]
    by (intro wrap_i64_id) (simp add: in_i64_def i64_min_def i64_max_def)
  finally show ?thesis
    using offset_where_range [of "\<lambda>e. utc_effective_unix_ns e \<le> 9000000000000000000"] by simp
qed

lemma sample_claims_accepted:
  assumes "t \<le> 1"
  shows "\<exists>who. check_claims sample_issuer t sample_claims = Inr who \<and>
    sub who = ''alice'' \<and> groups who = [''operators''] \<and> amr who = [''otp'']"
  using assms sample_expiry by (simp add: check_claims_Inr sample_claims_def sample_issuer_def)

lemma sample_token:
  assumes "t \<le> 1"
  obtains who where "oidc_verify sample_jose ''h.p.s'' sample_issuer t = Inr who"
    "sub who = ''alice''" "groups who = [''operators'']" "amr who = [''otp'']"
proof -
  obtain who where "check_claims sample_issuer t sample_claims = Inr who"
    "sub who = ''alice''" "groups who = [''operators'']" "amr who = [''otp'']"
    using sample_claims_accepted [OF assms] by blast
  then have "oidc_verify sample_jose ''h.p.s'' sample_issuer t = Inr who"
    by (simp add: oidc_verify_def sample_jose_def sample_issuer_def verify_rs256_signature_def)
  then show ?thesis by (rule that) fact+
qed

theorem oidc_verify_exact_witness:
  "\<exists>who. oidc_verify sample_jose ''h.p.s'' sample_issuer 1 = Inr who \<and> sub who = ''alice'' \<and>
     (\<forall>who'. oidc_verify sample_jose ''h.p.s'' (sample_issuer\<lparr>cfg_audience := ''other''\<rparr>) 1 \<noteq> Inr who')"
proof -
  obtain who where "oidc_verify sample_jose ''h.p.s'' sample_issuer 1 = Inr who" "sub who = ''alice''"
    using sample_token [of 1] by auto
  moreover have "oidc_verify sample_jose ''h.p.s'' (sample_issuer\<lparr>cfg_audience := ''other''\<rparr>) 1 \<noteq> Inr who'" for who'
    unfolding oidc_verify_exact by (auto simp: sample_jose_def sample_claims_def)
  ultimately show ?thesis by blast
qed

theorem accepted_principal_witness:
  "\<exists>who. oidc_verify sample_jose ''h.p.s'' sample_issuer 1 = Inr who \<and> issuer who = ''idp''"
proof -
  obtain who where "check_claims sample_issuer 1 sample_claims = Inr who"
    using sample_claims_accepted [of 1] by auto
  then have "oidc_verify sample_jose ''h.p.s'' sample_issuer 1 = Inr who"
    by (simp add: oidc_verify_def sample_jose_def sample_issuer_def verify_rs256_signature_def)
  with accepted_principal [OF this] show ?thesis by (auto simp: sample_issuer_def)
qed

theorem huge_nbf_is_accepted_witness:
  "\<exists>who. check_claims sample_issuer 1 (sample_claims\<lparr>cl_nbf := Some 9223372037\<rparr>) = Inr who"
proof -
  obtain who where "check_claims sample_issuer 1 sample_claims = Inr who"
    using sample_claims_accepted [of 1] by auto
  with huge_nbf_is_accepted [of 9223372037 1] show ?thesis by fastforce
qed

end
