(* ===== verification/Command_Audit.thy ===== *)
theory Command_Audit
  imports Cdm_Time Command_Policy
begin

text \<open>
  \<open>crates/av-command/src/audit.rs\<close>: one RFC 5424 line per transition or refusal, appended to the
  configured sink. YAML parsing is the parameter \<open>from_yaml\<close>; creating the sink's directory and
  opening the file are not modelled beyond their success.
\<close>

section \<open>Events\<close>

datatype severity = Informational | Warning

fun severity_value :: "severity \<Rightarrow> nat" where
  "severity_value Informational = 6"
| "severity_value Warning = 4"

abbreviation facility_local0 :: nat where "facility_local0 \<equiv> 16"
abbreviation app_name :: string where "app_name \<equiv> ''av-command''"
abbreviation sd_id :: string where "sd_id \<equiv> ''avCommand@32473''"
abbreviation refused :: string where "refused \<equiv> ''REFUSED''"

fun command_state_name :: "command_state \<Rightarrow> string" where
  "command_state_name Unspecified = ''UNSPECIFIED''"
| "command_state_name Proposed = ''PROPOSED''"
| "command_state_name Checked = ''CHECKED''"
| "command_state_name Authorized = ''AUTHORIZED''"
| "command_state_name Dispatched = ''DISPATCHED''"
| "command_state_name Acked = ''ACKED''"
| "command_state_name Rejected = ''REJECTED''"
| "command_state_name Expired = ''EXPIRED''"
| "command_state_name Failed = ''FAILED''"

record audit_event =
  ev_tai_ns :: i64
  ev_severity :: severity
  ev_msg_id :: string
  ev_command_id :: string
  ev_entity :: string
  ev_class :: string
  ev_state :: string
  ev_principal :: string
  ev_delegation_id :: string
  ev_decision_id :: string
  ev_policy_hash :: string
  ev_message :: string

definition event_for_transition :: "command \<Rightarrow> command_transition \<Rightarrow> policy_decision option \<Rightarrow> audit_event" where
  "event_for_transition c t d =
     (let s = (case state_try_from (tr_state t) of Some s \<Rightarrow> s | None \<Rightarrow> Unspecified);
          name = command_state_name s
      in \<lparr>ev_tai_ns = tr_tai_ns t, ev_severity = Informational, ev_msg_id = name,
          ev_command_id = cmd_id c, ev_entity = entity_id c, ev_class = command_class c, ev_state = name,
          ev_principal = tr_principal t, ev_delegation_id = tr_delegation_id t,
          ev_decision_id = (case d of Some x \<Rightarrow> decision_id x | None \<Rightarrow> []),
          ev_policy_hash = (case d of Some x \<Rightarrow> policy_hash x | None \<Rightarrow> []),
          ev_message = tr_reason t\<rparr>)"

definition event_for_refusal ::
  "i64 \<Rightarrow> string \<Rightarrow> string \<Rightarrow> string \<Rightarrow> string \<Rightarrow> string \<Rightarrow> string \<Rightarrow> audit_event" where
  "event_for_refusal t cid entity class who delegation message =
     \<lparr>ev_tai_ns = t, ev_severity = Warning, ev_msg_id = refused, ev_command_id = cid,
      ev_entity = entity, ev_class = class, ev_state = refused, ev_principal = who,
      ev_delegation_id = delegation, ev_decision_id = [], ev_policy_hash = [], ev_message = message\<rparr>"

section \<open>Lines\<close>

definition sd_escape_char :: "char \<Rightarrow> string" where
  "sd_escape_char c = (if c \<in> {CHR 0x5C, CHR 0x22, CHR 0x5D} then [CHR 0x5C, c] else [c])"

definition sd_escape :: "string \<Rightarrow> string" where
  "sd_escape s = concat (map sd_escape_char s)"

text \<open>Days since 1970 to a civil date; the divisions are of non-negative numbers.\<close>

definition civil_from_days :: "i64 \<Rightarrow> i64 \<times> int \<times> int" where
  "civil_from_days z0 =
     (let z = z0 + 719468;
          era = z div 146097;
          doe = z - era * 146097;
          yoe = (doe - doe div 1460 + doe div 36524 - doe div 146096) div 365;
          y = yoe + era * 400;
          doy = doe - (365 * yoe + yoe div 4 - yoe div 100);
          mp = (5 * doy + 2) div 153;
          d = doy - (153 * mp + 2) div 5 + 1;
          m = (if mp < 10 then mp + 3 else mp - 9);
          year = (if m \<le> 2 then y + 1 else y)
      in (year, m, d))"

text \<open>\<open>{:0w}\<close> of an integer: zeros after the sign up to the width.\<close>

definition pad0 :: "nat \<Rightarrow> int \<Rightarrow> string" where
  "pad0 w i =
     (let digits = show_nat (nat \<bar>i\<bar>);
          sign = (if i < 0 then ''-'' else [])
      in sign @ replicate (w - length sign - length digits) CHR ''0'' @ digits)"

definition format_timestamp :: "i64 \<Rightarrow> string" where
  "format_timestamp tai_ns =
     (let utc_ns = to_utc_nanos tai_ns;
          secs = utc_ns div 1000000000;
          nanos = utc_ns mod 1000000000;
          micros = nanos div 1000;
          days = secs div 86400;
          secs_of_day = secs mod 86400;
          (y, mo, d) = civil_from_days days;
          h = secs_of_day div 3600;
          mi = (secs_of_day mod 3600) div 60;
          s = secs_of_day mod 60
      in pad0 4 y @ ''-'' @ pad0 2 mo @ ''-'' @ pad0 2 d @ ''T'' @ pad0 2 h @ '':'' @ pad0 2 mi @ '':'' @
         pad0 2 s @ ''.'' @ pad0 6 micros @ ''Z'')"

definition sd_param :: "string \<times> string \<Rightarrow> string" where
  "sd_param p = fst p @ ''='' @ [CHR 0x22] @ sd_escape (snd p) @ [CHR 0x22]"

definition sd_params :: "audit_event \<Rightarrow> (string \<times> string) list" where
  "sd_params e =
     filter (\<lambda>p. snd p \<noteq> [])
       [(''commandId'', ev_command_id e), (''entity'', ev_entity e), (''class'', ev_class e),
        (''state'', ev_state e), (''principal'', ev_principal e), (''delegationId'', ev_delegation_id e),
        (''decisionId'', ev_decision_id e), (''policyHash'', ev_policy_hash e)]"

definition format_line :: "audit_event \<Rightarrow> string" where
  "format_line e =
     (let prival = facility_local0 * 8 + severity_value (ev_severity e);
          params = map sd_param (sd_params e);
          structured_data =
            (if params = [] then ''['' @ sd_id @ '']'' else ''['' @ sd_id @ '' '' @ join '' '' params @ '']'')
      in ''<'' @ show_nat prival @ ''>1 '' @ format_timestamp (ev_tai_ns e) @ '' - '' @ app_name @ '' - '' @
         ev_msg_id e @ '' '' @ structured_data @ '' '' @ ev_message e)"

section \<open>The sink\<close>

datatype audit_sink_config = SinkFile string | SinkDisabled

definition load_profile_audit_config :: "(string \<Rightarrow> 'y + string) \<Rightarrow> string \<Rightarrow> 'y + audit_sink_config" where
  "load_profile_audit_config sink_path_from_yaml yaml =
     ebind (sink_path_from_yaml yaml) (\<lambda>p. Inr (if p = [] then SinkDisabled else SinkFile p))"

text \<open>
  A writer: no sink, or the contents of the open file. \<open>fault\<close> is the operating system's
  answer to the write or the flush, with what reached the file.
\<close>

type_synonym audit_writer = "string option"

datatype sink_fault = NoFault | Fault nat

definition audit_open :: "audit_sink_config \<Rightarrow> string \<Rightarrow> audit_writer" where
  "audit_open sink contents = (case sink of SinkFile p \<Rightarrow> Some contents | SinkDisabled \<Rightarrow> None)"

definition write_line :: "sink_fault \<Rightarrow> string \<Rightarrow> string \<Rightarrow> bool \<times> string" where
  "write_line f line contents =
     (let buf = line @ [CHR 0x0A] in
      case f of NoFault \<Rightarrow> (True, contents @ buf) | Fault n \<Rightarrow> (False, contents @ take n buf))"

definition audit_write :: "sink_fault \<Rightarrow> audit_event \<Rightarrow> audit_writer \<Rightarrow> bool \<times> audit_writer" where
  "audit_write f e w =
     (case w of
        Some contents \<Rightarrow> (case write_line f (format_line e) contents of (ok, c) \<Rightarrow> (ok, Some c))
      | None \<Rightarrow> (True, None))"

section \<open>Lemmas\<close>

abbreviation newline :: char where "newline \<equiv> CHR 0x0A"

lemma show_nat_digits: "set (show_nat n) \<subseteq> digit_char ` {..<10}"
proof (induction n rule: show_nat.induct)
  case (1 n)
  show ?case
  proof (cases "n < 10")
    case True
    then show ?thesis by (simp add: show_nat.simps)
  next
    case False
    then show ?thesis using 1 by (subst show_nat.simps) simp
  qed
qed

lemma newline_not_digit: "newline \<notin> digit_char ` {..<10}"
proof
  assume "newline \<in> digit_char ` {..<10}"
  then obtain d where "d < 10" "newline = digit_char d" by auto
  then have "(of_char newline :: nat) = 48 + d" using of_char_digit [of d] by simp
  then show False by simp
qed

lemma show_nat_line [simp]: "newline \<notin> set (show_nat n)"
  using show_nat_digits newline_not_digit by blast

lemma pad0_line [simp]: "newline \<notin> set (pad0 w i)"
  by (simp add: pad0_def Let_def)

lemma timestamp_line [simp]: "newline \<notin> set (format_timestamp t)"
  by (simp add: format_timestamp_def Let_def split: prod.splits)

lemma sd_escape_line [simp]: "newline \<in> set (sd_escape s) \<longleftrightarrow> newline \<in> set s"
  by (induction s) (auto simp: sd_escape_def sd_escape_char_def)

lemma join_line: "newline \<notin> set sep \<Longrightarrow> \<forall>x \<in> set xs. newline \<notin> set x \<Longrightarrow> newline \<notin> set (join sep xs)"
  by (induction sep xs rule: join.induct) auto

definition one_line :: "audit_event \<Rightarrow> bool" where
  "one_line e \<longleftrightarrow>
     (\<forall>s \<in> {ev_msg_id e, ev_command_id e, ev_entity e, ev_class e, ev_state e, ev_principal e,
            ev_delegation_id e, ev_decision_id e, ev_policy_hash e}. newline \<notin> set s)"

lemma format_line_head:
  assumes "one_line e"
  obtains h where "newline \<notin> set h" "\<And>m. format_line (e\<lparr>ev_message := m\<rparr>) = h @ m"
proof -
  let ?params = "map sd_param (sd_params e)"
  let ?sd = "if ?params = [] then ''['' @ sd_id @ '']'' else ''['' @ sd_id @ '' '' @ join '' '' ?params @ '']''"
  let ?h = "''<'' @ show_nat (facility_local0 * 8 + severity_value (ev_severity e)) @ ''>1 '' @
    format_timestamp (ev_tai_ns e) @ '' - '' @ app_name @ '' - '' @ ev_msg_id e @ '' '' @ ?sd @ '' ''"
  have "newline \<notin> set (sd_param p)" if "p \<in> set (sd_params e)" for p
    using that assms unfolding sd_params_def set_filter by (auto simp: sd_param_def one_line_def)
  then have "newline \<notin> set (join '' '' ?params)" by (intro join_line) auto
  then have "newline \<notin> set ?h" using assms by (simp add: one_line_def)
  moreover have "sd_params (e\<lparr>ev_message := m\<rparr>) = sd_params e" for m by (simp add: sd_params_def)
  then have "format_line (e\<lparr>ev_message := m\<rparr>) = ?h @ m" for m by (simp add: format_line_def Let_def)
  ultimately show ?thesis by (rule that)
qed

lemma event_update [simp]: "e\<lparr>ev_message := ev_message e\<rparr> = e" for e :: audit_event
  by simp

text \<open>An RFC 5424 reader of a quoted value: up to the first quote that is not escaped.\<close>

fun read_value :: "string \<Rightarrow> (string \<times> string) option" where
  "read_value [] = None"
| "read_value (c # s) =
     (if c = CHR 0x22 then Some ([], s)
      else if c = CHR 0x5C then
        (case s of [] \<Rightarrow> None | d # r \<Rightarrow> map_option (\<lambda>(v, rest). (d # v, rest)) (read_value r))
      else map_option (\<lambda>(v, rest). (c # v, rest)) (read_value s))"

definition write_all :: "audit_event list \<Rightarrow> audit_writer \<Rightarrow> audit_writer" where
  "write_all es w = foldl (\<lambda>w e. snd (audit_write NoFault e w)) w es"

lemma audit_write_Some [simp]:
  "audit_write NoFault e (Some c) = (True, Some (c @ format_line e @ [newline]))"
  by (simp add: audit_write_def write_line_def Let_def)

lemma write_all_Some:
  "write_all es (Some c) = Some (c @ concat (map (\<lambda>e. format_line e @ [newline]) es))"
  by (induction es arbitrary: c) (simp_all add: write_all_def)

lemma format_line_one:
  assumes "one_line e" "newline \<notin> set (ev_message e)"
  shows "newline \<notin> set (format_line e)"
proof -
  obtain h where "newline \<notin> set h" "\<And>m. format_line (e\<lparr>ev_message := m\<rparr>) = h @ m"
    using format_line_head [OF assms(1)] by metis
  then show ?thesis using assms(2) by (metis Un_iff event_update set_append)
qed

lemma split_lines:
  "\<forall>x \<in> set xs. newline \<notin> set x \<Longrightarrow>
   split_on newline (concat (map (\<lambda>x. x @ [newline]) xs)) = xs @ [[]]"
  by (induction xs) (simp_all add: split_on_append)

section \<open>Properties\<close>

text \<open>
  Every structured-data value can be read back: whatever bytes an id, an entity or a
  principal has, a reader of the quoted value recovers exactly them and continues right
  after the closing quote, so no value can end its parameter early.
\<close>

theorem sd_value_round_trip: "read_value (sd_escape s @ [CHR 0x22] @ rest) = Some (s, rest)"
  by (induction s) (auto simp: sd_escape_def sd_escape_char_def)

text \<open>
  One event is one line: after any events without a newline in their fields, splitting
  the sink's contents at newlines gives back exactly their formatted lines, in order.
\<close>

theorem audit_log_lines:
  assumes "\<forall>e \<in> set es. one_line e \<and> newline \<notin> set (ev_message e)"
  shows "map_option (split_on newline) (write_all es (audit_open (SinkFile p) [])) =
    Some (map format_line es @ [[]])"
proof -
  have "\<forall>x \<in> set (map format_line es). newline \<notin> set x"
    using assms by (auto dest: format_line_one)
  from split_lines [OF this] show ?thesis
    by (simp add: audit_open_def write_all_Some comp_def)
qed

text \<open>
  The message is not escaped: an event whose reason holds a newline becomes two lines of
  the log, and the second is the text after the newline alone, whatever it imitates.
\<close>

theorem audit_line_injection:
  assumes "one_line e" "ev_message e = x @ newline # y" "newline \<notin> set x" "newline \<notin> set y"
  shows "map_option (split_on newline) (write_all [e] (audit_open (SinkFile p) [])) =
    Some [format_line (e\<lparr>ev_message := x\<rparr>), y, []]"
proof -
  obtain h where h: "newline \<notin> set h" "\<And>m. format_line (e\<lparr>ev_message := m\<rparr>) = h @ m"
    using format_line_head [OF assms(1)] by metis
  have "format_line e = (h @ x) @ newline # y"
    using h(2) [of "ev_message e"] unfolding event_update by (simp add: assms(2))
  moreover have "split_on newline ((h @ x) @ newline # y @ [newline]) = [h @ x, y, []]"
    using h(1) assms(3,4) by (subst split_on_append) (simp_all add: split_on_append)
  ultimately show ?thesis using h(2) by (simp add: audit_open_def write_all_Some)
qed

section \<open>Witnesses\<close>

definition sample_event :: audit_event where
  "sample_event = event_for_refusal 0 ''c1'' ''sat'' ''burn'' ''eve'' [] ''no role''"

lemma sample_event_one_line: "one_line (sample_event\<lparr>ev_message := m\<rparr>)"
  by (simp add: one_line_def sample_event_def event_for_refusal_def)

theorem audit_log_lines_witness:
  "map_option (split_on newline) (write_all [sample_event, sample_event] (audit_open (SinkFile ''a.log'') [])) =
     Some ([format_line sample_event, format_line sample_event] @ [[]])"
proof -
  have "one_line sample_event"
    using sample_event_one_line [of "ev_message sample_event"] by simp
  moreover have "newline \<notin> set (ev_message sample_event)"
    by (simp add: sample_event_def event_for_refusal_def)
  ultimately show ?thesis
    using audit_log_lines [of "[sample_event, sample_event]" "''a.log''"] by simp
qed

theorem audit_line_injection_witness:
  "map_option (split_on newline)
     (write_all [sample_event\<lparr>ev_message := ''x'' @ newline # ''<134>1 forged''\<rparr>] (audit_open (SinkFile ''a.log'') [])) =
   Some [format_line (sample_event\<lparr>ev_message := ''x''\<rparr>), ''<134>1 forged'', []]"
  using audit_line_injection [OF sample_event_one_line, of "''x'' @ newline # ''<134>1 forged''" "''x''" "''<134>1 forged''" "''a.log''"]
  by simp

end
