(* ===== verification/Command_Service.thy ===== *)
theory Command_Service
  imports Command_Authority Command_Oidc Command_Audit
begin

text \<open>
  \<open>crates/av-command/src/service.rs\<close>: the gRPC handlers of the command authority service over
  the state machine, the token verifier, the authorization rules, the ledger and the audit
  sink. A handler is a function of the service state; a call runs without interruption (the
  interleavings of two calls between the locks they take are not modelled). The texts of the
  errors (\<open>Display\<close>) are the parameter \<open>env_text\<close>; they only reach the audit line.
\<close>

section \<open>Errors and status codes\<close>

datatype 'x io_error = LedgerIo "'x ledger_error" | AuditIo

datatype 'x service_error =
    NotFound string
  | MalformedRequest string
  | ServiceState command_error
  | ServiceCheck "'x check_command_error"
  | DuplicateIdempotencyKey string
  | ServiceIo "'x io_error"
  | PolicyDenied string "string list"
  | TokenInvalid token_error
  | ServiceAuthz authz_error
  | ServiceRole service_authz_error
  | PrincipalMismatch string string

definition service_error_code :: "'x service_error \<Rightarrow> string" where
  "service_error_code e =
     (case e of
        NotFound _ \<Rightarrow> ''not_found''
      | MalformedRequest _ \<Rightarrow> ''malformed_request''
      | ServiceState c \<Rightarrow> state_error_code c
      | ServiceCheck (CheckState c) \<Rightarrow> state_error_code c
      | ServiceCheck (CheckIo _) \<Rightarrow> ''check_io_error''
      | DuplicateIdempotencyKey _ \<Rightarrow> ''duplicate_idempotency_key''
      | ServiceIo _ \<Rightarrow> ''io_error''
      | PolicyDenied _ _ \<Rightarrow> ''policy_denied''
      | TokenInvalid t \<Rightarrow> token_error_code t
      | ServiceAuthz a \<Rightarrow> authz_error_code a
      | ServiceRole a \<Rightarrow> service_authz_error_code a
      | PrincipalMismatch _ _ \<Rightarrow> ''principal_mismatch'')"

datatype grpc_code =
    CodeNotFound | CodeInvalidArgument | CodeFailedPrecondition | CodeInternal | CodeAlreadyExists
  | CodePermissionDenied | CodeUnauthenticated

definition state_status :: "command_error \<Rightarrow> grpc_code" where
  "state_status e =
     (case e of
        IllegalTransition _ _ \<Rightarrow> CodeFailedPrecondition
      | AlreadyStarted _ \<Rightarrow> CodeInvalidArgument
      | EnvelopeNotAllowed _ \<Rightarrow> CodeInvalidArgument
      | AckLevelNotIncreasing _ _ \<Rightarrow> CodeFailedPrecondition)"

definition status_code :: "'x service_error \<Rightarrow> grpc_code" where
  "status_code e =
     (case e of
        NotFound _ \<Rightarrow> CodeNotFound
      | MalformedRequest _ \<Rightarrow> CodeInvalidArgument
      | ServiceState c \<Rightarrow> state_status c
      | ServiceCheck (CheckState c) \<Rightarrow> state_status c
      | ServiceCheck (CheckIo _) \<Rightarrow> CodeInternal
      | DuplicateIdempotencyKey _ \<Rightarrow> CodeAlreadyExists
      | ServiceIo _ \<Rightarrow> CodeInternal
      | PolicyDenied _ _ \<Rightarrow> CodePermissionDenied
      | TokenInvalid _ \<Rightarrow> CodeUnauthenticated
      | ServiceAuthz _ \<Rightarrow> CodePermissionDenied
      | ServiceRole _ \<Rightarrow> CodePermissionDenied
      | PrincipalMismatch _ _ \<Rightarrow> CodeInvalidArgument)"

text \<open>A status: its code, and the error whose text is its message.\<close>

type_synonym 'x status = "grpc_code \<times> 'x service_error"

definition to_status :: "'x service_error \<Rightarrow> 'x status" where
  "to_status e = (status_code e, e)"

section \<open>State and environment\<close>

record service =
  sv_ledger :: ledger
  sv_audit :: audit_writer
  sv_counters :: counters
  sv_commands :: "(string, command) btree"
  sv_keys :: "string set"
  sv_proposals :: "(string, command_proposal) btree"
  sv_decisions :: "(string, policy_decision) btree"
  sv_sink :: "command list"

text \<open>What stays fixed while a service runs.\<close>

record ('x, 'k) service_env =
  env_check :: "'x check_env"
  env_jose :: "'k jose"
  env_issuer :: "'k issuer_config"
  env_authz :: authz_context
  env_service_roles :: service_role_table
  env_text :: "'x service_error \<Rightarrow> string"

text \<open>
  What one call meets: the readings of the clock in the order the call takes them, and the
  fate of each of its ledger and audit writes.
\<close>

record world =
  clock :: "nat \<Rightarrow> i64"
  ledger_write :: "nat \<Rightarrow> write_outcome"
  audit_fault :: "nat \<Rightarrow> sink_fault"

definition new_service ::
  "('x, 'k) service_env \<Rightarrow> directory \<Rightarrow> audit_writer \<Rightarrow> counters \<Rightarrow> 'x ledger_error + service" where
  "new_service env d audit cs =
     (let dec = env_dec (env_check env) in
      ebind (scan_dispatched_idempotency_keys dec d) (\<lambda>keys.
      ebind (scan_commands dec d) (\<lambda>commands.
      ebind (scan_proposals dec d) (\<lambda>proposals.
      ebind (scan_decisions dec d) (\<lambda>decisions.
        Inr \<lparr>sv_ledger = open_ledger d, sv_audit = audit, sv_counters = cs, sv_commands = commands,
             sv_keys = keys, sv_proposals = proposals, sv_decisions = decisions, sv_sink = []\<rparr>)))))"

section \<open>Helpers\<close>

definition get_command :: "string \<Rightarrow> service \<Rightarrow> 'x service_error + command" where
  "get_command i s = ok_or (NotFound i) (bt_get (sv_commands s) i)"

definition put_command :: "command \<Rightarrow> service \<Rightarrow> service" where
  "put_command c s = s\<lparr>sv_commands := bt_insert (cmd_id c) c (sv_commands s)\<rparr>"

definition append_and_commit_index ::
  "('x, 'k) service_env \<Rightarrow> write_outcome \<Rightarrow> i64 \<Rightarrow> command \<Rightarrow> command_proposal option \<Rightarrow> service \<Rightarrow>
     ('x service_error + command_transition) \<times> service" where
  "append_and_commit_index env w t c p s =
     (let tr = last (transitions c); ce = env_check env in
      case ledger_append (env_sha ce) (env_enc ce) (env_dec ce) w (meta_of c) tr None (Some c) p t (sv_ledger s) of
        (Inl e, l) \<Rightarrow> (Inl (ServiceIo (LedgerIo e)), s\<lparr>sv_ledger := l\<rparr>)
      | (Inr r, l) \<Rightarrow> (Inr tr, put_command c (s\<lparr>sv_ledger := l\<rparr>)))"

definition write_audit :: "sink_fault \<Rightarrow> audit_event \<Rightarrow> service \<Rightarrow> ('x service_error + unit) \<times> service" where
  "write_audit f e s =
     (case audit_write f e (sv_audit s) of
        (ok, a) \<Rightarrow> (if ok then Inr () else Inl (ServiceIo AuditIo), s\<lparr>sv_audit := a\<rparr>))"

definition write_transition_audit ::
  "sink_fault \<Rightarrow> command \<Rightarrow> command_transition \<Rightarrow> service \<Rightarrow> ('x service_error + unit) \<times> service" where
  "write_transition_audit f c tr s = write_audit f (event_for_transition c tr None) s"

definition commit_transition ::
  "('x, 'k) service_env \<Rightarrow> write_outcome \<Rightarrow> sink_fault \<Rightarrow> i64 \<Rightarrow> command \<Rightarrow> command_proposal option \<Rightarrow> service \<Rightarrow>
     ('x service_error + unit) \<times> service" where
  "commit_transition env w f t c p s =
     try_then (append_and_commit_index env w t c p s) (\<lambda>tr s. write_transition_audit f c tr s)"

definition run_check ::
  "('x, 'k) service_env \<Rightarrow> write_outcome \<Rightarrow> sink_fault \<Rightarrow> i64 \<Rightarrow> i64 \<Rightarrow> i64 \<Rightarrow> i64 \<Rightarrow> command \<Rightarrow> service \<Rightarrow>
     ('x service_error + check_command_result) \<times> service" where
  "run_check env w f t1 t2 t3 t4 c s =
     (let ce = env_check env in
      case check_command ce (ledger_counts_by_class (env_sha ce) (env_dec ce) (sv_ledger s)) w t1 t2 t3 t4 c
             (sv_ledger s) of
        (Inl e, l) \<Rightarrow> (Inl (ServiceCheck e), s\<lparr>sv_ledger := l\<rparr>)
      | (Inr res, l) \<Rightarrow>
          (let c' = res_command res;
               s = put_command c' (s\<lparr>sv_ledger := l\<rparr>);
               s = s\<lparr>sv_decisions := bt_insert (cmd_id c') (res_decision res) (sv_decisions s)\<rparr>
           in try_then
                (write_audit f (event_for_transition c' (last (transitions c')) (Some (res_decision res))) s)
                (\<lambda>_ s. (Inr res, s))))"

definition audit_authorize_refusal ::
  "sink_fault \<Rightarrow> i64 \<Rightarrow> command \<Rightarrow> string \<Rightarrow> string \<Rightarrow> string \<Rightarrow> service \<Rightarrow> ('x service_error + unit) \<times> service" where
  "audit_authorize_refusal f t c who delegation message s =
     write_audit f (event_for_refusal t (cmd_id c) (entity_id c) (command_class c) who delegation message) s"

definition to_status_counted :: "'x service_error \<Rightarrow> service \<Rightarrow> 'x status \<times> service" where
  "to_status_counted e s =
     (to_status e, s\<lparr>sv_counters := counters_record (service_error_code e) (sv_counters s)\<rparr>)"

definition authenticate_service_principal ::
  "('x, 'k) service_env \<Rightarrow> string \<Rightarrow> service_rpc \<Rightarrow> i64 \<Rightarrow> 'x service_error + authn_principal \<times> string" where
  "authenticate_service_principal env token rpc now =
     ebind (map_err TokenInvalid (oidc_verify (env_jose env) token (env_issuer env) now)) (\<lambda>who.
     ebind (map_err ServiceRole (authorize_service_call who rpc (env_service_roles env))) (\<lambda>r.
       Inr (who, r)))"

definition check_declared_principal :: "string \<Rightarrow> string \<Rightarrow> 'x service_error + unit" where
  "check_declared_principal declared verified =
     (if declared = [] \<or> declared = verified then Inr () else Inl (PrincipalMismatch declared verified))"

definition refuse_service_call ::
  "('x, 'k) service_env \<Rightarrow> sink_fault \<Rightarrow> i64 \<Rightarrow> string \<Rightarrow> string \<Rightarrow> 'x service_error \<Rightarrow> service \<Rightarrow> 'x status \<times> service" where
  "refuse_service_call env f t cid who e s =
     (case write_audit f (event_for_refusal t cid [] [] who [] (env_text env e)) s of
        (Inr _, s) \<Rightarrow> to_status_counted e s
      | (Inl io, s) \<Rightarrow>
          to_status_counted io (s\<lparr>sv_counters := counters_record (service_error_code e) (sv_counters s)\<rparr>))"

definition dispatch_reason :: string where
  "dispatch_reason =
     ''handed to the DispatchSink (docs/aiplane-plan.md milestone A3 supplies the real kernel binding behind it)''"

definition format_service_reason :: "string \<Rightarrow> string \<Rightarrow> string \<Rightarrow> string" where
  "format_service_reason base r declared =
     (if declared = [] then base @ '' (service_role='' @ debug_str r @ '')''
      else base @ '' (service_role='' @ debug_str r @ '' declared_principal='' @ debug_str declared @ '')'')"

section \<open>Handlers\<close>

text \<open>
  \<open>counted\<close> is \<open>map_err(|e| self.to_status_counted(e))?\<close> on a step that returns a service
  error with the state it reached.
\<close>

definition counted ::
  "('x service_error + 'a) \<times> service \<Rightarrow> ('a \<Rightarrow> service \<Rightarrow> ('x status + 'b) \<times> service) \<Rightarrow> ('x status + 'b) \<times> service" where
  "counted r k =
     (case r of
        (Inr x, s) \<Rightarrow> k x s
      | (Inl e, s) \<Rightarrow> (case to_status_counted e s of (st, s) \<Rightarrow> (Inl st, s)))"

definition refuse :: "'x service_error \<Rightarrow> service \<Rightarrow> ('x status + 'b) \<times> service" where
  "refuse e s = (case to_status_counted e s of (st, s) \<Rightarrow> (Inl st, s))"

record propose_request =
  rq_proposal :: "command_proposal option"
  rq_proposer :: string

record authorize_request =
  rq_authorize_id :: string
  rq_principal_token :: string
  rq_delegation_id :: string

record service_request =
  rq_command_id :: string
  rq_service_token :: string
  rq_principal :: string
  rq_reason :: string
  rq_ack_level :: int

type_synonym 'x reply = "('x status + command \<times> policy_decision option) \<times> service"

definition rpc_propose :: "('x, 'k) service_env \<Rightarrow> world \<Rightarrow> propose_request \<Rightarrow> service \<Rightarrow> 'x reply" where
  "rpc_propose env w req s =
     (case rq_proposal req of
        None \<Rightarrow> refuse (MalformedRequest ''proposal is required'') s
      | Some proposal \<Rightarrow>
          (case prop_command proposal of
             None \<Rightarrow> refuse (MalformedRequest ''proposal.command is required'') s
           | Some c \<Rightarrow>
               if cmd_id c = [] then refuse (MalformedRequest ''proposal.command.id must not be empty'') s
               else if entity_id c = []
               then refuse (MalformedRequest ''proposal.command.entity_id must not be empty'') s
               else
                 counted (map_err ServiceState (propose c (rq_proposer req)
                            ''proposed via CommandAuthorityService.Propose'' (clock w 0)), s) (\<lambda>proposed s.
                 counted (append_and_commit_index env (ledger_write w 0) (clock w 1) proposed (Some proposal) s)
                   (\<lambda>tr s.
                 let s = s\<lparr>sv_proposals := bt_insert (cmd_id proposed) proposal (sv_proposals s)\<rparr> in
                 counted (write_transition_audit (audit_fault w 0) proposed tr s) (\<lambda>_ s.
                 counted (run_check env (ledger_write w 1) (audit_fault w 1) (clock w 2) (clock w 3) (clock w 4)
                            (clock w 5) proposed s) (\<lambda>res s.
                 if \<not> allow (res_decision res)
                 then refuse (PolicyDenied (decision_id (res_decision res)) (reasons (res_decision res))) s
                 else (Inr (res_command res, Some (res_decision res)), s)))))))"

definition rpc_check :: "('x, 'k) service_env \<Rightarrow> world \<Rightarrow> string \<Rightarrow> service \<Rightarrow> 'x reply" where
  "rpc_check env w cid s =
     counted (get_command cid s, s) (\<lambda>c s.
     counted (run_check env (ledger_write w 0) (audit_fault w 0) (clock w 0) (clock w 1) (clock w 2) (clock w 3) c s)
       (\<lambda>res s. (Inr (res_command res, Some (res_decision res)), s)))"

definition rpc_authorize :: "('x, 'k) service_env \<Rightarrow> world \<Rightarrow> authorize_request \<Rightarrow> service \<Rightarrow> 'x reply" where
  "rpc_authorize env w req s =
     counted (get_command (rq_authorize_id req) s, s) (\<lambda>c s.
     let now = clock w 0; refusal = (\<lambda>who e s.
           counted (audit_authorize_refusal (audit_fault w 0) (clock w 1) c who (rq_delegation_id req)
                      (env_text env e) s) (\<lambda>_ s. refuse e s))
     in case oidc_verify (env_jose env) (rq_principal_token req) (env_issuer env) now of
          Inl e \<Rightarrow> refusal [] (TokenInvalid e) s
        | Inr who \<Rightarrow>
            (case authorize_command who c (rq_delegation_id req) (env_authz env) now of
               Inl e \<Rightarrow> refusal (sub who) (ServiceAuthz e) s
             | Inr d \<Rightarrow>
                 counted (map_err ServiceState (authorize c (sub who) (format_authz_reason (command_class c) d)
                            (rq_delegation_id req) (clock w 1)), s) (\<lambda>c' s.
                 counted (commit_transition env (ledger_write w 0) (audit_fault w 0) (clock w 2) c' None s)
                   (\<lambda>_ s. (Inr (c', None), s)))))"

definition rpc_dispatch :: "('x, 'k) service_env \<Rightarrow> world \<Rightarrow> service_request \<Rightarrow> service \<Rightarrow> 'x reply" where
  "rpc_dispatch env w req s =
     (case authenticate_service_principal env (rq_service_token req) RpcDispatch (clock w 0) of
        Inl e \<Rightarrow>
          (case refuse_service_call env (audit_fault w 0) (clock w 1) (rq_command_id req) [] e s of
             (st, s) \<Rightarrow> (Inl st, s))
      | Inr (who, r) \<Rightarrow>
          counted (get_command (rq_command_id req) s, s) (\<lambda>c s.
          if idempotency_key c \<noteq> [] \<and> idempotency_key c \<in> sv_keys s
          then refuse (DuplicateIdempotencyKey (idempotency_key c)) s
          else
            counted (map_err ServiceState (dispatch c (sub who) (format_service_reason dispatch_reason r [])
                       (clock w 1)), s) (\<lambda>c' s.
            counted (append_and_commit_index env (ledger_write w 0) (clock w 2) c' None s) (\<lambda>tr s.
            let s = (if idempotency_key c' \<noteq> []
                     then s\<lparr>sv_keys := insert (idempotency_key c') (sv_keys s)\<rparr> else s);
                s = s\<lparr>sv_sink := sv_sink s @ [c']\<rparr>
            in counted (write_transition_audit (audit_fault w 0) c' tr s) (\<lambda>_ s. (Inr (c', None), s))))))"

text \<open>The shape \<open>ack\<close>, \<open>expire\<close> and \<open>fail\<close> share; \<open>edge_fn\<close> is the state function of each.\<close>

definition service_edge ::
  "('x, 'k) service_env \<Rightarrow> world \<Rightarrow> service_rpc \<Rightarrow> (command \<Rightarrow> string \<Rightarrow> string \<Rightarrow> i64 \<Rightarrow> command_error + command) \<Rightarrow>
     service_request \<Rightarrow> service \<Rightarrow> 'x reply" where
  "service_edge env w rpc edge_fn req s =
     (case authenticate_service_principal env (rq_service_token req) rpc (clock w 0) of
        Inl e \<Rightarrow>
          (case refuse_service_call env (audit_fault w 0) (clock w 1) (rq_command_id req) [] e s of
             (st, s) \<Rightarrow> (Inl st, s))
      | Inr (who, r) \<Rightarrow>
          (case check_declared_principal (rq_principal req) (sub who) of
             Inl e \<Rightarrow>
               (case refuse_service_call env (audit_fault w 0) (clock w 1) (rq_command_id req) (sub who) e s of
                  (st, s) \<Rightarrow> (Inl st, s))
           | Inr _ \<Rightarrow>
               counted (get_command (rq_command_id req) s, s) (\<lambda>c s.
               counted (map_err ServiceState
                          (edge_fn c (sub who) (format_service_reason (rq_reason req) r (rq_principal req)) (clock w 1)), s)
                 (\<lambda>c' s.
               counted (commit_transition env (ledger_write w 0) (audit_fault w 0) (clock w 2) c' None s)
                 (\<lambda>_ s. (Inr (c', None), s))))))"

definition rpc_ack :: "('x, 'k) service_env \<Rightarrow> world \<Rightarrow> service_request \<Rightarrow> service \<Rightarrow> 'x reply" where
  "rpc_ack env w req s =
     (let level = (case ack_try_from (rq_ack_level req) of Some l \<Rightarrow> l | None \<Rightarrow> AckUnspecified)
      in service_edge env w RpcAck (\<lambda>c who why t. ack c who why level t) req s)"

definition rpc_expire :: "('x, 'k) service_env \<Rightarrow> world \<Rightarrow> service_request \<Rightarrow> service \<Rightarrow> 'x reply" where
  "rpc_expire env w req s = service_edge env w RpcExpire expire req s"

definition rpc_fail :: "('x, 'k) service_env \<Rightarrow> world \<Rightarrow> service_request \<Rightarrow> service \<Rightarrow> 'x reply" where
  "rpc_fail env w req s = service_edge env w RpcFail fail req s"

datatype selector = ByCommandId string | ByEntity string int

record query_response =
  qr_commands :: "command list"
  qr_proposals :: "(string, command_proposal) btree"
  qr_decisions :: "(string, policy_decision) btree"

definition index_for :: "(string, 'v) btree \<Rightarrow> command list \<Rightarrow> (string, 'v) btree" where
  "index_for m cs =
     bt_of_list (List.map_filter (\<lambda>c. map_option (Pair (cmd_id c)) (bt_get m (cmd_id c))) cs)"

definition rpc_query :: "selector option \<Rightarrow> service \<Rightarrow> ('x status + query_response) \<times> service" where
  "rpc_query sel s =
     (let answer = (\<lambda>cs. (Inr \<lparr>qr_commands = cs, qr_proposals = index_for (sv_proposals s) cs,
                               qr_decisions = index_for (sv_decisions s) cs\<rparr>, s))
      in case sel of
           Some (ByCommandId i) \<Rightarrow>
             (case bt_get (sv_commands s) i of Some c \<Rightarrow> answer [c] | None \<Rightarrow> refuse (NotFound i) s)
         | Some (ByEntity e f) \<Rightarrow>
             answer (filter (\<lambda>c. entity_id c = e \<and> (f = state_i32 Unspecified \<or> cmd_state c = f))
                       (bt_values (sv_commands s)))
         | None \<Rightarrow> refuse (MalformedRequest ''selector (command_id or entity) is required'') s)"

definition rpc_verify_ledger ::
  "('x, 'k) service_env \<Rightarrow> string \<Rightarrow> service \<Rightarrow> ('x status + 'x chain_verification list \<times> bool) \<times> service" where
  "rpc_verify_ledger env p s =
     (let ce = env_check env in
      counted
        (if p = [] then
           (case partitions (env_dec ce) (dir (sv_ledger s)) of
              Inl e \<Rightarrow> (Inl (ServiceIo (LedgerIo e)), s)
            | Inr ps \<Rightarrow> (Inr (map ps_partition ps), s))
         else (Inr [p], s))
        (\<lambda>ps s.
          let results = map (\<lambda>q. ledger_verify (env_sha ce) (env_enc ce) (env_dec ce) q (sv_ledger s)) ps
          in (Inr (results, list_all cv_ok results), s)))"

section \<open>Calls and runs\<close>

datatype call =
    Propose propose_request | Check string | Authorize authorize_request | Dispatch service_request
  | Ack service_request | Expire service_request | Fail service_request
  | Query "selector option" | VerifyLedger string

fun serve :: "('x, 'k) service_env \<Rightarrow> service \<Rightarrow> world \<times> call \<Rightarrow> service" where
  "serve env s (w, Propose r) = snd (rpc_propose env w r s)"
| "serve env s (w, Check i) = snd (rpc_check env w i s)"
| "serve env s (w, Authorize r) = snd (rpc_authorize env w r s)"
| "serve env s (w, Dispatch r) = snd (rpc_dispatch env w r s)"
| "serve env s (w, Ack r) = snd (rpc_ack env w r s)"
| "serve env s (w, Expire r) = snd (rpc_expire env w r s)"
| "serve env s (w, Fail r) = snd (rpc_fail env w r s)"
| "serve env s (w, Query q) = snd (rpc_query q s :: ('x status + query_response) \<times> service)"
| "serve env s (w, VerifyLedger p) = snd (rpc_verify_ledger env p s)"

definition run :: "('x, 'k) service_env \<Rightarrow> service \<Rightarrow> (world \<times> call) list \<Rightarrow> service" where
  "run env s calls = foldl (serve env) s calls"

text \<open>
  The service invariant: every command of the index is one the state machine reaches, under
  its own id; every command handed to the sink is such a command in state DISPATCHED, its
  idempotency key is recorded, and no two of them share a key.
\<close>

definition indexed :: "(string, command) btree \<Rightarrow> bool" where
  "indexed m \<longleftrightarrow> (\<forall>i c. bt_get m i = Some c \<longrightarrow> cmd_reachable c \<and> cmd_id c = i)"

definition handed_once :: "string set \<Rightarrow> command list \<Rightarrow> bool" where
  "handed_once keys sink \<longleftrightarrow>
     (\<forall>c \<in> set sink. cmd_reachable c \<and> current_state c = Dispatched \<and>
        (idempotency_key c \<noteq> [] \<longrightarrow> idempotency_key c \<in> keys)) \<and>
     distinct (filter (\<lambda>k. k \<noteq> []) (map idempotency_key sink))"

definition service_inv :: "service \<Rightarrow> bool" where
  "service_inv s \<longleftrightarrow> indexed (sv_commands s) \<and> handed_once (sv_keys s) (sv_sink s)"

section \<open>Lemmas\<close>

lemma write_audit_state:
  "snd (write_audit f e s) = s\<lparr>sv_audit := snd (audit_write f e (sv_audit s))\<rparr>"
  by (simp add: write_audit_def split: prod.splits)

lemma to_status_counted_state:
  "to_status_counted e s =
     (to_status e, s\<lparr>sv_counters := counters_record (service_error_code e) (sv_counters s)\<rparr>)"
  by (simp add: to_status_counted_def)

lemma service_inv_frame [simp]:
  "service_inv (s\<lparr>sv_audit := a\<rparr>) = service_inv s"
  "service_inv (s\<lparr>sv_counters := cs\<rparr>) = service_inv s"
  "service_inv (s\<lparr>sv_ledger := l\<rparr>) = service_inv s"
  "service_inv (s\<lparr>sv_proposals := ps\<rparr>) = service_inv s"
  "service_inv (s\<lparr>sv_decisions := ds\<rparr>) = service_inv s"
  by (simp_all add: service_inv_def)

lemma refuse_state [simp]:
  "snd (refuse e s) = s\<lparr>sv_counters := counters_record (service_error_code e) (sv_counters s)\<rparr>"
  by (simp add: refuse_def to_status_counted_def)

lemma refuse_Inr [simp]: "refuse e s \<noteq> (Inr x, t)"
  by (simp add: refuse_def to_status_counted_def)

lemma counted_simps [simp]:
  "counted (Inr x, s) k = k x s"
  "counted (Inl e, s) k = refuse e s"
  by (simp_all add: counted_def refuse_def)

lemma counted_inv:
  assumes "service_inv (snd r)" "\<And>x s. r = (Inr x, s) \<Longrightarrow> service_inv s \<Longrightarrow> service_inv (snd (k x s))"
  shows "service_inv (snd (counted r k))"
  using assms by (cases r; cases "fst r") auto

lemma counted_Inr:
  "counted r k = (Inr y, t) \<longleftrightarrow> (\<exists>x s. r = (Inr x, s) \<and> k x s = (Inr y, t))"
  by (cases r; cases "fst r") auto

lemma put_command_inv: "service_inv s \<Longrightarrow> cmd_reachable c \<Longrightarrow> service_inv (put_command c s)"
  by (auto simp: service_inv_def put_command_def indexed_def)

lemma put_command_frame [simp]:
  "sv_keys (put_command c s) = sv_keys s"
  "sv_sink (put_command c s) = sv_sink s"
  "sv_ledger (put_command c s) = sv_ledger s"
  "sv_counters (put_command c s) = sv_counters s"
  by (simp_all add: put_command_def)

lemma append_index_state:
  obtains (ok) l where "append_and_commit_index env w t c p s = (Inr (last (transitions c)), put_command c (s\<lparr>sv_ledger := l\<rparr>))"
  | (err) e l where "append_and_commit_index env w t c p s = (Inl e, s\<lparr>sv_ledger := l\<rparr>)"
proof -
  let ?ce = "env_check env"
  obtain x l where a: "ledger_append (env_sha ?ce) (env_enc ?ce) (env_dec ?ce) w (meta_of c) (last (transitions c))
      None (Some c) p t (sv_ledger s) = (x, l)"
    by fastforce
  show ?thesis
    by (cases x) (rule err ok, simp add: append_and_commit_index_def a Let_def)+
qed

lemma append_index_inv:
  "service_inv s \<Longrightarrow> cmd_reachable c \<Longrightarrow> service_inv (snd (append_and_commit_index env w t c p s))"
  by (rule append_index_state [of env w t c p s]) (simp_all add: put_command_inv)

lemma write_audit_inv: "service_inv s \<Longrightarrow> service_inv (snd (write_audit f e s))"
  by (simp add: write_audit_state)

lemma commit_transition_inv:
  assumes "service_inv s" "cmd_reachable c"
  shows "service_inv (snd (commit_transition env w f t c p s))"
  using append_index_inv [OF assms, of env w t p]
  by (cases "append_and_commit_index env w t c p s"; cases "fst (append_and_commit_index env w t c p s)")
    (auto simp: commit_transition_def write_transition_audit_def write_audit_inv)

lemma decided_step: "checked_or_rejected c d t = Inr c' \<Longrightarrow> cmd_step c c'"
  by (auto simp: checked_or_rejected_def intro: cmd_step.intros split: if_splits)

lemma run_check_inv:
  assumes "service_inv s" "cmd_reachable c"
  shows "service_inv (snd (run_check env w f t1 t2 t3 t4 c s))"
proof -
  let ?ce = "env_check env"
  let ?r = "check_command ?ce (ledger_counts_by_class (env_sha ?ce) (env_dec ?ce) (sv_ledger s)) w t1 t2 t3 t4 c (sv_ledger s)"
  obtain res l where r: "?r = (res, l)" by fastforce
  show ?thesis
  proof (cases res)
    case (Inl e)
    with r assms(1) show ?thesis by (simp add: run_check_def Let_def)
  next
    case (Inr x)
    with r have "cmd_step c (res_command x)"
      by (auto elim!: check_command_cases dest: decided_step)
    with assms(2) have "cmd_reachable (res_command x)" by (rule cmd_reachable.step)
    with assms(1) have i: "service_inv (put_command (res_command x) (s\<lparr>sv_ledger := l\<rparr>))"
      by (simp add: put_command_inv)
    show ?thesis
      using r Inr i by (simp add: run_check_def Let_def try_then_def write_audit_state split: prod.splits sum.splits)
        (metis snd_conv service_inv_frame write_audit_state)
  qed
qed

lemma write_audit_result: "write_audit f e s = (x, t) \<Longrightarrow> service_inv t = service_inv s"
  by (auto simp: write_audit_def split: prod.splits)

lemma refuse_service_call_inv:
  "service_inv s \<Longrightarrow> service_inv (snd (refuse_service_call env f t i who e s))"
  by (auto simp: refuse_service_call_def to_status_counted_def split: prod.splits sum.splits
      dest: write_audit_result)

lemma indexed_command: "service_inv s \<Longrightarrow> get_command i s = Inr c \<Longrightarrow> cmd_reachable c"
  by (simp add: service_inv_def indexed_def get_command_def)

lemma reachable_edges:
  "authorize c p r d t = Inr c' \<Longrightarrow> cmd_reachable c \<Longrightarrow> cmd_reachable c'"
  "dispatch c p r t = Inr c' \<Longrightarrow> cmd_reachable c \<Longrightarrow> cmd_reachable c'"
  "ack c p r l t = Inr c' \<Longrightarrow> cmd_reachable c \<Longrightarrow> cmd_reachable c'"
  "expire c p r t = Inr c' \<Longrightarrow> cmd_reachable c \<Longrightarrow> cmd_reachable c'"
  "fail c p r t = Inr c' \<Longrightarrow> cmd_reachable c \<Longrightarrow> cmd_reachable c'"
  by (blast intro: cmd_reachable.step cmd_step.intros)+

lemma rpc_propose_inv: "service_inv s \<Longrightarrow> service_inv (snd (rpc_propose env w r s))"
  by (auto simp: rpc_propose_def Let_def write_transition_audit_def split: option.splits
      intro!: counted_inv append_index_inv write_audit_inv run_check_inv dest: cmd_reachable.start)

lemma rpc_check_inv: "service_inv s \<Longrightarrow> service_inv (snd (rpc_check env w i s))"
  by (auto simp: rpc_check_def intro!: counted_inv run_check_inv dest: indexed_command)

lemma rpc_authorize_inv: "service_inv s \<Longrightarrow> service_inv (snd (rpc_authorize env w r s))"
  by (auto simp: rpc_authorize_def Let_def audit_authorize_refusal_def split: sum.splits
      intro!: counted_inv commit_transition_inv write_audit_inv
      ) (metis indexed_command reachable_edges(1))

lemma service_edge_inv:
  assumes "service_inv s" "\<And>c p r t c'. edge_fn c p r t = Inr c' \<Longrightarrow> cmd_reachable c \<Longrightarrow> cmd_reachable c'"
  shows "service_inv (snd (service_edge env w rpc edge_fn req s))"
  using assms(1) refuse_service_call_inv [OF assms(1), of env "audit_fault w 0" "clock w 1" "rq_command_id req"]
  by (auto simp: service_edge_def split: sum.splits prod.splits
      intro!: counted_inv commit_transition_inv intro: assms(2) [OF _ indexed_command])
    (metis snd_conv)+

text \<open>The hand-over: the key is recorded and the sink called in the same call.\<close>

lemma hand_over_inv:
  assumes "service_inv s" "cmd_reachable c" "current_state c = Dispatched"
    and "idempotency_key c \<noteq> [] \<Longrightarrow> idempotency_key c \<notin> sv_keys s"
  shows "service_inv ((if idempotency_key c \<noteq> [] then s\<lparr>sv_keys := insert (idempotency_key c) (sv_keys s)\<rparr> else s)
    \<lparr>sv_sink := sv_sink s @ [c]\<rparr>)"
  using assms by (auto simp: service_inv_def handed_once_def)

lemma rpc_dispatch_inv:
  assumes "service_inv s"
  shows "service_inv (snd (rpc_dispatch env w req s))"
proof (cases "authenticate_service_principal env (rq_service_token req) RpcDispatch (clock w 0)")
  case (Inl e)
  then show ?thesis
    using refuse_service_call_inv [OF assms, of env "audit_fault w 0" "clock w 1" "rq_command_id req" "[]" e]
    by (auto simp: rpc_dispatch_def split: prod.splits)
next
  case (Inr a)
  obtain who r where a: "a = (who, r)" by (cases a)
  show ?thesis
  proof (cases "bt_get (sv_commands s) (rq_command_id req)")
    case None
    with Inr a assms show ?thesis by (simp add: rpc_dispatch_def get_command_def)
  next
    case (Some c)
    then have c: "cmd_reachable c" using assms by (simp add: service_inv_def indexed_def)
    show ?thesis
    proof (cases "idempotency_key c \<noteq> [] \<and> idempotency_key c \<in> sv_keys s")
      case True
      with Inr a Some assms show ?thesis by (simp add: rpc_dispatch_def get_command_def)
    next
      case fresh: False
      let ?d = "dispatch c (sub who) (format_service_reason dispatch_reason r []) (clock w 1)"
      show ?thesis
      proof (cases ?d)
        case (Inl e)
        with Inr a Some fresh assms show ?thesis by (simp add: rpc_dispatch_def get_command_def)
      next
        case d: (Inr c')
        then have c': "cmd_reachable c'" "current_state c' = Dispatched" "idempotency_key c' = idempotency_key c"
          using reachable_edges(2) [OF d c] by (auto simp: edge_Inr)
        show ?thesis
        proof (rule append_index_state [of env "ledger_write w 0" "clock w 2" c' None s])
          fix e l
          assume "append_and_commit_index env (ledger_write w 0) (clock w 2) c' None s = (Inl e, s\<lparr>sv_ledger := l\<rparr>)"
          with Inr a Some fresh d assms show ?thesis by (simp add: rpc_dispatch_def get_command_def)
        next
          fix l
          let ?s = "put_command c' (s\<lparr>sv_ledger := l\<rparr>)"
          let ?t = "(if idempotency_key c' \<noteq> [] then ?s\<lparr>sv_keys := insert (idempotency_key c') (sv_keys ?s)\<rparr> else ?s)
            \<lparr>sv_sink := sv_sink ?s @ [c']\<rparr>"
          assume ok: "append_and_commit_index env (ledger_write w 0) (clock w 2) c' None s = (Inr (last (transitions c')), ?s)"
          have "service_inv ?s" using assms c'(1) by (simp add: put_command_inv)
          then have "service_inv ?t" using c' fresh by (intro hand_over_inv) auto
          moreover have "rpc_dispatch env w req s =
              counted (write_transition_audit (audit_fault w 0) c' (last (transitions c')) ?t)
                (\<lambda>_ s. (Inr (c', None), s))"
            using Inr a Some fresh d ok by (auto simp: rpc_dispatch_def get_command_def Let_def)
          ultimately show ?thesis
            by (auto simp: write_transition_audit_def intro!: counted_inv write_audit_inv)
        qed
      qed
    qed
  qed
qed

lemma rpc_query_inv: "service_inv s \<Longrightarrow> service_inv (snd (rpc_query q s))"
  by (simp add: rpc_query_def Let_def split: option.splits selector.splits)

lemma rpc_verify_inv: "service_inv s \<Longrightarrow> service_inv (snd (rpc_verify_ledger env p s))"
  by (auto simp: rpc_verify_ledger_def Let_def intro!: counted_inv split: sum.splits)

interpretation service_machine: guarded_machine "serve env" "\<lambda>_. True" service_inv
  for env
proof
  fix s and e :: "world \<times> call"
  assume i: "service_inv s"
  obtain w c where e: "e = (w, c)" by (cases e)
  show "service_inv (serve env s e)"
    unfolding e using i
    by (cases c) (simp_all add: rpc_propose_inv rpc_check_inv rpc_authorize_inv rpc_dispatch_inv rpc_query_inv
        rpc_verify_inv rpc_ack_def rpc_expire_def rpc_fail_def Let_def service_edge_inv reachable_edges)
qed

lemma fresh_service_inv: "new_service env [] a cs = Inr s \<Longrightarrow> service_inv s"
  by (auto simp: new_service_def scan_dispatched_idempotency_keys_def scan_commands_def scan_proposals_def
      scan_decisions_def service_inv_def indexed_def handed_once_def)

text \<open>Reading a successful call backwards.\<close>

lemma get_command_Inr [simp]: "get_command i s = Inr c \<longleftrightarrow> bt_get (sv_commands s) i = Some c"
  by (simp add: get_command_def)

lemma authenticated:
  "authenticate_service_principal env token rpc now = Inr (who, r) \<longleftrightarrow>
     oidc_verify (env_jose env) token (env_issuer env) now = Inr who \<and>
     service_granting_role (env_service_roles env) (groups who) rpc = Some r"
  by (auto simp: authenticate_service_principal_def authorize_service_call_def ebind_eq_Inr)

lemma append_index_Inr:
  assumes "append_and_commit_index env w t c p s = (Inr tr, s')"
  obtains l r where "ledger_append (env_sha (env_check env)) (env_enc (env_check env)) (env_dec (env_check env)) w
      (meta_of c) (last (transitions c)) None (Some c) p t (sv_ledger s) = (Inr r, l)"
    "tr = last (transitions c)" "s' = put_command c (s\<lparr>sv_ledger := l\<rparr>)"
  using assms by (auto simp: append_and_commit_index_def Let_def split: prod.splits sum.splits)

lemma write_audit_Inr: "write_audit f e s = (Inr u, s') \<Longrightarrow> s' = s\<lparr>sv_audit := snd (audit_write f e (sv_audit s))\<rparr>"
  using write_audit_state [of f e s, where 'a = 'a] by (auto simp: write_audit_def split: prod.splits if_splits)

lemma write_audit_ok: "write_audit NoFault e s = (Inr (), s\<lparr>sv_audit := snd (audit_write NoFault e (sv_audit s))\<rparr>)"
  by (auto simp: write_audit_def audit_write_def write_line_def Let_def split: option.splits)

lemma commit_Inr:
  assumes "commit_transition env w f t c p s = (Inr u, s')"
  obtains l a where "s' = (put_command c (s\<lparr>sv_ledger := l\<rparr>))\<lparr>sv_audit := a\<rparr>"
  using assms
  by (auto simp: commit_transition_def try_then_eq_Inr write_transition_audit_def
      elim!: append_index_Inr dest!: write_audit_Inr)

lemma put_command_get [simp]: "bt_get (sv_commands (put_command c s)) i = (if i = cmd_id c then Some c else bt_get (sv_commands s) i)"
  by (simp add: put_command_def)

lemma append_index_ok:
  fixes env :: "('x, 'k) service_env"
  assumes "holds (env_sha (env_check env)) (env_enc (env_check env)) (env_dec (env_check env)) (entity_id c) rs (sv_ledger s)"
    and "(check_self_evidence (meta_of c) (last (transitions c)) (Some c) p :: 'x ledger_error + unit) = Inr ()"
  obtains l where "append_and_commit_index env WriteOk t c p s =
      (Inr (last (transitions c)), put_command c (s\<lparr>sv_ledger := l\<rparr>))"
    "ledger_append (env_sha (env_check env)) (env_enc (env_check env)) (env_dec (env_check env)) WriteOk
      (meta_of c) (last (transitions c)) None (Some c) p t (sv_ledger s) =
      (Inr (stamped (env_sha (env_check env)) (env_enc (env_check env))
        (state_after (env_sha (env_check env)) (env_enc (env_check env)) rs) (meta_of c) (last (transitions c))
        None (Some c) p t), l)"
proof -
  let ?ce = "env_check env"
  have "holds (env_sha ?ce) (env_enc ?ce) (env_dec ?ce) (meta_partition (meta_of c)) rs (sv_ledger s)"
    using assms(1) by (simp add: meta_of_def)
  from append_succeeds [OF this assms(2)] obtain l where
    "ledger_append (env_sha ?ce) (env_enc ?ce) (env_dec ?ce) WriteOk (meta_of c) (last (transitions c)) None (Some c) p t
      (sv_ledger s) = (Inr (stamped (env_sha ?ce) (env_enc ?ce) (state_after (env_sha ?ce) (env_enc ?ce) rs) (meta_of c)
        (last (transitions c)) None (Some c) p t), l)"
    by blast
  then show ?thesis by (intro that [of l]) (simp_all add: append_and_commit_index_def Let_def)
qed

lemma refused_call_Inr [simp]:
  "(case refuse_service_call env f t i who e s of (st, s) \<Rightarrow> (Inl st, s)) \<noteq> (Inr x, s')"
  by (simp split: prod.splits)

lemma service_edge_Inr:
  fixes env :: "('x, 'k) service_env"
  assumes "service_edge env w rpc edge_fn req s = (Inr (c', d), s')"
  obtains who r c why where
    "authenticate_service_principal env (rq_service_token req) rpc (clock w 0) = Inr (who, r)"
    "edge_fn c (sub who) why (clock w 1) = Inr c'" "bt_get (sv_commands s) (rq_command_id req) = Some c"
    "commit_transition env (ledger_write w 0) (audit_fault w 0) (clock w 2) c' None s = (Inr (), s')"
proof (cases "authenticate_service_principal env (rq_service_token req) rpc (clock w 0)")
  case (Inl e)
  with assms show ?thesis by (simp add: service_edge_def)
next
  case (Inr a)
  obtain who r where a: "a = (who, r)" by (cases a)
  show ?thesis
  proof (cases "check_declared_principal (rq_principal req) (sub who) :: 'x service_error + unit")
    case (Inl e)
    with assms Inr a show ?thesis by (simp add: service_edge_def)
  next
    case ok: (Inr u)
    have "service_edge env w rpc edge_fn req s =
        counted (get_command (rq_command_id req) s, s) (\<lambda>c s.
        counted (map_err ServiceState
                   (edge_fn c (sub who) (format_service_reason (rq_reason req) r (rq_principal req)) (clock w 1)), s)
          (\<lambda>c' s.
        counted (commit_transition env (ledger_write w 0) (audit_fault w 0) (clock w 2) c' None s)
          (\<lambda>_ s. (Inr (c', None), s))))"
      using Inr a ok by (simp add: service_edge_def)
    with assms Inr a show ?thesis by (auto simp: counted_Inr intro: that)
  qed
qed

lemma rpc_dispatch_Inr:
  fixes env :: "('x, 'k) service_env"
  assumes "rpc_dispatch env w req s = (Inr (c', d), s')"
  obtains who r c l x where
    "authenticate_service_principal env (rq_service_token req) RpcDispatch (clock w 0) = Inr (who, r)"
    "bt_get (sv_commands s) (rq_command_id req) = Some c"
    "idempotency_key c = [] \<or> idempotency_key c \<notin> sv_keys s"
    "dispatch c (sub who) (format_service_reason dispatch_reason r []) (clock w 1) = Inr c'"
    "ledger_append (env_sha (env_check env)) (env_enc (env_check env)) (env_dec (env_check env)) (ledger_write w 0)
      (meta_of c') (last (transitions c')) None (Some c') None (clock w 2) (sv_ledger s) = (Inr x, l)"
    "sv_commands s' = sv_commands (put_command c' s)" "sv_ledger s' = l" "sv_sink s' = sv_sink s @ [c']"
    "sv_keys s' = (if idempotency_key c' \<noteq> [] then insert (idempotency_key c') (sv_keys s) else sv_keys s)"
proof (cases "authenticate_service_principal env (rq_service_token req) RpcDispatch (clock w 0)")
  case (Inl e)
  with assms show ?thesis by (simp add: rpc_dispatch_def)
next
  case (Inr a)
  obtain who r where a: "a = (who, r)" by (cases a)
  let ?keyed = "\<lambda>s. if idempotency_key c' \<noteq> [] then s\<lparr>sv_keys := insert (idempotency_key c') (sv_keys s)\<rparr> else s"
  let ?handed = "\<lambda>s. (?keyed s)\<lparr>sv_sink := sv_sink (?keyed s) @ [c']\<rparr>"
  from assms Inr a obtain c where c: "bt_get (sv_commands s) (rq_command_id req) = Some c"
    by (auto simp: rpc_dispatch_def counted_Inr)
  moreover have fresh: "idempotency_key c = [] \<or> idempotency_key c \<notin> sv_keys s"
    using assms Inr a c by (auto simp: rpc_dispatch_def get_command_def)
  ultimately obtain tr s1 where
    d: "dispatch c (sub who) (format_service_reason dispatch_reason r []) (clock w 1) = Inr c'"
    and ap: "append_and_commit_index env (ledger_write w 0) (clock w 2) c' None s = (Inr tr, s1)"
    and au: "write_transition_audit (audit_fault w 0) c' tr (?handed s1) = (Inr () :: 'x service_error + unit, s')"
    using assms Inr a by (auto simp: rpc_dispatch_def get_command_def counted_Inr Let_def split del: if_split)
  note c fresh d
  moreover obtain l x where l: "tr = last (transitions c')" "s1 = put_command c' (s\<lparr>sv_ledger := l\<rparr>)"
      and la: "ledger_append (env_sha (env_check env)) (env_enc (env_check env)) (env_dec (env_check env)) (ledger_write w 0)
        (meta_of c') (last (transitions c')) None (Some c') None (clock w 2) (sv_ledger s) = (Inr x, l)"
    using ap by (auto elim!: append_index_Inr)
  moreover have "sv_commands s' = sv_commands s1" "sv_ledger s' = l" "sv_sink s' = sv_sink s @ [c']"
      "sv_keys s' = (if idempotency_key c' \<noteq> [] then insert (idempotency_key c') (sv_keys s) else sv_keys s)"
    using au by (auto simp: write_transition_audit_def l dest!: write_audit_Inr)
  ultimately show ?thesis using Inr a by (intro that [of who r c x l]) (simp_all add: put_command_def)
qed

text \<open>What a refused service call may change: the audit log and the counters.\<close>

definition same_but_log :: "service \<Rightarrow> service \<Rightarrow> bool" where
  "same_but_log s s' \<longleftrightarrow> s' = s\<lparr>sv_audit := sv_audit s', sv_counters := sv_counters s'\<rparr>"

lemma refuse_service_call_state:
  fixes env :: "('x, 'k) service_env"
  obtains st a cs where "refuse_service_call env f t i who e s = (st, s\<lparr>sv_audit := a, sv_counters := cs\<rparr>)"
    "counters_get (service_error_code e) (sv_counters s) < counters_get (service_error_code e) cs"
proof -
  let ?ev = "event_for_refusal t i [] [] who [] (env_text env e)"
  let ?s = "s\<lparr>sv_audit := snd (audit_write f ?ev (sv_audit s))\<rparr>"
  let ?cs = "counters_record (service_error_code e) (sv_counters s)"
  obtain x :: "'x service_error + unit" where w: "write_audit f ?ev s = (x, ?s)"
    using write_audit_state [of f ?ev s] by (metis prod.collapse)
  show ?thesis
  proof (cases x)
    case (Inl io)
    then have "refuse_service_call env f t i who e s =
        (to_status io, ?s\<lparr>sv_counters := counters_record (service_error_code io) ?cs\<rparr>)"
      by (simp add: refuse_service_call_def w to_status_counted_def)
    then show ?thesis by (rule that) (simp add: counters_get_record)
  next
    case (Inr u)
    then have "refuse_service_call env f t i who e s = (to_status e, ?s\<lparr>sv_counters := ?cs\<rparr>)"
      by (simp add: refuse_service_call_def w to_status_counted_def)
    then show ?thesis by (rule that) (simp add: counters_get_record)
  qed
qed

lemma scan_results:
  assumes "all_records dec d = Inr rs"
  obtains cm pm dm where "scan_dispatched_idempotency_keys dec d = Inr {k. \<exists>r \<in> set rs. dispatched_key k r}"
    "scan_commands dec d = Inr cm" "scan_proposals dec d = Inr pm" "scan_decisions dec d = Inr dm"
  unfolding scan_dispatched_idempotency_keys_def scan_commands_def scan_proposals_def scan_decisions_def
    for_files_fold [OF assms] fold_keys by simp

lemma propose_checked:
  fixes env :: "('x, 'k) service_env"
  assumes req: "rq_proposal req = Some p" "prop_command p = Some c" "cmd_id c \<noteq> []" "entity_id c \<noteq> []"
    and c1: "propose c (rq_proposer req) ''proposed via CommandAuthorityService.Propose'' (clock w 0) = Inr c1"
    and h: "holds (env_sha (env_check env)) (env_enc (env_check env)) (env_dec (env_check env)) (entity_id c) rs (sv_ledger s)"
    and r1: "carried (env_enc (env_check env)) (env_dec (env_check env))
      (stamped (env_sha (env_check env)) (env_enc (env_check env))
        (state_after (env_sha (env_check env)) (env_enc (env_check env)) rs) (meta_of c1)
        (last (transitions c1)) None (Some c1) (Some p) (clock w 1))"
    and w: "ledger_write w 0 = WriteOk" "ledger_write w 1 = WriteOk" "audit_fault w 0 = NoFault" "audit_fault w 1 = NoFault"
    and win: "in_i64 (clock w 2 - env_window (env_check env))"
    and pol: "\<forall>counts. allow (decide (env_check env) c1 counts (clock w 3))"
  shows "\<exists>c2 d s'. rpc_propose env w req s = (Inr (c2, Some d), s') \<and> current_state c2 = Checked \<and> allow d \<and>
    cmd_id c2 = cmd_id c \<and> bt_get (sv_commands s') (cmd_id c) = Some c2 \<and>
    bt_get (sv_proposals s') (cmd_id c) = Some p \<and> bt_get (sv_decisions s') (cmd_id c) = Some d"
proof -
  let ?ce = "env_check env"
  let ?sha = "env_sha ?ce" and ?enc = "env_enc ?ce" and ?dec = "env_dec ?ce"
  let ?r = "stamped ?sha ?enc (state_after ?sha ?enc rs) (meta_of c1) (last (transitions c1)) None (Some c1) (Some p) (clock w 1)"
  have id: "cmd_id c1 = cmd_id c" "entity_id c1 = entity_id c" "current_state c1 = Proposed"
    and last: "tr_state (last (transitions c1)) = state_i32 Proposed" "cmd_state c1 = state_i32 Proposed" "transitions c1 \<noteq> []"
    using c1 by (auto simp: propose_Inr transitions_push)
  have h1: "holds ?sha ?enc ?dec (entity_id c1) rs (sv_ledger s)" using h by (simp add: id)
  have ev: "(check_self_evidence (meta_of c1) (last (transitions c1)) (Some c1) (Some p) :: 'x ledger_error + unit) = Inr ()"
    using last req(2) by (simp add: check_self_evidence_def meta_of_def id)
  obtain l where ap: "append_and_commit_index env WriteOk (clock w 1) c1 (Some p) s =
      (Inr (last (transitions c1)), put_command c1 (s\<lparr>sv_ledger := l\<rparr>))"
    and la: "ledger_append ?sha ?enc ?dec WriteOk (meta_of c1) (last (transitions c1)) None (Some c1) (Some p) (clock w 1)
      (sv_ledger s) = (Inr ?r, l)"
    by (rule append_index_ok [OF h1 ev])
  have m: "meta_partition (meta_of c1) = entity_id c1" by (simp add: meta_of_def)
  have h2: "holds ?sha ?enc ?dec (entity_id c1) (rs @ [?r]) l"
    using append_record [OF _ la r1] h1 by (simp add: m)
  then obtain counts where counts: "ledger_counts_by_class ?sha ?dec l (entity_id c1) (clock w 2) (env_window ?ce) = Inr counts"
    using ledger_rate.counts_total [OF _ win] by blast
  let ?d = "decide ?ce c1 counts (clock w 3)"
  let ?c2 = "push_transition c1 Checked policy_principal (format_reason ?d) AckUnspecified [] (clock w 4)"
  have d: "checked_or_rejected c1 ?d (clock w 4) = Inr ?c2" using pol by (simp add: decided_state id)
  have m2: "meta_partition (meta_of ?c2) = entity_id c1" by (simp add: meta_of_def)
  have h3: "holds ?sha ?enc ?dec (meta_partition (meta_of ?c2)) (rs @ [?r]) l" using h2 by (simp only: m2)
  from append_succeeds [OF h3 decided_evidence [OF d]] obtain r2 l2 where
    "ledger_append ?sha ?enc ?dec WriteOk (meta_of ?c2) (last (transitions ?c2)) (Some ?d) (Some ?c2) None (clock w 5) l = (Inr r2, l2)"
    by blast
  then have ck: "check_command ?ce (ledger_counts_by_class ?sha ?dec l) WriteOk (clock w 2) (clock w 3) (clock w 4) (clock w 5) c1 l =
      (Inr \<lparr>res_command = ?c2, res_decision = ?d\<rparr>, l2)"
    using counts d by (simp add: check_command_def Let_def)
  show ?thesis
    using req c1 ap w pol ck
    by (simp add: rpc_propose_def Let_def write_transition_audit_def write_audit_ok run_check_def put_command_def id)
qed

lemma run_check_Inr:
  assumes "run_check env w f t1 t2 t3 t4 c s = (Inr res, s')"
  shows "checked_or_rejected c (res_decision res) t3 = Inr (res_command res) \<and>
    sv_commands s' = sv_commands (put_command (res_command res) s)"
proof -
  let ?ce = "env_check env"
  let ?r = "check_command ?ce (ledger_counts_by_class (env_sha ?ce) (env_dec ?ce) (sv_ledger s)) w t1 t2 t3 t4 c (sv_ledger s)"
  obtain x l where r: "?r = (x, l)" by fastforce
  show ?thesis
  proof (cases x)
    case (Inl e)
    with r assms show ?thesis by (simp add: run_check_def Let_def)
  next
    case (Inr y)
    from r Inr have "checked_or_rejected c (res_decision y) t3 = Inr (res_command y)"
      by (auto elim!: check_command_cases)
    with assms r Inr show ?thesis
      by (auto simp: run_check_def Let_def try_then_eq_Inr put_command_def dest!: write_audit_Inr)
  qed
qed

lemma rpc_propose_Inr:
  assumes "rpc_propose env w req s = (Inr (c2, d), s')" "rq_proposal req = Some p" "prop_command p = Some c"
  shows "current_state c2 = Checked \<and> states_of c2 = map state_i32 [Proposed, Checked] \<and>
    bt_get (sv_commands s') (cmd_id c) = Some c2"
proof -
  from assms have ids: "cmd_id c \<noteq> []" "entity_id c \<noteq> []"
    by (auto simp: rpc_propose_def split: if_splits)
  from assms ids obtain c1 s1 res where
    c1: "propose c (rq_proposer req) ''proposed via CommandAuthorityService.Propose'' (clock w 0) = Inr c1"
    and ck: "run_check env (ledger_write w 1) (audit_fault w 1) (clock w 2) (clock w 3) (clock w 4) (clock w 5) c1 s1 = (Inr res, s')"
    and "allow (res_decision res)" "c2 = res_command res"
    by (auto simp: rpc_propose_def counted_Inr Let_def split: if_splits)
  with run_check_Inr [OF ck] show ?thesis
    by (auto simp: decided_state propose_Inr states_of_def transitions_push put_command_def)
qed

section \<open>Properties\<close>

text \<open>
  C1: exactly-once hand-over and its precondition: whatever calls a fresh service serves, in
  any order, with any tokens, clock readings and write faults, the sink never gets two
  commands with the same non-empty idempotency key, and every command it gets was proposed,
  checked, authorized and dispatched, in this order.
\<close>

theorem handed_over_once_and_authorized:
  assumes "new_service env [] a cs = Inr s"
  shows "distinct (filter (\<lambda>k. k \<noteq> []) (map idempotency_key (sv_sink (run env s calls)))) \<and>
    (\<forall>c \<in> set (sv_sink (run env s calls)).
       states_of c = map state_i32 [Proposed, Checked, Authorized, Dispatched])"
proof -
  have "service_inv (run env s calls)"
    unfolding run_def using fresh_service_inv [OF assms]
    by (rule service_machine.run_inv) (simp add: list_all_iff)
  moreover have "states_of c = [1, 2, 3, 4]" if "cmd_reachable c" "current_state c = Dispatched" for c
    using reachable_on_spine [OF that(1)] that(2) by (auto simp: on_spine_def spine_def)
  ultimately show ?thesis by (simp add: service_inv_def handed_once_def)
qed

text \<open>
  C18: an authorization that succeeds was made by a verified person: the token verified at
  the call's clock reading, the authorization rule accepted that principal for the command
  as it is indexed, and the recorded transition names that principal and the delegation.
\<close>

theorem authorize_is_verified:
  assumes "rpc_authorize env w req s = (Inr (c', d), s')"
  shows "\<exists>c who dec. bt_get (sv_commands s) (rq_authorize_id req) = Some c \<and>
    oidc_verify (env_jose env) (rq_principal_token req) (env_issuer env) (clock w 0) = Inr who \<and>
    authorize_command who c (rq_delegation_id req) (env_authz env) (clock w 0) = Inr dec \<and>
    current_state c = Checked \<and>
    c' = push_transition c Authorized (sub who) (format_authz_reason (command_class c) dec) AckUnspecified
           (rq_delegation_id req) (clock w 1) \<and>
    bt_get (sv_commands s') (cmd_id c) = Some c'"
proof (cases "bt_get (sv_commands s) (rq_authorize_id req)")
  case None
  with assms show ?thesis by (simp add: rpc_authorize_def get_command_def)
next
  case c: (Some c)
  show ?thesis
  proof (cases "oidc_verify (env_jose env) (rq_principal_token req) (env_issuer env) (clock w 0)")
    case (Inl e)
    with assms c show ?thesis by (auto simp: rpc_authorize_def get_command_def counted_Inr)
  next
    case who: (Inr who)
    show ?thesis
    proof (cases "authorize_command who c (rq_delegation_id req) (env_authz env) (clock w 0)")
      case (Inl e)
      with assms c who show ?thesis by (auto simp: rpc_authorize_def get_command_def counted_Inr)
    next
      case (Inr dec)
      with assms c who show ?thesis
        by (auto simp: rpc_authorize_def get_command_def counted_Inr edge_Inr elim!: commit_Inr)
    qed
  qed
qed

text \<open>
  C32: after dispatch only a verified service moves a command: a successful Dispatch, Ack,
  Expire or Fail had a token whose principal holds a service role for that very call, and
  the new transition is recorded under that principal's subject, never under the name the
  caller declared.
\<close>

theorem service_calls_are_verified:
  assumes "(rpc, reply) \<in> {(RpcDispatch, rpc_dispatch env w req s), (RpcAck, rpc_ack env w req s),
      (RpcExpire, rpc_expire env w req s), (RpcFail, rpc_fail env w req s)}"
    and "reply = (Inr (c', d), s')"
  shows "\<exists>who r. oidc_verify (env_jose env) (rq_service_token req) (env_issuer env) (clock w 0) = Inr who \<and>
    service_granting_role (env_service_roles env) (groups who) rpc = Some r \<and>
    tr_principal (last (transitions c')) = sub who \<and>
    bt_get (sv_commands s') (cmd_id c') = Some c'"
proof -
  have edge: ?thesis
    if e: "service_edge env w rpc edge_fn req s = (Inr (c', d), s')"
      and p: "\<And>c p r t c'. edge_fn c p r t = Inr c' \<Longrightarrow> tr_principal (last (transitions c')) = p" for edge_fn
    using e by (auto elim!: service_edge_Inr commit_Inr simp: authenticated p)
  let ?lv = "case ack_try_from (rq_ack_level req) of Some l \<Rightarrow> l | None \<Rightarrow> AckUnspecified"
  from assms consider (disp) "rpc = RpcDispatch" "rpc_dispatch env w req s = (Inr (c', d), s')"
    | (ack) "service_edge env w rpc (\<lambda>c who why t. ack c who why ?lv t) req s = (Inr (c', d), s')"
    | (expire) "service_edge env w rpc expire req s = (Inr (c', d), s')"
    | (fail) "service_edge env w rpc fail req s = (Inr (c', d), s')"
    by (auto simp: rpc_ack_def rpc_expire_def rpc_fail_def Let_def)
  then show ?thesis
  proof cases
    case disp
    from this(2) show ?thesis
      by (rule rpc_dispatch_Inr) (auto simp: disp(1) authenticated edge_Inr transitions_push)
  next
    case ack
    then show ?thesis by (rule edge) (auto simp: edge_Inr transitions_push)
  next
    case expire
    then show ?thesis by (rule edge) (auto simp: edge_Inr transitions_push)
  next
    case fail
    then show ?thesis by (rule edge) (auto simp: edge_Inr transitions_push)
  qed
qed

text \<open>
  A service call whose token does not verify, or whose principal holds no role for it, is
  refused without effect: only the audit log and the counters change, and the counter of
  that very refusal rises.
\<close>

theorem unverified_call_is_harmless:
  assumes "authenticate_service_principal env (rq_service_token req) rpc (clock w 0) = Inl e"
    and "(rpc, reply) \<in> {(RpcDispatch, rpc_dispatch env w req s), (RpcAck, rpc_ack env w req s),
      (RpcExpire, rpc_expire env w req s), (RpcFail, rpc_fail env w req s)}"
  shows "(\<exists>st. fst reply = Inl st) \<and> same_but_log s (snd reply) \<and>
    counters_get (service_error_code e) (sv_counters s) < counters_get (service_error_code e) (sv_counters (snd reply))"
proof -
  let ?r = "refuse_service_call env (audit_fault w 0) (clock w 1) (rq_command_id req) [] e s"
  obtain st a cs where r: "?r = (st, s\<lparr>sv_audit := a, sv_counters := cs\<rparr>)"
    "counters_get (service_error_code e) (sv_counters s) < counters_get (service_error_code e) cs"
    by (rule refuse_service_call_state)
  have "reply = (Inl st, s\<lparr>sv_audit := a, sv_counters := cs\<rparr>)"
    using assms r(1)
    by (auto simp: rpc_dispatch_def rpc_ack_def rpc_expire_def rpc_fail_def service_edge_def Let_def)
  with r(2) show ?thesis by (simp add: same_but_log_def)
qed

text \<open>
  C35: the hand-over guard survives a restart: after a successful Dispatch whose record is on
  the disk, a service built anew on the same directory starts, knows the idempotency key,
  and refuses every Dispatch of a command with that key.
\<close>

theorem dispatch_survives_restart:
  fixes env :: "('x, 'k) service_env"
  defines "ce \<equiv> env_check env"
  assumes "rpc_dispatch env w req s = (Inr (c', d), s')" "idempotency_key c' \<noteq> []"
    and "holds (env_sha ce) (env_enc ce) (env_dec ce) (entity_id c') rs (sv_ledger s)"
    and "bt_sorted (dir (sv_ledger s))" "all_records (env_dec ce) (dir (sv_ledger s)) = Inr R"
    and "carried (env_enc ce) (env_dec ce)
      (stamped (env_sha ce) (env_enc ce) (state_after (env_sha ce) (env_enc ce) rs) (meta_of c')
        (last (transitions c')) None (Some c') None (clock w 2))"
  shows "\<exists>t. new_service env (dir (sv_ledger s')) a cs = Inr t \<and> idempotency_key c' \<in> sv_keys t \<and>
    (\<forall>w2 req2 c2. bt_get (sv_commands t) (rq_command_id req2) = Some c2 \<and> idempotency_key c2 = idempotency_key c' \<longrightarrow>
       (\<exists>st. fst (rpc_dispatch env w2 req2 t) = Inl st))"
proof -
  let ?sha = "env_sha ce" and ?enc = "env_enc ce" and ?dec = "env_dec ce"
  let ?r = "stamped ?sha ?enc (state_after ?sha ?enc rs) (meta_of c') (last (transitions c')) None (Some c') None (clock w 2)"
  from assms(2) obtain c r l x and who :: authn_principal where
    c': "dispatch c (sub who) (format_service_reason dispatch_reason r []) (clock w 1) = Inr c'"
    and ap: "ledger_append ?sha ?enc ?dec (ledger_write w 0) (meta_of c') (last (transitions c')) None (Some c') None
      (clock w 2) (sv_ledger s) = (Inr x, l)" and l: "sv_ledger s' = l"
    by (auto elim!: rpc_dispatch_Inr simp: ce_def)
  have m: "meta_partition (meta_of c') = entity_id c'" by (simp add: meta_of_def)
  have h: "holds ?sha ?enc ?dec (meta_partition (meta_of c')) rs (sv_ledger s)" using assms(4) by (simp only: m)
  have x: "x = ?r" by (rule append_Inr_stamped [OF h ap])
  have "list_all (carried ?enc ?dec) (rs @ [x])"
    using assms(7) h by (simp add: x holds_def)
  then have new: "records_of ?dec (frames ?enc (rs @ [x])) = Inr (rs @ [x])" by (rule records_of_frames)
  have old: "records_of ?dec (case bt_get (dir (sv_ledger s)) (sanitize_partition_filename ?sha (entity_id c')) of
      None \<Rightarrow> [] | Some bs \<Rightarrow> bs) = Inr rs"
    using assms(4) records_of_frames [of ?enc ?dec rs] by (simp add: holds_def file_of_def)
  have "dir l = bt_insert (sanitize_partition_filename ?sha (entity_id c')) (frames ?enc (rs @ [x])) (dir (sv_ledger s))"
    using append_dir [OF h ap] by (simp add: m)
  then obtain R' where R': "all_records ?dec (dir l) = Inr R'" "mset R' = add_mset x (mset R)"
    using all_records_insert [OF assms(5,6) sanitize_ledger_name old new] by auto
  have "x \<in># mset R'" unfolding R'(2) by simp
  then have "x \<in> set R'" by simp
  moreover have "dispatched_key (idempotency_key c') x"
    using append_Inr_fields [OF ap] c' assms(3)
    by (auto simp: dispatched_key_def has_transition_def edge_Inr transitions_push meta_of_def)
  ultimately have k: "idempotency_key c' \<in> {k. \<exists>r \<in> set R'. dispatched_key k r}" by blast
  obtain cm pm dm where scans: "scan_dispatched_idempotency_keys ?dec (dir l) = Inr {k. \<exists>r \<in> set R'. dispatched_key k r}"
    "scan_commands ?dec (dir l) = Inr cm" "scan_proposals ?dec (dir l) = Inr pm" "scan_decisions ?dec (dir l) = Inr dm"
    by (rule scan_results [OF R'(1)])
  define t where "t = \<lparr>sv_ledger = open_ledger (dir l), sv_audit = a, sv_counters = cs, sv_commands = cm,
    sv_keys = {k. \<exists>r \<in> set R'. dispatched_key k r}, sv_proposals = pm, sv_decisions = dm, sv_sink = []\<rparr>"
  have t: "new_service env (dir (sv_ledger s')) a cs = Inr t" "idempotency_key c' \<in> sv_keys t"
    using k by (simp_all add: new_service_def Let_def ce_def [symmetric] l scans t_def)
  have "\<exists>st. fst (rpc_dispatch env w2 req2 t) = Inl st"
    if "bt_get (sv_commands t) (rq_command_id req2) = Some c2" "idempotency_key c2 = idempotency_key c'" for w2 req2 c2
  proof (cases "fst (rpc_dispatch env w2 req2 t)")
    case (Inr y)
    then obtain c3 d3 t3 where "rpc_dispatch env w2 req2 t = (Inr (c3, d3), t3)"
      by (metis prod.collapse)
    then show ?thesis using that t(2) assms(3) by (auto elim!: rpc_dispatch_Inr)
  qed simp
  with t show ?thesis by blast
qed


text \<open>
  Propose does not look at the index: a fresh command under an id that is taken, say by
  a command that was already handed over, replaces it, and the history of the dispatched
  command is no longer what the service answers, acknowledges or expires.
\<close>

theorem propose_replaces_dispatched:
  assumes "bt_get (sv_commands s) (cmd_id c) = Some old" "current_state old = Dispatched"
    and "rq_proposal req = Some p" "prop_command p = Some c"
    and "rpc_propose env w req s = (Inr (c2, d), s')"
  shows "bt_get (sv_commands s') (cmd_id c) = Some c2 \<and> current_state c2 = Checked \<and>
    states_of c2 = map state_i32 [Proposed, Checked] \<and> c2 \<noteq> old"
  using rpc_propose_Inr [OF assms(5,3,4)] assms(2) by auto

section \<open>Witnesses\<close>

definition sample_world :: world where
  "sample_world = \<lparr>clock = int, ledger_write = (\<lambda>_. WriteOk), audit_fault = (\<lambda>_. NoFault)\<rparr>"

definition sample_service_env :: "(bytes \<Rightarrow> unit + ledger_record) \<Rightarrow> (unit, unit) service_env" where
  "sample_service_env dec =
     \<lparr>env_check = sample_env dec, env_jose = sample_jose, env_issuer = sample_issuer, env_authz = sample_context,
      env_service_roles = [(''operators'', [RpcDispatch, RpcAck])], env_text = (\<lambda>_. [])\<rparr>"

definition sample_service :: "(string, command) btree \<Rightarrow> service" where
  "sample_service cmds =
     \<lparr>sv_ledger = open_ledger [], sv_audit = None, sv_counters = [], sv_commands = cmds, sv_keys = {},
      sv_proposals = [], sv_decisions = [], sv_sink = []\<rparr>"

definition sample_proposal :: command_proposal where
  "sample_proposal = \<lparr>prop_command = Some sample_command, rationale = ''why'', evidence_ids = []\<rparr>"

definition sample_propose :: propose_request where
  "sample_propose = \<lparr>rq_proposal = Some sample_proposal, rq_proposer = ''m''\<rparr>"

text \<open>The first record the sample proposal writes.\<close>

definition sample_first :: ledger_record where
  "sample_first =
     (let c1 = push_transition sample_command Proposed ''m'' ''proposed via CommandAuthorityService.Propose''
                 AckUnspecified [] 0
      in stamped (\<lambda>_. 0) (\<lambda>_. [1]) (state_after (\<lambda>_. 0) (\<lambda>_. [1]) []) (meta_of c1) (last (transitions c1)) None
           (Some c1) (Some sample_proposal) 1)"

lemma sample_env_simps:
  "env_check (sample_service_env dec) = sample_env dec"
  "env_sha (sample_env dec) = (\<lambda>_. 0)" "env_enc (sample_env dec) = (\<lambda>_. [1])" "env_dec (sample_env dec) = dec"
  "env_window (sample_env dec) = 10"
  "env_jose (sample_service_env dec) = sample_jose"
  "env_issuer (sample_service_env dec) = sample_issuer"
  "env_authz (sample_service_env dec) = sample_context"
  "env_service_roles (sample_service_env dec) = [(''operators'', [RpcDispatch, RpcAck])]"
  by (simp_all add: sample_service_env_def sample_env_def)

lemma sample_proposal_args:
  fixes cmds :: "(string, command) btree"
  defines "e \<equiv> sample_service_env (\<lambda>_. Inr sample_first)"
  defines "c1 \<equiv> push_transition sample_command Proposed ''m'' ''proposed via CommandAuthorityService.Propose''
    AckUnspecified [] 0"
  shows "rq_proposal sample_propose = Some sample_proposal" "prop_command sample_proposal = Some sample_command"
    "cmd_id sample_command \<noteq> []" "entity_id sample_command \<noteq> []"
    "propose sample_command (rq_proposer sample_propose) ''proposed via CommandAuthorityService.Propose''
      (clock sample_world 0) = Inr c1"
    "holds (env_sha (env_check e)) (env_enc (env_check e)) (env_dec (env_check e))
      (entity_id sample_command) [] (sv_ledger (sample_service cmds))"
    "carried (env_enc (env_check e)) (env_dec (env_check e))
      (stamped (env_sha (env_check e)) (env_enc (env_check e)) (state_after (env_sha (env_check e)) (env_enc (env_check e)) [])
        (meta_of c1) (last (transitions c1)) None (Some c1) (Some sample_proposal) (clock sample_world 1))"
    "ledger_write sample_world 0 = WriteOk" "ledger_write sample_world 1 = WriteOk"
    "audit_fault sample_world 0 = NoFault" "audit_fault sample_world 1 = NoFault"
    "in_i64 (clock sample_world 2 - env_window (env_check e))"
    "\<forall>counts. allow (decide (env_check e) c1 counts (clock sample_world 3))"
  by (simp_all add: sample_propose_def sample_proposal_def sample_command_def sample_world_def e_def c1_def
      sample_env_simps sample_env_allows propose_Inr current_state_def
      state_try_from_def all_states_def sample_service_def holds_empty carried_def sample_first_def Let_def
      in_i64_def i64_min_def i64_max_def)

lemmas sample_propose_ok = propose_checked [OF sample_proposal_args]

definition sample_checked :: command where
  "sample_checked =
     push_transition (push_transition sample_command Proposed ''m'' ''r'' AckUnspecified [] 0)
       Checked ''policy'' ''r'' AckUnspecified [] 0"

definition sample_authorized :: command where
  "sample_authorized = push_transition sample_checked Authorized ''op'' ''r'' AckUnspecified [] 0"

definition sample_handed :: command where
  "sample_handed =
     push_transition sample_authorized Dispatched ''alice'' (format_service_reason dispatch_reason ''operators'' [])
       AckUnspecified [] 1"

definition sample_service_request :: service_request where
  "sample_service_request =
     \<lparr>rq_command_id = ''c1'', rq_service_token = ''h.p.s'', rq_principal = [], rq_reason = ''pass'', rq_ack_level = 1\<rparr>"

definition sample_handed_record :: ledger_record where
  "sample_handed_record =
     stamped (\<lambda>_. 0) (\<lambda>_. [1]) (state_after (\<lambda>_. 0) (\<lambda>_. [1]) []) (meta_of sample_handed)
       (last (transitions sample_handed)) None (Some sample_handed) None 2"

lemma sample_dispatch_ok:
  "\<exists>s'. rpc_dispatch (sample_service_env dec) sample_world sample_service_request
      (sample_service [(''c1'', sample_authorized)]) = (Inr (sample_handed, None), s')"
proof -
  let ?e = "sample_service_env dec"
  obtain who where "oidc_verify sample_jose ''h.p.s'' sample_issuer 0 = Inr who" and who: "sub who = ''alice''"
    "groups who = [''operators'']"
    using sample_token [of 0] by auto
  then have a: "authenticate_service_principal ?e ''h.p.s'' RpcDispatch 0 = Inr (who, ''operators'')"
    by (simp add: authenticated sample_env_simps service_granting_role_def service_role_grants_def)
  have d: "dispatch sample_authorized ''alice'' (format_service_reason dispatch_reason ''operators'' []) 1 =
      Inr sample_handed"
    by (simp add: edge_Inr sample_handed_def sample_authorized_def)
  have h: "holds (\<lambda>_. 0) (\<lambda>_. [1]) dec (meta_partition (meta_of sample_handed)) [] (open_ledger [])"
    by (rule holds_empty)
  have "(check_self_evidence (meta_of sample_handed) (last (transitions sample_handed)) (Some sample_handed) None
      :: unit ledger_error + unit) = Inr ()"
    by (simp add: check_self_evidence_def sample_handed_def transitions_push meta_of_def)
  from append_succeeds [OF h this, of None 2] obtain l where
    "ledger_append (\<lambda>_. 0) (\<lambda>_. [1]) dec WriteOk (meta_of sample_handed) (last (transitions sample_handed)) None
       (Some sample_handed) None 2 (open_ledger []) =
     (Inr (stamped (\<lambda>_. 0) (\<lambda>_. [1]) (state_after (\<lambda>_. 0) (\<lambda>_. [1]) []) (meta_of sample_handed)
       (last (transitions sample_handed)) None (Some sample_handed) None 2), l)"
    by blast
  moreover have "bt_get [(''c1'', sample_authorized)] ''c1'' = Some sample_authorized"
    by (simp add: bt_get_def)
  ultimately show ?thesis using a d who
    by (simp add: rpc_dispatch_def sample_service_request_def sample_world_def sample_service_def get_command_def
        put_command_def append_and_commit_index_def write_transition_audit_def write_audit_def audit_write_def sample_env_simps Let_def)
qed

lemma sample_fresh: "new_service (sample_service_env dec) [] None [] = Inr (sample_service [])"
  by (simp add: new_service_def sample_service_def scan_dispatched_idempotency_keys_def scan_commands_def
      scan_proposals_def scan_decisions_def)

theorem handed_over_once_and_authorized_witness:
  "new_service (sample_service_env (\<lambda>_. Inr sample_first)) [] None [] = Inr (sample_service []) \<and>
   distinct (filter (\<lambda>k. k \<noteq> []) (map idempotency_key (sv_sink
     (run (sample_service_env (\<lambda>_. Inr sample_first)) (sample_service []) [(sample_world, Propose sample_propose)]))))"
  using handed_over_once_and_authorized [OF sample_fresh] sample_fresh by blast

theorem dispatch_survives_restart_witness:
  "\<exists>(s' :: service) t. new_service (sample_service_env (\<lambda>_. Inr sample_handed_record)) (dir (sv_ledger s')) None [] = Inr t \<and>
    ''k1'' \<in> sv_keys t"
proof -
  let ?e = "sample_service_env (\<lambda>_. Inr sample_handed_record)"
  let ?s = "sample_service [(''c1'', sample_authorized)]"
  obtain s' where d: "rpc_dispatch ?e sample_world sample_service_request ?s = (Inr (sample_handed, None), s')"
    using sample_dispatch_ok by blast
  have k: "idempotency_key sample_handed = ''k1''"
    by (simp add: sample_handed_def sample_authorized_def sample_checked_def sample_command_def push_transition_def)
  then have k0: "idempotency_key sample_handed \<noteq> []" by simp
  have h: "holds (env_sha (env_check ?e)) (env_enc (env_check ?e)) (env_dec (env_check ?e)) (entity_id sample_handed) []
      (sv_ledger ?s)"
    by (simp add: sample_service_def holds_empty)
  have e: "bt_sorted (dir (sv_ledger ?s))" "all_records (env_dec (env_check ?e)) (dir (sv_ledger ?s)) = Inr []"
    by (simp_all add: sample_service_def open_ledger_def)
  have c: "carried (env_enc (env_check ?e)) (env_dec (env_check ?e))
      (stamped (env_sha (env_check ?e)) (env_enc (env_check ?e))
        (state_after (env_sha (env_check ?e)) (env_enc (env_check ?e)) []) (meta_of sample_handed)
        (last (transitions sample_handed)) None (Some sample_handed) None (clock sample_world 2))"
    by (simp add: sample_env_simps carried_def sample_handed_record_def sample_world_def)
  from dispatch_survives_restart [OF d k0 h e c, of None "[]"] show ?thesis
    unfolding k by blast
qed

theorem service_calls_are_verified_witness:
  "\<exists>c' s'. rpc_dispatch (sample_service_env (\<lambda>_. Inl ())) sample_world sample_service_request
      (sample_service [(''c1'', sample_authorized)]) = (Inr (c', None), s') \<and>
    bt_get (sv_commands s') (cmd_id c') = Some c'"
proof -
  obtain s' where d: "rpc_dispatch (sample_service_env (\<lambda>_. Inl ())) sample_world sample_service_request
      (sample_service [(''c1'', sample_authorized)]) = (Inr (sample_handed, None), s')"
    using sample_dispatch_ok by blast
  from service_calls_are_verified [OF _ d] d show ?thesis by blast
qed

theorem unverified_call_is_harmless_witness:
  "\<exists>st. fst (rpc_dispatch (sample_service_env (\<lambda>_. Inl ())) sample_world
      (sample_service_request\<lparr>rq_service_token := ''x''\<rparr>) (sample_service [])) = Inl st"
proof -
  let ?req = "sample_service_request\<lparr>rq_service_token := ''x''\<rparr>"
  have "authenticate_service_principal (sample_service_env (\<lambda>_. Inl ())) (rq_service_token ?req) RpcDispatch
      (clock sample_world 0) = Inl (TokenInvalid (WrongSegmentCount 1))"
    by (simp add: authenticate_service_principal_def oidc_verify_def)
  from unverified_call_is_harmless [OF this, where s = "sample_service []"]
  show ?thesis by blast
qed


theorem propose_replaces_dispatched_witness:
  "\<exists>c2 d s'. rpc_propose (sample_service_env (\<lambda>_. Inr sample_first)) sample_world sample_propose
      (sample_service [(''c1'', sample_dispatched)]) = (Inr (c2, d), s') \<and> c2 \<noteq> sample_dispatched"
proof -
  obtain c2 d s' where p: "rpc_propose (sample_service_env (\<lambda>_. Inr sample_first)) sample_world sample_propose
      (sample_service [(''c1'', sample_dispatched)]) = (Inr (c2, Some d), s')"
    using sample_propose_ok by blast
  have "bt_get (sv_commands (sample_service [(''c1'', sample_dispatched)])) (cmd_id sample_command) =
      Some sample_dispatched" "current_state sample_dispatched = Dispatched"
    by (simp_all add: sample_service_def sample_command_def bt_get_def sample_dispatched_def)
  from propose_replaces_dispatched [OF this _ _ p] p show ?thesis
    by (auto simp: sample_propose_def sample_proposal_def)
qed

lemma sample_authorize_ok:
  "\<exists>c' s'. rpc_authorize (sample_service_env dec) sample_world
      \<lparr>rq_authorize_id = ''c1'', rq_principal_token = ''h.p.s'', rq_delegation_id = []\<rparr>
      (sample_service [(''c1'', sample_checked)]) = (Inr (c', None), s')"
proof -
  let ?e = "sample_service_env dec"
  obtain who where v: "oidc_verify sample_jose ''h.p.s'' sample_issuer 0 = Inr who" and who: "sub who = ''alice''"
    "groups who = [''operators'']" "amr who = [''otp'']"
    using sample_token [of 0] by auto
  obtain dn where az: "authorize_command who sample_checked [] sample_context 0 = Inr dn"
    using authorize_sample [of who sample_checked 0] who by (auto simp: sample_checked_def sample_command_def push_transition_def)
  define c' where "c' = push_transition sample_checked Authorized ''alice'' (format_authz_reason (command_class sample_checked) dn)
    AckUnspecified [] 1"
  have a: "authorize sample_checked ''alice'' (format_authz_reason (command_class sample_checked) dn) [] 1 = Inr c'"
    by (simp add: edge_Inr sample_checked_def c'_def)
  have h: "holds (\<lambda>_. 0) (\<lambda>_. [1]) dec (meta_partition (meta_of c')) [] (open_ledger [])"
    by (rule holds_empty)
  have "(check_self_evidence (meta_of c') (last (transitions c')) (Some c') None :: unit ledger_error + unit) = Inr ()"
    by (simp add: check_self_evidence_def c'_def transitions_push meta_of_def)
  from append_succeeds [OF h this, of None 2] obtain l x where
    "ledger_append (\<lambda>_. 0) (\<lambda>_. [1]) dec WriteOk (meta_of c') (last (transitions c')) None (Some c') None 2
       (open_ledger []) = (Inr x, l)"
    by blast
  moreover have "bt_get [(''c1'', sample_checked)] ''c1'' = Some sample_checked"
    by (simp add: bt_get_def)
  ultimately show ?thesis using a v az who
    by (simp add: rpc_authorize_def sample_world_def sample_service_def get_command_def commit_transition_def
        put_command_def append_and_commit_index_def write_transition_audit_def write_audit_def audit_write_def
        sample_env_simps Let_def)
qed

theorem authorize_is_verified_witness:
  "\<exists>c' s' who. rpc_authorize (sample_service_env (\<lambda>_. Inl ())) sample_world
      \<lparr>rq_authorize_id = ''c1'', rq_principal_token = ''h.p.s'', rq_delegation_id = []\<rparr>
      (sample_service [(''c1'', sample_checked)]) = (Inr (c', None), s') \<and>
    oidc_verify sample_jose ''h.p.s'' sample_issuer 0 = Inr who \<and> bt_get (sv_commands s') (cmd_id c') = Some c'"
proof -
  obtain c' s' where a: "rpc_authorize (sample_service_env (\<lambda>_. Inl ())) sample_world
      \<lparr>rq_authorize_id = ''c1'', rq_principal_token = ''h.p.s'', rq_delegation_id = []\<rparr>
      (sample_service [(''c1'', sample_checked)]) = (Inr (c', None), s')"
    using sample_authorize_ok by blast
  from authorize_is_verified [OF a] a show ?thesis
    by (auto simp: sample_env_simps sample_world_def)
qed

end
