(* ===== verification/Edge_Hash.thy ===== *)
theory Edge_Hash
  imports Prelude
begin

text \<open>
  \<open>av-edge\<close>, \<open>hash.rs\<close>, \<open>sign.rs\<close> and \<open>verify.rs\<close>: the measurement batch, its canonical
  bytes and hash, signing and verification of one batch, and the hexadecimal reader.

  Parameters: SHA-256, the protobuf encoder of a batch, and the ECDSA operations of OpenSSL
  (\<open>ecdsa\<close>). The fields of a measurement that this code never reads are one opaque field.
\<close>

section \<open>Messages\<close>

record measurement =
  meas_id :: string
  meas_shard_key :: string
  meas_rest :: bytes

record batch =
  producer_id :: string
  batch_seq :: u64
  prev_hash :: bytes
  batch_hash :: bytes
  signature :: bytes
  signer_cert_sha256 :: string
  batch_label :: "label option"
  measurements :: "measurement list"
  batch_provenance :: "bytes option"
  batch_tai_ns :: i64
  shard_key :: string

section \<open>Hashes\<close>

definition GENESIS :: bytes where
  "GENESIS = string_bytes ''GENESIS''"

definition canonical_body_bytes :: "(batch \<Rightarrow> bytes) \<Rightarrow> batch \<Rightarrow> bytes" where
  "canonical_body_bytes enc b = enc (b\<lparr>batch_hash := [], signature := []\<rparr>)"

definition compute_batch_hash :: "(bytes \<Rightarrow> digest) \<Rightarrow> bytes \<Rightarrow> bytes \<Rightarrow> digest" where
  "compute_batch_hash sha prev body = sha (prev @ body)"

definition recompute_batch_hash :: "(bytes \<Rightarrow> digest) \<Rightarrow> (batch \<Rightarrow> bytes) \<Rightarrow> batch \<Rightarrow> digest" where
  "recompute_batch_hash sha enc b = compute_batch_hash sha (prev_hash b) (canonical_body_bytes enc b)"

text \<open>\<open>char::to_digit(16)\<close>, and the reader of pairs.\<close>

definition hex_val :: "char \<Rightarrow> nat option" where
  "hex_val c =
     (let n = of_char c :: nat in
      if 48 \<le> n \<and> n \<le> 57 then Some (n - 48)
      else if 97 \<le> n \<and> n \<le> 102 then Some (n - 87)
      else if 65 \<le> n \<and> n \<le> 70 then Some (n - 55)
      else None)"

fun hex_pairs :: "string \<Rightarrow> bytes option" where
  "hex_pairs [] = Some []"
| "hex_pairs [c] = None"
| "hex_pairs (a # b # s) =
     (case (hex_val a, hex_val b) of
        (Some x, Some y) \<Rightarrow> map_option (\<lambda>bs. of_nat (16 * x + y) # bs) (hex_pairs s)
      | _ \<Rightarrow> None)"

definition hex_decode :: "string \<Rightarrow> bytes option" where
  "hex_decode s =
     (if odd (length s) \<or> \<not> list_all (\<lambda>c. hex_val c \<noteq> None) s then None else hex_pairs s)"

section \<open>Signatures\<close>

text \<open>
  The OpenSSL operations: reading and writing a DER signature, signing a digest with a
  private key and checking a signature of a digest against a public key.
\<close>

record ('p, 'k, 's) ecdsa =
  sig_from_der :: "bytes \<Rightarrow> string + 's"
  sig_to_der :: "'s \<Rightarrow> string + bytes"
  sig_sign :: "digest \<Rightarrow> 'p \<Rightarrow> string + 's"
  sig_verify :: "'s \<Rightarrow> digest \<Rightarrow> 'k \<Rightarrow> string + bool"

datatype verify_error =
    InvalidPem string | WrongCurve "int option" | NotSigned | HashMismatch | MalformedSignature string
  | SignatureInvalid | VerifyOpenssl string

definition verify_digest :: "('p, 'k, 's) ecdsa \<Rightarrow> 'k \<Rightarrow> digest \<Rightarrow> bytes \<Rightarrow> verify_error + unit" where
  "verify_digest ec key d sig =
     (if sig = [] then Inl NotSigned
      else
        ebind (map_err MalformedSignature (sig_from_der ec sig)) (\<lambda>sg.
        ebind (map_err VerifyOpenssl (sig_verify ec sg d key)) (\<lambda>ok.
          if ok then Inr () else Inl SignatureInvalid)))"

definition verify_batch ::
  "(bytes \<Rightarrow> digest) \<Rightarrow> (batch \<Rightarrow> bytes) \<Rightarrow> ('p, 'k, 's) ecdsa \<Rightarrow> batch \<Rightarrow> 'k \<Rightarrow> verify_error + digest" where
  "verify_batch sha enc ec b key =
     (if signature b = [] then Inl NotSigned
      else
        let recomputed = recompute_batch_hash sha enc b in
        if batch_hash b \<noteq> digest_bytes recomputed then Inl HashMismatch
        else ebind (verify_digest ec key recomputed (signature b)) (\<lambda>_. Inr recomputed))"

datatype signing_error = KeyPem string | KeyCurve "int option" | SignOpenssl string

definition sign_digest :: "('p, 'k, 's) ecdsa \<Rightarrow> 'p \<Rightarrow> digest \<Rightarrow> signing_error + bytes" where
  "sign_digest ec key d =
     ebind (map_err SignOpenssl (sig_sign ec d key)) (\<lambda>sg. map_err SignOpenssl (sig_to_der ec sg))"

definition sign_batch ::
  "(bytes \<Rightarrow> digest) \<Rightarrow> (batch \<Rightarrow> bytes) \<Rightarrow> ('p, 'k, 's) ecdsa \<Rightarrow> batch \<Rightarrow> bytes \<Rightarrow> 'p \<Rightarrow> signing_error + batch" where
  "sign_batch sha enc ec b prev key =
     (let b = b\<lparr>prev_hash := prev, batch_hash := [], signature := []\<rparr>;
          d = compute_batch_hash sha prev (canonical_body_bytes enc b)
      in ebind (sign_digest ec key d) (\<lambda>sg. Inr (b\<lparr>batch_hash := digest_bytes d, signature := sg\<rparr>)))"

definition sign_batch_with_signer ::
  "(bytes \<Rightarrow> digest) \<Rightarrow> (batch \<Rightarrow> bytes) \<Rightarrow> ('p, 'k, 's) ecdsa \<Rightarrow> batch \<Rightarrow> bytes \<Rightarrow> 'p \<Rightarrow> string \<Rightarrow>
     signing_error + batch" where
  "sign_batch_with_signer sha enc ec b prev key fingerprint =
     sign_batch sha enc ec (b\<lparr>signer_cert_sha256 := fingerprint\<rparr>) prev key"

section \<open>Lemmas\<close>

text \<open>The signature of a digest is good for a key: what OpenSSL says of it.\<close>

definition signs :: "('p, 'k, 's) ecdsa \<Rightarrow> 'k \<Rightarrow> digest \<Rightarrow> bytes \<Rightarrow> bool" where
  "signs ec key d sig \<longleftrightarrow> sig \<noteq> [] \<and> (\<exists>sg. sig_from_der ec sig = Inr sg \<and> sig_verify ec sg d key = Inr True)"

definition batch_link :: "(bytes \<Rightarrow> digest) \<Rightarrow> (batch \<Rightarrow> bytes) \<Rightarrow> bytes \<Rightarrow> batch \<Rightarrow> digest" where
  "batch_link sha enc prev b = compute_batch_hash sha prev (canonical_body_bytes enc b)"

interpretation edge_chain: hash_chain "batch_link sha enc" sha "canonical_body_bytes enc" for sha enc
  by unfold_locales (simp add: batch_link_def compute_batch_hash_def)

lemma verify_digest_Inr [simp]: "verify_digest ec key d sig = Inr u \<longleftrightarrow> signs ec key d sig"
  by (auto simp: verify_digest_def signs_def ebind_eq_Inr)

lemma verify_batch_Inr:
  "verify_batch sha enc ec b key = Inr d \<longleftrightarrow>
     d = batch_link sha enc (prev_hash b) b \<and> batch_hash b = digest_bytes d \<and> signs ec key d (signature b)"
  by (auto simp: verify_batch_def Let_def ebind_eq_Inr recompute_batch_hash_def batch_link_def signs_def)

lemma hex_val_digit: "n < 16 \<Longrightarrow> hex_val (digit_char n) = Some n"
  by (simp add: hex_val_def digit_char_def Let_def)

lemma byte_of_halves: "of_nat (16 * (unat b div 16) + unat b mod 16) = (b :: u8)"
  by simp

lemma hex_pairs_encode: "hex_pairs (hex_encode bs) = Some bs"
proof (induction bs)
  case (Cons b bs)
  have "unat b div 16 < 16" using unat_u8_bound [of b] by simp
  then show ?case by (simp add: hex_encode_Cons hex_val_digit Cons.IH byte_of_halves del: of_nat_add of_nat_mult)
qed simp

lemma hex_encode_digits: "list_all (\<lambda>c. hex_val c \<noteq> None) (hex_encode bs)"
proof (induction bs)
  case (Cons b bs)
  have "unat b div 16 < 16" using unat_u8_bound [of b] by simp
  with Cons.IH show ?case by (simp add: hex_encode_Cons hex_val_digit)
qed simp

section \<open>Properties\<close>

text \<open>
  A batch that \<open>sign_batch\<close> signed verifies with the key that belongs to it, names the
  given previous hash, and a batch that verifies and differs from it in a signed field has
  another hash, absent a SHA-256 collision on the two inputs.
\<close>

theorem signed_batch_verifies:
  assumes "sign_batch sha enc ec b prev sk = Inr b'"
    and "\<forall>d sg. sig_sign ec d sk = Inr sg \<longrightarrow> sig_verify ec sg d pk = Inr True"
    and "\<forall>sg der. sig_to_der ec sg = Inr der \<longrightarrow> der \<noteq> [] \<and> sig_from_der ec der = Inr sg"
  shows "verify_batch sha enc ec b' pk = Inr (batch_link sha enc prev b') \<and> prev_hash b' = prev \<and>
    (\<forall>c d. verify_batch sha enc ec c pk = Inr d \<and> batch_hash c = batch_hash b' \<and> prev_hash c = prev \<and>
       inj_on sha {prev @ canonical_body_bytes enc b', prev @ canonical_body_bytes enc c} \<longrightarrow>
       canonical_body_bytes enc c = canonical_body_bytes enc b')"
proof -
  define b0 where "b0 = b\<lparr>prev_hash := prev, batch_hash := [], signature := []\<rparr>"
  define d where "d = compute_batch_hash sha prev (canonical_body_bytes enc b0)"
  obtain sg der where sg: "sig_sign ec d sk = Inr sg" "sig_to_der ec sg = Inr der"
    and b': "b' = b0\<lparr>batch_hash := digest_bytes d, signature := der\<rparr>"
    using assms(1) by (auto simp: sign_batch_def sign_digest_def Let_def ebind_eq_Inr b0_def d_def)
  have c: "canonical_body_bytes enc b' = canonical_body_bytes enc b0" "prev_hash b' = prev"
    by (simp_all add: b' b0_def canonical_body_bytes_def)
  have "signs ec pk d der" using assms(2,3) sg by (auto simp: signs_def)
  moreover have l: "batch_link sha enc prev b' = d" by (simp add: batch_link_def c d_def)
  ultimately have v: "verify_batch sha enc ec b' pk = Inr (batch_link sha enc prev b')"
    by (simp add: verify_batch_Inr c(2)) (simp add: b')
  moreover have "canonical_body_bytes enc x = canonical_body_bytes enc b'"
    if "verify_batch sha enc ec x pk = Inr e" "batch_hash x = batch_hash b'" "prev_hash x = prev"
      "inj_on sha {prev @ canonical_body_bytes enc b', prev @ canonical_body_bytes enc x}" for x e
  proof -
    have "digest_bytes (batch_link sha enc prev x) = digest_bytes (batch_link sha enc prev b')"
      using that(1-3) v by (auto simp: verify_batch_Inr c(2))
    with edge_chain.link_determines [of sha enc prev b' prev x] that(4) show ?thesis by auto
  qed
  ultimately show ?thesis using c(2) by blast
qed

text \<open>
  \<open>hex_decode\<close> reads back every byte string \<open>hex_encode\<close> writes.
\<close>

theorem hex_round_trip: "hex_decode (hex_encode bs) = Some bs"
  using hex_encode_digits [of bs] by (simp add: hex_decode_def length_hex_encode hex_pairs_encode)

section \<open>Witnesses\<close>

definition sample_ecdsa :: "(unit, unit, bytes) ecdsa" where
  "sample_ecdsa =
     \<lparr>sig_from_der = (\<lambda>bs. case bs of [] \<Rightarrow> Inl ''der'' | _ # s \<Rightarrow> Inr s), sig_to_der = (\<lambda>s. Inr (48 # s)),
      sig_sign = (\<lambda>d _. Inr (digest_bytes d)), sig_verify = (\<lambda>s d _. Inr (s = digest_bytes d))\<rparr>"

definition sample_batch :: batch where
  "sample_batch =
     \<lparr>producer_id = ''p1'', batch_seq = 1, prev_hash = [], batch_hash = [], signature = [],
      signer_cert_sha256 = [], batch_label = Some \<lparr>marking = ''U'', caveats = []\<rparr>, measurements = [],
      batch_provenance = None, batch_tai_ns = 100, shard_key = ''s1''\<rparr>"

text \<open>The sample batch signed after a previous hash.\<close>

definition sample_signed :: "bytes \<Rightarrow> batch \<Rightarrow> batch" where
  "sample_signed prev b =
     b\<lparr>prev_hash := prev, batch_hash := digest_bytes 0, signature := 48 # digest_bytes 0\<rparr>"

lemma sample_sign: "sign_batch (\<lambda>_. 0) enc sample_ecdsa b prev () = Inr (sample_signed prev b)"
  by (simp add: sign_batch_def sign_digest_def sample_ecdsa_def sample_signed_def compute_batch_hash_def Let_def)

theorem signed_batch_verifies_witness:
  "verify_batch (\<lambda>_. 0) (\<lambda>_. [1]) sample_ecdsa (sample_signed GENESIS sample_batch) () =
     Inr (batch_link (\<lambda>_. 0) (\<lambda>_. [1]) GENESIS (sample_signed GENESIS sample_batch))"
  using signed_batch_verifies [OF sample_sign [of "\<lambda>_. [1]" sample_batch GENESIS], where pk = "()"]
  by (simp add: sample_ecdsa_def)

end
