(* ===== verification/Edge_Chain.thy ===== *)
theory Edge_Chain
  imports Edge_Hash Path_Id
begin

text \<open>
  \<open>av-edge\<close>, \<open>policy.rs\<close> and \<open>chain.rs\<close>: what a producer may emit, the verifier an ingest runs
  on one batch after another against per-producer state, and the walker that checks a slice
  of batches after the fact. Texts of verdicts are constructors with the values they print.
\<close>

section \<open>Rejections\<close>

datatype batch_rejection =
    RejUnspecified | RejUnsigned | RejBadSignature | RejChainGap | RejChainBreak | RejMislabeled
  | RejOverClearance | RejStale | RejDuplicate | RejShardMismatch

section \<open>Policies\<close>

record producer_policy =
  pol_producer_id :: string
  emit_marking :: string
  emit_caveats :: "string list"
  clearance_ladder :: "string list"
  clearance :: string
  max_age_ns :: i64

datatype policy_error = ClearanceNotOnLadder string "string list"

definition new_policy ::
  "string \<Rightarrow> string \<Rightarrow> string list \<Rightarrow> string list \<Rightarrow> string \<Rightarrow> i64 \<Rightarrow> policy_error + producer_policy" where
  "new_policy pid em ec ladder cl age =
     (if cl \<notin> set ladder then Inl (ClearanceNotOnLadder cl ladder)
      else Inr \<lparr>pol_producer_id = pid, emit_marking = em, emit_caveats = ec, clearance_ladder = ladder,
                clearance = cl, max_age_ns = age\<rparr>)"

text \<open>\<open>iter().position(|m| m == x)\<close>.\<close>

fun position :: "'a \<Rightarrow> 'a list \<Rightarrow> nat option" where
  "position x [] = None"
| "position x (y # ys) = (if x = y then Some 0 else map_option Suc (position x ys))"

text \<open>
  \<open>new_policy\<close> is the only constructor, so the clearance is on the ladder and the panic of
  \<open>clearance_rank\<close> (here the value beyond every rank) is not reached: \<open>new_policy_ranked\<close>.
\<close>

definition clearance_rank :: "producer_policy \<Rightarrow> nat" where
  "clearance_rank p =
     (case position (clearance p) (clearance_ladder p) of Some r \<Rightarrow> r | None \<Rightarrow> length (clearance_ladder p))"

definition caveat_sets_equal :: "string list \<Rightarrow> string list \<Rightarrow> bool" where
  "caveat_sets_equal a b \<longleftrightarrow> sort a = sort b"

definition classify_label :: "producer_policy \<Rightarrow> label \<Rightarrow> batch_rejection option" where
  "classify_label p l =
     (if marking l \<noteq> emit_marking p \<or> \<not> caveat_sets_equal (caveats l) (emit_caveats p) then Some RejMislabeled
      else
        case position (marking l) (clearance_ladder p) of
          None \<Rightarrow> Some RejMislabeled
        | Some r \<Rightarrow> if clearance_rank p < r then Some RejOverClearance else None)"

definition is_stale :: "producer_policy \<Rightarrow> i64 \<Rightarrow> i64 \<Rightarrow> bool" where
  "is_stale p batch_tai now \<longleftrightarrow> max_age_ns p < sat_i64 (now - batch_tai)"

section \<open>The verifier\<close>

record rejection_counters =
  rc_producer_id :: string
  rc_accepted :: u64
  rc_unsigned :: u64
  rc_bad_signature :: u64
  rc_chain_gap :: u64
  rc_chain_break :: u64
  rc_mislabeled :: u64
  rc_over_clearance :: u64
  rc_stale :: u64
  rc_duplicate :: u64
  rc_chain_head :: bytes
  rc_shard_mismatch :: u64

record producer_state =
  last_accepted_sequence :: "u64 option"
  seen_sequences :: "u64 set"
  ps_counters :: rejection_counters

definition new_counters :: "string \<Rightarrow> rejection_counters" where
  "new_counters pid =
     \<lparr>rc_producer_id = pid, rc_accepted = 0, rc_unsigned = 0, rc_bad_signature = 0, rc_chain_gap = 0,
      rc_chain_break = 0, rc_mislabeled = 0, rc_over_clearance = 0, rc_stale = 0, rc_duplicate = 0,
      rc_chain_head = GENESIS, rc_shard_mismatch = 0\<rparr>"

definition new_producer_state :: "string \<Rightarrow> producer_state" where
  "new_producer_state pid =
     \<lparr>last_accepted_sequence = None, seen_sequences = {}, ps_counters = new_counters pid\<rparr>"

type_synonym chain_verifier = "string \<rightharpoonup> producer_state"

fun bump_counter :: "batch_rejection \<Rightarrow> rejection_counters \<Rightarrow> rejection_counters" where
  "bump_counter RejUnspecified c = c"
| "bump_counter RejUnsigned c = c\<lparr>rc_unsigned := rc_unsigned c + 1\<rparr>"
| "bump_counter RejBadSignature c = c\<lparr>rc_bad_signature := rc_bad_signature c + 1\<rparr>"
| "bump_counter RejChainGap c = c\<lparr>rc_chain_gap := rc_chain_gap c + 1\<rparr>"
| "bump_counter RejChainBreak c = c\<lparr>rc_chain_break := rc_chain_break c + 1\<rparr>"
| "bump_counter RejMislabeled c = c\<lparr>rc_mislabeled := rc_mislabeled c + 1\<rparr>"
| "bump_counter RejOverClearance c = c\<lparr>rc_over_clearance := rc_over_clearance c + 1\<rparr>"
| "bump_counter RejStale c = c\<lparr>rc_stale := rc_stale c + 1\<rparr>"
| "bump_counter RejDuplicate c = c\<lparr>rc_duplicate := rc_duplicate c + 1\<rparr>"
| "bump_counter RejShardMismatch c = c"

datatype verdict_detail =
    EmptySignature | VerifyText verify_error | AlreadyAccepted u64 string | ExpectedSequence u64 u64
  | DoesNotExtend u64 u64 | PrevHashText u64 | FirstNotGenesis string
  | LabelText label batch_rejection | TooOld i64 i64 i64 | AcceptedText
  | ShardUnusable string path_id_error | ShardDisagrees string string string

record batch_verdict =
  vd_accepted :: bool
  vd_rejection :: batch_rejection
  vd_producer_id :: string
  vd_sequence :: u64
  vd_batch_hash :: bytes
  vd_detail :: verdict_detail

definition default_label :: label where
  "default_label = \<lparr>marking = [], caveats = []\<rparr>"

text \<open>The body of the \<open>'check\<close> block: the first defect of a batch, in the order of the code.\<close>

definition first_defect ::
  "(bytes \<Rightarrow> digest) \<Rightarrow> (batch \<Rightarrow> bytes) \<Rightarrow> ('p, 'k, 's) ecdsa \<Rightarrow> producer_policy \<Rightarrow> 'k \<Rightarrow> i64 \<Rightarrow>
     producer_state \<Rightarrow> batch \<Rightarrow> (batch_rejection \<times> verdict_detail) option" where
  "first_defect sha enc ec p key now st b =
     (if signature b = [] then Some (RejUnsigned, EmptySignature)
      else
        case verify_batch sha enc ec b key of
          Inl NotSigned \<Rightarrow> Some (RejUnsigned, EmptySignature)
        | Inl e \<Rightarrow> Some (RejBadSignature, VerifyText e)
        | Inr _ \<Rightarrow>
           (let sq = batch_seq b; linked = (prev_hash b = rc_chain_head (ps_counters st));
                defect =
                  (case last_accepted_sequence st of
                     Some lst \<Rightarrow>
                       if sq \<in> seen_sequences st then Some (RejDuplicate, AlreadyAccepted sq (producer_id b))
                       else if lst + 1 < sq then Some (RejChainGap, ExpectedSequence (lst + 1) sq)
                       else if sq < lst + 1 then Some (RejChainGap, DoesNotExtend sq lst)
                       else if \<not> linked then Some (RejChainBreak, PrevHashText sq)
                       else None
                   | None \<Rightarrow> if \<not> linked then Some (RejChainBreak, FirstNotGenesis (producer_id b)) else None);
                l = (case batch_label b of Some l \<Rightarrow> l | None \<Rightarrow> default_label)
            in case defect of
                 Some d \<Rightarrow> Some d
               | None \<Rightarrow>
                   (case classify_label p l of
                      Some r \<Rightarrow> Some (r, LabelText l r)
                    | None \<Rightarrow>
                        if is_stale p (batch_tai_ns b) now
                        then Some (RejStale, TooOld (batch_tai_ns b) (max_age_ns p) now) else None)))"

definition chain_submit ::
  "(bytes \<Rightarrow> digest) \<Rightarrow> (batch \<Rightarrow> bytes) \<Rightarrow> ('p, 'k, 's) ecdsa \<Rightarrow> batch \<Rightarrow> producer_policy \<Rightarrow> 'k \<Rightarrow> i64 \<Rightarrow>
     chain_verifier \<Rightarrow> batch_verdict \<times> chain_verifier" where
  "chain_submit sha enc ec b p key now v =
     (let st = (case v (producer_id b) of Some st \<Rightarrow> st | None \<Rightarrow> new_producer_state (producer_id b));
          c = ps_counters st
      in case first_defect sha enc ec p key now st b of
           Some (r, d) \<Rightarrow>
             (\<lparr>vd_accepted = False, vd_rejection = r, vd_producer_id = producer_id b, vd_sequence = batch_seq b,
               vd_batch_hash = batch_hash b, vd_detail = d\<rparr>,
              v(producer_id b \<mapsto> st\<lparr>ps_counters := bump_counter r c\<rparr>))
         | None \<Rightarrow>
             (\<lparr>vd_accepted = True, vd_rejection = RejUnspecified, vd_producer_id = producer_id b,
               vd_sequence = batch_seq b, vd_batch_hash = batch_hash b, vd_detail = AcceptedText\<rparr>,
              v(producer_id b \<mapsto>
                  \<lparr>last_accepted_sequence = Some (batch_seq b),
                   seen_sequences = insert (batch_seq b) (seen_sequences st),
                   ps_counters = c\<lparr>rc_accepted := rc_accepted c + 1, rc_chain_head := batch_hash b\<rparr>\<rparr>)))"

definition verifier_counters :: "string \<Rightarrow> chain_verifier \<Rightarrow> rejection_counters option" where
  "verifier_counters pid v = map_option ps_counters (v pid)"

section \<open>The walker\<close>

datatype walk_detail = WalkIntact | WalkPrevHash u64 | WalkUnsigned u64 | WalkTampered u64 | WalkError u64 verify_error

record chain_verification =
  ck_producer_id :: string
  ck_ok :: bool
  ck_checked :: u64
  ck_broken_at :: u64
  ck_detail :: walk_detail

fun walk_loop ::
  "(bytes \<Rightarrow> digest) \<Rightarrow> (batch \<Rightarrow> bytes) \<Rightarrow> ('p, 'k, 's) ecdsa \<Rightarrow> string \<Rightarrow> 'k \<Rightarrow> bytes \<Rightarrow> u64 \<Rightarrow> batch list \<Rightarrow>
     chain_verification" where
  "walk_loop sha enc ec pid key prev n [] =
     \<lparr>ck_producer_id = pid, ck_ok = True, ck_checked = n, ck_broken_at = 0, ck_detail = WalkIntact\<rparr>"
| "walk_loop sha enc ec pid key prev n (b # bs) =
     (let broken = (\<lambda>d. \<lparr>ck_producer_id = pid, ck_ok = False, ck_checked = n, ck_broken_at = batch_seq b,
                         ck_detail = d\<rparr>)
      in if prev_hash b \<noteq> prev then broken (WalkPrevHash (batch_seq b))
         else
           case verify_batch sha enc ec b key of
             Inr d \<Rightarrow> walk_loop sha enc ec pid key (digest_bytes d) (n + 1) bs
           | Inl NotSigned \<Rightarrow> broken (WalkUnsigned (batch_seq b))
           | Inl HashMismatch \<Rightarrow> broken (WalkTampered (batch_seq b))
           | Inl e \<Rightarrow> broken (WalkError (batch_seq b) e))"

definition walk_chain ::
  "(bytes \<Rightarrow> digest) \<Rightarrow> (batch \<Rightarrow> bytes) \<Rightarrow> ('p, 'k, 's) ecdsa \<Rightarrow> string \<Rightarrow> batch list \<Rightarrow> 'k \<Rightarrow> chain_verification" where
  "walk_chain sha enc ec pid bs key = walk_loop sha enc ec pid key GENESIS 0 bs"

section \<open>Lemmas on the operations\<close>

lemma position_None [simp]: "position x xs = None \<longleftrightarrow> x \<notin> set xs"
  by (induction xs) auto

lemma new_policy_ranked: "new_policy pid em ec ladder cl age = Inr p \<Longrightarrow> position (clearance p) (clearance_ladder p) \<noteq> None"
  by (auto simp: new_policy_def split: if_splits)

text \<open>
  The abstract state of a producer is the list of the batches accepted so far; \<open>accepts\<close> says
  when the next one joins it, \<open>verified_chain\<close> what the walker looks for, and
  \<open>tracks\<close> ties the verifier's state to the list.
\<close>

abbreviation head_of :: "(bytes \<Rightarrow> digest) \<Rightarrow> (batch \<Rightarrow> bytes) \<Rightarrow> batch list \<Rightarrow> bytes" where
  "head_of sha enc bs \<equiv> chain_head (batch_link sha enc) GENESIS bs"

definition verifies :: "(bytes \<Rightarrow> digest) \<Rightarrow> (batch \<Rightarrow> bytes) \<Rightarrow> ('p, 'k, 's) ecdsa \<Rightarrow> 'k \<Rightarrow> batch \<Rightarrow> bool" where
  "verifies sha enc ec key b \<longleftrightarrow>
     batch_hash b = digest_bytes (batch_link sha enc (prev_hash b) b) \<and>
     signs ec key (batch_link sha enc (prev_hash b) b) (signature b)"

definition accepts ::
  "(bytes \<Rightarrow> digest) \<Rightarrow> (batch \<Rightarrow> bytes) \<Rightarrow> ('p, 'k, 's) ecdsa \<Rightarrow> producer_policy \<Rightarrow> 'k \<Rightarrow> i64 \<Rightarrow> batch list \<Rightarrow>
     batch \<Rightarrow> bool" where
  "accepts sha enc ec p key now bs b \<longleftrightarrow>
     verifies sha enc ec key b \<and> prev_hash b = head_of sha enc bs \<and>
     (bs \<noteq> [] \<longrightarrow> batch_seq b = batch_seq (last bs) + 1 \<and> batch_seq b \<notin> batch_seq ` set bs) \<and>
     classify_label p (case batch_label b of Some l \<Rightarrow> l | None \<Rightarrow> default_label) = None \<and>
     \<not> is_stale p (batch_tai_ns b) now"

definition tracks :: "(bytes \<Rightarrow> digest) \<Rightarrow> (batch \<Rightarrow> bytes) \<Rightarrow> batch list \<Rightarrow> producer_state \<Rightarrow> bool" where
  "tracks sha enc bs st \<longleftrightarrow>
     last_accepted_sequence st = (if bs = [] then None else Some (batch_seq (last bs))) \<and>
     seen_sequences st = batch_seq ` set bs \<and>
     rc_chain_head (ps_counters st) = head_of sha enc bs"

definition state_of :: "chain_verifier \<Rightarrow> string \<Rightarrow> producer_state" where
  "state_of v pid = (case v pid of Some st \<Rightarrow> st | None \<Rightarrow> new_producer_state pid)"

lemma tracks_new [simp]: "tracks sha enc [] (new_producer_state pid)"
  by (simp add: tracks_def new_producer_state_def new_counters_def)

lemma bump_counter_head [simp]: "rc_chain_head (bump_counter r c) = rc_chain_head c"
  by (cases r) simp_all

lemma tracks_bump: "tracks sha enc bs st \<Longrightarrow> tracks sha enc bs (st\<lparr>ps_counters := bump_counter r (ps_counters st)\<rparr>)"
  by (simp add: tracks_def)

lemma verify_batch_verifies:
  "(\<exists>d. verify_batch sha enc ec b key = Inr d) \<longleftrightarrow> verifies sha enc ec key b"
  by (auto simp: verify_batch_Inr verifies_def)

lemma first_defect_None:
  assumes "tracks sha enc bs st"
  shows "first_defect sha enc ec p key now st b = None \<longleftrightarrow> accepts sha enc ec p key now bs b"
proof (cases "verify_batch sha enc ec b key")
  case (Inl e)
  then have "\<not> verifies sha enc ec key b" by (metis verify_batch_verifies Inl_Inr_False)
  then show ?thesis using Inl by (simp add: first_defect_def accepts_def split: verify_error.split)
next
  case (Inr d)
  then have v: "verifies sha enc ec key b" by (metis verify_batch_verifies)
  then have "signature b \<noteq> []" by (simp add: verifies_def signs_def)
  then show ?thesis using assms Inr v
    by (auto simp: first_defect_def accepts_def tracks_def Let_def split: option.split if_splits)
qed

lemma chain_submit_cases:
  assumes "tracks sha enc bs (state_of v (producer_id b))"
  shows "vd_accepted (fst (chain_submit sha enc ec b p key now v)) \<longleftrightarrow> accepts sha enc ec p key now bs b"
    and "tracks sha enc (if accepts sha enc ec p key now bs b then bs @ [b] else bs)
      (state_of (snd (chain_submit sha enc ec b p key now v)) (producer_id b))"
    and "q \<noteq> producer_id b \<Longrightarrow> snd (chain_submit sha enc ec b p key now v) q = v q"
proof -
  note fd = first_defect_None [OF assms, of ec p key now b, unfolded state_of_def]
  show "vd_accepted (fst (chain_submit sha enc ec b p key now v)) \<longleftrightarrow> accepts sha enc ec p key now bs b"
    using fd by (auto simp: chain_submit_def Let_def split: option.splits)
  show "tracks sha enc (if accepts sha enc ec p key now bs b then bs @ [b] else bs)
      (state_of (snd (chain_submit sha enc ec b p key now v)) (producer_id b))"
  proof (cases "first_defect sha enc ec p key now (state_of v (producer_id b)) b")
    case None
    then have a: "accepts sha enc ec p key now bs b" using first_defect_None [OF assms, of ec p key now b] by simp
    then have "batch_hash b = digest_bytes (batch_link sha enc (head_of sha enc bs) b)"
      by (simp add: accepts_def verifies_def)
    then show ?thesis using None a assms
      by (simp add: chain_submit_def state_of_def tracks_def Let_def insert_commute)
  next
    case (Some rd)
    then have a: "\<not> accepts sha enc ec p key now bs b" using first_defect_None [OF assms, of ec p key now b] by simp
    obtain r d where "rd = (r, d)" by (cases rd)
    then show ?thesis using Some a tracks_bump [OF assms, of r]
      by (simp add: chain_submit_def state_of_def Let_def)
  qed
  show "snd (chain_submit sha enc ec b p key now v) q = v q" if "q \<noteq> producer_id b"
    using that by (simp add: chain_submit_def Let_def split: option.split)
qed

section \<open>Chains of batches\<close>

fun verified_chain ::
  "(bytes \<Rightarrow> digest) \<Rightarrow> (batch \<Rightarrow> bytes) \<Rightarrow> ('p, 'k, 's) ecdsa \<Rightarrow> 'k \<Rightarrow> bytes \<Rightarrow> batch list \<Rightarrow> bool" where
  "verified_chain sha enc ec key prev [] \<longleftrightarrow> True"
| "verified_chain sha enc ec key prev (b # bs) \<longleftrightarrow>
     prev_hash b = prev \<and> verifies sha enc ec key b \<and> verified_chain sha enc ec key (batch_hash b) bs"

lemma verified_chain_snoc:
  "verified_chain sha enc ec key prev (bs @ [b]) \<longleftrightarrow>
     verified_chain sha enc ec key prev bs \<and> prev_hash b = chain_head (batch_link sha enc) prev bs \<and>
     verifies sha enc ec key b"
proof (induction bs arbitrary: prev)
  case (Cons x xs)
  show ?case
  proof (cases "prev_hash x = prev \<and> verifies sha enc ec key x")
    case True
    then have "digest_bytes (batch_link sha enc prev x) = batch_hash x" by (auto simp: verifies_def)
    with True show ?thesis using Cons.IH [of "batch_hash x"] by (simp only: append_Cons verified_chain.simps chain_head_Cons simp_thms)
  next
    case False
    then show ?thesis by (simp only: append_Cons verified_chain.simps) blast
  qed
qed simp

definition numbered :: "batch list \<Rightarrow> bool" where
  "numbered bs \<longleftrightarrow> (\<forall>i < length bs. batch_seq (bs ! i) = batch_seq (hd bs) + of_nat i) \<and> distinct (map batch_seq bs)"

lemma numbered_snoc:
  assumes "numbered bs" "bs \<noteq> [] \<longrightarrow> batch_seq b = batch_seq (last bs) + 1 \<and> batch_seq b \<notin> batch_seq ` set bs"
  shows "numbered (bs @ [b])"
proof (cases "bs = []")
  case True
  then show ?thesis by (simp add: numbered_def)
next
  case False
  then have "last bs = bs ! (length bs - 1)" "length bs - 1 < length bs" by (simp_all add: last_conv_nth)
  then have "batch_seq (last bs) = batch_seq (hd bs) + of_nat (length bs - 1)"
    using assms(1) unfolding numbered_def by metis
  moreover have "(of_nat (length bs) :: u64) = of_nat (length bs - 1) + 1"
    using False by (metis Suc_pred' add.commute length_greater_0_conv of_nat_Suc)
  ultimately have new: "batch_seq b = batch_seq (hd bs) + of_nat (length bs)"
    using assms(2) False by (simp only: add.assoc simp_thms)
  have "batch_seq ((bs @ [b]) ! i) = batch_seq (hd bs) + of_nat i" if "i < length (bs @ [b])" for i
  proof (cases "i < length bs")
    case True
    then show ?thesis using assms(1) by (simp only: numbered_def nth_append if_True)
  next
    case no: False
    with that have "i = length bs" by simp
    then show ?thesis by (simp only: nth_append_length new)
  qed
  moreover have "distinct (map batch_seq bs)" "batch_seq b \<notin> batch_seq ` set bs"
    using assms False unfolding numbered_def by blast+
  then have "distinct (map batch_seq (bs @ [b]))" "hd (bs @ [b]) = hd bs"
    using False by simp_all
  ultimately show ?thesis unfolding numbered_def by metis
qed

text \<open>One submission after another; the batches accepted so far are kept beside the verifier.\<close>

definition submit_step ::
  "(bytes \<Rightarrow> digest) \<Rightarrow> (batch \<Rightarrow> bytes) \<Rightarrow> ('p, 'k, 's) ecdsa \<Rightarrow> (string \<Rightarrow> 'k) \<Rightarrow>
     chain_verifier \<times> batch list \<Rightarrow> batch \<times> producer_policy \<times> i64 \<Rightarrow> chain_verifier \<times> batch list" where
  "submit_step sha enc ec key_of s e =
     (case (s, e) of ((v, acc), (b, p, now)) \<Rightarrow>
        (case chain_submit sha enc ec b p (key_of (producer_id b)) now v of
           (vd, v') \<Rightarrow> (v', if vd_accepted vd then acc @ [b] else acc)))"

abbreviation of_producer :: "string \<Rightarrow> batch list \<Rightarrow> batch list" where
  "of_producer pid \<equiv> filter (\<lambda>b. producer_id b = pid)"

definition verifier_inv ::
  "(bytes \<Rightarrow> digest) \<Rightarrow> (batch \<Rightarrow> bytes) \<Rightarrow> ('p, 'k, 's) ecdsa \<Rightarrow> (string \<Rightarrow> 'k) \<Rightarrow> chain_verifier \<times> batch list \<Rightarrow>
     bool" where
  "verifier_inv sha enc ec key_of s \<longleftrightarrow>
     (\<forall>pid. tracks sha enc (of_producer pid (snd s)) (state_of (fst s) pid) \<and>
        verified_chain sha enc ec (key_of pid) GENESIS (of_producer pid (snd s)) \<and>
        numbered (of_producer pid (snd s)))"

lemma submit_step_inv:
  assumes "verifier_inv sha enc ec key_of s"
  shows "verifier_inv sha enc ec key_of (submit_step sha enc ec key_of s e)"
proof -
  obtain v acc b p now where se: "s = (v, acc)" "e = (b, p, now)" by (metis prod_cases3 surj_pair)
  let ?bs = "of_producer (producer_id b) acc"
  let ?key = "key_of (producer_id b)"
  let ?a = "accepts sha enc ec p ?key now ?bs b"
  let ?r = "chain_submit sha enc ec b p ?key now v"
  have t: "tracks sha enc ?bs (state_of v (producer_id b))"
    and c: "verified_chain sha enc ec ?key GENESIS ?bs" "numbered ?bs"
    using assms by (simp_all add: verifier_inv_def se)
  note r = chain_submit_cases(1,2) [OF t, of ec p ?key now]
  have step: "submit_step sha enc ec key_of s e = (snd ?r, if ?a then acc @ [b] else acc)"
    using r(1) by (cases ?r) (simp add: submit_step_def se)
  have "?a \<Longrightarrow> verified_chain sha enc ec ?key GENESIS (?bs @ [b]) \<and> numbered (?bs @ [b])"
    using c numbered_snoc [OF c(2), of b] unfolding verified_chain_snoc accepts_def by blast
  then have own: "tracks sha enc (if ?a then ?bs @ [b] else ?bs) (state_of (snd ?r) (producer_id b)) \<and>
      verified_chain sha enc ec ?key GENESIS (if ?a then ?bs @ [b] else ?bs) \<and>
      numbered (if ?a then ?bs @ [b] else ?bs)"
    using r(2) c by simp
  have same: "state_of (snd ?r) pid = state_of v pid" if "pid \<noteq> producer_id b" for pid
    unfolding state_of_def by (subst chain_submit_cases(3) [OF t that]) (rule refl)
  show ?thesis
    unfolding verifier_inv_def step
  proof
    fix pid
    show "tracks sha enc (of_producer pid (snd (snd ?r, if ?a then acc @ [b] else acc)))
        (state_of (fst (snd ?r, if ?a then acc @ [b] else acc)) pid) \<and>
      verified_chain sha enc ec (key_of pid) GENESIS (of_producer pid (snd (snd ?r, if ?a then acc @ [b] else acc))) \<and>
      numbered (of_producer pid (snd (snd ?r, if ?a then acc @ [b] else acc)))"
    proof (cases "pid = producer_id b")
      case True
      then show ?thesis using own by (simp split: if_splits)
    next
      case False
      then show ?thesis using assms same [OF False] by (simp add: verifier_inv_def se)
    qed
  qed
qed

interpretation verifier_machine: guarded_machine "submit_step sha enc ec key_of" "\<lambda>_. True" "verifier_inv sha enc ec key_of"
  for sha enc ec key_of
  by unfold_locales (rule submit_step_inv)

definition run_submits ::
  "(bytes \<Rightarrow> digest) \<Rightarrow> (batch \<Rightarrow> bytes) \<Rightarrow> ('p, 'k, 's) ecdsa \<Rightarrow> (string \<Rightarrow> 'k) \<Rightarrow>
     (batch \<times> producer_policy \<times> i64) list \<Rightarrow> chain_verifier \<times> batch list" where
  "run_submits sha enc ec key_of es = foldl (submit_step sha enc ec key_of) (Map.empty, []) es"

lemma run_submits_inv: "verifier_inv sha enc ec key_of (run_submits sha enc ec key_of es)"
proof -
  have "verifier_inv sha enc ec key_of (Map.empty, [])"
    by (simp add: verifier_inv_def state_of_def numbered_def)
  then show ?thesis unfolding run_submits_def by (rule verifier_machine.run_inv) (simp add: list_all_iff)
qed

lemma walk_loop_verified:
  "verified_chain sha enc ec key prev bs \<Longrightarrow>
   walk_loop sha enc ec pid key prev n bs =
     \<lparr>ck_producer_id = pid, ck_ok = True, ck_checked = n + of_nat (length bs), ck_broken_at = 0, ck_detail = WalkIntact\<rparr>"
proof (induction bs arbitrary: prev n)
  case (Cons b bs)
  then have v: "verifies sha enc ec key b" by simp
  then have "verify_batch sha enc ec b key = Inr (batch_link sha enc (prev_hash b) b)"
    "batch_hash b = digest_bytes (batch_link sha enc (prev_hash b) b)"
    by (simp_all add: verify_batch_Inr verifies_def)
  moreover have "verified_chain sha enc ec key (batch_hash b) bs" "prev_hash b = prev" using Cons.prems by simp_all
  ultimately show ?case using Cons.IH [of "batch_hash b" "n + 1"] by (simp add: add.assoc)
qed simp

lemma walk_loop_broken:
  "\<not> verified_chain sha enc ec key prev bs \<Longrightarrow>
   \<exists>i < length bs. verified_chain sha enc ec key prev (take i bs) \<and>
     \<not> verified_chain sha enc ec key prev (take (Suc i) bs) \<and>
     \<not> ck_ok (walk_loop sha enc ec pid key prev n bs) \<and>
     ck_checked (walk_loop sha enc ec pid key prev n bs) = n + of_nat i \<and>
     ck_broken_at (walk_loop sha enc ec pid key prev n bs) = batch_seq (bs ! i)"
proof (induction bs arbitrary: prev n)
  case (Cons b bs)
  show ?case
  proof (cases "prev_hash b = prev \<and> verifies sha enc ec key b")
    case True
    then have v: "verify_batch sha enc ec b key = Inr (batch_link sha enc prev b)"
      "batch_hash b = digest_bytes (batch_link sha enc prev b)"
      by (auto simp: verify_batch_Inr verifies_def)
    have "\<not> verified_chain sha enc ec key (batch_hash b) bs" using Cons.prems True by simp
    from Cons.IH [OF this, of "n + 1"] obtain i where "i < length bs"
      "verified_chain sha enc ec key (batch_hash b) (take i bs)"
      "\<not> verified_chain sha enc ec key (batch_hash b) (take (Suc i) bs)"
      "\<not> ck_ok (walk_loop sha enc ec pid key (batch_hash b) (n + 1) bs)"
      "ck_checked (walk_loop sha enc ec pid key (batch_hash b) (n + 1) bs) = n + 1 + of_nat i"
      "ck_broken_at (walk_loop sha enc ec pid key (batch_hash b) (n + 1) bs) = batch_seq (bs ! i)"
      by blast
    then show ?thesis using True v by (intro exI [of _ "Suc i"]) (simp add: add.assoc)
  next
    case False
    have "verify_batch sha enc ec b key \<noteq> Inr d" if "prev_hash b = prev" for d
      using False that by (auto simp: verify_batch_Inr verifies_def)
    then show ?thesis using False
      by (intro exI [of _ 0]) (auto simp: Let_def split: sum.split verify_error.split)
  qed
qed simp

section \<open>Counters\<close>

definition rc_total :: "rejection_counters \<Rightarrow> u64" where
  "rc_total c =
     rc_accepted c + rc_unsigned c + rc_bad_signature c + rc_chain_gap c + rc_chain_break c + rc_mislabeled c +
     rc_over_clearance c + rc_stale c + rc_duplicate c"

lemma first_defect_counted:
  assumes "first_defect sha enc ec p key now st b = Some (r, d)"
  shows "rc_total (bump_counter r c) = rc_total c + 1"
proof -
  have "r \<noteq> RejUnspecified \<and> r \<noteq> RejShardMismatch"
    using assms
    by (auto simp: first_defect_def classify_label_def Let_def split: if_splits sum.splits verify_error.splits
        option.splits)
  then show ?thesis by (cases r) (simp_all add: rc_total_def)
qed

lemma chain_submit_counted:
  "rc_total (ps_counters (state_of (snd (chain_submit sha enc ec b p key now v)) pid)) =
     rc_total (ps_counters (state_of v pid)) + (if producer_id b = pid then 1 else 0)"
proof (cases "first_defect sha enc ec p key now (state_of v (producer_id b)) b")
  case None
  then show ?thesis by (auto simp: chain_submit_def state_of_def rc_total_def Let_def)
next
  case (Some rd)
  obtain r d where "rd = (r, d)" by (cases rd)
  with Some first_defect_counted [of sha enc ec p key now _ b r d] show ?thesis
    by (auto simp: chain_submit_def state_of_def Let_def)
qed

lemma run_submits_snoc:
  "run_submits sha enc ec key_of (es @ [e]) = submit_step sha enc ec key_of (run_submits sha enc ec key_of es) e"
  by (simp add: run_submits_def)

section \<open>Properties\<close>

text \<open>
  C5: the verifier implements its abstract specification, a list of accepted batches per
  producer: while its state tracks the list, \<open>submit\<close> accepts a batch exactly when the batch
  is genuine, links to the last accepted one, has the next sequence number, carries an
  allowed label and is fresh, and afterwards the state tracks the list extended by exactly
  the accepted batch; other producers are not touched.
\<close>

theorem chain_submit_refines:
  assumes "tracks sha enc bs (state_of v (producer_id b))"
    and "chain_submit sha enc ec b p key now v = (vd, v')"
  shows "(vd_accepted vd \<longleftrightarrow> accepts sha enc ec p key now bs b) \<and>
    tracks sha enc (if vd_accepted vd then bs @ [b] else bs) (state_of v' (producer_id b)) \<and>
    (\<forall>q. q \<noteq> producer_id b \<longrightarrow> v' q = v q)"
  using chain_submit_cases(1,2) [OF assms(1), of ec p key now]
    chain_submit_cases(3) [OF assms(1), of _ ec p key now] assms(2)
  by simp

text \<open>
  C36: the live verifier and the audit walker agree: whatever batches are submitted, in any
  order, by any producers, the batches accepted of one producer are numbered without a gap
  and without a repetition, and \<open>walk_chain\<close> over them answers that the chain is intact and
  has checked each of them.
\<close>

theorem accepted_batches_walk:
  "let bs = of_producer pid (snd (run_submits sha enc ec key_of es)) in
   walk_chain sha enc ec pid bs (key_of pid) =
      \<lparr>ck_producer_id = pid, ck_ok = True, ck_checked = of_nat (length bs), ck_broken_at = 0, ck_detail = WalkIntact\<rparr> \<and>
    numbered bs"
proof -
  let ?bs = "of_producer pid (snd (run_submits sha enc ec key_of es))"
  have "verified_chain sha enc ec (key_of pid) GENESIS ?bs" "numbered ?bs"
    using run_submits_inv [of sha enc ec key_of es] by (simp_all add: verifier_inv_def)
  then show ?thesis by (simp add: walk_chain_def walk_loop_verified)
qed

text \<open>
  Nothing is silent: after any run of submissions the counters of a producer add up to
  the number of batches submitted in its name, in 64-bit arithmetic.
\<close>

theorem every_submission_counted:
  "rc_total (ps_counters (state_of (fst (run_submits sha enc ec key_of es)) pid)) =
     of_nat (length (filter (\<lambda>e. producer_id (fst e) = pid) es))"
proof (induction es rule: rev_induct)
  case Nil
  show ?case by (simp add: run_submits_def state_of_def new_producer_state_def new_counters_def rc_total_def)
next
  case (snoc e es)
  obtain b p now where e: "e = (b, p, now)" by (cases e)
  obtain v acc where s: "run_submits sha enc ec key_of es = (v, acc)" by fastforce
  have "fst (submit_step sha enc ec key_of (v, acc) e) = snd (chain_submit sha enc ec b p (key_of (producer_id b)) now v)"
    by (simp add: submit_step_def e split: prod.split)
  then show ?case using snoc.IH by (simp add: run_submits_snoc s chain_submit_counted) (simp add: e)
qed

text \<open>
  \<open>walk_chain\<close> says ok exactly for a chain from GENESIS in which every batch links to its
  predecessor and verifies; otherwise it names the first batch at which this stops and how
  many came before. Two chains it says ok to, of equal length and with the same last hash,
  sign the same contents, absent a SHA-256 collision on their inputs.
\<close>

theorem walk_chain_exact:
  "(ck_ok (walk_chain sha enc ec pid bs key) \<longleftrightarrow> verified_chain sha enc ec key GENESIS bs) \<and>
   (\<not> ck_ok (walk_chain sha enc ec pid bs key) \<longrightarrow>
      (\<exists>i < length bs. verified_chain sha enc ec key GENESIS (take i bs) \<and>
         \<not> verified_chain sha enc ec key GENESIS (take (Suc i) bs) \<and>
         ck_checked (walk_chain sha enc ec pid bs key) = of_nat i \<and>
         ck_broken_at (walk_chain sha enc ec pid bs key) = batch_seq (bs ! i))) \<and>
   (ck_ok (walk_chain sha enc ec pid bs key) \<and> ck_ok (walk_chain sha enc ec pid cs key) \<and> length bs = length cs \<and>
      head_of sha enc bs = head_of sha enc cs \<and>
      inj_on sha (chain_inputs (batch_link sha enc) (canonical_body_bytes enc) GENESIS bs \<union>
        chain_inputs (batch_link sha enc) (canonical_body_bytes enc) GENESIS cs) \<longrightarrow>
      map (canonical_body_bytes enc) bs = map (canonical_body_bytes enc) cs)"
proof -
  have ok: "ck_ok (walk_chain sha enc ec pid xs key) \<longleftrightarrow> verified_chain sha enc ec key GENESIS xs" for xs
    using walk_loop_verified [of sha enc ec key GENESIS xs pid 0] walk_loop_broken [of sha enc ec key GENESIS xs pid 0]
    by (cases "verified_chain sha enc ec key GENESIS xs") (auto simp: walk_chain_def)
  then show ?thesis
    using walk_loop_broken [of sha enc ec key GENESIS bs pid 0] edge_chain.head_determines [of bs cs]
    by (auto simp: walk_chain_def)
qed

section \<open>Witnesses\<close>

definition sample_policy :: producer_policy where
  "sample_policy =
     \<lparr>pol_producer_id = ''p1'', emit_marking = ''U'', emit_caveats = [], clearance_ladder = [''U'', ''S''],
      clearance = ''U'', max_age_ns = 1000\<rparr>"

abbreviation sample_edge_batch :: batch where
  "sample_edge_batch \<equiv> sample_signed GENESIS sample_batch"

lemma sample_edge_batch_accepted:
  "accepts (\<lambda>_. 0) (\<lambda>_. [1]) sample_ecdsa sample_policy () 200 [] sample_edge_batch"
  by (simp add: accepts_def verifies_def signs_def sample_signed_def sample_ecdsa_def sample_batch_def sample_policy_def
      batch_link_def compute_batch_hash_def classify_label_def caveat_sets_equal_def clearance_rank_def is_stale_def
      sat_i64_def i64_min_def i64_max_def)

theorem chain_submit_refines_witness:
  "vd_accepted (fst (chain_submit (\<lambda>_. 0) (\<lambda>_. [1]) sample_ecdsa sample_edge_batch sample_policy () 200 Map.empty))"
proof -
  have t: "tracks (\<lambda>_. 0) (\<lambda>_. [1]) [] (state_of Map.empty (producer_id sample_edge_batch))"
    by (simp add: state_of_def)
  obtain vd v' where "chain_submit (\<lambda>_. 0) (\<lambda>_. [1]) sample_ecdsa sample_edge_batch sample_policy () 200 Map.empty = (vd, v')"
    by fastforce
  from chain_submit_refines [OF t this] this sample_edge_batch_accepted show ?thesis by simp
qed

theorem walk_chain_exact_witness:
  "ck_ok (walk_chain (\<lambda>_. 0) (\<lambda>_. [1]) sample_ecdsa ''p1'' [sample_edge_batch] ())"
proof -
  have "verified_chain (\<lambda>_. 0) (\<lambda>_. [1]) sample_ecdsa () GENESIS [sample_edge_batch]"
    using sample_edge_batch_accepted by (simp add: accepts_def)
  then show ?thesis
    using walk_chain_exact [of "\<lambda>_. 0" "\<lambda>_. [1]" sample_ecdsa "''p1''" "[sample_edge_batch]" "()"] by blast
qed

end
