(* ===== verification/Edge_Log.thy ===== *)
theory Edge_Log
  imports Edge_Hash
begin

text \<open>
  \<open>av-edge\<close>, \<open>buffer.rs\<close>, the durable half: records of a 4-byte little-endian payload length,
  the 32-byte record hash and the payload, chained by SHA-256 from GENESIS; the scan that
  finds a torn or corrupt last record, and the buffer's \<open>open\<close>, \<open>append\<close>, \<open>replay_from\<close> and
  \<open>persist_ack_watermark\<close>. The partition log of \<open>av-ingest\<close> has the same records and the same
  scan, and so has the job log of \<open>av-jobs\<close>: the lemmas serve all three.

  A disk is the contents of the log file and of its \<open>.ack\<close> file; what the file system refuses
  is an argument of each operation. Positions are natural numbers: a 64-bit \<open>usize\<close> holds them.
\<close>

section \<open>Frames\<close>

definition HEADER_LEN :: nat where "HEADER_LEN = 4 + 32"

lemma HEADER_LEN_pos [simp]: "0 < HEADER_LEN" "HEADER_LEN \<noteq> 0"
  by (simp_all add: HEADER_LEN_def)

record frame_ref =
  fr_start :: nat
  fr_stored_hash :: bytes
  fr_payload_start :: nat
  fr_payload_end :: nat

datatype discard_reason = IncompleteHeader nat | IncompletePayload nat nat | CorruptTail nat

text \<open>\<open>&bytes[a..b]\<close>.\<close>

definition byte_slice :: "nat \<Rightarrow> nat \<Rightarrow> 'a list \<Rightarrow> 'a list" where
  "byte_slice a b xs = take (b - a) (drop a xs)"

function scan_loop :: "bytes \<Rightarrow> nat \<Rightarrow> frame_ref list \<Rightarrow> frame_ref list \<times> (nat \<times> discard_reason) option" where
  "scan_loop bs pos frames =
     (if pos = length bs then (frames, None)
      else
        let remaining = length bs - pos in
        if remaining < HEADER_LEN then (frames, Some (pos, IncompleteHeader remaining))
        else
          let payload_len = le_to_nat (byte_slice pos (pos + 4) bs);
              stored = byte_slice (pos + 4) (pos + HEADER_LEN) bs;
              payload_start = pos + HEADER_LEN;
              payload_end = payload_start + payload_len
          in if length bs < payload_end
             then (frames, Some (pos, IncompletePayload payload_len (length bs - payload_start)))
             else scan_loop bs payload_end
                    (frames @ [\<lparr>fr_start = pos, fr_stored_hash = stored, fr_payload_start = payload_start,
                                fr_payload_end = payload_end\<rparr>]))"
  by pat_completeness auto
termination
  by (relation "measure (\<lambda>(bs, pos, _). length bs - pos)") (auto simp: HEADER_LEN_def)

declare scan_loop.simps [simp del]

definition scan_frames ::
  "(bytes \<Rightarrow> digest) \<Rightarrow> (bytes \<Rightarrow> 'x + 'b) \<Rightarrow> bytes \<Rightarrow> frame_ref list \<times> (nat \<times> discard_reason) option" where
  "scan_frames sha dec bs =
     (case scan_loop bs 0 [] of
        (frames, Some d) \<Rightarrow> (frames, Some d)
      | (frames, None) \<Rightarrow>
          if frames = [] then (frames, None)
          else
            let lst = last frames;
                prev = (if 2 \<le> length frames then fr_stored_hash (frames ! (length frames - 2)) else GENESIS);
                payload = byte_slice (fr_payload_start lst) (fr_payload_end lst) bs
            in if digest_bytes (compute_batch_hash sha prev payload) \<noteq> fr_stored_hash lst \<or> isl (dec payload)
               then (butlast frames, Some (fr_start lst, CorruptTail (length bs - fr_start lst)))
               else (frames, None))"

section \<open>The buffer\<close>

record disk =
  log_file :: "bytes option"
  ack_file :: "bytes option"

record edge_buffer =
  eb_disk :: disk
  eb_tip_hash :: bytes
  eb_record_count :: u64
  eb_ack_watermark :: u64

datatype 'x buffer_error =
    BufferIo | PayloadTooLarge nat | TornRecord u64 discard_reason | DigestMismatch u64 | BufferDecode u64 'x

record recovery_report =
  discarded_log_bytes :: nat
  log_reason :: "discard_reason option"
  ack_watermark_defaulted :: "nat option"

text \<open>
  What the file system does during \<open>open\<close>: the parent directory is there or can be made, the
  log can be read (any failure reads as an empty file), truncated and opened for appending,
  and the watermark file can be read (a missing one is no failure).
\<close>

record open_world =
  dir_ok :: bool
  log_read_ok :: bool
  truncate_ok :: bool
  log_open_ok :: bool
  ack_read_ok :: bool

definition read_watermark :: "bool \<Rightarrow> bytes option \<Rightarrow> 'x buffer_error + u64 \<times> nat option" where
  "read_watermark ok f =
     (case f of
        None \<Rightarrow> if ok then Inr (0, None) else Inl BufferIo
      | Some bs \<Rightarrow>
          if \<not> ok then Inl BufferIo
          else if length bs = 8 then Inr (of_nat (le_to_nat bs), None)
          else Inr (0, Some (length bs)))"

definition buffer_open ::
  "(bytes \<Rightarrow> digest) \<Rightarrow> (bytes \<Rightarrow> 'x + batch) \<Rightarrow> open_world \<Rightarrow> disk \<Rightarrow>
     ('x buffer_error + edge_buffer \<times> recovery_report option) \<times> disk" where
  "buffer_open sha dec w d =
     (if \<not> dir_ok w then (Inl BufferIo, d)
      else
        let bs = (if log_read_ok w then (case log_file d of Some bs \<Rightarrow> bs | None \<Rightarrow> []) else []) in
        case scan_frames sha dec bs of
          (frames, discard) \<Rightarrow>
            if discard \<noteq> None \<and> \<not> truncate_ok w then (Inl BufferIo, d)
            else
              let d1 = (case discard of
                          None \<Rightarrow> d
                        | Some (pos, _) \<Rightarrow> d\<lparr>log_file := map_option (take pos) (log_file d)\<rparr>);
                  log_recovery = map_option (\<lambda>(pos, why). (length bs - pos, why)) discard;
                  (tip, n) = (if frames = [] then (GENESIS, 0)
                              else (fr_stored_hash (last frames), of_nat (length frames)))
              in if \<not> log_open_ok w then (Inl BufferIo, d1)
                 else
                   let d2 = d1\<lparr>log_file := Some (case log_file d1 of Some bs \<Rightarrow> bs | None \<Rightarrow> [])\<rparr> in
                   case read_watermark (ack_read_ok w) (ack_file d2) of
                     Inl e \<Rightarrow> (Inl e, d2)
                   | Inr (wm, defaulted) \<Rightarrow>
                       (Inr (\<lparr>eb_disk = d2, eb_tip_hash = tip, eb_record_count = n, eb_ack_watermark = wm\<rparr>,
                             if log_recovery \<noteq> None \<or> defaulted \<noteq> None
                             then Some \<lparr>discarded_log_bytes = (case log_recovery of Some (k, _) \<Rightarrow> k | None \<Rightarrow> 0),
                                        log_reason = map_option snd log_recovery,
                                        ack_watermark_defaulted = defaulted\<rparr>
                             else None), d2))"

definition frame_bytes :: "(bytes \<Rightarrow> digest) \<Rightarrow> bytes \<Rightarrow> bytes \<Rightarrow> bytes" where
  "frame_bytes sha prev payload =
     nat_to_le 4 (length payload) @ digest_bytes (compute_batch_hash sha prev payload) @ payload"

definition contents :: "bytes option \<Rightarrow> bytes" where
  "contents f = (case f of Some bs \<Rightarrow> bs | None \<Rightarrow> [])"

definition buffer_append ::
  "(bytes \<Rightarrow> digest) \<Rightarrow> (batch \<Rightarrow> bytes) \<Rightarrow> write_outcome \<Rightarrow> batch \<Rightarrow> edge_buffer \<Rightarrow>
     ('x buffer_error + unit) \<times> edge_buffer" where
  "buffer_append sha enc w b buf =
     (let payload = enc b in
      if 2 ^ 32 - 1 < length payload then (Inl (PayloadTooLarge (length payload)), buf)
      else
        let h = compute_batch_hash sha (eb_tip_hash buf) payload;
            (ok, f) = append_file w (contents (log_file (eb_disk buf))) (frame_bytes sha (eb_tip_hash buf) payload);
            buf = buf\<lparr>eb_disk := (eb_disk buf)\<lparr>log_file := Some f\<rparr>\<rparr>
        in if ok
           then (Inr (), buf\<lparr>eb_tip_hash := digest_bytes h, eb_record_count := eb_record_count buf + 1\<rparr>)
           else (Inl BufferIo, buf))"

function replay_loop ::
  "(bytes \<Rightarrow> digest) \<Rightarrow> (bytes \<Rightarrow> 'x + batch) \<Rightarrow> u64 \<Rightarrow> bytes \<Rightarrow> nat \<Rightarrow> bytes \<Rightarrow> u64 \<Rightarrow> batch list \<Rightarrow>
     'x buffer_error + batch list" where
  "replay_loop sha dec wm bs pos prev index out =
     (if length bs \<le> pos then Inr out
      else
        let index = index + 1; remaining = length bs - pos in
        if remaining < HEADER_LEN then Inl (TornRecord index (IncompleteHeader remaining))
        else
          let payload_len = le_to_nat (byte_slice pos (pos + 4) bs);
              stored = byte_slice (pos + 4) (pos + HEADER_LEN) bs;
              payload_start = pos + HEADER_LEN;
              payload_end = payload_start + payload_len
          in if length bs < payload_end
             then Inl (TornRecord index (IncompletePayload payload_len (length bs - payload_start)))
             else
               let payload = byte_slice payload_start payload_end bs;
                   h = digest_bytes (compute_batch_hash sha prev payload)
               in if h \<noteq> stored then Inl (DigestMismatch index)
                  else
                    case dec payload of
                      Inl e \<Rightarrow> Inl (BufferDecode index e)
                    | Inr b \<Rightarrow>
                        replay_loop sha dec wm bs payload_end h index
                          (if wm < batch_seq b then out @ [b] else out))"
  by pat_completeness auto
termination
  by (relation "measure (\<lambda>(_, _, _, bs, pos, _, _, _). length bs - pos)") (auto simp: HEADER_LEN_def)

declare replay_loop.simps [simp del]

definition replay_from ::
  "(bytes \<Rightarrow> digest) \<Rightarrow> (bytes \<Rightarrow> 'x + batch) \<Rightarrow> bool \<Rightarrow> u64 \<Rightarrow> edge_buffer \<Rightarrow> 'x buffer_error + batch list" where
  "replay_from sha dec read_ok wm buf =
     (case log_file (eb_disk buf) of
        Some bs \<Rightarrow> if read_ok then replay_loop sha dec wm bs 0 GENESIS 0 [] else Inl BufferIo
      | None \<Rightarrow> Inl BufferIo)"

definition persist_ack_watermark ::
  "write_outcome \<Rightarrow> u64 \<Rightarrow> edge_buffer \<Rightarrow> ('x buffer_error + unit) \<times> edge_buffer" where
  "persist_ack_watermark w sq buf =
     (if w = OpenFail then (Inl BufferIo, buf)
      else
        let (ok, f) = append_file w [] (nat_to_le 8 (unat sq));
            buf = buf\<lparr>eb_disk := (eb_disk buf)\<lparr>ack_file := Some f\<rparr>\<rparr>
        in if ok then (Inr (), buf\<lparr>eb_ack_watermark := sq\<rparr>) else (Inl BufferIo, buf))"

section \<open>Lemmas on frames\<close>

text \<open>The bytes of a log with these payloads; \<open>link\<close> is the chain of its record hashes.\<close>

fun log_bytes :: "(bytes \<Rightarrow> digest) \<Rightarrow> bytes \<Rightarrow> bytes list \<Rightarrow> bytes" where
  "log_bytes sha prev [] = []"
| "log_bytes sha prev (p # ps) =
     frame_bytes sha prev p @ log_bytes sha (digest_bytes (compute_batch_hash sha prev p)) ps"

interpretation log_chain: hash_chain "compute_batch_hash sha" sha "\<lambda>p. p" for sha
  by unfold_locales (simp add: compute_batch_hash_def)

abbreviation log_head :: "(bytes \<Rightarrow> digest) \<Rightarrow> bytes list \<Rightarrow> bytes" where
  "log_head sha ps \<equiv> chain_head (compute_batch_hash sha) GENESIS ps"

definition fits :: "bytes \<Rightarrow> bool" where
  "fits p \<longleftrightarrow> length p < 2 ^ 32"

lemma log_bytes_snoc:
  "log_bytes sha prev (ps @ [p]) = log_bytes sha prev ps @ frame_bytes sha (chain_head (compute_batch_hash sha) prev ps) p"
  by (induction ps arbitrary: prev) (simp_all add: chain_head_Cons)

lemma length_frame_bytes [simp]: "length (frame_bytes sha prev p) = HEADER_LEN + length p"
  by (simp add: frame_bytes_def HEADER_LEN_def)

lemma slice_append: "byte_slice (length pre) (length pre + n) (pre @ xs) = take n xs"
  by (simp add: byte_slice_def)

lemma slice_skip: "byte_slice (length pre + a) (length pre + b) (pre @ xs) = byte_slice a b xs"
  by (simp add: byte_slice_def)

text \<open>What a reader sees at the start of a frame.\<close>

lemma frame_at:
  assumes "fits p" "bs = pre @ frame_bytes sha prev p @ rest"
  shows "le_to_nat (byte_slice (length pre) (length pre + 4) bs) = length p"
    and "byte_slice (length pre + 4) (length pre + HEADER_LEN) bs = digest_bytes (compute_batch_hash sha prev p)"
    and "byte_slice (length pre + HEADER_LEN) (length pre + HEADER_LEN + length p) bs = p"
    and "length pre + HEADER_LEN + length p \<le> length bs"
  using assms
  by (simp_all add: byte_slice_def frame_bytes_def HEADER_LEN_def fits_def le_to_nat_of_le)

text \<open>A torn frame: fewer bytes than the frame the writer was asked to append.\<close>

lemma torn_at:
  assumes "fits p" "n < length (frame_bytes sha prev p)" "bs = pre @ take n (frame_bytes sha prev p)" "HEADER_LEN \<le> n"
  shows "le_to_nat (byte_slice (length pre) (length pre + 4) bs) = length p"
    and "length bs < length pre + HEADER_LEN + length p"
  using assms
  by (simp_all add: byte_slice_def frame_bytes_def HEADER_LEN_def fits_def le_to_nat_of_le min_def)

fun refs_of :: "(bytes \<Rightarrow> digest) \<Rightarrow> bytes \<Rightarrow> nat \<Rightarrow> bytes list \<Rightarrow> frame_ref list" where
  "refs_of sha prev pos [] = []"
| "refs_of sha prev pos (p # ps) =
     \<lparr>fr_start = pos, fr_stored_hash = digest_bytes (compute_batch_hash sha prev p),
      fr_payload_start = pos + HEADER_LEN, fr_payload_end = pos + HEADER_LEN + length p\<rparr> #
     refs_of sha (digest_bytes (compute_batch_hash sha prev p)) (pos + HEADER_LEN + length p) ps"

lemma length_refs_of [simp]: "length (refs_of sha prev pos ps) = length ps"
  by (induction ps arbitrary: prev pos) simp_all

lemma refs_of_snoc:
  "refs_of sha prev pos (ps @ [p]) =
     refs_of sha prev pos ps @
     [\<lparr>fr_start = pos + length (log_bytes sha prev ps),
       fr_stored_hash = digest_bytes (compute_batch_hash sha (chain_head (compute_batch_hash sha) prev ps) p),
       fr_payload_start = pos + length (log_bytes sha prev ps) + HEADER_LEN,
       fr_payload_end = pos + length (log_bytes sha prev ps) + HEADER_LEN + length p\<rparr>]"
  by (induction ps arbitrary: prev pos) (simp_all add: chain_head_Cons ac_simps)

lemma scan_loop_frames:
  "list_all fits ps \<Longrightarrow>
   scan_loop (pre @ log_bytes sha prev ps @ tail) (length pre) frames =
     scan_loop (pre @ log_bytes sha prev ps @ tail) (length pre + length (log_bytes sha prev ps))
       (frames @ refs_of sha prev (length pre) ps)"
proof (induction ps arbitrary: pre prev frames)
  case (Cons p ps)
  let ?h = "digest_bytes (compute_batch_hash sha prev p)"
  let ?rest = "log_bytes sha ?h ps @ tail"
  let ?bs = "pre @ frame_bytes sha prev p @ ?rest"
  let ?pre = "pre @ frame_bytes sha prev p"
  have f: "fits p" using Cons.prems by simp
  note at = frame_at [OF f refl, of pre sha prev ?rest]
  have "scan_loop ?bs (length pre) frames = scan_loop ?bs (length pre + HEADER_LEN + length p)
      (frames @ [\<lparr>fr_start = length pre, fr_stored_hash = ?h, fr_payload_start = length pre + HEADER_LEN,
                  fr_payload_end = length pre + HEADER_LEN + length p\<rparr>])"
    using at by (subst scan_loop.simps) (simp add: Let_def)
  then show ?case
    using Cons.IH [of ?pre ?h] Cons.prems by (simp add: add.assoc)
qed simp

lemma scan_loop_tail:
  assumes "fits p" "n < length (frame_bytes sha prev p)"
  shows "\<exists>why. scan_loop (pre @ take n (frame_bytes sha prev p)) (length pre) frames =
    (frames, if n = 0 then None else Some (length pre, why))"
proof (cases "n < HEADER_LEN")
  case True
  then show ?thesis by (subst scan_loop.simps) (auto simp: Let_def)
next
  case False
  then show ?thesis
    using torn_at [OF assms refl, of pre] assms(2) by (subst scan_loop.simps) (auto simp: Let_def)
qed

lemma refs_prev_hash:
  assumes "2 \<le> length (ps @ [p])"
  shows "fr_stored_hash (refs_of sha prev pos (ps @ [p]) ! (length (ps @ [p]) - 2)) =
    chain_head (compute_batch_hash sha) prev ps"
proof -
  from assms obtain qs q where ps: "ps = qs @ [q]" by (cases ps rule: rev_cases) auto
  have "refs_of sha prev pos (ps @ [p]) ! length qs = refs_of sha prev pos ps ! length qs"
    unfolding refs_of_snoc by (simp add: nth_append ps)
  also have "fr_stored_hash \<dots> = chain_head (compute_batch_hash sha) prev ps"
    unfolding ps refs_of_snoc by (simp add: nth_append)
  finally show ?thesis by (simp add: ps)
qed

text \<open>
  The scan of a log with a torn append at its end, and of a whole log: the frames of the
  complete records, and where the torn one starts.
\<close>

lemma scan_frames_torn:
  assumes "list_all fits ps" "list_all (\<lambda>p. \<not> isl (dec p)) ps" "fits p"
    and "n < length (frame_bytes sha (log_head sha ps) p)"
  shows "\<exists>why. scan_frames sha dec (log_bytes sha GENESIS ps @ take n (frame_bytes sha (log_head sha ps) p)) =
    (refs_of sha GENESIS 0 ps, if n = 0 then None else Some (length (log_bytes sha GENESIS ps), why))"
proof -
  let ?log = "log_bytes sha GENESIS ps"
  let ?bs = "?log @ take n (frame_bytes sha (log_head sha ps) p)"
  obtain why where loop: "scan_loop ?bs 0 [] =
      (refs_of sha GENESIS 0 ps, if n = 0 then None else Some (length ?log, why))"
    using scan_loop_frames [OF assms(1), of "[]" sha GENESIS "take n (frame_bytes sha (log_head sha ps) p)" "[]"]
      scan_loop_tail [OF assms(3,4), of ?log "refs_of sha GENESIS 0 ps"] by auto
  show ?thesis
  proof (cases "n = 0 \<and> ps \<noteq> []")
    case False
    then show ?thesis using loop by (auto simp: scan_frames_def split: option.split)
  next
    case True
    then obtain qs q where ps: "ps = qs @ [q]" by (cases ps rule: rev_cases) auto
    have q: "fits q" "\<not> isl (dec q)" using assms(1,2) by (simp_all add: ps)
    have log: "?log = log_bytes sha GENESIS qs @ frame_bytes sha (log_head sha qs) q @ []"
      by (simp add: ps log_bytes_snoc)
    define fs where "fs = refs_of sha GENESIS 0 ps"
    have lst: "last fs = \<lparr>fr_start = length (log_bytes sha GENESIS qs),
        fr_stored_hash = digest_bytes (compute_batch_hash sha (log_head sha qs) q),
        fr_payload_start = length (log_bytes sha GENESIS qs) + HEADER_LEN,
        fr_payload_end = length (log_bytes sha GENESIS qs) + HEADER_LEN + length q\<rparr>"
      by (simp add: fs_def ps refs_of_snoc)
    have ne: "fs \<noteq> []" using True by (cases ps) (simp_all add: fs_def)
    have prev: "(if 2 \<le> length fs then fr_stored_hash (fs ! (length fs - 2)) else GENESIS) = log_head sha qs"
      using refs_prev_hash [of qs q sha GENESIS 0] by (cases qs) (simp_all add: fs_def ps)
    have "scan_loop ?log 0 [] = (fs, None)" using loop True by (simp add: fs_def)
    then have "scan_frames sha dec ?log = (fs, None)"
      using q(2) ne frame_at(3) [OF q(1) log] by (simp add: scan_frames_def Let_def prev lst split del: if_split)
    then show ?thesis using True by (simp add: fs_def)
  qed
qed

lemma scan_frames_whole:
  assumes "list_all fits ps" "list_all (\<lambda>p. \<not> isl (dec p)) ps"
  shows "scan_frames sha dec (log_bytes sha GENESIS ps) = (refs_of sha GENESIS 0 ps, None)"
proof -
  have "fits []" by (simp add: fits_def)
  from scan_frames_torn [OF assms this, of 0 sha] show ?thesis by simp
qed

text \<open>A complete record that does not link to the one before it, at the end of a log.\<close>

lemma scan_unlinked_tail:
  assumes "list_all fits ps" "fits p" "ps \<noteq> []"
    and "compute_batch_hash sha prev p \<noteq> compute_batch_hash sha (log_head sha ps) p"
  shows "\<exists>why. scan_frames sha dec (log_bytes sha GENESIS ps @ frame_bytes sha prev p) =
    (refs_of sha GENESIS 0 ps, Some (length (log_bytes sha GENESIS ps), why))"
proof -
  let ?log = "log_bytes sha GENESIS ps"
  let ?bs = "?log @ frame_bytes sha prev p @ []"
  let ?ref = "\<lparr>fr_start = length ?log, fr_stored_hash = digest_bytes (compute_batch_hash sha prev p),
      fr_payload_start = length ?log + HEADER_LEN, fr_payload_end = length ?log + HEADER_LEN + length p\<rparr>"
  note at = frame_at [OF assms(2) refl, of ?log sha prev "[]"]
  have "scan_loop ?bs 0 [] = scan_loop ?bs (length ?log) (refs_of sha GENESIS 0 ps)"
    using scan_loop_frames [OF assms(1), of "[]" sha GENESIS "frame_bytes sha prev p @ []" "[]"] by simp
  also have "\<dots> = scan_loop ?bs (length ?log + HEADER_LEN + length p) (refs_of sha GENESIS 0 ps @ [?ref])"
    using at by (subst scan_loop.simps) (simp add: Let_def)
  also have "\<dots> = (refs_of sha GENESIS 0 ps @ [?ref], None)"
    by (subst scan_loop.simps) simp
  finally have loop: "scan_loop ?bs 0 [] = (refs_of sha GENESIS 0 ps @ [?ref], None)" .
  have prev: "fr_stored_hash ((refs_of sha GENESIS 0 ps @ [?ref]) ! (length (refs_of sha GENESIS 0 ps @ [?ref]) - 2)) = log_head sha ps"
    using assms(3) by (cases ps rule: rev_cases) (simp_all add: refs_of_snoc nth_append)
  have "scan_frames sha dec ?bs = (refs_of sha GENESIS 0 ps, Some (length ?log, CorruptTail (length ?bs - length ?log)))"
    using loop prev at(3) assms(3,4) by (cases ps) (simp_all add: scan_frames_def Let_def)
  then show ?thesis by simp
qed

lemma refs_tip:
  "(if refs_of sha GENESIS 0 ps = [] then (GENESIS, 0)
    else (fr_stored_hash (last (refs_of sha GENESIS 0 ps)), of_nat (length (refs_of sha GENESIS 0 ps)))) =
   (log_head sha ps, of_nat (length ps) :: u64)"
  by (cases ps rule: rev_cases) (simp_all add: refs_of_snoc)

section \<open>The buffer as a list of batches\<close>

definition buffered :: "('b \<Rightarrow> bytes) \<Rightarrow> (bytes \<Rightarrow> 'x + 'b) \<Rightarrow> 'b \<Rightarrow> bool" where
  "buffered enc dec b \<longleftrightarrow> dec (enc b) = Inr b \<and> fits (enc b)"

definition holds_batches ::
  "(bytes \<Rightarrow> digest) \<Rightarrow> (batch \<Rightarrow> bytes) \<Rightarrow> (bytes \<Rightarrow> 'x + batch) \<Rightarrow> batch list \<Rightarrow> edge_buffer \<Rightarrow> bool" where
  "holds_batches sha enc dec bs buf \<longleftrightarrow>
     list_all (buffered enc dec) bs \<and>
     log_file (eb_disk buf) = Some (log_bytes sha GENESIS (map enc bs)) \<and>
     eb_tip_hash buf = log_head sha (map enc bs) \<and> eb_record_count buf = of_nat (length bs)"

lemma buffered_all:
  assumes "list_all (buffered enc dec) bs"
  shows "list_all fits (map enc bs)" "list_all (\<lambda>p. \<not> isl (dec p)) (map enc bs)"
  using assms by (induction bs) (auto simp: buffered_def)

lemma buffer_append_holds:
  assumes "holds_batches sha enc dec bs buf" "buffered enc dec b"
  shows "\<exists>buf'. buffer_append sha enc WriteOk b buf = (Inr (), buf') \<and> holds_batches sha enc dec (bs @ [b]) buf' \<and>
    eb_ack_watermark buf' = eb_ack_watermark buf \<and> ack_file (eb_disk buf') = ack_file (eb_disk buf)"
  using assms
  by (simp add: buffer_append_def holds_batches_def buffered_def fits_def append_file_def contents_def log_bytes_snoc
      Let_def)

lemma replay_loop_frames:
  "list_all (buffered enc dec) bs \<Longrightarrow>
   replay_loop sha dec wm (pre @ log_bytes sha prev (map enc bs) @ tail) (length pre) prev i out =
     replay_loop sha dec wm (pre @ log_bytes sha prev (map enc bs) @ tail)
       (length pre + length (log_bytes sha prev (map enc bs))) (chain_head (compute_batch_hash sha) prev (map enc bs))
       (i + of_nat (length bs)) (out @ filter (\<lambda>b. wm < batch_seq b) bs)"
proof (induction bs arbitrary: pre prev i out)
  case (Cons b bs)
  let ?h = "digest_bytes (compute_batch_hash sha prev (enc b))"
  let ?rest = "log_bytes sha ?h (map enc bs) @ tail"
  let ?bs = "pre @ frame_bytes sha prev (enc b) @ ?rest"
  have f: "fits (enc b)" "dec (enc b) = Inr b" using Cons.prems by (simp_all add: buffered_def)
  note at = frame_at [OF f(1) refl, of pre sha prev ?rest]
  have "replay_loop sha dec wm ?bs (length pre) prev i out =
      replay_loop sha dec wm ?bs (length pre + HEADER_LEN + length (enc b)) ?h (i + 1)
        (if wm < batch_seq b then out @ [b] else out)"
    using at f(2) by (subst replay_loop.simps) (simp add: Let_def)
  then show ?case
    using Cons.IH [of "pre @ frame_bytes sha prev (enc b)" ?h "i + 1"] Cons.prems
    by (simp add: add.assoc chain_head_Cons)
qed simp

lemma replay_holds:
  assumes "holds_batches sha enc dec bs buf"
  shows "replay_from sha dec True wm buf = Inr (filter (\<lambda>b. wm < batch_seq b) bs)"
proof -
  have "list_all (buffered enc dec) bs" using assms by (simp add: holds_batches_def)
  from replay_loop_frames [OF this, of sha wm "[]" GENESIS "[]" 0 "[]"] show ?thesis
    using assms by (simp add: replay_from_def holds_batches_def replay_loop.simps [of _ _ _ _ "length _"])
qed

definition all_ok :: open_world where
  "all_ok = \<lparr>dir_ok = True, log_read_ok = True, truncate_ok = True, log_open_ok = True, ack_read_ok = True\<rparr>"

definition watermark_of :: "bytes option \<Rightarrow> u64" where
  "watermark_of f = (case f of Some bs \<Rightarrow> if length bs = 8 then of_nat (le_to_nat bs) else 0 | None \<Rightarrow> 0)"

lemma read_watermark_ok: "\<exists>d. read_watermark True f = Inr (watermark_of f, d)"
  by (simp add: read_watermark_def watermark_of_def split: option.split)

lemma open_torn:
  fixes dec :: "bytes \<Rightarrow> 'x + batch"
  assumes "list_all (buffered enc dec) bs" "fits p" "n < length (frame_bytes sha (log_head sha (map enc bs)) p)"
    and "log_file d = Some (log_bytes sha GENESIS (map enc bs) @ take n (frame_bytes sha (log_head sha (map enc bs)) p))"
  shows "\<exists>buf rep d'. buffer_open sha dec all_ok d = (Inr (buf, rep), d') \<and> holds_batches sha enc dec bs buf \<and>
    eb_ack_watermark buf = watermark_of (ack_file d) \<and> eb_disk buf = d' \<and>
    (case rep of None \<Rightarrow> 0 | Some r \<Rightarrow> discarded_log_bytes r) = n"
proof -
  let ?log = "log_bytes sha GENESIS (map enc bs)"
  obtain why where scan: "scan_frames sha dec (?log @ take n (frame_bytes sha (log_head sha (map enc bs)) p)) =
      (refs_of sha GENESIS 0 (map enc bs), if n = 0 then None else Some (length ?log, why))"
    using scan_frames_torn [OF buffered_all [OF assms(1)] assms(2,3)] by blast
  obtain df where wm: "(read_watermark True (ack_file d) :: 'x buffer_error + u64 \<times> nat option) =
      Inr (watermark_of (ack_file d), df)"
    using read_watermark_ok by blast
  show ?thesis
  proof (cases "n = 0")
    case True
    with assms(4) scan have "log_file d = Some ?log" "scan_frames sha dec ?log = (refs_of sha GENESIS 0 (map enc bs), None)"
      by simp_all
    then show ?thesis using True assms(1)
      by (cases df)
        (simp_all add: buffer_open_def all_ok_def holds_batches_def Let_def wm refs_tip split del: if_split)
  next
    case False
    then show ?thesis using assms(1,3,4) scan
      by (simp add: buffer_open_def all_ok_def holds_batches_def Let_def wm refs_tip split del: if_split)
  qed
qed

lemma open_whole:
  assumes "holds_batches sha enc dec bs buf"
  shows "\<exists>buf' rep d'. buffer_open sha dec all_ok (eb_disk buf) = (Inr (buf', rep), d') \<and> holds_batches sha enc dec bs buf' \<and>
    eb_ack_watermark buf' = watermark_of (ack_file (eb_disk buf))"
proof -
  have f: "fits []" by (simp add: fits_def)
  have l: "list_all (buffered enc dec) bs"
    "log_file (eb_disk buf) = Some (log_bytes sha GENESIS (map enc bs) @ take 0 (frame_bytes sha (log_head sha (map enc bs)) []))"
    using assms by (simp_all add: holds_batches_def)
  from open_torn [OF l(1) f _ l(2)] show ?thesis by auto
qed

lemma watermark_of_written: "watermark_of (Some (nat_to_le 8 (unat sq))) = sq"
proof -
  have "unat sq < 256 ^ 8" by (rule order_less_le_trans [OF unsigned_less]) simp
  then show ?thesis by (simp add: watermark_of_def le_to_nat_of_le)
qed

section \<open>Properties\<close>

text \<open>
  C8: the file-backed buffer implements a list of batches: while it holds a list, appending
  a batch that the encoder can carry succeeds and makes it hold the list with that batch at
  its end, \<open>replay_from\<close> returns exactly the batches numbered above the watermark in the order
  they were appended, and opening the same files again gives a buffer that holds the list.
\<close>

theorem buffer_refines_list:
  assumes "holds_batches sha enc dec bs buf" "buffered enc dec b"
  shows "(\<exists>buf'. buffer_append sha enc WriteOk b buf = (Inr (), buf') \<and> holds_batches sha enc dec (bs @ [b]) buf') \<and>
    replay_from sha dec True wm buf = Inr (filter (\<lambda>b. wm < batch_seq b) bs) \<and>
    (\<exists>buf' rep d'. buffer_open sha dec all_ok (eb_disk buf) = (Inr (buf', rep), d') \<and> holds_batches sha enc dec bs buf')"
  using buffer_append_holds [OF assms] replay_holds [OF assms(1), of wm] open_whole [OF assms(1)] by blast

text \<open>
  A power cut in the middle of an append loses only that append: whatever prefix of the
  new record reached the file, \<open>open\<close> finds it, cuts it off, reports how many bytes it
  dropped, and the buffer holds exactly the batches of before.
\<close>

theorem torn_append_recovers:
  assumes "holds_batches sha enc dec bs buf" "buffered enc dec b" "n < HEADER_LEN + length (enc b)"
    and "buffer_append sha enc (WriteFail n) b buf = (r, torn)"
  shows "r = Inl BufferIo \<and>
    (\<exists>buf' rep d'. buffer_open sha dec all_ok (eb_disk torn) = (Inr (buf', rep), d') \<and>
       holds_batches sha enc dec bs buf' \<and>
       (case rep of None \<Rightarrow> 0 | Some rp \<Rightarrow> discarded_log_bytes rp) = n)"
proof -
  have "r = Inl BufferIo"
    "log_file (eb_disk torn) =
       Some (log_bytes sha GENESIS (map enc bs) @ take n (frame_bytes sha (log_head sha (map enc bs)) (enc b)))"
    using assms
    by (auto simp: buffer_append_def append_file_def holds_batches_def buffered_def fits_def contents_def Let_def)
  with open_torn [of enc dec bs "enc b" n sha "eb_disk torn"] assms show ?thesis
    by (auto simp: holds_batches_def buffered_def)
qed

text \<open>
  The watermark is never overstated: after any outcome of writing it, a restart reads the
  number that was written, or the one of before when the file could not be opened, or 0 when
  the file was cut short, and the running buffer believes the new one only if all of it was
  written.
\<close>

theorem watermark_never_overstated:
  assumes "persist_ack_watermark w sq buf = (r, buf')"
  shows "watermark_of (ack_file (eb_disk buf')) =
      (case w of WriteOk \<Rightarrow> sq | OpenFail \<Rightarrow> watermark_of (ack_file (eb_disk buf)) | WriteFail n \<Rightarrow> if n < 8 then 0 else sq) \<and>
    eb_ack_watermark buf' = (if r = Inr () then sq else eb_ack_watermark buf) \<and> (r = Inr () \<longleftrightarrow> w = WriteOk)"
  using assms watermark_of_written [of sq]
  by (cases w) (auto simp: persist_ack_watermark_def append_file_def watermark_of_def Let_def min_def)

text \<open>
  An append that fails after all of its bytes are written (the sync fails) leaves the
  record in the file and the tip where it was; the next append succeeds, links to the old
  tip, and from then on \<open>replay_from\<close> refuses the whole buffer with a digest mismatch, absent a
  SHA-256 coincidence.
\<close>

theorem failed_sync_breaks_replay:
  fixes dec :: "bytes \<Rightarrow> 'x + batch"
  assumes "holds_batches sha enc dec bs buf" "buffered enc dec b" "buffered enc dec c"
    and "HEADER_LEN + length (enc b) \<le> n"
    and "buffer_append sha enc (WriteFail n) b buf = (r1 :: 'x buffer_error + unit, buf1)"
    and "buffer_append sha enc WriteOk c buf1 = (r2 :: 'x buffer_error + unit, buf2)"
    and "inj_on sha {log_head sha (map enc bs) @ enc c, log_head sha (map enc (bs @ [b])) @ enc c}"
    and "log_head sha (map enc bs) \<noteq> log_head sha (map enc (bs @ [b]))"
  shows "r1 = Inl BufferIo \<and> r2 = Inr () \<and>
    replay_from sha dec True wm buf2 = Inl (DigestMismatch (of_nat (length bs) + 2))"
proof -
  let ?h = "log_head sha (map enc bs)" and ?h' = "log_head sha (map enc (bs @ [b]))"
  let ?log = "log_bytes sha GENESIS (map enc (bs @ [b]))"
  have f: "fits (enc c)" using assms(3) by (simp add: buffered_def)
  have l1: "r1 = Inl BufferIo" "log_file (eb_disk buf1) = Some ?log" "eb_tip_hash buf1 = ?h"
    using assms(1,2,4,5)
    by (auto simp: buffer_append_def append_file_def holds_batches_def buffered_def fits_def contents_def
        log_bytes_snoc Let_def)
  then have l2: "r2 = Inr ()" "log_file (eb_disk buf2) = Some (?log @ frame_bytes sha ?h (enc c) @ [])"
    using assms(6) f by (auto simp: buffer_append_def append_file_def contents_def fits_def Let_def)
  let ?f = "?log @ frame_bytes sha ?h (enc c) @ []"
  have all: "list_all (buffered enc dec) (bs @ [b])" using assms(1,2) by (simp add: holds_batches_def)
  have "?h @ enc c \<noteq> ?h' @ enc c" using assms(8) by simp
  then have "compute_batch_hash sha ?h (enc c) \<noteq> compute_batch_hash sha ?h' (enc c)"
    using assms(7) by (auto simp: compute_batch_hash_def inj_on_def)
  then have "replay_loop sha dec wm ?f (length ?log) ?h' i out = Inl (DigestMismatch (i + 1))" for i out
    using frame_at [OF f refl, of ?log sha ?h "[]"] by (subst replay_loop.simps) (simp add: Let_def)
  then have "replay_loop sha dec wm ?f 0 GENESIS 0 [] = Inl (DigestMismatch (of_nat (length (bs @ [b])) + 1))"
    using replay_loop_frames [OF all, of sha wm "[]" GENESIS "frame_bytes sha ?h (enc c) @ []" 0 "[]"] by simp
  then show ?thesis using l1 l2 by (simp add: replay_from_def)
qed

text \<open>
  A producer may start at sequence 0, and 0 is also the watermark of a buffer that confirmed
  nothing: a buffered batch numbered 0 is in no replay.
\<close>

theorem zero_sequence_not_replayed:
  assumes "holds_batches sha enc dec [b] buf" "batch_seq b = 0"
  shows "replay_from sha dec True wm buf = Inr []"
  using replay_holds [OF assms(1), of wm] assms(2) by simp

section \<open>Witnesses\<close>

definition sample_buffer :: edge_buffer where
  "sample_buffer =
     \<lparr>eb_disk = \<lparr>log_file = Some [], ack_file = None\<rparr>, eb_tip_hash = GENESIS, eb_record_count = 0,
      eb_ack_watermark = 0\<rparr>"

definition sample_dec :: "batch \<Rightarrow> bytes \<Rightarrow> unit + batch" where
  "sample_dec b bs = (if bs = [1] then Inr b else Inl ())"

lemma sample_buffer_holds: "holds_batches sha enc dec [] sample_buffer"
  by (simp add: holds_batches_def sample_buffer_def)

lemma sample_buffered: "buffered (\<lambda>_. [1]) (sample_dec b) b"
  by (simp add: buffered_def sample_dec_def fits_def)

theorem buffer_refines_list_witness:
  "\<exists>buf'. buffer_append (\<lambda>_. 0) (\<lambda>_. [1]) WriteOk sample_batch sample_buffer = (Inr () :: unit buffer_error + unit, buf') \<and>
     holds_batches (\<lambda>_. 0) (\<lambda>_. [1]) (sample_dec sample_batch) [sample_batch] buf'"
  using buffer_refines_list [OF sample_buffer_holds sample_buffered, of "\<lambda>_. 0" sample_batch 0] by auto

theorem torn_append_recovers_witness:
  "\<exists>torn buf' rep d'.
     buffer_append (\<lambda>_. 0) (\<lambda>_. [1]) (WriteFail 7) sample_batch sample_buffer = (Inl BufferIo :: unit buffer_error + unit, torn) \<and>
     buffer_open (\<lambda>_. 0) (sample_dec sample_batch) all_ok (eb_disk torn) = (Inr (buf', rep), d') \<and>
     eb_record_count buf' = 0"
proof -
  obtain r torn where c: "buffer_append (\<lambda>_. 0) (\<lambda>_. [1]) (WriteFail 7) sample_batch sample_buffer =
      (r :: unit buffer_error + unit, torn)"
    by fastforce
  from torn_append_recovers [OF sample_buffer_holds sample_buffered _ c] c show ?thesis
    by (fastforce simp: HEADER_LEN_def holds_batches_def)
qed

theorem watermark_never_overstated_witness:
  "\<exists>r buf'. persist_ack_watermark (WriteFail 3) 9 sample_buffer = (r :: unit buffer_error + unit, buf') \<and>
     watermark_of (ack_file (eb_disk buf')) = 0 \<and> eb_ack_watermark buf' = 0"
proof -
  obtain r buf' where c: "persist_ack_watermark (WriteFail 3) 9 sample_buffer = (r :: unit buffer_error + unit, buf')"
    by fastforce
  from watermark_never_overstated [OF c] c show ?thesis by (auto simp: sample_buffer_def)
qed

theorem zero_sequence_not_replayed_witness:
  "\<exists>buf'. holds_batches (\<lambda>_. 0) (\<lambda>_. [1]) (sample_dec (sample_batch\<lparr>batch_seq := 0\<rparr>)) [sample_batch\<lparr>batch_seq := 0\<rparr>] buf' \<and>
     replay_from (\<lambda>_. 0) (sample_dec (sample_batch\<lparr>batch_seq := 0\<rparr>)) True 0 buf' = Inr []"
  using buffer_append_holds [OF sample_buffer_holds sample_buffered, of "\<lambda>_. 0" "sample_batch\<lparr>batch_seq := 0\<rparr>"]
    zero_sequence_not_replayed by fastforce

text \<open>A hash of 256-bit words that tells the sample inputs apart: the length of the input.\<close>

theorem failed_sync_breaks_replay_witness:
  "\<exists>buf1 buf2.
     buffer_append (\<lambda>bs. of_nat (length bs)) (\<lambda>_. [1]) WriteOk sample_batch buf1 = (Inr () :: unit buffer_error + unit, buf2) \<and>
     replay_from (\<lambda>bs. of_nat (length bs)) (sample_dec sample_batch) True 0 buf2 = Inl (DigestMismatch 2)"
proof -
  let ?sha = "\<lambda>bs. of_nat (length bs) :: digest"
  obtain r1 buf1 where a: "buffer_append ?sha (\<lambda>_. [1]) (WriteFail 37) sample_batch sample_buffer =
      (r1 :: unit buffer_error + unit, buf1)"
    by fastforce
  obtain r2 buf2 where b: "buffer_append ?sha (\<lambda>_. [1]) WriteOk sample_batch buf1 = (r2 :: unit buffer_error + unit, buf2)"
    by fastforce
  have g: "length GENESIS = 7" by (simp add: GENESIS_def)
  have h: "log_head ?sha (map (\<lambda>_. [1]) ([] @ [sample_batch])) = digest_bytes 8"
    by (simp add: chain_head_Cons compute_batch_hash_def g)
  have "inj_on ?sha {log_head ?sha (map (\<lambda>_. [1]) []) @ [1], log_head ?sha (map (\<lambda>_. [1]) ([] @ [sample_batch])) @ [1]}"
    "log_head ?sha (map (\<lambda>_. [1]) []) \<noteq> log_head ?sha (map (\<lambda>_. [1]) ([] @ [sample_batch]))"
    unfolding h using g by (auto simp: inj_on_def dest: arg_cong [where f = length])
  from failed_sync_breaks_replay [OF sample_buffer_holds sample_buffered sample_buffered _ a b this] b
  show ?thesis by (fastforce simp: HEADER_LEN_def)
qed

end
