(* ===== verification/Edge_Uplink.thy ===== *)
theory Edge_Uplink
  imports Edge_Log
begin

text \<open>
  \<open>av-edge\<close>, \<open>buffer.rs\<close>, the driver half: \<open>UplinkDriver::step\<close> over a \<open>BatchSink\<close> (a parameter:
  a function on the sink's own state) and an edge buffer, with what the file system does in
  each step as an argument. The theorem of the theory says what reaches the sink.
\<close>

section \<open>The driver\<close>

datatype 'v sink_outcome = Delivered 'v | LinkDown

type_synonym ('s, 'v, 'e) batch_sink = "batch \<Rightarrow> i64 \<Rightarrow> 's \<Rightarrow> ('e + 'v sink_outcome) \<times> 's"

datatype 'v step_outcome = StepDelivered "'v list" 'v | StepBuffered "'v list"

datatype ('x, 'e) driver_error = DriverBuffer "'x buffer_error" | DriverSink 'e

record 's uplink =
  up_sink :: 's
  up_buffer :: edge_buffer
  was_down :: bool

record uplink_world =
  append_write :: write_outcome
  ack_write :: write_outcome
  replay_read :: bool

definition new_uplink :: "'s \<Rightarrow> edge_buffer \<Rightarrow> 's uplink" where
  "new_uplink s buf = \<lparr>up_sink = s, up_buffer = buf, was_down = False\<rparr>"

datatype ('v, 'e) drained = DrainDone "'v list" | DrainDown "'v list" | DrainError 'e

fun drain :: "('s, 'v, 'e) batch_sink \<Rightarrow> i64 \<Rightarrow> batch list \<Rightarrow> 'v list \<Rightarrow> 's \<Rightarrow> ('v, 'e) drained \<times> 's" where
  "drain submit now [] replayed s = (DrainDone replayed, s)"
| "drain submit now (b # bs) replayed s =
     (case submit b now s of
        (Inl e, s) \<Rightarrow> (DrainError e, s)
      | (Inr (Delivered v), s) \<Rightarrow> drain submit now bs (replayed @ [v]) s
      | (Inr LinkDown, s) \<Rightarrow> (DrainDown replayed, s))"

definition buffer_it ::
  "(bytes \<Rightarrow> digest) \<Rightarrow> (batch \<Rightarrow> bytes) \<Rightarrow> uplink_world \<Rightarrow> batch \<Rightarrow> 'v list \<Rightarrow> 's uplink \<Rightarrow>
     (('x, 'e) driver_error + 'v step_outcome) \<times> 's uplink" where
  "buffer_it sha enc w b replayed d =
     (case buffer_append sha enc (append_write w) b (up_buffer d) of
        (Inl e, buf) \<Rightarrow> (Inl (DriverBuffer e), d\<lparr>up_buffer := buf\<rparr>)
      | (Inr _, buf) \<Rightarrow> (Inr (StepBuffered replayed), d\<lparr>up_buffer := buf\<rparr>))"

text \<open>The end of \<open>step\<close>: the new batch itself.\<close>

definition send_new ::
  "(bytes \<Rightarrow> digest) \<Rightarrow> (batch \<Rightarrow> bytes) \<Rightarrow> ('s, 'v, 'e) batch_sink \<Rightarrow> uplink_world \<Rightarrow> batch \<Rightarrow> i64 \<Rightarrow> 'v list \<Rightarrow>
     's uplink \<Rightarrow> (('x, 'e) driver_error + 'v step_outcome) \<times> 's uplink" where
  "send_new sha enc submit w b now replayed d =
     (case submit b now (up_sink d) of
        (Inl e, s) \<Rightarrow> (Inl (DriverSink e), d\<lparr>up_sink := s\<rparr>)
      | (Inr (Delivered v), s) \<Rightarrow> (Inr (StepDelivered replayed v), d\<lparr>up_sink := s\<rparr>)
      | (Inr LinkDown, s) \<Rightarrow> buffer_it sha enc w b replayed (d\<lparr>up_sink := s, was_down := True\<rparr>))"

definition uplink_step ::
  "(bytes \<Rightarrow> digest) \<Rightarrow> (batch \<Rightarrow> bytes) \<Rightarrow> (bytes \<Rightarrow> 'x + batch) \<Rightarrow> ('s, 'v, 'e) batch_sink \<Rightarrow> uplink_world \<Rightarrow> batch \<Rightarrow>
     i64 \<Rightarrow> 's uplink \<Rightarrow> (('x, 'e) driver_error + 'v step_outcome) \<times> 's uplink" where
  "uplink_step sha enc dec submit w b now d =
     (if \<not> was_down d then send_new sha enc submit w b now [] d
      else
        case replay_from sha dec (replay_read w) (eb_ack_watermark (up_buffer d)) (up_buffer d) of
          Inl e \<Rightarrow> (Inl (DriverBuffer e), d)
        | Inr backlog \<Rightarrow>
            (case drain submit now backlog [] (up_sink d) of
               (DrainError e, s) \<Rightarrow> (Inl (DriverSink e), d\<lparr>up_sink := s\<rparr>)
             | (DrainDown replayed, s) \<Rightarrow> buffer_it sha enc w b replayed (d\<lparr>up_sink := s\<rparr>)
             | (DrainDone replayed, s) \<Rightarrow>
                 (case (if backlog = [] then (Inr (), up_buffer d)
                        else persist_ack_watermark (ack_write w) (batch_seq (last backlog)) (up_buffer d)) of
                    (Inl e, buf) \<Rightarrow> (Inl (DriverBuffer e), d\<lparr>up_sink := s, up_buffer := buf\<rparr>)
                  | (Inr _, buf) \<Rightarrow>
                      send_new sha enc submit w b now replayed
                        (d\<lparr>up_sink := s, up_buffer := buf, was_down := False\<rparr>))))"

section \<open>First occurrences\<close>

definition firsts :: "'a list \<Rightarrow> 'a list" where
  "firsts xs = rev (remdups (rev xs))"

lemma firsts_Nil [simp]: "firsts [] = []"
  by (simp add: firsts_def)

lemma firsts_snoc [simp]: "firsts (xs @ [x]) = (if x \<in> set xs then firsts xs else firsts xs @ [x])"
  by (simp add: firsts_def)

lemma set_firsts [simp]: "set (firsts xs) = set xs"
  by (simp add: firsts_def)

text \<open>Delivering a prefix of the pending batches again, and then some more of them.\<close>

lemma firsts_again:
  assumes "firsts xs = ds @ take k ps" "distinct (ds @ ps)" "j \<le> length ps"
  shows "firsts (xs @ take j ps) = ds @ take (max k j) ps"
  using assms(3)
proof (induction j)
  case 0
  then show ?case using assms(1) by simp
next
  case (Suc j)
  have IH: "firsts (xs @ take j ps) = ds @ take (max k j) ps" using Suc by simp
  have j: "j < length ps" using Suc.prems by simp
  then have step: "take (Suc j) ps = take j ps @ [ps ! j]" by (rule take_Suc_conv_app_nth)
  have mem: "ps ! j \<in> set (xs @ take j ps) \<longleftrightarrow> ps ! j \<in> set (ds @ take (max k j) ps)"
    using IH by (metis set_firsts)
  have "ps ! j \<in> set (ds @ take (max k j) ps) \<longleftrightarrow> j < k"
  proof -
    have "ps ! j \<notin> set ds" using assms(2) nth_mem [OF j] by auto
    moreover have "ps ! j \<in> set (take (max k j) ps) \<longleftrightarrow> j < k"
      using assms(2) j by (auto simp: in_set_conv_nth nth_eq_iff_index_eq max_def)
    ultimately show ?thesis by simp
  qed
  with mem have m: "ps ! j \<in> set (xs @ take j ps) \<longleftrightarrow> j < k" by simp
  have "firsts ((xs @ take j ps) @ [ps ! j]) = (if j < k then ds @ take (max k j) ps else ds @ take (max k j) ps @ [ps ! j])"
    unfolding firsts_snoc m IH by simp
  also have "\<dots> = ds @ take (max k (Suc j)) ps"
  proof (cases "j < k")
    case True
    then have "max k j = k" "max k (Suc j) = k" by simp_all
    with True show ?thesis by simp
  next
    case False
    then have "max k j = j" "max k (Suc j) = Suc j" by simp_all
    with False step show ?thesis by simp
  qed
  finally show ?case by (simp add: step)
qed

section \<open>What the sink got and what waits\<close>

text \<open>
  The documented contract of a \<open>BatchSink\<close>, over a log of the batches that reached it: a
  delivered batch did, and a batch for which the link was down or that failed did not.
\<close>

definition honest :: "('s, 'v, 'e) batch_sink \<Rightarrow> ('s \<Rightarrow> batch list) \<Rightarrow> bool" where
  "honest submit log \<longleftrightarrow>
     (\<forall>b now s. log (snd (submit b now s)) =
        log s @ (case fst (submit b now s) of Inr (Delivered _) \<Rightarrow> [b] | _ \<Rightarrow> []))"

text \<open>
  The batches \<open>step\<close> took charge of (those it did not answer with an error) are the ones
  settled before, \<open>ds\<close>, followed by the ones that wait in the buffer; of the waiting ones
  some first have reached the sink, so without repetitions it got \<open>ds\<close> and then those.
\<close>

definition pending :: "edge_buffer \<Rightarrow> batch list \<Rightarrow> batch list" where
  "pending buf bs = filter (\<lambda>b. eb_ack_watermark buf < batch_seq b) bs"

definition increasing :: "batch list \<Rightarrow> bool" where
  "increasing bs \<longleftrightarrow> sorted_wrt (\<lambda>a b. batch_seq a < batch_seq b) bs"

definition uplink_inv ::
  "(bytes \<Rightarrow> digest) \<Rightarrow> (batch \<Rightarrow> bytes) \<Rightarrow> (bytes \<Rightarrow> 'x + batch) \<Rightarrow> ('s \<Rightarrow> batch list) \<Rightarrow> batch list \<Rightarrow> 's uplink \<Rightarrow>
     bool" where
  "uplink_inv sha enc dec log given d \<longleftrightarrow>
     (\<exists>bs ds k. holds_batches sha enc dec bs (up_buffer d) \<and> increasing given \<and> increasing bs \<and>
        set bs \<subseteq> set given \<and> given = ds @ pending (up_buffer d) bs \<and>
        firsts (log (up_sink d)) = ds @ take k (pending (up_buffer d) bs) \<and>
        (\<not> was_down d \<longrightarrow> pending (up_buffer d) bs = []) \<and>
        (eb_ack_watermark (up_buffer d) = 0 \<or> eb_ack_watermark (up_buffer d) \<in> batch_seq ` set given))"

lemma increasing_distinct: "increasing bs \<Longrightarrow> distinct bs"
  unfolding increasing_def by (induction bs) auto

lemma increasing_snoc: "increasing (bs @ [b]) \<longleftrightarrow> increasing bs \<and> (\<forall>a \<in> set bs. batch_seq a < batch_seq b)"
  by (simp add: increasing_def sorted_wrt_append)

lemma increasing_last: "increasing bs \<Longrightarrow> a \<in> set bs \<Longrightarrow> batch_seq a \<le> batch_seq (last bs)"
  by (cases bs rule: rev_cases) (auto simp: increasing_snoc)

lemma increasing_filter: "increasing bs \<Longrightarrow> increasing (filter P bs)"
  by (simp add: increasing_def sorted_wrt_filter)

lemma drain_log:
  assumes "honest submit log"
  shows "drain submit now bl rs s = (r, s') \<Longrightarrow>
    \<exists>j \<le> length bl. log s' = log s @ take j bl \<and> ((\<exists>vs. r = DrainDone vs) \<longrightarrow> j = length bl)"
proof (induction bl arbitrary: rs s)
  case (Cons b bl)
  obtain q s1 where sub: "submit b now s = (q, s1)" by fastforce
  have h: "log s1 = log s @ (case q of Inr (Delivered _) \<Rightarrow> [b] | _ \<Rightarrow> [])"
    using assms sub unfolding honest_def by (metis fst_conv snd_conv)
  show ?case
  proof (cases "\<exists>v. q = Inr (Delivered v)")
    case True
    then obtain v where v: "q = Inr (Delivered v)" by blast
    with Cons.prems sub have "drain submit now bl (rs @ [v]) s1 = (r, s')" by simp
    from Cons.IH [OF this] obtain j where "j \<le> length bl" "log s' = log s1 @ take j bl"
      "(\<exists>vs. r = DrainDone vs) \<longrightarrow> j = length bl"
      by blast
    then show ?thesis using h v by (intro exI [of _ "Suc j"]) simp
  next
    case False
    then have "s' = s1" "\<not> (\<exists>vs. r = DrainDone vs)" "log s1 = log s"
      using Cons.prems sub h by (auto split: sum.splits sink_outcome.splits)
    then show ?thesis by (intro exI [of _ 0]) simp
  qed
qed simp

lemma persist_buffer:
  assumes "persist_ack_watermark w sq buf = (r, buf')"
  shows "log_file (eb_disk buf') = log_file (eb_disk buf)" "eb_tip_hash buf' = eb_tip_hash buf"
    "eb_record_count buf' = eb_record_count buf"
    "eb_ack_watermark buf' = (if isl r then eb_ack_watermark buf else sq)"
  using assms by (cases w; auto simp: persist_ack_watermark_def append_file_def Let_def)+

lemma persist_holds:
  "persist_ack_watermark w sq buf = (r, buf') \<Longrightarrow> holds_batches sha enc dec bs buf' = holds_batches sha enc dec bs buf"
  by (simp add: holds_batches_def persist_buffer)

text \<open>Taking charge of a new batch by appending it to the buffer.\<close>

lemma buffer_it_inv:
  fixes d :: "'s uplink"
  assumes "uplink_inv sha enc dec log given (d\<lparr>was_down := True\<rparr>)" "was_down d"
    and "append_write w = WriteOk" "buffered enc dec b" "0 < batch_seq b" "\<forall>a \<in> set given. batch_seq a < batch_seq b"
  shows "\<exists>d'. (buffer_it sha enc w b vs d :: (('x, 'e) driver_error + 'v step_outcome) \<times> 's uplink) = (Inr (StepBuffered vs), d') \<and>
    uplink_inv sha enc dec log (given @ [b]) d'"
proof -
  obtain bs ds k where inv: "holds_batches sha enc dec bs (up_buffer d)" "increasing given" "increasing bs"
    "set bs \<subseteq> set given" "given = ds @ pending (up_buffer d) bs"
    "firsts (log (up_sink d)) = ds @ take k (pending (up_buffer d) bs)"
    "eb_ack_watermark (up_buffer d) = 0 \<or> eb_ack_watermark (up_buffer d) \<in> batch_seq ` set given"
    using assms(1) by (auto simp: uplink_inv_def)
  obtain buf' where app: "(buffer_append sha enc WriteOk b (up_buffer d) :: ('x buffer_error + unit) \<times> _) = (Inr (), buf')"
    and buf': "holds_batches sha enc dec (bs @ [b]) buf'" "eb_ack_watermark buf' = eb_ack_watermark (up_buffer d)"
    using buffer_append_holds [OF inv(1) assms(4)] by (auto simp: buffer_append_def Let_def append_file_def split: if_splits)
  have "eb_ack_watermark buf' < batch_seq b"
    using inv(7) assms(5,6) by (auto simp: buf'(2))
  then have pend: "pending buf' (bs @ [b]) = pending (up_buffer d) bs @ [b]"
    by (simp add: pending_def buf'(2))
  let ?k = "min k (length (pending (up_buffer d) bs))"
  have "uplink_inv sha enc dec log (given @ [b]) (d\<lparr>up_buffer := buf'\<rparr>)"
    unfolding uplink_inv_def
  proof (intro exI conjI)
    show "increasing (given @ [b])" "increasing (bs @ [b])" "set (bs @ [b]) \<subseteq> set (given @ [b])"
      using inv(2,3,4) assms(6) by (auto simp: increasing_snoc)
    show "firsts (log (up_sink (d\<lparr>up_buffer := buf'\<rparr>))) =
        ds @ take ?k (pending (up_buffer (d\<lparr>up_buffer := buf'\<rparr>)) (bs @ [b]))"
      using inv(6) by (simp add: pend min_def)
  qed (use inv assms(2) buf' in \<open>auto simp: pend\<close>)
  then show ?thesis using app by (simp add: buffer_it_def assms(3))
qed

lemma send_new_inv:
  fixes d :: "'s uplink" and submit :: "('s, 'v, 'e) batch_sink"
  assumes "honest submit log" "uplink_inv sha enc dec log given d" "\<not> was_down d"
    and "append_write w = WriteOk" "buffered enc dec b" "0 < batch_seq b" "\<forall>a \<in> set given. batch_seq a < batch_seq b"
    and "(send_new sha enc submit w b now vs d :: (('x, 'e) driver_error + 'v step_outcome) \<times> 's uplink) = (r, d')"
  shows "uplink_inv sha enc dec log (if isl r then given else given @ [b]) d'"
proof -
  obtain q s where sub: "submit b now (up_sink d) = (q, s)" by fastforce
  have h: "log s = log (up_sink d) @ (case q of Inr (Delivered _) \<Rightarrow> [b] | _ \<Rightarrow> [])"
    using assms(1) sub unfolding honest_def by (metis fst_conv snd_conv)
  obtain bs ds k where inv: "holds_batches sha enc dec bs (up_buffer d)" "increasing given" "increasing bs"
    "set bs \<subseteq> set given" "given = ds" "firsts (log (up_sink d)) = ds" "pending (up_buffer d) bs = []"
    "eb_ack_watermark (up_buffer d) = 0 \<or> eb_ack_watermark (up_buffer d) \<in> batch_seq ` set given"
    using assms(2,3) by (auto simp: uplink_inv_def)
  consider (err) e where "q = Inl e" | (del) v where "q = Inr (Delivered v)" | (down) "q = Inr LinkDown"
    by (cases q) (auto, metis sink_outcome.exhaust)
  then show ?thesis
  proof cases
    case err
    then have "r = Inl (DriverSink e)" "d' = d\<lparr>up_sink := s\<rparr>" using assms(8) sub by (auto simp: send_new_def)
    then show ?thesis using inv assms(3) h err by (auto simp: uplink_inv_def)
  next
    case del
    then have r: "r = Inr (StepDelivered vs v)" "d' = d\<lparr>up_sink := s\<rparr>" using assms(8) sub by (auto simp: send_new_def)
    have "b \<notin> set (log (up_sink d))" using inv(5,6) assms(7) by (metis less_irrefl set_firsts)
    then have f: "firsts (log s) = given @ [b]" using h del inv(5,6) by simp
    show ?thesis
      unfolding uplink_inv_def r
      by (intro exI [of _ bs] exI [of _ "given @ [b]"] exI [of _ 0])
        (use inv assms(3,7) f in \<open>auto simp: increasing_snoc\<close>)
  next
    case down
    let ?d = "d\<lparr>up_sink := s, was_down := True\<rparr>"
    have "uplink_inv sha enc dec log given (?d\<lparr>was_down := True\<rparr>)"
      unfolding uplink_inv_def
      by (intro exI [of _ bs] exI [of _ given] exI [of _ 0]) (use inv h down in \<open>auto\<close>)
    from buffer_it_inv [OF this _ assms(4-7), of vs] obtain d2 where
      "(buffer_it sha enc w b vs ?d :: (('x, 'e) driver_error + 'v step_outcome) \<times> 's uplink) = (Inr (StepBuffered vs), d2)"
      "uplink_inv sha enc dec log (given @ [b]) d2"
      by auto
    then show ?thesis using assms(8) sub down by (auto simp: send_new_def)
  qed
qed

text \<open>The watermark after a complete drain leaves nothing pending.\<close>

lemma drained_pending:
  assumes "increasing bs" "pending buf bs \<noteq> []" "eb_ack_watermark buf' = batch_seq (last (pending buf bs))"
  shows "pending buf' bs = []"
proof -
  let ?last = "batch_seq (last (pending buf bs))"
  have "batch_seq (last (pending buf bs)) \<in> batch_seq ` set (pending buf bs)"
    using assms(2) by simp
  then have above: "eb_ack_watermark buf < ?last" by (auto simp: pending_def)
  have "\<not> ?last < batch_seq a" if "a \<in> set bs" for a
  proof (cases "eb_ack_watermark buf < batch_seq a")
    case True
    with that have "a \<in> set (pending buf bs)" by (simp add: pending_def)
    then have "batch_seq a \<le> ?last"
      using increasing_last increasing_filter [OF assms(1)] unfolding pending_def by blast
    then show ?thesis by simp
  next
    case False
    then show ?thesis using above by simp
  qed
  then show ?thesis unfolding pending_def [of buf'] assms(3) filter_empty_conv by blast
qed

lemma uplink_step_inv:
  fixes d :: "'s uplink" and dec :: "bytes \<Rightarrow> 'x + batch" and submit :: "('s, 'v, 'e) batch_sink"
  assumes "honest submit log" "uplink_inv sha enc dec log given d"
    and "append_write w = WriteOk" "buffered enc dec b" "0 < batch_seq b" "\<forall>a \<in> set given. batch_seq a < batch_seq b"
    and "uplink_step sha enc dec submit w b now d = (r, d')"
  shows "uplink_inv sha enc dec log (if isl r then given else given @ [b]) d'"
proof (cases "was_down d \<and> replay_read w")
  case False
  then show ?thesis
  proof (cases "was_down d")
    case True
    with False have "replay_from sha dec (replay_read w) (eb_ack_watermark (up_buffer d)) (up_buffer d) = Inl BufferIo"
      by (simp add: replay_from_def split: option.split)
    then show ?thesis using assms(2,7) True by (auto simp: uplink_step_def)
  next
    case no: False
    from assms(7) no show ?thesis
      by (intro send_new_inv [OF assms(1,2) no assms(3-6)]) (simp add: uplink_step_def)
  qed
next
  case down: True
  obtain bs ds k where inv: "holds_batches sha enc dec bs (up_buffer d)" "increasing given" "increasing bs"
    "set bs \<subseteq> set given" "given = ds @ pending (up_buffer d) bs"
    "firsts (log (up_sink d)) = ds @ take k (pending (up_buffer d) bs)"
    "eb_ack_watermark (up_buffer d) = 0 \<or> eb_ack_watermark (up_buffer d) \<in> batch_seq ` set given"
    using assms(2) unfolding uplink_inv_def by blast
  let ?p = "pending (up_buffer d) bs"
  have rep: "replay_from sha dec (replay_read w) (eb_ack_watermark (up_buffer d)) (up_buffer d) = Inr ?p"
    using replay_holds [OF inv(1)] down by (simp add: pending_def)
  obtain q s where dr: "drain submit now ?p [] (up_sink d) = (q, s)" by fastforce
  obtain j where j: "j \<le> length ?p" "log s = log (up_sink d) @ take j ?p" "(\<exists>vs. q = DrainDone vs) \<longrightarrow> j = length ?p"
    using drain_log [OF assms(1) dr] by blast
  have "distinct (ds @ ?p)" using increasing_distinct [OF inv(2)] inv(5) by simp
  then have f: "firsts (log s) = ds @ take (max k j) ?p"
    using firsts_again [OF inv(6) _ j(1)] j(2) by simp
  have kept: "uplink_inv sha enc dec log given (d\<lparr>up_sink := s\<rparr>)"
    unfolding uplink_inv_def
    by (intro exI [of _ bs] exI [of _ ds] exI [of _ "max k j"]) (use inv f down in auto)
  show ?thesis
  proof (cases q)
    case (DrainError e)
    then have "r = Inl (DriverSink e)" "d' = d\<lparr>up_sink := s\<rparr>"
      using assms(7) down rep dr by (auto simp: uplink_step_def)
    then show ?thesis using kept by simp
  next
    case (DrainDown vs)
    have "(d\<lparr>up_sink := s\<rparr>)\<lparr>was_down := True\<rparr> = d\<lparr>up_sink := s\<rparr>" using down by (cases d) simp
    then have "uplink_inv sha enc dec log given ((d\<lparr>up_sink := s\<rparr>)\<lparr>was_down := True\<rparr>)"
      using kept by (simp only:)
    moreover have "was_down (d\<lparr>up_sink := s\<rparr>)" using down by simp
    ultimately obtain d2 where
      "(buffer_it sha enc w b vs (d\<lparr>up_sink := s\<rparr>) :: (('x, 'e) driver_error + 'v step_outcome) \<times> 's uplink) =
        (Inr (StepBuffered vs), d2)" "uplink_inv sha enc dec log (given @ [b]) d2"
      using buffer_it_inv [OF _ _ assms(3-6)] by blast
    then show ?thesis
      using assms(7) down rep dr DrainDown by (auto simp: uplink_step_def)
  next
    case (DrainDone vs)
    then have full: "firsts (log s) = given" using f j inv(5) by simp
    obtain x buf where pr: "(if ?p = [] then (Inr (), up_buffer d)
        else persist_ack_watermark (ack_write w) (batch_seq (last ?p)) (up_buffer d)) = (x :: 'x buffer_error + unit, buf)"
      by fastforce
    have hold: "holds_batches sha enc dec bs buf"
      using pr inv(1) by (auto simp: persist_holds split: if_splits)
    show ?thesis
    proof (cases x)
      case (Inl e)
      then have "?p \<noteq> []" and pp: "persist_ack_watermark (ack_write w) (batch_seq (last ?p)) (up_buffer d) = (x, buf)"
        using pr by (auto split: if_splits)
      from persist_buffer(4) [OF pp] Inl have "eb_ack_watermark buf = eb_ack_watermark (up_buffer d)" by simp
      then have "pending buf bs = ?p" "eb_ack_watermark buf = eb_ack_watermark (up_buffer d)"
        by (simp_all add: pending_def)
      moreover have "r = Inl (DriverBuffer e)" "d' = d\<lparr>up_sink := s, up_buffer := buf\<rparr>"
        using assms(7) down rep dr DrainDone pr Inl by (auto simp: uplink_step_def)
      ultimately show ?thesis
        unfolding uplink_inv_def
        by (intro exI [of _ bs] exI [of _ ds] exI [of _ "max k j"]) (use inv f down hold in auto)
    next
      case (Inr u)
      let ?d = "d\<lparr>up_sink := s, up_buffer := buf, was_down := False\<rparr>"
      have wm: "pending buf bs = []" "eb_ack_watermark buf = 0 \<or> eb_ack_watermark buf \<in> batch_seq ` set given"
      proof -
        show "pending buf bs = []"
          using pr Inr drained_pending [OF inv(3), of "up_buffer d" buf] persist_buffer(4)
          by (auto split: if_splits) fastforce+
        have "?p \<noteq> [] \<Longrightarrow> eb_ack_watermark buf = batch_seq (last ?p)"
          using pr Inr persist_buffer(4) by (auto split: if_splits) fastforce+
        moreover have "?p \<noteq> [] \<Longrightarrow> last ?p \<in> set given" using inv(5) by simp
        moreover have "?p = [] \<Longrightarrow> buf = up_buffer d" using pr by simp
        ultimately show "eb_ack_watermark buf = 0 \<or> eb_ack_watermark buf \<in> batch_seq ` set given"
          using inv(7) by (cases "?p = []") auto
      qed
      have "uplink_inv sha enc dec log given ?d"
        unfolding uplink_inv_def
        by (intro exI [of _ bs] exI [of _ given] exI [of _ 0]) (use inv hold full wm in auto)
      moreover have "send_new sha enc submit w b now vs ?d = (r, d')"
        using assms(7) down rep dr DrainDone pr Inr by (simp add: uplink_step_def)
      ultimately show ?thesis
        by (intro send_new_inv [OF assms(1) _ _ assms(3-6)]) simp_all
    qed
  qed
qed

text \<open>A run of steps; the batches a step took charge of are kept beside the driver.\<close>

definition run_step ::
  "(bytes \<Rightarrow> digest) \<Rightarrow> (batch \<Rightarrow> bytes) \<Rightarrow> (bytes \<Rightarrow> 'x + batch) \<Rightarrow> ('s, 'v, 'e) batch_sink \<Rightarrow>
     's uplink \<times> batch list \<Rightarrow> uplink_world \<times> batch \<times> i64 \<Rightarrow> 's uplink \<times> batch list" where
  "run_step sha enc dec submit st e =
     (case (st, e) of ((d, given), (w, b, now)) \<Rightarrow>
        (case uplink_step sha enc dec submit w b now d of
           (r, d') \<Rightarrow> (d', if isl r then given else given @ [b])))"

definition run_uplink ::
  "(bytes \<Rightarrow> digest) \<Rightarrow> (batch \<Rightarrow> bytes) \<Rightarrow> (bytes \<Rightarrow> 'x + batch) \<Rightarrow> ('s, 'v, 'e) batch_sink \<Rightarrow> 's uplink \<Rightarrow>
     (uplink_world \<times> batch \<times> i64) list \<Rightarrow> 's uplink \<times> batch list" where
  "run_uplink sha enc dec submit d es = foldl (run_step sha enc dec submit) (d, []) es"

abbreviation batches_of :: "(uplink_world \<times> batch \<times> i64) list \<Rightarrow> batch list" where
  "batches_of es \<equiv> map (fst \<circ> snd) es"

lemma run_uplink_inv:
  assumes "honest submit log" "uplink_inv sha enc dec log [] d"
    and "\<forall>(w, b, now) \<in> set es. append_write w = WriteOk \<and> buffered enc dec b \<and> 0 < batch_seq b"
    and "increasing (batches_of es)"
  shows "uplink_inv sha enc dec log (snd (run_uplink sha enc dec submit d es)) (fst (run_uplink sha enc dec submit d es)) \<and>
    set (snd (run_uplink sha enc dec submit d es)) \<subseteq> set (batches_of es)"
  using assms(3,4)
proof (induction es rule: rev_induct)
  case Nil
  then show ?case using assms(2) by (simp add: run_uplink_def)
next
  case (snoc e es)
  obtain w b now where e: "e = (w, b, now)" by (cases e)
  obtain d1 given where r: "run_uplink sha enc dec submit d es = (d1, given)" by fastforce
  obtain q d2 where st: "uplink_step sha enc dec submit w b now d1 = (q, d2)" by fastforce
  have IH: "uplink_inv sha enc dec log given d1" "set given \<subseteq> set (batches_of es)"
    using snoc by (auto simp: r increasing_snoc)
  have ok: "append_write w = WriteOk" "buffered enc dec b" "0 < batch_seq b"
    using snoc.prems(1) by (auto simp: e)
  have "\<forall>a \<in> set given. batch_seq a < batch_seq b"
    using snoc.prems(2) IH(2) by (auto simp: e increasing_snoc)
  from uplink_step_inv [OF assms(1) IH(1) ok this st]
  have "uplink_inv sha enc dec log (if isl q then given else given @ [b]) d2" .
  moreover have "run_uplink sha enc dec submit d (es @ [e]) = (d2, if isl q then given else given @ [b])"
    using r st by (simp add: run_uplink_def run_step_def e)
  ultimately show ?case using IH(2) by (auto simp: e)
qed

lemma new_uplink_inv:
  assumes "holds_batches sha enc dec [] buf" "eb_ack_watermark buf = 0" "log s = []"
  shows "uplink_inv sha enc dec log [] (new_uplink s buf)"
  unfolding uplink_inv_def
  by (intro exI [of _ "[]"] exI [of _ "[]"] exI [of _ 0])
    (use assms in \<open>simp add: new_uplink_def increasing_def pending_def\<close>)

section \<open>Properties\<close>

text \<open>
  The uplink loses nothing and keeps the order: with batches numbered upwards from 1,
  an empty buffer at the start and appends that succeed, and whatever the link, the sink,
  the watermark file and the reads do, the batches \<open>step\<close> took charge of are, in this order, those that
  reached the sink (each counted where it first arrived) and a rest that waits in the
  buffer; while the driver is not in a down period nothing waits, so all of them arrived.
\<close>

theorem uplink_delivers_in_order:
  assumes "honest submit log" "holds_batches sha enc dec [] buf" "eb_ack_watermark buf = 0" "log s = []"
    and "\<forall>(w, b, now) \<in> set es. append_write w = WriteOk \<and> buffered enc dec b \<and> 0 < batch_seq b"
    and "increasing (batches_of es)"
    and "run_uplink sha enc dec submit (new_uplink s buf) es = (d, given)"
  shows "\<exists>waiting k. replay_from sha dec True (eb_ack_watermark (up_buffer d)) (up_buffer d) = Inr waiting \<and>
    firsts (log (up_sink d)) @ drop k waiting = given \<and> (\<not> was_down d \<longrightarrow> waiting = [])"
proof -
  have "uplink_inv sha enc dec log given d"
    using run_uplink_inv [OF assms(1) new_uplink_inv [OF assms(2,3), of log s, OF assms(4)] assms(5,6)] assms(7) by simp
  then obtain bs ds k where inv: "holds_batches sha enc dec bs (up_buffer d)"
    "given = ds @ pending (up_buffer d) bs"
    "firsts (log (up_sink d)) = ds @ take k (pending (up_buffer d) bs)"
    "\<not> was_down d \<longrightarrow> pending (up_buffer d) bs = []"
    unfolding uplink_inv_def by blast
  then have "firsts (log (up_sink d)) @ drop k (pending (up_buffer d) bs) = given" by simp
  with inv(4) replay_holds [OF inv(1)] show ?thesis unfolding pending_def by blast
qed

text \<open>
  A driver that starts on a buffer with batches waiting in it does not know of them: its first
  step sends the new batch, and the ones before it still wait.
\<close>

theorem restart_overtakes_backlog:
  assumes "honest submit log" "submit b now s = (Inr (Delivered v), s')" "holds_batches sha enc dec bs buf"
  shows "\<exists>d. (uplink_step sha enc dec submit w b now (new_uplink s buf) :: (('x, 'e) driver_error + _) \<times> _) =
      (Inr (StepDelivered [] v), d) \<and>
    log (up_sink d) = log s @ [b] \<and>
    replay_from sha dec True (eb_ack_watermark (up_buffer d)) (up_buffer d) =
      Inr (filter (\<lambda>a. eb_ack_watermark buf < batch_seq a) bs)"
proof -
  have "log s' = log s @ [b]" using assms(1,2) unfolding honest_def by (metis fst_conv snd_conv sum.case(2) sink_outcome.case(1))
  then show ?thesis using assms(2) replay_holds [OF assms(3)] by (simp add: uplink_step_def new_uplink_def send_new_def)
qed

section \<open>Witnesses\<close>

text \<open>A sink that follows a script of link states and remembers what reached it.\<close>

definition scripted :: "(bool list \<times> batch list, unit, unit) batch_sink" where
  "scripted b now s =
     (case s of
        (True # up, got) \<Rightarrow> (Inr (Delivered ()), (up, got @ [b]))
      | (False # up, got) \<Rightarrow> (Inr LinkDown, (up, got))
      | ([], got) \<Rightarrow> (Inl (), ([], got)))"

lemma scripted_honest: "honest scripted snd"
  by (auto simp: honest_def scripted_def split: list.split bool.split prod.split)

definition sample_uplink_world :: uplink_world where
  "sample_uplink_world = \<lparr>append_write = WriteOk, ack_write = WriteOk, replay_read = True\<rparr>"

theorem uplink_delivers_in_order_witness:
  "\<exists>d given. run_uplink (\<lambda>_. 0) (\<lambda>_. [1]) (sample_dec sample_batch) scripted
      (new_uplink ([False], []) sample_buffer) [(sample_uplink_world, sample_batch, 5)] = (d, given) \<and>
    (\<exists>waiting k. firsts (snd (up_sink d)) @ drop k waiting = given)"
proof -
  obtain d given where r: "run_uplink (\<lambda>_. 0) (\<lambda>_. [1]) (sample_dec sample_batch) scripted
      (new_uplink ([False], []) sample_buffer) [(sample_uplink_world, sample_batch, 5)] = (d, given)"
    by fastforce
  have "\<forall>(w, b, now) \<in> set [(sample_uplink_world, sample_batch, 5 :: i64)].
      append_write w = WriteOk \<and> buffered (\<lambda>_. [1]) (sample_dec sample_batch) b \<and> 0 < batch_seq b"
    using sample_buffered [of sample_batch] by (simp add: sample_uplink_world_def sample_batch_def)
  from uplink_delivers_in_order [OF scripted_honest sample_buffer_holds _ _ this _ r] r show ?thesis
    by (fastforce simp: sample_buffer_def increasing_def)
qed

theorem restart_overtakes_backlog_witness:
  "\<exists>d buf. uplink_step (\<lambda>_. 0) (\<lambda>_. [1]) (sample_dec sample_batch) scripted sample_uplink_world
      (sample_batch\<lparr>batch_seq := 2\<rparr>) 5 (new_uplink ([True], []) buf) = (Inr (StepDelivered [] ()), d) \<and>
    snd (up_sink d) = [sample_batch\<lparr>batch_seq := 2\<rparr>] \<and>
    replay_from (\<lambda>_. 0) (sample_dec sample_batch) True 0 (up_buffer d) = Inr [sample_batch]"
proof -
  obtain buf where b: "holds_batches (\<lambda>_. 0) (\<lambda>_. [1]) (sample_dec sample_batch) [sample_batch] buf" "eb_ack_watermark buf = 0"
    using buffer_append_holds [OF sample_buffer_holds sample_buffered, of "\<lambda>_. 0" sample_batch] by (auto simp: sample_buffer_def)
  have "scripted (sample_batch\<lparr>batch_seq := 2\<rparr>) 5 ([True], []) = (Inr (Delivered ()), ([], [sample_batch\<lparr>batch_seq := 2\<rparr>]))"
    by (simp add: scripted_def)
  from restart_overtakes_backlog [OF scripted_honest this b(1), of sample_uplink_world] b(2) show ?thesis
    by (fastforce simp: uplink_step_def new_uplink_def send_new_def scripted_def sample_batch_def)
qed

end
