(* ===== verification/Edge_Identity.thy ===== *)
theory Edge_Identity
  imports Edge_Hash Cdm_Time
begin

text \<open>
  \<open>av-edge\<close>, \<open>identity.rs\<close>, and the key loaders of \<open>verify.rs\<close> and \<open>sign.rs\<close>: a leaf
  certificate becomes an identity when its key is on P-384 and its chain verifies at the time
  of the check, and otherwise one typed and counted reason is given.

  OpenSSL is a parameter (\<open>pki\<close>): the readers of PEM text, the accessors of certificates and
  keys, and the verification of a chain against trusted certificates, at a time or with
  the time check off. A certificate time is its distance to 1970 in days and seconds.
\<close>

section \<open>The operations of OpenSSL\<close>

record ('c, 'y, 'k, 'p) pki =
  cert_from_pem :: "bytes \<Rightarrow> string + 'c"
  certs_from_pem :: "bytes \<Rightarrow> string + 'c list"
  cert_public_key :: "'c \<Rightarrow> string + 'y"
  cert_digest :: "'c \<Rightarrow> string + bytes"
  cert_common_name :: "'c \<Rightarrow> string option"
  cert_not_before :: "'c \<Rightarrow> string + int \<times> int"
  cert_not_after :: "'c \<Rightarrow> string + int \<times> int"
  pkey_ec :: "'y \<Rightarrow> string + 'k"
  pkey_from_pem :: "bytes \<Rightarrow> string + 'y"
  key_curve :: "'k \<Rightarrow> int option"
  private_from_pem :: "bytes \<Rightarrow> string + 'p"
  private_curve :: "'p \<Rightarrow> int option"
  private_public :: "'p \<Rightarrow> string + 'y"
  public_eq :: "'y \<Rightarrow> 'y \<Rightarrow> bool"
  store_add :: "'c \<Rightarrow> string + unit"
  verify_chain :: "'c list \<Rightarrow> 'c \<Rightarrow> 'c list \<Rightarrow> int option \<Rightarrow> string + bool"

text \<open>\<open>Nid::SECP384R1\<close>.\<close>

definition secp384r1 :: int where "secp384r1 = 715"

section \<open>Key loaders\<close>

definition require_p384 :: "int option \<Rightarrow> verify_error + unit" where
  "require_p384 curve = (if curve \<noteq> Some secp384r1 then Inl (WrongCurve curve) else Inr ())"

definition ec_key_from_pkey :: "('c, 'y, 'k, 'p) pki \<Rightarrow> 'y \<Rightarrow> verify_error + 'k" where
  "ec_key_from_pkey pk y =
     ebind (map_err InvalidPem (pkey_ec pk y)) (\<lambda>k.
     ebind (require_p384 (key_curve pk k)) (\<lambda>_. Inr k))"

definition load_verifying_key :: "('c, 'y, 'k, 'p) pki \<Rightarrow> bytes \<Rightarrow> verify_error + 'k" where
  "load_verifying_key pk pem =
     (case cert_from_pem pk pem of
        Inr c \<Rightarrow> ebind (map_err InvalidPem (cert_public_key pk c)) (ec_key_from_pkey pk)
      | Inl _ \<Rightarrow> ebind (map_err InvalidPem (pkey_from_pem pk pem)) (ec_key_from_pkey pk))"

definition load_signing_key :: "('c, 'y, 'k, 'p) pki \<Rightarrow> bytes \<Rightarrow> signing_error + 'p" where
  "load_signing_key pk pem =
     ebind (map_err KeyPem (private_from_pem pk pem)) (\<lambda>k.
       if private_curve pk k \<noteq> Some secp384r1 then Inl (KeyCurve (private_curve pk k)) else Inr k)"

section \<open>Identities\<close>

datatype identity_rejection =
    MalformedPem string | NotP384 "int option" | IssuerNotTrusted bool | Expired i64 i64 | LeafNotYetValid i64 i64
  | IdentityOpenssl string | TimeOverflow int

record identity_counters =
  ic_accepted :: u64
  ic_malformed_pem :: u64
  ic_not_p384 :: u64
  ic_issuer_not_trusted :: u64
  ic_expired :: u64
  ic_not_yet_valid :: u64
  ic_openssl_error :: u64

definition new_identity_counters :: identity_counters where
  "new_identity_counters =
     \<lparr>ic_accepted = 0, ic_malformed_pem = 0, ic_not_p384 = 0, ic_issuer_not_trusted = 0, ic_expired = 0,
      ic_not_yet_valid = 0, ic_openssl_error = 0\<rparr>"

text \<open>The texts of \<open>IssuerNotTrusted\<close> and \<open>Openssl\<close> are values here: the two causes of the first, and the overflow of the second.\<close>

fun bump_identity :: "identity_rejection \<Rightarrow> identity_counters \<Rightarrow> identity_counters" where
  "bump_identity (MalformedPem _) c = c\<lparr>ic_malformed_pem := ic_malformed_pem c + 1\<rparr>"
| "bump_identity (NotP384 _) c = c\<lparr>ic_not_p384 := ic_not_p384 c + 1\<rparr>"
| "bump_identity (IssuerNotTrusted _) c = c\<lparr>ic_issuer_not_trusted := ic_issuer_not_trusted c + 1\<rparr>"
| "bump_identity (Expired _ _) c = c\<lparr>ic_expired := ic_expired c + 1\<rparr>"
| "bump_identity (LeafNotYetValid _ _) c = c\<lparr>ic_not_yet_valid := ic_not_yet_valid c + 1\<rparr>"
| "bump_identity (IdentityOpenssl _) c = c\<lparr>ic_openssl_error := ic_openssl_error c + 1\<rparr>"
| "bump_identity (TimeOverflow _) c = c\<lparr>ic_openssl_error := ic_openssl_error c + 1\<rparr>"

type_synonym 'c trust_anchors = "'c list"

fun add_certs :: "('c, 'y, 'k, 'p) pki \<Rightarrow> 'c list \<Rightarrow> 'c list \<Rightarrow> identity_rejection + 'c list" where
  "add_certs pk acc [] = Inr acc"
| "add_certs pk acc (c # cs) =
     ebind (map_err IdentityOpenssl (store_add pk c)) (\<lambda>_. add_certs pk (acc @ [c]) cs)"

fun add_pems :: "('c, 'y, 'k, 'p) pki \<Rightarrow> 'c list \<Rightarrow> bytes list \<Rightarrow> identity_rejection + 'c list" where
  "add_pems pk acc [] = Inr acc"
| "add_pems pk acc (pem # pems) =
     ebind (map_err MalformedPem (certs_from_pem pk pem)) (\<lambda>cs.
     ebind (add_certs pk acc cs) (\<lambda>acc. add_pems pk acc pems))"

definition anchors_from_pems :: "('c, 'y, 'k, 'p) pki \<Rightarrow> bytes list \<Rightarrow> identity_rejection + 'c trust_anchors" where
  "anchors_from_pems pk pems =
     ebind (add_pems pk [] pems) (\<lambda>certs.
       if certs = [] then Inl (MalformedPem ''no certificates found in the given PEM(s)'') else Inr certs)"

record 'k edge_identity =
  id_public_key :: 'k
  id_fingerprint_sha256 :: string
  id_subject_cn :: string
  id_not_before_tai_ns :: i64
  id_not_after_tai_ns :: i64

definition tai_ns_to_unix_time_t :: "i64 \<Rightarrow> int" where
  "tai_ns_to_unix_time_t t = to_utc_nanos t div 1000000000"

definition asn1_time_to_tai_ns :: "string + int \<times> int \<Rightarrow> identity_rejection + i64" where
  "asn1_time_to_tai_ns diff =
     ebind (map_err IdentityOpenssl diff) (\<lambda>(days, secs).
       let unix_secs = days * 86400 + secs; unix_ns = unix_secs * 1000000000
       in if in_i64 unix_ns then Inr (from_utc_nanos unix_ns) else Inl (TimeOverflow unix_secs))"

definition subject_cn :: "('c, 'y, 'k, 'p) pki \<Rightarrow> 'c \<Rightarrow> string" where
  "subject_cn pk c = (case cert_common_name pk c of Some s \<Rightarrow> s | None \<Rightarrow> [])"

definition parse_chain_pem :: "('c, 'y, 'k, 'p) pki \<Rightarrow> bytes option \<Rightarrow> identity_rejection + 'c list" where
  "parse_chain_pem pk chain =
     (case chain of None \<Rightarrow> Inr [] | Some pem \<Rightarrow> map_err MalformedPem (certs_from_pem pk pem))"

definition verify_identity_inner ::
  "('c, 'y, 'k, 'p) pki \<Rightarrow> bytes \<Rightarrow> bytes option \<Rightarrow> 'c trust_anchors \<Rightarrow> i64 \<Rightarrow> identity_rejection + 'k edge_identity" where
  "verify_identity_inner pk leaf_pem chain_pem anchors now =
     ebind (map_err MalformedPem (cert_from_pem pk leaf_pem)) (\<lambda>leaf.
     ebind (map_err MalformedPem (cert_public_key pk leaf)) (\<lambda>y.
     ebind (map_err (\<lambda>_. NotP384 None) (pkey_ec pk y)) (\<lambda>k.
     if key_curve pk k \<noteq> Some secp384r1 then Inl (NotP384 (key_curve pk k))
     else
       ebind (parse_chain_pem pk chain_pem) (\<lambda>chain.
       ebind (map_err IdentityOpenssl (verify_chain pk anchors leaf chain (Some (tai_ns_to_unix_time_t now)))) (\<lambda>trusted_now.
       if \<not> trusted_now then
         ebind (map_err IdentityOpenssl (verify_chain pk anchors leaf chain None)) (\<lambda>chain_ok.
         if \<not> chain_ok then Inl (IssuerNotTrusted False)
         else
           ebind (asn1_time_to_tai_ns (cert_not_before pk leaf)) (\<lambda>nb.
           ebind (asn1_time_to_tai_ns (cert_not_after pk leaf)) (\<lambda>na.
           if now < nb then Inl (LeafNotYetValid nb now)
           else if na < now then Inl (Expired na now)
           else Inl (IssuerNotTrusted True))))
       else
         ebind (asn1_time_to_tai_ns (cert_not_before pk leaf)) (\<lambda>nb.
         ebind (asn1_time_to_tai_ns (cert_not_after pk leaf)) (\<lambda>na.
         ebind (map_err IdentityOpenssl (cert_digest pk leaf)) (\<lambda>fp.
           Inr \<lparr>id_public_key = k, id_fingerprint_sha256 = hex_encode fp, id_subject_cn = subject_cn pk leaf,
                id_not_before_tai_ns = nb, id_not_after_tai_ns = na\<rparr>))))))))"

definition verify_identity ::
  "('c, 'y, 'k, 'p) pki \<Rightarrow> bytes \<Rightarrow> bytes option \<Rightarrow> 'c trust_anchors \<Rightarrow> i64 \<Rightarrow> identity_counters \<Rightarrow>
     (identity_rejection + 'k edge_identity) \<times> identity_counters" where
  "verify_identity pk leaf_pem chain_pem anchors now c =
     (case verify_identity_inner pk leaf_pem chain_pem anchors now of
        Inr i \<Rightarrow> (Inr i, c\<lparr>ic_accepted := ic_accepted c + 1\<rparr>)
      | Inl e \<Rightarrow> (Inl e, bump_identity e c))"

datatype batch_identity_error = FingerprintMismatch string string | IdentityVerify verify_error

definition verify_batch_signed_by ::
  "(bytes \<Rightarrow> digest) \<Rightarrow> (batch \<Rightarrow> bytes) \<Rightarrow> ('p, 'k, 's) ecdsa \<Rightarrow> 'k edge_identity \<Rightarrow> batch \<Rightarrow>
     batch_identity_error + digest" where
  "verify_batch_signed_by sha enc ec i b =
     (if signer_cert_sha256 b \<noteq> id_fingerprint_sha256 i
      then Inl (FingerprintMismatch (signer_cert_sha256 b) (id_fingerprint_sha256 i))
      else map_err IdentityVerify (verify_batch sha enc ec b (id_public_key i)))"

section \<open>Lemmas\<close>

lemma map_err_eq_Inl: "map_err f r = Inl e \<longleftrightarrow> (\<exists>x. r = Inl x \<and> e = f x)"
  by (cases r) auto

text \<open>Only the comparison with the validity window calls a leaf expired or not yet valid.\<close>

lemma asn1_not_window [simp]:
  "asn1_time_to_tai_ns x \<noteq> Inl (Expired a n)" "asn1_time_to_tai_ns x \<noteq> Inl (LeafNotYetValid a n)"
  by (auto simp: asn1_time_to_tai_ns_def ebind_eq_Inl map_err_eq_Inl Let_def split: prod.splits if_splits)

lemma chain_not_window [simp]:
  "parse_chain_pem pk x \<noteq> Inl (Expired a n)" "parse_chain_pem pk x \<noteq> Inl (LeafNotYetValid a n)"
  by (auto simp: parse_chain_pem_def map_err_eq_Inl split: option.splits)

definition ic_total :: "identity_counters \<Rightarrow> u64" where
  "ic_total c =
     ic_accepted c + ic_malformed_pem c + ic_not_p384 c + ic_issuer_not_trusted c + ic_expired c + ic_not_yet_valid c +
     ic_openssl_error c"

lemma verify_identity_counted:
  assumes "verify_identity pk leaf_pem chain_pem anchors now c = (r, c')"
  shows "ic_total c' = ic_total c + 1"
proof (cases "verify_identity_inner pk leaf_pem chain_pem anchors now")
  case (Inl e)
  then show ?thesis using assms by (cases e) (auto simp: verify_identity_def ic_total_def)
next
  case (Inr i)
  then show ?thesis using assms by (auto simp: verify_identity_def ic_total_def)
qed

section \<open>Properties\<close>

text \<open>
  Who becomes an identity and why not: an accepted leaf has a P-384 key, its chain
  verified against the trusted certificates at the second of the check, and the identity
  carries that key and the leaf's fingerprint; a leaf is called expired or not yet valid only
  when its chain is trusted apart from time and its own validity window says so; and every
  check raises exactly one counter.
\<close>

theorem verify_identity_sound:
  assumes "verify_identity pk leaf_pem chain_pem anchors now c = (r, c')"
  shows "(\<forall>i. r = Inr i \<longrightarrow>
      (\<exists>leaf y fp chain. cert_from_pem pk leaf_pem = Inr leaf \<and> cert_public_key pk leaf = Inr y \<and>
         pkey_ec pk y = Inr (id_public_key i) \<and> key_curve pk (id_public_key i) = Some secp384r1 \<and>
         parse_chain_pem pk chain_pem = Inr chain \<and>
         verify_chain pk anchors leaf chain (Some (tai_ns_to_unix_time_t now)) = Inr True \<and>
         cert_digest pk leaf = Inr fp \<and> id_fingerprint_sha256 i = hex_encode fp)) \<and>
    (\<forall>a n. r = Inl (Expired a n) \<or> r = Inl (LeafNotYetValid a n) \<longrightarrow>
      n = now \<and>
      (\<exists>leaf chain. cert_from_pem pk leaf_pem = Inr leaf \<and> parse_chain_pem pk chain_pem = Inr chain \<and>
         verify_chain pk anchors leaf chain (Some (tai_ns_to_unix_time_t now)) = Inr False \<and>
         verify_chain pk anchors leaf chain None = Inr True \<and>
         (r = Inl (Expired a n) \<longrightarrow> asn1_time_to_tai_ns (cert_not_after pk leaf) = Inr a \<and> a < now) \<and>
         (r = Inl (LeafNotYetValid a n) \<longrightarrow> asn1_time_to_tai_ns (cert_not_before pk leaf) = Inr a \<and> now < a))) \<and>
    ic_total c' = ic_total c + 1"
proof (intro conjI)
  let ?v = "verify_identity_inner pk leaf_pem chain_pem anchors now"
  have r: "r = ?v" using assms by (auto simp: verify_identity_def split: sum.splits)
  show "\<forall>i. r = Inr i \<longrightarrow>
      (\<exists>leaf y fp chain. cert_from_pem pk leaf_pem = Inr leaf \<and> cert_public_key pk leaf = Inr y \<and>
         pkey_ec pk y = Inr (id_public_key i) \<and> key_curve pk (id_public_key i) = Some secp384r1 \<and>
         parse_chain_pem pk chain_pem = Inr chain \<and>
         verify_chain pk anchors leaf chain (Some (tai_ns_to_unix_time_t now)) = Inr True \<and>
         cert_digest pk leaf = Inr fp \<and> id_fingerprint_sha256 i = hex_encode fp)"
    unfolding r by (auto simp: verify_identity_inner_def ebind_eq_Inr split: if_splits)
  show "ic_total c' = ic_total c + 1" by (rule verify_identity_counted [OF assms])
  show "\<forall>a n. r = Inl (Expired a n) \<or> r = Inl (LeafNotYetValid a n) \<longrightarrow>
      n = now \<and>
      (\<exists>leaf chain. cert_from_pem pk leaf_pem = Inr leaf \<and> parse_chain_pem pk chain_pem = Inr chain \<and>
         verify_chain pk anchors leaf chain (Some (tai_ns_to_unix_time_t now)) = Inr False \<and>
         verify_chain pk anchors leaf chain None = Inr True \<and>
         (r = Inl (Expired a n) \<longrightarrow> asn1_time_to_tai_ns (cert_not_after pk leaf) = Inr a \<and> a < now) \<and>
         (r = Inl (LeafNotYetValid a n) \<longrightarrow> asn1_time_to_tai_ns (cert_not_before pk leaf) = Inr a \<and> now < a))"
    unfolding r
    by (auto simp: verify_identity_inner_def ebind_eq_Inl ebind_eq_Inr map_err_eq_Inl asn1_not_window chain_not_window
        split: if_splits)
qed

section \<open>Witnesses\<close>

definition sample_pki :: "(unit, unit, unit, unit) pki" where
  "sample_pki =
     \<lparr>cert_from_pem = (\<lambda>_. Inr ()), certs_from_pem = (\<lambda>_. Inr [()]), cert_public_key = (\<lambda>_. Inr ()),
      cert_digest = (\<lambda>_. Inr [1, 2]), cert_common_name = (\<lambda>_. Some ''edge''), cert_not_before = (\<lambda>_. Inr (0, 0)),
      cert_not_after = (\<lambda>_. Inr (20000, 0)), pkey_ec = (\<lambda>_. Inr ()), pkey_from_pem = (\<lambda>_. Inr ()),
      key_curve = (\<lambda>_. Some secp384r1), private_from_pem = (\<lambda>_. Inr ()), private_curve = (\<lambda>_. Some secp384r1),
      private_public = Inr, public_eq = (=), store_add = (\<lambda>_. Inr ()), verify_chain = (\<lambda>_ _ _ t. Inr (t \<noteq> None))\<rparr>"

theorem verify_identity_sound_witness:
  "\<exists>i c'. verify_identity sample_pki [] None [()] 5 new_identity_counters = (Inr i, c') \<and> ic_total c' = 1 \<and>
     id_fingerprint_sha256 i = hex_encode [1, 2]"
proof -
  obtain r c' where v: "verify_identity sample_pki [] None [()] 5 new_identity_counters = (r, c')" by fastforce
  then obtain i where "r = Inr i"
    by (auto simp: verify_identity_def verify_identity_inner_def sample_pki_def parse_chain_pem_def
        asn1_time_to_tai_ns_def in_i64_def i64_min_def i64_max_def)
  with verify_identity_sound [OF v] v show ?thesis
    by (auto simp: ic_total_def new_identity_counters_def sample_pki_def)
qed

end
