(* ===== verification/Edge_Board_Log.thy ===== *)
theory Edge_Board_Log
  imports Edge_Identity Edge_Log
begin

text \<open>
  \<open>av-edge\<close>, \<open>board_log.rs\<close>: the signed log of a flight board's input and output. A record is
  stamped_record with its position and the previous record's hash, hashed, signed and written as one
  frame whose header repeats the record's hash; a failed append poisons the writer. The
  reader checks every record and treats a cut last frame as a recovery, anything else as an
  error. The fields of a record that no operation here reads are one opaque field.
\<close>

section \<open>Records\<close>

record board_record =
  br_producer_id :: string
  br_sequence :: u64
  br_prev_hash :: bytes
  br_record_hash :: bytes
  br_signature :: bytes
  br_signer_cert_sha256 :: string
  br_run_id :: string
  br_kind :: int
  br_until_tai_ns :: i64
  br_error :: string
  br_request_written_unix_ns :: i64
  br_response_read_unix_ns :: i64
  br_link_config_sha256 :: string
  br_rest :: bytes

definition MAX_PAYLOAD_LEN :: nat where "MAX_PAYLOAD_LEN = 16 * 1024 * 1024"

datatype torn_kind = TornHeader nat | TornPayload nat nat

datatype 'x board_error =
    BoardIo | BoardExists | InvalidCertificate string | KeyCertificateMismatch | BoardSigning signing_error
  | VerifyingKey verify_error | BoardPayloadTooLarge nat | Poisoned "'x board_error" | FrameTooLarge u64 nat
  | BoardUndecodable u64 'x | NonCanonicalEncoding u64 | FrameHashMismatch u64 | RecordHashMismatch u64
  | BoardChainBreak u64 | ProducerChanged u64 string string | SequenceGap u64 u64 u64
  | SignerMismatch u64 string string | BoardUnsigned u64 | BoardMalformedSignature u64 string
  | BoardSignatureInvalid u64

definition board_body_bytes :: "(board_record \<Rightarrow> bytes) \<Rightarrow> board_record \<Rightarrow> bytes" where
  "board_body_bytes enc r = enc (r\<lparr>br_record_hash := [], br_signature := []\<rparr>)"

definition compute_record_hash :: "(bytes \<Rightarrow> digest) \<Rightarrow> (board_record \<Rightarrow> bytes) \<Rightarrow> board_record \<Rightarrow> digest" where
  "compute_record_hash sha enc r = compute_batch_hash sha (br_prev_hash r) (board_body_bytes enc r)"

record 'p log_signer =
  ls_key :: 'p
  ls_cert_sha256 :: string

definition log_signer_from_pem :: "('c, 'y, 'k, 'p) pki \<Rightarrow> bytes \<Rightarrow> bytes \<Rightarrow> 'x board_error + 'p log_signer" where
  "log_signer_from_pem pk key_pem cert_pem =
     ebind (map_err BoardSigning (load_signing_key pk key_pem)) (\<lambda>k.
     ebind (map_err InvalidCertificate (cert_from_pem pk cert_pem)) (\<lambda>c.
     ebind (map_err InvalidCertificate (cert_public_key pk c)) (\<lambda>ck.
     ebind (map_err InvalidCertificate (private_public pk k)) (\<lambda>own.
     if \<not> public_eq pk ck own then Inl KeyCertificateMismatch
     else
       ebind (map_err InvalidCertificate (cert_digest pk c)) (\<lambda>d.
         Inr \<lparr>ls_key = k, ls_cert_sha256 = hex_encode d\<rparr>)))))"

definition seal ::
  "(bytes \<Rightarrow> digest) \<Rightarrow> (board_record \<Rightarrow> bytes) \<Rightarrow> ('p, 'k, 's) ecdsa \<Rightarrow> 'p log_signer \<Rightarrow> board_record \<Rightarrow>
     signing_error + board_record" where
  "seal sha enc ec signer r =
     (let r = r\<lparr>br_record_hash := [], br_signature := []\<rparr>; d = compute_record_hash sha enc r
      in ebind (sign_digest ec (ls_key signer) d) (\<lambda>sg. Inr (r\<lparr>br_signature := sg, br_record_hash := digest_bytes d\<rparr>)))"

definition raw_frame :: "bytes \<Rightarrow> bytes \<Rightarrow> bytes" where
  "raw_frame h p = nat_to_le 4 (length p) @ h @ p"

definition encode_frame :: "(board_record \<Rightarrow> bytes) \<Rightarrow> board_record \<Rightarrow> 'x board_error + bytes" where
  "encode_frame enc r =
     (let payload = enc r in
      if MAX_PAYLOAD_LEN < length payload then Inl (BoardPayloadTooLarge (length payload))
      else Inr (raw_frame (br_record_hash r) payload))"

section \<open>The writer\<close>

record append_receipt =
  rcp_sequence :: u64
  rcp_record_hash :: bytes
  rcp_frame_bytes :: nat

record ('p, 'x) board_writer =
  bw_file :: bytes
  bw_signer :: "'p log_signer"
  bw_producer_id :: string
  bw_link_config_sha256 :: string
  bw_tip :: bytes
  bw_next_sequence :: u64
  bw_failed :: "'x board_error option"

definition with_sink :: "string \<Rightarrow> string \<Rightarrow> 'p log_signer \<Rightarrow> ('p, 'x) board_writer" where
  "with_sink pid link signer =
     \<lparr>bw_file = [], bw_signer = signer, bw_producer_id = pid, bw_link_config_sha256 = link, bw_tip = GENESIS,
      bw_next_sequence = 1, bw_failed = None\<rparr>"

text \<open>\<open>create\<close>: \<open>exists\<close> says that the file is there already, \<open>ok\<close> that it and its directory entry could be written.\<close>

definition board_create :: "bool \<Rightarrow> bool \<Rightarrow> string \<Rightarrow> string \<Rightarrow> 'p log_signer \<Rightarrow> 'x board_error + ('p, 'x) board_writer" where
  "board_create exists ok pid link signer =
     (if exists then Inl BoardExists else if \<not> ok then Inl BoardIo else Inr (with_sink pid link signer))"

definition append_inner ::
  "(bytes \<Rightarrow> digest) \<Rightarrow> (board_record \<Rightarrow> bytes) \<Rightarrow> ('p, 'k, 's) ecdsa \<Rightarrow> write_outcome \<Rightarrow> board_record \<Rightarrow>
     ('p, 'x) board_writer \<Rightarrow> ('x board_error + append_receipt) \<times> ('p, 'x) board_writer" where
  "append_inner sha enc ec w draft bw =
     (let draft = draft\<lparr>br_producer_id := bw_producer_id bw, br_sequence := bw_next_sequence bw,
                        br_prev_hash := bw_tip bw, br_signer_cert_sha256 := ls_cert_sha256 (bw_signer bw),
                        br_link_config_sha256 := bw_link_config_sha256 bw\<rparr>
      in try_then (map_err BoardSigning (seal sha enc ec (bw_signer bw) draft), bw) (\<lambda>r bw.
         try_then (encode_frame enc r, bw) (\<lambda>frame bw.
           let (ok, f) = append_file w (bw_file bw) frame; bw = bw\<lparr>bw_file := f\<rparr>
           in if ok
              then (Inr \<lparr>rcp_sequence = br_sequence r, rcp_record_hash = br_record_hash r, rcp_frame_bytes = length frame\<rparr>,
                    bw\<lparr>bw_tip := br_record_hash r, bw_next_sequence := bw_next_sequence bw + 1\<rparr>)
              else (Inl BoardIo, bw))))"

definition board_append ::
  "(bytes \<Rightarrow> digest) \<Rightarrow> (board_record \<Rightarrow> bytes) \<Rightarrow> ('p, 'k, 's) ecdsa \<Rightarrow> write_outcome \<Rightarrow> board_record \<Rightarrow>
     ('p, 'x) board_writer \<Rightarrow> ('x board_error + append_receipt) \<times> ('p, 'x) board_writer" where
  "board_append sha enc ec w draft bw =
     (case bw_failed bw of
        Some why \<Rightarrow> (Inl (Poisoned why), bw)
      | None \<Rightarrow>
          (case append_inner sha enc ec w draft bw of
             (Inl e, bw) \<Rightarrow> (Inl e, bw\<lparr>bw_failed := Some e\<rparr>)
           | (Inr rc, bw) \<Rightarrow> (Inr rc, bw)))"

definition records_written :: "('p, 'x) board_writer \<Rightarrow> u64" where
  "records_written bw = bw_next_sequence bw - 1"

record log_head_info =
  lh_records :: u64
  lh_chain_head :: bytes
  lh_signer_cert_sha256 :: string
  lh_link_config_sha256 :: string
  lh_producer_id :: string

definition writer_head :: "('p, 'x) board_writer \<Rightarrow> log_head_info" where
  "writer_head bw =
     \<lparr>lh_records = records_written bw, lh_chain_head = bw_tip bw,
      lh_signer_cert_sha256 = ls_cert_sha256 (bw_signer bw), lh_link_config_sha256 = bw_link_config_sha256 bw,
      lh_producer_id = bw_producer_id bw\<rparr>"

section \<open>The reader\<close>

record 'k log_verifier =
  lv_key :: 'k
  lv_cert_sha256 :: "string option"

definition log_verifier_from_pem :: "('c, 'y, 'k, 'p) pki \<Rightarrow> bytes \<Rightarrow> 'x board_error + 'k log_verifier" where
  "log_verifier_from_pem pk pem =
     ebind (map_err VerifyingKey (load_verifying_key pk pem)) (\<lambda>k.
       case cert_from_pem pk pem of
         Inr c \<Rightarrow>
           ebind (map_err InvalidCertificate (cert_digest pk c)) (\<lambda>d.
             Inr \<lparr>lv_key = k, lv_cert_sha256 = Some (hex_encode d)\<rparr>)
       | Inl _ \<Rightarrow> Inr \<lparr>lv_key = k, lv_cert_sha256 = None\<rparr>)"

record torn_tail =
  tt_offset :: nat
  tt_discarded_bytes :: nat
  tt_kind :: torn_kind

record verified_log =
  vl_records :: "board_record list"
  vl_chain_head :: bytes
  vl_bytes_verified :: nat
  vl_recovery :: "torn_tail option"

definition signature_error :: "u64 \<Rightarrow> verify_error \<Rightarrow> 'x board_error" where
  "signature_error index e =
     (case e of
        NotSigned \<Rightarrow> BoardUnsigned index
      | MalformedSignature d \<Rightarrow> BoardMalformedSignature index d
      | SignatureInvalid \<Rightarrow> BoardSignatureInvalid index
      | e \<Rightarrow> VerifyingKey e)"

text \<open>The checks on one record, in the order of the loop body.\<close>

definition verify_record ::
  "(bytes \<Rightarrow> digest) \<Rightarrow> (board_record \<Rightarrow> bytes) \<Rightarrow> (bytes \<Rightarrow> 'x + board_record) \<Rightarrow> ('p, 'k, 's) ecdsa \<Rightarrow>
     'k log_verifier \<Rightarrow> board_record list \<Rightarrow> bytes \<Rightarrow> bytes \<Rightarrow> bytes \<Rightarrow> 'x board_error + board_record" where
  "verify_record sha enc dec ec lv records tip header_hash payload =
     (let index = of_nat (length records) + 1 in
      ebind (map_err (BoardUndecodable index) (dec payload)) (\<lambda>r.
      if enc r \<noteq> payload then Inl (NonCanonicalEncoding index)
      else if header_hash \<noteq> br_record_hash r then Inl (FrameHashMismatch index)
      else
        let recomputed = compute_record_hash sha enc r in
        if br_record_hash r \<noteq> digest_bytes recomputed then Inl (RecordHashMismatch index)
        else if br_prev_hash r \<noteq> tip then Inl (BoardChainBreak index)
        else if records \<noteq> [] \<and> br_producer_id (hd records) \<noteq> br_producer_id r
        then Inl (ProducerChanged index (br_producer_id (hd records)) (br_producer_id r))
        else if br_sequence r \<noteq> index then Inl (SequenceGap index index (br_sequence r))
        else
          case lv_cert_sha256 lv of
            Some c \<Rightarrow>
              if br_signer_cert_sha256 r \<noteq> c then Inl (SignerMismatch index c (br_signer_cert_sha256 r))
              else ebind (map_err (signature_error index) (verify_digest ec (lv_key lv) recomputed (br_signature r)))
                     (\<lambda>_. Inr r)
          | None \<Rightarrow>
              ebind (map_err (signature_error index) (verify_digest ec (lv_key lv) recomputed (br_signature r)))
                (\<lambda>_. Inr r)))"

function verify_loop_bytes ::
  "(bytes \<Rightarrow> digest) \<Rightarrow> (board_record \<Rightarrow> bytes) \<Rightarrow> (bytes \<Rightarrow> 'x + board_record) \<Rightarrow> ('p, 'k, 's) ecdsa \<Rightarrow>
     'k log_verifier \<Rightarrow> bytes \<Rightarrow> nat \<Rightarrow> board_record list \<Rightarrow> bytes \<Rightarrow> 'x board_error + verified_log" where
  "verify_loop_bytes sha enc dec ec lv bs offset records tip =
     (if length bs \<le> offset
      then Inr \<lparr>vl_records = records, vl_chain_head = tip, vl_bytes_verified = length bs, vl_recovery = None\<rparr>
      else
        let rest = drop offset bs;
            torn = (\<lambda>kind. Inr \<lparr>vl_records = records, vl_chain_head = tip, vl_bytes_verified = offset,
                     vl_recovery = Some \<lparr>tt_offset = offset, tt_discarded_bytes = length rest, tt_kind = kind\<rparr>\<rparr>)
        in if length rest < HEADER_LEN then torn (TornHeader (length rest))
           else
             let declared = le_to_nat (take 4 rest); have = length rest - HEADER_LEN in
             if MAX_PAYLOAD_LEN < declared then Inl (FrameTooLarge (of_nat (length records) + 1) declared)
             else if have < declared then torn (TornPayload declared have)
             else
               case verify_record sha enc dec ec lv records tip (byte_slice 4 HEADER_LEN rest)
                      (byte_slice HEADER_LEN (HEADER_LEN + declared) rest) of
                 Inl e \<Rightarrow> Inl e
               | Inr r \<Rightarrow>
                   verify_loop_bytes sha enc dec ec lv bs (offset + HEADER_LEN + declared) (records @ [r])
                     (br_record_hash r))"
  by pat_completeness auto
termination
  by (relation "measure (\<lambda>(_, _, _, _, _, bs, offset, _, _). length bs - offset)") (auto simp: HEADER_LEN_def)

declare verify_loop_bytes.simps [simp del]

definition verify_bytes ::
  "(bytes \<Rightarrow> digest) \<Rightarrow> (board_record \<Rightarrow> bytes) \<Rightarrow> (bytes \<Rightarrow> 'x + board_record) \<Rightarrow> ('p, 'k, 's) ecdsa \<Rightarrow>
     'k log_verifier \<Rightarrow> bytes \<Rightarrow> 'x board_error + verified_log" where
  "verify_bytes sha enc dec ec lv bs = verify_loop_bytes sha enc dec ec lv bs 0 [] GENESIS"

definition read_log ::
  "(bytes \<Rightarrow> digest) \<Rightarrow> (board_record \<Rightarrow> bytes) \<Rightarrow> (bytes \<Rightarrow> 'x + board_record) \<Rightarrow> ('p, 'k, 's) ecdsa \<Rightarrow>
     'k log_verifier \<Rightarrow> bytes option \<Rightarrow> 'x board_error + verified_log" where
  "read_log sha enc dec ec lv f = (case f of None \<Rightarrow> Inl BoardIo | Some bs \<Rightarrow> verify_bytes sha enc dec ec lv bs)"

section \<open>The summary\<close>

record log_summary =
  sm_records :: u64
  sm_binds :: nat
  sm_steps :: nat
  sm_resets :: nat
  sm_shutdowns :: nat
  sm_power_cycles :: nat
  sm_link_rehandshakes :: nat
  sm_failed_exchanges :: nat
  sm_first_epoch_tai_ns :: "i64 option"
  sm_last_epoch_tai_ns :: "i64 option"
  sm_first_request_written_unix_ns :: "i64 option"
  sm_last_response_read_unix_ns :: "i64 option"
  sm_producer_id :: string
  sm_signer_cert_sha256 :: string
  sm_link_config_sha256 :: string
  sm_run_ids :: "string set"
  sm_chain_head_hex :: string
  sm_bytes_verified :: nat

text \<open>\<open>Option::get_or_insert\<close>, and one record of the loop. The kinds are the numbers of \<open>BoardIoKind\<close>.\<close>

definition get_or_insert :: "'a \<Rightarrow> 'a option \<Rightarrow> 'a option" where
  "get_or_insert x f = (case f of None \<Rightarrow> Some x | Some y \<Rightarrow> Some y)"

definition summary_step :: "log_summary \<Rightarrow> board_record \<Rightarrow> log_summary" where
  "summary_step s r =
     (let s = (if br_kind r = 1 then s\<lparr>sm_binds := sm_binds s + 1\<rparr>
               else if br_kind r = 2
               then s\<lparr>sm_steps := sm_steps s + 1,
                      sm_first_epoch_tai_ns := get_or_insert (br_until_tai_ns r) (sm_first_epoch_tai_ns s),
                      sm_last_epoch_tai_ns := Some (br_until_tai_ns r)\<rparr>
               else if br_kind r = 3 then s\<lparr>sm_resets := sm_resets s + 1\<rparr>
               else if br_kind r = 4 then s\<lparr>sm_shutdowns := sm_shutdowns s + 1\<rparr>
               else if br_kind r = 5 then s\<lparr>sm_power_cycles := sm_power_cycles s + 1\<rparr>
               else if br_kind r = 6 then s\<lparr>sm_link_rehandshakes := sm_link_rehandshakes s + 1\<rparr>
               else s);
          s = (if br_error r \<noteq> [] then s\<lparr>sm_failed_exchanges := sm_failed_exchanges s + 1\<rparr> else s);
          s = (if br_run_id r \<noteq> [] then s\<lparr>sm_run_ids := insert (br_run_id r) (sm_run_ids s)\<rparr> else s);
          s = (if br_request_written_unix_ns r \<noteq> 0
               then s\<lparr>sm_first_request_written_unix_ns :=
                        get_or_insert (br_request_written_unix_ns r) (sm_first_request_written_unix_ns s)\<rparr>
               else s)
      in if br_response_read_unix_ns r \<noteq> 0
         then s\<lparr>sm_last_response_read_unix_ns := Some (br_response_read_unix_ns r)\<rparr> else s)"

definition log_summary_of :: "verified_log \<Rightarrow> log_summary" where
  "log_summary_of v =
     (let first = (\<lambda>f. case vl_records v of [] \<Rightarrow> [] | r # _ \<Rightarrow> f r)
      in foldl summary_step
        \<lparr>sm_records = of_nat (length (vl_records v)), sm_binds = 0, sm_steps = 0, sm_resets = 0, sm_shutdowns = 0,
         sm_power_cycles = 0, sm_link_rehandshakes = 0, sm_failed_exchanges = 0, sm_first_epoch_tai_ns = None,
         sm_last_epoch_tai_ns = None, sm_first_request_written_unix_ns = None, sm_last_response_read_unix_ns = None,
         sm_producer_id = first br_producer_id, sm_signer_cert_sha256 = first br_signer_cert_sha256,
         sm_link_config_sha256 = first br_link_config_sha256, sm_run_ids = {},
         sm_chain_head_hex = (if vl_records v = [] then ''GENESIS'' else hex_encode (vl_chain_head v)),
         sm_bytes_verified = vl_bytes_verified v\<rparr> (vl_records v))"

section \<open>Logs that verify\<close>

lemma if_Inl_Inr: "(if c then Inl e else x) = Inr y \<longleftrightarrow> \<not> c \<and> x = Inr y"
  by simp

lemma verify_record_Inr:
  "verify_record sha enc dec ec lv acc tip h p = Inr r \<longleftrightarrow>
     dec p = Inr r \<and> enc r = p \<and> h = br_record_hash r \<and> br_record_hash r = digest_bytes (compute_record_hash sha enc r) \<and>
     br_prev_hash r = tip \<and> (acc \<noteq> [] \<longrightarrow> br_producer_id (hd acc) = br_producer_id r) \<and>
     br_sequence r = of_nat (length acc) + 1 \<and> (\<forall>c. lv_cert_sha256 lv = Some c \<longrightarrow> br_signer_cert_sha256 r = c) \<and>
     signs ec (lv_key lv) (compute_record_hash sha enc r) (br_signature r)"
  by (cases "lv_cert_sha256 lv"; simp only: verify_record_def Let_def ebind_eq_Inr if_Inl_Inr map_err_eq_Inr verify_digest_Inr
        option.case Inr_inject; fastforce)

text \<open>The records a reader with this verifier accepts one after the other.\<close>

fun good_records ::
  "(bytes \<Rightarrow> digest) \<Rightarrow> (board_record \<Rightarrow> bytes) \<Rightarrow> (bytes \<Rightarrow> 'x + board_record) \<Rightarrow> ('p, 'k, 's) ecdsa \<Rightarrow>
     'k log_verifier \<Rightarrow> board_record list \<Rightarrow> bytes \<Rightarrow> board_record list \<Rightarrow> bool" where
  "good_records sha enc dec ec lv acc tip [] \<longleftrightarrow> True"
| "good_records sha enc dec ec lv acc tip (r # rs) \<longleftrightarrow>
     verify_record sha enc dec ec lv acc tip (br_record_hash r) (enc r) = Inr r \<and> length (enc r) \<le> MAX_PAYLOAD_LEN \<and>
     good_records sha enc dec ec lv (acc @ [r]) (br_record_hash r) rs"

definition tip_after :: "bytes \<Rightarrow> board_record list \<Rightarrow> bytes" where
  "tip_after tip rs = (if rs = [] then tip else br_record_hash (last rs))"

lemma tip_after_simps [simp]:
  "tip_after tip [] = tip" "tip_after tip (r # rs) = tip_after (br_record_hash r) rs"
  "tip_after tip (rs @ [r]) = br_record_hash r"
  by (simp_all add: tip_after_def)

definition record_bytes :: "(board_record \<Rightarrow> bytes) \<Rightarrow> board_record \<Rightarrow> bytes" where
  "record_bytes enc r = raw_frame (br_record_hash r) (enc r)"

definition board_bytes :: "(board_record \<Rightarrow> bytes) \<Rightarrow> board_record list \<Rightarrow> bytes" where
  "board_bytes enc rs = concat (map (record_bytes enc) rs)"

lemma board_bytes_simps [simp]:
  "board_bytes enc [] = []" "board_bytes enc (r # rs) = record_bytes enc r @ board_bytes enc rs"
  "board_bytes enc (rs @ rs') = board_bytes enc rs @ board_bytes enc rs'"
  by (simp_all add: board_bytes_def)

text \<open>What may follow the last complete record.\<close>

definition torn_rest :: "bytes \<Rightarrow> bool" where
  "torn_rest t \<longleftrightarrow> length t < HEADER_LEN \<or>
     le_to_nat (take 4 t) \<le> MAX_PAYLOAD_LEN \<and> length t - HEADER_LEN < le_to_nat (take 4 t)"

definition torn_kind_of :: "bytes \<Rightarrow> torn_kind" where
  "torn_kind_of t =
     (if length t < HEADER_LEN then TornHeader (length t)
      else TornPayload (le_to_nat (take 4 t)) (length t - HEADER_LEN))"

definition verified_of :: "bytes \<Rightarrow> board_record list \<Rightarrow> nat \<Rightarrow> bytes \<Rightarrow> verified_log" where
  "verified_of tip rs n t =
     \<lparr>vl_records = rs, vl_chain_head = tip_after tip rs, vl_bytes_verified = n,
      vl_recovery = (if t = [] then None
                     else Some \<lparr>tt_offset = n, tt_discarded_bytes = length t, tt_kind = torn_kind_of t\<rparr>)\<rparr>"

lemma good_records_append:
  "good_records sha enc dec ec lv acc tip (rs @ rs') \<longleftrightarrow>
     good_records sha enc dec ec lv acc tip rs \<and> good_records sha enc dec ec lv (acc @ rs) (tip_after tip rs) rs'"
  by (induction rs arbitrary: acc tip) auto

lemma torn_rest_take: "torn_rest t \<Longrightarrow> torn_rest (take n t)"
  by (auto simp: torn_rest_def min_def HEADER_LEN_def)

lemma good_record_lengths:
  assumes "verify_record sha enc dec ec lv acc tip (br_record_hash r) (enc r) = Inr r" "length (enc r) \<le> MAX_PAYLOAD_LEN"
  shows "length (br_record_hash r) = 32" "le_to_nat (nat_to_le 4 (length (enc r))) = length (enc r)"
    "length (record_bytes enc r) = HEADER_LEN + length (enc r)"
proof -
  show h: "length (br_record_hash r) = 32" using assms(1) by (simp add: verify_record_Inr)
  show "le_to_nat (nat_to_le 4 (length (enc r))) = length (enc r)"
    using assms(2) by (simp add: le_to_nat_of_le MAX_PAYLOAD_LEN_def)
  show "length (record_bytes enc r) = HEADER_LEN + length (enc r)"
    by (simp add: record_bytes_def raw_frame_def h HEADER_LEN_def)
qed

lemma torn_record_rest:
  assumes "verify_record sha enc dec ec lv acc tip (br_record_hash r) (enc r) = Inr r" "length (enc r) \<le> MAX_PAYLOAD_LEN"
    and "n < length (record_bytes enc r)"
  shows "torn_rest (take n (record_bytes enc r))"
  using good_record_lengths [OF assms(1,2)] assms(2,3)
  by (auto simp: torn_rest_def record_bytes_def raw_frame_def min_def HEADER_LEN_def)

lemma verify_loop_step:
  assumes "verify_record sha enc dec ec lv acc tip (br_record_hash r) (enc r) = Inr r" "length (enc r) \<le> MAX_PAYLOAD_LEN"
    and "bs = pre @ record_bytes enc r @ rest"
  shows "verify_loop_bytes sha enc dec ec lv bs (length pre) acc tip =
    verify_loop_bytes sha enc dec ec lv bs (length pre + length (record_bytes enc r)) (acc @ [r]) (br_record_hash r)"
proof -
  note l = good_record_lengths [OF assms(1,2)]
  define x where "x = record_bytes enc r @ rest"
  have d: "drop (length pre) bs = x" "length bs = length pre + length x" by (simp_all add: assms(3) x_def)
  have t: "take 4 x = nat_to_le 4 (length (enc r))"
    and h: "byte_slice 4 HEADER_LEN x = br_record_hash r"
    and p: "byte_slice HEADER_LEN (HEADER_LEN + length (enc r)) x = enc r"
    and len: "length x = HEADER_LEN + length (enc r) + length rest"
    by (simp_all add: x_def record_bytes_def raw_frame_def byte_slice_def HEADER_LEN_def l)
  show ?thesis
    using assms(2) by (subst verify_loop_bytes.simps) (simp add: d Let_def t l(2) h p assms(1) len l(3) add.assoc)
qed

lemma verify_loop_good:
  "good_records sha enc dec ec lv acc tip rs \<Longrightarrow>
   verify_loop_bytes sha enc dec ec lv (pre @ board_bytes enc rs @ t) (length pre) acc tip =
     verify_loop_bytes sha enc dec ec lv (pre @ board_bytes enc rs @ t) (length pre + length (board_bytes enc rs))
       (acc @ rs) (tip_after tip rs)"
proof (induction rs arbitrary: pre acc tip)
  case (Cons r rs)
  have c: "verify_record sha enc dec ec lv acc tip (br_record_hash r) (enc r) = Inr r" "length (enc r) \<le> MAX_PAYLOAD_LEN"
    using Cons.prems by simp_all
  show ?case
    using verify_loop_step [OF c refl, of pre "board_bytes enc rs @ t"] Cons.prems
      Cons.IH [of "acc @ [r]" "br_record_hash r" "pre @ record_bytes enc r"]
    by (simp add: add.assoc)
qed simp

lemma verify_loop_rest:
  assumes "torn_rest t"
  shows "verify_loop_bytes sha enc dec ec lv (pre @ t) (length pre) acc tip =
    Inr \<lparr>vl_records = acc, vl_chain_head = tip, vl_bytes_verified = length pre,
         vl_recovery = (if t = [] then None
                        else Some \<lparr>tt_offset = length pre, tt_discarded_bytes = length t, tt_kind = torn_kind_of t\<rparr>)\<rparr>"
  using assms by (subst verify_loop_bytes.simps) (auto simp: Let_def torn_rest_def torn_kind_of_def)

lemma verify_bytes_of_good:
  assumes "good_records sha enc dec ec lv [] GENESIS rs" "torn_rest t"
  shows "verify_bytes sha enc dec ec lv (board_bytes enc rs @ t) =
    Inr (verified_of GENESIS rs (length (board_bytes enc rs)) t)"
  using verify_loop_good [OF assms(1), of "[]" t] verify_loop_rest [OF assms(2), of sha enc dec ec lv "board_bytes enc rs" rs]
  by (simp add: verify_bytes_def verified_of_def)

lemma take_three_parts: "take a xs @ take b (drop a xs) @ take c (drop (a + b) xs) = take (a + b + c) xs"
  by (simp add: take_add)

text \<open>The other direction: what the loop has read when it returns without an error.\<close>

lemma verify_loop_Inr:
  "verify_loop_bytes sha enc dec ec lv bs offset acc tip = Inr vl \<Longrightarrow> offset \<le> length bs \<Longrightarrow>
   \<exists>rs t. drop offset bs = board_bytes enc rs @ t \<and> torn_rest t \<and> good_records sha enc dec ec lv acc tip rs \<and>
     vl_records vl = acc @ rs"
proof (induction sha enc dec ec lv bs offset acc tip rule: verify_loop_bytes.induct)
  case (1 sha enc dec ec lv bs offset acc tip)
  let ?rest = "drop offset bs"
  let ?declared = "le_to_nat (take 4 ?rest)"
  let ?h = "byte_slice 4 HEADER_LEN ?rest" and ?p = "byte_slice HEADER_LEN (HEADER_LEN + ?declared) ?rest"
  have here: "\<exists>rs t. ?rest = board_bytes enc rs @ t \<and> torn_rest t \<and> good_records sha enc dec ec lv acc tip rs \<and>
     vl_records vl = acc @ rs" if "torn_rest ?rest" "vl_records vl = acc"
    using that by (intro exI [of _ "[]"] exI [of _ ?rest]) simp
  show ?case
  proof (cases "torn_rest ?rest")
    case True
    have "vl_records vl = acc"
      using 1(2,3) True verify_loop_rest [OF True, of sha enc dec ec lv "take offset bs" acc tip] by auto
    with True show ?thesis by (rule here)
  next
    case False
    then have len: "HEADER_LEN \<le> length ?rest" "offset < length bs"
      using HEADER_LEN_pos(1) by (auto simp: torn_rest_def simp del: HEADER_LEN_pos)
    then have fit: "?declared \<le> MAX_PAYLOAD_LEN" "?declared \<le> length ?rest - HEADER_LEN"
      using False 1(2) by (auto simp: torn_rest_def verify_loop_bytes.simps [of _ _ _ _ _ bs offset] Let_def split: if_splits)
    obtain r where c: "verify_record sha enc dec ec lv acc tip ?h ?p = Inr r"
      and next_loop: "verify_loop_bytes sha enc dec ec lv bs (offset + HEADER_LEN + ?declared) (acc @ [r]) (br_record_hash r) = Inr vl"
      using 1(2) len fit by (subst (asm) verify_loop_bytes.simps) (auto simp: Let_def split: sum.splits)
    have r: "enc r = ?p" "br_record_hash r = ?h" using c by (auto simp: verify_record_Inr)
    have lp: "length ?p = ?declared" using len(1) fit(2) by (simp add: byte_slice_def min_def, linarith)
    have "nat_to_le 4 ?declared = take 4 ?rest"
      using nat_to_le_of_nat [of "take 4 ?rest"] len by (simp add: HEADER_LEN_def min_def)
    then have frame: "record_bytes enc r = take (HEADER_LEN + ?declared) ?rest"
      using take_three_parts [of 4 ?rest 32 ?declared]
      by (simp add: record_bytes_def raw_frame_def r(1) lp r(2)) (simp add: byte_slice_def HEADER_LEN_def add.commute)
    have le: "offset + HEADER_LEN + ?declared \<le> length bs" using len fit by simp
    have p: "\<not> length bs \<le> offset" "\<not> length ?rest < HEADER_LEN" "\<not> MAX_PAYLOAD_LEN < ?declared"
      "\<not> length ?rest - HEADER_LEN < ?declared"
      using len fit by simp_all
    from 1(1) [OF p(1) refl refl p(2) refl refl p(3,4) c next_loop le]
    obtain rs t where rest: "drop (offset + HEADER_LEN + ?declared) bs = board_bytes enc rs @ t" "torn_rest t"
      "good_records sha enc dec ec lv (acc @ [r]) (br_record_hash r) rs" "vl_records vl = (acc @ [r]) @ rs"
      by blast
    have "?rest = record_bytes enc r @ drop (offset + HEADER_LEN + ?declared) bs"
      using append_take_drop_id [of "HEADER_LEN + ?declared" ?rest] by (simp only: frame drop_drop ac_simps)
    with rest c r lp fit show ?thesis
      by (intro exI [of _ "r # rs"] exI [of _ t]) simp
  qed
qed

lemma verify_bytes_Inr:
  "verify_bytes sha enc dec ec lv bs = Inr vl \<longleftrightarrow>
     (\<exists>rs t. bs = board_bytes enc rs @ t \<and> good_records sha enc dec ec lv [] GENESIS rs \<and> torn_rest t \<and>
        vl = verified_of GENESIS rs (length (board_bytes enc rs)) t)"
proof
  assume v: "verify_bytes sha enc dec ec lv bs = Inr vl"
  then obtain rs t where bs: "bs = board_bytes enc rs @ t" "torn_rest t" "good_records sha enc dec ec lv [] GENESIS rs"
    using verify_loop_Inr [of sha enc dec ec lv bs 0 "[]" GENESIS vl] by (auto simp: verify_bytes_def)
  with v verify_bytes_of_good [OF bs(3,2)]
  show "\<exists>rs t. bs = board_bytes enc rs @ t \<and> good_records sha enc dec ec lv [] GENESIS rs \<and> torn_rest t \<and>
      vl = verified_of GENESIS rs (length (board_bytes enc rs)) t"
    by (intro exI [of _ rs] exI [of _ t]) simp
qed (auto intro: verify_bytes_of_good)

interpretation board_chain: hash_chain "\<lambda>h r. compute_batch_hash sha h (board_body_bytes enc r)" sha "board_body_bytes enc" for sha enc
  by unfold_locales (simp add: compute_batch_hash_def)

lemma good_records_head:
  "good_records sha enc dec ec lv acc tip rs \<Longrightarrow>
   tip_after tip rs = chain_head (\<lambda>h r. compute_batch_hash sha h (board_body_bytes enc r)) tip rs"
  by (induction rs arbitrary: acc tip) (auto simp: verify_record_Inr chain_head_Cons compute_record_hash_def)

lemma verified_of_simps [simp]:
  "vl_records (verified_of tip rs n t) = rs" "vl_chain_head (verified_of tip rs n t) = tip_after tip rs"
  "vl_bytes_verified (verified_of tip rs n t) = n" "vl_recovery (verified_of tip rs n t) = None \<longleftrightarrow> t = []"
  by (simp_all add: verified_of_def)

lemma good_records_take: "good_records sha enc dec ec lv acc tip rs \<Longrightarrow> good_records sha enc dec ec lv acc tip (take k rs)"
  by (metis append_take_drop_id good_records_append)

lemma verified_head:
  "verify_bytes sha enc dec ec lv bs = Inr vl \<Longrightarrow>
   vl_chain_head vl = chain_head (\<lambda>h r. compute_batch_hash sha h (board_body_bytes enc r)) GENESIS (vl_records vl)"
  by (auto simp: verify_bytes_Inr dest: good_records_head)

text \<open>A prefix of a log: the records that end inside it, and a torn rest.\<close>

lemma take_board_bytes:
  assumes "good_records sha enc dec ec lv acc tip rs" "torn_rest t"
  shows "\<exists>k t'. take n (board_bytes enc rs @ t) = board_bytes enc (take k rs) @ t' \<and> torn_rest t' \<and> k \<le> length rs \<and>
    (k < length rs \<longrightarrow> n < length (board_bytes enc (take (Suc k) rs)))"
  using assms(1)
proof (induction rs arbitrary: acc tip n)
  case Nil
  show ?case using torn_rest_take [OF assms(2), of n] by simp
next
  case (Cons r rs)
  show ?case
  proof (cases "n < length (record_bytes enc r)")
    case True
    have "torn_rest (take n (record_bytes enc r))" using Cons.prems True by (auto intro!: torn_record_rest)
    with True show ?thesis by (intro exI [of _ 0] exI [of _ "take n (record_bytes enc r)"]) simp
  next
    case False
    from Cons.prems obtain k t' where
      "take (n - length (record_bytes enc r)) (board_bytes enc rs @ t) = board_bytes enc (take k rs) @ t'"
      "torn_rest t'" "k \<le> length rs"
      "k < length rs \<longrightarrow> n - length (record_bytes enc r) < length (board_bytes enc (take (Suc k) rs))"
      using Cons.IH [of "acc @ [r]" "br_record_hash r" "n - length (record_bytes enc r)"] by auto
    with False show ?thesis by (intro exI [of _ "Suc k"] exI [of _ t']) auto
  qed
qed

section \<open>What the writer leaves in the file\<close>

definition unstamped :: "board_record \<Rightarrow> board_record" where
  "unstamped r =
     r\<lparr>br_producer_id := [], br_sequence := 0, br_prev_hash := [], br_record_hash := [], br_signature := [],
       br_signer_cert_sha256 := [], br_link_config_sha256 := []\<rparr>"

definition receipt_of :: "(board_record \<Rightarrow> bytes) \<Rightarrow> board_record \<Rightarrow> append_receipt" where
  "receipt_of enc r =
     \<lparr>rcp_sequence = br_sequence r, rcp_record_hash = br_record_hash r, rcp_frame_bytes = HEADER_LEN + length (enc r)\<rparr>"

text \<open>A caller that keeps appending: the drafts that were acknowledged, with their receipts.\<close>

definition append_step ::
  "(bytes \<Rightarrow> digest) \<Rightarrow> (board_record \<Rightarrow> bytes) \<Rightarrow> ('p, 'k, 's) ecdsa \<Rightarrow>
     ('p, 'x) board_writer \<times> (board_record \<times> append_receipt) list \<Rightarrow> write_outcome \<times> board_record \<Rightarrow>
     ('p, 'x) board_writer \<times> (board_record \<times> append_receipt) list" where
  "append_step sha enc ec s ev =
     (case board_append sha enc ec (fst ev) (snd ev) (fst s) of
        (Inr rc, bw) \<Rightarrow> (bw, snd s @ [(snd ev, rc)])
      | (Inl _, bw) \<Rightarrow> (bw, snd s))"

definition acked :: "(board_record \<Rightarrow> bytes) \<Rightarrow> board_record \<times> append_receipt \<Rightarrow> board_record \<Rightarrow> bool" where
  "acked enc a r \<longleftrightarrow> unstamped r = unstamped (fst a) \<and> snd a = receipt_of enc r"

text \<open>The verifier's key belongs to the signer's, and the codec reads back what a writer writes.\<close>

definition key_pair :: "('p, 'k, 's) ecdsa \<Rightarrow> 'p \<Rightarrow> 'k \<Rightarrow> bool" where
  "key_pair ec sk pk \<longleftrightarrow>
     (\<forall>d sg. sig_sign ec d sk = Inr sg \<longrightarrow> sig_verify ec sg d pk = Inr True) \<and>
     (\<forall>sg der. sig_to_der ec sg = Inr der \<longrightarrow> der \<noteq> [] \<and> sig_from_der ec der = Inr sg)"

definition stamped_record :: "string \<Rightarrow> string \<Rightarrow> string \<Rightarrow> board_record \<Rightarrow> u64 \<Rightarrow> bytes \<Rightarrow> bytes \<Rightarrow> bytes \<Rightarrow> board_record" where
  "stamped_record pid cert link d sq prev h sg =
     d\<lparr>br_producer_id := pid, br_sequence := sq, br_prev_hash := prev, br_record_hash := h, br_signature := sg,
       br_signer_cert_sha256 := cert, br_link_config_sha256 := link\<rparr>"

lemma sign_digest_signs: "sign_digest ec sk d = Inr sg \<Longrightarrow> key_pair ec sk pk \<Longrightarrow> signs ec pk d sg"
  by (auto simp: sign_digest_def key_pair_def signs_def ebind_eq_Inr)

lemma seal_Inr:
  assumes "seal sha enc ec signer d = Inr r" "key_pair ec (ls_key signer) pk"
  shows "\<exists>h sg. r = d\<lparr>br_record_hash := h, br_signature := sg\<rparr> \<and> br_record_hash r = digest_bytes (compute_record_hash sha enc r) \<and>
    signs ec pk (compute_record_hash sha enc r) (br_signature r)"
proof -
  let ?d0 = "d\<lparr>br_record_hash := [], br_signature := []\<rparr>"
  from assms(1) obtain sg where sg: "sign_digest ec (ls_key signer) (compute_record_hash sha enc ?d0) = Inr sg"
    and r: "r = ?d0\<lparr>br_signature := sg, br_record_hash := digest_bytes (compute_record_hash sha enc ?d0)\<rparr>"
    by (auto simp: seal_def Let_def ebind_eq_Inr)
  have "compute_record_hash sha enc r = compute_record_hash sha enc ?d0"
    by (simp add: r compute_record_hash_def board_body_bytes_def)
  with sign_digest_signs [OF sg assms(2)] show ?thesis
    by (intro exI [of _ "br_record_hash r"] exI [of _ sg]) (simp add: r)
qed

text \<open>The state of a writer and its file after some appends: \<open>rs\<close> was acknowledged, \<open>extra\<close> and \<open>t\<close> are left by a failure.\<close>

definition writer_inv ::
  "(bytes \<Rightarrow> digest) \<Rightarrow> (board_record \<Rightarrow> bytes) \<Rightarrow> (bytes \<Rightarrow> 'x + board_record) \<Rightarrow> ('p, 'k, 's) ecdsa \<Rightarrow> 'k log_verifier \<Rightarrow>
     ('p, 'x) board_writer \<Rightarrow> board_record list \<Rightarrow> board_record list \<Rightarrow> bytes \<Rightarrow> bool" where
  "writer_inv sha enc dec ec lv bw rs extra t \<longleftrightarrow>
     bw_file bw = board_bytes enc (rs @ extra) @ t \<and> good_records sha enc dec ec lv [] GENESIS (rs @ extra) \<and> torn_rest t \<and>
     length extra \<le> 1 \<and> list_all (\<lambda>r. br_producer_id r = bw_producer_id bw) rs \<and>
     (bw_failed bw = None \<longrightarrow> extra = [] \<and> t = [] \<and> bw_tip bw = tip_after GENESIS rs \<and>
        bw_next_sequence bw = of_nat (length rs) + 1)"

definition fixed_part :: "('p, 'x) board_writer \<Rightarrow> 'p log_signer \<times> string \<times> string" where
  "fixed_part bw = (bw_signer bw, bw_producer_id bw, bw_link_config_sha256 bw)"

lemma appended_record_good:
  assumes "writer_inv sha enc dec ec lv bw rs extra t" "bw_failed bw = None"
    and r: "seal sha enc ec (bw_signer bw)
      (d\<lparr>br_producer_id := bw_producer_id bw, br_sequence := bw_next_sequence bw, br_prev_hash := bw_tip bw,
         br_signer_cert_sha256 := ls_cert_sha256 (bw_signer bw), br_link_config_sha256 := bw_link_config_sha256 bw\<rparr>) = Inr r"
    and "key_pair ec (ls_key (bw_signer bw)) (lv_key lv)" "length (enc r) \<le> MAX_PAYLOAD_LEN"
    and "lv_cert_sha256 lv = None \<or> lv_cert_sha256 lv = Some (ls_cert_sha256 (bw_signer bw))"
    and codec: "\<forall>sq prev h sg. let r = stamped_record (bw_producer_id bw) (ls_cert_sha256 (bw_signer bw)) (bw_link_config_sha256 bw) d sq prev h sg
                 in dec (enc r) = Inr r"
  shows "good_records sha enc dec ec lv [] GENESIS (rs @ [r])" "br_sequence r = bw_next_sequence bw" "unstamped r = unstamped d"
    "br_producer_id r = bw_producer_id bw"
proof -
  let ?d = "d\<lparr>br_producer_id := bw_producer_id bw, br_sequence := bw_next_sequence bw, br_prev_hash := bw_tip bw,
         br_signer_cert_sha256 := ls_cert_sha256 (bw_signer bw), br_link_config_sha256 := bw_link_config_sha256 bw\<rparr>"
  from seal_Inr [OF r assms(4)] obtain h sg where
    eq: "r = ?d\<lparr>br_record_hash := h, br_signature := sg\<rparr>"
    and v: "br_record_hash r = digest_bytes (compute_record_hash sha enc r)"
      "signs ec (lv_key lv) (compute_record_hash sha enc r) (br_signature r)"
    by blast
  have "r = stamped_record (bw_producer_id bw) (ls_cert_sha256 (bw_signer bw)) (bw_link_config_sha256 bw) d (bw_next_sequence bw) (bw_tip bw) h sg"
    by (simp add: eq stamped_record_def)
  then have "dec (enc r) = Inr r" using codec by (metis)
  moreover have pid: "rs \<noteq> [] \<longrightarrow> br_producer_id (hd rs) = bw_producer_id bw"
    using assms(1) by (cases rs) (auto simp: writer_inv_def)
  moreover have f: "br_prev_hash r = bw_tip bw" "br_sequence r = bw_next_sequence bw" "br_producer_id r = bw_producer_id bw"
    "br_signer_cert_sha256 r = ls_cert_sha256 (bw_signer bw)" by (simp_all add: eq)
  ultimately have "verify_record sha enc dec ec lv rs (tip_after GENESIS rs) (br_record_hash r) (enc r) = Inr r"
    using assms(1,2,6) v unfolding verify_record_Inr writer_inv_def by auto
  then show "good_records sha enc dec ec lv [] GENESIS (rs @ [r])"
    using assms(1,2,5) by (simp add: good_records_append writer_inv_def)
  show "br_sequence r = bw_next_sequence bw" "br_producer_id r = bw_producer_id bw" by (fact f)+
  show "unstamped r = unstamped d" by (simp add: eq unstamped_def)
qed

lemma append_step_inv:
  fixes dec :: "bytes \<Rightarrow> 'x + board_record"
  assumes inv: "writer_inv sha enc dec ec lv bw rs extra t" "list_all2 (acked enc) acks rs"
    and key: "key_pair ec (ls_key (bw_signer bw)) (lv_key lv)"
    and cert: "lv_cert_sha256 lv = None \<or> lv_cert_sha256 lv = Some (ls_cert_sha256 (bw_signer bw))"
    and codec: "\<forall>sq prev h sg. let r = stamped_record (bw_producer_id bw) (ls_cert_sha256 (bw_signer bw)) (bw_link_config_sha256 bw) d sq prev h sg
                 in dec (enc r) = Inr r"
    and step: "append_step sha enc ec (bw, acks) (w, d) = (bw', acks')"
  shows "\<exists>rs' extra' t'. writer_inv sha enc dec ec lv bw' rs' extra' t' \<and> list_all2 (acked enc) acks' rs' \<and>
    fixed_part bw' = fixed_part bw"
proof (cases "bw_failed bw")
  case (Some why)
  then have "bw' = bw" "acks' = acks" using step by (simp_all add: append_step_def board_append_def)
  with inv show ?thesis by blast
next
  case None
  let ?d = "d\<lparr>br_producer_id := bw_producer_id bw, br_sequence := bw_next_sequence bw, br_prev_hash := bw_tip bw,
         br_signer_cert_sha256 := ls_cert_sha256 (bw_signer bw), br_link_config_sha256 := bw_link_config_sha256 bw\<rparr>"
  have f0: "bw_file bw = board_bytes enc rs" "extra = []" "t = []" using inv(1) None by (simp_all add: writer_inv_def)
  have kept: ?thesis if "bw' = bw\<lparr>bw_failed := Some e\<rparr>" "acks' = acks" for e
  proof -
    have "writer_inv sha enc dec ec lv bw' rs extra t" "fixed_part bw' = fixed_part bw"
      using that inv None by (auto simp: writer_inv_def fixed_part_def)
    with inv(2) that show ?thesis by blast
  qed
  show ?thesis
  proof (cases "seal sha enc ec (bw_signer bw) ?d")
    case (Inl e)
    then show ?thesis using step None by (intro kept [of "BoardSigning e"]) (simp_all add: append_step_def board_append_def append_inner_def)
  next
    case (Inr r)
    show ?thesis
    proof (cases "MAX_PAYLOAD_LEN < length (enc r)")
      case True
      then show ?thesis using step None Inr
        by (intro kept [of "BoardPayloadTooLarge (length (enc r))"])
          (simp_all add: append_step_def board_append_def append_inner_def encode_frame_def Let_def)
    next
      case False
      then have len: "length (enc r) \<le> MAX_PAYLOAD_LEN" by simp
      note good = appended_record_good [OF inv(1) None Inr key len cert codec]
      have chk: "verify_record sha enc dec ec lv rs (tip_after GENESIS rs) (br_record_hash r) (enc r) = Inr r"
        using good(1) by (simp add: good_records_append)
      have lr: "length (record_bytes enc r) = HEADER_LEN + length (enc r)"
        by (rule good_record_lengths(3) [OF chk len])
      have enc_ok: "(encode_frame enc r :: 'x board_error + bytes) = Inr (record_bytes enc r)"
        using len by (simp add: encode_frame_def record_bytes_def Let_def)
      show ?thesis
      proof (cases w)
        case WriteOk
        then have b: "bw' = bw\<lparr>bw_file := bw_file bw @ record_bytes enc r, bw_tip := br_record_hash r,
              bw_next_sequence := bw_next_sequence bw + 1\<rparr>" "acks' = acks @ [(d, receipt_of enc r)]"
          using step None Inr enc_ok good(2) lr
          by (auto simp: append_step_def board_append_def append_inner_def append_file_def receipt_of_def Let_def)
        have "writer_inv sha enc dec ec lv bw' (rs @ [r]) [] []" "list_all2 (acked enc) acks' (rs @ [r])"
          "fixed_part bw' = fixed_part bw"
          using b f0 inv good len None
          by (simp_all add: writer_inv_def fixed_part_def acked_def torn_rest_def list_all2_appendI)
        then show ?thesis by blast
      next
        case OpenFail
        then show ?thesis using step None Inr enc_ok
          by (intro kept [of BoardIo])
            (simp_all add: append_step_def board_append_def append_inner_def append_file_def Let_def)
      next
        case (WriteFail n)
        then have b: "bw' = bw\<lparr>bw_file := bw_file bw @ take n (record_bytes enc r), bw_failed := Some BoardIo\<rparr>" "acks' = acks"
          using step None Inr enc_ok
          by (auto simp: append_step_def board_append_def append_inner_def append_file_def Let_def)
        show ?thesis
        proof (cases "n < length (record_bytes enc r)")
          case True
          then have "torn_rest (take n (record_bytes enc r))" by (intro torn_record_rest [OF chk len])
          then have "writer_inv sha enc dec ec lv bw' rs [] (take n (record_bytes enc r))" "fixed_part bw' = fixed_part bw"
            using b f0 inv None by (simp_all add: writer_inv_def fixed_part_def)
          with inv(2) b show ?thesis by blast
        next
          case False
          then have "writer_inv sha enc dec ec lv bw' rs [r] []" "fixed_part bw' = fixed_part bw"
            using b f0 inv good len None by (simp_all add: writer_inv_def fixed_part_def torn_rest_def)
          with inv(2) b show ?thesis by blast
        qed
      qed
    qed
  qed
qed

lemma append_run_inv:
  fixes dec :: "bytes \<Rightarrow> 'x + board_record" and bw :: "('p, 'x) board_writer"
  assumes key: "key_pair ec (ls_key signer) (lv_key lv)"
    and cert: "lv_cert_sha256 lv = None \<or> lv_cert_sha256 lv = Some (ls_cert_sha256 signer)"
    and codec: "\<forall>d \<in> snd ` set evs. \<forall>sq prev h sg.
                  let r = stamped_record pid (ls_cert_sha256 signer) link d sq prev h sg in dec (enc r) = Inr r"
    and run: "foldl (append_step sha enc ec) (with_sink pid link signer, []) evs = (bw, acks)"
  shows "\<exists>rs extra t. writer_inv sha enc dec ec lv bw rs extra t \<and> list_all2 (acked enc) acks rs \<and>
    fixed_part bw = (signer, pid, link)"
  using codec run
proof (induction evs arbitrary: bw acks rule: rev_induct)
  case Nil
  then show ?case
    by (intro exI [of _ "[]"]) (auto simp: writer_inv_def with_sink_def fixed_part_def torn_rest_def)
next
  case (snoc ev evs)
  obtain bw0 :: "('p, 'x) board_writer" and acks0 where run0: "foldl (append_step sha enc ec) (with_sink pid link signer, []) evs = (bw0, acks0)"
    by fastforce
  obtain w d where ev: "ev = (w, d)" by fastforce
  from snoc.IH [OF _ run0] snoc.prems(1) obtain rs extra t where
    inv: "writer_inv sha enc dec ec lv bw0 rs extra t" "list_all2 (acked enc) acks0 rs"
    and fx: "bw_signer bw0 = signer" "bw_producer_id bw0 = pid" "bw_link_config_sha256 bw0 = link"
    by (auto simp: fixed_part_def)
  have "append_step sha enc ec (bw0, acks0) (w, d) = (bw, acks)" using snoc.prems(2) run0 ev by simp
  from append_step_inv [OF inv _ _ _ this] key cert snoc.prems(1) show ?case
    by (simp add: fx ev fixed_part_def)
qed

section \<open>Properties\<close>

text \<open>
  What a log is, apart from the code that reads it. A genuine record at a place: canonical and
  within the size limit, numbered by its place, carrying its predecessor's hash and the SHA-256
  of that hash and its own encoding without hash and signature, naming the verifier's
  certificate where it has one, and signed over that digest under the verifier's key.
\<close>

abbreviation unsealed :: "board_record \<Rightarrow> board_record" where
  "unsealed r \<equiv> r\<lparr>br_record_hash := [], br_signature := []\<rparr>"

definition genuine ::
  "(bytes \<Rightarrow> digest) \<Rightarrow> (board_record \<Rightarrow> bytes) \<Rightarrow> (bytes \<Rightarrow> 'x + board_record) \<Rightarrow> ('p, 'k, 's) ecdsa \<Rightarrow>
     'k log_verifier \<Rightarrow> nat \<Rightarrow> bytes \<Rightarrow> board_record \<Rightarrow> bool" where
  "genuine sha enc dec ec lv i prev r \<longleftrightarrow>
     dec (enc r) = Inr r \<and> length (enc r) \<le> 16 * 1024 * 1024 \<and> br_sequence r = of_nat (i + 1) \<and> br_prev_hash r = prev \<and>
     br_record_hash r = digest_bytes (sha (prev @ enc (unsealed r))) \<and>
     (lv_cert_sha256 lv = None \<or> lv_cert_sha256 lv = Some (br_signer_cert_sha256 r)) \<and> br_signature r \<noteq> [] \<and>
     (\<exists>sg. sig_from_der ec (br_signature r) = Inr sg \<and> sig_verify ec sg (sha (prev @ enc (unsealed r))) (lv_key lv) = Inr True)"

definition genuine_log ::
  "(bytes \<Rightarrow> digest) \<Rightarrow> (board_record \<Rightarrow> bytes) \<Rightarrow> (bytes \<Rightarrow> 'x + board_record) \<Rightarrow> ('p, 'k, 's) ecdsa \<Rightarrow>
     'k log_verifier \<Rightarrow> board_record list \<Rightarrow> bool" where
  "genuine_log sha enc dec ec lv rs \<longleftrightarrow>
     (\<forall>i < length rs. genuine sha enc dec ec lv i
        (if i = 0 then string_bytes ''GENESIS'' else br_record_hash (rs ! (i - 1))) (rs ! i)) \<and>
     (\<forall>r \<in> set rs. br_producer_id r = br_producer_id (hd rs))"

text \<open>Its bytes: a frame for each record (length, hash, encoding), then nothing or the beginning of a frame.\<close>

definition log_text :: "(board_record \<Rightarrow> bytes) \<Rightarrow> board_record list \<Rightarrow> bytes" where
  "log_text enc rs = concat (map (\<lambda>r. nat_to_le 4 (length (enc r)) @ br_record_hash r @ enc r) rs)"

definition cut_frame :: "bytes \<Rightarrow> torn_kind \<Rightarrow> bool" where
  "cut_frame t k \<longleftrightarrow>
     length t < 36 \<and> k = TornHeader (length t) \<or>
     36 \<le> length t \<and>
     (\<exists>n p. take 4 t = nat_to_le 4 n \<and> p = length t - 36 \<and> p < n \<and> n \<le> 16 * 1024 * 1024 \<and> k = TornPayload n p)"

lemma genuine_verify_record:
  "verify_record sha enc dec ec lv acc tip (br_record_hash r) (enc r) = Inr r \<and> length (enc r) \<le> MAX_PAYLOAD_LEN \<longleftrightarrow>
     genuine sha enc dec ec lv (length acc) tip r \<and> (acc \<noteq> [] \<longrightarrow> br_producer_id (hd acc) = br_producer_id r)"
proof -
  have "(\<forall>c. o' = Some c \<longrightarrow> x = c) \<longleftrightarrow> o' = None \<or> o' = Some x" for o' and x :: string by (cases o') auto
  then show ?thesis
    by (auto simp: verify_record_Inr genuine_def signs_def compute_record_hash_def compute_batch_hash_def board_body_bytes_def
        MAX_PAYLOAD_LEN_def add.commute)
qed

lemma genuine_log_snoc:
  "genuine_log sha enc dec ec lv (rs @ [r]) \<longleftrightarrow> genuine_log sha enc dec ec lv rs \<and>
     genuine sha enc dec ec lv (length rs) (tip_after GENESIS rs) r \<and> (rs \<noteq> [] \<longrightarrow> br_producer_id (hd rs) = br_producer_id r)"
proof -
  have tip: "tip_after GENESIS rs = (if rs = [] then string_bytes ''GENESIS'' else br_record_hash (last rs))"
    by (simp add: tip_after_def GENESIS_def)
  have one: "(\<forall>x \<in> set (rs @ [r]). br_producer_id x = br_producer_id (hd (rs @ [r]))) \<longleftrightarrow>
      (\<forall>x \<in> set rs. br_producer_id x = br_producer_id (hd rs)) \<and> (rs \<noteq> [] \<longrightarrow> br_producer_id (hd rs) = br_producer_id r)"
    by (cases rs) auto
  show ?thesis
    unfolding genuine_log_def one tip
      all_linked_snoc [where R = "genuine sha enc dec ec lv" and g = "string_bytes ''GENESIS''" and h = br_record_hash]
    by (simp only: conj_ac)
qed

lemma good_records_genuine: "good_records sha enc dec ec lv [] GENESIS rs \<longleftrightarrow> genuine_log sha enc dec ec lv rs"
proof (induction rs rule: rev_induct)
  case Nil
  then show ?case by (simp add: genuine_log_def)
next
  case (snoc r rs)
  show ?case
    unfolding good_records_append snoc.IH good_records.simps append_Nil genuine_log_snoc
      genuine_verify_record [of sha enc dec ec lv rs "tip_after GENESIS rs" r, symmetric]
    by (simp only: simp_thms)
qed

lemma cut_frame_torn: "cut_frame t k \<longleftrightarrow> torn_rest t \<and> k = torn_kind_of t"
proof (cases "length t < 36")
  case True
  then show ?thesis by (auto simp: cut_frame_def torn_rest_def torn_kind_of_def HEADER_LEN_def)
next
  case False
  then have len: "take 4 t = nat_to_le 4 (le_to_nat (take 4 t))" using nat_to_le_of_nat [of "take 4 t"] by simp
  have le: "le_to_nat (nat_to_le 4 n) = n" if "n \<le> 16 * 1024 * 1024" for n using that by (simp add: le_to_nat_of_le)
  have h: "\<not> length t < HEADER_LEN" "HEADER_LEN = 36" using False by (simp_all add: HEADER_LEN_def)
  have "(\<exists>n p. take 4 t = nat_to_le 4 n \<and> p = length t - 36 \<and> p < n \<and> n \<le> 16 * 1024 * 1024 \<and> k = TornPayload n p) \<longleftrightarrow>
      le_to_nat (take 4 t) \<le> 16 * 1024 * 1024 \<and> length t - 36 < le_to_nat (take 4 t) \<and>
      k = TornPayload (le_to_nat (take 4 t)) (length t - 36)"
    using len le by metis
  moreover have "(length t < 36) = False" "(36 \<le> length t) = True" using False by simp_all
  ultimately show ?thesis
    unfolding cut_frame_def torn_rest_def torn_kind_of_def MAX_PAYLOAD_LEN_def h(2) by (simp only: simp_thms if_False) blast
qed

lemma torn_rest_cut: "torn_rest t \<longleftrightarrow> (\<exists>k. cut_frame t k)" and torn_kind_cut: "cut_frame t k \<Longrightarrow> torn_kind_of t = k"
  by (simp_all add: cut_frame_torn)

text \<open>
  C11: the reader accepts a log exactly when it is the frames of genuine records of one producer,
  linked from GENESIS, followed by nothing or a cut frame, and it answers those records, their
  last hash, the bytes they cover and the cut frame. Two logs it accepts with equally many
  records and the same last hash hold the same signed contents, absent a SHA-256 collision on
  their inputs.
\<close>

theorem board_log_verify_exact:
  "(verify_bytes sha enc dec ec lv bs = Inr vl \<longleftrightarrow>
     (\<exists>rs t k. bs = log_text enc rs @ t \<and> genuine_log sha enc dec ec lv rs \<and> cut_frame t k \<and>
        vl = \<lparr>vl_records = rs, vl_chain_head = (if rs = [] then string_bytes ''GENESIS'' else br_record_hash (last rs)),
              vl_bytes_verified = length (log_text enc rs),
              vl_recovery = (if t = [] then None
                else Some \<lparr>tt_offset = length (log_text enc rs), tt_discarded_bytes = length t, tt_kind = k\<rparr>)\<rparr>)) \<and>
   (verify_bytes sha enc dec ec lv bs = Inr vl \<and> verify_bytes sha enc dec ec lv bs' = Inr vl' \<and>
      length (vl_records vl) = length (vl_records vl') \<and> vl_chain_head vl = vl_chain_head vl' \<and>
      inj_on sha (chain_inputs (\<lambda>h r. sha (h @ enc (unsealed r))) (\<lambda>r. enc (unsealed r)) (string_bytes ''GENESIS'') (vl_records vl) \<union>
        chain_inputs (\<lambda>h r. sha (h @ enc (unsealed r))) (\<lambda>r. enc (unsealed r)) (string_bytes ''GENESIS'') (vl_records vl')) \<longrightarrow>
      map (\<lambda>r. enc (unsealed r)) (vl_records vl) = map (\<lambda>r. enc (unsealed r)) (vl_records vl'))"
proof (intro conjI impI)
  have frames: "board_bytes enc rs = log_text enc rs" for rs
    by (simp add: board_bytes_def log_text_def record_bytes_def [abs_def] raw_frame_def)
  have tip: "tip_after GENESIS rs = (if rs = [] then string_bytes ''GENESIS'' else br_record_hash (last rs))" for rs
    by (simp add: tip_after_def GENESIS_def)
  show "verify_bytes sha enc dec ec lv bs = Inr vl \<longleftrightarrow>
     (\<exists>rs t k. bs = log_text enc rs @ t \<and> genuine_log sha enc dec ec lv rs \<and> cut_frame t k \<and>
        vl = \<lparr>vl_records = rs, vl_chain_head = (if rs = [] then string_bytes ''GENESIS'' else br_record_hash (last rs)),
              vl_bytes_verified = length (log_text enc rs),
              vl_recovery = (if t = [] then None
                else Some \<lparr>tt_offset = length (log_text enc rs), tt_discarded_bytes = length t, tt_kind = k\<rparr>)\<rparr>)"
    unfolding verify_bytes_Inr good_records_genuine frames torn_rest_cut verified_of_def tip using torn_kind_cut by metis
  note head = board_chain.head_determines [of "vl_records vl" "vl_records vl'" sha enc GENESIS,
      unfolded compute_batch_hash_def board_body_bytes_def GENESIS_def]
  assume "verify_bytes sha enc dec ec lv bs = Inr vl \<and> verify_bytes sha enc dec ec lv bs' = Inr vl' \<and>
      length (vl_records vl) = length (vl_records vl') \<and> vl_chain_head vl = vl_chain_head vl' \<and>
      inj_on sha (chain_inputs (\<lambda>h r. sha (h @ enc (unsealed r))) (\<lambda>r. enc (unsealed r)) (string_bytes ''GENESIS'') (vl_records vl) \<union>
        chain_inputs (\<lambda>h r. sha (h @ enc (unsealed r))) (\<lambda>r. enc (unsealed r)) (string_bytes ''GENESIS'') (vl_records vl'))"
  then show "map (\<lambda>r. enc (unsealed r)) (vl_records vl) = map (\<lambda>r. enc (unsealed r)) (vl_records vl')"
    using verified_head [of sha enc dec ec lv bs vl] verified_head [of sha enc dec ec lv bs' vl'] head
    unfolding compute_batch_hash_def board_body_bytes_def GENESIS_def by metis
qed

text \<open>
  A log cut anywhere still verifies: it yields exactly the records whose frames are whole,
  covers exactly their bytes, and reports a torn tail unless the cut fell between two frames.
\<close>

theorem board_log_any_prefix:
  assumes "verify_bytes sha enc dec ec lv bs = Inr vl"
  shows "\<exists>vl' k. verify_bytes sha enc dec ec lv (take n bs) = Inr vl' \<and> vl_records vl' = take k (vl_records vl) \<and>
    k \<le> length (vl_records vl) \<and>
    (k < length (vl_records vl) \<longrightarrow> n < length (board_bytes enc (take (Suc k) (vl_records vl)))) \<and>
    vl_bytes_verified vl' = length (board_bytes enc (take k (vl_records vl))) \<and>
    (vl_recovery vl' = None \<longleftrightarrow> min n (length bs) = vl_bytes_verified vl')"
proof -
  from assms obtain rs t where bs: "bs = board_bytes enc rs @ t" "good_records sha enc dec ec lv [] GENESIS rs" "torn_rest t"
    and vl: "vl = verified_of GENESIS rs (length (board_bytes enc rs)) t"
    by (auto simp: verify_bytes_Inr)
  from take_board_bytes [OF bs(2,3), of n] obtain k t' where
    cut: "take n bs = board_bytes enc (take k rs) @ t'" "torn_rest t'" "k \<le> length rs"
    "k < length rs \<longrightarrow> n < length (board_bytes enc (take (Suc k) rs))"
    using bs(1) by blast
  have "length (take n bs) = length (board_bytes enc (take k rs)) + length t'" by (simp add: cut(1))
  then have "t' = [] \<longleftrightarrow> min n (length bs) = length (board_bytes enc (take k rs))" by (auto simp: min.commute)
  with cut vl verify_bytes_of_good [OF good_records_take [OF bs(2)] cut(2), of k] show ?thesis
    by (intro exI [of _ "verified_of GENESIS (take k rs) (length (board_bytes enc (take k rs))) t'"] exI [of _ k]) simp
qed

text \<open>
  C7: whatever a writer is asked to append and however its writes fail, its file verifies with
  the key that belongs to the signer's: the acknowledged appends are the first records, in
  order and with their receipts, at most one more record follows (a write that completed but
  was reported as failed), and a writer that never failed leaves exactly the acknowledged
  records, no torn tail and the head it reports.
\<close>

theorem board_log_survives_faults:
  fixes dec :: "bytes \<Rightarrow> 'x + board_record" and bw :: "('p, 'x) board_writer"
  assumes "foldl (append_step sha enc ec) (with_sink pid link signer, []) evs = (bw, acks)"
    and "key_pair ec (ls_key signer) (lv_key lv)"
    and "lv_cert_sha256 lv = None \<or> lv_cert_sha256 lv = Some (ls_cert_sha256 signer)"
    and "\<forall>d \<in> snd ` set evs. \<forall>sq prev h sg.
           let r = stamped_record pid (ls_cert_sha256 signer) link d sq prev h sg in dec (enc r) = Inr r"
  shows "\<exists>vl. verify_bytes sha enc dec ec lv (bw_file bw) = Inr vl \<and>
    list_all2 (acked enc) acks (take (length acks) (vl_records vl)) \<and>
    length acks \<le> length (vl_records vl) \<and> length (vl_records vl) \<le> length acks + 1 \<and>
    (bw_failed bw = None \<longrightarrow> vl_recovery vl = None \<and> length (vl_records vl) = length acks \<and>
       writer_head bw = \<lparr>lh_records = of_nat (length acks), lh_chain_head = vl_chain_head vl,
         lh_signer_cert_sha256 = ls_cert_sha256 signer, lh_link_config_sha256 = link, lh_producer_id = pid\<rparr>)"
proof -
  from append_run_inv [OF assms(2,3,4,1)] obtain rs extra t where
    inv: "writer_inv sha enc dec ec lv bw rs extra t" "list_all2 (acked enc) acks rs" "fixed_part bw = (signer, pid, link)"
    by blast
  then have v: "verify_bytes sha enc dec ec lv (bw_file bw) =
      Inr (verified_of GENESIS (rs @ extra) (length (board_bytes enc (rs @ extra))) t)"
    using verify_bytes_of_good [of sha enc dec ec lv "rs @ extra" t] by (simp add: writer_inv_def)
  have "length acks = length rs" by (rule list_all2_lengthD [OF inv(2)])
  with inv show ?thesis
    by (intro exI [of _ "verified_of GENESIS (rs @ extra) (length (board_bytes enc (rs @ extra))) t"] conjI v)
      (auto simp: writer_inv_def writer_head_def records_written_def fixed_part_def)
qed

section \<open>Witnesses\<close>

text \<open>A codec for the stamped fields of one draft: each byte is announced by a 1, a field ends with a 0.\<close>

fun esc :: "bytes \<Rightarrow> bytes" where
  "esc [] = [0]"
| "esc (b # bs) = 1 # b # esc bs"

fun unesc :: "bytes \<Rightarrow> bytes \<times> bytes" where
  "unesc (x # b # bs) = (if x = 0 then ([], b # bs) else let (p, q) = unesc bs in (b # p, q))"
| "unesc [x] = ([], [])"
| "unesc [] = ([], [])"

definition sample_draft :: board_record where
  "sample_draft =
     \<lparr>br_producer_id = [], br_sequence = 0, br_prev_hash = [], br_record_hash = [], br_signature = [],
      br_signer_cert_sha256 = [], br_run_id = ''run'', br_kind = 2, br_until_tai_ns = 7, br_error = [],
      br_request_written_unix_ns = 5, br_response_read_unix_ns = 6, br_link_config_sha256 = [], br_rest = []\<rparr>"

definition sample_board_enc :: "board_record \<Rightarrow> bytes" where
  "sample_board_enc r =
     esc (br_prev_hash r) @ esc (br_record_hash r) @ esc (br_signature r) @ nat_to_le 8 (unat (br_sequence r))"

definition sample_board_dec :: "bytes \<Rightarrow> unit + board_record" where
  "sample_board_dec bs =
     (let (prev, bs) = unesc bs; (h, bs) = unesc bs; (sg, bs) = unesc bs
      in Inr (stamped_record ''p1'' ''c1'' ''l1'' sample_draft (of_nat (le_to_nat bs)) prev h sg))"

lemma unesc_esc: "rest \<noteq> [] \<Longrightarrow> unesc (esc bs @ rest) = (bs, rest)"
proof (induction bs)
  case Nil
  then show ?case by (cases rest) simp_all
qed simp

lemma esc_nonempty [simp]: "esc bs \<noteq> []"
  by (cases bs) simp_all

lemma sample_board_codec:
  "sample_board_dec (sample_board_enc (stamped_record ''p1'' ''c1'' ''l1'' sample_draft sq prev h sg)) =
     Inr (stamped_record ''p1'' ''c1'' ''l1'' sample_draft sq prev h sg)"
proof -
  have n: "nat_to_le 8 (unat sq) \<noteq> []" using length_nat_to_le [of 8 "unat sq"] by force
  have "unat sq < 256 ^ 8" by (rule order_less_le_trans [OF unsigned_less]) simp
  then have "of_nat (le_to_nat (nat_to_le 8 (unat sq))) = sq" by (simp add: le_to_nat_of_le)
  with n show ?thesis by (simp add: sample_board_enc_def sample_board_dec_def stamped_record_def unesc_esc)
qed

definition sample_log_signer :: "unit log_signer" where
  "sample_log_signer = \<lparr>ls_key = (), ls_cert_sha256 = ''c1''\<rparr>"

definition sample_log_verifier :: "unit log_verifier" where
  "sample_log_verifier = \<lparr>lv_key = (), lv_cert_sha256 = Some ''c1''\<rparr>"

text \<open>One append that succeeds and one whose write is cut after 40 bytes.\<close>

definition sample_appends :: "(write_outcome \<times> board_record) list" where
  "sample_appends = [(WriteOk, sample_draft), (WriteFail 40, sample_draft)]"

lemma sample_key_pair: "key_pair sample_ecdsa () ()"
  by (auto simp: key_pair_def sample_ecdsa_def)

theorem board_log_survives_faults_witness:
  "\<exists>bw acks vl. foldl (append_step (\<lambda>_. 0) sample_board_enc sample_ecdsa) (with_sink ''p1'' ''l1'' sample_log_signer, []) sample_appends =
       (bw :: (unit, unit) board_writer, acks) \<and>
     verify_bytes (\<lambda>_. 0) sample_board_enc sample_board_dec sample_ecdsa sample_log_verifier (bw_file bw) = Inr vl \<and>
     list_all2 (acked sample_board_enc) acks (take (length acks) (vl_records vl))"
proof -
  obtain bw acks where run: "foldl (append_step (\<lambda>_. 0) sample_board_enc sample_ecdsa)
      (with_sink ''p1'' ''l1'' sample_log_signer, []) sample_appends = (bw :: (unit, unit) board_writer, acks)"
    by fastforce
  from board_log_survives_faults [OF run, of sample_log_verifier sample_board_dec] run sample_board_codec sample_key_pair
  show ?thesis by (fastforce simp: sample_log_signer_def sample_log_verifier_def sample_appends_def)
qed

theorem board_log_any_prefix_witness:
  "\<exists>vl'. verify_bytes (\<lambda>_. 0) sample_board_enc sample_board_dec sample_ecdsa sample_log_verifier (take 2 [9, 0, 0]) = Inr vl' \<and>
     vl_records vl' = []"
proof -
  have "verify_bytes (\<lambda>_. 0) sample_board_enc sample_board_dec sample_ecdsa sample_log_verifier [9, 0, 0] =
      Inr (verified_of GENESIS [] 0 [9, 0, 0])"
    using verify_bytes_of_good [of _ sample_board_enc sample_board_dec sample_ecdsa sample_log_verifier "[]" "[9, 0, 0]"]
    by (simp add: torn_rest_def HEADER_LEN_def)
  from board_log_any_prefix [OF this, of 2] show ?thesis by auto
qed

lemma length_esc: "length (esc bs) = 2 * length bs + 1"
  by (induction bs) simp_all

lemma sample_append_ok:
  "\<exists>rc bw. append_inner (\<lambda>_. 0) sample_board_enc sample_ecdsa WriteOk sample_draft (with_sink ''p1'' ''l1'' sample_log_signer) =
     (Inr rc, bw :: (unit, unit) board_writer) \<and> bw_failed bw = None"
proof -
  have "length GENESIS = 7" by (simp add: GENESIS_def string_bytes_def)
  then show ?thesis
    by (simp add: append_inner_def seal_def sign_digest_def sample_ecdsa_def encode_frame_def sample_board_enc_def length_esc
        MAX_PAYLOAD_LEN_def with_sink_def append_file_def sample_draft_def sample_log_signer_def Let_def)
qed

theorem board_log_verify_exact_witness:
  "\<exists>bs vl. verify_bytes (\<lambda>_. 0) sample_board_enc sample_board_dec sample_ecdsa sample_log_verifier bs = Inr vl \<and>
     length (vl_records vl) = 1 \<and> genuine_log (\<lambda>_. 0) sample_board_enc sample_board_dec sample_ecdsa sample_log_verifier (vl_records vl)"
proof -
  obtain bw acks where run: "foldl (append_step (\<lambda>_. 0) sample_board_enc sample_ecdsa)
      (with_sink ''p1'' ''l1'' sample_log_signer, []) [(WriteOk, sample_draft)] = (bw :: (unit, unit) board_writer, acks)"
    by fastforce
  have "\<forall>d \<in> snd ` set [(WriteOk, sample_draft)]. \<forall>sq prev h sg.
      let r = stamped_record ''p1'' (ls_cert_sha256 sample_log_signer) ''l1'' d sq prev h sg
      in sample_board_dec (sample_board_enc r) = Inr r"
    by (simp add: sample_board_codec sample_log_signer_def)
  from append_run_inv [OF _ _ this run, of sample_log_verifier] obtain rs extra t where
    inv: "writer_inv (\<lambda>_. 0) sample_board_enc sample_board_dec sample_ecdsa sample_log_verifier bw rs extra t"
      "list_all2 (acked sample_board_enc) acks rs"
    using sample_key_pair by (auto simp: sample_log_signer_def sample_log_verifier_def)
  have "bw_failed bw = None" "length acks = 1"
    using run sample_append_ok by (auto simp: append_step_def board_append_def with_sink_def)
  then have rs: "length rs = 1" "extra = []" using inv list_all2_lengthD [OF inv(2)] by (simp_all add: writer_inv_def)
  with inv(1) have v: "verify_bytes (\<lambda>_. 0) sample_board_enc sample_board_dec sample_ecdsa sample_log_verifier (bw_file bw) =
      Inr (verified_of GENESIS rs (length (board_bytes sample_board_enc rs)) t)"
    using verify_bytes_of_good [of "\<lambda>_. 0" sample_board_enc sample_board_dec sample_ecdsa sample_log_verifier rs t]
    by (simp add: writer_inv_def)
  from iffD1 [OF conjunct1 [OF board_log_verify_exact] v]
  have "genuine_log (\<lambda>_. 0) sample_board_enc sample_board_dec sample_ecdsa sample_log_verifier rs"
    by (auto simp: verified_of_def)
  with v rs(1) show ?thesis by (intro exI conjI) (assumption, simp_all)
qed

end
