(* ===== verification/Ingest_Log.thy ===== *)
theory Ingest_Log
  imports Edge_Log Edge_Chain Path_Id
begin

text \<open>
  \<open>av-ingest\<close>, \<open>log.rs\<close>: the partition log, one file of hash-chained records per shard key.
  The records and the scan for a torn or corrupt tail are those of the edge buffer
  (\<open>Edge_Log\<close>), so their lemmas serve here; \<open>verify\<close> walks the whole file.

  The log directory is a map from file names to contents, shared by all partitions; what the
  file system refuses is an argument of each operation.
\<close>

section \<open>Partitions\<close>

type_synonym log_dir = "string \<rightharpoonup> bytes"

datatype log_error = InvalidShardKey string path_id_error | LogPayloadTooLarge nat | LogIo

definition sanitize_shard_key :: "string \<Rightarrow> log_error + string" where
  "sanitize_shard_key key =
     ebind (map_err (InvalidShardKey key) (validate_path_component_id key)) (\<lambda>_. Inr (key @ ''.avlog''))"

record partition_log =
  pl_shard_key :: string
  pl_file :: string
  pl_tip_hash :: bytes
  pl_record_count :: u64

record log_recovery =
  lr_discarded_bytes :: nat
  lr_reason :: discard_reason

text \<open>The scan of \<open>log.rs\<close> is the buffer's, with the reason as a value instead of its text.\<close>

definition partition_scan ::
  "(bytes \<Rightarrow> digest) \<Rightarrow> (bytes \<Rightarrow> 'x + batch) \<Rightarrow> bytes \<Rightarrow> frame_ref list \<times> (nat \<times> discard_reason) option" where
  "partition_scan = scan_frames"

definition truncate_file :: "bool \<Rightarrow> string \<Rightarrow> nat \<Rightarrow> log_dir \<Rightarrow> (log_error + unit) \<times> log_dir" where
  "truncate_file ok name n dir =
     (case dir name of
        Some bs \<Rightarrow> if ok then (Inr (), dir(name \<mapsto> take n bs)) else (Inl LogIo, dir)
      | None \<Rightarrow> (Inl LogIo, dir))"

definition partition_open ::
  "(bytes \<Rightarrow> digest) \<Rightarrow> (bytes \<Rightarrow> 'x + batch) \<Rightarrow> open_world \<Rightarrow> string \<Rightarrow> log_dir \<Rightarrow>
     (log_error + partition_log \<times> log_recovery option) \<times> log_dir" where
  "partition_open sha dec w key dir =
     (case sanitize_shard_key key of
        Inl e \<Rightarrow> (Inl e, dir)
      | Inr name \<Rightarrow>
          if \<not> dir_ok w then (Inl LogIo, dir)
          else
            let bs = (if log_read_ok w then contents (dir name) else []);
                (frames, discard) = partition_scan sha dec bs
            in try_then
                 (case discard of
                    Some (pos, why) \<Rightarrow>
                      try_then (truncate_file (truncate_ok w) name pos dir)
                        (\<lambda>_ dir. (Inr (Some \<lparr>lr_discarded_bytes = length bs - pos, lr_reason = why\<rparr>), dir))
                  | None \<Rightarrow> (Inr None, dir))
                 (\<lambda>report dir.
                    let (tip, n) = (if frames = [] then (GENESIS, 0)
                                    else (fr_stored_hash (last frames), of_nat (length frames)))
                    in if log_open_ok w
                       then (Inr (\<lparr>pl_shard_key = key, pl_file = name, pl_tip_hash = tip, pl_record_count = n\<rparr>, report),
                             dir(name \<mapsto> contents (dir name)))
                       else (Inl LogIo, dir)))"

definition partition_append ::
  "(bytes \<Rightarrow> digest) \<Rightarrow> (batch \<Rightarrow> bytes) \<Rightarrow> write_outcome \<Rightarrow> batch \<Rightarrow> partition_log \<Rightarrow> log_dir \<Rightarrow>
     (log_error + unit) \<times> partition_log \<times> log_dir" where
  "partition_append sha enc w b pl dir =
     (let payload = enc b in
      if 2 ^ 32 - 1 < length payload then (Inl (LogPayloadTooLarge (length payload)), pl, dir)
      else
        let h = compute_batch_hash sha (pl_tip_hash pl) payload;
            frame = nat_to_le 4 (length payload) @ digest_bytes h @ payload;
            (ok, f) = append_file w (contents (dir (pl_file pl))) frame;
            dir = dir(pl_file pl \<mapsto> f)
        in if ok
           then (Inr (), pl\<lparr>pl_tip_hash := digest_bytes h, pl_record_count := pl_record_count pl + 1\<rparr>, dir)
           else (Inl LogIo, pl, dir))"

section \<open>Verification\<close>

datatype partition_detail = PartIntact | PartHeader u64 nat | PartPayload u64 nat | PartTampered u64 | PartUnreadable log_error

record partition_verification =
  pv_producer_id :: string
  pv_ok :: bool
  pv_checked :: u64
  pv_broken_at :: u64
  pv_detail :: partition_detail

function partition_verify_loop ::
  "(bytes \<Rightarrow> digest) \<Rightarrow> string \<Rightarrow> bytes \<Rightarrow> nat \<Rightarrow> bytes \<Rightarrow> u64 \<Rightarrow> u64 \<Rightarrow> partition_verification" where
  "partition_verify_loop sha key bs pos prev checked idx =
     (if length bs \<le> pos
      then \<lparr>pv_producer_id = key, pv_ok = True, pv_checked = checked, pv_broken_at = 0, pv_detail = PartIntact\<rparr>
      else
        let idx = idx + 1;
            broken = (\<lambda>d. \<lparr>pv_producer_id = key, pv_ok = False, pv_checked = checked, pv_broken_at = idx, pv_detail = d\<rparr>);
            remaining = length bs - pos
        in if remaining < HEADER_LEN then broken (PartHeader idx remaining)
           else
             let payload_len = le_to_nat (byte_slice pos (pos + 4) bs);
                 stored = byte_slice (pos + 4) (pos + HEADER_LEN) bs;
                 payload_start = pos + HEADER_LEN;
                 payload_end = payload_start + payload_len
             in if length bs < payload_end then broken (PartPayload idx payload_len)
                else
                  let recomputed = digest_bytes (compute_batch_hash sha prev (byte_slice payload_start payload_end bs))
                  in if recomputed \<noteq> stored then broken (PartTampered idx)
                     else partition_verify_loop sha key bs payload_end recomputed (checked + 1) idx)"
  by pat_completeness auto
termination
  by (relation "measure (\<lambda>(_, _, bs, pos, _). length bs - pos)") (auto simp: HEADER_LEN_def)

declare partition_verify_loop.simps [simp del]

definition partition_verify :: "(bytes \<Rightarrow> digest) \<Rightarrow> bool \<Rightarrow> partition_log \<Rightarrow> log_dir \<Rightarrow> log_error + partition_verification" where
  "partition_verify sha read_ok pl dir =
     (case dir (pl_file pl) of
        Some bs \<Rightarrow>
          if read_ok then Inr (partition_verify_loop sha (pl_shard_key pl) bs 0 GENESIS 0 0) else Inl LogIo
      | None \<Rightarrow> Inl LogIo)"

section \<open>Lemmas\<close>

lemma sanitize_Inr:
  "sanitize_shard_key key = Inr name \<longleftrightarrow> validate_path_component_id key = Inr key \<and> name = key @ ''.avlog''"
  by (auto simp: sanitize_shard_key_def ebind_eq_Inr validate_Inr_iff)

lemma frame_bytes_nonempty [simp]: "frame_bytes sha prev p \<noteq> []"
  using length_frame_bytes [of sha prev p] by (metis HEADER_LEN_pos(2) add_is_0 list.size(3))

lemma drop_slice: "a \<le> b \<Longrightarrow> drop a xs = byte_slice a b xs @ drop b xs"
  by (metis append_take_drop_id byte_slice_def drop_drop le_add_diff_inverse2)

text \<open>A partition and its file hold these batches.\<close>

definition partition_holds ::
  "(bytes \<Rightarrow> digest) \<Rightarrow> (batch \<Rightarrow> bytes) \<Rightarrow> (bytes \<Rightarrow> 'x + batch) \<Rightarrow> batch list \<Rightarrow> partition_log \<Rightarrow> log_dir \<Rightarrow> bool" where
  "partition_holds sha enc dec bs pl dir \<longleftrightarrow>
     list_all (buffered enc dec) bs \<and> pl_file pl = pl_shard_key pl @ ''.avlog'' \<and>
     dir (pl_file pl) = Some (log_bytes sha GENESIS (map enc bs)) \<and>
     pl_tip_hash pl = log_head sha (map enc bs) \<and> pl_record_count pl = of_nat (length bs)"

lemma partition_append_frame:
  "partition_append sha enc w b pl dir =
     (if 2 ^ 32 - 1 < length (enc b) then (Inl (LogPayloadTooLarge (length (enc b))), pl, dir)
      else
        let (ok, f) = append_file w (contents (dir (pl_file pl))) (frame_bytes sha (pl_tip_hash pl) (enc b)) in
        if ok
        then (Inr (), pl\<lparr>pl_tip_hash := digest_bytes (compute_batch_hash sha (pl_tip_hash pl) (enc b)),
                         pl_record_count := pl_record_count pl + 1\<rparr>, dir(pl_file pl \<mapsto> f))
        else (Inl LogIo, pl, dir(pl_file pl \<mapsto> f)))"
  by (simp add: partition_append_def frame_bytes_def Let_def split: prod.split)

lemma partition_append_holds:
  assumes "partition_holds sha enc dec bs pl dir" "buffered enc dec b"
  shows "\<exists>pl' dir'. partition_append sha enc WriteOk b pl dir = (Inr (), pl', dir') \<and>
    partition_holds sha enc dec (bs @ [b]) pl' dir' \<and> pl_shard_key pl' = pl_shard_key pl \<and>
    (\<forall>f. f \<noteq> pl_file pl \<longrightarrow> dir' f = dir f)"
  using assms
  by (auto simp: partition_append_frame partition_holds_def buffered_def fits_def append_file_def contents_def log_bytes_snoc
      Let_def)

lemma partition_open_torn:
  assumes "list_all (buffered enc dec) bs" "fits p" "n < length (frame_bytes sha (log_head sha (map enc bs)) p)"
    and "contents (dir name) = log_bytes sha GENESIS (map enc bs) @ take n (frame_bytes sha (log_head sha (map enc bs)) p)"
    and "sanitize_shard_key key = Inr name"
  shows "\<exists>pl rep dir'. partition_open sha dec all_ok key dir = (Inr (pl, rep), dir') \<and>
    partition_holds sha enc dec bs pl dir' \<and> pl_shard_key pl = key \<and> (\<forall>f. f \<noteq> name \<longrightarrow> dir' f = dir f) \<and>
    (case rep of None \<Rightarrow> 0 | Some r \<Rightarrow> lr_discarded_bytes r) = n"
proof -
  let ?log = "log_bytes sha GENESIS (map enc bs)"
  obtain why where scan: "partition_scan sha dec (?log @ take n (frame_bytes sha (log_head sha (map enc bs)) p)) =
      (refs_of sha GENESIS 0 (map enc bs), if n = 0 then None else Some (length ?log, why))"
    using scan_frames_torn [OF buffered_all [OF assms(1)] assms(2,3)] unfolding partition_scan_def by blast
  have name: "name = key @ ''.avlog''" using assms(5) by (simp add: sanitize_Inr)
  show ?thesis
  proof (cases "n = 0")
    case True
    with scan assms(1,4,5) show ?thesis
      by (simp add: partition_open_def all_ok_def partition_holds_def Let_def refs_tip name split del: if_split)
  next
    case False
    then have "contents (dir name) \<noteq> []" by (simp add: assms(4))
    then obtain full where "dir name = Some full" by (cases "dir name") (auto simp: contents_def)
    with False scan assms(1,3,4,5) show ?thesis
      by (simp add: partition_open_def all_ok_def partition_holds_def truncate_file_def contents_def Let_def refs_tip name
          split del: if_split)
  qed
qed

lemma partition_open_whole:
  assumes "list_all (buffered enc dec) bs" "contents (dir name) = log_bytes sha GENESIS (map enc bs)"
    and "sanitize_shard_key key = Inr name"
  shows "\<exists>pl dir'. partition_open sha dec all_ok key dir = (Inr (pl, None), dir') \<and>
    partition_holds sha enc dec bs pl dir' \<and> pl_shard_key pl = key \<and> (\<forall>f. f \<noteq> name \<longrightarrow> dir' f = dir f)"
proof -
  have scan: "partition_scan sha dec (log_bytes sha GENESIS (map enc bs)) = (refs_of sha GENESIS 0 (map enc bs), None)"
    using scan_frames_whole [OF buffered_all [OF assms(1)]] by (simp add: partition_scan_def)
  have name: "name = key @ ''.avlog''" using assms(3) by (simp add: sanitize_Inr)
  show ?thesis using scan assms
    by (simp add: partition_open_def all_ok_def partition_holds_def Let_def refs_tip name split del: if_split)
qed

text \<open>What \<open>verify\<close> finds: the number of leading records that are whole and chained.\<close>

lemma verify_loop_frames:
  "list_all fits ps \<Longrightarrow>
   partition_verify_loop sha key (pre @ log_bytes sha prev ps @ rest) (length pre) prev n i =
     partition_verify_loop sha key (pre @ log_bytes sha prev ps @ rest) (length pre + length (log_bytes sha prev ps))
       (chain_head (compute_batch_hash sha) prev ps) (n + of_nat (length ps)) (i + of_nat (length ps))"
proof (induction ps arbitrary: pre prev n i)
  case (Cons p ps)
  let ?h = "digest_bytes (compute_batch_hash sha prev p)"
  let ?rest = "log_bytes sha ?h ps @ rest"
  let ?bs = "pre @ frame_bytes sha prev p @ ?rest"
  have f: "fits p" using Cons.prems by simp
  note at = frame_at [OF f refl, of pre sha prev ?rest]
  have "partition_verify_loop sha key ?bs (length pre) prev n i =
      partition_verify_loop sha key ?bs (length pre + HEADER_LEN + length p) ?h (n + 1) (i + 1)"
    using at by (subst partition_verify_loop.simps) (simp add: Let_def)
  then show ?case
    using Cons.IH [of "pre @ frame_bytes sha prev p" ?h "n + 1" "i + 1"] Cons.prems
    by (simp add: add.assoc chain_head_Cons)
qed simp

lemma verify_loop_result:
  "pos \<le> length bs \<Longrightarrow>
   \<exists>ps rest. list_all fits ps \<and> drop pos bs = log_bytes sha prev ps @ rest \<and>
     (\<forall>p r. fits p \<longrightarrow> rest \<noteq> frame_bytes sha (chain_head (compute_batch_hash sha) prev ps) p @ r) \<and>
     pv_ok (partition_verify_loop sha key bs pos prev n i) = (rest = []) \<and>
     pv_checked (partition_verify_loop sha key bs pos prev n i) = n + of_nat (length ps) \<and>
     pv_broken_at (partition_verify_loop sha key bs pos prev n i) = (if rest = [] then 0 else i + of_nat (length ps) + 1)"
proof (induction sha key bs pos prev n i rule: partition_verify_loop.induct)
  case (1 sha key bs pos prev n i)
  let ?len = "le_to_nat (byte_slice pos (pos + 4) bs)"
  let ?stop = "pos + HEADER_LEN + ?len"
  let ?p = "byte_slice (pos + HEADER_LEN) ?stop bs"
  let ?h = "digest_bytes (compute_batch_hash sha prev ?p)"
  let ?good = "\<not> length bs - pos < HEADER_LEN \<and> \<not> length bs < ?stop \<and> \<not> ?h \<noteq> byte_slice (pos + 4) (pos + HEADER_LEN) bs"
  show ?case
  proof (cases "length bs \<le> pos")
    case True
    then show ?thesis by (intro exI [of _ "[]"] exI [of _ "[]"]) (simp add: partition_verify_loop.simps)
  next
    case False
    show ?thesis
    proof (cases ?good)
      case True
      then have h: "\<not> length bs - pos < HEADER_LEN" "\<not> length bs < ?stop" "\<not> ?h \<noteq> byte_slice (pos + 4) (pos + HEADER_LEN) bs"
        by blast+
      have step: "partition_verify_loop sha key bs pos prev n i = partition_verify_loop sha key bs ?stop ?h (n + 1) (i + 1)"
        using False h by (subst partition_verify_loop.simps) (simp add: Let_def)
      from h(2) have "?stop \<le> length bs" by simp
      from 1(1) [OF False refl refl refl h(1) refl refl refl refl h(2) refl h(3) this]
      obtain ps rest where ps: "list_all fits ps" "drop ?stop bs = log_bytes sha ?h ps @ rest"
        "\<forall>p r. fits p \<longrightarrow> rest \<noteq> frame_bytes sha (chain_head (compute_batch_hash sha) ?h ps) p @ r"
        "pv_ok (partition_verify_loop sha key bs ?stop ?h (n + 1) (i + 1)) = (rest = [])"
        "pv_checked (partition_verify_loop sha key bs ?stop ?h (n + 1) (i + 1)) = n + 1 + of_nat (length ps)"
        "pv_broken_at (partition_verify_loop sha key bs ?stop ?h (n + 1) (i + 1)) =
           (if rest = [] then 0 else i + 1 + of_nat (length ps) + 1)"
        by blast
      have lp: "length ?p = ?len" using h(2) by (simp add: byte_slice_def)
      have l4: "length (byte_slice pos (pos + 4) bs) = 4" using h(1) by (simp add: byte_slice_def HEADER_LEN_def)
      have fit: "fits ?p" using le_to_nat_bound [of "byte_slice pos (pos + 4) bs"] by (simp add: fits_def lp l4)
      have "nat_to_le 4 ?len = byte_slice pos (pos + 4) bs" using nat_to_le_of_nat [of "byte_slice pos (pos + 4) bs"] by (simp add: l4)
      then have frame: "frame_bytes sha prev ?p = byte_slice pos (pos + 4) bs @ byte_slice (pos + 4) (pos + HEADER_LEN) bs @ ?p"
        using h(3) by (simp add: frame_bytes_def lp)
      have cut: "drop pos bs = frame_bytes sha prev ?p @ drop ?stop bs"
        using drop_slice [of pos "pos + 4" bs] drop_slice [of "pos + 4" "pos + HEADER_LEN" bs]
          drop_slice [of "pos + HEADER_LEN" ?stop bs]
        unfolding frame by (simp add: HEADER_LEN_def)
      have plus_len: "x + 1 + of_nat (length ps) = x + of_nat (length (?p # ps))" for x :: u64
        unfolding length_Cons of_nat_Suc by (simp only: add.assoc)
      show ?thesis unfolding step
      proof (intro exI [of _ "?p # ps"] exI [of _ rest] conjI)
        show "list_all fits (?p # ps)" using fit ps(1) by (simp only: list.pred_inject simp_thms)
        show "drop pos bs = log_bytes sha prev (?p # ps) @ rest" by (simp only: cut ps(2) log_bytes.simps append_assoc)
        show "\<forall>q r. fits q \<longrightarrow> rest \<noteq> frame_bytes sha (chain_head (compute_batch_hash sha) prev (?p # ps)) q @ r"
          using ps(3) by (simp only: chain_head_Cons)
        show "pv_checked (partition_verify_loop sha key bs ?stop ?h (n + 1) (i + 1)) = n + of_nat (length (?p # ps))"
          "pv_broken_at (partition_verify_loop sha key bs ?stop ?h (n + 1) (i + 1)) =
             (if rest = [] then 0 else i + of_nat (length (?p # ps)) + 1)"
          unfolding ps(5) ps(6) by (simp_all only: plus_len)
        show "pv_ok (partition_verify_loop sha key bs ?stop ?h (n + 1) (i + 1)) = (rest = [])" by (rule ps(4))
      qed
    next
      case bad: False
      have "drop pos bs \<noteq> frame_bytes sha prev p @ r" if "fits p" for p r
      proof
        assume "drop pos bs = frame_bytes sha prev p @ r"
        then have eq: "bs = take pos bs @ frame_bytes sha prev p @ r" by (metis append_take_drop_id)
        have len: "length (take pos bs) = pos" using 1(2) by simp
        from frame_at [OF that eq] have ?good unfolding len by auto
        with bad show False ..
      qed
      moreover have "\<exists>d. partition_verify_loop sha key bs pos prev n i =
          \<lparr>pv_producer_id = key, pv_ok = False, pv_checked = n, pv_broken_at = i + 1, pv_detail = d\<rparr>"
      proof -
        consider "length bs - pos < HEADER_LEN" | "\<not> length bs - pos < HEADER_LEN" "length bs < ?stop"
          | "\<not> length bs - pos < HEADER_LEN" "\<not> length bs < ?stop" "?h \<noteq> byte_slice (pos + 4) (pos + HEADER_LEN) bs"
          using bad by blast
        then show ?thesis using False
          by cases (subst partition_verify_loop.simps, simp add: Let_def)+
      qed
      ultimately show ?thesis using False
        by (intro exI [of _ "[]"] exI [of _ "drop pos bs"]) auto
    qed
  qed
qed

lemma partition_intact:
  assumes "partition_holds sha enc dec bs pl dir"
  shows "partition_verify sha True pl dir =
    Inr \<lparr>pv_producer_id = pl_shard_key pl, pv_ok = True, pv_checked = of_nat (length bs), pv_broken_at = 0,
         pv_detail = PartIntact\<rparr>"
proof -
  have "list_all fits (map enc bs)" using assms buffered_all(1) by (auto simp: partition_holds_def)
  from verify_loop_frames [OF this, of sha "pl_shard_key pl" "[]" GENESIS "[]" 0 0] assms show ?thesis
    by (auto simp: partition_verify_def partition_holds_def partition_verify_loop.simps [of _ _ _ "length _"])
qed

section \<open>Properties\<close>

text \<open>
  C34: a partition is a list of batches: appending a batch the encoder can carry makes it hold
  the list with that batch at its end and leaves every other file of the directory alone,
  \<open>verify\<close> says the chain is intact and counts the batches, and opening the shard again, also
  when an append was cut short by a crash, gives a partition that holds exactly the list and
  reports the bytes it dropped.
\<close>

theorem partition_refines_list:
  assumes "partition_holds sha enc dec bs pl dir" "buffered enc dec b"
    and "validate_path_component_id (pl_shard_key pl) = Inr (pl_shard_key pl)"
    and "n < HEADER_LEN + length (enc b)"
  shows "(\<exists>pl' dir'. partition_append sha enc WriteOk b pl dir = (Inr (), pl', dir') \<and>
      partition_holds sha enc dec (bs @ [b]) pl' dir' \<and> (\<forall>f. f \<noteq> pl_file pl \<longrightarrow> dir' f = dir f)) \<and>
    partition_verify sha True pl dir =
      Inr \<lparr>pv_producer_id = pl_shard_key pl, pv_ok = True, pv_checked = of_nat (length bs), pv_broken_at = 0,
           pv_detail = PartIntact\<rparr> \<and>
    (\<exists>torn pl' rep dir'. partition_append sha enc (WriteFail n) b pl dir = (Inl LogIo, pl, torn) \<and>
      partition_open sha dec all_ok (pl_shard_key pl) torn = (Inr (pl', rep), dir') \<and>
      partition_holds sha enc dec bs pl' dir' \<and>
      (case rep of None \<Rightarrow> 0 | Some r \<Rightarrow> lr_discarded_bytes r) = n)"
proof (intro conjI)
  show "\<exists>pl' dir'. partition_append sha enc WriteOk b pl dir = (Inr (), pl', dir') \<and>
      partition_holds sha enc dec (bs @ [b]) pl' dir' \<and> (\<forall>f. f \<noteq> pl_file pl \<longrightarrow> dir' f = dir f)"
    using partition_append_holds [OF assms(1,2)] by blast
  show "partition_verify sha True pl dir =
      Inr \<lparr>pv_producer_id = pl_shard_key pl, pv_ok = True, pv_checked = of_nat (length bs), pv_broken_at = 0,
           pv_detail = PartIntact\<rparr>"
    by (rule partition_intact [OF assms(1)])
  let ?torn = "dir(pl_file pl \<mapsto> log_bytes sha GENESIS (map enc bs) @ take n (frame_bytes sha (log_head sha (map enc bs)) (enc b)))"
  have torn: "partition_append sha enc (WriteFail n) b pl dir = (Inl LogIo, pl, ?torn)"
    using assms by (auto simp: partition_append_frame partition_holds_def buffered_def fits_def append_file_def contents_def Let_def)
  have "list_all (buffered enc dec) bs" "fits (enc b)" "sanitize_shard_key (pl_shard_key pl) = Inr (pl_file pl)"
    using assms by (auto simp: partition_holds_def buffered_def sanitize_Inr)
  from partition_open_torn [OF this(1,2) _ _ this(3), of n sha ?torn] assms(4) torn
  show "\<exists>torn pl' rep dir'. partition_append sha enc (WriteFail n) b pl dir = (Inl LogIo, pl, torn) \<and>
      partition_open sha dec all_ok (pl_shard_key pl) torn = (Inr (pl', rep), dir') \<and>
      partition_holds sha enc dec bs pl' dir' \<and> (case rep of None \<Rightarrow> 0 | Some r \<Rightarrow> lr_discarded_bytes r) = n"
    by (fastforce simp: contents_def)
qed

text \<open>
  \<open>verify\<close> answers for the file it reads: it says intact exactly when the file is the
  records of some payloads chained from GENESIS; otherwise it names the first record that is
  not whole and linked to its predecessor, and counts those before it. Two files it calls
  intact, of equally many records and with the same last hash, hold the same payloads, absent
  a SHA-256 collision on their inputs.
\<close>

theorem partition_verify_exact:
  assumes "dir (pl_file pl) = Some bs" "partition_verify sha True pl dir = Inr v"
  shows "\<exists>ps rest. list_all fits ps \<and> bs = log_bytes sha GENESIS ps @ rest \<and>
      (\<forall>p r. fits p \<longrightarrow> rest \<noteq> frame_bytes sha (log_head sha ps) p @ r) \<and>
      pv_ok v = (rest = []) \<and> pv_checked v = of_nat (length ps) \<and>
      pv_broken_at v = (if rest = [] then 0 else of_nat (length ps) + 1) \<and>
      (\<forall>qs. length qs = length ps \<and> log_head sha qs = log_head sha ps \<and>
         inj_on sha (chain_inputs (compute_batch_hash sha) (\<lambda>p. p) GENESIS qs \<union>
           chain_inputs (compute_batch_hash sha) (\<lambda>p. p) GENESIS ps) \<longrightarrow> qs = ps)"
proof -
  have v: "v = partition_verify_loop sha (pl_shard_key pl) bs 0 GENESIS 0 0"
    using assms by (simp add: partition_verify_def)
  obtain ps rest where p: "list_all fits ps" "drop 0 bs = log_bytes sha GENESIS ps @ rest"
    "\<forall>p r. fits p \<longrightarrow> rest \<noteq> frame_bytes sha (log_head sha ps) p @ r" "pv_ok v = (rest = [])"
    "pv_checked v = 0 + of_nat (length ps)" "pv_broken_at v = (if rest = [] then 0 else 0 + of_nat (length ps) + 1)"
    using verify_loop_result [of 0 bs sha GENESIS "pl_shard_key pl" 0 0] unfolding v by blast
  have "qs = ps" if "length qs = length ps" "log_head sha qs = log_head sha ps"
    "inj_on sha (chain_inputs (compute_batch_hash sha) (\<lambda>p. p) GENESIS qs \<union>
           chain_inputs (compute_batch_hash sha) (\<lambda>p. p) GENESIS ps)" for qs
    using log_chain.head_determines [OF that] by simp
  moreover have "bs = log_bytes sha GENESIS ps @ rest" "pv_checked v = of_nat (length ps)"
    "pv_broken_at v = (if rest = [] then 0 else of_nat (length ps) + 1)"
    using p(2,5,6) by (simp_all only: drop_0 add_0)
  ultimately show ?thesis using p(1,3,4) by blast
qed

text \<open>
  An append whose sync fails after all of its bytes are written is reported as an error,
  but its record stays in the file while the tip does not move. The next append succeeds and
  links to the old tip; from then on \<open>verify\<close> names the acknowledged record as tampered, and
  opening the partition again cuts the acknowledged record off and keeps the refused one,
  absent a SHA-256 coincidence.
\<close>

theorem failed_sync_loses_acknowledged:
  assumes "partition_holds sha enc dec bs pl dir" "buffered enc dec b" "buffered enc dec c"
    and "HEADER_LEN + length (enc b) \<le> n"
    and "validate_path_component_id (pl_shard_key pl) = Inr (pl_shard_key pl)"
    and "compute_batch_hash sha (log_head sha (map enc bs)) (enc c) \<noteq>
      compute_batch_hash sha (log_head sha (map enc (bs @ [b]))) (enc c)"
    and "partition_append sha enc (WriteFail n) b pl dir = (r1, pl1, dir1)"
    and "partition_append sha enc WriteOk c pl1 dir1 = (r2, pl2, dir2)"
  shows "r1 = Inl LogIo \<and> r2 = Inr () \<and>
    (\<exists>v. partition_verify sha True pl2 dir2 = Inr v \<and> \<not> pv_ok v \<and> pv_broken_at v = of_nat (length bs) + 2) \<and>
    (\<exists>pl' rep dir'. partition_open sha dec all_ok (pl_shard_key pl) dir2 = (Inr (pl', Some rep), dir') \<and>
       partition_holds sha enc dec (bs @ [b]) pl' dir')"
proof -
  let ?h = "log_head sha (map enc bs)" and ?ps = "map enc (bs @ [b])"
  let ?log = "log_bytes sha GENESIS ?ps"
  let ?f = "?log @ frame_bytes sha ?h (enc c)"
  have f: "dir (pl_file pl) = Some (log_bytes sha GENESIS (map enc bs))" "pl_tip_hash pl = ?h"
    "pl_file pl = pl_shard_key pl @ ''.avlog''"
    and fits_b: "length (enc b) < 2 ^ 32" "length (enc c) < 2 ^ 32"
    using assms(1,2,3) by (auto simp: partition_holds_def buffered_def fits_def)
  have "partition_append sha enc (WriteFail n) b pl dir = (Inl LogIo, pl, dir(pl_file pl \<mapsto> ?log))"
    using fits_b(1) assms(4)
    by (simp add: partition_append_frame append_file_def contents_def f(1,2) log_bytes_snoc Let_def)
  then have r1: "r1 = Inl LogIo" "pl1 = pl" "dir1 = dir(pl_file pl \<mapsto> ?log)" using assms(7) by simp_all
  have "partition_append sha enc WriteOk c pl dir1 = (Inr (), pl\<lparr>pl_tip_hash := digest_bytes (compute_batch_hash sha ?h (enc c)),
      pl_record_count := pl_record_count pl + 1\<rparr>, dir1(pl_file pl \<mapsto> ?f))"
    using fits_b(2) by (simp add: partition_append_frame append_file_def contents_def f(2) r1(3) Let_def)
  then have r2: "r2 = Inr ()" "dir2 = dir(pl_file pl \<mapsto> ?f)" "pl_file pl2 = pl_file pl"
    using assms(8) r1(2,3) by auto
  have all: "list_all (buffered enc dec) (bs @ [b])" using assms(1,2) by (simp add: partition_holds_def)
  have fits: "list_all fits ?ps" using buffered_all(1) [OF all] .
  have fc: "fits (enc c)" using assms(3) by (simp add: buffered_def)
  note at = frame_at [OF fc refl, of ?log sha ?h "[]"]
  have v: "partition_verify_loop sha k (?f @ []) 0 GENESIS 0 0 = \<lparr>pv_producer_id = k, pv_ok = False,
      pv_checked = of_nat (length ?ps), pv_broken_at = of_nat (length ?ps) + 1, pv_detail = PartTampered (of_nat (length ?ps) + 1)\<rparr>" for k
  proof -
    have "partition_verify_loop sha k (?f @ []) 0 GENESIS 0 0 =
        partition_verify_loop sha k (?f @ []) (length ?log) (log_head sha ?ps) (of_nat (length ?ps)) (of_nat (length ?ps))"
      using verify_loop_frames [OF fits, of sha k "[]" GENESIS "frame_bytes sha ?h (enc c) @ []" 0 0] by simp
    also have "\<dots> = \<lparr>pv_producer_id = k, pv_ok = False, pv_checked = of_nat (length ?ps),
        pv_broken_at = of_nat (length ?ps) + 1, pv_detail = PartTampered (of_nat (length ?ps) + 1)\<rparr>"
      using at assms(6) by (subst partition_verify_loop.simps) (simp add: Let_def)
    finally show ?thesis .
  qed
  obtain why where scan: "partition_scan sha dec ?f = (refs_of sha GENESIS 0 ?ps, Some (length ?log, why))"
    using scan_unlinked_tail [OF fits fc, of sha ?h dec] assms(6) by (auto simp: partition_scan_def)
  have "sanitize_shard_key (pl_shard_key pl) = Inr (pl_file pl)" using assms(5) f(3) by (simp add: sanitize_Inr)
  then have "\<exists>pl' rep dir'. partition_open sha dec all_ok (pl_shard_key pl) dir2 = (Inr (pl', Some rep), dir') \<and>
       partition_holds sha enc dec (bs @ [b]) pl' dir'"
    using scan all unfolding r2(2)
    by (simp add: partition_open_def all_ok_def contents_def truncate_file_def partition_holds_def Let_def
        refs_tip f(3) split del: if_split)
  then show ?thesis using r1(1) r2 v by (simp add: partition_verify_def)
qed

section \<open>Witnesses\<close>

definition sample_partition :: partition_log where
  "sample_partition =
     \<lparr>pl_shard_key = ''s1'', pl_file = ''s1.avlog'', pl_tip_hash = GENESIS, pl_record_count = 0\<rparr>"

definition sample_dir :: log_dir where
  "sample_dir = [''s1.avlog'' \<mapsto> []]"

lemma sample_partition_holds: "partition_holds sha enc dec [] sample_partition sample_dir"
  by (simp add: partition_holds_def sample_partition_def sample_dir_def)

lemma sample_key_valid: "validate_path_component_id ''s1'' = Inr ''s1''"
  by (simp add: validate_Inr_iff string_bytes_def allowed_byte_def is_ascii_alphanumeric_def word_le_nat_alt)

theorem partition_refines_list_witness:
  "\<exists>pl' dir'. partition_append (\<lambda>_. 0) (\<lambda>_. [1]) WriteOk sample_batch sample_partition sample_dir = (Inr (), pl', dir') \<and>
     partition_holds (\<lambda>_. 0) (\<lambda>_. [1]) (sample_dec sample_batch) [sample_batch] pl' dir'"
proof -
  have "validate_path_component_id (pl_shard_key sample_partition) = Inr (pl_shard_key sample_partition)"
    by (simp add: sample_partition_def sample_key_valid)
  from partition_refines_list [OF sample_partition_holds sample_buffered [of sample_batch] this, of 7 "\<lambda>_. 0"]
  show ?thesis by (auto simp: HEADER_LEN_def)
qed

theorem partition_verify_exact_witness:
  "\<exists>v ps rest. partition_verify (\<lambda>_. 0) True sample_partition [''s1.avlog'' \<mapsto> [7, 0]] = Inr v \<and>
     [7, 0] = log_bytes (\<lambda>_. 0) GENESIS ps @ rest \<and> pv_ok v = (rest = [])"
proof -
  obtain v where v: "partition_verify (\<lambda>_. 0) True sample_partition [''s1.avlog'' \<mapsto> [7, 0]] = Inr v"
    by (simp add: partition_verify_def sample_partition_def)
  from partition_verify_exact [OF _ v, of "[7, 0]"] v show ?thesis
    by (auto simp: sample_partition_def)
qed

theorem failed_sync_loses_acknowledged_witness:
  "\<exists>r1 pl1 dir1 r2 pl2 dir2 pl' rep dir'.
     partition_append (\<lambda>bs. of_nat (length bs)) (\<lambda>_. [1]) (WriteFail 37) sample_batch sample_partition sample_dir = (r1, pl1, dir1) \<and>
     partition_append (\<lambda>bs. of_nat (length bs)) (\<lambda>_. [1]) WriteOk sample_batch pl1 dir1 = (r2, pl2, dir2) \<and> r2 = Inr () \<and>
     partition_open (\<lambda>bs. of_nat (length bs)) (sample_dec sample_batch) all_ok ''s1'' dir2 = (Inr (pl', Some rep), dir') \<and>
     pl_record_count pl' = 1"
proof -
  let ?sha = "\<lambda>bs. of_nat (length bs) :: digest"
  obtain r1 pl1 dir1 where a: "partition_append ?sha (\<lambda>_. [1]) (WriteFail 37) sample_batch sample_partition sample_dir = (r1, pl1, dir1)"
    by (metis prod_cases3)
  obtain r2 pl2 dir2 where b: "partition_append ?sha (\<lambda>_. [1]) WriteOk sample_batch pl1 dir1 = (r2, pl2, dir2)"
    by (metis prod_cases3)
  have g: "length GENESIS = 7" by (simp add: GENESIS_def)
  have "compute_batch_hash ?sha (log_head ?sha (map (\<lambda>_. [1]) [])) [1] \<noteq>
      compute_batch_hash ?sha (log_head ?sha (map (\<lambda>_. [1]) ([] @ [sample_batch]))) [1]"
    by (simp add: chain_head_Cons compute_batch_hash_def g)
  from failed_sync_loses_acknowledged [OF sample_partition_holds sample_buffered sample_buffered _ _ this a b] sample_key_valid a b
  show ?thesis by (fastforce simp: HEADER_LEN_def sample_partition_def partition_holds_def)
qed

end
