(* ===== verification/Ingest_Core.thy ===== *)
theory Ingest_Core
  imports Ingest_Log Edge_Identity "HOL-Library.AList"
begin

text \<open>
  \<open>av-ingest\<close>, \<open>ingest.rs\<close> and \<open>evidence.rs\<close>: the pipeline of one ingest process. A batch
  passes the identity check, the shard check and the chain verifier, in this order, and an
  accepted one is appended to the partition it names.

  The two hash maps that the code iterates over (policies and open partitions) are association
  lists with distinct keys; everything computed from an iteration is independent of its order.
\<close>

section \<open>State\<close>

datatype 'k signer = SignerKey 'k | SignerCertificate bytes "bytes option"

datatype ingest_outcome = IdentityRejected identity_rejection | UnknownProducer string | Verdict batch_verdict

fun outcome_accepted :: "ingest_outcome \<Rightarrow> bool" where
  "outcome_accepted (Verdict v) = vd_accepted v"
| "outcome_accepted _ = False"

datatype ingest_error = NoTrustAnchors | IngestLog log_error | IngestIdentity identity_rejection

record 'c ingest =
  ig_dir :: log_dir
  ig_chain :: chain_verifier
  ig_policies :: "(string \<times> producer_policy) list"
  ig_anchors :: "'c trust_anchors option"
  ig_identity :: identity_counters
  ig_shard_mismatch :: "string \<rightharpoonup> u64"
  ig_partitions :: "(string \<times> partition_log) list"

definition new_ingest :: "log_dir \<Rightarrow> 'c trust_anchors option \<Rightarrow> 'c ingest" where
  "new_ingest dir anchors =
     \<lparr>ig_dir = dir, ig_chain = Map.empty, ig_policies = [], ig_anchors = anchors, ig_identity = new_identity_counters,
      ig_shard_mismatch = Map.empty, ig_partitions = []\<rparr>"

definition register_producer :: "producer_policy \<Rightarrow> 'c ingest \<Rightarrow> 'c ingest" where
  "register_producer p ig = ig\<lparr>ig_policies := AList.update (pol_producer_id p) p (ig_policies ig)\<rparr>"

section \<open>Partitions\<close>

definition open_partition_file ::
  "(bytes \<Rightarrow> digest) \<Rightarrow> (bytes \<Rightarrow> 'x + batch) \<Rightarrow> open_world \<Rightarrow> string \<Rightarrow> 'c ingest \<Rightarrow>
     (ingest_error + partition_log \<times> log_recovery option) \<times> 'c ingest" where
  "open_partition_file sha dec w key ig =
     (case partition_open sha dec w key (ig_dir ig) of
        (Inl e, dir) \<Rightarrow> (Inl (IngestLog e), ig\<lparr>ig_dir := dir\<rparr>)
      | (Inr (pl, rep), dir) \<Rightarrow>
          (Inr (pl, rep), ig\<lparr>ig_dir := dir, ig_partitions := AList.update key pl (ig_partitions ig)\<rparr>))"

definition partition_for ::
  "(bytes \<Rightarrow> digest) \<Rightarrow> (bytes \<Rightarrow> 'x + batch) \<Rightarrow> open_world \<Rightarrow> string \<Rightarrow> 'c ingest \<Rightarrow>
     (ingest_error + partition_log) \<times> 'c ingest" where
  "partition_for sha dec w key ig =
     (case map_of (ig_partitions ig) key of
        Some pl \<Rightarrow> (Inr pl, ig)
      | None \<Rightarrow> try_then (open_partition_file sha dec w key ig) (\<lambda>(pl, _) ig. (Inr pl, ig)))"

definition open_partition ::
  "(bytes \<Rightarrow> digest) \<Rightarrow> (bytes \<Rightarrow> 'x + batch) \<Rightarrow> open_world \<Rightarrow> string \<Rightarrow> 'c ingest \<Rightarrow>
     (ingest_error + log_recovery option) \<times> 'c ingest" where
  "open_partition sha dec w key ig =
     (case map_of (ig_partitions ig) key of
        Some _ \<Rightarrow> (Inr None, ig)
      | None \<Rightarrow> try_then (open_partition_file sha dec w key ig) (\<lambda>(_, rep) ig. (Inr rep, ig)))"

definition append_to ::
  "(bytes \<Rightarrow> digest) \<Rightarrow> (batch \<Rightarrow> bytes) \<Rightarrow> write_outcome \<Rightarrow> batch \<Rightarrow> string \<Rightarrow> partition_log \<Rightarrow> 'c ingest \<Rightarrow>
     (ingest_error + unit) \<times> 'c ingest" where
  "append_to sha enc w b key pl ig =
     (case partition_append sha enc w b pl (ig_dir ig) of
        (r, pl, dir) \<Rightarrow>
          (map_err IngestLog r, ig\<lparr>ig_dir := dir, ig_partitions := AList.update key pl (ig_partitions ig)\<rparr>))"

section \<open>Submission\<close>

definition shard_mismatch_count :: "string \<Rightarrow> 'c ingest \<Rightarrow> u64" where
  "shard_mismatch_count pid ig = (case ig_shard_mismatch ig pid of Some n \<Rightarrow> n | None \<Rightarrow> 0)"

definition measurement_mismatch :: "batch \<Rightarrow> measurement option" where
  "measurement_mismatch b = find (\<lambda>m. meas_shard_key m \<noteq> shard_key b) (measurements b)"

definition shard_detail :: "batch \<Rightarrow> verdict_detail option" where
  "shard_detail b =
     (case validate_path_component_id (shard_key b) of
        Inl e \<Rightarrow> Some (ShardUnusable (shard_key b) e)
      | Inr _ \<Rightarrow> map_option (\<lambda>m. ShardDisagrees (meas_id m) (meas_shard_key m) (shard_key b)) (measurement_mismatch b))"

definition submit_verified ::
  "(bytes \<Rightarrow> digest) \<Rightarrow> (batch \<Rightarrow> bytes) \<Rightarrow> (bytes \<Rightarrow> 'x + batch) \<Rightarrow> ('p, 'k, 's) ecdsa \<Rightarrow> open_world \<Rightarrow> write_outcome \<Rightarrow>
     batch \<Rightarrow> 'k \<Rightarrow> i64 \<Rightarrow> 'c ingest \<Rightarrow> (ingest_error + ingest_outcome) \<times> 'c ingest" where
  "submit_verified sha enc dec ec w wr b key now ig =
     (case shard_detail b of
        Some d \<Rightarrow>
          (Inr (Verdict \<lparr>vd_accepted = False, vd_rejection = RejShardMismatch, vd_producer_id = producer_id b,
                         vd_sequence = batch_seq b, vd_batch_hash = batch_hash b, vd_detail = d\<rparr>),
           ig\<lparr>ig_shard_mismatch := (ig_shard_mismatch ig)(producer_id b \<mapsto> shard_mismatch_count (producer_id b) ig + 1)\<rparr>)
      | None \<Rightarrow>
          (case map_of (ig_policies ig) (producer_id b) of
             None \<Rightarrow> (Inr (UnknownProducer (producer_id b)), ig)
           | Some p \<Rightarrow>
               (case chain_submit sha enc ec b p key now (ig_chain ig) of
                  (vd, chain) \<Rightarrow>
                    let ig = ig\<lparr>ig_chain := chain\<rparr> in
                    if vd_accepted vd
                    then
                      try_then (partition_for sha dec w (shard_key b) ig) (\<lambda>pl ig.
                      try_then (append_to sha enc wr b (shard_key b) pl ig) (\<lambda>_ ig. (Inr (Verdict vd), ig)))
                    else (Inr (Verdict vd), ig))))"

definition ingest_submit ::
  "('c, 'y, 'k, 'p) pki \<Rightarrow> (bytes \<Rightarrow> digest) \<Rightarrow> (batch \<Rightarrow> bytes) \<Rightarrow> (bytes \<Rightarrow> 'x + batch) \<Rightarrow> ('p, 'k, 's) ecdsa \<Rightarrow>
     open_world \<Rightarrow> write_outcome \<Rightarrow> batch \<Rightarrow> 'k signer \<Rightarrow> i64 \<Rightarrow> 'c ingest \<Rightarrow>
     (ingest_error + ingest_outcome) \<times> 'c ingest" where
  "ingest_submit pk sha enc dec ec w wr b signer now ig =
     (case signer of
        SignerKey key \<Rightarrow> submit_verified sha enc dec ec w wr b key now ig
      | SignerCertificate leaf chain \<Rightarrow>
          (case ig_anchors ig of
             None \<Rightarrow> (Inl NoTrustAnchors, ig)
           | Some anchors \<Rightarrow>
               (case verify_identity pk leaf chain anchors now (ig_identity ig) of
                  (Inl e, c) \<Rightarrow> (Inr (IdentityRejected e), ig\<lparr>ig_identity := c\<rparr>)
                | (Inr i, c) \<Rightarrow>
                    submit_verified sha enc dec ec w wr b (id_public_key i) now (ig\<lparr>ig_identity := c\<rparr>))))"

definition verify_identity_once ::
  "('c, 'y, 'k, 'p) pki \<Rightarrow> bytes \<Rightarrow> bytes option \<Rightarrow> i64 \<Rightarrow> 'c ingest \<Rightarrow> (ingest_error + 'k edge_identity) \<times> 'c ingest" where
  "verify_identity_once pk leaf chain now ig =
     (case ig_anchors ig of
        None \<Rightarrow> (Inl NoTrustAnchors, ig)
      | Some anchors \<Rightarrow>
          (case verify_identity pk leaf chain anchors now (ig_identity ig) of
             (r, c) \<Rightarrow> (map_err IngestIdentity r, ig\<lparr>ig_identity := c\<rparr>)))"

section \<open>Evidence\<close>

definition producer_ids :: "'c ingest \<Rightarrow> string list" where
  "producer_ids ig = map fst (ig_policies ig)"

definition producer_counters :: "string \<Rightarrow> 'c ingest \<Rightarrow> rejection_counters" where
  "producer_counters pid ig =
     (let c = (case verifier_counters pid (ig_chain ig) of Some c \<Rightarrow> c | None \<Rightarrow> new_counters pid)
      in c\<lparr>rc_shard_mismatch := shard_mismatch_count pid ig\<rparr>)"

definition rejected_total_for :: "rejection_counters \<Rightarrow> u64 \<Rightarrow> u64" where
  "rejected_total_for c shard_mismatches =
     rc_unsigned c + rc_bad_signature c + rc_chain_gap c + rc_chain_break c + rc_mislabeled c + rc_over_clearance c +
     rc_stale c + rc_duplicate c + shard_mismatches"

definition verify_all :: "(bytes \<Rightarrow> digest) \<Rightarrow> (string \<Rightarrow> bool) \<Rightarrow> 'c ingest \<Rightarrow> (string \<times> partition_verification) list" where
  "verify_all sha read_ok ig =
     map (\<lambda>(key, pl).
       (key,
        case partition_verify sha (read_ok key) pl (ig_dir ig) of
          Inr v \<Rightarrow> v
        | Inl e \<Rightarrow> \<lparr>pv_producer_id = key, pv_ok = False, pv_checked = 0, pv_broken_at = 0, pv_detail = PartUnreadable e\<rparr>))
       (ig_partitions ig)"

record evidence_summary =
  ev_accepted_total :: u64
  ev_rejected_total :: u64
  ev_identity :: identity_counters
  ev_producers :: "(string \<times> rejection_counters) list"
  ev_partitions :: "(string \<times> bytes \<times> u64) list"

definition evidence :: "'c ingest \<Rightarrow> evidence_summary" where
  "evidence ig =
     \<lparr>ev_accepted_total = (\<Sum>p \<leftarrow> producer_ids ig. rc_accepted (producer_counters p ig)),
      ev_rejected_total =
        (\<Sum>p \<leftarrow> producer_ids ig. rejected_total_for (producer_counters p ig) (shard_mismatch_count p ig)),
      ev_identity = ig_identity ig,
      ev_producers = map (\<lambda>p. (p, producer_counters p ig)) (producer_ids ig),
      ev_partitions = map (\<lambda>(key, pl). (key, pl_tip_hash pl, pl_record_count pl)) (ig_partitions ig)\<rparr>"

section \<open>Lemmas\<close>

text \<open>
  \<open>files_hold L\<close>: every partition, open or not, holds the list \<open>L\<close> gives for its key;
  \<open>chain_holds acc\<close>: the chain verifier has accepted \<open>acc\<close> since the process started.
\<close>

definition key_holds ::
  "(bytes \<Rightarrow> digest) \<Rightarrow> (batch \<Rightarrow> bytes) \<Rightarrow> (bytes \<Rightarrow> 'x + batch) \<Rightarrow> batch list \<Rightarrow> string \<Rightarrow> partition_log option \<Rightarrow> log_dir \<Rightarrow> bool" where
  "key_holds sha enc dec bs key po dir \<longleftrightarrow>
     (case po of
        Some pl \<Rightarrow> pl_shard_key pl = key \<and> partition_holds sha enc dec bs pl dir
      | None \<Rightarrow> list_all (buffered enc dec) bs \<and> contents (dir (key @ ''.avlog'')) = log_bytes sha GENESIS (map enc bs))"

lemma key_holds_simps [simp]:
  "key_holds sha enc dec bs key (Some pl) dir \<longleftrightarrow> pl_shard_key pl = key \<and> partition_holds sha enc dec bs pl dir"
  "key_holds sha enc dec bs key None dir \<longleftrightarrow>
     list_all (buffered enc dec) bs \<and> contents (dir (key @ ''.avlog'')) = log_bytes sha GENESIS (map enc bs)"
  by (simp_all add: key_holds_def)

definition files_hold ::
  "(bytes \<Rightarrow> digest) \<Rightarrow> (batch \<Rightarrow> bytes) \<Rightarrow> (bytes \<Rightarrow> 'x + batch) \<Rightarrow> (string \<Rightarrow> batch list) \<Rightarrow> 'c ingest \<Rightarrow> bool" where
  "files_hold sha enc dec L ig \<longleftrightarrow>
     distinct (map fst (ig_partitions ig)) \<and>
     (\<forall>key. key_holds sha enc dec (L key) key (map_of (ig_partitions ig) key) (ig_dir ig))"

lemma files_hold_key: "files_hold sha enc dec L ig \<Longrightarrow> map_of (ig_partitions ig) key = po \<Longrightarrow>
   key_holds sha enc dec (L key) key po (ig_dir ig)"
  by (auto simp only: files_hold_def)

definition chain_holds :: "(bytes \<Rightarrow> digest) \<Rightarrow> (batch \<Rightarrow> bytes) \<Rightarrow> batch list \<Rightarrow> 'c ingest \<Rightarrow> bool" where
  "chain_holds sha enc acc ig \<longleftrightarrow>
     (\<forall>pid. tracks sha enc (of_producer pid acc) (state_of (ig_chain ig) pid) \<and>
        rc_accepted (ps_counters (state_of (ig_chain ig) pid)) = of_nat (length (of_producer pid acc)))"

lemma files_hold_cong:
  "ig_dir ig' = ig_dir ig \<Longrightarrow> ig_partitions ig' = ig_partitions ig \<Longrightarrow>
   files_hold sha enc dec L ig' = files_hold sha enc dec L ig"
  by (simp only: files_hold_def)

lemma key_holds_other:
  assumes "key_holds sha enc dec bs k po dir" "\<forall>f. f \<noteq> key @ ''.avlog'' \<longrightarrow> dir' f = dir f" "k \<noteq> key"
  shows "key_holds sha enc dec bs k po dir'"
  using assms by (cases po) (auto simp: partition_holds_def)

text \<open>What a change to one partition and its file leaves true of all of them.\<close>

lemma files_hold_update:
  assumes "files_hold sha enc dec L ig" "partition_holds sha enc dec bs pl dir'" "pl_shard_key pl = key"
    and "\<forall>f. f \<noteq> key @ ''.avlog'' \<longrightarrow> dir' f = ig_dir ig f"
  shows "files_hold sha enc dec (L(key := bs)) (ig\<lparr>ig_dir := dir', ig_partitions := AList.update key pl (ig_partitions ig)\<rparr>)"
proof -
  have "key_holds sha enc dec ((L(key := bs)) k) k (map_of (AList.update key pl (ig_partitions ig)) k) dir'" for k
    using assms(2,3) key_holds_other [OF files_hold_key [OF assms(1) refl] assms(4), of k]
    by (cases "k = key") (simp_all add: update_conv)
  moreover have "distinct (map fst (AList.update key pl (ig_partitions ig)))"
    using assms(1) by (auto simp: files_hold_def intro: distinct_update)
  moreover have "ig_dir (ig\<lparr>ig_dir := dir', ig_partitions := parts\<rparr>) = dir'"
    "ig_partitions (ig\<lparr>ig_dir := dir', ig_partitions := parts\<rparr>) = parts" for parts
    by simp_all
  ultimately show ?thesis by (simp only: files_hold_def) blast
qed

lemma open_partition_file_holds:
  assumes "files_hold sha enc dec L ig" "validate_path_component_id key = Inr key" "map_of (ig_partitions ig) key = None"
  shows "\<exists>pl dir'. open_partition_file sha dec all_ok key ig =
      (Inr (pl, None), ig\<lparr>ig_dir := dir', ig_partitions := AList.update key pl (ig_partitions ig)\<rparr>) \<and>
    files_hold sha enc dec L (ig\<lparr>ig_dir := dir', ig_partitions := AList.update key pl (ig_partitions ig)\<rparr>)"
proof -
  have f: "list_all (buffered enc dec) (L key)" "contents (ig_dir ig (key @ ''.avlog'')) = log_bytes sha GENESIS (map enc (L key))"
    using files_hold_key [OF assms(1,3)] by simp_all
  have "sanitize_shard_key key = Inr (key @ ''.avlog'')" using assms(2) by (simp add: sanitize_Inr)
  from partition_open_whole [where dir = "ig_dir ig", OF f this] obtain pl dir' where
    o: "partition_open sha dec all_ok key (ig_dir ig) = (Inr (pl, None), dir')"
    and h: "partition_holds sha enc dec (L key) pl dir'" "pl_shard_key pl = key"
      "\<forall>f. f \<noteq> key @ ''.avlog'' \<longrightarrow> dir' f = ig_dir ig f"
    by blast
  have "open_partition_file sha dec all_ok key ig =
      (Inr (pl, None), ig\<lparr>ig_dir := dir', ig_partitions := AList.update key pl (ig_partitions ig)\<rparr>)"
    using o by (simp add: open_partition_file_def)
  with files_hold_update [OF assms(1) h] show ?thesis by (intro exI conjI) (assumption, simp)
qed

text \<open>
  Faults that leave no trace: a file that is there can be read, and a write that fails leaves no
  byte of its frame. Creating the directory, opening the file and the write itself may fail.
\<close>

definition traceless :: "open_world \<Rightarrow> write_outcome \<Rightarrow> bool" where
  "traceless w wr \<longleftrightarrow> log_read_ok w \<and> (wr = WriteOk \<or> wr = OpenFail \<or> wr = WriteFail 0)"

definition faultless :: "open_world \<Rightarrow> write_outcome \<Rightarrow> bool" where
  "faultless w wr \<longleftrightarrow> dir_ok w \<and> log_open_ok w \<and> wr = WriteOk"

lemma faults_none [simp]: "traceless all_ok WriteOk" "faultless all_ok WriteOk"
  by (simp_all add: traceless_def faultless_def all_ok_def)

lemma open_partition_file_traceless:
  assumes "files_hold sha enc dec L ig" "validate_path_component_id key = Inr key" "map_of (ig_partitions ig) key = None"
    and "log_read_ok w"
  shows "open_partition_file sha dec w key ig =
    (if dir_ok w \<and> log_open_ok w then open_partition_file sha dec all_ok key ig else (Inl (IngestLog LogIo), ig))"
proof -
  have "list_all (buffered enc dec) (L key)" "contents (ig_dir ig (key @ ''.avlog'')) = log_bytes sha GENESIS (map enc (L key))"
    using files_hold_key [OF assms(1,3)] by simp_all
  then have "partition_scan sha dec (contents (ig_dir ig (key @ ''.avlog''))) = (refs_of sha GENESIS 0 (map enc (L key)), None)"
    using scan_frames_whole [OF buffered_all] by (simp add: partition_scan_def)
  moreover have "sanitize_shard_key key = Inr (key @ ''.avlog'')" using assms(2) by (simp add: sanitize_Inr)
  ultimately show ?thesis using assms(4)
    by (cases "dir_ok w"; cases "log_open_ok w")
      (simp_all add: open_partition_file_def partition_open_def all_ok_def Let_def split del: if_split)
qed

lemma partition_for_traceless:
  assumes "files_hold sha enc dec L ig" "validate_path_component_id key = Inr key" "log_read_ok w"
  shows "(\<exists>pl ig'. partition_for sha dec w key ig = (Inr pl, ig') \<and> files_hold sha enc dec L ig' \<and>
      map_of (ig_partitions ig') key = Some pl \<and> ig_chain ig' = ig_chain ig \<and> ig_policies ig' = ig_policies ig \<and>
      ig_shard_mismatch ig' = ig_shard_mismatch ig) \<or>
    \<not> (dir_ok w \<and> log_open_ok w) \<and> partition_for sha dec w key ig = (Inl (IngestLog LogIo), ig)"
proof (cases "map_of (ig_partitions ig) key")
  case None
  from open_partition_file_holds [OF assms(1,2) None] open_partition_file_traceless [OF assms(1,2) None assms(3)] None
  show ?thesis by (cases "dir_ok w \<and> log_open_ok w") (auto simp: partition_for_def update_conv)
next
  case (Some pl)
  with assms(1) show ?thesis by (auto simp: partition_for_def)
qed

lemma partition_for_holds:
  assumes "files_hold sha enc dec L ig" "validate_path_component_id key = Inr key"
  shows "\<exists>pl ig'. partition_for sha dec all_ok key ig = (Inr pl, ig') \<and> files_hold sha enc dec L ig' \<and>
    map_of (ig_partitions ig') key = Some pl \<and> ig_chain ig' = ig_chain ig \<and> ig_policies ig' = ig_policies ig \<and>
    ig_shard_mismatch ig' = ig_shard_mismatch ig"
  using partition_for_traceless [OF assms, of all_ok] by (simp add: all_ok_def)

lemma append_to_holds:
  assumes "files_hold sha enc dec L ig" "map_of (ig_partitions ig) key = Some pl" "buffered enc dec b"
  shows "\<exists>ig'. append_to sha enc WriteOk b key pl ig = (Inr (), ig') \<and>
    files_hold sha enc dec (L(key := L key @ [b])) ig' \<and> ig_chain ig' = ig_chain ig \<and> ig_policies ig' = ig_policies ig \<and>
    ig_shard_mismatch ig' = ig_shard_mismatch ig"
proof -
  have h: "pl_shard_key pl = key" "partition_holds sha enc dec (L key) pl (ig_dir ig)" "pl_file pl = key @ ''.avlog''"
    using files_hold_key [OF assms(1,2)] by (auto simp: partition_holds_def)
  from partition_append_holds [OF h(2) assms(3)] obtain pl' dir' where
    a: "partition_append sha enc WriteOk b pl (ig_dir ig) = (Inr (), pl', dir')"
    and h': "partition_holds sha enc dec (L key @ [b]) pl' dir'" "pl_shard_key pl' = key"
      "\<forall>f. f \<noteq> key @ ''.avlog'' \<longrightarrow> dir' f = ig_dir ig f"
    using h by auto
  from files_hold_update [OF assms(1) h'] a show ?thesis by (simp add: append_to_def)
qed

lemma append_to_traceless:
  assumes "files_hold sha enc dec L ig" "map_of (ig_partitions ig) key = Some pl" "buffered enc dec b" "wr = OpenFail \<or> wr = WriteFail 0"
  shows "\<exists>ig'. append_to sha enc wr b key pl ig = (Inl (IngestLog LogIo), ig') \<and> files_hold sha enc dec L ig' \<and>
    ig_chain ig' = ig_chain ig \<and> ig_policies ig' = ig_policies ig \<and> ig_shard_mismatch ig' = ig_shard_mismatch ig"
proof -
  have h: "pl_shard_key pl = key" "partition_holds sha enc dec (L key) pl (ig_dir ig)"
    using files_hold_key [OF assms(1,2)] by simp_all
  then have "partition_append sha enc wr b pl (ig_dir ig) = (Inl LogIo, pl, ig_dir ig)"
    using assms(3,4)
    by (auto simp: partition_append_frame partition_holds_def buffered_def fits_def append_file_def contents_def Let_def
        fun_upd_idem)
  moreover have "files_hold sha enc dec (L(key := L key))
      (ig\<lparr>ig_dir := ig_dir ig, ig_partitions := AList.update key pl (ig_partitions ig)\<rparr>)"
    by (rule files_hold_update [OF assms(1) h(2,1)]) simp
  ultimately show ?thesis by (simp add: append_to_def)
qed

lemma shard_detail_None:
  "shard_detail b = None \<longleftrightarrow> validate_path_component_id (shard_key b) = Inr (shard_key b) \<and>
     list_all (\<lambda>m. meas_shard_key m = shard_key b) (measurements b)"
proof -
  have "validate_path_component_id (shard_key b) = Inr x \<Longrightarrow> x = shard_key b" for x by (simp add: validate_Inr_iff)
  then show ?thesis
    by (auto simp: shard_detail_def measurement_mismatch_def find_None_iff list_all_iff split: sum.splits)
qed

lemma chain_submit_accepted_counter:
  "rc_accepted (ps_counters (state_of (snd (chain_submit sha enc ec b p key now v)) pid)) =
     rc_accepted (ps_counters (state_of v pid)) +
     (if producer_id b = pid \<and> vd_accepted (fst (chain_submit sha enc ec b p key now v)) then 1 else 0)"
proof -
  have "rc_accepted (bump_counter r c) = rc_accepted c" for r c by (cases r) simp_all
  then show ?thesis
    by (auto simp: chain_submit_def state_of_def Let_def split: option.splits prod.splits)
qed

lemma chain_submit_holds:
  assumes "chain_holds sha enc acc ig" "chain_submit sha enc ec b p key now (ig_chain ig) = (vd, v')"
  shows "vd_accepted vd \<longleftrightarrow> accepts sha enc ec p key now (of_producer (producer_id b) acc) b"
    and "chain_holds sha enc (if vd_accepted vd then acc @ [b] else acc) (ig\<lparr>ig_chain := v'\<rparr>)"
proof -
  have t: "tracks sha enc (of_producer (producer_id b) acc) (state_of (ig_chain ig) (producer_id b))"
    using assms(1) by (simp add: chain_holds_def)
  note c = chain_submit_cases [OF t, where ec = ec and p = p and key = key and now = now, unfolded assms(2) fst_conv snd_conv]
  show a: "vd_accepted vd \<longleftrightarrow> accepts sha enc ec p key now (of_producer (producer_id b) acc) b" by (rule c(1))
  have "tracks sha enc (of_producer pid (if vd_accepted vd then acc @ [b] else acc)) (state_of v' pid)" for pid
  proof (cases "pid = producer_id b")
    case True
    then show ?thesis using c(2) a by (simp split: if_splits)
  next
    case False
    then have "state_of v' pid = state_of (ig_chain ig) pid" using c(3) by (simp add: state_of_def)
    then show ?thesis using False assms(1) by (simp add: chain_holds_def)
  qed
  moreover have "rc_accepted (ps_counters (state_of v' pid)) =
      of_nat (length (of_producer pid (if vd_accepted vd then acc @ [b] else acc)))" for pid
    using chain_submit_accepted_counter [of sha enc ec b p key now "ig_chain ig" pid] assms
    by (simp add: chain_holds_def)
  ultimately show "chain_holds sha enc (if vd_accepted vd then acc @ [b] else acc) (ig\<lparr>ig_chain := v'\<rparr>)"
    by (simp add: chain_holds_def)
qed

text \<open>The key a signer stands for, when there is one.\<close>

definition signer_gives ::
  "('c, 'y, 'k, 'p) pki \<Rightarrow> i64 \<Rightarrow> 'k signer \<Rightarrow> 'c ingest \<Rightarrow> 'k \<Rightarrow> bool" where
  "signer_gives pk now signer ig key \<longleftrightarrow>
     (case signer of
        SignerKey k \<Rightarrow> k = key
      | SignerCertificate leaf chain \<Rightarrow>
          (\<exists>anchors i c. ig_anchors ig = Some anchors \<and>
             verify_identity pk leaf chain anchors now (ig_identity ig) = (Inr i, c) \<and> id_public_key i = key))"

lemma submit_signer_gives:
  assumes "signer_gives pk now signer ig key"
  shows "\<exists>c. ingest_submit pk sha enc dec ec w wr b signer now ig =
    submit_verified sha enc dec ec w wr b key now (ig\<lparr>ig_identity := c\<rparr>)"
proof (cases signer)
  case (SignerKey k)
  then show ?thesis using assms
    by (intro exI [of _ "ig_identity ig"]) (simp add: signer_gives_def ingest_submit_def)
next
  case (SignerCertificate leaf chain)
  then show ?thesis using assms by (auto simp: signer_gives_def ingest_submit_def)
qed

definition passes ::
  "(bytes \<Rightarrow> digest) \<Rightarrow> (batch \<Rightarrow> bytes) \<Rightarrow> ('p, 'k, 's) ecdsa \<Rightarrow> batch \<Rightarrow> 'k \<Rightarrow> i64 \<Rightarrow> batch list \<Rightarrow> 'c ingest \<Rightarrow> bool" where
  "passes sha enc ec b key now acc ig \<longleftrightarrow> shard_detail b = None \<and>
     (\<exists>p. map_of (ig_policies ig) (producer_id b) = Some p \<and> accepts sha enc ec p key now (of_producer (producer_id b) acc) b)"

lemma submit_verified_traceless:
  assumes "files_hold sha enc dec L ig" "chain_holds sha enc acc ig" "buffered enc dec b" "traceless w wr"
  shows "\<exists>r ig'. submit_verified sha enc dec ec w wr b key now ig = (r, ig') \<and> ig_policies ig' = ig_policies ig \<and>
    (case r of
       Inr out \<Rightarrow> (outcome_accepted out \<longleftrightarrow> passes sha enc ec b key now acc ig) \<and>
         files_hold sha enc dec (if outcome_accepted out then L(shard_key b := L (shard_key b) @ [b]) else L) ig' \<and>
         chain_holds sha enc (if outcome_accepted out then acc @ [b] else acc) ig'
     | Inl e \<Rightarrow> e = IngestLog LogIo \<and> \<not> faultless w wr \<and> passes sha enc ec b key now acc ig \<and> files_hold sha enc dec L ig' \<and> chain_holds sha enc (acc @ [b]) ig')"
proof (cases "shard_detail b")
  case (Some d)
  then show ?thesis using assms by (simp add: submit_verified_def chain_holds_def files_hold_def passes_def)
next
  case detail: None
  show ?thesis
  proof (cases "map_of (ig_policies ig) (producer_id b)")
    case None
    then show ?thesis using assms detail by (simp add: submit_verified_def passes_def)
  next
    case (Some p)
    obtain vd v' where c: "chain_submit sha enc ec b p key now (ig_chain ig) = (vd, v')" by fastforce
    note ch = chain_submit_holds [OF assms(2) c]
    let ?ig = "ig\<lparr>ig_chain := v'\<rparr>"
    have f: "files_hold sha enc dec L ?ig" using assms(1) by (simp add: files_hold_cong [of ?ig ig])
    show ?thesis
    proof (cases "vd_accepted vd")
      case False
      then show ?thesis using ch f detail Some c by (simp add: submit_verified_def passes_def)
    next
      case True
      have passes: "passes sha enc ec b key now acc ig" using ch(1) True detail Some by (simp add: passes_def)
      have chain: "chain_holds sha enc (acc @ [b]) ig'" if "ig_chain ig' = v'" for ig' :: "'f ingest"
        using ch(2) True that by (simp add: chain_holds_def)
      have w: "log_read_ok w" "wr = WriteOk \<or> wr = OpenFail \<or> wr = WriteFail 0" using assms(4) by (simp_all add: traceless_def)
      have v: "validate_path_component_id (shard_key b) = Inr (shard_key b)" using detail by (simp add: shard_detail_None)
      from partition_for_traceless [OF f v w(1)] show ?thesis
      proof (elim disjE exE conjE)
        assume "\<not> (dir_ok w \<and> log_open_ok w)" "partition_for sha dec w (shard_key b) ?ig = (Inl (IngestLog LogIo), ?ig)"
        then show ?thesis
          using True passes detail Some c f chain [of ?ig] by (auto simp: submit_verified_def faultless_def)
      next
        fix pl ig1
        assume p1: "partition_for sha dec w (shard_key b) ?ig = (Inr pl, ig1)" "files_hold sha enc dec L ig1"
          "map_of (ig_partitions ig1) (shard_key b) = Some pl" "ig_chain ig1 = ig_chain ?ig" "ig_policies ig1 = ig_policies ?ig"
        show ?thesis
        proof (cases "wr = WriteOk")
          case ok: True
          from append_to_holds [OF p1(2,3) assms(3)] obtain ig2 where
            p2: "append_to sha enc WriteOk b (shard_key b) pl ig1 = (Inr (), ig2)"
            "files_hold sha enc dec (L(shard_key b := L (shard_key b) @ [b])) ig2" "ig_chain ig2 = v'"
            "ig_policies ig2 = ig_policies ig"
            using p1(4,5) by auto
          then show ?thesis using True passes detail Some c p1(1) chain [of ig2] by (simp add: submit_verified_def ok)
        next
          case False
          with w(2) have "wr = OpenFail \<or> wr = WriteFail 0" by blast
          from append_to_traceless [OF p1(2,3) assms(3) this] obtain ig2 where
            p2: "append_to sha enc wr b (shard_key b) pl ig1 = (Inl (IngestLog LogIo), ig2)"
            "files_hold sha enc dec L ig2" "ig_chain ig2 = v'" "ig_policies ig2 = ig_policies ig"
            using p1(4,5) by auto
          then show ?thesis using True False passes detail Some c p1(1) chain [of ig2]
            by (simp add: submit_verified_def faultless_def)
        qed
      qed
    qed
  qed
qed

lemma submit_verified_holds:
  assumes "files_hold sha enc dec L ig" "chain_holds sha enc acc ig" "buffered enc dec b"
  shows "\<exists>out ig'. submit_verified sha enc dec ec all_ok WriteOk b key now ig = (Inr out, ig') \<and>
    (outcome_accepted out \<longleftrightarrow> shard_detail b = None \<and>
       (\<exists>p. map_of (ig_policies ig) (producer_id b) = Some p \<and>
          accepts sha enc ec p key now (of_producer (producer_id b) acc) b)) \<and>
    files_hold sha enc dec (if outcome_accepted out then L(shard_key b := L (shard_key b) @ [b]) else L) ig' \<and>
    chain_holds sha enc (if outcome_accepted out then acc @ [b] else acc) ig' \<and> ig_policies ig' = ig_policies ig"
proof -
  from submit_verified_traceless [OF assms faults_none(1), of ec key now] obtain r ig' where
    r: "submit_verified sha enc dec ec all_ok WriteOk b key now ig = (r, ig')" "ig_policies ig' = ig_policies ig"
    and c: "case r of
       Inr out \<Rightarrow> (outcome_accepted out \<longleftrightarrow> passes sha enc ec b key now acc ig) \<and>
         files_hold sha enc dec (if outcome_accepted out then L(shard_key b := L (shard_key b) @ [b]) else L) ig' \<and>
         chain_holds sha enc (if outcome_accepted out then acc @ [b] else acc) ig'
     | Inl e \<Rightarrow> False"
    by (fastforce split: sum.splits)
  obtain out where "r = Inr out" using c by (cases r) simp_all
  with r c show ?thesis unfolding passes_def [symmetric] by (cases "outcome_accepted out") simp_all
qed

text \<open>
  A run of the ingest: registrations, openings and submissions, each under what the file system
  does at that moment. The history is what the callers were told of each batch: stored (an
  accepting verdict) or lost (an error of the log after the chain took it).
\<close>

datatype 'k ingest_op =
    RegisterOp producer_policy
  | OpenOp open_world string
  | SubmitOp open_world write_outcome batch "'k signer" i64

fun ingest_step ::
  "('c, 'y, 'k, 'p) pki \<Rightarrow> (bytes \<Rightarrow> digest) \<Rightarrow> (batch \<Rightarrow> bytes) \<Rightarrow> (bytes \<Rightarrow> 'x + batch) \<Rightarrow> ('p, 'k, 's) ecdsa \<Rightarrow>
     'c ingest \<times> (batch \<times> bool) list \<Rightarrow> 'k ingest_op \<Rightarrow> 'c ingest \<times> (batch \<times> bool) list" where
  "ingest_step pk sha enc dec ec (ig, hist) (RegisterOp p) = (register_producer p ig, hist)"
| "ingest_step pk sha enc dec ec (ig, hist) (OpenOp w key) = (snd (open_partition sha dec w key ig), hist)"
| "ingest_step pk sha enc dec ec (ig, hist) (SubmitOp w wr b signer now) =
     (case ingest_submit pk sha enc dec ec w wr b signer now ig of
        (Inr out, ig) \<Rightarrow> (ig, if outcome_accepted out then hist @ [(b, True)] else hist)
      | (Inl (IngestLog _), ig) \<Rightarrow> (ig, hist @ [(b, False)])
      | (Inl _, ig) \<Rightarrow> (ig, hist))"

definition stored :: "(batch \<times> bool) list \<Rightarrow> batch list" where
  "stored hist = map fst (filter snd hist)"

fun op_ok :: "(batch \<Rightarrow> bytes) \<Rightarrow> (bytes \<Rightarrow> 'x + batch) \<Rightarrow> 'k ingest_op \<Rightarrow> bool" where
  "op_ok enc dec (SubmitOp w wr b signer now) \<longleftrightarrow> buffered enc dec b \<and> traceless w wr"
| "op_ok enc dec (OpenOp w key) \<longleftrightarrow> log_read_ok w"
| "op_ok enc dec (RegisterOp p) \<longleftrightarrow> True"

definition of_shard :: "string \<Rightarrow> batch list \<Rightarrow> batch list" where
  "of_shard key = filter (\<lambda>b. shard_key b = key)"

definition run_inv ::
  "(bytes \<Rightarrow> digest) \<Rightarrow> (batch \<Rightarrow> bytes) \<Rightarrow> (bytes \<Rightarrow> 'x + batch) \<Rightarrow> 'c ingest \<times> (batch \<times> bool) list \<Rightarrow> bool" where
  "run_inv sha enc dec s \<longleftrightarrow>
     files_hold sha enc dec (\<lambda>key. of_shard key (stored (snd s))) (fst s) \<and> chain_holds sha enc (map fst (snd s)) (fst s) \<and>
     distinct (producer_ids (fst s)) \<and> producer_id ` fst ` set (snd s) \<subseteq> set (producer_ids (fst s))"

lemma of_shard_snoc: "(\<lambda>key. of_shard key (acc @ [b])) = (\<lambda>key. of_shard key acc)(shard_key b := of_shard (shard_key b) acc @ [b])"
  by (auto simp: of_shard_def)

lemma stored_snoc [simp]:
  "stored [] = []" "stored (hist @ [(b, True)]) = stored hist @ [b]" "stored (hist @ [(b, False)]) = stored hist"
  by (simp_all add: stored_def)

lemma producer_ids_registered:
  "set (producer_ids (register_producer p ig)) = insert (pol_producer_id p) (set (producer_ids ig))"
  "distinct (producer_ids ig) \<Longrightarrow> distinct (producer_ids (register_producer p ig))"
  using dom_update [of "pol_producer_id p" p "ig_policies ig"]
  by (auto simp: producer_ids_def register_producer_def distinct_update dom_map_of_conv_image_fst [symmetric])

lemma open_partition_holds:
  assumes "files_hold sha enc dec L ig" "log_read_ok w"
  shows "files_hold sha enc dec L (snd (open_partition sha dec w key ig)) \<and>
    ig_chain (snd (open_partition sha dec w key ig)) = ig_chain ig \<and>
    ig_policies (snd (open_partition sha dec w key ig)) = ig_policies ig"
proof (cases "map_of (ig_partitions ig) key")
  case None
  show ?thesis
  proof (cases "validate_path_component_id key")
    case (Inl e)
    then have "open_partition_file sha dec w key ig = (Inl (IngestLog (InvalidShardKey key e)), ig)"
      by (simp add: open_partition_file_def partition_open_def sanitize_shard_key_def)
    with None assms(1) show ?thesis by (simp add: open_partition_def)
  next
    case (Inr k)
    then have v: "validate_path_component_id key = Inr key" by (simp add: validate_Inr_iff)
    from open_partition_file_holds [OF assms(1) v None] open_partition_file_traceless [OF assms(1) v None assms(2)] None assms(1)
    show ?thesis by (cases "dir_ok w \<and> log_open_ok w") (auto simp: open_partition_def)
  qed
next
  case (Some pl)
  with assms show ?thesis by (simp add: open_partition_def)
qed

lemma submit_verified_inv:
  assumes "run_inv sha enc dec (ig, hist)" "buffered enc dec b" "traceless w wr"
  shows "\<exists>r ig'. submit_verified sha enc dec ec w wr b key now ig = (r, ig') \<and>
    run_inv sha enc dec (ig',
      case r of Inr out \<Rightarrow> if outcome_accepted out then hist @ [(b, True)] else hist | Inl e \<Rightarrow> hist @ [(b, False)]) \<and>
    (\<forall>e. r = Inl e \<longrightarrow> e = IngestLog LogIo)"
proof -
  have inv: "files_hold sha enc dec (\<lambda>key. of_shard key (stored hist)) ig" "chain_holds sha enc (map fst hist) ig"
    "distinct (producer_ids ig)" "producer_id ` fst ` set hist \<subseteq> set (producer_ids ig)"
    using assms(1) by (simp_all add: run_inv_def)
  from submit_verified_traceless [OF inv(1,2) assms(2,3), of ec key now] obtain r ig' where
    r: "submit_verified sha enc dec ec w wr b key now ig = (r, ig')" "ig_policies ig' = ig_policies ig"
    and c: "case r of
       Inr out \<Rightarrow> (outcome_accepted out \<longleftrightarrow> passes sha enc ec b key now (map fst hist) ig) \<and>
         files_hold sha enc dec (if outcome_accepted out
           then (\<lambda>key. of_shard key (stored hist))(shard_key b := of_shard (shard_key b) (stored hist) @ [b])
           else (\<lambda>key. of_shard key (stored hist))) ig' \<and>
         chain_holds sha enc (if outcome_accepted out then map fst hist @ [b] else map fst hist) ig'
     | Inl e \<Rightarrow> e = IngestLog LogIo \<and> \<not> faultless w wr \<and> passes sha enc ec b key now (map fst hist) ig \<and>
         files_hold sha enc dec (\<lambda>key. of_shard key (stored hist)) ig' \<and> chain_holds sha enc (map fst hist @ [b]) ig'"
    by blast
  have ids: "producer_ids ig' = producer_ids ig" using r(2) by (simp add: producer_ids_def)
  have known: "passes sha enc ec b key now (map fst hist) ig \<Longrightarrow> producer_id b \<in> set (producer_ids ig)"
    by (force simp: passes_def producer_ids_def dest: map_of_SomeD)
  show ?thesis
  proof (cases r)
    case (Inl e)
    then show ?thesis using r(1) c inv(3,4) known by (simp add: run_inv_def ids)
  next
    case (Inr out)
    then show ?thesis using r(1) c inv(3,4) known
      by (cases "outcome_accepted out") (simp_all add: run_inv_def ids of_shard_snoc)
  qed
qed

lemma run_inv_identity: "run_inv sha enc dec (ig\<lparr>ig_identity := c\<rparr>, hist) \<longleftrightarrow> run_inv sha enc dec (ig, hist)"
  by (simp add: run_inv_def chain_holds_def producer_ids_def files_hold_cong [of "ig\<lparr>ig_identity := c\<rparr>" ig])

lemma ingest_step_inv:
  assumes "run_inv sha enc dec s" "op_ok enc dec e"
  shows "run_inv sha enc dec (ingest_step pk sha enc dec ec s e)"
proof -
  obtain ig hist where s: "s = (ig, hist)" by fastforce
  have inv: "files_hold sha enc dec (\<lambda>key. of_shard key (stored hist)) ig" "chain_holds sha enc (map fst hist) ig"
    "distinct (producer_ids ig)" "producer_id ` fst ` set hist \<subseteq> set (producer_ids ig)"
    using assms(1) by (simp_all add: run_inv_def s)
  show ?thesis
  proof (cases e)
    case (RegisterOp p)
    then show ?thesis using inv producer_ids_registered(1) [of p ig] producer_ids_registered(2) [of ig p]
      by (auto simp: s run_inv_def register_producer_def chain_holds_def files_hold_cong [of "ig\<lparr>ig_policies := _\<rparr>" ig])
  next
    case (OpenOp w key)
    then show ?thesis using inv open_partition_holds [OF inv(1), of w key] assms(2)
      by (simp add: s run_inv_def producer_ids_def chain_holds_def)
  next
    case (SubmitOp w wr b signer now)
    have verified: "run_inv sha enc dec
        (case submit_verified sha enc dec ec w wr b key now (ig\<lparr>ig_identity := c\<rparr>) of
           (Inr out, ig) \<Rightarrow> (ig, if outcome_accepted out then hist @ [(b, True)] else hist)
         | (Inl (IngestLog _), ig) \<Rightarrow> (ig, hist @ [(b, False)])
         | (Inl _, ig) \<Rightarrow> (ig, hist))" for key c
    proof -
      have "run_inv sha enc dec (ig\<lparr>ig_identity := c\<rparr>, hist)" using assms(1) by (simp add: s run_inv_identity)
      from submit_verified_inv [OF this, of b w wr ec key now] assms(2) SubmitOp obtain r ig' where
        r: "submit_verified sha enc dec ec w wr b key now (ig\<lparr>ig_identity := c\<rparr>) = (r, ig')"
        "run_inv sha enc dec (ig',
          case r of Inr out \<Rightarrow> if outcome_accepted out then hist @ [(b, True)] else hist | Inl e \<Rightarrow> hist @ [(b, False)])"
        "\<forall>e. r = Inl e \<longrightarrow> e = IngestLog LogIo"
        by auto
      then show ?thesis by (cases r) simp_all
    qed
    show ?thesis
    proof (cases signer)
      case (SignerKey key)
      then show ?thesis using verified [of key "ig_identity ig"] by (simp add: s SubmitOp ingest_submit_def)
    next
      case (SignerCertificate leaf chain)
      show ?thesis
      proof (cases "ig_anchors ig")
        case None
        then show ?thesis using assms(1) by (simp add: s SubmitOp SignerCertificate ingest_submit_def)
      next
        case (Some anchors)
        obtain i c where v: "verify_identity pk leaf chain anchors now (ig_identity ig) = (i, c)" by fastforce
        show ?thesis
        proof (cases i)
          case (Inl x)
          then show ?thesis using assms(1) v Some by (simp add: s SubmitOp SignerCertificate ingest_submit_def run_inv_identity)
        next
          case (Inr x)
          then show ?thesis using verified [of "id_public_key x" c] v Some
            by (simp add: s SubmitOp SignerCertificate ingest_submit_def)
        qed
      qed
    qed
  qed
qed

interpretation ingest_machine: guarded_machine "ingest_step pk sha enc dec ec" "op_ok enc dec" "run_inv sha enc dec"
  for pk sha enc and dec :: "bytes \<Rightarrow> 'x + batch" and ec
  by unfold_locales (rule ingest_step_inv)

lemma new_producer_accepted: "rc_accepted (ps_counters (new_producer_state pid)) = 0"
  by (simp add: new_producer_state_def new_counters_def)

lemma new_ingest_inv: "run_inv sha enc dec (new_ingest Map.empty anchors, [])"
  by (simp add: run_inv_def new_ingest_def files_hold_def chain_holds_def of_shard_def contents_def producer_ids_def state_of_def
      new_producer_accepted)

lemma length_by_producer:
  "distinct ps \<Longrightarrow> producer_id ` set acc \<subseteq> set ps \<Longrightarrow>
   (\<Sum>p \<leftarrow> ps. of_nat (length (of_producer p acc)) :: u64) = of_nat (length acc)"
proof (induction acc)
  case (Cons b acc)
  have "(\<Sum>p \<leftarrow> ps. of_nat (length (of_producer p (b # acc)))) =
      (\<Sum>p \<leftarrow> ps. of_nat (length (of_producer p acc)) + (if p = producer_id b then 1 else 0 :: u64))"
    by (rule arg_cong [where f = sum_list], rule map_cong) auto
  also have "\<dots> = (\<Sum>p \<leftarrow> ps. of_nat (length (of_producer p acc))) + (\<Sum>p \<leftarrow> ps. if p = producer_id b then 1 else 0)"
    by (simp add: sum_list_addf)
  also have "(\<Sum>p \<leftarrow> ps. if p = producer_id b then 1 else 0 :: u64) = 1"
    using Cons.prems by (simp add: sum_list_distinct_conv_sum_set)
  finally show ?case using Cons by simp
qed simp

lemma files_hold_contents:
  assumes "files_hold sha enc dec L ig"
  shows "contents (ig_dir ig (key @ ''.avlog'')) = log_bytes sha GENESIS (map enc (L key))" "list_all (buffered enc dec) (L key)"
  using files_hold_key [OF assms refl, of key]
  by (cases "map_of (ig_partitions ig) key"; auto simp: partition_holds_def contents_def)+

lemma producer_counters_accepted:
  "rc_accepted (producer_counters pid ig) = rc_accepted (ps_counters (state_of (ig_chain ig) pid))"
  by (cases "ig_chain ig pid") (simp_all add: producer_counters_def verifier_counters_def state_of_def new_producer_state_def)

lemma producer_counters_total:
  "rc_accepted (producer_counters pid ig) + rejected_total_for (producer_counters pid ig) n =
     rc_total (ps_counters (state_of (ig_chain ig) pid)) + n"
  by (cases "ig_chain ig pid") (simp_all add: producer_counters_def verifier_counters_def state_of_def new_producer_state_def
      rejected_total_for_def rc_total_def)

lemma partition_for_chain:
  "partition_for sha dec w key ig = (r, ig') \<Longrightarrow> ig_chain ig' = ig_chain ig \<and> ig_shard_mismatch ig' = ig_shard_mismatch ig \<and>
     ig_identity ig' = ig_identity ig \<and> ig_policies ig' = ig_policies ig \<and> (\<forall>e. r = Inl e \<longrightarrow> (\<exists>l. e = IngestLog l))"
  by (auto simp: partition_for_def open_partition_file_def split: option.splits prod.splits sum.splits)

lemma append_to_chain:
  "append_to sha enc w b key pl ig = (r, ig') \<Longrightarrow> ig_chain ig' = ig_chain ig \<and> ig_shard_mismatch ig' = ig_shard_mismatch ig \<and>
     ig_identity ig' = ig_identity ig \<and> ig_policies ig' = ig_policies ig \<and> (\<forall>e. r = Inl e \<longrightarrow> (\<exists>l. e = IngestLog l))"
  by (auto simp: append_to_def map_err_eq_Inl split: prod.splits)

text \<open>The chain, whatever the file system does.\<close>

lemma submit_verified_chain:
  assumes "submit_verified sha enc dec ec w wr b key now ig = (r, ig')"
  shows "ig_identity ig' = ig_identity ig \<and> ig_policies ig' = ig_policies ig \<and>
   (case shard_detail b of
      Some d \<Rightarrow> ig_chain ig' = ig_chain ig \<and> (\<exists>v. r = Inr (Verdict v)) \<and>
        ig_shard_mismatch ig' = (ig_shard_mismatch ig)(producer_id b \<mapsto> shard_mismatch_count (producer_id b) ig + 1)
    | None \<Rightarrow> ig_shard_mismatch ig' = ig_shard_mismatch ig \<and>
       (case map_of (ig_policies ig) (producer_id b) of
          None \<Rightarrow> ig_chain ig' = ig_chain ig \<and> r = Inr (UnknownProducer (producer_id b))
        | Some p \<Rightarrow> ig_chain ig' = snd (chain_submit sha enc ec b p key now (ig_chain ig)) \<and>
            (r = Inr (Verdict (fst (chain_submit sha enc ec b p key now (ig_chain ig)))) \<or>
             vd_accepted (fst (chain_submit sha enc ec b p key now (ig_chain ig))) \<and> (\<exists>e. r = Inl (IngestLog e)))))"
proof (cases "shard_detail b")
  case (Some d)
  then show ?thesis using assms by (auto simp: submit_verified_def)
next
  case detail: None
  show ?thesis
  proof (cases "map_of (ig_policies ig) (producer_id b)")
    case None
    then show ?thesis using assms detail by (auto simp: submit_verified_def)
  next
    case (Some p)
    obtain vd v' where c: "chain_submit sha enc ec b p key now (ig_chain ig) = (vd, v')" by fastforce
    show ?thesis
    proof (cases "vd_accepted vd")
      case False
      then show ?thesis using assms detail Some c by (auto simp: submit_verified_def)
    next
      case True
      obtain r1 ig1 where p1: "partition_for sha dec w (shard_key b) (ig\<lparr>ig_chain := v'\<rparr>) = (r1, ig1)" by fastforce
      note f1 = partition_for_chain [OF p1]
      show ?thesis
      proof (cases r1)
        case (Inl e)
        then show ?thesis using assms detail Some c True p1 f1 by (auto simp: submit_verified_def)
      next
        case (Inr pl)
        obtain r2 ig2 where p2: "append_to sha enc wr b (shard_key b) pl ig1 = (r2, ig2)" by fastforce
        note f2 = append_to_chain [OF p2]
        show ?thesis using assms detail Some c True p1 f1 Inr p2 f2
          by (cases r2) (auto simp: submit_verified_def)
      qed
    qed
  qed
qed

lemma accepted_then_duplicate:
  assumes "vd_accepted (fst (chain_submit sha enc ec b p key now v))"
  shows "vd_accepted (fst (chain_submit sha enc ec b q key now' (snd (chain_submit sha enc ec b p key now v)))) = False"
    and "vd_rejection (fst (chain_submit sha enc ec b q key now' (snd (chain_submit sha enc ec b p key now v)))) = RejDuplicate"
proof -
  have fd: "first_defect sha enc ec p key now (state_of v (producer_id b)) b = None"
    using assms by (auto simp: chain_submit_def state_of_def Let_def split: option.splits)
  then have sig: "signature b \<noteq> []" "\<exists>d. verify_batch sha enc ec b key = Inr d"
    by (auto simp: first_defect_def split: if_splits sum.splits verify_error.splits)
  let ?st = "state_of (snd (chain_submit sha enc ec b p key now v)) (producer_id b)"
  have st: "last_accepted_sequence ?st = Some (batch_seq b)" "batch_seq b \<in> seen_sequences ?st"
    using fd by (simp_all add: chain_submit_def state_of_def Let_def)
  then have "first_defect sha enc ec q key now' ?st b = Some (RejDuplicate, AlreadyAccepted (batch_seq b) (producer_id b))"
    using sig by (auto simp: first_defect_def Let_def)
  then show "vd_accepted (fst (chain_submit sha enc ec b q key now' (snd (chain_submit sha enc ec b p key now v)))) = False"
    "vd_rejection (fst (chain_submit sha enc ec b q key now' (snd (chain_submit sha enc ec b p key now v)))) = RejDuplicate"
    unfolding chain_submit_def [of _ _ _ _ q] state_of_def by (simp_all add: Let_def split del: option.split)
qed

section \<open>Properties\<close>

text \<open>
  C4: with a working disk the ingest implements its specification, a list of accepted batches
  and a list per partition: it never fails, it accepts a batch exactly when its shard key is
  usable and shared by its measurements, its producer has a policy and the chain accepts it
  after that producer's earlier batches, and then and only then the batch joins the list of
  the partition it names. Every partition file, open or not, holds its list.
\<close>

theorem ingest_submit_refines:
  fixes ec :: "('p, 'k, 's) ecdsa"
  assumes "files_hold sha enc dec L ig" "chain_holds sha enc acc ig" "buffered enc dec b" "signer_gives pk now signer ig key"
    and "ingest_submit pk sha enc dec ec all_ok WriteOk b signer now ig = (r, ig')"
  shows "\<exists>out. r = Inr out \<and>
    (outcome_accepted out \<longleftrightarrow>
       validate_path_component_id (shard_key b) = Inr (shard_key b) \<and>
       list_all (\<lambda>m. meas_shard_key m = shard_key b) (measurements b) \<and>
       (\<exists>p. map_of (ig_policies ig) (producer_id b) = Some p \<and>
          accepts sha enc ec p key now (of_producer (producer_id b) acc) b)) \<and>
    files_hold sha enc dec (if outcome_accepted out then L(shard_key b := L (shard_key b) @ [b]) else L) ig' \<and>
    chain_holds sha enc (if outcome_accepted out then acc @ [b] else acc) ig' \<and> ig_policies ig' = ig_policies ig"
proof -
  from submit_signer_gives [OF assms(4), of sha enc dec ec all_ok WriteOk b] assms(5) obtain c where
    s: "submit_verified sha enc dec ec all_ok WriteOk b key now (ig\<lparr>ig_identity := c\<rparr>) = (r, ig')"
    by auto
  have "files_hold sha enc dec L (ig\<lparr>ig_identity := c\<rparr>)" "chain_holds sha enc acc (ig\<lparr>ig_identity := c\<rparr>)"
    using assms(1,2) by (simp_all add: chain_holds_def files_hold_cong [of "ig\<lparr>ig_identity := c\<rparr>" ig])
  from submit_verified_holds [OF this assms(3), of ec key now] s show ?thesis
    by (simp add: shard_detail_None conj_assoc)
qed

text \<open>
  C12: over any run of registrations, openings and submissions (by key or by certificate) on a
  fresh directory, where directories, files and writes may fail at any moment but files that are there can be
  read and a failed write leaves no bytes: every partition file is exactly the batches of its
  shard whose submission was answered with acceptance, in that order; \<open>verify_all\<close> finds every
  open partition intact with that many records; and the evidence's accepted total counts
  those batches and also the ones whose submission the log failed.
\<close>

theorem ingest_ledger_complete:
  assumes "list_all (op_ok enc dec) ops"
    and "foldl (ingest_step pk sha enc dec ec) (new_ingest Map.empty anchors, []) ops = (ig, hist)"
  shows "(\<forall>key. contents (ig_dir ig (key @ ''.avlog'')) = log_bytes sha GENESIS (map enc (of_shard key (stored hist)))) \<and>
    list_all (\<lambda>(key, v). v = \<lparr>pv_producer_id = key, pv_ok = True, pv_checked = of_nat (length (of_shard key (stored hist))),
      pv_broken_at = 0, pv_detail = PartIntact\<rparr>) (verify_all sha (\<lambda>_. True) ig) \<and>
    ev_accepted_total (evidence ig) = of_nat (length (stored hist)) + of_nat (length (filter (\<lambda>h. \<not> snd h) hist))"
proof -
  have "run_inv sha enc dec (ig, hist)"
    using ingest_machine.run_inv [OF new_ingest_inv assms(1), of sha pk ec anchors] assms(2) by simp
  then have inv: "files_hold sha enc dec (\<lambda>key. of_shard key (stored hist)) ig" "chain_holds sha enc (map fst hist) ig"
    "distinct (producer_ids ig)" "producer_id ` set (map fst hist) \<subseteq> set (producer_ids ig)"
    by (simp_all add: run_inv_def)
  have "partition_verify sha True pl (ig_dir ig) = Inr \<lparr>pv_producer_id = key, pv_ok = True,
      pv_checked = of_nat (length (of_shard key (stored hist))), pv_broken_at = 0, pv_detail = PartIntact\<rparr>"
    if "(key, pl) \<in> set (ig_partitions ig)" for key pl
  proof -
    have "map_of (ig_partitions ig) key = Some pl" using inv(1) that by (simp add: files_hold_def)
    from partition_intact files_hold_key [OF inv(1) this] show ?thesis by fastforce
  qed
  moreover have "ev_accepted_total (evidence ig) = (\<Sum>p \<leftarrow> producer_ids ig. of_nat (length (of_producer p (map fst hist))))"
    using inv(2) by (simp add: evidence_def producer_counters_accepted chain_holds_def)
  moreover have "length (stored hist) + length (filter (\<lambda>h. \<not> snd h) hist) = length (map fst hist)"
    using sum_length_filter_compl [of snd hist] by (simp add: stored_def)
  then have "of_nat (length (stored hist)) + of_nat (length (filter (\<lambda>h. \<not> snd h) hist)) = (of_nat (length (map fst hist)) :: u64)"
    by (metis of_nat_add)
  ultimately show ?thesis
    using files_hold_contents(1) [OF inv(1)] length_by_producer [OF inv(3,4)]
    by (auto simp: verify_all_def list_all_iff)
qed

text \<open>
  Whatever the file system does, a submission moves exactly one count of its producer when
  it gets a verdict or fails in the log, none when it is turned away before (an unknown
  producer, an identity that is refused), and no count of another producer; a presented
  certificate moves exactly one identity count.
\<close>

theorem every_verdict_counted:
  assumes "ingest_submit pk sha enc dec ec w wr b signer now ig = (r, ig')"
  shows "rc_accepted (producer_counters pid ig') +
      rejected_total_for (producer_counters pid ig') (shard_mismatch_count pid ig') =
    rc_accepted (producer_counters pid ig) + rejected_total_for (producer_counters pid ig) (shard_mismatch_count pid ig) +
      (if producer_id b = pid \<and> ((\<exists>v. r = Inr (Verdict v)) \<or> (\<exists>e. r = Inl (IngestLog e))) then 1 else 0) \<and>
    ic_total (ig_identity ig') =
      ic_total (ig_identity ig) + (case signer of SignerKey _ \<Rightarrow> 0 | SignerCertificate _ _ \<Rightarrow> if ig_anchors ig = None then 0 else 1)"
proof -
  let ?total = "\<lambda>ig. rc_total (ps_counters (state_of (ig_chain ig) pid)) + shard_mismatch_count pid ig"
  have verified: "?total ig2 = ?total ig1 +
      (if producer_id b = pid \<and> ((\<exists>v. r = Inr (Verdict v)) \<or> (\<exists>e. r = Inl (IngestLog e))) then 1 else 0) \<and> ig_identity ig2 = ig_identity ig1"
    if "submit_verified sha enc dec ec w wr b key now ig1 = (r, ig2)" for key ig1 ig2
    using submit_verified_chain [OF that] chain_submit_counted [of sha enc ec b _ key now "ig_chain ig1" pid]
    by (auto simp: shard_mismatch_count_def split: option.splits)
  show ?thesis
  proof (cases signer)
    case (SignerKey key)
    then show ?thesis using verified [of key ig ig'] assms by (simp add: ingest_submit_def producer_counters_total)
  next
    case (SignerCertificate leaf chain)
    show ?thesis
    proof (cases "ig_anchors ig")
      case None
      then show ?thesis using SignerCertificate assms by (auto simp: ingest_submit_def producer_counters_total)
    next
      case (Some anchors)
      obtain i c where v: "verify_identity pk leaf chain anchors now (ig_identity ig) = (i, c)" by fastforce
      have c: "ic_total c = ic_total (ig_identity ig) + 1" by (rule verify_identity_counted [OF v])
      show ?thesis
      proof (cases i)
        case (Inl e)
        then show ?thesis using SignerCertificate Some v c assms
          by (auto simp: ingest_submit_def producer_counters_total shard_mismatch_count_def)
      next
        case (Inr x)
        then show ?thesis using SignerCertificate Some v c assms verified [of "id_public_key x" "ig\<lparr>ig_identity := c\<rparr>" ig']
          by (simp add: ingest_submit_def producer_counters_total shard_mismatch_count_def)
      qed
    qed
  qed
qed

text \<open>
  The append comes after the chain verifier, so a submission that fails in the log (the
  partition cannot be opened, or its write fails) has already advanced the producer's chain:
  the same batch is refused as a duplicate from then on, whoever retries it and however well
  the disk works again, and no later submission of it touches the log.
\<close>

theorem failed_append_strands_batch:
  assumes "ingest_submit pk sha enc dec ec w wr b (SignerKey key) now ig = (Inl (IngestLog e), ig')"
    and "ingest_submit pk sha enc dec ec w' wr' b (SignerKey key) now' ig' = (r, ig'')"
  shows "\<exists>v. r = Inr (Verdict v) \<and> \<not> vd_accepted v \<and> vd_rejection v = RejDuplicate \<and> ig_dir ig'' = ig_dir ig'"
proof -
  have s: "submit_verified sha enc dec ec w wr b key now ig = (Inl (IngestLog e), ig')"
    using assms(1) by (simp add: ingest_submit_def)
  from submit_verified_chain [OF s] obtain p where p: "shard_detail b = None" "map_of (ig_policies ig) (producer_id b) = Some p"
    "vd_accepted (fst (chain_submit sha enc ec b p key now (ig_chain ig)))"
    "ig_chain ig' = snd (chain_submit sha enc ec b p key now (ig_chain ig))" "ig_policies ig' = ig_policies ig"
    by (auto split: option.splits)
  note d = accepted_then_duplicate [OF p(3), of p now']
  show ?thesis using assms(2) p d
    by (auto simp: ingest_submit_def submit_verified_def split: prod.splits)
qed

text \<open>
  A restarted ingest starts with an empty chain verifier and does not read the producers'
  positions back from the logs: a batch that begins a producer's chain and already lies in its
  partition is accepted a second time, as long as it is fresh, and its partition then holds it
  twice.
\<close>

theorem restart_accepts_replay:
  assumes "files_hold sha enc dec L ig" "b \<in> set (L (shard_key b))" "buffered enc dec b" "shard_detail b = None"
    and "pol_producer_id p = producer_id b" "accepts sha enc ec p key now [] b"
    and "ingest_submit pk sha enc dec ec all_ok WriteOk b (SignerKey key) now (register_producer p (new_ingest (ig_dir ig) anchors)) = (r, ig')"
  shows "\<exists>out. r = Inr out \<and> outcome_accepted out \<and>
    contents (ig_dir ig' (shard_key b @ ''.avlog'')) = log_bytes sha GENESIS (map enc (L (shard_key b) @ [b])) \<and>
    2 \<le> count_list (L (shard_key b) @ [b]) b"
proof -
  let ?ig = "register_producer p (new_ingest (ig_dir ig) anchors)"
  have f: "files_hold sha enc dec L ?ig"
    using files_hold_contents [OF assms(1)] by (simp add: files_hold_def register_producer_def new_ingest_def)
  have c: "chain_holds sha enc [] ?ig"
    by (simp add: chain_holds_def register_producer_def new_ingest_def state_of_def new_producer_accepted)
  have pol: "map_of (ig_policies ?ig) (producer_id b) = Some p"
    by (simp add: register_producer_def new_ingest_def assms(5))
  have s: "submit_verified sha enc dec ec all_ok WriteOk b key now ?ig = (r, ig')"
    using assms(7) by (simp add: ingest_submit_def)
  obtain out where out: "r = Inr out" "outcome_accepted out"
    "files_hold sha enc dec (L(shard_key b := L (shard_key b) @ [b])) ig'"
    using submit_verified_holds [OF f c assms(3), of ec key now] s assms(4,6) pol by auto
  have "0 < count_list (L (shard_key b)) b" using assms(2) by (metis count_list_0_iff gr0I)
  with out files_hold_contents(1) [OF out(3), of "shard_key b"] show ?thesis by simp
qed

section \<open>Witnesses\<close>

text \<open>An ingest on a fresh directory that knows the sample producer.\<close>

definition sample_ingest :: "unit ingest" where
  "sample_ingest = register_producer sample_policy (new_ingest Map.empty None)"

abbreviation sample_codec :: "bytes \<Rightarrow> unit + batch" where
  "sample_codec \<equiv> sample_dec sample_edge_batch"

lemma sample_ingest_holds:
  "files_hold sha enc dec (\<lambda>_. []) sample_ingest" "chain_holds sha enc [] sample_ingest"
  by (simp_all add: sample_ingest_def register_producer_def new_ingest_def files_hold_def chain_holds_def contents_def state_of_def
      new_producer_accepted)

lemma sample_shard: "shard_detail sample_edge_batch = None" "shard_key sample_edge_batch = ''s1''" "producer_id sample_edge_batch = ''p1''"
  by (simp_all add: shard_detail_None sample_signed_def sample_batch_def sample_key_valid)

lemma sample_registered: "map_of (ig_policies sample_ingest) ''p1'' = Some sample_policy"
  by (simp add: sample_ingest_def register_producer_def new_ingest_def sample_policy_def)

theorem ingest_submit_refines_witness:
  "\<exists>out ig'. ingest_submit sample_pki (\<lambda>_. 0) (\<lambda>_. [1]) sample_codec sample_ecdsa all_ok WriteOk sample_edge_batch (SignerKey ()) 200
       sample_ingest = (Inr out, ig') \<and> outcome_accepted out \<and>
     files_hold (\<lambda>_. 0) (\<lambda>_. [1]) sample_codec ((\<lambda>_. [])(''s1'' := [sample_edge_batch])) ig'"
proof -
  obtain r ig' where c: "ingest_submit sample_pki (\<lambda>_. 0) (\<lambda>_. [1]) sample_codec sample_ecdsa all_ok WriteOk sample_edge_batch
      (SignerKey ()) 200 sample_ingest = (r, ig')"
    by fastforce
  have "signer_gives sample_pki 200 (SignerKey ()) sample_ingest ()" by (simp add: signer_gives_def)
  from ingest_submit_refines [OF sample_ingest_holds sample_buffered this c] show ?thesis
    using c sample_shard sample_registered sample_edge_batch_accepted by (auto simp: shard_detail_None)
qed

text \<open>One batch is stored; a second partition then cannot be opened.\<close>

definition sample_ops :: "unit ingest_op list" where
  "sample_ops =
     [RegisterOp sample_policy, SubmitOp all_ok WriteOk sample_edge_batch (SignerKey ()) 200,
      OpenOp (all_ok\<lparr>log_open_ok := False\<rparr>) ''s2'']"

theorem ingest_ledger_complete_witness:
  "\<exists>ig. foldl (ingest_step sample_pki (\<lambda>_. 0) (\<lambda>_. [1]) sample_codec sample_ecdsa) (new_ingest Map.empty None, []) sample_ops =
       (ig, [(sample_edge_batch, True)]) \<and>
     contents (ig_dir ig ''s1.avlog'') = log_bytes (\<lambda>_. 0) GENESIS [[1]] \<and> ev_accepted_total (evidence ig) = 1"
proof -
  obtain out ig1 where sub: "submit_verified (\<lambda>_. 0) (\<lambda>_. [1]) sample_codec sample_ecdsa all_ok WriteOk sample_edge_batch () 200 sample_ingest =
      (Inr out, ig1)" "outcome_accepted out"
    using submit_verified_holds [OF sample_ingest_holds sample_buffered [of sample_edge_batch], where sha = "\<lambda>_. 0" and ec = sample_ecdsa
      and key = "()" and now = 200] sample_shard sample_registered sample_edge_batch_accepted by auto
  then obtain ig where run: "foldl (ingest_step sample_pki (\<lambda>_. 0) (\<lambda>_. [1]) sample_codec sample_ecdsa) (new_ingest Map.empty None, [])
      sample_ops = (ig, [(sample_edge_batch, True)])"
    by (simp add: sample_ops_def ingest_submit_def flip: sample_ingest_def)
  have ok: "list_all (op_ok (\<lambda>_. [1]) sample_codec) sample_ops"
    by (simp add: sample_ops_def sample_buffered) (simp add: all_ok_def)
  have one: "stored [(sample_edge_batch, True)] = [sample_edge_batch]" "of_shard ''s1'' [sample_edge_batch] = [sample_edge_batch]"
    by (simp_all add: stored_def of_shard_def sample_shard)
  from ingest_ledger_complete [OF ok run] have
    "contents (ig_dir ig (''s1'' @ ''.avlog'')) = log_bytes (\<lambda>_. 0) GENESIS (map (\<lambda>_. [1]) (of_shard ''s1'' (stored [(sample_edge_batch, True)])))"
    "ev_accepted_total (evidence ig) = of_nat (length (stored [(sample_edge_batch, True)])) +
       of_nat (length (filter (\<lambda>h. \<not> snd h) [(sample_edge_batch, True)]))"
    by blast+
  with run one show ?thesis by simp
qed

theorem every_verdict_counted_witness:
  "\<exists>r ig'. ingest_submit sample_pki (\<lambda>_. 0) (\<lambda>_. [1]) sample_codec sample_ecdsa all_ok OpenFail (sample_edge_batch\<lparr>shard_key := ''..''\<rparr>)
       (SignerKey ()) 200 sample_ingest = (r, ig') \<and> shard_mismatch_count ''p1'' ig' = 1 \<and>
     rc_accepted (producer_counters ''p1'' ig') + rejected_total_for (producer_counters ''p1'' ig') (shard_mismatch_count ''p1'' ig') =
     rc_accepted (producer_counters ''p1'' sample_ingest) +
       rejected_total_for (producer_counters ''p1'' sample_ingest) (shard_mismatch_count ''p1'' sample_ingest) + 1"
proof -
  let ?b = "sample_edge_batch\<lparr>shard_key := ''..''\<rparr>"
  have "validate_path_component_id ''..'' = Inl (BadFirstByte 46)"
    by (simp add: validate_path_component_id_def string_bytes_def allowed_byte_def is_ascii_alphanumeric_def word_le_nat_alt)
  then have d: "shard_detail ?b = Some (ShardUnusable ''..'' (BadFirstByte 46))" by (simp add: shard_detail_def)
  obtain r ig' where c: "ingest_submit sample_pki (\<lambda>_. 0) (\<lambda>_. [1]) sample_codec sample_ecdsa all_ok OpenFail ?b (SignerKey ()) 200
      sample_ingest = (r, ig')"
    by fastforce
  have "shard_mismatch_count ''p1'' sample_ingest = 0"
    by (simp add: shard_mismatch_count_def sample_ingest_def register_producer_def new_ingest_def)
  moreover have pid: "producer_id ?b = ''p1''" by (simp add: sample_shard(3))
  ultimately have v: "\<exists>v. r = Inr (Verdict v)" "shard_mismatch_count ''p1'' ig' = 1"
    using c by (auto simp: ingest_submit_def submit_verified_def d shard_mismatch_count_def)
  have "rc_accepted (producer_counters ''p1'' ig') + rejected_total_for (producer_counters ''p1'' ig') (shard_mismatch_count ''p1'' ig') =
     rc_accepted (producer_counters ''p1'' sample_ingest) +
       rejected_total_for (producer_counters ''p1'' sample_ingest) (shard_mismatch_count ''p1'' sample_ingest) + 1"
    using every_verdict_counted [OF c, of "''p1''"] v(1) pid by (simp only: simp_thms if_True)
  with c v(2) show ?thesis by blast
qed

theorem failed_append_strands_batch_witness:
  "\<exists>e ig' v ig''. ingest_submit sample_pki (\<lambda>_. 0) (\<lambda>_. [1]) sample_codec sample_ecdsa all_ok (WriteFail 3) sample_edge_batch (SignerKey ()) 200
       sample_ingest = (Inl (IngestLog e), ig') \<and>
     ingest_submit sample_pki (\<lambda>_. 0) (\<lambda>_. [1]) sample_codec sample_ecdsa all_ok WriteOk sample_edge_batch (SignerKey ()) 200 ig' =
       (Inr (Verdict v), ig'') \<and> vd_rejection v = RejDuplicate"
proof -
  obtain r ig' where c: "ingest_submit sample_pki (\<lambda>_. 0) (\<lambda>_. [1]) sample_codec sample_ecdsa all_ok (WriteFail 3) sample_edge_batch
      (SignerKey ()) 200 sample_ingest = (r, ig')"
    by fastforce
  have acc: "vd_accepted (fst (chain_submit (\<lambda>_. 0) (\<lambda>_. [1]) sample_ecdsa sample_edge_batch sample_policy () 200 (ig_chain sample_ingest)))"
    using chain_submit_holds(1) [OF sample_ingest_holds(2)] sample_edge_batch_accepted by (metis filter.simps(1) prod.collapse)
  obtain vd v' where ch: "chain_submit (\<lambda>_. 0) (\<lambda>_. [1]) sample_ecdsa sample_edge_batch sample_policy () 200 (ig_chain sample_ingest) = (vd, v')"
    by fastforce
  have "files_hold (\<lambda>_. 0) (\<lambda>_. [1]) sample_codec (\<lambda>_. []) (sample_ingest\<lparr>ig_chain := v'\<rparr>)"
    using sample_ingest_holds(1) by (simp add: files_hold_cong [of "sample_ingest\<lparr>ig_chain := v'\<rparr>" sample_ingest])
  from partition_for_holds [OF this sample_key_valid] obtain pl ig1 where
    p: "partition_for (\<lambda>_. 0) sample_codec all_ok ''s1'' (sample_ingest\<lparr>ig_chain := v'\<rparr>) = (Inr pl, ig1)"
    by blast
  have "\<exists>e. r = Inl (IngestLog e)"
    using c acc ch p sample_shard sample_registered
    by (auto simp: ingest_submit_def submit_verified_def append_to_def partition_append_def append_file_def Let_def
        split: prod.splits)
  with failed_append_strands_batch [where w = all_ok and wr = "WriteFail 3" and ig = sample_ingest] c show ?thesis
    by (metis prod.collapse)
qed

theorem restart_accepts_replay_witness:
  "\<exists>(ig :: unit ingest) out ig'. files_hold (\<lambda>_. 0) (\<lambda>_. [1]) sample_codec ((\<lambda>_. [])(''s1'' := [sample_edge_batch])) ig \<and>
     ingest_submit sample_pki (\<lambda>_. 0) (\<lambda>_. [1]) sample_codec sample_ecdsa all_ok WriteOk sample_edge_batch (SignerKey ()) 200
       (register_producer sample_policy (new_ingest (ig_dir ig) None)) = (Inr out, ig') \<and> outcome_accepted out"
proof -
  from submit_verified_holds [OF sample_ingest_holds sample_buffered [of sample_edge_batch], where sha = "\<lambda>_. 0" and ec = sample_ecdsa
      and key = "()" and now = 200] sample_shard sample_registered sample_edge_batch_accepted
  obtain ig where f: "files_hold (\<lambda>_. 0) (\<lambda>_. [1]) sample_codec ((\<lambda>_. [])(''s1'' := [sample_edge_batch])) (ig :: unit ingest)"
    by auto
  obtain r ig' where c: "ingest_submit sample_pki (\<lambda>_. 0) (\<lambda>_. [1]) sample_codec sample_ecdsa all_ok WriteOk sample_edge_batch (SignerKey ()) 200
      (register_producer sample_policy (new_ingest (ig_dir ig) None)) = (r, ig')"
    by fastforce
  have "pol_producer_id sample_policy = producer_id sample_edge_batch" by (simp add: sample_policy_def sample_shard)
  moreover have "sample_edge_batch \<in> set (((\<lambda>_. [])(''s1'' := [sample_edge_batch])) (shard_key sample_edge_batch))"
    by (simp add: sample_shard)
  ultimately obtain out where "r = Inr out" "outcome_accepted out"
    using restart_accepts_replay [OF f _ sample_buffered sample_shard(1) _ sample_edge_batch_accepted c] by blast
  with f c show ?thesis by blast
qed

end
