(* ===== verification/Ingest_Service.thy ===== *)
theory Ingest_Service
  imports Ingest_Core
begin

text \<open>
  \<open>av-ingest\<close>, \<open>service.rs\<close> and \<open>forwarded_cert.rs\<close>: the forwarded-certificate header, the
  manifest handshake and the submission of batches. Each handler is a function of the request,
  the clock reading and the service's state; the items of several streams and the announces
  may interleave in any order, which a run of \<open>service_op\<close>s covers.
\<close>

section \<open>The forwarded certificate\<close>

text \<open>\<open>fold_tab_per_line_artifact\<close>: a tab right after a line end goes.\<close>

fun fold_tabs :: "bool \<Rightarrow> bytes \<Rightarrow> bytes" where
  "fold_tabs after_newline [] = []"
| "fold_tabs after_newline (b # bs) =
     (if b = 9 \<and> after_newline then fold_tabs False bs else b # fold_tabs (b = 10) bs)"

definition fold_tab_per_line_artifact :: "bytes \<Rightarrow> bytes" where
  "fold_tab_per_line_artifact bs = (if 9 \<notin> set bs then bs else fold_tabs False bs)"

fun decode_loop :: "string \<Rightarrow> bytes option" where
  "decode_loop [] = Some []"
| "decode_loop (c # s) =
     (if c = CHR ''%'' then
        (case s of
           hi # lo # s' \<Rightarrow>
             (case (hex_val hi, hex_val lo) of
                (Some h, Some l) \<Rightarrow> map_option (\<lambda>bs. of_nat (16 * h + l) # bs) (decode_loop s')
              | _ \<Rightarrow> None)
         | _ \<Rightarrow> None)
      else map_option (\<lambda>bs. of_nat (of_char c) # bs) (decode_loop s))"

definition percent_decode :: "string \<Rightarrow> bytes option" where
  "percent_decode s = map_option fold_tab_per_line_artifact (decode_loop s)"

section \<open>State\<close>

record manifest =
  mf_producer_id :: string
  mf_label :: "label option"
  mf_clearance :: string
  mf_leaf_fingerprint_sha256 :: string
  mf_rest :: bytes

datatype manifest_refusal =
    RefUnspecified | RefUnknownPlugin | RefLabelNotPermitted | RefClearanceAboveLadder | RefManifestMismatch | RefIdentityRefused

datatype ack_detail =
    NoHeaderText | UndecodableHeaderText | IdentityText ingest_error | FingerprintText string string | NotKnownText string
  | LabelNotListed label | ClearanceText policy_error | MismatchText string | NoKeyText string | AckAccepted

record manifest_ack =
  ack_accepted :: bool
  ack_refusal :: manifest_refusal
  ack_text :: ack_detail
  ack_chain_head :: bytes

record 'k ingest_config =
  cfg_known_plugins :: "string list option"
  cfg_permitted_labels :: "label list option"
  cfg_clearance_ladder :: "string list"
  cfg_max_age_ns :: i64
  cfg_require_client_certificate :: bool
  cfg_verify_keys :: "string \<rightharpoonup> 'k"
  cfg_intermediate_chain_pem :: "bytes option"

definition new_ingest_config :: "string list \<Rightarrow> i64 \<Rightarrow> 'k ingest_config" where
  "new_ingest_config ladder age =
     \<lparr>cfg_known_plugins = None, cfg_permitted_labels = None, cfg_clearance_ladder = ladder, cfg_max_age_ns = age,
      cfg_require_client_certificate = True, cfg_verify_keys = Map.empty, cfg_intermediate_chain_pem = None\<rparr>"

record 'k handshake =
  hs_manifests :: "string \<rightharpoonup> manifest"
  hs_verify_keys :: "string \<rightharpoonup> 'k"

record ('c, 'k) edge_service =
  es_ingest :: "'c ingest"
  es_handshake :: "'k handshake"
  es_config :: "'k ingest_config"

definition new_edge_service :: "log_dir \<Rightarrow> 'c trust_anchors option \<Rightarrow> 'k ingest_config \<Rightarrow> ('c, 'k) edge_service" where
  "new_edge_service dir anchors cfg =
     \<lparr>es_ingest = new_ingest dir anchors, es_handshake = \<lparr>hs_manifests = Map.empty, hs_verify_keys = Map.empty\<rparr>,
      es_config = cfg\<rparr>"

section \<open>Announce\<close>

definition label_matches :: "label \<Rightarrow> label \<Rightarrow> bool" where
  "label_matches a b \<longleftrightarrow> (if marking a \<noteq> marking b then False else sort (caveats a) = sort (caveats b))"

definition refuse_manifest :: "manifest_refusal \<Rightarrow> ack_detail \<Rightarrow> manifest_ack" where
  "refuse_manifest r d = \<lparr>ack_accepted = False, ack_refusal = r, ack_text = d, ack_chain_head = []\<rparr>"

text \<open>The identity part of \<open>announce\<close>: a refusal, or the key the certificate gives (none is required without one).\<close>

definition announce_identity ::
  "('c, 'y, 'k, 'p) pki \<Rightarrow> string option \<Rightarrow> manifest \<Rightarrow> i64 \<Rightarrow> ('c, 'k) edge_service \<Rightarrow>
     (manifest_ack + 'k option) \<times> ('c, 'k) edge_service" where
  "announce_identity pk header m now svc =
     (if \<not> cfg_require_client_certificate (es_config svc) then (Inr None, svc)
      else
        case header of
          None \<Rightarrow> (Inl (refuse_manifest RefIdentityRefused NoHeaderText), svc)
        | Some escaped \<Rightarrow>
            (case percent_decode escaped of
               None \<Rightarrow> (Inl (refuse_manifest RefIdentityRefused UndecodableHeaderText), svc)
             | Some leaf \<Rightarrow>
                 (case verify_identity_once pk leaf (cfg_intermediate_chain_pem (es_config svc)) now (es_ingest svc) of
                    (Inl e, ig) \<Rightarrow> (Inl (refuse_manifest RefIdentityRefused (IdentityText e)), svc\<lparr>es_ingest := ig\<rparr>)
                  | (Inr i, ig) \<Rightarrow>
                      if mf_leaf_fingerprint_sha256 m \<noteq> [] \<and> mf_leaf_fingerprint_sha256 m \<noteq> id_fingerprint_sha256 i
                      then (Inl (refuse_manifest RefIdentityRefused
                              (FingerprintText (mf_leaf_fingerprint_sha256 m) (id_fingerprint_sha256 i))), svc\<lparr>es_ingest := ig\<rparr>)
                      else (Inr (Some (id_public_key i)), svc\<lparr>es_ingest := ig\<rparr>))))"

definition declared_label :: "manifest \<Rightarrow> label" where
  "declared_label m = (case mf_label m of Some l \<Rightarrow> l | None \<Rightarrow> default_label)"

definition manifest_policy :: "'k ingest_config \<Rightarrow> manifest \<Rightarrow> policy_error + producer_policy" where
  "manifest_policy cfg m =
     new_policy (mf_producer_id m) (marking (declared_label m)) (caveats (declared_label m)) (cfg_clearance_ladder cfg)
       (mf_clearance m) (cfg_max_age_ns cfg)"

definition announce ::
  "('c, 'y, 'k, 'p) pki \<Rightarrow> string option \<Rightarrow> manifest \<Rightarrow> i64 \<Rightarrow> ('c, 'k) edge_service \<Rightarrow> manifest_ack \<times> ('c, 'k) edge_service" where
  "announce pk header m now svc =
     (case announce_identity pk header m now svc of
        (Inl ack, svc) \<Rightarrow> (ack, svc)
      | (Inr cert_key, svc) \<Rightarrow>
          let cfg = es_config svc; pid = mf_producer_id m; hs = es_handshake svc in
          if (case cfg_known_plugins cfg of Some known \<Rightarrow> pid \<notin> set known | None \<Rightarrow> False)
          then (refuse_manifest RefUnknownPlugin (NotKnownText pid), svc)
          else if (case cfg_permitted_labels cfg of
                     Some permitted \<Rightarrow> \<not> list_ex (\<lambda>l. label_matches l (declared_label m)) permitted
                   | None \<Rightarrow> False)
          then (refuse_manifest RefLabelNotPermitted (LabelNotListed (declared_label m)), svc)
          else
            case manifest_policy cfg m of
              Inl e \<Rightarrow> (refuse_manifest RefClearanceAboveLadder (ClearanceText e), svc)
            | Inr p \<Rightarrow>
                if (case hs_manifests hs pid of Some existing \<Rightarrow> existing \<noteq> m | None \<Rightarrow> False)
                then (refuse_manifest RefManifestMismatch (MismatchText pid), svc)
                else
                  let ig = register_producer p (es_ingest svc); svc = svc\<lparr>es_ingest := ig\<rparr> in
                  case (case cert_key of Some k \<Rightarrow> Some k | None \<Rightarrow> cfg_verify_keys cfg pid) of
                    None \<Rightarrow> (refuse_manifest RefIdentityRefused (NoKeyText pid), svc)
                  | Some k \<Rightarrow>
                      (\<lparr>ack_accepted = True, ack_refusal = RefUnspecified, ack_text = AckAccepted,
                        ack_chain_head = rc_chain_head (producer_counters pid ig)\<rparr>,
                       svc\<lparr>es_handshake :=
                             \<lparr>hs_manifests = (hs_manifests hs)(pid \<mapsto> m), hs_verify_keys = (hs_verify_keys hs)(pid \<mapsto> k)\<rparr>\<rparr>))"

section \<open>Submit\<close>

datatype submit_status =
    NeverAnnounced string | NoRegisteredPolicy string | UnexpectedIdentity identity_rejection | LogFailure ingest_error
  | StreamBroken

definition submit_item ::
  "('c, 'y, 'k, 'p) pki \<Rightarrow> (bytes \<Rightarrow> digest) \<Rightarrow> (batch \<Rightarrow> bytes) \<Rightarrow> (bytes \<Rightarrow> 'x + batch) \<Rightarrow> ('p, 'k, 's) ecdsa \<Rightarrow>
     open_world \<Rightarrow> write_outcome \<Rightarrow> batch \<Rightarrow> i64 \<Rightarrow> ('c, 'k) edge_service \<Rightarrow>
     (submit_status + (submit_status + batch_verdict)) \<times> ('c, 'k) edge_service" where
  "submit_item pk sha enc dec ec w wr b now svc =
     (case hs_verify_keys (es_handshake svc) (producer_id b) of
        None \<Rightarrow> (Inr (Inl (NeverAnnounced (producer_id b))), svc)
      | Some key \<Rightarrow>
          (case ingest_submit pk sha enc dec ec w wr b (SignerKey key) now (es_ingest svc) of
             (r, ig) \<Rightarrow>
               (case r of
                  Inl e \<Rightarrow> Inl (LogFailure e)
                | Inr (Verdict v) \<Rightarrow> Inr (Inr v)
                | Inr (UnknownProducer p) \<Rightarrow> Inr (Inl (NoRegisteredPolicy p))
                | Inr (IdentityRejected e) \<Rightarrow> Inr (Inl (UnexpectedIdentity e)), svc\<lparr>es_ingest := ig\<rparr>)))"

text \<open>
  One call of \<open>submit\<close>: the batches of its stream with the clock reading and the disk at each,
  and whether the stream ends properly. The verdicts are sent only after the stream's end.
\<close>

fun submit_stream ::
  "('c, 'y, 'k, 'p) pki \<Rightarrow> (bytes \<Rightarrow> digest) \<Rightarrow> (batch \<Rightarrow> bytes) \<Rightarrow> (bytes \<Rightarrow> 'x + batch) \<Rightarrow> ('p, 'k, 's) ecdsa \<Rightarrow>
     bool \<Rightarrow> (batch \<times> i64 \<times> open_world \<times> write_outcome) list \<Rightarrow> (submit_status + batch_verdict) list \<Rightarrow> ('c, 'k) edge_service \<Rightarrow>
     (submit_status + (submit_status + batch_verdict) list) \<times> ('c, 'k) edge_service" where
  "submit_stream pk sha enc dec ec clean [] verdicts svc = (if clean then Inr verdicts else Inl StreamBroken, svc)"
| "submit_stream pk sha enc dec ec clean ((b, now, w, wr) # items) verdicts svc =
     (case submit_item pk sha enc dec ec w wr b now svc of
        (Inl e, svc) \<Rightarrow> (Inl e, svc)
      | (Inr v, svc) \<Rightarrow> submit_stream pk sha enc dec ec clean items (verdicts @ [v]) svc)"

definition build_evidence_response :: "'c ingest \<Rightarrow> evidence_summary" where
  "build_evidence_response ig =
     \<lparr>ev_accepted_total = (\<Sum>p \<leftarrow> producer_ids ig. rc_accepted (producer_counters p ig)),
      ev_rejected_total =
        (\<Sum>p \<leftarrow> producer_ids ig.
           let c = producer_counters p ig in
           rc_unsigned c + rc_bad_signature c + rc_chain_gap c + rc_chain_break c + rc_mislabeled c + rc_over_clearance c +
           rc_stale c + rc_duplicate c + rc_shard_mismatch c),
      ev_identity = ig_identity ig,
      ev_producers = map (\<lambda>p. (p, producer_counters p ig)) (producer_ids ig),
      ev_partitions = map (\<lambda>(key, pl). (key, pl_tip_hash pl, pl_record_count pl)) (ig_partitions ig)\<rparr>"

definition evidence_snapshot :: "('c, 'k) edge_service \<Rightarrow> evidence_summary" where
  "evidence_snapshot svc = build_evidence_response (es_ingest svc)"

definition verify_snapshot :: "(bytes \<Rightarrow> digest) \<Rightarrow> (string \<Rightarrow> bool) \<Rightarrow> ('c, 'k) edge_service \<Rightarrow> (string \<times> partition_verification) list" where
  "verify_snapshot sha read_ok svc = verify_all sha read_ok (es_ingest svc)"

section \<open>Lemmas on the header\<close>

text \<open>What a front may send for these bytes: each byte as itself, unless it is a percent sign, or as an escape.\<close>

inductive escapes :: "bytes \<Rightarrow> string \<Rightarrow> bool" where
  escapes_Nil: "escapes [] []"
| escapes_plain: "escapes bs s \<Longrightarrow> c \<noteq> CHR ''%'' \<Longrightarrow> escapes (of_nat (of_char c) # bs) (c # s)"
| escapes_hex: "escapes bs s \<Longrightarrow> hex_val hi = Some h \<Longrightarrow> hex_val lo = Some l \<Longrightarrow>
    escapes (of_nat (16 * h + l) # bs) (CHR ''%'' # hi # lo # s)"

lemma decode_loop_escapes: "escapes bs s \<Longrightarrow> decode_loop s = Some bs"
  by (induction rule: escapes.induct) simp_all

lemma escapes_decode_loop: "decode_loop s = Some bs \<Longrightarrow> escapes bs s"
  by (induction s arbitrary: bs rule: decode_loop.induct)
    (auto intro: escapes.intros simp del: of_nat_add of_nat_mult split: if_splits list.splits option.splits)

text \<open>The lines of a text but the first prepended with a tab, as nginx's older variable writes it.\<close>

definition tab_lines :: "bytes \<Rightarrow> bytes" where
  "tab_lines bs = concat (map (\<lambda>b. if b = 10 then [10, 9] else [b]) bs)"

lemma fold_tabs_id: "9 \<notin> set bs \<Longrightarrow> fold_tabs x bs = bs"
  by (induction bs arbitrary: x) auto

lemma fold_tabs_tab_lines: "9 \<notin> set bs \<Longrightarrow> fold_tabs False (tab_lines bs) = bs"
  by (induction bs) (auto simp: tab_lines_def)

lemma fold_tab_lines: "9 \<notin> set bs \<Longrightarrow> fold_tab_per_line_artifact (tab_lines bs) = bs"
proof (cases "9 \<in> set (tab_lines bs)")
  case False
  assume "9 \<notin> set bs"
  from False have "10 \<notin> set bs" by (auto simp: tab_lines_def)
  then have "tab_lines bs = bs" by (induction bs) (auto simp: tab_lines_def)
  then show ?thesis using False by (simp add: fold_tab_per_line_artifact_def)
qed (simp add: fold_tab_per_line_artifact_def fold_tabs_tab_lines)

section \<open>Lemmas on the handshake\<close>

definition announce_checks :: "'k ingest_config \<Rightarrow> manifest \<Rightarrow> bool" where
  "announce_checks cfg m \<longleftrightarrow>
     (case cfg_known_plugins cfg of Some known \<Rightarrow> mf_producer_id m \<in> set known | None \<Rightarrow> True) \<and>
     (case cfg_permitted_labels cfg of Some ls \<Rightarrow> list_ex (\<lambda>l. label_matches l (declared_label m)) ls | None \<Rightarrow> True) \<and>
     mf_clearance m \<in> set (cfg_clearance_ladder cfg)"

text \<open>The key an announcement may register.\<close>

definition announce_key :: "('c, 'y, 'k, 'p) pki \<Rightarrow> string option \<Rightarrow> manifest \<Rightarrow> i64 \<Rightarrow> ('c, 'k) edge_service \<Rightarrow> 'k option" where
  "announce_key pk header m now svc =
     (if cfg_require_client_certificate (es_config svc) then
        (case map_option percent_decode header of
           Some (Some leaf) \<Rightarrow>
             (case verify_identity_once pk leaf (cfg_intermediate_chain_pem (es_config svc)) now (es_ingest svc) of
                (Inr i, _) \<Rightarrow>
                  if mf_leaf_fingerprint_sha256 m \<in> {[], id_fingerprint_sha256 i} then Some (id_public_key i) else None
              | _ \<Rightarrow> None)
         | _ \<Rightarrow> None)
      else cfg_verify_keys (es_config svc) (mf_producer_id m))"

lemma manifest_policy_Inr:
  "(\<exists>p. manifest_policy cfg m = Inr p) \<longleftrightarrow> mf_clearance m \<in> set (cfg_clearance_ladder cfg)"
  "manifest_policy cfg m = Inr p \<Longrightarrow> pol_producer_id p = mf_producer_id m"
  by (auto simp: manifest_policy_def new_policy_def split: if_splits)

text \<open>What the identity check leaves alone.\<close>

lemma verify_identity_once_state:
  "verify_identity_once pk leaf chain now ig = (r, ig') \<Longrightarrow> \<exists>c. ig' = ig\<lparr>ig_identity := c\<rparr>"
  by (auto simp: verify_identity_once_def split: option.splits prod.splits intro: exI [of _ "ig_identity ig"])

lemma announce_identity_state:
  assumes "announce_identity pk header m now svc = (r, svc')"
  shows "\<exists>c. svc' = svc\<lparr>es_ingest := (es_ingest svc)\<lparr>ig_identity := c\<rparr>\<rparr>"
  using assms
  by (auto simp: announce_identity_def split: if_splits option.splits prod.splits sum.splits dest!: verify_identity_once_state
      intro: exI [of _ "ig_identity (es_ingest svc')"])

lemma announce_identity_key:
  assumes "announce_identity pk header m now svc = (r, svc')"
  shows "(\<forall>k. r = Inr k \<longrightarrow> announce_key pk header m now svc =
      (case k of Some k \<Rightarrow> Some k | None \<Rightarrow> cfg_verify_keys (es_config svc) (mf_producer_id m))) \<and>
    (\<forall>ack. r = Inl ack \<longrightarrow> announce_key pk header m now svc = None \<and> \<not> ack_accepted ack)"
  using assms
  by (auto simp: announce_identity_def announce_key_def refuse_manifest_def split: if_splits option.splits prod.splits sum.splits)

definition service_inv :: "('c, 'k) edge_service \<Rightarrow> bool" where
  "service_inv svc \<longleftrightarrow>
     dom (hs_verify_keys (es_handshake svc)) = dom (hs_manifests (es_handshake svc)) \<and>
     (\<forall>pid m. hs_manifests (es_handshake svc) pid = Some m \<longrightarrow>
        mf_producer_id m = pid \<and> announce_checks (es_config svc) m \<and>
        (\<exists>p. manifest_policy (es_config svc) m = Inr p \<and> map_of (ig_policies (es_ingest svc)) pid = Some p))"

text \<open>The outcome of an announcement, by its checks.\<close>

lemma announce_cases:
  assumes "announce pk header m now svc = (ack, svc')"
  shows "es_config svc' = es_config svc \<and> ig_chain (es_ingest svc') = ig_chain (es_ingest svc) \<and>
    ig_dir (es_ingest svc') = ig_dir (es_ingest svc) \<and>
    (if announce_checks (es_config svc) m \<and> hs_manifests (es_handshake svc) (mf_producer_id m) \<in> {None, Some m} \<and> announce_key pk header m now svc \<noteq> None
     then ack_accepted ack \<and> es_handshake svc' =
         \<lparr>hs_manifests = (hs_manifests (es_handshake svc))((mf_producer_id m) \<mapsto> m),
          hs_verify_keys = (hs_verify_keys (es_handshake svc))((mf_producer_id m) \<mapsto> the (announce_key pk header m now svc))\<rparr> \<and>
       (\<exists>p. manifest_policy (es_config svc) m = Inr p \<and>
          ig_policies (es_ingest svc') = AList.update (mf_producer_id m) p (ig_policies (es_ingest svc))) \<and>
       ack_chain_head ack = rc_chain_head (producer_counters (mf_producer_id m) (es_ingest svc))
     else \<not> ack_accepted ack \<and> es_handshake svc' = (es_handshake svc) \<and>
       (ig_policies (es_ingest svc') = ig_policies (es_ingest svc) \<or>
        hs_manifests (es_handshake svc) (mf_producer_id m) \<in> {None, Some m} \<and>
        (\<exists>p. manifest_policy (es_config svc) m = Inr p \<and>
          ig_policies (es_ingest svc') = AList.update (mf_producer_id m) p (ig_policies (es_ingest svc)))))"
proof -
  obtain r svc1 where a: "announce_identity pk header m now svc = (r, svc1)" by fastforce
  obtain c where svc1: "svc1 = svc\<lparr>es_ingest := (es_ingest svc)\<lparr>ig_identity := c\<rparr>\<rparr>"
    using announce_identity_state [OF a] by blast
  note k = announce_identity_key [OF a]
  show ?thesis
  proof (cases r)
    case (Inl x)
    then have "ack = x" "svc' = svc1" using assms(1) a by (simp_all add: announce_def)
    moreover have "announce_key pk header m now svc = None" "\<not> ack_accepted x" using k Inl by auto
    ultimately show ?thesis by (simp add: svc1)
  next
    case (Inr cert)
    have key: "announce_key pk header m now svc =
        (case cert of Some k \<Rightarrow> Some k | None \<Rightarrow> cfg_verify_keys (es_config svc) (mf_producer_id m))"
      using k Inr by blast
    have pol: "(\<exists>e. manifest_policy (es_config svc) m = Inl e) \<longleftrightarrow> \<not> announce_checks (es_config svc) m"
      if "case cfg_known_plugins (es_config svc) of Some known \<Rightarrow> (mf_producer_id m) \<in> set known | None \<Rightarrow> True"
        "case cfg_permitted_labels (es_config svc) of Some ls \<Rightarrow> list_ex (\<lambda>l. label_matches l (declared_label m)) ls | None \<Rightarrow> True"
      using that manifest_policy_Inr(1) [of "es_config svc" m]
      by (cases "manifest_policy (es_config svc) m") (auto simp: announce_checks_def)
    show ?thesis
    proof (cases "announce_checks (es_config svc) m")
      case False
      have "\<not> ack_accepted ack \<and> svc' = svc1"
        using assms(1) a Inr False pol
        by (auto simp: announce_def Let_def refuse_manifest_def svc1 announce_checks_def split: if_splits sum.splits option.splits)
      then show ?thesis using False by (simp add: svc1)
    next
      case True
      then obtain p where p: "manifest_policy (es_config svc) m = Inr p"
        using manifest_policy_Inr(1) [of "es_config svc" m] by (auto simp: announce_checks_def)
      have "pol_producer_id p = (mf_producer_id m)" using manifest_policy_Inr(2) [OF p] by simp
      then show ?thesis
        using assms(1) a Inr True p key
        by (cases cert; cases "hs_manifests (es_handshake svc) (mf_producer_id m)"; cases "cfg_verify_keys (es_config svc) (mf_producer_id m)")
          (auto simp: announce_def Let_def refuse_manifest_def svc1 announce_checks_def register_producer_def
            producer_counters_def verifier_counters_def shard_mismatch_count_def split: if_splits option.splits)
    qed
  qed
qed

text \<open>Announcements and stream items, in any order.\<close>

datatype service_op =
    AnnounceCall "string option" manifest i64
  | SubmitCall batch i64 open_world write_outcome

fun service_step ::
  "('c, 'y, 'k, 'p) pki \<Rightarrow> (bytes \<Rightarrow> digest) \<Rightarrow> (batch \<Rightarrow> bytes) \<Rightarrow> (bytes \<Rightarrow> 'x + batch) \<Rightarrow> ('p, 'k, 's) ecdsa \<Rightarrow>
     ('c, 'k) edge_service \<Rightarrow> service_op \<Rightarrow> ('c, 'k) edge_service" where
  "service_step pk sha enc dec ec svc (AnnounceCall header m now) = snd (announce pk header m now svc)"
| "service_step pk sha enc dec ec svc (SubmitCall b now w wr) = snd (submit_item pk sha enc dec ec w wr b now svc)"

lemma submit_item_state:
  assumes "submit_item pk sha enc dec ec w wr b now svc = (r, svc')"
  shows "es_handshake svc' = es_handshake svc \<and> es_config svc' = es_config svc \<and>
    ig_policies (es_ingest svc') = ig_policies (es_ingest svc)"
proof (cases "hs_verify_keys (es_handshake svc) (producer_id b)")
  case None
  then show ?thesis using assms by (simp add: submit_item_def)
next
  case (Some key)
  obtain r1 ig where s: "submit_verified sha enc dec ec w wr b key now (es_ingest svc) = (r1, ig)" by fastforce
  from submit_verified_chain [OF s] have "ig_policies ig = ig_policies (es_ingest svc)" by simp
  then show ?thesis using assms Some s by (auto simp: submit_item_def ingest_submit_def)
qed

lemma service_step_inv:
  assumes "service_inv svc"
  shows "service_inv (service_step pk sha enc dec ec svc e)"
proof (cases e)
  case (SubmitCall b now w wr)
  obtain r svc' where s: "submit_item pk sha enc dec ec w wr b now svc = (r, svc')" by fastforce
  from submit_item_state [OF s] assms show ?thesis by (simp add: SubmitCall s service_inv_def)
next
  case (AnnounceCall header m now)
  obtain ack svc' where a: "announce pk header m now svc = (ack, svc')" by fastforce
  let ?pid = "mf_producer_id m"
  let ?ok = "announce_checks (es_config svc) m \<and> hs_manifests (es_handshake svc) ?pid \<in> {None, Some m} \<and>
    announce_key pk header m now svc \<noteq> None"
  note c = announce_cases [OF a]
  have "service_inv svc'"
  proof (cases ?ok)
    case True
    then have h: "es_config svc' = es_config svc" "announce_checks (es_config svc) m"
        "hs_manifests (es_handshake svc') = (hs_manifests (es_handshake svc))(?pid \<mapsto> m)"
        "hs_verify_keys (es_handshake svc') = (hs_verify_keys (es_handshake svc))(?pid \<mapsto> the (announce_key pk header m now svc))"
      and p: "\<exists>p. manifest_policy (es_config svc) m = Inr p \<and>
          ig_policies (es_ingest svc') = AList.update ?pid p (ig_policies (es_ingest svc))"
      using c by auto
    from p obtain p where "manifest_policy (es_config svc) m = Inr p"
      "map_of (ig_policies (es_ingest svc')) = (map_of (ig_policies (es_ingest svc)))(?pid \<mapsto> p)"
      by (auto simp: update_conv')
    then show ?thesis using h assms unfolding service_inv_def by simp
  next
    case False
    then have h: "es_handshake svc' = es_handshake svc" "es_config svc' = es_config svc"
      and p: "ig_policies (es_ingest svc') = ig_policies (es_ingest svc) \<or>
        hs_manifests (es_handshake svc) ?pid \<in> {None, Some m} \<and>
        (\<exists>p. manifest_policy (es_config svc) m = Inr p \<and>
          ig_policies (es_ingest svc') = AList.update ?pid p (ig_policies (es_ingest svc)))"
      using c by auto
    from p show ?thesis
    proof (elim disjE conjE exE)
      assume "ig_policies (es_ingest svc') = ig_policies (es_ingest svc)"
      then show ?thesis using h assms by (simp add: service_inv_def)
    next
      fix p
      assume p: "hs_manifests (es_handshake svc) ?pid \<in> {None, Some m}" "manifest_policy (es_config svc) m = Inr p"
        "ig_policies (es_ingest svc') = AList.update ?pid p (ig_policies (es_ingest svc))"
      have "mf_producer_id m' = q \<and> announce_checks (es_config svc) m' \<and>
          (\<exists>p. manifest_policy (es_config svc) m' = Inr p \<and> map_of (ig_policies (es_ingest svc')) q = Some p)"
        if "hs_manifests (es_handshake svc) q = Some m'" for q m'
      proof -
        have old: "mf_producer_id m' = q" "announce_checks (es_config svc) m'"
          "\<exists>p. manifest_policy (es_config svc) m' = Inr p \<and> map_of (ig_policies (es_ingest svc)) q = Some p"
          using assms that unfolding service_inv_def by blast+
        have lookup: "map_of (ig_policies (es_ingest svc')) q = (if q = ?pid then Some p else map_of (ig_policies (es_ingest svc)) q)"
          unfolding p(3) by (simp add: update_conv')
        have "q = ?pid \<longrightarrow> m' = m" using that p(1) by auto
        with old lookup p(2) show ?thesis by (cases "q = ?pid") (simp_all only: if_True if_False, blast+)
      qed
      then show ?thesis using h assms unfolding service_inv_def by simp
    qed
  qed
  then show ?thesis by (simp add: AnnounceCall a)
qed

interpretation edge_service_machine: guarded_machine "service_step pk sha enc dec ec" "\<lambda>_. True" service_inv
  for pk sha enc and dec :: "bytes \<Rightarrow> 'x + batch" and ec
  by unfold_locales (rule service_step_inv)

lemma new_service_inv: "service_inv (new_edge_service dir anchors cfg)"
  by (simp add: service_inv_def new_edge_service_def)

lemma service_config:
  "es_config (foldl (service_step pk sha enc dec ec) svc ops) = es_config svc"
proof (induction ops arbitrary: svc)
  case (Cons e ops)
  have "es_config (service_step pk sha enc dec ec svc e) = es_config svc"
  proof (cases e)
    case (AnnounceCall header m now)
    obtain ack svc' where a: "announce pk header m now svc = (ack, svc')" by fastforce
    from announce_cases [OF a] show ?thesis by (simp add: AnnounceCall a)
  next
    case (SubmitCall b now w wr)
    obtain r svc' where s: "submit_item pk sha enc dec ec w wr b now svc = (r, svc')" by fastforce
    from submit_item_state [OF s] show ?thesis by (simp add: SubmitCall s)
  qed
  with Cons show ?case by simp
qed simp

section \<open>Properties\<close>

text \<open>
  The header decoder accepts exactly what an escaping of some bytes can be, and returns
  those bytes with the tab-per-line artefact folded away: a certificate without tabs comes
  back unchanged whether the front escaped it or prefixed its lines with tabs first.
\<close>

theorem forwarded_certificate_decodes:
  "(percent_decode s = Some out \<longleftrightarrow> (\<exists>bs. escapes bs s \<and> out = fold_tab_per_line_artifact bs)) \<and>
   (9 \<notin> set pem \<and> (escapes pem s \<or> escapes (tab_lines pem) s) \<longrightarrow> percent_decode s = Some pem)"
proof -
  have d: "decode_loop s = Some bs \<longleftrightarrow> escapes bs s" for bs using decode_loop_escapes escapes_decode_loop by blast
  have "9 \<notin> set pem \<Longrightarrow> fold_tab_per_line_artifact pem = pem" by (simp add: fold_tab_per_line_artifact_def)
  then show ?thesis using fold_tab_lines [of pem] by (auto simp: percent_decode_def d)
qed

text \<open>
  An announcement is accepted exactly when its producer and label are allowed, its
  clearance is on the ladder, no other manifest was accepted for the producer, and there is a
  key for it: that of a presented certificate that verifies, decodes and agrees with the
  fingerprint the manifest declares, or the configured one where no certificate is required.
  Accepting records the manifest, the key and the policy and answers the producer's chain
  head; refusing changes no manifest and no key, and neither touches the chains or the logs.
\<close>

theorem announce_exact:
  assumes "announce pk header m now svc = (ack, svc')"
  shows "(ack_accepted ack \<longleftrightarrow> announce_checks (es_config svc) m \<and>
      hs_manifests (es_handshake svc) (mf_producer_id m) \<in> {None, Some m} \<and>
      (\<exists>k. announce_key pk header m now svc = Some k)) \<and>
    (ack_accepted ack \<longrightarrow>
      hs_manifests (es_handshake svc') = (hs_manifests (es_handshake svc))(mf_producer_id m \<mapsto> m) \<and>
      hs_verify_keys (es_handshake svc') =
        (hs_verify_keys (es_handshake svc))(mf_producer_id m := announce_key pk header m now svc) \<and>
      (\<exists>p. manifest_policy (es_config svc) m = Inr p \<and> map_of (ig_policies (es_ingest svc')) (mf_producer_id m) = Some p) \<and>
      ack_chain_head ack = rc_chain_head (producer_counters (mf_producer_id m) (es_ingest svc))) \<and>
    (\<not> ack_accepted ack \<longrightarrow> es_handshake svc' = es_handshake svc) \<and>
    ig_chain (es_ingest svc') = ig_chain (es_ingest svc) \<and> ig_dir (es_ingest svc') = ig_dir (es_ingest svc)"
  using announce_cases [OF assms]
  by (cases "announce_checks (es_config svc) m \<and> hs_manifests (es_handshake svc) (mf_producer_id m) \<in> {None, Some m} \<and>
      announce_key pk header m now svc \<noteq> None") (auto simp: update_conv)

text \<open>
  C10: in every state a service can reach, a batch of a producer that never announced is
  turned away without any effect, and a batch of one that did is judged under the policy of
  the manifest accepted for it: it gets a verdict or fails in the log, and the replies the
  code calls unreachable are.
\<close>

theorem announced_batches_reach_verdict:
  assumes "svc = foldl (service_step pk sha enc dec ec) (new_edge_service dir anchors cfg) ops"
    and "submit_item pk sha enc dec ec w wr b now svc = (r, svc')"
  shows "(hs_verify_keys (es_handshake svc) (producer_id b) = None \<longrightarrow>
      r = Inr (Inl (NeverAnnounced (producer_id b))) \<and> svc' = svc) \<and>
    (\<forall>k. hs_verify_keys (es_handshake svc) (producer_id b) = Some k \<longrightarrow>
      (\<exists>m p. hs_manifests (es_handshake svc) (producer_id b) = Some m \<and> manifest_policy cfg m = Inr p \<and>
         announce_checks cfg m \<and> map_of (ig_policies (es_ingest svc)) (producer_id b) = Some p) \<and>
      ((\<exists>v. r = Inr (Inr v)) \<or> (\<exists>e. r = Inl (LogFailure (IngestLog e)))))"
proof -
  have inv: "service_inv svc" unfolding assms(1)
    by (rule edge_service_machine.run_inv [OF new_service_inv]) (simp add: list_all_iff)
  have cfg: "es_config svc = cfg" by (simp add: assms(1) service_config new_edge_service_def)
  show ?thesis
  proof (cases "hs_verify_keys (es_handshake svc) (producer_id b)")
    case None
    then show ?thesis using assms(2) by (simp add: submit_item_def)
  next
    case (Some k)
    then have "producer_id b \<in> dom (hs_manifests (es_handshake svc))"
      using inv unfolding service_inv_def by blast
    then obtain m p where m: "hs_manifests (es_handshake svc) (producer_id b) = Some m" "manifest_policy cfg m = Inr p"
      "announce_checks cfg m" "map_of (ig_policies (es_ingest svc)) (producer_id b) = Some p"
      using inv cfg unfolding service_inv_def by blast
    obtain r1 ig where s: "submit_verified sha enc dec ec w wr b k now (es_ingest svc) = (r1, ig)" by fastforce
    have "(\<exists>v. r1 = Inr (Verdict v)) \<or> (\<exists>e. r1 = Inl (IngestLog e))"
      using submit_verified_chain [OF s] m(4) by (auto split: option.splits)
    then have "(\<exists>v. r = Inr (Inr v)) \<or> (\<exists>e. r = Inl (LogFailure (IngestLog e)))"
      using assms(2) Some s by (auto simp: submit_item_def ingest_submit_def)
    with m Some show ?thesis by auto
  qed
qed

text \<open>
  An accepted manifest that declares no fingerprint does not hold its producer's key in
  place: the same manifest announced again under another trusted certificate is accepted, the
  other certificate's key takes over, and the producer's own batches, signed with the first
  key, are refused from then on.
\<close>

theorem announce_replaces_key:
  assumes "svc = foldl (service_step pk sha enc dec ec) (new_edge_service dir anchors cfg) ops"
    and "cfg_require_client_certificate cfg" "hs_manifests (es_handshake svc) pid = Some m"
    and "mf_leaf_fingerprint_sha256 m = []" "percent_decode header = Some leaf"
    and "verify_identity_once pk leaf (cfg_intermediate_chain_pem cfg) now (es_ingest svc) = (Inr i, ig)"
    and "announce pk (Some header) m now svc = (ack, svc')"
    and "producer_id b = pid" "\<not> verifies sha enc ec (id_public_key i) b"
    and "submit_item pk sha enc dec ec w wr b now' svc' = (r, svc'')"
  shows "ack_accepted ack \<and> hs_verify_keys (es_handshake svc') pid = Some (id_public_key i) \<and>
    (\<exists>v. r = Inr (Inr v) \<and> \<not> vd_accepted v) \<and> ig_dir (es_ingest svc'') = ig_dir (es_ingest svc')"
proof -
  have inv: "service_inv svc" unfolding assms(1)
    by (rule edge_service_machine.run_inv [OF new_service_inv]) (simp add: list_all_iff)
  have cfg: "es_config svc = cfg" by (simp add: assms(1) service_config new_edge_service_def)
  have m: "mf_producer_id m = pid" "announce_checks cfg m" using inv assms(3) cfg by (auto simp: service_inv_def)
  have k: "announce_key pk (Some header) m now svc = Some (id_public_key i)"
    using assms(2,4,5,6) by (simp add: announce_key_def cfg)
  from announce_cases [OF assms(7)] obtain p where c: "ack_accepted ack"
    "hs_verify_keys (es_handshake svc') pid = Some (id_public_key i)"
    "map_of (ig_policies (es_ingest svc')) pid = Some p"
    using m k assms(3) cfg by (auto simp: update_conv)
  obtain vd v' where ch: "chain_submit sha enc ec b p (id_public_key i) now' (ig_chain (es_ingest svc')) = (vd, v')" by fastforce
  have "\<not> (\<exists>d. verify_batch sha enc ec b (id_public_key i) = Inr d)" using assms(9) verify_batch_verifies [of sha enc ec b "id_public_key i"] by simp
  then obtain e where "verify_batch sha enc ec b (id_public_key i) = Inl e" by (metis sum.exhaust)
  then have fd: "first_defect sha enc ec p (id_public_key i) now' st b \<noteq> None" for st
    by (cases e) (simp_all add: first_defect_def)
  have "\<not> vd_accepted vd" using ch
    by (auto simp: chain_submit_def Let_def fd split: option.splits)
  then have "(\<exists>v. r = Inr (Inr v) \<and> \<not> vd_accepted v) \<and> ig_dir (es_ingest svc'') = ig_dir (es_ingest svc')"
    using assms(8,10) c ch
    by (auto simp: submit_item_def ingest_submit_def submit_verified_def split: option.splits)
  with c show ?thesis by blast
qed

section \<open>Witnesses\<close>

lemma announce_anchors: "ig_anchors (es_ingest (snd (announce pk header m now svc))) = ig_anchors (es_ingest svc)"
proof -
  obtain r svc1 where a: "announce_identity pk header m now svc = (r, svc1)" by fastforce
  have "ig_anchors (es_ingest svc1) = ig_anchors (es_ingest svc)" using announce_identity_state [OF a] by auto
  then show ?thesis using a
    by (auto simp: announce_def Let_def register_producer_def split: sum.splits option.splits)
qed

text \<open>Certificates that are their own keys, and signatures that only the key \<open>[65]\<close> makes.\<close>

definition byte_pki :: "(bytes, bytes, bytes, unit) pki" where
  "byte_pki =
     \<lparr>cert_from_pem = Inr, certs_from_pem = (\<lambda>b. Inr [b]), cert_public_key = Inr,
      cert_digest = (\<lambda>_. Inr [1, 2]), cert_common_name = (\<lambda>_. Some ''edge''), cert_not_before = (\<lambda>_. Inr (0, 0)),
      cert_not_after = (\<lambda>_. Inr (20000, 0)), pkey_ec = Inr, pkey_from_pem = Inr,
      key_curve = (\<lambda>_. Some secp384r1), private_from_pem = (\<lambda>_. Inr ()), private_curve = (\<lambda>_. Some secp384r1),
      private_public = (\<lambda>_. Inr []), public_eq = (=), store_add = (\<lambda>_. Inr ()), verify_chain = (\<lambda>_ _ _ t. Inr (t \<noteq> None))\<rparr>"

definition byte_ecdsa :: "(unit, bytes, bytes) ecdsa" where
  "byte_ecdsa =
     \<lparr>sig_from_der = (\<lambda>bs. case bs of [] \<Rightarrow> Inl ''der'' | _ # s \<Rightarrow> Inr s), sig_to_der = (\<lambda>s. Inr (48 # s)),
      sig_sign = (\<lambda>d _. Inr (digest_bytes d)), sig_verify = (\<lambda>s d k. Inr (s = digest_bytes d \<and> k = [65]))\<rparr>"

definition sample_manifest :: manifest where
  "sample_manifest =
     \<lparr>mf_producer_id = ''p1'', mf_label = Some \<lparr>marking = ''U'', caveats = []\<rparr>, mf_clearance = ''U'',
      mf_leaf_fingerprint_sha256 = [], mf_rest = []\<rparr>"

definition sample_config :: "bytes ingest_config" where
  "sample_config = (new_ingest_config [''U'', ''S''] 1000)\<lparr>cfg_known_plugins := Some [''p1'']\<rparr>"

definition sample_service :: "(bytes, bytes) edge_service" where
  "sample_service = new_edge_service Map.empty (Some [[7]]) sample_config"

lemma sample_header: "percent_decode [CHR 0x41] = Some [65]" "percent_decode [CHR 0x42] = Some [66]"
  by (simp_all add: percent_decode_def fold_tab_per_line_artifact_def)

lemma sample_verify:
  assumes "ig_anchors ig = Some a"
  shows "\<exists>i ig'. verify_identity_once byte_pki leaf None 5 ig = (Inr i, ig') \<and> id_public_key i = leaf"
  by (simp add: assms verify_identity_once_def verify_identity_def verify_identity_inner_def byte_pki_def parse_chain_pem_def
      asn1_time_to_tai_ns_def in_i64_def i64_min_def i64_max_def)

lemma sample_announced:
  "\<exists>svc' ack. announce byte_pki (Some [CHR 0x41]) sample_manifest 5 sample_service = (ack, svc') \<and> ack_accepted ack \<and>
     hs_manifests (es_handshake svc') ''p1'' = Some sample_manifest \<and> es_config svc' = sample_config \<and>
     hs_verify_keys (es_handshake svc') ''p1'' = Some [65]"
proof -
  obtain ack svc' where a: "announce byte_pki (Some [CHR 0x41]) sample_manifest 5 sample_service = (ack, svc')" by fastforce
  have "ig_anchors (es_ingest sample_service) = Some [[7]]"
    by (simp add: sample_service_def new_edge_service_def new_ingest_def)
  from sample_verify [OF this, of "[65]"] obtain i ig' where
    i: "verify_identity_once byte_pki [65] None 5 (es_ingest sample_service) = (Inr i, ig')" "id_public_key i = [65]"
    by blast
  have k: "announce_key byte_pki (Some [CHR 0x41]) sample_manifest 5 sample_service = Some [65]"
    using i by (simp add: announce_key_def sample_header sample_service_def new_edge_service_def sample_config_def
        new_ingest_config_def sample_manifest_def)
  have ok: "announce_checks (es_config sample_service) sample_manifest"
    by (simp add: announce_checks_def sample_service_def new_edge_service_def sample_config_def new_ingest_config_def
        sample_manifest_def)
  have none: "hs_manifests (es_handshake sample_service) = Map.empty" and cfg: "es_config sample_service = sample_config"
    by (simp_all add: sample_service_def new_edge_service_def)
  have pid: "mf_producer_id sample_manifest = ''p1''" by (simp add: sample_manifest_def)
  show ?thesis using announce_cases [OF a] a k ok none cfg pid by simp
qed

theorem forwarded_certificate_decodes_witness:
  "percent_decode ''%4Ab'' = Some [74, 98]"
proof -
  have "escapes (of_nat (16 * 4 + 10) # of_nat (of_char CHR ''b'') # []) (CHR ''%'' # CHR ''4'' # CHR ''A'' # CHR ''b'' # [])"
    by (intro escapes.intros) (simp_all add: hex_val_def)
  then have "escapes [74, 98] ''%4Ab''" by simp
  with forwarded_certificate_decodes [of "''%4Ab''" undefined "[74, 98]"] show ?thesis by simp
qed

theorem announce_exact_witness:
  "\<exists>ack svc'. announce byte_pki (Some ''%zz'') sample_manifest 5 sample_service = (ack, svc') \<and> \<not> ack_accepted ack \<and>
     es_handshake svc' = es_handshake sample_service"
proof -
  obtain ack svc' where a: "announce byte_pki (Some ''%zz'') sample_manifest 5 sample_service = (ack, svc')" by fastforce
  have "percent_decode ''%zz'' = None" by (simp add: percent_decode_def hex_val_def)
  then have "announce_key byte_pki (Some ''%zz'') sample_manifest 5 sample_service = None"
    by (simp add: announce_key_def sample_service_def new_edge_service_def sample_config_def new_ingest_config_def)
  with announce_exact [OF a] a show ?thesis by simp
qed

abbreviation sample_bytes_codec :: "bytes \<Rightarrow> unit + batch" where
  "sample_bytes_codec \<equiv> sample_dec sample_edge_batch"

theorem announced_batches_reach_verdict_witness:
  "\<exists>svc r svc'.
     svc = foldl (service_step byte_pki (\<lambda>_. 0) (\<lambda>_. [1]) sample_bytes_codec byte_ecdsa) sample_service
             [AnnounceCall (Some [CHR 0x41]) sample_manifest 5] \<and>
     submit_item byte_pki (\<lambda>_. 0) (\<lambda>_. [1]) sample_bytes_codec byte_ecdsa all_ok WriteOk sample_edge_batch 200 svc = (r, svc') \<and>
     hs_verify_keys (es_handshake svc) (producer_id sample_edge_batch) = Some [65] \<and>
     ((\<exists>v. r = Inr (Inr v)) \<or> (\<exists>e. r = Inl (LogFailure (IngestLog e))))"
proof -
  let ?svc = "foldl (service_step byte_pki (\<lambda>_. 0) (\<lambda>_. [1]) sample_bytes_codec byte_ecdsa) sample_service
      [AnnounceCall (Some [CHR 0x41]) sample_manifest 5]"
  obtain r svc' where s: "submit_item byte_pki (\<lambda>_. 0) (\<lambda>_. [1]) sample_bytes_codec byte_ecdsa all_ok WriteOk sample_edge_batch 200 ?svc = (r, svc')"
    by fastforce
  have k: "hs_verify_keys (es_handshake ?svc) (producer_id sample_edge_batch) = Some [65]"
    using sample_announced by (auto simp: sample_shard)
  from announced_batches_reach_verdict [OF _ s, of Map.empty "Some [[7]]" sample_config
      "[AnnounceCall (Some [CHR 0x41]) sample_manifest 5]"] k
  have "(\<exists>v. r = Inr (Inr v)) \<or> (\<exists>e. r = Inl (LogFailure (IngestLog e)))"
    unfolding sample_service_def by blast
  with s k show ?thesis by blast
qed

theorem announce_replaces_key_witness:
  "\<exists>svc ack svc' r svc''.
     svc = foldl (service_step byte_pki (\<lambda>_. 0) (\<lambda>_. [1]) sample_bytes_codec byte_ecdsa) sample_service
             [AnnounceCall (Some [CHR 0x41]) sample_manifest 5] \<and>
     verifies (\<lambda>_. 0) (\<lambda>_. [1]) byte_ecdsa [65] sample_edge_batch \<and>
     announce byte_pki (Some [CHR 0x42]) sample_manifest 5 svc = (ack, svc') \<and>
     submit_item byte_pki (\<lambda>_. 0) (\<lambda>_. [1]) sample_bytes_codec byte_ecdsa all_ok WriteOk sample_edge_batch 200 svc' = (r, svc'') \<and>
     hs_verify_keys (es_handshake svc') ''p1'' = Some [66] \<and> (\<exists>v. r = Inr (Inr v) \<and> \<not> vd_accepted v)"
proof -
  let ?svc = "foldl (service_step byte_pki (\<lambda>_. 0) (\<lambda>_. [1]) sample_bytes_codec byte_ecdsa) sample_service
      [AnnounceCall (Some [CHR 0x41]) sample_manifest 5]"
  obtain ack svc' where a: "announce byte_pki (Some [CHR 0x42]) sample_manifest 5 ?svc = (ack, svc')" by fastforce
  obtain r svc'' where s: "submit_item byte_pki (\<lambda>_. 0) (\<lambda>_. [1]) sample_bytes_codec byte_ecdsa all_ok WriteOk sample_edge_batch 200 svc' = (r, svc'')"
    by fastforce
  have m: "hs_manifests (es_handshake ?svc) ''p1'' = Some sample_manifest"
    using sample_announced by auto
  have anchors: "\<exists>c. ig_anchors (es_ingest ?svc) = Some c"
    using announce_anchors [of byte_pki "Some [CHR 0x41]" sample_manifest 5 sample_service]
    by (simp add: sample_service_def new_edge_service_def new_ingest_def)
  then obtain i ig' where i: "verify_identity_once byte_pki [66] None 5 (es_ingest ?svc) = (Inr i, ig')" "id_public_key i = [66]"
    using sample_verify by blast
  have cfg: "cfg_require_client_certificate sample_config" "cfg_intermediate_chain_pem sample_config = None"
    by (simp_all add: sample_config_def new_ingest_config_def)
  have fp: "mf_leaf_fingerprint_sha256 sample_manifest = []" by (simp add: sample_manifest_def)
  have v: "verifies (\<lambda>_. 0) (\<lambda>_. [1]) byte_ecdsa [65] sample_edge_batch" "\<not> verifies (\<lambda>_. 0) (\<lambda>_. [1]) byte_ecdsa [66] sample_edge_batch"
    by (simp_all add: verifies_def signs_def byte_ecdsa_def sample_signed_def batch_link_def compute_batch_hash_def)
  from announce_replaces_key [OF _ cfg(1) m fp sample_header(2) _ a sample_shard(3) _ s,
      where dir = Map.empty and
        anchors = "Some [[7]]" and ops = "[AnnounceCall (Some [CHR 0x41]) sample_manifest 5]"] i v cfg(2)
  have "hs_verify_keys (es_handshake svc') ''p1'' = Some [66]" "\<exists>v. r = Inr (Inr v) \<and> \<not> vd_accepted v"
    unfolding sample_service_def by auto
  with a s v(1) show ?thesis by blast
qed

end
