(* ===== verification/Float64.thy ===== *)
theory Float64
  imports Prelude "HOL-Library.Log_Nat"
begin

text \<open>
  Rust's \<open>f64\<close> and \<open>f32\<close>: IEEE 754 binary64 and binary32 with round to nearest, ties to
  even. A finite nonzero number is the rational it denotes, so every operation is the exact
  rational operation followed by one rounding, which is what the standard demands. The sign of a
  zero is kept. A NaN has no payload here: where the code reads the bits of one, the model gives
  the canonical quiet NaN, and no theorem speaks of it.
\<close>

section \<open>Rounding\<close>

datatype f64 =
    FNan
  | FInf bool \<comment> \<open>\<^term>\<open>True\<close>: negative\<close>
  | FZero bool
  | FNum rat

record float_format =
  ff_prec :: nat   \<comment> \<open>bits of the significand, the hidden one included\<close>
  ff_emin :: int   \<comment> \<open>exponent of the least subnormal\<close>
  ff_top :: int    \<comment> \<open>\<open>2 ^ ff_top\<close> is the least magnitude out of range\<close>

definition binary64 :: float_format where
  "binary64 = \<lparr>ff_prec = 53, ff_emin = - 1074, ff_top = 1024\<rparr>"

definition binary32 :: float_format where
  "binary32 = \<lparr>ff_prec = 24, ff_emin = - 149, ff_top = 128\<rparr>"

definition ulog2 :: "rat \<Rightarrow> int" where
  "ulog2 x = (if 1 \<le> x then bitlen \<lfloor>x\<rfloor> - 1 else - bitlen (\<lceil>1 / x\<rceil> - 1))"

definition round_even :: "rat \<Rightarrow> int" where
  "round_even x =
     (let n = \<lfloor>x\<rfloor>; r = x - of_int n in
      if r < 1 / 2 then n else if 1 / 2 < r then n + 1 else if even n then n else n + 1)"

definition f_exp :: "float_format \<Rightarrow> rat \<Rightarrow> int" where
  "f_exp fmt x = max (ulog2 \<bar>x\<bar> - (int (ff_prec fmt) - 1)) (ff_emin fmt)"

definition f_unit :: "float_format \<Rightarrow> rat \<Rightarrow> rat" where
  "f_unit fmt x = 2 powi (f_exp fmt x)"

definition f_round :: "float_format \<Rightarrow> bool \<Rightarrow> rat \<Rightarrow> f64" where
  "f_round fmt s x =
     (if x = 0 then FZero s
      else let u = f_unit fmt x; y = of_int (round_even (x / u)) * u in
           if y = 0 then FZero (x < 0)
           else if 2 powi (ff_top fmt) \<le> \<bar>y\<bar> then FInf (x < 0)
           else FNum y)"

text \<open>The numbers of a format, and the values of a format.\<close>

definition f_repr :: "float_format \<Rightarrow> rat \<Rightarrow> bool" where
  "f_repr fmt x \<longleftrightarrow> x \<noteq> 0 \<and> x / f_unit fmt x \<in> \<int> \<and> \<bar>x\<bar> < 2 powi (ff_top fmt)"

definition f_wf :: "float_format \<Rightarrow> f64 \<Rightarrow> bool" where
  "f_wf fmt v \<longleftrightarrow> (case v of FNum x \<Rightarrow> f_repr fmt x | _ \<Rightarrow> True)"

lemma ulog2_bounds:
  assumes "0 < x"
  shows "2 powi (ulog2 x) \<le> x" and "x < 2 powi (ulog2 x + 1)"
proof -
  show "2 powi (ulog2 x) \<le> x"
  proof (cases "1 \<le> x")
    case True
    then have p: "0 < \<lfloor>x\<rfloor>" by linarith
    then have b: "2 ^ nat (bitlen \<lfloor>x\<rfloor> - 1) \<le> \<lfloor>x\<rfloor>" by (simp add: bitlen_bounds)
    have nn: "0 \<le> bitlen \<lfloor>x\<rfloor> - 1"
      using p bitlen_eq_zero_iff [of "\<lfloor>x\<rfloor>"] bitlen_nonneg [of "\<lfloor>x\<rfloor>"] by linarith
    have "(2::rat) ^ nat (bitlen \<lfloor>x\<rfloor> - 1) \<le> of_int \<lfloor>x\<rfloor>"
      using b by (metis of_int_le_iff of_int_numeral of_int_power)
    also have "\<dots> \<le> x" by simp
    finally show ?thesis using True nn by (simp add: ulog2_def power_int_def)
  next
    case False
    define c where "c = \<lceil>1 / x\<rceil> - 1"
    have x1: "1 < 1 / x" using False assms by simp
    then have cp: "0 < c" unfolding c_def by linarith
    have "c < 2 ^ nat (bitlen c)" using bitlen_bounds [OF cp] by simp
    then have "\<lceil>1 / x\<rceil> \<le> 2 ^ nat (bitlen c)" unfolding c_def by linarith
    then have "1 / x \<le> (2::rat) ^ nat (bitlen c)"
      by (metis ceiling_le_iff of_int_numeral of_int_power)
    then have "inverse (2 ^ nat (bitlen c)) \<le> x"
      using assms by (simp add: field_simps)
    then have "inverse (2 powi bitlen c) \<le> x"
      using bitlen_nonneg [of c] by (simp add: power_int_nonneg_exp)
    then show ?thesis
      using False by (simp add: ulog2_def power_int_minus c_def)
  qed
  show "x < 2 powi (ulog2 x + 1)"
  proof (cases "1 \<le> x")
    case True
    then have p: "0 < \<lfloor>x\<rfloor>" by linarith
    then have "\<lfloor>x\<rfloor> < 2 ^ nat (bitlen \<lfloor>x\<rfloor>)" by (simp add: bitlen_bounds)
    then have "x < of_int (2 ^ nat (bitlen \<lfloor>x\<rfloor>))" by (simp add: floor_less_iff)
    then show ?thesis using True by (simp add: ulog2_def power_int_nonneg_exp bitlen_nonneg)
  next
    case False
    define c where "c = \<lceil>1 / x\<rceil> - 1"
    have x1: "1 < 1 / x" using False assms by simp
    then have cp: "0 < c" unfolding c_def by linarith
    have nn: "0 \<le> bitlen c - 1"
      using cp bitlen_eq_zero_iff [of c] bitlen_nonneg [of c] by linarith
    have "2 ^ nat (bitlen c - 1) \<le> c" using bitlen_bounds [OF cp] by simp
    then have "of_int (2 ^ nat (bitlen c - 1)) < 1 / x"
      unfolding c_def by linarith
    then have "(2::rat) ^ nat (bitlen c - 1) < 1 / x" by simp
    then have "x < inverse (2 ^ nat (bitlen c - 1))"
      using assms by (simp add: field_simps)
    also have "\<dots> = 2 powi (- (bitlen c - 1))"
      using nn by (simp only: power_int_minus power_int_nonneg_exp)
    finally show ?thesis using False by (simp add: ulog2_def c_def algebra_simps)
  qed
qed

lemma powi2_pos [simp]: "0 < (2::rat) powi k"
  by (simp add: power_int_def)

lemma powi2_mono: "j \<le> k \<Longrightarrow> (2::rat) powi j \<le> 2 powi k"
  by (simp add: power_int_increasing)

lemma powi2_less_cancel: "(2::rat) powi j < 2 powi k \<Longrightarrow> j < k"
  by (meson linorder_not_less powi2_mono)

lemma ulog2_eqI:
  assumes "2 powi k \<le> x" and "x < 2 powi (k + 1)"
  shows "ulog2 x = k"
proof -
  have "0 < x" using assms(1) powi2_pos [of k] by linarith
  note b = ulog2_bounds [OF this]
  have "ulog2 x < k + 1" by (rule powi2_less_cancel) (use b(1) assms(2) in linarith)
  moreover have "k < ulog2 x + 1" by (rule powi2_less_cancel) (use b(2) assms(1) in linarith)
  ultimately show ?thesis by simp
qed

lemma round_even_of_int [simp]: "round_even (of_int n) = n"
  by (simp add: round_even_def)

lemma f_unit_pos [simp]: "0 < f_unit fmt x"
  by (simp add: f_unit_def)

lemma f_round_repr:
  assumes "f_repr fmt x"
  shows "f_round fmt s x = FNum x"
proof -
  obtain n where n: "x / f_unit fmt x = of_int n"
    using assms by (auto simp: f_repr_def elim: Ints_cases)
  have "of_int n * f_unit fmt x = x"
    using n f_unit_pos [of fmt x] by (simp add: field_simps)
  moreover have u: "f_unit fmt x \<noteq> 0" using f_unit_pos [of fmt x] by linarith
  moreover have "n \<noteq> 0" using assms n u by (auto simp: f_repr_def)
  ultimately show ?thesis
    using assms by (simp add: f_round_def f_repr_def n Let_def)
qed

text \<open>Integers below the precision are numbers of the format.\<close>

lemma f_repr_of_int:
  assumes "n \<noteq> 0" and "\<bar>n\<bar> \<le> 2 ^ ff_prec fmt" and "ff_emin fmt \<le> 0" and "int (ff_prec fmt) < ff_top fmt"
    and "0 < ff_prec fmt"
  shows "f_repr fmt (of_int n)"
proof -
  let ?x = "of_int n :: rat" and ?p = "int (ff_prec fmt)"
  have ax: "0 < \<bar>?x\<bar>" using assms(1) by simp
  have le: "\<bar>?x\<bar> \<le> 2 ^ ff_prec fmt"
    using assms(2) by (metis of_int_abs of_int_le_iff of_int_numeral of_int_power)
  have top: "\<bar>?x\<bar> < 2 powi ff_top fmt"
  proof -
    have "(2::rat) ^ ff_prec fmt = 2 powi ?p" by simp
    also have "\<dots> < 2 powi ff_top fmt" using assms(4) by (intro power_int_strict_increasing) simp_all
    finally show ?thesis using le by linarith
  qed
  have int: "?x / f_unit fmt ?x \<in> \<int>"
  proof (cases "f_exp fmt ?x \<le> 0")
    case True
    then have "?x / f_unit fmt ?x = of_int (n * 2 ^ nat (- f_exp fmt ?x))"
      by (auto simp: f_unit_def power_int_def field_simps)
    then show ?thesis by (metis Ints_of_int)
  next
    case False
    then have k: "?p \<le> ulog2 \<bar>?x\<bar>" using assms(3) by (simp add: f_exp_def max_def split: if_splits)
    have "(2::rat) powi ?p \<le> 2 powi (ulog2 \<bar>?x\<bar>)" using k by (rule powi2_mono)
    also have "\<dots> \<le> \<bar>?x\<bar>" by (rule ulog2_bounds(1) [OF ax])
    finally have "(2::rat) ^ ff_prec fmt \<le> \<bar>?x\<bar>" by simp
    with le have eq: "\<bar>?x\<bar> = 2 ^ ff_prec fmt" by linarith
    have "ulog2 \<bar>?x\<bar> = ?p"
    proof (rule ulog2_eqI)
      show "2 powi ?p \<le> \<bar>?x\<bar>" using eq by simp
      show "\<bar>?x\<bar> < 2 powi (?p + 1)" using eq by (simp add: power_int_add)
    qed
    then have e: "f_exp fmt ?x = 1" using False assms(3) by (simp add: f_exp_def)
    have "\<bar>n\<bar> = 2 ^ ff_prec fmt"
      using eq by (metis of_int_abs of_int_eq_iff of_int_numeral of_int_power)
    then obtain m where "n = 2 * m"
      using assms(5) by (metis abs_eq_iff' dvd_def dvd_minus_iff dvd_power)
    then show ?thesis using e by (simp add: f_unit_def)
  qed
  show ?thesis using assms(1) int top by (simp add: f_repr_def)
qed



lemma powi2_ne [simp]: "(2::rat) powi k \<noteq> 0"
  using powi2_pos [of k] by linarith

definition ff_ok :: "float_format \<Rightarrow> bool" where
  "ff_ok fmt \<longleftrightarrow> 2 \<le> ff_prec fmt \<and> ff_emin fmt \<le> 0 \<and> int (ff_prec fmt) < ff_top fmt"

lemma ff_ok_binary [simp]: "ff_ok binary64" "ff_ok binary32"
  by (simp_all add: ff_ok_def binary64_def binary32_def)

lemma f_repr_significand:
  assumes "f_repr fmt x" and "0 < ff_prec fmt"
  obtains m where "\<bar>x\<bar> = of_int m * f_unit fmt x" and "0 < m" and "m < 2 ^ ff_prec fmt"
    and "m < 2 ^ (ff_prec fmt - 1) \<Longrightarrow> f_exp fmt x = ff_emin fmt"
    and "2 ^ (ff_prec fmt - 1) \<le> m \<Longrightarrow> f_exp fmt x + int (ff_prec fmt) \<le> ff_top fmt"
proof -
  let ?e = "f_exp fmt x" and ?p = "int (ff_prec fmt)" and ?l = "ulog2 \<bar>x\<bar>"
  have x0: "0 < \<bar>x\<bar>" using assms(1) by (simp add: f_repr_def)
  have u: "f_unit fmt x = 2 powi ?e" by (simp add: f_unit_def)
  obtain n where n: "x / f_unit fmt x = of_int n"
    using assms(1) by (auto simp: f_repr_def elim: Ints_cases)
  then have xn: "x = of_int n * f_unit fmt x"
    using f_unit_pos [of fmt x] by (simp add: field_simps u)
  have ax: "\<bar>x\<bar> = of_int \<bar>n\<bar> * f_unit fmt x"
    by (subst xn) (simp add: abs_mult u)
  have pos: "0 < \<bar>n\<bar>" using ax x0 by (cases "n = 0") auto
  have le: "?l - (?p - 1) \<le> ?e" by (simp add: f_exp_def)
  have "(of_int \<bar>n\<bar> :: rat) * 2 powi ?e < 2 powi (?l + 1)"
    using ulog2_bounds(2) [OF x0] ax u by metis
  also have "\<dots> \<le> 2 powi (?p + ?e)" by (rule powi2_mono) (use le in linarith)
  also have "\<dots> = 2 ^ ff_prec fmt * 2 powi ?e" by (simp add: power_int_add)
  finally have "of_int \<bar>n\<bar> < (2::rat) ^ ff_prec fmt" by simp
  then have lt: "\<bar>n\<bar> < 2 ^ ff_prec fmt"
    by (metis of_int_less_iff of_int_numeral of_int_power)
  have small: "?e = ff_emin fmt" if m: "\<bar>n\<bar> < 2 ^ (ff_prec fmt - 1)"
  proof -
    have "of_int \<bar>n\<bar> < (2::rat) ^ (ff_prec fmt - 1)"
      using m by (metis of_int_less_iff of_int_numeral of_int_power)
    then have "\<bar>x\<bar> < 2 ^ (ff_prec fmt - 1) * 2 powi ?e"
      using ax u by (metis mult_strict_right_mono powi2_pos)
    also have "\<dots> = 2 powi (int (ff_prec fmt - 1) + ?e)" by (simp add: power_int_add)
    also have "\<dots> = 2 powi (?p - 1 + ?e)" using assms(2) by (simp add: of_nat_diff)
    finally have "2 powi ?l < (2::rat) powi (?p - 1 + ?e)"
      using ulog2_bounds(1) [OF x0] by linarith
    then have "?l < ?p - 1 + ?e" by (rule powi2_less_cancel)
    then show ?thesis by (simp add: f_exp_def max_def split: if_splits)
  qed
  have top: "?e + ?p \<le> ff_top fmt" if m: "2 ^ (ff_prec fmt - 1) \<le> \<bar>n\<bar>"
  proof -
    have "(2::rat) ^ (ff_prec fmt - 1) \<le> of_int \<bar>n\<bar>"
      using m by (metis of_int_le_iff of_int_numeral of_int_power)
    then have "2 ^ (ff_prec fmt - 1) * 2 powi ?e \<le> \<bar>x\<bar>"
      using ax u by (metis mult_right_mono less_imp_le powi2_pos)
    moreover have "2 ^ (ff_prec fmt - 1) * 2 powi ?e = (2::rat) powi (int (ff_prec fmt - 1) + ?e)"
      by (simp add: power_int_add)
    ultimately have "(2::rat) powi (int (ff_prec fmt - 1) + ?e) < 2 powi ff_top fmt"
      using assms(1) by (simp add: f_repr_def)
    then have "int (ff_prec fmt - 1) + ?e < ff_top fmt" by (rule powi2_less_cancel)
    then show ?thesis using assms(2) by (simp add: of_nat_diff)
  qed
  show ?thesis using that [OF ax pos lt small top] .
qed

section \<open>Operations\<close>

definition f_neg :: "f64 \<Rightarrow> f64" where
  "f_neg v = (case v of FNan \<Rightarrow> FNan | FInf s \<Rightarrow> FInf (\<not> s) | FZero s \<Rightarrow> FZero (\<not> s) | FNum x \<Rightarrow> FNum (- x))"

definition f_negative :: "f64 \<Rightarrow> bool" where
  "f_negative v = (case v of FNan \<Rightarrow> False | FInf s \<Rightarrow> s | FZero s \<Rightarrow> s | FNum x \<Rightarrow> x < 0)"

text \<open>The rational a finite value denotes.\<close>

definition f_rat :: "f64 \<Rightarrow> rat" where
  "f_rat v = (case v of FNum x \<Rightarrow> x | _ \<Rightarrow> 0)"

definition f_is_finite :: "f64 \<Rightarrow> bool" where
  "f_is_finite v = (case v of FNan \<Rightarrow> False | FInf s \<Rightarrow> False | FZero s \<Rightarrow> True | FNum x \<Rightarrow> True)"

fun f_add :: "f64 \<Rightarrow> f64 \<Rightarrow> f64" where
  "f_add FNan w = FNan"
| "f_add v FNan = FNan"
| "f_add (FInf a) (FInf b) = (if a = b then FInf a else FNan)"
| "f_add (FInf a) w = FInf a"
| "f_add v (FInf b) = FInf b"
| "f_add (FZero a) (FZero b) = FZero (a \<and> b)"
| "f_add (FZero a) (FNum y) = FNum y"
| "f_add (FNum x) (FZero b) = FNum x"
| "f_add (FNum x) (FNum y) = f_round binary64 False (x + y)"

definition f_sub :: "f64 \<Rightarrow> f64 \<Rightarrow> f64" where
  "f_sub v w = f_add v (f_neg w)"

fun f_mul :: "f64 \<Rightarrow> f64 \<Rightarrow> f64" where
  "f_mul FNan w = FNan"
| "f_mul v FNan = FNan"
| "f_mul (FInf a) (FZero b) = FNan"
| "f_mul (FZero a) (FInf b) = FNan"
| "f_mul (FInf a) w = FInf (a \<noteq> f_negative w)"
| "f_mul v (FInf b) = FInf (f_negative v \<noteq> b)"
| "f_mul (FZero a) w = FZero (a \<noteq> f_negative w)"
| "f_mul v (FZero b) = FZero (f_negative v \<noteq> b)"
| "f_mul (FNum x) (FNum y) = f_round binary64 False (x * y)"

fun f_div :: "f64 \<Rightarrow> f64 \<Rightarrow> f64" where
  "f_div FNan w = FNan"
| "f_div v FNan = FNan"
| "f_div (FInf a) (FInf b) = FNan"
| "f_div (FZero a) (FZero b) = FNan"
| "f_div (FInf a) w = FInf (a \<noteq> f_negative w)"
| "f_div v (FInf b) = FZero (f_negative v \<noteq> b)"
| "f_div (FZero a) w = FZero (a \<noteq> f_negative w)"
| "f_div v (FZero b) = FInf (f_negative v \<noteq> b)"
| "f_div (FNum x) (FNum y) = f_round binary64 False (x / y)"

text \<open>Comparisons: false on a NaN; the two zeros are equal.\<close>

fun f_lt :: "f64 \<Rightarrow> f64 \<Rightarrow> bool" where
  "f_lt FNan w = False"
| "f_lt v FNan = False"
| "f_lt (FInf a) (FInf b) = (a \<and> \<not> b)"
| "f_lt (FInf a) w = a"
| "f_lt v (FInf b) = (\<not> b)"
| "f_lt v w = (f_rat v < f_rat w)"

fun f_le :: "f64 \<Rightarrow> f64 \<Rightarrow> bool" where
  "f_le FNan w = False"
| "f_le v FNan = False"
| "f_le (FInf a) (FInf b) = (a \<or> \<not> b)"
| "f_le (FInf a) w = a"
| "f_le v (FInf b) = (\<not> b)"
| "f_le v w = (f_rat v \<le> f_rat w)"

fun f_eq :: "f64 \<Rightarrow> f64 \<Rightarrow> bool" where
  "f_eq FNan w = False"
| "f_eq v FNan = False"
| "f_eq (FInf a) (FInf b) = (a = b)"
| "f_eq (FInf a) w = False"
| "f_eq v (FInf b) = False"
| "f_eq v w = (f_rat v = f_rat w)"

text \<open>\<open>f64::round\<close>: to the nearest integer, ties away from zero, the sign kept on a zero.\<close>

definition f_round_int :: "f64 \<Rightarrow> f64" where
  "f_round_int v =
     (case v of
        FNum x \<Rightarrow>
          (let n = \<lfloor>\<bar>x\<bar> + 1 / 2\<rfloor> in
           if n = 0 then FZero (x < 0) else FNum (if x < 0 then - of_int n else of_int n))
      | _ \<Rightarrow> v)"

section \<open>Casts and bits\<close>

text \<open>\<open>as f64\<close> of an integer rounds; \<open>as u64\<close> and \<open>as i64\<close> truncate and saturate, a NaN giving zero.\<close>

definition f_of_int :: "int \<Rightarrow> f64" where
  "f_of_int n = f_round binary64 False (of_int n)"

definition trunc_rat :: "rat \<Rightarrow> int" where
  "trunc_rat x = (if x < 0 then - \<lfloor>- x\<rfloor> else \<lfloor>x\<rfloor>)"

definition f_cast :: "int \<Rightarrow> int \<Rightarrow> f64 \<Rightarrow> int" where
  "f_cast lo hi v =
     (case v of
        FNan \<Rightarrow> 0
      | FInf s \<Rightarrow> if s then lo else hi
      | FZero s \<Rightarrow> 0
      | FNum x \<Rightarrow> max lo (min hi (trunc_rat x)))"

definition f_to_u64 :: "f64 \<Rightarrow> u64" where
  "f_to_u64 v = word_of_int (f_cast 0 (2 ^ 64 - 1) v)"

definition f_to_i64 :: "f64 \<Rightarrow> i64" where
  "f_to_i64 v = f_cast i64_min i64_max v"

text \<open>\<open>as f32\<close>; the widening \<open>as f64\<close> is the identity, every \<open>f32\<close> being an \<open>f64\<close>.\<close>

definition f_to_f32 :: "f64 \<Rightarrow> f64" where
  "f_to_f32 v = (case v of FNum x \<Rightarrow> f_round binary32 (x < 0) x | _ \<Rightarrow> v)"

text \<open>
  \<open>from_bits\<close> and \<open>to_bits\<close>: sign bit, biased exponent, significand without its hidden bit.
  The number of a format is \<open>m * 2 ^ (f_exp)\<close> with \<open>m\<close> below \<open>2 ^ prec\<close>; the biased exponent
  is zero exactly when the hidden bit is.
\<close>

definition f_expbits :: "float_format \<Rightarrow> int" where
  "f_expbits fmt = ff_top fmt - ff_emin fmt - int (ff_prec fmt) + 3"

definition bits_to_float :: "float_format \<Rightarrow> int \<Rightarrow> f64" where
  "bits_to_float fmt w =
     (let h = 2 ^ (ff_prec fmt - 1); r = f_expbits fmt;
          m = w mod h; be = (w div h) mod r; s = (w div h div r) mod 2 = 1;
          v = (if be = 0 then of_int m * 2 powi (ff_emin fmt)
               else of_int (m + h) * 2 powi (ff_emin fmt + be - 1))
      in if be = r - 1 then (if m = 0 then FInf s else FNan)
         else if v = 0 then FZero s
         else FNum (if s then - v else v))"

definition float_to_bits :: "float_format \<Rightarrow> f64 \<Rightarrow> int" where
  "float_to_bits fmt v =
     (let h = 2 ^ (ff_prec fmt - 1); r = f_expbits fmt;
          sb = (if f_negative v then r * h else 0)
      in case v of
           FNan \<Rightarrow> (r - 1) * h + h div 2
         | FInf s \<Rightarrow> sb + (r - 1) * h
         | FZero s \<Rightarrow> sb
         | FNum x \<Rightarrow>
             (let m = \<lfloor>\<bar>x\<bar> / f_unit fmt x\<rfloor> in
              if m < h then sb + m
              else sb + (f_exp fmt x - ff_emin fmt + 1) * h + (m - h)))"

definition f32_from_bits :: "u32 \<Rightarrow> f64" where
  "f32_from_bits w = bits_to_float binary32 (uint w)"

definition f32_to_bits :: "f64 \<Rightarrow> u32" where
  "f32_to_bits v = word_of_int (float_to_bits binary32 v)"

definition f64_from_bits :: "u64 \<Rightarrow> f64" where
  "f64_from_bits w = bits_to_float binary64 (uint w)"

definition f64_to_bits :: "f64 \<Rightarrow> u64" where
  "f64_to_bits v = word_of_int (float_to_bits binary64 v)"

section \<open>Bit patterns round trip\<close>
lemma bit_fields:
  fixes m be r h :: int
  assumes "0 \<le> m" "m < h" "0 \<le> be" "be < r" "w = (if s then r * h else 0) + be * h + m"
  shows "w mod h = m" "w div h mod r = be" "w div h div r mod 2 = (if s then 1 else 0)"
proof -
  define k where "k = be + (if s then 1 else 0) * r"
  have w: "w = m + k * h" using assms(5) by (simp add: k_def algebra_simps)
  have h0: "h \<noteq> 0" using assms(1,2) by simp
  have d: "w div h = be + (if s then 1 else 0) * r"
    unfolding w using h0 assms(1,2) by (simp add: k_def [symmetric])
  show "w mod h = m" unfolding w using assms(1,2) by simp
  show "w div h mod r = be" unfolding d using assms(3,4) by simp
  have "(be + (if s then 1 else 0) * r) div r = (if s then 1 else 0)"
    using assms(3,4) by (cases s) simp_all
  then show "w div h div r mod 2 = (if s then 1 else 0)" unfolding d by (cases s) simp_all
qed

lemma ff_ok_facts:
  assumes "ff_ok fmt"
  shows "0 < ff_prec fmt" "2 ^ ff_prec fmt = 2 * (2 ^ (ff_prec fmt - 1) :: int)" "2 \<le> f_expbits fmt"
  using assms by (auto simp: ff_ok_def f_expbits_def simp flip: power_Suc)

definition packed_float :: "float_format \<Rightarrow> bool \<Rightarrow> int \<Rightarrow> int \<Rightarrow> f64" where
  "packed_float fmt s be m =
     (let v = (if be = 0 then of_int m * 2 powi (ff_emin fmt)
               else of_int (m + 2 ^ (ff_prec fmt - 1)) * 2 powi (ff_emin fmt + be - 1))
      in if be = f_expbits fmt - 1 then (if m = 0 then FInf s else FNan)
         else if v = 0 then FZero s
         else FNum (if s then - v else v))"

lemma bits_to_float_packed:
  assumes "0 \<le> m" "m < 2 ^ (ff_prec fmt - 1)" "0 \<le> be" "be < f_expbits fmt"
    and "w = (if s then f_expbits fmt * 2 ^ (ff_prec fmt - 1) else 0) + be * 2 ^ (ff_prec fmt - 1) + m"
  shows "bits_to_float fmt w = packed_float fmt s be m"
proof -
  note f = bit_fields [OF assms]
  have "(if s then 1 else 0 :: int) = 1 \<longleftrightarrow> s" by simp
  then show ?thesis
    unfolding bits_to_float_def Let_def f packed_float_def by (simp only:)
qed

text \<open>Every value of a format is packed from a sign, an exponent field and a significand field.\<close>

definition packs :: "float_format \<Rightarrow> f64 \<Rightarrow> int \<Rightarrow> bool" where
  "packs fmt v w \<longleftrightarrow>
     (\<exists>s be m. 0 \<le> m \<and> m < 2 ^ (ff_prec fmt - 1) \<and> 0 \<le> be \<and> be < f_expbits fmt \<and>
        w = (if s then f_expbits fmt * 2 ^ (ff_prec fmt - 1) else 0) + be * 2 ^ (ff_prec fmt - 1) + m \<and>
        packed_float fmt s be m = v)"

lemma packsI:
  assumes "0 \<le> m" "m < 2 ^ (ff_prec fmt - 1)" "0 \<le> be" "be < f_expbits fmt"
    and "w = (if s then f_expbits fmt * 2 ^ (ff_prec fmt - 1) else 0) + be * 2 ^ (ff_prec fmt - 1) + m"
    and "packed_float fmt s be m = v"
  shows "packs fmt v w"
  using assms unfolding packs_def by blast

lemma float_bits_num:
  assumes "f_repr fmt x" and ok: "ff_ok fmt"
  shows "packs fmt (FNum x) (float_to_bits fmt (FNum x))"
proof -
  let ?h = "2 ^ (ff_prec fmt - 1) :: int" and ?r = "f_expbits fmt"
  note facts = ff_ok_facts [OF ok]
  obtain m where ax: "\<bar>x\<bar> = of_int m * f_unit fmt x" and m0: "0 < m" and mp: "m < 2 ^ ff_prec fmt"
    and small: "m < ?h \<Longrightarrow> f_exp fmt x = ff_emin fmt"
    and large: "?h \<le> m \<Longrightarrow> f_exp fmt x + int (ff_prec fmt) \<le> ff_top fmt"
    using f_repr_significand [OF assms(1) facts(1)] by metis
  have x0: "x \<noteq> 0" using assms(1) by (simp add: f_repr_def)
  have fl: "\<lfloor>\<bar>x\<bar> / f_unit fmt x\<rfloor> = m" using ax by (simp add: f_unit_def)
  have eq: "FNum (if x < 0 then - \<bar>x\<bar> else \<bar>x\<bar>) = FNum x" by simp
  show ?thesis
  proof (cases "m < ?h")
    case True
    have "float_to_bits fmt (FNum x) = (if x < 0 then ?r * ?h else 0) + 0 * ?h + m"
      using True fl by (simp add: float_to_bits_def Let_def f_negative_def)
    moreover have "of_int m * 2 powi (ff_emin fmt) = \<bar>x\<bar>"
      using ax small [OF True] by (simp add: f_unit_def)
    then have "packed_float fmt (x < 0) 0 m = FNum x"
      using facts x0 eq by (simp add: packed_float_def Let_def)
    ultimately show ?thesis
      using m0 True facts by (intro packsI [where s = "x < 0" and be = 0 and m = m]) simp_all
  next
    case False
    let ?be = "f_exp fmt x - ff_emin fmt + 1"
    have "ff_emin fmt \<le> f_exp fmt x" by (simp add: f_exp_def)
    then have be: "0 < ?be" "?be < ?r - 1"
      using large False unfolding f_expbits_def by linarith+
    have "float_to_bits fmt (FNum x) = (if x < 0 then ?r * ?h else 0) + ?be * ?h + (m - ?h)"
      using False fl by (simp add: float_to_bits_def Let_def f_negative_def)
    moreover have "of_int (m - ?h + ?h) * 2 powi (ff_emin fmt + ?be - 1) = \<bar>x\<bar>"
      using ax by (simp add: f_unit_def)
    then have "packed_float fmt (x < 0) ?be (m - ?h) = FNum x"
      using be x0 eq unfolding packed_float_def Let_def by (simp only: abs_eq_0 if_False refl)
        (simp add: algebra_simps)
    moreover have "0 \<le> m - ?h" "m - ?h < ?h" "0 \<le> ?be" "?be < ?r"
      using mp False facts be by linarith+
    ultimately show ?thesis
      by (intro packsI [where s = "x < 0" and be = ?be and m = "m - ?h"])
  qed
qed

lemma float_to_bits_packs:
  assumes "f_wf fmt v" and ok: "ff_ok fmt"
  shows "packs fmt v (float_to_bits fmt v)"
proof (cases v)
  case FNan
  let ?h = "2 ^ (ff_prec fmt - 1) :: int"
  have h: "0 < ?h div 2" "?h div 2 < ?h"
    using ok self_le_power [of "2::int" "ff_prec fmt - 1"] by (auto simp: ff_ok_def)
  then show ?thesis
    using ff_ok_facts [OF ok]
    by (intro packsI [where s = False and be = "f_expbits fmt - 1" and m = "?h div 2"])
      (simp_all add: FNan float_to_bits_def f_negative_def Let_def packed_float_def)
next
  case (FNum x)
  then show ?thesis using assms float_bits_num by (simp add: f_wf_def)
next
  case (FInf s)
  then show ?thesis
    using ff_ok_facts [OF ok]
    by (intro packsI [where s = s and be = "f_expbits fmt - 1" and m = 0])
      (simp_all add: float_to_bits_def f_negative_def Let_def packed_float_def)
next
  case (FZero s)
  then show ?thesis
    using ff_ok_facts [OF ok]
    by (intro packsI [where s = s and be = 0 and m = 0])
      (simp_all add: float_to_bits_def f_negative_def Let_def packed_float_def)
qed

lemma float_bits_round_trip:
  assumes "f_wf fmt v" and "ff_ok fmt"
  shows "bits_to_float fmt (float_to_bits fmt v) = v"
  using float_to_bits_packs [OF assms] unfolding packs_def by (elim exE conjE) (metis bits_to_float_packed)

lemma float_to_bits_range:
  assumes "f_wf fmt v" and "ff_ok fmt"
  shows "0 \<le> float_to_bits fmt v" and "float_to_bits fmt v < 2 * (f_expbits fmt * 2 ^ (ff_prec fmt - 1))"
proof -
  let ?h = "2 ^ (ff_prec fmt - 1) :: int" and ?r = "f_expbits fmt"
  obtain s be m where p: "0 \<le> m" "m < ?h" "0 \<le> be" "be < ?r"
    and w: "float_to_bits fmt v = (if s then ?r * ?h else 0) + be * ?h + m"
    using float_to_bits_packs [OF assms] unfolding packs_def by blast
  have "(be + 1) * ?h \<le> ?r * ?h" by (rule mult_right_mono) (use p in simp_all)
  then have hi: "be * ?h + m < ?r * ?h" using p(2) by (simp add: algebra_simps)
  have lo: "0 \<le> be * ?h + m" using p by simp
  show "0 \<le> float_to_bits fmt v" "float_to_bits fmt v < 2 * (?r * ?h)"
    unfolding w using lo hi by (cases s; simp)+
qed

lemma f64_bits_round_trip [simp]:
  assumes "f_wf binary64 v"
  shows "f64_from_bits (f64_to_bits v) = v"
proof -
  have "0 \<le> float_to_bits binary64 v" "float_to_bits binary64 v < 2 ^ 64"
    using float_to_bits_range [OF assms ff_ok_binary(1)] by (simp_all add: f_expbits_def binary64_def)
  then show ?thesis
    by (simp add: f64_from_bits_def f64_to_bits_def uint_word_of_int_eq take_bit_int_eq_self
        float_bits_round_trip [OF assms])
qed

lemma f32_bits_round_trip [simp]:
  assumes "f_wf binary32 v"
  shows "f32_from_bits (f32_to_bits v) = v"
proof -
  have "0 \<le> float_to_bits binary32 v" "float_to_bits binary32 v < 2 ^ 32"
    using float_to_bits_range [OF assms ff_ok_binary(2)] by (simp_all add: f_expbits_def binary32_def)
  then show ?thesis
    by (simp add: f32_from_bits_def f32_to_bits_def uint_word_of_int_eq take_bit_int_eq_self
        float_bits_round_trip [OF assms])
qed

section \<open>Every operation stays in the format\<close>

lemma round_even_bounds: "x - 1 / 2 \<le> of_int (round_even x)" "of_int (round_even x) \<le> x + 1 / 2"
  by (simp_all add: round_even_def Let_def) linarith+

lemma round_even_abs_le:
  assumes "\<bar>x\<bar> < of_int k"
  shows "\<bar>round_even x\<bar> \<le> k"
proof -
  have "of_int (round_even x) < (of_int (k + 1) :: rat)"
    using round_even_bounds [of x] assms unfolding of_int_add by simp
  moreover have "of_int (- k - 1) < (of_int (round_even x) :: rat)"
    using round_even_bounds [of x] assms unfolding of_int_diff of_int_minus by simp
  ultimately show ?thesis unfolding of_int_less_iff by linarith
qed

lemma f_round_wf:
  assumes "ff_ok fmt"
  shows "f_wf fmt (f_round fmt s x)"
proof (cases "x = 0")
  case True
  then show ?thesis by (simp add: f_round_def f_wf_def)
next
  case False
  let ?p = "ff_prec fmt" and ?e = "f_exp fmt x" and ?u = "f_unit fmt x"
  define n where "n = round_even (x / ?u)"
  define y where "y = of_int n * ?u"
  have u: "?u = 2 powi ?e" by (simp add: f_unit_def)
  have "2 powi (ulog2 \<bar>x\<bar> + 1) \<le> (2::rat) powi (int ?p + ?e)"
    by (rule powi2_mono) (simp add: f_exp_def)
  then have "\<bar>x\<bar> < 2 powi (int ?p + ?e)"
    using ulog2_bounds(2) [of "\<bar>x\<bar>"] False by simp
  then have "\<bar>x / ?u\<bar> < 2 ^ ?p" by (simp add: u power_int_add field_simps)
  then have n: "\<bar>n\<bar> \<le> 2 ^ ?p" unfolding n_def by (intro round_even_abs_le) simp
  have "f_repr fmt y" if y0: "y \<noteq> 0" and lt: "\<bar>y\<bar> < 2 powi (ff_top fmt)"
  proof -
    have ay: "\<bar>y\<bar> = of_int \<bar>n\<bar> * 2 powi ?e" by (simp add: y_def u abs_mult)
    have "y / f_unit fmt y \<in> \<int>"
    proof (cases "\<bar>n\<bar> = 2 ^ ?p")
      case True
      have "\<bar>y\<bar> = 2 powi (int ?p + ?e)" unfolding ay True by (simp add: power_int_add)
      then have "ulog2 \<bar>y\<bar> = int ?p + ?e" by (intro ulog2_eqI) (simp_all add: power_int_add)
      then have fe: "f_exp fmt y = ?e + 1" by (simp add: f_exp_def)
      have "?p \<noteq> 0" using assms by (auto simp: ff_ok_def)
      then have "even \<bar>n\<bar>" using True by simp
      then obtain k where k: "n = 2 * k" by (auto elim: evenE)
      have fu: "f_unit fmt y = 2 * 2 powi ?e" by (simp add: f_unit_def fe power_int_add)
      have "y / f_unit fmt y = of_int k" unfolding fu by (simp add: y_def u k)
      then show ?thesis by (metis Ints_of_int)
    next
      case False
      then have "\<bar>n\<bar> < 2 ^ ?p" using n by simp
      then have "of_int \<bar>n\<bar> < (2::rat) ^ ?p" by (metis of_int_less_iff of_int_numeral of_int_power)
      then have "\<bar>y\<bar> < 2 ^ ?p * 2 powi ?e" unfolding ay by (rule mult_strict_right_mono) simp
      then have "\<bar>y\<bar> < 2 powi (int ?p + ?e)" by (simp add: power_int_add)
      then have "2 powi (ulog2 \<bar>y\<bar>) < (2::rat) powi (int ?p + ?e)"
        using ulog2_bounds(1) [of "\<bar>y\<bar>"] y0 by (simp add: order.strict_trans1)
      then have "ulog2 \<bar>y\<bar> < int ?p + ?e" by (rule powi2_less_cancel)
      then have le: "f_exp fmt y \<le> ?e" by (simp add: f_exp_def)
      have "y / f_unit fmt y = of_int n * 2 powi (?e - f_exp fmt y)"
        by (simp add: y_def u f_unit_def power_int_diff)
      also have "\<dots> = of_int (n * 2 ^ nat (?e - f_exp fmt y))"
        using le by (simp add: power_int_nonneg_exp)
      finally show ?thesis by (metis Ints_of_int)
    qed
    then show ?thesis using y0 lt by (simp add: f_repr_def)
  qed
  moreover have "f_round fmt s x =
      (if y = 0 then FZero (x < 0) else if 2 powi (ff_top fmt) \<le> \<bar>y\<bar> then FInf (x < 0) else FNum y)"
    using False by (simp only: f_round_def Let_def if_False n_def y_def)
  ultimately show ?thesis by (simp add: f_wf_def)
qed

lemma f_wf_simps [simp]:
  "f_wf fmt FNan" "f_wf fmt (FInf s)" "f_wf fmt (FZero s)"
  by (simp_all add: f_wf_def)

lemma ulog2_neg_unit [simp]: "f_unit fmt (- x) = f_unit fmt x"
  by (simp add: f_unit_def f_exp_def)

lemma f_wf_neg [simp]: "f_wf fmt (f_neg v) \<longleftrightarrow> f_wf fmt v"
  by (cases v) (auto simp: f_wf_def f_neg_def f_repr_def)

lemma f_wf_add [intro]: "f_wf binary64 v \<Longrightarrow> f_wf binary64 w \<Longrightarrow> f_wf binary64 (f_add v w)"
  by (cases "(v, w)" rule: f_add.cases) (simp_all add: f_round_wf)

lemma f_wf_sub [intro]: "f_wf binary64 v \<Longrightarrow> f_wf binary64 w \<Longrightarrow> f_wf binary64 (f_sub v w)"
  by (simp add: f_sub_def f_wf_add)

lemma f_wf_mul [intro]: "f_wf binary64 (f_mul v w)"
  by (cases "(v, w)" rule: f_mul.cases) (simp_all add: f_round_wf)

lemma f_wf_div [intro]: "f_wf binary64 (f_div v w)"
  by (cases "(v, w)" rule: f_div.cases) (simp_all add: f_round_wf)

lemma f_wf_of_int [intro]: "f_wf binary64 (f_of_int n)"
  by (simp add: f_of_int_def f_round_wf)

lemma f_wf_to_f32 [intro]: "f_wf binary32 (f_to_f32 v)"
  by (cases v) (simp_all add: f_to_f32_def f_round_wf)

section \<open>Integers\<close>

lemma f_repr_int64:
  assumes "n \<noteq> 0" and "\<bar>n\<bar> \<le> 2 ^ 53"
  shows "f_repr binary64 (of_int n)"
  by (rule f_repr_of_int) (use assms in \<open>simp_all add: binary64_def\<close>)

lemma f_of_int_exact: "n \<noteq> 0 \<Longrightarrow> \<bar>n\<bar> \<le> 2 ^ 53 \<Longrightarrow> f_of_int n = FNum (of_int n)"
  by (simp add: f_of_int_def f_round_repr f_repr_int64)

lemma f_of_int_0 [simp]: "f_of_int 0 = FZero False"
  by (simp add: f_of_int_def f_round_def)

lemma f_round_int_of_int [simp]: "n \<noteq> 0 \<Longrightarrow> f_round_int (FNum (of_int n)) = FNum (of_int n)"
proof -
  assume n: "n \<noteq> 0"
  have "\<lfloor>\<bar>of_int n :: rat\<bar> + 1 / 2\<rfloor> = \<bar>n\<bar>" by (rule floor_unique) simp_all
  then show ?thesis using n by (simp add: f_round_int_def Let_def)
qed

text \<open>The integer a rounded finite value is.\<close>

definition f_int :: "f64 \<Rightarrow> int" where
  "f_int v = (let x = f_rat v; n = \<lfloor>\<bar>x\<bar> + 1 / 2\<rfloor> in if x < 0 then - n else n)"

lemma floor_half [simp]: "\<lfloor>1 / 2 :: rat\<rfloor> = 0"
  by (rule floor_unique) simp_all

lemma f_round_int_finite:
  assumes "f_is_finite v"
  shows "f_rat (f_round_int v) = of_int (f_int v)"
  using assms by (cases v) (auto simp: f_is_finite_def f_round_int_def f_int_def f_rat_def Let_def)

lemma f_round_int_finite_iff [simp]: "f_is_finite (f_round_int v) = f_is_finite v"
  by (cases v) (auto simp: f_is_finite_def f_round_int_def Let_def)

lemma f_lt_finite: "f_is_finite v \<Longrightarrow> f_is_finite w \<Longrightarrow> f_lt v w \<longleftrightarrow> f_rat v < f_rat w"
  by (cases v; cases w) (auto simp: f_is_finite_def)

lemma trunc_rat_of_int [simp]: "trunc_rat (of_int n) = n"
  by (simp add: trunc_rat_def)

lemma f_cast_finite: "f_is_finite v \<Longrightarrow> lo \<le> 0 \<Longrightarrow> 0 \<le> hi \<Longrightarrow> f_cast lo hi v = max lo (min hi (trunc_rat (f_rat v)))"
  by (cases v) (auto simp: f_is_finite_def f_cast_def f_rat_def trunc_rat_def)

lemma f_to_u64_finite:
  "f_is_finite v \<Longrightarrow> f_rat v = of_int n \<Longrightarrow> 0 \<le> n \<Longrightarrow> n < 2 ^ 64 \<Longrightarrow> f_to_u64 v = word_of_int n"
  by (simp add: f_to_u64_def f_cast_finite)

lemma f_to_i64_finite:
  "f_is_finite v \<Longrightarrow> f_rat v = of_int n \<Longrightarrow> in_i64 n \<Longrightarrow> f_to_i64 v = n"
  by (simp add: f_to_i64_def f_cast_finite in_i64_def i64_min_def i64_max_def)

end
