(* ===== verification/Cdm_Covariance.thy ===== *)
theory Cdm_Covariance
  imports Float64
begin

text \<open>
  The covariance check of \<open>av-cdm/src/covariance.rs\<close>. A matrix is stored by columns, as the
  linear-algebra crate stores it; the Cholesky factorisation is that crate's and is a parameter,
  returning the lower factor or nothing. The process-wide failure counter is the state.
\<close>

record dmatrix =
  dm_rows :: nat
  dm_cols :: nat
  dm_data :: "f64 list"

definition dm_at :: "dmatrix \<Rightarrow> nat \<Rightarrow> nat \<Rightarrow> f64" where
  "dm_at m i j = dm_data m ! (j * dm_rows m + i)"

definition from_row_slice :: "nat \<Rightarrow> nat \<Rightarrow> f64 list \<Rightarrow> dmatrix" where
  "from_row_slice r c xs =
     \<lparr>dm_rows = r, dm_cols = c, dm_data = concat (map (\<lambda>j. map (\<lambda>i. xs ! (i * c + j)) [0..<r]) [0..<c])\<rparr>"

record cholesky_diagnostics =
  cd_n :: nat
  cd_min_diag_sq :: f64

datatype covariance_error =
    DimensionMismatch string nat nat
  | NotSquare string nat nat
  | NotFinite string nat
  | NotSymmetric string nat nat f64
  | NotPositiveDefinite string

definition f_abs :: "f64 \<Rightarrow> f64" where
  "f_abs v = (case v of FNan \<Rightarrow> FNan | FInf s \<Rightarrow> FInf False | FZero s \<Rightarrow> FZero False | FNum x \<Rightarrow> FNum \<bar>x\<bar>)"

text \<open>\<open>f64::max\<close> and \<open>f64::min\<close> ignore a NaN.\<close>

definition f_max :: "f64 \<Rightarrow> f64 \<Rightarrow> f64" where
  "f_max v w = (if v = FNan then w else if w = FNan then v else if f_lt v w then w else v)"

definition f_min :: "f64 \<Rightarrow> f64 \<Rightarrow> f64" where
  "f_min v w = (if v = FNan then w else if w = FNan then v else if f_lt w v then w else v)"

definition symmetry_rtol :: f64 where
  "symmetry_rtol = f_round binary64 False (1 / 10 ^ 9)"

primrec first_index :: "('a \<Rightarrow> bool) \<Rightarrow> 'a list \<Rightarrow> nat option" where
  "first_index P [] = None"
| "first_index P (x # xs) = (if P x then Some 0 else map_option Suc (first_index P xs))"

definition asymmetry :: "dmatrix \<Rightarrow> nat \<times> nat \<Rightarrow> f64" where
  "asymmetry m = (\<lambda>(i, j). f_abs (f_sub (dm_at m i j) (dm_at m j i)))"

definition too_asymmetric :: "dmatrix \<Rightarrow> nat \<times> nat \<Rightarrow> bool" where
  "too_asymmetric m ij =
     (case ij of (i, j) \<Rightarrow>
        f_lt (f_mul symmetry_rtol (f_max (f_max (f_abs (dm_at m i j)) (f_abs (dm_at m j i))) (f_of_int 1)))
          (asymmetry m (i, j)))"

definition upper_pairs :: "nat \<Rightarrow> (nat \<times> nat) list" where
  "upper_pairs n = concat (map (\<lambda>i. map (\<lambda>j. (i, j)) [i + 1..<n]) [0..<n])"

definition check_spd ::
  "(dmatrix \<Rightarrow> dmatrix option) \<Rightarrow> dmatrix \<Rightarrow> string \<Rightarrow> nat \<Rightarrow> (covariance_error + cholesky_diagnostics) \<times> nat" where
  "check_spd cholesky m context fails =
     (let n = dm_rows m in
      if dm_rows m \<noteq> dm_cols m then (Inl (NotSquare context (dm_rows m) (dm_cols m)), fails + 1)
      else case first_index (\<lambda>v. \<not> f_is_finite v) (dm_data m) of
             Some index \<Rightarrow> (Inl (NotFinite context index), fails + 1)
           | None \<Rightarrow>
               (case find (too_asymmetric m) (upper_pairs n) of
                  Some (i, j) \<Rightarrow> (Inl (NotSymmetric context i j (asymmetry m (i, j))), fails + 1)
                | None \<Rightarrow>
                    (case cholesky m of
                       Some l \<Rightarrow>
                         (Inr \<lparr>cd_n = n,
                               cd_min_diag_sq = foldl (\<lambda>a i. f_min a (f_mul (dm_at l i i) (dm_at l i i))) (FInf False) [0..<n]\<rparr>,
                          fails)
                     | None \<Rightarrow> (Inl (NotPositiveDefinite context), fails + 1))))"

definition check_spd_row_major ::
  "(dmatrix \<Rightarrow> dmatrix option) \<Rightarrow> f64 list \<Rightarrow> nat \<Rightarrow> string \<Rightarrow> nat
     \<Rightarrow> (covariance_error + cholesky_diagnostics) \<times> nat" where
  "check_spd_row_major cholesky cov n context fails =
     (if length cov \<noteq> n * n then (Inl (DimensionMismatch context (n * n) (length cov)), fails + 1)
      else check_spd cholesky (from_row_slice n n cov) context fails)"

text \<open>The counter moves exactly with the refusals.\<close>

lemma check_spd_counts:
  "snd (check_spd cholesky m ctx fails) = fails + (case fst (check_spd cholesky m ctx fails) of Inl e \<Rightarrow> 1 | Inr d \<Rightarrow> 0)"
  by (auto simp: check_spd_def Let_def split: option.split prod.split)

lemma check_spd_row_major_counts:
  "snd (check_spd_row_major cholesky cov n ctx fails) =
     fails + (case fst (check_spd_row_major cholesky cov n ctx fails) of Inl e \<Rightarrow> 1 | Inr d \<Rightarrow> 0)"
  using check_spd_counts by (simp add: check_spd_row_major_def)

lemma first_index_None [simp]: "first_index P xs = None \<longleftrightarrow> (\<forall>x \<in> set xs. \<not> P x)"
  by (induction xs) auto

lemma check_spd_ok:
  "(\<exists>d. fst (check_spd cholesky m ctx fails) = Inr d) \<longleftrightarrow>
     dm_rows m = dm_cols m \<and> (\<forall>v \<in> set (dm_data m). f_is_finite v) \<and>
     (\<forall>i j. i < j \<and> j < dm_rows m \<longrightarrow> \<not> too_asymmetric m (i, j)) \<and> cholesky m \<noteq> None"
proof -
  have u: "(i, j) \<in> set (upper_pairs n) \<longleftrightarrow> i < j \<and> j < n" for i j n
    by (auto simp: upper_pairs_def intro!: bexI [of _ i])
  have f: "find (too_asymmetric m) (upper_pairs (dm_rows m)) = None \<longleftrightarrow>
      (\<forall>i j. i < j \<and> j < dm_rows m \<longrightarrow> \<not> too_asymmetric m (i, j))"
    by (auto simp: find_None_iff u)
  have g: "(\<forall>v \<in> set (dm_data m). f_is_finite v) \<longleftrightarrow> first_index (\<lambda>v. \<not> f_is_finite v) (dm_data m) = None"
    by simp
  show ?thesis
    unfolding f [symmetric] g
    by (cases "first_index (\<lambda>v. \<not> f_is_finite v) (dm_data m)")
      (auto simp: check_spd_def Let_def simp del: first_index_None split: option.split prod.split)
qed

end
