(* ===== verification/Codec.thy ===== *)
theory Codec
  imports Float64
begin

text \<open>
  The CCSDS space packet codec of \<open>av-codec/src/lib.rs\<close>: load-time validation of a codec, bit
  fields most significant bit first, the engineering conversion of a field, encoding and
  decoding of a packet, and the measurements a decoded telemetry packet maps to. A Rust panic
  (an index or a slice out of range) is the value \<open>Inl Panic\<close>; shifts of a machine integer
  take their amount modulo the width and plain operators wrap, as the release build does. The
  message texts of the errors are left out; every other payload is kept.
\<close>

section \<open>Data\<close>

datatype packet_field_type =
    Pft_Unspecified | Pft_Uint | Pft_Int | Pft_Float32 | Pft_Float64 | Pft_Bytes

text \<open>\<open>PacketFieldType::try_from(i32)\<close> with the default the callers give it.\<close>

definition packet_field_type_of :: "int \<Rightarrow> packet_field_type" where
  "packet_field_type_of t =
     (if t = 1 then Pft_Uint else if t = 2 then Pft_Int else if t = 3 then Pft_Float32
      else if t = 4 then Pft_Float64 else if t = 5 then Pft_Bytes else Pft_Unspecified)"

record packet_field =
  pf_name :: string
  pf_bit_offset :: u32
  pf_bit_width :: u32
  pf_type :: int
  pf_scale :: f64
  pf_offset :: f64
  pf_target :: string

record packet_codec =
  pc_id :: string
  pc_apid :: u32
  pc_is_command :: bool
  pc_secondary_header_bytes :: u32
  pc_fields :: "packet_field list"
  pc_user_data_bytes :: u32

datatype field_value = Numeric f64 | FBytes bytes

record decoded_packet =
  dp_apid :: u32
  dp_is_command :: bool
  dp_sequence_count :: u16
  dp_fields :: "string \<rightharpoonup> field_value"

datatype codec_error =
    ApidOutOfRange string u32
  | InvalidUserDataBytes string u32
  | UnspecifiedFieldType string string
  | InvalidFieldWidth string string packet_field_type u32 u32
  | FieldExtentExceedsUserData string string u32 u32 u32
  | DuplicateApid u32 string string
  | SequenceCountOutOfRange u32
  | SecondaryHeaderLengthMismatch string u32 nat
  | MissingFieldValue string string
  | FieldValueTypeMismatch string string
  | FieldValueOutOfRange string string
  | PacketTooShortForHeader nat
  | UnknownApid u32
  | PacketDataLengthMismatch u32 string u32 u32
  | PacketLengthMismatch u32 string nat nat
  | MeasurementNoiseNotSpd string
  | MeasurementFieldValueMissing string string
  | MeasurementFieldValueNotNumeric string string

datatype codec_fault = Panic | Refused codec_error

abbreviation refuse_codec :: "codec_error \<Rightarrow> codec_fault + 'a" where
  "refuse_codec e \<equiv> Inl (Refused e)"

section \<open>Load-time validation\<close>

definition max_apid :: u32 where "max_apid = 0x7FF"
definition max_sequence_count :: u32 where "max_sequence_count = 0x3FFF"

definition width_ok :: "packet_field_type \<Rightarrow> packet_field \<Rightarrow> bool" where
  "width_ok ty f =
     (case ty of
        Pft_Uint \<Rightarrow> pf_bit_width f \<le> 64
      | Pft_Int \<Rightarrow> 2 \<le> pf_bit_width f \<and> pf_bit_width f \<le> 64
      | Pft_Float32 \<Rightarrow> pf_bit_width f = 32
      | Pft_Float64 \<Rightarrow> pf_bit_width f = 64
      | Pft_Bytes \<Rightarrow> pf_bit_width f mod 8 = 0 \<and> pf_bit_offset f mod 8 = 0
      | Pft_Unspecified \<Rightarrow> False)"

text \<open>The sums of the extent checks are taken in \<open>u64\<close>, where they cannot wrap.\<close>

definition bit_end :: "packet_field \<Rightarrow> u64" where
  "bit_end f = ucast (pf_bit_offset f) + ucast (pf_bit_width f)"

definition validate_field :: "packet_codec \<Rightarrow> packet_field \<Rightarrow> codec_fault + unit" where
  "validate_field c f =
     (let ty = packet_field_type_of (pf_type f) in
      if ty = Pft_Unspecified then refuse_codec (UnspecifiedFieldType (pc_id c) (pf_name f))
      else if pf_bit_width f = 0 then
        refuse_codec (InvalidFieldWidth (pc_id c) (pf_name f) ty (pf_bit_offset f) (pf_bit_width f))
      else if ucast (pc_user_data_bytes c) * 8 < bit_end f then
        refuse_codec (FieldExtentExceedsUserData (pc_id c) (pf_name f) (pf_bit_offset f)
          (pf_bit_width f) (pc_user_data_bytes c))
      else if \<not> width_ok ty f then
        refuse_codec (InvalidFieldWidth (pc_id c) (pf_name f) ty (pf_bit_offset f) (pf_bit_width f))
      else Inr ())"

primrec validate_fields :: "packet_codec \<Rightarrow> packet_field list \<Rightarrow> codec_fault + unit" where
  "validate_fields c [] = Inr ()"
| "validate_fields c (f # fs) = ebind (validate_field c f) (\<lambda>_. validate_fields c fs)"

definition validate_codec :: "packet_codec \<Rightarrow> codec_fault + unit" where
  "validate_codec c =
     (if max_apid < pc_apid c then refuse_codec (ApidOutOfRange (pc_id c) (pc_apid c))
      else if pc_user_data_bytes c = 0 \<or> 65536 < pc_user_data_bytes c then
        refuse_codec (InvalidUserDataBytes (pc_id c) (pc_user_data_bytes c))
      else validate_fields c (pc_fields c))"

type_synonym apid_map = "u32 \<rightharpoonup> packet_codec"

primrec add_codecs :: "apid_map \<Rightarrow> packet_codec list \<Rightarrow> codec_fault + apid_map" where
  "add_codecs m [] = Inr m"
| "add_codecs m (c # cs) =
     ebind (validate_codec c) (\<lambda>_.
       case m (pc_apid c) of
         Some old \<Rightarrow> refuse_codec (DuplicateApid (pc_apid c) (pc_id old) (pc_id c))
       | None \<Rightarrow> add_codecs (m(pc_apid c \<mapsto> c)) cs)"

definition validate_system_packet_codecs :: "packet_codec list \<Rightarrow> codec_fault + apid_map" where
  "validate_system_packet_codecs cs = add_codecs Map.empty cs"

section \<open>Bit fields\<close>

definition byte_idx :: "u32 \<Rightarrow> nat \<Rightarrow> nat" where
  "byte_idx off i = unat ((off + of_nat i) div 8)"

definition bit_in_byte :: "u32 \<Rightarrow> nat \<Rightarrow> nat" where
  "bit_in_byte off i = unat (7 - (off + of_nat i) mod 8)"

primrec read_bits :: "bytes \<Rightarrow> u32 \<Rightarrow> u64 \<Rightarrow> nat list \<Rightarrow> codec_fault + u64" where
  "read_bits data off v [] = Inr v"
| "read_bits data off v (i # is) =
     (if byte_idx off i < length data
      then let b = drop_bit (bit_in_byte off i) (data ! byte_idx off i) AND 1
           in read_bits data off (push_bit 1 v OR ucast b) is
      else Inl Panic)"

definition read_bitfield_u64 :: "bytes \<Rightarrow> u32 \<Rightarrow> u32 \<Rightarrow> codec_fault + u64" where
  "read_bitfield_u64 data off w = read_bits data off 0 [0..<unat w]"

primrec write_bits :: "bytes \<Rightarrow> u32 \<Rightarrow> u32 \<Rightarrow> u64 \<Rightarrow> nat list \<Rightarrow> codec_fault + bytes" where
  "write_bits data off w value [] = Inr data"
| "write_bits data off w value (i # is) =
     (if byte_idx off i < length data
      then let b = ucast (drop_bit (unat (w - 1 - of_nat i) mod 64) value AND 1) :: u8;
               k = bit_in_byte off i; j = byte_idx off i
           in write_bits (data[j := (data ! j AND NOT (push_bit k 1)) OR push_bit k b]) off w value is
      else Inl Panic)"

definition write_bitfield_u64 :: "bytes \<Rightarrow> u32 \<Rightarrow> u32 \<Rightarrow> u64 \<Rightarrow> codec_fault + bytes" where
  "write_bitfield_u64 data off w value = write_bits data off w value [0..<unat w]"

definition sign_extend :: "u64 \<Rightarrow> u32 \<Rightarrow> i64" where
  "sign_extend raw w =
     (let k = unat (64 - w) mod 64 in sint (signed_drop_bit k (push_bit k raw)))"

definition max_uint :: "u32 \<Rightarrow> u64" where
  "max_uint w = (if 64 \<le> w then - 1 else push_bit (unat w) 1 - 1)"

text \<open>For widths below 1 the signed shift amount wraps; validated fields are at least 2 wide.\<close>

definition int_range :: "u32 \<Rightarrow> i64 \<times> i64" where
  "int_range w =
     (if 64 \<le> w then (i64_min, i64_max)
      else let p = sint (push_bit (unat (w - 1) mod 64) 1 :: u64)
           in (wrap_i64 (- p), wrap_i64 (p - 1)))"

section \<open>Fields\<close>

definition effective_scale :: "f64 \<Rightarrow> f64" where
  "effective_scale scale = (if f_eq scale (FZero False) then f_of_int 1 else scale)"

definition numeric_value :: "field_value \<Rightarrow> string \<Rightarrow> string \<Rightarrow> codec_fault + f64" where
  "numeric_value v cid fld =
     (case v of Numeric x \<Rightarrow> Inr x | FBytes b \<Rightarrow> refuse_codec (FieldValueTypeMismatch cid fld))"

definition check_field_extent :: "packet_field \<Rightarrow> u32 \<Rightarrow> string \<Rightarrow> codec_fault + unit" where
  "check_field_extent f user_data_bytes cid =
     (if ucast user_data_bytes * 8 < bit_end f then
        refuse_codec (FieldExtentExceedsUserData cid (pf_name f) (pf_bit_offset f) (pf_bit_width f)
          user_data_bytes)
      else Inr ())"

text \<open>\<open>raw * scale + offset\<close> and its inverse.\<close>

definition engineering :: "packet_field \<Rightarrow> f64 \<Rightarrow> f64" where
  "engineering f raw = f_add (f_mul raw (effective_scale (pf_scale f))) (pf_offset f)"

definition raw_of :: "packet_field \<Rightarrow> f64 \<Rightarrow> f64" where
  "raw_of f eng = f_div (f_sub eng (pf_offset f)) (effective_scale (pf_scale f))"

definition read_field :: "bytes \<Rightarrow> packet_field \<Rightarrow> string \<Rightarrow> codec_fault + field_value" where
  "read_field ud f cid =
     (case packet_field_type_of (pf_type f) of
        Pft_Uint \<Rightarrow>
          ebind (read_bitfield_u64 ud (pf_bit_offset f) (pf_bit_width f)) (\<lambda>raw.
            Inr (Numeric (engineering f (f_of_int (uint raw)))))
      | Pft_Int \<Rightarrow>
          ebind (read_bitfield_u64 ud (pf_bit_offset f) (pf_bit_width f)) (\<lambda>raw.
            Inr (Numeric (engineering f (f_of_int (sign_extend raw (pf_bit_width f))))))
      | Pft_Float32 \<Rightarrow>
          ebind (read_bitfield_u64 ud (pf_bit_offset f) 32) (\<lambda>raw.
            Inr (Numeric (engineering f (f32_from_bits (ucast raw)))))
      | Pft_Float64 \<Rightarrow>
          ebind (read_bitfield_u64 ud (pf_bit_offset f) 64) (\<lambda>raw.
            Inr (Numeric (engineering f (f64_from_bits raw))))
      | Pft_Bytes \<Rightarrow>
          (let start = unat (pf_bit_offset f div 8); len = unat (pf_bit_width f div 8) in
           if start + len \<le> length ud then Inr (FBytes (take len (drop start ud))) else Inl Panic)
      | Pft_Unspecified \<Rightarrow> refuse_codec (UnspecifiedFieldType cid (pf_name f)))"

definition write_field :: "bytes \<Rightarrow> packet_field \<Rightarrow> field_value \<Rightarrow> string \<Rightarrow> codec_fault + bytes" where
  "write_field ud f v cid =
     (case packet_field_type_of (pf_type f) of
        Pft_Uint \<Rightarrow>
          ebind (numeric_value v cid (pf_name f)) (\<lambda>eng.
            let raw = raw_of f eng in
            if \<not> f_is_finite raw \<or> f_lt raw (FZero False)
               \<or> f_lt (f_of_int (uint (max_uint (pf_bit_width f)))) (f_round_int raw)
            then refuse_codec (FieldValueOutOfRange cid (pf_name f))
            else write_bitfield_u64 ud (pf_bit_offset f) (pf_bit_width f) (f_to_u64 (f_round_int raw)))
      | Pft_Int \<Rightarrow>
          ebind (numeric_value v cid (pf_name f)) (\<lambda>eng.
            let raw = raw_of f eng; (lo, hi) = int_range (pf_bit_width f) in
            if \<not> f_is_finite raw \<or> f_lt (f_round_int raw) (f_of_int lo)
               \<or> f_lt (f_of_int hi) (f_round_int raw)
            then refuse_codec (FieldValueOutOfRange cid (pf_name f))
            else write_bitfield_u64 ud (pf_bit_offset f) (pf_bit_width f)
                   (word_of_int (f_to_i64 (f_round_int raw)) AND max_uint (pf_bit_width f)))
      | Pft_Float32 \<Rightarrow>
          ebind (numeric_value v cid (pf_name f)) (\<lambda>eng.
            write_bitfield_u64 ud (pf_bit_offset f) 32
              (ucast (f32_to_bits (f_to_f32 (raw_of f eng)))))
      | Pft_Float64 \<Rightarrow>
          ebind (numeric_value v cid (pf_name f)) (\<lambda>eng.
            write_bitfield_u64 ud (pf_bit_offset f) 64 (f64_to_bits (raw_of f eng)))
      | Pft_Bytes \<Rightarrow>
          (case v of
             Numeric x \<Rightarrow> refuse_codec (FieldValueTypeMismatch cid (pf_name f))
           | FBytes b \<Rightarrow>
               (let expected_len = unat (pf_bit_width f div 8); start = unat (pf_bit_offset f div 8) in
                if length b \<noteq> expected_len then refuse_codec (FieldValueOutOfRange cid (pf_name f))
                else if start + expected_len \<le> length ud
                then Inr (take start ud @ b @ drop (start + expected_len) ud)
                else Inl Panic))
      | Pft_Unspecified \<Rightarrow> refuse_codec (UnspecifiedFieldType cid (pf_name f)))"

section \<open>Packets\<close>

definition primary_header_len :: nat where "primary_header_len = 6"

primrec write_fields ::
  "packet_codec \<Rightarrow> (string \<rightharpoonup> field_value) \<Rightarrow> bytes \<Rightarrow> packet_field list \<Rightarrow> codec_fault + bytes" where
  "write_fields c values ud [] = Inr ud"
| "write_fields c values ud (f # fs) =
     ebind (check_field_extent f (pc_user_data_bytes c) (pc_id c)) (\<lambda>_.
     ebind (ok_or (Refused (MissingFieldValue (pc_id c) (pf_name f))) (values (pf_name f))) (\<lambda>v.
     ebind (write_field ud f v (pc_id c)) (\<lambda>ud'. write_fields c values ud' fs)))"

definition primary_header :: "packet_codec \<Rightarrow> u16 \<Rightarrow> nat \<Rightarrow> bytes" where
  "primary_header c seq packet_data_field_bytes =
     (let sec_hdr_flag = (if 0 < pc_secondary_header_bytes c then 1 else 0) :: u8;
          type_bit = (if pc_is_command c then 1 else 0) :: u8;
          len = of_nat packet_data_field_bytes - 1 :: u32
      in [push_bit 4 type_bit OR push_bit 3 sec_hdr_flag OR ucast (drop_bit 8 (pc_apid c) AND 0x07),
          ucast (pc_apid c AND 0xFF),
          push_bit 6 3 OR ucast (drop_bit 8 seq AND 0x3F),
          ucast (seq AND 0xFF),
          ucast (drop_bit 8 len AND 0xFF),
          ucast (len AND 0xFF)])"

definition encode_packet ::
  "packet_codec \<Rightarrow> u16 \<Rightarrow> bytes \<Rightarrow> (string \<rightharpoonup> field_value) \<Rightarrow> codec_fault + bytes" where
  "encode_packet c seq sec_hdr values =
     (if max_apid < pc_apid c then refuse_codec (ApidOutOfRange (pc_id c) (pc_apid c))
      else if max_sequence_count < ucast seq then refuse_codec (SequenceCountOutOfRange (ucast seq))
      else if length sec_hdr \<noteq> unat (pc_secondary_header_bytes c) then
        refuse_codec (SecondaryHeaderLengthMismatch (pc_id c) (pc_secondary_header_bytes c) (length sec_hdr))
      else if pc_user_data_bytes c = 0 \<or> 65536 < pc_user_data_bytes c then
        refuse_codec (InvalidUserDataBytes (pc_id c) (pc_user_data_bytes c))
      else ebind (write_fields c values (replicate (unat (pc_user_data_bytes c)) 0) (pc_fields c)) (\<lambda>ud.
        Inr (primary_header c seq (length sec_hdr + unat (pc_user_data_bytes c)) @ sec_hdr @ ud)))"

primrec read_fields ::
  "packet_codec \<Rightarrow> bytes \<Rightarrow> (string \<rightharpoonup> field_value) \<Rightarrow> packet_field list
     \<Rightarrow> codec_fault + (string \<rightharpoonup> field_value)" where
  "read_fields c ud m [] = Inr m"
| "read_fields c ud m (f # fs) =
     ebind (check_field_extent f (pc_user_data_bytes c) (pc_id c)) (\<lambda>_.
     ebind (read_field ud f (pc_id c)) (\<lambda>v. read_fields c ud (m(pf_name f \<mapsto> v)) fs))"

definition header_length_field :: "bytes \<Rightarrow> u32" where
  "header_length_field data = push_bit 8 (ucast (data ! 4)) OR ucast (data ! 5)"

definition header_apid :: "bytes \<Rightarrow> u32" where
  "header_apid data = push_bit 8 (ucast (data ! 0 AND 0x07)) OR ucast (data ! 1)"

definition header_sequence_count :: "bytes \<Rightarrow> u16" where
  "header_sequence_count data = push_bit 8 (ucast (data ! 2 AND 0x3F)) OR ucast (data ! 3)"

definition header_is_command :: "bytes \<Rightarrow> bool" where
  "header_is_command data \<longleftrightarrow> drop_bit 4 (data ! 0) AND 1 = 1"

definition decode_packet :: "apid_map \<Rightarrow> bytes \<Rightarrow> codec_fault + decoded_packet" where
  "decode_packet m data =
     (if length data < primary_header_len then refuse_codec (PacketTooShortForHeader (length data))
      else let apid = header_apid data in
        ebind (ok_or (Refused (UnknownApid apid)) (m apid)) (\<lambda>c.
          let sec = unat (pc_secondary_header_bytes c);
              udb = unat (pc_user_data_bytes c);
              declared = unat (header_length_field data) + 1;
              expected_total = primary_header_len + sec + udb
          in if declared \<noteq> sec + udb then
               refuse_codec (PacketDataLengthMismatch apid (pc_id c) (pc_user_data_bytes c)
                 (of_nat (declared - sec)))
             else if length data \<noteq> expected_total then
               refuse_codec (PacketLengthMismatch apid (pc_id c) expected_total (length data))
             else ebind (read_fields c (drop (primary_header_len + sec) data) Map.empty (pc_fields c)) (\<lambda>fields.
               Inr \<lparr>dp_apid = apid, dp_is_command = header_is_command data,
                    dp_sequence_count = header_sequence_count data, dp_fields = fields\<rparr>)))"

definition peek_sequence_count :: "bytes \<Rightarrow> u16 option" where
  "peek_sequence_count data =
     (if length data < primary_header_len then None else Some (header_sequence_count data))"



section \<open>Bit fields as bits\<close>

definition data_bit :: "bytes \<Rightarrow> nat \<Rightarrow> bool" where
  "data_bit data p = bit (data ! (p div 8)) (7 - p mod 8)"

lemma unat_u32_add: "unat off + i < 2 ^ 32 \<Longrightarrow> unat ((off :: u32) + of_nat i) = unat off + i"
  by (simp add: unat_word_ariths take_bit_eq_mod unat_of_nat)

lemma byte_idx_nat: "unat off + i < 2 ^ 32 \<Longrightarrow> byte_idx off i = (unat off + i) div 8"
  by (simp add: byte_idx_def unat_div_distrib unat_u32_add)

lemma bit_in_byte_nat:
  assumes "unat off + i < 2 ^ 32"
  shows "bit_in_byte off i = 7 - (unat off + i) mod 8"
proof -
  have m: "unat ((off + of_nat i) mod 8) = (unat off + i) mod 8"
    using assms by (simp add: unat_mod_distrib unat_u32_add)
  then have "(off + of_nat i) mod 8 \<le> (7 :: u32)" by (simp add: word_le_nat_alt)
  then show ?thesis using m by (simp add: bit_in_byte_def unat_sub)
qed

lemma bit_and_1: "bit (x AND 1 :: 'a::len word) j \<longleftrightarrow> j = 0 \<and> bit x 0"
  by (auto simp: bit_and_iff bit_1_iff)

lemma read_bits_spec:
  assumes "unat off + a + n \<le> 8 * length data" and "unat off + a + n \<le> 2 ^ 32"
  shows "\<exists>r. read_bits data off v [a..<a + n] = Inr r \<and>
     (\<forall>k. bit r k \<longleftrightarrow> k < 64 \<and> (if k < n then data_bit data (unat off + a + n - 1 - k) else bit v (k - n)))"
  using assms
proof (induction n arbitrary: a v)
  case 0
  then show ?case by (auto dest: bit_imp_le_length)
next
  case (Suc n)
  let ?q = "unat off + a"
  have q: "?q < 2 ^ 32" "?q div 8 < length data" using Suc.prems by auto
  define b where "b = drop_bit (7 - ?q mod 8) (data ! (?q div 8)) AND 1"
  have b: "bit b j \<longleftrightarrow> j = 0 \<and> data_bit data ?q" for j
    unfolding b_def bit_and_1 by (auto simp: data_bit_def bit_drop_bit_eq)
  let ?v = "push_bit 1 v OR ucast b :: u64"
  have v: "bit ?v j \<longleftrightarrow> j < 64 \<and> (if j = 0 then data_bit data ?q else bit v (j - 1))" for j
    unfolding bit_or_iff bit_push_bit_iff bit_unsigned_iff b by (auto dest: bit_imp_le_length)
  have step: "read_bits data off v [a..<a + Suc n] = read_bits data off ?v [Suc a..<Suc a + n]"
    using q by (simp add: upt_conv_Cons byte_idx_nat [OF q(1)] bit_in_byte_nat [OF q(1)] b_def Let_def
        del: upt_Suc)
  obtain r where r: "read_bits data off ?v [Suc a..<Suc a + n] = Inr r"
    and rb: "\<And>k. bit r k \<longleftrightarrow> k < 64 \<and>
      (if k < n then data_bit data (unat off + Suc a + n - 1 - k) else bit ?v (k - n))"
    using Suc.IH [of "Suc a" ?v] Suc.prems by auto
  have "bit r k \<longleftrightarrow> k < 64 \<and>
      (if k < Suc n then data_bit data (unat off + a + Suc n - 1 - k) else bit v (k - Suc n))" for k
    unfolding rb v by (auto simp: less_Suc_eq)
  then show ?case unfolding step r by blast
qed

lemma read_bitfield_spec:
  assumes "unat off + unat w \<le> 8 * length data" and "unat off + unat w \<le> 2 ^ 32"
  obtains r where "read_bitfield_u64 data off w = Inr r"
    and "\<And>k. bit r k \<longleftrightarrow> k < 64 \<and> k < unat w \<and> data_bit data (unat off + unat w - 1 - k)"
proof -
  have "\<exists>r. read_bits data off 0 [0..<0 + unat w] = Inr r \<and>
     (\<forall>k. bit r k \<longleftrightarrow> k < 64 \<and> (if k < unat w then data_bit data (unat off + 0 + unat w - 1 - k) else bit (0::u64) (k - unat w)))"
    by (rule read_bits_spec) (use assms in simp_all)
  then show thesis using that by (auto simp: read_bitfield_u64_def)
qed

lemma set_bit_in_byte:
  assumes "k < 8" and "j < 8"
  shows "bit ((x AND NOT (push_bit k 1)) OR push_bit k (ucast (drop_bit n (val :: u64) AND 1)) :: u8) j
     \<longleftrightarrow> (if j = k then bit val n else bit x j)"
proof -
  have b: "bit (ucast (drop_bit n val AND 1) :: u8) i \<longleftrightarrow> i = 0 \<and> bit val n" for i
    unfolding bit_unsigned_iff bit_and_1 by (auto simp: bit_drop_bit_eq)
  have one: "bit (push_bit k 1 :: u8) j \<longleftrightarrow> j = k"
    unfolding bit_push_bit_iff bit_1_iff using assms by auto
  show ?thesis
    unfolding bit_or_iff bit_and_iff bit_not_iff one
    unfolding bit_push_bit_iff b using assms by auto
qed

lemma data_bit_set:
  assumes "q div 8 < length data"
  shows "data_bit (data[q div 8 := (data ! (q div 8) AND NOT (push_bit (7 - q mod 8) 1)) OR
            push_bit (7 - q mod 8) (ucast (drop_bit n (val :: u64) AND 1))]) p
     \<longleftrightarrow> (if p = q then bit val n else data_bit data p)"
proof (cases "p div 8 = q div 8")
  case True
  have "7 - p mod 8 = 7 - q mod 8 \<longleftrightarrow> p mod 8 = q mod 8"
    using mod_less_divisor [of 8 p] mod_less_divisor [of 8 q] by linarith
  moreover have "p = q \<longleftrightarrow> p mod 8 = q mod 8" using True by (metis div_mult_mod_eq)
  moreover have "7 - p mod 8 < 8" "7 - q mod 8 < 8" by simp_all
  ultimately show ?thesis
    unfolding data_bit_def True nth_list_update_eq [OF assms] by (simp only: set_bit_in_byte)
next
  case False
  then show ?thesis by (auto simp: data_bit_def)
qed

lemma write_bits_spec:
  assumes "a \<le> unat w" and "unat w \<le> 64"
    and "unat off + unat w \<le> 8 * length data" and "unat off + unat w \<le> 2 ^ 32"
  shows "\<exists>d. write_bits data off w val [a..<unat w] = Inr d \<and> length d = length data \<and>
     (\<forall>p. data_bit d p \<longleftrightarrow>
        (if unat off + a \<le> p \<and> p < unat off + unat w then bit val (unat w - 1 - (p - unat off))
         else data_bit data p))"
  using assms(1,3)
proof (induction "unat w - a" arbitrary: a data)
  case 0
  then show ?case by auto
next
  case (Suc n)
  let ?q = "unat off + a"
  have aw: "a < unat w" using Suc.hyps(2) by simp
  have q: "?q < 2 ^ 32" "?q div 8 < length data" using Suc.prems aw assms(4) by auto
  have "unat (of_nat a :: u32) = a"
    using aw assms(2) by (simp add: unat_of_nat)
  then have "unat (w - 1 - of_nat a) = unat w - 1 - a"
    using aw by (simp add: unat_sub word_le_nat_alt)
  then have sh: "unat (w - 1 - of_nat a) mod 64 = unat w - 1 - a"
    using aw assms(2) by simp
  have n: "n = unat w - Suc a" using Suc.hyps(2) by simp
  define d where "d = data[?q div 8 := (data ! (?q div 8) AND NOT (push_bit (7 - ?q mod 8) 1)) OR
            push_bit (7 - ?q mod 8) (ucast (drop_bit (unat w - 1 - a) val AND 1))]"
  have len: "length d = length data" by (simp add: d_def)
  have db: "data_bit d p \<longleftrightarrow> (if p = ?q then bit val (unat w - 1 - a) else data_bit data p)" for p
    unfolding d_def by (rule data_bit_set) (rule q(2))
  have step: "write_bits data off w val [a..<unat w] = write_bits d off w val [Suc a..<unat w]"
    using aw q sh by (simp add: upt_conv_Cons byte_idx_nat [OF q(1)] bit_in_byte_nat [OF q(1)] d_def Let_def)
  obtain d' where d': "write_bits d off w val [Suc a..<unat w] = Inr d'" "length d' = length d"
    and b': "\<And>p. data_bit d' p \<longleftrightarrow>
        (if unat off + Suc a \<le> p \<and> p < unat off + unat w then bit val (unat w - 1 - (p - unat off))
         else data_bit d p)"
    using Suc.hyps(1) [OF n, of d] Suc.prems aw len by (auto simp del: add_Suc_right)
  have "data_bit d' p \<longleftrightarrow>
        (if unat off + a \<le> p \<and> p < unat off + unat w then bit val (unat w - 1 - (p - unat off))
         else data_bit data p)" for p
    unfolding b' db using aw by (auto simp: Suc_le_eq)
  then show ?case unfolding step using d' len by auto
qed

lemma write_bitfield_spec:
  assumes "unat w \<le> 64" and "unat off + unat w \<le> 8 * length data" and "unat off + unat w \<le> 2 ^ 32"
  obtains d where "write_bitfield_u64 data off w val = Inr d" and "length d = length data"
    and "\<And>p. data_bit d p \<longleftrightarrow>
        (if unat off \<le> p \<and> p < unat off + unat w then bit val (unat w - 1 - (p - unat off))
         else data_bit data p)"
  using write_bits_spec [of 0 w off data val] assms that
  by (auto simp: write_bitfield_u64_def)


section \<open>The primary header\<close>

lemma word_bits_below:
  assumes "(x :: 'a::len word) < 2 ^ n" and "bit x k"
  shows "k < n"
proof -
  have "bit (x AND mask n) k" using assms(2) by (simp only: less_mask_eq [OF assms(1)])
  then show ?thesis by (simp add: bit_and_iff bit_mask_iff)
qed

lemma byte_masks:
  "7 = (mask 3 :: 'a::len word)" "255 = (mask 8 :: 'a word)" "63 = (mask 6 :: 'a word)" "1 = (mask 1 :: 'a word)"
  by (simp_all add: mask_eq_exp_minus_1)

lemma join_apid:
  assumes "hi AND 7 = (0 :: u8)" and a: "\<And>k. bit a k \<Longrightarrow> k < 11"
  shows "push_bit 8 (ucast ((hi OR ucast (drop_bit 8 (a :: u32) AND 7)) AND 7 :: u8)) OR
           ucast (ucast (a AND 0xFF) :: u8) = a"
proof (rule bit_word_eqI)
  fix k assume "k < LENGTH(32)"
  have h: "\<not> (bit hi j \<and> j < 3)" for j
  proof -
    have "\<not> bit (hi AND mask 3) j" using assms(1) unfolding byte_masks by simp
    then show ?thesis by (auto simp: bit_and_iff bit_mask_iff dest: bit_imp_le_length)
  qed
  show "bit (push_bit 8 (ucast ((hi OR ucast (drop_bit 8 a AND 7)) AND 7 :: u8)) OR
           ucast (ucast (a AND 0xFF) :: u8) :: u32) k = bit a k"
    unfolding byte_masks bit_or_iff bit_and_iff bit_push_bit_iff bit_unsigned_iff bit_mask_iff bit_drop_bit_eq o_def
    using h [of "k - 8"] a [of k] by auto
qed

lemma join_sequence:
  assumes s: "\<And>k. bit a k \<Longrightarrow> k < 14"
  shows "push_bit 8 (ucast ((0xC0 OR ucast (drop_bit 8 (a :: u16) AND 0x3F)) AND 0x3F :: u8)) OR
           ucast (ucast (a AND 0xFF) :: u8) = a"
proof (rule bit_word_eqI)
  fix k assume "k < LENGTH(16)"
  have h: "\<not> (bit (0xC0 :: u8) j \<and> j < 6)" for j
  proof -
    have "(0xC0 :: u8) AND 63 = 0" by simp
    then show ?thesis unfolding byte_masks by (metis bit_0_eq bit_and_iff bit_mask_iff bit_imp_le_length bot_apply bot_bool_def possible_bit_word)
  qed
  show "bit (push_bit 8 (ucast ((0xC0 OR ucast (drop_bit 8 a AND 0x3F)) AND 0x3F :: u8)) OR
           ucast (ucast (a AND 0xFF) :: u8) :: u16) k = bit a k"
    unfolding byte_masks bit_or_iff bit_and_iff bit_push_bit_iff bit_unsigned_iff bit_mask_iff bit_drop_bit_eq o_def
    using h [of "k - 8"] s [of k] by auto
qed

lemma header_fields:
  assumes "pc_apid c \<le> max_apid" and "seq \<le> 0x3FFF"
  shows "header_apid (primary_header c seq n @ rest) = pc_apid c"
    and "header_is_command (primary_header c seq n @ rest) = pc_is_command c"
    and "header_sequence_count (primary_header c seq n @ rest) = seq"
proof -
  have a: "bit (pc_apid c) k \<Longrightarrow> k < 11" for k
    using assms(1) by (intro word_bits_below [of "pc_apid c" 11]) (simp_all add: max_apid_def word_less_nat_alt word_le_nat_alt)
  have s: "bit seq k \<Longrightarrow> k < 14" for k
    using assms(2) by (intro word_bits_below [of seq 14]) (simp_all add: word_less_nat_alt word_le_nat_alt)
  define hi where "hi = push_bit 4 (if pc_is_command c then 1 else 0 :: u8) OR
    push_bit 3 (if 0 < pc_secondary_header_bytes c then 1 else 0)"
  have hi: "hi AND 7 = 0" "drop_bit 4 hi AND 1 = (if pc_is_command c then 1 else 0)" by (simp_all add: hi_def)
  have b0: "(primary_header c seq n @ rest) ! 0 = hi OR ucast (drop_bit 8 (pc_apid c) AND 7)"
    and b1: "(primary_header c seq n @ rest) ! 1 = ucast (pc_apid c AND 0xFF)"
    unfolding primary_header_def Let_def hi_def by (simp_all only: nth_Cons_0 append_Cons One_nat_def nth_Cons_Suc or.assoc)
  show "header_apid (primary_header c seq n @ rest) = pc_apid c"
    unfolding header_apid_def b0 b1 by (rule join_apid [OF hi(1) a])
  show "header_sequence_count (primary_header c seq n @ rest) = seq"
    using join_sequence [OF s] by (simp add: header_sequence_count_def primary_header_def Let_def)
  have "bit (ucast (drop_bit 8 (pc_apid c) AND 7) :: u8) 4 \<longleftrightarrow> False"
    unfolding byte_masks by (simp add: bit_and_iff bit_mask_iff bit_unsigned_iff)
  moreover have "bit hi 4 \<longleftrightarrow> pc_is_command c" unfolding bit_iff_and_drop_bit_eq_1 hi(2) by simp
  ultimately show "header_is_command (primary_header c seq n @ rest) = pc_is_command c"
    unfolding header_is_command_def b0 bit_iff_and_drop_bit_eq_1 [symmetric] bit_or_iff by simp
qed


lemma length_field_wraps:
  "unat (header_length_field (primary_header c seq n @ rest)) = (unat (of_nat n - 1 :: u32)) mod 65536"
proof -
  let ?a = "of_nat n - 1 :: u32"
  have "push_bit 8 (ucast (ucast (drop_bit 8 ?a AND 0xFF) :: u8)) OR ucast (ucast (?a AND 0xFF) :: u8) = take_bit 16 ?a"
  proof (rule bit_word_eqI)
    fix k assume "k < LENGTH(32)"
    show "bit (push_bit 8 (ucast (ucast (drop_bit 8 ?a AND 0xFF) :: u8)) OR
           ucast (ucast (?a AND 0xFF) :: u8) :: u32) k = bit (take_bit 16 ?a) k"
      unfolding byte_masks bit_or_iff bit_and_iff bit_push_bit_iff bit_unsigned_iff bit_mask_iff
        bit_drop_bit_eq o_def bit_take_bit_iff
      by auto
  qed
  then have "header_length_field (primary_header c seq n @ rest) = take_bit 16 ?a"
    by (simp add: header_length_field_def primary_header_def Let_def)
  then have "unat (header_length_field (primary_header c seq n @ rest)) = take_bit 16 (unat ?a)"
    by (simp only: unsigned_take_bit_eq)
  then show ?thesis by (simp only: take_bit_eq_mod) simp
qed

lemma header_length_field_exact:
  assumes "1 \<le> n" and "n \<le> 65536"
  shows "unat (header_length_field (primary_header c seq n @ rest)) = n - 1"
proof -
  have e: "of_nat n - 1 = (of_nat (n - 1) :: u32)" using assms(1) by (simp add: of_nat_diff)
  have "unat (of_nat (n - 1) :: u32) = (n - 1) mod 2 ^ 32" by (simp only: unat_of_nat len_num1 len_bit0) simp
  then show ?thesis using assms unfolding length_field_wraps e by simp
qed

section \<open>One field\<close>

definition field_lo :: "packet_field \<Rightarrow> nat" where "field_lo f = unat (pf_bit_offset f)"
definition field_hi :: "packet_field \<Rightarrow> nat" where "field_hi f = unat (pf_bit_offset f) + unat (pf_bit_width f)"

lemma unat_u32_bound: "unat (x :: u32) < 4294967296"
  by (rule order_less_le_trans [OF unsigned_less]) simp

lemma unat_u32_u64: "unat (ucast (x :: u32) :: u64) = unat x"
  using unat_u32_bound [of x] by (simp add: unsigned_ucast_eq take_bit_nat_eq_self)

lemma bit_end_nat: "unat (bit_end f) = field_hi f"
proof -
  have "unat (pf_bit_offset f) + unat (pf_bit_width f) < 2 ^ 64"
    using unat_u32_bound [of "pf_bit_offset f"] unat_u32_bound [of "pf_bit_width f"] by simp
  then show ?thesis by (simp add: bit_end_def field_hi_def unat_word_ariths unat_u32_u64)
qed

lemma bits_of_bytes: "unat (ucast (n :: u32) * 8 :: u64) = 8 * unat n"
proof -
  show ?thesis using unat_u32_bound [of n] by (simp add: unat_word_ariths unat_u32_u64)
qed

lemma check_field_extent_ok:
  "check_field_extent f n cid = Inr u \<longleftrightarrow> field_hi f \<le> 8 * unat n"
  by (simp add: check_field_extent_def word_less_nat_alt bit_end_nat bits_of_bytes not_less)

text \<open>What \<open>validate_field\<close> accepts, over the naturals.\<close>

definition field_ok :: "nat \<Rightarrow> packet_field \<Rightarrow> bool" where
  "field_ok n f \<longleftrightarrow>
     field_hi f \<le> 8 * n \<and> 0 < unat (pf_bit_width f) \<and>
     (case packet_field_type_of (pf_type f) of
        Pft_Uint \<Rightarrow> unat (pf_bit_width f) \<le> 64
      | Pft_Int \<Rightarrow> 2 \<le> unat (pf_bit_width f) \<and> unat (pf_bit_width f) \<le> 64
      | Pft_Float32 \<Rightarrow> unat (pf_bit_width f) = 32
      | Pft_Float64 \<Rightarrow> unat (pf_bit_width f) = 64
      | Pft_Bytes \<Rightarrow> unat (pf_bit_width f) mod 8 = 0 \<and> unat (pf_bit_offset f) mod 8 = 0
      | Pft_Unspecified \<Rightarrow> False)"

lemma u32_eq_unat: "(x :: u32) = y \<longleftrightarrow> unat x = unat y"
  by (simp add: word_unat_eq_iff)

lemma width_ok_nat:
  "width_ok ty f \<longleftrightarrow>
     (case ty of
        Pft_Uint \<Rightarrow> unat (pf_bit_width f) \<le> 64
      | Pft_Int \<Rightarrow> 2 \<le> unat (pf_bit_width f) \<and> unat (pf_bit_width f) \<le> 64
      | Pft_Float32 \<Rightarrow> unat (pf_bit_width f) = 32
      | Pft_Float64 \<Rightarrow> unat (pf_bit_width f) = 64
      | Pft_Bytes \<Rightarrow> unat (pf_bit_width f) mod 8 = 0 \<and> unat (pf_bit_offset f) mod 8 = 0
      | Pft_Unspecified \<Rightarrow> False)"
  by (cases ty) (simp_all add: width_ok_def word_le_nat_alt u32_eq_unat unat_mod_distrib)

lemma validate_field_ok:
  "validate_field c f = Inr u \<longleftrightarrow> field_ok (unat (pc_user_data_bytes c)) f"
proof -
  have "pf_bit_width f = 0 \<longleftrightarrow> unat (pf_bit_width f) = 0" by (simp add: u32_eq_unat)
  then show ?thesis
    unfolding validate_field_def field_ok_def width_ok_nat
    by (cases "packet_field_type_of (pf_type f)")
      (simp_all add: Let_def word_less_nat_alt bit_end_nat bits_of_bytes not_less)
qed

lemma validate_fields_ok:
  "validate_fields c fs = Inr u \<longleftrightarrow> (\<forall>f \<in> set fs. field_ok (unat (pc_user_data_bytes c)) f)"
  by (induction fs) (simp_all add: ebind_eq_Inr validate_field_ok)

lemma validate_codec_ok:
  "validate_codec c = Inr u \<longleftrightarrow>
     pc_apid c \<le> max_apid \<and> 1 \<le> unat (pc_user_data_bytes c) \<and> unat (pc_user_data_bytes c) \<le> 65536 \<and>
     (\<forall>f \<in> set (pc_fields c). field_ok (unat (pc_user_data_bytes c)) f)"
proof -
  have "pc_user_data_bytes c = 0 \<longleftrightarrow> unat (pc_user_data_bytes c) = 0" by (simp add: u32_eq_unat)
  then show ?thesis
    by (auto simp: validate_codec_def validate_fields_ok word_less_nat_alt word_le_nat_alt not_less)
qed

text \<open>Two buffers that agree on a field's bits read the same.\<close>

definition same_bits :: "bytes \<Rightarrow> bytes \<Rightarrow> nat \<Rightarrow> nat \<Rightarrow> bool" where
  "same_bits d d' lo hi \<longleftrightarrow> length d = length d' \<and> (\<forall>p. lo \<le> p \<and> p < hi \<longrightarrow> data_bit d p = data_bit d' p)"

lemma read_bitfield_same:
  assumes "same_bits d d' (unat off) (unat off + unat w)"
    and "unat off + unat w \<le> 8 * length d" and "unat off + unat w \<le> 2 ^ 32"
  shows "read_bitfield_u64 d off w = read_bitfield_u64 d' off w"
proof -
  obtain r where r: "read_bitfield_u64 d off w = Inr r"
    and rb: "\<And>k. bit r k \<longleftrightarrow> k < 64 \<and> k < unat w \<and> data_bit d (unat off + unat w - 1 - k)"
    by (rule read_bitfield_spec [OF assms(2,3)]) blast
  have l: "unat off + unat w \<le> 8 * length d'" using assms(1,2) by (simp add: same_bits_def)
  obtain r' where r': "read_bitfield_u64 d' off w = Inr r'"
    and rb': "\<And>k. bit r' k \<longleftrightarrow> k < 64 \<and> k < unat w \<and> data_bit d' (unat off + unat w - 1 - k)"
    by (rule read_bitfield_spec [OF l assms(3)]) blast
  have "data_bit d (unat off + unat w - 1 - k) = data_bit d' (unat off + unat w - 1 - k)" if "k < unat w" for k
    using assms(1) that unfolding same_bits_def by auto
  then have "r = r'" by (intro bit_eqI) (auto simp: rb rb')
  then show ?thesis using r r' by simp
qed

lemma bytes_eqI:
  assumes "length b = length b'" and "\<And>p. p < 8 * length b \<Longrightarrow> data_bit b p = data_bit b' p"
  shows "b = b'"
proof (rule nth_equalityI)
  show "length b = length b'" by (rule assms(1))
next
  fix i assume i: "i < length b"
  show "b ! i = b' ! i"
  proof (rule bit_word_eqI)
    fix k assume "k < LENGTH(8)"
    then have k: "k < 8" by simp
    have "(8 * i + (7 - k)) mod 8 = 7 - k" unfolding mod_mult_self4 using k by simp
    then have "(8 * i + (7 - k)) div 8 = i" "7 - (8 * i + (7 - k)) mod 8 = k" using k by simp_all
    moreover have "8 * i + (7 - k) < 8 * length b" using i k by linarith
    ultimately show "bit (b ! i) k = bit (b' ! i) k"
      using assms(2) [of "8 * i + (7 - k)"] unfolding data_bit_def by metis
  qed
qed

lemma data_bit_slice:
  assumes "start + len \<le> length d" and "p < 8 * len"
  shows "data_bit (take len (drop start d)) p = data_bit d (8 * start + p)"
proof -
  have "p div 8 < len" using assms(2) by linarith
  then show ?thesis using assms(1) by (simp add: data_bit_def)
qed

lemma slice_same:
  assumes "same_bits d d' (8 * start) (8 * start + 8 * len)" and "start + len \<le> length d"
  shows "take len (drop start d) = take len (drop start d')"
proof (rule bytes_eqI)
  have l: "length d = length d'" using assms(1) by (simp add: same_bits_def)
  then show "length (take len (drop start d)) = length (take len (drop start d'))" by simp
  fix p assume "p < 8 * length (take len (drop start d))"
  then have p: "p < 8 * len" by simp
  have "data_bit d (8 * start + p) = data_bit d' (8 * start + p)"
    using assms(1) p by (simp add: same_bits_def)
  then show "data_bit (take len (drop start d)) p = data_bit (take len (drop start d')) p"
    using data_bit_slice [OF assms(2) p] data_bit_slice [of start len d' p] assms(2) p l by simp
qed

lemma field_ok_bounds:
  assumes "field_ok (length d) f" and "length d \<le> 65536"
  shows "unat (pf_bit_offset f) + unat (pf_bit_width f) \<le> 8 * length d"
    and "unat (pf_bit_offset f) + unat (pf_bit_width f) \<le> 2 ^ 32"
  using assms by (simp_all add: field_ok_def field_hi_def)

lemma field_ok_bytes:
  assumes "field_ok n f" and "packet_field_type_of (pf_type f) = Pft_Bytes"
  obtains start len where "unat (pf_bit_offset f div 8) = start" "unat (pf_bit_width f div 8) = len"
    "field_lo f = 8 * start" "field_hi f = 8 * start + 8 * len" "start + len \<le> n"
proof -
  let ?s = "unat (pf_bit_offset f) div 8" and ?l = "unat (pf_bit_width f) div 8"
  have "unat (pf_bit_width f) mod 8 = 0" "unat (pf_bit_offset f) mod 8 = 0" "field_hi f \<le> 8 * n"
    using assms by (simp_all add: field_ok_def)
  then have e: "unat (pf_bit_offset f) = 8 * ?s" "unat (pf_bit_width f) = 8 * ?l" by presburger+
  show thesis
  proof (rule that)
    show "unat (pf_bit_offset f div 8) = ?s" "unat (pf_bit_width f div 8) = ?l"
      by (simp_all add: unat_div_distrib)
    show "field_lo f = 8 * ?s" using e by (simp add: field_lo_def)
    show hi: "field_hi f = 8 * ?s + 8 * ?l" using e by (simp add: field_hi_def)
    show "?s + ?l \<le> n" using hi \<open>field_hi f \<le> 8 * n\<close> by linarith
  qed
qed

lemma field_widths:
  assumes "field_ok n f"
  shows "packet_field_type_of (pf_type f) = Pft_Float32 \<Longrightarrow> pf_bit_width f = 32"
    and "packet_field_type_of (pf_type f) = Pft_Float64 \<Longrightarrow> pf_bit_width f = 64"
  using assms by (simp_all add: field_ok_def u32_eq_unat)

lemma read_field_same:
  assumes "field_ok (length d) f" and "length d \<le> 65536" and "same_bits d d' (field_lo f) (field_hi f)"
  shows "read_field d f cid = read_field d' f cid"
proof -
  note b = field_ok_bounds [OF assms(1,2)]
  have s: "same_bits d d' (unat (pf_bit_offset f)) (unat (pf_bit_offset f) + unat (pf_bit_width f))"
    using assms(3) by (simp add: field_lo_def field_hi_def)
  note r = read_bitfield_same [OF s b]
  show ?thesis
  proof (cases "packet_field_type_of (pf_type f)")
    case Pft_Float32
    then have "pf_bit_width f = 32" by (rule field_widths [OF assms(1)])
    then show ?thesis using r Pft_Float32 by (simp add: read_field_def)
  next
    case Pft_Float64
    then have "pf_bit_width f = 64" by (rule field_widths [OF assms(1)])
    then show ?thesis using r Pft_Float64 by (simp add: read_field_def)
  next
    case Pft_Bytes
    obtain start len where u: "unat (pf_bit_offset f div 8) = start" "unat (pf_bit_width f div 8) = len"
      and h: "field_lo f = 8 * start" "field_hi f = 8 * start + 8 * len" "start + len \<le> length d"
      by (rule field_ok_bytes [OF assms(1) Pft_Bytes])
    have "length d = length d'" using assms(3) by (simp add: same_bits_def)
    then show ?thesis
      using slice_same [OF assms(3) [unfolded h] h(3)] h(3) Pft_Bytes by (simp add: read_field_def u Let_def)
  qed (simp_all add: read_field_def r)
qed


text \<open>Writing a field changes its own bits and nothing else, and reads back.\<close>

lemma write_read_bitfield:
  assumes "unat w \<le> 64" and "unat off + unat w \<le> 8 * length data" and "unat off + unat w \<le> 2 ^ 32"
  obtains d where "write_bitfield_u64 data off w val = Inr d" and "length d = length data"
    and "\<And>p. p < unat off \<or> unat off + unat w \<le> p \<Longrightarrow> data_bit d p = data_bit data p"
    and "read_bitfield_u64 d off w = Inr (take_bit (unat w) val)"
proof -
  obtain d where d: "write_bitfield_u64 data off w val = Inr d" "length d = length data"
    and db: "\<And>p. data_bit d p \<longleftrightarrow>
        (if unat off \<le> p \<and> p < unat off + unat w then bit val (unat w - 1 - (p - unat off))
         else data_bit data p)"
    by (rule write_bitfield_spec [OF assms]) blast
  have l: "unat off + unat w \<le> 8 * length d" using assms(2) d(2) by simp
  obtain r where r: "read_bitfield_u64 d off w = Inr r"
    and rb: "\<And>k. bit r k \<longleftrightarrow> k < 64 \<and> k < unat w \<and> data_bit d (unat off + unat w - 1 - k)"
    by (rule read_bitfield_spec [OF l assms(3)]) blast
  have "data_bit d (unat off + unat w - 1 - k) = bit val k" if "k < unat w" for k
    unfolding db using that by auto
  then have "r = take_bit (unat w) val"
    by (intro bit_eqI) (auto simp: rb bit_take_bit_iff dest: bit_imp_le_length)
  moreover have "data_bit d p = data_bit data p" if "p < unat off \<or> unat off + unat w \<le> p" for p
    unfolding db using that by auto
  ultimately show thesis using that [OF d] r by blast
qed

lemma max_uint_mask: "max_uint w = mask (min 64 (unat w))"
proof (cases "64 \<le> w")
  case True
  then have "64 \<le> unat w" by (simp add: word_le_nat_alt)
  then show ?thesis using True by (simp add: max_uint_def min_def mask_eq_exp_minus_1 flip: mask_eq_exp_minus_1)
    (simp add: mask_eq_exp_minus_1)
next
  case False
  then have "unat w < 64" by (simp add: word_le_nat_alt)
  then show ?thesis using False by (simp add: max_uint_def mask_eq_exp_minus_1 push_bit_eq_mult)
qed

lemma uint_mask_u64: "n \<le> 64 \<Longrightarrow> uint (mask n :: u64) = mask n"
  by (rule bit_eqI) (auto simp: bit_simps)

lemma uint_max_uint: "unat w \<le> 64 \<Longrightarrow> uint (max_uint w) = 2 ^ unat w - 1"
  by (simp add: max_uint_mask uint_mask_u64) (simp add: mask_eq_exp_minus_1)

lemma take_bit_max_uint: "unat w \<le> 64 \<Longrightarrow> take_bit (unat w) (x AND max_uint w) = take_bit (unat w) x"
  by (rule bit_eqI) (auto simp: max_uint_mask bit_simps)

lemma unat_64_minus: "unat (w :: u32) \<le> 64 \<Longrightarrow> unat (64 - w) = 64 - unat w"
  by (simp add: unat_sub word_le_nat_alt)

lemma signed_take_low:
  assumes "1 \<le> w" and "w \<le> 64"
  shows "signed_take_bit (w - 1) (take_bit 64 (n :: int)) = signed_take_bit (w - 1) n"
proof -
  have "\<not> 64 \<le> w - 1" using assms by linarith
  then show ?thesis by (simp only: signed_take_bit_take_bit if_False)
qed

lemma sign_extend_take_bit:
  assumes "1 \<le> unat w" and "unat w \<le> 64"
  shows "sign_extend (take_bit (unat w) x) w = signed_take_bit (unat w - 1) (uint x)"
proof -
  let ?k = "64 - unat w"
  have k: "unat (64 - w) mod 64 = ?k" using assms by (simp add: unat_64_minus)
  have "bit (sint (signed_drop_bit ?k (push_bit ?k (take_bit (unat w) x)))) n
      \<longleftrightarrow> bit (signed_take_bit (unat w - 1) (uint x)) n" for n
    using assms
    by (cases "n = unat w - 1") (auto simp: bit_sint_iff bit_signed_drop_bit_iff bit_push_bit_iff bit_take_bit_iff
        bit_signed_take_bit_iff bit_uint_iff min_def not_le dest: bit_imp_le_length)
  then show ?thesis unfolding sign_extend_def Let_def k by (intro bit_eqI) blast
qed

lemma sign_extend_int:
  assumes "2 \<le> unat w" and "unat w \<le> 64" and "- (2 ^ (unat w - 1)) \<le> n" and "n < 2 ^ (unat w - 1)"
  shows "sign_extend (take_bit (unat w) (word_of_int n)) w = n"
proof -
  have "signed_take_bit (unat w - 1) (take_bit 64 n) = signed_take_bit (unat w - 1) n"
    by (rule signed_take_low) (use assms in simp_all)
  also have "\<dots> = n" using assms(3,4) by (simp add: signed_take_bit_int_eq_self)
  finally show ?thesis
    using sign_extend_take_bit [of w "word_of_int n"] assms(1,2) by (simp add: uint_word_of_int_eq)
qed

definition field_eng :: "field_value \<Rightarrow> f64" where
  "field_eng v = (case v of Numeric x \<Rightarrow> x | FBytes b \<Rightarrow> FNan)"

definition stored_value :: "packet_field \<Rightarrow> field_value \<Rightarrow> field_value" where
  "stored_value f v =
     (let raw = raw_of f (field_eng v); w = unat (pf_bit_width f) in
      case packet_field_type_of (pf_type f) of
        Pft_Uint \<Rightarrow> Numeric (engineering f (f_of_int (uint (take_bit w (f_to_u64 (f_round_int raw))))))
      | Pft_Int \<Rightarrow>
          Numeric (engineering f (f_of_int (signed_take_bit (w - 1) (f_to_i64 (f_round_int raw)))))
      | Pft_Float32 \<Rightarrow> Numeric (engineering f (f_to_f32 raw))
      | Pft_Float64 \<Rightarrow> Numeric (engineering f raw)
      | _ \<Rightarrow> v)"

lemma write_field_reads_back:
  assumes "field_ok (length data) f" and "length data \<le> 65536" and w: "write_field data f v cid = Inr d"
  shows "length d = length data \<and>
    (\<forall>p. p < field_lo f \<or> field_hi f \<le> p \<longrightarrow> data_bit d p = data_bit data p) \<and>
    read_field d f cid = Inr (stored_value f v)"
proof -
  note b = field_ok_bounds [OF assms(1,2)]
  let ?off = "pf_bit_offset f" and ?w = "pf_bit_width f" and ?raw = "raw_of f (field_eng v)"
  have lo: "field_lo f = unat ?off" "field_hi f = unat ?off + unat ?w" by (simp_all add: field_lo_def field_hi_def)
  have num: "\<exists>x. v = Numeric x" if "numeric_value v cid (pf_name f) = Inr eng" for eng
    using that by (cases v) (simp_all add: numeric_value_def)
  have eng: "eng = field_eng v" if "numeric_value v cid (pf_name f) = Inr eng" for eng
    using that by (cases v) (simp_all add: numeric_value_def field_eng_def)
  show ?thesis
  proof (cases "packet_field_type_of (pf_type f)")
    case Pft_Uint
    have w64: "unat ?w \<le> 64" using assms(1) Pft_Uint by (simp add: field_ok_def)
    have "write_bitfield_u64 data ?off ?w (f_to_u64 (f_round_int ?raw)) = Inr d"
      using w Pft_Uint eng by (auto simp: write_field_def ebind_eq_Inr Let_def split: if_splits)
    then show ?thesis
      by (rule_tac val = "f_to_u64 (f_round_int ?raw)" in write_read_bitfield [OF w64 b])
        (use Pft_Uint in \<open>auto simp: lo read_field_def stored_value_def Let_def\<close>)
  next
    case Pft_Int
    have w64: "unat ?w \<le> 64" "2 \<le> unat ?w" using assms(1) Pft_Int by (simp_all add: field_ok_def)
    let ?n = "f_to_i64 (f_round_int ?raw)"
    have "write_bitfield_u64 data ?off ?w (word_of_int ?n AND max_uint ?w) = Inr d"
      using w Pft_Int eng by (cases "int_range ?w") (auto simp: write_field_def ebind_eq_Inr Let_def split: if_splits)
    moreover have "sign_extend (take_bit (unat ?w) (word_of_int ?n)) ?w = signed_take_bit (unat ?w - 1) ?n"
      using w64 signed_take_low [of "unat ?w" ?n] by (simp add: sign_extend_take_bit uint_word_of_int_eq)
    ultimately show ?thesis
      by (rule_tac val = "word_of_int ?n AND max_uint ?w" in write_read_bitfield [OF w64(1) b])
        (use Pft_Int in \<open>auto simp: lo read_field_def stored_value_def Let_def take_bit_max_uint w64 simp del: take_bit_and\<close>)
  next
    case Pft_Float32
    then have w32: "?w = 32" by (rule field_widths [OF assms(1)])
    have "write_bitfield_u64 data ?off 32 (ucast (f32_to_bits (f_to_f32 ?raw))) = Inr d"
      using w Pft_Float32 eng by (auto simp: write_field_def ebind_eq_Inr)
    moreover have "ucast (take_bit 32 (ucast (x :: u32) :: u64)) = x" for x
      by (rule bit_word_eqI) (simp add: bit_simps)
    ultimately show ?thesis
      by (rule_tac val = "ucast (f32_to_bits (f_to_f32 ?raw))" in write_read_bitfield [OF _ b [unfolded w32]])
        (use Pft_Float32 in \<open>auto simp: lo w32 read_field_def stored_value_def Let_def f_wf_to_f32\<close>)
  next
    case Pft_Float64
    then have w64: "?w = 64" by (rule field_widths [OF assms(1)])
    have "write_bitfield_u64 data ?off 64 (f64_to_bits ?raw) = Inr d"
      using w Pft_Float64 eng by (auto simp: write_field_def ebind_eq_Inr)
    moreover have "f_wf binary64 ?raw" by (simp add: raw_of_def f_wf_div)
    moreover have "take_bit 64 (x :: u64) = x" for x by (rule take_bit_word_eq_self) simp
    ultimately show ?thesis
      by (rule_tac val = "f64_to_bits ?raw" in write_read_bitfield [OF _ b [unfolded w64]])
        (use Pft_Float64 in \<open>auto simp: lo w64 read_field_def stored_value_def Let_def\<close>)
  next
    case Pft_Bytes
    obtain start len where u: "unat (?off div 8) = start" "unat (?w div 8) = len"
      and h: "field_lo f = 8 * start" "field_hi f = 8 * start + 8 * len" "start + len \<le> length data"
      by (rule field_ok_bytes [OF assms(1) Pft_Bytes])
    obtain bs where v: "v = FBytes bs" and lb: "length bs = len"
      and d: "d = take start data @ bs @ drop (start + len) data"
      using w Pft_Bytes h(3) by (auto simp: write_field_def u Let_def split: field_value.splits if_splits)
    have len: "length d = length data" using d lb h(3) by simp
    have "data_bit d p = data_bit data p" if "p < 8 * start \<or> 8 * start + 8 * len \<le> p" for p
    proof -
      have "p div 8 < start \<or> start + len \<le> p div 8" using that by linarith
      then have "d ! (p div 8) = data ! (p div 8)"
        using h(3) by (auto simp: d lb nth_append)
      then show ?thesis by (simp add: data_bit_def)
    qed
    moreover have "read_field d f cid = Inr (stored_value f v)"
      using Pft_Bytes h(3) lb by (simp add: read_field_def stored_value_def u Let_def v d)
    ultimately show ?thesis using len h by simp
  next
    case Pft_Unspecified
    then show ?thesis using assms(1) by (simp add: field_ok_def)
  qed
qed


section \<open>Packets\<close>

primrec fields_disjoint :: "packet_field list \<Rightarrow> bool" where
  "fields_disjoint [] = True"
| "fields_disjoint (f # fs) =
     ((\<forall>g \<in> set fs. field_hi f \<le> field_lo g \<or> field_hi g \<le> field_lo f) \<and> fields_disjoint fs)"

lemma write_fields_reads_back:
  assumes "\<forall>f \<in> set fs. field_ok (length ud) f" and "length ud \<le> 65536" and "fields_disjoint fs"
    and "write_fields c values ud fs = Inr ud'"
  shows "length ud' = length ud \<and>
    (\<forall>p. (\<forall>f \<in> set fs. p < field_lo f \<or> field_hi f \<le> p) \<longrightarrow> data_bit ud' p = data_bit ud p) \<and>
    (\<forall>f \<in> set fs. \<exists>v. values (pf_name f) = Some v \<and> read_field ud' f (pc_id c) = Inr (stored_value f v))"
  using assms
proof (induction fs arbitrary: ud)
  case Nil
  then show ?case by simp
next
  case (Cons f fs)
  obtain v ud1 where v: "values (pf_name f) = Some v"
    and w: "write_field ud f v (pc_id c) = Inr ud1" and rest: "write_fields c values ud1 fs = Inr ud'"
    using Cons.prems(4) by (auto simp: ebind_eq_Inr)
  have ok: "field_ok (length ud) f" using Cons.prems(1) by simp
  have l1: "length ud1 = length ud"
    and out1: "\<And>p. p < field_lo f \<or> field_hi f \<le> p \<Longrightarrow> data_bit ud1 p = data_bit ud p"
    and r1: "read_field ud1 f (pc_id c) = Inr (stored_value f v)"
    using write_field_reads_back [OF ok Cons.prems(2) w] by auto
  have l': "length ud' = length ud1"
    and out': "\<And>p. (\<forall>g \<in> set fs. p < field_lo g \<or> field_hi g \<le> p) \<Longrightarrow> data_bit ud' p = data_bit ud1 p"
    and r': "\<And>g. g \<in> set fs \<Longrightarrow> \<exists>v. values (pf_name g) = Some v \<and> read_field ud' g (pc_id c) = Inr (stored_value g v)"
    using Cons.IH [of ud1] Cons.prems rest l1 by auto
  have dis: "field_hi f \<le> field_lo g \<or> field_hi g \<le> field_lo f" if "g \<in> set fs" for g
    using Cons.prems(3) that by simp
  have "data_bit ud1 p = data_bit ud' p" if "field_lo f \<le> p \<and> p < field_hi f" for p
    by (rule out' [symmetric]) (use dis that in fastforce)
  then have "same_bits ud1 ud' (field_lo f) (field_hi f)"
    by (simp add: same_bits_def l')
  then have "read_field ud1 f (pc_id c) = read_field ud' f (pc_id c)"
    by (intro read_field_same) (use ok Cons.prems(2) l1 in simp_all)
  then have "read_field ud' f (pc_id c) = Inr (stored_value f v)" using r1 by simp
  then show ?case using v l1 l' out1 out' r' by auto
qed

lemma read_fields_map:
  assumes "\<forall>f \<in> set fs. field_hi f \<le> 8 * unat (pc_user_data_bytes c) \<and> read_field ud f (pc_id c) = Inr (g f)"
    and "distinct (map pf_name fs)"
  shows "read_fields c ud m fs = Inr (m ++ map_of (map (\<lambda>f. (pf_name f, g f)) fs))"
  using assms
proof (induction fs arbitrary: m)
  case Nil
  then show ?case by simp
next
  case (Cons f fs)
  have "m(pf_name f \<mapsto> g f) ++ map_of (map (\<lambda>f. (pf_name f, g f)) fs) =
        m ++ (map_of (map (\<lambda>f. (pf_name f, g f)) fs))(pf_name f \<mapsto> g f)"
  proof -
    have "pf_name f \<notin> dom (map_of (map (\<lambda>f. (pf_name f, g f)) fs))"
      using Cons.prems(2) by (auto simp: dom_map_of_conv_image_fst)
    then show ?thesis by (simp add: map_add_upd_left)
  qed
  moreover have "check_field_extent f (pc_user_data_bytes c) (pc_id c) = Inr ()"
    using Cons.prems(1) by (simp add: check_field_extent_ok)
  moreover have "read_field ud f (pc_id c) = Inr (g f)" using Cons.prems(1) by simp
  moreover have "read_fields c ud (m(pf_name f \<mapsto> g f)) fs =
      Inr (m(pf_name f \<mapsto> g f) ++ map_of (map (\<lambda>f. (pf_name f, g f)) fs))"
    by (rule Cons.IH) (use Cons.prems in simp_all)
  ultimately show ?case by (simp only: read_fields.simps ebind_simps list.map map_of.simps fst_conv snd_conv)
qed

lemma header_length [simp]: "length (primary_header c seq n) = 6"
  by (simp add: primary_header_def Let_def)

text \<open>What \<open>encode_packet\<close> returns.\<close>

lemma encode_packet_ok:
  "encode_packet c seq sec values = Inr p \<longleftrightarrow>
     pc_apid c \<le> max_apid \<and> seq \<le> 0x3FFF \<and> length sec = unat (pc_secondary_header_bytes c) \<and>
     1 \<le> unat (pc_user_data_bytes c) \<and> unat (pc_user_data_bytes c) \<le> 65536 \<and>
     (\<exists>ud. write_fields c values (replicate (unat (pc_user_data_bytes c)) 0) (pc_fields c) = Inr ud \<and>
        p = primary_header c seq (length sec + unat (pc_user_data_bytes c)) @ sec @ ud)"
proof -
  have u0: "pc_user_data_bytes c = 0 \<longleftrightarrow> unat (pc_user_data_bytes c) = 0" by (simp add: u32_eq_unat)
  have s: "unat (ucast seq :: u32) = unat seq"
  proof -
    have "unat seq < 65536" by (rule order_less_le_trans [OF unsigned_less]) simp
    then show ?thesis by (simp add: unsigned_ucast_eq take_bit_nat_eq_self)
  qed
  show ?thesis
    by (auto simp: encode_packet_def ebind_eq_Inr u0 s word_less_nat_alt word_le_nat_alt max_apid_def
        max_sequence_count_def not_less)
qed

text \<open>
  C38: (round trip) a packet that \<open>encode_packet\<close> makes under a codec that passed
  \<open>validate_codec\<close>, with fields that do not overlap and a packet data field the length field can
  count, decodes to the same identifier, command flag and sequence count and, field by field, to
  the value the field stores.
\<close>

theorem decode_encode:
  assumes "validate_codec c = Inr ()" and "fields_disjoint (pc_fields c)" and "distinct (map pf_name (pc_fields c))"
    and "encode_packet c seq sec values = Inr p"
    and "unat (pc_secondary_header_bytes c) + unat (pc_user_data_bytes c) \<le> 65536"
    and "m (pc_apid c) = Some c"
  shows "decode_packet m p = Inr
    \<lparr>dp_apid = pc_apid c, dp_is_command = pc_is_command c, dp_sequence_count = seq,
     dp_fields = map_of (map (\<lambda>f. (pf_name f, stored_value f (the (values (pf_name f))))) (pc_fields c))\<rparr>"
proof -
  let ?n = "unat (pc_user_data_bytes c)"
  have ok: "\<forall>f \<in> set (pc_fields c). field_ok ?n f" and n: "1 \<le> ?n" "?n \<le> 65536"
    using assms(1) by (simp_all add: validate_codec_ok)
  obtain ud where ud: "write_fields c values (replicate ?n 0) (pc_fields c) = Inr ud"
    and p: "p = primary_header c seq (length sec + ?n) @ sec @ ud"
    and e: "pc_apid c \<le> max_apid" "seq \<le> 0x3FFF" "length sec = unat (pc_secondary_header_bytes c)"
    using assms(4) by (auto simp: encode_packet_ok)
  have len: "length ud = ?n"
    and rd: "\<And>f. f \<in> set (pc_fields c) \<Longrightarrow>
      \<exists>v. values (pf_name f) = Some v \<and> read_field ud f (pc_id c) = Inr (stored_value f v)"
    using write_fields_reads_back [OF _ _ assms(2) ud] ok n(2) by auto
  have "read_fields c ud Map.empty (pc_fields c) = Inr (Map.empty ++
      map_of (map (\<lambda>f. (pf_name f, stored_value f (the (values (pf_name f))))) (pc_fields c)))"
  proof (rule read_fields_map [OF _ assms(3)], intro ballI conjI)
    fix f assume f: "f \<in> set (pc_fields c)"
    show "field_hi f \<le> 8 * ?n" using ok f by (simp add: field_ok_def)
    show "read_field ud f (pc_id c) = Inr (stored_value f (the (values (pf_name f))))"
      using rd [OF f] by auto
  qed
  moreover have "1 \<le> length sec + ?n" "length sec + ?n \<le> 65536" using n e(3) assms(5) by simp_all
  note h = header_fields [OF e(1,2), of "length sec + ?n" "sec @ ud"] header_length_field_exact [OF this]
  ultimately show ?thesis
    using n assms(6) e(3) len
    by (simp add: decode_packet_def p h primary_header_len_def Let_def)
qed

section \<open>Fields with the identity conversion\<close>

definition plain_conversion :: "packet_field \<Rightarrow> bool" where
  "plain_conversion f \<longleftrightarrow> pf_scale f = FZero False \<and> pf_offset f = FZero False"

lemma f_of_int_1: "f_of_int 1 = FNum 1"
  using f_of_int_exact [of 1] by simp

lemma f_div_1: "f_wf binary64 v \<Longrightarrow> f_div v (FNum 1) = v"
  by (cases v) (simp_all add: f_negative_def f_wf_def f_round_repr)

lemma f_mul_1: "f_wf binary64 v \<Longrightarrow> f_mul v (FNum 1) = v"
  by (cases v) (simp_all add: f_negative_def f_wf_def f_round_repr)

lemma f_sub_0: "f_sub v (FZero False) = v"
  by (cases v) (simp_all add: f_sub_def f_neg_def)

lemma raw_of_plain:
  assumes "plain_conversion f" and "f_wf binary64 v"
  shows "raw_of f v = v"
  using assms
  by (simp add: raw_of_def plain_conversion_def effective_scale_def f_of_int_1 f_sub_0 f_div_1 f_rat_def)

lemma engineering_plain:
  assumes "plain_conversion f" and "f_wf binary64 v" and "v \<noteq> FZero True"
  shows "engineering f v = v"
proof -
  have "f_add v (FZero False) = v" using assms(3) by (cases v) simp_all
  then show ?thesis
    using assms(1,2)
    by (simp add: engineering_def plain_conversion_def effective_scale_def f_of_int_1 f_mul_1 f_rat_def)
qed

lemma f_lt_of_int: 
  "\<bar>a\<bar> \<le> 2 ^ 53 \<Longrightarrow> \<bar>b\<bar> \<le> 2 ^ 53 \<Longrightarrow> f_lt (f_of_int a) (f_of_int b) \<longleftrightarrow> a < b"
  by (cases "a = 0"; cases "b = 0") (simp_all add: f_of_int_exact f_rat_def)

lemma f_wf_num_int: "n \<noteq> 0 \<Longrightarrow> \<bar>n\<bar> \<le> 2 ^ 53 \<Longrightarrow> f_wf binary64 (FNum (of_int n))"
  by (simp add: f_wf_def f_repr_int64)

lemma f_wf_num_numeral: "numeral k \<le> (2 ^ 53 :: int) \<Longrightarrow> f_wf binary64 (FNum (numeral k))"
  using f_wf_num_int [of "numeral k"] by simp

lemma f_round_int_numeral [simp]: "f_round_int (FNum (numeral k)) = FNum (numeral k)"
  using f_round_int_of_int [of "numeral k"] by simp

lemma f_to_u64_numeral: "numeral k < (2 ^ 64 :: int) \<Longrightarrow> f_to_u64 (FNum (numeral k)) = numeral k"
  using f_to_u64_finite [of "FNum (numeral k)" "numeral k"] by (simp add: f_is_finite_def f_rat_def)

lemmas plain_eval = raw_of_plain f_wf_num_numeral plain_conversion_def f_to_u64_numeral f_is_finite_def f_rat_def



lemma field_bits:
  assumes "field_ok (length data) f" and "length data \<le> 65536" and "unat (pf_bit_width f) \<le> 64"
  shows "\<exists>d. write_bitfield_u64 data (pf_bit_offset f) (pf_bit_width f) val = Inr d"
  by (rule write_read_bitfield [OF assms(3) field_ok_bounds [OF assms(1,2)], of val]) blast

lemma f_lt_zero: "f_is_finite v \<Longrightarrow> f_lt v (FZero False) \<longleftrightarrow> f_rat v < 0"
  by (cases v) (auto simp: f_is_finite_def f_rat_def)

lemma f_is_finite_of_int: "\<bar>n\<bar> \<le> 2 ^ 53 \<Longrightarrow> f_is_finite (f_of_int n)"
  by (cases "n = 0") (simp_all add: f_of_int_exact f_is_finite_def)

lemma f_rat_of_int: "\<bar>n\<bar> \<le> 2 ^ 53 \<Longrightarrow> f_rat (f_of_int n) = of_int n"
  by (cases "n = 0") (simp_all add: f_of_int_exact f_rat_def)

lemma rounded_against_int:
  assumes "f_is_finite v" and "\<bar>n\<bar> \<le> 2 ^ 53"
  shows "f_lt (f_round_int v) (f_of_int n) \<longleftrightarrow> f_int v < n" and "f_lt (f_of_int n) (f_round_int v) \<longleftrightarrow> n < f_int v"
  using assms by (simp_all add: f_lt_finite f_is_finite_of_int f_rat_of_int f_round_int_finite)

lemma f_int_nonneg: "0 \<le> f_rat v \<Longrightarrow> 0 \<le> f_int v"
  by (simp add: f_int_def Let_def)

lemma narrow_uint_store:
  assumes "f_is_finite raw" and "0 \<le> f_int raw" and "f_int raw < 2 ^ w" and "w \<le> 53"
  shows "uint (take_bit w (f_to_u64 (f_round_int raw))) = f_int raw"
proof -
  have "(2::int) ^ w \<le> 2 ^ 53" by (rule power_increasing) (use assms in simp_all)
  then have "f_int raw < 2 ^ 64" using assms(3) by simp
  then have "f_to_u64 (f_round_int raw) = word_of_int (f_int raw)"
    using assms by (intro f_to_u64_finite) (simp_all add: f_round_int_finite)
  then show ?thesis
    using assms by (simp add: unsigned_take_bit_eq uint_word_of_int_eq take_bit_int_eq_self min_def)
qed

lemma int_range_nat:
  assumes "2 \<le> unat w" and "unat w \<le> 63"
  shows "int_range w = (- (2 ^ (unat w - 1)), 2 ^ (unat w - 1) - 1)"
proof -
  have u: "unat (w - 1) = unat w - 1" "\<not> 64 \<le> w"
    using assms by (simp_all add: unat_sub word_le_nat_alt)
  define p where "p = (2 ^ (unat w - 1) :: int)"
  have "p \<le> 2 ^ 62" unfolding p_def by (rule power_increasing) (use assms(2) in simp_all)
  then have p: "0 \<le> p" "p \<le> 4611686018427387904" by (simp_all add: p_def)
  have "push_bit (unat w - 1) 1 = (word_of_int p :: u64)" by (simp add: push_bit_eq_mult p_def)
  moreover have "take_bit 64 p = p" by (rule take_bit_int_eq_self) (use p in simp_all)
  moreover have "signed_take_bit 63 p = p" by (rule signed_take_bit_int_eq_self) (use p in simp_all)
  ultimately have "sint (push_bit (unat w - 1) 1 :: u64) = p"
    by (simp add: sint_uint uint_word_of_int_eq)
  moreover have "in_i64 (- p)" "in_i64 (p - 1)"
    using p by (simp_all add: in_i64_def i64_min_def i64_max_def)
  ultimately show ?thesis
    using assms u by (simp add: int_range_def Let_def wrap_i64_id p_def)
qed

lemma narrow_int_store:
  assumes "f_is_finite raw" and "- (2 ^ (w - 1)) \<le> f_int raw" and "f_int raw < 2 ^ (w - 1)" and "w \<le> 53" "2 \<le> w"
  shows "signed_take_bit (w - 1) (f_to_i64 (f_round_int raw)) = f_int raw"
proof -
  have "(2::int) ^ (w - 1) \<le> 2 ^ 52" by (rule power_increasing) (use assms in simp_all)
  then have "in_i64 (f_int raw)" using assms(2,3) by (simp add: in_i64_def i64_min_def i64_max_def)
  then have "f_to_i64 (f_round_int raw) = f_int raw"
    using assms(1) by (intro f_to_i64_finite) (simp_all add: f_round_int_finite)
  then show ?thesis using assms by (simp add: signed_take_bit_int_eq_self)
qed

definition integer_fits :: "packet_field \<Rightarrow> f64 \<Rightarrow> bool" where
  "integer_fits f raw \<longleftrightarrow>
     (let w = unat (pf_bit_width f) in
      f_is_finite raw \<and>
      (if packet_field_type_of (pf_type f) = Pft_Uint then 0 \<le> f_rat raw \<and> f_int raw < 2 ^ w
       else - (2 ^ (w - 1)) \<le> f_int raw \<and> f_int raw < 2 ^ (w - 1)))"

lemma narrow_uint_cases:
  assumes "field_ok (length data) f" and "length data \<le> 65536" and "unat (pf_bit_width f) \<le> 53"
    and t: "packet_field_type_of (pf_type f) = Pft_Uint"
  shows "if integer_fits f (raw_of f x) then \<exists>d. write_field data f (Numeric x) cid = Inr d
    else write_field data f (Numeric x) cid = refuse_codec (FieldValueOutOfRange cid (pf_name f))"
proof -
  let ?w = "unat (pf_bit_width f)"
  have w64: "?w \<le> 64" using assms(3) by simp
  have "(2::int) ^ ?w \<le> 2 ^ 53" by (rule power_increasing) (use assms(3) in simp_all)
  then have "\<bar>2 ^ ?w - 1 :: int\<bar> \<le> 2 ^ 53" by simp
  note hi = rounded_against_int(2) [OF _ this]
  show ?thesis
    using field_bits [OF assms(1,2) w64] t
    by (simp add: write_field_def integer_fits_def numeric_value_def Let_def uint_max_uint w64 f_lt_zero hi not_less)
qed

lemma narrow_int_cases:
  assumes "field_ok (length data) f" and "length data \<le> 65536" and "unat (pf_bit_width f) \<le> 53"
    and t: "packet_field_type_of (pf_type f) = Pft_Int"
  shows "if integer_fits f (raw_of f x) then \<exists>d. write_field data f (Numeric x) cid = Inr d
    else write_field data f (Numeric x) cid = refuse_codec (FieldValueOutOfRange cid (pf_name f))"
proof -
  let ?w = "unat (pf_bit_width f)"
  have w64: "?w \<le> 64" "?w \<le> 63" using assms(3) by simp_all
  have w2: "2 \<le> ?w" using assms(1) t by (simp add: field_ok_def)
  have "(2::int) ^ (?w - 1) \<le> 2 ^ 53" by (rule power_increasing) (use assms(3) in simp_all)
  then have "\<bar>- (2 ^ (?w - 1)) :: int\<bar> \<le> 2 ^ 53" "\<bar>2 ^ (?w - 1) - 1 :: int\<bar> \<le> 2 ^ 53" by simp_all
  note lo = rounded_against_int(1) [OF _ this(1), unfolded One_nat_def]
    and hi = rounded_against_int(2) [OF _ this(2), unfolded One_nat_def]
  show ?thesis
    using field_bits [OF assms(1,2) w64(1)] t
    by (simp add: write_field_def integer_fits_def numeric_value_def Let_def int_range_nat [OF w2 w64(2)])
      (auto simp: hi lo)
qed

text \<open>
  C40: (bounds) an integer field of at most 53 bits accepts exactly the values whose raw number,
  rounded to the nearest integer, fits it; what it accepts reads back as the conversion of that
  integer, and everything else is refused as out of range.
\<close>

theorem narrow_fields_exact:
  assumes "field_ok (length data) f" and "length data \<le> 65536" and "unat (pf_bit_width f) \<le> 53"
    and "packet_field_type_of (pf_type f) \<in> {Pft_Uint, Pft_Int}"
  shows "if integer_fits f (raw_of f x)
    then \<exists>d. write_field data f (Numeric x) cid = Inr d \<and>
           read_field d f cid = Inr (Numeric (engineering f (f_of_int (f_int (raw_of f x)))))
    else write_field data f (Numeric x) cid = refuse_codec (FieldValueOutOfRange cid (pf_name f))"
proof (cases "integer_fits f (raw_of f x)")
  case False
  then show ?thesis
    using assms(4) narrow_uint_cases [OF assms(1-3), of x cid] narrow_int_cases [OF assms(1-3), of x cid]
    by auto
next
  case True
  then obtain d where w: "write_field data f (Numeric x) cid = Inr d"
    using assms(4) narrow_uint_cases [OF assms(1-3), of x cid] narrow_int_cases [OF assms(1-3), of x cid]
    by auto
  have r: "read_field d f cid = Inr (stored_value f (Numeric x))"
    using write_field_reads_back [OF assms(1,2) w] by blast
  have "stored_value f (Numeric x) = Numeric (engineering f (f_of_int (f_int (raw_of f x))))"
  proof (cases "packet_field_type_of (pf_type f) = Pft_Uint")
    case Uint: True
    then show ?thesis
      using True f_int_nonneg [of "raw_of f x"] narrow_uint_store [OF _ _ _ assms(3), of "raw_of f x"]
      by (simp add: integer_fits_def stored_value_def field_eng_def Let_def)
  next
    case False
    then have "packet_field_type_of (pf_type f) = Pft_Int" using assms(4) by simp
    then show ?thesis
      using True narrow_int_store [OF _ _ _ assms(3), of "raw_of f x"] assms(1)
      by (simp add: integer_fits_def stored_value_def field_eng_def Let_def field_ok_def)
  qed
  then show ?thesis using True w r by auto
qed


section \<open>Wide fields\<close>

lemma round_even_up:
  assumes "of_int n - 1 / 2 \<le> x" and "x < of_int n" and "even n"
  shows "round_even x = n"
proof -
  have fl: "\<lfloor>x\<rfloor> = n - 1" by (rule floor_unique) (use assms in simp_all)
  have "odd (n - 1)" using assms(3) by simp
  moreover have "\<not> x - of_int (n - 1) < 1 / 2" using assms(1) unfolding of_int_diff of_int_1 by linarith
  ultimately show ?thesis unfolding round_even_def Let_def fl by simp
qed

lemma round_bound_up:
  assumes "54 \<le> w" and "w \<le> 63"
  shows "f_of_int (2 ^ w - 1) = FNum (2 ^ w)"
proof -
  define k where "k = w - 53"
  have k: "w = k + 53" "1 \<le> k" "k \<le> 10" using assms by (auto simp: k_def)
  let ?x = "2 ^ w - 1 :: rat"
  have w1: "(2::rat) ^ w = 2 * 2 ^ (w - 1)" using k by (simp add: numeral_eq_Suc)
  have p1: "(1::rat) \<le> 2 ^ (w - 1)" by simp
  have x0: "0 < ?x" using w1 p1 by linarith
  have "ulog2 \<bar>?x\<bar> = int (w - 1)"
  proof (rule ulog2_eqI)
    show "2 powi int (w - 1) \<le> \<bar>?x\<bar>" using x0 w1 p1 by (simp add: power_int_of_nat)
    have "(2::rat) powi (int (w - 1) + 1) = 2 ^ w" using w1 by (simp add: power_int_add)
    then show "\<bar>?x\<bar> < 2 powi (int (w - 1) + 1)" using x0 by simp
  qed
  then have e: "f_exp binary64 ?x = int k" using k by (simp add: f_exp_def binary64_def)
  have q: "?x / 2 ^ k = 2 ^ 53 - 1 / 2 ^ k" using k by (simp add: power_add field_simps)
  have h: "1 / 2 ^ k \<le> (1 / 2 :: rat)" "0 < (1 / 2 ^ k :: rat)"
    using k(2) power_increasing [of 1 k "2::rat"] by (simp_all add: field_simps)
  have "round_even (?x / 2 ^ k) = 2 ^ 53"
    unfolding q by (rule round_even_up) (use h in simp_all)
  moreover have u: "f_unit binary64 ?x = 2 ^ k" by (simp only: f_unit_def e power_int_of_nat)
  ultimately have "of_int (round_even (?x / f_unit binary64 ?x)) * f_unit binary64 ?x = of_int (2 ^ 53) * (2 ^ k :: rat)"
    by (simp only:)
  also have "\<dots> = 2 ^ w" unfolding k(1) by (simp add: power_add)
  finally have y: "of_int (round_even (?x / f_unit binary64 ?x)) * f_unit binary64 ?x = (2 ^ w :: rat)" .
  have "(2::rat) ^ w \<le> 2 ^ 63" using k by (intro power_increasing) simp_all
  also have "\<dots> < 2 ^ 1024" by (rule power_strict_increasing) simp_all
  finally have top: "\<not> (2::rat) ^ 1024 \<le> 2 ^ w" by simp
  have "f_round binary64 False ?x = FNum (2 ^ w)"
    unfolding f_round_def Let_def y using x0 top by (simp add: binary64_def)
  then show ?thesis by (simp add: f_of_int_def)
qed

lemma f_repr_pow2: "w \<le> 63 \<Longrightarrow> f_repr binary64 (2 ^ w)"
proof -
  assume w: "w \<le> 63"
  have l: "ulog2 (2 ^ w) = int w"
    by (rule ulog2_eqI) (simp_all add: power_int_add)
  have "2 ^ w / f_unit binary64 (2 ^ w) \<in> \<int>"
  proof (cases "52 \<le> w")
    case True
    then have "f_exp binary64 (2 ^ w) = int (w - 52)" by (simp add: f_exp_def l binary64_def)
    then have "f_unit binary64 (2 ^ w) = 2 ^ (w - 52)" by (simp add: f_unit_def)
    moreover have "(2::rat) ^ w = 2 ^ (52 + (w - 52))" using True by simp
    then have "(2::rat) ^ w = 2 ^ 52 * 2 ^ (w - 52)" by (simp only: power_add)
    ultimately have "2 ^ w / f_unit binary64 (2 ^ w) = of_int (2 ^ 52)" by simp
    then show ?thesis by (metis Ints_of_int)
  next
    case False
    then have "(2::int) ^ w \<le> 2 ^ 53" by (intro power_increasing) simp_all
    then show ?thesis using f_repr_int64 [of "2 ^ w"] by (simp add: f_repr_def)
  qed
  moreover have "(2::rat) ^ w < 2 ^ 1024" by (rule power_strict_increasing) (use w in simp_all)
  ultimately show ?thesis by (simp add: f_repr_def binary64_def)
qed

text \<open>
  The range check of an unsigned field of 54 to 63 bits is off by one: the bound \<open>2 ^ w - 1\<close>
  rounds up when it becomes an \<open>f64\<close>, so the value \<open>2 ^ w\<close>, which does not fit, is accepted and
  reads back as zero.
\<close>

theorem wide_uint_bound_wraps:
  assumes "field_ok (length data) f" and "length data \<le> 65536"
    and "packet_field_type_of (pf_type f) = Pft_Uint" and "plain_conversion f"
    and "54 \<le> unat (pf_bit_width f)" and "unat (pf_bit_width f) \<le> 63"
  shows "\<exists>d. write_field data f (Numeric (FNum (2 ^ unat (pf_bit_width f)))) cid = Inr d \<and>
    read_field d f cid = Inr (Numeric (FZero False))"
proof -
  let ?w = "unat (pf_bit_width f)"
  let ?v = "FNum (2 ^ ?w)"
  have w64: "?w \<le> 64" using assms(6) by simp
  have raw: "raw_of f ?v = ?v"
    by (rule raw_of_plain [OF assms(4)]) (use f_repr_pow2 [OF assms(6)] in \<open>simp add: f_wf_def\<close>)
  have ri: "f_round_int ?v = ?v" using f_round_int_of_int [of "2 ^ ?w"] by simp
  have mx: "f_of_int (uint (max_uint (pf_bit_width f))) = ?v"
    using round_bound_up [OF assms(5,6)] by (simp add: uint_max_uint w64)
  have "f_lt ?v ?v = False" "f_lt ?v (FZero False) = False" "f_is_finite ?v"
    by (simp_all add: f_rat_def f_is_finite_def)
  then obtain d where d: "write_field data f (Numeric ?v) cid = Inr d"
    using field_bits [OF assms(1,2) w64] assms(3)
    by (auto simp: write_field_def numeric_value_def raw ri mx Let_def)
  have "(2::int) ^ ?w < 2 ^ 64" by (rule power_strict_increasing) (use assms(6) in simp_all)
  then have "f_to_u64 ?v = word_of_int (2 ^ ?w)"
    by (intro f_to_u64_finite) (simp_all add: f_is_finite_def f_rat_def)
  moreover have "take_bit ?w (2 ^ ?w :: u64) = 0"
    by (rule bit_eqI) (auto simp: bit_take_bit_iff bit_exp_iff)
  ultimately have "take_bit ?w (f_to_u64 ?v) = 0" by simp
  then have "stored_value f (Numeric ?v) = Numeric (FZero False)"
    using assms(3,4) by (simp add: stored_value_def field_eng_def raw ri Let_def engineering_plain)
  then show ?thesis using d write_field_reads_back [OF assms(1,2) d] by auto
qed

section \<open>The length field\<close>

text \<open>
  The length field can overflow: when the secondary header and the user data together exceed
  65536 bytes \<open>encode_packet\<close> still succeeds, and \<open>decode_packet\<close> refuses the packet it made: the
  length field has lost its high bits. The comment in the code says the sum was checked.
\<close>

theorem oversized_packet_not_decodable:
  assumes "encode_packet c seq sec values = Inr p" and "m (pc_apid c) = Some c"
    and "65536 < length sec + unat (pc_user_data_bytes c)"
  shows "\<exists>n. decode_packet m p =
    refuse_codec (PacketDataLengthMismatch (pc_apid c) (pc_id c) (pc_user_data_bytes c) n)"
proof -
  let ?n = "length sec + unat (pc_user_data_bytes c)"
  obtain ud where p: "p = primary_header c seq ?n @ sec @ ud"
    and e: "pc_apid c \<le> max_apid" "seq \<le> 0x3FFF" "length sec = unat (pc_secondary_header_bytes c)"
    using assms(1) by (auto simp: encode_packet_ok)
  have l: "unat (header_length_field p) < 65536" unfolding p length_field_wraps by simp
  have a: "header_apid p = pc_apid c"
    unfolding p by (rule header_fields(1) [OF e(1,2)])
  have "6 \<le> length p" by (simp add: p)
  then show ?thesis
    using l a assms(2,3) e(3) by (auto simp: decode_packet_def primary_header_len_def Let_def)
qed


section \<open>What load-time validation buys\<close>

lemma add_codecs_dup:
  assumes "a \<in> set (map pc_apid cs)" and "m a \<noteq> None"
  shows "add_codecs m cs \<noteq> Inr m'"
  using assms
proof (induction cs arbitrary: m)
  case Nil
  then show ?case by simp
next
  case (Cons c cs)
  then show ?case
    by (cases "validate_codec c"; cases "m (pc_apid c)") auto
qed

lemma add_codecs_ok:
  assumes "dom m \<inter> set (map pc_apid cs) = {}"
  shows "add_codecs m cs = Inr m' \<longleftrightarrow>
     (\<forall>c \<in> set cs. validate_codec c = Inr ()) \<and> distinct (map pc_apid cs) \<and>
     m' = m ++ map_of (map (\<lambda>c. (pc_apid c, c)) cs)"
  using assms
proof (induction cs arbitrary: m)
  case Nil
  then show ?case by auto
next
  case (Cons c cs)
  have free: "m (pc_apid c) = None" using Cons.prems by auto
  show ?case
  proof (cases "validate_codec c = Inr () \<and> pc_apid c \<notin> set (map pc_apid cs)")
    case True
    then have "dom (m(pc_apid c \<mapsto> c)) \<inter> set (map pc_apid cs) = {}" using Cons.prems by auto
    note ih = Cons.IH [OF this]
    have "pc_apid c \<notin> dom (map_of (map (\<lambda>c. (pc_apid c, c)) cs))"
      using True by (auto simp: dom_map_of_conv_image_fst)
    then have eq: "m(pc_apid c \<mapsto> c) ++ map_of (map (\<lambda>c. (pc_apid c, c)) cs) =
        m ++ map_of (map (\<lambda>c. (pc_apid c, c)) (c # cs))"
      by (simp add: map_add_upd_left)
    have step: "add_codecs m (c # cs) = add_codecs (m(pc_apid c \<mapsto> c)) cs"
      using True free by simp
    define M where "M = m ++ map_of (map (\<lambda>c. (pc_apid c, c)) (c # cs))"
    have "add_codecs m (c # cs) = Inr m' \<longleftrightarrow>
       (\<forall>c \<in> set (c # cs). validate_codec c = Inr ()) \<and> distinct (map pc_apid (c # cs)) \<and> m' = M"
      unfolding step ih eq M_def [symmetric] using True by auto
    then show ?thesis unfolding M_def .
  next
    case False
    have dup: "add_codecs (m(pc_apid c \<mapsto> c)) cs \<noteq> Inr m'" if "pc_apid c \<in> set (map pc_apid cs)"
      by (rule add_codecs_dup [OF that]) simp
    show ?thesis using False dup free by (cases "validate_codec c") auto
  qed
qed

lemma validate_system_ok:
  "validate_system_packet_codecs cs = Inr m \<longleftrightarrow>
     (\<forall>c \<in> set cs. validate_codec c = Inr ()) \<and> distinct (map pc_apid cs) \<and>
     m = map_of (map (\<lambda>c. (pc_apid c, c)) cs)"
  by (simp add: validate_system_packet_codecs_def add_codecs_ok)

lemma map_of_by_key:
  assumes "distinct (map k cs)"
  shows "map_of (map (\<lambda>c. (k c, c)) cs) a = Some c \<longleftrightarrow> c \<in> set cs \<and> a = k c"
proof -
  have "distinct (map fst (map (\<lambda>c. (k c, c)) cs))" using assms by (simp add: comp_def)
  then show ?thesis by (auto simp: map_of_eq_Some_iff)
qed

definition codec_map_ok :: "apid_map \<Rightarrow> bool" where
  "codec_map_ok m \<longleftrightarrow> (\<forall>a c. m a = Some c \<longrightarrow> validate_codec c = Inr ())"

lemma validate_system_map_ok:
  "validate_system_packet_codecs cs = Inr m \<Longrightarrow> codec_map_ok m"
  by (auto simp: validate_system_ok codec_map_ok_def dest!: map_of_SomeD)

lemma read_field_total:
  assumes "field_ok (length d) f" and "length d \<le> 65536"
  shows "\<exists>v. read_field d f cid = Inr v"
proof -
  note b = field_ok_bounds [OF assms]
  have r: "\<exists>r. read_bitfield_u64 d (pf_bit_offset f) (pf_bit_width f) = Inr r"
    using read_bitfield_spec [OF b] by metis
  show ?thesis
  proof (cases "packet_field_type_of (pf_type f)")
    case Pft_Unspecified
    then show ?thesis using assms(1) by (simp add: field_ok_def)
  next
    case Pft_Float32
    then have "pf_bit_width f = 32" by (rule field_widths [OF assms(1)])
    then show ?thesis using r Pft_Float32 by (auto simp: read_field_def)
  next
    case Pft_Float64
    then have "pf_bit_width f = 64" by (rule field_widths [OF assms(1)])
    then show ?thesis using r Pft_Float64 by (auto simp: read_field_def)
  next
    case Pft_Bytes
    obtain start len where "unat (pf_bit_offset f div 8) = start" "unat (pf_bit_width f div 8) = len"
      and "start + len \<le> length d"
      by (rule field_ok_bytes [OF assms(1) Pft_Bytes])
    then show ?thesis using Pft_Bytes by (simp add: read_field_def Let_def)
  qed (use r in \<open>auto simp: read_field_def\<close>)
qed

lemma read_fields_total:
  assumes "\<forall>f \<in> set fs. field_ok (length d) f" and "length d = unat (pc_user_data_bytes c)" and "length d \<le> 65536"
  shows "\<exists>m'. read_fields c d m fs = Inr m'"
  using assms(1)
proof (induction fs arbitrary: m)
  case Nil
  then show ?case by simp
next
  case (Cons f fs)
  obtain v where "read_field d f (pc_id c) = Inr v"
    using read_field_total [of d f "pc_id c"] Cons.prems assms(3) by auto
  moreover have "check_field_extent f (pc_user_data_bytes c) (pc_id c) = Inr ()"
    using Cons.prems assms(2) by (simp add: check_field_extent_ok field_ok_def)
  ultimately show ?case using Cons by simp
qed

lemma decode_packet_total:
  assumes "codec_map_ok m"
  shows "(\<exists>d. decode_packet m data = Inr d) \<longleftrightarrow>
    (\<exists>c. 6 \<le> length data \<and> m (header_apid data) = Some c \<and>
       unat (header_length_field data) + 1 = unat (pc_secondary_header_bytes c) + unat (pc_user_data_bytes c) \<and>
       length data = 6 + unat (pc_secondary_header_bytes c) + unat (pc_user_data_bytes c))"
    and "decode_packet m data \<noteq> Inl Panic"
proof -
  have r: "\<exists>fm. read_fields c (drop (6 + unat (pc_secondary_header_bytes c)) data) Map.empty (pc_fields c) = Inr fm"
    if "m (header_apid data) = Some c"
      "length data = 6 + unat (pc_secondary_header_bytes c) + unat (pc_user_data_bytes c)" for c
  proof -
    have "validate_codec c = Inr ()" using assms that(1) by (simp add: codec_map_ok_def)
    then show ?thesis
      using that(2) by (intro read_fields_total) (simp_all add: validate_codec_ok)
  qed
  show "(\<exists>d. decode_packet m data = Inr d) \<longleftrightarrow>
    (\<exists>c. 6 \<le> length data \<and> m (header_apid data) = Some c \<and>
       unat (header_length_field data) + 1 = unat (pc_secondary_header_bytes c) + unat (pc_user_data_bytes c) \<and>
       length data = 6 + unat (pc_secondary_header_bytes c) + unat (pc_user_data_bytes c))"
  proof (cases "m (header_apid data)")
    case None
    then show ?thesis by (simp add: decode_packet_def Let_def)
  next
    case (Some c)
    show ?thesis
    proof (cases "length data = 6 + unat (pc_secondary_header_bytes c) + unat (pc_user_data_bytes c)")
      case True
      obtain fm where "read_fields c (drop (6 + unat (pc_secondary_header_bytes c)) data) Map.empty (pc_fields c) = Inr fm"
        using r [OF Some True] by blast
      then show ?thesis using Some True by (simp add: decode_packet_def primary_header_len_def Let_def)
    next
      case False
      then show ?thesis using Some by (simp add: decode_packet_def primary_header_len_def Let_def)
    qed
  qed
  show "decode_packet m data \<noteq> Inl Panic"
  proof (cases "m (header_apid data)")
    case None
    then show ?thesis by (simp add: decode_packet_def Let_def)
  next
    case (Some c)
    then show ?thesis using r [OF Some] by (auto simp: decode_packet_def primary_header_len_def Let_def)
  qed
qed

lemma write_field_no_panic:
  assumes "field_ok (length d) f" and "length d \<le> 65536"
  shows "write_field d f v cid \<noteq> Inl Panic"
proof -
  note b = field_ok_bounds [OF assms]
  have w: "write_bitfield_u64 d (pf_bit_offset f) (pf_bit_width f) x \<noteq> Inl Panic" if "unat (pf_bit_width f) \<le> 64" for x
    using field_bits [OF assms that, of x] by auto
  show ?thesis
  proof (cases "packet_field_type_of (pf_type f)")
    case Pft_Unspecified
    then show ?thesis by (simp add: write_field_def)
  next
    case Pft_Float32
    then have "pf_bit_width f = 32" by (rule field_widths [OF assms(1)])
    then show ?thesis using w Pft_Float32 by (auto simp: write_field_def numeric_value_def split: field_value.splits)
  next
    case Pft_Float64
    then have "pf_bit_width f = 64" by (rule field_widths [OF assms(1)])
    then show ?thesis using w Pft_Float64 by (auto simp: write_field_def numeric_value_def split: field_value.splits)
  next
    case Pft_Bytes
    obtain start len where "unat (pf_bit_offset f div 8) = start" "unat (pf_bit_width f div 8) = len"
      and "start + len \<le> length d"
      by (rule field_ok_bytes [OF assms(1) Pft_Bytes])
    then show ?thesis using Pft_Bytes by (auto simp: write_field_def Let_def split: field_value.splits)
  next
    case Pft_Uint
    then have "unat (pf_bit_width f) \<le> 64" using assms(1) by (simp add: field_ok_def)
    then show ?thesis
      using w Pft_Uint by (auto simp: write_field_def numeric_value_def Let_def split: field_value.splits)
  next
    case Pft_Int
    then have "unat (pf_bit_width f) \<le> 64" using assms(1) by (simp add: field_ok_def)
    then show ?thesis
      using w Pft_Int
      by (cases "int_range (pf_bit_width f)")
        (auto simp: write_field_def numeric_value_def Let_def split: field_value.splits)
  qed
qed

lemma write_fields_no_panic:
  assumes "\<forall>f \<in> set fs. field_ok (length d) f" and "length d \<le> 65536"
  shows "write_fields c values d fs \<noteq> Inl Panic"
  using assms
proof (induction fs arbitrary: d)
  case Nil
  then show ?case by simp
next
  case (Cons f fs)
  have "length d' = length d" if "write_field d f v (pc_id c) = Inr d'" for v d'
    using write_field_reads_back [OF _ Cons.prems(2) that] Cons.prems(1) by simp
  then have "write_fields c values d' fs \<noteq> Inl Panic" if "write_field d f v (pc_id c) = Inr d'" for v d'
    using Cons.IH [of d'] Cons.prems that by simp
  moreover have "write_field d f v (pc_id c) \<noteq> Inl Panic" for v
    using write_field_no_panic Cons.prems by simp
  moreover have "check_field_extent f (pc_user_data_bytes c) (pc_id c) \<noteq> Inl Panic"
    by (simp add: check_field_extent_def)
  ultimately show ?case
    by (cases "values (pf_name f)") (auto simp: ebind_eq_Inl)
qed

lemma encode_packet_no_panic:
  assumes "validate_codec c = Inr ()"
  shows "encode_packet c seq sec values \<noteq> Inl Panic"
  using assms write_fields_no_panic [of "pc_fields c" "replicate (unat (pc_user_data_bytes c)) 0" c "values"]
  by (auto simp: encode_packet_def validate_codec_ok ebind_eq_Inl)

text \<open>
  C39: (load-time validation is enough) with codecs that passed
  \<open>validate_system_packet_codecs\<close>, no packet, however malformed, makes \<open>decode_packet\<close> index out
  of range, and no arguments make \<open>encode_packet\<close> do so.
\<close>

theorem validated_codecs_never_panic:
  assumes "validate_system_packet_codecs cs = Inr m" and "c \<in> set cs"
  shows "decode_packet m data \<noteq> Inl Panic \<and> encode_packet c seq sec values \<noteq> Inl Panic"
  using decode_packet_total(2) [OF validate_system_map_ok [OF assms(1)]] encode_packet_no_panic [of c]
    assms by (simp add: validate_system_ok)

text \<open>
  What is decoded: with validated codecs, \<open>decode_packet\<close> accepts exactly the buffers that
  hold a whole primary header, name a declared codec, carry the length field that codec implies,
  and have exactly the length the header announces.
\<close>

theorem decode_packet_accepts:
  assumes "validate_system_packet_codecs cs = Inr m"
  shows "(\<exists>d. decode_packet m data = Inr d) \<longleftrightarrow>
    (\<exists>c \<in> set cs. 6 \<le> length data \<and> header_apid data = pc_apid c \<and>
       unat (header_length_field data) + 1 = unat (pc_secondary_header_bytes c) + unat (pc_user_data_bytes c) \<and>
       length data = 6 + unat (pc_secondary_header_bytes c) + unat (pc_user_data_bytes c))"
proof -
  have "m a = Some c \<longleftrightarrow> c \<in> set cs \<and> a = pc_apid c" for a c
    using assms by (auto simp: validate_system_ok map_of_by_key)
  then show ?thesis
    unfolding decode_packet_total(1) [OF validate_system_map_ok [OF assms]] by blast
qed

text \<open>
  (A codec that skipped validation can panic.) A \<open>FLOAT32\<close> field is read 32 bits wide whatever
  width it declares, and the check before the read uses the declared width.
\<close>

theorem unvalidated_float32_panics:
  "decode_packet [1 \<mapsto> \<lparr>pc_id = ''c'', pc_apid = 1, pc_is_command = False, pc_secondary_header_bytes = 0,
       pc_fields = [\<lparr>pf_name = ''f'', pf_bit_offset = 0, pf_bit_width = 8, pf_type = 3,
          pf_scale = FZero False, pf_offset = FZero False, pf_target = []\<rparr>],
       pc_user_data_bytes = 1\<rparr>] [0, 1, 0xC0, 0, 0, 0, 42] = Inl Panic"
  by (simp add: decode_packet_def header_apid_def header_length_field_def primary_header_len_def Let_def
      check_field_extent_def bit_end_def read_field_def packet_field_type_of_def read_bitfield_u64_def
      byte_idx_def bit_in_byte_def upt_rec)
section \<open>Concrete packets\<close>

definition wit_uint :: packet_field where
  "wit_uint = \<lparr>pf_name = ''u'', pf_bit_offset = 3, pf_bit_width = 12, pf_type = 1,
     pf_scale = FZero False, pf_offset = FZero False, pf_target = []\<rparr>"

definition wit_bytes :: packet_field where
  "wit_bytes = \<lparr>pf_name = ''b'', pf_bit_offset = 16, pf_bit_width = 8, pf_type = 5,
     pf_scale = FZero False, pf_offset = FZero False, pf_target = []\<rparr>"

definition wit_codec :: packet_codec where
  "wit_codec = \<lparr>pc_id = ''tm'', pc_apid = 0x123, pc_is_command = False, pc_secondary_header_bytes = 1,
     pc_fields = [wit_uint, wit_bytes], pc_user_data_bytes = 3\<rparr>"

definition wit_values :: "string \<rightharpoonup> field_value" where
  "wit_values = [''u'' \<mapsto> Numeric (FNum 2748), ''b'' \<mapsto> FBytes [7]]"

lemma max_uint_12: "f_of_int (uint (max_uint 12)) = FNum 4095"
  using f_of_int_exact [of 4095] by (simp add: max_uint_def)

lemma upt_12: "[0..<12] = [0,1,2,3,4,5,6,7,8,9,10,11::nat]"
  by (simp add: upt_rec)

lemma wit_write: "write_field [0,0,0] wit_uint (Numeric (FNum 2748)) ''tm'' = Inr [21, 120, 0]"
  by (simp add: write_field_def wit_uint_def packet_field_type_of_def numeric_value_def plain_eval Let_def
    max_uint_12 write_bitfield_u64_def upt_12 byte_idx_def bit_in_byte_def)

lemma wit_validate: "validate_codec wit_codec = Inr ()"
  by (simp add: validate_codec_def wit_codec_def max_apid_def validate_field_def wit_uint_def wit_bytes_def
      packet_field_type_of_def bit_end_def width_ok_def Let_def)

lemma wit_encode: "encode_packet wit_codec 5 [9] wit_values = Inr [9, 0x23, 0xC0, 5, 0, 3, 9, 21, 120, 7]"
proof -
  have u: "write_field (replicate 3 0) wit_uint (Numeric (FNum 2748)) ''tm'' = Inr [21, 120, 0]"
    using wit_write by (simp add: numeral_3_eq_3)
  have b: "write_field [21, 120, 0] wit_bytes (FBytes [7]) ''tm'' = Inr [21, 120, 7]"
    by (simp add: write_field_def wit_bytes_def packet_field_type_of_def Let_def)
  have e: "check_field_extent wit_uint 3 ''tm'' = Inr ()" "check_field_extent wit_bytes 3 ''tm'' = Inr ()"
    by (simp_all add: check_field_extent_def bit_end_def wit_uint_def wit_bytes_def)
  have n: "pf_name wit_uint = ''u''" "pf_name wit_bytes = ''b''" by (simp_all add: wit_uint_def wit_bytes_def)
  have "write_fields wit_codec wit_values (replicate 3 0) [wit_uint, wit_bytes] = Inr [21, 120, 7]"
    by (simp add: wit_codec_def u b e n wit_values_def)
  then show ?thesis
    by (simp add: encode_packet_def wit_codec_def max_apid_def max_sequence_count_def primary_header_def Let_def
       )
qed

lemma wit_stored: "stored_value wit_uint (Numeric (FNum 2748)) = Numeric (FNum 2748)"
proof -
  have "f_of_int 2748 = FNum 2748" using f_of_int_exact [of 2748] by simp
  then show ?thesis
    by (simp add: stored_value_def wit_uint_def packet_field_type_of_def field_eng_def plain_eval Let_def
      engineering_plain)
qed

theorem decode_encode_witness:
  "\<exists>d. decode_packet [0x123 \<mapsto> wit_codec] [9, 0x23, 0xC0, 5, 0, 3, 9, 21, 120, 7] = Inr d \<and>
     dp_sequence_count d = 5 \<and> dp_fields d ''u'' = Some (Numeric (FNum 2748)) \<and> dp_fields d ''b'' = Some (FBytes [7])"
proof -
  have d: "fields_disjoint (pc_fields wit_codec)" "distinct (map pf_name (pc_fields wit_codec))"
    by (simp_all add: wit_codec_def wit_uint_def wit_bytes_def field_lo_def field_hi_def)
  have s: "unat (pc_secondary_header_bytes wit_codec) + unat (pc_user_data_bytes wit_codec) \<le> 65536"
    "[0x123 \<mapsto> wit_codec] (pc_apid wit_codec) = Some wit_codec"
    by (simp_all add: wit_codec_def)
  have b: "stored_value wit_bytes (FBytes [7]) = FBytes [7]"
    by (simp add: stored_value_def wit_bytes_def packet_field_type_of_def Let_def)
  have "pc_fields wit_codec = [wit_uint, wit_bytes]" "pf_name wit_uint = ''u''" "pf_name wit_bytes = ''b''"
    "wit_values ''u'' = Some (Numeric (FNum 2748))" "wit_values ''b'' = Some (FBytes [7])"
    by (simp_all add: wit_codec_def wit_uint_def wit_bytes_def wit_values_def)
  then show ?thesis
    using decode_encode [OF wit_validate d wit_encode s(1), of "[0x123 \<mapsto> wit_codec]"] s(2) by (simp add: wit_stored b)
qed

lemma wit_field_ok: "field_ok 3 wit_uint"
  by (simp add: field_ok_def field_hi_def wit_uint_def packet_field_type_of_def)

theorem narrow_fields_exact_witness:
  "\<exists>d. write_field [0, 0, 0] wit_uint (Numeric (FNum 2748)) ''tm'' = Inr d \<and>
     read_field d wit_uint ''tm'' = Inr (Numeric (FNum 2748))"
proof -
  have "f_of_int 2748 = FNum 2748" using f_of_int_exact [of 2748] by simp
  moreover have "\<lfloor>2748 + 1 / 2 :: rat\<rfloor> = 2748" by (rule floor_unique) simp_all
  then have "f_int (FNum 2748) = 2748" by (simp add: f_int_def f_rat_def)
  moreover have "raw_of wit_uint (FNum 2748) = FNum 2748" by (simp add: wit_uint_def plain_eval)
  moreover have "engineering wit_uint (FNum 2748) = FNum 2748" by (simp add: wit_uint_def engineering_plain plain_eval)
  moreover have "packet_field_type_of (pf_type wit_uint) = Pft_Uint" "unat (pf_bit_width wit_uint) = 12"
    by (simp_all add: wit_uint_def packet_field_type_of_def)
  ultimately show ?thesis
    using narrow_fields_exact [of "[0, 0, 0]" wit_uint "FNum 2748" "''tm''"] wit_field_ok
    by (simp add: numeral_3_eq_3) (simp add: integer_fits_def f_is_finite_def f_rat_def)
qed

definition wit_wide :: packet_field where
  "wit_wide = wit_uint\<lparr>pf_bit_width := 60\<rparr>"

theorem wide_uint_bound_wraps_witness:
  "\<exists>d. write_field (replicate 8 0) wit_wide (Numeric (FNum (2 ^ 60))) ''tm'' = Inr d \<and>
     read_field d wit_wide ''tm'' = Inr (Numeric (FZero False))"
proof -
  have "field_ok 8 wit_wide" "packet_field_type_of (pf_type wit_wide) = Pft_Uint" "plain_conversion wit_wide"
    "unat (pf_bit_width wit_wide) = 60"
    by (simp_all add: wit_wide_def wit_uint_def field_ok_def field_hi_def packet_field_type_of_def plain_conversion_def)
  then show ?thesis using wide_uint_bound_wraps [of "replicate 8 0" wit_wide "''tm''"] by (simp)
qed

definition wit_big :: packet_codec where
  "wit_big = \<lparr>pc_id = ''big'', pc_apid = 7, pc_is_command = False, pc_secondary_header_bytes = 1,
     pc_fields = [], pc_user_data_bytes = 65536\<rparr>"

theorem oversized_packet_not_decodable_witness:
  "\<exists>p n. encode_packet wit_big 0 [9] Map.empty = Inr p \<and>
     decode_packet [7 \<mapsto> wit_big] p = refuse_codec (PacketDataLengthMismatch 7 ''big'' 65536 n)"
proof -
  have "\<exists>p. encode_packet wit_big 0 [9] Map.empty = Inr p"
    by (simp add: encode_packet_def wit_big_def max_apid_def max_sequence_count_def)
  then obtain p where p: "encode_packet wit_big 0 [9] Map.empty = Inr p" by blast
  show ?thesis
    using oversized_packet_not_decodable [OF p, of "[7 \<mapsto> wit_big]"] p by (simp add: wit_big_def)
qed

lemma wit_validate_system: "validate_system_packet_codecs [wit_codec] = Inr [0x123 \<mapsto> wit_codec]"
  by (simp add: validate_system_ok wit_validate) (simp add: wit_codec_def)

theorem validated_codecs_never_panic_witness:
  "decode_packet [0x123 \<mapsto> wit_codec] [1, 2, 3] \<noteq> Inl Panic \<and> encode_packet wit_codec 9 [] Map.empty \<noteq> Inl Panic"
  using validated_codecs_never_panic [OF wit_validate_system, of wit_codec "[1, 2, 3]" 9 "[]" Map.empty] by simp

theorem decode_packet_accepts_witness:
  "\<exists>d. decode_packet [0x123 \<mapsto> wit_codec] [9, 0x23, 0xC0, 5, 0, 3, 9, 21, 120, 7] = Inr d"
  using decode_packet_accepts [OF wit_validate_system, of "[9, 0x23, 0xC0, 5, 0, 3, 9, 21, 120, 7]"]
  by (simp add: header_apid_def header_length_field_def wit_codec_def)
end
