(* ===== verification/Codec_Measurement.thy ===== *)
theory Codec_Measurement
  imports Codec Cdm_Covariance
begin

text \<open>
  \<open>measurements_from_field_values\<close> of \<open>av-codec/src/lib.rs\<close>: the decoded values of one
  telemetry packet, grouped by the measurement each field's target names, with the declared noise
  checked by \<open>check_spd_row_major\<close>; and the record made of a frame that does not decode.
\<close>

section \<open>Data\<close>

record measurement =
  me_id :: string
  me_z :: "f64 list"
  me_r :: "f64 list"
  me_epoch_ns :: i64
  me_sensor_id :: string
  me_frame_id :: string

record port_message =
  po_port :: string
  po_tai_ns :: i64
  po_payload :: bytes

record decode_error_occurrence =
  deo_port :: string
  deo_tai_ns :: i64
  deo_sequence_count :: "u16 option"
  deo_error :: string

text \<open>The \<open>Display\<close> text of the error is a parameter: the error values here leave the texts out.\<close>

definition decode_error_occurrence_of ::
  "(codec_error \<Rightarrow> string) \<Rightarrow> string \<Rightarrow> port_message \<Rightarrow> codec_error \<Rightarrow> decode_error_occurrence" where
  "decode_error_occurrence_of display port msg e =
     \<lparr>deo_port = port, deo_tai_ns = po_tai_ns msg,
      deo_sequence_count = peek_sequence_count (po_payload msg), deo_error = display e\<rparr>"

section \<open>Grouping\<close>

text \<open>\<open>str::rsplit_once\<close>: the parts before and after the last separator.\<close>

definition rsplit_once :: "char \<Rightarrow> string \<Rightarrow> (string \<times> string) option" where
  "rsplit_once c s =
     (let post = takeWhile (\<lambda>x. x \<noteq> c) (rev s) in
      if length post = length s then None
      else Some (rev (drop (length post + 1) (rev s)), rev post))"

definition measurement_id :: "packet_field \<Rightarrow> string" where
  "measurement_id f =
     (case rsplit_once CHR ''/'' (pf_target f) of Some (i, label) \<Rightarrow> i | None \<Rightarrow> pf_target f)"

primrec push_group :: "string \<Rightarrow> f64 \<Rightarrow> (string \<times> f64 list) list \<Rightarrow> (string \<times> f64 list) list" where
  "push_group i v [] = [(i, [v])]"
| "push_group i v (g # gs) = (if fst g = i then (i, snd g @ [v]) # gs else g # push_group i v gs)"

definition component_value ::
  "packet_codec \<Rightarrow> (string \<rightharpoonup> field_value) \<Rightarrow> packet_field \<Rightarrow> codec_error + f64" where
  "component_value c values f =
     ebind (ok_or (MeasurementFieldValueMissing (pc_id c) (pf_name f)) (values (pf_name f))) (\<lambda>v.
       case v of
         Numeric x \<Rightarrow> Inr x
       | FBytes b \<Rightarrow> Inl (MeasurementFieldValueNotNumeric (pc_id c) (pf_name f)))"

primrec collect_groups ::
  "packet_codec \<Rightarrow> (string \<rightharpoonup> field_value) \<Rightarrow> (string \<times> f64 list) list \<Rightarrow> packet_field list
     \<Rightarrow> codec_error + (string \<times> f64 list) list" where
  "collect_groups c values gs [] = Inr gs"
| "collect_groups c values gs (f # fs) =
     (if pf_target f = [] then collect_groups c values gs fs
      else ebind (component_value c values f) (\<lambda>v.
        collect_groups c values (push_group (measurement_id f) v gs) fs))"

primrec emit_measurements ::
  "(dmatrix \<Rightarrow> dmatrix option) \<Rightarrow> i64 \<Rightarrow> string \<Rightarrow> string \<Rightarrow> (string \<rightharpoonup> f64 list)
     \<Rightarrow> (string \<times> f64 list) list \<Rightarrow> nat \<Rightarrow> (codec_error + measurement list) \<times> nat" where
  "emit_measurements chol epoch sensor frame noise [] fails = (Inr [], fails)"
| "emit_measurements chol epoch sensor frame noise (g # gs) fails =
     try_then
       (case noise (fst g) of
          Some r \<Rightarrow>
            (case check_spd_row_major chol r (length (snd g)) (fst g) fails of
               (Inl e, n) \<Rightarrow> (Inl (MeasurementNoiseNotSpd (fst g)), n)
             | (Inr d, n) \<Rightarrow> (Inr r, n))
        | None \<Rightarrow> (Inr [], fails))
       (\<lambda>r fails.
         try_then (emit_measurements chol epoch sensor frame noise gs fails) (\<lambda>ms fails.
           (Inr (\<lparr>me_id = fst g, me_z = snd g, me_r = r, me_epoch_ns = epoch,
                 me_sensor_id = sensor, me_frame_id = frame\<rparr> # ms), fails)))"

definition measurements_from_field_values ::
  "(dmatrix \<Rightarrow> dmatrix option) \<Rightarrow> packet_codec \<Rightarrow> (string \<rightharpoonup> field_value) \<Rightarrow> i64 \<Rightarrow> string \<Rightarrow> string
     \<Rightarrow> (string \<rightharpoonup> f64 list) \<Rightarrow> nat \<Rightarrow> (codec_error + measurement list) \<times> nat" where
  "measurements_from_field_values chol c values epoch sensor frame noise fails =
     (if pc_is_command c then (Inr [], fails)
      else try_then (collect_groups c values [] (pc_fields c), fails) (\<lambda>gs fails.
        emit_measurements chol epoch sensor frame noise gs fails))"

section \<open>Completeness\<close>

definition targeted :: "packet_codec \<Rightarrow> packet_field list" where
  "targeted c = filter (\<lambda>f. pf_target f \<noteq> []) (pc_fields c)"

definition first_seen :: "'a list \<Rightarrow> 'a list" where
  "first_seen xs = rev (remdups (rev xs))"

definition numeric_of :: "(string \<rightharpoonup> field_value) \<Rightarrow> packet_field \<Rightarrow> f64" where
  "numeric_of values f = (case values (pf_name f) of Some (Numeric x) \<Rightarrow> x | _ \<Rightarrow> FNan)"

lemma component_value_ok:
  "component_value c values f = Inr v \<longleftrightarrow> values (pf_name f) = Some (Numeric v)"
  by (cases "values (pf_name f)"; cases "the (values (pf_name f))") (auto simp: component_value_def)

text \<open>The groups after the targeted fields \<open>fs\<close>, in the order their measurements first appear.\<close>

definition groups_of :: "(string \<rightharpoonup> field_value) \<Rightarrow> packet_field list \<Rightarrow> (string \<times> f64 list) list" where
  "groups_of values fs =
     map (\<lambda>i. (i, map (numeric_of values) (filter (\<lambda>f. measurement_id f = i) fs)))
       (first_seen (map measurement_id fs))"

lemma first_seen_snoc: "first_seen (xs @ [x]) = (if x \<in> set xs then first_seen xs else first_seen xs @ [x])"
  by (simp add: first_seen_def)

lemma set_first_seen [simp]: "set (first_seen xs) = set xs"
  by (simp add: first_seen_def)

lemma distinct_first_seen [simp]: "distinct (first_seen xs)"
  by (simp add: first_seen_def)

lemma push_group_new: "i \<notin> fst ` set gs \<Longrightarrow> push_group i v gs = gs @ [(i, [v])]"
  by (induction gs) auto

lemma push_group_old:
  assumes "distinct ids" and "i \<in> set ids"
  shows "push_group i v (map (\<lambda>j. (j, h j)) ids) = map (\<lambda>j. (j, h j @ (if j = i then [v] else []))) ids"
  using assms
proof (induction ids)
  case Nil
  then show ?case by simp
next
  case (Cons j ids)
  show ?case
  proof (cases "j = i")
    case True
    then have "map (\<lambda>j. (j, h j @ (if j = i then [v] else []))) ids = map (\<lambda>j. (j, h j)) ids"
      using Cons.prems by (intro map_cong) auto
    then show ?thesis using True by simp
  next
    case False
    then show ?thesis using Cons by simp
  qed
qed

lemma push_group_groups_of:
  "push_group (measurement_id f) (numeric_of values f) (groups_of values fs) = groups_of values (fs @ [f])"
proof (cases "measurement_id f \<in> set (map measurement_id fs)")
  case True
  then have "push_group (measurement_id f) (numeric_of values f) (groups_of values fs) =
     map (\<lambda>j. (j, map (numeric_of values) (filter (\<lambda>g. measurement_id g = j) fs) @
        (if j = measurement_id f then [numeric_of values f] else []))) (first_seen (map measurement_id fs))"
    unfolding groups_of_def by (intro push_group_old) simp_all
  also have "\<dots> = groups_of values (fs @ [f])"
    using True by (auto simp: groups_of_def first_seen_snoc intro!: map_cong)
  finally show ?thesis .
next
  case False
  then have e: "filter (\<lambda>g. measurement_id g = measurement_id f) fs = []"
    by (auto simp: filter_empty_conv image_iff)
  have "measurement_id f \<notin> fst ` set (groups_of values fs)" using False by (auto simp: groups_of_def)
  then have "push_group (measurement_id f) (numeric_of values f) (groups_of values fs) =
      groups_of values fs @ [(measurement_id f, [numeric_of values f])]"
    by (rule push_group_new)
  also have "\<dots> = groups_of values (fs @ [f])"
    using False e by (auto simp: groups_of_def first_seen_snoc intro!: map_cong)
  finally show ?thesis .
qed

lemma collect_groups_ok:
  "collect_groups c values (groups_of values acc) fs = Inr gs \<longleftrightarrow>
     (\<forall>f \<in> set fs. pf_target f \<noteq> [] \<longrightarrow> (\<exists>x. values (pf_name f) = Some (Numeric x))) \<and>
     gs = groups_of values (acc @ filter (\<lambda>f. pf_target f \<noteq> []) fs)"
proof (induction fs arbitrary: acc)
  case Nil
  then show ?case by auto
next
  case (Cons f fs)
  show ?case
  proof (cases "pf_target f = []")
    case True
    then show ?thesis using Cons.IH by simp
  next
    case False
    show ?thesis
    proof (cases "\<exists>x. values (pf_name f) = Some (Numeric x)")
      case True
      then obtain x where x: "values (pf_name f) = Some (Numeric x)" by blast
      then have "component_value c values f = Inr (numeric_of values f)"
        by (simp add: component_value_ok numeric_of_def)
      then show ?thesis
        using False x Cons.IH [of "acc @ [f]"] by (simp add: push_group_groups_of)
    next
      case bad: False
      then have "component_value c values f \<noteq> Inr v" for v by (simp add: component_value_ok)
      then show ?thesis using False bad by (cases "component_value c values f") auto
    qed
  qed
qed

lemma try_then_fst:
  "fst (try_then p k) = Inr y \<longleftrightarrow> (\<exists>x s. p = (Inr x, s) \<and> fst (k x s) = Inr y)"
  by (cases p; cases "fst p") auto

text \<open>The covariance a measurement carries: the declared one, checked, or none.\<close>

definition noise_ok :: "(dmatrix \<Rightarrow> dmatrix option) \<Rightarrow> (string \<rightharpoonup> f64 list) \<Rightarrow> measurement \<Rightarrow> bool" where
  "noise_ok chol noise m \<longleftrightarrow>
     (case noise (me_id m) of
        None \<Rightarrow> me_r m = []
      | Some r \<Rightarrow>
          me_r m = r \<and> (\<exists>d n. check_spd_row_major chol r (length (me_z m)) (me_id m) n = (Inr d, n)))"

lemma check_spd_row_major_state:
  "check_spd_row_major chol r n ctx fails = (Inr d, k) \<Longrightarrow> k = fails"
  using check_spd_row_major_counts [of chol r n ctx fails] by simp

lemma emit_measurements_ok:
  assumes "fst (emit_measurements chol epoch sensor frame noise gs fails) = Inr ms"
  shows "map (\<lambda>m. (me_id m, me_z m)) ms = gs \<and> (\<forall>m \<in> set ms. noise_ok chol noise m)"
  using assms
proof (induction gs arbitrary: fails ms)
  case Nil
  then show ?case by simp
next
  case (Cons g gs)
  obtain r n ms' k where r: "(case noise (fst g) of
          Some r \<Rightarrow>
            (case check_spd_row_major chol r (length (snd g)) (fst g) fails of
               (Inl e, n) \<Rightarrow> (Inl (MeasurementNoiseNotSpd (fst g)), n)
             | (Inr d, n) \<Rightarrow> (Inr r, n))
        | None \<Rightarrow> (Inr [], fails)) = (Inr r, n)"
    and ms': "emit_measurements chol epoch sensor frame noise gs n = (Inr ms', k)"
    and ms: "ms = \<lparr>me_id = fst g, me_z = snd g, me_r = r, me_epoch_ns = epoch,
                 me_sensor_id = sensor, me_frame_id = frame\<rparr> # ms'"
    using Cons.prems unfolding emit_measurements.simps try_then_fst by auto
  have "noise_ok chol noise (hd ms)"
    using r unfolding ms noise_ok_def
    by (auto split: option.splits prod.splits sum.splits dest: check_spd_row_major_state)
  then show ?case using Cons.IH [of n ms'] ms' ms by simp
qed

text \<open>
  No measurement component is lost: when \<open>measurements_from_field_values\<close> succeeds on a
  telemetry packet, every targeted field had a number, and the measurements are exactly the groups
  of the targeted fields: one measurement per measurement id, in order of first appearance, each
  with the numbers of all its fields in declared order, and with the declared noise only when that
  passed the covariance check.
\<close>

theorem measurements_complete:
  assumes "\<not> pc_is_command c"
    and "measurements_from_field_values chol c values epoch sensor frame noise fails = (Inr ms, fails')"
  shows "(\<forall>f \<in> set (targeted c). \<exists>x. values (pf_name f) = Some (Numeric x)) \<and>
    map (\<lambda>m. (me_id m, me_z m)) ms = groups_of values (targeted c) \<and>
    (\<forall>m \<in> set ms. noise_ok chol noise m)"
proof -
  have "fst (measurements_from_field_values chol c values epoch sensor frame noise fails) = Inr ms"
    using assms(2) by simp
  then obtain gs where gs: "collect_groups c values [] (pc_fields c) = Inr gs"
    and e: "fst (emit_measurements chol epoch sensor frame noise gs fails) = Inr ms"
    using assms(1) by (auto simp: measurements_from_field_values_def try_then_fst)
  have "groups_of values [] = []" by (simp add: groups_of_def first_seen_def)
  then have "(\<forall>f \<in> set (pc_fields c). pf_target f \<noteq> [] \<longrightarrow> (\<exists>x. values (pf_name f) = Some (Numeric x))) \<and>
      gs = groups_of values (targeted c)"
    using gs collect_groups_ok [of c "values" "[]" "pc_fields c" gs] by (simp add: targeted_def)
  then show ?thesis using emit_measurements_ok [OF e] by (auto simp: targeted_def)
qed

definition wit_target :: "string \<Rightarrow> string \<Rightarrow> packet_field" where
  "wit_target name target = \<lparr>pf_name = name, pf_bit_offset = 0, pf_bit_width = 12, pf_type = 1,
     pf_scale = FZero False, pf_offset = FZero False, pf_target = target\<rparr>"

definition wit_imu :: packet_codec where
  "wit_imu = \<lparr>pc_id = ''imu'', pc_apid = 9, pc_is_command = False, pc_secondary_header_bytes = 0,
     pc_fields = [wit_target ''x'' ''imu/x'', wit_target ''t'' ''temp/t'', wit_target ''y'' ''imu/y'', wit_target ''s'' []],
     pc_user_data_bytes = 8\<rparr>"

theorem measurements_complete_witness:
  "map (\<lambda>m. (me_id m, me_z m))
     [\<lparr>me_id = ''imu'', me_z = [FNum 1, FNum 2], me_r = [], me_epoch_ns = 5, me_sensor_id = ''s'', me_frame_id = ''b''\<rparr>,
      \<lparr>me_id = ''temp'', me_z = [FNum 3], me_r = [], me_epoch_ns = 5, me_sensor_id = ''s'', me_frame_id = ''b''\<rparr>] =
   groups_of [''x'' \<mapsto> Numeric (FNum 1), ''t'' \<mapsto> Numeric (FNum 3), ''y'' \<mapsto> Numeric (FNum 2)] (targeted wit_imu)"
proof -
  let ?vs = "[''x'' \<mapsto> Numeric (FNum 1), ''t'' \<mapsto> Numeric (FNum 3), ''y'' \<mapsto> Numeric (FNum 2)]"
  have r: "rsplit_once CHR ''/'' ''imu/x'' = Some (''imu'', ''x'')" "rsplit_once CHR ''/'' ''imu/y'' = Some (''imu'', ''y'')"
    "rsplit_once CHR ''/'' ''temp/t'' = Some (''temp'', ''t'')"
    by code_simp+
  have "measurements_from_field_values (\<lambda>m. None) wit_imu ?vs 5 ''s'' ''b'' Map.empty 0 = (Inr
     [\<lparr>me_id = ''imu'', me_z = [FNum 1, FNum 2], me_r = [], me_epoch_ns = 5, me_sensor_id = ''s'', me_frame_id = ''b''\<rparr>,
      \<lparr>me_id = ''temp'', me_z = [FNum 3], me_r = [], me_epoch_ns = 5, me_sensor_id = ''s'', me_frame_id = ''b''\<rparr>], 0)"
    by (simp add: measurements_from_field_values_def wit_imu_def wit_target_def component_value_def measurement_id_def r)
  moreover have "\<not> pc_is_command wit_imu" by (simp add: wit_imu_def)
  ultimately show ?thesis using measurements_complete by blast
qed

end
