(* ===== verification/Kernel_Clock.thy ===== *)
theory Kernel_Clock
  imports BTree
begin

text \<open>
  The clock authority of \<open>av-kernel/src/clock.rs\<close>: simulated time in TAI nanoseconds moved only
  by explicit ticks, the base period that divides every period of a run, and the integer-multiple
  gate. Plain \<open>i64\<close> operators wrap, as the release build does.
\<close>

section \<open>The clock\<close>

record clock =
  ck_now_tai_ns :: i64
  ck_period_ns :: i64

text \<open>\<open>Clock::new\<close> asserts a positive period; the assertion's panic is \<open>None\<close>.\<close>

definition clock_new :: "i64 \<Rightarrow> i64 \<Rightarrow> clock option" where
  "clock_new start period =
     (if 0 < period then Some \<lparr>ck_now_tai_ns = start, ck_period_ns = period\<rparr> else None)"

definition clock_tick :: "clock \<Rightarrow> i64 \<times> clock" where
  "clock_tick c =
     (let t = wrap_i64 (ck_now_tai_ns c + ck_period_ns c) in (t, c\<lparr>ck_now_tai_ns := t\<rparr>))"

lemma clock_ticks:
  assumes "in_i64 (ck_now_tai_ns c)" and "0 < ck_period_ns c"
    and "ck_now_tai_ns c + int n * ck_period_ns c \<le> i64_max"
  shows "((snd \<circ> clock_tick) ^^ n) c = c\<lparr>ck_now_tai_ns := ck_now_tai_ns c + int n * ck_period_ns c\<rparr>"
  using assms(3)
proof (induction n)
  case 0
  then show ?case by simp
next
  case (Suc n)
  let ?p = "ck_period_ns c" and ?t = "ck_now_tai_ns c"
  have s: "?t + int n * ?p + ?p = ?t + int (Suc n) * ?p" by (simp add: algebra_simps)
  have "?t + int n * ?p \<le> i64_max" using Suc.prems assms(2) s by linarith
  note ih = Suc.IH [OF this]
  have "0 \<le> int (Suc n) * ?p" using assms(2) by simp
  then have "in_i64 (?t + int (Suc n) * ?p)" using assms(1) Suc.prems by (simp add: in_i64_def)
  then have "in_i64 (?t + int n * ?p + ?p)" unfolding s .
  then have "snd (clock_tick (c\<lparr>ck_now_tai_ns := ?t + int n * ?p\<rparr>)) = c\<lparr>ck_now_tai_ns := ?t + int (Suc n) * ?p\<rparr>"
    by (simp add: clock_tick_def Let_def wrap_i64_id s del: of_nat_Suc)
  moreover have "((snd \<circ> clock_tick) ^^ Suc n) c = snd (clock_tick (((snd \<circ> clock_tick) ^^ n) c))"
    by (simp only: funpow.simps comp_apply)
  ultimately show ?case by (simp only: ih)
qed

section \<open>The base period\<close>

datatype base_period_error =
    NonPositivePeriod string i64
  | NoPeriods
  | NotAnIntegerMultiple string i64 i64

text \<open>Rust's \<open>%\<close> takes the sign of the dividend.\<close>

definition i64_rem :: "i64 \<Rightarrow> i64 \<Rightarrow> i64" where
  "i64_rem a b = (if a < 0 then - (\<bar>a\<bar> mod \<bar>b\<bar>) else \<bar>a\<bar> mod \<bar>b\<bar>)"

lemma i64_rem_nonneg: "0 \<le> a \<Longrightarrow> 0 < b \<Longrightarrow> i64_rem a b = a mod b"
  by (simp add: i64_rem_def)

function gcd_i64 :: "i64 \<Rightarrow> i64 \<Rightarrow> i64" where
  "gcd_i64 a b = (if b = 0 then a else gcd_i64 b (i64_rem a b))"
  by pat_completeness auto

termination gcd_i64
proof (relation "measure (\<lambda>(a, b). nat \<bar>b\<bar>)")
  fix a b :: i64
  assume "b \<noteq> 0"
  then have "\<bar>a\<bar> mod \<bar>b\<bar> < \<bar>b\<bar>" "0 \<le> \<bar>a\<bar> mod \<bar>b\<bar>" by simp_all
  then show "((b, i64_rem a b), (a, b)) \<in> measure (\<lambda>(a, b). nat \<bar>b\<bar>)"
    by (simp add: i64_rem_def)
qed simp

declare gcd_i64.simps [simp del]

lemma gcd_i64_gcd: "0 \<le> a \<Longrightarrow> 0 \<le> b \<Longrightarrow> gcd_i64 a b = gcd a b"
proof (induction a b rule: gcd_i64.induct)
  case (1 a b)
  show ?case
  proof (cases "b = 0")
    case True
    then show ?thesis using 1 by (simp add: gcd_i64.simps)
  next
    case False
    then have "gcd_i64 a b = gcd b (a mod b)"
      using 1 by (simp add: gcd_i64.simps [of a b] i64_rem_nonneg)
    then show ?thesis by (metis gcd.commute gcd_red_int)
  qed
qed

text \<open>The name of the output period in the errors.\<close>

definition output_name :: string where "output_name = ''<output>''"
definition base_name :: string where "base_name = ''<base>''"

primrec fold_periods :: "i64 \<Rightarrow> (string \<times> i64) list \<Rightarrow> base_period_error + i64" where
  "fold_periods base [] = Inr base"
| "fold_periods base (e # es) =
     (if snd e \<le> 0 then Inl (NonPositivePeriod (fst e) (snd e))
      else fold_periods (gcd_i64 base (snd e)) es)"

definition base_period_ns :: "i64 \<Rightarrow> (string, i64) btree \<Rightarrow> base_period_error + i64" where
  "base_period_ns output_period periods =
     (if output_period \<le> 0 then Inl (NonPositivePeriod output_name output_period)
      else fold_periods output_period periods)"

definition check_integer_multiples ::
  "i64 \<Rightarrow> i64 \<Rightarrow> (string, i64) btree \<Rightarrow> base_period_error + unit" where
  "check_integer_multiples base output_period periods =
     (if base \<le> 0 then Inl (NonPositivePeriod base_name base)
      else if i64_rem output_period base \<noteq> 0 then Inl (NotAnIntegerMultiple output_name output_period base)
      else case find (\<lambda>e. i64_rem (snd e) base \<noteq> 0) periods of
             Some e \<Rightarrow> Inl (NotAnIntegerMultiple (fst e) (snd e) base)
           | None \<Rightarrow> Inr ())"

lemma fold_periods_ok:
  assumes "0 < base"
  shows "fold_periods base es = Inr b \<longleftrightarrow>
    (\<forall>e \<in> set es. 0 < snd e) \<and> b = Gcd (insert base (snd ` set es))"
  using assms
proof (induction es arbitrary: base)
  case Nil
  then show ?case by auto
next
  case (Cons e es)
  show ?case
  proof (cases "0 < snd e")
    case True
    have g: "gcd_i64 base (snd e) = gcd base (snd e)" "0 < gcd base (snd e)"
      using True Cons.prems by (simp_all add: gcd_i64_gcd)
    have "Gcd (insert (gcd base (snd e)) (snd ` set es)) = Gcd (insert base (snd ` set (e # es)))"
      by (simp add: gcd.assoc)
    then show ?thesis using True Cons.IH [OF g(2)] g(1) by simp
  qed simp
qed

text \<open>
  The base period: \<open>base_period_ns\<close> returns the greatest common divisor of the output
  period and every instance's period when all of them are positive and refuses otherwise, and what
  it returns always passes the integer-multiple gate that follows it.
\<close>

theorem base_period_exact:
  "case base_period_ns out periods of
     Inl e \<Rightarrow> out \<le> 0 \<or> (\<exists>p \<in> snd ` set periods. p \<le> 0)
   | Inr b \<Rightarrow> 0 < out \<and> Ball (snd ` set periods) ((<) 0) \<and> b = Gcd (insert out (snd ` set periods)) \<and>
       check_integer_multiples b out periods = Inr ()"
proof (cases "base_period_ns out periods")
  case (Inl e)
  have "False" if "0 < out" "\<forall>p \<in> snd ` set periods. 0 < p"
    using fold_periods_ok [OF that(1), of periods "Gcd (insert out (snd ` set periods))"] that Inl
    by (simp add: base_period_ns_def)
  then show ?thesis using Inl by (auto simp: not_less [symmetric])
next
  case (Inr b)
  then have o: "0 < out" and p: "\<forall>e \<in> set periods. 0 < snd e" and b: "b = Gcd (insert out (snd ` set periods))"
    by (auto simp: base_period_ns_def fold_periods_ok split: if_splits)
  have d: "b dvd out" unfolding b by (rule Gcd_dvd) simp
  have d': "b dvd snd e" if "e \<in> set periods" for e unfolding b by (rule Gcd_dvd) (use that in simp)
  have "b \<noteq> 0" using d o by auto
  then have b0: "0 < b" using b by (metis Gcd_int_greater_eq_0 order_le_less)
  have "check_integer_multiples b out periods = Inr ()"
    using b0 d d' o p
    by (auto simp: check_integer_multiples_def i64_rem_nonneg less_imp_le find_Some_iff split: option.split)
  then show ?thesis using b o p Inr by simp
qed

end
