(* ===== verification/Kernel_Rng.thy ===== *)
theory Kernel_Rng
  imports BTree Float64
begin

text \<open>
  The seeded generator of \<open>av-kernel/src/rng.rs\<close>: the 128-bit PCG step with its xor-shift-rotate
  output, the uniform and Bernoulli draws on binary64, and the generator of a named event.
\<close>

type_synonym u128 = "128 word"

definition pcg_multiplier :: u128 where "pcg_multiplier = 0x2360ED051FC65DA44385DF649FCCF645"
definition pcg_increment :: u128 where "pcg_increment = 0x5851F42D4C957F2D14057B7EF767814F"

record pcg64 =
  pcg_state :: u128

definition pcg_step :: "pcg64 \<Rightarrow> pcg64" where
  "pcg_step g = \<lparr>pcg_state = pcg_state g * pcg_multiplier + pcg_increment\<rparr>"

definition pcg_new :: "u64 \<Rightarrow> pcg64" where
  "pcg_new seed = (let g = pcg_step \<lparr>pcg_state = 0\<rparr> in pcg_step \<lparr>pcg_state = pcg_state g + ucast seed\<rparr>)"

definition next_u64 :: "pcg64 \<Rightarrow> u64 \<times> pcg64" where
  "next_u64 g =
     (let g = pcg_step g; s = pcg_state g;
          xorshifted = ucast (drop_bit 64 s XOR s) :: u64;
          rot = unat (drop_bit 122 s)
      in (word_rotr rot xorshifted, g))"

definition uniform :: "pcg64 \<Rightarrow> f64 \<times> pcg64" where
  "uniform g =
     (let (x, g) = next_u64 g in
      (f_mul (f_of_int (uint (drop_bit 11 x))) (f_div (f_of_int 1) (f_of_int (uint (push_bit 53 (1 :: u64))))), g))"

definition uniform_range :: "f64 \<Rightarrow> f64 \<Rightarrow> pcg64 \<Rightarrow> f64 \<times> pcg64" where
  "uniform_range low high g = (let (u, g) = uniform g in (f_add low (f_mul (f_sub high low) u), g))"

definition bernoulli :: "f64 \<Rightarrow> pcg64 \<Rightarrow> bool \<times> pcg64" where
  "bernoulli p g = (let (u, g) = uniform g in (f_lt u p, g))"

definition fnv1a_64 :: "bytes \<Rightarrow> u64" where
  "fnv1a_64 bs = foldl (\<lambda>h b. (h XOR ucast b) * 0x00000100000001b3) 0xcbf29ce484222325 bs"

definition event_rng :: "u64 \<Rightarrow> bytes \<Rightarrow> pcg64" where
  "event_rng base_seed event_id = pcg_new (base_seed XOR fnv1a_64 event_id)"

definition seed_for :: "(string, u64) btree \<Rightarrow> string \<Rightarrow> u64 option" where
  "seed_for seeds key = bt_get seeds key"

lemma f_repr_scaled:
  assumes "n \<noteq> 0" and "\<bar>n\<bar> < 2 ^ ff_prec fmt" and "ff_emin fmt \<le> e" and "e + int (ff_prec fmt) \<le> ff_top fmt"
  shows "f_repr fmt (of_int n * 2 powi e)"
proof -
  let ?x = "of_int n * 2 powi e :: rat" and ?p = "int (ff_prec fmt)"
  have ax: "\<bar>?x\<bar> = of_int \<bar>n\<bar> * 2 powi e" by (simp add: abs_mult)
  have "of_int \<bar>n\<bar> < (2::rat) ^ ff_prec fmt"
    using assms(2) by (metis of_int_less_iff of_int_numeral of_int_power)
  then have "\<bar>?x\<bar> < 2 ^ ff_prec fmt * 2 powi e" unfolding ax by (rule mult_strict_right_mono) simp
  then have lt: "\<bar>?x\<bar> < 2 powi (?p + e)" by (simp add: power_int_add)
  have x0: "0 < \<bar>?x\<bar>" using assms(1) by simp
  have "2 powi (ulog2 \<bar>?x\<bar>) < (2::rat) powi (?p + e)"
    using ulog2_bounds(1) [OF x0] lt by linarith
  then have "ulog2 \<bar>?x\<bar> < ?p + e" by (rule powi2_less_cancel)
  then have le: "f_exp fmt ?x \<le> e" using assms(3) by (simp add: f_exp_def)
  have "?x / f_unit fmt ?x = of_int n * 2 powi (e - f_exp fmt ?x)"
    by (simp add: f_unit_def power_int_diff)
  also have "\<dots> = of_int (n * 2 ^ nat (e - f_exp fmt ?x))" using le by (simp add: power_int_nonneg_exp)
  finally have "?x / f_unit fmt ?x \<in> \<int>" by (metis Ints_of_int)
  moreover have "\<bar>?x\<bar> < 2 powi (ff_top fmt)"
    using lt powi2_mono [of "?p + e" "ff_top fmt"] assms(4) by linarith
  ultimately show ?thesis using x0 by (simp add: f_repr_def)
qed

lemma pow53: "f_div (f_of_int 1) (f_of_int (uint (push_bit 53 (1 :: u64)))) = FNum (2 powi (- 53))"
proof -
  have "f_of_int 1 = FNum 1" "f_of_int (2 ^ 53) = FNum (2 ^ 53)"
    using f_of_int_exact [of 1] f_of_int_exact [of "2 ^ 53"] by simp_all
  moreover have "f_round binary64 False (2 powi (- 53)) = FNum (2 powi (- 53))"
    using f_repr_scaled [of 1 binary64 "- 53"] by (intro f_round_repr) (simp add: binary64_def)
  moreover have "1 / 2 ^ 53 = (2::rat) powi (- 53)" by (simp add: power_int_minus_divide)
  ultimately show ?thesis by (simp add: push_bit_eq_mult)
qed

lemma uniform_value:
  "\<exists>k. 0 \<le> k \<and> k < 2 ^ 53 \<and> f_is_finite (fst (uniform g)) \<and> f_rat (fst (uniform g)) = of_int k * 2 powi (- 53)"
proof -
  obtain x g' where x: "next_u64 g = (x, g')" by fastforce
  define n where "n = uint (drop_bit 11 x)"
  have e: "n = uint x div 2048" unfolding n_def by (simp add: drop_bit_eq_div uint_div)
  have "uint x < 2 ^ LENGTH(64)" by (rule unsigned_less)
  then have "0 \<le> uint x" "uint x \<le> 18446744073709551615" by simp_all
  then have "0 div 2048 \<le> uint x div 2048" "uint x div 2048 \<le> 18446744073709551615 div 2048"
    by (intro zdiv_mono1; simp)+
  then have k: "0 \<le> n" "n < 2 ^ 53" by (simp_all add: e)
  have "f_mul (f_of_int n) (FNum (2 powi (- 53))) = (if n = 0 then FZero False else FNum (of_int n * 2 powi (- 53)))"
  proof (cases "n = 0")
    case True
    then show ?thesis by (simp add: f_negative_def)
  next
    case False
    have "f_repr binary64 (of_int n * 2 powi (- 53))"
      by (rule f_repr_scaled) (use False k in \<open>simp_all add: binary64_def\<close>)
    moreover have "f_of_int n = FNum (of_int n)" by (rule f_of_int_exact) (use False k in simp_all)
    ultimately show ?thesis using False by (simp add: f_round_repr)
  qed
  then show ?thesis
    using k unfolding uniform_def x Let_def pow53 n_def [symmetric]
    by (intro exI [of _ n]) (simp add: f_is_finite_def f_rat_def pow53 n_def [symmetric])
qed

text \<open>
  A fault's rate: a uniform draw is a multiple of \<open>2 ^ - 53\<close> in the half-open unit interval,
  so a Bernoulli draw with rate 1 always hits, one with rate 0 never does, and every draw moves the
  generator by exactly one step.
\<close>

theorem bernoulli_certain:
  "bernoulli (FNum 1) g = (True, pcg_step g) \<and> bernoulli (FZero s) g = (False, pcg_step g)"
proof -
  obtain k where k: "0 \<le> k" "k < 2 ^ 53" "f_is_finite (fst (uniform g))"
    "f_rat (fst (uniform g)) = of_int k * 2 powi (- 53)"
    using uniform_value by blast
  have "of_int k < (2::rat) ^ 53" using k(2) by (metis of_int_less_iff of_int_numeral of_int_power)
  then have "of_int k * 2 powi (- 53) < (1::rat)" by (simp add: power_int_minus_divide)
  then have "f_lt (fst (uniform g)) (FNum 1)"
    using f_lt_finite [OF k(3), of "FNum 1"] k(4) by (simp add: f_is_finite_def f_rat_def)
  moreover have "\<not> f_lt (fst (uniform g)) (FZero s)"
    using f_lt_finite [OF k(3), of "FZero s"] k(1,4) by (simp add: f_is_finite_def f_rat_def not_less)
  moreover have "snd (uniform g) = pcg_step g" by (simp add: uniform_def next_u64_def Let_def)
  ultimately show ?thesis by (cases "uniform g") (simp add: bernoulli_def)
qed

end
