(* ===== verification/Kernel_Ports.thy ===== *)
theory Kernel_Ports
  imports Codec_Measurement Kernel_Rng Kernel_Clock "HOL-Library.Product_Lexorder" "HOL-Library.Multiset"
begin

text \<open>
  Port messages between instances: \<open>av-kernel/src/ports.rs\<close> and the inbox and signal encoding of
  \<open>av-dynamics/src/lib.rs\<close>.
\<close>

section \<open>Messages and inboxes\<close>

record queued_message =
  qm_message :: port_message
  qm_sender_emission_tai_ns :: i64
  qm_sender_instance :: string

record inbox =
  ib_messages :: "port_message list"
  ib_senders :: "string option list"

definition inbox_empty :: inbox where
  "inbox_empty = \<lparr>ib_messages = [], ib_senders = []\<rparr>"

definition inbox_new :: "port_message list \<Rightarrow> inbox" where
  "inbox_new ms = \<lparr>ib_messages = ms, ib_senders = replicate (length ms) None\<rparr>"

definition inbox_for_port :: "string \<Rightarrow> inbox \<Rightarrow> port_message list" where
  "inbox_for_port port b = filter (\<lambda>m. po_port m = port) (ib_messages b)"

definition inbox_for_port_with_senders :: "string \<Rightarrow> inbox \<Rightarrow> (port_message \<times> string option) list" where
  "inbox_for_port_with_senders port b = filter (\<lambda>e. po_port (fst e) = port) (zip (ib_messages b) (ib_senders b))"

definition last_on_port :: "string \<Rightarrow> inbox \<Rightarrow> (port_message \<times> string option) option" where
  "last_on_port port b =
     (case rev (filter (\<lambda>i. po_port (ib_messages b ! i) = port) [0..<length (ib_messages b)]) of
        [] \<Rightarrow> None
      | i # is \<Rightarrow> Some (ib_messages b ! i, ib_senders b ! i))"

text \<open>The stable sort by port, emission epoch and sender.\<close>

definition inbox_key :: "queued_message \<Rightarrow> string \<times> i64 \<times> string" where
  "inbox_key q = (po_port (qm_message q), qm_sender_emission_tai_ns q, qm_sender_instance q)"

definition sorted_inbox :: "queued_message list \<Rightarrow> inbox" where
  "sorted_inbox qs =
     (let s = sort_key inbox_key qs in
      \<lparr>ib_messages = map qm_message s, ib_senders = map (\<lambda>q. Some (qm_sender_instance q)) s\<rparr>)"

section \<open>Signals and packets\<close>

definition encode_signal :: "f64 \<Rightarrow> bytes" where
  "encode_signal v = nat_to_le 8 (unat (f64_to_bits v))"

definition decode_signal :: "bytes \<Rightarrow> f64 option" where
  "decode_signal payload = (if length payload = 8 then Some (f64_from_bits (of_nat (le_to_nat payload))) else None)"

definition encode_ccsds_message ::
  "string \<Rightarrow> i64 \<Rightarrow> packet_codec \<Rightarrow> u16 \<Rightarrow> bytes \<Rightarrow> (string \<rightharpoonup> field_value) \<Rightarrow> codec_fault + port_message" where
  "encode_ccsds_message port tai c seq sec values =
     ebind (encode_packet c seq sec values) (\<lambda>p.
       Inr \<lparr>po_port = port, po_tai_ns = tai, po_payload = p\<rparr>)"

definition decode_ccsds_message :: "apid_map \<Rightarrow> port_message \<Rightarrow> codec_fault + decoded_packet" where
  "decode_ccsds_message m msg = decode_packet m (po_payload msg)"

lemma signal_round_trip:
  assumes "f_wf binary64 v"
  shows "decode_signal (encode_signal v) = Some v"
proof -
  have "unat (f64_to_bits v) < 2 ^ LENGTH(64)" by (rule unsigned_less)
  then have "le_to_nat (encode_signal v) = unat (f64_to_bits v)"
    by (simp add: encode_signal_def le_to_nat_of_le)
  then show ?thesis using assms by (simp add: decode_signal_def encode_signal_def)
qed

text \<open>
  The inbox does not depend on who was stepped first: two queues holding the same messages in
  any two orders give the same inbox when no sender emitted twice on one port at one epoch; within
  an inbox the messages come by port, then emission epoch, then sender.
\<close>

theorem inbox_order_independent:
  assumes "mset qs = mset qs'" and "inj_on inbox_key (set qs)"
  shows "sorted_inbox qs = sorted_inbox qs' \<and> sorted (map inbox_key (sort_key inbox_key qs)) \<and>
    mset (ib_messages (sorted_inbox qs)) = mset (map qm_message qs)"
proof -
  have "sort_key inbox_key qs = sort_key inbox_key qs'"
    using assms by (intro sort_key_inj_key_eq) simp_all
  then show ?thesis using assms(1) by (simp add: sorted_inbox_def Let_def)
qed

definition wit_queued :: "string \<Rightarrow> i64 \<Rightarrow> string \<Rightarrow> queued_message" where
  "wit_queued port e sender =
     \<lparr>qm_message = \<lparr>po_port = port, po_tai_ns = e, po_payload = []\<rparr>, qm_sender_emission_tai_ns = e,
      qm_sender_instance = sender\<rparr>"

theorem inbox_order_independent_witness:
  "sorted_inbox [wit_queued ''p'' 3 ''b'', wit_queued ''p'' 3 ''a''] =
   sorted_inbox [wit_queued ''p'' 3 ''a'', wit_queued ''p'' 3 ''b'']"
  using inbox_order_independent [of "[wit_queued ''p'' 3 ''b'', wit_queued ''p'' 3 ''a'']"
      "[wit_queued ''p'' 3 ''a'', wit_queued ''p'' 3 ''b'']"]
  by (simp add: wit_queued_def inbox_key_def add_mset_commute)

end
