(* ===== verification/Kernel_Router.thy ===== *)
theory Kernel_Router
  imports Kernel_Ports
begin

text \<open>
  The port router of \<open>av-kernel/src/router.rs\<close>: the routing table built from a configuration's
  connections, the port faults installed on it, and the run-time queues a message waits in until
  the first step of its receiver at or after its availability. Error texts are left out; the names
  of directions and kinds in the errors are the raw values.
\<close>

section \<open>Configuration\<close>

datatype port_kind = Pk_Unspecified | Pk_ByteStream | Pk_Framed | Pk_Signal | Pk_Cdm
datatype port_direction = Pd_Unspecified | Pd_In | Pd_Out | Pd_Inout

definition port_kind_of :: "int \<Rightarrow> port_kind" where
  "port_kind_of k =
     (if k = 1 then Pk_ByteStream else if k = 2 then Pk_Framed else if k = 3 then Pk_Signal
      else if k = 4 then Pk_Cdm else Pk_Unspecified)"

definition port_direction_of :: "int \<Rightarrow> port_direction" where
  "port_direction_of d =
     (if d = 1 then Pd_In else if d = 2 then Pd_Out else if d = 3 then Pd_Inout else Pd_Unspecified)"

record port =
  pt_name :: string
  pt_kind :: int
  pt_direction :: int
  pt_latency_ns :: "i64 option" \<comment> \<open>of the timing, where there is one\<close>

record system_instance =
  si_name :: string
  si_system_id :: string

record connection =
  cn_from_instance :: string
  cn_from_port :: string
  cn_to_instance :: string
  cn_to_port :: string
  cn_link_model :: string

record sos_configuration =
  sos_instances :: "system_instance list"
  sos_connections :: "connection list"

text \<open>A system definition counts only by its ports.\<close>

type_synonym system_ports = "string \<rightharpoonup> port list"

datatype router_error =
    UnknownInstance nat string
  | UnknownSystemDefinition nat string string
  | UndeclaredPort nat string string
  | DirectionMismatch nat string string int
  | KindMismatch nat string int string int
  | UnsupportedLinkModel nat string
  | UndeclaredPortFaultTarget string string string
  | PortFaultTargetNotFramed string string string port_kind
  | UnsupportedPortFaultKind string string
  | MissingPortFaultDelay string
  | InvalidPortFaultRate string f64
  | InvalidPortFaultCorruptMask string f64
  | OverlappingPortFaultWindows string string string string i64 "i64 option"
  | PortFaultClearNotSupported string
  | MissingFaultSeed string

section \<open>The router's state\<close>

record edge =
  ed_to_instance :: string
  ed_to_port :: string
  ed_latency_ns :: i64

datatype port_fault_kind = Pf_Drop | Pf_Delay | Pf_Corrupt | Pf_Duplicate

datatype port_fault_effect = Eff_Drop | Eff_Delay i64 | Eff_Corrupt bytes | Eff_Duplicate i64

record installed_port_fault =
  ipf_id :: string
  ipf_instance :: string
  ipf_port :: string
  ipf_kind :: port_fault_kind
  ipf_start_tai_ns :: i64
  ipf_end_tai_ns :: "i64 option"
  ipf_rate :: f64
  ipf_delay_ns :: i64
  ipf_corrupt_mask :: "u8 option"
  ipf_duplicate_offset_ns :: i64
  ipf_rng :: pcg64
  ipf_first_applied_tai_ns :: "i64 option"
  ipf_frames_affected :: nat

record applied_port_fault =
  apf_fault_id :: string
  apf_instance :: string
  apf_port :: string
  apf_applied_tai_ns :: i64
  apf_frames_affected :: nat

record port_traffic_record =
  ptr_instance :: string
  ptr_port :: string
  ptr_direction :: port_direction
  ptr_tai_ns :: i64
  ptr_payload :: bytes
  ptr_sequence :: nat

record router =
  rt_edges :: "string \<times> string \<Rightarrow> edge list" \<comment> \<open>no entry is no edges\<close>
  rt_pending :: "(string, queued_message list) btree"
  rt_port_kinds :: "string \<times> string \<rightharpoonup> port_kind"
  rt_step :: nat
  rt_port_traffic :: "port_traffic_record list"
  rt_undeclared_port_emissions :: nat
  rt_port_faults :: "installed_port_fault list"

definition router_empty :: router where
  "router_empty =
     \<lparr>rt_edges = (\<lambda>k. []), rt_pending = [], rt_port_kinds = Map.empty, rt_step = 0, rt_port_traffic = [],
      rt_undeclared_port_emissions = 0, rt_port_faults = []\<rparr>"

section \<open>Building the routing table\<close>

definition latency_link_model :: string where "latency_link_model = ''latency''"

definition port_latency_ns :: "port \<Rightarrow> i64" where
  "port_latency_ns p = (case pt_latency_ns p of Some l \<Rightarrow> l | None \<Rightarrow> 0)"

definition lookup_port ::
  "nat \<Rightarrow> string \<Rightarrow> string \<Rightarrow> (string \<rightharpoonup> string) \<Rightarrow> system_ports \<Rightarrow> router_error + port" where
  "lookup_port idx inst pname instance_systems systems =
     ebind (ok_or (UnknownInstance idx inst) (instance_systems inst)) (\<lambda>sid.
     ebind (ok_or (UnknownSystemDefinition idx inst sid) (systems sid)) (\<lambda>ports.
     ok_or (UndeclaredPort idx inst pname) (find (\<lambda>p. pt_name p = pname) ports)))"

definition effective_latency_ns :: "nat \<Rightarrow> connection \<Rightarrow> port \<Rightarrow> port \<Rightarrow> router_error + i64" where
  "effective_latency_ns idx c from_port to_port =
     (if cn_link_model c = [] then Inr 0
      else if cn_link_model c = latency_link_model
      then Inr (wrap_i64 (port_latency_ns from_port + port_latency_ns to_port))
      else Inl (UnsupportedLinkModel idx (cn_link_model c)))"

definition instance_systems_of :: "system_instance list \<Rightarrow> (string \<rightharpoonup> string)" where
  "instance_systems_of is = foldl (\<lambda>m i. m(si_name i \<mapsto> si_system_id i)) Map.empty is"

definition connection_edge ::
  "(string \<rightharpoonup> string) \<Rightarrow> system_ports \<Rightarrow> nat \<Rightarrow> connection \<Rightarrow> router_error + edge" where
  "connection_edge instance_systems systems idx c =
     ebind (lookup_port idx (cn_from_instance c) (cn_from_port c) instance_systems systems) (\<lambda>fp.
     ebind (lookup_port idx (cn_to_instance c) (cn_to_port c) instance_systems systems) (\<lambda>tp.
     ebind (require (port_direction_of (pt_direction fp) \<in> {Pd_Out, Pd_Inout})
       (DirectionMismatch idx (cn_from_instance c) (cn_from_port c) (pt_direction fp))) (\<lambda>_.
     ebind (require (port_direction_of (pt_direction tp) \<in> {Pd_In, Pd_Inout})
       (DirectionMismatch idx (cn_to_instance c) (cn_to_port c) (pt_direction tp))) (\<lambda>_.
     ebind (require (pt_kind fp = pt_kind tp)
       (KindMismatch idx (cn_from_port c) (pt_kind fp) (cn_to_port c) (pt_kind tp))) (\<lambda>_.
     ebind (effective_latency_ns idx c fp tp) (\<lambda>l.
       Inr \<lparr>ed_to_instance = cn_to_instance c, ed_to_port = cn_to_port c, ed_latency_ns = l\<rparr>))))))"

primrec build_edges ::
  "(string \<rightharpoonup> string) \<Rightarrow> system_ports \<Rightarrow> nat \<Rightarrow> (string \<times> string \<Rightarrow> edge list) \<Rightarrow> connection list
     \<Rightarrow> router_error + (string \<times> string \<Rightarrow> edge list)" where
  "build_edges instance_systems systems idx es [] = Inr es"
| "build_edges instance_systems systems idx es (c # cs) =
     ebind (connection_edge instance_systems systems idx c) (\<lambda>e.
       let k = (cn_from_instance c, cn_from_port c) in
       build_edges instance_systems systems (idx + 1) (es(k := es k @ [e])) cs)"

definition instance_port_kinds ::
  "system_ports \<Rightarrow> (string \<times> string \<rightharpoonup> port_kind) \<Rightarrow> system_instance \<Rightarrow> (string \<times> string \<rightharpoonup> port_kind)" where
  "instance_port_kinds systems m i =
     (case systems (si_system_id i) of
        None \<Rightarrow> m
      | Some ports \<Rightarrow> foldl (\<lambda>m p. m((si_name i, pt_name p) \<mapsto> port_kind_of (pt_kind p))) m ports)"

definition router_build :: "sos_configuration \<Rightarrow> system_ports \<Rightarrow> router_error + router" where
  "router_build sos systems =
     ebind (build_edges (instance_systems_of (sos_instances sos)) systems 0 (\<lambda>k. []) (sos_connections sos)) (\<lambda>es.
       Inr (router_empty\<lparr>rt_edges := es,
         rt_port_kinds := foldl (instance_port_kinds systems) Map.empty (sos_instances sos)\<rparr>))"

section \<open>Port faults\<close>

record fault =
  fl_id :: string
  fl_tai_ns :: i64
  fl_duration_ns :: i64
  fl_target_kind :: int
  fl_instance :: string
  fl_target :: string
  fl_kind :: string
  fl_params :: "string \<rightharpoonup> f64"
  fl_clear :: bool

definition port_fault_kind_of :: "string \<Rightarrow> port_fault_kind option" where
  "port_fault_kind_of s =
     (if s = ''drop'' then Some Pf_Drop else if s = ''delay'' then Some Pf_Delay
      else if s = ''corrupt'' then Some Pf_Corrupt else if s = ''duplicate'' then Some Pf_Duplicate else None)"

definition fault_rate :: "fault \<Rightarrow> router_error + f64" where
  "fault_rate f =
     (let rate = (case fl_params f ''rate'' of Some r \<Rightarrow> r | None \<Rightarrow> f_of_int 1) in
      if f_le (FZero False) rate \<and> f_le rate (f_of_int 1) then Inr rate
      else Inl (InvalidPortFaultRate (fl_id f) rate))"

definition fault_delay_ns :: "port_fault_kind \<Rightarrow> fault \<Rightarrow> router_error + i64" where
  "fault_delay_ns kind f =
     (if kind = Pf_Delay then
        ebind (ok_or (MissingPortFaultDelay (fl_id f)) (fl_params f ''delay_s'')) (\<lambda>d.
          Inr (f_to_i64 (f_round_int (f_mul d (f_of_int 1000000000)))))
      else Inr 0)"

text \<open>\<open>mask.fract() == 0.0\<close>: a finite integer.\<close>

definition f_is_integer :: "f64 \<Rightarrow> bool" where
  "f_is_integer v \<longleftrightarrow> f_is_finite v \<and> of_int (trunc_rat (f_rat v)) = f_rat v"

definition fault_corrupt_mask :: "port_fault_kind \<Rightarrow> fault \<Rightarrow> router_error + u8 option" where
  "fault_corrupt_mask kind f =
     (if kind = Pf_Corrupt then
        (case fl_params f ''corrupt_mask'' of
           None \<Rightarrow> Inr None
         | Some mv \<Rightarrow>
             if f_is_integer mv \<and> f_le (FZero False) mv \<and> f_le mv (f_of_int 255)
             then Inr (Some (word_of_int (f_cast 0 255 mv)))
             else Inl (InvalidPortFaultCorruptMask (fl_id f) mv))
      else Inr None)"

definition window_end :: "i64 option \<Rightarrow> i64" where
  "window_end e = (case e of Some t \<Rightarrow> t | None \<Rightarrow> i64_max)"

definition windows_overlap :: "installed_port_fault \<Rightarrow> string \<Rightarrow> string \<Rightarrow> i64 \<Rightarrow> i64 option \<Rightarrow> bool" where
  "windows_overlap pf inst pname start fin \<longleftrightarrow>
     ipf_instance pf = inst \<and> ipf_port pf = pname \<and>
     max (ipf_start_tai_ns pf) start < min (window_end (ipf_end_tai_ns pf)) (window_end fin)"

definition install_port_fault ::
  "router \<Rightarrow> (string, u64) btree \<Rightarrow> i64 \<Rightarrow> installed_port_fault list \<Rightarrow> fault \<Rightarrow> router_error + installed_port_fault" where
  "install_port_fault r seeds output_period installed f =
     ebind (require (\<not> fl_clear f) (PortFaultClearNotSupported (fl_id f))) (\<lambda>_.
     ebind (ok_or (UnsupportedPortFaultKind (fl_id f) (fl_kind f)) (port_fault_kind_of (fl_kind f))) (\<lambda>kind.
     ebind (ok_or (UndeclaredPortFaultTarget (fl_id f) (fl_instance f) (fl_target f))
       (rt_port_kinds r (fl_instance f, fl_target f))) (\<lambda>pk.
     ebind (require (pk \<in> {Pk_Framed, Pk_ByteStream})
       (PortFaultTargetNotFramed (fl_id f) (fl_instance f) (fl_target f) pk)) (\<lambda>_.
     ebind (fault_rate f) (\<lambda>rate.
     ebind (fault_delay_ns kind f) (\<lambda>delay.
     ebind (fault_corrupt_mask kind f) (\<lambda>mv.
     ebind (ok_or (MissingFaultSeed (fl_id f)) (seed_for seeds (fl_id f))) (\<lambda>seed.
       let fin = (if fl_duration_ns f = 0 then None else Some (wrap_i64 (fl_tai_ns f + fl_duration_ns f))) in
       case find (\<lambda>pf. windows_overlap pf (fl_instance f) (fl_target f) (fl_tai_ns f) fin) installed of
         Some pf \<Rightarrow>
           Inl (OverlappingPortFaultWindows (ipf_id pf) (fl_id f) (fl_instance f) (fl_target f)
             (max (ipf_start_tai_ns pf) (fl_tai_ns f))
             (if ipf_end_tai_ns pf = None \<and> fin = None then None
              else Some (min (window_end (ipf_end_tai_ns pf)) (window_end fin))))
       | None \<Rightarrow>
           Inr \<lparr>ipf_id = fl_id f, ipf_instance = fl_instance f, ipf_port = fl_target f, ipf_kind = kind,
                ipf_start_tai_ns = fl_tai_ns f, ipf_end_tai_ns = fin, ipf_rate = rate, ipf_delay_ns = delay,
                ipf_corrupt_mask = mv,
                ipf_duplicate_offset_ns = (if kind = Pf_Duplicate then output_period else 0),
                ipf_rng = pcg_new seed, ipf_first_applied_tai_ns = None, ipf_frames_affected = 0\<rparr>))))))))"

primrec install_loop ::
  "router \<Rightarrow> (string, u64) btree \<Rightarrow> i64 \<Rightarrow> installed_port_fault list \<Rightarrow> fault list
     \<Rightarrow> router_error + installed_port_fault list" where
  "install_loop r seeds output_period installed [] = Inr installed"
| "install_loop r seeds output_period installed (f # fs) =
     ebind (install_port_fault r seeds output_period installed f) (\<lambda>pf.
       install_loop r seeds output_period (installed @ [pf]) fs)"

definition install_port_faults ::
  "router \<Rightarrow> fault list \<Rightarrow> (string, u64) btree \<Rightarrow> i64 \<Rightarrow> router_error + router" where
  "install_port_faults r faults seeds output_period =
     ebind (install_loop r seeds output_period []
       (sort_key (\<lambda>f. (fl_tai_ns f, fl_id f)) (filter (\<lambda>f. fl_target_kind f = 1) faults))) (\<lambda>pfs.
       Inr (r\<lparr>rt_port_faults := pfs\<rparr>))"

text \<open>\<open>take_applied_port_faults\<close> drains the effects of the faults that applied.\<close>

definition drain_port_fault :: "installed_port_fault \<Rightarrow> applied_port_fault option" where
  "drain_port_fault pf =
     map_option (\<lambda>t. \<lparr>apf_fault_id = ipf_id pf, apf_instance = ipf_instance pf, apf_port = ipf_port pf,
       apf_applied_tai_ns = t, apf_frames_affected = ipf_frames_affected pf\<rparr>) (ipf_first_applied_tai_ns pf)"

definition drained_port_fault :: "installed_port_fault \<Rightarrow> installed_port_fault" where
  "drained_port_fault pf =
     (if ipf_first_applied_tai_ns pf = None then pf
      else pf\<lparr>ipf_first_applied_tai_ns := None, ipf_frames_affected := 0\<rparr>)"

definition take_applied_port_faults :: "router \<Rightarrow> applied_port_fault list \<times> router" where
  "take_applied_port_faults r =
     (List.map_filter drain_port_fault (rt_port_faults r),
      r\<lparr>rt_port_faults := map drained_port_fault (rt_port_faults r)\<rparr>)"

section \<open>Delivery\<close>

definition no_message_epoch :: i64 where "no_message_epoch = 0"

text \<open>\<open>% (len * 8)\<close> and the bit flip; the payload is not empty there.\<close>

definition corrupt_payload :: "bytes \<Rightarrow> u8 option \<Rightarrow> pcg64 \<Rightarrow> bytes \<times> pcg64" where
  "corrupt_payload payload m g =
     (case m of
        Some x \<Rightarrow> (map (\<lambda>b. b XOR x) payload, g)
      | None \<Rightarrow>
          if payload = [] then (payload, g)
          else let (x, g) = next_u64 g;
                   bit_pos = unat (x mod (of_nat (length payload) * 8));
                   byte = bit_pos div 8; b = bit_pos mod 8
               in (payload[byte := (payload ! byte) XOR push_bit b 1], g))"

definition fault_matches :: "installed_port_fault \<Rightarrow> string \<Rightarrow> string \<Rightarrow> i64 \<Rightarrow> bool" where
  "fault_matches pf inst pname epoch \<longleftrightarrow>
     ipf_instance pf = inst \<and> ipf_port pf = pname \<and> ipf_start_tai_ns pf \<le> epoch \<and>
     (case ipf_end_tai_ns pf of Some e \<Rightarrow> epoch < e | None \<Rightarrow> True)"

definition fault_effect :: "installed_port_fault \<Rightarrow> bytes \<Rightarrow> port_fault_effect \<times> pcg64" where
  "fault_effect pf payload =
     (case ipf_kind pf of
        Pf_Drop \<Rightarrow> (Eff_Drop, ipf_rng pf)
      | Pf_Delay \<Rightarrow> (Eff_Delay (ipf_delay_ns pf), ipf_rng pf)
      | Pf_Corrupt \<Rightarrow>
          (let (p, g) = corrupt_payload payload (ipf_corrupt_mask pf) (ipf_rng pf) in (Eff_Corrupt p, g))
      | Pf_Duplicate \<Rightarrow> (Eff_Duplicate (ipf_duplicate_offset_ns pf), ipf_rng pf))"

definition consult_fault ::
  "string \<Rightarrow> port_message \<Rightarrow> i64 \<Rightarrow> installed_port_fault \<Rightarrow> port_fault_effect option \<times> installed_port_fault" where
  "consult_fault inst m epoch pf =
     (if \<not> fault_matches pf inst (po_port m) epoch then (None, pf)
      else let (applies, g) = bernoulli (ipf_rate pf) (ipf_rng pf); pf = pf\<lparr>ipf_rng := g\<rparr> in
        if \<not> applies then (None, pf)
        else let pf = pf\<lparr>ipf_first_applied_tai_ns :=
                      (case ipf_first_applied_tai_ns pf of None \<Rightarrow> Some epoch | Some t \<Rightarrow> Some t),
                    ipf_frames_affected := ipf_frames_affected pf + 1\<rparr>;
                 (eff, g) = fault_effect pf (po_payload m)
             in (Some eff, pf\<lparr>ipf_rng := g\<rparr>))"

text \<open>Every fault is consulted; the last effect stands.\<close>

primrec consult_faults ::
  "string \<Rightarrow> port_message \<Rightarrow> i64 \<Rightarrow> port_fault_effect option \<Rightarrow> installed_port_fault list
     \<Rightarrow> port_fault_effect option \<times> installed_port_fault list" where
  "consult_faults inst m epoch eff [] = (eff, [])"
| "consult_faults inst m epoch eff (pf # pfs) =
     (let (e, pf) = consult_fault inst m epoch pf;
          (eff, pfs) = consult_faults inst m epoch (if e = None then eff else e) pfs
      in (eff, pf # pfs))"

definition record_traffic :: "bool \<Rightarrow> string \<Rightarrow> string \<Rightarrow> port_direction \<Rightarrow> i64 \<Rightarrow> bytes \<Rightarrow> router \<Rightarrow> router" where
  "record_traffic recordable inst pname dir epoch payload r =
     (if recordable
      then r\<lparr>rt_port_traffic := rt_port_traffic r @
             [\<lparr>ptr_instance = inst, ptr_port = pname, ptr_direction = dir, ptr_tai_ns = epoch,
               ptr_payload = payload, ptr_sequence = rt_step r\<rparr>]\<rparr>
      else r)"

definition pending_of :: "router \<Rightarrow> string \<Rightarrow> queued_message list" where
  "pending_of r i = (case bt_get (rt_pending r) i of Some q \<Rightarrow> q | None \<Rightarrow> [])"

definition enqueue :: "string \<Rightarrow> queued_message \<Rightarrow> router \<Rightarrow> router" where
  "enqueue i q r = r\<lparr>rt_pending := bt_insert i (pending_of r i @ [q]) (rt_pending r)\<rparr>"

definition queued_copy :: "string \<Rightarrow> i64 \<Rightarrow> bytes \<Rightarrow> edge \<Rightarrow> i64 \<Rightarrow> queued_message" where
  "queued_copy inst epoch payload e extra =
     \<lparr>qm_message = \<lparr>po_port = ed_to_port e, po_tai_ns = wrap_i64 (wrap_i64 (epoch + ed_latency_ns e) + extra),
                    po_payload = payload\<rparr>,
      qm_sender_emission_tai_ns = epoch, qm_sender_instance = inst\<rparr>"

definition deliver_edge ::
  "string \<Rightarrow> i64 \<Rightarrow> bool \<Rightarrow> bytes \<Rightarrow> i64 \<Rightarrow> i64 option \<Rightarrow> edge \<Rightarrow> router \<Rightarrow> router" where
  "deliver_edge inst epoch recordable payload extra dup e r =
     (let r = record_traffic recordable (ed_to_instance e) (ed_to_port e) Pd_In epoch payload r;
          r = enqueue (ed_to_instance e) (queued_copy inst epoch payload e extra) r
      in case dup of
           None \<Rightarrow> r
         | Some off \<Rightarrow>
             (let r = record_traffic recordable (ed_to_instance e) (ed_to_port e) Pd_In epoch payload r
              in enqueue (ed_to_instance e) (queued_copy inst epoch payload e off) r))"

definition deliver_message :: "string \<Rightarrow> i64 \<Rightarrow> port_message \<Rightarrow> router \<Rightarrow> router" where
  "deliver_message inst fallback m r =
     (let epoch = (if po_tai_ns m = no_message_epoch then fallback else po_tai_ns m);
          kind = rt_port_kinds r (inst, po_port m);
          r = (if kind = None then r\<lparr>rt_undeclared_port_emissions := rt_undeclared_port_emissions r + 1\<rparr> else r);
          recordable = (kind \<in> {Some Pk_Framed, Some Pk_ByteStream});
          r = record_traffic recordable inst (po_port m) Pd_Out epoch (po_payload m) r;
          (eff, pfs) = consult_faults inst m epoch None (rt_port_faults r);
          r = r\<lparr>rt_port_faults := pfs\<rparr>;
          targets = rt_edges r (inst, po_port m)
      in case eff of
           Some Eff_Drop \<Rightarrow> r
         | Some (Eff_Corrupt p) \<Rightarrow> fold (deliver_edge inst epoch recordable p 0 None) targets r
         | Some (Eff_Delay d) \<Rightarrow> fold (deliver_edge inst epoch recordable (po_payload m) d None) targets r
         | Some (Eff_Duplicate off) \<Rightarrow>
             fold (deliver_edge inst epoch recordable (po_payload m) 0 (Some off)) targets r
         | None \<Rightarrow> fold (deliver_edge inst epoch recordable (po_payload m) 0 None) targets r)"

definition deliver :: "string \<Rightarrow> i64 \<Rightarrow> port_message list \<Rightarrow> router \<Rightarrow> router" where
  "deliver inst fallback outbox r = fold (deliver_message inst fallback) outbox r"

definition begin_step :: "router \<Rightarrow> router" where
  "begin_step r = r\<lparr>rt_step := rt_step r + 1\<rparr>"

definition take_port_traffic :: "router \<Rightarrow> port_traffic_record list \<times> router" where
  "take_port_traffic r = (rt_port_traffic r, r\<lparr>rt_port_traffic := []\<rparr>)"

definition bt_remove :: "'k \<Rightarrow> ('k, 'v) btree \<Rightarrow> ('k, 'v) btree" where
  "bt_remove k m = filter (\<lambda>e. fst e \<noteq> k) m"

definition take_inbox :: "string \<Rightarrow> i64 \<Rightarrow> router \<Rightarrow> inbox \<times> router" where
  "take_inbox i as_of r =
     (let queued = pending_of r i;
          rest = bt_remove i (rt_pending r);
          (ready, held) = partition (\<lambda>q. po_tai_ns (qm_message q) \<le> as_of) queued
      in (sorted_inbox ready,
          r\<lparr>rt_pending := (if held = [] then rest else bt_insert i held rest)\<rparr>))"

definition has_pending :: "router \<Rightarrow> bool" where
  "has_pending r \<longleftrightarrow> list_ex (\<lambda>q. q \<noteq> []) (bt_values (rt_pending r))"

definition pending_count :: "router \<Rightarrow> nat" where
  "pending_count r = sum_list (map length (bt_values (rt_pending r)))"


section \<open>The routing table is the list of connections\<close>

lemma build_edges_table:
  "build_edges is systems idx es cs = Inr es' \<Longrightarrow>
   \<exists>new. es' k = es k @ new \<and>
     list_all2 (\<lambda>c e. \<exists>n. connection_edge is systems n c = Inr e)
       (filter (\<lambda>c. (cn_from_instance c, cn_from_port c) = k) cs) new"
proof (induction cs arbitrary: idx es)
  case Nil
  then show ?case by simp
next
  case (Cons c cs)
  let ?j = "(cn_from_instance c, cn_from_port c)"
  obtain e where e: "connection_edge is systems idx c = Inr e"
    and rest: "build_edges is systems (idx + 1) (es(?j := es ?j @ [e])) cs = Inr es'"
    using Cons.prems by (auto simp: ebind_eq_Inr Let_def)
  obtain new where "es' k = (es(?j := es ?j @ [e])) k @ new"
    and new: "list_all2 (\<lambda>c e. \<exists>n. connection_edge is systems n c = Inr e)
       (filter (\<lambda>c. (cn_from_instance c, cn_from_port c) = k) cs) new"
    using Cons.IH [OF rest] by blast
  then show ?case
    using e by (cases "?j = k") (auto intro!: exI [of _ "e # new"])
qed

lemma connection_edge_InrD:
  assumes "connection_edge is systems idx c = Inr e"
  obtains fp tp where "lookup_port idx (cn_from_instance c) (cn_from_port c) is systems = Inr fp"
    and "lookup_port idx (cn_to_instance c) (cn_to_port c) is systems = Inr tp"
    and "port_direction_of (pt_direction fp) \<in> {Pd_Out, Pd_Inout}"
    and "port_direction_of (pt_direction tp) \<in> {Pd_In, Pd_Inout}"
    and "pt_kind fp = pt_kind tp"
    and "ed_to_instance e = cn_to_instance c" and "ed_to_port e = cn_to_port c"
    and "effective_latency_ns idx c fp tp = Inr (ed_latency_ns e)"
  using assms unfolding connection_edge_def ebind_eq_Inr by (auto simp: require_def split: if_splits)

section \<open>At most one fault matches a frame\<close>

definition fault_overlap :: "installed_port_fault \<Rightarrow> installed_port_fault \<Rightarrow> bool" where
  "fault_overlap a b =
     windows_overlap a (ipf_instance b) (ipf_port b) (ipf_start_tai_ns b) (ipf_end_tai_ns b)"

definition disjoint_faults :: "installed_port_fault list \<Rightarrow> bool" where
  "disjoint_faults pfs = sorted_wrt (\<lambda>a b. \<not> fault_overlap a b) pfs"

lemma install_port_fault_disjoint:
  assumes "install_port_fault r seeds per installed f = Inr pf" and "a \<in> set installed"
  shows "\<not> fault_overlap a pf"
  using assms unfolding install_port_fault_def ebind_eq_Inr Let_def
  by (auto simp: fault_overlap_def find_None_iff split: option.splits)

lemma install_loop_disjoint:
  "install_loop r seeds per installed fs = Inr pfs \<Longrightarrow> disjoint_faults installed \<Longrightarrow> disjoint_faults pfs"
proof (induction fs arbitrary: installed)
  case Nil
  then show ?case by simp
next
  case (Cons f fs)
  then obtain pf where pf: "install_port_fault r seeds per installed f = Inr pf"
    and rest: "install_loop r seeds per (installed @ [pf]) fs = Inr pfs"
    by (auto simp: ebind_eq_Inr)
  have "disjoint_faults (installed @ [pf])"
    using Cons.prems(2) install_port_fault_disjoint [OF pf]
    by (simp add: disjoint_faults_def sorted_wrt_append)
  then show ?case by (rule Cons.IH [OF rest])
qed

lemma both_match_overlap:
  assumes "fault_matches a inst port e" "fault_matches b inst port e" "e < i64_max"
  shows "fault_overlap a b"
  using assms
  by (auto simp: fault_matches_def fault_overlap_def windows_overlap_def window_end_def split: option.splits)

lemma disjoint_faults_match:
  "disjoint_faults pfs \<Longrightarrow> e < i64_max \<Longrightarrow> length (filter (\<lambda>pf. fault_matches pf inst port e) pfs) \<le> 1"
proof (induction pfs)
  case Nil
  then show ?case by simp
next
  case (Cons pf pfs)
  then have IH: "length (filter (\<lambda>pf. fault_matches pf inst port e) pfs) \<le> 1"
    and no: "\<forall>b \<in> set pfs. \<not> fault_overlap pf b"
    by (simp_all add: disjoint_faults_def)
  have "fault_matches pf inst port e \<Longrightarrow> filter (\<lambda>pf. fault_matches pf inst port e) pfs = []"
    using no both_match_overlap [OF _ _ Cons.prems(2)] by (auto simp: filter_empty_conv)
  then show ?case using IH by auto
qed

text \<open>What a fault is stays; only its generator and its counters move.\<close>

definition fault_window :: "installed_port_fault \<Rightarrow> string \<times> string \<times> i64 \<times> i64 option" where
  "fault_window pf = (ipf_instance pf, ipf_port pf, ipf_start_tai_ns pf, ipf_end_tai_ns pf)"

lemma fault_overlap_window:
  "fault_window a = fault_window a' \<Longrightarrow> fault_window b = fault_window b' \<Longrightarrow>
   fault_overlap a b = fault_overlap a' b'"
  by (simp add: fault_window_def fault_overlap_def windows_overlap_def)

lemma disjoint_faults_window:
  "map fault_window pfs = map fault_window pfs' \<Longrightarrow> disjoint_faults pfs = disjoint_faults pfs'"
proof (induction pfs arbitrary: pfs')
  case Nil
  then show ?case by simp
next
  case (Cons pf pfs)
  then obtain pf' ps where ps: "pfs' = pf' # ps" "fault_window pf = fault_window pf'"
      "map fault_window pfs = map fault_window ps"
    by (cases pfs') auto
  have "list_all2 (\<lambda>b b'. fault_window b = fault_window b') pfs ps"
    using ps(3) by (simp add: list.rel_eq [symmetric] list.rel_map)
  then have "list_all (\<lambda>b. \<not> fault_overlap pf b) pfs = list_all (\<lambda>b. \<not> fault_overlap pf' b) ps"
    by (induction rule: list_all2_induct) (use fault_overlap_window [OF ps(2)] in auto)
  then show ?case
    using Cons.IH [OF ps(3)] by (simp add: disjoint_faults_def list_all_iff ps(1))
qed

lemma consult_fault_window [simp]: "fault_window (snd (consult_fault inst m epoch pf)) = fault_window pf"
  by (simp add: consult_fault_def fault_window_def Let_def split: prod.split)

lemma consult_faults_window [simp]:
  "map fault_window (snd (consult_faults inst m epoch eff pfs)) = map fault_window pfs"
proof (induction pfs arbitrary: eff)
  case Nil
  then show ?case by simp
next
  case (Cons pf pfs)
  obtain e pf' where c: "consult_fault inst m epoch pf = (e, pf')" by fastforce
  then have "fault_window pf' = fault_window pf"
    by (metis consult_fault_window snd_conv)
  then show ?case
    using Cons.IH [of "if e = None then eff else e"]
    by (auto simp: c case_prod_unfold Let_def)
qed

lemma drained_port_fault_window [simp]: "fault_window (drained_port_fault pf) = fault_window pf"
  by (simp add: drained_port_fault_def fault_window_def)

lemma consult_faults_None:
  "list_all (\<lambda>pf. \<not> fault_matches pf inst (po_port m) epoch) pfs \<Longrightarrow>
   fst (consult_faults inst m epoch eff pfs) = eff"
  by (induction pfs arbitrary: eff) (auto simp: consult_fault_def case_prod_unfold)

section \<open>A message waits, and is taken, once\<close>

text \<open>The waiting messages of all instances as one bag.\<close>

definition pending_bag :: "router \<Rightarrow> (string \<times> queued_message) multiset" where
  "pending_bag r = mset (concat (map (\<lambda>e. map (Pair (fst e)) (snd e)) (rt_pending r)))"

lemma pending_bag_insert_list:
  "bt_sorted m \<Longrightarrow>
   mset (concat (map (\<lambda>e. map (Pair (fst e)) (snd e)) (bt_insert i qs m))) +
     mset (map (Pair i) (case bt_get m i of Some q \<Rightarrow> q | None \<Rightarrow> [])) =
   mset (concat (map (\<lambda>e. map (Pair (fst e)) (snd e)) m)) + mset (map (Pair i) qs)"
proof (induction i qs m rule: bt_insert.induct)
  case (1 k v)
  then show ?case by simp
next
  case (2 k v k' v' m)
  have less: "\<forall>x \<in> fst ` set m. k' < x" using 2(2) by (simp add: bt_sorted_Cons)
  have "map_of m k = None" if "k < k'"
  proof -
    have "k \<notin> fst ` set m" using less that by (meson order.asym order.strict_trans)
    then show ?thesis by (simp add: map_of_eq_None_iff)
  qed
  then show ?case using 2
    by (auto simp: bt_sorted_Cons bt_get_def ac_simps)
qed

lemma bt_sorted_remove: "bt_sorted m \<Longrightarrow> bt_sorted (bt_remove k m)"
  by (simp add: bt_sorted_def bt_remove_def sorted_filter distinct_map_filter)

lemma bt_get_remove [simp]: "bt_get (bt_remove k m) k' = (if k' = k then None else bt_get m k')"
  by (induction m) (auto simp: bt_get_def bt_remove_def)

lemma pending_bag_remove_list:
  "bt_sorted m \<Longrightarrow>
   mset (concat (map (\<lambda>e. map (Pair (fst e)) (snd e)) (bt_remove i m))) +
     mset (map (Pair i) (case bt_get m i of Some q \<Rightarrow> q | None \<Rightarrow> [])) =
   mset (concat (map (\<lambda>e. map (Pair (fst e)) (snd e)) m))"
proof (induction m)
  case Nil
  then show ?case by (simp add: bt_remove_def)
next
  case (Cons a m)
  obtain k v where a: "a = (k, v)" by fastforce
  have sm: "bt_sorted m" and "\<forall>k' \<in> fst ` set m. k < k'"
    using Cons.prems by (auto simp: a bt_sorted_Cons)
  then have "k = i \<Longrightarrow> bt_remove i m = m"
    by (auto simp: bt_remove_def intro!: filter_True)
  then show ?case using Cons.IH [OF sm] by (auto simp: a bt_remove_def bt_get_def ac_simps)
qed

definition queues_ok :: "router \<Rightarrow> bool" where
  "queues_ok r \<longleftrightarrow> bt_sorted (rt_pending r)"

lemma pending_bag_enqueue:
  "queues_ok r \<Longrightarrow> pending_bag (enqueue i q r) = pending_bag r + {#(i, q)#}"
  using pending_bag_insert_list [of "rt_pending r" i "pending_of r i @ [q]"]
  by (simp add: queues_ok_def pending_bag_def enqueue_def pending_of_def)

lemma queues_ok_enqueue [simp]: "queues_ok r \<Longrightarrow> queues_ok (enqueue i q r)"
  by (simp add: queues_ok_def enqueue_def bt_sorted_insert)

lemma record_traffic_simps [simp]:
  "rt_pending (record_traffic b i p d e pl r) = rt_pending r"
  "rt_edges (record_traffic b i p d e pl r) = rt_edges r"
  "rt_port_faults (record_traffic b i p d e pl r) = rt_port_faults r"
  "rt_port_kinds (record_traffic b i p d e pl r) = rt_port_kinds r"
  "pending_bag (record_traffic b i p d e pl r) = pending_bag r"
  "queues_ok (record_traffic b i p d e pl r) = queues_ok r"
  by (simp_all add: record_traffic_def pending_bag_def queues_ok_def)

text \<open>The copies one message becomes: none, one or two for each edge.\<close>

definition edge_copies :: "string \<Rightarrow> i64 \<Rightarrow> bytes \<Rightarrow> i64 \<Rightarrow> i64 option \<Rightarrow> edge \<Rightarrow> (string \<times> queued_message) list" where
  "edge_copies inst epoch payload extra dup e =
     (ed_to_instance e, queued_copy inst epoch payload e extra) #
     (case dup of None \<Rightarrow> [] | Some off \<Rightarrow> [(ed_to_instance e, queued_copy inst epoch payload e off)])"

lemma deliver_edge_bag:
  assumes "queues_ok r"
  shows "queues_ok (deliver_edge inst epoch rec payload extra dup e r) \<and>
    pending_bag (deliver_edge inst epoch rec payload extra dup e r) =
      pending_bag r + mset (edge_copies inst epoch payload extra dup e)"
  using assms by (cases dup) (simp_all add: deliver_edge_def edge_copies_def pending_bag_enqueue Let_def)

lemma deliver_edges_bag:
  "queues_ok r \<Longrightarrow>
   queues_ok (fold (deliver_edge inst epoch rec payload extra dup) es r) \<and>
   pending_bag (fold (deliver_edge inst epoch rec payload extra dup) es r) =
     pending_bag r + mset (concat (map (edge_copies inst epoch payload extra dup) es))"
  by (induction es arbitrary: r) (simp_all add: deliver_edge_bag)


definition message_epoch :: "i64 \<Rightarrow> port_message \<Rightarrow> i64" where
  "message_epoch fallback m = (if po_tai_ns m = no_message_epoch then fallback else po_tai_ns m)"

definition message_copies :: "string \<Rightarrow> i64 \<Rightarrow> port_message \<Rightarrow> router \<Rightarrow> (string \<times> queued_message) list" where
  "message_copies inst fallback m r =
     (let epoch = message_epoch fallback m; es = rt_edges r (inst, po_port m) in
      case fst (consult_faults inst m epoch None (rt_port_faults r)) of
        Some Eff_Drop \<Rightarrow> []
      | Some (Eff_Corrupt p) \<Rightarrow> concat (map (edge_copies inst epoch p 0 None) es)
      | Some (Eff_Delay d) \<Rightarrow> concat (map (edge_copies inst epoch (po_payload m) d None) es)
      | Some (Eff_Duplicate off) \<Rightarrow> concat (map (edge_copies inst epoch (po_payload m) 0 (Some off)) es)
      | None \<Rightarrow> concat (map (edge_copies inst epoch (po_payload m) 0 None) es))"

text \<open>The router a message finds once it is recorded and the faults are consulted.\<close>

definition prepared :: "string \<Rightarrow> i64 \<Rightarrow> port_message \<Rightarrow> router \<Rightarrow> router" where
  "prepared inst fallback m r =
     (let epoch = message_epoch fallback m;
          kind = rt_port_kinds r (inst, po_port m);
          r = (if kind = None then r\<lparr>rt_undeclared_port_emissions := rt_undeclared_port_emissions r + 1\<rparr> else r);
          r = record_traffic (kind \<in> {Some Pk_Framed, Some Pk_ByteStream}) inst (po_port m) Pd_Out epoch (po_payload m) r
      in r\<lparr>rt_port_faults := snd (consult_faults inst m epoch None (rt_port_faults r))\<rparr>)"

lemma prepared_simps [simp]:
  "rt_pending (prepared inst fb m r) = rt_pending r"
  "rt_edges (prepared inst fb m r) = rt_edges r"
  "rt_port_kinds (prepared inst fb m r) = rt_port_kinds r"
  "rt_port_faults (prepared inst fb m r) = snd (consult_faults inst m (message_epoch fb m) None (rt_port_faults r))"
  "pending_bag (prepared inst fb m r) = pending_bag r"
  "queues_ok (prepared inst fb m r) = queues_ok r"
  by (simp_all add: prepared_def Let_def pending_bag_def queues_ok_def)

lemma deliver_message_cases:
  "\<exists>payload extra dup es.
     deliver_message inst fb m r =
       fold (deliver_edge inst (message_epoch fb m) (rt_port_kinds r (inst, po_port m) \<in> {Some Pk_Framed, Some Pk_ByteStream})
         payload extra dup) es (prepared inst fb m r) \<and>
     message_copies inst fb m r = concat (map (edge_copies inst (message_epoch fb m) payload extra dup) es)"
proof -
  define ep where "ep = message_epoch fb m"
  define rec where "rec \<longleftrightarrow> rt_port_kinds r (inst, po_port m) \<in> {Some Pk_Framed, Some Pk_ByteStream}"
  define eff where "eff = fst (consult_faults inst m ep None (rt_port_faults r))"
  define ts where "ts = rt_edges r (inst, po_port m)"
  have d: "deliver_message inst fb m r =
     (case eff of
        Some Eff_Drop \<Rightarrow> prepared inst fb m r
      | Some (Eff_Corrupt p) \<Rightarrow> fold (deliver_edge inst ep rec p 0 None) ts (prepared inst fb m r)
      | Some (Eff_Delay d) \<Rightarrow> fold (deliver_edge inst ep rec (po_payload m) d None) ts (prepared inst fb m r)
      | Some (Eff_Duplicate off) \<Rightarrow> fold (deliver_edge inst ep rec (po_payload m) 0 (Some off)) ts (prepared inst fb m r)
      | None \<Rightarrow> fold (deliver_edge inst ep rec (po_payload m) 0 None) ts (prepared inst fb m r))"
    by (simp add: deliver_message_def prepared_def Let_def case_prod_unfold ep_def rec_def eff_def ts_def
        message_epoch_def if_distrib [of rt_edges] if_distrib [of rt_port_faults]
        split del: if_split cong: if_cong option.case_cong port_fault_effect.case_cong)
  have c: "message_copies inst fb m r =
     (case eff of
        Some Eff_Drop \<Rightarrow> []
      | Some (Eff_Corrupt p) \<Rightarrow> concat (map (edge_copies inst ep p 0 None) ts)
      | Some (Eff_Delay d) \<Rightarrow> concat (map (edge_copies inst ep (po_payload m) d None) ts)
      | Some (Eff_Duplicate off) \<Rightarrow> concat (map (edge_copies inst ep (po_payload m) 0 (Some off)) ts)
      | None \<Rightarrow> concat (map (edge_copies inst ep (po_payload m) 0 None) ts))"
    by (simp add: message_copies_def Let_def ep_def eff_def ts_def cong: option.case_cong port_fault_effect.case_cong)
  show ?thesis
  proof (cases eff)
    case None
    then show ?thesis unfolding d c ep_def [symmetric] rec_def [symmetric]
        by (intro exI [of _ "po_payload m"] exI [of _ "0"] exI [of _ "None"] exI [of _ "ts"]) simp
  next
    case (Some x)
    then show ?thesis
    proof (cases x)
      case Eff_Drop
      with Some show ?thesis unfolding d c ep_def [symmetric] rec_def [symmetric]
        by (intro exI [of _ "po_payload m"] exI [of _ "0"] exI [of _ "None"] exI [of _ "[]"]) simp
    next
      case (Eff_Delay e)
      with Some show ?thesis unfolding d c ep_def [symmetric] rec_def [symmetric]
        by (intro exI [of _ "po_payload m"] exI [of _ "e"] exI [of _ "None"] exI [of _ "ts"]) simp
    next
      case (Eff_Corrupt p)
      with Some show ?thesis unfolding d c ep_def [symmetric] rec_def [symmetric]
        by (intro exI [of _ "p"] exI [of _ "0"] exI [of _ "None"] exI [of _ "ts"]) simp
    next
      case (Eff_Duplicate off)
      with Some show ?thesis unfolding d c ep_def [symmetric] rec_def [symmetric]
        by (intro exI [of _ "po_payload m"] exI [of _ "0"] exI [of _ "Some off"] exI [of _ "ts"]) simp
    qed
  qed
qed

lemma deliver_message_bag:
  assumes "queues_ok r"
  shows "queues_ok (deliver_message inst fb m r) \<and>
    pending_bag (deliver_message inst fb m r) = pending_bag r + mset (message_copies inst fb m r)"
proof -
  obtain payload extra dup es where d: "deliver_message inst fb m r =
       fold (deliver_edge inst (message_epoch fb m) (rt_port_kinds r (inst, po_port m) \<in> {Some Pk_Framed, Some Pk_ByteStream})
         payload extra dup) es (prepared inst fb m r)"
     "message_copies inst fb m r = concat (map (edge_copies inst (message_epoch fb m) payload extra dup) es)"
    using deliver_message_cases by blast
  show ?thesis
    using deliver_edges_bag [of "prepared inst fb m r"] assms unfolding d by simp
qed

primrec outbox_copies :: "string \<Rightarrow> i64 \<Rightarrow> port_message list \<Rightarrow> router \<Rightarrow> (string \<times> queued_message) list" where
  "outbox_copies inst fb [] r = []"
| "outbox_copies inst fb (m # ms) r =
     message_copies inst fb m r @ outbox_copies inst fb ms (deliver_message inst fb m r)"

lemma deliver_bag:
  "queues_ok r \<Longrightarrow> queues_ok (deliver inst fb ms r) \<and>
   pending_bag (deliver inst fb ms r) = pending_bag r + mset (outbox_copies inst fb ms r)"
proof (induction ms arbitrary: r)
  case Nil
  then show ?case by (simp add: deliver_def)
next
  case (Cons m ms)
  note step = deliver_message_bag [OF Cons.prems, of inst fb m]
  have "deliver inst fb (m # ms) r = deliver inst fb ms (deliver_message inst fb m r)"
    by (simp add: deliver_def)
  then show ?case using Cons.IH [of "deliver_message inst fb m r"] step by simp
qed

text \<open>Taking an inbox leaves what is not available yet, and takes everything that is.\<close>

definition arrival :: "string \<times> queued_message \<Rightarrow> string \<times> port_message \<times> string option" where
  "arrival c = (fst c, qm_message (snd c), Some (qm_sender_instance (snd c)))"

definition received :: "string \<Rightarrow> inbox \<Rightarrow> (string \<times> port_message \<times> string option) list" where
  "received i b = map (Pair i) (zip (ib_messages b) (ib_senders b))"

definition available :: "string \<Rightarrow> i64 \<Rightarrow> string \<times> queued_message \<Rightarrow> bool" where
  "available i t c \<longleftrightarrow> fst c = i \<and> po_tai_ns (qm_message (snd c)) \<le> t"

lemma received_sorted_inbox: "mset (received i (sorted_inbox qs)) = image_mset arrival (mset (map (Pair i) qs))"
proof -
  have "received i (sorted_inbox qs) = map (\<lambda>q. arrival (i, q)) (sort_key inbox_key qs)"
    by (simp add: received_def sorted_inbox_def Let_def arrival_def zip_map_map zip_same_conv_map)
  then have "mset (received i (sorted_inbox qs)) = image_mset (\<lambda>q. arrival (i, q)) (mset qs)"
    by simp
  then show ?thesis by (simp add: multiset.map_comp comp_def)
qed

lemma take_inbox_parts:
  "take_inbox i t r =
     (sorted_inbox (filter (\<lambda>q. po_tai_ns (qm_message q) \<le> t) (pending_of r i)),
      r\<lparr>rt_pending := (let held = filter (\<lambda>q. \<not> po_tai_ns (qm_message q) \<le> t) (pending_of r i);
                          rest = bt_remove i (rt_pending r)
                      in if held = [] then rest else bt_insert i held rest)\<rparr>)"
  by (simp add: take_inbox_def Let_def partition_filter_conv comp_def)

lemma take_inbox_ok: "queues_ok r \<Longrightarrow> queues_ok (snd (take_inbox i t r))"
  by (simp add: take_inbox_parts queues_ok_def Let_def bt_sorted_insert bt_sorted_remove)

lemma take_inbox_bag:
  assumes "queues_ok r"
  shows "pending_bag (snd (take_inbox i t r)) = filter_mset (\<lambda>c. \<not> available i t c) (pending_bag r)"
    and "mset (received i (fst (take_inbox i t r))) = image_mset arrival (filter_mset (available i t) (pending_bag r))"
proof -
  define q where "q = pending_of r i"
  define held where "held = filter (\<lambda>q. \<not> po_tai_ns (qm_message q) \<le> t) q"
  define rest where "rest = mset (concat (map (\<lambda>e. map (Pair (fst e)) (snd e)) (bt_remove i (rt_pending r))))"
  have sorted: "bt_sorted (rt_pending r)" using assms by (simp add: queues_ok_def)
  have bag: "pending_bag r = rest + mset (map (Pair i) q)"
    using pending_bag_remove_list [OF sorted, of i]
    by (simp add: pending_bag_def rest_def q_def pending_of_def)
  have other: "\<forall>c \<in># rest. fst c \<noteq> i" by (auto simp: rest_def bt_remove_def)
  then have no: "\<forall>c \<in># rest. \<not> available i t c" by (simp add: available_def)
  then have stay: "filter_mset (\<lambda>c. \<not> available i t c) rest = rest" "filter_mset (available i t) rest = {#}"
    by (simp_all add: filter_mset_cong [of rest rest _ "\<lambda>c. True"] filter_mset_cong [of rest rest _ "\<lambda>c. False"])
  have mine: "filter (\<lambda>c. \<not> available i t c) (map (Pair i) q) = map (Pair i) held"
    "filter (available i t) (map (Pair i) q) = map (Pair i) (filter (\<lambda>q. po_tai_ns (qm_message q) \<le> t) q)"
    by (simp_all add: filter_map comp_def available_def held_def)
  have ins: "mset (concat (map (\<lambda>e. map (Pair (fst e)) (snd e)) (bt_insert i held (bt_remove i (rt_pending r))))) =
      rest + mset (map (Pair i) held)"
    using pending_bag_insert_list [OF bt_sorted_remove [OF sorted, of i], of i held] by (simp add: rest_def)
  have "snd (take_inbox i t r) = r\<lparr>rt_pending := (if held = [] then bt_remove i (rt_pending r)
      else bt_insert i held (bt_remove i (rt_pending r)))\<rparr>"
    by (simp add: take_inbox_parts Let_def held_def q_def)
  then have after: "pending_bag (snd (take_inbox i t r)) = rest + mset (map (Pair i) held)"
    using ins by (cases "held = []") (simp_all add: pending_bag_def rest_def)
  show "pending_bag (snd (take_inbox i t r)) = filter_mset (\<lambda>c. \<not> available i t c) (pending_bag r)"
    unfolding after bag filter_union_mset stay mset_filter [symmetric] mine ..
  show "mset (received i (fst (take_inbox i t r))) = image_mset arrival (filter_mset (available i t) (pending_bag r))"
    unfolding bag filter_union_mset stay mset_filter [symmetric] mine
    by (simp only: take_inbox_parts fst_conv received_sorted_inbox q_def add_0)
qed

section \<open>Runs of the router\<close>

datatype router_event =
    Ev_Begin_Step
  | Ev_Deliver string i64 "port_message list"
  | Ev_Take_Inbox string i64
  | Ev_Take_Traffic
  | Ev_Take_Faults

fun router_event_step :: "router_event \<Rightarrow> router \<Rightarrow> router" where
  "router_event_step Ev_Begin_Step r = begin_step r"
| "router_event_step (Ev_Deliver inst fb ms) r = deliver inst fb ms r"
| "router_event_step (Ev_Take_Inbox i t) r = snd (take_inbox i t r)"
| "router_event_step Ev_Take_Traffic r = snd (take_port_traffic r)"
| "router_event_step Ev_Take_Faults r = snd (take_applied_port_faults r)"

definition router_run :: "router_event list \<Rightarrow> router \<Rightarrow> router" where
  "router_run evs r = fold router_event_step evs r"

primrec run_sent :: "router_event list \<Rightarrow> router \<Rightarrow> (string \<times> queued_message) list" where
  "run_sent [] r = []"
| "run_sent (e # es) r =
     (case e of Ev_Deliver inst fb ms \<Rightarrow> outbox_copies inst fb ms r | _ \<Rightarrow> []) @
     run_sent es (router_event_step e r)"

primrec run_received :: "router_event list \<Rightarrow> router \<Rightarrow> (string \<times> port_message \<times> string option) list" where
  "run_received [] r = []"
| "run_received (e # es) r =
     (case e of Ev_Take_Inbox i t \<Rightarrow> received i (fst (take_inbox i t r)) | _ \<Rightarrow> []) @
     run_received es (router_event_step e r)"

lemma router_step_ok:
  assumes "queues_ok r"
  shows "queues_ok (router_event_step e r)"
proof (cases e)
  case (Ev_Deliver inst fb ms)
  then show ?thesis using deliver_bag [OF assms] by simp
next
  case (Ev_Take_Inbox i t)
  then show ?thesis using take_inbox_ok [OF assms] by simp
qed (use assms in \<open>simp_all add: queues_ok_def begin_step_def take_port_traffic_def take_applied_port_faults_def\<close>)

lemma router_step_bag:
  assumes "queues_ok r"
  shows "image_mset arrival (pending_bag r) + image_mset arrival (mset (run_sent [e] r)) =
    mset (run_received [e] r) + image_mset arrival (pending_bag (router_event_step e r))"
proof (cases e)
  case (Ev_Deliver inst fb ms)
  then show ?thesis using deliver_bag [OF assms] by simp
next
  case (Ev_Take_Inbox i t)
  have "pending_bag r = filter_mset (available i t) (pending_bag r) + filter_mset (\<lambda>c. \<not> available i t c) (pending_bag r)"
    by (rule multiset_partition)
  then have "image_mset arrival (pending_bag r) = image_mset arrival (filter_mset (available i t) (pending_bag r)) +
      image_mset arrival (filter_mset (\<lambda>c. \<not> available i t c) (pending_bag r))"
    by (metis image_mset_union)
  then show ?thesis using take_inbox_bag [OF assms] Ev_Take_Inbox by simp
qed (simp_all add: pending_bag_def begin_step_def take_port_traffic_def take_applied_port_faults_def)

lemma router_run_bag:
  "queues_ok r \<Longrightarrow>
   image_mset arrival (pending_bag r) + image_mset arrival (mset (run_sent es r)) =
     mset (run_received es r) + image_mset arrival (pending_bag (router_run es r))"
proof (induction es arbitrary: r)
  case Nil
  then show ?case by (simp add: router_run_def)
next
  case (Cons e es)
  note IH = Cons.IH [OF router_step_ok [OF Cons.prems, of e]]
  note st = router_step_bag [OF Cons.prems, of e]
  have "router_run (e # es) r = router_run es (router_event_step e r)"
    by (simp add: router_run_def)
  moreover have "a + (s + s') = r + r' + d" if "a + s = r + b" "b + s' = r' + d"
    for a s b s' r r' d :: "(string \<times> port_message \<times> string option) multiset"
    using that by (metis add.assoc)
  ultimately show ?case using IH st by simp
qed

lemma router_run_ok: "queues_ok r \<Longrightarrow> queues_ok (router_run es r)"
  unfolding router_run_def by (induction es arbitrary: r) (simp_all add: router_step_ok)


lemma deliver_edges_faults [simp]:
  "rt_port_faults (fold (deliver_edge inst ep rec p x dup) es r) = rt_port_faults r"
proof (induction es arbitrary: r)
  case (Cons e es)
  have "rt_port_faults (deliver_edge inst ep rec p x dup e r) = rt_port_faults r"
    by (cases dup) (simp_all add: deliver_edge_def enqueue_def Let_def)
  then show ?case using Cons.IH by simp
qed simp

lemma deliver_message_windows [simp]:
  "map fault_window (rt_port_faults (deliver_message inst fb m r)) = map fault_window (rt_port_faults r)"
proof -
  obtain rec payload extra dup es where d: "deliver_message inst fb m r =
       fold (deliver_edge inst (message_epoch fb m) rec payload extra dup) es (prepared inst fb m r)"
    using deliver_message_cases by blast
  show ?thesis unfolding d by simp
qed

lemma deliver_windows [simp]:
  "map fault_window (rt_port_faults (deliver inst fb ms r)) = map fault_window (rt_port_faults r)"
  unfolding deliver_def by (induction ms arbitrary: r) simp_all

lemma router_run_windows:
  "map fault_window (rt_port_faults (router_run es r)) = map fault_window (rt_port_faults r)"
proof (induction es arbitrary: r)
  case Nil
  then show ?case by (simp add: router_run_def)
next
  case (Cons e es)
  have "map fault_window (rt_port_faults (router_event_step e r)) = map fault_window (rt_port_faults r)"
    by (cases e) (simp_all add: begin_step_def take_inbox_parts take_port_traffic_def
        take_applied_port_faults_def comp_def)
  then show ?case using Cons.IH [of "router_event_step e r"] by (simp add: router_run_def)
qed

lemma router_build_fresh:
  assumes "router_build sos systems = Inr r"
  shows "rt_pending r = []" and "rt_port_faults r = []" and "rt_step r = 0" and "rt_port_traffic r = []"
  using assms by (auto simp: router_build_def ebind_eq_Inr router_empty_def)

lemma install_port_faults_InrD:
  assumes "install_port_faults r fs seeds per = Inr r'"
  shows "disjoint_faults (rt_port_faults r')" and "rt_pending r' = rt_pending r" and "rt_edges r' = rt_edges r"
  using assms install_loop_disjoint [of r seeds per "[]"]
  by (auto simp: install_port_faults_def ebind_eq_Inr disjoint_faults_def)

text \<open>
  C29: (one fault at most) however the router is driven after its faults are installed, at most one
  of them matches a frame of a port at an epoch below the last i64: the assertion in \<open>deliver\<close> never
  fails and the last effect is the only one.
\<close>

theorem one_fault_per_frame:
  assumes "install_port_faults r fs seeds per = Inr r'" and "epoch < i64_max"
  shows "length (filter (\<lambda>pf. fault_matches pf inst port epoch) (rt_port_faults (router_run evs r'))) \<le> 1"
proof (rule disjoint_faults_match [OF _ assms(2)])
  show "disjoint_faults (rt_port_faults (router_run evs r'))"
    using disjoint_faults_window [OF router_run_windows] install_port_faults_InrD(1) [OF assms(1)] by blast
qed

text \<open>
  C24: (every copy is taken once) over any sequence of deliveries, drains and inbox takings, the
  messages the inboxes handed out together with the messages still waiting are, as a bag, exactly
  the copies the deliveries made: a routed copy is neither lost nor handed out twice.
\<close>

theorem router_takes_each_copy_once:
  assumes "router_build sos systems = Inr r" and "install_port_faults r fs seeds per = Inr r'"
  shows "mset (run_received evs r') + image_mset arrival (pending_bag (router_run evs r')) =
    image_mset arrival (mset (run_sent evs r'))"
proof -
  have "rt_pending r' = []"
    using router_build_fresh(1) [OF assms(1)] install_port_faults_InrD(2) [OF assms(2)] by simp
  then show ?thesis using router_run_bag [of r' evs] by (simp add: queues_ok_def pending_bag_def)
qed

text \<open>
  An inbox is what has become available: at any point of a run, taking an instance's inbox as
  of an epoch hands out exactly the waiting messages for that instance whose availability is not
  after the epoch.
\<close>

theorem inbox_is_what_is_available:
  assumes "router_build sos systems = Inr r" and "install_port_faults r fs seeds per = Inr r'"
  shows "mset (received i (fst (take_inbox i t (router_run evs r')))) =
    image_mset arrival (filter_mset (available i t) (pending_bag (router_run evs r')))"
proof -
  have "queues_ok r'"
    using router_build_fresh(1) [OF assms(1)] install_port_faults_InrD(2) [OF assms(2)]
    by (simp add: queues_ok_def)
  then show ?thesis by (rule take_inbox_bag(2) [OF router_run_ok])
qed

text \<open>
  The table is the connections: the edges of a sending port are, in order, one for each
  connection that names it as its source; each joins two declared ports of one kind, the first of
  which may send and the second receive.
\<close>

theorem routes_are_connections:
  assumes "router_build sos systems = Inr r"
  shows "list_all2 (\<lambda>c e. ed_to_instance e = cn_to_instance c \<and> ed_to_port e = cn_to_port c \<and>
      (\<exists>n fp tp. lookup_port n i p (instance_systems_of (sos_instances sos)) systems = Inr fp \<and>
         lookup_port n (ed_to_instance e) (ed_to_port e) (instance_systems_of (sos_instances sos)) systems = Inr tp \<and>
         pt_kind fp = pt_kind tp \<and> port_direction_of (pt_direction fp) \<in> {Pd_Out, Pd_Inout} \<and>
         port_direction_of (pt_direction tp) \<in> {Pd_In, Pd_Inout} \<and>
         effective_latency_ns n c fp tp = Inr (ed_latency_ns e)))
    (filter (\<lambda>c. cn_from_instance c = i \<and> cn_from_port c = p) (sos_connections sos)) (rt_edges r (i, p))"
proof -
  let ?is = "instance_systems_of (sos_instances sos)"
  have "build_edges ?is systems 0 (\<lambda>k. []) (sos_connections sos) = Inr (rt_edges r)"
    using assms by (auto simp: router_build_def ebind_eq_Inr router_empty_def)
  from build_edges_table [OF this, of "(i, p)"]
  have "list_all2 (\<lambda>c e. \<exists>n. connection_edge ?is systems n c = Inr e)
      (filter (\<lambda>c. cn_from_instance c = i \<and> cn_from_port c = p) (sos_connections sos)) (rt_edges r (i, p))"
    by simp
  then show ?thesis
  proof (rule list.rel_mono_strong)
    fix c e
    assume "c \<in> set (filter (\<lambda>c. cn_from_instance c = i \<and> cn_from_port c = p) (sos_connections sos))"
      and "\<exists>n. connection_edge ?is systems n c = Inr e"
    then obtain n where c: "cn_from_instance c = i" "cn_from_port c = p"
      and e: "connection_edge ?is systems n c = Inr e"
      by auto
    show "ed_to_instance e = cn_to_instance c \<and> ed_to_port e = cn_to_port c \<and>
      (\<exists>n fp tp. lookup_port n i p ?is systems = Inr fp \<and>
         lookup_port n (ed_to_instance e) (ed_to_port e) ?is systems = Inr tp \<and>
         pt_kind fp = pt_kind tp \<and> port_direction_of (pt_direction fp) \<in> {Pd_Out, Pd_Inout} \<and>
         port_direction_of (pt_direction tp) \<in> {Pd_In, Pd_Inout} \<and>
         effective_latency_ns n c fp tp = Inr (ed_latency_ns e))"
      using e by (rule connection_edge_InrD) (use c in auto)
  qed
qed


section \<open>A run with two instances\<close>

definition wit_port :: "string \<Rightarrow> int \<Rightarrow> i64 \<Rightarrow> port" where
  "wit_port n d l = \<lparr>pt_name = n, pt_kind = 2, pt_direction = d, pt_latency_ns = Some l\<rparr>"

definition wit_systems :: system_ports where
  "wit_systems = [''radio'' \<mapsto> [wit_port ''tx'' 2 3, wit_port ''rx'' 1 4]]"

definition wit_sos :: sos_configuration where
  "wit_sos =
     \<lparr>sos_instances = [\<lparr>si_name = ''a'', si_system_id = ''radio''\<rparr>, \<lparr>si_name = ''b'', si_system_id = ''radio''\<rparr>],
      sos_connections = [\<lparr>cn_from_instance = ''a'', cn_from_port = ''tx'', cn_to_instance = ''b'', cn_to_port = ''rx'',
        cn_link_model = ''latency''\<rparr>]\<rparr>"

definition wit_port_fault :: "string \<Rightarrow> i64 \<Rightarrow> i64 \<Rightarrow> string \<Rightarrow> fault" where
  "wit_port_fault i s d k =
     \<lparr>fl_id = i, fl_tai_ns = s, fl_duration_ns = d, fl_target_kind = 1, fl_instance = ''a'', fl_target = ''tx'',
      fl_kind = k, fl_params = Map.empty, fl_clear = False\<rparr>"

lemma wit_router_built: "\<exists>r. router_build wit_sos wit_systems = Inr r \<and> rt_port_kinds r (''a'', ''tx'') = Some Pk_Framed"
  by (simp add: router_build_def wit_sos_def wit_systems_def wit_port_def connection_edge_def lookup_port_def
      effective_latency_ns_def latency_link_model_def instance_systems_of_def instance_port_kinds_def
      port_kind_of_def port_direction_of_def port_latency_ns_def)

definition wit_seeds :: "(string, u64) btree" where
  "wit_seeds = [(''f1'', 7), (''f2'', 8)]"

lemma wit_port_fault_installs:
  assumes "rt_port_kinds r (''a'', ''tx'') = Some Pk_Framed" and "bt_get seeds i = Some x"
    and "\<not> list_ex (\<lambda>pf. windows_overlap pf ''a'' ''tx'' s (if d = 0 then None else Some (wrap_i64 (s + d)))) installed"
  shows "\<exists>pf. install_port_fault r seeds per installed (wit_port_fault i s d ''drop'') = Inr pf \<and>
    ipf_start_tai_ns pf = s \<and> ipf_end_tai_ns pf = (if d = 0 then None else Some (wrap_i64 (s + d)))"
proof -
  have one: "f_le (FZero False) (f_of_int 1)" "f_le (f_of_int 1) (f_of_int 1)"
    by (simp_all add: f_of_int_1 f_rat_def)
  have "find (\<lambda>pf. windows_overlap pf ''a'' ''tx'' s (if d = 0 then None else Some (wrap_i64 (s + d)))) installed = None"
    using assms(3) by (simp add: find_None_iff list_ex_iff)
  moreover have "port_fault_kind_of ''drop'' = Some Pf_Drop"
    by (simp add: port_fault_kind_of_def)
  moreover have "fault_rate (wit_port_fault i s d ''drop'') = Inr (f_of_int 1)"
    using one by (simp add: fault_rate_def wit_port_fault_def)
  ultimately show ?thesis using assms(1,2)
    by (simp add: install_port_fault_def wit_port_fault_def seed_for_def fault_delay_ns_def fault_corrupt_mask_def Let_def
        split del: if_split cong: if_cong)
qed


lemma wit_faults_installed:
  assumes "rt_port_kinds r (''a'', ''tx'') = Some Pk_Framed"
  shows "\<exists>r'. install_port_faults r [wit_port_fault ''f2'' 10 0 ''drop'', wit_port_fault ''f1'' 5 5 ''drop''] wit_seeds 1
    = Inr r' \<and> length (rt_port_faults r') = 2"
proof -
  let ?f1 = "wit_port_fault ''f1'' 5 5 ''drop''" and ?f2 = "wit_port_fault ''f2'' 10 0 ''drop''"
  have w: "wrap_i64 10 = 10" by (simp add: wrap_i64_def)
  obtain pf1 where pf1: "install_port_fault r wit_seeds 1 [] ?f1 = Inr pf1"
    "ipf_start_tai_ns pf1 = 5" "ipf_end_tai_ns pf1 = Some 10"
    using wit_port_fault_installs [OF assms, of wit_seeds "''f1''" 7 5 5 "[]" 1]
    by (auto simp: wit_seeds_def bt_get_def w)
  have "\<not> windows_overlap pf1 ''a'' ''tx'' 10 None"
    by (simp add: windows_overlap_def window_end_def pf1)
  then obtain pf2 where pf2: "install_port_fault r wit_seeds 1 [pf1] ?f2 = Inr pf2"
    using wit_port_fault_installs [OF assms, of wit_seeds "''f2''" 8 10 0 "[pf1]" 1]
    by (auto simp: wit_seeds_def bt_get_def)
  have "sort_key (\<lambda>f. (fl_tai_ns f, fl_id f)) (filter (\<lambda>f. fl_target_kind f = 1) [?f2, ?f1]) = [?f1, ?f2]"
    by (simp add: wit_port_fault_def)
  then show ?thesis by (simp add: install_port_faults_def pf1(1) pf2)
qed

definition wit_message :: port_message where
  "wit_message = \<lparr>po_port = ''tx'', po_tai_ns = 0, po_payload = [1, 2]\<rparr>"

theorem one_fault_per_frame_witness:
  "\<exists>r r'. router_build wit_sos wit_systems = Inr r \<and>
     install_port_faults r [wit_port_fault ''f2'' 10 0 ''drop'', wit_port_fault ''f1'' 5 5 ''drop''] wit_seeds 1 = Inr r' \<and>
     length (filter (\<lambda>pf. fault_matches pf ''a'' ''tx'' 7)
       (rt_port_faults (router_run [Ev_Deliver ''a'' 7 []] r'))) \<le> 1"
proof -
  obtain r where r: "router_build wit_sos wit_systems = Inr r" "rt_port_kinds r (''a'', ''tx'') = Some Pk_Framed"
    using wit_router_built by blast
  obtain r' where "install_port_faults r [wit_port_fault ''f2'' 10 0 ''drop'', wit_port_fault ''f1'' 5 5 ''drop''] wit_seeds 1
      = Inr r'"
    using wit_faults_installed [OF r(2)] by blast
  with r(1) one_fault_per_frame [OF this, of 7 "''a''" "''tx''" "[Ev_Deliver ''a'' 7 []]"]
  show ?thesis by (simp add: i64_max_def)
qed

theorem router_takes_each_copy_once_witness:
  "\<exists>r r'. router_build wit_sos wit_systems = Inr r \<and> install_port_faults r [] wit_seeds 1 = Inr r' \<and>
     mset (run_received [Ev_Deliver ''a'' 7 [wit_message], Ev_Take_Inbox ''b'' 9] r') +
       image_mset arrival (pending_bag (router_run [Ev_Deliver ''a'' 7 [wit_message], Ev_Take_Inbox ''b'' 9] r')) =
     image_mset arrival (mset (run_sent [Ev_Deliver ''a'' 7 [wit_message], Ev_Take_Inbox ''b'' 9] r'))"
proof -
  obtain r where r: "router_build wit_sos wit_systems = Inr r" using wit_router_built by blast
  have i: "install_port_faults r [] wit_seeds 1 = Inr (r\<lparr>rt_port_faults := []\<rparr>)"
    by (simp add: install_port_faults_def)
  show ?thesis using r i router_takes_each_copy_once [OF r i] by blast
qed

theorem inbox_is_what_is_available_witness:
  "\<exists>r r'. router_build wit_sos wit_systems = Inr r \<and> install_port_faults r [] wit_seeds 1 = Inr r' \<and>
     mset (received ''b'' (fst (take_inbox ''b'' 9 (router_run [Ev_Deliver ''a'' 7 [wit_message]] r')))) =
     image_mset arrival (filter_mset (available ''b'' 9) (pending_bag (router_run [Ev_Deliver ''a'' 7 [wit_message]] r')))"
proof -
  obtain r where r: "router_build wit_sos wit_systems = Inr r" using wit_router_built by blast
  have i: "install_port_faults r [] wit_seeds 1 = Inr (r\<lparr>rt_port_faults := []\<rparr>)"
    by (simp add: install_port_faults_def)
  show ?thesis using r i inbox_is_what_is_available [OF r i] by blast
qed

theorem routes_are_connections_witness:
  "\<exists>r. router_build wit_sos wit_systems = Inr r \<and>
     length (rt_edges r (''a'', ''tx'')) = 1 \<and> ed_to_instance (rt_edges r (''a'', ''tx'') ! 0) = ''b''"
proof -
  obtain r where r: "router_build wit_sos wit_systems = Inr r" using wit_router_built by blast
  have "filter (\<lambda>c. cn_from_instance c = ''a'' \<and> cn_from_port c = ''tx'') (sos_connections wit_sos) =
      sos_connections wit_sos"
    by (simp add: wit_sos_def)
  with routes_are_connections [OF r, of "''a''" "''tx''"]
  obtain e where "rt_edges r (''a'', ''tx'') = [e]" "ed_to_instance e = ''b''"
    by (auto simp: wit_sos_def list_all2_Cons1)
  with r show ?thesis by simp
qed

end
