(* ===== verification/Kernel_Pacing.thy ===== *)
theory Kernel_Pacing
  imports Prelude
begin

text \<open>
  Real-time pacing: \<open>av-kernel/src/pacing.rs\<close>. The clock is the trait \<open>PacingClock\<close>: a record of its
  three operations over a clock state \<open>'c\<close>, of which every reading is a step. The production clock
  (\<open>Instant\<close>, \<open>sleep\<close>) and the conversions to the report and to events are left out.
\<close>

section \<open>State\<close>

record 'c pacing_clock =
  clk_now_ns :: "'c \<Rightarrow> i64 \<times> 'c"
  clk_sleep_until_ns :: "i64 \<Rightarrow> 'c \<Rightarrow> 'c"
  clk_unix_ns :: "'c \<Rightarrow> i64 \<times> 'c"

datatype pacing_error =
    NonPositiveBasePeriod i64
  | BasePeriodChanged i64 i64

definition overrun_histogram_upper_edges_ns :: "i64 list" where
  "overrun_histogram_upper_edges_ns = [10000, 100000, 1000000, 10000000, 100000000, 1000000000]"

record overrun_record =
  or_epoch_tai_ns :: i64
  or_overrun_ns :: i64
  or_work_ns :: i64

record pacing_stats =
  ps_base_period_ns :: i64
  ps_wall_start_unix_ns :: i64
  ps_sim_start_tai_ns :: i64
  ps_ticks_paced :: nat
  ps_overrun_count :: nat
  ps_worst_overrun_ns :: i64
  ps_worst_overrun_tai_ns :: i64
  ps_total_overrun_ns :: i64
  ps_overrun_histogram :: "nat list"
  ps_worst_work_ns :: i64
  ps_total_work_ns :: i64
  ps_final_lateness_ns :: i64

record anchor =
  an_wall_ns :: i64
  an_sim_ns :: i64
  an_unix_ns :: i64
  an_base_period_ns :: i64

record open_tick =
  ot_epoch_tai_ns :: i64
  ot_deadline_wall_ns :: i64
  ot_segment_start_wall_ns :: "i64 option"
  ot_work_ns :: i64
  ot_finish_wall_ns :: i64

record 'c pacer =
  pa_clock :: 'c
  pa_forcing_instances :: "string list"
  pa_anchor :: "anchor option"
  pa_open :: "open_tick option"
  pa_stats :: pacing_stats
  pa_overruns :: "overrun_record list"
  pa_last_finish_wall_ns :: "i64 option"
  pa_finished :: bool

section \<open>Operations\<close>

definition pacing_stats_new :: pacing_stats where
  "pacing_stats_new =
     \<lparr>ps_base_period_ns = 0, ps_wall_start_unix_ns = 0, ps_sim_start_tai_ns = 0, ps_ticks_paced = 0,
      ps_overrun_count = 0, ps_worst_overrun_ns = 0, ps_worst_overrun_tai_ns = 0, ps_total_overrun_ns = 0,
      ps_overrun_histogram = replicate (length overrun_histogram_upper_edges_ns + 1) 0, ps_worst_work_ns = 0,
      ps_total_work_ns = 0, ps_final_lateness_ns = 0\<rparr>"

definition pacer_new :: "'c \<Rightarrow> string list \<Rightarrow> 'c pacer" where
  "pacer_new c forcing =
     \<lparr>pa_clock = c, pa_forcing_instances = remdups (sort forcing), pa_anchor = None, pa_open = None,
      pa_stats = pacing_stats_new, pa_overruns = [], pa_last_finish_wall_ns = None, pa_finished = False\<rparr>"

definition pacer_now :: "'c pacing_clock \<Rightarrow> 'c pacer \<Rightarrow> i64 \<times> 'c pacer" where
  "pacer_now clk p = (let (t, c) = clk_now_ns clk (pa_clock p) in (t, p\<lparr>pa_clock := c\<rparr>))"

definition begin_run :: "'c pacing_clock \<Rightarrow> i64 \<Rightarrow> i64 \<Rightarrow> 'c pacer \<Rightarrow> pacing_error + 'c pacer" where
  "begin_run clk start base p =
     (if base \<le> 0 then Inl (NonPositiveBasePeriod base)
      else case pa_anchor p of
        Some a \<Rightarrow>
          (if an_base_period_ns a \<noteq> base then Inl (BasePeriodChanged (an_base_period_ns a) base) else Inr p)
      | None \<Rightarrow>
          (let (wall, p) = pacer_now clk p;
               (unix, c) = clk_unix_ns clk (pa_clock p)
           in Inr (p\<lparr>pa_clock := c,
                pa_anchor := Some \<lparr>an_wall_ns = wall, an_sim_ns = start, an_unix_ns = unix, an_base_period_ns = base\<rparr>,
                pa_stats := (pa_stats p)\<lparr>ps_base_period_ns := base, ps_wall_start_unix_ns := unix,
                  ps_sim_start_tai_ns := start\<rparr>\<rparr>)))"

definition wall_for :: "'c pacer \<Rightarrow> i64 \<Rightarrow> i64 option" where
  "wall_for p t = map_option (\<lambda>a. wrap_i64 (an_wall_ns a + wrap_i64 (t - an_sim_ns a))) (pa_anchor p)"

definition close_segment :: "'c pacing_clock \<Rightarrow> 'c pacer \<Rightarrow> 'c pacer" where
  "close_segment clk p =
     (let (now, p) = pacer_now clk p in
      case pa_open p of
        None \<Rightarrow> p
      | Some tk \<Rightarrow>
          (case ot_segment_start_wall_ns tk of
             None \<Rightarrow> p
           | Some s \<Rightarrow>
               p\<lparr>pa_open := Some (tk\<lparr>ot_segment_start_wall_ns := None,
                  ot_work_ns := wrap_i64 (ot_work_ns tk + wrap_i64 (now - s)), ot_finish_wall_ns := now\<rparr>)\<rparr>))"

definition histogram_bucket :: "i64 \<Rightarrow> nat" where
  "histogram_bucket overrun = length (takeWhile (\<lambda>edge. \<not> overrun \<le> edge) overrun_histogram_upper_edges_ns)"

definition count_overrun :: "open_tick \<Rightarrow> i64 \<Rightarrow> pacing_stats \<Rightarrow> pacing_stats" where
  "count_overrun tk overrun s =
     (let s = s\<lparr>ps_overrun_count := ps_overrun_count s + 1,
                ps_total_overrun_ns := wrap_i64 (ps_total_overrun_ns s + overrun),
                ps_overrun_histogram := (let h = ps_overrun_histogram s; b = histogram_bucket overrun in h[b := h ! b + 1])\<rparr>
      in if overrun > ps_worst_overrun_ns s
         then s\<lparr>ps_worst_overrun_ns := overrun, ps_worst_overrun_tai_ns := ot_epoch_tai_ns tk\<rparr> else s)"

definition commit_open :: "'c pacer \<Rightarrow> 'c pacer" where
  "commit_open p =
     (case pa_open p of
        None \<Rightarrow> p
      | Some tk \<Rightarrow>
          (let s = pa_stats p;
               s = s\<lparr>ps_ticks_paced := ps_ticks_paced s + 1,
                     ps_total_work_ns := wrap_i64 (ps_total_work_ns s + ot_work_ns tk),
                     ps_worst_work_ns := max (ps_worst_work_ns s) (ot_work_ns tk)\<rparr>;
               overrun = wrap_i64 (ot_finish_wall_ns tk - ot_deadline_wall_ns tk);
               p = p\<lparr>pa_open := None, pa_last_finish_wall_ns := Some (ot_finish_wall_ns tk)\<rparr>
           in if overrun > 0
              then p\<lparr>pa_stats := count_overrun tk overrun s,
                     pa_overruns := pa_overruns p @
                       [\<lparr>or_epoch_tai_ns = ot_epoch_tai_ns tk, or_overrun_ns = overrun, or_work_ns = ot_work_ns tk\<rparr>]\<rparr>
              else p\<lparr>pa_stats := s\<rparr>))"

definition release_wall :: "anchor \<Rightarrow> i64 \<Rightarrow> i64" where
  "release_wall a epoch =
     wrap_i64 (an_wall_ns a + wrap_i64 (wrap_i64 (epoch - an_base_period_ns a) - an_sim_ns a))"

definition deadline_wall :: "anchor \<Rightarrow> i64 \<Rightarrow> i64" where
  "deadline_wall a epoch = wrap_i64 (an_wall_ns a + wrap_i64 (epoch - an_sim_ns a))"

definition wait_until :: "'c pacing_clock \<Rightarrow> i64 \<Rightarrow> 'c pacer \<Rightarrow> 'c pacer" where
  "wait_until clk wall p =
     (let (now, p) = pacer_now clk p in
      if now < wall then p\<lparr>pa_clock := clk_sleep_until_ns clk wall (pa_clock p)\<rparr> else p)"

text \<open>None is the panic of a pacer that was not begun.\<close>

definition open_new_tick :: "'c pacing_clock \<Rightarrow> anchor \<Rightarrow> i64 \<Rightarrow> 'c pacer \<Rightarrow> 'c pacer" where
  "open_new_tick clk a epoch p =
     (let p = wait_until clk (release_wall a epoch) (commit_open (close_segment clk p));
          (now, p) = pacer_now clk p
      in p\<lparr>pa_open := Some \<lparr>ot_epoch_tai_ns = epoch, ot_deadline_wall_ns = deadline_wall a epoch,
           ot_segment_start_wall_ns = Some now, ot_work_ns = 0, ot_finish_wall_ns = now\<rparr>\<rparr>)"

definition begin_tick :: "'c pacing_clock \<Rightarrow> i64 \<Rightarrow> 'c pacer \<Rightarrow> 'c pacer option" where
  "begin_tick clk epoch p =
     (case pa_anchor p of
        None \<Rightarrow> None
      | Some a \<Rightarrow>
          (case pa_open p of
             Some tk \<Rightarrow>
               if epoch \<le> ot_epoch_tai_ns tk then
                 (if ot_segment_start_wall_ns tk = None
                  then (let (now, p) = pacer_now clk p in
                        Some (p\<lparr>pa_open := Some (tk\<lparr>ot_segment_start_wall_ns := Some now\<rparr>)\<rparr>))
                  else Some p)
               else Some (open_new_tick clk a epoch p)
           | None \<Rightarrow> Some (open_new_tick clk a epoch p)))"

definition end_tick :: "'c pacing_clock \<Rightarrow> 'c pacer \<Rightarrow> 'c pacer" where
  "end_tick clk p = close_segment clk p"

definition finish_run :: "'c pacing_clock \<Rightarrow> i64 \<Rightarrow> 'c pacer \<Rightarrow> (pacing_stats \<times> 'c pacer) option" where
  "finish_run clk end_tai_ns p =
     (case pa_anchor p of
        None \<Rightarrow> None
      | Some a \<Rightarrow>
          (if pa_finished p then Some (pa_stats p, p)
           else
             let p = commit_open (close_segment clk p);
                 end_wall = deadline_wall a end_tai_ns;
                 p = p\<lparr>pa_stats := (pa_stats p)\<lparr>ps_final_lateness_ns :=
                       (case pa_last_finish_wall_ns p of None \<Rightarrow> 0 | Some f \<Rightarrow> max (wrap_i64 (f - end_wall)) 0)\<rparr>\<rparr>;
                 p = (wait_until clk end_wall p)\<lparr>pa_finished := True\<rparr>
             in Some (pa_stats p, p)))"

section \<open>The statistics are the records\<close>

definition bucket_count :: "overrun_record list \<Rightarrow> nat \<Rightarrow> nat" where
  "bucket_count os b = length (filter (\<lambda>x. histogram_bucket (or_overrun_ns x) = b) os)"

text \<open>
  Every overrun is counted, recorded and in its bucket once; the worst is the largest recorded, and
  the total is their sum in 64 bits.
\<close>

definition pacer_inv :: "'c pacer \<Rightarrow> bool" where
  "pacer_inv p \<longleftrightarrow>
     ps_overrun_count (pa_stats p) = length (pa_overruns p) \<and>
     ps_overrun_count (pa_stats p) \<le> ps_ticks_paced (pa_stats p) \<and>
     ps_overrun_histogram (pa_stats p) = map (bucket_count (pa_overruns p)) [0..<7] \<and>
     ps_worst_overrun_ns (pa_stats p) = foldl max 0 (map or_overrun_ns (pa_overruns p)) \<and>
     ps_total_overrun_ns (pa_stats p) = wrap_i64 (sum_list (map or_overrun_ns (pa_overruns p))) \<and>
     list_all (\<lambda>x. 0 < or_overrun_ns x) (pa_overruns p)"

lemma length_edges: "length overrun_histogram_upper_edges_ns = 6"
  by (simp add: overrun_histogram_upper_edges_ns_def)

lemma histogram_bucket_bound: "histogram_bucket x < 7"
proof -
  have "histogram_bucket x \<le> 6"
    unfolding histogram_bucket_def length_edges [symmetric] by (rule length_takeWhile_le)
  then show ?thesis by simp
qed

lemma bucket_count_append:
  "(map (bucket_count os) [0..<7])[b := map (bucket_count os) [0..<7] ! b + 1] = map (bucket_count (os @ [x])) [0..<7]"
  if "b = histogram_bucket (or_overrun_ns x)"
  using histogram_bucket_bound [of "or_overrun_ns x"] that
  by (intro nth_equalityI) (auto simp: bucket_count_def nth_list_update)

lemma wrap_i64_add_wrap [simp]: "wrap_i64 (wrap_i64 a + b) = wrap_i64 (a + b)"
  by (simp add: wrap_i64_def) (metis (no_types, opaque_lifting) add.assoc add.commute mod_add_left_eq diff_add_cancel)

lemma foldl_max_append: "foldl max (a::int) (xs @ [x]) = max (foldl max a xs) x"
  by simp

lemma count_overrun_simps [simp]:
  "ps_overrun_count (count_overrun tk x s) = ps_overrun_count s + 1"
  "ps_ticks_paced (count_overrun tk x s) = ps_ticks_paced s"
  "ps_total_overrun_ns (count_overrun tk x s) = wrap_i64 (ps_total_overrun_ns s + x)"
  "ps_worst_overrun_ns (count_overrun tk x s) = max (ps_worst_overrun_ns s) x"
  "ps_overrun_histogram (count_overrun tk x s) =
     (ps_overrun_histogram s)[histogram_bucket x := ps_overrun_histogram s ! histogram_bucket x + 1]"
  by (simp_all add: count_overrun_def Let_def max_def)

lemma commit_open_inv:
  assumes "pacer_inv p"
  shows "pacer_inv (commit_open p)"
proof (cases "pa_open p")
  case None
  then show ?thesis using assms by (simp add: commit_open_def)
next
  case (Some tk)
  define x where "x = wrap_i64 (ot_finish_wall_ns tk - ot_deadline_wall_ns tk)"
  define r where "r = \<lparr>or_epoch_tai_ns = ot_epoch_tai_ns tk, or_overrun_ns = x, or_work_ns = ot_work_ns tk\<rparr>"
  show ?thesis
  proof (cases "x > 0")
    case True
    have "(map (bucket_count (pa_overruns p)) [0..<7])[histogram_bucket x :=
        map (bucket_count (pa_overruns p)) [0..<7] ! histogram_bucket x + 1] =
      map (bucket_count (pa_overruns p @ [r])) [0..<7]"
      by (rule bucket_count_append) (simp add: r_def)
    then show ?thesis using assms True
      unfolding commit_open_def Some option.case Let_def x_def [symmetric] r_def [symmetric]
      by (simp add: pacer_inv_def r_def del: upt_rec_numeral)
  next
    case False
    then show ?thesis using assms
      unfolding commit_open_def Some option.case Let_def x_def [symmetric]
      by (simp add: pacer_inv_def)
  qed
qed

lemma pacer_inv_cong:
  "pa_stats p = pa_stats q \<Longrightarrow> pa_overruns p = pa_overruns q \<Longrightarrow> pacer_inv p = pacer_inv q"
  by (simp add: pacer_inv_def)

lemma pacer_now_simps [simp]:
  "pa_stats (snd (pacer_now clk p)) = pa_stats p"
  "pa_overruns (snd (pacer_now clk p)) = pa_overruns p"
  "pa_anchor (snd (pacer_now clk p)) = pa_anchor p"
  "pa_open (snd (pacer_now clk p)) = pa_open p"
  by (simp_all add: pacer_now_def case_prod_unfold Let_def)

lemma close_segment_simps [simp]:
  "pa_stats (close_segment clk p) = pa_stats p"
  "pa_overruns (close_segment clk p) = pa_overruns p"
  "pa_anchor (close_segment clk p) = pa_anchor p"
  by (simp_all add: close_segment_def case_prod_unfold Let_def split: option.split)

lemma wait_until_simps [simp]:
  "pa_stats (wait_until clk w p) = pa_stats p"
  "pa_overruns (wait_until clk w p) = pa_overruns p"
  "pa_anchor (wait_until clk w p) = pa_anchor p"
  by (simp_all add: wait_until_def case_prod_unfold Let_def)

lemma commit_open_anchor [simp]: "pa_anchor (commit_open p) = pa_anchor p"
  by (simp add: commit_open_def Let_def split: option.split)

lemma close_segment_inv: "pacer_inv p \<Longrightarrow> pacer_inv (close_segment clk p)"
  by (simp add: pacer_inv_cong [of "close_segment clk p" p])

lemma wait_until_inv: "pacer_inv p \<Longrightarrow> pacer_inv (wait_until clk w p)"
  by (simp add: pacer_inv_cong [of "wait_until clk w p" p])

lemma open_new_tick_inv:
  assumes "pacer_inv p"
  shows "pacer_inv (open_new_tick clk a epoch p)"
proof -
  have "pacer_inv (wait_until clk (release_wall a epoch) (commit_open (close_segment clk p)))"
    by (intro wait_until_inv commit_open_inv close_segment_inv assms)
  then show ?thesis
    by (rule iffD1 [OF pacer_inv_cong, rotated 2]) (simp_all add: open_new_tick_def Let_def case_prod_unfold)
qed

lemma begin_tick_inv:
  assumes "begin_tick clk epoch p = Some q" and "pacer_inv p"
  shows "pacer_inv q"
  using assms open_new_tick_inv [OF assms(2)]
  by (auto simp: begin_tick_def case_prod_unfold Let_def pacer_inv_def
      split: option.splits if_splits)

lemma begin_tick_anchor: "begin_tick clk epoch p = Some q \<Longrightarrow> pa_anchor q = pa_anchor p"
  by (auto simp: begin_tick_def open_new_tick_def case_prod_unfold Let_def split: option.splits if_splits)

lemma begin_tick_runs: "pa_anchor p \<noteq> None \<Longrightarrow> \<exists>q. begin_tick clk epoch p = Some q \<and> pa_anchor q \<noteq> None"
  by (auto simp: begin_tick_def open_new_tick_def case_prod_unfold Let_def split: option.splits)

lemma end_tick_anchor [simp]: "pa_anchor (end_tick clk p) = pa_anchor p"
  by (simp add: end_tick_def)

lemma begin_run_inv:
  assumes "begin_run clk start base p = Inr q" and "pacer_inv p"
  shows "pacer_inv q"
  using assms
  by (auto simp: begin_run_def case_prod_unfold Let_def pacer_inv_def split: option.splits if_splits)

lemma begin_run_anchor: "begin_run clk start base p = Inr q \<Longrightarrow> pa_anchor q \<noteq> None"
  by (auto simp: begin_run_def case_prod_unfold Let_def split: option.splits if_splits)

lemma begin_run_anchored: 
  "pa_anchor p = Some a \<Longrightarrow> begin_run clk start base p = Inr q \<Longrightarrow> q = p \<and> an_base_period_ns a = base"
  by (auto simp: begin_run_def split: if_splits)

lemma finish_run_inv:
  assumes "finish_run clk t p = Some (s, q)" and "pacer_inv p"
  shows "pacer_inv q \<and> s = pa_stats q"
proof -
  have "pacer_inv (commit_open (close_segment clk p))"
    by (intro commit_open_inv close_segment_inv assms)
  then show ?thesis using assms
    by (auto simp: finish_run_def Let_def pacer_inv_def split: option.splits if_splits)
qed

section \<open>Runs of a pacer\<close>

datatype pacer_event = Pe_Begin_Run i64 i64 | Pe_Begin_Tick i64 | Pe_End_Tick | Pe_Finish i64

fun pacer_event_step :: "'c pacing_clock \<Rightarrow> pacer_event \<Rightarrow> 'c pacer \<Rightarrow> 'c pacer option" where
  "pacer_event_step clk (Pe_Begin_Run s b) p = (case begin_run clk s b p of Inl e \<Rightarrow> Some p | Inr q \<Rightarrow> Some q)"
| "pacer_event_step clk (Pe_Begin_Tick t) p = begin_tick clk t p"
| "pacer_event_step clk Pe_End_Tick p = Some (end_tick clk p)"
| "pacer_event_step clk (Pe_Finish t) p = map_option snd (finish_run clk t p)"

primrec pacer_run :: "'c pacing_clock \<Rightarrow> pacer_event list \<Rightarrow> 'c pacer \<Rightarrow> 'c pacer option" where
  "pacer_run clk [] p = Some p"
| "pacer_run clk (e # es) p = (case pacer_event_step clk e p of None \<Rightarrow> None | Some q \<Rightarrow> pacer_run clk es q)"

lemma pacer_event_step_inv: "pacer_event_step clk e p = Some q \<Longrightarrow> pacer_inv p \<Longrightarrow> pacer_inv q"
proof (cases e)
  case (Pe_Begin_Run s b)
  then show "pacer_event_step clk e p = Some q \<Longrightarrow> pacer_inv p \<Longrightarrow> pacer_inv q"
    by (auto split: sum.splits intro: begin_run_inv)
qed (auto intro: begin_tick_inv close_segment_inv simp: end_tick_def dest: finish_run_inv)

lemma pacer_new_inv: "pacer_inv (pacer_new c fs)"
  by (simp add: pacer_inv_def pacer_new_def pacing_stats_new_def length_edges bucket_count_def numeral_eq_Suc wrap_i64_def
      del: replicate.simps) (simp add: numeral_eq_Suc)

lemma pacer_run_inv: "pacer_run clk es q = Some p \<Longrightarrow> pacer_inv q \<Longrightarrow> pacer_inv p"
proof (induction es arbitrary: q)
  case Nil
  then show ?case by simp
next
  case (Cons e es)
  then obtain q' where q': "pacer_event_step clk e q = Some q'" "pacer_run clk es q' = Some p"
    by (auto split: option.splits)
  show ?case by (rule Cons.IH [OF q'(2) pacer_event_step_inv [OF q'(1) Cons.prems(2)]])
qed

text \<open>
  C30: (no overrun is lost) whatever the clock reads and in whatever order a pacer is driven, its
  count of overruns is the number of records, each bucket of its histogram the number of records
  that fall in it, its worst the largest and its total the 64-bit sum of them.
\<close>

theorem overruns_are_all_counted:
  assumes "pacer_run clk es (pacer_new c forcing) = Some p"
  shows "pacer_inv p"
  using pacer_run_inv [OF assms pacer_new_inv] .

text \<open>A clock that reads 3 more each time and overshoots nothing.\<close>

definition wit_clock :: "int pacing_clock" where
  "wit_clock = \<lparr>clk_now_ns = (\<lambda>c. (c, c + 3)), clk_sleep_until_ns = max, clk_unix_ns = (\<lambda>c. (c, c))\<rparr>"

theorem overruns_are_all_counted_witness:
  "\<exists>p. pacer_run wit_clock [Pe_Begin_Run 0 10, Pe_Begin_Tick 10, Pe_End_Tick, Pe_Finish 10] (pacer_new 0 [''b'']) = Some p \<and>
     pacer_inv p"
proof -
  have "pacer_run wit_clock [Pe_Begin_Run 0 10, Pe_Begin_Tick 10, Pe_End_Tick, Pe_Finish 10] (pacer_new 0 [''b'']) \<noteq> None"
    by code_simp
  then obtain p where "pacer_run wit_clock [Pe_Begin_Run 0 10, Pe_Begin_Tick 10, Pe_End_Tick, Pe_Finish 10]
      (pacer_new 0 [''b'']) = Some p" by blast
  with overruns_are_all_counted [OF this] show ?thesis by blast
qed

end
