(* ===== verification/Kernel_Schedule.thy ===== *)
theory Kernel_Schedule
  imports Kernel_Router Kernel_Pacing
begin

text \<open>
  The scheduler of heterogeneous systems, \<open>av-kernel/src/schedule.rs\<close>, over the trait
  \<open>DynamicsModel\<close> of \<open>av-dynamics/src/lib.rs\<close>. A model is a state \<open>'m\<close> and the trait a record of
  the operations the scheduler calls; interior mutability of a model is the state it returns. The
  controls are always empty and left out. Partly updated systems of a failed call are not kept.
\<close>

section \<open>The trait\<close>

record step_result =
  sr_state :: "f64 list"
  sr_t_tai_ns :: i64
  sr_outputs :: "(string, f64) btree"

record applied_command =
  ac_port :: string
  ac_field :: string
  ac_value :: f64
  ac_applied_tai_ns :: i64

record sensor_fault_effect_drain =
  sfd_first_effect_tai_ns :: i64
  sfd_frames_affected :: u64

record pb_measurement = measurement +
  me_meta :: "(string, string) btree"

record model_info =
  mi_id :: string
  mi_settings_hash :: string
  mi_depth :: string
  mi_state_space_id :: string
  mi_frame_id :: string

record ('m, 'e) dynamics =
  dy_describe :: "'m \<Rightarrow> model_info"
  dy_state_dim :: "'m \<Rightarrow> nat"
  dy_step :: "'m \<Rightarrow> f64 list \<Rightarrow> i64 \<Rightarrow> i64 \<Rightarrow> 'e + (step_result \<times> 'm)"
  dy_step_with_ports ::
    "'m \<Rightarrow> f64 list \<Rightarrow> i64 \<Rightarrow> i64 \<Rightarrow> inbox \<Rightarrow> 'e + (step_result \<times> port_message list \<times> applied_command list \<times> 'm)"
  dy_last_measurements :: "'m \<Rightarrow> pb_measurement list"
  dy_drain_sensor_fault_effect :: "'m \<Rightarrow> sensor_fault_effect_drain option \<times> 'm"
  dy_drain_decode_errors :: "'m \<Rightarrow> decode_error_occurrence list \<times> 'm"

section \<open>State\<close>

type_synonym named_output_series = "(string, i64 list \<times> f64 list) btree"

record applied_port_command =
  apc_instance :: string
  apc_port :: string
  apc_field :: string
  apc_value :: f64
  apc_applied_tai_ns :: i64
  apc_sender :: "string option"

record decode_error_record =
  der_instance :: string
  der_port :: string
  der_tai_ns :: i64
  der_sequence_count :: "u16 option"
  der_error :: string

record decode_success_record =
  dsr_instance :: string
  dsr_port :: string
  dsr_tai_ns :: i64

record 'm hetero_system =
  hs_period_ns :: i64
  hs_model :: 'm
  hs_next_due_ns :: i64
  hs_prev :: "(i64 \<times> f64 list) option"
  hs_curr :: "i64 \<times> f64 list"
  hs_outputs :: named_output_series
  hs_applied_commands :: "applied_port_command list"
  hs_measurements :: "pb_measurement list"
  hs_sensor_fault_effect :: "i64 option \<times> u64"
  hs_decode_errors :: "decode_error_record list"
  hs_decode_successes :: "decode_success_record list"

type_synonym 'm hetero_systems = "(string, 'm hetero_system) btree"

datatype 'e schedule_error =
    Sched_Model 'e
  | Sched_UnknownSystem string
  | Sched_OutOfRange string i64 i64 i64
  | Sched_Panic

datatype sample_kind = Native "f64 list" | Between i64 "f64 list" i64 "f64 list"
datatype hold_kind = Fresh | Held

section \<open>Operations\<close>

definition record_output :: "i64 \<Rightarrow> string \<times> f64 \<Rightarrow> named_output_series \<Rightarrow> named_output_series" where
  "record_output t e series =
     (let (es, vs) = (case bt_get series (fst e) of Some s \<Rightarrow> s | None \<Rightarrow> ([], [])) in
      bt_insert (fst e) (es @ [t], vs @ [snd e]) series)"

definition record_outputs :: "named_output_series \<Rightarrow> i64 \<Rightarrow> (string, f64) btree \<Rightarrow> named_output_series" where
  "record_outputs series t produced = fold (record_output t) produced series"

text \<open>None is the panic of a period that is not positive.\<close>

definition hetero_register ::
  "string \<Rightarrow> i64 \<Rightarrow> 'm \<Rightarrow> i64 \<Rightarrow> f64 list \<Rightarrow> 'm hetero_systems \<Rightarrow> 'm hetero_systems option" where
  "hetero_register i period m t0 initial sys =
     (if period \<le> 0 then None
      else Some (bt_insert i
        \<lparr>hs_period_ns = period, hs_model = m, hs_next_due_ns = wrap_i64 (t0 + period), hs_prev = None,
         hs_curr = (t0, initial), hs_outputs = [], hs_applied_commands = [], hs_measurements = [],
         hs_sensor_fault_effect = (None, 0), hs_decode_errors = [], hs_decode_successes = []\<rparr> sys))"

definition catch_up_eligible :: "('m, 'e) dynamics \<Rightarrow> i64 \<Rightarrow> 'm hetero_system \<Rightarrow> bool" where
  "catch_up_eligible dy target s =
     (if dy_state_dim dy (hs_model s) = 0 then hs_next_due_ns s \<le> target else fst (hs_curr s) < target)"

definition next_time :: "('m, 'e) dynamics \<Rightarrow> i64 \<Rightarrow> 'm hetero_systems \<Rightarrow> i64 option" where
  "next_time dy target sys =
     (case map hs_next_due_ns (filter (catch_up_eligible dy target) (bt_values sys)) of
        [] \<Rightarrow> None
      | x # xs \<Rightarrow> Some (foldl min x xs))"

definition applied_port_commands :: "string \<Rightarrow> inbox \<Rightarrow> applied_command list \<Rightarrow> applied_port_command list" where
  "applied_port_commands i ib cmds =
     map (\<lambda>c. \<lparr>apc_instance = i, apc_port = ac_port c, apc_field = ac_field c, apc_value = ac_value c,
        apc_applied_tai_ns = ac_applied_tai_ns c,
        apc_sender = (case last_on_port (ac_port c) ib of None \<Rightarrow> None | Some (m, s) \<Rightarrow> s)\<rparr>) cmds"

definition stamp_measurement :: "string \<Rightarrow> pb_measurement \<Rightarrow> pb_measurement" where
  "stamp_measurement i m = m\<lparr>me_sensor_id := i, me_meta := bt_insert ''decoded_at'' i (me_meta m)\<rparr>"

definition add_sensor_fault_effect ::
  "sensor_fault_effect_drain option \<Rightarrow> i64 option \<times> u64 \<Rightarrow> i64 option \<times> u64" where
  "add_sensor_fault_effect d acc =
     (case d of
        None \<Rightarrow> acc
      | Some d \<Rightarrow>
          (if sfd_frames_affected d > 0
           then Some (case fst acc of None \<Rightarrow> sfd_first_effect_tai_ns d | Some e \<Rightarrow> min e (sfd_first_effect_tai_ns d))
           else fst acc,
           snd acc + sfd_frames_affected d))"

definition decode_error_record_of :: "string \<Rightarrow> decode_error_occurrence \<Rightarrow> decode_error_record" where
  "decode_error_record_of i d =
     \<lparr>der_instance = i, der_port = deo_port d, der_tai_ns = deo_tai_ns d,
      der_sequence_count = deo_sequence_count d, der_error = deo_error d\<rparr>"

text \<open>One success for each port of the inbox no decode failed on, with the epoch of its last message.\<close>

primrec decode_successes_of ::
  "string \<Rightarrow> inbox \<Rightarrow> string set \<Rightarrow> string set \<Rightarrow> port_message list \<Rightarrow> decode_success_record list" where
  "decode_successes_of i ib failed checked [] = []"
| "decode_successes_of i ib failed checked (m # ms) =
     (if po_port m \<in> checked then decode_successes_of i ib failed checked ms
      else if po_port m \<in> failed then decode_successes_of i ib failed (insert (po_port m) checked) ms
      else (case last_on_port (po_port m) ib of
              None \<Rightarrow> []
            | Some (l, s) \<Rightarrow> [\<lparr>dsr_instance = i, dsr_port = po_port m, dsr_tai_ns = po_tai_ns l\<rparr>])
           @ decode_successes_of i ib failed (insert (po_port m) checked) ms)"

text \<open>The body of the inner loop for one due system: its inbox, its step, its records, its outbox.\<close>

definition absorb_step ::
  "('m, 'e) dynamics \<Rightarrow> string \<Rightarrow> inbox \<Rightarrow> step_result \<Rightarrow> applied_command list \<Rightarrow> 'm \<Rightarrow> 'm hetero_system \<Rightarrow> 'm hetero_system" where
  "absorb_step dy i ib result applied m s =
     (let ms = map (stamp_measurement i) (dy_last_measurements dy m);
          (drain, m) = dy_drain_sensor_fault_effect dy m;
          (errors, m) = dy_drain_decode_errors dy m
      in s\<lparr>hs_model := m,
           hs_outputs := record_outputs (hs_outputs s) (sr_t_tai_ns result) (sr_outputs result),
           hs_applied_commands := hs_applied_commands s @ applied_port_commands i ib applied,
           hs_measurements := hs_measurements s @ ms,
           hs_sensor_fault_effect := add_sensor_fault_effect drain (hs_sensor_fault_effect s),
           hs_decode_errors := hs_decode_errors s @ map (decode_error_record_of i) errors,
           hs_decode_successes := hs_decode_successes s @
             decode_successes_of i ib (deo_port ` set errors) {} (ib_messages ib),
           hs_prev := Some (hs_curr s),
           hs_curr := (sr_t_tai_ns result, sr_state result),
           hs_next_due_ns := wrap_i64 (hs_next_due_ns s + hs_period_ns s)\<rparr>)"

definition step_due ::
  "('m, 'e) dynamics \<Rightarrow> i64 \<Rightarrow> string \<Rightarrow> 'm hetero_system \<Rightarrow> router \<Rightarrow> 'e schedule_error + ('m hetero_system \<times> router)" where
  "step_due dy t i s r =
     (let (ib, r) = take_inbox i t r in
      case dy_step_with_ports dy (hs_model s) (snd (hs_curr s)) (fst (hs_curr s)) (hs_period_ns s) ib of
        Inl e \<Rightarrow> Inl (Sched_Model e)
      | Inr (result, outbox, applied, m) \<Rightarrow>
          Inr (absorb_step dy i ib result applied m s, deliver i (sr_t_tai_ns result) outbox r))"

primrec step_all_due ::
  "('m, 'e) dynamics \<Rightarrow> i64 \<Rightarrow> i64 \<Rightarrow> 'm hetero_systems \<Rightarrow> router \<Rightarrow> 'e schedule_error + ('m hetero_systems \<times> router)" where
  "step_all_due dy target t [] r = Inr ([], r)"
| "step_all_due dy target t (e # es) r =
     (if hs_next_due_ns (snd e) \<noteq> t \<or> \<not> catch_up_eligible dy target (snd e)
      then ebind (step_all_due dy target t es r) (\<lambda>(es', r'). Inr (e # es', r'))
      else ebind (step_due dy t (fst e) (snd e) r) (\<lambda>(s', r').
             ebind (step_all_due dy target t es r') (\<lambda>(es', r'). Inr ((fst e, s') # es', r'))))"

definition pace_begin :: "'c pacing_clock \<Rightarrow> i64 \<Rightarrow> 'c pacer option \<Rightarrow> 'c pacer option option" where
  "pace_begin clk epoch p = (case p of None \<Rightarrow> Some None | Some q \<Rightarrow> map_option Some (begin_tick clk epoch q))"

definition pace_end :: "'c pacing_clock \<Rightarrow> 'c pacer option \<Rightarrow> 'c pacer option" where
  "pace_end clk p = map_option (end_tick clk) p"

text \<open>The outer loop; it may run for ever, which is None.\<close>

partial_function (option) advance_to_with_ports_paced ::
  "('m, 'e) dynamics \<Rightarrow> 'c pacing_clock \<Rightarrow> i64 \<Rightarrow> 'm hetero_systems \<Rightarrow> router \<Rightarrow> 'c pacer option
     \<Rightarrow> ('e schedule_error + ('m hetero_systems \<times> router \<times> 'c pacer option)) option" where
  "advance_to_with_ports_paced dy clk target sys r p =
     (case next_time dy target sys of
        None \<Rightarrow> Some (Inr (sys, r, p))
      | Some t \<Rightarrow>
          (case pace_begin clk (min t target) p of
             None \<Rightarrow> Some (Inl Sched_Panic)
           | Some p' \<Rightarrow>
               (case step_all_due dy target t sys r of
                  Inl e \<Rightarrow> Some (Inl e)
                | Inr sr \<Rightarrow> advance_to_with_ports_paced dy clk target (fst sr) (snd sr) (pace_end clk p'))))"

definition no_pacing :: "unit pacing_clock" where
  "no_pacing = \<lparr>clk_now_ns = (\<lambda>c. (0, c)), clk_sleep_until_ns = (\<lambda>t c. c), clk_unix_ns = (\<lambda>c. (0, c))\<rparr>"

definition advance_to_with_ports ::
  "('m, 'e) dynamics \<Rightarrow> i64 \<Rightarrow> 'm hetero_systems \<Rightarrow> router
     \<Rightarrow> ('e schedule_error + ('m hetero_systems \<times> router \<times> unit pacer option)) option" where
  "advance_to_with_ports dy target sys r = advance_to_with_ports_paced dy no_pacing target sys r None"

text \<open>\<open>advance_to\<close>, without ports: each system on its own up to the target.\<close>

partial_function (option) catch_up ::
  "('m, 'e) dynamics \<Rightarrow> i64 \<Rightarrow> 'm hetero_system \<Rightarrow> ('e schedule_error + 'm hetero_system) option" where
  "catch_up dy target s =
     (if fst (hs_curr s) < target then
        (case dy_step dy (hs_model s) (snd (hs_curr s)) (fst (hs_curr s)) (hs_period_ns s) of
           Inl e \<Rightarrow> Some (Inl (Sched_Model e))
         | Inr rm \<Rightarrow>
             catch_up dy target
               (s\<lparr>hs_model := snd rm,
                  hs_outputs := record_outputs (hs_outputs s) (sr_t_tai_ns (fst rm)) (sr_outputs (fst rm)),
                  hs_prev := Some (hs_curr s),
                  hs_curr := (sr_t_tai_ns (fst rm), sr_state (fst rm)),
                  hs_next_due_ns := wrap_i64 (hs_next_due_ns s + hs_period_ns s)\<rparr>))
      else Some (Inr s))"

declare advance_to_with_ports_paced.simps [code] catch_up.simps [code]

primrec hetero_advance_to ::
  "('m, 'e) dynamics \<Rightarrow> i64 \<Rightarrow> 'm hetero_systems \<Rightarrow> ('e schedule_error + 'm hetero_systems) option" where
  "hetero_advance_to dy target [] = Some (Inr [])"
| "hetero_advance_to dy target (e # es) =
     Option.bind (catch_up dy target (snd e)) (\<lambda>x. case x of
       Inl err \<Rightarrow> Some (Inl err)
     | Inr s \<Rightarrow> Option.bind (hetero_advance_to dy target es) (\<lambda>y. case y of
         Inl err \<Rightarrow> Some (Inl err) | Inr es' \<Rightarrow> Some (Inr ((fst e, s) # es'))))"

definition sample_of :: "string \<Rightarrow> i64 \<Rightarrow> 'm hetero_system \<Rightarrow> 'e schedule_error + sample_kind" where
  "sample_of i t s =
     (if t = fst (hs_curr s) then Inr (Native (snd (hs_curr s)))
      else case hs_prev s of
        None \<Rightarrow> Inl (Sched_OutOfRange i t (fst (hs_curr s)) (fst (hs_curr s)))
      | Some p \<Rightarrow>
          if fst p \<le> t \<and> t \<le> fst (hs_curr s)
          then (if t = fst p then Inr (Native (snd p))
                else Inr (Between (fst p) (snd p) (fst (hs_curr s)) (snd (hs_curr s))))
          else Inl (Sched_OutOfRange i t (fst p) (fst (hs_curr s))))"

definition hetero_sample_kind :: "'m hetero_systems \<Rightarrow> string \<Rightarrow> i64 \<Rightarrow> 'e schedule_error + sample_kind" where
  "hetero_sample_kind sys i t = ebind (ok_or (Sched_UnknownSystem i) (bt_get sys i)) (sample_of i t)"

definition held_sample_of :: "string \<Rightarrow> i64 \<Rightarrow> 'm hetero_system \<Rightarrow> 'e schedule_error + (hold_kind \<times> f64 list)" where
  "held_sample_of i t s =
     (if t < fst (hs_curr s) then Inl (Sched_OutOfRange i t (fst (hs_curr s)) (fst (hs_curr s)))
      else Inr (if t = fst (hs_curr s) then Fresh else Held, snd (hs_curr s)))"

definition hetero_sample_held ::
  "'m hetero_systems \<Rightarrow> string \<Rightarrow> i64 \<Rightarrow> 'e schedule_error + (hold_kind \<times> f64 list)" where
  "hetero_sample_held sys i t = ebind (ok_or (Sched_UnknownSystem i) (bt_get sys i)) (held_sample_of i t)"

definition hetero_sensor_fault_effect :: "'m hetero_systems \<Rightarrow> string \<Rightarrow> sensor_fault_effect_drain option" where
  "hetero_sensor_fault_effect sys i =
     (case bt_get sys i of
        None \<Rightarrow> None
      | Some s \<Rightarrow>
          (if snd (hs_sensor_fault_effect s) = 0 then None
           else map_option (\<lambda>t. \<lparr>sfd_first_effect_tai_ns = t, sfd_frames_affected = snd (hs_sensor_fault_effect s)\<rparr>)
                  (fst (hs_sensor_fault_effect s))))"

definition periods_of :: "'m hetero_systems \<Rightarrow> (string, i64) btree" where
  "periods_of sys = map (\<lambda>e. (fst e, hs_period_ns (snd e))) sys"

definition hetero_base_period_ns :: "i64 \<Rightarrow> 'm hetero_systems \<Rightarrow> base_period_error + i64" where
  "hetero_base_period_ns output_period sys =
     ebind (base_period_ns output_period (periods_of sys)) (\<lambda>base.
     ebind (check_integer_multiples base output_period (periods_of sys)) (\<lambda>_. Inr base))"


section \<open>The next epoch\<close>

lemma foldl_min_le: "y \<in> set (x # xs) \<Longrightarrow> foldl min (x::int) xs \<le> y"
proof (induction xs arbitrary: x y)
  case Nil
  then show ?case by simp
next
  case (Cons a xs)
  have "foldl min (min x a) xs \<le> min x a" by (rule Cons.IH) simp
  then show ?case using Cons.prems Cons.IH [of y "min x a"] by auto
qed

lemma foldl_min_in: "foldl min (x::int) xs \<in> set (x # xs)"
proof (induction xs arbitrary: x)
  case Nil
  then show ?case by simp
next
  case (Cons a xs)
  show ?case using Cons.IH [of "min x a"] by (auto simp: min_def split: if_splits)
qed

lemma next_time_None: "next_time dy target sys = None \<longleftrightarrow> (\<forall>e \<in> set sys. \<not> catch_up_eligible dy target (snd e))"
  by (auto simp: next_time_def bt_values_def filter_empty_conv filter_map comp_def split: list.splits)
     (metis filter_empty_conv list.simps(8) map_is_Nil_conv neq_Nil_conv)

lemma next_time_SomeD:
  assumes "next_time dy target sys = Some t"
  shows "\<exists>e \<in> set sys. catch_up_eligible dy target (snd e) \<and> hs_next_due_ns (snd e) = t"
    and "\<And>e. e \<in> set sys \<Longrightarrow> catch_up_eligible dy target (snd e) \<Longrightarrow> t \<le> hs_next_due_ns (snd e)"
proof -
  let ?due = "map hs_next_due_ns (filter (catch_up_eligible dy target) (bt_values sys))"
  obtain x xs where xs: "?due = x # xs" "t = foldl min x xs"
    using assms by (auto simp: next_time_def split: list.splits)
  have "t \<in> set ?due" using foldl_min_in [of x xs] xs by simp
  then show "\<exists>e \<in> set sys. catch_up_eligible dy target (snd e) \<and> hs_next_due_ns (snd e) = t"
    by (auto simp: bt_values_def)
  fix e assume "e \<in> set sys" "catch_up_eligible dy target (snd e)"
  then have "hs_next_due_ns (snd e) \<in> set ?due" by (force simp: bt_values_def)
  then show "t \<le> hs_next_due_ns (snd e)"
    unfolding xs using foldl_min_le by blast
qed

section \<open>Models that keep the clock\<close>

locale clocked_model =
  fixes dy :: "('m, 'e) dynamics"
  assumes step_with_ports_clock:
    "dy_step_with_ports dy m x t dt ib = Inr (res, ob, ap, m') \<Longrightarrow>
       sr_t_tai_ns res = wrap_i64 (t + dt) \<and> dy_state_dim dy m' = dy_state_dim dy m"
  and step_clock:
    "dy_step dy m x t dt = Inr (res, m') \<Longrightarrow>
       sr_t_tai_ns res = wrap_i64 (t + dt) \<and> dy_state_dim dy m' = dy_state_dim dy m"
  and drain_dim:
    "dy_state_dim dy (snd (dy_drain_sensor_fault_effect dy m)) = dy_state_dim dy m"
    "dy_state_dim dy (snd (dy_drain_decode_errors dy m)) = dy_state_dim dy m"

text \<open>
  A system registered at \<open>start\<close> and driven towards \<open>target\<close>: its epoch is a whole number of periods
  from \<open>start\<close>, less than one period past the target, and its history brackets the target or ends
  at \<open>start\<close>. Targets go up to \<open>horizon\<close>, two periods below the last i64.
\<close>

definition on_schedule :: "('m, 'e) dynamics \<Rightarrow> i64 \<Rightarrow> i64 \<Rightarrow> i64 \<Rightarrow> 'm hetero_system \<Rightarrow> bool" where
  "on_schedule dy start horizon target s \<longleftrightarrow>
     0 < hs_period_ns s \<and> hs_next_due_ns s = fst (hs_curr s) + hs_period_ns s \<and>
     i64_min \<le> start \<and> start \<le> fst (hs_curr s) \<and> start \<le> target \<and> target \<le> horizon \<and>
     hs_period_ns s dvd fst (hs_curr s) - start \<and>
     fst (hs_curr s) < target + hs_period_ns s \<and> horizon + 2 * hs_period_ns s \<le> i64_max \<and>
     (dy_state_dim dy (hs_model s) = 0 \<longrightarrow> fst (hs_curr s) \<le> target) \<and>
     (case hs_prev s of None \<Rightarrow> fst (hs_curr s) = start | Some p \<Rightarrow> fst p < target \<and> fst p < fst (hs_curr s))"

definition all_on_schedule :: "('m, 'e) dynamics \<Rightarrow> i64 \<Rightarrow> i64 \<Rightarrow> i64 \<Rightarrow> 'm hetero_systems \<Rightarrow> bool" where
  "all_on_schedule dy start horizon target sys \<longleftrightarrow> list_all (\<lambda>e. on_schedule dy start horizon target (snd e)) sys"

definition lag :: "i64 \<Rightarrow> 'm hetero_systems \<Rightarrow> nat" where
  "lag target sys = sum_list (map (\<lambda>e. nat (target - fst (hs_curr (snd e)))) sys)"

lemma eligible_behind:
  "on_schedule dy start horizon target s \<Longrightarrow> catch_up_eligible dy target s \<Longrightarrow> fst (hs_curr s) < target"
  by (auto simp: on_schedule_def catch_up_eligible_def split: if_splits)

lemma behind_wraps:
  assumes "on_schedule dy start horizon target s" and "fst (hs_curr s) < target"
  shows "wrap_i64 (fst (hs_curr s) + hs_period_ns s) = fst (hs_curr s) + hs_period_ns s"
    and "wrap_i64 (hs_next_due_ns s + hs_period_ns s) = fst (hs_curr s) + 2 * hs_period_ns s"
  using assms by (auto simp: on_schedule_def in_i64_def intro!: wrap_i64_id [THEN trans])

lemma absorb_step_simps:
  "hs_period_ns (absorb_step dy i ib res ap m s) = hs_period_ns s"
  "hs_curr (absorb_step dy i ib res ap m s) = (sr_t_tai_ns res, sr_state res)"
  "hs_prev (absorb_step dy i ib res ap m s) = Some (hs_curr s)"
  "hs_next_due_ns (absorb_step dy i ib res ap m s) = wrap_i64 (hs_next_due_ns s + hs_period_ns s)"
  "hs_model (absorb_step dy i ib res ap m s) =
     snd (dy_drain_decode_errors dy (snd (dy_drain_sensor_fault_effect dy m)))"
  by (simp_all add: absorb_step_def case_prod_unfold Let_def)

lemma step_due_InrD:
  assumes "step_due dy t i s r = Inr (s', r')"
  obtains ib res ob ap m where
    "dy_step_with_ports dy (hs_model s) (snd (hs_curr s)) (fst (hs_curr s)) (hs_period_ns s) ib = Inr (res, ob, ap, m)"
    "ib = fst (take_inbox i t r)" "s' = absorb_step dy i ib res ap m s"
    "r' = deliver i (sr_t_tai_ns res) ob (snd (take_inbox i t r))"
  using assms by (auto simp: step_due_def case_prod_unfold Let_def split: sum.splits)

lemma all_on_schedule_Cons [simp]:
  "all_on_schedule dy start horizon target (e # es) \<longleftrightarrow>
     on_schedule dy start horizon target (snd e) \<and> all_on_schedule dy start horizon target es"
  by (simp add: all_on_schedule_def)

definition anchored :: "'c pacer option \<Rightarrow> bool" where
  "anchored p \<longleftrightarrow> (case p of None \<Rightarrow> True | Some q \<Rightarrow> pa_anchor q \<noteq> None)"

lemma pace_begin_runs:
  assumes "anchored p"
  shows "\<exists>p'. pace_begin clk e p = Some p' \<and> anchored (pace_end clk p')"
proof (cases p)
  case None
  then show ?thesis by (simp add: pace_begin_def pace_end_def anchored_def)
next
  case (Some q)
  then obtain q' where "begin_tick clk e q = Some q'" "pa_anchor q' \<noteq> None"
    using assms begin_tick_runs [of q clk e] by (auto simp: anchored_def)
  then show ?thesis by (simp add: Some pace_begin_def pace_end_def anchored_def)
qed

lemma step_due_InlD: "step_due dy t i s r = Inl e \<Longrightarrow> \<exists>x. e = Sched_Model x"
  by (auto simp: step_due_def case_prod_unfold Let_def split: sum.splits)

lemma step_all_due_InlD: "step_all_due dy target t sys r = Inl e \<Longrightarrow> \<exists>x. e = Sched_Model x"
proof (induction sys arbitrary: r)
  case Nil
  then show ?case by simp
next
  case (Cons a sys)
  show ?case
  proof (cases "hs_next_due_ns (snd a) \<noteq> t \<or> \<not> catch_up_eligible dy target (snd a)")
    case True
    then show ?thesis using Cons by (auto simp: ebind_eq_Inl)
  next
    case False
    then have "step_due dy t (fst a) (snd a) r = Inl e \<or>
        (\<exists>s' r'. step_due dy t (fst a) (snd a) r = Inr (s', r') \<and> step_all_due dy target t sys r' = Inl e)"
      using Cons.prems by (auto simp: ebind_eq_Inl)
    then show ?thesis using Cons.IH step_due_InlD by blast
  qed
qed

context clocked_model
begin

lemma step_due_on_schedule:
  assumes "step_due dy t i s r = Inr (s', r')"
    and "on_schedule dy start horizon target s" and "catch_up_eligible dy target s"
  shows "on_schedule dy start horizon target s'" and "fst (hs_curr s) < target"
    and "fst (hs_curr s') = fst (hs_curr s) + hs_period_ns s"
    and "dy_state_dim dy (hs_model s') = dy_state_dim dy (hs_model s)"
    and "hs_period_ns s' = hs_period_ns s"
proof -
  obtain ib res ob ap m where
    st: "dy_step_with_ports dy (hs_model s) (snd (hs_curr s)) (fst (hs_curr s)) (hs_period_ns s) ib = Inr (res, ob, ap, m)"
    and s': "s' = absorb_step dy i ib res ap m s"
    using step_due_InrD [OF assms(1)] by metis
  show behind: "fst (hs_curr s) < target" by (rule eligible_behind [OF assms(2,3)])
  note w = behind_wraps [OF assms(2) behind]
  show c: "fst (hs_curr s') = fst (hs_curr s) + hs_period_ns s"
    using step_with_ports_clock [OF st] w(1) by (simp add: s' absorb_step_simps)
  show d: "dy_state_dim dy (hs_model s') = dy_state_dim dy (hs_model s)"
    using step_with_ports_clock [OF st] by (simp add: s' absorb_step_simps drain_dim)
  show p: "hs_period_ns s' = hs_period_ns s" by (simp add: s' absorb_step_simps)
  have prev: "hs_prev s' = Some (hs_curr s)" and n: "hs_next_due_ns s' = fst (hs_curr s) + 2 * hs_period_ns s"
    using w(2) by (simp_all add: s' absorb_step_simps)
  show "on_schedule dy start horizon target s'"
    using assms(2,3) behind
    by (auto simp: on_schedule_def catch_up_eligible_def c d p prev n split: if_splits)
       (metis add.commute add_diff_eq dvd_add_triv_left_iff)+
qed

lemma step_due_lag:
  assumes "step_due dy t i s r = Inr (s', r')"
    and "on_schedule dy start horizon target s" and "catch_up_eligible dy target s"
  shows "nat (target - fst (hs_curr s')) < nat (target - fst (hs_curr s))"
  using step_due_on_schedule(2,3) [OF assms] assms(2) by (simp add: on_schedule_def)

lemma step_all_due_on_schedule:
  assumes "step_all_due dy target t sys r = Inr (sys', r')" and "all_on_schedule dy start horizon target sys"
  shows "all_on_schedule dy start horizon target sys' \<and> periods_of sys' = periods_of sys \<and> lag target sys' \<le> lag target sys \<and>
    ((\<exists>e \<in> set sys. hs_next_due_ns (snd e) = t \<and> catch_up_eligible dy target (snd e)) \<longrightarrow>
       lag target sys' < lag target sys)"
  using assms
proof (induction sys arbitrary: r sys')
  case Nil
  then show ?case by (simp add: lag_def all_on_schedule_def periods_of_def)
next
  case (Cons e es)
  have ok: "on_schedule dy start horizon target (snd e)" "all_on_schedule dy start horizon target es"
    using Cons.prems(2) by simp_all
  have lag: "lag target (x # xs) = nat (target - fst (hs_curr (snd x))) + lag target xs" for x xs
    by (simp add: lag_def)
  have per: "periods_of (x # xs) = (fst x, hs_period_ns (snd x)) # periods_of xs" for x xs
    by (simp add: periods_of_def)
  show ?case
  proof (cases "hs_next_due_ns (snd e) \<noteq> t \<or> \<not> catch_up_eligible dy target (snd e)")
    case True
    then obtain es' where es': "step_all_due dy target t es r = Inr (es', r')" "sys' = e # es'"
      using Cons.prems(1) by (auto simp: ebind_eq_Inr)
    then show ?thesis using Cons.IH [OF es'(1) ok(2)] ok(1) True by (auto simp: lag per)
  next
    case False
    then have due: "catch_up_eligible dy target (snd e)" by simp
    obtain s1 r1 es' where s1: "step_due dy t (fst e) (snd e) r = Inr (s1, r1)"
      and es': "step_all_due dy target t es r1 = Inr (es', r')" "sys' = (fst e, s1) # es'"
      using Cons.prems(1) False by (auto simp: ebind_eq_Inr)
    show ?thesis
      using Cons.IH [OF es'(1) ok(2)] step_due_on_schedule(1,5) [OF s1 ok(1) due] step_due_lag [OF s1 ok(1) due]
      by (auto simp: lag per es'(2))
  qed
qed

lemma iteration_lag:
  assumes "next_time dy target sys = Some t" and "step_all_due dy target t sys r = Inr (sys', r')"
    and "all_on_schedule dy start horizon target sys"
  shows "lag target sys' < lag target sys"
  using step_all_due_on_schedule [OF assms(2,3)] next_time_SomeD(1) [OF assms(1)] by blast

text \<open>The loop returns: every iteration brings a system nearer to the target.\<close>

definition advanced ::
  "i64 \<Rightarrow> i64 \<Rightarrow> i64 \<Rightarrow> (string, i64) btree \<Rightarrow> 'e schedule_error + ('m hetero_systems \<times> router \<times> 'c pacer option) \<Rightarrow> bool" where
  "advanced start horizon target ps res \<longleftrightarrow>
     (case res of
        Inl e \<Rightarrow> (\<exists>x. e = Sched_Model x)
      | Inr x \<Rightarrow> all_on_schedule dy start horizon target (fst x) \<and> periods_of (fst x) = ps \<and>
          next_time dy target (fst x) = None \<and> anchored (snd (snd x)))"

lemma advance_returns:
  "all_on_schedule dy start horizon target sys \<Longrightarrow> anchored p \<Longrightarrow>
   \<exists>res. advance_to_with_ports_paced dy clk target sys r p = Some res \<and> advanced start horizon target (periods_of sys) res"
proof (induction "lag target sys" arbitrary: sys r p rule: less_induct)
  case less
  note unfold = advance_to_with_ports_paced.simps [of dy clk target sys r p]
  show ?case
  proof (cases "next_time dy target sys")
    case None
    then show ?thesis using less.prems by (simp add: unfold advanced_def)
  next
    case (Some t)
    obtain p' where p': "pace_begin clk (min t target) p = Some p'" "anchored (pace_end clk p')"
      using pace_begin_runs [OF less.prems(2)] by blast
    show ?thesis
    proof (cases "step_all_due dy target t sys r")
      case (Inl e)
      then show ?thesis using Some p'(1) step_all_due_InlD [OF Inl] by (simp add: unfold advanced_def)
    next
      case (Inr sr)
      have st: "step_all_due dy target t sys r = Inr (fst sr, snd sr)" using Inr by simp
      note ok = step_all_due_on_schedule [OF st less.prems(1)]
      have eq: "advance_to_with_ports_paced dy clk target sys r p =
          advance_to_with_ports_paced dy clk target (fst sr) (snd sr) (pace_end clk p')"
        using Some p'(1) by (simp add: unfold Inr)
      show ?thesis unfolding eq
        using less.hyps [OF iteration_lag [OF Some st less.prems(1)] _ p'(2)] ok by metis
    qed
  qed
qed

end


section \<open>Samples\<close>

lemma on_schedule_later:
  "on_schedule dy start horizon target s \<Longrightarrow> target \<le> target' \<Longrightarrow> target' \<le> horizon \<Longrightarrow> on_schedule dy start horizon target' s"
  by (auto simp: on_schedule_def split: option.splits)

lemma all_on_schedule_later:
  "all_on_schedule dy start horizon target sys \<Longrightarrow> target \<le> target' \<Longrightarrow> target' \<le> horizon \<Longrightarrow>
   all_on_schedule dy start horizon target' sys"
  unfolding all_on_schedule_def by (auto simp: list_all_iff intro: on_schedule_later)

lemma registered_on_schedule:
  assumes "hetero_register i period m start x sys = Some sys'" and "all_on_schedule dy start horizon start sys"
    and "i64_min \<le> start" and "start \<le> horizon" and "horizon + 2 * period \<le> i64_max"
  shows "all_on_schedule dy start horizon start sys'"
proof -
  have p: "0 < period" using assms(1) by (simp add: hetero_register_def split: if_splits)
  have "wrap_i64 (start + period) = start + period"
    using assms(3-5) p by (intro wrap_i64_id) (simp add: in_i64_def)
  then have new: "on_schedule dy start horizon start
      \<lparr>hs_period_ns = period, hs_model = m, hs_next_due_ns = wrap_i64 (start + period), hs_prev = None,
       hs_curr = (start, x), hs_outputs = [], hs_applied_commands = [], hs_measurements = [],
       hs_sensor_fault_effect = (None, 0), hs_decode_errors = [], hs_decode_successes = []\<rparr>"
    using assms(3-5) p by (simp add: on_schedule_def)
  have ins: "all_on_schedule dy start horizon start (bt_insert j s es)"
    if "on_schedule dy start horizon start s" "all_on_schedule dy start horizon start es" for j s es
    using that by (induction j s es rule: bt_insert.induct) (auto simp: all_on_schedule_def)
  show ?thesis using assms(1,2) ins [OF new] by (auto simp: hetero_register_def split: if_splits)
qed

lemma dvd_bracket: "0 < (P::int) \<Longrightarrow> P dvd c - a \<Longrightarrow> P dvd t - a \<Longrightarrow> t \<le> c \<Longrightarrow> c < t + P \<Longrightarrow> c = t"
proof -
  assume P: "0 < P" "P dvd c - a" "P dvd t - a" and le: "t \<le> c" "c < t + P"
  have "P dvd (c - a) - (t - a)" by (rule dvd_diff [OF P(2,3)])
  then have "P dvd c - t" by simp
  then show "c = t" using le zdvd_not_zless [of "c - t" P] by fastforce
qed

lemma physical_sample:
  assumes "on_schedule dy start horizon target s" and "\<not> catch_up_eligible dy target s"
    and "dy_state_dim dy (hs_model s) \<noteq> 0"
  shows "\<exists>k. sample_of i target s = Inr k \<and> ((\<exists>x. k = Native x) \<longleftrightarrow> hs_period_ns s dvd target - start)"
proof -
  have c: "target \<le> fst (hs_curr s)" "fst (hs_curr s) < target + hs_period_ns s"
    "hs_period_ns s dvd fst (hs_curr s) - start" "0 < hs_period_ns s"
    using assms by (auto simp: catch_up_eligible_def on_schedule_def)
  show ?thesis
  proof (cases "target = fst (hs_curr s)")
    case True
    then show ?thesis using c by (simp add: sample_of_def)
  next
    case False
    then obtain p where p: "hs_prev s = Some p" "fst p < target"
      using assms(1) c(1) by (auto simp: on_schedule_def split: option.splits)
    have "\<not> hs_period_ns s dvd target - start"
      using dvd_bracket [OF c(4,3) _ c(1,2)] False by auto
    then show ?thesis using False p c(1) by (simp add: sample_of_def)
  qed
qed

lemma held_sample:
  assumes "on_schedule dy start horizon target s" and "\<not> catch_up_eligible dy target s"
    and "dy_state_dim dy (hs_model s) = 0"
  shows "\<exists>x. held_sample_of i target s = Inr (if hs_period_ns s dvd target - start then Fresh else Held, x)"
proof -
  have c: "fst (hs_curr s) \<le> target" "target < fst (hs_curr s) + hs_period_ns s"
    "hs_period_ns s dvd fst (hs_curr s) - start" "0 < hs_period_ns s"
    using assms by (auto simp: catch_up_eligible_def on_schedule_def)
  have "hs_period_ns s dvd target - start \<longleftrightarrow> target = fst (hs_curr s)"
    using dvd_bracket [of "hs_period_ns s" target start "fst (hs_curr s)"] c by auto
  then show ?thesis using c(1) by (simp add: held_sample_of_def)
qed

section \<open>Pacing does not show\<close>

definition unpaced ::
  "'e schedule_error + ('m hetero_systems \<times> router \<times> 'c pacer option) \<Rightarrow> 'e schedule_error + ('m hetero_systems \<times> router)" where
  "unpaced res = map_sum id (\<lambda>x. (fst x, fst (snd x))) res"


definition same_unpaced ::
  "'d pacing_clock \<Rightarrow> ('m, 'e) dynamics \<Rightarrow> i64 \<Rightarrow> 'm hetero_systems \<Rightarrow> router \<Rightarrow> 'c pacer option
     \<Rightarrow> 'e schedule_error + ('m hetero_systems \<times> router \<times> 'c pacer option) \<Rightarrow> bool" where
  "same_unpaced clk' dy target sys r p res \<longleftrightarrow>
     (anchored p \<longrightarrow> (\<forall>p'. anchored p' \<longrightarrow>
       (\<exists>res'. advance_to_with_ports_paced dy clk' target sys r p' = Some res' \<and> unpaced res' = unpaced res)))"

lemma same_unpaced_step:
  assumes IH: "\<And>dy clk target sys r p res. f dy clk target sys r p = Some res \<Longrightarrow> same_unpaced clk' dy target sys r p res"
    and eq: "(case next_time dy target sys of
        None \<Rightarrow> Some (Inr (sys, r, p))
      | Some t \<Rightarrow>
          (case pace_begin clk (min t target) p of
             None \<Rightarrow> Some (Inl Sched_Panic)
           | Some p' \<Rightarrow>
               (case step_all_due dy target t sys r of
                  Inl e \<Rightarrow> Some (Inl e)
                | Inr sr \<Rightarrow> f dy clk target (fst sr) (snd sr) (pace_end clk p')))) = Some res"
  shows "same_unpaced clk' dy target sys r p res"
  unfolding same_unpaced_def
proof (intro impI allI)
  fix p' :: "'d pacer option"
  assume anch: "anchored p" "anchored p'"
  note unfold = advance_to_with_ports_paced.simps [of dy clk' target sys r p']
  show "\<exists>res'. advance_to_with_ports_paced dy clk' target sys r p' = Some res' \<and> unpaced res' = unpaced res"
  proof (cases "next_time dy target sys")
    case None
    then show ?thesis using eq by (auto simp: unfold unpaced_def)
  next
    case (Some t)
    obtain q where q: "pace_begin clk (min t target) p = Some q" "anchored (pace_end clk q)"
      using pace_begin_runs [OF anch(1)] by blast
    obtain q' where q': "pace_begin clk' (min t target) p' = Some q'" "anchored (pace_end clk' q')"
      using pace_begin_runs [OF anch(2)] by blast
    show ?thesis
    proof (cases "step_all_due dy target t sys r")
      case (Inl e)
      then show ?thesis using eq Some q(1) q'(1) by (auto simp: unfold unpaced_def)
    next
      case (Inr sr)
      then have "f dy clk target (fst sr) (snd sr) (pace_end clk q) = Some res"
        using eq Some q(1) by simp
      from IH [OF this] q(2) q'(2)
      obtain res' where "advance_to_with_ports_paced dy clk' target (fst sr) (snd sr) (pace_end clk' q') = Some res'"
          "unpaced res' = unpaced res"
        unfolding same_unpaced_def by blast
      then show ?thesis using Some q'(1) Inr by (simp add: unfold)
    qed
  qed
qed

lemma same_advance:
  assumes "advance_to_with_ports_paced dy clk target sys r p = Some res"
  shows "same_unpaced clk' dy target sys r p res"
  by (rule advance_to_with_ports_paced.raw_induct
      [where P = "\<lambda>dy clk target sys r p res. same_unpaced clk' dy target sys r p res", OF _ assms])
     (rule same_unpaced_step)

text \<open>
  C28: (pacing does not show) for every model, clock and target, an anchored pacer changes neither
  whether the advance returns nor the systems, the router or the error it returns with.
\<close>

theorem pacing_is_transparent:
  assumes "anchored p"
  shows "map_option unpaced (advance_to_with_ports_paced dy clk target sys r p) =
    map_option unpaced (advance_to_with_ports dy target sys r)"
proof -
  have none: "anchored None" by (simp add: anchored_def)
  show ?thesis
  proof (cases "advance_to_with_ports_paced dy clk target sys r p")
    case None
    have "advance_to_with_ports dy target sys r = None"
    proof (rule ccontr)
      assume "\<not> ?thesis"
      then obtain res where "advance_to_with_ports_paced dy no_pacing target sys r None = Some res"
        by (auto simp: advance_to_with_ports_def)
      from same_advance [OF this, of clk] show False using None none assms by (auto simp: same_unpaced_def)
    qed
    then show ?thesis using None by simp
  next
    case (Some res)
    from same_advance [OF this, of no_pacing] none assms
    obtain res' where "advance_to_with_ports_paced dy no_pacing target sys r None = Some res'" "unpaced res' = unpaced res"
      unfolding same_unpaced_def by blast
    then show ?thesis using Some by (simp add: advance_to_with_ports_def)
  qed
qed


section \<open>Systems that do not use their ports\<close>

text \<open>On the models of \<open>Q\<close>, a step with ports is a step without.\<close>

definition quiet_models :: "('m, 'e) dynamics \<Rightarrow> ('m \<Rightarrow> bool) \<Rightarrow> bool" where
  "quiet_models dy Q \<longleftrightarrow>
     (\<forall>m x t dt ib. Q m \<longrightarrow>
        dy_step_with_ports dy m x t dt ib = map_sum id (\<lambda>rm. (fst rm, [], [], snd rm)) (dy_step dy m x t dt) \<and>
        (\<forall>rm. dy_step dy m x t dt = Inr rm \<longrightarrow> Q (snd rm))) \<and>
     (\<forall>m. Q m \<longrightarrow> dy_last_measurements dy m = [] \<and> dy_drain_sensor_fault_effect dy m = (None, m) \<and>
        dy_drain_decode_errors dy m = ([], m))"

definition quiet_systems :: "('m, 'e) dynamics \<Rightarrow> ('m \<Rightarrow> bool) \<Rightarrow> 'm hetero_systems \<Rightarrow> bool" where
  "quiet_systems dy Q sys \<longleftrightarrow> list_all (\<lambda>e. Q (hs_model (snd e)) \<and> dy_state_dim dy (hs_model (snd e)) \<noteq> 0) sys"

definition plain_step :: "step_result \<times> 'm \<Rightarrow> 'm hetero_system \<Rightarrow> 'm hetero_system" where
  "plain_step rm s =
     s\<lparr>hs_model := snd rm,
       hs_outputs := record_outputs (hs_outputs s) (sr_t_tai_ns (fst rm)) (sr_outputs (fst rm)),
       hs_prev := Some (hs_curr s),
       hs_curr := (sr_t_tai_ns (fst rm), sr_state (fst rm)),
       hs_next_due_ns := wrap_i64 (hs_next_due_ns s + hs_period_ns s)\<rparr>"

lemma take_inbox_nothing: "rt_pending r = [] \<Longrightarrow> take_inbox i t r = (inbox_empty, r)"
  by (cases r) (simp add: take_inbox_def pending_of_def bt_remove_def sorted_inbox_def inbox_empty_def Let_def)

lemma quiet_step_due:
  assumes "quiet_models dy Q" and "Q (hs_model s)" and "rt_pending r = []"
    and "dy_step dy (hs_model s) (snd (hs_curr s)) (fst (hs_curr s)) (hs_period_ns s) = Inr rm"
  shows "step_due dy t i s r = Inr (plain_step rm s, r)" and "Q (snd rm)"
proof -
  show q: "Q (snd rm)" using assms unfolding quiet_models_def by blast
  then have "absorb_step dy i inbox_empty (fst rm) [] (snd rm) s = plain_step rm s"
    using assms(1)
    by (cases s) (simp add: absorb_step_def plain_step_def quiet_models_def applied_port_commands_def
        add_sensor_fault_effect_def inbox_empty_def)
  moreover have "dy_step_with_ports dy (hs_model s) (snd (hs_curr s)) (fst (hs_curr s)) (hs_period_ns s) inbox_empty =
      Inr (fst rm, [], [], snd rm)"
    using assms by (simp add: quiet_models_def)
  ultimately show "step_due dy t i s r = Inr (plain_step rm s, r)"
    by (simp add: step_due_def take_inbox_nothing [OF assms(3)] deliver_def)
qed

lemma catch_up_plain:
  "catch_up dy target s =
     (if fst (hs_curr s) < target then
        (case dy_step dy (hs_model s) (snd (hs_curr s)) (fst (hs_curr s)) (hs_period_ns s) of
           Inl e \<Rightarrow> Some (Inl (Sched_Model e))
         | Inr rm \<Rightarrow> catch_up dy target (plain_step rm s))
      else Some (Inr s))"
  unfolding plain_step_def by (rule catch_up.simps)

lemma quiet_systems_Cons [simp]:
  "quiet_systems dy Q (e # es) \<longleftrightarrow>
     Q (hs_model (snd e)) \<and> dy_state_dim dy (hs_model (snd e)) \<noteq> 0 \<and> quiet_systems dy Q es"
  by (simp add: quiet_systems_def)

lemma hetero_advance_Cons:
  "hetero_advance_to dy target (e # es) = Some (Inr sys') \<longleftrightarrow>
     (\<exists>s es'. catch_up dy target (snd e) = Some (Inr s) \<and> hetero_advance_to dy target es = Some (Inr es') \<and>
        sys' = (fst e, s) # es')"
  by (cases "catch_up dy target (snd e)"; cases "hetero_advance_to dy target es")
     (auto split: sum.split)

context clocked_model
begin

lemma quiet_step_all_due:
  assumes "quiet_models dy Q" and "rt_pending r = []"
  shows "quiet_systems dy Q sys \<Longrightarrow> hetero_advance_to dy target sys = Some (Inr sys') \<Longrightarrow>
    \<exists>sys1. step_all_due dy target t sys r = Inr (sys1, r) \<and> quiet_systems dy Q sys1 \<and>
      hetero_advance_to dy target sys1 = Some (Inr sys')"
proof (induction sys arbitrary: sys')
  case Nil
  then show ?case by (simp add: quiet_systems_def)
next
  case (Cons e es)
  obtain s es' where up: "catch_up dy target (snd e) = Some (Inr s)" "hetero_advance_to dy target es = Some (Inr es')"
    and sys': "sys' = (fst e, s) # es'"
    using Cons.prems(2) unfolding hetero_advance_Cons by blast
  obtain es1 where es1: "step_all_due dy target t es r = Inr (es1, r)" "quiet_systems dy Q es1"
    "hetero_advance_to dy target es1 = Some (Inr es')"
    using Cons.IH [OF _ up(2)] Cons.prems(1) by auto
  show ?case
  proof (cases "hs_next_due_ns (snd e) \<noteq> t \<or> \<not> catch_up_eligible dy target (snd e)")
    case True
    then have "step_all_due dy target t (e # es) r = Inr (e # es1, r)" using es1(1) by simp
    moreover have "hetero_advance_to dy target (e # es1) = Some (Inr sys')"
      unfolding hetero_advance_Cons using up(1) es1(3) sys' by blast
    ultimately show ?thesis using Cons.prems(1) es1(2) by (intro exI [of _ "e # es1"]) simp
  next
    case False
    then have behind: "fst (hs_curr (snd e)) < target"
      using Cons.prems(1) by (simp add: catch_up_eligible_def)
    then obtain rm where rm: "dy_step dy (hs_model (snd e)) (snd (hs_curr (snd e))) (fst (hs_curr (snd e)))
        (hs_period_ns (snd e)) = Inr rm" "catch_up dy target (plain_step rm (snd e)) = Some (Inr s)"
      using up(1) catch_up_plain [of dy target "snd e"] by (auto split: sum.splits)
    have Q: "Q (hs_model (snd e))" using Cons.prems(1) by simp
    note st = quiet_step_due [OF assms(1) Q assms(2) rm(1)]
    have dim: "dy_state_dim dy (snd rm) \<noteq> 0"
      using step_clock [of "hs_model (snd e)" _ _ _ "fst rm" "snd rm"] rm(1) Cons.prems(1) by (metis prod.collapse quiet_systems_Cons)
    have "step_all_due dy target t (e # es) r = Inr ((fst e, plain_step rm (snd e)) # es1, r)"
      using False st(1) [of t "fst e"] es1(1) by simp
    moreover have "hetero_advance_to dy target ((fst e, plain_step rm (snd e)) # es1) = Some (Inr sys')"
      unfolding hetero_advance_Cons using rm(2) es1(3) sys' by simp
    moreover have "quiet_systems dy Q ((fst e, plain_step rm (snd e)) # es1)"
      using st(2) dim es1(2) by (simp add: plain_step_def)
    ultimately show ?thesis by blast
  qed
qed

lemma quiet_advance:
  assumes "quiet_models dy Q" and "rt_pending r = []"
  shows "all_on_schedule dy start horizon target sys \<Longrightarrow> quiet_systems dy Q sys \<Longrightarrow>
    hetero_advance_to dy target sys = Some (Inr sys') \<Longrightarrow>
    advance_to_with_ports dy target sys r = Some (Inr (sys', r, None))"
proof (induction "lag target sys" arbitrary: sys rule: less_induct)
  case less
  note unfold = advance_to_with_ports_paced.simps [of dy no_pacing target sys r None]
  show ?case
  proof (cases "next_time dy target sys")
    case None
    have "hetero_advance_to dy target es = Some (Inr es)"
      if "quiet_systems dy Q es" "\<forall>e \<in> set es. \<not> catch_up_eligible dy target (snd e)" for es
      using that by (induction es) (simp_all add: catch_up_eligible_def catch_up.simps)
    then have "sys' = sys" using None less.prems(2,3) by (simp add: next_time_None)
    then show ?thesis using None by (simp add: advance_to_with_ports_def unfold)
  next
    case (Some t)
    obtain sys1 where sys1: "step_all_due dy target t sys r = Inr (sys1, r)" "quiet_systems dy Q sys1"
      "hetero_advance_to dy target sys1 = Some (Inr sys')"
      using quiet_step_all_due [OF assms less.prems(2,3)] by blast
    have "advance_to_with_ports dy target sys1 r = Some (Inr (sys', r, None))"
      using less.hyps [OF iteration_lag [OF Some sys1(1) less.prems(1)] _ sys1(2,3)]
        step_all_due_on_schedule [OF sys1(1) less.prems(1)] by blast
    then show ?thesis using Some sys1(1)
      by (simp add: advance_to_with_ports_def unfold pace_begin_def pace_end_def)
  qed
qed

end

text \<open>
  C23: (ports disturb nothing) for physical systems that use no ports, on a router with nothing waiting,
  stepping all systems together in the order of their epochs ends in the very state that advancing
  each of them on its own does.
\<close>

theorem interleaving_is_sequential:
  assumes "clocked_model dy" and "quiet_models dy Q" and "quiet_systems dy Q sys"
    and "all_on_schedule dy start horizon target sys" and "rt_pending r = []"
    and "hetero_advance_to dy target sys = Some (Inr sys')"
  shows "advance_to_with_ports dy target sys r = Some (Inr (sys', r, None))"
  by (rule clocked_model.quiet_advance [OF assms(1,2,5,4,3,6)])

end
