(* ===== verification/Kernel_Models.thy ===== *)
theory Kernel_Models
  imports Kernel_Schedule
begin

text \<open>
  Two models the scheduler drives: \<open>ReplayModel\<close> of \<open>av-kernel/src/drm/replay.rs\<close>, which plays the
  recorded frames of an instance (or the scripted steps of a board) back, and \<open>ContainerModel\<close> of
  \<open>drm/binding.rs\<close>, which asks a lockstep process for every step. The process behind the client is a
  parameter: a function from its state and a request to its reply.
\<close>

section \<open>Replay\<close>

record scripted_step =
  ss_outputs :: "port_message list"
  ss_named_outputs :: "(string, f64) btree"

record replay_model =
  rm_instance :: string
  rm_info :: model_info
  rm_state_dim :: nat
  rm_frames_by_epoch :: "(i64, (string \<times> bytes) list) btree"
  rm_first_epoch :: "i64 option"
  rm_last_epoch :: "i64 option"
  rm_board :: "(i64, scripted_step) btree option"

datatype replay_error =
    MissingFrame string i64
  | MissingBoardStep string i64
  | Replay_Panic

definition add_frame :: "port_traffic_record \<Rightarrow> (i64, (string \<times> bytes) list) btree \<Rightarrow> (i64, (string \<times> bytes) list) btree" where
  "add_frame rec m =
     bt_insert (ptr_tai_ns rec)
       ((case bt_get m (ptr_tai_ns rec) of Some fs \<Rightarrow> fs | None \<Rightarrow> []) @ [(ptr_port rec, ptr_payload rec)]) m"

definition own_out :: "string \<Rightarrow> port_traffic_record \<Rightarrow> bool" where
  "own_out inst rec \<longleftrightarrow> ptr_instance rec = inst \<and> ptr_direction rec = Pd_Out"

definition replay_new :: "string \<Rightarrow> model_info \<Rightarrow> nat \<Rightarrow> port_traffic_record list \<Rightarrow> replay_model" where
  "replay_new inst info d recs =
     (let frames = fold add_frame (filter (own_out inst) recs) [];
          ks = bt_keys frames
      in \<lparr>rm_instance = inst, rm_info = info, rm_state_dim = d, rm_frames_by_epoch = frames,
          rm_first_epoch = (if ks = [] then None else Some (hd ks)),
          rm_last_epoch = (if ks = [] then None else Some (List.last ks)), rm_board = None\<rparr>)"

definition replay_from_board_script :: "string \<Rightarrow> model_info \<Rightarrow> (i64, scripted_step) btree \<Rightarrow> replay_model" where
  "replay_from_board_script inst info steps =
     \<lparr>rm_instance = inst, rm_info = info, rm_state_dim = 0, rm_frames_by_epoch = [], rm_first_epoch = None, rm_last_epoch = None,
      rm_board = Some steps\<rparr>"

definition held_step :: "f64 list \<Rightarrow> i64 \<Rightarrow> (string, f64) btree \<Rightarrow> step_result" where
  "held_step x t outputs = \<lparr>sr_state = x, sr_t_tai_ns = t, sr_outputs = outputs\<rparr>"

definition frame_messages :: "i64 \<times> (string \<times> bytes) list \<Rightarrow> port_message list" where
  "frame_messages e = map (\<lambda>f. \<lparr>po_port = fst f, po_tai_ns = fst e, po_payload = snd f\<rparr>) (snd e)"

text \<open>The recorded epochs after \<open>t\<close> and up to \<open>fin\<close>; \<open>BTreeMap::range\<close> panics when \<open>fin\<close> is before \<open>t\<close>.\<close>

definition due_frames :: "replay_model \<Rightarrow> i64 \<Rightarrow> i64 \<Rightarrow> (i64 \<times> (string \<times> bytes) list) list" where
  "due_frames m t fin = filter (\<lambda>e. t < fst e \<and> fst e \<le> fin) (rm_frames_by_epoch m)"

definition interior_gap :: "replay_model \<Rightarrow> i64 \<Rightarrow> i64 \<Rightarrow> bool" where
  "interior_gap m t fin =
     (case (rm_first_epoch m, rm_last_epoch m) of
        (Some f, Some l) \<Rightarrow> t < l \<and> fin > f
      | _ \<Rightarrow> False)"

definition replay_step_with_ports ::
  "replay_model \<Rightarrow> f64 list \<Rightarrow> i64 \<Rightarrow> i64 \<Rightarrow> inbox
     \<Rightarrow> replay_error + (step_result \<times> port_message list \<times> applied_command list \<times> replay_model)" where
  "replay_step_with_ports m x t dt ib =
     (let fin = wrap_i64 (t + dt) in
      case rm_board m of
        Some steps \<Rightarrow>
          ebind (ok_or (MissingBoardStep (rm_instance m) fin) (bt_get steps fin)) (\<lambda>s.
            Inr (held_step x fin (ss_named_outputs s), ss_outputs s, [], m))
      | None \<Rightarrow>
          if fin < t then Inl Replay_Panic
          else if due_frames m t fin = [] \<and> interior_gap m t fin then Inl (MissingFrame (rm_instance m) fin)
          else Inr (held_step x fin [], concat (map frame_messages (due_frames m t fin)), [], m))"

definition replay_step ::
  "replay_model \<Rightarrow> f64 list \<Rightarrow> i64 \<Rightarrow> i64 \<Rightarrow> replay_error + (step_result \<times> replay_model)" where
  "replay_step m x t dt =
     ebind (replay_step_with_ports m x t dt inbox_empty) (\<lambda>(res, ob, ap, m'). Inr (res, m'))"

definition replay_dynamics :: "(replay_model, replay_error) dynamics" where
  "replay_dynamics =
     \<lparr>dy_describe = rm_info, dy_state_dim = rm_state_dim, dy_step = replay_step, dy_step_with_ports = replay_step_with_ports,
      dy_last_measurements = (\<lambda>m. []), dy_drain_sensor_fault_effect = (\<lambda>m. (None, m)),
      dy_drain_decode_errors = (\<lambda>m. ([], m))\<rparr>"

lemma replay_step_keeps:
  assumes "replay_step_with_ports m x t dt ib = Inr (res, ob, ap, m')"
  shows "m' = m \<and> res = held_step x (wrap_i64 (t + dt)) (sr_outputs res) \<and> ap = []"
  using assms
  by (auto simp: replay_step_with_ports_def Let_def ebind_eq_Inr held_step_def split: option.splits if_splits)

interpretation replay: clocked_model replay_dynamics
proof
  fix m :: replay_model and x t dt ib res ob ap m'
  assume "dy_step_with_ports replay_dynamics m x t dt ib = Inr (res, ob, ap, m')"
  then have "replay_step_with_ports m x t dt ib = Inr (res, ob, ap, m')" by (simp add: replay_dynamics_def)
  from replay_step_keeps [OF this]
  show "sr_t_tai_ns res = wrap_i64 (t + dt) \<and> dy_state_dim replay_dynamics m' = dy_state_dim replay_dynamics m"
    by (metis held_step_def step_result.select_convs(2))
next
  fix m :: replay_model and x t dt res m'
  assume "dy_step replay_dynamics m x t dt = Inr (res, m')"
  then obtain ob ap where "replay_step_with_ports m x t dt inbox_empty = Inr (res, ob, ap, m')"
    by (auto simp: replay_dynamics_def replay_step_def ebind_eq_Inr)
  from replay_step_keeps [OF this]
  show "sr_t_tai_ns res = wrap_i64 (t + dt) \<and> dy_state_dim replay_dynamics m' = dy_state_dim replay_dynamics m"
    by (metis held_step_def step_result.select_convs(2))
qed (simp_all add: replay_dynamics_def)

section \<open>A lockstep process\<close>

record lockstep_step_request =
  lq_sequence :: u64
  lq_until_tai_ns :: i64
  lq_inputs :: "port_message list"

record lockstep_step_response =
  lr_sequence :: u64
  lr_reached_tai_ns :: i64
  lr_outputs :: "port_message list"
  lr_named_outputs :: "(string, f64) btree"

datatype lockstep_io_error = Io_Rpc string | Io_TimedOut nat | Io_Unusable

datatype container_error =
    StepRpc lockstep_io_error
  | StepTimeout nat
  | SequenceMismatch u64 u64
  | ReachedTaiMismatch i64 i64

type_synonym 'srv lockstep_step = "'srv \<Rightarrow> lockstep_step_request \<Rightarrow> (lockstep_io_error + lockstep_step_response) \<times> 'srv"

record 'srv container_model =
  cm_server :: 'srv
  cm_next_sequence :: u64
  cm_info :: model_info

definition container_step_with_ports ::
  "'srv lockstep_step \<Rightarrow> 'srv container_model \<Rightarrow> f64 list \<Rightarrow> i64 \<Rightarrow> i64 \<Rightarrow> inbox
     \<Rightarrow> container_error + (step_result \<times> port_message list \<times> applied_command list \<times> 'srv container_model)" where
  "container_step_with_ports call m x t dt ib =
     (let seq = cm_next_sequence m;
          fin = wrap_i64 (t + dt);
          (reply, srv) = call (cm_server m) \<lparr>lq_sequence = seq, lq_until_tai_ns = fin, lq_inputs = ib_messages ib\<rparr>
      in case reply of
           Inl (Io_TimedOut ms) \<Rightarrow> Inl (StepTimeout ms)
         | Inl e \<Rightarrow> Inl (StepRpc e)
         | Inr resp \<Rightarrow>
             if lr_sequence resp \<noteq> seq then Inl (SequenceMismatch seq (lr_sequence resp))
             else if lr_reached_tai_ns resp \<noteq> fin then Inl (ReachedTaiMismatch fin (lr_reached_tai_ns resp))
             else Inr (held_step x fin (lr_named_outputs resp), lr_outputs resp, [],
                       m\<lparr>cm_server := srv, cm_next_sequence := seq + 1\<rparr>))"

definition container_step ::
  "'srv lockstep_step \<Rightarrow> 'srv container_model \<Rightarrow> f64 list \<Rightarrow> i64 \<Rightarrow> i64
     \<Rightarrow> container_error + (step_result \<times> 'srv container_model)" where
  "container_step call m x t dt =
     ebind (container_step_with_ports call m x t dt inbox_empty) (\<lambda>(res, ob, ap, m'). Inr (res, m'))"

definition container_dynamics :: "'srv lockstep_step \<Rightarrow> ('srv container_model, container_error) dynamics" where
  "container_dynamics call =
     \<lparr>dy_describe = cm_info, dy_state_dim = (\<lambda>m. 0), dy_step = container_step call, dy_step_with_ports = container_step_with_ports call,
      dy_last_measurements = (\<lambda>m. []), dy_drain_sensor_fault_effect = (\<lambda>m. (None, m)),
      dy_drain_decode_errors = (\<lambda>m. ([], m))\<rparr>"

lemma container_step_InrD:
  assumes "container_step_with_ports call m x t dt ib = Inr (res, ob, ap, m')"
  shows "res = held_step x (wrap_i64 (t + dt)) (sr_outputs res) \<and> ap = [] \<and>
    cm_next_sequence m' = cm_next_sequence m + 1"
  using assms
  by (auto simp: container_step_with_ports_def Let_def case_prod_unfold held_step_def
      split: sum.splits lockstep_io_error.splits if_splits)

interpretation container: clocked_model "container_dynamics call" for call :: "'srv lockstep_step"
proof
  fix m :: "'srv container_model" and x t dt ib res ob ap m'
  assume "dy_step_with_ports (container_dynamics call) m x t dt ib = Inr (res, ob, ap, m')"
  then have "container_step_with_ports call m x t dt ib = Inr (res, ob, ap, m')" by (simp add: container_dynamics_def)
  from container_step_InrD [OF this]
  show "sr_t_tai_ns res = wrap_i64 (t + dt) \<and>
      dy_state_dim (container_dynamics call) m' = dy_state_dim (container_dynamics call) m"
    by (simp add: container_dynamics_def) (metis held_step_def step_result.select_convs(2))
next
  fix m :: "'srv container_model" and x t dt res m'
  assume "dy_step (container_dynamics call) m x t dt = Inr (res, m')"
  then obtain ob ap where "container_step_with_ports call m x t dt inbox_empty = Inr (res, ob, ap, m')"
    by (auto simp: container_dynamics_def container_step_def ebind_eq_Inr)
  from container_step_InrD [OF this]
  show "sr_t_tai_ns res = wrap_i64 (t + dt) \<and>
      dy_state_dim (container_dynamics call) m' = dy_state_dim (container_dynamics call) m"
    by (simp add: container_dynamics_def) (metis held_step_def step_result.select_convs(2))
qed (simp_all add: container_dynamics_def)


section \<open>Playback\<close>

text \<open>The frames of one epoch, in the order of the recs.\<close>

lemma frames_sorted: "bt_sorted (fold add_frame recs m)" if "bt_sorted m"
  using that by (induction recs arbitrary: m) (simp_all add: add_frame_def bt_sorted_insert)

definition frames_at :: "(i64, (string \<times> bytes) list) btree \<Rightarrow> i64 \<Rightarrow> (string \<times> bytes) list" where
  "frames_at m t = (case bt_get m t of Some fs \<Rightarrow> fs | None \<Rightarrow> [])"

lemma frames_at_fold:
  "frames_at (fold add_frame recs m) t =
     frames_at m t @ map (\<lambda>r. (ptr_port r, ptr_payload r)) (filter (\<lambda>r. ptr_tai_ns r = t) recs)"
  by (induction recs arbitrary: m) (auto simp: frames_at_def add_frame_def)

text \<open>The messages a log holds of an instance for the epochs after \<open>t\<close> up to \<open>fin\<close>.\<close>

definition record_message :: "port_traffic_record \<Rightarrow> port_message" where
  "record_message r = \<lparr>po_port = ptr_port r, po_tai_ns = ptr_tai_ns r, po_payload = ptr_payload r\<rparr>"

definition recorded_messages :: "string \<Rightarrow> port_traffic_record list \<Rightarrow> i64 \<Rightarrow> i64 \<Rightarrow> port_message list" where
  "recorded_messages inst recs t fin =
     sort_key po_tai_ns (map record_message (filter (\<lambda>r. own_out inst r \<and> t < ptr_tai_ns r \<and> ptr_tai_ns r \<le> fin) recs))"

lemma frame_messages_tai: "m \<in> set (frame_messages e) \<Longrightarrow> po_tai_ns m = fst e"
  by (auto simp: frame_messages_def)

lemma bt_get_Cons: "bt_get (e # m) k = (if k = fst e then Some (snd e) else bt_get m k)"
  by (cases e) (auto simp: bt_get_def)

lemma bt_get_above: "bt_sorted (e # m) \<Longrightarrow> k \<le> fst e \<Longrightarrow> bt_get m k = None"
  by (cases e) (fastforce simp: bt_sorted_Cons bt_get_def map_of_eq_None_iff)

lemma filter_messages_at:
  "bt_sorted m \<Longrightarrow> filter (\<lambda>x. po_tai_ns x = k) (concat (map frame_messages m)) = frame_messages (k, frames_at m k)"
proof (induction m)
  case Nil
  then show ?case by (simp add: frames_at_def frame_messages_def)
next
  case (Cons e m)
  have sm: "bt_sorted m" using Cons.prems by (cases e) (simp add: bt_sorted_Cons)
  show ?case
  proof (cases "fst e = k")
    case True
    have "filter (\<lambda>x. po_tai_ns x = k) (frame_messages e) = frame_messages e"
      using frame_messages_tai True by (auto simp: filter_id_conv)
    moreover have "frames_at m k = []"
      using bt_get_above [OF Cons.prems] True by (simp add: frames_at_def)
    ultimately show ?thesis using Cons.IH [OF sm] True
      by (simp add: frames_at_def bt_get_Cons) (simp add: frame_messages_def True)
  next
    case False
    have "filter (\<lambda>x. po_tai_ns x = k) (frame_messages e) = []"
      using frame_messages_tai False by (auto simp: filter_empty_conv)
    then show ?thesis using Cons.IH [OF sm] False by (simp add: frames_at_def bt_get_Cons)
  qed
qed

lemma sorted_messages: "bt_sorted m \<Longrightarrow> sorted (map po_tai_ns (concat (map frame_messages m)))"
proof (induction m)
  case Nil
  then show ?case by simp
next
  case (Cons e m)
  have "sorted (map po_tai_ns (frame_messages e))"
    by (simp add: frame_messages_def comp_def map_replicate_const)
  then show ?case using Cons frame_messages_tai
    by (cases e) (force simp: bt_sorted_Cons sorted_append)
qed

lemma bt_sorted_filter: "bt_sorted m \<Longrightarrow> bt_sorted (filter P m)"
  by (simp add: bt_sorted_def sorted_filter distinct_map_filter)

lemma bt_get_filter: "bt_get (filter (\<lambda>e. P (fst e)) m) k = (if P k then bt_get m k else None)"
  by (induction m) (auto simp: bt_get_Cons)

lemma due_frames_recorded:
  assumes "rm_frames_by_epoch m = fold add_frame (filter (own_out inst) recs) []"
  shows "concat (map frame_messages (due_frames m t fin)) = recorded_messages inst recs t fin"
proof -
  define rs where "rs = filter (own_out inst) recs"
  define fr where "fr = due_frames m t fin"
  define ms where "ms = concat (map frame_messages fr)"
  define xs where "xs = map record_message (filter (\<lambda>r. t < ptr_tai_ns r \<and> ptr_tai_ns r \<le> fin) rs)"
  have sfr: "bt_sorted fr"
    using frames_sorted [of "[]" rs] by (simp add: fr_def due_frames_def assms rs_def bt_sorted_filter)
  have "frames_at fr k = (if t < k \<and> k \<le> fin then frames_at (fold add_frame rs []) k else [])" for k
    using bt_get_filter [of "\<lambda>k. t < k \<and> k \<le> fin" "fold add_frame rs []" k]
    by (simp add: frames_at_def fr_def due_frames_def assms rs_def)
  then have fr_at: "frames_at fr k = (if t < k \<and> k \<le> fin
      then map (\<lambda>r. (ptr_port r, ptr_payload r)) (filter (\<lambda>r. ptr_tai_ns r = k) rs) else [])" for k
    by (simp add: frames_at_fold) (simp add: frames_at_def)
  have at: "frames_at fr k = map (\<lambda>r. (ptr_port r, ptr_payload r)) (filter (\<lambda>r. ptr_tai_ns r = k)
      (filter (\<lambda>r. t < ptr_tai_ns r \<and> ptr_tai_ns r \<le> fin) rs))" for k
  proof -
    have "filter (\<lambda>r. ptr_tai_ns r = k) (filter (\<lambda>r. t < ptr_tai_ns r \<and> ptr_tai_ns r \<le> fin) rs) =
        (if t < k \<and> k \<le> fin then filter (\<lambda>r. ptr_tai_ns r = k) rs else [])"
      by (induction rs) auto
    then show ?thesis unfolding fr_at by simp
  qed
  have group: "filter (\<lambda>x. po_tai_ns x = k) ms = filter (\<lambda>x. po_tai_ns x = k) xs" for k
    unfolding ms_def filter_messages_at [OF sfr] at
    by (simp add: xs_def frame_messages_def filter_map comp_def record_message_def cong: filter_cong map_cong)
  have "mset ms = mset xs"
  proof (rule multiset_eqI)
    fix x :: port_message
    have c: "count (mset ys) x = count (mset (filter (\<lambda>y. po_tai_ns y = po_tai_ns x) ys)) x" for ys :: "port_message list"
      by simp
    show "count (mset ms) x = count (mset xs) x" unfolding c [of ms] c [of xs] group ..
  qed
  then have "sort_key po_tai_ns xs = ms"
  proof (rule properties_for_sort_key [OF _ _ sorted_messages [OF sfr, folded ms_def]])
    fix k assume "k \<in> set ms"
    show "filter (\<lambda>x. po_tai_ns k = po_tai_ns x) ms = filter (\<lambda>x. po_tai_ns k = po_tai_ns x) xs"
      using group [of "po_tai_ns k"] by (simp add: eq_commute)
  qed
  then show ?thesis
    by (simp add: recorded_messages_def xs_def ms_def fr_def rs_def)
qed


lemma recorded_messages_split:
  assumes "rm_frames_by_epoch (m :: replay_model) = fold add_frame (filter (own_out inst) recs) []"
    and "t \<le> a" and "a \<le> fin"
  shows "recorded_messages inst recs t a @ recorded_messages inst recs a fin = recorded_messages inst recs t fin"
proof -
  have "filter (\<lambda>e. t < fst e \<and> fst e \<le> a) es @ filter (\<lambda>e. a < fst e \<and> fst e \<le> fin) es =
      filter (\<lambda>e. t < fst e \<and> fst e \<le> fin) es" if "bt_sorted es" for es :: "(i64, (string \<times> bytes) list) btree"
    using that
  proof (induction es)
    case Nil
    then show ?case by simp
  next
    case (Cons e es)
    then have IH: "filter (\<lambda>e. t < fst e \<and> fst e \<le> a) es @ filter (\<lambda>e. a < fst e \<and> fst e \<le> fin) es =
      filter (\<lambda>e. t < fst e \<and> fst e \<le> fin) es" and above: "\<forall>x \<in> set es. fst e < fst x"
      by (cases e; auto simp: bt_sorted_Cons)+
    have "a < fst e \<Longrightarrow> filter (\<lambda>e. t < fst e \<and> fst e \<le> a) es = []"
      using above by (fastforce simp: filter_empty_conv)
    then show ?case using IH assms(2,3) by auto
  qed
  then have "due_frames m t a @ due_frames m a fin = due_frames m t fin"
    using frames_sorted [of "[]" "filter (own_out inst) recs"] by (simp add: due_frames_def assms(1))
  then show ?thesis
    using due_frames_recorded [OF assms(1)] by (metis concat_append map_append)
qed

text \<open>A model stepped \<open>n\<close> times by \<open>dt\<close> from \<open>t\<close>, as the scheduler steps it, and all it emits.\<close>

primrec replay_run :: "replay_model \<Rightarrow> i64 \<Rightarrow> i64 \<Rightarrow> nat \<Rightarrow> replay_error + port_message list" where
  "replay_run m dt t 0 = Inr []"
| "replay_run m dt t (Suc n) =
     ebind (replay_step_with_ports m [] t dt inbox_empty) (\<lambda>(res, ob, ap, m').
     ebind (replay_run m' dt (sr_t_tai_ns res) n) (\<lambda>rest. Inr (ob @ rest)))"

lemma replay_run_recorded:
  assumes "rm_board m = None" and "rm_frames_by_epoch m = fold add_frame (filter (own_out inst) recs) []"
    and "0 \<le> dt" and "i64_min \<le> t" and "t + int n * dt \<le> i64_max"
    and "replay_run m dt t n = Inr msgs"
  shows "msgs = recorded_messages inst recs t (t + int n * dt)"
  using assms(4-6)
proof (induction n arbitrary: t msgs)
  case 0
  then show ?case by (simp add: recorded_messages_def filter_empty_conv)
next
  case (Suc n)
  define k where "k = int n * dt"
  have le: "0 \<le> k" and end_eq: "t + int (Suc n) * dt = (t + dt) + k"
    using assms(3) by (simp_all add: k_def algebra_simps)
  have "in_i64 (t + dt)"
    using le Suc.prems(1,2) assms(3) unfolding end_eq by (simp add: in_i64_def)
  then have w: "wrap_i64 (t + dt) = t + dt" by (rule wrap_i64_id)
  obtain res ob ap m' rest where st: "replay_step_with_ports m [] t dt inbox_empty = Inr (res, ob, ap, m')"
    and rest: "replay_run m' dt (sr_t_tai_ns res) n = Inr rest" and msgs: "msgs = ob @ rest"
    using Suc.prems(3) by (auto simp: ebind_eq_Inr)
  have keep: "m' = m" "sr_t_tai_ns res = t + dt"
    using replay_step_keeps [OF st] w by (auto simp: held_step_def) (metis step_result.select_convs(2))
  have ob: "ob = recorded_messages inst recs t (t + dt)"
    using st w assms(1) due_frames_recorded [OF assms(2)]
    by (auto simp: replay_step_with_ports_def Let_def split: if_splits)
  have "rest = recorded_messages inst recs (t + dt) ((t + dt) + k)"
    unfolding k_def
    by (rule Suc.IH) (use Suc.prems(1,2) rest keep assms(3) end_eq in \<open>simp_all add: k_def\<close>)
  then show ?case
    unfolding msgs ob end_eq using recorded_messages_split [OF assms(2), of t "t + dt" "t + dt + k"] le assms(3)
    by simp
qed

text \<open>
  C27: (playback is the record) a replay model made from a log and stepped \<open>n\<close> times by one period
  without an error emits exactly the frames the log holds as sent by its instance in that span: each
  at its own epoch, in epoch order and, within an epoch, in the order of the log.
\<close>

theorem replay_plays_the_log:
  assumes "replay_run (replay_new inst info d recs) dt t n = Inr msgs"
    and "0 \<le> dt" and "i64_min \<le> t" and "t + int n * dt \<le> i64_max"
  shows "msgs = recorded_messages inst recs t (t + int n * dt)"
  by (rule replay_run_recorded [OF _ _ assms(2-4,1)]) (simp_all add: replay_new_def Let_def)

definition wit_info :: model_info where
  "wit_info = \<lparr>mi_id = ''m'', mi_settings_hash = ''h'', mi_depth = ''d'', mi_state_space_id = ''s'', mi_frame_id = ''f''\<rparr>"

definition wit_record :: "i64 \<Rightarrow> bytes \<Rightarrow> port_traffic_record" where
  "wit_record t p =
     \<lparr>ptr_instance = ''a'', ptr_port = ''tx'', ptr_direction = Pd_Out, ptr_tai_ns = t, ptr_payload = p, ptr_sequence = 0\<rparr>"

theorem replay_plays_the_log_witness:
  "replay_run (replay_new ''a'' wit_info 0 [wit_record 7 [1], wit_record 3 [2]]) 5 0 2 =
     Inr [record_message (wit_record 3 [2]), record_message (wit_record 7 [1])] \<and>
   recorded_messages ''a'' [wit_record 7 [1], wit_record 3 [2]] 0 10 =
     [record_message (wit_record 3 [2]), record_message (wit_record 7 [1])]"
proof -
  have ok: "replay_run (replay_new ''a'' wit_info 0 [wit_record 7 [1], wit_record 3 [2]]) 5 0 2 =
      Inr [record_message (wit_record 3 [2]), record_message (wit_record 7 [1])]"
    by code_simp
  show ?thesis using ok replay_plays_the_log [OF ok] by (simp add: i64_min_def i64_max_def)
qed


section \<open>Systems with nothing to play\<close>

definition plays_nothing :: "replay_model \<Rightarrow> bool" where
  "plays_nothing m \<longleftrightarrow> rm_frames_by_epoch m = [] \<and> rm_board m = None"

lemma quiet_replay: "quiet_models replay_dynamics plays_nothing"
  by (auto simp: quiet_models_def replay_dynamics_def plays_nothing_def replay_step_def replay_step_with_ports_def
      due_frames_def Let_def)

definition wit_quiet :: "i64 \<Rightarrow> replay_model hetero_system" where
  "wit_quiet period =
     \<lparr>hs_period_ns = period, hs_model = replay_new ''a'' wit_info 6 [], hs_next_due_ns = period, hs_prev = None,
      hs_curr = (0, replicate 6 (FZero False)), hs_outputs = [], hs_applied_commands = [], hs_measurements = [],
      hs_sensor_fault_effect = (None, 0), hs_decode_errors = [], hs_decode_successes = []\<rparr>"

theorem interleaving_is_sequential_witness:
  "\<exists>sys'. hetero_advance_to replay_dynamics 5 [(''a'', wit_quiet 2), (''b'', wit_quiet 3)] = Some (Inr sys') \<and>
     advance_to_with_ports replay_dynamics 5 [(''a'', wit_quiet 2), (''b'', wit_quiet 3)] router_empty =
       Some (Inr (sys', router_empty, None))"
proof -
  have "case hetero_advance_to replay_dynamics 5 [(''a'', wit_quiet 2), (''b'', wit_quiet 3)] of
      Some (Inr x) \<Rightarrow> True | _ \<Rightarrow> False"
    by code_simp
  then obtain sys' where up: "hetero_advance_to replay_dynamics 5 [(''a'', wit_quiet 2), (''b'', wit_quiet 3)] = Some (Inr sys')"
    by (auto split: option.splits sum.splits)
  have q: "quiet_systems replay_dynamics plays_nothing [(''a'', wit_quiet 2), (''b'', wit_quiet 3)]"
    by (simp add: quiet_systems_def plays_nothing_def wit_quiet_def replay_new_def replay_dynamics_def Let_def)
  have on: "all_on_schedule replay_dynamics 0 5 5 [(''a'', wit_quiet 2), (''b'', wit_quiet 3)]"
    by (simp add: all_on_schedule_def on_schedule_def wit_quiet_def replay_new_def replay_dynamics_def Let_def
        i64_min_def i64_max_def)
  show ?thesis
    using up interleaving_is_sequential [OF replay.clocked_model_axioms quiet_replay q on _ up]
    by (simp add: router_empty_def)
qed

definition wit_pacer :: "int pacer" where
  "wit_pacer = (case begin_run wit_clock 0 1 (pacer_new 0 []) of Inr p \<Rightarrow> p | Inl e \<Rightarrow> pacer_new 0 [])"

theorem pacing_is_transparent_witness:
  "map_option unpaced (advance_to_with_ports_paced replay_dynamics wit_clock 5 [(''a'', wit_quiet 2)] router_empty (Some wit_pacer)) =
   map_option unpaced (advance_to_with_ports replay_dynamics 5 [(''a'', wit_quiet 2)] router_empty)"
proof -
  have "anchored (Some wit_pacer)"
    by (simp add: anchored_def wit_pacer_def begin_run_def pacer_new_def pacer_now_def wit_clock_def)
  then show ?thesis by (rule pacing_is_transparent)
qed

end
