(* ===== verification/Kernel_Run.thy ===== *)
theory Kernel_Run
  imports Kernel_Models
begin

text \<open>
  The kernel's run with ports: \<open>HeteroKernel\<close> of \<open>av-kernel/src/kernel.rs\<close>, the cubic Hermite
  interpolation of \<open>interpolate.rs\<close> and \<open>build_trajectory\<close> of \<open>trajectory.rs\<close>. Failed assertions are
  the error \<open>Hk_Panic\<close>; a run that does not end is None.
\<close>

section \<open>Interpolation\<close>

definition f_lit :: "rat \<Rightarrow> f64" where "f_lit x = f_round binary64 False x"

text \<open>\<open>powi\<close> by squaring.\<close>

definition f_pow2 :: "f64 \<Rightarrow> f64" where "f_pow2 s = f_mul s s"
definition f_pow3 :: "f64 \<Rightarrow> f64" where "f_pow3 s = f_mul s (f_mul s s)"

record hermite_weights =
  hw_h00 :: f64
  hw_h10 :: f64
  hw_h01 :: f64
  hw_h11 :: f64

definition hermite_value_weights :: "f64 \<Rightarrow> hermite_weights" where
  "hermite_value_weights s =
     \<lparr>hw_h00 = f_add (f_sub (f_mul (f_lit 2) (f_pow3 s)) (f_mul (f_lit 3) (f_pow2 s))) (f_lit 1),
      hw_h10 = f_add (f_sub (f_pow3 s) (f_mul (f_lit 2) (f_pow2 s))) s,
      hw_h01 = f_add (f_mul (f_lit (-2)) (f_pow3 s)) (f_mul (f_lit 3) (f_pow2 s)),
      hw_h11 = f_sub (f_pow3 s) (f_pow2 s)\<rparr>"

definition hermite_rate_weights :: "f64 \<Rightarrow> hermite_weights" where
  "hermite_rate_weights s =
     \<lparr>hw_h00 = f_sub (f_mul (f_lit 6) (f_pow2 s)) (f_mul (f_lit 6) s),
      hw_h10 = f_add (f_sub (f_mul (f_lit 3) (f_pow2 s)) (f_mul (f_lit 4) s)) (f_lit 1),
      hw_h01 = f_add (f_mul (f_lit (-6)) (f_pow2 s)) (f_mul (f_lit 6) s),
      hw_h11 = f_sub (f_mul (f_lit 3) (f_pow2 s)) (f_mul (f_lit 2) s)\<rparr>"

text \<open>\<open>w00 * p0 + w10 * dt * v0 + w01 * p1 + w11 * dt * v1\<close>, from the left.\<close>

definition hermite_blend :: "hermite_weights \<Rightarrow> f64 \<Rightarrow> f64 \<Rightarrow> f64 \<Rightarrow> f64 \<Rightarrow> f64 \<Rightarrow> f64" where
  "hermite_blend w dt p0 v0 p1 v1 =
     f_add (f_add (f_add (f_mul (hw_h00 w) p0) (f_mul (f_mul (hw_h10 w) dt) v0)) (f_mul (hw_h01 w) p1))
       (f_mul (f_mul (hw_h11 w) dt) v1)"

definition hermite_velocity :: "i64 \<Rightarrow> f64 list \<Rightarrow> i64 \<Rightarrow> f64 list \<Rightarrow> i64 \<Rightarrow> f64 list option" where
  "hermite_velocity t0 s0 t1 s1 t =
     (if length s0 \<noteq> length s1 \<or> length s0 < 6 \<or> \<not> t1 > t0 then None
      else
        let dt = f_mul (f_of_int (wrap_i64 (t1 - t0))) (f_lit (1 / 10 ^ 9));
            s = f_div (f_mul (f_of_int (wrap_i64 (t - t0))) (f_lit (1 / 10 ^ 9))) dt;
            w = hermite_value_weights s;
            dw = hermite_rate_weights s
        in Some (map (\<lambda>i. hermite_blend w dt (s0 ! i) (s0 ! (3 + i)) (s1 ! i) (s1 ! (3 + i))) [0..<3] @
                 map (\<lambda>i. f_div (hermite_blend dw dt (s0 ! i) (s0 ! (3 + i)) (s1 ! i) (s1 ! (3 + i))) dt) [0..<3] @
                 map (\<lambda>i. if f_lt s (f_lit (1 / 2)) then s0 ! i else s1 ! i) [6..<length s0]))"

section \<open>Trajectories\<close>

datatype pb_sample_kind = Sk_Native | Sk_Interpolated | Sk_Held

record trajectory_sample =
  ts_tai_ns :: i64
  ts_mean :: "f64 list"
  ts_cov :: "f64 list"
  ts_kind :: pb_sample_kind

record trajectory_segment =
  sg_name :: string
  sg_start_tai_ns :: i64
  sg_end_tai_ns :: i64
  sg_dynamics_model :: string
  sg_dynamics_hash :: string
  sg_dynamics_depth :: string

record trajectory =
  tr_id :: string
  tr_entity_id :: string
  tr_state_space_id :: string
  tr_frame_id :: string
  tr_samples :: "trajectory_sample list"
  tr_segments :: "trajectory_segment list"

definition sample_with_cov :: "i64 \<Rightarrow> f64 list \<Rightarrow> f64 list option \<Rightarrow> pb_sample_kind \<Rightarrow> trajectory_sample" where
  "sample_with_cov t mean cov kind =
     \<lparr>ts_tai_ns = t, ts_mean = mean, ts_cov = (case cov of Some c \<Rightarrow> c | None \<Rightarrow> []), ts_kind = kind\<rparr>"

definition sample_covariance :: "trajectory_sample \<Rightarrow> f64 list option" where
  "sample_covariance s = (if ts_cov s = [] then None else Some (ts_cov s))"

definition build_trajectory :: "string \<Rightarrow> model_info \<Rightarrow> trajectory_sample list \<Rightarrow> i64 \<Rightarrow> i64 \<Rightarrow> trajectory" where
  "build_trajectory i info samples start fin =
     \<lparr>tr_id = i @ ''-trajectory'', tr_entity_id = i, tr_state_space_id = mi_state_space_id info,
      tr_frame_id = mi_frame_id info, tr_samples = samples,
      tr_segments = [\<lparr>sg_name = i, sg_start_tai_ns = start, sg_end_tai_ns = fin, sg_dynamics_model = mi_id info,
        sg_dynamics_hash = mi_settings_hash info, sg_dynamics_depth = mi_depth info\<rparr>]\<rparr>"

section \<open>The run\<close>

datatype 'e hetero_kernel_error =
    Hk_BasePeriod base_period_error
  | Hk_Schedule "'e schedule_error"
  | Hk_Pacing pacing_error
  | Hk_Panic

type_synonym sample_series = "(string, trajectory_sample list) btree"

definition sched_result :: "'e schedule_error + 'a \<Rightarrow> 'e hetero_kernel_error + 'a" where
  "sched_result r = map_sum Hk_Schedule id r"

definition hetero_state_dim :: "('m, 'e) dynamics \<Rightarrow> 'm hetero_systems \<Rightarrow> string \<Rightarrow> nat option" where
  "hetero_state_dim dy sys i = map_option (\<lambda>s. dy_state_dim dy (hs_model s)) (bt_get sys i)"

definition hold_sample_kind :: "hold_kind \<Rightarrow> pb_sample_kind" where
  "hold_sample_kind h = (case h of Fresh \<Rightarrow> Sk_Native | Held \<Rightarrow> Sk_Held)"

definition kernel_sample ::
  "('m, 'e) dynamics \<Rightarrow> 'm hetero_systems \<Rightarrow> string \<Rightarrow> i64 \<Rightarrow> 'e hetero_kernel_error + trajectory_sample" where
  "kernel_sample dy sys i t =
     (if hetero_state_dim dy sys i = Some 0
      then ebind (sched_result (hetero_sample_held sys i t)) (\<lambda>(h, s).
             Inr (sample_with_cov t s None (hold_sample_kind h)))
      else ebind (sched_result (hetero_sample_kind sys i t)) (\<lambda>k.
             case k of
               Native s \<Rightarrow> Inr (sample_with_cov t s None Sk_Native)
             | Between t0 s0 t1 s1 \<Rightarrow>
                 (case hermite_velocity t0 s0 t1 s1 t of
                    None \<Rightarrow> Inl Hk_Panic
                  | Some s \<Rightarrow> Inr (sample_with_cov t s None Sk_Interpolated))))"

definition series_of :: "sample_series \<Rightarrow> string \<Rightarrow> trajectory_sample list" where
  "series_of ss i = (case bt_get ss i of Some xs \<Rightarrow> xs | None \<Rightarrow> [])"

primrec push_samples ::
  "('m, 'e) dynamics \<Rightarrow> 'm hetero_systems \<Rightarrow> i64 \<Rightarrow> string list \<Rightarrow> sample_series
     \<Rightarrow> 'e hetero_kernel_error + sample_series" where
  "push_samples dy sys t [] ss = Inr ss"
| "push_samples dy sys t (i # is) ss =
     ebind (kernel_sample dy sys i t) (\<lambda>s.
       push_samples dy sys t is (bt_insert i (series_of ss i @ [s]) ss))"

partial_function (option) run_loop ::
  "('m, 'e) dynamics \<Rightarrow> 'c pacing_clock \<Rightarrow> i64 \<Rightarrow> i64 \<Rightarrow> string list \<Rightarrow> i64 \<Rightarrow> 'm hetero_systems \<Rightarrow> router
     \<Rightarrow> 'c pacer option \<Rightarrow> sample_series
     \<Rightarrow> ('e hetero_kernel_error + (sample_series \<times> 'm hetero_systems \<times> router \<times> 'c pacer option)) option" where
  "run_loop dy clk period fin ids t sys r p ss =
     (case advance_to_with_ports_paced dy clk t sys (begin_step r) p of
        None \<Rightarrow> None
      | Some res \<Rightarrow>
          (case res of
             Inl e \<Rightarrow> Some (Inl (Hk_Schedule e))
           | Inr x \<Rightarrow>
               (case push_samples dy (fst x) t ids ss of
                  Inl e \<Rightarrow> Some (Inl e)
                | Inr ss' \<Rightarrow>
                    if t = fin then Some (Inr (ss', x))
                    else run_loop dy clk period fin ids (wrap_i64 (t + period)) (fst x) (fst (snd x)) (snd (snd x)) ss')))"

declare run_loop.simps [code]

definition pacer_begin_run ::
  "'c pacing_clock \<Rightarrow> i64 \<Rightarrow> i64 \<Rightarrow> 'c pacer option \<Rightarrow> 'e hetero_kernel_error + 'c pacer option" where
  "pacer_begin_run clk start base p =
     (case p of None \<Rightarrow> Inr None | Some q \<Rightarrow> map_sum Hk_Pacing Some (begin_run clk start base q))"

definition trajectories_of ::
  "('m, 'e) dynamics \<Rightarrow> 'm hetero_systems \<Rightarrow> i64 \<Rightarrow> i64 \<Rightarrow> sample_series \<Rightarrow> (string, trajectory) btree" where
  "trajectories_of dy sys start fin ss =
     map (\<lambda>e. (fst e, build_trajectory (fst e) (dy_describe dy (hs_model (snd e))) (series_of ss (fst e)) start fin)) sys"

definition run_with_ports_inner ::
  "('m, 'e) dynamics \<Rightarrow> 'c pacing_clock \<Rightarrow> i64 \<Rightarrow> i64 \<Rightarrow> i64 \<Rightarrow> 'm hetero_systems \<Rightarrow> router \<Rightarrow> 'c pacer option
     \<Rightarrow> ('e hetero_kernel_error + ((string, trajectory) btree \<times> 'm hetero_systems \<times> router \<times> 'c pacer option)) option" where
  "run_with_ports_inner dy clk period start fin sys r p =
     (if \<not> fin > start \<or> i64_rem (wrap_i64 (fin - start)) period \<noteq> 0 then Some (Inl Hk_Panic)
      else case hetero_base_period_ns period sys of
        Inl e \<Rightarrow> Some (Inl (Hk_BasePeriod e))
      | Inr base \<Rightarrow>
          (case pacer_begin_run clk start base p of
             Inl e \<Rightarrow> Some (Inl e)
           | Inr p' \<Rightarrow>
               map_option (map_sum id (\<lambda>x. (trajectories_of dy (fst (snd x)) start fin (fst x), snd x)))
                 (run_loop dy clk period fin (bt_keys sys) start sys r p' (map (\<lambda>i. (i, [])) (bt_keys sys)))))"

definition run_with_ports ::
  "('m, 'e) dynamics \<Rightarrow> i64 \<Rightarrow> i64 \<Rightarrow> i64 \<Rightarrow> 'm hetero_systems \<Rightarrow> router
     \<Rightarrow> ('e hetero_kernel_error + ((string, trajectory) btree \<times> 'm hetero_systems \<times> router \<times> unit pacer option)) option" where
  "run_with_ports dy period start fin sys r = run_with_ports_inner dy no_pacing period start fin sys r None"


section \<open>A run samples the output grid\<close>

lemma hetero_lookup: "bt_sorted sys \<Longrightarrow> (i, s) \<in> set sys \<Longrightarrow> bt_get sys i = Some s"
  by (simp add: bt_get_eq_Some)

definition sampled_at :: "i64 \<Rightarrow> i64 \<Rightarrow> i64 \<Rightarrow> trajectory_sample \<Rightarrow> bool" where
  "sampled_at start period t x \<longleftrightarrow> ts_tai_ns x = t \<and> (ts_kind x = Sk_Native \<longleftrightarrow> period dvd t - start)"

lemma kernel_sample_ok:
  assumes "bt_sorted sys" and "(i, s) \<in> set sys" and "all_on_schedule dy start horizon t sys"
    and "next_time dy t sys = None"
  shows "kernel_sample dy sys i t = Inl Hk_Panic \<or>
    (\<exists>x. kernel_sample dy sys i t = Inr x \<and> sampled_at start (hs_period_ns s) t x)"
proof -
  have on: "on_schedule dy start horizon t s" and idle: "\<not> catch_up_eligible dy t s"
    using assms by (auto simp: all_on_schedule_def list_all_iff next_time_None)
  have get: "bt_get sys i = Some s" by (rule hetero_lookup [OF assms(1,2)])
  show ?thesis
  proof (cases "dy_state_dim dy (hs_model s) = 0")
    case True
    obtain x where "held_sample_of i t s = (Inr (if hs_period_ns s dvd t - start then Fresh else Held, x) :: 'b schedule_error + _)"
      using held_sample [OF on idle True] by blast
    then show ?thesis using True get
      by (simp add: kernel_sample_def hetero_state_dim_def hetero_sample_held_def sched_result_def
          sample_with_cov_def sampled_at_def hold_sample_kind_def)
  next
    case False
    obtain k where k: "sample_of i t s = (Inr k :: 'b schedule_error + _)" "(\<exists>x. k = Native x) \<longleftrightarrow> hs_period_ns s dvd t - start"
      using physical_sample [OF on idle False] by blast
    have "kernel_sample dy sys i t = ebind (Inr k) (\<lambda>k.
             case k of
               Native s \<Rightarrow> Inr (sample_with_cov t s None Sk_Native)
             | Between t0 s0 t1 s1 \<Rightarrow>
                 (case hermite_velocity t0 s0 t1 s1 t of
                    None \<Rightarrow> Inl Hk_Panic
                  | Some s \<Rightarrow> Inr (sample_with_cov t s None Sk_Interpolated)))"
      using False get k(1)
      by (simp add: kernel_sample_def hetero_state_dim_def hetero_sample_kind_def sched_result_def)
    then show ?thesis using k(2)
      by (cases k) (auto simp: sample_with_cov_def sampled_at_def split: option.split)
  qed
qed

text \<open>A series holds one sample for each output epoch up to the \<open>n\<close>th.\<close>

definition on_grid :: "i64 \<Rightarrow> i64 \<Rightarrow> nat \<Rightarrow> i64 \<Rightarrow> trajectory_sample list \<Rightarrow> bool" where
  "on_grid start period n hs xs \<longleftrightarrow>
     list_all2 (\<lambda>k x. sampled_at start hs (start + int k * period) x) [0..<n] xs"

definition series_on_grid :: "i64 \<Rightarrow> i64 \<Rightarrow> nat \<Rightarrow> (string, i64) btree \<Rightarrow> sample_series \<Rightarrow> bool" where
  "series_on_grid start period n ps ss \<longleftrightarrow> (\<forall>(i, hs) \<in> set ps. on_grid start period n hs (series_of ss i))"

lemma on_grid_snoc:
  "on_grid start period n hs xs \<Longrightarrow> sampled_at start hs (start + int n * period) x \<Longrightarrow>
   on_grid start period (Suc n) hs (xs @ [x])"
  by (simp add: on_grid_def) (rule list_all2_appendI, simp_all)

lemma push_samples_series:
  assumes "push_samples dy sys t is ss = Inr ss'" and "distinct is" and "bt_sorted sys"
    and "set is \<subseteq> fst ` set sys"
    and "all_on_schedule dy start horizon t sys" and "next_time dy t sys = None"
  shows "(\<forall>j. j \<notin> set is \<longrightarrow> series_of ss' j = series_of ss j) \<and>
    (\<forall>(i, s) \<in> set sys. i \<in> set is \<longrightarrow>
       (\<exists>x. series_of ss' i = series_of ss i @ [x] \<and> sampled_at start (hs_period_ns s) t x))"
  using assms(1,2,4)
proof (induction "is" arbitrary: ss)
  case Nil
  then show ?case by simp
next
  case (Cons i "is")
  obtain s where s: "(i, s) \<in> set sys" using Cons.prems(3) by fastforce
  obtain x where x: "kernel_sample dy sys i t = Inr x"
    and rest: "push_samples dy sys t is (bt_insert i (series_of ss i @ [x]) ss) = Inr ss'"
    using Cons.prems(1) by (auto simp: ebind_eq_Inr)
  have at: "sampled_at start (hs_period_ns s) t x"
    using kernel_sample_ok [OF assms(3) s assms(5,6)] x by auto
  have ser: "series_of (bt_insert i v ss) j = (if j = i then v else series_of ss j)" for j v
    by (simp add: series_of_def)
  have IH: "(\<forall>j. j \<notin> set is \<longrightarrow> series_of ss' j = (if j = i then series_of ss i @ [x] else series_of ss j)) \<and>
    (\<forall>(j, s) \<in> set sys. j \<in> set is \<longrightarrow>
       (\<exists>y. series_of ss' j = (if j = i then series_of ss i @ [x] else series_of ss j) @ [y] \<and>
         sampled_at start (hs_period_ns s) t y))"
    using Cons.IH [OF rest] Cons.prems(2,3) unfolding ser by simp
  have only: "s' = s" if "(i, s') \<in> set sys" for s'
    using hetero_lookup [OF assms(3) s] hetero_lookup [OF assms(3) that] by simp
  show ?case using IH at only Cons.prems(2) by fastforce
qed

lemma push_samples_Inl:
  assumes "push_samples dy sys t is ss = Inl e" and "bt_sorted sys" and "set is \<subseteq> fst ` set sys"
    and "all_on_schedule dy start horizon t sys" and "next_time dy t sys = None"
  shows "e = Hk_Panic"
  using assms(1,3)
proof (induction "is" arbitrary: ss)
  case Nil
  then show ?case by simp
next
  case (Cons i "is")
  then obtain s where s: "(i, s) \<in> set sys" by fastforce
  show ?case using kernel_sample_ok [OF assms(2) s assms(4,5)] Cons by (auto simp: ebind_eq_Inl)
qed


lemma periods_of_keys: "periods_of sys' = periods_of sys \<Longrightarrow> map fst sys' = map fst sys"
  unfolding periods_of_def by (drule arg_cong [of _ _ "map fst"]) (simp add: comp_def)

definition run_result ::
  "i64 \<Rightarrow> i64 \<Rightarrow> nat \<Rightarrow> (string, i64) btree
     \<Rightarrow> 'e hetero_kernel_error + (sample_series \<times> 'm hetero_systems \<times> router \<times> 'c pacer option) \<Rightarrow> bool" where
  "run_result start period n ps res \<longleftrightarrow>
     (case res of
        Inl e \<Rightarrow> e = Hk_Panic \<or> (\<exists>x. e = Hk_Schedule (Sched_Model x))
      | Inr x \<Rightarrow> series_on_grid start period n ps (fst x) \<and> periods_of (fst (snd x)) = ps)"

lemma run_result_simps:
  "run_result start period n ps (Inl e) \<longleftrightarrow> e = Hk_Panic \<or> (\<exists>x. e = Hk_Schedule (Sched_Model x))"
  "run_result start period n ps (Inr x) \<longleftrightarrow> series_on_grid start period n ps (fst x) \<and> periods_of (fst (snd x)) = ps"
  by (simp_all add: run_result_def)

lemma push_samples_grid:
  assumes push: "push_samples dy sys t (bt_keys sys) ss = Inr ss'" and "bt_sorted sys"
    and "all_on_schedule dy start horizon t sys" and "next_time dy t sys = None"
    and grid: "series_on_grid start period n (periods_of sys) ss" and "t = start + int n * period"
  shows "series_on_grid start period (Suc n) (periods_of sys) ss'"
proof -
  have keys: "distinct (bt_keys sys)" "set (bt_keys sys) \<subseteq> fst ` set sys"
    using assms(2) by (simp_all add: bt_sorted_def bt_keys_def)
  note ser = push_samples_series [OF push keys(1) assms(2) keys(2) assms(3,4)]
  show ?thesis
    unfolding series_on_grid_def
  proof (intro ballI, clarify)
    fix i hs assume "(i, hs) \<in> set (periods_of sys)"
    then obtain s where s: "(i, s) \<in> set sys" "hs = hs_period_ns s" by (auto simp: periods_of_def)
    have "i \<in> set (bt_keys sys)" using s(1) by (force simp: bt_keys_def)
    then obtain x where x: "series_of ss' i = series_of ss i @ [x]" "sampled_at start hs t x"
      using ser s by fastforce
    have "on_grid start period n hs (series_of ss i)"
      using grid s by (force simp: series_on_grid_def periods_of_def)
    then show "on_grid start period (Suc n) hs (series_of ss' i)"
      unfolding x(1) by (rule on_grid_snoc) (use x(2) assms(6) in simp)
  qed
qed

context clocked_model
begin

text \<open>One turn of the run: it fails as a run may, or it leaves the schedule and the grid in place.\<close>

lemma run_loop_turn:
  assumes "all_on_schedule dy start fin t sys" and "anchored p" and "bt_sorted sys"
    and "series_on_grid start period n (periods_of sys) ss" and "t = start + int n * period"
  obtains (failed) e where "run_loop dy clk period fin (bt_keys sys) t sys r p ss = Some (Inl e)"
      "e = Hk_Panic \<or> (\<exists>x. e = Hk_Schedule (Sched_Model x))"
  | (sampled) sys' r' p' ss' where
      "run_loop dy clk period fin (bt_keys sys) t sys r p ss =
         (if t = fin then Some (Inr (ss', sys', r', p'))
          else run_loop dy clk period fin (bt_keys sys') (wrap_i64 (t + period)) sys' r' p' ss')"
      "all_on_schedule dy start fin t sys'" "anchored p'" "bt_sorted sys'" "periods_of sys' = periods_of sys"
      "series_on_grid start period (Suc n) (periods_of sys) ss'"
proof -
  note unfold = run_loop.simps [of dy clk period fin "bt_keys sys" t sys r p ss]
  obtain res where adv: "advance_to_with_ports_paced dy clk t sys (begin_step r) p = Some res"
    "advanced start fin t (periods_of sys) res"
    using advance_returns [OF assms(1,2)] by blast
  show ?thesis
  proof (cases res)
    case (Inl e)
    then show ?thesis using adv failed by (auto simp: unfold advanced_def)
  next
    case (Inr x)
    obtain sys' r' p' where x: "x = (sys', r', p')" by (cases x)
    have ok: "all_on_schedule dy start fin t sys'" "periods_of sys' = periods_of sys"
      "next_time dy t sys' = None" "anchored p'"
      using adv(2) Inr by (simp_all add: advanced_def x)
    have keys: "bt_keys sys = bt_keys sys'" and sorted: "bt_sorted sys'"
      using periods_of_keys [OF ok(2)] assms(3) by (simp_all add: bt_keys_def bt_sorted_def)
    show ?thesis
    proof (cases "push_samples dy sys' t (bt_keys sys') ss")
      case push: (Inl e)
      have "set (bt_keys sys') \<subseteq> fst ` set sys'" by (simp add: bt_keys_def)
      from push_samples_Inl [OF push sorted this ok(1,3)] push adv(1) Inr
      have "run_loop dy clk period fin (bt_keys sys) t sys r p ss = Some (Inl Hk_Panic)"
        unfolding unfold by (simp add: x keys)
      then show ?thesis by (rule failed) simp
    next
      case push: (Inr ss')
      have "series_on_grid start period (Suc n) (periods_of sys') ss'"
        by (rule push_samples_grid [OF push sorted ok(1,3) _ assms(5)]) (use assms(4) ok(2) in simp)
      then show ?thesis
        using sampled [of ss' sys' r' p'] push adv(1) Inr ok sorted unfolding unfold by (simp add: x keys)
    qed
  qed
qed

lemma run_loop_grid:
  assumes "0 < period" and "i64_min \<le> start" and "fin \<le> i64_max"
  shows "all_on_schedule dy start fin t sys \<Longrightarrow> anchored p \<Longrightarrow> bt_sorted sys \<Longrightarrow>
    series_on_grid start period n (periods_of sys) ss \<Longrightarrow> t = start + int n * period \<Longrightarrow> fin = t + int m * period \<Longrightarrow>
    \<exists>res. run_loop dy clk period fin (bt_keys sys) t sys r p ss = Some res \<and>
      run_result start period (Suc (n + m)) (periods_of sys) res"
proof (induction m arbitrary: n t sys r p ss)
  case 0
  show ?case by (rule run_loop_turn [OF 0(1-5), of clk r]) (use 0(6) in \<open>auto simp: run_result_simps\<close>)
next
  case (Suc m)
  define k where "k = int m * period"
  have k: "0 \<le> k" "fin = t + period + k" "start \<le> t"
    using assms(1) Suc.prems(5,6) by (simp_all add: k_def algebra_simps)
  then have w: "wrap_i64 (t + period) = t + period"
    using assms by (intro wrap_i64_id) (simp add: in_i64_def)
  show ?case
  proof (rule run_loop_turn [OF Suc.prems(1-5), of clk r])
    fix e
    assume "run_loop dy clk period fin (bt_keys sys) t sys r p ss = Some (Inl e)"
      "e = Hk_Panic \<or> (\<exists>x. e = Hk_Schedule (Sched_Model x))"
    then show ?thesis by (simp add: run_result_simps)
  next
    fix sys' r' p' ss'
    assume eq: "run_loop dy clk period fin (bt_keys sys) t sys r p ss =
         (if t = fin then Some (Inr (ss', sys', r', p'))
          else run_loop dy clk period fin (bt_keys sys') (wrap_i64 (t + period)) sys' r' p' ss')"
      and ok: "all_on_schedule dy start fin t sys'" "anchored p'" "bt_sorted sys'" "periods_of sys' = periods_of sys"
      "series_on_grid start period (Suc n) (periods_of sys) ss'"
    have later: "all_on_schedule dy start fin (t + period) sys'"
      by (rule all_on_schedule_later [OF ok(1)]) (use assms(1) k in simp_all)
    have "\<exists>res. run_loop dy clk period fin (bt_keys sys') (t + period) sys' r' p' ss' = Some res \<and>
        run_result start period (Suc (Suc n + m)) (periods_of sys') res"
      by (rule Suc.IH [OF later ok(2,3)])
         (use ok(4,5) Suc.prems(5) k(2) in \<open>simp_all add: k_def algebra_simps\<close>)
    moreover have "t \<noteq> fin" using k assms(1) by simp
    ultimately show ?thesis using eq w ok(4) by simp
  qed
qed

end


text \<open>
  What the theorems on a run assume of it: models that keep the clock, a map of systems registered at
  the start with their epochs within an i64 up to two periods after the end, and an output period.
\<close>

definition run_ready :: "('m, 'e) dynamics \<Rightarrow> i64 \<Rightarrow> i64 \<Rightarrow> i64 \<Rightarrow> 'm hetero_systems \<Rightarrow> bool" where
  "run_ready dy period start fin sys \<longleftrightarrow>
     0 < period \<and> i64_min \<le> start \<and> start < fin \<and> fin \<le> i64_max \<and> fin - start \<le> i64_max \<and> bt_sorted sys \<and>
     all_on_schedule dy start fin start sys"

lemma no_samples_on_grid: "series_on_grid start period 0 (periods_of sys) (map (\<lambda>i. (i, [])) (bt_keys sys))"
proof -
  have "series_of (map (\<lambda>i. (i, [])) ks) j = []" for ks j
    by (induction ks) (simp_all add: series_of_def bt_get_Cons)
  then show ?thesis by (auto simp: series_on_grid_def on_grid_def)
qed

lemma ready_steps:
  assumes "run_ready dy period start fin sys" and "i64_rem (wrap_i64 (fin - start)) period = 0"
  shows "fin = start + int (nat ((fin - start) div period)) * period"
proof -
  have "wrap_i64 (fin - start) = fin - start"
    using assms(1) by (intro wrap_i64_id) (simp add: run_ready_def in_i64_def i64_min_def)
  then have "(fin - start) mod period = 0"
    using assms by (simp add: run_ready_def i64_rem_nonneg)
  then have "(fin - start) div period * period = fin - start"
    using div_mult_mod_eq [of "fin - start" period] by simp
  moreover have "0 \<le> (fin - start) div period"
    using assms(1) by (simp add: run_ready_def pos_imp_zdiv_nonneg_iff)
  ultimately show ?thesis by simp
qed

context clocked_model
begin

lemma ready_run:
  assumes "run_ready dy period start fin sys" and "i64_rem (wrap_i64 (fin - start)) period = 0" and "anchored p"
  shows "\<exists>res. run_loop dy clk period fin (bt_keys sys) start sys r p (map (\<lambda>i. (i, [])) (bt_keys sys)) = Some res \<and>
    run_result start period (Suc (nat ((fin - start) div period))) (periods_of sys) res"
proof -
  define m where "m = nat ((fin - start) div period)"
  have m: "fin = start + int m * period" using ready_steps [OF assms(1,2)] by (simp add: m_def)
  have "\<exists>res. run_loop dy clk period fin (bt_keys sys) start sys r p (map (\<lambda>i. (i, [])) (bt_keys sys)) = Some res \<and>
    run_result start period (Suc (0 + m)) (periods_of sys) res"
    by (rule run_loop_grid) (use assms m no_samples_on_grid in \<open>simp_all add: run_ready_def\<close>)
  then show ?thesis by (simp add: m_def)
qed

text \<open>A ready run is refused before its first turn, or is its loop.\<close>

lemma ready_run_cases:
  assumes "run_ready dy period start fin sys"
  obtains (refused) e where "run_with_ports_inner dy clk period start fin sys r p = Some (Inl e)"
      "\<And>x. e \<noteq> Hk_Schedule x"
  | (driven) res where
      "run_with_ports_inner dy clk period start fin sys r p =
         Some (map_sum id (\<lambda>x. (trajectories_of dy (fst (snd x)) start fin (fst x), snd x)) res)"
      "run_result start period (Suc (nat ((fin - start) div period))) (periods_of sys) res"
proof (cases "i64_rem (wrap_i64 (fin - start)) period = 0")
  case False
  then show ?thesis by (intro refused [of Hk_Panic]) (simp_all add: run_with_ports_inner_def)
next
  case exact: True
  have go: "fin > start" using assms by (simp add: run_ready_def)
  show ?thesis
  proof (cases "hetero_base_period_ns period sys")
    case (Inl e)
    then show ?thesis using exact go by (intro refused [of "Hk_BasePeriod e"]) (simp_all add: run_with_ports_inner_def)
  next
    case base: (Inr base)
    show ?thesis
    proof (cases "pacer_begin_run clk start base p :: 'e hetero_kernel_error + _")
      case (Inl e)
      then have "\<exists>x. e = Hk_Pacing x"
        by (cases p) (auto simp: pacer_begin_run_def map_sum_def split: sum.splits)
      then show ?thesis using exact go base Inl
        by (intro refused [of e]) (auto simp: run_with_ports_inner_def)
    next
      case (Inr q)
      then have "anchored q"
        using begin_run_anchor
        by (cases p) (auto simp: pacer_begin_run_def anchored_def map_sum_def split: sum.splits)
      from ready_run [OF assms exact this, of clk r]
      obtain res where "run_loop dy clk period fin (bt_keys sys) start sys r q (map (\<lambda>i. (i, [])) (bt_keys sys)) = Some res"
          "run_result start period (Suc (nat ((fin - start) div period))) (periods_of sys) res"
        by blast
      then show ?thesis using exact go base Inr by (intro driven) (simp_all add: run_with_ports_inner_def)
    qed
  qed
qed

end

text \<open>
  C21: (a run returns) under models that keep the clock, a run that is ready always ends, with an
  error or with its trajectories, whatever the models answer, the router delivers and the pacer's
  clock reads.
\<close>

theorem run_with_ports_returns:
  assumes "clocked_model dy" and "run_ready dy period start fin sys"
  shows "run_with_ports_inner dy clk period start fin sys r p \<noteq> None"
  by (rule clocked_model.ready_run_cases [OF assms, of clk r p]) simp_all

text \<open>
  C31: (a run fails only as its models do) the scheduler's own failures, a system that is not known and
  a sample outside a system's history, do not occur in a run.
\<close>

theorem run_fails_only_by_models:
  assumes "clocked_model dy" and "run_ready dy period start fin sys"
    and "run_with_ports_inner dy clk period start fin sys r p = Some (Inl (Hk_Schedule e))"
  shows "\<exists>x. e = Sched_Model x"
proof (rule clocked_model.ready_run_cases [OF assms(1,2), of clk r p])
  fix res
  assume "run_with_ports_inner dy clk period start fin sys r p =
         Some (map_sum id (\<lambda>x. (trajectories_of dy (fst (snd x)) start fin (fst x), snd x)) res)"
    and ok: "run_result start period (Suc (nat ((fin - start) div period))) (periods_of sys) res"
  then have "res = Inl (Hk_Schedule e)" using assms(3) by (cases res) auto
  then show ?thesis using ok by (simp add: run_result_simps)
qed (use assms(3) in fastforce)

text \<open>
  C22: (a run samples the output grid) the trajectory a run gives a system holds exactly one sample for
  each output epoch from the start to the end, and a sample is marked native exactly at the epochs of
  the system's own period.
\<close>

theorem run_samples_the_grid:
  assumes "clocked_model dy" and "run_ready dy period start fin sys"
    and "run_with_ports_inner dy clk period start fin sys r p = Some (Inr (trs, sys', r', p'))"
    and "(i, s) \<in> set sys"
  shows "\<exists>tr. bt_get trs i = Some tr \<and>
    list_all2 (\<lambda>k x. ts_tai_ns x = start + int k * period \<and>
        (ts_kind x = Sk_Native \<longleftrightarrow> hs_period_ns s dvd int k * period))
      [0..<Suc (nat ((fin - start) div period))] (tr_samples tr)"
proof (rule clocked_model.ready_run_cases [OF assms(1,2), of clk r p])
  fix res
  assume run: "run_with_ports_inner dy clk period start fin sys r p =
         Some (map_sum id (\<lambda>x. (trajectories_of dy (fst (snd x)) start fin (fst x), snd x)) res)"
    and ok: "run_result start period (Suc (nat ((fin - start) div period))) (periods_of sys) res"
  obtain ss where res: "res = Inr (ss, sys', r', p')" and trs: "trs = trajectories_of dy sys' start fin ss"
    using run assms(3) by (cases res) auto
  have grid: "series_on_grid start period (Suc (nat ((fin - start) div period))) (periods_of sys) ss"
    and per: "periods_of sys' = periods_of sys"
    using ok by (simp_all add: res run_result_simps)
  have "(i, hs_period_ns s) \<in> set (periods_of sys)" using assms(4) by (force simp: periods_of_def)
  then have on: "on_grid start period (Suc (nat ((fin - start) div period))) (hs_period_ns s) (series_of ss i)"
    using grid by (auto simp: series_on_grid_def)
  have "bt_sorted sys'" using periods_of_keys [OF per] assms(2) by (simp add: run_ready_def bt_sorted_def)
  moreover have "i \<in> fst ` set sys'" using periods_of_keys [OF per] assms(4) by (metis image_set fst_conv image_eqI)
  ultimately obtain s' where s': "bt_get sys' i = Some s'" using hetero_lookup by fastforce
  have "bt_get trs i = Some (build_trajectory i (dy_describe dy (hs_model s')) (series_of ss i) start fin)"
    using s' unfolding trs trajectories_of_def by (induction sys') (auto simp: bt_get_Cons split: if_splits)
  then show ?thesis
    using on by (simp add: on_grid_def sampled_at_def build_trajectory_def del: upt_Suc)
qed (use assms(3) in simp)


section \<open>A run of two replayed instances\<close>

definition wit_system :: "string \<Rightarrow> nat \<Rightarrow> i64 \<Rightarrow> port_traffic_record list \<Rightarrow> replay_model hetero_system" where
  "wit_system i d period recs =
     \<lparr>hs_period_ns = period, hs_model = replay_new i wit_info d recs, hs_next_due_ns = period, hs_prev = None,
      hs_curr = (0, replicate d (FZero False)), hs_outputs = [], hs_applied_commands = [], hs_measurements = [],
      hs_sensor_fault_effect = (None, 0), hs_decode_errors = [], hs_decode_successes = []\<rparr>"

definition wit_run_systems :: "i64 \<Rightarrow> replay_model hetero_systems" where
  "wit_run_systems t = [(''a'', wit_system ''a'' 0 1 [wit_record 1 [1], wit_record t [2]]), (''b'', wit_system ''b'' 0 2 [])]"

lemma wit_run_ready: "run_ready replay_dynamics 1 0 3 (wit_run_systems t)"
  by (simp add: run_ready_def wit_run_systems_def wit_system_def all_on_schedule_def on_schedule_def bt_sorted_def
      i64_min_def i64_max_def)

theorem run_with_ports_returns_witness:
  "\<exists>res. run_with_ports_inner replay_dynamics no_pacing 1 0 3 (wit_run_systems 2) router_empty None = Some res"
  using run_with_ports_returns [OF replay.clocked_model_axioms wit_run_ready] by blast

theorem run_samples_the_grid_witness:
  "\<exists>trs sys' r' p' tr.
     run_with_ports_inner replay_dynamics no_pacing 1 0 3 (wit_run_systems 2) router_empty None = Some (Inr (trs, sys', r', p')) \<and>
     bt_get trs ''b'' = Some tr \<and> map (\<lambda>x. (ts_tai_ns x, ts_kind x = Sk_Native)) (tr_samples tr) =
       [(0, True), (1, False), (2, True), (3, False)]"
proof -
  have "case run_with_ports_inner replay_dynamics no_pacing 1 0 3 (wit_run_systems 2) router_empty None of
      Some (Inr x) \<Rightarrow> True | _ \<Rightarrow> False"
    by code_simp
  then obtain trs sys' r' p' where run:
    "run_with_ports_inner replay_dynamics no_pacing 1 0 3 (wit_run_systems 2) router_empty None = Some (Inr (trs, sys', r', p'))"
    by (auto split: option.splits sum.splits)
  have b: "(''b'', wit_system ''b'' 0 2 []) \<in> set (wit_run_systems 2)" by (simp add: wit_run_systems_def)
  obtain tr where tr: "bt_get trs ''b'' = Some tr"
    "list_all2 (\<lambda>k x. ts_tai_ns x = 0 + int k * 1 \<and> (ts_kind x = Sk_Native \<longleftrightarrow> (2::int) dvd int k * 1))
      [0..<Suc (nat ((3 - 0) div 1))] (tr_samples tr)"
    using run_samples_the_grid [OF replay.clocked_model_axioms wit_run_ready run b] by (auto simp: wit_system_def)
  have "[0..<Suc (nat ((3 - 0) div 1))] = [0, 1, 2, 3]" by (simp add: numeral_eq_Suc)
  then obtain x0 x1 x2 x3 where "tr_samples tr = [x0, x1, x2, x3]"
    and "ts_tai_ns x0 = 0 \<and> ts_kind x0 = Sk_Native" "ts_tai_ns x1 = 1 \<and> ts_kind x1 \<noteq> Sk_Native"
      "ts_tai_ns x2 = 2 \<and> ts_kind x2 = Sk_Native" "ts_tai_ns x3 = 3 \<and> ts_kind x3 \<noteq> Sk_Native"
    using tr(2) by (auto simp: list_all2_Cons1)
  then have "map (\<lambda>x. (ts_tai_ns x, ts_kind x = Sk_Native)) (tr_samples tr) =
      [(0, True), (1, False), (2, True), (3, False)]" by simp
  then show ?thesis using run tr(1)
    by (intro exI [of _ trs] exI [of _ sys'] exI [of _ r'] exI [of _ p'] exI [of _ tr]) simp
qed

theorem run_fails_only_by_models_witness:
  "\<exists>e x. run_with_ports_inner replay_dynamics no_pacing 1 0 3 (wit_run_systems 3) router_empty None =
     Some (Inl (Hk_Schedule e)) \<and> e = Sched_Model x"
proof -
  have "case run_with_ports_inner replay_dynamics no_pacing 1 0 3 (wit_run_systems 3) router_empty None of
      Some (Inl (Hk_Schedule e)) \<Rightarrow> True | _ \<Rightarrow> False"
    by code_simp
  then obtain e where run: "run_with_ports_inner replay_dynamics no_pacing 1 0 3 (wit_run_systems 3) router_empty None =
      Some (Inl (Hk_Schedule e))"
    by (auto split: option.splits sum.splits hetero_kernel_error.splits)
  with run_fails_only_by_models [OF replay.clocked_model_axioms wit_run_ready run] show ?thesis by blast
qed

section \<open>A message a coarse receiver misses\<close>

text \<open>
  \<open>a\<close> steps every 1 ns and \<open>b\<close>, a physical system, every 4; \<open>a\<close> sends to \<open>b\<close> at 2. The advance to 1
  takes \<open>b\<close> to its step at 4 before \<open>a\<close> has sent, so after the advance to 3 the message, available
  since 2, still waits although \<open>b\<close> has stepped at 4.
\<close>

definition coarse_systems :: "replay_model hetero_systems" where
  "coarse_systems = [(''a'', wit_system ''a'' 0 1 [wit_record 2 [7]]), (''b'', wit_system ''b'' 6 4 [])]"

definition coarse_router :: router where
  "coarse_router = router_empty\<lparr>rt_edges := (\<lambda>k. if k = (''a'', ''tx'')
     then [\<lparr>ed_to_instance = ''b'', ed_to_port = ''rx'', ed_latency_ns = 0\<rparr>] else [])\<rparr>"

definition coarse_advance ::
  "i64 \<Rightarrow> replay_model hetero_systems \<Rightarrow> router \<Rightarrow> (replay_model hetero_systems \<times> router) option" where
  "coarse_advance t sys r =
     (case advance_to_with_ports replay_dynamics t sys r of
        Some (Inr x) \<Rightarrow> Some (fst x, fst (snd x)) | _ \<Rightarrow> None)"

theorem coarse_receiver_misses_message:
  "case Option.bind (coarse_advance 1 coarse_systems coarse_router) (\<lambda>(sys, r). coarse_advance 3 sys r) of
     None \<Rightarrow> False
   | Some (sys, r) \<Rightarrow>
       map_option (\<lambda>s. fst (hs_curr s)) (bt_get sys ''b'') = Some 4 \<and>
       map (\<lambda>q. po_tai_ns (qm_message q)) (pending_of r ''b'') = [2]"
  by code_simp

end
