(* ===== verification/Expr_Syntax.thy ===== *)
theory Expr_Syntax
  imports Float64
begin

text \<open>
  The words of the objective language of \<open>av-kernel/src/expr\<close>: the CDM units with their tokens and
  their composition (\<open>units.rs\<close>), tokens (\<open>lexer.rs\<close>), syntax trees (\<open>ast.rs\<close>) and errors
  (\<open>error.rs\<close>). Texts inside errors are constructors with the printed values; \<open>Ee_Panic\<close> is a failed
  \<open>expect\<close> or an index out of range. A text is its UTF-8 bytes.
\<close>

section \<open>Units\<close>

datatype pb_unit =
    U_Unspecified | U_Dimensionless | U_Meter | U_MeterPerSecond | U_MeterPerSecondSquared
  | U_Radian | U_RadianPerSecond | U_Second | U_Kilogram | U_KilogramPerSecond | U_Newton
  | U_NewtonMeter | U_Watt | U_Joule | U_Kelvin | U_Pascal | U_Volt | U_Ampere | U_Hertz | U_Decibel
  | U_NewtonMeterSecond | U_KilogramMeterSquared

definition all_units :: "pb_unit list" where
  "all_units =
     [U_Unspecified, U_Dimensionless, U_Meter, U_MeterPerSecond, U_MeterPerSecondSquared,
      U_Radian, U_RadianPerSecond, U_Second, U_Kilogram, U_KilogramPerSecond, U_Newton,
      U_NewtonMeter, U_Watt, U_Joule, U_Kelvin, U_Pascal, U_Volt, U_Ampere, U_Hertz, U_Decibel,
      U_NewtonMeterSecond, U_KilogramMeterSquared]"

text \<open>\<open>Unit::try_from\<close> of the wire number.\<close>

definition unit_try_from :: "int \<Rightarrow> pb_unit option" where
  "unit_try_from n = (if 0 \<le> n \<and> nat n < length all_units then Some (all_units ! nat n) else None)"

definition unit_tokens :: "(string \<times> pb_unit) list" where
  "unit_tokens =
     [(''m/s^2'', U_MeterPerSecondSquared), (''rad/s'', U_RadianPerSecond), (''kg/s'', U_KilogramPerSecond),
      (''m/s'', U_MeterPerSecond), (''N*m'', U_NewtonMeter), (''m'', U_Meter), (''rad'', U_Radian),
      (''s'', U_Second), (''kg'', U_Kilogram), (''N'', U_Newton), (''W'', U_Watt), (''J'', U_Joule),
      (''K'', U_Kelvin), (''Pa'', U_Pascal), (''V'', U_Volt), (''A'', U_Ampere), (''Hz'', U_Hertz),
      (''dB'', U_Decibel)]"

definition parse_unit_token :: "string \<Rightarrow> pb_unit option" where
  "parse_unit_token t = map_option snd (find (\<lambda>p. fst p = t) unit_tokens)"

section \<open>Syntax trees and tokens\<close>

datatype bin_op = Bo_Add | Bo_Sub | Bo_Mul | Bo_Div

datatype cmp_op = Co_Lt | Co_Le | Co_Gt | Co_Ge | Co_Eq | Co_Ne

definition bin_symbol :: "bin_op \<Rightarrow> string" where
  "bin_symbol b = (case b of Bo_Add \<Rightarrow> ''+'' | Bo_Sub \<Rightarrow> ''-'' | Bo_Mul \<Rightarrow> ''*'' | Bo_Div \<Rightarrow> ''/'')"

definition cmp_symbol :: "cmp_op \<Rightarrow> string" where
  "cmp_symbol c =
     (case c of Co_Lt \<Rightarrow> ''<'' | Co_Le \<Rightarrow> ''<='' | Co_Gt \<Rightarrow> ''>'' | Co_Ge \<Rightarrow> ''>='' | Co_Eq \<Rightarrow> ''=='' | Co_Ne \<Rightarrow> ''!='')"

definition cmp_holds :: "cmp_op \<Rightarrow> f64 \<Rightarrow> f64 \<Rightarrow> bool" where
  "cmp_holds c v w =
     (case c of Co_Lt \<Rightarrow> f_lt v w | Co_Le \<Rightarrow> f_le v w | Co_Gt \<Rightarrow> f_lt w v | Co_Ge \<Rightarrow> f_le w v
      | Co_Eq \<Rightarrow> f_eq v w | Co_Ne \<Rightarrow> \<not> f_eq v w)"

datatype time_spec =
    Tm_Start
  | Tm_End
  | Tm_OffsetSeconds f64 nat
  | Tm_EventName string nat

datatype expr =
    E_Number f64 pb_unit nat
  | E_Neg expr nat
  | E_Binary bin_op expr expr nat
  | E_Compare cmp_op expr expr nat
  | E_At expr time_spec nat
  | E_Call string "expr list" nat
  | E_Ref "string list" nat

primrec expr_pos :: "expr \<Rightarrow> nat" where
  "expr_pos (E_Number v u p) = p"
| "expr_pos (E_Neg e p) = p"
| "expr_pos (E_Binary b l r p) = p"
| "expr_pos (E_Compare c l r p) = p"
| "expr_pos (E_At e t p) = p"
| "expr_pos (E_Call n es p) = p"
| "expr_pos (E_Ref path p) = p"

datatype tok_kind =
    Tk_Number f64 "string option"
  | Tk_Ident string
  | Tk_Plus | Tk_Minus | Tk_Star | Tk_Slash | Tk_LParen | Tk_RParen | Tk_Comma | Tk_At | Tk_Dot
  | Tk_Lt | Tk_Le | Tk_Gt | Tk_Ge | Tk_EqEq | Tk_Ne | Tk_Eof

record token =
  tk_kind :: tok_kind
  tk_pos :: nat

datatype expr_error =
    Ee_Lex nat char
  | Ee_UnexpectedToken nat tok_kind string
  | Ee_UnexpectedEof string
  | Ee_TrailingInput nat tok_kind
  | Ee_UnknownFunction string nat
  | Ee_WrongArity string nat nat nat
  | Ee_AggregateArgumentMustBeBareReference string nat
  | Ee_UnknownReferenceShape string nat
  | Ee_BareReferenceOutsideAggregate string nat
  | Ee_UnknownEntity string nat
  | Ee_UnknownComponent string string nat
  | Ee_UnknownOutput string string nat
  | Ee_SeriesLengthMismatch string string nat nat nat
  | Ee_UnknownEventName string nat
  | Ee_AmbiguousEventName string nat
  | Ee_UnknownEventKind string nat
  | Ee_RangeArgumentMustBeEntityId nat
  | Ee_DurationArgumentMustBeComparison nat
  | Ee_AtNotApplicable nat
  | Ee_UnitMismatch string pb_unit pb_unit nat
  | Ee_UnitCompositionUndefined string pb_unit pb_unit nat
  | Ee_TimeMustBeSeconds pb_unit nat
  | Ee_DeclaredUnitMismatch pb_unit pb_unit
  | Ee_EmptyRun
  | Ee_EmptyTrajectory "expr list + string" nat
  | Ee_TimeOutOfRange f64 f64 f64 nat
  | Ee_Interpolation string nat
  | Ee_Panic

section \<open>Composition of units\<close>

definition add_sub_unit :: "string \<Rightarrow> pb_unit \<Rightarrow> pb_unit \<Rightarrow> nat \<Rightarrow> expr_error + pb_unit" where
  "add_sub_unit op l r p = (if l = r then Inr l else Inl (Ee_UnitMismatch op l r p))"

definition unit_products :: "((pb_unit \<times> pb_unit) \<times> pb_unit) list" where
  "unit_products =
     [((U_Kilogram, U_MeterPerSecondSquared), U_Newton), ((U_MeterPerSecondSquared, U_Kilogram), U_Newton),
      ((U_Newton, U_Meter), U_NewtonMeter), ((U_Meter, U_Newton), U_NewtonMeter),
      ((U_Volt, U_Ampere), U_Watt), ((U_Ampere, U_Volt), U_Watt),
      ((U_Watt, U_Second), U_Joule), ((U_Second, U_Watt), U_Joule),
      ((U_MeterPerSecond, U_Second), U_Meter), ((U_Second, U_MeterPerSecond), U_Meter),
      ((U_MeterPerSecondSquared, U_Second), U_MeterPerSecond), ((U_Second, U_MeterPerSecondSquared), U_MeterPerSecond),
      ((U_RadianPerSecond, U_Second), U_Radian), ((U_Second, U_RadianPerSecond), U_Radian),
      ((U_KilogramPerSecond, U_Second), U_Kilogram), ((U_Second, U_KilogramPerSecond), U_Kilogram),
      ((U_Hertz, U_Second), U_Dimensionless), ((U_Second, U_Hertz), U_Dimensionless)]"

definition mul_table :: "pb_unit \<Rightarrow> pb_unit \<Rightarrow> pb_unit option" where
  "mul_table l r = map_of unit_products (l, r)"

definition candidates :: "pb_unit list" where
  "candidates =
     [U_Unspecified, U_Dimensionless, U_Meter, U_MeterPerSecond, U_MeterPerSecondSquared,
      U_Radian, U_RadianPerSecond, U_Second, U_Kilogram, U_KilogramPerSecond, U_Newton,
      U_NewtonMeter, U_Watt, U_Joule, U_Kelvin, U_Pascal, U_Volt, U_Ampere, U_Hertz, U_Decibel]"

definition mul_div_unit :: "string \<Rightarrow> pb_unit \<Rightarrow> pb_unit \<Rightarrow> nat \<Rightarrow> expr_error + pb_unit" where
  "mul_div_unit op l r p =
     (let refused = Ee_UnitCompositionUndefined op l r p in
      if op = ''*'' then
        if l = U_Dimensionless then Inr r
        else if r = U_Dimensionless then Inr l
        else ok_or refused (mul_table l r)
      else if r = U_Dimensionless then Inr l
      else if l = r then Inr U_Dimensionless
      else if l = U_Dimensionless then
        (case mul_table r U_Hertz of
           Some q \<Rightarrow> if q = U_Dimensionless \<and> r = U_Second then Inr U_Hertz else Inl refused
         | None \<Rightarrow> Inl refused)
      else ok_or refused (find (\<lambda>c. mul_table r c = Some l \<or> mul_table c r = Some l) candidates))"

text \<open>The table is a finite set of products, symmetric and with unique factors.\<close>

lemma mul_table_Some: "mul_table l r = Some u \<longleftrightarrow> ((l, r), u) \<in> set unit_products"
proof -
  have "distinct (map fst unit_products)" by code_simp
  then show ?thesis by (simp add: mul_table_def)
qed

lemma unit_products_sym: "((l, r), u) \<in> set unit_products \<Longrightarrow> ((r, l), u) \<in> set unit_products"
proof -
  assume "((l, r), u) \<in> set unit_products"
  moreover have "list_all (\<lambda>((l, r), u). List.member unit_products ((r, l), u)) unit_products" by code_simp
  ultimately show ?thesis by (fastforce simp: list_all_iff)
qed

lemma unit_products_cancel:
  "((r, q), l) \<in> set unit_products \<Longrightarrow> ((r, q'), l) \<in> set unit_products \<Longrightarrow> q = q'"
proof -
  assume "((r, q), l) \<in> set unit_products" "((r, q'), l) \<in> set unit_products"
  moreover have "list_all (\<lambda>((r, q), l). list_all (\<lambda>((r', q'), l'). r' = r \<and> l' = l \<longrightarrow> q' = q) unit_products) unit_products"
    by code_simp
  ultimately show ?thesis by (fastforce simp: list_all_iff)
qed

lemma unit_products_factor:
  "((r, q), l) \<in> set unit_products \<Longrightarrow>
   q \<in> set candidates \<and> r \<noteq> U_Dimensionless \<and> q \<noteq> U_Dimensionless \<and> l \<noteq> r \<and>
   (l = U_Dimensionless \<longrightarrow> r = U_Second \<and> q = U_Hertz \<or> r = U_Hertz \<and> q = U_Second)"
proof -
  assume "((r, q), l) \<in> set unit_products"
  moreover have "list_all (\<lambda>((r, q), l). List.member candidates q \<and> r \<noteq> U_Dimensionless \<and> q \<noteq> U_Dimensionless \<and> l \<noteq> r \<and>
     (l = U_Dimensionless \<longrightarrow> r = U_Second \<and> q = U_Hertz \<or> r = U_Hertz \<and> q = U_Second)) unit_products"
    by code_simp
  ultimately show ?thesis by (fastforce simp: list_all_iff)
qed

lemma mul_table_commutes: "mul_table l r = mul_table r l"
  by (metis mul_table_Some not_None_eq unit_products_sym)

lemma mul_unit_eq:
  "mul_div_unit ''*'' l r p = Inr u \<longleftrightarrow>
   l = U_Dimensionless \<and> u = r \<or> l \<noteq> U_Dimensionless \<and> r = U_Dimensionless \<and> u = l \<or>
   l \<noteq> U_Dimensionless \<and> r \<noteq> U_Dimensionless \<and> ((l, r), u) \<in> set unit_products"
  by (auto simp: mul_div_unit_def mul_table_Some)

lemma candidate_found:
  "find (\<lambda>c. mul_table r c = Some l \<or> mul_table c r = Some l) candidates = Some q \<longleftrightarrow> ((r, q), l) \<in> set unit_products"
    (is "find ?P _ = _ \<longleftrightarrow> _")
proof
  assume "find ?P candidates = Some q"
  then have "?P q" by (auto simp: find_Some_iff)
  then show "((r, q), l) \<in> set unit_products" by (auto simp: mul_table_Some intro: unit_products_sym)
next
  assume m: "((r, q), l) \<in> set unit_products"
  then have "?P q" "q \<in> set candidates" by (simp_all add: mul_table_Some unit_products_factor)
  then have "find ?P candidates \<noteq> None" by (auto simp: find_None_iff)
  then obtain c where c: "find ?P candidates = Some c" by blast
  then have "?P c" by (auto simp: find_Some_iff)
  then have "((r, c), l) \<in> set unit_products" by (auto simp: mul_table_Some intro: unit_products_sym)
  with m c show "find ?P candidates = Some q" using unit_products_cancel by metis
qed

lemma div_unit_eq:
  "mul_div_unit ''/'' l r p = Inr u \<longleftrightarrow>
   r = U_Dimensionless \<and> u = l \<or> r \<noteq> U_Dimensionless \<and> l = r \<and> u = U_Dimensionless \<or>
   l = U_Dimensionless \<and> r = U_Second \<and> u = U_Hertz \<or>
   r \<noteq> U_Dimensionless \<and> l \<noteq> r \<and> l \<noteq> U_Dimensionless \<and> ((r, u), l) \<in> set unit_products"
proof -
  have hz: "mul_table U_Second U_Hertz = Some U_Dimensionless" by code_simp
  show ?thesis
    using hz by (auto simp: mul_div_unit_def candidate_found Let_def split: option.split)
qed

text \<open>
  Division undoes multiplication: the quotients of \<open>l\<close> by \<open>r\<close> are exactly the units whose product
  with \<open>r\<close> is \<open>l\<close>, with the single exception of \<open>1 / Hz\<close>, which is refused although \<open>s * Hz\<close> is
  dimensionless. A quotient or a product is unique and a product does not depend on the order.
\<close>

theorem division_inverts_multiplication:
  "(mul_div_unit ''/'' l r p = Inr q \<longleftrightarrow>
    mul_div_unit ''*'' q r p = Inr l \<and> \<not> (q = U_Second \<and> r = U_Hertz)) \<and>
   (mul_div_unit ''*'' l r p = Inr u \<longleftrightarrow> mul_div_unit ''*'' r l p = Inr u)"
proof -
  have hz: "((U_Hertz, U_Second), U_Dimensionless) \<in> set unit_products" "((U_Hertz, U_Second), l) \<in> set unit_products \<Longrightarrow> l = U_Dimensionless"
    by (simp_all add: unit_products_def)
  have mul: "mul_div_unit ''*'' l r p = Inr u \<longleftrightarrow> mul_div_unit ''*'' r l p = Inr u" for l r u
    unfolding mul_unit_eq using unit_products_sym by blast
  have "mul_div_unit ''/'' l r p = Inr q \<longleftrightarrow>
      mul_div_unit ''*'' q r p = Inr l \<and> \<not> (q = U_Second \<and> r = U_Hertz)"
    unfolding mul_unit_eq div_unit_eq
    using unit_products_sym [of q r l] unit_products_sym [of r q l] unit_products_factor [of r q l]
      unit_products_factor [of q r l] hz
    by (cases "r = U_Dimensionless"; cases "l = U_Dimensionless"; cases "l = r"; cases "q = U_Dimensionless") auto
  with mul show ?thesis by blast
qed

end
