(* ===== verification/Expr_Lexer.thy ===== *)
theory Expr_Lexer
  imports Expr_Syntax
begin

text \<open>
  The lexer of \<open>av-kernel/src/expr/lexer.rs\<close>. A text is the list of its bytes; where the code holds an
  index into it, the functions hold that index and the rest of the text from there.
\<close>

section \<open>Characters and numbers\<close>

definition is_digit :: "char \<Rightarrow> bool" where
  "is_digit c \<longleftrightarrow> of_char c \<ge> (48 :: nat) \<and> of_char c \<le> (57 :: nat)"

definition is_alpha :: "char \<Rightarrow> bool" where
  "is_alpha c \<longleftrightarrow> of_char c \<ge> (65 :: nat) \<and> of_char c \<le> (90 :: nat) \<or> of_char c \<ge> (97 :: nat) \<and> of_char c \<le> (122 :: nat)"

definition is_space :: "char \<Rightarrow> bool" where
  "is_space c \<longleftrightarrow> of_char c \<in> {32 :: nat, 9, 10, 12, 13}"

definition is_ident_start :: "char \<Rightarrow> bool" where
  "is_ident_start c \<longleftrightarrow> is_alpha c \<or> c = CHR ''_''"

definition is_ident_continue :: "char \<Rightarrow> bool" where
  "is_ident_continue c \<longleftrightarrow> is_alpha c \<or> is_digit c \<or> c = CHR ''_''"

definition digit_value :: "char \<Rightarrow> int" where
  "digit_value c = of_char c - 48"

definition digits_value :: "string \<Rightarrow> int" where
  "digits_value = foldl (\<lambda>n c. n * 10 + digit_value c) 0"

text \<open>
  \<open>parse::<f64>\<close> of an unsigned literal: digits, a fraction and an exponent, correctly rounded; None
  where the standard library reports an error.
\<close>

definition decimal_exponent :: "string \<Rightarrow> int option" where
  "decimal_exponent cs =
     (let neg = (cs \<noteq> [] \<and> hd cs = CHR ''-'');
          ds = (if cs \<noteq> [] \<and> (hd cs = CHR ''-'' \<or> hd cs = CHR ''+'') then tl cs else cs) in
      if ds = [] \<or> \<not> list_all is_digit ds then None
      else Some (if neg then - digits_value ds else digits_value ds))"

definition parse_f64 :: "string \<Rightarrow> f64 option" where
  "parse_f64 cs =
     (let whole = takeWhile is_digit cs;
          r = dropWhile is_digit cs;
          frac = (if r \<noteq> [] \<and> hd r = CHR ''.'' then takeWhile is_digit (tl r) else []);
          r' = (if r \<noteq> [] \<and> hd r = CHR ''.'' then dropWhile is_digit (tl r) else r);
          m = of_int (digits_value (whole @ frac)) / 10 ^ length frac in
      if whole = [] \<and> frac = [] then None
      else if r' = [] then Some (f_round binary64 False m)
      else if hd r' = CHR ''e'' \<or> hd r' = CHR ''E'' then
        map_option (\<lambda>e. f_round binary64 False (m * 10 powi e)) (decimal_exponent (tl r'))
      else None)"

text \<open>The literal that starts a text: its digits, a fraction that has a digit, an exponent that has one.\<close>

definition scan_fraction :: "string \<Rightarrow> string" where
  "scan_fraction cs =
     (if cs \<noteq> [] \<and> hd cs = CHR ''.'' \<and> tl cs \<noteq> [] \<and> is_digit (hd (tl cs))
      then CHR ''.'' # takeWhile is_digit (tl cs) else [])"

definition scan_exponent :: "string \<Rightarrow> string" where
  "scan_exponent cs =
     (if cs \<noteq> [] \<and> (hd cs = CHR ''e'' \<or> hd cs = CHR ''E'') then
        let sign = (if tl cs \<noteq> [] \<and> (hd (tl cs) = CHR ''+'' \<or> hd (tl cs) = CHR ''-'') then [hd (tl cs)] else []);
            r = drop (length sign) (tl cs) in
        if r \<noteq> [] \<and> is_digit (hd r) then hd cs # sign @ takeWhile is_digit r else []
      else [])"

definition scan_number :: "string \<Rightarrow> string" where
  "scan_number cs =
     (let whole = takeWhile is_digit cs;
          frac = scan_fraction (drop (length whole) cs)
      in whole @ frac @ scan_exponent (drop (length whole + length frac) cs))"

section \<open>Tokens\<close>

fun strip_prefix :: "string \<Rightarrow> string \<Rightarrow> string option" where
  "strip_prefix [] cs = Some cs"
| "strip_prefix (p # ps) [] = None"
| "strip_prefix (p # ps) (c # cs) = (if p = c then strip_prefix ps cs else None)"

definition unit_boundary :: "string \<Rightarrow> bool" where
  "unit_boundary cs \<longleftrightarrow>
     (cs = [] \<or> \<not> is_ident_continue (hd cs) \<and> hd cs \<noteq> CHR ''/'' \<and> hd cs \<noteq> CHR ''*'' \<and> hd cs \<noteq> CHR ''^'')"

text \<open>The unit token after a number and how many bytes it takes, the space before it included.\<close>

definition try_scan_unit_suffix :: "string \<Rightarrow> (string \<times> nat) option" where
  "try_scan_unit_suffix cs =
     (let skip = (if cs \<noteq> [] \<and> hd cs = CHR '' '' then 1 else 0);
          rest = drop skip cs in
      map_option (\<lambda>p. (fst p, skip + length (fst p)))
        (find (\<lambda>p. case strip_prefix (fst p) rest of Some r \<Rightarrow> unit_boundary r | None \<Rightarrow> False) unit_tokens))"

definition next_is :: "char \<Rightarrow> string \<Rightarrow> bool" where
  "next_is c cs \<longleftrightarrow> cs \<noteq> [] \<and> hd cs = c"

definition lex_punctuation :: "char \<Rightarrow> string \<Rightarrow> (tok_kind \<times> nat) option" where
  "lex_punctuation c cs =
     (if c = CHR ''+'' then Some (Tk_Plus, 1)
      else if c = CHR ''-'' then Some (Tk_Minus, 1)
      else if c = CHR ''*'' then Some (Tk_Star, 1)
      else if c = CHR ''/'' then Some (Tk_Slash, 1)
      else if c = CHR ''('' then Some (Tk_LParen, 1)
      else if c = CHR '')'' then Some (Tk_RParen, 1)
      else if c = CHR '','' then Some (Tk_Comma, 1)
      else if c = CHR ''@'' then Some (Tk_At, 1)
      else if c = CHR ''<'' then Some (if next_is CHR ''='' cs then (Tk_Le, 2) else (Tk_Lt, 1))
      else if c = CHR ''>'' then Some (if next_is CHR ''='' cs then (Tk_Ge, 2) else (Tk_Gt, 1))
      else if c = CHR ''='' \<and> next_is CHR ''='' cs then Some (Tk_EqEq, 2)
      else if c = CHR ''!'' \<and> next_is CHR ''='' cs then Some (Tk_Ne, 2)
      else if c = CHR ''.'' \<and> \<not> (cs \<noteq> [] \<and> is_digit (hd cs)) then Some (Tk_Dot, 1)
      else None)"

definition lex_number :: "string \<Rightarrow> expr_error + tok_kind \<times> nat" where
  "lex_number cs =
     (let text = scan_number cs in
      case parse_f64 text of
        None \<Rightarrow> Inl Ee_Panic
      | Some v \<Rightarrow>
          (case try_scan_unit_suffix (drop (length text) cs) of
             Some (tok, n) \<Rightarrow> Inr (Tk_Number v (Some tok), length text + n)
           | None \<Rightarrow> Inr (Tk_Number v None, length text)))"

text \<open>The token at byte \<open>i\<close>, whose text starts with \<open>c\<close> and goes on with \<open>cs\<close>, and its length.\<close>

definition lex_token :: "nat \<Rightarrow> char \<Rightarrow> string \<Rightarrow> expr_error + tok_kind \<times> nat" where
  "lex_token i c cs =
     (case lex_punctuation c cs of
        Some t \<Rightarrow> Inr t
      | None \<Rightarrow>
          if is_digit c \<or> c = CHR ''.'' then lex_number (c # cs)
          else if is_ident_start c then
            (let name = c # takeWhile is_ident_continue cs in Inr (Tk_Ident name, length name))
          else Inl (Ee_Lex i c))"

text \<open>A literal is never empty and is one that the standard library reads.\<close>

definition number_start :: "char \<Rightarrow> string \<Rightarrow> bool" where
  "number_start c cs \<longleftrightarrow> is_digit c \<or> c = CHR ''.'' \<and> cs \<noteq> [] \<and> is_digit (hd cs)"

lemma is_digit_facts [simp]:
  "\<not> is_digit CHR ''.''" "\<not> is_digit CHR ''e''" "\<not> is_digit CHR ''E''" "\<not> is_digit CHR ''+''" "\<not> is_digit CHR ''-''"
  by (simp_all add: is_digit_def)

lemma takeWhile_hd_not: "xs = [] \<or> \<not> P (hd xs) \<Longrightarrow> takeWhile P xs = []" "xs = [] \<or> \<not> P (hd xs) \<Longrightarrow> dropWhile P xs = xs"
  by (cases xs; simp)+

lemma drop_takeWhile: "drop (length (takeWhile P xs)) xs = dropWhile P xs"
  by (simp add: dropWhile_eq_drop)

lemma exponent_digits: "r \<noteq> [] \<Longrightarrow> is_digit (hd r) \<Longrightarrow> takeWhile is_digit r \<noteq> [] \<and> list_all is_digit (takeWhile is_digit r)"
  by (cases r) (auto simp: list_all_iff dest: set_takeWhileD)

lemma decimal_exponent_ok:
  assumes "ds \<noteq> []" "list_all is_digit ds" "s = [] \<or> s = ''+'' \<or> s = ''-''"
  shows "decimal_exponent (s @ ds) \<noteq> None"
proof -
  have "hd ds \<noteq> CHR ''-''" "hd ds \<noteq> CHR ''+''" using assms(1, 2) by (cases ds; auto)+
  then show ?thesis using assms by (elim disjE) (simp_all add: decimal_exponent_def)
qed

lemma scan_exponent_cases:
  assumes "scan_exponent cs \<noteq> []"
  obtains s r where "cs \<noteq> []" "hd cs = CHR ''e'' \<or> hd cs = CHR ''E''" "s = [] \<or> s = ''+'' \<or> s = ''-''"
    "r = drop (length s) (tl cs)" "r \<noteq> []" "is_digit (hd r)" "scan_exponent cs = hd cs # s @ takeWhile is_digit r"
proof -
  define s where "s = (if tl cs \<noteq> [] \<and> (hd (tl cs) = CHR ''+'' \<or> hd (tl cs) = CHR ''-'') then [hd (tl cs)] else [])"
  define r where "r = drop (length s) (tl cs)"
  have eq: "scan_exponent cs =
      (if cs \<noteq> [] \<and> (hd cs = CHR ''e'' \<or> hd cs = CHR ''E'') then
         if r \<noteq> [] \<and> is_digit (hd r) then hd cs # s @ takeWhile is_digit r else []
       else [])"
    unfolding scan_exponent_def Let_def s_def r_def by (rule refl)
  from assms have c: "cs \<noteq> []" "hd cs = CHR ''e'' \<or> hd cs = CHR ''E''" "r \<noteq> []" "is_digit (hd r)"
    by (simp_all add: eq del: drop_eq_Nil split: if_split_asm)
  moreover have "s = [] \<or> s = ''+'' \<or> s = ''-''" by (auto simp: s_def)
  ultimately show ?thesis using that [of s r] by (simp add: eq r_def [symmetric])
qed

lemma scan_exponent_shape:
  "scan_exponent cs = [] \<or>
   (\<exists>e r. scan_exponent cs = e # r \<and> (e = CHR ''e'' \<or> e = CHR ''E'') \<and> decimal_exponent r \<noteq> None)"
proof (cases "scan_exponent cs = []")
  case False
  then show ?thesis
  proof (rule scan_exponent_cases)
    fix s r assume e: "hd cs = CHR ''e'' \<or> hd cs = CHR ''E''" "scan_exponent cs = hd cs # s @ takeWhile is_digit r"
      and r: "s = [] \<or> s = ''+'' \<or> s = ''-''" "r \<noteq> []" "is_digit (hd r)"
    from r have "decimal_exponent (s @ takeWhile is_digit r) \<noteq> None"
      using exponent_digits decimal_exponent_ok by blast
    with e show ?thesis by blast
  qed
qed simp

lemma scan_number_parses:
  assumes "number_start c cs"
  shows "parse_f64 (scan_number (c # cs)) \<noteq> None" "scan_number (c # cs) \<noteq> []"
proof -
  define w where "w = takeWhile is_digit (c # cs)"
  define r where "r = dropWhile is_digit (c # cs)"
  define f where "f = scan_fraction r"
  define x where "x = scan_exponent (drop (length f) r)"
  have rd: "drop (length w) (c # cs) = r" by (simp add: w_def r_def drop_takeWhile)
  then have "drop (length w + length f) (c # cs) = drop (length f) r"
    by (metis add.commute drop_drop)
  with rd have sn: "scan_number (c # cs) = w @ f @ x"
    unfolding scan_number_def Let_def w_def [symmetric] f_def x_def by (simp only:)
  have wd: "takeWhile is_digit (w @ ys) = w @ takeWhile is_digit ys" "dropWhile is_digit (w @ ys) = dropWhile is_digit ys" for ys
    by (auto simp: w_def takeWhile_append dropWhile_append dest: set_takeWhileD)
  have xs: "x = [] \<or> (\<exists>e y. x = e # y \<and> (e = CHR ''e'' \<or> e = CHR ''E'') \<and> decimal_exponent y \<noteq> None)"
    using scan_exponent_shape [of "drop (length f) r"] by (simp add: x_def)
  then have x0: "x = [] \<or> \<not> is_digit (hd x)" "x = [] \<or> hd x \<noteq> CHR ''.''" by auto
  have fs: "f = [] \<or> (\<exists>d. f = CHR ''.'' # d \<and> d \<noteq> [] \<and> list_all is_digit d)"
    by (cases "tl r") (auto simp: f_def scan_fraction_def list_all_iff dest: set_takeWhileD)
  have "w \<noteq> [] \<or> f \<noteq> []"
    using assms by (cases cs) (auto simp: number_start_def w_def f_def r_def scan_fraction_def)
  then show "scan_number (c # cs) \<noteq> []" by (auto simp: sn)
  have xw: "takeWhile is_digit x = []" "dropWhile is_digit x = x"
    using x0 takeWhile_hd_not by blast+
  show "parse_f64 (scan_number (c # cs)) \<noteq> None"
  proof (cases "f = []")
    case True
    with \<open>w \<noteq> [] \<or> f \<noteq> []\<close> xs x0 show ?thesis
      by (auto simp: sn parse_f64_def wd xw Let_def)
  next
    case False
    then obtain d where d: "f = CHR ''.'' # d" "d \<noteq> []" "list_all is_digit d" using fs by blast
    have "takeWhile is_digit (d @ x) = d" "dropWhile is_digit (d @ x) = x"
      using d(3) xw by (simp_all add: takeWhile_append dropWhile_append list_all_iff)
    with d xs show ?thesis
      by (auto simp: sn parse_f64_def wd Let_def)
  qed
qed

lemma if_SomeE: "(if b then Some x else r) = Some y \<Longrightarrow> (x = y \<Longrightarrow> P) \<Longrightarrow> (r = Some y \<Longrightarrow> P) \<Longrightarrow> P"
  by (cases b) simp_all

lemma lex_punctuation_Some:
  "lex_punctuation c cs = Some (k, n) \<Longrightarrow>
   0 < n \<and> (case k of Tk_Number v u \<Rightarrow> False | Tk_Ident s \<Rightarrow> False | Tk_Eof \<Rightarrow> False | _ \<Rightarrow> True)"
  unfolding lex_punctuation_def by (elim if_SomeE) (auto split: if_split_asm)

lemma lex_punctuation_None: "lex_punctuation c cs = None \<Longrightarrow> is_digit c \<or> c = CHR ''.'' \<Longrightarrow> number_start c cs"
  unfolding lex_punctuation_def number_start_def by (metis option.distinct(1))

lemma lex_number_cases:
  assumes "number_start c cs"
  obtains v t n where "lex_number (c # cs) = Inr (Tk_Number v t, n)" "0 < n"
    "\<And>u. t = Some u \<Longrightarrow> \<exists>m. try_scan_unit_suffix (drop (length (scan_number (c # cs))) (c # cs)) = Some (u, m)"
proof -
  obtain v where v: "parse_f64 (scan_number (c # cs)) = Some v" "scan_number (c # cs) \<noteq> []"
    using scan_number_parses [OF assms] by blast
  show ?thesis
  proof (cases "try_scan_unit_suffix (drop (length (scan_number (c # cs))) (c # cs))")
    case None
    then show ?thesis using that [of v None "length (scan_number (c # cs))"] v by (simp add: lex_number_def)
  next
    case (Some p)
    then show ?thesis using that [of v "Some (fst p)" "length (scan_number (c # cs)) + snd p"] v
      by (cases p) (simp add: lex_number_def)
  qed
qed

text \<open>A token is punctuation, a number or a name, or the byte starts no token.\<close>

lemma lex_token_cases:
  obtains k n where "lex_punctuation c cs = Some (k, n)" "lex_token i c cs = Inr (k, n)"
  | "number_start c cs" "lex_token i c cs = lex_number (c # cs)"
  | s where "lex_token i c cs = Inr (Tk_Ident s, length s)" "s = c # takeWhile is_ident_continue cs"
  | "lex_token i c cs = Inl (Ee_Lex i c)"
proof (cases "lex_punctuation c cs")
  case None
  show ?thesis
  proof (cases "is_digit c \<or> c = CHR ''.''")
    case True
    then show ?thesis using that(2) None lex_punctuation_None [OF None] by (simp add: lex_token_def)
  next
    case False
    then show ?thesis using that(3, 4) None by (cases "is_ident_start c") (simp_all add: lex_token_def Let_def)
  qed
next
  case (Some t)
  then show ?thesis using that(1) by (cases t) (simp add: lex_token_def)
qed

lemma lex_token_panic [simp]: "lex_token i c cs \<noteq> Inl Ee_Panic"
  by (rule lex_token_cases [of c cs i]) (auto elim: lex_number_cases)

text \<open>A token ends within the text.\<close>

lemma length_scan_exponent: "length (scan_exponent cs) \<le> length cs"
proof (cases "scan_exponent cs = []")
  case False
  then show ?thesis
  proof (rule scan_exponent_cases)
    fix s r assume r: "cs \<noteq> []" "r = drop (length s) (tl cs)" "r \<noteq> []" "scan_exponent cs = hd cs # s @ takeWhile is_digit r"
    then have "length s < length (tl cs)" "length (takeWhile is_digit r) \<le> length (tl cs) - length s"
      using length_takeWhile_le [of is_digit r] by simp_all
    with r show ?thesis by (cases cs) simp_all
  qed
qed simp

lemma length_scan_fraction: "length (scan_fraction cs) \<le> length cs"
  using length_takeWhile_le [of is_digit "tl cs"] by (cases cs) (simp_all add: scan_fraction_def)

lemma length_scan_number: "length (scan_number cs) \<le> length cs"
proof -
  define w where "w = length (takeWhile is_digit cs)"
  have w: "w \<le> length cs" by (simp add: w_def length_takeWhile_le)
  have "length (scan_fraction (drop w cs)) \<le> length cs - w" using length_scan_fraction [of "drop w cs"] by simp
  moreover have "length (scan_exponent (drop (w + length (scan_fraction (drop w cs))) cs)) \<le> length cs - (w + length (scan_fraction (drop w cs)))"
    using length_scan_exponent [of "drop (w + length (scan_fraction (drop w cs))) cs"] by simp
  ultimately show ?thesis using w by (simp add: scan_number_def Let_def w_def [symmetric])
qed

lemma length_strip_prefix: "strip_prefix p cs = Some r \<Longrightarrow> length p \<le> length cs"
  by (induction p cs rule: strip_prefix.induct) (auto split: if_split_asm)

lemma length_unit_suffix: "try_scan_unit_suffix cs = Some (u, m) \<Longrightarrow> m \<le> length cs"
proof -
  assume a: "try_scan_unit_suffix cs = Some (u, m)"
  define k where "k = (if cs \<noteq> [] \<and> hd cs = CHR '' '' then 1 else 0 :: nat)"
  have k: "k \<le> length cs" by (cases cs) (simp_all add: k_def)
  from a obtain p where p: "find (\<lambda>p. case strip_prefix (fst p) (drop k cs) of Some r \<Rightarrow> unit_boundary r | None \<Rightarrow> False) unit_tokens = Some p"
      "m = k + length (fst p)"
    by (auto simp: try_scan_unit_suffix_def Let_def k_def [symmetric])
  then obtain r where "strip_prefix (fst p) (drop k cs) = Some r" by (auto simp: find_Some_iff split: option.splits)
  with p(2) k show ?thesis using length_strip_prefix by fastforce
qed

lemma lex_number_length: "lex_number cs = Inr (k, n) \<Longrightarrow> n \<le> length cs"
  using length_scan_number [of cs] length_unit_suffix [of "drop (length (scan_number cs)) cs"]
  by (fastforce simp: lex_number_def Let_def split: option.splits)

lemma lex_punctuation_length: "lex_punctuation c cs = Some (k, n) \<Longrightarrow> n \<le> Suc (length cs)"
proof -
  have "Suc 0 \<le> length cs" if "next_is x cs" for x using that by (cases cs) (simp_all add: next_is_def)
  then show "lex_punctuation c cs = Some (k, n) \<Longrightarrow> n \<le> Suc (length cs)"
    unfolding lex_punctuation_def by (auto split: if_split_asm)
qed

lemma lex_token_length:
  assumes "lex_token i c cs = Inr (k, n)"
  shows "0 < n \<and> n \<le> Suc (length cs)"
proof (rule lex_token_cases [of c cs i])
  fix k' n' assume "lex_punctuation c cs = Some (k', n')" "lex_token i c cs = Inr (k', n')"
  then show ?thesis using assms lex_punctuation_Some lex_punctuation_length by auto
next
  assume ns: "number_start c cs" "lex_token i c cs = lex_number (c # cs)"
  then have "lex_number (c # cs) = Inr (k, n)" using assms by simp
  with ns show ?thesis using lex_number_length by (elim lex_number_cases) fastforce
next
  fix s assume "lex_token i c cs = Inr (Tk_Ident s, length s)" "s = c # takeWhile is_ident_continue cs"
  then show ?thesis using assms by (auto simp: length_takeWhile_le)
qed (use assms in simp)

function lex_from :: "nat \<Rightarrow> string \<Rightarrow> expr_error + token list" where
  "lex_from i [] = Inr [\<lparr>tk_kind = Tk_Eof, tk_pos = i\<rparr>]"
| "lex_from i (c # cs) =
     (if is_space c then lex_from (i + 1) cs
      else case lex_token i c cs of
        Inl e \<Rightarrow> Inl e
      | Inr (k, n) \<Rightarrow>
          (case lex_from (i + n) (drop n (c # cs)) of
             Inl e \<Rightarrow> Inl e
           | Inr ts \<Rightarrow> Inr (\<lparr>tk_kind = k, tk_pos = i\<rparr> # ts)))"
  by pat_completeness auto
termination
  by (relation "measure (\<lambda>(i, cs). length cs)") (auto dest: lex_token_length)

lemmas lex_from_Cons = lex_from.simps(2)

declare lex_from.simps(2) [simp del]

definition lex :: "string \<Rightarrow> expr_error + token list" where
  "lex src = lex_from 0 src"

section \<open>What the lexer promises the parser\<close>

text \<open>A token list for the parser: the tokens of the text and an end token, positions increasing.\<close>

definition unit_known :: "tok_kind \<Rightarrow> bool" where
  "unit_known k \<longleftrightarrow> (case k of Tk_Number v (Some t) \<Rightarrow> parse_unit_token t \<noteq> None | Tk_Eof \<Rightarrow> False | _ \<Rightarrow> True)"

definition placed :: "nat \<Rightarrow> nat \<Rightarrow> token list \<Rightarrow> bool" where
  "placed i z ts \<longleftrightarrow> sorted_wrt (<) (map tk_pos ts) \<and> list_all (\<lambda>t. i \<le> tk_pos t \<and> tk_pos t < z) ts"

definition well_lexed :: "nat \<Rightarrow> nat \<Rightarrow> token list \<Rightarrow> bool" where
  "well_lexed i z ts \<longleftrightarrow>
     ts \<noteq> [] \<and> List.last ts = \<lparr>tk_kind = Tk_Eof, tk_pos = z\<rparr> \<and>
     list_all (\<lambda>t. unit_known (tk_kind t)) (butlast ts) \<and> placed i z (butlast ts)"

lemma placed_mono: "placed j z ts \<Longrightarrow> i \<le> j \<Longrightarrow> placed i z ts"
  unfolding placed_def list_all_iff by (meson order_trans)

lemma placed_Cons: "placed (i + n) z ts \<Longrightarrow> 0 < n \<Longrightarrow> i < z \<Longrightarrow> tk_pos t = i \<Longrightarrow> placed i z (t # ts)"
proof -
  assume p: "placed (i + n) z ts" "0 < n" "i < z" "tk_pos t = i"
  then have "\<forall>x\<in>set ts. i < tk_pos x \<and> tk_pos x < z"
    unfolding placed_def list_all_iff by (metis add.commute less_add_same_cancel2 less_le_trans)
  with p show ?thesis by (simp add: placed_def list_all_iff less_imp_le)
qed

lemma unit_tokens_known: "(t, u) \<in> set unit_tokens \<Longrightarrow> parse_unit_token t \<noteq> None"
  by (auto simp: parse_unit_token_def find_None_iff)

lemma find_mem: "find P xs = Some x \<Longrightarrow> x \<in> set xs \<and> P x"
  by (induction xs) (auto split: if_split_asm)

lemma suffix_known:
  assumes "try_scan_unit_suffix cs = Some (u, m)"
  shows "parse_unit_token u \<noteq> None"
proof -
  obtain P p where "find P unit_tokens = Some p" "u = fst p"
    using assms unfolding try_scan_unit_suffix_def Let_def by (elim map_option_eq_Some [THEN iffD1, elim_format]) blast
  then show ?thesis using find_mem unit_tokens_known [of "fst p" "snd p"] by fastforce
qed

lemma lex_token_known:
  assumes "lex_token i c cs = Inr (k, n)"
  shows "unit_known k"
proof (rule lex_token_cases [of c cs i])
  assume "number_start c cs" "lex_token i c cs = lex_number (c # cs)"
  then show ?thesis using assms
    by (elim lex_number_cases) (auto simp: unit_known_def split: option.split dest: suffix_known)
next
  fix k' n' assume "lex_punctuation c cs = Some (k', n')" "lex_token i c cs = Inr (k', n')"
  then show ?thesis using assms by (auto simp: unit_known_def dest!: lex_punctuation_Some split: tok_kind.splits)
qed (use assms in \<open>simp_all add: unit_known_def\<close>)

lemma lex_from_well_lexed: "lex_from i cs = Inr ts \<Longrightarrow> well_lexed i (i + length cs) ts"
proof (induction i cs arbitrary: ts rule: lex_from.induct)
  case (1 i)
  then show ?case by (auto simp: well_lexed_def placed_def)
next
  case (2 i c cs)
  show ?case
  proof (cases "is_space c")
    case True
    then have "well_lexed (i + 1) (i + 1 + length cs) ts" using 2 by (simp add: lex_from_Cons)
    then show ?thesis using placed_mono [of "Suc i" _ _ i] by (simp add: well_lexed_def)
  next
    case False
    with "2.prems" have f: "(case lex_token i c cs of
        Inl e \<Rightarrow> Inl e
      | Inr (k, n) \<Rightarrow>
          (case lex_from (i + n) (drop n (c # cs)) of
             Inl e \<Rightarrow> Inl e
           | Inr ts \<Rightarrow> Inr (\<lparr>tk_kind = k, tk_pos = i\<rparr> # ts))) = Inr ts"
      by (simp only: lex_from_Cons if_False)
    then obtain k n where k: "lex_token i c cs = Inr (k, n)" by (cases "lex_token i c cs") auto
    from f obtain us where t: "lex_from (i + n) (drop n (c # cs)) = Inr us" "ts = \<lparr>tk_kind = k, tk_pos = i\<rparr> # us"
      unfolding k by (cases "lex_from (i + n) (drop n (c # cs))") auto
    have n: "0 < n" "n \<le> Suc (length cs)" using lex_token_length [OF k] by simp_all
    then have "i + n + length (drop n (c # cs)) = i + length (c # cs)" by simp
    then have "well_lexed (i + n) (i + length (c # cs)) us" using "2.IH"(2) [OF False k refl t(1)] by metis
    then show ?thesis
      using lex_token_known [OF k] placed_Cons [OF _ n(1)] by (simp add: t(2) well_lexed_def)
  qed
qed

end
