(* ===== verification/Expr_Parser.thy ===== *)
theory Expr_Parser
  imports Expr_Lexer
begin

text \<open>
  The recursive-descent parser of \<open>av-kernel/src/expr/parser.rs\<close> and the grammar it implements.
  The code's \<open>Parser\<close> is a token vector that ends in the end token and an index into it. The
  functions hold the tokens from the index on without the end token, and the place \<open>z\<close> of the end
  token: \<open>peek\<close> answers with the end token when no other is left, and \<open>advance\<close> stays there.
\<close>

section \<open>The parser\<close>

definition peek :: "nat \<Rightarrow> token list \<Rightarrow> token" where
  "peek z ts = (case ts of [] \<Rightarrow> \<lparr>tk_kind = Tk_Eof, tk_pos = z\<rparr> | t # _ \<Rightarrow> t)"

definition advance :: "token list \<Rightarrow> token list" where
  "advance ts = tl ts"

abbreviation kind_at :: "nat \<Rightarrow> token list \<Rightarrow> tok_kind" where
  "kind_at z ts \<equiv> tk_kind (peek z ts)"

type_synonym 'a parsed = "expr_error + 'a \<times> token list"

definition quoted :: "string \<Rightarrow> string" where
  "quoted s = CHR 0x27 # s @ [CHR 0x27]"

definition unexpected :: "nat \<Rightarrow> token list \<Rightarrow> string \<Rightarrow> expr_error" where
  "unexpected z ts expected = Ee_UnexpectedToken (tk_pos (peek z ts)) (kind_at z ts) expected"

definition expect_rparen :: "nat \<Rightarrow> token list \<Rightarrow> expr_error + token list" where
  "expect_rparen z ts =
     (if kind_at z ts = Tk_RParen then Inr (advance ts)
      else if kind_at z ts = Tk_Eof then Inl (Ee_UnexpectedEof (quoted '')''))
      else Inl (unexpected z ts (quoted '')'')))"

definition cmp_of :: "tok_kind \<Rightarrow> cmp_op option" where
  "cmp_of k =
     (case k of Tk_Lt \<Rightarrow> Some Co_Lt | Tk_Le \<Rightarrow> Some Co_Le | Tk_Gt \<Rightarrow> Some Co_Gt | Tk_Ge \<Rightarrow> Some Co_Ge
      | Tk_EqEq \<Rightarrow> Some Co_Eq | Tk_Ne \<Rightarrow> Some Co_Ne | _ \<Rightarrow> None)"

definition sum_of :: "tok_kind \<Rightarrow> bin_op option" where
  "sum_of k = (case k of Tk_Plus \<Rightarrow> Some Bo_Add | Tk_Minus \<Rightarrow> Some Bo_Sub | _ \<Rightarrow> None)"

definition term_of :: "tok_kind \<Rightarrow> bin_op option" where
  "term_of k = (case k of Tk_Star \<Rightarrow> Some Bo_Mul | Tk_Slash \<Rightarrow> Some Bo_Div | _ \<Rightarrow> None)"

text \<open>The unit of a number token; a token the lexer does not know is the panic of the \<open>expect\<close>.\<close>

definition number_unit :: "string option \<Rightarrow> expr_error + pb_unit" where
  "number_unit u = (case u of Some t \<Rightarrow> ok_or Ee_Panic (parse_unit_token t) | None \<Rightarrow> Inr U_Dimensionless)"

definition parse_time :: "nat \<Rightarrow> token list \<Rightarrow> time_spec parsed" where
  "parse_time z ts =
     (let p = tk_pos (peek z ts) in
      case kind_at z ts of
        Tk_Ident s \<Rightarrow>
          Inr (if s = ''start'' then Tm_Start else if s = ''end'' then Tm_End else Tm_EventName s p, advance ts)
      | Tk_Number v ut \<Rightarrow>
          ebind (number_unit ut) (\<lambda>u.
            if u \<noteq> U_Second then Inl (Ee_TimeMustBeSeconds u p)
            else Inr (Tm_OffsetSeconds v p, advance ts))
      | _ \<Rightarrow> Inl (unexpected z ts (quoted ''start'' @ '', '' @ quoted ''end'' @ '', a number of seconds, or an event name'')))"

text \<open>The rest of a dotted path.\<close>

function parse_path :: "nat \<Rightarrow> token list \<Rightarrow> string list parsed" where
  "parse_path z ts =
     (if kind_at z ts = Tk_Dot then
        (case kind_at z (advance ts) of
           Tk_Ident s \<Rightarrow> ebind (parse_path z (advance (advance ts))) (\<lambda>(path, ts'). Inr (s # path, ts'))
         | _ \<Rightarrow> Inl (unexpected z (advance ts) (''an identifier after '' @ quoted ''.'')))
      else Inr ([], ts))"
  by pat_completeness auto
termination
  by (relation "measure (\<lambda>(z, ts). length ts)") (auto simp: peek_def advance_def split: list.splits)

declare parse_path.simps [simp del]

declare ebind_cong [fundef_cong]

function parse_comparison :: "nat \<Rightarrow> token list \<Rightarrow> expr parsed"
  and parse_sum :: "nat \<Rightarrow> token list \<Rightarrow> expr parsed"
  and parse_sum_loop :: "nat \<Rightarrow> expr \<Rightarrow> token list \<Rightarrow> expr parsed"
  and parse_term :: "nat \<Rightarrow> token list \<Rightarrow> expr parsed"
  and parse_term_loop :: "nat \<Rightarrow> expr \<Rightarrow> token list \<Rightarrow> expr parsed"
  and parse_unary :: "nat \<Rightarrow> token list \<Rightarrow> expr parsed"
  and parse_postfix :: "nat \<Rightarrow> token list \<Rightarrow> expr parsed"
  and parse_primary :: "nat \<Rightarrow> token list \<Rightarrow> expr parsed"
  and parse_call_or_ref :: "nat \<Rightarrow> string \<Rightarrow> nat \<Rightarrow> token list \<Rightarrow> expr parsed"
  and parse_args :: "nat \<Rightarrow> token list \<Rightarrow> expr list parsed"
where
  "parse_comparison z ts =
     ebind (parse_sum z ts) (\<lambda>(lhs, ts1).
       case cmp_of (kind_at z ts1) of
         None \<Rightarrow> Inr (lhs, ts1)
       | Some op \<Rightarrow>
           ebind (parse_sum z (advance ts1)) (\<lambda>(rhs, ts2).
             Inr (E_Compare op lhs rhs (tk_pos (peek z ts1)), ts2)))"
| "parse_sum z ts = ebind (parse_term z ts) (\<lambda>(lhs, ts1). parse_sum_loop z lhs ts1)"
| "parse_sum_loop z lhs ts =
     (case sum_of (kind_at z ts) of
        None \<Rightarrow> Inr (lhs, ts)
      | Some op \<Rightarrow>
          ebind (parse_term z (advance ts)) (\<lambda>(rhs, ts1).
            parse_sum_loop z (E_Binary op lhs rhs (tk_pos (peek z ts))) ts1))"
| "parse_term z ts = ebind (parse_unary z ts) (\<lambda>(lhs, ts1). parse_term_loop z lhs ts1)"
| "parse_term_loop z lhs ts =
     (case term_of (kind_at z ts) of
        None \<Rightarrow> Inr (lhs, ts)
      | Some op \<Rightarrow>
          ebind (parse_unary z (advance ts)) (\<lambda>(rhs, ts1).
            parse_term_loop z (E_Binary op lhs rhs (tk_pos (peek z ts))) ts1))"
| "parse_unary z ts =
     (if kind_at z ts = Tk_Minus then
        ebind (parse_unary z (advance ts)) (\<lambda>(inner, ts1). Inr (E_Neg inner (tk_pos (peek z ts)), ts1))
      else parse_postfix z ts)"
| "parse_postfix z ts =
     ebind (parse_primary z ts) (\<lambda>(e, ts1).
       if kind_at z ts1 = Tk_At then
         ebind (parse_time z (advance ts1)) (\<lambda>(time, ts2). Inr (E_At e time (tk_pos (peek z ts1)), ts2))
       else Inr (e, ts1))"
| "parse_primary z ts =
     (case kind_at z ts of
        Tk_Number v ut \<Rightarrow>
          ebind (number_unit ut) (\<lambda>u. Inr (E_Number v u (tk_pos (peek z ts)), advance ts))
      | Tk_LParen \<Rightarrow>
          ebind (parse_comparison z (advance ts)) (\<lambda>(inner, ts1).
            ebind (expect_rparen z ts1) (\<lambda>ts2. Inr (inner, ts2)))
      | Tk_Ident name \<Rightarrow> parse_call_or_ref z name (tk_pos (peek z ts)) (advance ts)
      | Tk_Eof \<Rightarrow> Inl (Ee_UnexpectedEof (''a number, '' @ quoted ''('' @ '', or an identifier''))
      | _ \<Rightarrow> Inl (unexpected z ts (''a number, '' @ quoted ''('' @ '', or an identifier'')))"
| "parse_call_or_ref z name p ts =
     (if kind_at z ts = Tk_LParen then
        ebind (if kind_at z (advance ts) = Tk_RParen then Inr ([], advance ts) else parse_args z (advance ts))
          (\<lambda>(args, ts1). ebind (expect_rparen z ts1) (\<lambda>ts2. Inr (E_Call name args p, ts2)))
      else ebind (parse_path z ts) (\<lambda>(path, ts1). Inr (E_Ref (name # path) p, ts1)))"
| "parse_args z ts =
     ebind (parse_comparison z ts) (\<lambda>(arg, ts1).
       if kind_at z ts1 = Tk_Comma then
         ebind (parse_args z (advance ts1)) (\<lambda>(args, ts2). Inr (arg # args, ts2))
       else Inr ([arg], ts1))"
  by pat_completeness auto

lemmas parse_pinduct = parse_comparison_parse_sum_parse_sum_loop_parse_term_parse_term_loop_parse_unary_parse_postfix_parse_primary_parse_call_or_ref_parse_args.pinduct

abbreviation parse_dom where
  "parse_dom \<equiv> parse_comparison_parse_sum_parse_sum_loop_parse_term_parse_term_loop_parse_unary_parse_postfix_parse_primary_parse_call_or_ref_parse_args_dom"

text \<open>A token was read: what is left is shorter.\<close>

lemma kind_at_length: "kind_at z ts \<noteq> Tk_Eof \<Longrightarrow> length (advance ts) < length ts"
  by (cases ts) (simp_all add: peek_def advance_def)

lemma kind_lengths:
  "kind_at z ts = Tk_Minus \<Longrightarrow> length (advance ts) < length ts"
  "kind_at z ts = Tk_Ident s \<Longrightarrow> length (advance ts) < length ts"
  "kind_at z ts = Tk_LParen \<Longrightarrow> length (advance ts) < length ts"
  "kind_at z ts = Tk_Comma \<Longrightarrow> length (advance ts) < length ts"
  by (rule kind_at_length [of z]; simp)+

lemma length_advance [simp]: "length (advance ts) \<le> length ts"
  by (simp add: advance_def)

lemma advance_le: "length r < length (advance ts) \<Longrightarrow> length r \<le> length ts"
  using length_advance [of ts] by linarith

lemma cmp_of_length: "cmp_of (kind_at z ts) = Some op \<Longrightarrow> length (advance ts) < length ts"
  by (rule kind_at_length [of z]) (auto simp: cmp_of_def)

lemma sum_of_length: "sum_of (kind_at z ts) = Some op \<Longrightarrow> length (advance ts) < length ts"
  by (rule kind_at_length [of z]) (auto simp: sum_of_def)

lemma term_of_length: "term_of (kind_at z ts) = Some op \<Longrightarrow> length (advance ts) < length ts"
  by (rule kind_at_length [of z]) (auto simp: term_of_def)

lemma expect_rparen_length: "expect_rparen z ts = Inr ts' \<Longrightarrow> length ts' < length ts"
  using kind_at_length [of z ts] by (auto simp: expect_rparen_def split: if_split_asm)

lemma parse_time_length: "parse_time z ts = Inr (t, ts') \<Longrightarrow> length ts' < length ts"
  using kind_at_length [of z ts]
  by (auto simp: parse_time_def Let_def ebind_eq_Inr split: tok_kind.splits if_split_asm)

lemma parse_path_length: "parse_path z ts = Inr (path, ts') \<Longrightarrow> length ts' \<le> length ts"
proof (induction z ts arbitrary: path ts' rule: parse_path.induct)
  case (1 z ts)
  have "length (advance (advance ts)) \<le> length ts" by (metis length_advance order_trans)
  with 1 show ?case
    by (subst (asm) (2) parse_path.simps) (fastforce simp: ebind_eq_Inr split: if_split_asm tok_kind.splits)
qed

lemma parse_shrinks:
  "parse_dom (Inl (Inl (Inl (z, ts)))) \<Longrightarrow> parse_comparison z ts = Inr (e, r) \<Longrightarrow> length r < length ts"
  "parse_dom (Inl (Inl (Inr (z, ts)))) \<Longrightarrow> parse_sum z ts = Inr (e, r) \<Longrightarrow> length r < length ts"
  "parse_dom (Inl (Inr (Inl (z, lhs, ts)))) \<Longrightarrow> parse_sum_loop z lhs ts = Inr (e, r) \<Longrightarrow> length r \<le> length ts"
  "parse_dom (Inl (Inr (Inr (Inl (z, ts))))) \<Longrightarrow> parse_term z ts = Inr (e, r) \<Longrightarrow> length r < length ts"
  "parse_dom (Inl (Inr (Inr (Inr (z, lhs, ts))))) \<Longrightarrow> parse_term_loop z lhs ts = Inr (e, r) \<Longrightarrow> length r \<le> length ts"
  "parse_dom (Inr (Inl (Inl (z, ts)))) \<Longrightarrow> parse_unary z ts = Inr (e, r) \<Longrightarrow> length r < length ts"
  "parse_dom (Inr (Inl (Inr (z, ts)))) \<Longrightarrow> parse_postfix z ts = Inr (e, r) \<Longrightarrow> length r < length ts"
  "parse_dom (Inr (Inr (Inl (z, ts)))) \<Longrightarrow> parse_primary z ts = Inr (e, r) \<Longrightarrow> length r < length ts"
  "parse_dom (Inr (Inr (Inr (Inl (z, name, p, ts))))) \<Longrightarrow> parse_call_or_ref z name p ts = Inr (e, r) \<Longrightarrow> length r \<le> length ts"
  "parse_dom (Inr (Inr (Inr (Inr (z, ts))))) \<Longrightarrow> parse_args z ts = Inr (es, r) \<Longrightarrow> length r < length ts"
proof (induction z ts and z ts and z lhs ts and z ts and z lhs ts and z ts and z ts and z ts and z name p ts and z ts
    arbitrary: e r and e r and e r and e r and e r and e r and e r and e r and e r and es r rule: parse_pinduct)
  case (1 z ts)
  from 1(4) obtain lhs ts1 where a: "parse_sum z ts = Inr (lhs, ts1)"
    and r: "(case cmp_of (kind_at z ts1) of None \<Rightarrow> Inr (lhs, ts1)
      | Some op \<Rightarrow> ebind (parse_sum z (advance ts1)) (\<lambda>(rhs, ts2). Inr (E_Compare op lhs rhs (tk_pos (peek z ts1)), ts2))) = Inr (e, r)"
    by (auto simp: parse_comparison.psimps [OF 1(1)] ebind_eq_Inr)
  show ?case
    using r 1(2) [OF a] 1(3) [OF a refl] cmp_of_length [of z ts1]
    by (fastforce simp: ebind_eq_Inr split: option.splits)
next
  case (2 z ts)
  then show ?case by (fastforce simp: parse_sum.psimps ebind_eq_Inr)
next
  case (3 z lhs ts)
  then show ?case using sum_of_length [of z ts]
    by (fastforce simp: parse_sum_loop.psimps ebind_eq_Inr split: option.splits)
next
  case (4 z ts)
  then show ?case by (fastforce simp: parse_term.psimps ebind_eq_Inr)
next
  case (5 z lhs ts)
  then show ?case using term_of_length [of z ts]
    by (fastforce simp: parse_term_loop.psimps ebind_eq_Inr split: option.splits)
next
  case (6 z ts)
  then show ?case using kind_at_length [of z ts]
    by (fastforce simp: parse_unary.psimps ebind_eq_Inr split: if_split_asm)
next
  case (7 z ts)
  from 7(3) obtain e1 ts1 where a: "parse_primary z ts = Inr (e1, ts1)"
    and r: "(if kind_at z ts1 = Tk_At then
         ebind (parse_time z (advance ts1)) (\<lambda>(time, ts2). Inr (E_At e1 time (tk_pos (peek z ts1)), ts2))
       else Inr (e1, ts1)) = Inr (e, r)"
    by (auto simp: parse_postfix.psimps [OF 7(1)] ebind_eq_Inr)
  have "length r \<le> length ts1"
    using r by (auto simp: ebind_eq_Inr dest!: parse_time_length intro: advance_le split: if_split_asm)
  with 7(2) [OF a] show ?case by simp
next
  case (8 z ts)
  then show ?case using kind_at_length [of z ts]
    by (fastforce simp: parse_primary.psimps ebind_eq_Inr dest: expect_rparen_length split: tok_kind.splits)
next
  case (9 z name p ts)
  then show ?case using kind_at_length [of z ts]
    by (fastforce simp: parse_call_or_ref.psimps ebind_eq_Inr dest: expect_rparen_length parse_path_length split: if_split_asm)
next
  case (10 z ts)
  from 10(4) obtain a1 ts1 where a: "parse_comparison z ts = Inr (a1, ts1)"
    and r: "(if kind_at z ts1 = Tk_Comma then
         ebind (parse_args z (advance ts1)) (\<lambda>(args, ts2). Inr (a1 # args, ts2))
       else Inr ([a1], ts1)) = Inr (es, r)"
    by (auto simp: parse_args.psimps [OF 10(1)] ebind_eq_Inr)
  have "length r \<le> length ts1"
    using r 10(3) [OF a refl] by (auto simp: ebind_eq_Inr intro: advance_le split: if_split_asm)
  with 10(2) [OF a] show ?case by simp
qed

termination parse_comparison
  apply (relation "measure (case_sum
    (case_sum (case_sum (\<lambda>(z, ts). 8 * length ts + 6) (\<lambda>(z, ts). 8 * length ts + 5))
      (case_sum (\<lambda>(z, lhs, ts). 8 * length ts)
        (case_sum (\<lambda>(z, ts). 8 * length ts + 4) (\<lambda>(z, lhs, ts). 8 * length ts))))
    (case_sum (case_sum (\<lambda>(z, ts). 8 * length ts + 3) (\<lambda>(z, ts). 8 * length ts + 2))
      (case_sum (\<lambda>(z, ts). 8 * length ts + 1)
        (case_sum (\<lambda>(z, name, p, ts). 8 * length ts) (\<lambda>(z, ts). 8 * length ts + 7)))))")
  apply (simp_all add: split_paired_all)
  apply (auto dest!: parse_shrinks(1,2,4,6) cmp_of_length sum_of_length term_of_length kind_lengths)
  done

declare parse_comparison.simps [simp del] parse_sum.simps [simp del] parse_sum_loop.simps [simp del]
  parse_term.simps [simp del] parse_term_loop.simps [simp del] parse_unary.simps [simp del]
  parse_postfix.simps [simp del] parse_primary.simps [simp del] parse_call_or_ref.simps [simp del]
  parse_args.simps [simp del]

definition parse_tokens :: "token list \<Rightarrow> expr_error + expr" where
  "parse_tokens ts =
     (let z = tk_pos (List.last ts) in
      ebind (parse_comparison z (butlast ts)) (\<lambda>(e, ts').
        if kind_at z ts' \<noteq> Tk_Eof then Inl (Ee_TrailingInput (tk_pos (peek z ts')) (kind_at z ts'))
        else Inr e))"

definition parse :: "string \<Rightarrow> expr_error + expr" where
  "parse src = ebind (lex src) parse_tokens"

section \<open>The grammar\<close>

text \<open>
  The productions of the grammar in the header of \<open>parser.rs\<close>, over tokens, with the trees they build:
  \<open>expr := comparison\<close>, \<open>comparison := sum [cmp sum]\<close>, \<open>sum := term (('+' | '-') term)*\<close>,
  \<open>term := unary (('*' | '/') unary)*\<close>, \<open>unary := '-' unary | postfix\<close>, \<open>postfix := primary ['@' time]\<close>,
  \<open>primary := number [unit] | call | ref | '(' expr ')'\<close>. Sums and terms associate to the left.
\<close>

definition time_token :: "token \<Rightarrow> time_spec option" where
  "time_token t =
     (case tk_kind t of
        Tk_Ident s \<Rightarrow>
          Some (if s = ''start'' then Tm_Start else if s = ''end'' then Tm_End else Tm_EventName s (tk_pos t))
      | Tk_Number v ut \<Rightarrow> if number_unit ut = Inr U_Second then Some (Tm_OffsetSeconds v (tk_pos t)) else None
      | _ \<Rightarrow> None)"

inductive g_path :: "token list \<Rightarrow> string list \<Rightarrow> bool" where
  "g_path [] []"
| "tk_kind d = Tk_Dot \<Longrightarrow> tk_kind t = Tk_Ident s \<Longrightarrow> g_path ts path \<Longrightarrow> g_path (d # t # ts) (s # path)"

inductive g_comparison :: "token list \<Rightarrow> expr \<Rightarrow> bool"
  and g_sum :: "token list \<Rightarrow> expr \<Rightarrow> bool"
  and g_term :: "token list \<Rightarrow> expr \<Rightarrow> bool"
  and g_unary :: "token list \<Rightarrow> expr \<Rightarrow> bool"
  and g_postfix :: "token list \<Rightarrow> expr \<Rightarrow> bool"
  and g_primary :: "token list \<Rightarrow> expr \<Rightarrow> bool"
  and g_args :: "token list \<Rightarrow> expr list \<Rightarrow> bool"
where
  g_one_sum: "g_sum ts e \<Longrightarrow> g_comparison ts e"
| g_compare: "g_sum ts l \<Longrightarrow> cmp_of (tk_kind t) = Some op \<Longrightarrow> g_sum us r \<Longrightarrow>
     g_comparison (ts @ t # us) (E_Compare op l r (tk_pos t))"
| g_one_term: "g_term ts e \<Longrightarrow> g_sum ts e"
| g_add: "g_sum ts l \<Longrightarrow> sum_of (tk_kind t) = Some op \<Longrightarrow> g_term us r \<Longrightarrow>
     g_sum (ts @ t # us) (E_Binary op l r (tk_pos t))"
| g_one_unary: "g_unary ts e \<Longrightarrow> g_term ts e"
| g_mul: "g_term ts l \<Longrightarrow> term_of (tk_kind t) = Some op \<Longrightarrow> g_unary us r \<Longrightarrow>
     g_term (ts @ t # us) (E_Binary op l r (tk_pos t))"
| g_one_postfix: "g_postfix ts e \<Longrightarrow> g_unary ts e"
| g_neg: "tk_kind t = Tk_Minus \<Longrightarrow> g_unary ts e \<Longrightarrow> g_unary (t # ts) (E_Neg e (tk_pos t))"
| g_one_primary: "g_primary ts e \<Longrightarrow> g_postfix ts e"
| g_at: "g_primary ts e \<Longrightarrow> tk_kind t = Tk_At \<Longrightarrow> time_token u = Some time \<Longrightarrow>
     g_postfix (ts @ [t, u]) (E_At e time (tk_pos t))"
| g_number: "tk_kind t = Tk_Number v ut \<Longrightarrow> number_unit ut = Inr u \<Longrightarrow> g_primary [t] (E_Number v u (tk_pos t))"
| g_paren: "tk_kind t = Tk_LParen \<Longrightarrow> g_comparison ts e \<Longrightarrow> tk_kind t' = Tk_RParen \<Longrightarrow> g_primary (t # ts @ [t']) e"
| g_call0: "tk_kind t = Tk_Ident name \<Longrightarrow> tk_kind l = Tk_LParen \<Longrightarrow> tk_kind r = Tk_RParen \<Longrightarrow>
     g_primary [t, l, r] (E_Call name [] (tk_pos t))"
| g_call: "tk_kind t = Tk_Ident name \<Longrightarrow> tk_kind l = Tk_LParen \<Longrightarrow> g_args ts es \<Longrightarrow> tk_kind r = Tk_RParen \<Longrightarrow>
     g_primary (t # l # ts @ [r]) (E_Call name es (tk_pos t))"
| g_ref: "tk_kind t = Tk_Ident name \<Longrightarrow> g_path ts path \<Longrightarrow> g_primary (t # ts) (E_Ref (name # path) (tk_pos t))"
| g_arg: "g_comparison ts e \<Longrightarrow> g_args ts [e]"
| g_args: "g_comparison ts e \<Longrightarrow> tk_kind t = Tk_Comma \<Longrightarrow> g_args us es \<Longrightarrow> g_args (ts @ t # us) (e # es)"

text \<open>What the parser reads is derived by the grammar.\<close>

lemma kind_at_Cons: "kind_at z ts = k \<Longrightarrow> k \<noteq> Tk_Eof \<Longrightarrow> \<exists>t. ts = t # advance ts \<and> tk_kind t = k \<and> tk_pos (peek z ts) = tk_pos t"
  by (cases ts) (auto simp: peek_def advance_def)

lemma op_at_Cons:
  "cmp_of (kind_at z ts) = Some op \<Longrightarrow> \<exists>t. ts = t # advance ts \<and> cmp_of (tk_kind t) = Some op \<and> tk_pos (peek z ts) = tk_pos t"
  "sum_of (kind_at z ts) = Some b \<Longrightarrow> \<exists>t. ts = t # advance ts \<and> sum_of (tk_kind t) = Some b \<and> tk_pos (peek z ts) = tk_pos t"
  "term_of (kind_at z ts) = Some b \<Longrightarrow> \<exists>t. ts = t # advance ts \<and> term_of (tk_kind t) = Some b \<and> tk_pos (peek z ts) = tk_pos t"
  by (cases ts; simp add: peek_def advance_def cmp_of_def sum_of_def term_of_def)+

lemma expect_rparen_Inr: "expect_rparen z ts = Inr ts' \<Longrightarrow> \<exists>t. ts = t # ts' \<and> tk_kind t = Tk_RParen"
  by (cases ts) (auto simp: expect_rparen_def peek_def advance_def split: if_split_asm)

lemma parse_time_Inr: "parse_time z ts = Inr (t, ts') \<Longrightarrow> \<exists>u. ts = u # ts' \<and> time_token u = Some t"
  by (cases ts) (auto simp: parse_time_def time_token_def peek_def advance_def Let_def ebind_eq_Inr split: tok_kind.splits if_split_asm)

lemma parse_path_sound: "parse_path z ts = Inr (path, ts') \<Longrightarrow> \<exists>pre. ts = pre @ ts' \<and> g_path pre path"
proof (induction z ts arbitrary: path ts' rule: parse_path.induct)
  case (1 z ts)
  show ?case
  proof (cases "kind_at z ts = Tk_Dot")
    case True
    with "1.prems" obtain s where s: "kind_at z (advance ts) = Tk_Ident s"
      by (subst (asm) parse_path.simps) (auto split: tok_kind.splits)
    with "1.prems" True obtain path2 where p: "parse_path z (advance (advance ts)) = Inr (path2, ts')" "path = s # path2"
      by (subst (asm) parse_path.simps) (auto simp: ebind_eq_Inr)
    obtain pre where "advance (advance ts) = pre @ ts'" "g_path pre path2" using "1.IH" [OF True s p(1)] by blast
    then show ?thesis using kind_at_Cons [OF True] kind_at_Cons [OF s] g_path.intros(2) p(2)
      by (metis append_Cons tok_kind.distinct)
  next
    case False
    with "1.prems" show ?thesis by (subst (asm) parse_path.simps) (simp add: g_path.intros)
  qed
qed

lemma parse_sound:
  "parse_comparison z ts = Inr (e, r) \<Longrightarrow> \<exists>pre. ts = pre @ r \<and> g_comparison pre e"
  "parse_sum z ts = Inr (e, r) \<Longrightarrow> \<exists>pre. ts = pre @ r \<and> g_sum pre e"
  "parse_sum_loop z lhs ts = Inr (e, r) \<Longrightarrow> \<exists>pre. ts = pre @ r \<and> (\<forall>us. g_sum us lhs \<longrightarrow> g_sum (us @ pre) e)"
  "parse_term z ts = Inr (e, r) \<Longrightarrow> \<exists>pre. ts = pre @ r \<and> g_term pre e"
  "parse_term_loop z lhs ts = Inr (e, r) \<Longrightarrow> \<exists>pre. ts = pre @ r \<and> (\<forall>us. g_term us lhs \<longrightarrow> g_term (us @ pre) e)"
  "parse_unary z ts = Inr (e, r) \<Longrightarrow> \<exists>pre. ts = pre @ r \<and> g_unary pre e"
  "parse_postfix z ts = Inr (e, r) \<Longrightarrow> \<exists>pre. ts = pre @ r \<and> g_postfix pre e"
  "parse_primary z ts = Inr (e, r) \<Longrightarrow> \<exists>pre. ts = pre @ r \<and> g_primary pre e"
  "parse_call_or_ref z name p ts = Inr (e, r) \<Longrightarrow>
    \<forall>t::token. tk_kind t = Tk_Ident name \<longrightarrow> tk_pos t = p \<longrightarrow> (\<exists>pre. ts = pre @ r \<and> g_primary (t # pre) e)"
  "parse_args z ts = Inr (es, r) \<Longrightarrow> \<exists>pre. ts = pre @ r \<and> g_args pre es"
proof (induction z ts and z ts and z lhs ts and z ts and z lhs ts and z ts and z ts and z ts and z name p ts and z ts
    arbitrary: e r and e r and e r and e r and e r and e r and e r and e r and e r and es r
    rule: parse_comparison_parse_sum_parse_sum_loop_parse_term_parse_term_loop_parse_unary_parse_postfix_parse_primary_parse_call_or_ref_parse_args.induct)
  case (1 z ts)
  from "1.prems" obtain lhs ts1 where a: "parse_sum z ts = Inr (lhs, ts1)"
    and b: "(case cmp_of (kind_at z ts1) of None \<Rightarrow> Inr (lhs, ts1)
      | Some op \<Rightarrow> ebind (parse_sum z (advance ts1)) (\<lambda>(rhs, ts2). Inr (E_Compare op lhs rhs (tk_pos (peek z ts1)), ts2))) = Inr (e, r)"
    by (auto simp: parse_comparison.simps ebind_eq_Inr)
  obtain pre where pre: "ts = pre @ ts1" "g_sum pre lhs" using "1.IH"(1) [OF a] by blast
  show ?case
  proof (cases "cmp_of (kind_at z ts1)")
    case None
    with b pre show ?thesis by (auto intro: g_one_sum)
  next
    case (Some op)
    with b obtain rhs where c: "parse_sum z (advance ts1) = Inr (rhs, r)" "e = E_Compare op lhs rhs (tk_pos (peek z ts1))"
      by (auto simp: ebind_eq_Inr)
    obtain pre2 where "advance ts1 = pre2 @ r" "g_sum pre2 rhs" using "1.IH"(2) [OF a refl Some c(1)] by blast
    moreover obtain t where "ts1 = t # advance ts1" "cmp_of (tk_kind t) = Some op" "tk_pos (peek z ts1) = tk_pos t"
      using op_at_Cons(1) [OF Some] by blast
    ultimately show ?thesis using pre c(2) g_compare [of pre lhs t op pre2 rhs] by (metis append.assoc append_Cons)
  qed
next
  case (2 z ts)
  then show ?case by (fastforce simp: parse_sum.simps ebind_eq_Inr intro: g_one_term)
next
  case (3 z lhs ts)
  show ?case
  proof (cases "sum_of (kind_at z ts)")
    case None
    with "3.prems" show ?thesis by (simp add: parse_sum_loop.simps)
  next
    case (Some op)
    with "3.prems" obtain rhs ts1 where a: "parse_term z (advance ts) = Inr (rhs, ts1)"
      and b: "parse_sum_loop z (E_Binary op lhs rhs (tk_pos (peek z ts))) ts1 = Inr (e, r)"
      by (auto simp: parse_sum_loop.simps [of z lhs ts] ebind_eq_Inr)
    obtain pre where pre: "advance ts = pre @ ts1" "g_term pre rhs" using "3.IH"(1) [OF Some a] by blast
    obtain pre2 where pre2: "ts1 = pre2 @ r" "\<And>us. g_sum us (E_Binary op lhs rhs (tk_pos (peek z ts))) \<Longrightarrow> g_sum (us @ pre2) e"
      using "3.IH"(2) [OF Some a refl b] by blast
    obtain t where t: "ts = t # advance ts" "sum_of (tk_kind t) = Some op" "tk_pos (peek z ts) = tk_pos t"
      using op_at_Cons(2) [OF Some] by blast
    have "g_sum (us @ t # pre @ pre2) e" if "g_sum us lhs" for us
      using pre2(2) [of "us @ t # pre"] g_add [OF that t(2) pre(2)] t(3) by simp
    then show ?thesis using t(1) pre(1) pre2(1) by (metis append.assoc append_Cons)
  qed
next
  case (4 z ts)
  then show ?case by (fastforce simp: parse_term.simps ebind_eq_Inr intro: g_one_unary)
next
  case (5 z lhs ts)
  show ?case
  proof (cases "term_of (kind_at z ts)")
    case None
    with "5.prems" show ?thesis by (simp add: parse_term_loop.simps)
  next
    case (Some op)
    with "5.prems" obtain rhs ts1 where a: "parse_unary z (advance ts) = Inr (rhs, ts1)"
      and b: "parse_term_loop z (E_Binary op lhs rhs (tk_pos (peek z ts))) ts1 = Inr (e, r)"
      by (auto simp: parse_term_loop.simps [of z lhs ts] ebind_eq_Inr)
    obtain pre where pre: "advance ts = pre @ ts1" "g_unary pre rhs" using "5.IH"(1) [OF Some a] by blast
    obtain pre2 where pre2: "ts1 = pre2 @ r" "\<And>us. g_term us (E_Binary op lhs rhs (tk_pos (peek z ts))) \<Longrightarrow> g_term (us @ pre2) e"
      using "5.IH"(2) [OF Some a refl b] by blast
    obtain t where t: "ts = t # advance ts" "term_of (tk_kind t) = Some op" "tk_pos (peek z ts) = tk_pos t"
      using op_at_Cons(3) [OF Some] by blast
    have "g_term (us @ t # pre @ pre2) e" if "g_term us lhs" for us
      using pre2(2) [of "us @ t # pre"] g_mul [OF that t(2) pre(2)] t(3) by simp
    then show ?thesis using t(1) pre(1) pre2(1) by (metis append.assoc append_Cons)
  qed
next
  case (6 z ts)
  show ?case
  proof (cases "kind_at z ts = Tk_Minus")
    case True
    with "6.prems" obtain inner where a: "parse_unary z (advance ts) = Inr (inner, r)" "e = E_Neg inner (tk_pos (peek z ts))"
      by (auto simp: parse_unary.simps [of z ts] ebind_eq_Inr)
    then obtain pre where "advance ts = pre @ r" "g_unary pre inner" using "6.IH"(1) [OF True] by blast
    then show ?thesis using kind_at_Cons [OF True] a(2) g_neg by (metis append_Cons tok_kind.distinct)
  next
    case False
    with "6.prems" "6.IH"(2) [OF False] show ?thesis by (auto simp: parse_unary.simps [of z ts] intro: g_one_postfix)
  qed
next
  case (7 z ts)
  from "7.prems" obtain e1 ts1 where a: "parse_primary z ts = Inr (e1, ts1)"
    and b: "(if kind_at z ts1 = Tk_At then
         ebind (parse_time z (advance ts1)) (\<lambda>(time, ts2). Inr (E_At e1 time (tk_pos (peek z ts1)), ts2))
       else Inr (e1, ts1)) = Inr (e, r)"
    by (auto simp: parse_postfix.simps ebind_eq_Inr)
  obtain pre where pre: "ts = pre @ ts1" "g_primary pre e1" using "7.IH" [OF a] by blast
  show ?case
  proof (cases "kind_at z ts1 = Tk_At")
    case True
    with b obtain time where c: "parse_time z (advance ts1) = Inr (time, r)" "e = E_At e1 time (tk_pos (peek z ts1))"
      by (auto simp: ebind_eq_Inr)
    obtain u where "advance ts1 = u # r" "time_token u = Some time" using parse_time_Inr [OF c(1)] by blast
    moreover obtain t where "ts1 = t # advance ts1" "tk_kind t = Tk_At" "tk_pos (peek z ts1) = tk_pos t"
      using kind_at_Cons [OF True] by blast
    ultimately show ?thesis using pre c(2) g_at [of pre e1 t u time] by (metis append.assoc append_Cons append_Nil)
  next
    case False
    with b pre show ?thesis by (auto intro: g_one_primary)
  qed
next
  case (8 z ts)
  show ?case
  proof (cases "kind_at z ts")
    case (Tk_Number v ut)
    with "8.prems" obtain u where "number_unit ut = Inr u" "e = E_Number v u (tk_pos (peek z ts))" "r = advance ts"
      by (auto simp: parse_primary.simps [of z ts] ebind_eq_Inr)
    then show ?thesis using kind_at_Cons [OF Tk_Number] g_number [of _ v ut u]
      by (metis append_Cons append_Nil tok_kind.distinct(33))
  next
    case Tk_LParen
    with "8.prems" obtain ts1 where a: "parse_comparison z (advance ts) = Inr (e, ts1)" "expect_rparen z ts1 = Inr r"
      by (auto simp: parse_primary.simps [of z ts] ebind_eq_Inr)
    obtain pre where pre: "advance ts = pre @ ts1" "g_comparison pre e" using "8.IH"(2) [OF Tk_LParen a(1)] by blast
    obtain t' where t': "ts1 = t' # r" "tk_kind t' = Tk_RParen" using expect_rparen_Inr [OF a(2)] by blast
    obtain t where t: "ts = t # advance ts" "tk_kind t = Tk_LParen" using kind_at_Cons [OF Tk_LParen] by blast
    from t(1) pre(1) t'(1) have "ts = (t # pre @ [t']) @ r" by simp
    then show ?thesis using g_paren [OF t(2) pre(2) t'(2)] by blast
  next
    case (Tk_Ident name)
    with "8.prems" have a: "parse_call_or_ref z name (tk_pos (peek z ts)) (advance ts) = Inr (e, r)"
      by (auto simp: parse_primary.simps [of z ts])
    obtain t where t: "ts = t # advance ts" "tk_kind t = Tk_Ident name" "tk_pos (peek z ts) = tk_pos t"
      using kind_at_Cons [OF Tk_Ident] by blast
    then obtain pre where "advance ts = pre @ r" "g_primary (t # pre) e" using "8.IH"(1) [OF Tk_Ident a] by metis
    with t(1) show ?thesis by (metis append_Cons)
  qed (use "8.prems" in \<open>simp_all add: parse_primary.simps [of z ts]\<close>)
next
  case (9 z name p ts)
  show ?case
  proof (intro allI impI)
    fix t :: token assume t: "tk_kind t = Tk_Ident name" "tk_pos t = p"
    show "\<exists>pre. ts = pre @ r \<and> g_primary (t # pre) e"
    proof (cases "kind_at z ts = Tk_LParen")
      case True
      then obtain l where l: "ts = l # advance ts" "tk_kind l = Tk_LParen" using kind_at_Cons by blast
      from True "9.prems" obtain args ts1 where
        a: "(if kind_at z (advance ts) = Tk_RParen then Inr ([], advance ts) else parse_args z (advance ts)) = Inr (args, ts1)"
        and b: "expect_rparen z ts1 = Inr r" "e = E_Call name args p"
        by (auto simp: parse_call_or_ref.simps [of z name p ts] ebind_eq_Inr)
      obtain q where q: "ts1 = q # r" "tk_kind q = Tk_RParen" using expect_rparen_Inr [OF b(1)] by blast
      show ?thesis
      proof (cases "kind_at z (advance ts) = Tk_RParen")
        case rp: True
        with a have "args = []" "ts1 = advance ts" by simp_all
        with l q b(2) t have "ts = [l, q] @ r" "g_primary (t # [l, q]) e" using g_call0 [OF t(1) l(2) q(2)] by simp_all
        then show ?thesis by blast
      next
        case False
        with a have c: "parse_args z (advance ts) = Inr (args, ts1)" by simp
        obtain pre where "advance ts = pre @ ts1" "g_args pre args" using "9.IH" [OF True False c] by blast
        with l q b(2) t have "ts = (l # pre @ [q]) @ r" "g_primary (t # l # pre @ [q]) e"
          using g_call [OF t(1) l(2) _ q(2)] by simp_all
        then show ?thesis by blast
      qed
    next
      case False
      with "9.prems" obtain path where "parse_path z ts = Inr (path, r)" "e = E_Ref (name # path) p"
        by (auto simp: parse_call_or_ref.simps [of z name p ts] ebind_eq_Inr)
      then show ?thesis using parse_path_sound g_ref [OF t(1)] t(2) by blast
    qed
  qed
next
  case (10 z ts)
  from "10.prems" obtain a1 ts1 where a: "parse_comparison z ts = Inr (a1, ts1)"
    and b: "(if kind_at z ts1 = Tk_Comma then
         ebind (parse_args z (advance ts1)) (\<lambda>(args, ts2). Inr (a1 # args, ts2))
       else Inr ([a1], ts1)) = Inr (es, r)"
    by (auto simp: parse_args.simps [of z ts] ebind_eq_Inr)
  obtain pre where pre: "ts = pre @ ts1" "g_comparison pre a1" using "10.IH"(1) [OF a] by blast
  show ?case
  proof (cases "kind_at z ts1 = Tk_Comma")
    case True
    with b obtain args where c: "parse_args z (advance ts1) = Inr (args, r)" "es = a1 # args"
      by (auto simp: ebind_eq_Inr)
    obtain pre2 where "advance ts1 = pre2 @ r" "g_args pre2 args" using "10.IH"(2) [OF a refl True c(1)] by blast
    then show ?thesis using pre c(2) kind_at_Cons [OF True] g_args
      by (metis append.assoc append_Cons tok_kind.distinct)
  next
    case False
    with b pre show ?thesis by (auto intro: g_arg)
  qed
qed

text \<open>What the grammar derives the parser reads, before any token that could not go on with it.\<close>

definition ends_primary :: "tok_kind \<Rightarrow> bool" where
  "ends_primary k \<longleftrightarrow> k \<noteq> Tk_Dot \<and> k \<noteq> Tk_LParen"

definition ends_postfix :: "tok_kind \<Rightarrow> bool" where
  "ends_postfix k \<longleftrightarrow> ends_primary k \<and> k \<noteq> Tk_At"

definition ends_term :: "tok_kind \<Rightarrow> bool" where
  "ends_term k \<longleftrightarrow> ends_postfix k \<and> term_of k = None"

definition ends_sum :: "tok_kind \<Rightarrow> bool" where
  "ends_sum k \<longleftrightarrow> ends_term k \<and> sum_of k = None"

definition ends_comparison :: "tok_kind \<Rightarrow> bool" where
  "ends_comparison k \<longleftrightarrow> ends_sum k \<and> cmp_of k = None"

lemmas ends_defs = ends_comparison_def ends_sum_def ends_term_def ends_postfix_def ends_primary_def

lemma peek_Cons [simp]: "peek z (t # ts) = t" "advance (t # ts) = ts"
  by (simp_all add: peek_def advance_def)

lemma ends_simps [simp]:
  "ends_comparison Tk_RParen" "ends_comparison Tk_Comma" "ends_comparison Tk_Eof" "ends_primary Tk_At"
  by (simp_all add: ends_defs term_of_def sum_of_def cmp_of_def)

lemma ends_ops:
  "cmp_of k = Some op \<Longrightarrow> ends_sum k" "sum_of k = Some b \<Longrightarrow> ends_term k" "term_of k = Some b \<Longrightarrow> ends_postfix k"
  by (auto simp: ends_defs cmp_of_def sum_of_def term_of_def split: tok_kind.splits)

lemma starts_primary:
  "g_primary ts e \<Longrightarrow> \<exists>t us. ts = t # us \<and> tk_kind t \<noteq> Tk_Minus"
  by (cases rule: g_primary.cases) auto

lemma starts_postfix: "g_postfix ts e \<Longrightarrow> \<exists>t us. ts = t # us \<and> tk_kind t \<noteq> Tk_Minus"
  by (cases rule: g_postfix.cases) (auto dest: starts_primary)

lemma parse_path_complete: "g_path pre path \<Longrightarrow> kind_at z r \<noteq> Tk_Dot \<Longrightarrow> parse_path z (pre @ r) = Inr (path, r)"
  by (induction rule: g_path.induct) (subst parse_path.simps; simp)+

lemma parse_time_complete: "time_token u = Some time \<Longrightarrow> parse_time z (u # r) = Inr (time, r)"
  by (auto simp: time_token_def parse_time_def Let_def split: tok_kind.splits if_split_asm)

lemma first_token:
  "g_comparison ts e \<Longrightarrow> \<exists>t us. ts = t # us \<and> tk_kind t \<noteq> Tk_RParen"
  "g_sum ts e \<Longrightarrow> \<exists>t us. ts = t # us \<and> tk_kind t \<noteq> Tk_RParen"
  "g_term ts e \<Longrightarrow> \<exists>t us. ts = t # us \<and> tk_kind t \<noteq> Tk_RParen"
  "g_unary ts e \<Longrightarrow> \<exists>t us. ts = t # us \<and> tk_kind t \<noteq> Tk_RParen"
  "g_postfix ts e \<Longrightarrow> \<exists>t us. ts = t # us \<and> tk_kind t \<noteq> Tk_RParen"
  "g_primary ts e \<Longrightarrow> \<exists>t us. ts = t # us \<and> tk_kind t \<noteq> Tk_RParen"
  "g_args ts es \<Longrightarrow> \<exists>t us. ts = t # us \<and> tk_kind t \<noteq> Tk_RParen"
  by (induction rule: g_comparison_g_sum_g_term_g_unary_g_postfix_g_primary_g_args.inducts) auto

lemma parse_complete:
  "g_comparison pre e \<Longrightarrow> ends_comparison (kind_at z r) \<Longrightarrow> parse_comparison z (pre @ r) = Inr (e, r)"
  "g_sum pre e \<Longrightarrow> ends_term (kind_at z r) \<Longrightarrow> parse_sum z (pre @ r) = parse_sum_loop z e r"
  "g_term pre e \<Longrightarrow> ends_postfix (kind_at z r) \<Longrightarrow> parse_term z (pre @ r) = parse_term_loop z e r"
  "g_unary pre e \<Longrightarrow> ends_postfix (kind_at z r) \<Longrightarrow> parse_unary z (pre @ r) = Inr (e, r)"
  "g_postfix pre e \<Longrightarrow> ends_postfix (kind_at z r) \<Longrightarrow> parse_postfix z (pre @ r) = Inr (e, r)"
  "g_primary pre e \<Longrightarrow> ends_primary (kind_at z r) \<Longrightarrow> parse_primary z (pre @ r) = Inr (e, r)"
  "g_args pre es \<Longrightarrow> ends_comparison (kind_at z r) \<Longrightarrow> kind_at z r \<noteq> Tk_Comma \<Longrightarrow> parse_args z (pre @ r) = Inr (es, r)"
proof (induction arbitrary: r and r and r and r and r and r and r
    rule: g_comparison_g_sum_g_term_g_unary_g_postfix_g_primary_g_args.inducts)
  case (g_one_sum ts e)
  then have "parse_sum z (ts @ r) = Inr (e, r)" by (simp add: ends_defs parse_sum_loop.simps)
  with g_one_sum.prems show ?case by (simp add: parse_comparison.simps ends_comparison_def)
next
  case (g_compare ts l t op us r')
  then have "parse_sum z (us @ r) = Inr (r', r)" by (simp add: ends_defs parse_sum_loop.simps)
  moreover have "parse_sum z (ts @ t # us @ r) = Inr (l, t # us @ r)"
    using g_compare ends_ops(1) by (simp add: ends_sum_def parse_sum_loop.simps)
  ultimately show ?case using g_compare.hyps by (simp add: parse_comparison.simps)
next
  case (g_one_term ts e)
  then have "parse_term z (ts @ r) = Inr (e, r)" by (simp add: ends_defs parse_term_loop.simps)
  then show ?case by (simp add: parse_sum.simps)
next
  case (g_add ts l t op us r')
  then have "parse_term z (us @ r) = Inr (r', r)" by (simp add: ends_term_def parse_term_loop.simps)
  moreover have "parse_sum z (ts @ t # us @ r) = parse_sum_loop z l (t # us @ r)"
    using g_add ends_ops(2) by simp
  ultimately show ?case using g_add.hyps by (simp add: parse_sum_loop.simps [of z l])
next
  case (g_one_unary ts e)
  then show ?case by (simp add: parse_term.simps)
next
  case (g_mul ts l t op us r')
  then have "parse_unary z (us @ r) = Inr (r', r)" by simp
  moreover have "parse_term z (ts @ t # us @ r) = parse_term_loop z l (t # us @ r)"
    using g_mul ends_ops(3) by simp
  ultimately show ?case using g_mul.hyps by (simp add: parse_term_loop.simps [of z l])
next
  case (g_one_postfix ts e)
  obtain t us where t: "ts = t # us" "tk_kind t \<noteq> Tk_Minus" using starts_postfix [OF g_one_postfix.hyps] by blast
  have "parse_postfix z (ts @ r) = Inr (e, r)" using g_one_postfix by simp
  with t show ?case by (simp add: parse_unary.simps [of z "t # us @ r"])
next
  case (g_neg t ts e)
  then show ?case by (simp add: parse_unary.simps [of z "t # ts @ r"])
next
  case (g_one_primary ts e)
  then show ?case by (simp add: parse_postfix.simps ends_postfix_def)
next
  case (g_at ts e t u time)
  then have "parse_primary z (ts @ t # u # r) = Inr (e, t # u # r)" by simp
  with g_at.hyps parse_time_complete show ?case by (simp add: parse_postfix.simps)
next
  case (g_number t v ut u)
  then show ?case by (simp add: parse_primary.simps)
next
  case (g_paren t ts e t')
  then have "parse_comparison z (ts @ t' # r) = Inr (e, t' # r)" by simp
  with g_paren.hyps show ?case by (simp add: parse_primary.simps expect_rparen_def)
next
  case (g_call0 t name l r')
  then show ?case by (simp add: parse_primary.simps parse_call_or_ref.simps expect_rparen_def)
next
  case (g_call t name l ts es r')
  then have "parse_args z (ts @ r' # r) = Inr (es, r' # r)" by simp
  moreover obtain a as where "ts = a # as" "tk_kind a \<noteq> Tk_RParen" using first_token(7) [OF g_call.hyps(3)] by blast
  ultimately show ?case using g_call.hyps
    by (simp add: parse_primary.simps parse_call_or_ref.simps expect_rparen_def)
next
  case (g_ref t name ts path)
  then have "parse_path z (ts @ r) = Inr (path, r)" using parse_path_complete by (simp add: ends_primary_def)
  moreover have "kind_at z (ts @ r) \<noteq> Tk_LParen"
    using g_ref.hyps(2) g_ref.prems by (cases rule: g_path.cases) (auto simp: ends_primary_def)
  ultimately show ?case using g_ref.hyps by (simp add: parse_primary.simps parse_call_or_ref.simps)
next
  case (g_arg ts e)
  then show ?case by (simp add: parse_args.simps)
next
  case (g_args ts e t us es)
  then have "parse_comparison z (ts @ t # us @ r) = Inr (e, t # us @ r)" "parse_args z (us @ r) = Inr (es, r)" by simp_all
  with g_args.hyps show ?case by (simp add: parse_args.simps [of z "ts @ t # us @ r"])
qed

section \<open>The parser is the grammar\<close>

lemma well_lexed_body:
  "well_lexed i z ts \<Longrightarrow> tk_pos (List.last ts) = z \<and> (\<forall>t\<in>set (butlast ts). unit_known (tk_kind t))"
  by (simp add: well_lexed_def list_all_iff)

lemma kind_at_known: "\<forall>t\<in>set ts. unit_known (tk_kind t) \<Longrightarrow> kind_at z ts = Tk_Eof \<longleftrightarrow> ts = []"
  by (cases ts) (auto simp: peek_def unit_known_def)

lemma parse_tokens_exact:
  assumes "well_lexed i z ts"
  shows "parse_tokens ts = Inr e \<longleftrightarrow> g_comparison (butlast ts) e"
proof -
  note body = well_lexed_body [OF assms]
  have "parse_tokens ts = Inr e \<longleftrightarrow> parse_comparison z (butlast ts) = Inr (e, [])"
  proof -
    have "kind_at z r \<noteq> Tk_Eof" if a: "parse_comparison z (butlast ts) = Inr (e', r)" "r \<noteq> []" for e' r
    proof -
      obtain pre where "butlast ts = pre @ r" using parse_sound(1) [OF a(1)] by blast
      with body have "\<forall>t\<in>set r. unit_known (tk_kind t)" by simp
      with a(2) show ?thesis by (simp add: kind_at_known)
    qed
    moreover have "kind_at z [] = Tk_Eof" by (simp add: peek_def)
    ultimately show ?thesis using body
      by (auto simp: parse_tokens_def Let_def ebind_eq_Inr split: if_split_asm)
  qed
  also have "\<dots> \<longleftrightarrow> g_comparison (butlast ts) e"
    using parse_sound(1) [of z "butlast ts" e "[]"] parse_complete(1) [of "butlast ts" e z "[]"]
    by (auto simp: peek_def)
  finally show ?thesis .
qed

text \<open>On the lexer's tokens no \<open>expect\<close> of the parser fails.\<close>

abbreviation known :: "token list \<Rightarrow> bool" where
  "known ts \<equiv> \<forall>t\<in>set ts. unit_known (tk_kind t)"

lemma known_advance: "known ts \<Longrightarrow> known (advance ts)"
  by (cases ts) (simp_all add: advance_def)

lemma number_unit_known: "known ts \<Longrightarrow> kind_at z ts = Tk_Number v ut \<Longrightarrow> number_unit ut \<noteq> Inl Ee_Panic"
  by (cases ts) (auto simp: peek_def unit_known_def number_unit_def split: option.splits)

lemma known_rest:
  "parse_comparison z ts = Inr (e, r) \<Longrightarrow> known ts \<Longrightarrow> known r"
  "parse_sum z ts = Inr (e, r) \<Longrightarrow> known ts \<Longrightarrow> known r"
  "parse_term z ts = Inr (e, r) \<Longrightarrow> known ts \<Longrightarrow> known r"
  "parse_unary z ts = Inr (e, r) \<Longrightarrow> known ts \<Longrightarrow> known r"
  "parse_primary z ts = Inr (e, r) \<Longrightarrow> known ts \<Longrightarrow> known r"
  by (auto dest!: parse_sound)

lemma ebind_panic: "ebind r k = Inl Ee_Panic \<longleftrightarrow> r = Inl Ee_Panic \<or> (\<exists>x. r = Inr x \<and> k x = Inl Ee_Panic)"
  by (rule ebind_eq_Inl)

lemma steps_no_panic [simp]:
  "expect_rparen z ts \<noteq> Inl Ee_Panic" "unexpected z ts s \<noteq> Ee_Panic"
  by (auto simp: expect_rparen_def unexpected_def)

lemma parse_time_no_panic: "known ts \<Longrightarrow> parse_time z ts \<noteq> Inl Ee_Panic"
  using number_unit_known [of ts z] by (auto simp: parse_time_def Let_def ebind_panic split: tok_kind.splits if_split_asm)

lemma parse_path_no_panic: "parse_path z ts \<noteq> Inl Ee_Panic"
proof (induction z ts rule: parse_path.induct)
  case (1 z ts)
  then show ?case
    by (subst parse_path.simps) (auto simp: ebind_panic split: tok_kind.splits)
qed

lemma parse_no_panic:
  "known ts \<Longrightarrow> parse_comparison z ts \<noteq> Inl Ee_Panic"
  "known ts \<Longrightarrow> parse_sum z ts \<noteq> Inl Ee_Panic"
  "known ts \<Longrightarrow> parse_sum_loop z lhs ts \<noteq> Inl Ee_Panic"
  "known ts \<Longrightarrow> parse_term z ts \<noteq> Inl Ee_Panic"
  "known ts \<Longrightarrow> parse_term_loop z lhs ts \<noteq> Inl Ee_Panic"
  "known ts \<Longrightarrow> parse_unary z ts \<noteq> Inl Ee_Panic"
  "known ts \<Longrightarrow> parse_postfix z ts \<noteq> Inl Ee_Panic"
  "known ts \<Longrightarrow> parse_primary z ts \<noteq> Inl Ee_Panic"
  "known ts \<Longrightarrow> parse_call_or_ref z name p ts \<noteq> Inl Ee_Panic"
  "known ts \<Longrightarrow> parse_args z ts \<noteq> Inl Ee_Panic"
proof (induction z ts and z ts and z lhs ts and z ts and z lhs ts and z ts and z ts and z ts and z name p ts and z ts
    rule: parse_comparison_parse_sum_parse_sum_loop_parse_term_parse_term_loop_parse_unary_parse_postfix_parse_primary_parse_call_or_ref_parse_args.induct)
  case (1 z ts)
  then show ?case using known_rest(2) [of z ts] known_advance
    by (auto simp: parse_comparison.simps [of z ts] ebind_panic split: option.splits; blast)
next
  case (2 z ts)
  then show ?case using known_rest(3) [of z ts] by (auto simp: parse_sum.simps [of z ts] ebind_panic; blast)
next
  case (3 z lhs ts)
  then show ?case using known_rest(3) [of z "advance ts"] known_advance [of ts]
    by (auto simp: parse_sum_loop.simps [of z lhs ts] ebind_panic split: option.splits; blast)
next
  case (4 z ts)
  then show ?case using known_rest(4) [of z ts] by (auto simp: parse_term.simps [of z ts] ebind_panic; blast)
next
  case (5 z lhs ts)
  then show ?case using known_rest(4) [of z "advance ts"] known_advance [of ts]
    by (auto simp: parse_term_loop.simps [of z lhs ts] ebind_panic split: option.splits; blast)
next
  case (6 z ts)
  then show ?case using known_advance [of ts] by (auto simp: parse_unary.simps [of z ts] ebind_panic; blast)
next
  case (7 z ts)
  then show ?case using known_rest(5) [of z ts] known_advance parse_time_no_panic
    by (auto simp: parse_postfix.simps [of z ts] ebind_panic split: if_split_asm; blast)
next
  case (8 z ts)
  then show ?case using number_unit_known [of ts z] known_advance [of ts]
    by (auto simp: parse_primary.simps [of z ts] ebind_panic split: tok_kind.splits; blast)
next
  case (9 z name p ts)
  then show ?case using known_advance [of ts] parse_path_no_panic
    by (auto simp: parse_call_or_ref.simps [of z name p ts] ebind_panic split: if_split_asm; blast)
next
  case (10 z ts)
  then show ?case using known_rest(1) [of z ts] known_advance
    by (auto simp: parse_args.simps [of z ts] ebind_panic split: if_split_asm; blast)
qed

lemma lex_no_panic: "lex_from i cs \<noteq> Inl Ee_Panic"
  by (induction i cs rule: lex_from.induct) (auto simp: lex_from_Cons split: sum.splits)

text \<open>Reading an objective never panics, whatever its text.\<close>

theorem parse_never_panics: "parse src \<noteq> Inl Ee_Panic"
proof -
  have "parse_tokens ts \<noteq> Inl Ee_Panic" if "lex src = Inr ts" for ts
    using parse_no_panic(1) well_lexed_body [OF lex_from_well_lexed [of 0 src ts]] that
    by (auto simp: parse_tokens_def Let_def ebind_panic lex_def split: if_split_asm)
  then show ?thesis using lex_no_panic [of 0 src] by (auto simp: parse_def ebind_panic lex_def)
qed

text \<open>
  C16: The parser accepts exactly the texts whose tokens the grammar derives, and builds the tree of the
  derivation: no token is left over, products bind tighter than sums, sums and products associate
  to the left, comparisons do not chain.
\<close>

theorem parse_is_the_grammar:
  "parse src = Inr e \<longleftrightarrow> (\<exists>ts. lex src = Inr ts \<and> g_comparison (butlast ts) e)"
  using parse_tokens_exact [OF lex_from_well_lexed [of 0 src]]
  by (auto simp: parse_def ebind_eq_Inr lex_def)

end
