(* ===== verification/Kernel_Space.thy ===== *)
theory Kernel_Space
  imports Kernel_Run Expr_Syntax
begin

text \<open>
  State spaces and the interpolation of their samples: \<open>av-kernel/src/trajectory.rs\<close> and
  \<open>interpolate.rs\<close>. The sine and arc cosine are those of the \<open>libm\<close> crate, a parameter. A failed
  assertion is \<open>Ie_Panic\<close>.
\<close>

section \<open>Square root\<close>

text \<open>
  \<open>f64::sqrt\<close> is correctly rounded. A positive number of the format times \<open>4 ^ k\<close> is an integer with a
  root of more than 60 bits for the \<open>k\<close> below; half a unit above the integer root of a number that is
  no square lies on the same side of every rounding boundary as the root itself.
\<close>

fun isqrt :: "nat \<Rightarrow> nat" where
  "isqrt n = (if n = 0 then 0 else let r = 2 * isqrt (n div 4) in if (r + 1)\<^sup>2 \<le> n then r + 1 else r)"

declare isqrt.simps [simp del]

definition f_sqrt :: "f64 \<Rightarrow> f64" where
  "f_sqrt v =
     (case v of
        FNan \<Rightarrow> FNan
      | FInf s \<Rightarrow> if s then FNan else FInf False
      | FZero s \<Rightarrow> FZero s
      | FNum x \<Rightarrow>
          if x < 0 then FNan
          else let k = (if 1 \<le> x then 64 else 600);
                   n = nat \<lfloor>x * 4 ^ k\<rfloor>;
                   r = isqrt n;
                   y = (if r\<^sup>2 = n then of_nat r else of_nat r + 1 / 2 :: rat)
               in f_round binary64 False (y / 2 ^ k))"

lemma isqrt_bounds: "(isqrt n)\<^sup>2 \<le> n \<and> n < (isqrt n + 1)\<^sup>2"
proof (induction n rule: isqrt.induct)
  case (1 n)
  show ?case
  proof (cases "n = 0")
    case False
    define q where "q = isqrt (n div 4)"
    have q: "q\<^sup>2 \<le> n div 4" "n div 4 < (q + 1)\<^sup>2" using 1 False by (simp_all add: q_def)
    then have "(2 * q)\<^sup>2 \<le> n" "n < (2 * q + 2)\<^sup>2" by (simp_all add: power2_eq_square algebra_simps)
    with False show ?thesis
      by (subst isqrt.simps, subst (2) isqrt.simps) (simp add: q_def [symmetric] Let_def add.commute)
  qed (simp add: isqrt.simps)
qed

lemma isqrt_square: "isqrt (r\<^sup>2) = r"
proof -
  have a: "(isqrt (r\<^sup>2))\<^sup>2 \<le> r\<^sup>2" "r\<^sup>2 < (isqrt (r\<^sup>2) + 1)\<^sup>2" using isqrt_bounds [of "r\<^sup>2"] by simp_all
  have "isqrt (r\<^sup>2) \<le> r" using a(1) by (rule power2_le_imp_le) simp
  moreover have "r < isqrt (r\<^sup>2) + 1" using a(2) by (rule power2_less_imp_less) simp
  ultimately show ?thesis by simp
qed

text \<open>The root of a square integer is exact.\<close>

lemma f_sqrt_square:
  assumes "0 < n" "n \<le> 2 ^ 53"
  shows "f_sqrt (FNum (of_nat (n\<^sup>2))) = FNum (of_nat n)"
proof -
  have x: "1 \<le> (of_nat (n\<^sup>2) :: rat)" using assms(1) by (metis One_nat_def Suc_leI of_nat_1 of_nat_le_iff zero_less_power)
  have "(of_nat (n\<^sup>2) :: rat) * 4 ^ 64 = of_nat ((n * 2 ^ 64)\<^sup>2)"
    by (simp add: power_mult_distrib power2_eq_square)
  then have n: "nat \<lfloor>(of_nat (n\<^sup>2) :: rat) * 4 ^ 64\<rfloor> = (n * 2 ^ 64)\<^sup>2" by (metis floor_of_nat nat_int)
  have "f_sqrt (FNum y) = f_round binary64 False
      ((if (isqrt (nat \<lfloor>y * 4 ^ 64\<rfloor>))\<^sup>2 = nat \<lfloor>y * 4 ^ 64\<rfloor> then of_nat (isqrt (nat \<lfloor>y * 4 ^ 64\<rfloor>))
        else of_nat (isqrt (nat \<lfloor>y * 4 ^ 64\<rfloor>)) + 1 / 2) / 2 ^ 64)" if "1 \<le> y" for y
    using that by (simp add: f_sqrt_def Let_def)
  from this [OF x] have "f_sqrt (FNum (of_nat (n\<^sup>2))) = f_round binary64 False (of_nat (n * 2 ^ 64) / 2 ^ 64)"
    unfolding n by (simp only: isqrt_square if_True simp_thms)
  also have "\<dots> = f_of_int (int n)" by (simp add: f_of_int_def)
  also have "\<dots> = FNum (of_nat n)" using assms by (subst f_of_int_exact) simp_all
  finally show ?thesis .
qed

section \<open>State spaces\<close>

record state_component =
  sc_label :: string
  sc_unit :: int

record state_space =
  sp_id :: string
  sp_components :: "state_component list"
  sp_frame_id :: string

definition unit_number :: "pb_unit \<Rightarrow> int" where
  "unit_number u = int (length (takeWhile (\<lambda>v. v \<noteq> u) all_units))"

definition comp :: "string \<Rightarrow> pb_unit \<Rightarrow> state_component" where
  "comp l u = \<lparr>sc_label = l, sc_unit = unit_number u\<rparr>"

definition component_unit :: "state_component \<Rightarrow> pb_unit" where
  "component_unit c = (case unit_try_from (sc_unit c) of Some u \<Rightarrow> u | None \<Rightarrow> U_Unspecified)"

definition cartesian_pos_vel_6 :: "string \<Rightarrow> state_space" where
  "cartesian_pos_vel_6 i =
     \<lparr>sp_id = i,
      sp_components = [comp ''pos_x'' U_Meter, comp ''pos_y'' U_Meter, comp ''pos_z'' U_Meter,
        comp ''vel_x'' U_MeterPerSecond, comp ''vel_y'' U_MeterPerSecond, comp ''vel_z'' U_MeterPerSecond],
      sp_frame_id = []\<rparr>"

definition quat_components :: "state_component list" where
  "quat_components =
     [comp ''q_x'' U_Dimensionless, comp ''q_y'' U_Dimensionless, comp ''q_z'' U_Dimensionless, comp ''q_w'' U_Dimensionless]"

definition cartesian_pos_vel_6_attitude_quat_4 :: "string \<Rightarrow> state_space" where
  "cartesian_pos_vel_6_attitude_quat_4 i =
     (let s = cartesian_pos_vel_6 i in s\<lparr>sp_components := sp_components s @ quat_components\<rparr>)"

definition attitude_wheels_state_space :: "string \<Rightarrow> nat \<Rightarrow> state_space" where
  "attitude_wheels_state_space i n =
     \<lparr>sp_id = i,
      sp_components = quat_components @
        [comp ''body_rate_x'' U_RadianPerSecond, comp ''body_rate_y'' U_RadianPerSecond, comp ''body_rate_z'' U_RadianPerSecond] @
        map (\<lambda>k. comp (''wheel_h_'' @ show_nat (k + 1)) U_NewtonMeterSecond) [0..<n],
      sp_frame_id = []\<rparr>"

definition native_controller_scalar6 :: "string \<Rightarrow> state_space" where
  "native_controller_scalar6 i =
     \<lparr>sp_id = i, sp_components = map (\<lambda>k. comp (''state_'' @ show_nat k) U_Dimensionless) [1..<7], sp_frame_id = []\<rparr>"

definition native_controller_empty :: "string \<Rightarrow> state_space" where
  "native_controller_empty i = \<lparr>sp_id = i, sp_components = [], sp_frame_id = []\<rparr>"

definition state_space_for :: "string \<Rightarrow> string + state_space" where
  "state_space_for i =
     (if i = ''altavista.cartesian_pos_vel_6'' \<or> i = ''gmat.orbital.cartesian6'' then Inr (cartesian_pos_vel_6 i)
      else if i = ''altavista.cartesian_pos_vel_6_attitude_quat_4'' then Inr (cartesian_pos_vel_6_attitude_quat_4 i)
      else if i = ''native.controller.scalar6'' then Inr (native_controller_scalar6 i)
      else if i = ''native.controller.empty'' then Inr (native_controller_empty i)
      else Inl i)"

section \<open>Classes of components\<close>

datatype component_class = Cc_PositionVelocity | Cc_Quaternion | Cc_LinearScalar | Cc_ZeroOrderHold

datatype interpolation_error =
    Ie_LengthMismatch string nat nat nat
  | Ie_UnclassifiableComponent string nat string int
  | Ie_NeverInterpolated string nat string
  | Ie_QuaternionNotUnitNorm string nat f64 f64
  | Ie_Panic

definition ascii_lower :: "char \<Rightarrow> char" where
  "ascii_lower c = (if of_char c \<ge> (65 :: nat) \<and> of_char c \<le> (90 :: nat) then char_of (of_char c + (32 :: nat)) else c)"

definition has_prefix :: "string \<Rightarrow> string \<Rightarrow> bool" where
  "has_prefix p s \<longleftrightarrow> take (length p) s = p"

fun contains_str :: "string \<Rightarrow> string \<Rightarrow> bool" where
  "contains_str p [] = (p = [])"
| "contains_str p (c # cs) = (has_prefix p (c # cs) \<or> contains_str p cs)"

definition is_linear_scalar_unit :: "pb_unit \<Rightarrow> bool" where
  "is_linear_scalar_unit u \<longleftrightarrow> u \<noteq> U_Unspecified"

definition is_discrete_label :: "string \<Rightarrow> bool" where
  "is_discrete_label l = (let m = map ascii_lower l in contains_str ''mode'' m \<or> contains_str ''count'' m)"

definition is_never_interpolated_label :: "string \<Rightarrow> bool" where
  "is_never_interpolated_label l =
     (let m = map ascii_lower l in has_prefix ''phi_'' m \<or> has_prefix ''stm_'' m \<or> has_prefix ''cov_'' m)"

definition has_shape :: "(string \<times> pb_unit) list \<Rightarrow> state_component list \<Rightarrow> bool" where
  "has_shape ls cs \<longleftrightarrow> map (\<lambda>c. (sc_label c, component_unit c)) cs = ls"

definition is_position_velocity_prefix :: "state_component list \<Rightarrow> bool" where
  "is_position_velocity_prefix cs =
     has_shape [(''pos_x'', U_Meter), (''pos_y'', U_Meter), (''pos_z'', U_Meter), (''vel_x'', U_MeterPerSecond),
       (''vel_y'', U_MeterPerSecond), (''vel_z'', U_MeterPerSecond)] cs"

definition is_quaternion_group :: "state_component list \<Rightarrow> bool" where
  "is_quaternion_group cs =
     has_shape [(''q_x'', U_Dimensionless), (''q_y'', U_Dimensionless), (''q_z'', U_Dimensionless), (''q_w'', U_Dimensionless)] cs"

type_synonym component_group = "nat \<times> nat \<times> component_class"

definition classify_one :: "string \<Rightarrow> nat \<Rightarrow> state_component \<Rightarrow> interpolation_error + component_class" where
  "classify_one i k c =
     (if is_never_interpolated_label (sc_label c) then Inl (Ie_NeverInterpolated i k (sc_label c))
      else let u = component_unit c in
        if u = U_Dimensionless \<and> is_discrete_label (sc_label c) then Inr Cc_ZeroOrderHold
        else if is_linear_scalar_unit u then Inr Cc_LinearScalar
        else Inl (Ie_UnclassifiableComponent i k (sc_label c) (sc_unit c)))"

text \<open>The groups from index \<open>k\<close> on.\<close>

function classify_from :: "string \<Rightarrow> state_component list \<Rightarrow> nat \<Rightarrow> interpolation_error + component_group list" where
  "classify_from i cs k =
     (if k < length cs then
        if k + 4 \<le> length cs \<and> is_quaternion_group (take 4 (drop k cs)) then
          ebind (classify_from i cs (k + 4)) (\<lambda>gs. Inr ((k, 4, Cc_Quaternion) # gs))
        else ebind (classify_one i k (cs ! k)) (\<lambda>cl.
          ebind (classify_from i cs (k + 1)) (\<lambda>gs. Inr ((k, 1, cl) # gs)))
      else Inr [])"
  by pat_completeness auto
termination by (relation "measure (\<lambda>(i, cs, k). length cs - k)") auto

declare classify_from.simps [simp del]

definition classify :: "state_space \<Rightarrow> interpolation_error + component_group list" where
  "classify sp =
     (let cs = sp_components sp in
      if 6 \<le> length cs \<and> is_position_velocity_prefix (take 6 cs)
      then ebind (classify_from (sp_id sp) cs 6) (\<lambda>gs. Inr ((0, 6, Cc_PositionVelocity) # gs))
      else classify_from (sp_id sp) cs 0)"

datatype state_space_error =
    Se_Unknown string
  | Se_IdMismatch string string
  | Se_Unclassifiable interpolation_error

record system_definition =
  sd_state_space_id :: string
  sd_state_space :: "state_space option"

definition resolve_state_space :: "system_definition \<Rightarrow> state_space_error + state_space" where
  "resolve_state_space sys =
     (case sd_state_space sys of
        Some declared \<Rightarrow>
          if sp_id declared \<noteq> sd_state_space_id sys then Inl (Se_IdMismatch (sd_state_space_id sys) (sp_id declared))
          else ebind (map_err Se_Unclassifiable (classify declared)) (\<lambda>_. Inr declared)
      | None \<Rightarrow> map_err Se_Unknown (state_space_for (sd_state_space_id sys)))"

section \<open>Interpolation\<close>

record trig =
  tg_sin :: "f64 \<Rightarrow> f64"
  tg_acos :: "f64 \<Rightarrow> f64"

definition fraction_of :: "i64 \<Rightarrow> i64 \<Rightarrow> i64 \<Rightarrow> f64" where
  "fraction_of t0 t1 t = f_div (f_of_int (wrap_i64 (t - t0))) (f_of_int (wrap_i64 (t1 - t0)))"

definition linear :: "i64 \<Rightarrow> f64 \<Rightarrow> i64 \<Rightarrow> f64 \<Rightarrow> i64 \<Rightarrow> f64" where
  "linear t0 v0 t1 v1 t = f_add v0 (f_mul (f_sub v1 v0) (fraction_of t0 t1 t))"

definition zero_order_hold :: "i64 \<Rightarrow> f64 \<Rightarrow> i64 \<Rightarrow> f64 \<Rightarrow> i64 \<Rightarrow> f64" where
  "zero_order_hold t0 v0 t1 v1 t = (if f_lt (fraction_of t0 t1 t) (f_lit (1 / 2)) then v0 else v1)"

definition norm4 :: "f64 list \<Rightarrow> f64" where
  "norm4 q = f_sqrt (f_add (f_add (f_add (f_mul (q ! 0) (q ! 0)) (f_mul (q ! 1) (q ! 1))) (f_mul (q ! 2) (q ! 2))) (f_mul (q ! 3) (q ! 3)))"

definition normalize4 :: "f64 list \<Rightarrow> f64 list" where
  "normalize4 q = (let n = norm4 q in if f_lt (FZero False) n then map (\<lambda>v. f_div v n) q else q)"

definition f_abs :: "f64 \<Rightarrow> f64" where
  "f_abs v = (case v of FNan \<Rightarrow> FNan | FInf s \<Rightarrow> FInf False | FZero s \<Rightarrow> FZero False | FNum x \<Rightarrow> FNum \<bar>x\<bar>)"

definition f_clamp :: "f64 \<Rightarrow> f64 \<Rightarrow> f64 \<Rightarrow> f64" where
  "f_clamp lo hi v = (let w = (if f_lt v lo then lo else v) in if f_lt hi w then hi else w)"

text \<open>The sum of an iterator starts from the negative zero.\<close>

definition f_sum :: "f64 list \<Rightarrow> f64" where
  "f_sum vs = foldl f_add (FZero True) vs"

definition slerp_xyzw :: "trig \<Rightarrow> f64 list \<Rightarrow> f64 list \<Rightarrow> f64 \<Rightarrow> f64 list" where
  "slerp_xyzw tg q0 q1_in s =
     (let d = f_sum (map2 f_mul q0 q1_in);
          flip = f_lt d (FZero False);
          q1 = (if flip then map f_neg q1_in else q1_in);
          d' = f_clamp (f_lit (-1)) (f_lit 1) (if flip then f_neg d else d) in
      if f_lt (f_sub (f_lit 1) (f_lit (1 / 10 ^ 9))) d'
      then normalize4 (map2 (\<lambda>a b. f_add a (f_mul (f_sub b a) s)) q0 q1)
      else
        let theta0 = tg_acos tg d';
            sin_theta0 = tg_sin tg theta0;
            theta = f_mul theta0 s;
            a = f_div (tg_sin tg (f_sub theta0 theta)) sin_theta0;
            b = f_div (tg_sin tg theta) sin_theta0
        in map2 (\<lambda>x y. f_add (f_mul a x) (f_mul b y)) q0 q1)"

definition quaternion_unit_norm_tol :: f64 where
  "quaternion_unit_norm_tol = f_lit (1 / 10 ^ 6)"

definition off_unit :: "f64 \<Rightarrow> bool" where
  "off_unit n \<longleftrightarrow> f_lt quaternion_unit_norm_tol (f_abs (f_sub n (f_lit 1)))"

text \<open>The new values of one group of components.\<close>

definition interpolate_group ::
  "trig \<Rightarrow> string \<Rightarrow> i64 \<Rightarrow> f64 list \<Rightarrow> i64 \<Rightarrow> f64 list \<Rightarrow> i64 \<Rightarrow> component_group \<Rightarrow> interpolation_error + f64 list" where
  "interpolate_group tg i t0 s0 t1 s1 t g =
     (let (start, len, cl) = g in
      case cl of
        Cc_PositionVelocity \<Rightarrow>
          ok_or Ie_Panic (map_option (take 6)
            (hermite_velocity t0 (take 6 (drop start s0)) t1 (take 6 (drop start s1)) t))
      | Cc_Quaternion \<Rightarrow>
          (let q0 = take 4 (drop start s0); q1 = take 4 (drop start s1); n0 = norm4 q0; n1 = norm4 q1 in
           if off_unit n0 \<or> off_unit n1 then Inl (Ie_QuaternionNotUnitNorm i start n0 n1)
           else Inr (slerp_xyzw tg q0 q1 (f_clamp (FZero False) (f_lit 1) (fraction_of t0 t1 t))))
      | Cc_LinearScalar \<Rightarrow> Inr [linear t0 (s0 ! start) t1 (s1 ! start) t]
      | Cc_ZeroOrderHold \<Rightarrow> Inr [zero_order_hold t0 (s0 ! start) t1 (s1 ! start) t])"

definition write_at :: "nat \<Rightarrow> 'a list \<Rightarrow> 'a list \<Rightarrow> 'a list" where
  "write_at k vs xs = take k xs @ vs @ drop (k + length vs) xs"

primrec interpolate_groups ::
  "(component_group \<Rightarrow> interpolation_error + f64 list) \<Rightarrow> component_group list \<Rightarrow> f64 list \<Rightarrow> interpolation_error + f64 list" where
  "interpolate_groups f [] out = Inr out"
| "interpolate_groups f (g # gs) out = ebind (f g) (\<lambda>vs. interpolate_groups f gs (write_at (fst g) vs out))"

definition interpolate_by_state_space ::
  "trig \<Rightarrow> state_space \<Rightarrow> i64 \<Rightarrow> f64 list \<Rightarrow> i64 \<Rightarrow> f64 list \<Rightarrow> i64 \<Rightarrow> interpolation_error + f64 list" where
  "interpolate_by_state_space tg sp t0 s0 t1 s1 t =
     (let n = length (sp_components sp) in
      if \<not> t1 > t0 then Inl Ie_Panic
      else if length s0 \<noteq> n \<or> length s1 \<noteq> n then Inl (Ie_LengthMismatch (sp_id sp) n (length s0) (length s1))
      else ebind (classify sp) (\<lambda>gs.
        interpolate_groups (interpolate_group tg (sp_id sp) t0 s0 t1 s1 t) gs (replicate n (FZero False))))"

section \<open>The classes cover a state space\<close>

text \<open>A group is of the components its class names.\<close>

definition group_fits :: "state_component list \<Rightarrow> component_group \<Rightarrow> bool" where
  "group_fits cs g \<longleftrightarrow>
     (case g of (k, n, cl) \<Rightarrow>
        k + n \<le> length cs \<and>
        (case cl of
           Cc_PositionVelocity \<Rightarrow> k = 0 \<and> n = 6 \<and> is_position_velocity_prefix (take 6 cs)
         | Cc_Quaternion \<Rightarrow> n = 4 \<and> is_quaternion_group (take 4 (drop k cs))
         | Cc_LinearScalar \<Rightarrow> n = 1 \<and> component_unit (cs ! k) \<noteq> U_Unspecified \<and> \<not> is_never_interpolated_label (sc_label (cs ! k))
         | Cc_ZeroOrderHold \<Rightarrow> n = 1 \<and> component_unit (cs ! k) = U_Dimensionless \<and> is_discrete_label (sc_label (cs ! k)) \<and>
             \<not> is_never_interpolated_label (sc_label (cs ! k))))"

definition group_indices :: "component_group \<Rightarrow> nat list" where
  "group_indices g = [fst g..<fst g + fst (snd g)]"

lemma group_simps:
  "group_indices (k, n, cl) = [k..<k + n]"
  "group_fits cs (k, n, Cc_Quaternion) \<longleftrightarrow> k + n \<le> length cs \<and> n = 4 \<and> is_quaternion_group (take 4 (drop k cs))"
  "group_fits cs (k, n, Cc_PositionVelocity) \<longleftrightarrow> k + n \<le> length cs \<and> k = 0 \<and> n = 6 \<and> is_position_velocity_prefix (take 6 cs)"
  by (simp_all add: group_indices_def group_fits_def)

lemma classify_one_ok:
  "classify_one i k (cs ! k) = Inr cl \<Longrightarrow> k < length cs \<Longrightarrow> group_fits cs (k, 1, cl)"
  by (auto simp: classify_one_def group_fits_def Let_def is_linear_scalar_unit_def split: if_split_asm)

lemma upt_split: "i \<le> j \<Longrightarrow> j \<le> k \<Longrightarrow> [i..<j] @ [j..<k] = [i..<k]"
  by (metis le_add_diff_inverse upt_add_eq_append)

lemma classify_from_ok:
  "classify_from i cs k = Inr gs \<Longrightarrow> k \<le> length cs \<Longrightarrow>
   concat (map group_indices gs) = [k..<length cs] \<and> list_all (group_fits cs) gs"
proof (induction i cs k arbitrary: gs rule: classify_from.induct)
  case (1 i cs k)
  show ?case
  proof (cases "k < length cs")
    case lt: True
    show ?thesis
    proof (cases "k + 4 \<le> length cs \<and> is_quaternion_group (take 4 (drop k cs))")
      case True
      with "1.prems"(1) lt obtain gs' where g: "classify_from i cs (k + 4) = Inr gs'" "gs = (k, 4, Cc_Quaternion) # gs'"
        by (auto simp: classify_from.simps [of i cs k] ebind_eq_Inr)
      have "concat (map group_indices gs') = [k + 4..<length cs] \<and> list_all (group_fits cs) gs'"
        using "1.IH"(1) [OF lt True g(1)] True by simp
      then show ?thesis using True upt_split [of k "k + 4" "length cs"] by (simp add: g(2) group_simps)
    next
      case False
      with "1.prems"(1) lt obtain cl gs' where g: "classify_one i k (cs ! k) = Inr cl" "classify_from i cs (k + 1) = Inr gs'"
          "gs = (k, 1, cl) # gs'"
        by (auto simp: classify_from.simps [of i cs k] ebind_eq_Inr)
      have "concat (map group_indices gs') = [k + 1..<length cs] \<and> list_all (group_fits cs) gs'"
        using "1.IH"(2) [OF lt False g(2)] lt by simp
      then show ?thesis using lt upt_conv_Cons [of k "length cs"] classify_one_ok [OF g(1) lt] by (simp add: g(3) group_simps)
    qed
  next
    case False
    with "1.prems" show ?thesis by (simp add: classify_from.simps [of i cs k])
  qed
qed

text \<open>
  Classification puts every component of a state space into exactly one group, in order, and each
  group satisfies the rule of its class; a covariance or transition-matrix component is in none.
\<close>

theorem classify_covers:
  assumes "classify sp = Inr gs"
  shows "concat (map group_indices gs) = [0..<length (sp_components sp)] \<and> list_all (group_fits (sp_components sp)) gs"
proof (cases "6 \<le> length (sp_components sp) \<and> is_position_velocity_prefix (take 6 (sp_components sp))")
  case True
  with assms obtain gs' where g: "classify_from (sp_id sp) (sp_components sp) 6 = Inr gs'" "gs = (0, 6, Cc_PositionVelocity) # gs'"
    by (auto simp: classify_def Let_def ebind_eq_Inr)
  with classify_from_ok [OF g(1)] True upt_split [of 0 6 "length (sp_components sp)"] show ?thesis
    by (simp add: g(2) group_simps)
next
  case False
  then have "classify_from (sp_id sp) (sp_components sp) 0 = Inr gs" using assms by (auto simp: classify_def Let_def)
  from classify_from_ok [OF this] show ?thesis by simp
qed

text \<open>A group's new values are as many as its components, and no group panics between two epochs in order.\<close>

lemma length_write_at: "k + length vs \<le> length xs \<Longrightarrow> length (write_at k vs xs) = length xs"
  by (simp add: write_at_def)

lemma slerp_length: "length q0 = 4 \<Longrightarrow> length q1 = 4 \<Longrightarrow> length (slerp_xyzw tg q0 q1 s) = 4"
  by (simp add: slerp_xyzw_def Let_def normalize4_def)

lemma interpolate_group_ok:
  assumes "group_fits cs g" "length s0 = length cs" "length s1 = length cs" "t0 < t1"
  shows "interpolate_group tg i t0 s0 t1 s1 t g \<noteq> Inl Ie_Panic"
    "interpolate_group tg i t0 s0 t1 s1 t g = Inr vs \<Longrightarrow> fst g + length vs \<le> length cs"
proof -
  obtain k n cl where g: "g = (k, n, cl)" by (cases g) auto
  have h: "hermite_velocity t0 (take 6 s0) t1 (take 6 s1) t \<noteq> None" if "6 \<le> length cs"
    using that assms by (simp add: hermite_velocity_def Let_def)
  show "interpolate_group tg i t0 s0 t1 s1 t g \<noteq> Inl Ie_Panic"
    using assms h by (cases cl) (auto simp: g group_fits_def interpolate_group_def Let_def ok_or_def split: if_split_asm option.splits)
  show "interpolate_group tg i t0 s0 t1 s1 t g = Inr vs \<Longrightarrow> fst g + length vs \<le> length cs"
    using assms slerp_length
    by (cases cl) (auto simp: g group_fits_def interpolate_group_def Let_def split: if_split_asm)
qed

lemma interpolate_groups_ok:
  assumes "\<And>g. g \<in> set gs \<Longrightarrow> f g \<noteq> Inl Ie_Panic \<and> (\<forall>vs. f g = Inr vs \<longrightarrow> fst g + length vs \<le> n)" "length out = n"
  shows "interpolate_groups f gs out \<noteq> Inl Ie_Panic \<and> (\<forall>o'. interpolate_groups f gs out = Inr o' \<longrightarrow> length o' = n)"
  using assms
proof (induction gs arbitrary: out)
  case (Cons g gs)
  show ?case
  proof (cases "f g")
    case (Inl e)
    with Cons.prems(1) [of g] show ?thesis by auto
  next
    case (Inr vs)
    with Cons.prems have "length (write_at (fst g) vs out) = n" by (simp add: length_write_at)
    with Cons.IH Cons.prems(1) Inr show ?thesis by simp
  qed
qed simp

lemma classify_no_panic: "classify sp \<noteq> Inl Ie_Panic"
proof -
  have "classify_from i cs k \<noteq> Inl Ie_Panic" for i cs k
  proof (induction i cs k rule: classify_from.induct)
    case (1 i cs k)
    have "classify_one i k (cs ! k) \<noteq> Inl Ie_Panic" by (simp add: classify_one_def Let_def)
    with 1 show ?case by (auto simp: classify_from.simps [of i cs k] ebind_eq_Inl)
  qed
  then show ?thesis by (auto simp: classify_def Let_def ebind_eq_Inl split: if_split_asm)
qed

lemma interpolate_safe:
  assumes "t0 < t1"
  shows "interpolate_by_state_space tg sp t0 s0 t1 s1 t \<noteq> Inl Ie_Panic \<and>
    (\<forall>vs. interpolate_by_state_space tg sp t0 s0 t1 s1 t = Inr vs \<longrightarrow> length vs = length (sp_components sp))"
proof -
  define n where "n = length (sp_components sp)"
  define f where "f = interpolate_group tg (sp_id sp) t0 s0 t1 s1 t"
  show ?thesis
  proof (cases "length s0 = n \<and> length s1 = n")
    case len: True
    show ?thesis
    proof (cases "classify sp")
      case (Inl e)
      with assms len classify_no_panic [of sp] show ?thesis by (auto simp: interpolate_by_state_space_def n_def [symmetric])
    next
      case (Inr gs)
      have "f g \<noteq> Inl Ie_Panic \<and> (\<forall>vs. f g = Inr vs \<longrightarrow> fst g + length vs \<le> n)" if "g \<in> set gs" for g
      proof -
        have "group_fits (sp_components sp) g" using classify_covers [OF Inr] that by (simp add: list_all_iff)
        from interpolate_group_ok [OF this _ _ assms, of s0 s1 tg "sp_id sp" t] len show ?thesis
          by (simp add: f_def n_def)
      qed
      from interpolate_groups_ok [OF this, where out = "replicate n (FZero False)"] show ?thesis
        using assms len Inr by (simp add: interpolate_by_state_space_def n_def [symmetric] f_def [symmetric])
    qed
  next
    case False
    with assms show ?thesis by (auto simp: interpolate_by_state_space_def n_def [symmetric])
  qed
qed

end
