(* ===== verification/Expr_Run.thy ===== *)
theory Expr_Run
  imports Kernel_Space "HOL-Library.Product_Lexorder"
begin

text \<open>
  What an objective is evaluated against: \<open>ExprRunProducts\<close> of \<open>av-kernel/src/expr/runproducts.rs\<close>, the
  trajectories, events and outputs of a run. An index out of range is \<open>Ee_Panic\<close>. Times are
  nanoseconds in 64 bits; differences wrap as in a release build.
\<close>

section \<open>Products\<close>

record run_event =
  re_name :: string
  re_kind :: int
  re_tai_ns :: i64

record series =
  sr_epochs :: "i64 list"
  sr_values :: "f64 list"
  sr_unit :: pb_unit

record run_products =
  rp_start :: i64
  rp_end :: i64
  rp_trajectories :: "(string, trajectory) btree"
  rp_events :: "run_event list"
  rp_outputs :: "(string \<times> string, series) btree"

definition run_products_new :: "i64 \<Rightarrow> i64 \<Rightarrow> (string, trajectory) btree \<Rightarrow> run_event list \<Rightarrow> run_products" where
  "run_products_new s e trs evs =
     \<lparr>rp_start = s, rp_end = e, rp_trajectories = trs, rp_events = evs, rp_outputs = []\<rparr>"

definition with_output :: "string \<Rightarrow> string \<Rightarrow> series \<Rightarrow> run_products \<Rightarrow> run_products" where
  "with_output inst name sr run = run\<lparr>rp_outputs := bt_insert (inst, name) sr (rp_outputs run)\<rparr>"

definition index_or_panic :: "'a list \<Rightarrow> nat \<Rightarrow> expr_error + 'a" where
  "index_or_panic xs i = (if i < length xs then Inr (xs ! i) else Inl Ee_Panic)"

primrec map_ok :: "('a \<Rightarrow> 'e + 'b) \<Rightarrow> 'a list \<Rightarrow> 'e + 'b list" where
  "map_ok f [] = Inr []"
| "map_ok f (x # xs) = ebind (f x) (\<lambda>y. ebind (map_ok f xs) (\<lambda>ys. Inr (y # ys)))"

definition position_of :: "('a \<Rightarrow> bool) \<Rightarrow> 'a list \<Rightarrow> nat option" where
  "position_of P xs = (let n = length (takeWhile (\<lambda>x. \<not> P x) xs) in if n < length xs then Some n else None)"

text \<open>The pairs of neighbours, \<open>windows(2)\<close>.\<close>

definition pairs_of :: "'a list \<Rightarrow> ('a \<times> 'a) list" where
  "pairs_of xs = zip xs (tl xs)"

text \<open>\<open>(t - u) as f64 * 1e-9\<close>\<close>

definition seconds_between :: "i64 \<Rightarrow> i64 \<Rightarrow> f64" where
  "seconds_between u t = f_mul (f_of_int (wrap_i64 (t - u))) (f_lit (1 / 10 ^ 9))"

section \<open>Times and events\<close>

definition event_epoch_tai_ns :: "run_products \<Rightarrow> string \<Rightarrow> nat \<Rightarrow> expr_error + i64" where
  "event_epoch_tai_ns run name p =
     (case filter (\<lambda>e. re_name e = name) (rp_events run) of
        [] \<Rightarrow> Inl (Ee_UnknownEventName name p)
      | [e] \<Rightarrow> Inr (re_tai_ns e)
      | _ \<Rightarrow> Inl (Ee_AmbiguousEventName name p))"

definition event_epoch_seconds :: "run_products \<Rightarrow> string \<Rightarrow> nat \<Rightarrow> expr_error + f64" where
  "event_epoch_seconds run name p =
     ebind (event_epoch_tai_ns run name p) (\<lambda>t. Inr (seconds_between (rp_start run) t))"

definition resolve_time :: "run_products \<Rightarrow> time_spec \<Rightarrow> nat \<Rightarrow> expr_error + i64" where
  "resolve_time run spec p =
     (if rp_end run \<le> rp_start run then Inl Ee_EmptyRun
      else ebind
        (case spec of
           Tm_Start \<Rightarrow> Inr (rp_start run)
         | Tm_End \<Rightarrow> Inr (rp_end run)
         | Tm_OffsetSeconds s _ \<Rightarrow>
             Inr (wrap_i64 (rp_start run + f_to_i64 (f_round_int (f_mul s (f_lit (10 ^ 9))))))
         | Tm_EventName name q \<Rightarrow> event_epoch_tai_ns run name q)
        (\<lambda>t. if t < rp_start run \<or> rp_end run < t
             then Inl (Ee_TimeOutOfRange (seconds_between (rp_start run) t) (FZero False)
                    (seconds_between (rp_start run) (rp_end run)) p)
             else Inr t))"

text \<open>\<open>EventKind::from_str_name\<close> of the enumeration in \<open>core.proto\<close>.\<close>

definition event_kind_names :: "string list" where
  "event_kind_names =
     [''EVENT_KIND_UNSPECIFIED'', ''EVENT_KIND_MANEUVER'', ''EVENT_KIND_CONTACT_START'', ''EVENT_KIND_CONTACT_END'',
      ''EVENT_KIND_ECLIPSE_START'', ''EVENT_KIND_ECLIPSE_END'', ''EVENT_KIND_LIFECYCLE'', ''EVENT_KIND_COMMAND_TRANSITION'',
      ''EVENT_KIND_FAULT'', ''EVENT_KIND_MODE_CHANGE'', ''EVENT_KIND_MARKER'', ''EVENT_KIND_CUSTOM'', ''EVENT_KIND_PORT_COMMAND'']"

definition event_kind_from_name :: "string \<Rightarrow> int option" where
  "event_kind_from_name n = map_option int (position_of (\<lambda>m. m = n) event_kind_names)"

definition ascii_upper :: "char \<Rightarrow> char" where
  "ascii_upper c = (if of_char c \<ge> (97 :: nat) \<and> of_char c \<le> (122 :: nat) then char_of (of_char c - (32 :: nat)) else c)"

definition count_events_by_kind :: "run_products \<Rightarrow> string \<Rightarrow> nat \<Rightarrow> expr_error + f64" where
  "count_events_by_kind run token p =
     ebind (ok_or (Ee_UnknownEventKind token p) (event_kind_from_name (''EVENT_KIND_'' @ map ascii_upper token)))
       (\<lambda>k. Inr (f_of_int (int (length (filter (\<lambda>e. re_kind e = k) (rp_events run))))))"

section \<open>Entities\<close>

definition entity_space :: "run_products \<Rightarrow> string \<Rightarrow> nat \<Rightarrow> expr_error + trajectory \<times> state_space" where
  "entity_space run i p =
     ebind (ok_or (Ee_UnknownEntity i p) (bt_get (rp_trajectories run) i)) (\<lambda>tr.
     ebind (map_err (\<lambda>_. Ee_UnknownEntity i p) (state_space_for (tr_state_space_id tr))) (\<lambda>sp. Inr (tr, sp)))"

definition entity_component_unit :: "run_products \<Rightarrow> string \<Rightarrow> string \<Rightarrow> nat \<Rightarrow> expr_error + pb_unit" where
  "entity_component_unit run i c p =
     ebind (entity_space run i p) (\<lambda>(tr, sp).
     ok_or (Ee_UnknownComponent i c p)
       (map_option component_unit (find (\<lambda>sc. sc_label sc = c) (sp_components sp))))"

definition entity_component_index :: "run_products \<Rightarrow> string \<Rightarrow> string \<Rightarrow> nat \<Rightarrow> expr_error + trajectory \<times> nat" where
  "entity_component_index run i c p =
     ebind (entity_space run i p) (\<lambda>(tr, sp).
     ebind (ok_or (Ee_UnknownComponent i c p) (position_of (\<lambda>sc. sc_label sc = c) (sp_components sp)))
       (\<lambda>k. Inr (tr, k)))"

definition interpolation_failed :: "string \<Rightarrow> nat \<Rightarrow> interpolation_error \<Rightarrow> expr_error" where
  "interpolation_failed i p e = (if e = Ie_Panic then Ee_Panic else Ee_Interpolation i p)"

text \<open>The component \<open>k\<close> of a trajectory at a time: a sample's own value, or between two samples the interpolated one.\<close>

definition component_at ::
  "trig \<Rightarrow> run_products \<Rightarrow> string \<Rightarrow> i64 \<Rightarrow> nat \<Rightarrow> trajectory \<Rightarrow> nat \<Rightarrow> pb_unit \<Rightarrow> expr_error + f64 \<times> pb_unit" where
  "component_at tg run i t p tr k u =
     (let ss = tr_samples tr in
      if ss = [] then Inl (Ee_EmptyTrajectory (Inr i) p)
      else case find (\<lambda>s. ts_tai_ns s = t) ss of
        Some s \<Rightarrow> ebind (index_or_panic (ts_mean s) k) (\<lambda>v. Inr (v, u))
      | None \<Rightarrow>
          (case find (\<lambda>w. ts_tai_ns (fst w) \<le> t \<and> t \<le> ts_tai_ns (snd w)) (pairs_of ss) of
             None \<Rightarrow> Inl (Ee_TimeOutOfRange (seconds_between (rp_start run) t)
                       (seconds_between (rp_start run) (ts_tai_ns (hd ss)))
                       (seconds_between (rp_start run) (ts_tai_ns (List.last ss))) p)
           | Some (s0, s1) \<Rightarrow>
               ebind (map_err (\<lambda>_. Ee_Panic) (state_space_for (tr_state_space_id tr))) (\<lambda>sp.
               ebind (map_err (interpolation_failed i p)
                   (interpolate_by_state_space tg sp (ts_tai_ns s0) (ts_mean s0) (ts_tai_ns s1) (ts_mean s1) t)) (\<lambda>out.
               ebind (index_or_panic out k) (\<lambda>v. Inr (v, u))))))"

definition entity_component_at ::
  "trig \<Rightarrow> run_products \<Rightarrow> string \<Rightarrow> string \<Rightarrow> i64 \<Rightarrow> nat \<Rightarrow> expr_error + f64 \<times> pb_unit" where
  "entity_component_at tg run i c t p =
     ebind (entity_component_index run i c p) (\<lambda>(tr, k).
     ebind (entity_component_unit run i c p) (\<lambda>u. component_at tg run i t p tr k u))"

definition entity_component_series :: "run_products \<Rightarrow> string \<Rightarrow> string \<Rightarrow> nat \<Rightarrow> expr_error + series" where
  "entity_component_series run i c p =
     ebind (entity_component_index run i c p) (\<lambda>(tr, k).
     ebind (entity_component_unit run i c p) (\<lambda>u.
       if tr_samples tr = [] then Inl (Ee_EmptyTrajectory (Inr i) p)
       else ebind (map_ok (\<lambda>s. index_or_panic (ts_mean s) k) (tr_samples tr)) (\<lambda>vs.
         Inr \<lparr>sr_epochs = map ts_tai_ns (tr_samples tr), sr_values = vs, sr_unit = u\<rparr>)))"

section \<open>Outputs\<close>

definition output_unit :: "run_products \<Rightarrow> string \<Rightarrow> string \<Rightarrow> nat \<Rightarrow> expr_error + pb_unit" where
  "output_unit run inst name p =
     ok_or (Ee_UnknownOutput inst name p) (map_option sr_unit (bt_get (rp_outputs run) (inst, name)))"

definition output_series :: "run_products \<Rightarrow> string \<Rightarrow> string \<Rightarrow> nat \<Rightarrow> expr_error + series" where
  "output_series run inst name p =
     ebind (ok_or (Ee_UnknownOutput inst name p) (bt_get (rp_outputs run) (inst, name))) (\<lambda>sr.
       if length (sr_epochs sr) \<noteq> length (sr_values sr)
       then Inl (Ee_SeriesLengthMismatch inst name (length (sr_epochs sr)) (length (sr_values sr)) p)
       else Inr sr)"

definition output_at :: "run_products \<Rightarrow> string \<Rightarrow> string \<Rightarrow> i64 \<Rightarrow> nat \<Rightarrow> expr_error + f64 \<times> pb_unit" where
  "output_at run inst name t p =
     ebind (output_series run inst name p) (\<lambda>sr.
       if sr_epochs sr = [] then Inl (Ee_UnknownOutput inst name p)
       else case position_of (\<lambda>u. u = t) (sr_epochs sr) of
         Some i \<Rightarrow> ebind (index_or_panic (sr_values sr) i) (\<lambda>v. Inr (v, sr_unit sr))
       | None \<Rightarrow>
           (case find (\<lambda>((t0, t1), w). t0 \<le> t \<and> t \<le> t1) (zip (pairs_of (sr_epochs sr)) (pairs_of (sr_values sr))) of
              Some ((t0, t1), (v0, v1)) \<Rightarrow>
                Inr (f_add v0 (f_mul (f_sub v1 v0) (fraction_of t0 t1 t)), sr_unit sr)
            | None \<Rightarrow> Inl (Ee_TimeOutOfRange (seconds_between (rp_start run) t)
                        (seconds_between (rp_start run) (hd (sr_epochs sr)))
                        (seconds_between (rp_start run) (List.last (sr_epochs sr))) p)))"

section \<open>Distances\<close>

definition speed_output :: "trajectory \<Rightarrow> expr_error + series option" where
  "speed_output tr =
     (case state_space_for (tr_state_space_id tr) of
        Inl _ \<Rightarrow> Inr None
      | Inr sp \<Rightarrow>
          (let ix = (\<lambda>l. position_of (\<lambda>c. sc_label c = l) (sp_components sp)) in
           case (ix ''vel_x'', ix ''vel_y'', ix ''vel_z'') of
             (Some x, Some y, Some z) \<Rightarrow>
               ebind (map_ok (\<lambda>s.
                   ebind (index_or_panic (ts_mean s) x) (\<lambda>vx.
                   ebind (index_or_panic (ts_mean s) y) (\<lambda>vy.
                   ebind (index_or_panic (ts_mean s) z) (\<lambda>vz.
                     Inr (f_sqrt (f_add (f_add (f_pow2 vx) (f_pow2 vy)) (f_pow2 vz))))))) (tr_samples tr))
                 (\<lambda>vs. Inr (Some \<lparr>sr_epochs = map ts_tai_ns (tr_samples tr), sr_values = vs, sr_unit = U_MeterPerSecond\<rparr>))
           | _ \<Rightarrow> Inr None))"

definition position_labels :: "string list" where
  "position_labels = [''pos_x'', ''pos_y'', ''pos_z'']"

primrec check_meters :: "run_products \<Rightarrow> nat \<Rightarrow> (string \<times> string) list \<Rightarrow> expr_error + pb_unit" where
  "check_meters run p [] = Inr U_Meter"
| "check_meters run p (ic # ics) =
     ebind (entity_component_unit run (fst ic) (snd ic) p) (\<lambda>u.
       if u \<noteq> U_Meter then Inl (Ee_UnknownComponent (fst ic) (snd ic) p) else check_meters run p ics)"

definition range_unit :: "run_products \<Rightarrow> string \<Rightarrow> string \<Rightarrow> nat \<Rightarrow> expr_error + pb_unit" where
  "range_unit run a b p = check_meters run p (List.product [a, b] position_labels)"

definition position_at :: "trig \<Rightarrow> run_products \<Rightarrow> string \<Rightarrow> i64 \<Rightarrow> nat \<Rightarrow> expr_error + f64 list" where
  "position_at tg run i t p = map_ok (\<lambda>c. ebind (entity_component_at tg run i c t p) (\<lambda>vu. Inr (fst vu))) position_labels"

definition distance :: "f64 list \<Rightarrow> f64 list \<Rightarrow> f64" where
  "distance u v = f_sqrt (f_add (f_add (f_pow2 (f_sub (u ! 0) (v ! 0))) (f_pow2 (f_sub (u ! 1) (v ! 1)))) (f_pow2 (f_sub (u ! 2) (v ! 2))))"

definition range_at :: "trig \<Rightarrow> run_products \<Rightarrow> string \<Rightarrow> string \<Rightarrow> i64 \<Rightarrow> nat \<Rightarrow> expr_error + f64" where
  "range_at tg run a b t p =
     ebind (position_at tg run a t p) (\<lambda>u. ebind (position_at tg run b t p) (\<lambda>v. Inr (distance u v)))"

definition range_series :: "trig \<Rightarrow> run_products \<Rightarrow> string \<Rightarrow> string \<Rightarrow> nat \<Rightarrow> expr_error + series" where
  "range_series tg run a b p =
     ebind (entity_component_series run a ''pos_x'' p) (\<lambda>sx.
     ebind (entity_component_series run a ''pos_y'' p) (\<lambda>sy.
     ebind (entity_component_series run a ''pos_z'' p) (\<lambda>sz.
       if sr_values sx = [] then Inl (Ee_EmptyTrajectory (Inr a) p)
       else ebind (map_ok (\<lambda>(i, t).
              ebind (position_at tg run b t p) (\<lambda>v.
              ebind (index_or_panic (sr_values sx) i) (\<lambda>x.
              ebind (index_or_panic (sr_values sy) i) (\<lambda>y.
              ebind (index_or_panic (sr_values sz) i) (\<lambda>z.
                Inr (distance [x, y, z] v))))))
            (enumerate 0 (sr_epochs sx)))
         (\<lambda>vs. Inr \<lparr>sr_epochs = sr_epochs sx, sr_values = vs, sr_unit = U_Meter\<rparr>))))"

end
