(* ===== verification/Expr_Check.thy ===== *)
theory Expr_Check
  imports Expr_Run Expr_Parser
begin

text \<open>
  The unit check \<open>av-kernel/src/expr/typecheck.rs\<close>, the evaluation \<open>eval.rs\<close> and the scoring of objectives
  \<open>objective.rs\<close>; theory \<open>Expr_Sound\<close> ties the check to the evaluation.
\<close>

section \<open>References\<close>

datatype ref_shape =
    Rs_Entity string string
  | Rs_Output string string
  | Rs_EventEpoch string
  | Rs_EventKindOnly string

definition classify_ref :: "string list \<Rightarrow> nat \<Rightarrow> expr_error + ref_shape" where
  "classify_ref path p =
     (let unknown = Inl (Ee_UnknownReferenceShape (join ''.'' path) p) in
      case path of
        [a, i, c] \<Rightarrow>
          if a = ''entity'' then Inr (Rs_Entity i c)
          else if a = ''output'' then Inr (Rs_Output i c)
          else if a = ''event'' \<and> c = ''t'' then Inr (Rs_EventEpoch i)
          else unknown
      | [a, k] \<Rightarrow> if a = ''event'' then Inr (Rs_EventKindOnly k) else unknown
      | _ \<Rightarrow> unknown)"

definition range_entity_id :: "expr \<Rightarrow> expr_error + string" where
  "range_entity_id e =
     (case e of E_Ref [i] _ \<Rightarrow> Inr i | _ \<Rightarrow> Inl (Ee_RangeArgumentMustBeEntityId (expr_pos e)))"

definition range_entity_ids :: "expr list \<Rightarrow> nat \<Rightarrow> expr_error + string \<times> string" where
  "range_entity_ids args p =
     (case args of
        [a, b] \<Rightarrow> ebind (range_entity_id a) (\<lambda>i. ebind (range_entity_id b) (\<lambda>j. Inr (i, j)))
      | _ \<Rightarrow> Inl (Ee_WrongArity ''range'' 2 (length args) p))"

definition aggregate_names :: "string list" where
  "aggregate_names = [''min'', ''max'', ''mean'', ''final'', ''integral'']"

section \<open>The check\<close>

definition check_time :: "run_products \<Rightarrow> time_spec \<Rightarrow> expr_error + unit" where
  "check_time run time =
     (case time of
        Tm_EventName name q \<Rightarrow> ebind (event_epoch_seconds run name q) (\<lambda>_. Inr ())
      | _ \<Rightarrow> Inr ())"

definition series_unit :: "run_products \<Rightarrow> string \<Rightarrow> nat \<Rightarrow> expr \<Rightarrow> expr_error + pb_unit" where
  "series_unit run name p arg =
     (case arg of
        E_Ref path q \<Rightarrow>
          ebind (classify_ref path q) (\<lambda>s. case s of
            Rs_Entity i c \<Rightarrow> entity_component_unit run i c q
          | Rs_Output i n \<Rightarrow> output_unit run i n q
          | _ \<Rightarrow> Inl (Ee_AggregateArgumentMustBeBareReference name p))
      | E_Call fname fargs q \<Rightarrow>
          if fname = ''range'' then ebind (range_entity_ids fargs q) (\<lambda>(a, b). range_unit run a b q)
          else Inl (Ee_AggregateArgumentMustBeBareReference name p)
      | _ \<Rightarrow> Inl (Ee_AggregateArgumentMustBeBareReference name p))"

definition aggregate_unit :: "run_products \<Rightarrow> string \<Rightarrow> expr list \<Rightarrow> nat \<Rightarrow> expr_error + pb_unit" where
  "aggregate_unit run name args p =
     (case args of
        [arg] \<Rightarrow>
          ebind (series_unit run name p arg) (\<lambda>u.
            if name = ''integral'' then mul_div_unit ''*'' u U_Second p else Inr u)
      | _ \<Rightarrow> Inl (Ee_WrongArity name 1 (length args) p))"

definition count_kind :: "expr list \<Rightarrow> nat \<Rightarrow> expr_error + string \<times> nat" where
  "count_kind args p =
     (let bare = Inl (Ee_AggregateArgumentMustBeBareReference ''count'' p) in
      case args of
        [E_Ref path q] \<Rightarrow> ebind (classify_ref path q) (\<lambda>s. case s of Rs_EventKindOnly k \<Rightarrow> Inr (k, q) | _ \<Rightarrow> bare)
      | [_] \<Rightarrow> bare
      | _ \<Rightarrow> Inl (Ee_WrongArity ''count'' 1 (length args) p))"

definition count_unit :: "run_products \<Rightarrow> expr list \<Rightarrow> nat \<Rightarrow> expr_error + pb_unit" where
  "count_unit run args p =
     ebind (count_kind args p) (\<lambda>(k, q). ebind (count_events_by_kind run k q) (\<lambda>_. Inr U_Dimensionless))"

definition check_at :: "run_products \<Rightarrow> expr \<Rightarrow> time_spec \<Rightarrow> nat \<Rightarrow> expr_error + pb_unit" where
  "check_at run inner time p =
     ebind (check_time run time) (\<lambda>_.
       case inner of
         E_Ref path q \<Rightarrow>
           ebind (classify_ref path q) (\<lambda>s. case s of
             Rs_Entity i c \<Rightarrow> entity_component_unit run i c q
           | Rs_Output i n \<Rightarrow> output_unit run i n q
           | _ \<Rightarrow> Inl (Ee_UnknownReferenceShape (join ''.'' path) q))
       | E_Call name args q \<Rightarrow>
           if name = ''range'' then ebind (range_entity_ids args q) (\<lambda>(a, b). range_unit run a b q)
           else Inl (Ee_AtNotApplicable p)
       | _ \<Rightarrow> Inl (Ee_AtNotApplicable p))"

definition check_ref :: "run_products \<Rightarrow> string list \<Rightarrow> nat \<Rightarrow> bool \<Rightarrow> expr_error + pb_unit" where
  "check_ref run path p bare =
     ebind (classify_ref path p) (\<lambda>s. case s of
       Rs_Entity i c \<Rightarrow>
         if \<not> bare then Inl (Ee_BareReferenceOutsideAggregate (join ''.'' path) p) else entity_component_unit run i c p
     | Rs_Output i n \<Rightarrow>
         if \<not> bare then Inl (Ee_BareReferenceOutsideAggregate (join ''.'' path) p) else output_unit run i n p
     | Rs_EventEpoch name \<Rightarrow> ebind (event_epoch_seconds run name p) (\<lambda>_. Inr U_Second)
     | Rs_EventKindOnly k \<Rightarrow> Inl (Ee_UnknownReferenceShape (join ''.'' path) p))"

definition binary_unit :: "bin_op \<Rightarrow> pb_unit \<Rightarrow> pb_unit \<Rightarrow> nat \<Rightarrow> expr_error + pb_unit" where
  "binary_unit op l r p =
     (case op of
        Bo_Add \<Rightarrow> add_sub_unit ''+'' l r p
      | Bo_Sub \<Rightarrow> add_sub_unit ''-'' l r p
      | Bo_Mul \<Rightarrow> mul_div_unit ''*'' l r p
      | Bo_Div \<Rightarrow> mul_div_unit ''/'' l r p)"

function check_inner :: "run_products \<Rightarrow> bool \<Rightarrow> expr \<Rightarrow> expr_error + pb_unit"
  and duration_unit :: "run_products \<Rightarrow> expr list \<Rightarrow> nat \<Rightarrow> expr_error + pb_unit"
where
  "check_inner run bare (E_Number v u p) = Inr u"
| "check_inner run bare (E_Neg e p) = check_inner run bare e"
| "check_inner run bare (E_Binary op l r p) =
     ebind (check_inner run bare l) (\<lambda>lu. ebind (check_inner run bare r) (\<lambda>ru. binary_unit op lu ru p))"
| "check_inner run bare (E_Compare op l r p) =
     ebind (check_inner run bare l) (\<lambda>lu. ebind (check_inner run bare r) (\<lambda>ru.
       if lu = ru then Inr U_Dimensionless else Inl (Ee_UnitMismatch (cmp_symbol op) lu ru p)))"
| "check_inner run bare (E_At e time p) = check_at run e time p"
| "check_inner run bare (E_Ref path p) = check_ref run path p bare"
| "check_inner run bare (E_Call name args p) =
     (if name \<in> set aggregate_names then aggregate_unit run name args p
      else if name = ''count'' then count_unit run args p
      else if name = ''duration'' then duration_unit run args p
      else if name = ''range'' then
        if \<not> bare then Inl (Ee_BareReferenceOutsideAggregate ''range(...)'' p)
        else ebind (range_entity_ids args p) (\<lambda>(a, b). range_unit run a b p)
      else Inl (Ee_UnknownFunction name p))"
| "duration_unit run args p =
     (case args of
        [arg] \<Rightarrow>
          (case arg of
             E_Compare op l r q \<Rightarrow> ebind (check_inner run True (E_Compare op l r q)) (\<lambda>_. Inr U_Second)
           | _ \<Rightarrow> Inl (Ee_DurationArgumentMustBeComparison p))
      | _ \<Rightarrow> Inl (Ee_WrongArity ''duration'' 1 (length args) p))"
  by pat_completeness auto
termination
  by (relation "measure (case_sum (\<lambda>(run, bare, e). 2 * size e) (\<lambda>(run, args, p). 2 * size_list size args + 1))") auto

definition check_expr :: "expr \<Rightarrow> run_products \<Rightarrow> expr_error + pb_unit" where
  "check_expr e run = check_inner run False e"

section \<open>The evaluation\<close>

record expr_value =
  ev_number :: f64
  ev_unit :: pb_unit

definition eval_ref :: "run_products \<Rightarrow> string list \<Rightarrow> nat \<Rightarrow> bool \<Rightarrow> expr_error + expr_value" where
  "eval_ref run path p bare =
     ebind (classify_ref path p) (\<lambda>s. case s of
       Rs_EventEpoch name \<Rightarrow>
         ebind (event_epoch_seconds run name p) (\<lambda>n. Inr \<lparr>ev_number = n, ev_unit = U_Second\<rparr>)
     | Rs_EventKindOnly k \<Rightarrow> Inl (Ee_UnknownReferenceShape (join ''.'' path) p)
     | _ \<Rightarrow> if bare then Inl (Ee_AggregateArgumentMustBeBareReference ''(internal)'' p)
           else Inl (Ee_BareReferenceOutsideAggregate (join ''.'' path) p))"

definition tagged :: "expr_error + f64 \<times> pb_unit \<Rightarrow> expr_error + expr_value" where
  "tagged r = ebind r (\<lambda>(n, u). Inr \<lparr>ev_number = n, ev_unit = u\<rparr>)"

definition eval_at :: "trig \<Rightarrow> run_products \<Rightarrow> expr \<Rightarrow> time_spec \<Rightarrow> nat \<Rightarrow> expr_error + expr_value" where
  "eval_at tg run inner time p =
     ebind (resolve_time run time p) (\<lambda>t.
       case inner of
         E_Ref path q \<Rightarrow>
           ebind (classify_ref path q) (\<lambda>s. case s of
             Rs_Entity i c \<Rightarrow> tagged (entity_component_at tg run i c t q)
           | Rs_Output i n \<Rightarrow> tagged (output_at run i n t q)
           | _ \<Rightarrow> Inl (Ee_UnknownReferenceShape (join ''.'' path) q))
       | E_Call name args q \<Rightarrow>
           if name = ''range'' then
             ebind (range_entity_ids args q) (\<lambda>(a, b).
             ebind (range_at tg run a b t q) (\<lambda>n. Inr \<lparr>ev_number = n, ev_unit = U_Meter\<rparr>))
           else Inl (Ee_AtNotApplicable p)
       | _ \<Rightarrow> Inl (Ee_AtNotApplicable p))"

definition expr_series :: "trig \<Rightarrow> run_products \<Rightarrow> expr \<Rightarrow> expr_error + series" where
  "expr_series tg run e =
     (let bare = Inl (Ee_AggregateArgumentMustBeBareReference ''(internal)'' (expr_pos e)) in
      case e of
        E_Ref path q \<Rightarrow>
          ebind (classify_ref path q) (\<lambda>s. case s of
            Rs_Entity i c \<Rightarrow> entity_component_series run i c q
          | Rs_Output i n \<Rightarrow> output_series run i n q
          | _ \<Rightarrow> bare)
      | E_Call name args q \<Rightarrow>
          if name = ''range'' then ebind (range_entity_ids args q) (\<lambda>(a, b). range_series tg run a b q) else bare
      | _ \<Rightarrow> bare)"

definition trapezoidal_integral_seconds :: "series \<Rightarrow> f64" where
  "trapezoidal_integral_seconds sr =
     foldl (\<lambda>total ((t0, t1), (v0, v1)).
         f_add total (f_mul (f_mul (f_lit (1 / 2)) (f_add v0 v1)) (seconds_between t0 t1)))
       (FZero False) (zip (pairs_of (sr_epochs sr)) (pairs_of (sr_values sr)))"

text \<open>\<open>f64::min\<close> and \<open>max\<close> leave out a NaN; of two zeros either may be the result.\<close>

definition f_min :: "f64 \<Rightarrow> f64 \<Rightarrow> f64" where
  "f_min v w = (if v = FNan then w else if w = FNan then v else if f_lt w v then w else v)"

definition f_max :: "f64 \<Rightarrow> f64 \<Rightarrow> f64" where
  "f_max v w = (if v = FNan then w else if w = FNan then v else if f_lt v w then w else v)"

definition aggregate_number :: "string \<Rightarrow> series \<Rightarrow> f64" where
  "aggregate_number name sr =
     (let vs = sr_values sr in
      if name = ''min'' then foldl f_min (FInf False) vs
      else if name = ''max'' then foldl f_max (FInf True) vs
      else if name = ''mean'' then f_div (f_sum vs) (f_of_int (int (length vs)))
      else if name = ''final'' then List.last vs
      else trapezoidal_integral_seconds sr)"

definition eval_aggregate :: "trig \<Rightarrow> run_products \<Rightarrow> string \<Rightarrow> expr list \<Rightarrow> nat \<Rightarrow> expr_error + expr_value" where
  "eval_aggregate tg run name args p =
     (case args of
        [arg] \<Rightarrow>
          ebind (map_err (\<lambda>e. case e of
              Ee_AggregateArgumentMustBeBareReference _ _ \<Rightarrow> Ee_AggregateArgumentMustBeBareReference name p
            | other \<Rightarrow> other) (expr_series tg run arg)) (\<lambda>sr.
          if sr_values sr = [] then Inl (Ee_EmptyTrajectory (Inl args) p)
          else ebind (if name = ''integral'' then mul_div_unit ''*'' (sr_unit sr) U_Second p else Inr (sr_unit sr)) (\<lambda>u.
            Inr \<lparr>ev_number = aggregate_number name sr, ev_unit = u\<rparr>))
      | _ \<Rightarrow> Inl (Ee_WrongArity name 1 (length args) p))"

definition eval_count :: "run_products \<Rightarrow> expr list \<Rightarrow> nat \<Rightarrow> expr_error + expr_value" where
  "eval_count run args p =
     ebind (count_kind args p) (\<lambda>(k, q).
     ebind (count_events_by_kind run k q) (\<lambda>n. Inr \<lparr>ev_number = n, ev_unit = U_Dimensionless\<rparr>))"

text \<open>
  The seconds for which a condition holds: each sample's verdict lasts until the next sample. The code
  indexes the epochs by the samples, out of range where the vectors differ in length.
\<close>

definition held_seconds :: "cmp_op \<Rightarrow> f64 \<Rightarrow> series \<Rightarrow> expr_error + f64" where
  "held_seconds op threshold sr =
     foldl (\<lambda>acc i. ebind acc (\<lambda>total.
         if cmp_holds op (sr_values sr ! i) threshold then
           ebind (index_or_panic (sr_epochs sr) (i + 1)) (\<lambda>t1.
           ebind (index_or_panic (sr_epochs sr) i) (\<lambda>t0. Inr (f_add total (seconds_between t0 t1))))
         else Inr total))
       (Inr (FZero False)) [0..<length (sr_values sr) - 1]"

definition binary_number :: "bin_op \<Rightarrow> f64 \<Rightarrow> f64 \<Rightarrow> f64" where
  "binary_number op v w =
     (case op of Bo_Add \<Rightarrow> f_add v w | Bo_Sub \<Rightarrow> f_sub v w | Bo_Mul \<Rightarrow> f_mul v w | Bo_Div \<Rightarrow> f_div v w)"

function eval_inner :: "trig \<Rightarrow> run_products \<Rightarrow> bool \<Rightarrow> expr \<Rightarrow> expr_error + expr_value"
  and eval_duration :: "trig \<Rightarrow> run_products \<Rightarrow> expr list \<Rightarrow> nat \<Rightarrow> expr_error + expr_value"
where
  "eval_inner tg run bare (E_Number v u p) = Inr \<lparr>ev_number = v, ev_unit = u\<rparr>"
| "eval_inner tg run bare (E_Neg e p) =
     ebind (eval_inner tg run bare e) (\<lambda>v. Inr (v\<lparr>ev_number := f_neg (ev_number v)\<rparr>))"
| "eval_inner tg run bare (E_Binary op l r p) =
     ebind (eval_inner tg run bare l) (\<lambda>v. ebind (eval_inner tg run bare r) (\<lambda>w.
     ebind (binary_unit op (ev_unit v) (ev_unit w) p) (\<lambda>u.
       Inr \<lparr>ev_number = binary_number op (ev_number v) (ev_number w), ev_unit = u\<rparr>)))"
| "eval_inner tg run bare (E_Compare op l r p) =
     ebind (eval_inner tg run bare l) (\<lambda>v. ebind (eval_inner tg run bare r) (\<lambda>w.
       Inr \<lparr>ev_number = (if cmp_holds op (ev_number v) (ev_number w) then f_lit 1 else FZero False),
            ev_unit = U_Dimensionless\<rparr>))"
| "eval_inner tg run bare (E_At e time p) = eval_at tg run e time p"
| "eval_inner tg run bare (E_Ref path p) = eval_ref run path p bare"
| "eval_inner tg run bare (E_Call name args p) =
     (if name \<in> set aggregate_names then eval_aggregate tg run name args p
      else if name = ''count'' then eval_count run args p
      else if name = ''duration'' then eval_duration tg run args p
      else if name = ''range'' then
        if bare then Inl (Ee_AggregateArgumentMustBeBareReference ''(internal)'' p)
        else Inl (Ee_BareReferenceOutsideAggregate ''range(...)'' p)
      else Inl (Ee_UnknownFunction name p))"
| "eval_duration tg run args p =
     (case args of
        [arg] \<Rightarrow>
          (case arg of
             E_Compare op l r q \<Rightarrow>
               ebind (expr_series tg run l) (\<lambda>sr.
               ebind (eval_inner tg run False r) (\<lambda>threshold.
                 if sr_unit sr \<noteq> ev_unit threshold
                 then Inl (Ee_UnitMismatch (cmp_symbol op) (sr_unit sr) (ev_unit threshold) q)
                 else if length (sr_values sr) < 2 then Inl (Ee_EmptyTrajectory (Inl [l]) q)
                 else ebind (held_seconds op (ev_number threshold) sr) (\<lambda>n.
                   Inr \<lparr>ev_number = n, ev_unit = U_Second\<rparr>)))
           | _ \<Rightarrow> Inl (Ee_DurationArgumentMustBeComparison p))
      | _ \<Rightarrow> Inl (Ee_WrongArity ''duration'' 1 (length args) p))"
  by pat_completeness auto
termination
  by (relation "measure (case_sum (\<lambda>(tg, run, bare, e). 2 * size e) (\<lambda>(tg, run, args, p). 2 * size_list size args + 1))") auto

definition evaluate :: "trig \<Rightarrow> expr \<Rightarrow> run_products \<Rightarrow> expr_error + expr_value" where
  "evaluate tg e run = eval_inner tg run False e"

section \<open>Objectives\<close>

record objective =
  ob_expression :: string
  ob_unit :: int
  ob_target :: f64
  ob_tolerance :: f64

record objective_result =
  or_value :: f64
  or_unit :: pb_unit
  or_target :: f64
  or_tolerance :: f64
  or_pass :: bool

definition declared_unit :: "int \<Rightarrow> pb_unit" where
  "declared_unit raw = (case unit_try_from raw of Some u \<Rightarrow> u | None \<Rightarrow> U_Unspecified)"

definition parse_check_eval :: "trig \<Rightarrow> string \<Rightarrow> pb_unit \<Rightarrow> run_products \<Rightarrow> expr_error + expr_value" where
  "parse_check_eval tg text declared run =
     ebind (parse text) (\<lambda>e.
     ebind (check_expr e run) (\<lambda>u.
       if declared \<noteq> U_Unspecified \<and> declared \<noteq> u then Inl (Ee_DeclaredUnitMismatch declared u)
       else evaluate tg e run))"

definition evaluate_objective :: "trig \<Rightarrow> objective \<Rightarrow> run_products \<Rightarrow> expr_error + objective_result" where
  "evaluate_objective tg ob run =
     ebind (parse_check_eval tg (ob_expression ob) (declared_unit (ob_unit ob)) run) (\<lambda>v.
       Inr \<lparr>or_value = ev_number v, or_unit = ev_unit v, or_target = ob_target ob, or_tolerance = ob_tolerance ob,
            or_pass = f_le (f_abs (f_sub (ev_number v) (ob_target ob))) (ob_tolerance ob)\<rparr>)"

text \<open>A measure of effectiveness is the value alone.\<close>

definition evaluate_moe :: "trig \<Rightarrow> string \<Rightarrow> int \<Rightarrow> run_products \<Rightarrow> expr_error + expr_value" where
  "evaluate_moe tg text raw run = parse_check_eval tg text (declared_unit raw) run"

end
