(* ===== verification/Expr_Sound.thy ===== *)
theory Expr_Sound
  imports Expr_Check
begin

text \<open>
  Soundness of the unit check of \<open>typecheck.rs\<close> for the evaluator of \<open>eval.rs\<close>: a checked expression
  evaluates to a number of the checked unit or fails for the run's data, the check does not look at
  samples, and a run whose samples fit their state spaces never panics.
\<close>

section \<open>Units are preserved\<close>

lemma bind_shape:
  "ebind r (\<lambda>s. case s of Rs_Entity i c \<Rightarrow> A i c | Rs_Output i n \<Rightarrow> B i n | Rs_EventEpoch n \<Rightarrow> C n | Rs_EventKindOnly k \<Rightarrow> D k) = Inr u \<longleftrightarrow>
   (\<exists>i c. r = Inr (Rs_Entity i c) \<and> A i c = Inr u) \<or> (\<exists>i n. r = Inr (Rs_Output i n) \<and> B i n = Inr u) \<or>
   (\<exists>n. r = Inr (Rs_EventEpoch n) \<and> C n = Inr u) \<or> (\<exists>k. r = Inr (Rs_EventKindOnly k) \<and> D k = Inr u)"
proof (cases r)
  case (Inr s)
  then show ?thesis by (cases s) simp_all
qed simp

lemma bind_pair: "ebind r (\<lambda>(a, b). f a b) = Inr u \<longleftrightarrow> (\<exists>a b. r = Inr (a, b) \<and> f a b = Inr u)"
  by (auto simp: ebind_eq_Inr)

lemma bind_const: "ebind r (\<lambda>_. k) = Inr u \<longleftrightarrow> (\<exists>x. r = Inr x \<and> k = Inr u)"
  by (auto simp: ebind_eq_Inr)

lemmas bind_cases = bind_shape bind_pair bind_const

lemma entity_at_unit:
  "entity_component_unit run i c p = Inr u \<Longrightarrow> entity_component_at tg run i c t p = Inr (v, w) \<Longrightarrow> w = u"
  by (auto simp: entity_component_at_def component_at_def Let_def ebind_eq_Inr split: if_split_asm option.splits prod.splits)

lemma entity_series_unit:
  "entity_component_unit run i c p = Inr u \<Longrightarrow> entity_component_series run i c p = Inr sr \<Longrightarrow> sr_unit sr = u"
  by (auto simp: entity_component_series_def ebind_eq_Inr split: if_split_asm)

lemma output_series_unit: "output_unit run i n p = Inr u \<Longrightarrow> output_series run i n p = Inr sr \<Longrightarrow> sr_unit sr = u"
  by (auto simp: output_series_def output_unit_def ebind_eq_Inr split: if_split_asm)

lemma output_at_unit: "output_unit run i n p = Inr u \<Longrightarrow> output_at run i n t p = Inr (v, w) \<Longrightarrow> w = u"
  by (auto simp: output_at_def ebind_eq_Inr dest: output_series_unit split: if_split_asm option.splits prod.splits)

lemma check_meters_unit: "check_meters run p ics = Inr u \<Longrightarrow> u = U_Meter"
  by (induction ics) (auto simp: ebind_eq_Inr split: if_split_asm)

lemma range_unit_Meter: "range_unit run a b p = Inr u \<Longrightarrow> u = U_Meter"
  by (auto simp: range_unit_def dest: check_meters_unit)

lemma range_series_unit: "range_series tg run a b p = Inr sr \<Longrightarrow> sr_unit sr = U_Meter"
  by (auto simp: range_series_def ebind_eq_Inr split: if_split_asm)

text \<open>The arguments of an aggregate and of \<open>@\<close>: an entity, an output or a distance.\<close>

lemma series_unit_cases:
  assumes "series_unit run name p arg = Inr u"
  obtains path q i c where "arg = E_Ref path q" "classify_ref path q = Inr (Rs_Entity i c)" "entity_component_unit run i c q = Inr u"
  | path q i n where "arg = E_Ref path q" "classify_ref path q = Inr (Rs_Output i n)" "output_unit run i n q = Inr u"
  | args q a b where "arg = E_Call ''range'' args q" "range_entity_ids args q = Inr (a, b)" "range_unit run a b q = Inr u"
  using assms by (auto simp: series_unit_def bind_cases split: expr.split_asm ref_shape.split_asm if_split_asm)

lemma expr_series_unit:
  assumes "series_unit run name p arg = Inr u" "expr_series tg run arg = Inr sr"
  shows "sr_unit sr = u"
  using assms(1)
proof (cases rule: series_unit_cases)
  case (1 path q i c)
  with assms(2) entity_series_unit show ?thesis by (auto simp: expr_series_def)
next
  case (2 path q i n)
  with assms(2) output_series_unit show ?thesis by (auto simp: expr_series_def)
next
  case (3 args q a b)
  with assms(2) range_series_unit range_unit_Meter show ?thesis by (fastforce simp: expr_series_def)
qed

lemma aggregate_unit_sound:
  "aggregate_unit run name args p = Inr u \<Longrightarrow> eval_aggregate tg run name args p = Inr v \<Longrightarrow> ev_unit v = u"
  by (auto simp: aggregate_unit_def eval_aggregate_def ebind_eq_Inr dest: expr_series_unit split: list.splits if_split_asm)

lemma check_at_cases:
  assumes "check_at run e time p = Inr u"
  obtains path q i c where "e = E_Ref path q" "classify_ref path q = Inr (Rs_Entity i c)" "entity_component_unit run i c q = Inr u"
  | path q i n where "e = E_Ref path q" "classify_ref path q = Inr (Rs_Output i n)" "output_unit run i n q = Inr u"
  | args q a b where "e = E_Call ''range'' args q" "range_entity_ids args q = Inr (a, b)" "range_unit run a b q = Inr u"
  using assms by (auto simp: check_at_def bind_cases split: expr.split_asm ref_shape.split_asm if_split_asm)

lemma eval_at_unit:
  assumes "check_at run e time p = Inr u" "eval_at tg run e time p = Inr v"
  shows "ev_unit v = u"
  using assms(1)
proof (cases rule: check_at_cases)
  case (1 path q i c)
  with assms(2) entity_at_unit show ?thesis by (auto simp: eval_at_def tagged_def ebind_eq_Inr)
next
  case (2 path q i n)
  with assms(2) output_at_unit show ?thesis by (auto simp: eval_at_def tagged_def ebind_eq_Inr)
next
  case (3 args q a b)
  with assms(2) range_unit_Meter [OF 3(3)] show ?thesis by (auto simp: eval_at_def ebind_eq_Inr)
qed

lemma eval_ref_unit: "check_ref run path p bare = Inr u \<Longrightarrow> eval_ref run path p bare' = Inr v \<Longrightarrow> ev_unit v = u"
  by (cases "classify_ref path p")
    (auto simp: check_ref_def eval_ref_def bind_const ebind_eq_Inr split: ref_shape.split_asm if_split_asm)

lemma count_sound: "count_unit run args p = Inr u \<Longrightarrow> eval_count run args p = Inr v \<Longrightarrow> ev_unit v = u"
  by (auto simp: count_unit_def eval_count_def ebind_eq_Inr)

lemma duration_sound: "duration_unit run args p = Inr u \<Longrightarrow> eval_duration tg run args p = Inr v \<Longrightarrow> ev_unit v = u"
  by (auto simp: ebind_eq_Inr split: list.splits expr.splits if_split_asm)

lemma eval_unit:
  "check_inner run bare e = Inr u \<Longrightarrow> eval_inner tg run bare' e = Inr v \<Longrightarrow> ev_unit v = u"
proof (induction e arbitrary: u v)
  case (E_Binary op l r p)
  from E_Binary.prems(1) obtain lu ru where c: "check_inner run bare l = Inr lu" "check_inner run bare r = Inr ru"
      "binary_unit op lu ru p = Inr u" by (auto simp: ebind_eq_Inr)
  from E_Binary.prems(2) obtain a b where e: "eval_inner tg run bare' l = Inr a" "eval_inner tg run bare' r = Inr b"
      "binary_unit op (ev_unit a) (ev_unit b) p = Inr (ev_unit v)" by (auto simp: ebind_eq_Inr)
  with E_Binary.IH(1) [OF c(1) e(1)] E_Binary.IH(2) [OF c(2) e(2)] c(3) show ?case by simp
next
  case (E_Call name args p)
  show ?case
  proof (cases "name = ''duration''")
    case True
    with E_Call.prems show ?thesis using duration_sound
      by (simp add: aggregate_names_def del: duration_unit.simps eval_duration.simps)
  next
    case False
    with E_Call.prems show ?thesis using aggregate_unit_sound count_sound
      by (auto simp del: duration_unit.simps eval_duration.simps split: if_split_asm)
  qed
qed (auto simp: ebind_eq_Inr dest: eval_at_unit eval_ref_unit split: if_split_asm)

section \<open>What can still fail\<close>

text \<open>
  The arguments of \<open>duration\<close> that the evaluator handles: a bare series on the left of the comparison
  and a scalar, without bare references, on the right.
\<close>

definition is_bare_series :: "expr \<Rightarrow> bool" where
  "is_bare_series e =
     (case e of
        E_Ref path q \<Rightarrow>
          (case classify_ref path q of Inr (Rs_Entity _ _) \<Rightarrow> True | Inr (Rs_Output _ _) \<Rightarrow> True | _ \<Rightarrow> False)
      | E_Call name args q \<Rightarrow> name = ''range''
      | _ \<Rightarrow> False)"

fun is_scalar :: "expr \<Rightarrow> bool" where
  "is_scalar (E_Neg e p) = is_scalar e"
| "is_scalar (E_Binary op l r p) = (is_scalar l \<and> is_scalar r)"
| "is_scalar (E_Compare op l r p) = (is_scalar l \<and> is_scalar r)"
| "is_scalar (E_Ref path p) = (\<not> is_bare_series (E_Ref path p))"
| "is_scalar (E_Call name args p) = (name \<noteq> ''range'')"
| "is_scalar (E_Number v u p) = True"
| "is_scalar (E_At e time p) = True"

fun conditions_ok :: "expr \<Rightarrow> bool" where
  "conditions_ok (E_Neg e p) = conditions_ok e"
| "conditions_ok (E_Binary op l r p) = (conditions_ok l \<and> conditions_ok r)"
| "conditions_ok (E_Compare op l r p) = (conditions_ok l \<and> conditions_ok r)"
| "conditions_ok (E_Call name args p) =
     (case args of
        [arg] \<Rightarrow>
          (case arg of
             E_Compare op l r q \<Rightarrow> if name = ''duration'' then is_bare_series l \<and> is_scalar r \<and> conditions_ok r else True
           | _ \<Rightarrow> True)
      | _ \<Rightarrow> True)"
| "conditions_ok (E_Number v u p) = True"
| "conditions_ok (E_At e time p) = True"
| "conditions_ok (E_Ref path p) = True"

text \<open>The errors that depend on the run's samples and events.\<close>

definition data_error :: "expr_error \<Rightarrow> bool" where
  "data_error e \<longleftrightarrow>
     (case e of
        Ee_EmptyRun \<Rightarrow> True | Ee_EmptyTrajectory _ _ \<Rightarrow> True | Ee_TimeOutOfRange _ _ _ _ \<Rightarrow> True
      | Ee_Interpolation _ _ \<Rightarrow> True | Ee_SeriesLengthMismatch _ _ _ _ _ \<Rightarrow> True | Ee_UnknownOutput _ _ _ \<Rightarrow> True
      | Ee_Panic \<Rightarrow> True | _ \<Rightarrow> False)"

lemma data_error_simps [simp]:
  "data_error Ee_EmptyRun" "data_error (Ee_EmptyTrajectory x p)" "data_error (Ee_TimeOutOfRange v w y p)"
  "data_error (Ee_Interpolation i p)" "data_error (Ee_SeriesLengthMismatch i n m k p)"
  "data_error (Ee_UnknownOutput i n p)" "data_error Ee_Panic"
  by (simp_all add: data_error_def)

definition data_only :: "expr_error + 'a \<Rightarrow> bool" where
  "data_only r \<longleftrightarrow> (case r of Inl e \<Rightarrow> data_error e | Inr x \<Rightarrow> True)"

lemma data_only_simps [simp]: "data_only (Inl e) = data_error e" "data_only (Inr x)"
  by (simp_all add: data_only_def)

lemma data_only_bind: "data_only r \<Longrightarrow> (\<And>x. r = Inr x \<Longrightarrow> data_only (k x)) \<Longrightarrow> data_only (ebind r k)"
  by (cases r) simp_all

lemma data_only_if: "(b \<Longrightarrow> data_only r) \<Longrightarrow> (\<not> b \<Longrightarrow> data_only s) \<Longrightarrow> data_only (if b then r else s)"
  by simp

lemma data_only_index [simp]: "data_only (index_or_panic xs i)"
  by (simp add: index_or_panic_def)

lemma data_only_map_ok: "(\<And>x. x \<in> set xs \<Longrightarrow> data_only (f x)) \<Longrightarrow> data_only (map_ok f xs)"
  by (induction xs) (auto intro!: data_only_bind)

lemma data_only_map_err: "(\<And>e. data_error (f e)) \<Longrightarrow> data_only (map_err f r)"
  by (cases r) simp_all

lemma position_of_Some:
  assumes "find P xs = Some x"
  obtains k where "position_of P xs = Some k" "k < length xs"
proof -
  have "\<exists>x\<in>set xs. P x" using find_mem [OF assms] by blast
  then have "length (takeWhile (\<lambda>x. \<not> P x) xs) < length xs"
    by (metis length_takeWhile_le le_neq_implies_less takeWhile_eq_all_conv takeWhile_eq_take take_all_iff nle_le)
  then show ?thesis using that by (simp add: position_of_def Let_def)
qed

lemma entity_component_ok:
  assumes "entity_component_unit run i c p = Inr u"
  obtains tr sp k where "bt_get (rp_trajectories run) i = Some tr" "state_space_for (tr_state_space_id tr) = Inr sp"
    "entity_component_index run i c p = Inr (tr, k)" "k < length (sp_components sp)"
proof -
  from assms obtain tr sp where e: "entity_space run i p = Inr (tr, sp)"
    and f: "map_option component_unit (find (\<lambda>sc. sc_label sc = c) (sp_components sp)) = Some u"
    by (auto simp: entity_component_unit_def bind_pair)
  from f obtain x where "find (\<lambda>sc. sc_label sc = c) (sp_components sp) = Some x" by blast
  then obtain k where k: "position_of (\<lambda>sc. sc_label sc = c) (sp_components sp) = Some k" "k < length (sp_components sp)"
    by (rule position_of_Some)
  have "entity_component_index run i c p = Inr (tr, k)" using e k(1) by (simp add: entity_component_index_def)
  moreover have "bt_get (rp_trajectories run) i = Some tr" "state_space_for (tr_state_space_id tr) = Inr sp"
    using e by (auto simp: entity_space_def ebind_eq_Inr)
  ultimately show ?thesis using that k(2) by blast
qed

lemma entity_at_data:
  assumes "entity_component_unit run i c p = Inr u"
  shows "data_only (entity_component_at tg run i c t p)"
  using assms
proof (rule entity_component_ok)
  fix tr sp k
  assume "state_space_for (tr_state_space_id tr) = Inr sp" "entity_component_index run i c p = Inr (tr, k)"
  then show ?thesis using assms
    by (auto simp: entity_component_at_def component_at_def Let_def interpolation_failed_def split: option.split
        intro!: data_only_bind data_only_map_err)
qed

lemma entity_series_data:
  assumes "entity_component_unit run i c p = Inr u"
  shows "data_only (entity_component_series run i c p)"
  using assms
proof (rule entity_component_ok)
  fix tr sp k assume "entity_component_index run i c p = Inr (tr, k)"
  then show ?thesis using assms by (auto simp: entity_component_series_def intro!: data_only_bind data_only_map_ok)
qed

lemma output_series_data: "output_unit run i n p = Inr u \<Longrightarrow> data_only (output_series run i n p)"
  by (auto simp: output_unit_def output_series_def)

lemma output_at_data: "output_unit run i n p = Inr u \<Longrightarrow> data_only (output_at run i n t p)"
  unfolding output_at_def
  by (intro data_only_bind output_series_data data_only_if) (auto split: option.split intro!: data_only_bind)

lemma range_units:
  "range_unit run a b p = Inr u \<Longrightarrow> i = a \<or> i = b \<Longrightarrow> c \<in> set position_labels \<Longrightarrow> entity_component_unit run i c p = Inr U_Meter"
  by (auto simp: range_unit_def position_labels_def ebind_eq_Inr split: if_split_asm)

lemma position_at_data: "range_unit run a b p = Inr u \<Longrightarrow> i = a \<or> i = b \<Longrightarrow> data_only (position_at tg run i t p)"
  unfolding position_at_def by (intro data_only_map_ok data_only_bind entity_at_data) (auto dest: range_units)

lemma range_at_data: "range_unit run a b p = Inr u \<Longrightarrow> data_only (range_at tg run a b t p)"
  unfolding range_at_def by (auto intro!: data_only_bind position_at_data)

lemma range_series_data:
  assumes "range_unit run a b p = Inr u"
  shows "data_only (range_series tg run a b p)"
proof -
  have e: "data_only (entity_component_series run a c p)" if "c \<in> set position_labels" for c
    using range_units [OF assms _ that] entity_series_data by blast
  have v: "data_only (position_at tg run b t p)" for t using position_at_data [OF assms] by blast
  have step: "data_only (case it of (i, t) \<Rightarrow>
      ebind (position_at tg run b t p) (\<lambda>v.
      ebind (index_or_panic (sr_values sx) i) (\<lambda>x.
      ebind (index_or_panic (sr_values sy) i) (\<lambda>y.
      ebind (index_or_panic (sr_values sz) i) (\<lambda>z. Inr (distance [x, y, z] v))))))" for sx sy sz it
    by (cases it) (simp, intro data_only_bind v data_only_index data_only_simps)
  have l: "''pos_x'' \<in> set position_labels" "''pos_y'' \<in> set position_labels" "''pos_z'' \<in> set position_labels"
    by (simp_all add: position_labels_def)
  show ?thesis unfolding range_series_def
    by (intro data_only_bind [OF e [OF l(1)]] data_only_bind [OF e [OF l(2)]] data_only_bind [OF e [OF l(3)]]
        data_only_if data_only_bind data_only_map_ok step) simp_all
qed

lemma expr_series_data: "series_unit run name p arg = Inr u \<Longrightarrow> data_only (expr_series tg run arg)"
proof (erule series_unit_cases)
qed (auto simp: expr_series_def entity_series_data output_series_data range_series_data)

lemma event_data: "event_epoch_seconds run name p = Inr n \<Longrightarrow> \<exists>t. event_epoch_tai_ns run name p = Inr t"
  by (auto simp: event_epoch_seconds_def ebind_eq_Inr)

lemma resolve_time_data: "check_time run time = Inr w \<Longrightarrow> data_only (resolve_time run time p)"
  by (cases time) (auto simp: resolve_time_def check_time_def bind_const dest!: event_data intro!: data_only_bind)

lemma eval_at_data:
  assumes "check_at run e time p = Inr u"
  shows "data_only (eval_at tg run e time p)"
proof -
  from assms have t: "data_only (resolve_time run time p)"
    using resolve_time_data by (auto simp: check_at_def bind_const)
  show ?thesis using assms
  proof (cases rule: check_at_cases)
    case (1 path q i c)
    with t entity_at_data [OF 1(3)] show ?thesis by (auto simp: eval_at_def tagged_def intro!: data_only_bind)
  next
    case (2 path q i n)
    with t output_at_data [OF 2(3)] show ?thesis by (auto simp: eval_at_def tagged_def intro!: data_only_bind)
  next
    case (3 args q a b)
    with t range_at_data [OF 3(3)] show ?thesis by (auto simp: eval_at_def intro!: data_only_bind)
  qed
qed

lemma eval_aggregate_data:
  assumes "aggregate_unit run name args p = Inr u"
  shows "data_only (eval_aggregate tg run name args p)"
proof -
  from assms obtain arg v where a: "args = [arg]" "series_unit run name p arg = Inr v"
    and i: "(if name = ''integral'' then mul_div_unit ''*'' v U_Second p else Inr v) = Inr u"
    by (auto simp: aggregate_unit_def ebind_eq_Inr split: list.splits if_split_asm)
  have e: "data_only (map_err (\<lambda>e. case e of
              Ee_AggregateArgumentMustBeBareReference _ _ \<Rightarrow> Ee_AggregateArgumentMustBeBareReference name p
            | other \<Rightarrow> other) (expr_series tg run arg))"
    using expr_series_data [OF a(2), of tg] by (cases "expr_series tg run arg") (auto simp: data_error_def split: expr_error.splits)
  show ?thesis
    using i expr_series_unit [OF a(2), of tg] unfolding a(1) eval_aggregate_def list.case
    by (intro data_only_bind e data_only_if) auto
qed

lemma count_data: "count_unit run args p = Inr u \<Longrightarrow> data_only (eval_count run args p)"
  by (auto simp: count_unit_def eval_count_def bind_pair bind_const)

lemma data_only_foldl: "(\<And>acc x. data_only acc \<Longrightarrow> data_only (f acc x)) \<Longrightarrow> data_only acc \<Longrightarrow> data_only (foldl f acc xs)"
  by (induction xs arbitrary: acc) simp_all

lemma held_seconds_data: "data_only (held_seconds op v sr)"
  unfolding held_seconds_def by (rule data_only_foldl) (auto intro!: data_only_bind)

lemma bare_series_unit:
  "check_inner run True e = Inr u \<Longrightarrow> is_bare_series e \<Longrightarrow> series_unit run name p e = Inr u"
  by (cases e)
    (auto simp: is_bare_series_def series_unit_def check_ref_def aggregate_names_def bind_shape split: sum.splits ref_shape.split_asm)

lemma eval_ref_data:
  assumes "check_ref run path p bare = Inr u" "bare \<Longrightarrow> \<not> is_bare_series (E_Ref path p)"
  shows "data_only (eval_ref run path p False)"
proof -
  obtain name n where "classify_ref path p = Inr (Rs_EventEpoch name)" "event_epoch_seconds run name p = Inr n"
    using assms by (auto simp: check_ref_def bind_shape bind_const is_bare_series_def split: if_split_asm)
  then show ?thesis by (simp add: eval_ref_def)
qed

lemma eval_progress:
  assumes "check_inner run bare e = Inr u" "conditions_ok e" "bare \<Longrightarrow> is_scalar e"
  shows "data_only (eval_inner tg run False e)"
  using assms
proof (induction e arbitrary: u bare rule: measure_induct_rule [where f = size])
  case (less e)
  show ?case
  proof (cases e)
    case (E_Number v w p)
    then show ?thesis by simp
  next
    case (E_Neg f p)
    with less show ?thesis by (auto intro!: data_only_bind)
  next
    case (E_Binary op l r p)
    with less.prems obtain lu ru where c: "check_inner run bare l = Inr lu" "check_inner run bare r = Inr ru"
      "binary_unit op lu ru p = Inr u" by (auto simp: ebind_eq_Inr)
    have "data_only (eval_inner tg run False l)" "data_only (eval_inner tg run False r)"
      using less.IH [OF _ c(1)] less.IH [OF _ c(2)] less.prems(2, 3) E_Binary by simp_all
    then show ?thesis
      unfolding E_Binary eval_inner.simps
      by (intro data_only_bind) (use c eval_unit [OF c(1)] eval_unit [OF c(2)] in \<open>auto\<close>)
  next
    case (E_Compare op l r p)
    with less.prems obtain lu ru where c: "check_inner run bare l = Inr lu" "check_inner run bare r = Inr ru"
      by (auto simp: ebind_eq_Inr)
    have "data_only (eval_inner tg run False l)" "data_only (eval_inner tg run False r)"
      using less.IH [OF _ c(1)] less.IH [OF _ c(2)] less.prems(2, 3) E_Compare by simp_all
    then show ?thesis unfolding E_Compare eval_inner.simps by (intro data_only_bind) simp_all
  next
    case (E_At f time p)
    with less.prems(1) show ?thesis by (simp add: eval_at_data)
  next
    case (E_Ref path p)
    with less.prems eval_ref_data show ?thesis by simp
  next
    case (E_Call name args p)
    consider "name \<in> set aggregate_names" | "name = ''count''" | "name = ''duration''" | "name = ''range''"
      using less.prems(1) E_Call by (auto split: if_split_asm)
    then show ?thesis
    proof cases
      case 1
      then show ?thesis using less.prems(1) E_Call eval_aggregate_data by simp
    next
      case 2
      then show ?thesis using less.prems(1) E_Call count_data by (simp add: aggregate_names_def)
    next
      case 4
      then show ?thesis using less.prems E_Call by (simp add: aggregate_names_def split: if_split_asm)
    next
      case 3
      with less.prems(1) E_Call have "duration_unit run args p = Inr u" by (simp add: aggregate_names_def del: duration_unit.simps)
      then obtain op l r q lu where a: "args = [E_Compare op l r q]" "check_inner run True l = Inr lu" "check_inner run True r = Inr lu"
        by (auto simp: ebind_eq_Inr split: list.splits expr.splits if_split_asm)
      have k: "is_bare_series l" "is_scalar r" "conditions_ok r" using less.prems(2) 3 by (simp_all add: E_Call a(1))
      note s = bare_series_unit [OF a(2) k(1), of name p]
      have "data_only (eval_inner tg run False r)" using less.IH [OF _ a(3) k(3)] k(2) by (simp add: E_Call a(1))
      moreover note expr_series_data [OF s, of tg]
      ultimately have "data_only (eval_duration tg run args p)"
        unfolding eval_duration.simps a(1) list.case expr.case
        by (intro data_only_bind data_only_if)
          (use expr_series_unit [OF s, of tg] eval_unit [OF a(3)] held_seconds_data in \<open>auto\<close>)
      with 3 show ?thesis by (simp add: E_Call aggregate_names_def del: eval_duration.simps)
    qed
  qed
qed

section \<open>No panic on samples that fit\<close>

text \<open>Every sample has a number for each component of its trajectory's state space.\<close>

definition run_fits :: "run_products \<Rightarrow> bool" where
  "run_fits run \<longleftrightarrow>
     list_all (\<lambda>(i, tr).
       case state_space_for (tr_state_space_id tr) of
         Inl _ \<Rightarrow> True
       | Inr sp \<Rightarrow> list_all (\<lambda>s. length (ts_mean s) = length (sp_components sp)) (tr_samples tr)) (rp_trajectories run)"

definition safe :: "expr_error + 'a \<Rightarrow> bool" where
  "safe r \<longleftrightarrow> r \<noteq> Inl Ee_Panic"

lemma safe_simps [simp]: "safe (Inr x)" "safe (Inl e) \<longleftrightarrow> e \<noteq> Ee_Panic"
  by (simp_all add: safe_def)

lemma safe_bind: "safe r \<Longrightarrow> (\<And>x. r = Inr x \<Longrightarrow> safe (k x)) \<Longrightarrow> safe (ebind r k)"
  by (cases r) (simp_all add: safe_def)

lemma safe_if: "(b \<Longrightarrow> safe r) \<Longrightarrow> (\<not> b \<Longrightarrow> safe s) \<Longrightarrow> safe (if b then r else s)"
  by simp

lemma safe_ok_or: "e \<noteq> Ee_Panic \<Longrightarrow> safe (ok_or e x)"
  by (cases x) simp_all

lemma safe_map_err: "(\<And>e. r = Inl e \<Longrightarrow> f e \<noteq> Ee_Panic) \<Longrightarrow> safe (map_err f r)"
  by (cases r) simp_all

lemma safe_map_ok: "(\<And>x. x \<in> set xs \<Longrightarrow> safe (f x)) \<Longrightarrow> safe (map_ok f xs)"
  by (induction xs) (auto intro!: safe_bind)

lemma safe_index: "i < length xs \<Longrightarrow> safe (index_or_panic xs i)"
  by (simp add: index_or_panic_def)

lemma safe_foldl:
  "(\<And>acc x. x \<in> set xs \<Longrightarrow> safe acc \<Longrightarrow> safe (f acc x)) \<Longrightarrow> safe acc \<Longrightarrow> safe (foldl f acc xs)"
  by (induction xs arbitrary: acc) simp_all

lemma length_map_ok: "map_ok f xs = Inr ys \<Longrightarrow> length ys = length xs"
  by (induction xs arbitrary: ys) (auto simp: ebind_eq_Inr)

lemma entity_space_cases:
  assumes "entity_space run i p = Inr (tr, sp)"
  shows "(i, tr) \<in> set (rp_trajectories run)" "state_space_for (tr_state_space_id tr) = Inr sp"
  using assms bt_get_SomeD by (fastforce simp: entity_space_def ebind_eq_Inr)+

lemma entity_space_safe [simp]: "safe (entity_space run i p)"
  by (auto simp: entity_space_def intro!: safe_bind safe_ok_or safe_map_err)

lemma entity_unit_safe [simp]: "safe (entity_component_unit run i c p)"
  by (auto simp: entity_component_unit_def intro!: safe_bind safe_ok_or)

lemma entity_index_safe [simp]: "safe (entity_component_index run i c p)"
  by (auto simp: entity_component_index_def intro!: safe_bind safe_ok_or)

lemma entity_index_fits:
  assumes "run_fits run" "entity_component_index run i c p = Inr (tr, k)"
  obtains sp where "state_space_for (tr_state_space_id tr) = Inr sp" "k < length (sp_components sp)"
    "\<And>s. s \<in> set (tr_samples tr) \<Longrightarrow> length (ts_mean s) = length (sp_components sp)"
proof -
  from assms(2) obtain sp where e: "entity_space run i p = Inr (tr, sp)"
    and k: "position_of (\<lambda>sc. sc_label sc = c) (sp_components sp) = Some k"
    by (auto simp: entity_component_index_def ebind_eq_Inr)
  have "k < length (sp_components sp)" using k by (auto simp: position_of_def Let_def split: if_split_asm)
  with that entity_space_cases [OF e] assms(1) show ?thesis by (fastforce simp: run_fits_def list_all_iff)
qed

lemma in_pairs_of: "(a, b) \<in> set (pairs_of xs) \<Longrightarrow> a \<in> set xs \<and> b \<in> set xs"
  by (cases xs) (auto simp: pairs_of_def dest: set_zip_leftD set_zip_rightD)

lemma entity_at_safe:
  assumes "run_fits run"
  shows "safe (entity_component_at tg run i c t p)"
proof -
  have "safe (component_at tg run i t p tr k u)" if ix: "entity_component_index run i c p = Inr (tr, k)" for tr k u
  proof -
    obtain sp where sp: "state_space_for (tr_state_space_id tr) = Inr sp" "k < length (sp_components sp)"
        "\<And>s. s \<in> set (tr_samples tr) \<Longrightarrow> length (ts_mean s) = length (sp_components sp)"
      using entity_index_fits [OF assms ix] by blast
    show ?thesis
    proof (cases "find (\<lambda>s. ts_tai_ns s = t) (tr_samples tr)")
      case (Some s)
      then have "k < length (ts_mean s)" using find_mem [OF Some] sp by simp
      then show ?thesis using Some by (auto simp: component_at_def Let_def intro!: safe_bind safe_index)
    next
      case None
      show ?thesis
      proof (cases "find (\<lambda>w. ts_tai_ns (fst w) \<le> t \<and> t \<le> ts_tai_ns (snd w)) (pairs_of (tr_samples tr))")
        case nw: None
        then show ?thesis using None by (simp add: component_at_def Let_def)
      next
        case (Some w)
        obtain s0 s1 where w: "w = (s0, s1)" by (cases w)
        have m: "s0 \<in> set (tr_samples tr)" "s1 \<in> set (tr_samples tr)" "ts_tai_ns s0 \<le> t" "t \<le> ts_tai_ns s1"
          using find_mem [OF Some] by (auto simp: w dest: in_pairs_of)
        moreover have "ts_tai_ns s0 \<noteq> t" "ts_tai_ns s1 \<noteq> t" using None m(1, 2) by (auto simp: find_None_iff)
        ultimately have lt: "ts_tai_ns s0 < ts_tai_ns s1" by simp
        note safe_i = interpolate_safe [OF lt, of tg sp "ts_mean s0" "ts_mean s1" t]
        have "safe (map_err (interpolation_failed i p)
            (interpolate_by_state_space tg sp (ts_tai_ns s0) (ts_mean s0) (ts_tai_ns s1) (ts_mean s1) t))"
          using safe_i by (auto intro!: safe_map_err simp: interpolation_failed_def)
        then show ?thesis
          using None Some safe_i sp(1, 2) by (auto simp: component_at_def Let_def w intro!: safe_bind safe_index)
      qed
    qed
  qed
  then show ?thesis unfolding entity_component_at_def
    by (intro safe_bind entity_index_safe) (auto intro!: safe_bind)
qed

lemma entity_series_safe: "run_fits run \<Longrightarrow> safe (entity_component_series run i c p)"
  unfolding entity_component_series_def
  by (intro safe_bind) (auto intro!: safe_bind safe_map_ok safe_index elim!: entity_index_fits)

lemma entity_series_parallel: "entity_component_series run i c p = Inr sr \<Longrightarrow> length (sr_epochs sr) = length (sr_values sr)"
  by (auto simp: entity_component_series_def bind_pair ebind_eq_Inr dest: length_map_ok split: if_split_asm)

lemma entity_series_samples:
  assumes "entity_component_series run i c p = Inr sr"
  obtains tr sp where "entity_space run i p = Inr (tr, sp)" "sr_epochs sr = map ts_tai_ns (tr_samples tr)"
    "length (sr_values sr) = length (tr_samples tr)"
  using assms
  by (auto simp: entity_component_series_def entity_component_index_def bind_pair ebind_eq_Inr dest: length_map_ok split: if_split_asm)

lemma output_series_safe [simp]: "safe (output_series run i n p)"
  unfolding output_series_def by (intro safe_bind safe_ok_or safe_if) simp_all

lemma output_series_parallel: "output_series run i n p = Inr sr \<Longrightarrow> length (sr_epochs sr) = length (sr_values sr)"
  by (auto simp: output_series_def ebind_eq_Inr split: if_split_asm)

lemma output_at_safe: "safe (output_at run i n t p)"
  unfolding output_at_def
  by (intro safe_bind output_series_safe)
    (auto simp: position_of_def Let_def dest: output_series_parallel intro!: safe_bind safe_index split: option.split)

lemma position_at_safe: "run_fits run \<Longrightarrow> safe (position_at tg run i t p)"
  unfolding position_at_def by (intro safe_map_ok safe_bind entity_at_safe) simp_all

lemma range_at_safe: "run_fits run \<Longrightarrow> safe (range_at tg run a b t p)"
  unfolding range_at_def by (intro safe_bind position_at_safe) simp_all

lemma range_series_safe:
  assumes "run_fits run"
  shows "safe (range_series tg run a b p)"
proof -
  have "safe (if sr_values sx = [] then Inl (Ee_EmptyTrajectory (Inr a) p)
       else ebind (map_ok (\<lambda>(i, t).
              ebind (position_at tg run b t p) (\<lambda>v.
              ebind (index_or_panic (sr_values sx) i) (\<lambda>x.
              ebind (index_or_panic (sr_values sy) i) (\<lambda>y.
              ebind (index_or_panic (sr_values sz) i) (\<lambda>z.
                Inr (distance [x, y, z] v))))))
            (enumerate 0 (sr_epochs sx)))
         (\<lambda>vs. Inr \<lparr>sr_epochs = sr_epochs sx, sr_values = vs, sr_unit = U_Meter\<rparr>))"
    if "entity_component_series run a cx p = Inr sx" "entity_component_series run a cy p = Inr sy"
      "entity_component_series run a cz p = Inr sz" for cx cy cz sx sy sz
  proof -
    have n: "length (sr_values sx) = length (sr_epochs sx)" "length (sr_values sy) = length (sr_epochs sx)"
      "length (sr_values sz) = length (sr_epochs sx)"
      using that by (auto elim!: entity_series_samples)
    have "safe (case it of (i, t) \<Rightarrow>
              ebind (position_at tg run b t p) (\<lambda>v.
              ebind (index_or_panic (sr_values sx) i) (\<lambda>x.
              ebind (index_or_panic (sr_values sy) i) (\<lambda>y.
              ebind (index_or_panic (sr_values sz) i) (\<lambda>z. Inr (distance [x, y, z] v))))))"
      if "it \<in> set (enumerate 0 (sr_epochs sx))" for it
    proof (cases it)
      case (Pair i t)
      with that have "i < length (sr_epochs sx)" by (simp add: in_set_enumerate_eq)
      with n have "safe (index_or_panic (sr_values sx) i)" "safe (index_or_panic (sr_values sy) i)"
        "safe (index_or_panic (sr_values sz) i)" by (simp_all add: safe_index)
      then show ?thesis unfolding Pair prod.case
        by (intro safe_bind position_at_safe [OF assms]) simp_all
    qed
    then show ?thesis by (intro safe_if safe_bind safe_map_ok) simp_all
  qed
  then show ?thesis unfolding range_series_def
    by (intro safe_bind entity_series_safe [OF assms])
qed

lemma range_series_parallel: "range_series tg run a b p = Inr sr \<Longrightarrow> length (sr_epochs sr) = length (sr_values sr)"
  by (auto simp: range_series_def ebind_eq_Inr dest: length_map_ok split: if_split_asm)

lemma classify_ref_safe [simp]: "safe (classify_ref path p)"
  by (auto simp: classify_ref_def Let_def split: list.split)

lemma range_ids_safe [simp]: "safe (range_entity_ids args p)"
proof -
  have "safe (range_entity_id e)" for e by (auto simp: range_entity_id_def split: expr.split list.split)
  then show ?thesis by (auto simp: range_entity_ids_def split: list.split intro!: safe_bind)
qed

lemma event_safe [simp]: "safe (event_epoch_tai_ns run name p)" "safe (event_epoch_seconds run name p)"
proof -
  show "safe (event_epoch_tai_ns run name p)" by (auto simp: event_epoch_tai_ns_def split: list.split)
  then show "safe (event_epoch_seconds run name p)" by (auto simp: event_epoch_seconds_def intro!: safe_bind)
qed

lemma resolve_time_safe [simp]: "safe (resolve_time run time p)"
  by (cases time) (auto simp: resolve_time_def intro!: safe_bind)

lemma count_safe: "safe (eval_count run args p)"
proof -
  have "safe (count_kind args p)"
    by (auto simp: count_kind_def Let_def split: list.split expr.split ref_shape.split intro!: safe_bind)
  moreover have "safe (count_events_by_kind run k q)" for k q
    by (auto simp: count_events_by_kind_def intro!: safe_bind safe_ok_or)
  ultimately show ?thesis unfolding eval_count_def by (auto intro!: safe_bind)
qed

lemma unit_safe [simp]: "safe (mul_div_unit op l r p)" "safe (binary_unit b l r p)"
proof -
  show m: "safe (mul_div_unit op l r p)" for op by (auto simp: mul_div_unit_def Let_def split: option.split intro!: safe_ok_or)
  show "safe (binary_unit b l r p)" by (cases b) (simp_all add: binary_unit_def m, simp_all add: add_sub_unit_def)
qed

lemma expr_series_safe:
  assumes "run_fits run"
  shows "safe (expr_series tg run e)" "expr_series tg run e = Inr sr \<Longrightarrow> length (sr_epochs sr) = length (sr_values sr)"
proof -
  show "safe (expr_series tg run e)"
    using entity_series_safe [OF assms] range_series_safe [OF assms]
    by (auto simp: expr_series_def Let_def split: expr.split ref_shape.split intro!: safe_bind)
  show "expr_series tg run e = Inr sr \<Longrightarrow> length (sr_epochs sr) = length (sr_values sr)"
    using entity_series_parallel output_series_parallel range_series_parallel
    by (auto simp: expr_series_def Let_def bind_shape bind_pair split: expr.split_asm if_split_asm)
qed

lemma eval_aggregate_safe:
  assumes "run_fits run"
  shows "safe (eval_aggregate tg run name args p)"
proof -
  have "safe (map_err (\<lambda>e. case e of
              Ee_AggregateArgumentMustBeBareReference _ _ \<Rightarrow> Ee_AggregateArgumentMustBeBareReference name p
            | other \<Rightarrow> other) (expr_series tg run arg))" for arg
    using expr_series_safe(1) [OF assms, of tg arg]
    by (intro safe_map_err) (auto split: expr_error.splits)
  then show ?thesis
    by (auto simp: eval_aggregate_def split: list.split intro!: safe_bind)
qed

lemma eval_at_safe: "run_fits run \<Longrightarrow> safe (eval_at tg run e time p)"
  unfolding eval_at_def tagged_def
  by (intro safe_bind resolve_time_safe)
    (auto intro!: safe_bind entity_at_safe output_at_safe range_at_safe split: expr.split ref_shape.split)

lemma held_seconds_safe: "length (sr_epochs sr) = length (sr_values sr) \<Longrightarrow> safe (held_seconds op v sr)"
  unfolding held_seconds_def by (rule safe_foldl) (auto intro!: safe_bind safe_index)

lemma eval_safe:
  assumes "run_fits run"
  shows "safe (eval_inner tg run bare e)"
proof (induction e arbitrary: bare rule: measure_induct_rule [where f = size])
  case (less e)
  show ?case
  proof (cases e)
    case (E_Call name args p)
    have "safe (eval_duration tg run args p)"
    proof (cases "\<exists>op l r q. args = [E_Compare op l r q]")
      case True
      then obtain op l r q where a: "args = [E_Compare op l r q]" by blast
      have "safe (eval_inner tg run False r)" using less [of r] by (simp add: E_Call a)
      then show ?thesis unfolding eval_duration.simps a list.case expr.case
        by (intro safe_bind safe_if) (use expr_series_safe [OF assms] held_seconds_safe in \<open>auto\<close>)
    next
      case False
      then show ?thesis by (auto split: list.split expr.split)
    qed
    then show ?thesis
      using eval_aggregate_safe [OF assms] count_safe by (auto simp: E_Call simp del: eval_duration.simps)
  next
    case (E_Binary op l r p)
    then show ?thesis using less by (auto intro!: safe_bind)
  next
    case (E_Compare op l r p)
    then show ?thesis using less by (auto intro!: safe_bind)
  next
    case (E_Neg f p)
    then show ?thesis using less by (auto intro!: safe_bind)
  next
    case (E_Ref path p)
    then show ?thesis by (auto simp: eval_ref_def split: ref_shape.split intro!: safe_bind)
  next
    case (E_At f time p)
    then show ?thesis using eval_at_safe [OF assms] by simp
  qed simp
qed

text \<open>
  C15: Type soundness of objectives: when the unit check accepts an expression whose \<open>duration\<close> conditions
  compare a bare series with a scalar, evaluating it gives a number of the checked unit, or fails
  for the data of the run (an empty run or series, a time outside it, an interpolation between bad
  samples); on a run whose samples fit their state spaces it never panics.
\<close>

theorem checked_expressions_evaluate:
  assumes "check_expr e run = Inr u" "conditions_ok e" "run_fits run"
  shows "(\<exists>v. evaluate tg e run = Inr v \<and> ev_unit v = u) \<or>
    (\<exists>err. evaluate tg e run = Inl err \<and> data_error err \<and> err \<noteq> Ee_Panic)"
proof (cases "evaluate tg e run")
  case (Inl err)
  then show ?thesis
    using eval_progress [of run False e u tg] eval_safe [OF assms(3), of tg False e] assms(1, 2)
    by (simp add: check_expr_def evaluate_def)
next
  case (Inr v)
  then show ?thesis using eval_unit [of run False e u tg False v] assms(1) by (simp add: check_expr_def evaluate_def)
qed

section \<open>The check looks at the shape of a run alone\<close>

text \<open>What is declared before a run: state-space ids, event names, output units.\<close>

definition shape_of :: "run_products \<Rightarrow> (string \<times> string) list \<times> string list \<times> ((string \<times> string) \<times> pb_unit) list" where
  "shape_of run =
     (map (\<lambda>(i, tr). (i, tr_state_space_id tr)) (rp_trajectories run), map re_name (rp_events run),
      map (\<lambda>(k, sr). (k, sr_unit sr)) (rp_outputs run))"

lemma bt_get_map: "bt_get (map (\<lambda>(k, v). (k, f v)) m) k = map_option f (bt_get m k)"
  by (induction m) (auto simp: bt_get_def)

lemma entity_unit_shape:
  assumes "shape_of run = shape_of run'"
  shows "entity_component_unit run i c p = entity_component_unit run' i c p"
proof -
  have unit: "entity_component_unit r i c p =
      ebind (ok_or (Ee_UnknownEntity i p) (map_option tr_state_space_id (bt_get (rp_trajectories r) i))) (\<lambda>s.
      ebind (map_err (\<lambda>_. Ee_UnknownEntity i p) (state_space_for s)) (\<lambda>sp.
      ok_or (Ee_UnknownComponent i c p)
       (map_option component_unit (find (\<lambda>sc. sc_label sc = c) (sp_components sp)))))" for r
    by (cases "bt_get (rp_trajectories r) i"; simp add: entity_component_unit_def entity_space_def;
        cases "state_space_for (tr_state_space_id (the (bt_get (rp_trajectories r) i)))"; simp)
  have "map_option tr_state_space_id (bt_get (rp_trajectories run) i) = map_option tr_state_space_id (bt_get (rp_trajectories run') i)"
    using assms unfolding shape_of_def by (metis bt_get_map fst_conv)
  then show ?thesis unfolding unit by simp
qed

lemma output_unit_shape: "shape_of run = shape_of run' \<Longrightarrow> output_unit run i n p = output_unit run' i n p"
  unfolding output_unit_def shape_of_def by (metis bt_get_map snd_conv)

lemma range_unit_shape:
  assumes "shape_of run = shape_of run'"
  shows "range_unit run a b p = range_unit run' a b p"
proof -
  have "check_meters run p ics = check_meters run' p ics" for ics
    by (induction ics) (simp_all add: entity_unit_shape [OF assms] cong: if_cong)
  then show ?thesis by (simp add: range_unit_def)
qed

lemma filter_names: "filter (\<lambda>n. n = name) (map re_name es) = map re_name (filter (\<lambda>e. re_name e = name) es)"
  by (induction es) simp_all

lemma event_shape:
  assumes "shape_of run = shape_of run'"
  shows "ebind (event_epoch_seconds run name p) (\<lambda>_. k) = ebind (event_epoch_seconds run' name p) (\<lambda>_. k)"
proof -
  have "ebind (event_epoch_seconds r name p) (\<lambda>_. k) =
      (case filter (\<lambda>n. n = name) (map re_name (rp_events r)) of
         [] \<Rightarrow> Inl (Ee_UnknownEventName name p) | [_] \<Rightarrow> k | _ \<Rightarrow> Inl (Ee_AmbiguousEventName name p))" for r
  proof -
    define fs where "fs = filter (\<lambda>e. re_name e = name) (rp_events r)"
    have "filter (\<lambda>n. n = name) (map re_name (rp_events r)) = map re_name fs" by (simp only: fs_def filter_names)
    then show ?thesis
      unfolding event_epoch_seconds_def event_epoch_tai_ns_def fs_def [symmetric]
      by (cases fs; cases "tl fs") simp_all
  qed
  then show ?thesis using assms by (simp add: shape_of_def)
qed

text \<open>Functions of a reference agree when they agree on each shape.\<close>

lemma ref_cong:
  "(\<And>i c. A i c = A' i c) \<Longrightarrow> (\<And>i n. B i n = B' i n) \<Longrightarrow> (\<And>n. C n = C' n) \<Longrightarrow> (\<And>k. D k = D' k) \<Longrightarrow>
   ebind r (\<lambda>s. case s of Rs_Entity i c \<Rightarrow> A i c | Rs_Output i n \<Rightarrow> B i n | Rs_EventEpoch n \<Rightarrow> C n | Rs_EventKindOnly k \<Rightarrow> D k) =
   ebind r (\<lambda>s. case s of Rs_Entity i c \<Rightarrow> A' i c | Rs_Output i n \<Rightarrow> B' i n | Rs_EventEpoch n \<Rightarrow> C' n | Rs_EventKindOnly k \<Rightarrow> D' k)"
  by presburger

lemma series_unit_shape:
  assumes "shape_of run = shape_of run'"
  shows "series_unit run name p arg = series_unit run' name p arg"
proof (cases arg)
  case (E_Ref path q)
  show ?thesis unfolding E_Ref series_unit_def expr.case
    by (rule ref_cong) (simp_all add: entity_unit_shape [OF assms] output_unit_shape [OF assms])
qed (simp_all add: series_unit_def range_unit_shape [OF assms])

lemma check_at_shape:
  assumes "shape_of run = shape_of run'"
  shows "check_at run e time p = check_at run' e time p"
proof -
  have "check_time run time = check_time run' time"
    by (cases time) (simp_all add: check_time_def event_shape [OF assms])
  moreover have "(case e of
         E_Ref path q \<Rightarrow>
           ebind (classify_ref path q) (\<lambda>s. case s of
             Rs_Entity i c \<Rightarrow> entity_component_unit run i c q
           | Rs_Output i n \<Rightarrow> output_unit run i n q
           | _ \<Rightarrow> Inl (Ee_UnknownReferenceShape (join ''.'' path) q))
       | E_Call name args q \<Rightarrow>
           if name = ''range'' then ebind (range_entity_ids args q) (\<lambda>(a, b). range_unit run a b q)
           else Inl (Ee_AtNotApplicable p)
       | _ \<Rightarrow> Inl (Ee_AtNotApplicable p)) =
      (case e of
         E_Ref path q \<Rightarrow>
           ebind (classify_ref path q) (\<lambda>s. case s of
             Rs_Entity i c \<Rightarrow> entity_component_unit run' i c q
           | Rs_Output i n \<Rightarrow> output_unit run' i n q
           | _ \<Rightarrow> Inl (Ee_UnknownReferenceShape (join ''.'' path) q))
       | E_Call name args q \<Rightarrow>
           if name = ''range'' then ebind (range_entity_ids args q) (\<lambda>(a, b). range_unit run' a b q)
           else Inl (Ee_AtNotApplicable p)
       | _ \<Rightarrow> Inl (Ee_AtNotApplicable p))"
  proof (cases e)
    case (E_Ref path q)
    show ?thesis unfolding E_Ref expr.case
      by (rule ref_cong) (simp_all add: entity_unit_shape [OF assms] output_unit_shape [OF assms])
  qed (simp_all add: range_unit_shape [OF assms])
  ultimately show ?thesis by (simp add: check_at_def)
qed

lemma count_shape: "count_unit run args p = count_unit run' args p"
proof -
  have "ebind (count_events_by_kind r k q) (\<lambda>_. Inr U_Dimensionless) =
      ebind (ok_or (Ee_UnknownEventKind k q) (event_kind_from_name (''EVENT_KIND_'' @ map ascii_upper k))) (\<lambda>_. Inr U_Dimensionless)" for r k q
    by (cases "event_kind_from_name (''EVENT_KIND_'' @ map ascii_upper k)") (simp_all add: count_events_by_kind_def)
  then show ?thesis unfolding count_unit_def by simp
qed

lemma check_inner_shape:
  assumes "shape_of run = shape_of run'"
  shows "check_inner run bare e = check_inner run' bare e"
proof (induction e arbitrary: bare rule: measure_induct_rule [where f = size])
  case (less e)
  show ?case
  proof (cases e)
    case (E_Call name args p)
    have "duration_unit run args p = duration_unit run' args p"
    proof (cases "\<exists>op l r q. args = [E_Compare op l r q]")
      case True
      then obtain op l r q where a: "args = [E_Compare op l r q]" by blast
      show ?thesis unfolding a duration_unit.simps list.case expr.case using less [of "E_Compare op l r q"]
        by (simp add: E_Call a del: check_inner.simps)
    next
      case False
      then show ?thesis by (auto split: list.split expr.split)
    qed
    moreover have "aggregate_unit run name args p = aggregate_unit run' name args p"
      by (auto simp: aggregate_unit_def series_unit_shape [OF assms] split: list.split)
    ultimately show ?thesis
      by (simp add: E_Call range_unit_shape [OF assms] count_shape [of run _ _ run'] del: duration_unit.simps)
  next
    case (E_At f time p)
    then show ?thesis by (simp add: check_at_shape [OF assms])
  next
    case (E_Ref path p)
    have "check_ref run path p bare = check_ref run' path p bare" unfolding check_ref_def
      by (rule ref_cong) (simp_all add: entity_unit_shape [OF assms] output_unit_shape [OF assms] event_shape [OF assms])
    then show ?thesis by (simp add: E_Ref)
  qed (use less in simp_all)
qed

text \<open>
  The unit check never looks at samples: two runs that declare the same state spaces, event names and
  output units check alike, so the check made at load, on empty trajectories, is the check of the
  finished run.
\<close>

theorem check_ignores_samples:
  assumes "shape_of run = shape_of run'"
  shows "check_expr e run = check_expr e run'"
  unfolding check_expr_def by (rule check_inner_shape [OF assms])

section \<open>Extremes and scores\<close>

lemma f_le_trans: "f_le u v \<Longrightarrow> f_le v w \<Longrightarrow> f_le u w"
  by (cases u; cases v; cases w) (auto simp: f_rat_def split: if_split_asm)

lemma f_le_refl: "v \<noteq> FNan \<Longrightarrow> f_le v v"
  by (cases v) (simp_all add: f_rat_def)

lemma f_not_lt: "v \<noteq> FNan \<Longrightarrow> w \<noteq> FNan \<Longrightarrow> \<not> f_lt v w \<Longrightarrow> f_le w v"
  by (cases v; cases w) (auto simp: f_rat_def)

lemma f_lt_le: "f_lt v w \<Longrightarrow> f_le v w"
  by (cases v; cases w) (auto simp: f_rat_def)

lemma f_min_facts:
  assumes "a \<noteq> FNan"
  shows "f_min a v \<noteq> FNan" "f_le (f_min a v) a" "v \<noteq> FNan \<Longrightarrow> f_le (f_min a v) v" "f_min a v = a \<or> f_min a v = v"
  using assms f_le_refl f_not_lt [of v a] f_lt_le [of v a] by (auto simp: f_min_def)

lemma f_max_facts:
  assumes "a \<noteq> FNan"
  shows "f_max a v \<noteq> FNan" "f_le a (f_max a v)" "v \<noteq> FNan \<Longrightarrow> f_le v (f_max a v)" "f_max a v = a \<or> f_max a v = v"
  using assms f_le_refl f_not_lt [of a v] f_lt_le [of a v] by (auto simp: f_max_def)

lemma fold_min:
  "a \<noteq> FNan \<Longrightarrow>
   foldl f_min a vs \<noteq> FNan \<and> f_le (foldl f_min a vs) a \<and> foldl f_min a vs \<in> insert a (set vs) \<and>
   (\<forall>v\<in>set vs. v \<noteq> FNan \<longrightarrow> f_le (foldl f_min a vs) v)"
proof (induction vs arbitrary: a)
  case (Cons v vs)
  note f = f_min_facts [OF Cons.prems, of v]
  from Cons.IH [OF f(1)] f show ?case by (auto intro: f_le_trans)
qed (simp add: f_le_refl)

lemma fold_max:
  "a \<noteq> FNan \<Longrightarrow>
   foldl f_max a vs \<noteq> FNan \<and> f_le a (foldl f_max a vs) \<and> foldl f_max a vs \<in> insert a (set vs) \<and>
   (\<forall>v\<in>set vs. v \<noteq> FNan \<longrightarrow> f_le v (foldl f_max a vs))"
proof (induction vs arbitrary: a)
  case (Cons v vs)
  note f = f_max_facts [OF Cons.prems, of v]
  from Cons.IH [OF f(1)] f show ?case by (auto intro: f_le_trans)
qed (simp add: f_le_refl)

text \<open>
  The minimum and maximum of a series are never a NaN, bound every sample that is a number, and are
  samples, or the infinity that starts the fold when no sample is a number.
\<close>

theorem extremes_bound_the_series:
  assumes "v \<in> set (sr_values sr)" "v \<noteq> FNan"
  shows "f_le (aggregate_number ''min'' sr) v \<and> f_le v (aggregate_number ''max'' sr) \<and>
    aggregate_number ''min'' sr \<in> insert (FInf False) (set (sr_values sr)) \<and>
    aggregate_number ''max'' sr \<in> insert (FInf True) (set (sr_values sr))"
  using fold_min [of "FInf False" "sr_values sr"] fold_max [of "FInf True" "sr_values sr"] assms
  by (simp add: aggregate_number_def Let_def)

lemma f_le_numbers: "f_le v w \<Longrightarrow> v \<noteq> FNan \<and> w \<noteq> FNan"
  by (cases v; cases w) auto

lemma f_sub_number: "f_abs (f_sub v w) \<noteq> FNan \<Longrightarrow> v \<noteq> FNan \<and> w \<noteq> FNan"
  by (cases v; cases w) (auto simp: f_sub_def f_neg_def f_abs_def)

text \<open>
  C17: Scoring: an objective that gets a score was a text of the grammar whose checked unit is the unit
  of the score and, where one is declared, the declared unit; it passes only when the value, the
  target and the tolerance are numbers and the difference is within the tolerance.
\<close>

theorem scored_objectives:
  assumes "evaluate_objective tg ob run = Inr r"
  shows "(\<exists>ts e. lex (ob_expression ob) = Inr ts \<and> g_comparison (butlast ts) e \<and> check_expr e run = Inr (or_unit r)) \<and>
    (declared_unit (ob_unit ob) = U_Unspecified \<or> declared_unit (ob_unit ob) = or_unit r) \<and>
    (or_pass r \<longleftrightarrow> or_value r \<noteq> FNan \<and> ob_target ob \<noteq> FNan \<and> ob_tolerance ob \<noteq> FNan \<and>
      f_le (f_abs (f_sub (or_value r) (ob_target ob))) (ob_tolerance ob))"
proof -
  from assms obtain e u v where e: "parse (ob_expression ob) = Inr e" "check_expr e run = Inr u" "evaluate tg e run = Inr v"
    and d: "declared_unit (ob_unit ob) = U_Unspecified \<or> declared_unit (ob_unit ob) = u"
    and r: "r = \<lparr>or_value = ev_number v, or_unit = ev_unit v, or_target = ob_target ob, or_tolerance = ob_tolerance ob,
            or_pass = f_le (f_abs (f_sub (ev_number v) (ob_target ob))) (ob_tolerance ob)\<rparr>"
    by (auto simp: evaluate_objective_def parse_check_eval_def ebind_eq_Inr split: if_split_asm)
  have "ev_unit v = u" using eval_unit e(2, 3) by (auto simp: check_expr_def evaluate_def)
  moreover obtain ts where "lex (ob_expression ob) = Inr ts" "g_comparison (butlast ts) e"
    using e(1) parse_tokens_exact [OF lex_from_well_lexed [of 0 "ob_expression ob"]]
    by (auto simp: parse_def ebind_eq_Inr lex_def)
  moreover have "f_le (f_abs (f_sub (ev_number v) (ob_target ob))) (ob_tolerance ob) \<Longrightarrow>
      ev_number v \<noteq> FNan \<and> ob_target ob \<noteq> FNan \<and> ob_tolerance ob \<noteq> FNan"
    using f_le_numbers f_sub_number by blast
  ultimately show ?thesis using d e(2) by (auto simp: r)
qed

section \<open>Where the check and the evaluator differ\<close>

text \<open>
  The check lets both sides of a \<open>duration\<close> condition be any expression, the evaluator wants a bare series
  on the left: a condition on two numbers is accepted at load and refused after the run.
\<close>

definition number_condition :: expr where
  "number_condition = E_Call ''duration'' [E_Compare Co_Lt (E_Number (FZero False) U_Meter 9) (E_Number (FZero False) U_Meter 15) 13] 0"

theorem duration_checked_but_refused:
  "check_expr number_condition run = Inr U_Second \<and>
   evaluate tg number_condition run = Inl (Ee_AggregateArgumentMustBeBareReference ''(internal)'' 9)"
  by (simp add: number_condition_def check_expr_def evaluate_def aggregate_names_def expr_series_def)

text \<open>
  An entity is read through the state space that the registry has for its id, not through the one its
  system declares: a trajectory with fewer components than the registry's panics.
\<close>

definition short_trajectory :: trajectory where
  "short_trajectory =
     \<lparr>tr_id = ''c-trajectory'', tr_entity_id = ''c'', tr_state_space_id = ''native.controller.scalar6'', tr_frame_id = [],
      tr_samples = [\<lparr>ts_tai_ns = 0, ts_mean = [FZero False], ts_cov = [], ts_kind = Sk_Native\<rparr>], tr_segments = []\<rparr>"

theorem redefined_space_panics:
  "evaluate tg (E_At (E_Ref [''entity'', ''c'', ''state_2''] 0) Tm_Start 18) (run_products_new 0 1 [(''c'', short_trajectory)] []) =
     Inl Ee_Panic"
proof -
  have sp: "state_space_for ''native.controller.scalar6'' = Inr (native_controller_scalar6 ''native.controller.scalar6'')"
    by code_simp
  have ix: "position_of (\<lambda>sc. sc_label sc = ''state_2'') (sp_components (native_controller_scalar6 ''native.controller.scalar6'')) = Some 1"
    by code_simp
  have u: "map_option component_unit (find (\<lambda>sc. sc_label sc = ''state_2'') (sp_components (native_controller_scalar6 ''native.controller.scalar6''))) = Some U_Dimensionless"
    by code_simp
  show ?thesis
    by (simp add: evaluate_def eval_at_def resolve_time_def run_products_new_def classify_ref_def tagged_def entity_component_at_def
        entity_component_index_def entity_component_unit_def entity_space_def bt_get_def short_trajectory_def sp ix u
        component_at_def index_or_panic_def del: map_option_eq_Some)
qed

section \<open>Witnesses\<close>

definition wit_trig :: trig where
  "wit_trig = \<lparr>tg_sin = \<lambda>x. x, tg_acos = \<lambda>x. x\<rparr>"

definition wit_track :: "string \<Rightarrow> trajectory" where
  "wit_track i =
     \<lparr>tr_id = i @ ''-trajectory'', tr_entity_id = i, tr_state_space_id = ''gmat.orbital.cartesian6'', tr_frame_id = [],
      tr_samples = map (\<lambda>t. \<lparr>ts_tai_ns = t, ts_mean = replicate 6 (FZero False), ts_cov = [], ts_kind = Sk_Native\<rparr>) [0, 1],
      tr_segments = []\<rparr>"

definition wit_products :: run_products where
  "wit_products = run_products_new 0 1 [(''a'', wit_track ''a''), (''b'', wit_track ''b'')] []"

definition wit_condition :: expr where
  "wit_condition =
     E_Call ''duration'' [E_Compare Co_Lt (E_Call ''range'' [E_Ref [''a''] 15, E_Ref [''b''] 18] 9) (E_Number (FNum 100) U_Meter 23) 21] 0"

theorem checked_expressions_evaluate_witness:
  "check_expr wit_condition wit_products = Inr U_Second \<and> conditions_ok wit_condition \<and> run_fits wit_products \<and>
   ((\<exists>v. evaluate wit_trig wit_condition wit_products = Inr v \<and> ev_unit v = U_Second) \<or>
    (\<exists>err. evaluate wit_trig wit_condition wit_products = Inl err \<and> data_error err \<and> err \<noteq> Ee_Panic))"
proof -
  have "check_expr wit_condition wit_products = Inr U_Second" "conditions_ok wit_condition" "run_fits wit_products"
    by code_simp+
  with checked_expressions_evaluate [of wit_condition wit_products U_Second wit_trig] show ?thesis by blast
qed

theorem check_ignores_samples_witness:
  "shape_of wit_products = shape_of (wit_products\<lparr>rp_trajectories := map (\<lambda>(i, tr). (i, tr\<lparr>tr_samples := []\<rparr>)) (rp_trajectories wit_products)\<rparr>) \<and>
   check_expr wit_condition wit_products =
     check_expr wit_condition (wit_products\<lparr>rp_trajectories := map (\<lambda>(i, tr). (i, tr\<lparr>tr_samples := []\<rparr>)) (rp_trajectories wit_products)\<rparr>)"
proof -
  have s: "shape_of wit_products = shape_of (wit_products\<lparr>rp_trajectories := map (\<lambda>(i, tr). (i, tr\<lparr>tr_samples := []\<rparr>)) (rp_trajectories wit_products)\<rparr>)"
    by (simp add: shape_of_def wit_products_def run_products_new_def)
  then show ?thesis using check_ignores_samples [OF s] by blast
qed

definition wit_objective :: objective where
  "wit_objective = \<lparr>ob_expression = ''-0 m'', ob_unit = 2, ob_target = FZero False, ob_tolerance = FZero False\<rparr>"

definition wit_score :: objective_result where
  "wit_score = \<lparr>or_value = FZero True, or_unit = U_Meter, or_target = FZero False, or_tolerance = FZero False, or_pass = True\<rparr>"

theorem scored_objectives_witness:
  "evaluate_objective wit_trig wit_objective wit_products = Inr wit_score \<and>
   (\<exists>ts e. lex (ob_expression wit_objective) = Inr ts \<and> g_comparison (butlast ts) e \<and>
      check_expr e wit_products = Inr (or_unit wit_score)) \<and>
   declared_unit (ob_unit wit_objective) = or_unit wit_score"
proof -
  have s: "evaluate_objective wit_trig wit_objective wit_products = Inr wit_score" by code_simp
  have "declared_unit (ob_unit wit_objective) = U_Meter" "or_unit wit_score = U_Meter" by code_simp+
  with s scored_objectives [OF s] show ?thesis by simp
qed

text \<open>
  A unit is not read before \<open>*\<close> or \<open>/\<close>: \<open>0 m*2\<close> is the number \<open>0\<close> and then a name the parser does not expect.
\<close>

theorem unit_before_star: "parse ''0 m*2'' = Inl (Ee_TrailingInput 2 (Tk_Ident ''m''))"
  by code_simp

end
