(* ===== verification/Label_Ladder.thy ===== *)
theory Label_Ladder
  imports BTree
begin

text \<open>
  The clearance ladder the services share: \<open>av-label/src/lib.rs\<close>. A marking's rank is its first place
  on the ladder; a marking that is not on it has no rank and is refused.
\<close>

datatype label_side = Caller | Subject

datatype label_refusal =
    MarkingNotOnLadder label_side string
  | OverClearance string string

record ladder =
  ld_markings :: "string list"

fun place :: "'a \<Rightarrow> 'a list \<Rightarrow> nat option" where
  "place x [] = None"
| "place x (y # ys) = (if y = x then Some 0 else map_option Suc (place x ys))"

definition ladder_rank :: "ladder \<Rightarrow> string \<Rightarrow> nat option" where
  "ladder_rank ld m = place m (ld_markings ld)"

definition ladder_classify :: "ladder \<Rightarrow> string \<Rightarrow> label \<Rightarrow> label_refusal option" where
  "ladder_classify ld caller_clearance subject_label =
     (case ladder_rank ld caller_clearance of
        None \<Rightarrow> Some (MarkingNotOnLadder Caller caller_clearance)
      | Some caller_rank \<Rightarrow>
          (case ladder_rank ld (marking subject_label) of
             None \<Rightarrow> Some (MarkingNotOnLadder Subject (marking subject_label))
           | Some subject_rank \<Rightarrow>
               if caller_rank < subject_rank then Some (OverClearance (marking subject_label) caller_clearance)
               else None))"

definition markings_at_or_below :: "ladder \<Rightarrow> string \<Rightarrow> label_refusal + string list" where
  "markings_at_or_below ld caller_clearance =
     ebind (ok_or (MarkingNotOnLadder Caller caller_clearance) (ladder_rank ld caller_clearance)) (\<lambda>rank.
       Inr (take (Suc rank) (ld_markings ld)))"

type_synonym group_clearances = "(string, string) btree"

datatype group_outcome = Go_Marking string | Go_NoneMapped | Go_NotOnLadder string

fun best_clearance :: "group_clearances \<Rightarrow> ladder \<Rightarrow> (nat \<times> string) option \<Rightarrow> string list \<Rightarrow> group_outcome" where
  "best_clearance gm ld best [] = (case best of Some (_, m) \<Rightarrow> Go_Marking m | None \<Rightarrow> Go_NoneMapped)"
| "best_clearance gm ld best (g # gs) =
     (case bt_get gm g of
        None \<Rightarrow> best_clearance gm ld best gs
      | Some m \<Rightarrow>
          (case ladder_rank ld m of
             None \<Rightarrow> Go_NotOnLadder m
           | Some rank \<Rightarrow>
               best_clearance gm ld
                 (if (case best of Some (r, _) \<Rightarrow> r < rank | None \<Rightarrow> True) then Some (rank, m) else best) gs))"

definition clearance_for :: "group_clearances \<Rightarrow> string list \<Rightarrow> ladder \<Rightarrow> group_outcome" where
  "clearance_for gm groups ld = best_clearance gm ld None groups"

section \<open>Lemmas\<close>

lemma place_Some: "place x xs = Some i \<longleftrightarrow> i < length xs \<and> xs ! i = x \<and> x \<notin> set (take i xs)"
proof (induction xs arbitrary: i)
  case (Cons y ys)
  then show ?case by (cases i) auto
qed simp

lemma place_None: "place x xs = None \<longleftrightarrow> x \<notin> set xs"
  by (induction xs) auto

lemma place_in_take: "x \<in> set (take n xs) \<longleftrightarrow> (\<exists>i. place x xs = Some i \<and> i < n)"
proof (induction xs arbitrary: n)
  case (Cons y ys)
  then show ?case by (cases n) (auto simp: less_Suc_eq_0_disj)
qed simp

text \<open>
  The markings a caller's query is limited to are exactly those of the labels that are not refused to it.
\<close>

theorem markings_are_the_unrefused:
  "markings_at_or_below ld c = Inr ms \<Longrightarrow> m \<in> set ms \<longleftrightarrow> ladder_classify ld c \<lparr>marking = m, caveats = cs\<rparr> = None"
  by (auto simp: markings_at_or_below_def ladder_classify_def ebind_eq_Inr ladder_rank_def place_in_take less_Suc_eq_le
      split: option.splits)

text \<open>What the search may answer from \<open>best\<close> on.\<close>

definition search_ok :: "group_clearances \<Rightarrow> ladder \<Rightarrow> (nat \<times> string) option \<Rightarrow> string list \<Rightarrow> group_outcome \<Rightarrow> bool" where
  "search_ok gm ld best gs res \<longleftrightarrow>
     (case res of
        Go_Marking m \<Rightarrow> (\<exists>r. ladder_rank ld m = Some r \<and> ((\<exists>g\<in>set gs. bt_get gm g = Some m) \<or> best = Some (r, m)) \<and>
          (\<forall>g\<in>set gs. \<forall>m'. bt_get gm g = Some m' \<longrightarrow> (\<exists>r'\<le>r. ladder_rank ld m' = Some r')) \<and>
          (\<forall>r' m'. best = Some (r', m') \<longrightarrow> r' \<le> r))
      | Go_NoneMapped \<Rightarrow> best = None \<and> (\<forall>g\<in>set gs. bt_get gm g = None)
      | Go_NotOnLadder m \<Rightarrow> ladder_rank ld m = None \<and> (\<exists>g\<in>set gs. bt_get gm g = Some m))"

lemma search_ok_better:
  assumes "search_ok gm ld best' gs res" "bt_get gm g = Some m" "ladder_rank ld m = Some rank"
    and "best' = (if (case best of Some (r, _) \<Rightarrow> r < rank | None \<Rightarrow> True) then Some (rank, m) else best)"
  shows "search_ok gm ld best (g # gs) res"
proof -
  obtain r1 m1 where m1: "best' = Some (r1, m1)" "rank \<le> r1" "\<And>r' m'. best = Some (r', m') \<Longrightarrow> r' \<le> r1"
    "best' = best \<or> (r1, m1) = (rank, m)"
    using assms(4) by (cases best) (auto split: if_splits prod.splits)
  show ?thesis
  proof (cases res)
    case (Go_Marking x)
    then obtain r2 where r2: "ladder_rank ld x = Some r2" "(\<exists>g\<in>set gs. bt_get gm g = Some x) \<or> best' = Some (r2, x)"
      "\<forall>g\<in>set gs. \<forall>m'. bt_get gm g = Some m' \<longrightarrow> (\<exists>r'\<le>r2. ladder_rank ld m' = Some r')" "r1 \<le> r2"
      using assms(1) m1(1) by (auto simp: search_ok_def)
    have "(\<exists>g\<in>set (g # gs). bt_get gm g = Some x) \<or> best = Some (r2, x)" using r2(2) m1(1,4) assms(2) by auto
    moreover have "\<exists>r'\<le>r2. ladder_rank ld m = Some r'" using assms(3) m1(2) r2(4) by auto
    moreover have "r' \<le> r2" if "best = Some (r', m')" for r' m' using m1(3) [OF that] r2(4) by simp
    ultimately show ?thesis using r2(1,3) assms(2) Go_Marking by (auto simp: search_ok_def)
  qed (use assms(1) m1(1) in \<open>auto simp: search_ok_def\<close>)
qed

lemma best_clearance_ok: "(\<And>r m. best = Some (r, m) \<Longrightarrow> ladder_rank ld m = Some r) \<Longrightarrow> search_ok gm ld best gs (best_clearance gm ld best gs)"
proof (induction gs arbitrary: best)
  case Nil
  then show ?case by (auto simp: search_ok_def split: option.splits)
next
  case (Cons g gs)
  show ?case
  proof (cases "bt_get gm g")
    case None
    have "search_ok gm ld best gs (best_clearance gm ld best gs)" by (rule Cons.IH) (rule Cons.prems)
    then show ?thesis using None by (auto simp: search_ok_def split: group_outcome.splits)
  next
    case m: (Some m)
    show ?thesis
    proof (cases "ladder_rank ld m")
      case None
      then show ?thesis using m by (simp add: search_ok_def)
    next
      case (Some rank)
      define best' where "best' = (if (case best of Some (r, _) \<Rightarrow> r < rank | None \<Rightarrow> True) then Some (rank, m) else best)"
      have "search_ok gm ld best' gs (best_clearance gm ld best' gs)"
        by (rule Cons.IH) (use Some Cons.prems in \<open>auto simp: best'_def split: if_splits option.splits\<close>)
      then show ?thesis using search_ok_better [OF _ m Some best'_def] m Some by (simp add: best'_def)
    qed
  qed
qed

text \<open>
  A user's clearance is the highest that any of its groups maps to: it is mapped by one of them, every
  other mapped marking is on the ladder and not above it; no clearance is given when no group is
  mapped, and a mapping to a marking that is not on the ladder is refused.
\<close>

theorem clearance_is_the_highest_mapped:
  "case clearance_for gm groups ld of
     Go_Marking m \<Rightarrow>
       (\<exists>r. ladder_rank ld m = Some r \<and> (\<exists>g\<in>set groups. bt_get gm g = Some m) \<and>
          (\<forall>g\<in>set groups. \<forall>m'. bt_get gm g = Some m' \<longrightarrow> (\<exists>r'\<le>r. ladder_rank ld m' = Some r')))
   | Go_NoneMapped \<Rightarrow> (\<forall>g\<in>set groups. bt_get gm g = None)
   | Go_NotOnLadder m \<Rightarrow> ladder_rank ld m = None \<and> (\<exists>g\<in>set groups. bt_get gm g = Some m)"
  using best_clearance_ok [of None ld gm groups] by (auto simp: clearance_for_def search_ok_def split: group_outcome.splits)

end
