(* ===== verification/Jobs_Log.thy ===== *)
theory Jobs_Log
  imports Ingest_Log
begin

text \<open>
  The durable job queue of \<open>av-jobs\<close>: \<open>log.rs\<close>, one append-only file of hash-chained records per
  queue, and \<open>queue.rs\<close>, submissions and completions on it. Records, scan and chain are those of the
  edge buffer (\<open>Edge_Log\<close>), and \<open>verify\<close> is the loop of the partition log (\<open>Ingest_Log\<close>), so
  their lemmas serve here.
\<close>

section \<open>Records\<close>

text \<open>Fields that the queue and the runner never read are one opaque field.\<close>

record asset_ref =
  as_uri :: string
  as_sha256 :: string
  as_size_bytes :: u64
  as_media_type :: string
  as_label :: "label option"
  as_rest :: string

record job_spec =
  js_job_id :: string
  js_kind :: string
  js_inputs :: "asset_ref list"
  js_label :: "label option"
  js_executor :: int
  js_command :: "string list"
  js_rest :: string

text \<open>The text of a failure: one that an executor or a store gives, or one the runner prints.\<close>

datatype job_detail =
    Jd_Text string
  | Jd_NoExecutor string
  | Jd_LabelNotOnLadder string
  | Jd_InputHash string string string
  | Jd_NoContainerExecutor
  | Jd_ManifestCount nat
  | Jd_UndeclaredManifest string
  | Jd_EmptyCommand
  | Jd_Spawn string string
  | Jd_ExitStatus string "int option"
  | Jd_NoObject string

record job_failure =
  jf_kind :: int
  jf_detail :: job_detail
  jf_exit_code :: int

record job_completion =
  jc_job_id :: string
  jc_spec_sha256 :: string
  jc_input_sha256 :: "string list"
  jc_outputs :: "asset_ref list"
  jc_manifest_sha256 :: string
  jc_started :: i64
  jc_finished :: i64
  jc_ok :: bool
  jc_failure :: "job_failure option"

datatype job_record = Jr_Submitted job_spec | Jr_Completed job_completion | Jr_Empty

section \<open>The log\<close>

datatype 'x decode_detail = Dd_Torn discard_reason | Dd_Decode 'x

datatype 'x job_log_error =
    Jl_InvalidName string path_id_error
  | Jl_PayloadTooLarge nat
  | Jl_Io
  | Jl_Decode u64 "'x decode_detail"

definition sanitize_log_name :: "string \<Rightarrow> 'x job_log_error + string" where
  "sanitize_log_name name =
     ebind (map_err (Jl_InvalidName name) (validate_path_component_id name)) (\<lambda>_. Inr (name @ ''.avjobs''))"

record job_log =
  jl_name :: string
  jl_file :: string
  jl_tip_hash :: bytes
  jl_record_count :: u64

definition job_truncate :: "bool \<Rightarrow> string \<Rightarrow> nat \<Rightarrow> log_dir \<Rightarrow> ('x job_log_error + unit) \<times> log_dir" where
  "job_truncate ok name n dir =
     (case dir name of
        Some bs \<Rightarrow> if ok then (Inr (), dir(name \<mapsto> take n bs)) else (Inl Jl_Io, dir)
      | None \<Rightarrow> (Inl Jl_Io, dir))"

definition job_log_open ::
  "(bytes \<Rightarrow> digest) \<Rightarrow> (bytes \<Rightarrow> 'x + job_record) \<Rightarrow> open_world \<Rightarrow> string \<Rightarrow> log_dir \<Rightarrow>
     ('x job_log_error + job_log \<times> log_recovery option) \<times> log_dir" where
  "job_log_open sha dec w name dir =
     (case sanitize_log_name name of
        Inl e \<Rightarrow> (Inl e, dir)
      | Inr path \<Rightarrow>
          if \<not> dir_ok w then (Inl Jl_Io, dir)
          else
            let bs = (if log_read_ok w then contents (dir path) else []);
                (frames, discard) = scan_frames sha dec bs
            in try_then
                 (case discard of
                    Some (pos, why) \<Rightarrow>
                      try_then (job_truncate (truncate_ok w) path pos dir)
                        (\<lambda>_ dir. (Inr (Some \<lparr>lr_discarded_bytes = length bs - pos, lr_reason = why\<rparr>), dir))
                  | None \<Rightarrow> (Inr None, dir))
                 (\<lambda>report dir.
                    let (tip, n) = (if frames = [] then (GENESIS, 0)
                                    else (fr_stored_hash (List.last frames), of_nat (length frames)))
                    in if log_open_ok w
                       then (Inr (\<lparr>jl_name = name, jl_file = path, jl_tip_hash = tip, jl_record_count = n\<rparr>, report),
                             dir(path \<mapsto> contents (dir path)))
                       else (Inl Jl_Io, dir)))"

definition job_log_append ::
  "(bytes \<Rightarrow> digest) \<Rightarrow> (job_record \<Rightarrow> bytes) \<Rightarrow> write_outcome \<Rightarrow> job_record \<Rightarrow> job_log \<Rightarrow> log_dir \<Rightarrow>
     ('x job_log_error + unit) \<times> job_log \<times> log_dir" where
  "job_log_append sha enc w r jl dir =
     (let payload = enc r in
      if 2 ^ 32 - 1 < length payload then (Inl (Jl_PayloadTooLarge (length payload)), jl, dir)
      else
        let h = compute_batch_hash sha (jl_tip_hash jl) payload;
            frame = nat_to_le 4 (length payload) @ digest_bytes h @ payload;
            (ok, f) = append_file w (contents (dir (jl_file jl))) frame;
            dir = dir(jl_file jl \<mapsto> f)
        in if ok
           then (Inr (), jl\<lparr>jl_tip_hash := digest_bytes h, jl_record_count := jl_record_count jl + 1\<rparr>, dir)
           else (Inl Jl_Io, jl, dir))"

definition job_log_verify :: "(bytes \<Rightarrow> digest) \<Rightarrow> bool \<Rightarrow> job_log \<Rightarrow> log_dir \<Rightarrow> 'x job_log_error + partition_verification" where
  "job_log_verify sha read_ok jl dir =
     (case dir (jl_file jl) of
        Some bs \<Rightarrow> if read_ok then Inr (partition_verify_loop sha (jl_name jl) bs 0 GENESIS 0 0) else Inl Jl_Io
      | None \<Rightarrow> Inl Jl_Io)"

function read_records :: "(bytes \<Rightarrow> 'x + job_record) \<Rightarrow> bytes \<Rightarrow> nat \<Rightarrow> u64 \<Rightarrow> job_record list \<Rightarrow> 'x job_log_error + job_record list" where
  "read_records dec bs pos idx out =
     (if length bs \<le> pos then Inr out
      else
        let idx = idx + 1; remaining = length bs - pos in
        if remaining < HEADER_LEN then Inl (Jl_Decode idx (Dd_Torn (IncompleteHeader remaining)))
        else
          let payload_len = le_to_nat (byte_slice pos (pos + 4) bs);
              payload_start = pos + HEADER_LEN;
              payload_end = payload_start + payload_len
          in if length bs < payload_end
             then Inl (Jl_Decode idx (Dd_Torn (IncompletePayload payload_len (length bs - payload_start))))
             else
               case dec (byte_slice payload_start payload_end bs) of
                 Inl e \<Rightarrow> Inl (Jl_Decode idx (Dd_Decode e))
               | Inr r \<Rightarrow> read_records dec bs payload_end idx (out @ [r]))"
  by pat_completeness auto
termination
  by (relation "measure (\<lambda>(_, bs, pos, _). length bs - pos)") (auto simp: HEADER_LEN_def)

declare read_records.simps [simp del]

definition job_log_read_all :: "(bytes \<Rightarrow> 'x + job_record) \<Rightarrow> bool \<Rightarrow> job_log \<Rightarrow> log_dir \<Rightarrow> 'x job_log_error + job_record list" where
  "job_log_read_all dec read_ok jl dir =
     (case dir (jl_file jl) of
        Some bs \<Rightarrow> if read_ok then read_records dec bs 0 0 [] else Inl Jl_Io
      | None \<Rightarrow> Inl Jl_Io)"

section \<open>The queue\<close>

datatype 'x job_error = Je_Log "'x job_log_error" | Je_DuplicateJobId string

fun as_submitted :: "job_record \<Rightarrow> job_spec option" where
  "as_submitted (Jr_Submitted s) = Some s"
| "as_submitted _ = None"

fun as_completed :: "job_record \<Rightarrow> job_completion option" where
  "as_completed (Jr_Completed c) = Some c"
| "as_completed _ = None"

definition submitted_specs :: "job_record list \<Rightarrow> job_spec list" where
  "submitted_specs rs = List.map_filter as_submitted rs"

definition completed_ids :: "job_record list \<Rightarrow> string set" where
  "completed_ids rs = jc_job_id ` set (List.map_filter as_completed rs)"

text \<open>The queue is its log; \<open>enc_spec\<close> encodes a specification on its own, for its hash.\<close>

definition queue_submit ::
  "(bytes \<Rightarrow> digest) \<Rightarrow> (job_record \<Rightarrow> bytes) \<Rightarrow> (bytes \<Rightarrow> 'x + job_record) \<Rightarrow> (job_spec \<Rightarrow> bytes) \<Rightarrow>
     bool \<Rightarrow> write_outcome \<Rightarrow> job_spec \<Rightarrow> job_log \<Rightarrow> log_dir \<Rightarrow> ('x job_error + string) \<times> job_log \<times> log_dir" where
  "queue_submit sha enc dec enc_spec read_ok w spec q dir =
     (case job_log_read_all dec read_ok q dir of
        Inl e \<Rightarrow> (Inl (Je_Log e), q, dir)
      | Inr existing \<Rightarrow>
          if js_job_id spec \<in> set (map js_job_id (submitted_specs existing))
          then (Inl (Je_DuplicateJobId (js_job_id spec)), q, dir)
          else
            case job_log_append sha enc w (Jr_Submitted spec) q dir of
              (Inl e, q, dir) \<Rightarrow> (Inl (Je_Log e), q, dir)
            | (Inr _, q, dir) \<Rightarrow> (Inr (hex_encode (digest_bytes (sha (enc_spec spec)))), q, dir))"

definition open_jobs :: "job_record list \<Rightarrow> job_spec list" where
  "open_jobs rs = filter (\<lambda>s. js_job_id s \<notin> completed_ids rs) (submitted_specs rs)"

definition queue_pending :: "(bytes \<Rightarrow> 'x + job_record) \<Rightarrow> bool \<Rightarrow> job_log \<Rightarrow> log_dir \<Rightarrow> 'x job_error + job_spec list" where
  "queue_pending dec read_ok q dir =
     ebind (map_err Je_Log (job_log_read_all dec read_ok q dir)) (\<lambda>rs. Inr (open_jobs rs))"

definition queue_complete ::
  "(bytes \<Rightarrow> digest) \<Rightarrow> (job_record \<Rightarrow> bytes) \<Rightarrow> write_outcome \<Rightarrow> job_completion \<Rightarrow> job_log \<Rightarrow> log_dir \<Rightarrow>
     ('x job_error + unit) \<times> job_log \<times> log_dir" where
  "queue_complete sha enc w c q dir =
     (case job_log_append sha enc w (Jr_Completed c) q dir of
        (Inl e, q, dir) \<Rightarrow> (Inl (Je_Log e), q, dir)
      | (Inr _, q, dir) \<Rightarrow> (Inr (), q, dir))"

section \<open>The log as a list of records\<close>

definition log_holds ::
  "(bytes \<Rightarrow> digest) \<Rightarrow> (job_record \<Rightarrow> bytes) \<Rightarrow> (bytes \<Rightarrow> 'x + job_record) \<Rightarrow> job_record list \<Rightarrow> job_log \<Rightarrow> log_dir \<Rightarrow> bool" where
  "log_holds sha enc dec rs jl dir \<longleftrightarrow>
     list_all (buffered enc dec) rs \<and> jl_file jl = jl_name jl @ ''.avjobs'' \<and>
     dir (jl_file jl) = Some (log_bytes sha GENESIS (map enc rs)) \<and>
     jl_tip_hash jl = log_head sha (map enc rs) \<and> jl_record_count jl = of_nat (length rs)"

lemma sanitize_log_Inr:
  "sanitize_log_name name = Inr path \<longleftrightarrow> validate_path_component_id name = Inr name \<and> path = name @ ''.avjobs''"
  by (auto simp: sanitize_log_name_def ebind_eq_Inr validate_Inr_iff)

lemma all_buffered:
  assumes "list_all (buffered enc dec) rs"
  shows "list_all fits (map enc rs)" "list_all (\<lambda>p. \<not> isl (dec p)) (map enc rs)"
  using assms by (induction rs) (auto simp: buffered_def)

lemma job_log_append_frame:
  "job_log_append sha enc w r jl dir =
     (if 2 ^ 32 - 1 < length (enc r) then (Inl (Jl_PayloadTooLarge (length (enc r))), jl, dir)
      else
        let (ok, f) = append_file w (contents (dir (jl_file jl))) (frame_bytes sha (jl_tip_hash jl) (enc r)) in
        if ok
        then (Inr (), jl\<lparr>jl_tip_hash := digest_bytes (compute_batch_hash sha (jl_tip_hash jl) (enc r)),
                         jl_record_count := jl_record_count jl + 1\<rparr>, dir(jl_file jl \<mapsto> f))
        else (Inl Jl_Io, jl, dir(jl_file jl \<mapsto> f)))"
  by (simp add: job_log_append_def frame_bytes_def Let_def split: prod.split)

lemma job_append_holds:
  fixes dec :: "bytes \<Rightarrow> 'x + job_record"
  assumes "log_holds sha enc dec rs jl dir" "buffered enc dec r"
  shows "\<exists>jl' dir'. (job_log_append sha enc WriteOk r jl dir :: ('x job_log_error + unit) \<times> _) = (Inr (), jl', dir') \<and>
    log_holds sha enc dec (rs @ [r]) jl' dir' \<and> jl_name jl' = jl_name jl \<and> (\<forall>f. f \<noteq> jl_file jl \<longrightarrow> dir' f = dir f)"
  using assms
  by (auto simp: job_log_append_frame log_holds_def buffered_def fits_def append_file_def contents_def log_bytes_snoc Let_def)

lemma read_records_frames:
  "list_all (buffered enc dec) rs \<Longrightarrow>
   read_records dec (pre @ log_bytes sha prev (map enc rs) @ tail) (length pre) i out =
     read_records dec (pre @ log_bytes sha prev (map enc rs) @ tail) (length pre + length (log_bytes sha prev (map enc rs)))
       (i + of_nat (length rs)) (out @ rs)"
proof (induction rs arbitrary: pre prev i out)
  case (Cons r rs)
  let ?h = "digest_bytes (compute_batch_hash sha prev (enc r))"
  let ?rest = "log_bytes sha ?h (map enc rs) @ tail"
  let ?bs = "pre @ frame_bytes sha prev (enc r) @ ?rest"
  have f: "fits (enc r)" "dec (enc r) = Inr r" using Cons.prems by (simp_all add: buffered_def)
  note at = frame_at [OF f(1) refl, of pre sha prev ?rest]
  have "read_records dec ?bs (length pre) i out =
      read_records dec ?bs (length pre + HEADER_LEN + length (enc r)) (i + 1) (out @ [r])"
    using at f(2) by (subst read_records.simps) (simp add: Let_def)
  then show ?case
    using Cons.IH [of "pre @ frame_bytes sha prev (enc r)" ?h "i + 1" "out @ [r]"] Cons.prems
    by (simp add: add.assoc)
qed simp

lemma read_all_holds:
  assumes "log_holds sha enc dec rs jl dir"
  shows "job_log_read_all dec True jl dir = Inr rs"
proof -
  have h: "list_all (buffered enc dec) rs" "dir (jl_file jl) = Some (log_bytes sha GENESIS (map enc rs))"
    using assms unfolding log_holds_def by blast+
  from read_records_frames [OF h(1), of "[]" sha GENESIS "[]" 0 "[]"] show ?thesis
    by (simp add: job_log_read_all_def h(2) read_records.simps [of _ _ "length _"])
qed

lemma job_open_torn:
  assumes "list_all (buffered enc dec) rs" "fits p" "n < length (frame_bytes sha (log_head sha (map enc rs)) p)"
    and "contents (dir path) = log_bytes sha GENESIS (map enc rs) @ take n (frame_bytes sha (log_head sha (map enc rs)) p)"
    and "sanitize_log_name name = (Inr path :: 'x job_log_error + string)"
  shows "\<exists>jl rep dir'. (job_log_open sha dec all_ok name dir :: ('x job_log_error + _) \<times> _) = (Inr (jl, rep), dir') \<and>
    log_holds sha enc dec rs jl dir' \<and> jl_name jl = name \<and> (\<forall>f. f \<noteq> path \<longrightarrow> dir' f = dir f) \<and>
    (case rep of None \<Rightarrow> 0 | Some r \<Rightarrow> lr_discarded_bytes r) = n"
proof -
  let ?log = "log_bytes sha GENESIS (map enc rs)"
  obtain why where scan: "scan_frames sha dec (?log @ take n (frame_bytes sha (log_head sha (map enc rs)) p)) =
      (refs_of sha GENESIS 0 (map enc rs), if n = 0 then None else Some (length ?log, why))"
    using scan_frames_torn [OF all_buffered [OF assms(1)] assms(2,3)] by blast
  have name: "path = name @ ''.avjobs''" using assms(5) by (simp add: sanitize_log_Inr)
  show ?thesis
  proof (cases "n = 0")
    case True
    with scan assms(1,4,5) show ?thesis
      by (simp add: job_log_open_def all_ok_def log_holds_def Let_def refs_tip name split del: if_split)
  next
    case False
    then have "contents (dir path) \<noteq> []" by (simp add: assms(4))
    then obtain full where "dir path = Some full" by (cases "dir path") (auto simp: contents_def)
    with False scan assms(1,3,4,5) show ?thesis
      by (simp add: job_log_open_def all_ok_def log_holds_def job_truncate_def contents_def Let_def refs_tip name
          split del: if_split)
  qed
qed


section \<open>The queue as a list of events\<close>

lemma map_filter_append: "List.map_filter f (xs @ ys) = List.map_filter f xs @ List.map_filter f ys"
  by (simp add: List.map_filter_def)

lemma submitted_simps [simp]:
  "submitted_specs [] = []"
  "submitted_specs (rs @ rs') = submitted_specs rs @ submitted_specs rs'"
  "submitted_specs [Jr_Submitted s] = [s]"
  "submitted_specs [Jr_Completed c] = []"
  by (simp_all add: submitted_specs_def List.map_filter_def)

lemma completed_simps [simp]:
  "completed_ids [] = {}"
  "completed_ids (rs @ rs') = completed_ids rs \<union> completed_ids rs'"
  "completed_ids [Jr_Submitted s] = {}"
  "completed_ids [Jr_Completed c] = {jc_job_id c}"
  by (simp_all add: completed_ids_def map_filter_append image_Un List.map_filter_def)

definition submitted_ids :: "job_record list \<Rightarrow> string list" where
  "submitted_ids rs = map js_job_id (submitted_specs rs)"

lemma submit_holds:
  fixes dec :: "bytes \<Rightarrow> 'x + job_record"
  assumes "log_holds sha enc dec rs q dir" "buffered enc dec (Jr_Submitted spec)"
  shows "if js_job_id spec \<in> set (submitted_ids rs)
    then queue_submit sha enc dec enc_spec True WriteOk spec q dir = (Inl (Je_DuplicateJobId (js_job_id spec)), q, dir)
    else \<exists>q' dir'. queue_submit sha enc dec enc_spec True WriteOk spec q dir = (Inr (hex_encode (digest_bytes (sha (enc_spec spec)))), q', dir') \<and>
      log_holds sha enc dec (rs @ [Jr_Submitted spec]) q' dir' \<and> jl_name q' = jl_name q"
proof -
  obtain q' dir' where a: "(job_log_append sha enc WriteOk (Jr_Submitted spec) q dir :: ('x job_log_error + unit) \<times> _) = (Inr (), q', dir')"
    "log_holds sha enc dec (rs @ [Jr_Submitted spec]) q' dir'" "jl_name q' = jl_name q"
    using job_append_holds [OF assms] by blast
  show ?thesis
  proof (cases "js_job_id spec \<in> set (submitted_ids rs)")
    case True
    then show ?thesis by (simp add: queue_submit_def read_all_holds [OF assms(1)] submitted_ids_def)
  next
    case False
    then have "queue_submit sha enc dec enc_spec True WriteOk spec q dir = (Inr (hex_encode (digest_bytes (sha (enc_spec spec)))), q', dir')"
      using a(1) by (simp add: queue_submit_def read_all_holds [OF assms(1)] submitted_ids_def del: hex_encode_inject)
    then show ?thesis using a(2,3) False by auto
  qed
qed

lemma pending_holds: "log_holds sha enc dec rs q dir \<Longrightarrow> queue_pending dec True q dir = Inr (open_jobs rs)"
  by (simp add: queue_pending_def read_all_holds)

lemma complete_holds:
  fixes dec :: "bytes \<Rightarrow> 'x + job_record"
  assumes "log_holds sha enc dec rs q dir" "buffered enc dec (Jr_Completed c)"
  shows "\<exists>q' dir'. (queue_complete sha enc WriteOk c q dir :: ('x job_error + unit) \<times> _) = (Inr (), q', dir') \<and>
    log_holds sha enc dec (rs @ [Jr_Completed c]) q' dir' \<and> jl_name q' = jl_name q"
proof -
  obtain q' dir' where a: "(job_log_append sha enc WriteOk (Jr_Completed c) q dir :: ('x job_log_error + unit) \<times> _) = (Inr (), q', dir')"
    "log_holds sha enc dec (rs @ [Jr_Completed c]) q' dir'" "jl_name q' = jl_name q"
    using job_append_holds [OF assms] by blast
  then show ?thesis by (simp add: queue_complete_def)
qed

text \<open>
  What happens to a queue: a call, or a crash that leaves the first \<open>n\<close> bytes of a record in the
  file, after which the queue is opened again.
\<close>

datatype queue_op = Qo_Submit job_spec | Qo_Complete job_completion | Qo_Crash nat job_record

definition queue_step ::
  "(bytes \<Rightarrow> digest) \<Rightarrow> (job_record \<Rightarrow> bytes) \<Rightarrow> (bytes \<Rightarrow> 'x + job_record) \<Rightarrow> (job_spec \<Rightarrow> bytes) \<Rightarrow>
     job_log \<times> log_dir \<Rightarrow> queue_op \<Rightarrow> job_log \<times> log_dir" where
  "queue_step sha enc dec enc_spec st op =
     (case op of
        Qo_Submit spec \<Rightarrow> snd (queue_submit sha enc dec enc_spec True WriteOk spec (fst st) (snd st))
      | Qo_Complete c \<Rightarrow> snd (queue_complete sha enc WriteOk c (fst st) (snd st) :: ('x job_error + unit) \<times> _)
      | Qo_Crash n r \<Rightarrow>
          let (_, q, dir) = (job_log_append sha enc (WriteFail n) r (fst st) (snd st) :: ('x job_log_error + unit) \<times> _) in
          case job_log_open sha dec all_ok (jl_name q) dir of
            (Inr (q', _), dir') \<Rightarrow> (q', dir')
          | (Inl _, dir') \<Rightarrow> (q, dir'))"

definition op_ok :: "(job_record \<Rightarrow> bytes) \<Rightarrow> (bytes \<Rightarrow> 'x + job_record) \<Rightarrow> queue_op \<Rightarrow> bool" where
  "op_ok enc dec op \<longleftrightarrow>
     (case op of
        Qo_Submit spec \<Rightarrow> buffered enc dec (Jr_Submitted spec)
      | Qo_Complete c \<Rightarrow> buffered enc dec (Jr_Completed c)
      | Qo_Crash n r \<Rightarrow> buffered enc dec r \<and> n < HEADER_LEN + length (enc r))"

text \<open>The same on a list of events.\<close>

fun event_step :: "job_record list \<Rightarrow> queue_op \<Rightarrow> job_record list" where
  "event_step rs (Qo_Submit spec) = (if js_job_id spec \<in> set (submitted_ids rs) then rs else rs @ [Jr_Submitted spec])"
| "event_step rs (Qo_Complete c) = rs @ [Jr_Completed c]"
| "event_step rs (Qo_Crash n r) = rs"

definition queue_holds ::
  "(bytes \<Rightarrow> digest) \<Rightarrow> (job_record \<Rightarrow> bytes) \<Rightarrow> (bytes \<Rightarrow> 'x + job_record) \<Rightarrow> job_record list \<Rightarrow> job_log \<times> log_dir \<Rightarrow> bool" where
  "queue_holds sha enc dec rs st \<longleftrightarrow>
     log_holds sha enc dec rs (fst st) (snd st) \<and> validate_path_component_id (jl_name (fst st)) = Inr (jl_name (fst st)) \<and>
     distinct (submitted_ids rs)"

lemma queue_step_holds:
  fixes dec :: "bytes \<Rightarrow> 'x + job_record"
  assumes "queue_holds sha enc dec rs st" "op_ok enc dec op"
  shows "queue_holds sha enc dec (event_step rs op) (queue_step sha enc dec enc_spec st op)"
proof (cases op)
  case (Qo_Submit spec)
  then show ?thesis
    using assms submit_holds [of sha enc dec rs "fst st" "snd st" spec enc_spec]
    by (auto simp: queue_holds_def op_ok_def queue_step_def submitted_ids_def split: if_splits)
next
  case (Qo_Complete c)
  then show ?thesis
    using assms complete_holds [of sha enc dec rs "fst st" "snd st" c]
    by (auto simp: queue_holds_def op_ok_def queue_step_def submitted_ids_def)
next
  case (Qo_Crash n r)
  let ?q = "fst st" and ?dir = "snd st"
  let ?torn = "?dir(jl_file ?q \<mapsto> log_bytes sha GENESIS (map enc rs) @ take n (frame_bytes sha (log_head sha (map enc rs)) (enc r)))"
  have h: "list_all (buffered enc dec) rs" "jl_file ?q = jl_name ?q @ ''.avjobs''"
    "?dir (jl_file ?q) = Some (log_bytes sha GENESIS (map enc rs))" "jl_tip_hash ?q = log_head sha (map enc rs)"
    and r: "fits (enc r)" "n < HEADER_LEN + length (enc r)"
    and v: "validate_path_component_id (jl_name ?q) = Inr (jl_name ?q)"
    using assms Qo_Crash by (auto simp: queue_holds_def log_holds_def op_ok_def buffered_def)
  have a: "(job_log_append sha enc (WriteFail n) r ?q ?dir :: ('x job_log_error + unit) \<times> _) = (Inl Jl_Io, ?q, ?torn)"
    using h r(1) by (simp add: job_log_append_frame append_file_def contents_def fits_def Let_def)
  have s: "sanitize_log_name (jl_name ?q) = (Inr (jl_file ?q) :: 'x job_log_error + string)" using v h(2) by (simp add: sanitize_log_Inr)
  have n: "n < length (frame_bytes sha (log_head sha (map enc rs)) (enc r))" using r(2) by simp
  obtain q' rep dir' where o: "(job_log_open sha dec all_ok (jl_name ?q) ?torn :: ('x job_log_error + _) \<times> _) = (Inr (q', rep), dir')"
    "log_holds sha enc dec rs q' dir'" "jl_name q' = jl_name ?q"
    using job_open_torn [OF h(1) r(1) n _ s, of ?torn] by (auto simp: contents_def)
  show ?thesis using assms(1) a o Qo_Crash by (simp add: queue_holds_def queue_step_def)
qed

interpretation queue_machine: guarded_machine "queue_step sha enc dec enc_spec" "op_ok enc dec"
  "\<lambda>st. \<exists>rs. queue_holds sha enc dec rs st" for sha enc dec enc_spec
  by unfold_locales (blast dest: queue_step_holds)

lemma queue_run_holds:
  "queue_holds sha enc dec rs st \<Longrightarrow> list_all (op_ok enc dec) ops \<Longrightarrow>
   queue_holds sha enc dec (foldl event_step rs ops) (foldl (queue_step sha enc dec enc_spec) st ops)"
  by (induction ops arbitrary: rs st) (simp_all add: queue_step_holds)

text \<open>The jobs of a list of events that wait: submitted, and no completion names their id.\<close>

fun waiting :: "job_record list \<Rightarrow> job_record \<Rightarrow> job_spec list" where
  "waiting rs (Jr_Submitted s) = (if \<exists>c. Jr_Completed c \<in> set rs \<and> jc_job_id c = js_job_id s then [] else [s])"
| "waiting rs _ = []"

lemma open_jobs_waiting: "open_jobs rs = concat (map (waiting rs) rs)"
proof -
  have "c \<in> set (List.map_filter as_completed rs) \<longleftrightarrow> Jr_Completed c \<in> set rs" for c
    by (auto simp: List.map_filter_def image_iff elim: as_completed.elims)
  then have c: "i \<in> completed_ids rs \<longleftrightarrow> (\<exists>c. Jr_Completed c \<in> set rs \<and> jc_job_id c = i)" for i
    by (auto simp: completed_ids_def image_iff)
  have "filter (\<lambda>s. js_job_id s \<notin> completed_ids rs) (submitted_specs es) = concat (map (waiting rs) es)" for es
  proof (induction es)
    case (Cons e es)
    then show ?case by (cases e) (simp_all add: submitted_specs_def List.map_filter_def c)
  qed (simp add: submitted_specs_def List.map_filter_def)
  then show ?thesis by (simp add: open_jobs_def)
qed

text \<open>
  C13: The queue is a list of events: over any sequence of submissions, completions and crashes in the
  middle of an append, each followed by opening the file again, the log holds the records of the
  abstract run, in which a submission under a known id changes nothing and a crash loses only the
  append it interrupts; no job id is ever submitted twice; and \<open>pending\<close> answers exactly the
  submitted jobs without a completion, in the order of their submission.
\<close>

theorem queue_refines_events:
  assumes "queue_holds sha enc dec rs st" "list_all (op_ok enc dec) ops"
  shows "\<exists>rs' q dir. rs' = foldl event_step rs ops \<and> (q, dir) = foldl (queue_step sha enc dec enc_spec) st ops \<and>
    log_holds sha enc dec rs' q dir \<and> distinct (submitted_ids rs') \<and>
    job_log_read_all dec True q dir = Inr rs' \<and> queue_pending dec True q dir = Inr (open_jobs rs') \<and>
    open_jobs rs' = concat (map (waiting rs') rs')"
proof -
  obtain q dir where qd: "foldl (queue_step sha enc dec enc_spec) st ops = (q, dir)" by fastforce
  from queue_run_holds [OF assms, of enc_spec]
  have h: "log_holds sha enc dec (foldl event_step rs ops) q dir" "distinct (submitted_ids (foldl event_step rs ops))"
    by (simp_all add: queue_holds_def qd)
  show ?thesis using qd h read_all_holds [OF h(1)] pending_holds [OF h(1)] open_jobs_waiting by simp
qed

text \<open>
  A completion acknowledged after a failed sync is lost: when a record's bytes reach the file but its sync fails, the
  next record is linked to the old tip; its caller is told it is durable, but opening the queue again
  cuts it off as corrupt.
\<close>

theorem failed_sync_loses_completion:
  fixes dec :: "bytes \<Rightarrow> 'x + job_record"
  assumes "queue_holds sha enc dec rs (q, dir)" "buffered enc dec r" "buffered enc dec (Jr_Completed c)"
    and "HEADER_LEN + length (enc r) \<le> n"
    and "compute_batch_hash sha (log_head sha (map enc rs)) (enc (Jr_Completed c)) \<noteq>
      compute_batch_hash sha (log_head sha (map enc (rs @ [r]))) (enc (Jr_Completed c))"
    and "(job_log_append sha enc (WriteFail n) r q dir :: ('x job_log_error + unit) \<times> _) = (r1, q1, dir1)"
    and "(queue_complete sha enc WriteOk c q1 dir1 :: ('x job_error + unit) \<times> _) = (r2, q2, dir2)"
  shows "r1 = Inl Jl_Io \<and> r2 = Inr () \<and>
    (\<exists>q' rep dir'. (job_log_open sha dec all_ok (jl_name q) dir2 :: ('x job_log_error + _) \<times> _) = (Inr (q', Some rep), dir') \<and>
       log_holds sha enc dec (rs @ [r]) q' dir')"
proof -
  let ?h = "log_head sha (map enc rs)" and ?ps = "map enc (rs @ [r])"
  let ?log = "log_bytes sha GENESIS ?ps"
  let ?f = "?log @ frame_bytes sha ?h (enc (Jr_Completed c))"
  have f: "dir (jl_file q) = Some (log_bytes sha GENESIS (map enc rs))" "jl_tip_hash q = ?h" "jl_file q = jl_name q @ ''.avjobs''"
    and len: "length (enc r) < 2 ^ 32" "length (enc (Jr_Completed c)) < 2 ^ 32"
    using assms(1,2,3) by (auto simp: queue_holds_def log_holds_def buffered_def fits_def)
  have "(job_log_append sha enc (WriteFail n) r q dir :: ('x job_log_error + unit) \<times> _) = (Inl Jl_Io, q, dir(jl_file q \<mapsto> ?log))"
    using len(1) assms(4) by (simp add: job_log_append_frame append_file_def contents_def f(1,2) log_bytes_snoc Let_def)
  then have r1: "r1 = Inl Jl_Io" "q1 = q" "dir1 = dir(jl_file q \<mapsto> ?log)" using assms(6) by simp_all
  have r2: "r2 = Inr ()" "dir2 = dir(jl_file q \<mapsto> ?f)"
    using assms(7) len(2) unfolding queue_complete_def
    by (simp_all add: job_log_append_frame append_file_def contents_def f(2) r1(2,3) Let_def)
  have all: "list_all (buffered enc dec) (rs @ [r])" using assms(1,2) by (simp add: queue_holds_def log_holds_def)
  have fc: "fits (enc (Jr_Completed c))" using assms(3) by (simp add: buffered_def)
  obtain why where scan: "scan_frames sha dec ?f = (refs_of sha GENESIS 0 ?ps, Some (length ?log, why))"
    using scan_unlinked_tail [OF all_buffered(1) [OF all] fc, of sha ?h dec] assms(5) by auto
  have "sanitize_log_name (jl_name q) = (Inr (jl_file q) :: 'x job_log_error + string)"
    using assms(1) f(3) by (simp add: sanitize_log_Inr queue_holds_def)
  then have "\<exists>q' rep dir'. (job_log_open sha dec all_ok (jl_name q) dir2 :: ('x job_log_error + _) \<times> _) = (Inr (q', Some rep), dir') \<and>
       log_holds sha enc dec (rs @ [r]) q' dir'"
    using scan all unfolding r2(2)
    by (simp add: job_log_open_def all_ok_def contents_def job_truncate_def log_holds_def Let_def refs_tip f(3) split del: if_split)
  then show ?thesis using r1(1) r2 by simp
qed


section \<open>Witnesses\<close>

definition wit_spec :: job_spec where
  "wit_spec = \<lparr>js_job_id = ''j1'', js_kind = ''tiler'', js_inputs = [], js_label = None, js_executor = 1, js_command = [], js_rest = []\<rparr>"

definition wit_completion :: job_completion where
  "wit_completion =
     \<lparr>jc_job_id = ''j1'', jc_spec_sha256 = [], jc_input_sha256 = [], jc_outputs = [], jc_manifest_sha256 = [], jc_started = 0,
      jc_finished = 1, jc_ok = True, jc_failure = None\<rparr>"

definition wit_enc :: "job_record \<Rightarrow> bytes" where
  "wit_enc r = (case r of Jr_Submitted _ \<Rightarrow> [1] | _ \<Rightarrow> [2])"

definition wit_dec :: "bytes \<Rightarrow> unit + job_record" where
  "wit_dec bs = (if bs = [1] then Inr (Jr_Submitted wit_spec) else Inr (Jr_Completed wit_completion))"

definition wit_queue :: job_log where
  "wit_queue = \<lparr>jl_name = ''q1'', jl_file = ''q1.avjobs'', jl_tip_hash = GENESIS, jl_record_count = 0\<rparr>"

lemma wit_buffered: "buffered wit_enc wit_dec (Jr_Submitted wit_spec)" "buffered wit_enc wit_dec (Jr_Completed wit_completion)"
  by (simp_all add: buffered_def wit_enc_def wit_dec_def fits_def)

lemma wit_holds: "queue_holds sha wit_enc wit_dec [] (wit_queue, [''q1.avjobs'' \<mapsto> []])"
  by (simp add: queue_holds_def log_holds_def wit_queue_def submitted_ids_def validate_Inr_iff string_bytes_def allowed_byte_def
      is_ascii_alphanumeric_def word_le_nat_alt)

theorem queue_refines_events_witness:
  "\<exists>q dir.
     (q, dir) = foldl (queue_step (\<lambda>_. 0) wit_enc wit_dec (\<lambda>_. [])) (wit_queue, [''q1.avjobs'' \<mapsto> []])
       [Qo_Submit wit_spec, Qo_Crash 7 (Jr_Completed wit_completion), Qo_Submit wit_spec] \<and>
     queue_pending wit_dec True q dir = Inr [wit_spec]"
proof -
  let ?ops = "[Qo_Submit wit_spec, Qo_Crash 7 (Jr_Completed wit_completion), Qo_Submit wit_spec]"
  have ok: "list_all (op_ok wit_enc wit_dec) ?ops" using wit_buffered by (simp add: op_ok_def HEADER_LEN_def)
  have "foldl event_step [] ?ops = [Jr_Submitted wit_spec]" by (simp add: submitted_ids_def)
  moreover have "open_jobs [Jr_Submitted wit_spec] = [wit_spec]"
    by (simp add: open_jobs_def completed_ids_def submitted_specs_def List.map_filter_def)
  ultimately show ?thesis using queue_refines_events [OF wit_holds ok, of "\<lambda>_. 0" "\<lambda>_. []"] by auto
qed

theorem failed_sync_loses_completion_witness:
  "\<exists>q1 dir1 q2 dir2 q' rep dir'.
     (job_log_append (\<lambda>bs. of_nat (length bs)) wit_enc (WriteFail 37) (Jr_Submitted wit_spec) wit_queue [''q1.avjobs'' \<mapsto> []] ::
        (unit job_log_error + unit) \<times> _) = (Inl Jl_Io, q1, dir1) \<and>
     (queue_complete (\<lambda>bs. of_nat (length bs)) wit_enc WriteOk wit_completion q1 dir1 :: (unit job_error + unit) \<times> _) =
        (Inr (), q2, dir2) \<and>
     (job_log_open (\<lambda>bs. of_nat (length bs)) wit_dec all_ok ''q1'' dir2 :: (unit job_log_error + _) \<times> _) =
        (Inr (q', Some rep), dir') \<and>
     log_holds (\<lambda>bs. of_nat (length bs)) wit_enc wit_dec [Jr_Submitted wit_spec] q' dir'"
proof -
  let ?sha = "\<lambda>bs. of_nat (length bs) :: digest"
  obtain r1 q1 dir1 where a: "(job_log_append ?sha wit_enc (WriteFail 37) (Jr_Submitted wit_spec) wit_queue [''q1.avjobs'' \<mapsto> []] ::
      (unit job_log_error + unit) \<times> _) = (r1, q1, dir1)"
    by (metis prod_cases3)
  obtain r2 q2 dir2 where b: "(queue_complete ?sha wit_enc WriteOk wit_completion q1 dir1 :: (unit job_error + unit) \<times> _) = (r2, q2, dir2)"
    by (metis prod_cases3)
  have n: "HEADER_LEN + length (wit_enc (Jr_Submitted wit_spec)) \<le> 37" by (simp add: HEADER_LEN_def wit_enc_def)
  have g: "length GENESIS = 7" by (simp add: GENESIS_def)
  have ne: "compute_batch_hash ?sha (log_head ?sha (map wit_enc [])) (wit_enc (Jr_Completed wit_completion)) \<noteq>
      compute_batch_hash ?sha (log_head ?sha (map wit_enc ([] @ [Jr_Submitted wit_spec]))) (wit_enc (Jr_Completed wit_completion))"
    by (simp add: chain_head_Cons compute_batch_hash_def wit_enc_def g)
  from failed_sync_loses_completion [OF wit_holds wit_buffered n ne a b] a b show ?thesis
    by (fastforce simp: wit_queue_def)
qed

end
