(* ===== verification/Jobs_Runner.thy ===== *)
theory Jobs_Runner
  imports Jobs_Log Label_Ladder
begin

text \<open>
  The job runner: \<open>av-jobs/src/runner.rs\<close>. Executors, the object source and sink, and the clock are
  traits: functions over one state \<open>'w\<close> of everything outside the runner. The detail texts the
  runner prints are constructors with the printed values.
\<close>

section \<open>Executors and stores\<close>

record job_input =
  ji_asset :: asset_ref
  ji_bytes :: bytes

record job_output =
  jo_bytes :: bytes
  jo_media_type :: string
  jo_manifest :: bool

type_synonym 'w sink = "bytes \<Rightarrow> string \<Rightarrow> label \<Rightarrow> 'w \<Rightarrow> (job_failure + asset_ref) \<times> 'w"

record 'w executor =
  ex_execute :: "job_spec \<Rightarrow> job_input list \<Rightarrow> 'w \<Rightarrow> (job_failure + job_output list) \<times> 'w"
  ex_streaming :: "job_spec \<Rightarrow> job_input list \<Rightarrow> 'w sink \<Rightarrow> label \<Rightarrow> 'w \<Rightarrow> (job_failure + job_output list) \<times> 'w"
  ex_declares_manifest :: bool

text \<open>The numbers of \<open>JobFailureKind\<close> and of the container executor kind.\<close>

abbreviation (input) "KIND_INPUT_MISSING \<equiv> (1 :: int)"
abbreviation (input) "KIND_INPUT_HASH_MISMATCH \<equiv> (2 :: int)"
abbreviation (input) "KIND_EXECUTOR_UNAVAILABLE \<equiv> (3 :: int)"
abbreviation (input) "KIND_EXECUTOR_START_FAILED \<equiv> (4 :: int)"
abbreviation (input) "KIND_NONZERO_EXIT \<equiv> (5 :: int)"
abbreviation (input) "KIND_OUTPUT_REJECTED \<equiv> (6 :: int)"
abbreviation (input) "KIND_LABEL_REFUSED \<equiv> (7 :: int)"
abbreviation (input) "KIND_UNSUPPORTED_JOB_KIND \<equiv> (8 :: int)"
abbreviation (input) "EXECUTOR_CONTAINER \<equiv> (2 :: int)"

definition job_failure_kind :: "job_failure \<Rightarrow> int" where
  "job_failure_kind f = (if 0 \<le> jf_kind f \<and> jf_kind f \<le> 10 then jf_kind f else 0)"

text \<open>The trait's default of \<open>execute_streaming\<close>.\<close>

definition default_streaming ::
  "(job_spec \<Rightarrow> job_input list \<Rightarrow> 'w \<Rightarrow> (job_failure + job_output list) \<times> 'w) \<Rightarrow>
     job_spec \<Rightarrow> job_input list \<Rightarrow> 'w sink \<Rightarrow> label \<Rightarrow> 'w \<Rightarrow> (job_failure + job_output list) \<times> 'w" where
  "default_streaming run spec inputs sink lab = run spec inputs"

text \<open>\<open>ProcessExecutor\<close>: \<open>spawn\<close> runs a program to its end and gives its exit code (None: killed) and output.\<close>

definition process_execute ::
  "(string \<Rightarrow> string list \<Rightarrow> 'w \<Rightarrow> (string + int option \<times> bytes) \<times> 'w) \<Rightarrow>
     job_spec \<Rightarrow> job_input list \<Rightarrow> 'w \<Rightarrow> (job_failure + job_output list) \<times> 'w" where
  "process_execute spawn spec inputs w =
     (case js_command spec of
        [] \<Rightarrow> (Inl \<lparr>jf_kind = KIND_EXECUTOR_START_FAILED, jf_detail = Jd_EmptyCommand, jf_exit_code = 0\<rparr>, w)
      | program # args \<Rightarrow>
          (case spawn program args w of
             (Inl e, w) \<Rightarrow> (Inl \<lparr>jf_kind = KIND_EXECUTOR_START_FAILED, jf_detail = Jd_Spawn program e, jf_exit_code = 0\<rparr>, w)
           | (Inr (status, out), w) \<Rightarrow>
               if status \<noteq> Some 0 then
                 (Inl \<lparr>jf_kind = KIND_NONZERO_EXIT, jf_detail = Jd_ExitStatus program status,
                       jf_exit_code = (case status of Some c \<Rightarrow> c | None \<Rightarrow> -1)\<rparr>, w)
               else (Inr [\<lparr>jo_bytes = out, jo_media_type = ''application/octet-stream'', jo_manifest = False\<rparr>], w)))"

definition content_addressed_key :: "string \<Rightarrow> string \<Rightarrow> string" where
  "content_addressed_key prefix hex = prefix @ ''/'' @ take 2 hex @ ''/'' @ take 2 (drop 2 hex) @ ''/'' @ hex"

definition memory_put ::
  "(bytes \<Rightarrow> digest) \<Rightarrow> string \<Rightarrow> bytes \<Rightarrow> string \<Rightarrow> label \<Rightarrow> (string \<rightharpoonup> bytes) \<Rightarrow> (job_failure + asset_ref) \<times> (string \<rightharpoonup> bytes)" where
  "memory_put sha prefix bs media lab objects =
     (let hex = hex_encode (digest_bytes (sha bs)) in
      (Inr \<lparr>as_uri = ''memory://'' @ content_addressed_key prefix hex, as_sha256 = hex, as_size_bytes = of_nat (length bs),
            as_media_type = media, as_label = Some lab, as_rest = []\<rparr>, objects(hex \<mapsto> bs)))"

definition memory_get :: "string \<Rightarrow> (string \<rightharpoonup> bytes) \<Rightarrow> bytes option" where
  "memory_get hex objects = objects hex"

definition memory_fetch :: "asset_ref \<Rightarrow> (string \<rightharpoonup> bytes) \<Rightarrow> (job_failure + bytes) \<times> (string \<rightharpoonup> bytes)" where
  "memory_fetch a objects =
     (case objects (as_uri a) of
        Some bs \<Rightarrow> (Inr bs, objects)
      | None \<Rightarrow> (Inl \<lparr>jf_kind = KIND_INPUT_MISSING, jf_detail = Jd_NoObject (as_uri a), jf_exit_code = 0\<rparr>, objects))"

section \<open>The runner\<close>

record 'w runner =
  rn_executors :: "string \<rightharpoonup> 'w executor"
  rn_container :: "'w executor option"
  rn_source :: "asset_ref \<Rightarrow> 'w \<Rightarrow> (job_failure + bytes) \<times> 'w"
  rn_sink :: "'w sink"
  rn_ladder :: ladder
  rn_clock :: "'w \<Rightarrow> i64 \<times> 'w"

text \<open>Why a job failed: kind, detail, exit code, and the inputs verified and outputs stored so far.\<close>

type_synonym failed_at = "int \<times> job_detail \<times> int \<times> string list \<times> asset_ref list"

fun fetch_inputs ::
  "'w runner \<Rightarrow> (bytes \<Rightarrow> digest) \<Rightarrow> asset_ref list \<Rightarrow> job_input list \<Rightarrow> string list \<Rightarrow> 'w \<Rightarrow>
     (failed_at + job_input list \<times> string list) \<times> 'w" where
  "fetch_inputs r sha [] inputs shas w = (Inr (inputs, shas), w)"
| "fetch_inputs r sha (a # as) inputs shas w =
     (case rn_source r a w of
        (Inl f, w) \<Rightarrow> (Inl (job_failure_kind f, jf_detail f, jf_exit_code f, shas, []), w)
      | (Inr bs, w) \<Rightarrow>
          let recomputed = sha bs in
          if hex_decode (as_sha256 a) \<noteq> Some (digest_bytes recomputed)
          then (Inl (KIND_INPUT_HASH_MISMATCH,
                     Jd_InputHash (as_uri a) (as_sha256 a) (hex_encode (digest_bytes recomputed)), 0, shas, []), w)
          else fetch_inputs r sha as (inputs @ [\<lparr>ji_asset = a, ji_bytes = bs\<rparr>]) (shas @ [as_sha256 a]) w)"

fun put_outputs ::
  "'w runner \<Rightarrow> label \<Rightarrow> string list \<Rightarrow> job_output list \<Rightarrow> asset_ref list \<Rightarrow> string \<Rightarrow> 'w \<Rightarrow>
     (failed_at + asset_ref list \<times> string) \<times> 'w" where
  "put_outputs r lab shas [] outputs manifest w = (Inr (outputs, manifest), w)"
| "put_outputs r lab shas (out # outs) outputs manifest w =
     (case rn_sink r (jo_bytes out) (jo_media_type out) lab w of
        (Inl f, w) \<Rightarrow> (Inl (job_failure_kind f, jf_detail f, jf_exit_code f, shas, outputs), w)
      | (Inr a, w) \<Rightarrow>
          put_outputs r lab shas outs (outputs @ [a]) (if jo_manifest out then as_sha256 a else manifest) w)"

definition run_executor ::
  "'w runner \<Rightarrow> bool \<Rightarrow> job_spec \<Rightarrow> label \<Rightarrow> 'w executor \<Rightarrow> job_input list \<Rightarrow> 'w \<Rightarrow> (job_failure + job_output list) \<times> 'w" where
  "run_executor r streaming spec lab ex inputs w =
     (if streaming then ex_streaming ex spec inputs (rn_sink r) lab w else ex_execute ex spec inputs w)"

definition produce ::
  "'w runner \<Rightarrow> bool \<Rightarrow> job_spec \<Rightarrow> label \<Rightarrow> 'w executor \<Rightarrow> job_input list \<Rightarrow> string list \<Rightarrow> 'w \<Rightarrow>
     (failed_at + asset_ref list \<times> string) \<times> 'w" where
  "produce r streaming spec lab ex inputs shas w =
     (case run_executor r streaming spec lab ex inputs w of
        (Inl f, w) \<Rightarrow> (Inl (job_failure_kind f, jf_detail f, jf_exit_code f, shas, []), w)
      | (Inr raw, w) \<Rightarrow>
          let n = length (filter jo_manifest raw) in
          if 1 < n then (Inl (KIND_OUTPUT_REJECTED, Jd_ManifestCount n, 0, shas, []), w)
          else if n = 1 \<and> \<not> ex_declares_manifest ex
          then (Inl (KIND_OUTPUT_REJECTED, Jd_UndeclaredManifest (js_kind spec), 0, shas, []), w)
          else put_outputs r lab shas raw [] [] w)"

definition spec_label :: "job_spec \<Rightarrow> label" where
  "spec_label spec = (case js_label spec of Some l \<Rightarrow> l | None \<Rightarrow> \<lparr>marking = [], caveats = []\<rparr>)"

text \<open>The body of \<open>execute_spec\<close> up to its completion: input hashes, outputs and the manifest's hash, or the failure.\<close>

definition attempt ::
  "'w runner \<Rightarrow> (bytes \<Rightarrow> digest) \<Rightarrow> bool \<Rightarrow> job_spec \<Rightarrow> 'w \<Rightarrow>
     (failed_at + string list \<times> asset_ref list \<times> string) \<times> 'w" where
  "attempt r sha streaming spec w =
     (case rn_executors r (js_kind spec) of
        None \<Rightarrow> (Inl (KIND_UNSUPPORTED_JOB_KIND, Jd_NoExecutor (js_kind spec), 0, [], []), w)
      | Some kind_executor \<Rightarrow>
          if ladder_rank (rn_ladder r) (marking (spec_label spec)) = None
          then (Inl (KIND_LABEL_REFUSED, Jd_LabelNotOnLadder (marking (spec_label spec)), 0, [], []), w)
          else
            try_then (fetch_inputs r sha (js_inputs spec) [] [] w) (\<lambda>(inputs, shas) w.
              case (if js_executor spec = EXECUTOR_CONTAINER then rn_container r else Some kind_executor) of
                None \<Rightarrow> (Inl (KIND_EXECUTOR_UNAVAILABLE, Jd_NoContainerExecutor, 0, shas, []), w)
              | Some ex \<Rightarrow>
                  try_then (produce r streaming spec (spec_label spec) ex inputs shas w) (\<lambda>(outputs, manifest) w.
                    (Inr (shas, outputs, manifest), w))))"

definition execute_spec ::
  "'w runner \<Rightarrow> (bytes \<Rightarrow> digest) \<Rightarrow> (job_spec \<Rightarrow> bytes) \<Rightarrow> bool \<Rightarrow> job_spec \<Rightarrow> 'w \<Rightarrow> job_completion \<times> 'w" where
  "execute_spec r sha enc_spec streaming spec w =
     (let (started, w) = rn_clock r w;
          (res, w) = attempt r sha streaming spec w;
          (finished, w) = rn_clock r w;
          done_with = (\<lambda>shas outputs manifest ok failure.
            \<lparr>jc_job_id = js_job_id spec, jc_spec_sha256 = hex_encode (digest_bytes (sha (enc_spec spec))),
             jc_input_sha256 = shas, jc_outputs = outputs, jc_manifest_sha256 = manifest, jc_started = started,
             jc_finished = finished, jc_ok = ok, jc_failure = failure\<rparr>)
      in (case res of
            Inl (kind, detail, code, shas, outputs) \<Rightarrow>
              done_with shas outputs [] False (Some \<lparr>jf_kind = kind, jf_detail = detail, jf_exit_code = code\<rparr>)
          | Inr (shas, outputs, manifest) \<Rightarrow> done_with shas outputs manifest True None, w))"

type_synonym 'w run_state = "job_log \<times> log_dir \<times> 'w"

definition run_one ::
  "'w runner \<Rightarrow> (bytes \<Rightarrow> digest) \<Rightarrow> (job_record \<Rightarrow> bytes) \<Rightarrow> (job_spec \<Rightarrow> bytes) \<Rightarrow> bool \<Rightarrow> write_outcome \<Rightarrow> job_spec \<Rightarrow>
     'w run_state \<Rightarrow> ('x job_error + job_completion) \<times> 'w run_state" where
  "run_one r sha enc enc_spec streaming wr spec st =
     (let (q, dir, w) = st; (c, w) = execute_spec r sha enc_spec streaming spec w in
      case queue_complete sha enc wr c q dir of
        (Inl e, q, dir) \<Rightarrow> (Inl e, q, dir, w)
      | (Inr _, q, dir) \<Rightarrow> (Inr c, q, dir, w))"

fun run_each ::
  "'w runner \<Rightarrow> (bytes \<Rightarrow> digest) \<Rightarrow> (job_record \<Rightarrow> bytes) \<Rightarrow> (job_spec \<Rightarrow> bytes) \<Rightarrow> write_outcome \<Rightarrow> job_spec list \<Rightarrow>
     'w run_state \<Rightarrow> ('x job_error + job_completion list) \<times> 'w run_state" where
  "run_each r sha enc enc_spec wr [] st = (Inr [], st)"
| "run_each r sha enc enc_spec wr (spec # specs) st =
     try_then (run_one r sha enc enc_spec False wr spec st) (\<lambda>c st.
     try_then (run_each r sha enc enc_spec wr specs st) (\<lambda>cs st. (Inr (c # cs), st)))"

definition run_pending ::
  "'w runner \<Rightarrow> (bytes \<Rightarrow> digest) \<Rightarrow> (job_record \<Rightarrow> bytes) \<Rightarrow> (bytes \<Rightarrow> 'x + job_record) \<Rightarrow> (job_spec \<Rightarrow> bytes) \<Rightarrow> bool \<Rightarrow> write_outcome \<Rightarrow>
     'w run_state \<Rightarrow> ('x job_error + job_completion list) \<times> 'w run_state" where
  "run_pending r sha enc dec enc_spec read_ok wr st =
     try_then (queue_pending dec read_ok (fst st) (fst (snd st)), st) (\<lambda>specs st. run_each r sha enc enc_spec wr specs st)"

section \<open>Content-addressed stores\<close>

text \<open>What a sink that addresses its objects by content promises its clients.\<close>

locale content_store =
  fixes put :: "bytes \<Rightarrow> 's \<Rightarrow> string \<times> 's"
    and get :: "string \<Rightarrow> 's \<Rightarrow> bytes option"
    and address :: "bytes \<Rightarrow> string"
  assumes put_address: "fst (put bs s) = address bs"
    and get_put: "get a (snd (put bs s)) = (if a = address bs then Some bs else get a s)"
begin

lemma stored_survive:
  assumes "\<And>bs. bs \<in> set later \<Longrightarrow> address bs = address x \<Longrightarrow> bs = x" "get (address x) s = Some x"
  shows "get (address x) (foldl (\<lambda>s bs. snd (put bs s)) s later) = Some x"
  using assms by (induction later arbitrary: s) (auto simp: get_put)

lemma put_idempotent: "get a (snd (put bs (snd (put bs s)))) = get a (snd (put bs s))"
  by (simp add: get_put)

end

interpretation memory_sink: content_store
  "\<lambda>bs s. (case memory_put sha prefix bs media lab s of (r, s') \<Rightarrow> (as_sha256 (projr r), s'))" memory_get
  "\<lambda>bs. hex_encode (digest_bytes (sha bs))" for sha prefix media lab
  by unfold_locales (simp_all add: memory_put_def memory_get_def Let_def)

text \<open>An output stored in memory is found under its hash whatever is stored later, absent a collision.\<close>

lemma memory_object_survives:
  assumes "memory_put sha prefix x media lab objects = (Inr a, objects')"
    and "\<And>bs. bs \<in> set later \<Longrightarrow> sha bs = sha x \<Longrightarrow> bs = x"
  shows "memory_get (as_sha256 a) (foldl (\<lambda>s bs. snd (memory_put sha prefix bs media lab s)) objects' later) = Some x"
proof -
  have a: "as_sha256 a = hex_encode (digest_bytes (sha x))" "memory_get (hex_encode (digest_bytes (sha x))) objects' = Some x"
    using assms(1) by (auto simp: memory_put_def memory_get_def Let_def)
  show ?thesis
    using memory_sink.stored_survive [of later sha x objects' prefix media lab] assms(2) a
    by (simp add: case_prod_unfold)
qed

section \<open>Properties\<close>

lemma fetch_inputs_ok:
  "fetch_inputs r sha as inputs shas w = (Inr (inputs', shas'), w') \<Longrightarrow>
   \<exists>more. inputs' = inputs @ more \<and> shas' = shas @ map as_sha256 as \<and> map ji_asset more = as \<and>
     list_all (\<lambda>i. hex_decode (as_sha256 (ji_asset i)) = Some (digest_bytes (sha (ji_bytes i)))) more"
proof (induction r sha as inputs shas w rule: fetch_inputs.induct)
  case (2 r sha a as inputs shas w)
  then show ?case by (fastforce simp: Let_def split: prod.splits sum.splits if_splits)
qed simp

text \<open>Each output and what the sink answered for it.\<close>

definition stored_as :: "'w runner \<Rightarrow> label \<Rightarrow> job_output \<Rightarrow> asset_ref \<Rightarrow> bool" where
  "stored_as r lab out a \<longleftrightarrow> (\<exists>w w'. rn_sink r (jo_bytes out) (jo_media_type out) lab w = (Inr a, w'))"

lemma put_outputs_ok:
  "put_outputs r lab shas outs outputs manifest w = (Inr (outputs', manifest'), w') \<Longrightarrow>
   \<exists>new. outputs' = outputs @ new \<and> list_all2 (stored_as r lab) outs new \<and>
     manifest' = foldl (\<lambda>m (out, a). if jo_manifest out then as_sha256 a else m) manifest (zip outs new)"
proof (induction r lab shas outs outputs manifest w rule: put_outputs.induct)
  case (2 r lab shas out outs outputs manifest w)
  then obtain a w1 where a: "rn_sink r (jo_bytes out) (jo_media_type out) lab w = (Inr a, w1)"
    by (auto split: prod.splits sum.splits)
  have "put_outputs r lab shas outs (outputs @ [a]) (if jo_manifest out then as_sha256 a else manifest) w1 = (Inr (outputs', manifest'), w')"
    using 2(2) a by simp
  from 2(1) [OF a [symmetric] refl this] obtain new where
    new: "outputs' = (outputs @ [a]) @ new" "list_all2 (stored_as r lab) outs new"
    "manifest' = foldl (\<lambda>m (out, a). if jo_manifest out then as_sha256 a else m) (if jo_manifest out then as_sha256 a else manifest) (zip outs new)"
    by blast
  have "stored_as r lab out a" using a by (auto simp: stored_as_def)
  then show ?case using new by (intro exI [of _ "a # new"]) simp
qed simp

text \<open>With at most one manifest among the outputs, the last one found is the one.\<close>

lemma manifest_found:
  assumes "length xs = length ys"
  shows "(\<forall>x \<in> set xs. \<not> P x) \<Longrightarrow> foldl (\<lambda>m (x, y). if P x then f y else m) m (zip xs ys) = m"
    and "length (filter P xs) \<le> 1 \<Longrightarrow> (x, y) \<in> set (zip xs ys) \<Longrightarrow> P x \<Longrightarrow>
      foldl (\<lambda>m (x, y). if P x then f y else m) m (zip xs ys) = f y"
proof -
  have none: "(\<forall>x \<in> set xs. \<not> P x) \<Longrightarrow> length xs = length ys \<Longrightarrow>
      foldl (\<lambda>m (x, y). if P x then f y else m) m (zip xs ys) = m" for m and xs :: "'a list" and ys
    by (induction xs arbitrary: m ys) (auto simp: Suc_length_conv)
  then show "(\<forall>x \<in> set xs. \<not> P x) \<Longrightarrow> foldl (\<lambda>m (x, y). if P x then f y else m) m (zip xs ys) = m"
    using assms by blast
  show "length (filter P xs) \<le> 1 \<Longrightarrow> (x, y) \<in> set (zip xs ys) \<Longrightarrow> P x \<Longrightarrow>
      foldl (\<lambda>m (x, y). if P x then f y else m) m (zip xs ys) = f y"
    using assms
  proof (induction xs ys arbitrary: m rule: list_induct2)
    case (Cons z zs u us)
    show ?case
    proof (cases "P z")
      case True
      then have "\<forall>x \<in> set zs. \<not> P x" using Cons.prems(1) by (auto simp: filter_empty_conv)
      moreover have "(x, y) = (z, u)" using Cons.prems(2,3) calculation by (auto dest: set_zip_leftD)
      ultimately show ?thesis using True none Cons.hyps by simp
    next
      case False
      then show ?thesis using Cons by auto
    qed
  qed simp
qed

text \<open>
  C14: A job is only completed as successful on verified inputs: its kind has an executor, its label is on the
  ladder, the executor that ran got exactly the declared inputs with bytes whose SHA-256 is the declared
  one, its outputs hold at most one manifest and only when it declares one, and the completion names
  the specification by its hash, the inputs in order, for each of the executor's outputs in order what the
  sink answered for it, and the hash of the manifest among them where there is one.
\<close>

theorem successful_jobs_ran_on_verified_inputs:
  assumes "execute_spec r sha enc_spec streaming spec w = (c, w')" "jc_ok c"
  shows "\<exists>ex inputs raw w1 w2.
    rn_executors r (js_kind spec) \<noteq> None \<and> ladder_rank (rn_ladder r) (marking (spec_label spec)) \<noteq> None \<and>
    (if js_executor spec = 2 then rn_container r else rn_executors r (js_kind spec)) = Some ex \<and>
    map ji_asset inputs = js_inputs spec \<and>
    list_all (\<lambda>i. hex_decode (as_sha256 (ji_asset i)) = Some (digest_bytes (sha (ji_bytes i)))) inputs \<and>
    run_executor r streaming spec (spec_label spec) ex inputs w1 = (Inr raw, w2) \<and>
    length (filter jo_manifest raw) \<le> (if ex_declares_manifest ex then 1 else 0) \<and>
    jc_job_id c = js_job_id spec \<and> jc_spec_sha256 c = hex_encode (digest_bytes (sha (enc_spec spec))) \<and>
    jc_input_sha256 c = map as_sha256 (js_inputs spec) \<and> length (jc_outputs c) = length raw \<and>
    jc_manifest_sha256 c \<in> insert [] (as_sha256 ` set (jc_outputs c)) \<and> jc_failure c = None \<and>
    list_all2 (stored_as r (spec_label spec)) raw (jc_outputs c) \<and>
    (\<forall>(out, a) \<in> set (zip raw (jc_outputs c)). jo_manifest out \<longrightarrow> jc_manifest_sha256 c = as_sha256 a) \<and>
    ((\<forall>out \<in> set raw. \<not> jo_manifest out) \<longrightarrow> jc_manifest_sha256 c = [])"
proof -
  obtain t0 w0 where t0: "rn_clock r w = (t0, w0)" by fastforce
  obtain res w3 where at: "attempt r sha streaming spec w0 = (res, w3)" by fastforce
  obtain t1 w4 where t1: "rn_clock r w3 = (t1, w4)" by fastforce
  from assms t0 at t1 obtain shas outputs manifest where res: "res = Inr (shas, outputs, manifest)"
    by (cases res) (auto simp: execute_spec_def)
  have c: "jc_job_id c = js_job_id spec" "jc_spec_sha256 c = hex_encode (digest_bytes (sha (enc_spec spec)))"
    "jc_input_sha256 c = shas" "jc_outputs c = outputs" "jc_manifest_sha256 c = manifest" "jc_failure c = None"
    using assms(1) t0 at t1 by (auto simp: execute_spec_def res)
  obtain ke where ke: "rn_executors r (js_kind spec) = Some ke" "ladder_rank (rn_ladder r) (marking (spec_label spec)) \<noteq> None"
    using at res by (auto simp: attempt_def split: option.splits if_splits)
  obtain inputs shas' w1 where f: "fetch_inputs r sha (js_inputs spec) [] [] w0 = (Inr (inputs, shas'), w1)"
    using at res ke by (cases "fetch_inputs r sha (js_inputs spec) [] [] w0"; cases "fst (fetch_inputs r sha (js_inputs spec) [] [] w0)")
      (auto simp: attempt_def)
  obtain ex where ex: "(if js_executor spec = 2 then rn_container r else Some ke) = Some ex"
    using at res ke f by (cases "if js_executor spec = 2 then rn_container r else Some ke") (auto simp: attempt_def)
  have p: "produce r streaming spec (spec_label spec) ex inputs shas' w1 = (Inr (outputs, manifest), w3)" "shas = shas'"
    using at res ke f ex
    by (cases "produce r streaming spec (spec_label spec) ex inputs shas' w1";
        cases "fst (produce r streaming spec (spec_label spec) ex inputs shas' w1)"; auto simp: attempt_def)+
  obtain raw w2 where raw: "run_executor r streaming spec (spec_label spec) ex inputs w1 = (Inr raw, w2)"
    using p by (auto simp: produce_def split: prod.splits sum.splits)
  have o: "put_outputs r (spec_label spec) shas' raw [] [] w2 = (Inr (outputs, manifest), w3)"
    and few: "\<not> 1 < length (filter jo_manifest raw)" "\<not> (length (filter jo_manifest raw) = 1 \<and> \<not> ex_declares_manifest ex)"
    using p raw by (auto simp: produce_def Let_def split: if_splits)
  from few have n: "length (filter jo_manifest raw) \<le> (if ex_declares_manifest ex then 1 else 0)"
    by (cases "ex_declares_manifest ex"; simp only: if_True if_False; linarith)
  have "map ji_asset inputs = js_inputs spec" "shas = map as_sha256 (js_inputs spec)"
    "list_all (\<lambda>i. hex_decode (as_sha256 (ji_asset i)) = Some (digest_bytes (sha (ji_bytes i)))) inputs"
    using fetch_inputs_ok [OF f] p(2) by auto
  moreover from put_outputs_ok [OF o] have out: "list_all2 (stored_as r (spec_label spec)) raw outputs"
    and m: "manifest = foldl (\<lambda>m (out, a). if jo_manifest out then as_sha256 a else m) [] (zip raw outputs)"
    by auto
  note len = list_all2_lengthD [OF out]
  have one: "length (filter jo_manifest raw) \<le> 1" using few(1) by linarith
  have found: "\<forall>(out, a) \<in> set (zip raw outputs). jo_manifest out \<longrightarrow> manifest = as_sha256 a"
    unfolding m using manifest_found(2) [OF len one] by auto
  have none: "(\<forall>out \<in> set raw. \<not> jo_manifest out) \<longrightarrow> manifest = []"
    unfolding m using manifest_found(1) [OF len] by auto
  have "manifest \<in> insert [] (as_sha256 ` set outputs)"
  proof (cases "\<exists>out \<in> set raw. jo_manifest out")
    case True
    then obtain i where "i < length raw" "jo_manifest (raw ! i)" by (auto simp: in_set_conv_nth)
    then have "(raw ! i, outputs ! i) \<in> set (zip raw outputs)" using len by (auto simp: in_set_zip)
    then show ?thesis using found \<open>jo_manifest (raw ! i)\<close> by (auto dest: set_zip_rightD)
  qed (use none in auto)
  ultimately show ?thesis using c ke ex raw n out found none len
    by (intro exI [of _ ex] exI [of _ inputs] exI [of _ raw] exI [of _ w1] exI [of _ w2]) auto
qed

lemma execute_spec_job_id: "execute_spec r sha enc_spec streaming spec w = (c, w') \<Longrightarrow> jc_job_id c = js_job_id spec"
  by (auto simp: execute_spec_def Let_def split: prod.splits sum.splits)

text \<open>The open jobs executed one after the other, each once.\<close>

fun executions :: "'w runner \<Rightarrow> (bytes \<Rightarrow> digest) \<Rightarrow> (job_spec \<Rightarrow> bytes) \<Rightarrow> job_spec list \<Rightarrow> 'w \<Rightarrow> job_completion list \<times> 'w" where
  "executions r sha enc_spec [] w = ([], w)"
| "executions r sha enc_spec (spec # specs) w =
     (let (c, w) = execute_spec r sha enc_spec False spec w; (cs, w) = executions r sha enc_spec specs w in (c # cs, w))"

lemma run_each_holds:
  fixes dec :: "bytes \<Rightarrow> 'x + job_record"
  assumes "log_holds sha enc dec rs q dir"
    and "\<forall>spec\<in>set specs. \<forall>w. buffered enc dec (Jr_Completed (fst (execute_spec r sha enc_spec False spec w)))"
  shows "\<exists>cs q' dir' w'. (run_each r sha enc enc_spec WriteOk specs (q, dir, w) :: ('x job_error + _) \<times> _) = (Inr cs, q', dir', w') \<and>
    map jc_job_id cs = map js_job_id specs \<and> log_holds sha enc dec (rs @ map Jr_Completed cs) q' dir' \<and>
    executions r sha enc_spec specs w = (cs, w')"
  using assms
proof (induction specs arbitrary: rs q dir w)
  case (Cons spec specs)
  obtain c w1 where c: "execute_spec r sha enc_spec False spec w = (c, w1)" by fastforce
  have "fst (execute_spec r sha enc_spec False spec w) = c" by (simp add: c)
  then have "buffered enc dec (Jr_Completed c)" using Cons.prems(2) by force
  from complete_holds [OF Cons.prems(1) this] obtain q1 dir1 where
    q1: "(queue_complete sha enc WriteOk c q dir :: ('x job_error + unit) \<times> _) = (Inr (), q1, dir1)"
    "log_holds sha enc dec (rs @ [Jr_Completed c]) q1 dir1" by blast
  from Cons.IH [OF q1(2)] Cons.prems(2) obtain cs q2 dir2 w2 where
    each: "(run_each r sha enc enc_spec WriteOk specs (q1, dir1, w1) :: ('x job_error + _) \<times> _) = (Inr cs, q2, dir2, w2)"
    "map jc_job_id cs = map js_job_id specs" "log_holds sha enc dec ((rs @ [Jr_Completed c]) @ map Jr_Completed cs) q2 dir2"
    "executions r sha enc_spec specs w1 = (cs, w2)"
    by fastforce
  show ?case using each q1(1) c execute_spec_job_id [OF c] by (simp add: run_one_def)
qed simp

lemma open_jobs_append_completed:
  "open_jobs (rs @ map Jr_Completed cs) = filter (\<lambda>s. js_job_id s \<notin> jc_job_id ` set cs) (open_jobs rs)"
proof -
  have "List.map_filter as_submitted (map Jr_Completed cs) = []" "List.map_filter as_completed (map Jr_Completed cs) = cs"
    by (induction cs) simp_all
  then show ?thesis
    by (auto simp: open_jobs_def completed_ids_def submitted_specs_def List.map_filter_def conj_commute intro!: filter_cong)
qed

text \<open>
  C26: Running the pending jobs drains the queue: on a queue whose appends are written, every open job
  is executed once and in the order of its submission, whatever the executors, the object stores and
  the clock answer; each gets its completion in the log, failures included; afterwards nothing is pending.
\<close>

theorem run_pending_drains:
  fixes dec :: "bytes \<Rightarrow> 'x + job_record"
  assumes "queue_holds sha enc dec rs (q, dir)"
    and "\<forall>spec\<in>set (open_jobs rs). \<forall>w. buffered enc dec (Jr_Completed (fst (execute_spec r sha enc_spec False spec w)))"
  shows "\<exists>cs q' dir' w'. run_pending r sha enc dec enc_spec True WriteOk (q, dir, w) = (Inr cs, q', dir', w') \<and>
    map jc_job_id cs = map js_job_id (open_jobs rs) \<and> log_holds sha enc dec (rs @ map Jr_Completed cs) q' dir' \<and>
    queue_pending dec True q' dir' = Inr [] \<and> executions r sha enc_spec (open_jobs rs) w = (cs, w')"
proof -
  have h: "log_holds sha enc dec rs q dir" using assms(1) by (simp add: queue_holds_def)
  from run_each_holds [OF h assms(2), of w] obtain cs q' dir' w' where
    each: "(run_each r sha enc enc_spec WriteOk (open_jobs rs) (q, dir, w) :: ('x job_error + _) \<times> _) = (Inr cs, q', dir', w')"
    "map jc_job_id cs = map js_job_id (open_jobs rs)" "log_holds sha enc dec (rs @ map Jr_Completed cs) q' dir'"
    "executions r sha enc_spec (open_jobs rs) w = (cs, w')" by blast
  have "jc_job_id ` set cs = js_job_id ` set (open_jobs rs)" using each(2) by (metis set_map)
  then have "open_jobs (rs @ map Jr_Completed cs) = []" by (auto simp: open_jobs_append_completed filter_empty_conv)
  then show ?thesis using each pending_holds [OF h] pending_holds [OF each(3)] by (simp add: run_pending_def)
qed

section \<open>Witnesses\<close>

text \<open>A store that holds one object, an executor that copies its input, and a runner with both.\<close>

definition wit_asset :: asset_ref where
  "wit_asset = \<lparr>as_uri = ''u'', as_sha256 = hex_encode (digest_bytes 5), as_size_bytes = 1, as_media_type = [], as_label = None, as_rest = []\<rparr>"

definition wit_copy :: "unit executor" where
  "wit_copy =
     (let run = (\<lambda>spec inputs w. (Inr (map (\<lambda>i. \<lparr>jo_bytes = ji_bytes i, jo_media_type = ''m'', jo_manifest = False\<rparr>) inputs), w))
      in \<lparr>ex_execute = run, ex_streaming = default_streaming run, ex_declares_manifest = False\<rparr>)"

definition wit_runner :: "unit runner" where
  "wit_runner =
     \<lparr>rn_executors = [''tiler'' \<mapsto> wit_copy], rn_container = None,
      rn_source = (\<lambda>a w. (Inr [7], w)),
      rn_sink = (\<lambda>bs media lab w. (Inr (wit_asset\<lparr>as_media_type := media, as_label := Some lab\<rparr>), w)),
      rn_ladder = \<lparr>ld_markings = [''low'']\<rparr>, rn_clock = (\<lambda>w. (0, w))\<rparr>"

definition wit_copy_spec :: job_spec where
  "wit_copy_spec = wit_spec\<lparr>js_inputs := [wit_asset], js_label := Some \<lparr>marking = ''low'', caveats = []\<rparr>\<rparr>"

definition wit_completed :: job_completion where
  "wit_completed = fst (execute_spec wit_runner (\<lambda>_. 5) (\<lambda>_. []) False wit_copy_spec ())"

definition wit_run_dec :: "bytes \<Rightarrow> unit + job_record" where
  "wit_run_dec bs = (if bs = [1] then Inr (Jr_Submitted wit_copy_spec) else Inr (Jr_Completed wit_completed))"

lemma wit_fields:
  "js_kind wit_copy_spec = ''tiler''" "js_inputs wit_copy_spec = [wit_asset]" "js_executor wit_copy_spec = 1"
  "js_job_id wit_copy_spec = ''j1''"
  by (simp_all add: wit_copy_spec_def wit_spec_def)

lemma wit_fetched:
  "fetch_inputs wit_runner (\<lambda>_. 5) (js_inputs wit_copy_spec) [] [] () =
     (Inr ([\<lparr>ji_asset = wit_asset, ji_bytes = [7]\<rparr>], [as_sha256 wit_asset]), ())"
  by (simp add: wit_runner_def wit_copy_spec_def wit_asset_def wit_spec_def hex_round_trip)

lemma wit_ran: "jc_ok wit_completed"
  using wit_fetched
  by (simp add: wit_completed_def execute_spec_def attempt_def produce_def run_executor_def wit_copy_def spec_label_def Let_def
      wit_runner_def wit_copy_spec_def wit_spec_def ladder_rank_def)

theorem successful_jobs_ran_on_verified_inputs_witness:
  "\<exists>inputs :: job_input list. map ji_asset inputs = [wit_asset] \<and>
     list_all (\<lambda>i. hex_decode (as_sha256 (ji_asset i)) = Some (digest_bytes 5)) inputs \<and>
     jc_input_sha256 wit_completed = [as_sha256 wit_asset] \<and> length (jc_outputs wit_completed) = 1"
proof -
  have "execute_spec wit_runner (\<lambda>_. 5) (\<lambda>_. []) False wit_copy_spec () = (wit_completed, ())"
    unfolding wit_completed_def by (metis old.unit.exhaust prod.collapse)
  from successful_jobs_ran_on_verified_inputs [OF this wit_ran] show ?thesis
  proof (elim exE conjE, goal_cases)
    case (1 ex inputs raw w1 w2)
    have "length raw = length inputs" using 1(3,6) by (auto simp: wit_fields wit_runner_def run_executor_def wit_copy_def Let_def)
    moreover have "length inputs = 1" using arg_cong [OF 1(4), of length] by (simp add: wit_fields)
    ultimately show ?case using 1(4,5,10,11) unfolding wit_fields list.map by (intro exI [of _ inputs]) simp
  qed
qed

theorem run_pending_drains_witness:
  "\<exists>c q' dir' w'.
     run_pending wit_runner (\<lambda>_. 5) wit_enc wit_run_dec (\<lambda>_. []) True WriteOk
       (wit_queue\<lparr>jl_tip_hash := digest_bytes 5, jl_record_count := 1\<rparr>,
        [''q1.avjobs'' \<mapsto> frame_bytes (\<lambda>_. 5) GENESIS [1]], ()) = (Inr [c], q', dir', w') \<and>
     jc_job_id c = ''j1'' \<and> queue_pending wit_run_dec True q' dir' = Inr []"
proof -
  let ?q = "wit_queue\<lparr>jl_tip_hash := digest_bytes 5, jl_record_count := 1\<rparr>"
  let ?dir = "[''q1.avjobs'' \<mapsto> frame_bytes (\<lambda>_. 5) GENESIS [1]]"
  have b: "buffered wit_enc wit_run_dec (Jr_Submitted wit_copy_spec)" "buffered wit_enc wit_run_dec (Jr_Completed wit_completed)"
    by (simp_all add: buffered_def wit_enc_def wit_run_dec_def fits_def)
  have h: "queue_holds (\<lambda>_. 5) wit_enc wit_run_dec [Jr_Submitted wit_copy_spec] (?q, ?dir)"
    using b(1)
    by (simp add: queue_holds_def log_holds_def wit_queue_def submitted_ids_def validate_Inr_iff string_bytes_def allowed_byte_def
        is_ascii_alphanumeric_def word_le_nat_alt wit_enc_def compute_batch_hash_def chain_head_Cons)
  have op: "open_jobs [Jr_Submitted wit_copy_spec] = [wit_copy_spec]"
    by (simp add: open_jobs_def completed_ids_def submitted_specs_def List.map_filter_def)
  have all: "\<forall>spec\<in>set (open_jobs [Jr_Submitted wit_copy_spec]).
      \<forall>w. buffered wit_enc wit_run_dec (Jr_Completed (fst (execute_spec wit_runner (\<lambda>_. 5) (\<lambda>_. []) False spec w)))"
    using b(2) by (simp add: op wit_completed_def)
  from run_pending_drains [OF h all, of "()"] show ?thesis
    by (auto simp: op wit_fields)
qed

end
