(* ===== verification/Http_Message.thy ===== *)
theory Http_Message
  imports Prelude "HOL-Library.Sublist"
begin

text \<open>
  Requests and responses of the HTTP/1.1 client: \<open>av-http1/src/message.rs\<close>, \<open>error.rs\<close> and the request
  head that \<open>client.rs\<close> writes. Texts and bodies are lists of bytes. Texts inside errors are
  constructors with the printed values.
\<close>

section \<open>Bytes\<close>

definition code :: "char \<Rightarrow> nat" where
  "code c = of_char c"

abbreviation CR :: char where "CR \<equiv> CHR 0x0D"
abbreviation LF :: char where "LF \<equiv> CHR 0x0A"
abbreviation crlf :: string where "crlf \<equiv> [CR, LF]"

definition ascii_digit :: "char \<Rightarrow> bool" where
  "ascii_digit c \<longleftrightarrow> 48 \<le> code c \<and> code c \<le> 57"

definition ascii_upper :: "char \<Rightarrow> bool" where
  "ascii_upper c \<longleftrightarrow> 65 \<le> code c \<and> code c \<le> 90"

definition ascii_alnum :: "char \<Rightarrow> bool" where
  "ascii_alnum c \<longleftrightarrow> ascii_digit c \<or> ascii_upper c \<or> 97 \<le> code c \<and> code c \<le> 122"

definition to_lower :: "char \<Rightarrow> char" where
  "to_lower c = (if ascii_upper c then char_of (code c + 32) else c)"

definition eq_ignore_case :: "string \<Rightarrow> string \<Rightarrow> bool" where
  "eq_ignore_case s t \<longleftrightarrow> map to_lower s = map to_lower t"

definition is_tchar :: "char \<Rightarrow> bool" where
  "is_tchar c \<longleftrightarrow> ascii_alnum c \<or> code c \<in> {33, 35, 36, 37, 38, 39, 42, 43, 45, 46, 94, 95, 96, 124, 126}"

section \<open>Errors\<close>

datatype http_phase = Ph_Connect | Ph_TlsHandshake | Ph_Write | Ph_Read

datatype request_problem =
    Rp_Method string
  | Rp_PathStart string
  | Rp_PathByte char
  | Rp_HeaderName string
  | Rp_ClientOwned string
  | Rp_HeaderValue string

datatype protocol_problem =
    Pp_ClosedBeforeResponse
  | Pp_ClosedInHead
  | Pp_ClosedInChunked
  | Pp_Truncated string nat
  | Pp_NoCloseNotify
  | Pp_SwitchingProtocols
  | Pp_ChunkSizeLineTooLong
  | Pp_BadChunkSize string
  | Pp_ChunkNotTerminated
  | Pp_BothFramings
  | Pp_UnsupportedCoding string
  | Pp_BadContentLength string
  | Pp_ContentLengthOverflow string
  | Pp_ConflictingLengths
  | Pp_Nul
  | Pp_BareCrLf
  | Pp_Folding
  | Pp_NoColon string
  | Pp_HeaderName string
  | Pp_StatusLine string
  | Pp_StatusRange nat

datatype http_error =
    He_Unreachable string string
  | He_Timeout http_phase string
  | He_Tls string string
  | He_InvalidRequest request_problem
  | He_Protocol protocol_problem
  | He_HeaderTooLarge nat
  | He_BodyTooLarge nat
  | He_Io http_phase string string

section \<open>Requests\<close>

record http_request =
  rq_method :: string
  rq_target :: string
  rq_headers :: "(string \<times> string) list"
  rq_body :: string

definition request_new :: "string \<Rightarrow> string \<Rightarrow> http_request" where
  "request_new m t = \<lparr>rq_method = m, rq_target = t, rq_headers = [], rq_body = []\<rparr>"

definition request_header :: "http_request \<Rightarrow> string \<Rightarrow> string \<Rightarrow> http_request" where
  "request_header r name v = r\<lparr>rq_headers := rq_headers r @ [(name, v)]\<rparr>"

definition request_body :: "http_request \<Rightarrow> string \<Rightarrow> http_request" where
  "request_body r b = r\<lparr>rq_body := b\<rparr>"

definition client_owned :: "string list" where
  "client_owned = [''host'', ''content-length'', ''transfer-encoding'', ''connection'']"

fun validate_headers :: "(string \<times> string) list \<Rightarrow> http_error + unit" where
  "validate_headers [] = Inr ()"
| "validate_headers ((name, v) # hs) =
     (if name = [] \<or> \<not> list_all is_tchar name then Inl (He_InvalidRequest (Rp_HeaderName name))
      else if list_ex (eq_ignore_case name) client_owned then Inl (He_InvalidRequest (Rp_ClientOwned name))
      else if list_ex (\<lambda>b. code b < 0x20 \<and> code b \<noteq> 9 \<or> code b = 0x7F) v then Inl (He_InvalidRequest (Rp_HeaderValue name))
      else validate_headers hs)"

definition request_validate :: "http_request \<Rightarrow> http_error + unit" where
  "request_validate r =
     (if rq_method r = [] \<or> \<not> list_all is_tchar (rq_method r) then Inl (He_InvalidRequest (Rp_Method (rq_method r)))
      else if take 1 (rq_target r) \<noteq> ''/'' then Inl (He_InvalidRequest (Rp_PathStart (rq_target r)))
      else
        case find (\<lambda>b. code b \<le> 0x20 \<or> 0x7F \<le> code b \<or> b = CHR ''#'') (rq_target r) of
          Some b \<Rightarrow> Inl (He_InvalidRequest (Rp_PathByte b))
        | None \<Rightarrow> validate_headers (rq_headers r))"

text \<open>Of the endpoint, the request head takes the base path and the text of the Host header.\<close>

record http_endpoint =
  ep_base_path :: string
  ep_host_header :: string

definition header_line :: "string \<times> string \<Rightarrow> string" where
  "header_line h = fst h @ '': '' @ snd h @ crlf"

definition encode_head :: "http_endpoint \<Rightarrow> http_request \<Rightarrow> string" where
  "encode_head ep r =
     rq_method r @ '' '' @ ep_base_path ep @ rq_target r @ '' HTTP/1.1'' @ crlf @ ''Host: '' @ ep_host_header ep @ crlf @
     concat (map header_line (rq_headers r)) @
     (if rq_body r \<noteq> [] \<or> list_ex (eq_ignore_case (rq_method r)) [''POST'', ''PUT'', ''PATCH'']
      then ''Content-Length: '' @ show_nat (length (rq_body r)) @ crlf else []) @
     ''Connection: close'' @ crlf @ crlf"

section \<open>Responses\<close>

record http_response =
  rs_status :: nat
  rs_reason :: string
  rs_headers :: "(string \<times> string) list"
  rs_body :: string

definition header_all :: "http_response \<Rightarrow> string \<Rightarrow> string list" where
  "header_all r name = map snd (filter (\<lambda>h. eq_ignore_case (fst h) name) (rs_headers r))"

definition response_header :: "http_response \<Rightarrow> string \<Rightarrow> string option" where
  "response_header r name = map_option snd (find (\<lambda>h. eq_ignore_case (fst h) name) (rs_headers r))"

definition is_success :: "http_response \<Rightarrow> bool" where
  "is_success r \<longleftrightarrow> 200 \<le> rs_status r \<and> rs_status r < 300"

lemma response_header_first: "response_header r name = (case header_all r name of [] \<Rightarrow> None | v # vs \<Rightarrow> Some v)"
proof -
  have "map_option snd (find P hs) = (case map snd (filter P hs) of [] \<Rightarrow> None | v # vs \<Rightarrow> Some v)"
    for P and hs :: "(string \<times> string) list"
    by (induction hs) auto
  then show ?thesis by (simp add: response_header_def header_all_def)
qed

end
