(* ===== verification/Http_Wire.thy ===== *)
theory Http_Wire
  imports Http_Message
begin

text \<open>
  The response reader of the HTTP/1.1 client: \<open>av-http1/src/wire.rs\<close>. A connection is the list of what
  its reads return, an error or some bytes; no bytes is the end of the stream. The reader's buffer
  and position are those of the code. The theorems compare it with a parser of the whole byte
  string: how the bytes are cut into reads makes no difference.
\<close>

section \<open>Finding and trimming\<close>

fun find_sub :: "string \<Rightarrow> string \<Rightarrow> nat option" where
  "find_sub nd [] = None"
| "find_sub nd (c # cs) = (if prefix nd (c # cs) then Some 0 else map_option Suc (find_sub nd cs))"

definition is_ows :: "char \<Rightarrow> bool" where
  "is_ows c \<longleftrightarrow> c = CHR '' '' \<or> code c = 9"

definition trim_ows_end :: "string \<Rightarrow> string" where
  "trim_ows_end s = rev (dropWhile is_ows (rev s))"

definition trim_ows :: "string \<Rightarrow> string" where
  "trim_ows s = dropWhile is_ows (trim_ows_end s)"

text \<open>The white space that \<open>str::trim\<close> removes, in UTF-8.\<close>

definition white_chars :: "string list" where
  "white_chars =
     map (\<lambda>n. [char_of n]) [9 :: nat, 10, 11, 12, 13, 32] @
     map (map char_of) [[0xC2 :: nat, 0x85], [0xC2, 0xA0], [0xE1, 0x9A, 0x80]] @
     map (\<lambda>n. map char_of [0xE2, 0x80, n]) ([0x80 ..< 0x8B] @ [0xA8, 0xA9, 0xAF]) @
     map (map char_of) [[0xE2 :: nat, 0x81, 0x9F], [0xE3, 0x80, 0x80]]"

function trim_front :: "string list \<Rightarrow> string \<Rightarrow> string" where
  "trim_front ws s =
     (case find (\<lambda>w. w \<noteq> [] \<and> prefix w s) ws of
        None \<Rightarrow> s
      | Some w \<Rightarrow> trim_front ws (drop (length w) s))"
  by pat_completeness auto
termination
proof (relation "measure (\<lambda>(ws, s). length s)")
  fix ws s w
  assume "find (\<lambda>w. w \<noteq> [] \<and> prefix w s) ws = Some w"
  then have "w \<noteq> []" "prefix w s" by (auto simp: find_Some_iff)
  then show "((ws, drop (length w) s), (ws, s)) \<in> measure (\<lambda>(ws, s). length s)"
    by (auto simp: prefix_def)
qed simp

declare trim_front.simps [simp del]

definition str_trim :: "string \<Rightarrow> string" where
  "str_trim s = rev (trim_front (map rev white_chars) (rev (trim_front white_chars s)))"

text \<open>\<open>String::from_utf8_lossy\<close>: the replacement character stands for each broken sequence.\<close>

definition utf8_width :: "char \<Rightarrow> nat" where
  "utf8_width c =
     (if code c < 0x80 then 1
      else if 0xC2 \<le> code c \<and> code c \<le> 0xDF then 2
      else if 0xE0 \<le> code c \<and> code c \<le> 0xEF then 3
      else if 0xF0 \<le> code c \<and> code c \<le> 0xF4 then 4 else 0)"

definition utf8_second :: "char \<Rightarrow> char \<Rightarrow> bool" where
  "utf8_second c d \<longleftrightarrow>
     (if code c = 0xE0 then 0xA0 else if code c = 0xF0 then 0x90 else 0x80) \<le> code d \<and>
     code d \<le> (if code c = 0xED then 0x9F else if code c = 0xF4 then 0x8F else 0xBF)"

definition utf8_good :: "char \<Rightarrow> string \<Rightarrow> nat" where
  "utf8_good c cs =
     (case take (utf8_width c - 1) cs of
        [] \<Rightarrow> 0
      | d # ds \<Rightarrow> if utf8_second c d then Suc (length (takeWhile (\<lambda>b. 0x80 \<le> code b \<and> code b \<le> 0xBF) ds)) else 0)"

function utf8_lossy :: "string \<Rightarrow> string" where
  "utf8_lossy [] = []"
| "utf8_lossy (c # cs) =
     (if utf8_width c \<noteq> 0 \<and> utf8_good c cs = utf8_width c - 1
      then c # take (utf8_good c cs) cs @ utf8_lossy (drop (utf8_good c cs) cs)
      else map char_of [0xEF :: nat, 0xBF, 0xBD] @ utf8_lossy (drop (utf8_good c cs) cs))"
  by pat_completeness auto
termination by (relation "measure length") auto

section \<open>The head of a response\<close>

type_synonym http_head = "nat \<times> string \<times> (string \<times> string) list"

function split_crlf :: "string \<Rightarrow> string list" where
  "split_crlf h =
     (case find_sub crlf h of
        None \<Rightarrow> [h]
      | Some i \<Rightarrow> take i h # split_crlf (drop (i + 2) h))"
  by pat_completeness auto
termination
proof (relation "measure length")
  fix h :: string and i
  assume "find_sub crlf h = Some i"
  then have "h \<noteq> []" by auto
  then show "(drop (i + 2) h, h) \<in> measure length" by simp
qed simp

declare split_crlf.simps [simp del]

definition parse_status_line :: "string \<Rightarrow> http_error + nat \<times> string" where
  "parse_status_line line =
     (let bad = Inl (He_Protocol (Pp_StatusLine (utf8_lossy (take 60 line))));
          rest = drop 9 line in
      if \<not> (prefix ''HTTP/1.1 '' line \<or> prefix ''HTTP/1.0 '' line) then bad
      else if length rest < 3 \<or> \<not> list_all ascii_digit (take 3 rest) \<or> \<not> (length rest = 3 \<or> rest ! 3 = CHR '' '') then bad
      else
        let status = (code (rest ! 0) - 48) * 100 + (code (rest ! 1) - 48) * 10 + (code (rest ! 2) - 48) in
        if status < 100 then Inl (He_Protocol (Pp_StatusRange status))
        else Inr (status, if 4 < length rest then utf8_lossy (drop 4 rest) else []))"

fun parse_header_lines :: "string list \<Rightarrow> http_error + (string \<times> string) list" where
  "parse_header_lines [] = Inr []"
| "parse_header_lines (line # ls) =
     (if line \<noteq> [] \<and> is_ows (hd line) then Inl (He_Protocol Pp_Folding)
      else if CHR '':'' \<notin> set line then Inl (He_Protocol (Pp_NoColon (utf8_lossy (take 40 line))))
      else
        let name = takeWhile (\<lambda>c. c \<noteq> CHR '':'') line in
        if name = [] \<or> \<not> list_all is_tchar name then Inl (He_Protocol (Pp_HeaderName (utf8_lossy (take 40 name))))
        else
          ebind (parse_header_lines ls) (\<lambda>hs.
            Inr ((utf8_lossy name, utf8_lossy (trim_ows (drop (Suc (length name)) line))) # hs)))"

definition parse_head :: "string \<Rightarrow> http_error + http_head" where
  "parse_head h =
     (if CHR 0x00 \<in> set h then Inl (He_Protocol Pp_Nul)
      else if list_ex (\<lambda>l. CR \<in> set l \<or> LF \<in> set l) (split_crlf h) then Inl (He_Protocol Pp_BareCrLf)
      else
        ebind (parse_status_line (hd (split_crlf h))) (\<lambda>(status, reason).
        ebind (parse_header_lines (tl (split_crlf h))) (\<lambda>hs. Inr (status, reason, hs))))"

datatype body_framing = Fr_NoBody | Fr_Length nat | Fr_Chunked | Fr_Close

definition digits_nat :: "string \<Rightarrow> nat" where
  "digits_nat = foldl (\<lambda>n c. n * 10 + (code c - 48)) 0"

fun content_length :: "nat option \<Rightarrow> string list \<Rightarrow> http_error + nat option" where
  "content_length parsed [] = Inr parsed"
| "content_length parsed (v # vs) =
     (if v = [] \<or> \<not> list_all ascii_digit v then Inl (He_Protocol (Pp_BadContentLength v))
      else if 2 ^ 64 \<le> digits_nat v then Inl (He_Protocol (Pp_ContentLengthOverflow v))
      else if parsed \<noteq> None \<and> parsed \<noteq> Some (digits_nat v) then Inl (He_Protocol Pp_ConflictingLengths)
      else content_length (Some (digits_nat v)) vs)"

definition values_of :: "(string \<times> string) list \<Rightarrow> string \<Rightarrow> string list" where
  "values_of hs name = map snd (filter (\<lambda>h. eq_ignore_case (fst h) name) hs)"

definition elements :: "string list \<Rightarrow> string list" where
  "elements vs = map str_trim (concat (map (split_on CHR '','') vs))"

definition framing :: "nat \<Rightarrow> (string \<times> string) list \<Rightarrow> bool \<Rightarrow> http_error + body_framing" where
  "framing status hs is_head =
     (let te = values_of hs ''transfer-encoding''; cl = values_of hs ''content-length'' in
      if te \<noteq> [] \<and> cl \<noteq> [] then Inl (He_Protocol Pp_BothFramings)
      else if is_head \<or> status = 204 \<or> status = 304 then Inr Fr_NoBody
      else if te \<noteq> [] then
        (if length (elements te) = 1 \<and> eq_ignore_case (hd (elements te)) ''chunked'' then Inr Fr_Chunked
         else Inl (He_Protocol (Pp_UnsupportedCoding (join '', '' te))))
      else if cl \<noteq> [] then
        ebind (content_length None (elements cl)) (\<lambda>n. Inr (Fr_Length (case n of None \<Rightarrow> 0 | Some k \<Rightarrow> k)))
      else Inr Fr_Close)"


section \<open>The reader\<close>

text \<open>
  A source: what its reads will return, and whether its end of stream is an unclean one. A read
  returns at most as many bytes as its buffer holds.
\<close>

record source =
  so_reads :: "(http_error + string) list"
  so_unclean :: bool

record reader =
  rd_src :: source
  rd_buf :: string
  rd_pos :: nat

record limits =
  max_header_bytes :: nat
  max_body_bytes :: nat

fun read_some :: "nat \<Rightarrow> (http_error + string) list \<Rightarrow> (http_error + string) \<times> (http_error + string) list" where
  "read_some room [] = (Inr [], [])"
| "read_some room (Inl e # rs) = (Inl e, rs)"
| "read_some room (Inr bs # rs) =
     (if length bs \<le> room then (Inr bs, rs) else (Inr (take room bs), Inr (drop room bs) # rs))"

definition reader_new :: "source \<Rightarrow> reader" where
  "reader_new src = \<lparr>rd_src = src, rd_buf = [], rd_pos = 0\<rparr>"

definition available :: "reader \<Rightarrow> string" where
  "available rd = drop (rd_pos rd) (rd_buf rd)"

definition compact :: "reader \<Rightarrow> reader" where
  "compact rd =
     (if rd_pos rd = length (rd_buf rd) then rd\<lparr>rd_buf := [], rd_pos := 0\<rparr>
      else if 32 * 1024 < rd_pos rd then rd\<lparr>rd_buf := available rd, rd_pos := 0\<rparr>
      else rd)"

definition read_room :: nat where
  "read_room = 16 * 1024"

definition fill :: "reader \<Rightarrow> (http_error + nat) \<times> reader" where
  "fill rd =
     (let rd = compact rd; (r, rs) = read_some read_room (so_reads (rd_src rd));
          rd = rd\<lparr>rd_src := (rd_src rd)\<lparr>so_reads := rs\<rparr>\<rparr> in
      case r of
        Inl e \<Rightarrow> (Inl e, rd)
      | Inr bs \<Rightarrow> (Inr (length bs), rd\<lparr>rd_buf := rd_buf rd @ bs\<rparr>))"

definition consume :: "nat \<Rightarrow> reader \<Rightarrow> reader" where
  "consume n rd = rd\<lparr>rd_pos := rd_pos rd + n\<rparr>"

text \<open>What a connection still has to say: its bytes up to the end or the first error, and which of the two it is.\<close>

fun src_bytes :: "(http_error + string) list \<Rightarrow> string" where
  "src_bytes [] = []"
| "src_bytes (Inl e # rs) = []"
| "src_bytes (Inr bs # rs) = (if bs = [] then [] else bs @ src_bytes rs)"

fun src_end :: "(http_error + string) list \<Rightarrow> http_error option" where
  "src_end [] = None"
| "src_end (Inl e # rs) = Some e"
| "src_end (Inr bs # rs) = (if bs = [] then None else src_end rs)"

definition reads_size :: "reader \<Rightarrow> nat" where
  "reads_size rd = length (src_bytes (so_reads (rd_src rd)))"

definition stream :: "reader \<Rightarrow> string" where
  "stream rd = available rd @ src_bytes (so_reads (rd_src rd))"

text \<open>How a reader stands: the bytes to come, the error behind them, and the kind of end.\<close>

definition stands :: "reader \<Rightarrow> string \<Rightarrow> http_error option \<Rightarrow> bool \<Rightarrow> bool" where
  "stands rd s e u \<longleftrightarrow>
     rd_pos rd \<le> length (rd_buf rd) \<and> stream rd = s \<and> src_end (so_reads (rd_src rd)) = e \<and> so_unclean (rd_src rd) = u"

lemma room_pos: "0 < read_room"
  by (simp add: read_room_def)

lemma read_some_spec:
  "0 < room \<Longrightarrow>
   (case read_some room rs of
      (Inl e, rs') \<Rightarrow> src_bytes rs = [] \<and> src_end rs = Some e
    | (Inr bs, rs') \<Rightarrow>
        if bs = [] then src_bytes rs = [] \<and> src_end rs = None
        else src_bytes rs = bs @ src_bytes rs' \<and> src_end rs' = src_end rs)"
  by (induction room rs rule: read_some.induct) auto

lemma compact_simps [simp]:
  "rd_src (compact rd) = rd_src rd"
  "rd_pos rd \<le> length (rd_buf rd) \<Longrightarrow> available (compact rd) = available rd"
  "rd_pos rd \<le> length (rd_buf rd) \<Longrightarrow> rd_pos (compact rd) \<le> length (rd_buf (compact rd))"
  by (auto simp: compact_def available_def)

lemma fill_size: "fill rd = (Inr n, rd') \<Longrightarrow> n \<noteq> 0 \<Longrightarrow> reads_size rd' < reads_size rd"
  using read_some_spec [of read_room "so_reads (rd_src rd)"]
  by (auto simp: fill_def room_pos Let_def reads_size_def split: prod.splits sum.splits if_splits)

lemma fill_size': "(Inr n, rd') = fill rd \<Longrightarrow> 0 < n \<Longrightarrow> reads_size rd' < reads_size rd"
  using fill_size [of rd n rd'] by simp

lemma fill_stands:
  assumes "stands rd s e u"
  shows "case fill rd of
      (Inl err, rd') \<Rightarrow> e = Some err \<and> available rd = s
    | (Inr n, rd') \<Rightarrow>
        if n = 0 then e = None \<and> available rd = s \<and> available rd' = s \<and> so_unclean (rd_src rd') = u
        else stands rd' s e u \<and> length (available rd) < length (available rd')"
proof -
  obtain r rs where rs: "read_some read_room (so_reads (rd_src rd)) = (r, rs)" by fastforce
  have sp: "case r of Inl e' \<Rightarrow> src_bytes (so_reads (rd_src rd)) = [] \<and> src_end (so_reads (rd_src rd)) = Some e'
    | Inr bs \<Rightarrow> if bs = [] then src_bytes (so_reads (rd_src rd)) = [] \<and> src_end (so_reads (rd_src rd)) = None
        else src_bytes (so_reads (rd_src rd)) = bs @ src_bytes rs \<and> src_end rs = src_end (so_reads (rd_src rd))"
    using read_some_spec [of read_room "so_reads (rd_src rd)"] by (simp add: rs room_pos)
  have pos: "rd_pos rd \<le> length (rd_buf rd)" using assms by (simp add: stands_def)
  note c = compact_simps(2,3) [OF pos, unfolded available_def]
  show ?thesis
  proof (cases r)
    case (Inl err)
    then show ?thesis using sp assms c(1) by (simp add: fill_def rs stands_def stream_def available_def)
  next
    case (Inr bs)
    define rd' where "rd' = (compact rd)\<lparr>rd_src := (rd_src rd)\<lparr>so_reads := rs\<rparr>, rd_buf := rd_buf (compact rd) @ bs\<rparr>"
    have f: "fill rd = (Inr (length bs), rd')" by (simp add: fill_def rs Inr rd'_def Let_def)
    have "available rd' = drop (rd_pos (compact rd)) (rd_buf (compact rd)) @ bs"
      using c(2) by (simp add: available_def rd'_def)
    then have av: "available rd' = available rd @ bs" by (simp only: c(1)) (simp add: available_def)
    have pos': "rd_pos rd' \<le> length (rd_buf rd')" using c(2) by (simp add: rd'_def)
    have src': "so_reads (rd_src rd') = rs" "so_unclean (rd_src rd') = so_unclean (rd_src rd)" by (simp_all add: rd'_def)
    show ?thesis
    proof (cases "bs = []")
      case True
      then show ?thesis using Inr sp assms av src' by (simp add: f stands_def stream_def)
    next
      case False
      then show ?thesis using Inr sp assms av pos' src' by (simp add: f stands_def stream_def)
    qed
  qed
qed

lemma consume_stands: "stands rd s e u \<Longrightarrow> n \<le> length (available rd) \<Longrightarrow> stands (consume n rd) (drop n s) e u"
  by (auto simp: stands_def consume_def stream_def available_def add.commute)

lemma available_prefix: "stands rd s e u \<Longrightarrow> \<exists>t. s = available rd @ t"
  by (auto simp: stands_def stream_def)


lemma reads_size_consume [simp]: "reads_size (consume n rd) = reads_size rd"
  by (simp add: reads_size_def consume_def)

section \<open>Heads, lines, counted bytes, the rest\<close>

definition head_end :: string where
  "head_end = crlf @ crlf"

function read_head :: "reader \<Rightarrow> nat \<Rightarrow> nat \<Rightarrow> (http_error + string \<times> nat) \<times> reader" where
  "read_head rd budget limit =
     (case find_sub head_end (available rd) of
        Some i \<Rightarrow>
          if budget < i + 4 then (Inl (He_HeaderTooLarge limit), rd)
          else (Inr (take i (available rd), budget - (i + 4)), consume (i + 4) rd)
      | None \<Rightarrow>
          if budget \<le> length (available rd) then (Inl (He_HeaderTooLarge limit), rd)
          else
            (case fill rd of
              (Inl e, rd) \<Rightarrow> (Inl e, rd)
            | (Inr n, rd) \<Rightarrow>
                if n = 0 then
                  (Inl (He_Protocol (if available rd = [] \<and> budget = limit then Pp_ClosedBeforeResponse else Pp_ClosedInHead)), rd)
                else read_head rd budget limit))"
  by pat_completeness auto
termination by (relation "measure (\<lambda>(rd, b, l). reads_size rd)") (auto intro: fill_size')

function read_line :: "reader \<Rightarrow> nat \<Rightarrow> http_error \<Rightarrow> (http_error + string) \<times> reader" where
  "read_line rd most too_long =
     (case find_sub crlf (available rd) of
        Some i \<Rightarrow>
          if most < i then (Inl too_long, rd) else (Inr (take i (available rd)), consume (i + 2) rd)
      | None \<Rightarrow>
          if most + 1 < length (available rd) then (Inl too_long, rd)
          else
            (case fill rd of
              (Inl e, rd) \<Rightarrow> (Inl e, rd)
            | (Inr n, rd) \<Rightarrow> if n = 0 then (Inl (He_Protocol Pp_ClosedInChunked), rd) else read_line rd most too_long))"
  by pat_completeness auto
termination by (relation "measure (\<lambda>(rd, m, t). reads_size rd)") (auto intro: fill_size')

definition some_available :: "reader \<Rightarrow> (http_error + nat) \<times> reader" where
  "some_available rd = (if available rd = [] then fill rd else (Inr (length (available rd)), rd))"

lemma some_available_size:
  assumes "(Inr k, rd') = some_available rd" "0 < k" "0 < n"
  shows "n - min (length (available rd')) n + reads_size rd' < n + reads_size rd"
  using assms fill_size' [of k rd' rd] by (cases "available rd = []") (auto simp: some_available_def)

function read_exact :: "reader \<Rightarrow> string \<Rightarrow> nat \<Rightarrow> string \<Rightarrow> (http_error + string) \<times> reader" where
  "read_exact rd out n what =
     (if n = 0 then (Inr out, rd)
      else
        case some_available rd of
          (Inl e, rd) \<Rightarrow> (Inl e, rd)
        | (Inr k, rd) \<Rightarrow>
            if k = 0 then (Inl (He_Protocol (Pp_Truncated what n)), rd)
            else
              let t = min (length (available rd)) n in
              read_exact (consume t rd) (out @ take t (available rd)) (n - t) what)"
  by pat_completeness auto
termination
  by (relation "measure (\<lambda>(rd, out, n, w). n + reads_size rd)") (auto dest: some_available_size)

lemma reads_size_at [simp]: "reads_size (rd\<lparr>rd_pos := p\<rparr>) = reads_size rd"
  by (simp add: reads_size_def)

function read_to_close :: "reader \<Rightarrow> string \<Rightarrow> nat \<Rightarrow> (http_error + string) \<times> reader" where
  "read_to_close rd out most =
     (if most < length out + length (available rd) then (Inl (He_BodyTooLarge most), rd)
      else
        let out = out @ available rd in
        case fill (rd\<lparr>rd_pos := length (rd_buf rd)\<rparr>) of
          (Inl e, rd) \<Rightarrow> (Inl e, rd)
        | (Inr n, rd) \<Rightarrow>
            if n \<noteq> 0 then read_to_close rd out most
            else if so_unclean (rd_src rd) then (Inl (He_Protocol Pp_NoCloseNotify), rd)
            else (Inr out, rd))"
  by pat_completeness auto
termination
  by (relation "measure (\<lambda>(rd, out, m). reads_size rd)") (auto dest!: fill_size')

declare read_head.simps [simp del] read_line.simps [simp del] read_exact.simps [simp del] read_to_close.simps [simp del]

lemma read_head_budget: "read_head rd budget limit = (Inr (h, b), rd') \<Longrightarrow> b < budget"
proof (induction rd budget limit rule: read_head.induct)
  case (1 rd budget limit)
  show ?case
    using 1(2) by (subst (asm) read_head.simps) (auto split: option.splits if_splits prod.splits sum.splits dest: 1(1) [OF _ _ sym refl])
qed

lemma read_line_length: "read_line rd most too_long = (Inr line, rd') \<Longrightarrow> length line \<le> most"
proof (induction rd most too_long rule: read_line.induct)
  case (1 rd most too_long)
  show ?case
    using 1(2) by (subst (asm) read_line.simps) (auto split: option.splits if_splits prod.splits sum.splits dest: 1(1) [OF _ _ sym refl])
qed

lemma read_exact_length: "read_exact rd out n what = (Inr out', rd') \<Longrightarrow> length out' = length out + n"
proof (induction rd out n what rule: read_exact.induct)
  case (1 rd out n what)
  show ?case
    using 1(2) by (subst (asm) read_exact.simps) (auto simp: Let_def split: if_splits prod.splits sum.splits dest!: 1(1) [OF gr_implies_not0 sym refl gr_implies_not0 refl])
qed


section \<open>The body and the response\<close>

declare try_then_cong [fundef_cong]

definition hex_digit :: "char \<Rightarrow> nat option" where
  "hex_digit c =
     (if 48 \<le> code c \<and> code c \<le> 57 then Some (code c - 48)
      else if 97 \<le> code c \<and> code c \<le> 102 then Some (code c - 87)
      else if 65 \<le> code c \<and> code c \<le> 70 then Some (code c - 55) else None)"

definition hex_nat :: "string \<Rightarrow> nat" where
  "hex_nat = foldl (\<lambda>n c. n * 16 + the (hex_digit c)) 0"

definition chunk_size :: "string \<Rightarrow> http_error + nat" where
  "chunk_size line =
     (let size_text = trim_ows_end (takeWhile (\<lambda>c. c \<noteq> CHR '';'') line) in
      if size_text = [] \<or> 16 < length size_text \<or> \<not> list_all (\<lambda>c. hex_digit c \<noteq> None) size_text
      then Inl (He_Protocol (Pp_BadChunkSize (utf8_lossy (take 40 line))))
      else Inr (hex_nat size_text))"

function read_trailers :: "limits \<Rightarrow> reader \<Rightarrow> nat \<Rightarrow> (http_error + unit) \<times> reader" where
  "read_trailers lims rd left =
     try_then (read_line rd left (He_HeaderTooLarge (max_header_bytes lims))) (\<lambda>line rd.
       if line = [] then (Inr (), rd) else read_trailers lims rd (left - (length line + 2)))"
  by pat_completeness auto
termination
  by (relation "measure (\<lambda>(l, rd, left). left)") (auto dest!: read_line_length simp flip: length_greater_0_conv)

function read_chunked :: "limits \<Rightarrow> reader \<Rightarrow> string \<Rightarrow> (http_error + string) \<times> reader" where
  "read_chunked lims rd body =
     try_then (read_line rd (max_header_bytes lims) (He_Protocol Pp_ChunkSizeLineTooLong)) (\<lambda>line rd.
     try_then (chunk_size line, rd) (\<lambda>size rd.
       if size = 0 then try_then (read_trailers lims rd (max_header_bytes lims)) (\<lambda>_ rd. (Inr body, rd))
       else if max_body_bytes lims - length body < size then (Inl (He_BodyTooLarge (max_body_bytes lims)), rd)
       else
         try_then (read_exact rd body size ''chunk'') (\<lambda>body rd.
         try_then (read_exact rd [] 2 ''chunk terminator'') (\<lambda>term rd.
           if term \<noteq> crlf then (Inl (He_Protocol Pp_ChunkNotTerminated), rd)
           else read_chunked lims rd body))))"
  by pat_completeness auto
termination
  by (relation "measure (\<lambda>(l, rd, body). max_body_bytes l - length body)") (auto dest!: read_exact_length)

function final_head :: "reader \<Rightarrow> nat \<Rightarrow> nat \<Rightarrow> (http_error + http_head) \<times> reader" where
  "final_head rd budget limit =
     try_then (read_head rd budget limit) (\<lambda>(h, budget) rd.
     try_then (parse_head h, rd) (\<lambda>(status, reason, hs) rd.
       if status = 101 then (Inl (He_Protocol Pp_SwitchingProtocols), rd)
       else if 100 \<le> status \<and> status \<le> 199 then final_head rd budget limit
       else (Inr (status, reason, hs), rd)))"
  by pat_completeness auto
termination by (relation "measure (\<lambda>(rd, b, l). b)") (auto dest: read_head_budget)

declare read_trailers.simps [simp del] read_chunked.simps [simp del] final_head.simps [simp del]

definition read_body :: "limits \<Rightarrow> body_framing \<Rightarrow> reader \<Rightarrow> (http_error + string) \<times> reader" where
  "read_body lims fr rd =
     (case fr of
        Fr_NoBody \<Rightarrow> (Inr [], rd)
      | Fr_Length n \<Rightarrow>
          if max_body_bytes lims < n then (Inl (He_BodyTooLarge (max_body_bytes lims)), rd)
          else read_exact rd [] n ''Content-Length body''
      | Fr_Chunked \<Rightarrow> read_chunked lims rd []
      | Fr_Close \<Rightarrow> read_to_close rd [] (max_body_bytes lims))"

definition read_response :: "source \<Rightarrow> bool \<Rightarrow> limits \<Rightarrow> http_error + http_response" where
  "read_response src is_head lims =
     fst (try_then (final_head (reader_new src) (max_header_bytes lims) (max_header_bytes lims)) (\<lambda>(status, reason, hs) rd.
          try_then (framing status hs is_head, rd) (\<lambda>fr rd.
          try_then (read_body lims fr rd) (\<lambda>body rd.
            (Inr \<lparr>rs_status = status, rs_reason = reason, rs_headers = hs, rs_body = body\<rparr>, rd)))))"


section \<open>A parser of the whole byte string\<close>

text \<open>
  The same response read from all the bytes of the connection at once; \<open>e\<close> is the error behind them
  and \<open>u\<close> tells an unclean end. Each function returns what it reads and the bytes that are left.
\<close>

definition end_error :: "http_error option \<Rightarrow> protocol_problem \<Rightarrow> http_error" where
  "end_error e p = (case e of None \<Rightarrow> He_Protocol p | Some err \<Rightarrow> err)"

definition whole_head :: "http_error option \<Rightarrow> nat \<Rightarrow> nat \<Rightarrow> string \<Rightarrow> http_error + (string \<times> nat) \<times> string" where
  "whole_head e budget limit s =
     (case find_sub head_end s of
        Some i \<Rightarrow>
          if budget < i + 4 then Inl (He_HeaderTooLarge limit)
          else Inr ((take i s, budget - (i + 4)), drop (i + 4) s)
      | None \<Rightarrow>
          if budget \<le> length s then Inl (He_HeaderTooLarge limit)
          else Inl (end_error e (if s = [] \<and> budget = limit then Pp_ClosedBeforeResponse else Pp_ClosedInHead)))"

definition whole_line :: "http_error option \<Rightarrow> nat \<Rightarrow> http_error \<Rightarrow> string \<Rightarrow> http_error + string \<times> string" where
  "whole_line e most too_long s =
     (case find_sub crlf s of
        Some i \<Rightarrow> if most < i then Inl too_long else Inr (take i s, drop (i + 2) s)
      | None \<Rightarrow> if most + 1 < length s then Inl too_long else Inl (end_error e Pp_ClosedInChunked))"

definition whole_exact :: "http_error option \<Rightarrow> nat \<Rightarrow> string \<Rightarrow> string \<Rightarrow> http_error + string \<times> string" where
  "whole_exact e n what s =
     (if n \<le> length s then Inr (take n s, drop n s) else Inl (end_error e (Pp_Truncated what (n - length s))))"

definition whole_rest :: "http_error option \<Rightarrow> bool \<Rightarrow> nat \<Rightarrow> string \<Rightarrow> http_error + string" where
  "whole_rest e u most s =
     (if most < length s then Inl (He_BodyTooLarge most)
      else case e of Some err \<Rightarrow> Inl err | None \<Rightarrow> if u then Inl (He_Protocol Pp_NoCloseNotify) else Inr s)"

lemma find_sub_bound: "find_sub nd s = Some i \<Longrightarrow> i + length nd \<le> length s \<and> i < length s \<and> prefix nd (drop i s)"
proof (induction nd s arbitrary: i rule: find_sub.induct)
  case (2 nd c cs)
  show ?case
  proof (cases "prefix nd (c # cs)")
    case True
    then show ?thesis using 2(2) prefix_length_le by fastforce
  next
    case False
    then show ?thesis using 2 by fastforce
  qed
qed simp

lemma whole_line_length: "whole_line e most too_long s = Inr (line, s') \<Longrightarrow> length line \<le> most"
  by (auto simp: whole_line_def split: option.splits if_splits)

lemma whole_exact_length: "whole_exact e n what s = Inr (x, s') \<Longrightarrow> length x = n"
  by (auto simp: whole_exact_def split: if_splits)

lemma whole_head_budget: "whole_head e budget limit s = Inr ((h, b), s') \<Longrightarrow> b < budget"
  by (auto simp: whole_head_def split: option.splits if_splits)

declare ebind_cong [fundef_cong]

function whole_trailers :: "http_error option \<Rightarrow> limits \<Rightarrow> nat \<Rightarrow> string \<Rightarrow> http_error + string" where
  "whole_trailers e lims left s =
     ebind (whole_line e left (He_HeaderTooLarge (max_header_bytes lims)) s) (\<lambda>(line, s).
       if line = [] then Inr s else whole_trailers e lims (left - (length line + 2)) s)"
  by pat_completeness auto
termination
  by (relation "measure (\<lambda>(e, l, left, s). left)") (auto dest!: whole_line_length simp flip: length_greater_0_conv)

function whole_chunked :: "http_error option \<Rightarrow> limits \<Rightarrow> string \<Rightarrow> string \<Rightarrow> http_error + string \<times> string" where
  "whole_chunked e lims body s =
     ebind (whole_line e (max_header_bytes lims) (He_Protocol Pp_ChunkSizeLineTooLong) s) (\<lambda>(line, s).
     ebind (chunk_size line) (\<lambda>size.
       if size = 0 then ebind (whole_trailers e lims (max_header_bytes lims) s) (\<lambda>s. Inr (body, s))
       else if max_body_bytes lims - length body < size then Inl (He_BodyTooLarge (max_body_bytes lims))
       else
         ebind (whole_exact e size ''chunk'' s) (\<lambda>(data, s).
         ebind (whole_exact e 2 ''chunk terminator'' s) (\<lambda>(term, s).
           if term \<noteq> crlf then Inl (He_Protocol Pp_ChunkNotTerminated)
           else whole_chunked e lims (body @ data) s))))"
  by pat_completeness auto
termination
  by (relation "measure (\<lambda>(e, l, body, s). max_body_bytes l - length body)")
    (auto dest!: whole_exact_length simp: diff_less_mono2 simp flip: length_greater_0_conv)

function whole_final_head :: "http_error option \<Rightarrow> nat \<Rightarrow> nat \<Rightarrow> string \<Rightarrow> http_error + http_head \<times> string" where
  "whole_final_head e budget limit s =
     ebind (whole_head e budget limit s) (\<lambda>((h, budget), s).
     ebind (parse_head h) (\<lambda>(status, reason, hs).
       if status = 101 then Inl (He_Protocol Pp_SwitchingProtocols)
       else if 100 \<le> status \<and> status \<le> 199 then whole_final_head e budget limit s
       else Inr ((status, reason, hs), s)))"
  by pat_completeness auto
termination by (relation "measure (\<lambda>(e, b, l, s). b)") (auto dest: whole_head_budget)

declare whole_trailers.simps [simp del] whole_chunked.simps [simp del] whole_final_head.simps [simp del]

definition whole_body :: "http_error option \<Rightarrow> bool \<Rightarrow> limits \<Rightarrow> body_framing \<Rightarrow> string \<Rightarrow> http_error + string" where
  "whole_body e u lims fr s =
     (case fr of
        Fr_NoBody \<Rightarrow> Inr []
      | Fr_Length n \<Rightarrow>
          if max_body_bytes lims < n then Inl (He_BodyTooLarge (max_body_bytes lims))
          else ebind (whole_exact e n ''Content-Length body'' s) (\<lambda>(body, s). Inr body)
      | Fr_Chunked \<Rightarrow> ebind (whole_chunked e lims [] s) (\<lambda>(body, s). Inr body)
      | Fr_Close \<Rightarrow> whole_rest e u (max_body_bytes lims) s)"

definition whole_response :: "http_error option \<Rightarrow> bool \<Rightarrow> bool \<Rightarrow> limits \<Rightarrow> string \<Rightarrow> http_error + http_response" where
  "whole_response e u is_head lims s =
     ebind (whole_final_head e (max_header_bytes lims) (max_header_bytes lims) s) (\<lambda>((status, reason, hs), s).
     ebind (framing status hs is_head) (\<lambda>fr.
     ebind (whole_body e u lims fr s) (\<lambda>body.
       Inr \<lparr>rs_status = status, rs_reason = reason, rs_headers = hs, rs_body = body\<rparr>)))"

section \<open>The reader agrees with the parser\<close>

text \<open>A reading step agrees with the parser: same error, or same value with the reader standing at the bytes left.\<close>

definition agrees :: "(http_error + 'a) \<times> reader \<Rightarrow> http_error option \<Rightarrow> bool \<Rightarrow> http_error + 'a \<times> string \<Rightarrow> bool" where
  "agrees m e u r \<longleftrightarrow> (case r of Inl err \<Rightarrow> fst m = Inl err | Inr (x, s) \<Rightarrow> fst m = Inr x \<and> stands (snd m) s e u)"

lemma agrees_bind:
  assumes "agrees m e u r" "\<And>x rd s. stands rd s e u \<Longrightarrow> r = Inr (x, s) \<Longrightarrow> m = (Inr x, rd) \<Longrightarrow> agrees (k x rd) e u (k' (x, s))"
  shows "agrees (try_then m k) e u (ebind r k')"
proof (cases r)
  case (Inl err)
  then show ?thesis using assms(1) by (cases m) (simp add: agrees_def)
next
  case (Inr p)
  then show ?thesis using assms by (cases m; cases p) (auto simp: agrees_def)
qed

lemma agrees_pure: "stands rd s e u \<Longrightarrow> (\<And>x. r = Inr x \<Longrightarrow> agrees (k x rd) e u (k' x)) \<Longrightarrow> agrees (try_then (r, rd) k) e u (ebind r k')"
  by (cases r) (simp_all add: agrees_def)

lemma agrees_Inl [simp]: "agrees (Inl err, rd) e u (Inl err)"
  by (simp add: agrees_def)

lemma agrees_Inr [simp]: "agrees (Inr x, rd) e u (Inr (y, s)) \<longleftrightarrow> x = y \<and> stands rd s e u"
  by (auto simp: agrees_def)

lemma prefix_of_append: "prefix nd (s @ t) \<Longrightarrow> length nd \<le> length s \<Longrightarrow> prefix nd s"
  by (rule prefix_length_prefix [of nd "s @ t" s]) simp_all

lemma find_sub_append_Some: "find_sub nd s = Some i \<Longrightarrow> find_sub nd (s @ t) = Some i"
proof (induction nd s arbitrary: i rule: find_sub.induct)
  case (2 nd c cs)
  show ?case
  proof (cases "prefix nd (c # cs)")
    case True
    then have "prefix nd ((c # cs) @ t)" by (metis prefixI prefix_order.trans)
    then show ?thesis using True 2(2) by simp
  next
    case False
    then obtain k where k: "find_sub nd cs = Some k" "i = Suc k" using 2(2) by auto
    then have "\<not> prefix nd ((c # cs) @ t)" using False prefix_of_append [of nd "c # cs" t] find_sub_bound [OF k(1)] by auto
    then show ?thesis using 2(1) [OF False k(1)] k by simp
  qed
qed simp

text \<open>What is found in a text and not in its first part ends behind that part.\<close>

lemma find_sub_append_None:
  assumes "find_sub nd s = None" "find_sub nd (s @ t) = Some i" "nd \<noteq> []"
  shows "length s < i + length nd"
proof (rule ccontr)
  assume n: "\<not> length s < i + length nd"
  have p: "prefix nd (drop i (s @ t))" using find_sub_bound [OF assms(2)] by simp
  have "prefix nd (drop i s)"
  proof -
    have "nd = take (length nd) (drop i (s @ t))" using p by (metis append_eq_conv_conj prefix_def)
    also have "\<dots> = take (length nd) (drop i s)" using n by simp
    finally show ?thesis by (metis take_is_prefix)
  qed
  moreover have "prefix nd (drop i s) \<Longrightarrow> i + length nd \<le> length s \<Longrightarrow> find_sub nd s \<noteq> None" for i
    using assms(3)
  proof (induction s arbitrary: i)
    case (Cons c cs)
    then show ?case by (cases i) auto
  qed simp
  ultimately show False using assms(1) n by (metis leI)
qed


lemma head_end_length [simp]: "length head_end = 4" "head_end \<noteq> []"
  by (simp_all add: head_end_def)

lemma read_head_agrees: "stands rd s e u \<Longrightarrow> agrees (read_head rd budget limit) e u (whole_head e budget limit s)"
proof (induction rd budget limit rule: read_head.induct)
  case (1 rd budget limit)
  obtain t where t: "s = available rd @ t" using available_prefix [OF 1(2)] by blast
  show ?case
  proof (cases "find_sub head_end (available rd)")
    case (Some i)
    have f: "find_sub head_end s = Some i" unfolding t by (rule find_sub_append_Some [OF Some])
    have "i + 4 \<le> length (available rd)" using find_sub_bound [OF Some] by simp
    then show ?thesis
      using consume_stands [OF 1(2), of "i + 4"] by (simp add: read_head.simps Some whole_head_def f) (simp add: t)
  next
    case None
    show ?thesis
    proof (cases "budget \<le> length (available rd)")
      case True
      have "whole_head e budget limit s = Inl (He_HeaderTooLarge limit)"
      proof (cases "find_sub head_end s")
        case (Some j)
        then have "length (available rd) < j + 4" using find_sub_append_None [OF None] t by fastforce
        then show ?thesis using True Some by (simp add: whole_head_def)
      next
        case None
        then show ?thesis using True by (simp add: whole_head_def t)
      qed
      then show ?thesis using True None by (simp add: read_head.simps)
    next
      case False
      note f = fill_stands [OF 1(2)]
      obtain r rd' where fr: "fill rd = (r, rd')" by fastforce
      show ?thesis
      proof (cases r)
        case (Inl err)
        then have "e = Some err" "available rd = s" using f fr by simp_all
        then show ?thesis using None False fr Inl by (simp add: read_head.simps [of rd] whole_head_def end_error_def)
      next
        case (Inr n)
        show ?thesis
        proof (cases "n = 0")
          case True
          then have "e = None" "available rd = s" "available rd' = s" using f fr Inr by simp_all
          then show ?thesis using None False fr Inr True by (simp add: read_head.simps [of rd] whole_head_def end_error_def)
        next
          case n: False
          then have "stands rd' s e u" using f fr Inr by simp
          from 1(1) [OF None False fr [symmetric] Inr n this] show ?thesis
            using None False fr Inr n by (simp add: read_head.simps [of rd])
        qed
      qed
    qed
  qed
qed

lemma read_line_agrees: "stands rd s e u \<Longrightarrow> agrees (read_line rd most err) e u (whole_line e most err s)"
proof (induction rd most err rule: read_line.induct)
  case (1 rd most err)
  obtain t where t: "s = available rd @ t" using available_prefix [OF 1(2)] by blast
  show ?case
  proof (cases "find_sub crlf (available rd)")
    case (Some i)
    have f: "find_sub crlf s = Some i" unfolding t by (rule find_sub_append_Some [OF Some])
    have "i + 2 \<le> length (available rd)" using find_sub_bound [OF Some] by simp
    then show ?thesis
      using consume_stands [OF 1(2), of "i + 2"] by (simp add: read_line.simps Some whole_line_def f) (simp add: t)
  next
    case None
    show ?thesis
    proof (cases "most + 1 < length (available rd)")
      case True
      have "whole_line e most err s = Inl err"
      proof (cases "find_sub crlf s")
        case (Some j)
        then have "length (available rd) < j + 2" using find_sub_append_None [OF None] t by fastforce
        then show ?thesis using True Some by (simp add: whole_line_def)
      next
        case None
        then show ?thesis using True by (simp add: whole_line_def t)
      qed
      then show ?thesis using True None by (simp add: read_line.simps)
    next
      case False
      note f = fill_stands [OF 1(2)]
      obtain r rd' where fr: "fill rd = (r, rd')" by fastforce
      show ?thesis
      proof (cases r)
        case (Inl er)
        then have "e = Some er" "available rd = s" using f fr by simp_all
        then show ?thesis using None False fr Inl by (simp add: read_line.simps [of rd] whole_line_def end_error_def)
      next
        case (Inr n)
        show ?thesis
        proof (cases "n = 0")
          case True
          then have "e = None" "available rd = s" "available rd' = s" using f fr Inr by simp_all
          then show ?thesis using None False fr Inr True by (simp add: read_line.simps [of rd] whole_line_def end_error_def)
        next
          case n: False
          then have "stands rd' s e u" using f fr Inr by simp
          from 1(1) [OF None False fr [symmetric] Inr n this] show ?thesis
            using None False fr Inr n by (simp add: read_line.simps [of rd])
        qed
      qed
    qed
  qed
qed

lemma read_exact_agrees:
  "stands rd s e u \<Longrightarrow> agrees (read_exact rd out n what) e u (ebind (whole_exact e n what s) (\<lambda>(x, s). Inr (out @ x, s)))"
proof (induction rd out n what arbitrary: s rule: read_exact.induct)
  case (1 rd out n what)
  show ?case
  proof (cases "n = 0")
    case True
    then show ?thesis using 1(2) by (simp add: read_exact.simps whole_exact_def)
  next
    case n: False
    obtain r rd' where sa: "some_available rd = (r, rd')" by fastforce
    show ?thesis
    proof (cases r)
      case (Inl err)
      then have "available rd = []" "fill rd = (Inl err, rd')" using sa by (auto simp: some_available_def split: if_splits)
      then have "e = Some err" "s = []" using fill_stands [OF 1(2)] by simp_all
      then show ?thesis using n sa Inl by (simp add: read_exact.simps [of rd] whole_exact_def end_error_def)
    next
      case (Inr k)
      show ?thesis
      proof (cases "k = 0")
        case True
        then have "available rd = []" "fill rd = (Inr 0, rd')" using sa Inr by (auto simp: some_available_def split: if_splits)
        then have "e = None" "s = []" using fill_stands [OF 1(2)] by simp_all
        then show ?thesis using n sa Inr True by (simp add: read_exact.simps [of rd] whole_exact_def end_error_def)
      next
        case k: False
        have st: "stands rd' s e u"
          using sa Inr k 1(2) fill_stands [OF 1(2)] by (cases "available rd = []") (auto simp: some_available_def)
        define t where "t = min (length (available rd')) n"
        obtain z where z: "s = available rd' @ z" using available_prefix [OF st] by blast
        have c: "stands (consume t rd') (drop t s) e u" by (rule consume_stands [OF st]) (simp add: t_def)
        have tk: "take t (available rd') = take t s" "t \<le> n" "t \<le> length s" by (simp_all add: t_def z)
        have "agrees (read_exact (consume t rd') (out @ take t s) (n - t) what) e u
            (ebind (whole_exact e (n - t) what (drop t s)) (\<lambda>(x, s). Inr ((out @ take t s') @ x, s)))" if "s' = s" for s'
          using 1(1) [OF n sa [symmetric] Inr k t_def c] by (simp add: tk(1) that)
        from this [OF refl] have "agrees (read_exact rd out n what) e u
            (ebind (whole_exact e (n - t) what (drop t s)) (\<lambda>(x, s'). Inr ((out @ take t s) @ x, s')))"
          using n sa Inr k by (simp add: read_exact.simps [of rd] Let_def tk(1) flip: t_def)
        moreover have "ebind (whole_exact e (n - t) what (drop t s)) (\<lambda>(x, s'). Inr ((out @ take t s) @ x, s')) =
            ebind (whole_exact e n what s) (\<lambda>(x, s). Inr (out @ x, s))"
        proof -
          have "take n s = take t s @ take (n - t) (drop t s)" using tk(2) take_add [of t "n - t" s] by simp
          moreover have "n - t \<le> length s - t \<longleftrightarrow> n \<le> length s" "n - t - (length s - t) = n - length s" using tk(2,3) by linarith+
          ultimately show ?thesis using tk(2,3) by (simp add: whole_exact_def)
        qed
        ultimately show ?thesis by simp
      qed
    qed
  qed
qed

lemma read_to_close_agrees:
  "stands rd s e u \<Longrightarrow> fst (read_to_close rd out most) =
     (if most < length out + length s then Inl (He_BodyTooLarge most) else map_sum id (\<lambda>x. out @ x) (whole_rest e u most s))"
proof (induction rd out most arbitrary: s rule: read_to_close.induct)
  case (1 rd out most)
  obtain z where z: "s = available rd @ z" using available_prefix [OF 1(2)] by blast
  define rd1 where "rd1 = rd\<lparr>rd_pos := length (rd_buf rd)\<rparr>"
  have st: "stands rd1 z e u" using 1(2) by (auto simp: stands_def stream_def rd1_def available_def z)
  have av: "available rd1 = []" by (simp add: rd1_def available_def)
  show ?case
  proof (cases "most < length out + length (available rd)")
    case True
    then show ?thesis by (simp add: read_to_close.simps z)
  next
    case False
    obtain r rd' where fr: "fill rd1 = (r, rd')" by fastforce
    note f = fill_stands [OF st]
    show ?thesis
    proof (cases r)
      case (Inl err)
      then have "e = Some err" "z = []" using f fr av by simp_all
      then show ?thesis using fr Inl False by (simp add: read_to_close.simps [of rd] whole_rest_def z Let_def flip: rd1_def)
    next
      case (Inr n)
      show ?thesis
      proof (cases "n = 0")
        case True
        then have "e = None" "z = []" "so_unclean (rd_src rd') = u" using f fr av Inr by simp_all
        then show ?thesis using fr Inr False True by (simp add: read_to_close.simps [of rd] whole_rest_def z Let_def flip: rd1_def)
      next
        case n: False
        then have s2: "stands rd' z e u" using f fr Inr by simp
        have "fst (read_to_close rd out most) = fst (read_to_close rd' (out @ available rd) most)"
          using fr Inr n False by (simp add: read_to_close.simps [of rd] Let_def flip: rd1_def)
        also have "\<dots> = (if most < length (out @ available rd) + length z then Inl (He_BodyTooLarge most)
            else map_sum id (\<lambda>x. (out @ available rd) @ x) (whole_rest e u most z))"
          by (rule 1(1) [OF False refl fr [unfolded rd1_def, symmetric] Inr n s2])
        finally show ?thesis by (auto simp: z whole_rest_def split: option.splits)
      qed
    qed
  qed
qed


lemma agrees_if:
  "(c \<Longrightarrow> agrees a e u a') \<Longrightarrow> (\<not> c \<Longrightarrow> agrees b e u b') \<Longrightarrow> agrees (if c then a else b) e u (if c then a' else b')"
  by simp

lemma agrees_exact:
  assumes "stands rd s e u"
    and "\<And>x rd' s'. stands rd' s' e u \<Longrightarrow> read_exact rd out n what = (Inr (out @ x), rd') \<Longrightarrow> agrees (k (out @ x) rd') e u (k' (x, s'))"
  shows "agrees (try_then (read_exact rd out n what) k) e u (ebind (whole_exact e n what s) k')"
proof -
  have a: "agrees (read_exact rd out n what) e u (ebind (whole_exact e n what s) (\<lambda>(x, s). Inr (out @ x, s)))"
    by (rule read_exact_agrees [OF assms(1)])
  show ?thesis
  proof (cases "whole_exact e n what s")
    case (Inl err)
    then show ?thesis using a by (cases "read_exact rd out n what") (simp add: agrees_def)
  next
    case (Inr p)
    obtain x s' where p: "p = (x, s')" by fastforce
    obtain rd' where r: "read_exact rd out n what = (Inr (out @ x), rd')" "stands rd' s' e u"
      using a by (cases "read_exact rd out n what") (simp add: agrees_def Inr p)
    then show ?thesis using assms(2) by (simp add: Inr p)
  qed
qed

lemma read_trailers_agrees:
  "stands rd s e u \<Longrightarrow> agrees (read_trailers lims rd left) e u (ebind (whole_trailers e lims left s) (\<lambda>s. Inr ((), s)))"
proof (induction lims rd left arbitrary: s rule: read_trailers.induct)
  case (1 lims rd left)
  have "agrees (try_then (read_line rd left (He_HeaderTooLarge (max_header_bytes lims)))
        (\<lambda>line rd. if line = [] then (Inr (), rd) else read_trailers lims rd (left - (length line + 2)))) e u
      (ebind (whole_line e left (He_HeaderTooLarge (max_header_bytes lims)) s)
        (\<lambda>p. if fst p = [] then Inr ((), snd p)
          else ebind (whole_trailers e lims (left - (length (fst p) + 2)) (snd p)) (\<lambda>s. Inr ((), s))))"
    apply (rule agrees_bind [OF read_line_agrees [OF 1(2)]])
    apply (simp only: fst_conv snd_conv)
    apply (rule agrees_if)
     apply simp
    apply (rule 1(1))
    apply assumption+
    done
  moreover have "ebind (whole_trailers e lims left s) (\<lambda>s. Inr ((), s)) =
      ebind (whole_line e left (He_HeaderTooLarge (max_header_bytes lims)) s)
        (\<lambda>p. if fst p = [] then Inr ((), snd p)
          else ebind (whole_trailers e lims (left - (length (fst p) + 2)) (snd p)) (\<lambda>s. Inr ((), s)))"
    by (subst whole_trailers.simps, cases "whole_line e left (He_HeaderTooLarge (max_header_bytes lims)) s") auto
  ultimately show ?case by (simp only: read_trailers.simps [of lims rd])
qed

lemma agrees_trailers:
  assumes "stands rd s e u" "\<And>rd' s'. stands rd' s' e u \<Longrightarrow> agrees (k () rd') e u (k' s')"
  shows "agrees (try_then (read_trailers lims rd left) k) e u (ebind (whole_trailers e lims left s) k')"
proof -
  have a: "agrees (read_trailers lims rd left) e u (ebind (whole_trailers e lims left s) (\<lambda>s. Inr ((), s)))"
    by (rule read_trailers_agrees [OF assms(1)])
  then show ?thesis using assms(2)
    by (cases "read_trailers lims rd left"; cases "whole_trailers e lims left s") (auto simp: agrees_def)
qed

lemma read_chunked_agrees: "stands rd s e u \<Longrightarrow> agrees (read_chunked lims rd body) e u (whole_chunked e lims body s)"
proof (induction lims rd body arbitrary: s rule: read_chunked.induct)
  case (1 lims rd body)
  show ?case
    unfolding read_chunked.simps [of lims rd] whole_chunked.simps [of e lims body]
    apply (rule agrees_bind [OF read_line_agrees [OF 1(2)]])
    apply (simp only: prod.case)
    apply (rule agrees_pure, assumption)
    apply (rule agrees_if)
     apply (rule agrees_trailers, assumption, simp)
    apply (rule agrees_if)
     apply simp
    apply (rule agrees_exact, assumption)
    apply (simp only: prod.case)
    apply (rule agrees_exact, assumption)
    apply (simp only: prod.case append_Nil)
    apply (rule agrees_if)
     apply simp
    apply (rule 1(1))
    apply (assumption | simp)+
    done
qed

lemma final_head_agrees: "stands rd s e u \<Longrightarrow> agrees (final_head rd budget limit) e u (whole_final_head e budget limit s)"
proof (induction rd budget limit arbitrary: s rule: final_head.induct)
  case (1 rd budget limit)
  have ih: "agrees (final_head rd1 b1 limit) e u (whole_final_head e b1 limit s1)"
    if "stands rd1 s1 e u" "read_head rd budget limit = (Inr (h, b1), rd1)" "parse_head h = Inr (st, re, hs)"
      "st \<noteq> 101" "100 \<le> st \<and> st \<le> 199" for rd1 b1 s1 h st re hs
    by (rule 1(1)) (use that in auto)
  show ?case
    unfolding final_head.simps [of rd] whole_final_head.simps [of e budget]
    apply (rule agrees_bind [OF read_head_agrees [OF 1(2)]])
    apply (simp only: case_prod_unfold fst_conv snd_conv)
    apply (rule agrees_pure, assumption)
    apply (rule agrees_if)
     apply simp
    apply (rule agrees_if)
     apply (rename_tac hb rd1 s1 p)
     apply (rule_tac h = "fst hb" and re = "fst (snd p)" and hs = "snd (snd p)" in ih)
         apply simp_all
    done
qed

text \<open>
  C19: However the bytes of a response are cut into reads, the reader answers what parsing all of them
  at once answers: the response, or the error that the broken text, a limit, the connection or
  its end calls for.
\<close>

theorem fragmentation_is_invisible:
  "read_response src is_head lims =
     whole_response (src_end (so_reads src)) (so_unclean src) is_head lims (src_bytes (so_reads src))"
proof -
  define e u s where "e = src_end (so_reads src)" and "u = so_unclean src" and "s = src_bytes (so_reads src)"
  have st: "stands (reader_new src) s e u" by (simp add: stands_def reader_new_def stream_def available_def e_def u_def s_def)
  have body: "fst (read_body lims fr rd) = whole_body e u lims fr s'" if st: "stands rd s' e u" for fr rd s'
  proof (cases fr)
    case (Fr_Length n)
    then show ?thesis
      using read_exact_agrees [OF st, of "[]" n "''Content-Length body''"]
      by (cases "whole_exact e n ''Content-Length body'' s'") (auto simp: read_body_def whole_body_def agrees_def)
  next
    case Fr_Chunked
    then show ?thesis
      using read_chunked_agrees [OF st, of lims "[]"]
      by (cases "whole_chunked e lims [] s'") (auto simp: read_body_def whole_body_def agrees_def)
  next
    case Fr_Close
    then show ?thesis
      using read_to_close_agrees [OF st, of "[]" "max_body_bytes lims"]
      by (cases e; cases u) (auto simp: read_body_def whole_body_def whole_rest_def)
  qed (simp add: read_body_def whole_body_def)
  have "fst (try_then (framing st hs is_head, rd) (\<lambda>fr rd. try_then (read_body lims fr rd) (\<lambda>body rd.
        (Inr \<lparr>rs_status = st, rs_reason = re, rs_headers = hs, rs_body = body\<rparr>, rd)))) =
      ebind (framing st hs is_head) (\<lambda>fr. ebind (whole_body e u lims fr s') (\<lambda>body.
        Inr \<lparr>rs_status = st, rs_reason = re, rs_headers = hs, rs_body = body\<rparr>))" if st: "stands rd s' e u" for rd s' st hs re
  proof (cases "framing st hs is_head")
    case (Inr fr)
    then show ?thesis using body [OF st, of fr] by (cases "read_body lims fr rd"; cases "fst (read_body lims fr rd)") auto
  qed simp
  note rest = this
  have "agrees (final_head (reader_new src) (max_header_bytes lims) (max_header_bytes lims)) e u
      (whole_final_head e (max_header_bytes lims) (max_header_bytes lims) s)"
    by (rule final_head_agrees [OF st])
  then have "read_response src is_head lims = whole_response e u is_head lims s"
    unfolding read_response_def whole_response_def
    by (cases "final_head (reader_new src) (max_header_bytes lims) (max_header_bytes lims)";
        cases "whole_final_head e (max_header_bytes lims) (max_header_bytes lims) s") (auto simp: agrees_def rest)
  then show ?thesis by (simp add: e_def u_def s_def)
qed


section \<open>Lines and blank lines\<close>

lemma find_sub_skip: "nd \<noteq> [] \<Longrightarrow> hd nd \<notin> set l \<Longrightarrow> find_sub nd (l @ x) = map_option ((+) (length l)) (find_sub nd x)"
proof (induction l)
  case (Cons c cs)
  then have "\<not> prefix nd ((c # cs) @ x)" by (cases nd) auto
  then show ?case using Cons by (auto simp: option.map_comp comp_def)
next
  case Nil
  show ?case by (cases "find_sub nd x") simp_all
qed

lemma split_crlf_line: "CR \<notin> set l \<Longrightarrow> split_crlf l = [l]"
proof -
  assume "CR \<notin> set l"
  then have "find_sub crlf l = None" using find_sub_skip [of crlf l "[]"] by simp
  then show ?thesis by (simp add: split_crlf.simps)
qed

lemma find_crlf_line: "CR \<notin> set l \<Longrightarrow> find_sub crlf (l @ crlf @ x) = Some (length l)"
  using find_sub_skip [of crlf l "crlf @ x"] by simp

lemma split_crlf_join: "ls \<noteq> [] \<Longrightarrow> list_all (\<lambda>l. CR \<notin> set l) ls \<Longrightarrow> split_crlf (join crlf ls) = ls"
proof (induction crlf ls rule: join.induct)
  case (3 l m ls)
  have "find_sub crlf (l @ crlf @ join crlf (m # ls)) = Some (length l)" using 3 by (intro find_crlf_line) simp
  then have "split_crlf (l @ crlf @ join crlf (m # ls)) = l # split_crlf (join crlf (m # ls))"
    by (subst split_crlf.simps) simp
  then show ?case using 3 by simp
qed (simp_all add: split_crlf_line)

lemma find_head_end_join:
  assumes "ls \<noteq> []" "list_all (\<lambda>l. l \<noteq> [] \<and> CR \<notin> set l) ls"
  shows "find_sub head_end (join crlf ls @ head_end @ x) = Some (length (join crlf ls))"
  using assms
proof (induction crlf ls rule: join.induct)
  case (2 l)
  have "find_sub head_end (l @ head_end @ x) = map_option ((+) (length l)) (find_sub head_end (head_end @ x))"
    using 2 by (intro find_sub_skip) (simp_all add: head_end_def)
  then show ?case by (simp add: head_end_def)
next
  case (3 l m ls)
  define y where "y = join crlf (m # ls) @ head_end @ x"
  have ih: "find_sub head_end y = Some (length (join crlf (m # ls)))" using 3 by (simp add: y_def)
  have "m \<noteq> []" "CR \<notin> set m" using 3 by simp_all
  then have "y \<noteq> [] \<and> hd y \<noteq> CR" by (cases ls; cases m) (auto simp: y_def)
  then have "find_sub head_end (crlf @ y) = map_option (\<lambda>i. i + 2) (find_sub head_end y)"
    by (cases y) (simp_all add: head_end_def option.map_comp comp_def)
  moreover have "find_sub head_end (l @ crlf @ y) = map_option ((+) (length l)) (find_sub head_end (crlf @ y))"
    using 3 by (intro find_sub_skip) (simp_all add: head_end_def)
  ultimately show ?case by (simp add: ih y_def [symmetric])
qed simp

section \<open>What the client sends is what the caller asked for\<close>

definition head_lines :: "http_endpoint \<Rightarrow> http_request \<Rightarrow> string list" where
  "head_lines ep r =
     [rq_method r @ '' '' @ ep_base_path ep @ rq_target r @ '' HTTP/1.1'', ''Host: '' @ ep_host_header ep] @
     map (\<lambda>h. fst h @ '': '' @ snd h) (rq_headers r) @
     (if rq_body r \<noteq> [] \<or> list_ex (eq_ignore_case (rq_method r)) [''POST'', ''PUT'', ''PATCH'']
      then [''Content-Length: '' @ show_nat (length (rq_body r))] else []) @
     [''Connection: close'']"

lemma concat_lines: "ls \<noteq> [] \<Longrightarrow> concat (map (\<lambda>l. l @ crlf) ls) = join crlf ls @ crlf"
  by (induction crlf ls rule: join.induct) simp_all

lemma encode_head_lines: "encode_head ep r = join crlf (head_lines ep r) @ head_end"
proof -
  have "encode_head ep r = concat (map (\<lambda>l. l @ crlf) (head_lines ep r)) @ crlf"
    by (simp add: encode_head_def head_lines_def header_line_def [abs_def] comp_def)
  also have "\<dots> = join crlf (head_lines ep r) @ head_end"
    by (subst concat_lines) (simp_all add: head_lines_def head_end_def)
  finally show ?thesis .
qed

lemma code_crlf [simp]: "code CR = 13" "code LF = 10"
  by (simp_all add: code_def)

lemma tchar_not_cr: "is_tchar c \<Longrightarrow> c \<noteq> CR"
  by (auto simp: is_tchar_def ascii_alnum_def ascii_digit_def ascii_upper_def)

lemma code_digit: "d < 16 \<Longrightarrow> code (digit_char d) = (if d < 10 then 48 + d else 87 + d)"
  by (simp add: code_def of_char_digit)

lemma ascii_digit_char: "d < 10 \<Longrightarrow> ascii_digit (digit_char d)"
  by (simp add: ascii_digit_def code_digit)

lemma show_nat_all_digits: "list_all ascii_digit (show_nat n) \<and> show_nat n \<noteq> [] \<and> digits_nat (show_nat n) = n"
proof (induction n rule: show_nat.induct)
  case (1 n)
  show ?case
  proof (cases "n < 10")
    case True
    then show ?thesis by (subst (1 2 3) show_nat.simps) (simp add: ascii_digit_char digits_nat_def code_digit)
  next
    case False
    then show ?thesis using 1 by (subst (1 2 3) show_nat.simps) (simp add: ascii_digit_char digits_nat_def code_digit)
  qed
qed

lemma digit_not_cr: "list_all ascii_digit s \<Longrightarrow> CR \<notin> set s"
  by (auto simp: list_all_iff ascii_digit_def)

lemma validate_headers_ok:
  "validate_headers hs = Inr () \<Longrightarrow> list_all (\<lambda>h. fst h \<noteq> [] \<and> CR \<notin> set (fst h) \<and> CR \<notin> set (snd h)) hs"
proof (induction hs rule: validate_headers.induct)
  case (2 name v hs)
  have n: "name \<noteq> [] \<and> list_all is_tchar name" "\<not> list_ex (\<lambda>b. code b < 0x20 \<and> code b \<noteq> 9 \<or> code b = 0x7F) v"
    and h: "validate_headers hs = Inr ()"
    using 2(2) by (auto split: if_splits)
  have "CR \<notin> set name" using n(1) tchar_not_cr by (auto simp: list_all_iff)
  moreover have "CR \<notin> set v" using n(2) by (auto simp: list_ex_iff)
  moreover have "list_all (\<lambda>h. fst h \<noteq> [] \<and> CR \<notin> set (fst h) \<and> CR \<notin> set (snd h)) hs"
    using 2 h by (auto split: if_splits)
  ultimately show ?case using n(1) by simp
qed simp


text \<open>Text without control characters, the tab aside.\<close>

definition no_controls :: "string \<Rightarrow> bool" where
  "no_controls s \<longleftrightarrow> list_all (\<lambda>c. (0x20 \<le> code c \<or> code c = 9) \<and> code c \<noteq> 0x7F) s"

lemma no_controls_append [simp]: "no_controls (s @ t) \<longleftrightarrow> no_controls s \<and> no_controls t"
  by (simp add: no_controls_def)

lemma no_controls_Cons: "no_controls (c # s) \<longleftrightarrow> (0x20 \<le> code c \<or> code c = 9) \<and> code c \<noteq> 0x7F \<and> no_controls s"
  by (simp add: no_controls_def)

lemma tchar_no_controls: "list_all is_tchar s \<Longrightarrow> no_controls s"
  by (auto simp: no_controls_def list_all_iff is_tchar_def ascii_alnum_def ascii_digit_def ascii_upper_def)

lemma digits_no_controls: "list_all ascii_digit s \<Longrightarrow> no_controls s"
  by (auto simp: no_controls_def list_all_iff ascii_digit_def)

lemma validate_headers_no_controls:
  "validate_headers hs = Inr () \<Longrightarrow> list_all (\<lambda>h. no_controls (fst h) \<and> no_controls (snd h)) hs"
proof (induction hs rule: validate_headers.induct)
  case (2 name v hs)
  have n: "list_all is_tchar name" "\<not> list_ex (\<lambda>b. code b < 0x20 \<and> code b \<noteq> 9 \<or> code b = 0x7F) v"
    and h: "validate_headers hs = Inr ()"
    using 2(2) by (auto split: if_splits)
  have "no_controls v" using n(2) by (auto simp: no_controls_def list_ex_iff list_all_iff not_less)
  moreover have "list_all (\<lambda>h. no_controls (fst h) \<and> no_controls (snd h)) hs" using 2 h by (auto split: if_splits)
  ultimately show ?case using tchar_no_controls [OF n(1)] by simp
qed simp

lemma head_no_controls:
  assumes "request_validate r = Inr ()" "no_controls (ep_base_path ep)" "no_controls (ep_host_header ep)"
  shows "list_all no_controls (head_lines ep r)"
proof -
  have r: "list_all is_tchar (rq_method r)"
    "find (\<lambda>b. code b \<le> 0x20 \<or> 0x7F \<le> code b \<or> b = CHR ''#'') (rq_target r) = None" "validate_headers (rq_headers r) = Inr ()"
    using assms(1) by (auto simp: request_validate_def split: if_splits option.splits)
  have "no_controls (rq_target r)" using r(2) by (fastforce simp: find_None_iff no_controls_def list_all_iff)
  moreover have "no_controls '' HTTP/1.1''" "no_controls ''Host: ''" "no_controls '': ''" "no_controls '' ''"
    "no_controls ''Content-Length: ''" "no_controls ''Connection: close''"
    by code_simp+
  moreover have "no_controls (show_nat n)" for n using show_nat_all_digits [of n] digits_no_controls by blast
  ultimately show ?thesis
    using assms(2,3) tchar_no_controls [OF r(1)] validate_headers_no_controls [OF r(3)]
    by (simp add: head_lines_def no_controls_Cons code_def list_all_iff ball_Un image_iff)
qed

text \<open>
  C20: No request splitting: when a request passes validation and the endpoint's texts hold no carriage return,
  the bytes sent have their first blank line exactly where the client's head ends, so the body is
  what follows it, and the head's lines are the request line, the Host line, one line for each of the
  caller's headers, the length of the body where one is announced, and \<open>Connection: close\<close>; where the endpoint's texts
  hold no control characters either, no line of the head holds one, the tab aside.
\<close>

theorem sent_request_is_not_split:
  assumes "request_validate r = Inr ()" "CR \<notin> set (ep_base_path ep)" "CR \<notin> set (ep_host_header ep)"
  shows "find_sub head_end (encode_head ep r @ rq_body r) = Some (length (encode_head ep r) - 4) \<and>
    split_crlf (take (length (encode_head ep r) - 4) (encode_head ep r)) = head_lines ep r \<and>
    digits_nat (show_nat (length (rq_body r))) = length (rq_body r) \<and>
    (no_controls (ep_base_path ep) \<and> no_controls (ep_host_header ep) \<longrightarrow> list_all no_controls (head_lines ep r))"
proof -
  have r: "rq_method r \<noteq> []" "list_all is_tchar (rq_method r)"
    "find (\<lambda>b. code b \<le> 0x20 \<or> 0x7F \<le> code b \<or> b = CHR ''#'') (rq_target r) = None" "validate_headers (rq_headers r) = Inr ()"
    using assms(1) by (auto simp: request_validate_def split: if_splits option.splits)
  have "CR \<notin> set (rq_method r)" using r(2) tchar_not_cr by (auto simp: list_all_iff)
  moreover have "CR \<notin> set (rq_target r)" using r(3) by (auto simp: find_None_iff)
  moreover have "CR \<notin> set (show_nat n)" for n using show_nat_all_digits [of n] digit_not_cr by blast
  moreover note validate_headers_ok [OF r(4)]
  ultimately have ls: "list_all (\<lambda>l. l \<noteq> [] \<and> CR \<notin> set l) (head_lines ep r)" "head_lines ep r \<noteq> []"
    using assms(2,3) r(1) by (auto simp: head_lines_def list_all_iff)
  have "find_sub head_end (encode_head ep r @ rq_body r) = Some (length (encode_head ep r) - 4)"
    using find_head_end_join [OF ls(2,1), of "rq_body r"] by (simp add: encode_head_lines)
  moreover have "split_crlf (join crlf (head_lines ep r)) = head_lines ep r"
    by (rule split_crlf_join [OF ls(2)]) (use ls(1) in \<open>simp add: list_all_iff\<close>)
  ultimately show ?thesis using show_nat_all_digits head_no_controls [OF assms(1)] by (simp add: encode_head_lines)
qed

definition wit_request :: http_request where
  "wit_request = request_body (request_header (request_new ''PUT'' ''/a/b'') ''Accept'' ''text/plain'') ''hi''"

definition wit_endpoint :: http_endpoint where
  "wit_endpoint = \<lparr>ep_base_path = ''/base'', ep_host_header = ''localhost:80''\<rparr>"

theorem sent_request_is_not_split_witness:
  "find_sub head_end (encode_head wit_endpoint wit_request @ ''hi'') = Some (length (encode_head wit_endpoint wit_request) - 4) \<and>
   split_crlf (take (length (encode_head wit_endpoint wit_request) - 4) (encode_head wit_endpoint wit_request)) =
     [''PUT /base/a/b HTTP/1.1'', ''Host: localhost:80'', ''Accept: text/plain'', ''Content-Length: 2'', ''Connection: close'']"
proof -
  have v: "request_validate wit_request = Inr ()" by code_simp
  have e: "CR \<notin> set (ep_base_path wit_endpoint)" "CR \<notin> set (ep_host_header wit_endpoint)" by code_simp+
  have "head_lines wit_endpoint wit_request =
      [''PUT /base/a/b HTTP/1.1'', ''Host: localhost:80'', ''Accept: text/plain'', ''Content-Length: 2'', ''Connection: close'']"
    by code_simp
  moreover have "rq_body wit_request = ''hi''" by code_simp
  ultimately show ?thesis using sent_request_is_not_split [OF v e] by simp
qed

section \<open>Chunked bodies\<close>

text \<open>A chunk as a server writes it: the size in hexadecimal, the data.\<close>

function show_hex :: "nat \<Rightarrow> string" where
  "show_hex n = (if n < 16 then [digit_char n] else show_hex (n div 16) @ [digit_char (n mod 16)])"
  by pat_completeness auto
termination by (relation "measure id") auto

declare show_hex.simps [simp del]

definition write_chunk :: "string \<Rightarrow> string" where
  "write_chunk d = show_hex (length d) @ crlf @ d @ crlf"

definition write_chunked :: "string list \<Rightarrow> string" where
  "write_chunked ds = concat (map write_chunk ds) @ ''0'' @ crlf @ crlf"

lemma hex_digit_char: "d < 16 \<Longrightarrow> hex_digit (digit_char d) = Some d"
  by (simp add: hex_digit_def code_digit)

lemma show_hex_digits:
  "list_all (\<lambda>c. hex_digit c \<noteq> None) (show_hex n) \<and> show_hex n \<noteq> [] \<and> hex_nat (show_hex n) = n"
proof (induction n rule: show_hex.induct)
  case (1 n)
  show ?case
  proof (cases "n < 16")
    case True
    then show ?thesis by (subst (1 2 3) show_hex.simps) (simp add: hex_nat_def hex_digit_char)
  next
    case False
    then show ?thesis using 1 by (subst (1 2 3) show_hex.simps) (simp add: hex_nat_def hex_digit_char)
  qed
qed

lemma show_hex_length: "n < 16 ^ k \<Longrightarrow> 0 < k \<Longrightarrow> length (show_hex n) \<le> k"
proof (induction n arbitrary: k rule: show_hex.induct)
  case (1 n)
  show ?case
  proof (cases "n < 16")
    case True
    then show ?thesis using 1(3) by (subst show_hex.simps) simp
  next
    case False
    then obtain m where k: "k = Suc m" "0 < m" using 1(2,3) by (cases k; cases "k - 1") auto
    have "n div 16 < 16 ^ m" using 1(2) k by (simp add: less_mult_imp_div_less mult.commute)
    then have "length (show_hex (n div 16)) \<le> m" using 1(1) False k by simp
    then show ?thesis using False k by (subst show_hex.simps) simp
  qed
qed

lemma hex_digit_code: "hex_digit c \<noteq> None \<Longrightarrow> c \<noteq> CR \<and> c \<noteq> CHR '';'' \<and> \<not> is_ows c"
  by (auto simp: hex_digit_def is_ows_def code_def split: if_splits)

lemma chunk_size_hex:
  assumes "n < 16 ^ 16"
  shows "chunk_size (show_hex n) = Inr n" "CR \<notin> set (show_hex n)" "length (show_hex n) \<le> 16"
proof -
  have d: "\<forall>c\<in>set (show_hex n). hex_digit c \<noteq> None" "show_hex n \<noteq> []" "hex_nat (show_hex n) = n"
    using show_hex_digits [of n] by (simp_all add: list_all_iff)
  show l: "length (show_hex n) \<le> 16" by (rule show_hex_length [OF assms]) simp
  show "CR \<notin> set (show_hex n)" using d(1) hex_digit_code by blast
  have "takeWhile (\<lambda>c. c \<noteq> CHR '';'') (show_hex n) = show_hex n"
    unfolding takeWhile_eq_all_conv using d(1) hex_digit_code by blast
  moreover have "trim_ows_end (show_hex n) = show_hex n"
  proof -
    obtain xs c where x: "show_hex n = xs @ [c]" using d(2) by (cases "show_hex n" rule: rev_cases) auto
    then have "\<not> is_ows c" using d(1) hex_digit_code by simp
    then have "dropWhile is_ows (rev (show_hex n)) = rev (show_hex n)" by (simp add: x)
    then show ?thesis by (simp add: trim_ows_end_def)
  qed
  moreover have "list_all (\<lambda>c. hex_digit c \<noteq> None) (show_hex n)" using d(1) by (simp only: list_all_iff)
  ultimately show "chunk_size (show_hex n) = Inr n" using d(2,3) l leD [OF l] by (simp only: chunk_size_def Let_def if_False if_True simp_thms)
qed

lemma whole_chunked_written:
  assumes "list_all (\<lambda>d. d \<noteq> [] \<and> length d < 16 ^ 16) ds"
    and "length body + length (concat ds) \<le> max_body_bytes lims" "16 \<le> max_header_bytes lims"
  shows "whole_chunked e lims body (write_chunked ds @ rest) = Inr (body @ concat ds, rest)"
  using assms
proof (induction ds arbitrary: body)
  case Nil
  have z: "find_sub crlf (''0'' @ crlf @ (crlf @ rest)) = Some (length ''0'')" by (rule find_crlf_line) simp
  have n: "find_sub crlf (crlf @ rest) = Some 0" by simp
  have c: "chunk_size ''0'' = Inr 0" by code_simp
  show ?case
    using Nil z n c
    by (subst whole_chunked.simps) (simp add: write_chunked_def whole_line_def, subst whole_trailers.simps, simp add: whole_line_def)
next
  case (Cons d ds)
  define more where "more = write_chunked ds @ rest"
  note h = chunk_size_hex [of "length d"]
  have w: "write_chunked (d # ds) @ rest = show_hex (length d) @ crlf @ (d @ crlf @ more)"
    by (simp add: write_chunked_def write_chunk_def more_def)
  have line: "whole_line e (max_header_bytes lims) (He_Protocol Pp_ChunkSizeLineTooLong) (write_chunked (d # ds) @ rest) =
      Inr (show_hex (length d), d @ crlf @ more)"
    using h Cons(2,4) find_crlf_line [of "show_hex (length d)" "d @ crlf @ more"] by (simp add: whole_line_def w)
  have ih: "whole_chunked e lims (body @ d) more = Inr (body @ concat (d # ds), rest)"
    using Cons(1) [of "body @ d"] Cons(2-4) by (simp add: more_def)
  show ?case
    using Cons(2,3) h ih by (subst whole_chunked.simps) (simp add: line whole_exact_def)
qed

text \<open>
  C25: Chunked round trip: however the connection cuts the bytes into reads, the non-empty chunks a server writes,
  within the limits and at most 16 hexadecimal digits long, are read back as their concatenation, and
  what follows the last chunk's blank line is left to be read.
\<close>

theorem chunked_round_trip:
  assumes "list_all (\<lambda>d. d \<noteq> [] \<and> length d < 16 ^ 16) ds"
    and "length (concat ds) \<le> max_body_bytes lims" "16 \<le> max_header_bytes lims"
    and "src_bytes (so_reads src) = write_chunked ds @ rest"
  shows "\<exists>rd. read_chunked lims (reader_new src) [] = (Inr (concat ds), rd) \<and> stream rd = rest"
proof -
  have "stands (reader_new src) (write_chunked ds @ rest) (src_end (so_reads src)) (so_unclean src)"
    by (simp add: stands_def reader_new_def stream_def available_def assms(4))
  from read_chunked_agrees [OF this, of lims "[]"] whole_chunked_written [OF assms(1), of "[]" lims "src_end (so_reads src)" rest]
  show ?thesis using assms(2,3) by (cases "read_chunked lims (reader_new src) []") (simp add: agrees_def stands_def)
qed

theorem chunked_round_trip_witness:
  "\<exists>rd. read_chunked \<lparr>max_header_bytes = 100, max_body_bytes = 10\<rparr>
     (reader_new \<lparr>so_reads = [Inr ''2'', Inr (crlf @ ''ab'' @ crlf @ ''3'' @ [CR]), Inr (LF # ''cde'' @ crlf @ ''0'' @ crlf @ crlf @ ''x'')],
        so_unclean = False\<rparr>) [] = (Inr ''abcde'', rd) \<and> stream rd = ''x''"
proof -
  have "write_chunked [''ab'', ''cde''] = ''2'' @ crlf @ ''ab'' @ crlf @ ''3'' @ crlf @ ''cde'' @ crlf @ ''0'' @ crlf @ crlf"
    by code_simp
  then show ?thesis
    using chunked_round_trip [of "[''ab'', ''cde'']" "\<lparr>max_header_bytes = 100, max_body_bytes = 10\<rparr>"
        "\<lparr>so_reads = [Inr ''2'', Inr (crlf @ ''ab'' @ crlf @ ''3'' @ [CR]), Inr (LF # ''cde'' @ crlf @ ''0'' @ crlf @ crlf @ ''x'')],
        so_unclean = False\<rparr>" "''x''"] by simp
qed

end
