(* ===== verification/Spec2Isabelle.thy ===== *)
theory Spec2Isabelle
  imports Prelude BTree Cdm_Time Path_Id Command_State Command_Authz Command_Policy Command_Ledger Command_Authority
    Command_Oidc Command_Audit Command_Service Edge_Hash Edge_Chain Edge_Log Edge_Uplink Edge_Identity Edge_Board_Log Ingest_Log Ingest_Core Ingest_Service
    Float64 Cdm_Covariance Codec Codec_Measurement Kernel_Clock Kernel_Rng Kernel_Ports Kernel_Router Kernel_Pacing Kernel_Schedule
    Kernel_Models Kernel_Run Expr_Syntax Expr_Lexer Expr_Parser Kernel_Space Expr_Run Expr_Check Expr_Sound
    Label_Ladder Jobs_Log Jobs_Runner Http_Message Http_Wire
begin

text \<open>
  A verification library of altavista, the mission-engineering platform whose Rust workspace is
  \<open>src/crates\<close>. A ground service takes commands through a checked and recorded authority
  (\<open>av-command\<close>); edge producers sign and buffer batches of measurements (\<open>av-edge\<close>) that an ingest
  verifies and stores (\<open>av-ingest\<close>); a kernel steps simulated and real systems against each other,
  routes their port messages (\<open>av-kernel\<close>), converts packets (\<open>av-codec\<close>) and scores the finished run
  against objectives written in a small expression language (\<open>av-kernel/src/expr\<close>). Paths below are
  under \<open>src/crates\<close>.

  \<^bold>\<open>How the code is modelled.\<close> A Rust function is a HOL function of its arguments and of the state
  it mutates, which it returns updated; a method on \<open>&mut self\<close> takes and returns a record with the
  fields of the struct. A \<open>Result\<close> is a sum with the error on the left, an \<open>Option\<close> an option, an
  early return a branch, and a panic that the code can reach a value of the error type. \<open>i64\<close> values
  are integers and every plain operator wraps as the release build does (\<open>wrap_i64\<close>, \<open>Prelude\<close>); \<open>u64\<close>,
  \<open>u128\<close> and bytes are words where bits matter. A \<open>String\<close> is the list of its bytes. \<open>f64\<close> is a
  datatype of signed zeros, infinities, a NaN and rationals that are exactly binary64 values
  (\<open>Float64\<close>), each operation the exact one followed by a single rounding. A \<open>HashMap\<close> that is only
  looked up is a map; a \<open>BTreeMap\<close> is the sorted list of its entries (\<open>BTree\<close>).
  Code outside the workspace is a parameter: SHA-256, the protobuf encoders of prost, ECDSA and
  certificates (OpenSSL), base64, JSON, YAML and Rego, \<open>libm\<close>'s trigonometry, the Cholesky
  factorisation, and what the file system refuses. What is assumed of a parameter is a named
  hypothesis of the theorem (an encoder is undone by its decoder, a hash has no collision on the
  inputs at hand), and the theorem's witness instantiates it.

  \<^bold>\<open>Shared theories.\<close>
  \<^item> \<open>Prelude\<close>: machine types, \<open>ebind\<close> and \<open>try_then\<close> for the code's question mark, byte readers and
    writers; locale \<open>guarded_machine\<close> (an invariant every operation keeps) and locale \<open>hash_chain\<close>
    (records linked by a hash: equal heads mean equal contents), both interpreted by the ledgers,
    logs and services below.
  \<^item> \<open>BTree\<close>: ordered maps with a locale of their laws. \<open>Float64\<close>: binary64 and binary32.
  \<^item> \<open>Cdm_Time\<close> (\<open>av-cdm/src/time.rs\<close>), \<open>Path_Id\<close> (\<open>path_id.rs\<close>), \<open>Cdm_Covariance\<close> (\<open>covariance.rs\<close>).

  \<^bold>\<open>Command authority\<close> (\<open>av-command\<close>).
  \<^item> \<open>Command_State\<close> (\<open>state.rs\<close>): one function per edge of a command's life; \<open>cmd_step\<close> is the step
    relation, and rule induction over it shows that a dispatched command went through every gate.
  \<^item> \<open>Command_Authz\<close> (\<open>authz.rs\<close>, \<open>counters.rs\<close>): roles, delegations, second factor, service roles.
  \<^item> \<open>Command_Policy\<close> (\<open>policy.rs\<close>), \<open>Command_Authority\<close> (\<open>authority.rs\<close>, \<open>rate.rs\<close>): the policy's input,
    hash and decision, and the check edge. \<open>Command_Oidc\<close> (\<open>oidc.rs\<close>): tokens. \<open>Command_Audit\<close>
    (\<open>audit.rs\<close>): audit lines and their file.
  \<^item> \<open>Command_Ledger\<close> (\<open>ledger.rs\<close>): framed, hash-chained files with write faults; \<open>verify\<close> against a
    description of the file that does not use its reader (\<open>well_framed\<close>, \<open>sound_records\<close>).
  \<^item> \<open>Command_Service\<close> (\<open>service.rs\<close>): the nine handlers over all of the above. A run is a list of
    calls; the properties speak of every state a run reaches.

  \<^bold>\<open>Edge and ingest\<close> (\<open>av-edge\<close>, \<open>av-ingest\<close>).
  \<^item> \<open>Edge_Hash\<close> (\<open>hash.rs\<close>, \<open>sign.rs\<close>, \<open>verify.rs\<close>), \<open>Edge_Chain\<close> (\<open>policy.rs\<close>, \<open>chain.rs\<close>): batches and
    the verifier, which refines a list of accepted batches per producer.
  \<^item> \<open>Edge_Log\<close>, \<open>Edge_Uplink\<close> (\<open>buffer.rs\<close>): the durable buffer, which refines a list, and the driver
    that drains it in order. \<open>Edge_Identity\<close> (\<open>identity.rs\<close>). \<open>Edge_Board_Log\<close> (\<open>board_log.rs\<close>).
  \<^item> \<open>Ingest_Log\<close> (\<open>log.rs\<close>), \<open>Ingest_Core\<close> (\<open>ingest.rs\<close>, \<open>evidence.rs\<close>), \<open>Ingest_Service\<close> (\<open>service.rs\<close>,
    \<open>forwarded_cert.rs\<close>): partitions with crashes and reopening, submission, and the service's
    handshake. The scan lemmas of \<open>Edge_Log\<close> serve both logs.

  \<^bold>\<open>Packets\<close> (\<open>av-codec\<close>): \<open>Codec\<close>, \<open>Codec_Measurement\<close> (\<open>lib.rs\<close>): validation, bit fields, conversion,
  encoding and decoding, with the round trip and the absence of panics after validation.

  \<^bold>\<open>Kernel\<close> (\<open>av-kernel\<close>, \<open>av-dynamics/src/lib.rs\<close>).
  \<^item> \<open>Kernel_Clock\<close> (\<open>clock.rs\<close>), \<open>Kernel_Rng\<close> (\<open>rng.rs\<close>), \<open>Kernel_Ports\<close> (\<open>ports.rs\<close>).
  \<^item> \<open>Kernel_Router\<close> (\<open>router.rs\<close>): the routing table, port faults and queues; every copy of a message
    is taken once.
  \<^item> \<open>Kernel_Pacing\<close> (\<open>pacing.rs\<close>), \<open>Kernel_Schedule\<close> (\<open>schedule.rs\<close>), \<open>Kernel_Models\<close> (\<open>drm/replay.rs\<close>,
    \<open>drm/board_replay.rs\<close>, the container model of \<open>drm/binding.rs\<close>), \<open>Kernel_Run\<close> (\<open>kernel.rs\<close>,
    \<open>interpolate.rs\<close>, \<open>trajectory.rs\<close>): the scheduler over any model, real-time pacing, two models, and a
    whole run. Locales state what a scheduler needs of a model and what a loop needs of a step; they
    are interpreted on the scheduler's own functions.
  \<^item> \<open>Kernel_Space\<close> (\<open>trajectory.rs\<close>, \<open>interpolate.rs\<close>): state spaces, component classes, interpolation.

  \<^bold>\<open>Objectives\<close> (\<open>av-kernel/src/expr\<close>).
  \<^item> \<open>Expr_Syntax\<close> (\<open>units.rs\<close>, \<open>ast.rs\<close>, \<open>error.rs\<close>), \<open>Expr_Lexer\<close> (\<open>lexer.rs\<close>), \<open>Expr_Parser\<close> (\<open>parser.rs\<close>): the
    recursive-descent parser against an inductive grammar.
  \<^item> \<open>Expr_Run\<close> (\<open>runproducts.rs\<close>), \<open>Expr_Check\<close> (\<open>typecheck.rs\<close>, \<open>eval.rs\<close>, \<open>objective.rs\<close>), \<open>Expr_Sound\<close>: the
    unit check, the evaluator, and the soundness of the one for the other.

  \<^bold>\<open>Jobs and shared services.\<close>
  \<^item> \<open>Jobs_Log\<close> (\<open>av-jobs/src/log.rs\<close>, \<open>queue.rs\<close>): the job queue, which refines a list of events over calls
    and crashes; its records are those of \<open>Edge_Log\<close>. \<open>Jobs_Runner\<close> (\<open>runner.rs\<close>): the runner over
    executors, stores and a clock that are functions of the outside state, with the locale of a
    content-addressed store and its interpretation on the in-memory one.
  \<^item> \<open>Label_Ladder\<close> (\<open>av-label/src/lib.rs\<close>): the clearance ladder, the highest clearance of a user's groups.
  \<^item> \<open>Http_Message\<close> (\<open>av-http1/src/message.rs\<close>, \<open>error.rs\<close>, \<open>encode_head\<close> of \<open>client.rs\<close>), \<open>Http_Wire\<close>
    (\<open>wire.rs\<close>): requests and the response reader. The reader works on a buffer filled by reads of any
    size; it is compared with parsers of the whole text (\<open>whole_response\<close> and the functions it calls).

  \<^bold>\<open>Kinds of theorems.\<close> Invariants of services, logs, the router and the pacer over arbitrary runs;
  refinements of lists (chain verifier, buffer, partition, ingest); exactness of checks (a check
  says yes precisely when the stated condition holds); round trips of packets; type soundness of
  expressions; equivalences of schedules; termination and error behaviour of a run. Theorems
  without a claim number state smaller facts, and counterexamples to what a comment promises.

  \<^bold>\<open>Loops.\<close> Readers of a file, a buffer or a connection recur on the bytes left, with a \<open>measure\<close>; the lexer on the
  rest of the text and the parser on the tokens left (\<open>parse_shrinks\<close> shows that no function returns
  more than it was given). The scheduler's loops and the run depend on the
  answers of models and may not end, so they are \<open>partial_function (option)\<close> and None is not
  returning; \<open>run_with_ports_returns\<close> shows that a run that is ready returns when each model advances
  its clock by the step it was asked for. No fuel is used.

  \<^bold>\<open>Not modelled.\<close> The printed texts of errors; interleavings of two handlers between the locks
  they take; process start-up, gRPC and HTTP servers, sockets and TLS, Docker and serial lines; YAML
  readers; the numerical models and integrators (\<open>av-orbital\<close>, \<open>av-dynamics\<close>, GMAT); the scenario
  layer of the kernel (\<open>drm/executor.rs\<close>, \<open>sensors.rs\<close>, \<open>schema.rs\<close>), which assembles configurations
  into the runs modelled here; covariance propagation and the single-system kernel. The other crates
  (the executors of jobs, catalog, store, tiles, sweep, gateway, proposer, tracking) are services of their own around
  this core and are listed with their reasons in the manifest.
\<close>

end
